(* ===== verification/Nachos_Prelude.thy ===== *)
theory Nachos_Prelude
  imports Main "HOL-Library.Word" "HOL-Library.Signed_Division"
begin

text \<open>
  Shared vocabulary of the Nachos development: the ways a kernel routine can stop
  (\<open>fault\<close>), sequencing of fallible routines (\<open>bindR\<close>), C's rounding macros of
  \<^verbatim>\<open>threads/utility.h\<close>, counting loops over \<open>[0, n)\<close>, and the generic lemmas on
  lists and results that the component theories use. The collection
  \<open>nachos_defs\<close> gathers definitions a proof usually unfolds together.
\<close>

named_theorems nachos_defs \<open>definitions unfolded together in component proofs\<close>
named_theorems res_simps \<open>rewriting of fallible computations\<close>

section \<open>Faults and fallible computations\<close>

text \<open>
  \<open>AssertionFailed\<close> is the \<^verbatim>\<open>ASSERT\<close> macro of \<^verbatim>\<open>threads/utility.h\<close> calling
  \<^verbatim>\<open>Abort\<close>. \<open>NullDeref\<close>, \<open>UseAfterFree\<close>, \<open>OutOfBounds\<close>, \<open>Uninitialised\<close> and
  \<open>DivideTrap\<close> are C++ undefined behaviours, made visible instead of totalised away.
  \<open>Halted\<close> is \<^verbatim>\<open>Interrupt::Halt\<close>, which does not return. \<open>Diverges\<close> is a loop that
  exhausted its fuel. \<open>HandlerCalled\<close> ends a computation at the point where it calls the exception
  handler (the machine loop is followed from one exception to the next).
\<close>

datatype fault =
    AssertionFailed
  | NullDeref
  | UseAfterFree
  | OutOfBounds
  | Uninitialised
  | DivideTrap
  | Halted
  | Diverges
  | HandlerCalled

type_synonym 'a res = "fault + 'a"

definition bindR :: "'e + 'a \<Rightarrow> ('a \<Rightarrow> 'e + 'b) \<Rightarrow> 'e + 'b" where
  "bindR m f = (case m of Inl e \<Rightarrow> Inl e | Inr x \<Rightarrow> f x)"

lemma bindR_simps [simp, res_simps]:
  "bindR (Inl e) f = Inl e"
  "bindR (Inr x) f = f x"
  by (simp_all add: bindR_def)

lemma bindR_eq_Inr_iff: "bindR m f = Inr y \<longleftrightarrow> (\<exists>x. m = Inr x \<and> f x = Inr y)"
  by (cases m) auto

lemma bindR_eq_Inl_iff:
  "bindR m f = Inl e \<longleftrightarrow> m = Inl e \<or> (\<exists>x. m = Inr x \<and> f x = Inl e)"
  by (cases m) auto

lemma bindR_assoc: "bindR (bindR m f) g = bindR m (\<lambda>x. bindR (f x) g)"
  by (cases m) auto

lemma bindR_cong [fundef_cong]:
  "m = m' \<Longrightarrow> (\<And>x. m' = Inr x \<Longrightarrow> f x = f' x) \<Longrightarrow> bindR m f = bindR m' f'"
  by (cases m') auto

lemma bindR_split:
  "P (bindR m f) \<longleftrightarrow> (\<forall>e. m = Inl e \<longrightarrow> P (Inl e)) \<and> (\<forall>x. m = Inr x \<longrightarrow> P (f x))"
  by (cases m) auto

section \<open>The rounding macros of utility.h\<close>

definition divRoundDown :: "nat \<Rightarrow> nat \<Rightarrow> nat" where
  "divRoundDown n s = n div s"

definition divRoundUp :: "nat \<Rightarrow> nat \<Rightarrow> nat" where
  "divRoundUp n s = n div s + (if n mod s > 0 then 1 else 0)"

lemma divRoundUp_covers: "0 < s \<Longrightarrow> n \<le> divRoundUp n s * s"
proof -
  assume s: "0 < s"
  have n: "n = (n div s) * s + n mod s" by simp
  show ?thesis
  proof (cases "n mod s > 0")
    case True
    have "n mod s < s" using s by simp
    then have "n \<le> (n div s) * s + s" using n by linarith
    then show ?thesis using True by (simp add: divRoundUp_def)
  next
    case False
    then show ?thesis using n by (simp add: divRoundUp_def)
  qed
qed

lemma divRoundUp_tight: "0 < s \<Longrightarrow> divRoundUp n s * s < n + s"
proof -
  assume s: "0 < s"
  have n: "(n div s) * s \<le> n" by simp
  show ?thesis
  proof (cases "n mod s > 0")
    case True
    then have "(n div s) * s < n"
      using mod_greater_zero_iff_not_dvd [of n s] n dvd_triv_right [of s "n div s"]
      by (metis le_neq_implies_less)
    then show ?thesis using True by (simp add: divRoundUp_def)
  next
    case False
    then have "(n div s) * s < n + s" using n s by linarith
    then show ?thesis using False by (simp add: divRoundUp_def)
  qed
qed

lemma less_divRoundUp_bound:
  "0 < s \<Longrightarrow> i < n \<Longrightarrow> i div s < divRoundUp n s"
proof -
  assume s: "0 < s" and i: "i < n"
  have "i < divRoundUp n s * s" using divRoundUp_covers [OF s, of n] i by simp
  then show ?thesis using s by (simp add: less_mult_imp_div_less)
qed

section \<open>C's int\<close>

text \<open>
  A C \<^verbatim>\<open>int\<close> held in a HOL \<open>int\<close>: \<open>int32\<close> is the value after a 32-bit store, wrapping.
  C's \<^verbatim>\<open>/\<close> and \<^verbatim>\<open>%\<close> on such values are \<open>sdiv\<close> and \<open>smod\<close>, which round towards zero.
\<close>

definition int32 :: "int \<Rightarrow> int" where
  "int32 x = signed_take_bit 31 x"

lemma int32_id: "- (2 ^ 31) \<le> x \<Longrightarrow> x < 2 ^ 31 \<Longrightarrow> int32 x = x"
  by (simp add: int32_def signed_take_bit_int_eq_self)

lemma int32_small [simp]: "0 \<le> x \<Longrightarrow> x < 2147483648 \<Longrightarrow> int32 x = x"
  by (simp add: int32_id)

lemma sdiv_nonneg [simp]: "0 \<le> (a::int) \<Longrightarrow> 0 < b \<Longrightarrow> a sdiv b = a div b"
  by (cases "a = 0") (simp_all add: signed_divide_int_def sgn_mult)

lemma smod_nonneg [simp]: "0 \<le> (a::int) \<Longrightarrow> 0 < b \<Longrightarrow> a smod b = a mod b"
  by (cases "a = 0") (simp_all add: signed_modulo_int_def)

section \<open>Lists\<close>

lemma nth_list_update_if:
  "i < length xs \<Longrightarrow> xs[i := v] ! j = (if j = i then v else xs ! j)"
  by (cases "j = i") simp_all

lemma distinct_append_single: "distinct (xs @ [x]) \<longleftrightarrow> distinct xs \<and> x \<notin> set xs"
  by auto

lemma distinct_rotate_head: "distinct (x # xs) \<Longrightarrow> distinct (xs @ [x])"
  by auto

lemma takeWhile_dropWhile_split:
  "xs = takeWhile P xs @ dropWhile P xs" by simp

text \<open>
  \<open>find_index P xs n\<close> is the loop \<^verbatim>\<open>for (i = 0; i < n; i++) if (P(x[i])) return i;\<close>
  over a table, with \<open>None\<close> for falling through to \<^verbatim>\<open>return -1\<close>.
\<close>

primrec find_index :: "('a \<Rightarrow> bool) \<Rightarrow> 'a list \<Rightarrow> nat option" where
  "find_index P [] = None"
| "find_index P (x # xs) = (if P x then Some 0 else map_option Suc (find_index P xs))"

lemma find_index_None_iff: "find_index P xs = None \<longleftrightarrow> (\<forall>x \<in> set xs. \<not> P x)"
  by (induction xs) auto

lemma find_index_SomeD:
  "find_index P xs = Some i \<Longrightarrow>
     i < length xs \<and> P (xs ! i) \<and> (\<forall>j < i. \<not> P (xs ! j))"
proof (induction xs arbitrary: i)
  case Nil
  then show ?case by simp
next
  case (Cons x xs)
  show ?case
  proof (cases "P x")
    case True
    with Cons.prems show ?thesis by simp
  next
    case False
    with Cons.prems obtain k where k: "find_index P xs = Some k" and i: "i = Suc k" by auto
    from Cons.IH [OF k] show ?thesis using False i
      by (auto simp: less_Suc_eq_0_disj)
  qed
qed

lemma find_index_Some_iff:
  "find_index P xs = Some i \<longleftrightarrow>
     i < length xs \<and> P (xs ! i) \<and> (\<forall>j < i. \<not> P (xs ! j))"
proof
  assume "find_index P xs = Some i"
  then show "i < length xs \<and> P (xs ! i) \<and> (\<forall>j < i. \<not> P (xs ! j))"
    by (rule find_index_SomeD)
next
  assume r: "i < length xs \<and> P (xs ! i) \<and> (\<forall>j < i. \<not> P (xs ! j))"
  then have "find_index P xs \<noteq> None" by (auto simp: find_index_None_iff)
  then obtain k where k: "find_index P xs = Some k" by auto
  from find_index_SomeD [OF k] r have "k = i"
    by (metis linorder_neqE_nat)
  with k show "find_index P xs = Some i" by simp
qed

section \<open>C strings\<close>

text \<open>The characters of a \<^verbatim>\<open>char*\<close> before its terminating zero.\<close>

definition cstr :: "8 word list \<Rightarrow> 8 word list" where
  "cstr xs = takeWhile ((\<noteq>) 0) xs"

end
