(* ===== verification/Linked_List.thy ===== *)
theory Linked_List
  imports Nachos_Prelude "HOL-Library.Multiset"
begin

text \<open>
  The singly linked list of \<^verbatim>\<open>threads/list.cc\<close>, over an explicit heap of
  \<open>ListElement\<close> cells. Every routine is translated with its pointer manipulations;
  the invariant \<open>List_inv\<close> says that the cells form one acyclic chain from
  \<^verbatim>\<open>first\<close> to \<^verbatim>\<open>last\<close> and that no other cell is allocated, and each routine is
  shown to refine the corresponding operation on HOL lists without a fault. The
  components that only queue and dequeue use HOL lists for their queues, on the
  strength of these refinements.
\<close>

section \<open>Cells, heaps and the list object\<close>

type_synonym addr = nat

record 'a ListElement =
  el_next :: "addr option"
  el_key :: int
  el_item :: "'a option"

record 'a List =
  heap :: "addr \<rightharpoonup> 'a ListElement"
  brk :: addr
  list_first :: "addr option"
  list_last :: "addr option"

definition deref :: "'a List \<Rightarrow> addr option \<Rightarrow> (addr \<times> 'a ListElement) res" where
  "deref l p = (case p of None \<Rightarrow> Inl NullDeref
     | Some a \<Rightarrow> (case heap l a of None \<Rightarrow> Inl UseAfterFree | Some e \<Rightarrow> Inr (a, e)))"

definition set_next :: "'a List \<Rightarrow> addr option \<Rightarrow> addr option \<Rightarrow> 'a List res" where
  "set_next l p q = bindR (deref l p) (\<lambda>(a, e).
     Inr (l\<lparr>heap := (heap l)(a \<mapsto> e\<lparr>el_next := q\<rparr>)\<rparr>))"

text \<open>\<^verbatim>\<open>new ListElement(item, key)\<close>: the constructor runs on a fresh address.\<close>

definition new_ListElement :: "'a List \<Rightarrow> 'a option \<Rightarrow> int \<Rightarrow> 'a List \<times> addr" where
  "new_ListElement l it k =
     (l\<lparr>heap := (heap l)(brk l \<mapsto> \<lparr>el_next = None, el_key = k, el_item = it\<rparr>),
        brk := Suc (brk l)\<rparr>, brk l)"

definition new_List :: "'a List" where
  "new_List = \<lparr>heap = Map.empty, brk = 0, list_first = None, list_last = None\<rparr>"

definition List_IsEmpty :: "'a List \<Rightarrow> bool" where
  "List_IsEmpty l = (if list_first l = None then True else False)"

definition List_Append :: "'a List \<Rightarrow> 'a option \<Rightarrow> 'a List res" where
  "List_Append l it =
     (let (l1, element) = new_ListElement l it 0 in
      if List_IsEmpty l1
      then Inr (l1\<lparr>list_first := Some element, list_last := Some element\<rparr>)
      else bindR (set_next l1 (list_last l1) (Some element)) (\<lambda>l2.
           Inr (l2\<lparr>list_last := Some element\<rparr>)))"

definition List_Prepend :: "'a List \<Rightarrow> 'a option \<Rightarrow> 'a List res" where
  "List_Prepend l it =
     (let (l1, element) = new_ListElement l it 0 in
      if List_IsEmpty l1
      then Inr (l1\<lparr>list_first := Some element, list_last := Some element\<rparr>)
      else bindR (set_next l1 (Some element) (list_first l1)) (\<lambda>l2.
           Inr (l2\<lparr>list_first := Some element\<rparr>)))"

text \<open>
  The search loop of \<^verbatim>\<open>SortedInsert\<close>: \<open>ptr\<close> walks the chain until the next element
  is bigger or there is none. A cyclic chain would make the loop run forever, so it
  takes fuel; \<open>SortedInsert_walk_ok\<close> shows that the number of cells ever allocated is
  enough.
\<close>

fun SortedInsert_walk ::
  "nat \<Rightarrow> 'a List \<Rightarrow> addr option \<Rightarrow> addr \<Rightarrow> int \<Rightarrow> 'a List res" where
  "SortedInsert_walk 0 l ptr element sortKey = Inl Diverges"
| "SortedInsert_walk (Suc n) l ptr element sortKey =
     bindR (deref l ptr) (\<lambda>(a, e).
       if el_next e \<noteq> None
       then bindR (deref l (el_next e)) (\<lambda>(b, e').
              if sortKey < el_key e'
              then bindR (set_next l (Some element) (el_next e)) (\<lambda>l1.
                   set_next l1 ptr (Some element))
              else SortedInsert_walk n l (el_next e) element sortKey)
       else bindR (set_next l (list_last l) (Some element)) (\<lambda>l1.
            Inr (l1\<lparr>list_last := Some element\<rparr>)))"

definition List_SortedInsert :: "'a List \<Rightarrow> 'a option \<Rightarrow> int \<Rightarrow> 'a List res" where
  "List_SortedInsert l it sortKey =
     (let (l1, element) = new_ListElement l it sortKey in
      if List_IsEmpty l1
      then Inr (l1\<lparr>list_first := Some element, list_last := Some element\<rparr>)
      else bindR (deref l1 (list_first l1)) (\<lambda>(_, f).
           if sortKey < el_key f
           then bindR (set_next l1 (Some element) (list_first l1)) (\<lambda>l2.
                Inr (l2\<lparr>list_first := Some element\<rparr>))
           else SortedInsert_walk (brk l1) l1 (list_first l1) element sortKey))"

text \<open>
  \<open>List_SortedRemove\<close> returns the removed item (\<open>None\<close> for \<^verbatim>\<open>NULL\<close>), the value stored
  through \<^verbatim>\<open>keyPtr\<close> (\<open>None\<close>: not written) and the list with the cell freed.
\<close>

definition List_SortedRemove :: "'a List \<Rightarrow> ('a option \<times> int option \<times> 'a List) res" where
  "List_SortedRemove l =
     (if List_IsEmpty l then Inr (None, None, l)
      else bindR (deref l (list_first l)) (\<lambda>(a, element).
        let thing = el_item element;
            l1 = (if list_first l = list_last l
                  then l\<lparr>list_first := None, list_last := None\<rparr>
                  else l\<lparr>list_first := el_next element\<rparr>)
        in Inr (thing, Some (el_key element), l1\<lparr>heap := (heap l1)(a := None)\<rparr>)))"

definition List_Remove :: "'a List \<Rightarrow> ('a option \<times> 'a List) res" where
  "List_Remove l = bindR (List_SortedRemove l) (\<lambda>(thing, _, l1). Inr (thing, l1))"

text \<open>The destructor's loop \<^verbatim>\<open>while (Remove() != NULL)\<close>.\<close>

fun List_destroy_loop :: "nat \<Rightarrow> 'a List \<Rightarrow> 'a List res" where
  "List_destroy_loop 0 l = Inl Diverges"
| "List_destroy_loop (Suc n) l =
     bindR (List_Remove l) (\<lambda>(thing, l1).
       if thing \<noteq> None then List_destroy_loop n l1 else Inr l1)"

definition List_destroy :: "'a List \<Rightarrow> 'a List res" where
  "List_destroy l = List_destroy_loop (Suc (brk l)) l"

text \<open>
  \<^verbatim>\<open>Mapcar\<close> calls \<open>func\<close> on every item from first to last; the calls' effect is a
  state \<open>'s\<close> that \<open>func\<close> transforms.
\<close>

fun Mapcar_walk :: "nat \<Rightarrow> 'a List \<Rightarrow> addr option \<Rightarrow> ('a option \<Rightarrow> 's \<Rightarrow> 's) \<Rightarrow> 's \<Rightarrow> 's res" where
  "Mapcar_walk 0 l ptr func s = Inl Diverges"
| "Mapcar_walk (Suc n) l ptr func s =
     (if ptr = None then Inr s
      else bindR (deref l ptr) (\<lambda>(a, e). Mapcar_walk n l (el_next e) func (func (el_item e) s)))"

definition List_Mapcar :: "'a List \<Rightarrow> ('a option \<Rightarrow> 's \<Rightarrow> 's) \<Rightarrow> 's \<Rightarrow> 's res" where
  "List_Mapcar l func s = Mapcar_walk (Suc (brk l)) l (list_first l) func s"

section \<open>The chain invariant and the abstraction to HOL lists\<close>

fun path :: "(addr \<rightharpoonup> 'a ListElement) \<Rightarrow> addr option \<Rightarrow> addr list \<Rightarrow> addr option \<Rightarrow> bool" where
  "path h p [] q \<longleftrightarrow> p = q"
| "path h p (a # as) q \<longleftrightarrow> p = Some a \<and> (\<exists>e. h a = Some e \<and> path h (el_next e) as q)"

definition represents :: "'a List \<Rightarrow> addr list \<Rightarrow> bool" where
  "represents l as \<longleftrightarrow>
     path (heap l) (list_first l) as None \<and> distinct as \<and> set as = dom (heap l) \<and>
     (\<forall>a \<in> set as. a < brk l) \<and>
     list_last l = (if as = [] then None else Some (last as))"

definition List_inv :: "'a List \<Rightarrow> bool" where
  "List_inv l \<longleftrightarrow> (\<exists>as. represents l as)"

definition entry :: "(addr \<rightharpoonup> 'a ListElement) \<Rightarrow> addr \<Rightarrow> 'a option \<times> int" where
  "entry h a = (case h a of None \<Rightarrow> (None, 0) | Some e \<Rightarrow> (el_item e, el_key e))"

text \<open>The executable view of a list: its items and keys in chain order.\<close>

fun entries_from :: "nat \<Rightarrow> (addr \<rightharpoonup> 'a ListElement) \<Rightarrow> addr option \<Rightarrow> ('a option \<times> int) list" where
  "entries_from 0 h p = []"
| "entries_from (Suc n) h p = (case p of None \<Rightarrow> []
     | Some a \<Rightarrow> (case h a of None \<Rightarrow> []
        | Some e \<Rightarrow> (el_item e, el_key e) # entries_from n h (el_next e)))"

definition entries :: "'a List \<Rightarrow> ('a option \<times> int) list" where
  "entries l = entries_from (brk l) (heap l) (list_first l)"

subsection \<open>Chains\<close>

lemma path_append:
  "path h p (as @ bs) q \<longleftrightarrow> (\<exists>r. path h p as r \<and> path h r bs q)"
  by (induction as arbitrary: p) auto

lemma path_upd_notin [simp]: "a \<notin> set as \<Longrightarrow> path (h(a := v)) p as q = path h p as q"
  by (induction as arbitrary: p) auto

lemma path_None_first [simp]: "path h None as q \<longleftrightarrow> as = [] \<and> q = None"
  by (cases as) auto

lemma path_nonempty_first: "path h p as None \<Longrightarrow> as \<noteq> [] \<Longrightarrow> p = Some (hd as)"
  by (cases as) auto

lemma path_last_next:
  "path h p as None \<Longrightarrow> as \<noteq> [] \<Longrightarrow> \<exists>e. h (last as) = Some e \<and> el_next e = None"
proof (induction as arbitrary: p)
  case Nil
  then show ?case by simp
next
  case (Cons a as)
  then show ?case by (cases as) auto
qed

lemma path_entries_from:
  "path h p as None \<Longrightarrow> length as \<le> n \<Longrightarrow> entries_from n h p = map (entry h) as"
proof (induction as arbitrary: p n)
  case Nil
  then show ?case by (cases n) auto
next
  case (Cons a as)
  then obtain e m where e: "h a = Some e" "p = Some a" "path h (el_next e) as None"
    and n: "n = Suc m" "length as \<le> m" by (cases n) auto
  from Cons.IH [OF e(3) n(2)] e n show ?case by (simp add: entry_def)
qed

lemma distinct_bounded_length:
  "distinct as \<Longrightarrow> \<forall>a \<in> set as. a < n \<Longrightarrow> length as \<le> (n::nat)"
proof -
  assume d: "distinct as" and b: "\<forall>a \<in> set as. a < n"
  from b have "set as \<subseteq> {..<n}" by auto
  then have "card (set as) \<le> n" using card_mono [of "{..<n}" "set as"] by simp
  with d show ?thesis by (simp add: distinct_card)
qed

lemma representsD:
  assumes "represents l as"
  shows "path (heap l) (list_first l) as None" "distinct as" "set as = dom (heap l)"
    "a \<in> set as \<Longrightarrow> a < brk l" "as \<noteq> [] \<Longrightarrow> list_last l = Some (last as)"
    "as = [] \<Longrightarrow> list_last l = None"
  using assms by (simp_all add: represents_def)

lemma represents_length: "represents l as \<Longrightarrow> length as \<le> brk l"
  by (auto simp: represents_def intro: distinct_bounded_length)

lemma represents_entries: "represents l as \<Longrightarrow> entries l = map (entry (heap l)) as"
  using path_entries_from represents_length
  by (fastforce simp: represents_def entries_def)

lemma represents_empty_iff: "represents l as \<Longrightarrow> List_IsEmpty l \<longleftrightarrow> as = []"
  by (cases as) (auto simp: represents_def List_IsEmpty_def)

section \<open>Each routine refines its list operation\<close>

lemma path_set_next_last:
  "path h p as None \<Longrightarrow> distinct as \<Longrightarrow> as \<noteq> [] \<Longrightarrow> h (last as) = Some e \<Longrightarrow>
     path (h(last as \<mapsto> e\<lparr>el_next := q\<rparr>)) p as q"
proof (induction as arbitrary: p)
  case Nil
  then show ?case by simp
next
  case (Cons a as)
  show ?case
  proof (cases "as = []")
    case True
    with Cons.prems show ?thesis by auto
  next
    case False
    with Cons.prems have "last as \<noteq> a" by (metis distinct.simps(2) last_in_set)
    with False Cons show ?thesis by auto
  qed
qed

lemma entry_set_next [simp]:
  "h a = Some e \<Longrightarrow> entry (h(a \<mapsto> e\<lparr>el_next := q\<rparr>)) = entry h"
  by (auto simp: entry_def fun_eq_iff)

lemma map_entry_upd_notin [simp]:
  "a \<notin> set as \<Longrightarrow> map (entry (h(a := v))) as = map (entry h) as"
  by (induction as) (auto simp: entry_def)

lemma represents_new_List: "represents new_List []"
  by (simp add: represents_def new_List_def)

lemma represents_notin_brk: "represents l as \<Longrightarrow> brk l \<notin> set as \<and> heap l (brk l) = None"
  by (auto simp: represents_def)

text \<open>Putting a fresh cell behind the last one; \<open>k\<close> is its key.\<close>

lemma represents_link_last:
  assumes r: "represents l as" and ne: "as \<noteq> []"
    and l1: "(l1, el) = new_ListElement l it k"
  shows "\<exists>l2. set_next l1 (list_last l1) (Some el) = Inr l2 \<and>
     represents (l2\<lparr>list_last := Some el\<rparr>) (as @ [el]) \<and>
     entries (l2\<lparr>list_last := Some el\<rparr>) = entries l @ [(it, k)]"
proof -
  let ?new = "\<lparr>el_next = None, el_key = k, el_item = it\<rparr>"
  from l1 have l1_eq: "l1 = l\<lparr>heap := (heap l)(brk l \<mapsto> ?new), brk := Suc (brk l)\<rparr>"
    and el: "el = brk l" by (simp_all add: new_ListElement_def)
  from r ne obtain e where e: "heap l (last as) = Some e" "el_next e = None"
    using path_last_next [OF representsD(1)] by blast
  have lastnb: "last as \<noteq> brk l" using r ne represents_notin_brk last_in_set by metis
  define h2 where "h2 = ((heap l)(brk l \<mapsto> ?new))(last as \<mapsto> e\<lparr>el_next := Some el\<rparr>)"
  define l2 where "l2 = l1\<lparr>heap := h2\<rparr>"
  have sn: "set_next l1 (list_last l1) (Some el) = Inr l2"
  proof -
    have "list_last l1 = Some (last as)" and "heap l1 (last as) = Some e"
      using r ne e lastnb by (simp_all add: l1_eq represents_def)
    moreover have "h2 = (heap l1)(last as \<mapsto> e\<lparr>el_next := Some el\<rparr>)"
      by (simp add: h2_def l1_eq)
    ultimately show ?thesis by (simp add: set_next_def deref_def l2_def)
  qed
  have p: "path h2 (list_first l) as (Some el)"
  proof -
    have "path ((heap l)(last as \<mapsto> e\<lparr>el_next := Some el\<rparr>)) (list_first l) as (Some el)"
      using r ne e path_set_next_last by (fastforce simp: represents_def)
    moreover have "h2 = ((heap l)(last as \<mapsto> e\<lparr>el_next := Some el\<rparr>))(brk l \<mapsto> ?new)"
      using lastnb by (auto simp: h2_def)
    ultimately show ?thesis using represents_notin_brk [OF r] by simp
  qed
  have rep: "represents (l2\<lparr>list_last := Some el\<rparr>) (as @ [el])"
    using r p lastnb e represents_notin_brk [OF r]
    by (auto simp: represents_def l2_def l1_eq path_append el h2_def less_Suc_eq)
  have "map (entry h2) as = map (entry (heap l)) as"
    using represents_notin_brk [OF r] e lastnb by (simp add: h2_def)
  moreover have "entry h2 el = (it, k)" using lastnb by (simp add: h2_def el entry_def)
  ultimately have "entries (l2\<lparr>list_last := Some el\<rparr>) = entries l @ [(it, k)]"
    using represents_entries [OF rep] represents_entries [OF r] by (simp add: l2_def)
  with sn rep show ?thesis by blast
qed

text \<open>Putting a fresh cell before the first one.\<close>

lemma represents_link_first:
  assumes r: "represents l as" and ne: "as \<noteq> []"
    and l1: "(l1, el) = new_ListElement l it k"
  shows "\<exists>l2. set_next l1 (Some el) (list_first l1) = Inr l2 \<and>
     represents (l2\<lparr>list_first := Some el\<rparr>) (el # as) \<and>
     entries (l2\<lparr>list_first := Some el\<rparr>) = (it, k) # entries l"
proof -
  let ?new = "\<lparr>el_next = list_first l, el_key = k, el_item = it\<rparr>"
  from l1 have el: "el = brk l" by (simp add: new_ListElement_def)
  define l2 where "l2 = l\<lparr>heap := (heap l)(brk l \<mapsto> ?new), brk := Suc (brk l)\<rparr>"
  have sn: "set_next l1 (Some el) (list_first l1) = Inr l2"
    using l1 by (simp add: set_next_def deref_def l2_def new_ListElement_def)
  have rep: "represents (l2\<lparr>list_first := Some el\<rparr>) (el # as)"
    using representsD [OF r] ne represents_notin_brk [OF r]
    by (auto simp: represents_def l2_def el less_Suc_eq)
  have "entries (l2\<lparr>list_first := Some el\<rparr>) = (it, k) # entries l"
    using represents_entries [OF rep] represents_entries [OF r] represents_notin_brk [OF r]
    by (simp add: l2_def el entry_def)
  with sn rep show ?thesis by blast
qed

lemma represents_singleton:
  assumes r: "represents l []" and l1: "(l1, el) = new_ListElement l it k"
  shows "represents (l1\<lparr>list_first := Some el, list_last := Some el\<rparr>) [el]"
    and "entries (l1\<lparr>list_first := Some el, list_last := Some el\<rparr>) = [(it, k)]"
proof -
  show rep: "represents (l1\<lparr>list_first := Some el, list_last := Some el\<rparr>) [el]"
    using r l1 by (auto simp: represents_def new_ListElement_def)
  show "entries (l1\<lparr>list_first := Some el, list_last := Some el\<rparr>) = [(it, k)]"
    using represents_entries [OF rep] l1 by (simp add: entry_def new_ListElement_def)
qed

lemma List_IsEmpty_new:
  "(l1, el) = new_ListElement l it k \<Longrightarrow> List_IsEmpty l1 = List_IsEmpty l"
  by (simp add: new_ListElement_def List_IsEmpty_def)

lemma Append_represents:
  assumes r: "represents l as"
  shows "\<exists>l' el. List_Append l it = Inr l' \<and> represents l' (as @ [el]) \<and>
     entries l' = entries l @ [(it, 0)]"
proof -
  obtain l1 el where n: "(l1, el) = new_ListElement l it 0" by (metis surj_pair)
  show ?thesis
  proof (cases "as = []")
    case True
    then have "List_IsEmpty l1" "entries l = []"
      using represents_empty_iff [OF r] represents_entries [OF r] List_IsEmpty_new [OF n]
      by simp_all
    with True represents_singleton [OF _ n] r show ?thesis
      by (auto simp: List_Append_def n [symmetric])
  next
    case False
    then have "\<not> List_IsEmpty l1"
      using represents_empty_iff [OF r] List_IsEmpty_new [OF n] by simp
    with represents_link_last [OF r False n] show ?thesis
      by (auto simp: List_Append_def n [symmetric])
  qed
qed

lemma Prepend_represents:
  assumes r: "represents l as"
  shows "\<exists>l' el. List_Prepend l it = Inr l' \<and> represents l' (el # as) \<and>
     entries l' = (it, 0) # entries l"
proof -
  obtain l1 el where n: "(l1, el) = new_ListElement l it 0" by (metis surj_pair)
  show ?thesis
  proof (cases "as = []")
    case True
    then have "List_IsEmpty l1" "entries l = []"
      using represents_empty_iff [OF r] represents_entries [OF r] List_IsEmpty_new [OF n]
      by simp_all
    with True represents_singleton [OF _ n] r show ?thesis
      by (auto simp: List_Prepend_def n [symmetric])
  next
    case False
    then have "\<not> List_IsEmpty l1"
      using represents_empty_iff [OF r] List_IsEmpty_new [OF n] by simp
    with represents_link_first [OF r False n] show ?thesis
      by (auto simp: List_Prepend_def n [symmetric])
  qed
qed

lemma SortedRemove_represents:
  assumes r: "represents l (a # as)"
  shows "\<exists>l' it k. List_SortedRemove l = Inr (it, Some k, l') \<and> represents l' as \<and>
     entries l = (it, k) # entries l'"
proof -
  from r obtain e where e: "heap l a = Some e" "list_first l = Some a"
    "path (heap l) (el_next e) as None" by (auto simp: represents_def)
  have same: "list_first l = list_last l \<longleftrightarrow> as = []"
    using r e by (auto simp: represents_def)
  define l' where "l' = (if as = [] then l\<lparr>list_first := None, list_last := None\<rparr>
     else l\<lparr>list_first := el_next e\<rparr>)\<lparr>heap := (heap l)(a := None)\<rparr>"
  have sr: "List_SortedRemove l = Inr (el_item e, Some (el_key e), l')"
    using e same by (auto simp: List_SortedRemove_def List_IsEmpty_def deref_def l'_def Let_def)
  have rep: "represents l' as"
    using r e by (auto simp: represents_def l'_def dom_def)
  have "entries l = (el_item e, el_key e) # entries l'"
    using represents_entries [OF rep] represents_entries [OF r] e r
    by (simp add: l'_def entry_def represents_def)
  with sr rep show ?thesis by blast
qed

lemma SortedRemove_empty:
  "represents l [] \<Longrightarrow> List_SortedRemove l = Inr (None, None, l)"
  by (simp add: List_SortedRemove_def represents_empty_iff)

lemma Remove_represents:
  "represents l (a # as) \<Longrightarrow> \<exists>l' it k. List_Remove l = Inr (it, l') \<and> represents l' as \<and>
     entries l = (it, k) # entries l'"
  using SortedRemove_represents by (fastforce simp: List_Remove_def)

text \<open>Putting a fresh cell between two neighbours \<open>a\<close> and \<open>b\<close> of the chain.\<close>

lemma represents_link_middle:
  assumes r: "represents l (pre @ a # b # post)"
    and l1: "(l1, el) = new_ListElement l it k"
  shows "\<exists>l2 l3. set_next l1 (Some el) (Some b) = Inr l2 \<and> set_next l2 (Some a) (Some el) = Inr l3 \<and>
     represents l3 (pre @ a # el # b # post) \<and>
     entries l3 = map (entry (heap l)) (pre @ [a]) @ (it, k) # map (entry (heap l)) (b # post)"
proof -
  let ?new = "\<lparr>el_next = Some b, el_key = k, el_item = it\<rparr>"
  let ?as = "pre @ a # b # post"
  have el: "el = brk l" using l1 by (simp add: new_ListElement_def)
  note D = representsD [OF r]
  have pa: "path (heap l) (list_first l) pre (Some a)"
    and pb: "path (heap l) (Some b) (b # post) None"
    using D(1) by (auto simp: path_append)
  obtain e where e: "heap l a = Some e" "el_next e = Some b" using D(1) by (auto simp: path_append)
  have nb: "brk l \<notin> set ?as" "heap l (brk l) = None" using represents_notin_brk [OF r] by auto
  then have anb: "a \<noteq> brk l" by auto
  define l2 where "l2 = l\<lparr>heap := (heap l)(brk l \<mapsto> ?new), brk := Suc (brk l)\<rparr>"
  define l3 where "l3 = l2\<lparr>heap := (heap l2)(a \<mapsto> e\<lparr>el_next := Some el\<rparr>)\<rparr>"
  have s1: "set_next l1 (Some el) (Some b) = Inr l2"
    using l1 by (simp add: set_next_def deref_def l2_def new_ListElement_def)
  have s2: "set_next l2 (Some a) (Some el) = Inr l3"
    using e anb by (simp add: set_next_def deref_def l2_def l3_def)
  have "path (heap l3) (list_first l) pre (Some a)" "path (heap l3) (Some b) (b # post) None"
    using pa pb D(2) nb anb unfolding l3_def l2_def
    by (simp_all del: path.simps)
  then have "path (heap l3) (list_first l3) (pre @ a # el # b # post) None"
    using anb by (auto simp: path_append l3_def l2_def el)
  moreover have "set (pre @ a # el # b # post) = dom (heap l3)"
    using D(3) e by (auto simp: l3_def l2_def el)
  ultimately have rep: "represents l3 (pre @ a # el # b # post)"
    using D nb by (auto simp: represents_def l3_def l2_def el less_Suc_eq)
  have "entry (heap l3) x = entry (heap l) x" if "x \<noteq> brk l" for x
    using that e by (auto simp: l3_def l2_def entry_def)
  then have "\<forall>x \<in> set ?as. entry (heap l3) x = entry (heap l) x" using nb(1) by metis
  moreover have "entry (heap l3) el = (it, k)" using anb by (simp add: l3_def l2_def el entry_def)
  ultimately have "entries l3 = map (entry (heap l)) (pre @ [a]) @ (it, k) # map (entry (heap l)) (b # post)"
    using represents_entries [OF rep] by simp
  with s1 s2 rep show ?thesis by blast
qed

text \<open>
  The abstract insertion: before the first entry whose key is bigger, hence after every
  entry of an equal key.
\<close>

definition sorted_insert :: "'b \<Rightarrow> int \<Rightarrow> ('b \<times> int) list \<Rightarrow> ('b \<times> int) list" where
  "sorted_insert it k xs =
     takeWhile (\<lambda>(_, k'). \<not> k < k') xs @ (it, k) # dropWhile (\<lambda>(_, k'). \<not> k < k') xs"

lemma sorted_insert_split:
  assumes "\<forall>x \<in> set xs. \<not> k < snd x" and "ys = [] \<or> k < snd (hd ys)"
  shows "sorted_insert it k (xs @ ys) = xs @ (it, k) # ys"
proof -
  have "takeWhile (\<lambda>(_, k'). \<not> k < k') (xs @ ys) = xs"
    using assms by (cases ys) (auto simp: takeWhile_append split: prod.splits)
  moreover have "dropWhile (\<lambda>(_, k'). \<not> k < k') (xs @ ys) = ys"
    using assms by (cases ys) (auto simp: dropWhile_append split: prod.splits)
  ultimately show ?thesis by (simp add: sorted_insert_def)
qed

lemma SortedInsert_walk_ok:
  assumes r: "represents l (pre @ a # post)"
    and l1: "(l1, el) = new_ListElement l it k"
    and keys: "\<forall>x \<in> set (pre @ [a]). \<not> k < snd (entry (heap l) x)"
    and fuel: "length post < n"
  shows "\<exists>l' bs. SortedInsert_walk n l1 (Some a) el k = Inr l' \<and> represents l' bs \<and>
     entries l' = sorted_insert it k (entries l)"
  using r keys fuel
proof (induction post arbitrary: n a pre)
  case Nil
  then obtain m where n: "n = Suc m" by (cases n) auto
  note D = representsD [OF Nil.prems(1)]
  obtain e where e: "heap l a = Some e" "el_next e = None" using D(1) by (auto simp: path_append)
  have a: "a \<noteq> brk l" using D(4) [of a] by simp
  have "deref l1 (Some a) = Inr (a, e)"
    using e a l1 by (simp add: deref_def new_ListElement_def)
  moreover have "sorted_insert it k (entries l @ []) = entries l @ [(it, k)]"
    using Nil.prems represents_entries [OF Nil.prems(1)]
    by (intro sorted_insert_split) auto
  ultimately show ?case
    using represents_link_last [OF Nil.prems(1) _ l1] e n by auto
next
  case (Cons b post)
  then obtain m where n: "n = Suc m" "length post < m" by (cases n) auto
  note D = representsD [OF Cons.prems(1)]
  obtain e f where e: "heap l a = Some e" "el_next e = Some b" "heap l b = Some f"
    using D(1) by (auto simp: path_append)
  have ab: "a \<noteq> brk l" "b \<noteq> brk l" using D(4) [of a] D(4) [of b] by auto
  have d: "deref l1 (Some a) = Inr (a, e)" "deref l1 (Some b) = Inr (b, f)"
    using e ab l1 by (simp_all add: deref_def new_ListElement_def)
  have kb: "snd (entry (heap l) b) = el_key f" using e by (simp add: entry_def)
  show ?case
  proof (cases "k < el_key f")
    case True
    have "entries l = map (entry (heap l)) (pre @ [a]) @ map (entry (heap l)) (b # post)"
      using represents_entries [OF Cons.prems(1)] by simp
    moreover have "sorted_insert it k (map (entry (heap l)) (pre @ [a]) @ map (entry (heap l)) (b # post))
      = map (entry (heap l)) (pre @ [a]) @ (it, k) # map (entry (heap l)) (b # post)"
      using Cons.prems(2) True kb by (intro sorted_insert_split) auto
    ultimately show ?thesis
      using represents_link_middle [OF Cons.prems(1) l1] d e n True by auto
  next
    case False
    have "\<forall>x \<in> set ((pre @ [a]) @ [b]). \<not> k < snd (entry (heap l) x)"
      using Cons.prems(2) False kb by auto
    then have "\<exists>l' bs. SortedInsert_walk m l1 (Some b) el k = Inr l' \<and> represents l' bs \<and>
       entries l' = sorted_insert it k (entries l)"
      using Cons.IH [of "pre @ [a]" b m] Cons.prems(1) n(2) by simp
    then show ?thesis using d e n False by auto
  qed
qed

lemma SortedInsert_represents:
  assumes r: "represents l as"
  shows "\<exists>l' bs. List_SortedInsert l it k = Inr l' \<and> represents l' bs \<and>
     entries l' = sorted_insert it k (entries l)"
proof -
  obtain l1 el where n: "(l1, el) = new_ListElement l it k" by (metis surj_pair)
  note emp = represents_empty_iff [OF r] List_IsEmpty_new [OF n]
  show ?thesis
  proof (cases as)
    case Nil
    then show ?thesis
      using represents_singleton [OF _ n] r emp represents_entries [OF r]
      by (auto simp: List_SortedInsert_def n [symmetric] sorted_insert_def)
  next
    case (Cons a post)
    note D = representsD [OF r]
    obtain e where e: "heap l a = Some e" "list_first l = Some a"
      using D(1) Cons by auto
    have l1: "list_first l1 = Some a" "brk l1 = Suc (brk l)" "deref l1 (Some a) = Inr (a, e)"
      using n e D(4) [of a] Cons by (auto simp: deref_def new_ListElement_def)
    have key: "snd (entry (heap l) a) = el_key e" using e by (simp add: entry_def)
    show ?thesis
    proof (cases "k < el_key e")
      case True
      have "sorted_insert it k ([] @ entries l) = [] @ (it, k) # entries l"
        using True key represents_entries [OF r] Cons by (intro sorted_insert_split) auto
      then show ?thesis
        using True represents_link_first [OF r _ n] l1 emp Cons
        by (auto simp: List_SortedInsert_def n [symmetric])
    next
      case False
      have "length post < brk l1" using represents_length [OF r] l1 Cons by simp
      then have "\<exists>l' bs. SortedInsert_walk (brk l1) l1 (Some a) el k = Inr l' \<and> represents l' bs \<and>
         entries l' = sorted_insert it k (entries l)"
        using False key r Cons by (intro SortedInsert_walk_ok [of l "[]" a post, OF _ n]) auto
      moreover have "List_SortedInsert l it k = SortedInsert_walk (brk l1) l1 (Some a) el k"
        using False l1 emp Cons
        by (simp add: List_SortedInsert_def n [symmetric] del: SortedInsert_walk.simps)
      ultimately show ?thesis by simp
    qed
  qed
qed

section \<open>Freeing and traversing\<close>

lemma destroy_loop_ok:
  "represents l as \<Longrightarrow> length as < n \<Longrightarrow> (\<forall>x \<in> set (entries l). fst x \<noteq> None) \<Longrightarrow>
     \<exists>l'. List_destroy_loop n l = Inr l' \<and> represents l' []"
proof (induction as arbitrary: l n)
  case Nil
  then obtain m where "n = Suc m" by (cases n) auto
  with Nil.prems SortedRemove_empty [OF Nil.prems(1)] show ?case by (simp add: List_Remove_def)
next
  case (Cons a as)
  then obtain m where n: "n = Suc m" "length as < m" by (cases n) auto
  from Remove_represents [OF Cons.prems(1)] obtain l' it k where
    rm: "List_Remove l = Inr (it, l')" "represents l' as" "entries l = (it, k) # entries l'" by blast
  with Cons.IH [OF rm(2) n(2)] Cons.prems(3) n show ?case by auto
qed

lemma Mapcar_walk_ok:
  "path (heap l) p as None \<Longrightarrow> length as < n \<Longrightarrow>
     Mapcar_walk n l p func s = Inr (fold func (map (fst \<circ> entry (heap l)) as) s)"
proof (induction as arbitrary: p n s)
  case Nil
  then show ?case by (cases n) auto
next
  case (Cons a as)
  then obtain m e where "n = Suc m" "length as < m" "p = Some a" "heap l a = Some e"
    "path (heap l) (el_next e) as None" by (cases n) auto
  with Cons.IH show ?case by (simp add: deref_def entry_def)
qed

section \<open>Sorted insertion is a stable sort\<close>

lemma sorted_insert_Cons:
  "sorted_insert it k ((x, k') # xs) =
     (if k < k' then (it, k) # (x, k') # xs else (x, k') # sorted_insert it k xs)"
  by (simp add: sorted_insert_def)

lemma sorted_insert_Nil [simp]: "sorted_insert it k [] = [(it, k)]"
  by (simp add: sorted_insert_def)

lemma map_sorted_insert:
  "map (\<lambda>(x, k). (f x, k)) (sorted_insert it k xs) =
     sorted_insert (f it) k (map (\<lambda>(x, k). (f x, k)) xs)"
  by (induction xs) (auto simp: sorted_insert_Cons)

lemma mset_sorted_insert: "mset (sorted_insert it k xs) = add_mset (it, k) (mset xs)"
  by (induction xs) (auto simp: sorted_insert_Cons)

lemma set_sorted_insert [simp]: "set (sorted_insert it k xs) = insert (it, k) (set xs)"
  using mset_sorted_insert [of it k xs] by (metis set_mset_mset set_mset_add_mset_insert)

lemma sorted_sorted_insert: "sorted (map snd xs) \<Longrightarrow> sorted (map snd (sorted_insert it k xs))"
  by (induction xs) (force simp: sorted_insert_Cons)+

lemma filter_sorted_insert:
  "sorted (map snd xs) \<Longrightarrow> filter (\<lambda>x. c = snd x) (sorted_insert it k xs) =
     filter (\<lambda>x. c = snd x) xs @ (if c = k then [(it, k)] else [])"
proof (induction xs)
  case Nil
  then show ?case by simp
next
  case (Cons x xs)
  obtain y k' where x: "x = (y, k')" by (cases x)
  have "filter (\<lambda>x. c = snd x) (x # xs) = []" if "k < k'" "c = k"
    using Cons.prems x that by (force simp: filter_empty_conv)
  with Cons x show ?case by (auto simp: sorted_insert_Cons)
qed

definition insert_all :: "('b \<times> int) list \<Rightarrow> ('b \<times> int) list \<Rightarrow> ('b \<times> int) list" where
  "insert_all xs ys = fold (\<lambda>(x, k). sorted_insert x k) xs ys"

lemma insert_all_props:
  "sorted (map snd ys) \<Longrightarrow>
     mset (insert_all xs ys) = mset ys + mset xs \<and> sorted (map snd (insert_all xs ys)) \<and>
     filter (\<lambda>x. c = snd x) (insert_all xs ys) =
       filter (\<lambda>x. c = snd x) ys @ filter (\<lambda>x. c = snd x) xs"
proof (induction xs arbitrary: ys)
  case Nil
  then show ?case by (simp add: insert_all_def)
next
  case (Cons x xs)
  obtain y k where x: "x = (y, k)" by (cases x)
  have s: "sorted (map snd (sorted_insert y k ys))" using Cons.prems by (rule sorted_sorted_insert)
  have "insert_all (x # xs) ys = insert_all xs (sorted_insert y k ys)"
    by (simp add: insert_all_def x)
  with Cons.IH [OF s] filter_sorted_insert [OF Cons.prems, of c y k] show ?case
    by (simp add: mset_sorted_insert x)
qed

lemma insert_all_sort_key: "insert_all xs [] = sort_key snd xs"
  using insert_all_props [of "[]" xs]
  by (intro properties_for_sort_key [symmetric]) auto

section \<open>The queue interface\<close>

text \<open>
  What the kernel relies on when it queues threads, messages and mail: first in, first
  out, no fault, \<^verbatim>\<open>NULL\<close> exactly when empty.
\<close>

fun append_all :: "('q \<Rightarrow> 'a \<Rightarrow> 'q res) \<Rightarrow> 'q \<Rightarrow> 'a list \<Rightarrow> 'q res" where
  "append_all app q [] = Inr q"
| "append_all app q (x # xs) = bindR (app q x) (\<lambda>q'. append_all app q' xs)"

fun remove_times :: "('q \<Rightarrow> ('b \<times> 'q) res) \<Rightarrow> nat \<Rightarrow> 'q \<Rightarrow> ('b list \<times> 'q) res" where
  "remove_times rem 0 q = Inr ([], q)"
| "remove_times rem (Suc n) q =
     bindR (rem q) (\<lambda>(x, q'). bindR (remove_times rem n q') (\<lambda>(xs, q''). Inr (x # xs, q'')))"

locale fifo_list =
  fixes empty :: 'q
    and append :: "'q \<Rightarrow> 'a \<Rightarrow> 'q res"
    and remove :: "'q \<Rightarrow> ('a option \<times> 'q) res"
    and is_empty :: "'q \<Rightarrow> bool"
    and items :: "'q \<Rightarrow> 'a list"
    and invar :: "'q \<Rightarrow> bool"
  assumes invar_empty: "invar empty"
    and items_empty: "items empty = []"
    and append_ok: "invar q \<Longrightarrow> \<exists>q'. append q x = Inr q' \<and> invar q' \<and> items q' = items q @ [x]"
    and remove_ok: "invar q \<Longrightarrow> items q = x # xs \<Longrightarrow>
      \<exists>q'. remove q = Inr (Some x, q') \<and> invar q' \<and> items q' = xs"
    and remove_none: "invar q \<Longrightarrow> items q = [] \<Longrightarrow> remove q = Inr (None, q)"
    and is_empty_iff: "invar q \<Longrightarrow> is_empty q \<longleftrightarrow> items q = []"
begin

lemma append_all_ok:
  "invar q \<Longrightarrow> \<exists>q'. append_all append q xs = Inr q' \<and> invar q' \<and> items q' = items q @ xs"
proof (induction xs arbitrary: q)
  case Nil
  then show ?case by simp
next
  case (Cons x xs)
  from append_ok [OF Cons.prems, of x] obtain q1 where
    q1: "append q x = Inr q1" "invar q1" "items q1 = items q @ [x]" by blast
  from Cons.IH [OF q1(2)] q1 show ?case by auto
qed

lemma remove_times_ok:
  "invar q \<Longrightarrow> items q = xs @ ys \<Longrightarrow>
     \<exists>q'. remove_times remove (length xs) q = Inr (map Some xs, q') \<and> invar q' \<and> items q' = ys"
proof (induction xs arbitrary: q)
  case Nil
  then show ?case by simp
next
  case (Cons x xs)
  from remove_ok [OF Cons.prems(1), of x "xs @ ys"] Cons.prems(2) obtain q1 where
    q1: "remove q = Inr (Some x, q1)" "invar q1" "items q1 = xs @ ys" by auto
  from Cons.IH [OF q1(2,3)] q1 show ?case by auto
qed

lemma fifo_order:
  "\<exists>q1 q2. append_all append empty (xs @ ys) = Inr q1 \<and>
     remove_times remove (length xs) q1 = Inr (map Some xs, q2) \<and> items q2 = ys \<and>
     (is_empty q2 \<longleftrightarrow> ys = [])"
proof -
  from append_all_ok [OF invar_empty, of "xs @ ys"] items_empty obtain q1 where
    q1: "append_all append empty (xs @ ys) = Inr q1" "invar q1" "items q1 = xs @ ys" by auto
  from remove_times_ok [OF q1(2,3)] q1(1) is_empty_iff show ?thesis by blast
qed

end

text \<open>
  The sorted variant, which the interrupt simulation relies on: an insertion goes behind
  the entries with smaller or equal keys, a removal takes the front with its key.
\<close>

locale sorted_list = fifo_list empty append remove is_empty items invar
  for empty :: 'q and append :: "'q \<Rightarrow> 'a \<Rightarrow> 'q res" and remove is_empty items invar +
  fixes keyed :: "'q \<Rightarrow> ('a \<times> int) list"
    and sinsert :: "'q \<Rightarrow> 'a \<times> int \<Rightarrow> 'q res"
    and sremove :: "'q \<Rightarrow> (('a option \<times> int option) \<times> 'q) res"
  assumes keyed_empty: "keyed empty = []"
    and sinsert_ok: "invar q \<Longrightarrow>
      \<exists>q'. sinsert q (x, k) = Inr q' \<and> invar q' \<and> keyed q' = sorted_insert x k (keyed q)"
    and sremove_ok: "invar q \<Longrightarrow> keyed q = (x, k) # xs \<Longrightarrow>
      \<exists>q'. sremove q = Inr ((Some x, Some k), q') \<and> invar q' \<and> keyed q' = xs"
begin

lemma sinsert_all_ok:
  "invar q \<Longrightarrow> \<exists>q'. append_all sinsert q xs = Inr q' \<and> invar q' \<and>
     keyed q' = insert_all xs (keyed q)"
proof (induction xs arbitrary: q)
  case Nil
  then show ?case by (simp add: insert_all_def)
next
  case (Cons xk xs)
  obtain x k where xk: "xk = (x, k)" by (cases xk)
  from sinsert_ok [OF Cons.prems, of x k] obtain q1 where
    q1: "sinsert q (x, k) = Inr q1" "invar q1" "keyed q1 = sorted_insert x k (keyed q)" by blast
  from Cons.IH [OF q1(2)] q1 xk show ?case by (auto simp: insert_all_def)
qed

lemma sremove_times_ok:
  "invar q \<Longrightarrow> keyed q = xs \<Longrightarrow>
     \<exists>q'. remove_times sremove (length xs) q = Inr (map (\<lambda>(x, k). (Some x, Some k)) xs, q') \<and>
       invar q' \<and> keyed q' = []"
proof (induction xs arbitrary: q)
  case Nil
  then show ?case by simp
next
  case (Cons xk xs)
  obtain x k where xk: "xk = (x, k)" by (cases xk)
  from sremove_ok [OF Cons.prems(1), of x k xs] Cons.prems(2) xk obtain q1 where
    q1: "sremove q = Inr ((Some x, Some k), q1)" "invar q1" "keyed q1 = xs" by auto
  from Cons.IH [OF q1(2,3)] q1 xk show ?case by auto
qed

lemma stable_sorting:
  "\<exists>q1 q2. append_all sinsert empty xs = Inr q1 \<and>
     remove_times sremove (length xs) q1 =
       Inr (map (\<lambda>(x, k). (Some x, Some k)) (sort_key snd xs), q2) \<and> keyed q2 = []"
proof -
  from sinsert_all_ok [OF invar_empty, of xs] keyed_empty obtain q1 where
    q1: "append_all sinsert empty xs = Inr q1" "invar q1" "keyed q1 = sort_key snd xs"
    by (auto simp: insert_all_sort_key)
  from sremove_times_ok [OF q1(2,3)] q1(1) show ?thesis by auto
qed

end

section \<open>The linked list provides both interfaces\<close>

definition append_item :: "'a List \<Rightarrow> 'a \<Rightarrow> 'a List res" where
  "append_item l x = List_Append l (Some x)"

definition insert_item :: "'a List \<Rightarrow> 'a \<times> int \<Rightarrow> 'a List res" where
  "insert_item l xk = List_SortedInsert l (Some (fst xk)) (snd xk)"

definition remove_keyed :: "'a List \<Rightarrow> (('a option \<times> int option) \<times> 'a List) res" where
  "remove_keyed l = bindR (List_SortedRemove l) (\<lambda>(x, k, l'). Inr ((x, k), l'))"

definition keyed_items :: "'a List \<Rightarrow> ('a \<times> int) list" where
  "keyed_items l = map (\<lambda>(x, k). (the x, k)) (entries l)"

definition List_items :: "'a List \<Rightarrow> 'a list" where
  "List_items l = map fst (keyed_items l)"

definition nonnull_inv :: "'a List \<Rightarrow> bool" where
  "nonnull_inv l \<longleftrightarrow> List_inv l \<and> (\<forall>x \<in> set (entries l). fst x \<noteq> None)"

lemma append_item_ok:
  "nonnull_inv l \<Longrightarrow> \<exists>l'. append_item l x = Inr l' \<and> nonnull_inv l' \<and>
     keyed_items l' = keyed_items l @ [(x, 0)]"
  using Append_represents [of l _ "Some x"]
  by (fastforce simp: nonnull_inv_def List_inv_def append_item_def keyed_items_def)

lemma insert_item_ok:
  "nonnull_inv l \<Longrightarrow> \<exists>l'. insert_item l (x, k) = Inr l' \<and> nonnull_inv l' \<and>
     keyed_items l' = sorted_insert x k (keyed_items l)"
  using SortedInsert_represents [of l _ "Some x" k]
  by (fastforce simp: nonnull_inv_def List_inv_def insert_item_def keyed_items_def map_sorted_insert)

lemma remove_keyed_ok:
  assumes "nonnull_inv l" "keyed_items l = (x, k) # xs"
  shows "\<exists>l'. List_SortedRemove l = Inr (Some x, Some k, l') \<and> nonnull_inv l' \<and> keyed_items l' = xs"
proof -
  from assms obtain as where r: "represents l as" by (auto simp: nonnull_inv_def List_inv_def)
  from represents_entries [OF r] assms(2) obtain a bs where as: "as = a # bs"
    by (cases as) (auto simp: keyed_items_def)
  from SortedRemove_represents [OF r [unfolded as]] obtain l' it k' where
    l': "List_SortedRemove l = Inr (it, Some k', l')" "represents l' bs"
      "entries l = (it, k') # entries l'" by blast
  then show ?thesis using assms
    by (auto simp: keyed_items_def nonnull_inv_def List_inv_def)
qed

lemma nonnull_inv_new: "nonnull_inv new_List"
  using represents_new_List by (auto simp: nonnull_inv_def List_inv_def entries_def new_List_def)

lemma keyed_items_new: "keyed_items new_List = []"
  by (simp add: keyed_items_def entries_def new_List_def)

lemma keyed_items_empty_iff:
  "nonnull_inv l \<Longrightarrow> keyed_items l = [] \<longleftrightarrow> List_IsEmpty l"
  using represents_entries represents_empty_iff
  by (fastforce simp: nonnull_inv_def List_inv_def keyed_items_def)

lemma remove_none_keyed:
  "nonnull_inv l \<Longrightarrow> keyed_items l = [] \<Longrightarrow> List_Remove l = Inr (None, l)"
  using keyed_items_empty_iff [of l] by (simp add: List_Remove_def List_SortedRemove_def)

interpretation nachos_list: sorted_list new_List append_item List_Remove List_IsEmpty
  List_items nonnull_inv keyed_items insert_item remove_keyed
proof (unfold_locales, goal_cases)
  case 1
  show ?case by (rule nonnull_inv_new)
next
  case 2
  show ?case by (simp add: List_items_def keyed_items_new)
next
  case (3 q x)
  then show ?case using append_item_ok by (fastforce simp: List_items_def)
next
  case (4 q x xs)
  then obtain k ys where "keyed_items q = (x, k) # ys" "xs = map fst ys"
    by (cases "keyed_items q") (auto simp: List_items_def)
  with 4(1) remove_keyed_ok show ?case by (fastforce simp: List_items_def List_Remove_def)
next
  case (5 q)
  then show ?case by (simp add: List_items_def remove_none_keyed)
next
  case (6 q)
  then show ?case by (simp add: List_items_def keyed_items_empty_iff)
next
  case 7
  show ?case by (rule keyed_items_new)
next
  case (8 q x k)
  then show ?case by (rule insert_item_ok)
next
  case (9 q x k xs)
  with remove_keyed_ok show ?case by (fastforce simp: remove_keyed_def)
qed

section \<open>Properties\<close>

text \<open>
  Queue behaviour: starting from a new list, \<^verbatim>\<open>Remove\<close> returns the items in the order
  in which they were appended, leaves exactly the rest in order, and \<^verbatim>\<open>IsEmpty\<close> tells whether
  anything is left; no call dereferences a dangling pointer.
\<close>

theorem List_is_fifo:
  "\<exists>l1 l2. append_all (\<lambda>l x. List_Append l (Some x)) new_List (xs @ ys) = Inr l1 \<and>
     remove_times List_Remove (length xs) l1 = Inr (map Some xs, l2) \<and> List_items l2 = ys \<and>
     (List_IsEmpty l2 \<longleftrightarrow> ys = [])"
  using nachos_list.fifo_order [of xs ys] by (simp add: append_item_def [abs_def])

lemma insert_item_eq: "insert_item = (\<lambda>l (x, k). List_SortedInsert l (Some x) k)"
  by (auto simp: insert_item_def fun_eq_iff)

text \<open>
  Priority queue behaviour: inserting entries with \<^verbatim>\<open>SortedInsert\<close> and removing them with
  \<^verbatim>\<open>SortedRemove\<close> returns them sorted by key, entries with equal keys in insertion order.
\<close>

theorem List_sorts_stably:
  "\<exists>l1 l2. append_all (\<lambda>l (x, k). List_SortedInsert l (Some x) k) new_List xs = Inr l1 \<and>
     remove_times remove_keyed (length xs) l1 =
       Inr (map (\<lambda>(x, k). (Some x, Some k)) (sort_key snd xs), l2) \<and> keyed_items l2 = []"
  using nachos_list.stable_sorting [of xs] unfolding insert_item_eq .

lemma entries_new: "entries new_List = []"
  by (simp add: entries_def new_List_def)

text \<open>
  C34: Every operation on a well-formed list (an acyclic chain from \<^verbatim>\<open>first\<close> to \<^verbatim>\<open>last\<close> that holds
  all live cells) succeeds, keeps it well-formed and acts on the sequence of entries as
  the abstract list operation does; the deallocation loop frees every cell when no item is NULL.
\<close>

theorem List_operations_refine:
  assumes "List_inv l"
  shows "(\<exists>l'. List_Append l it = Inr l' \<and> List_inv l' \<and> entries l' = entries l @ [(it, 0)]) \<and>
    (\<exists>l'. List_Prepend l it = Inr l' \<and> List_inv l' \<and> entries l' = (it, 0) # entries l) \<and>
    (\<exists>l'. List_SortedInsert l it k = Inr l' \<and> List_inv l' \<and> entries l' = sorted_insert it k (entries l)) \<and>
    (case entries l of
       [] \<Rightarrow> List_SortedRemove l = Inr (None, None, l)
     | (x, j) # es \<Rightarrow> \<exists>l'. List_SortedRemove l = Inr (x, Some j, l') \<and> List_inv l' \<and> entries l' = es) \<and>
    ((\<forall>e \<in> set (entries l). fst e \<noteq> None) \<longrightarrow>
       (\<exists>l'. List_destroy l = Inr l' \<and> dom (heap l') = {}))"
proof -
  from assms obtain as where r: "represents l as" by (auto simp: List_inv_def)
  have len: "length as = length (entries l)" using represents_entries [OF r] by simp
  have "case entries l of
       [] \<Rightarrow> List_SortedRemove l = Inr (None, None, l)
     | (x, j) # es \<Rightarrow> \<exists>l'. List_SortedRemove l = Inr (x, Some j, l') \<and> List_inv l' \<and> entries l' = es"
  proof (cases as)
    case Nil
    then show ?thesis using r len SortedRemove_empty by auto
  next
    case (Cons a bs)
    then show ?thesis using SortedRemove_represents [of l a bs] r by (fastforce simp: List_inv_def)
  qed
  moreover have "\<exists>l'. List_destroy l = Inr l' \<and> dom (heap l') = {}"
    if "\<forall>e \<in> set (entries l). fst e \<noteq> None"
    using destroy_loop_ok [OF r, of "Suc (brk l)"] represents_length [OF r] that
    by (auto simp: represents_def List_destroy_def simp del: List_destroy_loop.simps)
  ultimately show ?thesis
    using Append_represents [OF r, of it] Prepend_represents [OF r, of it] SortedInsert_represents [OF r, of it k]
    by (auto simp: List_inv_def)
qed

theorem List_operations_refine_witness:
  "\<exists>l'. List_SortedInsert (new_List :: nat List) (Some 7) 3 = Inr l' \<and> entries l' = [(Some 7, 3)]"
  using List_operations_refine [of "new_List :: nat List" "Some 7" 3] nonnull_inv_new [where 'a = nat] entries_new [where 'a = nat]
  by (auto simp: nonnull_inv_def)

end
