(* ===== verification/Bit_Map.thy ===== *)
theory Bit_Map
  imports Nachos_Prelude
begin

unbundle bit_operations_syntax

text \<open>
  The bitmap of \<^verbatim>\<open>userprog/bitmap.cc\<close>: an array of 32-bit words, each routine with
  its assertion on the bit number. \<open>marked\<close> is the set of numbers in use, and every
  routine is shown to act on that set. The locale \<open>allocator\<close> is what the clients (the
  open-file table, the physical page map, the swap map and the disk's free map) rely on.
\<close>

section \<open>The bitmap and its routines\<close>

abbreviation (input) BitsInWord :: nat where "BitsInWord \<equiv> 32"

record BitMap =
  numBits :: nat
  numWords :: nat
  bmap :: "32 word list"

text \<open>Reading and replacing \<^verbatim>\<open>map[i]\<close>; an index past the array is out of bounds.\<close>

definition map_get :: "BitMap \<Rightarrow> nat \<Rightarrow> 32 word res" where
  "map_get bm i = (if i < length (bmap bm) then Inr (bmap bm ! i) else Inl OutOfBounds)"

definition map_set :: "BitMap \<Rightarrow> nat \<Rightarrow> 32 word \<Rightarrow> BitMap" where
  "map_set bm i w = bm\<lparr>bmap := (bmap bm)[i := w]\<rparr>"

definition BitMap_Mark :: "BitMap \<Rightarrow> int \<Rightarrow> BitMap res" where
  "BitMap_Mark bm which =
     (if which \<ge> 0 \<and> which < int (numBits bm)
      then bindR (map_get bm (nat which div BitsInWord)) (\<lambda>w.
           Inr (map_set bm (nat which div BitsInWord) (w OR push_bit (nat which mod BitsInWord) 1)))
      else Inl AssertionFailed)"

definition BitMap_Clear :: "BitMap \<Rightarrow> int \<Rightarrow> BitMap res" where
  "BitMap_Clear bm which =
     (if which \<ge> 0 \<and> which < int (numBits bm)
      then bindR (map_get bm (nat which div BitsInWord)) (\<lambda>w.
           Inr (map_set bm (nat which div BitsInWord)
                 (w AND NOT (push_bit (nat which mod BitsInWord) 1))))
      else Inl AssertionFailed)"

definition BitMap_Test :: "BitMap \<Rightarrow> int \<Rightarrow> bool res" where
  "BitMap_Test bm which =
     (if which \<ge> 0 \<and> which < int (numBits bm)
      then bindR (map_get bm (nat which div BitsInWord)) (\<lambda>w.
           if w AND push_bit (nat which mod BitsInWord) 1 \<noteq> 0 then Inr True else Inr False)
      else Inl AssertionFailed)"

text \<open>
  The constructor clears bits \<open>0 .. nitems - 1\<close> of freshly allocated, uninitialised
  words; the words' previous contents are the argument \<open>garbage\<close>.
\<close>

fun BitMap_clear_loop :: "BitMap \<Rightarrow> nat list \<Rightarrow> BitMap res" where
  "BitMap_clear_loop bm [] = Inr bm"
| "BitMap_clear_loop bm (i # is) = bindR (BitMap_Clear bm (int i)) (\<lambda>bm'. BitMap_clear_loop bm' is)"

definition new_BitMap :: "32 word list \<Rightarrow> nat \<Rightarrow> BitMap res" where
  "new_BitMap garbage nitems =
     BitMap_clear_loop
       \<lparr>numBits = nitems, numWords = divRoundUp nitems BitsInWord,
        bmap = take (divRoundUp nitems BitsInWord) garbage\<rparr>
       [0..<nitems]"

fun BitMap_Find_loop :: "BitMap \<Rightarrow> nat list \<Rightarrow> (int \<times> BitMap) res" where
  "BitMap_Find_loop bm [] = Inr (-1, bm)"
| "BitMap_Find_loop bm (i # is) =
     bindR (BitMap_Test bm (int i)) (\<lambda>t.
       if \<not> t then bindR (BitMap_Mark bm (int i)) (\<lambda>bm'. Inr (int i, bm'))
       else BitMap_Find_loop bm is)"

definition BitMap_Find :: "BitMap \<Rightarrow> (int \<times> BitMap) res" where
  "BitMap_Find bm = BitMap_Find_loop bm [0..<numBits bm]"

fun BitMap_NumClear_loop :: "BitMap \<Rightarrow> nat list \<Rightarrow> nat \<Rightarrow> nat res" where
  "BitMap_NumClear_loop bm [] count = Inr count"
| "BitMap_NumClear_loop bm (i # is) count =
     bindR (BitMap_Test bm (int i)) (\<lambda>t. BitMap_NumClear_loop bm is (if \<not> t then Suc count else count))"

definition BitMap_NumClear :: "BitMap \<Rightarrow> nat res" where
  "BitMap_NumClear bm = BitMap_NumClear_loop bm [0..<numBits bm] 0"

text \<open>\<^verbatim>\<open>Print\<close> lists the numbers of the bits that are set.\<close>

fun BitMap_Print_loop :: "BitMap \<Rightarrow> nat list \<Rightarrow> nat list res" where
  "BitMap_Print_loop bm [] = Inr []"
| "BitMap_Print_loop bm (i # is) =
     bindR (BitMap_Test bm (int i)) (\<lambda>t. bindR (BitMap_Print_loop bm is) (\<lambda>out.
       Inr (if t then i # out else out)))"

definition BitMap_Print :: "BitMap \<Rightarrow> nat list res" where
  "BitMap_Print bm = BitMap_Print_loop bm [0..<numBits bm]"

section \<open>The set of marked numbers\<close>

definition BitMap_inv :: "BitMap \<Rightarrow> bool" where
  "BitMap_inv bm \<longleftrightarrow> numWords bm = divRoundUp (numBits bm) BitsInWord \<and> length (bmap bm) = numWords bm"

definition is_marked :: "BitMap \<Rightarrow> nat \<Rightarrow> bool" where
  "is_marked bm i \<longleftrightarrow> i < numBits bm \<and> bit (bmap bm ! (i div BitsInWord)) (i mod BitsInWord)"

definition marked :: "BitMap \<Rightarrow> nat set" where
  "marked bm = {i. is_marked bm i}"

lemma marked_bounded: "marked bm \<subseteq> {..<numBits bm}"
  by (auto simp: marked_def is_marked_def)

lemma finite_marked [simp]: "finite (marked bm)"
  using marked_bounded finite_subset by blast

lemma word_index_ok: "BitMap_inv bm \<Longrightarrow> i < numBits bm \<Longrightarrow> i div BitsInWord < length (bmap bm)"
  using less_divRoundUp_bound [of BitsInWord i "numBits bm"] by (simp add: BitMap_inv_def)

lemma map_get_ok: "BitMap_inv bm \<Longrightarrow> i < numBits bm \<Longrightarrow>
    map_get bm (i div BitsInWord) = Inr (bmap bm ! (i div BitsInWord))"
  using word_index_ok by (simp add: map_get_def)

lemma same_bit_iff: "(i::nat) div 32 = j div 32 \<and> i mod 32 = j mod 32 \<longleftrightarrow> i = j"
  by (metis div_mult_mod_eq)

lemma is_marked_map_set:
  assumes "BitMap_inv bm" "i < numBits bm"
    and "\<And>n. n < 32 \<Longrightarrow> bit w n \<longleftrightarrow> (if n = i mod 32 then b else bit (bmap bm ! (i div 32)) n)"
  shows "is_marked (map_set bm (i div 32) w) j \<longleftrightarrow> (if j = i then b else is_marked bm j)"
  using assms word_index_ok [OF assms(1,2)] same_bit_iff [of i j]
  by (auto simp: is_marked_def map_set_def nth_list_update)

lemma BitMap_inv_map_set [simp]: "BitMap_inv (map_set bm i w) = BitMap_inv bm"
  by (simp add: BitMap_inv_def map_set_def)

lemma numBits_map_set [simp]: "numBits (map_set bm i w) = numBits bm"
  by (simp add: map_set_def)

lemma Test_ok: "BitMap_inv bm \<Longrightarrow> i < numBits bm \<Longrightarrow> BitMap_Test bm (int i) = Inr (i \<in> marked bm)"
  by (simp add: BitMap_Test_def map_get_ok marked_def is_marked_def bit_iff_and_push_bit_not_eq_0)

lemma Mark_ok:
  assumes "BitMap_inv bm" "i < numBits bm"
  shows "\<exists>bm'. BitMap_Mark bm (int i) = Inr bm' \<and> BitMap_inv bm' \<and> numBits bm' = numBits bm \<and>
     marked bm' = insert i (marked bm)"
proof -
  let ?w = "bmap bm ! (i div 32) OR push_bit (i mod 32) 1"
  have "bit ?w n \<longleftrightarrow> (if n = i mod 32 then True else bit (bmap bm ! (i div 32)) n)" if "n < 32" for n
    using that by (auto simp: bit_simps)
  from is_marked_map_set [OF assms this] have "marked (map_set bm (i div 32) ?w) = insert i (marked bm)"
    by (auto simp: marked_def split: if_splits)
  then show ?thesis using assms by (simp add: BitMap_Mark_def map_get_ok)
qed

lemma Clear_ok:
  assumes "BitMap_inv bm" "i < numBits bm"
  shows "\<exists>bm'. BitMap_Clear bm (int i) = Inr bm' \<and> BitMap_inv bm' \<and> numBits bm' = numBits bm \<and>
     marked bm' = marked bm - {i}"
proof -
  let ?w = "bmap bm ! (i div 32) AND NOT (push_bit (i mod 32) 1)"
  have "bit ?w n \<longleftrightarrow> (if n = i mod 32 then False else bit (bmap bm ! (i div 32)) n)" if "n < 32" for n
    using that by (auto simp: bit_simps)
  from is_marked_map_set [OF assms this] have "marked (map_set bm (i div 32) ?w) = marked bm - {i}"
    by (auto simp: marked_def split: if_splits)
  then show ?thesis using assms by (simp add: BitMap_Clear_def map_get_ok)
qed

lemma out_of_range_asserts:
  assumes "which < 0 \<or> int (numBits bm) \<le> which"
  shows "BitMap_Mark bm which = Inl AssertionFailed"
    and "BitMap_Clear bm which = Inl AssertionFailed"
    and "BitMap_Test bm which = Inl AssertionFailed"
  using assms by (auto simp: BitMap_Mark_def BitMap_Clear_def BitMap_Test_def)

lemma clear_loop_ok:
  "BitMap_inv bm \<Longrightarrow> \<forall>i \<in> set is. i < numBits bm \<Longrightarrow>
     \<exists>bm'. BitMap_clear_loop bm is = Inr bm' \<and> BitMap_inv bm' \<and> numBits bm' = numBits bm \<and>
       marked bm' = marked bm - set is"
proof (induction "is" arbitrary: bm)
  case Nil
  then show ?case by simp
next
  case (Cons i "is")
  then obtain b where b: "BitMap_Clear bm (int i) = Inr b" "BitMap_inv b" "numBits b = numBits bm"
    "marked b = marked bm - {i}" using Clear_ok [of bm i] by auto
  with Cons.IH [of b] Cons.prems show ?case by auto
qed

lemma new_BitMap_ok:
  assumes "divRoundUp n BitsInWord \<le> length garbage"
  shows "\<exists>bm. new_BitMap garbage n = Inr bm \<and> BitMap_inv bm \<and> numBits bm = n \<and> marked bm = {}"
proof -
  let ?bm = "\<lparr>numBits = n, numWords = divRoundUp n BitsInWord,
    bmap = take (divRoundUp n BitsInWord) garbage\<rparr>"
  have "BitMap_inv ?bm" using assms by (simp add: BitMap_inv_def)
  from clear_loop_ok [OF this, of "[0..<n]"] marked_bounded [of ?bm] show ?thesis
    by (force simp: new_BitMap_def)
qed

lemma Find_loop_ok:
  "BitMap_inv bm \<Longrightarrow> \<forall>i \<in> set is. i < numBits bm \<Longrightarrow>
     (case find_index (\<lambda>i. i \<notin> marked bm) is of
        None \<Rightarrow> BitMap_Find_loop bm is = Inr (-1, bm)
      | Some k \<Rightarrow> \<exists>bm'. BitMap_Find_loop bm is = Inr (int (is ! k), bm') \<and> BitMap_inv bm' \<and>
          numBits bm' = numBits bm \<and> marked bm' = insert (is ! k) (marked bm))"
proof (induction "is")
  case Nil
  then show ?case by simp
next
  case (Cons i "is")
  show ?case
  proof (cases "i \<in> marked bm")
    case True
    with Cons show ?thesis by (auto simp: Test_ok split: option.splits)
  next
    case False
    with Cons.prems Mark_ok [of bm i] show ?thesis by (auto simp: Test_ok)
  qed
qed

text \<open>\<^verbatim>\<open>Find\<close> returns the least unmarked number and marks it; \<open>-1\<close> when all are marked.\<close>

lemma Find_full: "BitMap_inv bm \<Longrightarrow> marked bm = {..<numBits bm} \<Longrightarrow> BitMap_Find bm = Inr (-1, bm)"
proof -
  assume inv: "BitMap_inv bm" and full: "marked bm = {..<numBits bm}"
  have "find_index (\<lambda>i. i \<notin> marked bm) [0..<numBits bm] = None"
    by (simp add: find_index_None_iff full)
  with Find_loop_ok [OF inv, of "[0..<numBits bm]"] show ?thesis by (simp add: BitMap_Find_def)
qed

lemma Find_free:
  assumes inv: "BitMap_inv bm" and free: "marked bm \<noteq> {..<numBits bm}"
  shows "\<exists>i bm'. BitMap_Find bm = Inr (int i, bm') \<and> i < numBits bm \<and> i \<notin> marked bm \<and>
     (\<forall>j < i. j \<in> marked bm) \<and> BitMap_inv bm' \<and> numBits bm' = numBits bm \<and>
     marked bm' = insert i (marked bm)"
proof -
  from free marked_bounded [of bm] obtain i where "i < numBits bm" "i \<notin> marked bm" by auto
  then have "find_index (\<lambda>i. i \<notin> marked bm) [0..<numBits bm] \<noteq> None"
    by (auto simp: find_index_None_iff)
  then obtain k where k: "find_index (\<lambda>i. i \<notin> marked bm) [0..<numBits bm] = Some k" by auto
  from find_index_SomeD [OF k] have "k < numBits bm" "k \<notin> marked bm" "\<forall>j < k. j \<in> marked bm" by auto
  with Find_loop_ok [OF inv, of "[0..<numBits bm]"] k show ?thesis
    by (auto simp: BitMap_Find_def)
qed

lemma NumClear_loop_ok:
  "BitMap_inv bm \<Longrightarrow> \<forall>i \<in> set is. i < numBits bm \<Longrightarrow>
     BitMap_NumClear_loop bm is c = Inr (c + length (filter (\<lambda>i. i \<notin> marked bm) is))"
  by (induction "is" arbitrary: c) (auto simp: Test_ok)

lemma NumClear_ok: "BitMap_inv bm \<Longrightarrow> BitMap_NumClear bm = Inr (numBits bm - card (marked bm))"
proof -
  assume inv: "BitMap_inv bm"
  have "length (filter (\<lambda>i. i \<notin> marked bm) [0..<numBits bm]) = card ({..<numBits bm} - marked bm)"
    by (subst distinct_card [symmetric]) (auto intro: arg_cong [where f = card])
  also have "\<dots> = numBits bm - card (marked bm)"
    using marked_bounded [of bm] by (simp add: card_Diff_subset)
  finally show ?thesis using NumClear_loop_ok [OF inv, of "[0..<numBits bm]" 0]
    by (simp add: BitMap_NumClear_def)
qed

lemma Print_loop_ok:
  "BitMap_inv bm \<Longrightarrow> \<forall>i \<in> set is. i < numBits bm \<Longrightarrow>
     BitMap_Print_loop bm is = Inr (filter (\<lambda>i. i \<in> marked bm) is)"
  by (induction "is") (auto simp: Test_ok)

section \<open>The allocator interface\<close>

text \<open>
  A pool of \<open>cap\<close> numbers: \<open>find\<close> hands out one that is not in use, \<open>clear\<close> takes it
  back. \<open>find_times\<close> is the allocation loop of clients that take several at once.
\<close>

fun find_times :: "('b \<Rightarrow> (int \<times> 'b) res) \<Rightarrow> nat \<Rightarrow> 'b \<Rightarrow> (int list \<times> 'b) res" where
  "find_times fnd 0 b = Inr ([], b)"
| "find_times fnd (Suc n) b =
     bindR (fnd b) (\<lambda>(i, b'). bindR (find_times fnd n b') (\<lambda>(is, b''). Inr (i # is, b'')))"

fun clear_each :: "('b \<Rightarrow> int \<Rightarrow> 'b res) \<Rightarrow> int list \<Rightarrow> 'b \<Rightarrow> 'b res" where
  "clear_each clear [] b = Inr b"
| "clear_each clear (i # is) b = bindR (clear b i) (clear_each clear is)"

locale allocator =
  fixes find :: "'b \<Rightarrow> (int \<times> 'b) res"
    and clear :: "'b \<Rightarrow> int \<Rightarrow> 'b res"
    and test :: "'b \<Rightarrow> int \<Rightarrow> bool res"
    and used :: "'b \<Rightarrow> nat set"
    and cap :: "'b \<Rightarrow> nat"
    and invar :: "'b \<Rightarrow> bool"
  assumes used_bounded: "used b \<subseteq> {..<cap b}"
    and find_full: "invar b \<Longrightarrow> used b = {..<cap b} \<Longrightarrow> find b = Inr (-1, b)"
    and find_free: "invar b \<Longrightarrow> used b \<noteq> {..<cap b} \<Longrightarrow>
      \<exists>i b'. find b = Inr (int i, b') \<and> i < cap b \<and> i \<notin> used b \<and> invar b' \<and> cap b' = cap b \<and>
        used b' = insert i (used b)"
    and clear_ok: "invar b \<Longrightarrow> i < cap b \<Longrightarrow>
      \<exists>b'. clear b (int i) = Inr b' \<and> invar b' \<and> cap b' = cap b \<and> used b' = used b - {i}"
    and test_ok: "invar b \<Longrightarrow> i < cap b \<Longrightarrow> test b (int i) = Inr (i \<in> used b)"
begin

lemma finite_used: "finite (used b)"
  using used_bounded finite_subset by blast

lemma card_used_le: "card (used b) \<le> cap b"
  using card_mono [OF _ used_bounded [of b]] by simp

lemma find_result:
  "invar b \<Longrightarrow> \<exists>r b'. find b = Inr (r, b') \<and> invar b' \<and> cap b' = cap b \<and>
     (r = -1 \<and> b' = b \<and> used b = {..<cap b} \<or>
      (\<exists>i. r = int i \<and> i < cap b \<and> i \<notin> used b \<and> used b' = insert i (used b)))"
  using find_full find_free by blast

lemma find_times_ok:
  "invar b \<Longrightarrow> n \<le> cap b - card (used b) \<Longrightarrow>
     \<exists>is b'. find_times find n b = Inr (map int is, b') \<and> length is = n \<and> distinct is \<and>
       set is \<inter> used b = {} \<and> set is \<subseteq> {..<cap b} \<and> invar b' \<and> cap b' = cap b \<and>
       used b' = used b \<union> set is"
proof (induction n arbitrary: b)
  case 0
  then show ?case by auto
next
  case (Suc n)
  have "used b \<noteq> {..<cap b}"
  proof
    assume "used b = {..<cap b}"
    then have "card (used b) = cap b" by simp
    with Suc.prems(2) show False by simp
  qed
  from find_free [OF Suc.prems(1) this] obtain i b1 where
    i: "find b = Inr (int i, b1)" "i < cap b" "i \<notin> used b" "invar b1" "cap b1 = cap b"
      "used b1 = insert i (used b)" by blast
  have "n \<le> cap b1 - card (used b1)"
    using Suc.prems(2) i finite_used [of b] by simp
  from Suc.IH [OF i(4) this] obtain "is" b2 where
    r: "find_times find n b1 = Inr (map int is, b2)" "length is = n" "distinct is"
      "set is \<inter> used b1 = {}" "set is \<subseteq> {..<cap b1}" "invar b2" "cap b2 = cap b1"
      "used b2 = used b1 \<union> set is" by blast
  have "find_times find (Suc n) b = Inr (map int (i # is), b2)" using i r by simp
  moreover have "distinct (i # is)" "set (i # is) \<inter> used b = {}" "set (i # is) \<subseteq> {..<cap b}"
    "used b2 = used b \<union> set (i # is)" using i r by auto
  ultimately show ?case using i(5) r(2,6,7) by (intro exI [of _ "i # is"] exI [of _ b2]) simp
qed

lemma clear_each_ok:
  "invar b \<Longrightarrow> set is \<subseteq> {..<cap b} \<Longrightarrow>
     \<exists>b'. clear_each clear (map int is) b = Inr b' \<and> invar b' \<and> cap b' = cap b \<and>
       used b' = used b - set is"
proof (induction "is" arbitrary: b)
  case Nil
  then show ?case by simp
next
  case (Cons i "is")
  then obtain b1 where "clear b (int i) = Inr b1" "invar b1" "cap b1 = cap b" "used b1 = used b - {i}"
    using clear_ok [of b i] by auto
  with Cons.IH [of b1] Cons.prems show ?case by auto
qed

text \<open>What a client takes it can give back: the pool ends as it was.\<close>

lemma find_then_clear:
  assumes "invar b" "n \<le> cap b - card (used b)"
  shows "\<exists>is b1 b2. find_times find n b = Inr (is, b1) \<and> clear_each clear is b1 = Inr b2 \<and>
     length is = n \<and> used b2 = used b \<and> card (used b1) = card (used b) + n"
proof -
  from find_times_ok [OF assms] obtain "is" b1 where
    r: "find_times find n b = Inr (map int is, b1)" "length is = n" "distinct is"
      "set is \<inter> used b = {}" "set is \<subseteq> {..<cap b}" "invar b1" "cap b1 = cap b"
      "used b1 = used b \<union> set is" by blast
  from clear_each_ok [OF r(6), of "is"] r(5,7) obtain b2 where
    "clear_each clear (map int is) b1 = Inr b2" "used b2 = used b1 - set is" by auto
  moreover have "card (used b1) = card (used b) + n"
    using r(2,3,4,8) finite_used [of b] by (simp add: card_Un_disjoint Int_commute distinct_card)
  ultimately show ?thesis using r by (intro exI [of _ "map int is"]) auto
qed

end

interpretation bitmap: allocator BitMap_Find BitMap_Clear BitMap_Test marked numBits BitMap_inv
proof (unfold_locales, goal_cases)
  case (1 b)
  show ?case by (rule marked_bounded)
next
  case (2 b)
  then show ?case by (rule Find_full)
next
  case (3 b)
  then show ?case using Find_free by blast
next
  case (4 b i)
  then show ?case by (rule Clear_ok)
next
  case (5 b i)
  then show ?case by (rule Test_ok)
qed

section \<open>Properties\<close>

definition demo_map :: BitMap where
  "demo_map = projr (new_BitMap [5, 6] 40)"

lemma demo_map_ok: "BitMap_inv demo_map" "marked demo_map = {}" "numBits demo_map = 40"
  using new_BitMap_ok [of 40 "[5, 6]"] by (auto simp: demo_map_def divRoundUp_def)

text \<open>
  \<^verbatim>\<open>Find\<close> on a well-formed map never fails: it returns -1 and leaves the map alone when
  every bit is set; otherwise it returns the lowest clear bit and sets exactly that bit.
\<close>

theorem BitMap_Find_spec:
  assumes "BitMap_inv bm"
  shows "if marked bm = {..<numBits bm} then BitMap_Find bm = Inr (-1, bm)
    else \<exists>i bm'. BitMap_Find bm = Inr (int i, bm') \<and> i < numBits bm \<and> i \<notin> marked bm \<and>
      (\<forall>j < i. j \<in> marked bm) \<and> BitMap_inv bm' \<and> numBits bm' = numBits bm \<and>
      marked bm' = insert i (marked bm)"
  using Find_full [OF assms] Find_free [OF assms] by auto

theorem BitMap_Find_spec_witness:
  "\<exists>i bm'. BitMap_Find demo_map = Inr (int i, bm') \<and> i < 40 \<and> marked bm' = {i}"
  using BitMap_Find_spec [of demo_map] demo_map_ok lessThan_empty_iff [of "40 :: nat"]
  by (auto split: if_splits)

text \<open>
  Allocation and release: as long as enough bits are clear, \<open>n\<close> calls of \<^verbatim>\<open>Find\<close> return
  distinct bits that were clear, \<^verbatim>\<open>NumClear\<close> drops by \<open>n\<close>, and clearing them again restores
  the set of marked bits.
\<close>

theorem BitMap_find_then_clear:
  assumes "BitMap_inv bm" "n \<le> numBits bm - card (marked bm)"
  shows "\<exists>is b1 b2. find_times BitMap_Find n bm = Inr (map int is, b1) \<and> length is = n \<and> distinct is \<and>
     set is \<inter> marked bm = {} \<and> BitMap_NumClear b1 = Inr (numBits bm - card (marked bm) - n) \<and>
     clear_each BitMap_Clear (map int is) b1 = Inr b2 \<and> marked b2 = marked bm"
proof -
  from bitmap.find_times_ok [OF assms] obtain "is" b1 where
    r: "find_times BitMap_Find n bm = Inr (map int is, b1)" "length is = n" "distinct is"
      "set is \<inter> marked bm = {}" "set is \<subseteq> {..<numBits bm}" "BitMap_inv b1" "numBits b1 = numBits bm"
      "marked b1 = marked bm \<union> set is" by blast
  have "card (marked b1) = card (marked bm) + n"
    using r(2,3,4,8) bitmap.finite_used [of bm] by (simp add: card_Un_disjoint Int_commute distinct_card)
  then have "BitMap_NumClear b1 = Inr (numBits bm - card (marked bm) - n)"
    using NumClear_ok [OF r(6)] r(7) by simp
  moreover obtain b2 where "clear_each BitMap_Clear (map int is) b1 = Inr b2" "marked b2 = marked b1 - set is"
    using bitmap.clear_each_ok [OF r(6), of "is"] r(5,7) by auto
  moreover have "marked b1 - set is = marked bm" using r(4,8) by auto
  ultimately show ?thesis using r(1-4) by blast
qed

theorem BitMap_find_then_clear_witness:
  "\<exists>is b1 b2. find_times BitMap_Find 33 demo_map = Inr (map int is, b1) \<and> distinct is \<and>
     BitMap_NumClear b1 = Inr 7 \<and> clear_each BitMap_Clear (map int is) b1 = Inr b2 \<and> marked b2 = {}"
  using BitMap_find_then_clear [of demo_map 33] demo_map_ok by auto

end
