(* ===== verification/Thread_Kernel.thy ===== *)
theory Thread_Kernel
  imports Nachos_Prelude
begin

text \<open>
  Threads, the scheduler and the synchronisation primitives: \<^verbatim>\<open>threads/thread.cc\<close>,
  \<^verbatim>\<open>threads/scheduler.cc\<close>, \<^verbatim>\<open>threads/synch.cc\<close> and \<^verbatim>\<open>threads/synchlist.cc\<close>.

  A routine that goes to sleep gives up the CPU in the middle of its body. Each thread
  therefore carries the list of steps it still has to execute (\<open>code\<close>, its kernel
  stack): a routine that sleeps first pushes what follows its call of \<^verbatim>\<open>Sleep\<close>, and the
  thread runs on from there when it is switched back in. Interrupts are off in what one step does,
  so it is atomic; a routine that enables them in between (\<^verbatim>\<open>Broadcast\<close>, \<^verbatim>\<open>SynchList\<close>) takes several steps; preemption, device interrupts and the idle loop are
  steps of the transition relation \<open>kstep\<close>. The queues of \<^verbatim>\<open>List\<close> objects are HOL lists
  (their pointer implementation is verified in \<open>Linked_List\<close>).
\<close>

section \<open>State\<close>

type_synonym tid = nat

datatype ThreadStatus = JUST_CREATED | RUNNING | READY | BLOCKED

datatype IntStatus = IntOff | IntOn

datatype LockState = FREE | BUSY

record Semaphore =
  sem_value :: int
  sem_queue :: "tid list"

record Lock =
  lock_state :: LockState
  lock_owner :: "tid option"
  lock_waitQueue :: "tid list"

text \<open>Locks, semaphores and conditions are named by their position in the kernel's lists.\<close>

record Condition =
  cv_waitingLock :: "nat option"
  cv_waitQueue :: "tid list"

record SynchList =
  sl_list :: "nat list"
  sl_lock :: nat
  sl_listEmpty :: nat

text \<open>
  The steps of a thread. The first group are the calls a program makes, the second the
  rest of a routine that was interrupted by \<^verbatim>\<open>Sleep\<close>, \<^verbatim>\<open>Yield\<close> or a nested call.
\<close>

datatype instr =
    P nat | V nat
  | Acquire nat | Release nat
  | Wait nat "nat option" | Signal nat "nat option" | Broadcast nat "nat option"
  | Yield | Fork "instr list" | Finish
  | SL_Append nat nat | SL_Remove nat | SL_Mapcar nat "instr list"
  | P_loop nat IntStatus | Bcast_loop nat "nat option"
  | Restore IntStatus
  | AfterSwitch
  | SL_put nat nat | SL_take nat | SL_walk nat "instr list" | SL_map "nat list" "instr list"

record kstate =
  currentThread :: tid
  idling :: bool
  threadStatus :: "tid \<Rightarrow> ThreadStatus"
  nextThread :: tid
  destroyed :: "tid list"
  readyList :: "tid list"
  threadToBeDestroyed :: "tid option"
  level :: IntStatus
  code :: "tid \<Rightarrow> instr list"
  sems :: "Semaphore list"
  locks :: "Lock list"
  conds :: "Condition list"
  synchlists :: "SynchList list"
  received :: "tid \<Rightarrow> nat list"

definition new_Semaphore :: "int \<Rightarrow> Semaphore" where
  "new_Semaphore initialValue = \<lparr>sem_value = initialValue, sem_queue = []\<rparr>"

definition new_Lock :: Lock where
  "new_Lock = \<lparr>lock_state = FREE, lock_owner = None, lock_waitQueue = []\<rparr>"

definition new_Condition :: Condition where
  "new_Condition = \<lparr>cv_waitingLock = None, cv_waitQueue = []\<rparr>"

definition push :: "instr list \<Rightarrow> kstate \<Rightarrow> kstate" where
  "push is k = k\<lparr>code := (code k)(currentThread k := is @ code k (currentThread k))\<rparr>"

section \<open>Scheduler\<close>

definition Scheduler_ReadyToRun :: "tid \<Rightarrow> kstate \<Rightarrow> kstate" where
  "Scheduler_ReadyToRun t k =
     k\<lparr>threadStatus := (threadStatus k)(t := READY), readyList := readyList k @ [t]\<rparr>"

definition Scheduler_FindNextToRun :: "kstate \<Rightarrow> tid option \<times> kstate" where
  "Scheduler_FindNextToRun k = (case readyList k of
     [] \<Rightarrow> (None, k)
   | t # ts \<Rightarrow> (Some t, k\<lparr>readyList := ts\<rparr>))"

text \<open>
  \<^verbatim>\<open>Run\<close> switches to \<open>next\<close>; what follows \<^verbatim>\<open>SWITCH\<close> in its body runs in the old thread
  once that is switched back in, so it is pushed on the old thread's stack.
\<close>

definition Scheduler_Run :: "tid \<Rightarrow> kstate \<Rightarrow> kstate" where
  "Scheduler_Run nxt k =
     (let k1 = push [AfterSwitch] k in
      k1\<lparr>currentThread := nxt, idling := False,
         threadStatus := (threadStatus k1)(nxt := RUNNING)\<rparr>)"

definition Run_after_switch :: "kstate \<Rightarrow> kstate res" where
  "Run_after_switch k = (case threadToBeDestroyed k of
     None \<Rightarrow> Inr k
   | Some t \<Rightarrow> if t \<noteq> currentThread k
       then Inr (k\<lparr>destroyed := t # destroyed k, threadToBeDestroyed := None\<rparr>)
       else Inl AssertionFailed)"

section \<open>Threads\<close>

text \<open>
  \<^verbatim>\<open>Sleep\<close>: with nobody ready the CPU idles (\<open>idling\<close>) inside the loop around
  \<^verbatim>\<open>Interrupt::Idle\<close> until an interrupt handler has made a thread ready.
\<close>

definition Thread_Sleep :: "kstate \<Rightarrow> kstate res" where
  "Thread_Sleep k =
     (if level k = IntOff
      then let k1 = k\<lparr>threadStatus := (threadStatus k)(currentThread k := BLOCKED)\<rparr> in
        (case Scheduler_FindNextToRun k1 of
           (None, k2) \<Rightarrow> Inr (k2\<lparr>idling := True\<rparr>)
         | (Some t, k2) \<Rightarrow> Inr (Scheduler_Run t k2))
      else Inl AssertionFailed)"

definition Thread_Yield :: "kstate \<Rightarrow> kstate" where
  "Thread_Yield k =
     (let oldLevel = level k; k1 = k\<lparr>level := IntOff\<rparr> in
      case Scheduler_FindNextToRun k1 of
        (None, k2) \<Rightarrow> k2\<lparr>level := oldLevel\<rparr>
      | (Some t, k2) \<Rightarrow>
          Scheduler_Run t (Scheduler_ReadyToRun (currentThread k2) (push [Restore oldLevel] k2)))"

text \<open>
  \<^verbatim>\<open>new Thread\<close> followed by \<^verbatim>\<open>Fork\<close>: the new thread's stack starts at \<^verbatim>\<open>ThreadRoot\<close>,
  which enables interrupts, calls the function and calls \<^verbatim>\<open>Finish\<close>.
\<close>

definition Thread_StackAllocate :: "tid \<Rightarrow> instr list \<Rightarrow> kstate \<Rightarrow> kstate" where
  "Thread_StackAllocate t func k =
     k\<lparr>code := (code k)(t := Restore IntOn # func @ [Finish])\<rparr>"

definition Thread_Fork :: "instr list \<Rightarrow> kstate \<Rightarrow> kstate" where
  "Thread_Fork func k =
     (let t = nextThread k;
          k1 = k\<lparr>nextThread := Suc t, threadStatus := (threadStatus k)(t := JUST_CREATED)\<rparr>;
          k2 = Thread_StackAllocate t func k1;
          oldLevel = level k2
      in (Scheduler_ReadyToRun t (k2\<lparr>level := IntOff\<rparr>))\<lparr>level := oldLevel\<rparr>)"

definition Thread_Finish :: "kstate \<Rightarrow> kstate res" where
  "Thread_Finish k = Thread_Sleep (k\<lparr>level := IntOff, threadToBeDestroyed := Some (currentThread k)\<rparr>)"

section \<open>Semaphores\<close>

definition upd_sem :: "nat \<Rightarrow> (Semaphore \<Rightarrow> Semaphore) \<Rightarrow> kstate \<Rightarrow> kstate" where
  "upd_sem s f k = k\<lparr>sems := (sems k)[s := f (sems k ! s)]\<rparr>"

text \<open>
  The loop of \<^verbatim>\<open>P\<close>, entered with interrupts off and again after each wake-up. The value is a C \<^verbatim>\<open>int\<close>: it wraps in
  \<^verbatim>\<open>value--\<close> and \<^verbatim>\<open>value++\<close>.
\<close>

definition Semaphore_P_loop :: "nat \<Rightarrow> IntStatus \<Rightarrow> kstate \<Rightarrow> kstate res" where
  "Semaphore_P_loop s oldLevel k =
     (if s < length (sems k)
      then if sem_value (sems k ! s) = 0
        then Thread_Sleep (push [P_loop s oldLevel]
               (upd_sem s (\<lambda>x. x\<lparr>sem_queue := sem_queue x @ [currentThread k]\<rparr>) k))
        else Inr ((upd_sem s (\<lambda>x. x\<lparr>sem_value := int32 (sem_value x - 1)\<rparr>) k)\<lparr>level := oldLevel\<rparr>)
      else Inl NullDeref)"

definition Semaphore_P :: "nat \<Rightarrow> kstate \<Rightarrow> kstate res" where
  "Semaphore_P s k = Semaphore_P_loop s (level k) (k\<lparr>level := IntOff\<rparr>)"

definition Semaphore_V :: "nat \<Rightarrow> kstate \<Rightarrow> kstate res" where
  "Semaphore_V s k =
     (if s < length (sems k)
      then let oldLevel = level k; k1 = k\<lparr>level := IntOff\<rparr>;
             k2 = (case sem_queue (sems k1 ! s) of
                     [] \<Rightarrow> k1
                   | t # ts \<Rightarrow> Scheduler_ReadyToRun t (upd_sem s (\<lambda>x. x\<lparr>sem_queue := ts\<rparr>) k1))
           in Inr ((upd_sem s (\<lambda>x. x\<lparr>sem_value := int32 (sem_value x + 1)\<rparr>) k2)\<lparr>level := oldLevel\<rparr>)
      else Inl NullDeref)"

section \<open>Locks\<close>

definition upd_lock :: "nat \<Rightarrow> (Lock \<Rightarrow> Lock) \<Rightarrow> kstate \<Rightarrow> kstate" where
  "upd_lock l f k = k\<lparr>locks := (locks k)[l := f (locks k ! l)]\<rparr>"

definition Lock_isHeldByCurrentThread :: "nat \<Rightarrow> kstate \<Rightarrow> bool" where
  "Lock_isHeldByCurrentThread l k \<longleftrightarrow> lock_owner (locks k ! l) = Some (currentThread k)"

definition Lock_Acquire :: "nat \<Rightarrow> kstate \<Rightarrow> kstate res" where
  "Lock_Acquire l k =
     (if l < length (locks k)
      then let oldLevel = level k; k1 = k\<lparr>level := IntOff\<rparr> in
        if Lock_isHeldByCurrentThread l k1 then Inr (k1\<lparr>level := oldLevel\<rparr>)
        else if lock_state (locks k1 ! l) = FREE
        then Inr ((upd_lock l (\<lambda>x. x\<lparr>lock_state := BUSY, lock_owner := Some (currentThread k1)\<rparr>) k1)
               \<lparr>level := oldLevel\<rparr>)
        else Thread_Sleep (push [Restore oldLevel]
               (upd_lock l (\<lambda>x. x\<lparr>lock_waitQueue := lock_waitQueue x @ [currentThread k1]\<rparr>) k1))
      else Inl NullDeref)"

definition Lock_Release :: "nat \<Rightarrow> kstate \<Rightarrow> kstate res" where
  "Lock_Release l k =
     (if l < length (locks k)
      then let oldLevel = level k; k1 = k\<lparr>level := IntOff\<rparr> in
        if \<not> Lock_isHeldByCurrentThread l k1 then Inr (k1\<lparr>level := oldLevel\<rparr>)
        else (case lock_waitQueue (locks k1 ! l) of
            t # ts \<Rightarrow> Inr ((Scheduler_ReadyToRun t
               (upd_lock l (\<lambda>x. x\<lparr>lock_waitQueue := ts, lock_owner := Some t\<rparr>) k1))\<lparr>level := oldLevel\<rparr>)
          | [] \<Rightarrow> Inr ((upd_lock l (\<lambda>x. x\<lparr>lock_state := FREE, lock_owner := None\<rparr>) k1)
               \<lparr>level := oldLevel\<rparr>))
      else Inl NullDeref)"

section \<open>Condition variables\<close>

definition upd_cond :: "nat \<Rightarrow> (Condition \<Rightarrow> Condition) \<Rightarrow> kstate \<Rightarrow> kstate" where
  "upd_cond c f k = k\<lparr>conds := (conds k)[c := f (conds k ! c)]\<rparr>"

text \<open>
  After its sleep, \<^verbatim>\<open>Wait\<close> re-acquires the lock (with interrupts still off) and then
  restores the interrupt level.
\<close>

definition Condition_Wait :: "nat \<Rightarrow> nat option \<Rightarrow> kstate \<Rightarrow> kstate res" where
  "Condition_Wait c conditionLock k =
     (if c < length (conds k)
      then let oldLevel = level k; k1 = k\<lparr>level := IntOff\<rparr> in
        (case conditionLock of
           None \<Rightarrow> Inr (k1\<lparr>level := oldLevel\<rparr>)
         | Some l \<Rightarrow>
             if cv_waitingLock (conds k1 ! c) = None \<or> cv_waitingLock (conds k1 ! c) = Some l
             then bindR (Lock_Release l
                    (upd_cond c (\<lambda>x. x\<lparr>cv_waitingLock := Some l,
                        cv_waitQueue := cv_waitQueue x @ [currentThread k1]\<rparr>) k1)) (\<lambda>k2.
                  Thread_Sleep (push [Acquire l, Restore oldLevel] k2))
             else Inr (k1\<lparr>level := oldLevel\<rparr>))
      else Inl NullDeref)"

definition Condition_Signal :: "nat \<Rightarrow> nat option \<Rightarrow> kstate \<Rightarrow> kstate res" where
  "Condition_Signal c conditionLock k =
     (if c < length (conds k)
      then let oldLevel = level k; k1 = k\<lparr>level := IntOff\<rparr> in
        if conditionLock = None then Inr (k1\<lparr>level := oldLevel\<rparr>)
        else (case cv_waitQueue (conds k1 ! c) of
            [] \<Rightarrow> Inr (k1\<lparr>level := oldLevel\<rparr>)
          | t # ts \<Rightarrow>
              if conditionLock \<noteq> cv_waitingLock (conds k1 ! c) then Inr (k1\<lparr>level := oldLevel\<rparr>)
              else Inr ((upd_cond c (\<lambda>x. x\<lparr>cv_waitingLock :=
                             (if cv_waitQueue x = [] then None else cv_waitingLock x)\<rparr>)
                          (Scheduler_ReadyToRun t
                            (upd_cond c (\<lambda>x. x\<lparr>cv_waitQueue := ts\<rparr>) k1)))\<lparr>level := oldLevel\<rparr>))
      else Inl NullDeref)"

text \<open>
  \<^verbatim>\<open>Broadcast\<close> makes its two tests with interrupts off and restores the level before the loop
  \<^verbatim>\<open>while (!waitQueue->IsEmpty()) Signal(conditionLock)\<close>: each test of the loop and each \<^verbatim>\<open>Signal\<close> is a step of its own,
  and other threads may run between them.
\<close>

definition Broadcast_loop :: "nat \<Rightarrow> nat option \<Rightarrow> kstate \<Rightarrow> kstate res" where
  "Broadcast_loop c conditionLock k =
     (if c < length (conds k)
      then if cv_waitQueue (conds k ! c) = [] then Inr k
        else Inr (push [Signal c conditionLock, Bcast_loop c conditionLock] k)
      else Inl NullDeref)"

definition Condition_Broadcast :: "nat \<Rightarrow> nat option \<Rightarrow> kstate \<Rightarrow> kstate res" where
  "Condition_Broadcast c conditionLock k =
     (if c < length (conds k)
      then let oldLevel = level k; k1 = k\<lparr>level := IntOff\<rparr> in
        if conditionLock = None then Inr (k1\<lparr>level := oldLevel\<rparr>)
        else if conditionLock \<noteq> cv_waitingLock (conds k1 ! c) then Inr (k1\<lparr>level := oldLevel\<rparr>)
        else Inr (push [Bcast_loop c conditionLock] (k1\<lparr>level := oldLevel\<rparr>))
      else Inl NullDeref)"

section \<open>Synchronised lists\<close>

text \<open>\<^verbatim>\<open>SynchList::Append\<close> and \<^verbatim>\<open>SynchList::Remove\<close> run their calls one after the other.\<close>

definition SynchList_Append :: "nat \<Rightarrow> nat \<Rightarrow> kstate \<Rightarrow> kstate res" where
  "SynchList_Append q it k =
     (if q < length (synchlists k)
      then let sl = synchlists k ! q in
        Inr (push [Acquire (sl_lock sl), SL_put q it,
                   Signal (sl_listEmpty sl) (Some (sl_lock sl)), Release (sl_lock sl)] k)
      else Inl NullDeref)"

definition SynchList_put :: "nat \<Rightarrow> nat \<Rightarrow> kstate \<Rightarrow> kstate res" where
  "SynchList_put q it k =
     (if q < length (synchlists k)
      then Inr (k\<lparr>synchlists := (synchlists k)[q := (synchlists k ! q)\<lparr>sl_list := sl_list (synchlists k ! q) @ [it]\<rparr>]\<rparr>)
      else Inl NullDeref)"

definition SynchList_Remove :: "nat \<Rightarrow> kstate \<Rightarrow> kstate res" where
  "SynchList_Remove q k =
     (if q < length (synchlists k)
      then Inr (push [Acquire (sl_lock (synchlists k ! q)), SL_take q] k)
      else Inl NullDeref)"

definition SynchList_take :: "nat \<Rightarrow> kstate \<Rightarrow> kstate res" where
  "SynchList_take q k =
     (if q < length (synchlists k)
      then let sl = synchlists k ! q in
        (case sl_list sl of
           [] \<Rightarrow> Inr (push [Wait (sl_listEmpty sl) (Some (sl_lock sl)), SL_take q] k)
         | it # its \<Rightarrow> Inr (push [Release (sl_lock sl)]
             (k\<lparr>synchlists := (synchlists k)[q := sl\<lparr>sl_list := its\<rparr>],
                received := (received k)(currentThread k := received k (currentThread k) @ [it])\<rparr>)))
      else Inl NullDeref)"

text \<open>
  \<^verbatim>\<open>SynchList::Mapcar\<close> calls \<^verbatim>\<open>func\<close> on one item after the other, with the lock held. The calls that \<^verbatim>\<open>func\<close> makes itself
  are \<open>f\<close>; it does not change the list. The items it gets are recorded in \<open>received\<close>.
\<close>

definition SynchList_Mapcar :: "nat \<Rightarrow> instr list \<Rightarrow> kstate \<Rightarrow> kstate res" where
  "SynchList_Mapcar q f k =
     (if q < length (synchlists k)
      then let sl = synchlists k ! q in Inr (push [Acquire (sl_lock sl), SL_walk q f, Release (sl_lock sl)] k)
      else Inl NullDeref)"

definition SynchList_walk :: "nat \<Rightarrow> instr list \<Rightarrow> kstate \<Rightarrow> kstate res" where
  "SynchList_walk q f k =
     (if q < length (synchlists k) then Inr (push [SL_map (sl_list (synchlists k ! q)) f] k) else Inl NullDeref)"

definition SynchList_map :: "nat list \<Rightarrow> instr list \<Rightarrow> kstate \<Rightarrow> kstate" where
  "SynchList_map its f k = (case its of
     [] \<Rightarrow> k
   | it # rest \<Rightarrow> push (f @ [SL_map rest f])
       (k\<lparr>received := (received k)(currentThread k := received k (currentThread k) @ [it])\<rparr>))"

section \<open>Execution\<close>

fun exec_instr :: "instr \<Rightarrow> kstate \<Rightarrow> kstate res" where
  "exec_instr (P s) k = Semaphore_P s k"
| "exec_instr (V s) k = Semaphore_V s k"
| "exec_instr (Acquire l) k = Lock_Acquire l k"
| "exec_instr (Release l) k = Lock_Release l k"
| "exec_instr (Wait c l) k = Condition_Wait c l k"
| "exec_instr (Signal c l) k = Condition_Signal c l k"
| "exec_instr (Broadcast c l) k = Condition_Broadcast c l k"
| "exec_instr Yield k = Inr (Thread_Yield k)"
| "exec_instr (Fork f) k = Inr (Thread_Fork f k)"
| "exec_instr Finish k = Thread_Finish k"
| "exec_instr (SL_Append q x) k = SynchList_Append q x k"
| "exec_instr (SL_Remove q) k = SynchList_Remove q k"
| "exec_instr (SL_Mapcar q f) k = SynchList_Mapcar q f k"
| "exec_instr (P_loop s lvl) k = Semaphore_P_loop s lvl k"
| "exec_instr (Bcast_loop c l) k = Broadcast_loop c l k"
| "exec_instr (Restore lvl) k = Inr (k\<lparr>level := lvl\<rparr>)"
| "exec_instr AfterSwitch k = Run_after_switch k"
| "exec_instr (SL_put q x) k = SynchList_put q x k"
| "exec_instr (SL_take q) k = SynchList_take q k"
| "exec_instr (SL_walk q f) k = SynchList_walk q f k"
| "exec_instr (SL_map its f) k = Inr (SynchList_map its f k)"

definition pop :: "kstate \<Rightarrow> kstate" where
  "pop k = k\<lparr>code := (code k)(currentThread k := tl (code k (currentThread k)))\<rparr>"

text \<open>One step of the running thread.\<close>

definition run_current :: "kstate \<Rightarrow> kstate res" where
  "run_current k = (case code k (currentThread k) of
     [] \<Rightarrow> Inr k
   | i # _ \<Rightarrow> exec_instr i (pop k))"

text \<open>
  The transitions: the running thread executes its next step; the timer preempts it
  when interrupts are on; a device handler calls \<^verbatim>\<open>V\<close>, when interrupts are on or the CPU
  idles; the idle loop finds a ready thread.
\<close>

inductive kstep :: "kstate \<Rightarrow> kstate \<Rightarrow> bool" where
  run: "\<not> idling k \<Longrightarrow> code k (currentThread k) \<noteq> [] \<Longrightarrow> run_current k = Inr k' \<Longrightarrow> kstep k k'"
| preempt: "\<not> idling k \<Longrightarrow> level k = IntOn \<Longrightarrow> kstep k (Thread_Yield k)"
| device: "idling k \<or> level k = IntOn \<Longrightarrow> Semaphore_V s k = Inr k' \<Longrightarrow> kstep k k'"
| dispatch: "idling k \<Longrightarrow> Scheduler_FindNextToRun k = (Some t, k1) \<Longrightarrow> kstep k (Scheduler_Run t k1)"

inductive kreach :: "kstate \<Rightarrow> kstate \<Rightarrow> bool" for k0 where
  start: "kreach k0 k0"
| step: "kreach k0 k \<Longrightarrow> kstep k k' \<Longrightarrow> kreach k0 k'"

text \<open>
  The state in which \<^verbatim>\<open>Initialize\<close> leaves the kernel: the main thread runs \<open>prog\<close> with
  interrupts enabled; \<open>vals\<close> are the initial values of the semaphores, and locks and
  conditions have just been constructed.
\<close>

definition Initialize :: "int list \<Rightarrow> nat \<Rightarrow> nat \<Rightarrow> SynchList list \<Rightarrow> instr list \<Rightarrow> kstate" where
  "Initialize vals nlocks nconds slists prog =
     \<lparr>currentThread = 0, idling = False, threadStatus = (\<lambda>_. JUST_CREATED)(0 := RUNNING),
      nextThread = 1, destroyed = [], readyList = [], threadToBeDestroyed = None, level = IntOn,
      code = (\<lambda>_. [])(0 := prog), sems = map new_Semaphore vals,
      locks = replicate nlocks new_Lock, conds = replicate nconds new_Condition,
      synchlists = slists, received = (\<lambda>_. [])\<rparr>"

end
