(* ===== verification/Thread_Safety.thy ===== *)
theory Thread_Safety
  imports Thread_Kernel
begin

text \<open>
  Invariants of the thread kernel over every interleaving. \<open>occ t k\<close> counts the places
  thread \<open>t\<close> is in: on the CPU, on the ready list, or on a wait queue. Every routine but
  \<^verbatim>\<open>Fork\<close> and \<^verbatim>\<open>Finish\<close> keeps the count of every thread, so no thread is ever lost or
  queued twice; statuses, lock ownership and condition queues stay
  consistent, and the kernel's assertions never fail.
\<close>

section \<open>Counting places\<close>

definition qsum :: "('x \<Rightarrow> tid list) \<Rightarrow> 'x list \<Rightarrow> tid \<Rightarrow> nat" where
  "qsum q xs t = (\<Sum>x\<leftarrow>xs. count_list (q x) t)"

definition waiting :: "tid \<Rightarrow> kstate \<Rightarrow> nat" where
  "waiting t k = qsum sem_queue (sems k) t + qsum lock_waitQueue (locks k) t +
     qsum cv_waitQueue (conds k) t"

definition queued :: "tid \<Rightarrow> kstate \<Rightarrow> nat" where
  "queued t k = count_list (readyList k) t + waiting t k"

definition on_cpu :: "tid \<Rightarrow> kstate \<Rightarrow> nat" where
  "on_cpu t k = (if \<not> idling k \<and> currentThread k = t then 1 else 0)"

definition occ :: "tid \<Rightarrow> kstate \<Rightarrow> nat" where
  "occ t k = on_cpu t k + queued t k"

lemma qsum_update:
  "i < length xs \<Longrightarrow>
     qsum q (xs[i := x]) t + count_list (q (xs ! i)) t = qsum q xs t + count_list (q x) t"
proof (induction xs arbitrary: i)
  case Nil
  then show ?case by simp
next
  case (Cons y ys)
  then show ?case by (cases i) (fastforce simp: qsum_def)+
qed

lemma count_le_qsum: "i < length xs \<Longrightarrow> count_list (q (xs ! i)) t \<le> qsum q xs t"
proof (induction xs arbitrary: i)
  case Nil
  then show ?case by simp
next
  case (Cons y ys)
  then show ?case by (cases i) (fastforce simp: qsum_def)+
qed

lemma queued_frame [simp]:
  "queued t (k\<lparr>level := x\<rparr>) = queued t k"
  "queued t (k\<lparr>threadStatus := st\<rparr>) = queued t k"
  "queued t (k\<lparr>code := cd\<rparr>) = queued t k"
  "queued t (k\<lparr>idling := b\<rparr>) = queued t k"
  "queued t (k\<lparr>currentThread := c\<rparr>) = queued t k"
  "queued t (k\<lparr>nextThread := n\<rparr>) = queued t k"
  "queued t (k\<lparr>threadToBeDestroyed := d\<rparr>) = queued t k"
  "queued t (k\<lparr>destroyed := ds\<rparr>) = queued t k"
  "queued t (k\<lparr>synchlists := sl\<rparr>) = queued t k"
  "queued t (k\<lparr>received := rv\<rparr>) = queued t k"
  by (simp_all add: queued_def waiting_def)

lemma waiting_frame [simp]:
  "waiting t (k\<lparr>level := x\<rparr>) = waiting t k"
  "waiting t (k\<lparr>threadStatus := st\<rparr>) = waiting t k"
  "waiting t (k\<lparr>readyList := rl\<rparr>) = waiting t k"
  "waiting t (k\<lparr>code := cd\<rparr>) = waiting t k"
  "waiting t (k\<lparr>idling := b\<rparr>) = waiting t k"
  "waiting t (k\<lparr>currentThread := c\<rparr>) = waiting t k"
  "waiting t (k\<lparr>nextThread := n\<rparr>) = waiting t k"
  "waiting t (k\<lparr>threadToBeDestroyed := d\<rparr>) = waiting t k"
  "waiting t (k\<lparr>destroyed := ds\<rparr>) = waiting t k"
  "waiting t (k\<lparr>synchlists := sl\<rparr>) = waiting t k"
  "waiting t (k\<lparr>received := rv\<rparr>) = waiting t k"
  by (simp_all add: waiting_def)

lemma push_fields [simp]:
  "level (push is k) = level k" "currentThread (push is k) = currentThread k"
  "idling (push is k) = idling k" "readyList (push is k) = readyList k"
  "threadStatus (push is k) = threadStatus k" "nextThread (push is k) = nextThread k"
  "threadToBeDestroyed (push is k) = threadToBeDestroyed k" "destroyed (push is k) = destroyed k"
  "sems (push is k) = sems k" "locks (push is k) = locks k" "conds (push is k) = conds k"
  "synchlists (push is k) = synchlists k" "waiting t (push is k) = waiting t k"
  "queued t (push is k) = queued t k" "received (push is k) = received k"
  by (simp_all add: push_def)

lemma pop_fields [simp]:
  "level (pop k) = level k" "currentThread (pop k) = currentThread k"
  "idling (pop k) = idling k" "readyList (pop k) = readyList k"
  "threadStatus (pop k) = threadStatus k" "nextThread (pop k) = nextThread k"
  "threadToBeDestroyed (pop k) = threadToBeDestroyed k" "destroyed (pop k) = destroyed k"
  "sems (pop k) = sems k" "locks (pop k) = locks k" "conds (pop k) = conds k"
  "synchlists (pop k) = synchlists k" "waiting t (pop k) = waiting t k"
  "queued t (pop k) = queued t k" "received (pop k) = received k"
  by (simp_all add: pop_def)

lemma ReadyToRun_fields [simp]:
  "level (Scheduler_ReadyToRun u k) = level k"
  "currentThread (Scheduler_ReadyToRun u k) = currentThread k"
  "idling (Scheduler_ReadyToRun u k) = idling k"
  "readyList (Scheduler_ReadyToRun u k) = readyList k @ [u]"
  "threadStatus (Scheduler_ReadyToRun u k) = (threadStatus k)(u := READY)"
  "nextThread (Scheduler_ReadyToRun u k) = nextThread k"
  "threadToBeDestroyed (Scheduler_ReadyToRun u k) = threadToBeDestroyed k"
  "destroyed (Scheduler_ReadyToRun u k) = destroyed k"
  "sems (Scheduler_ReadyToRun u k) = sems k" "locks (Scheduler_ReadyToRun u k) = locks k"
  "conds (Scheduler_ReadyToRun u k) = conds k" "code (Scheduler_ReadyToRun u k) = code k"
  "synchlists (Scheduler_ReadyToRun u k) = synchlists k"
  "received (Scheduler_ReadyToRun u k) = received k"
  "waiting t (Scheduler_ReadyToRun u k) = waiting t k"
  "queued t (Scheduler_ReadyToRun u k) = queued t k + (if t = u then 1 else 0)"
  by (simp_all add: Scheduler_ReadyToRun_def queued_def)

lemma Run_fields [simp]:
  "level (Scheduler_Run u k) = level k"
  "currentThread (Scheduler_Run u k) = u"
  "idling (Scheduler_Run u k) = False"
  "readyList (Scheduler_Run u k) = readyList k"
  "threadStatus (Scheduler_Run u k) = (threadStatus k)(u := RUNNING)"
  "nextThread (Scheduler_Run u k) = nextThread k"
  "threadToBeDestroyed (Scheduler_Run u k) = threadToBeDestroyed k"
  "destroyed (Scheduler_Run u k) = destroyed k"
  "sems (Scheduler_Run u k) = sems k" "locks (Scheduler_Run u k) = locks k"
  "conds (Scheduler_Run u k) = conds k"
  "code (Scheduler_Run u k) = (code k)(currentThread k := AfterSwitch # code k (currentThread k))"
  "synchlists (Scheduler_Run u k) = synchlists k"
  "received (Scheduler_Run u k) = received k"
  "waiting t (Scheduler_Run u k) = waiting t k"
  "queued t (Scheduler_Run u k) = queued t k"
  by (simp_all add: Scheduler_Run_def Let_def push_def)

lemma upd_fields [simp]:
  "level (upd_sem s f k) = level k" "currentThread (upd_sem s f k) = currentThread k"
  "idling (upd_sem s f k) = idling k" "readyList (upd_sem s f k) = readyList k"
  "threadStatus (upd_sem s f k) = threadStatus k" "nextThread (upd_sem s f k) = nextThread k"
  "threadToBeDestroyed (upd_sem s f k) = threadToBeDestroyed k"
  "destroyed (upd_sem s f k) = destroyed k" "locks (upd_sem s f k) = locks k"
  "conds (upd_sem s f k) = conds k" "code (upd_sem s f k) = code k"
  "level (upd_lock l g k) = level k" "currentThread (upd_lock l g k) = currentThread k"
  "idling (upd_lock l g k) = idling k" "readyList (upd_lock l g k) = readyList k"
  "threadStatus (upd_lock l g k) = threadStatus k" "nextThread (upd_lock l g k) = nextThread k"
  "threadToBeDestroyed (upd_lock l g k) = threadToBeDestroyed k"
  "destroyed (upd_lock l g k) = destroyed k" "sems (upd_lock l g k) = sems k"
  "conds (upd_lock l g k) = conds k" "code (upd_lock l g k) = code k"
  "level (upd_cond c h k) = level k" "currentThread (upd_cond c h k) = currentThread k"
  "idling (upd_cond c h k) = idling k" "readyList (upd_cond c h k) = readyList k"
  "threadStatus (upd_cond c h k) = threadStatus k" "nextThread (upd_cond c h k) = nextThread k"
  "threadToBeDestroyed (upd_cond c h k) = threadToBeDestroyed k"
  "destroyed (upd_cond c h k) = destroyed k" "sems (upd_cond c h k) = sems k"
  "locks (upd_cond c h k) = locks k" "code (upd_cond c h k) = code k"
  by (simp_all add: upd_sem_def upd_lock_def upd_cond_def)

lemma upd_tables [simp]:
  "sems (upd_sem s f k) = (sems k)[s := f (sems k ! s)]"
  "locks (upd_lock l g k) = (locks k)[l := g (locks k ! l)]"
  "conds (upd_cond c h k) = (conds k)[c := h (conds k ! c)]"
  by (simp_all add: upd_sem_def upd_lock_def upd_cond_def)

lemma waiting_upd_sem:
  "s < length (sems k) \<Longrightarrow> waiting t (upd_sem s f k) + count_list (sem_queue (sems k ! s)) t =
     waiting t k + count_list (sem_queue (f (sems k ! s))) t"
  using qsum_update [of s "sems k" sem_queue "f (sems k ! s)" t]
  by (simp add: waiting_def upd_sem_def)

lemma waiting_upd_lock:
  "l < length (locks k) \<Longrightarrow> waiting t (upd_lock l f k) + count_list (lock_waitQueue (locks k ! l)) t =
     waiting t k + count_list (lock_waitQueue (f (locks k ! l))) t"
  using qsum_update [of l "locks k" lock_waitQueue "f (locks k ! l)" t]
  by (simp add: waiting_def upd_lock_def)

lemma waiting_upd_cond:
  "c < length (conds k) \<Longrightarrow> waiting t (upd_cond c f k) + count_list (cv_waitQueue (conds k ! c)) t =
     waiting t k + count_list (cv_waitQueue (f (conds k ! c))) t"
  using qsum_update [of c "conds k" cv_waitQueue "f (conds k ! c)" t]
  by (simp add: waiting_def upd_cond_def)

lemma queue_count_le_waiting:
  "s < length (sems k) \<Longrightarrow> count_list (sem_queue (sems k ! s)) t \<le> waiting t k"
  "l < length (locks k) \<Longrightarrow> count_list (lock_waitQueue (locks k ! l)) t \<le> waiting t k"
  "c < length (conds k) \<Longrightarrow> count_list (cv_waitQueue (conds k ! c)) t \<le> waiting t k"
  using count_le_qsum [of s "sems k" sem_queue t] count_le_qsum [of l "locks k" lock_waitQueue t]
    count_le_qsum [of c "conds k" cv_waitQueue t]
  by (auto simp: waiting_def)

section \<open>Thread invariant\<close>

text \<open>
  \<open>placed\<close> is the part of the invariant that also holds inside a routine, when the
  current thread has been queued but not yet switched out: the statuses of the other
  threads agree with where they are, and nobody is in two queues.
\<close>

definition status_ok :: "tid \<Rightarrow> kstate \<Rightarrow> bool" where
  "status_ok t k \<longleftrightarrow> (count_list (readyList k) t > 0 \<longrightarrow> threadStatus k t = READY) \<and>
     (waiting t k > 0 \<longrightarrow> threadStatus k t = BLOCKED)"

definition placed :: "kstate \<Rightarrow> bool" where
  "placed k \<longleftrightarrow> (\<forall>t. queued t k \<le> 1) \<and> (\<forall>t. t \<noteq> currentThread k \<longrightarrow> status_ok t k) \<and>
     count_list (readyList k) (currentThread k) = 0"

definition dead :: "tid \<Rightarrow> kstate \<Rightarrow> bool" where
  "dead t k \<longleftrightarrow> threadToBeDestroyed k = Some t \<or> t \<in> set (destroyed k)"

definition gone :: "kstate \<Rightarrow> bool" where
  "gone k \<longleftrightarrow> (\<forall>t. dead t k \<or> nextThread k \<le> t \<longrightarrow> queued t k = 0) \<and>
     (\<forall>t. dead t k \<longrightarrow> t < nextThread k)"

definition thr_inv :: "kstate \<Rightarrow> bool" where
  "thr_inv k \<longleftrightarrow> (\<forall>t. occ t k \<le> 1) \<and> (\<forall>t. status_ok t k) \<and>
     (\<not> idling k \<longrightarrow> threadStatus k (currentThread k) = RUNNING) \<and>
     (\<forall>t. dead t k \<or> nextThread k \<le> t \<longrightarrow> occ t k = 0) \<and> (\<forall>t. dead t k \<longrightarrow> t < nextThread k)"

lemma thr_inv_placed: "thr_inv k \<Longrightarrow> \<not> idling k \<Longrightarrow> placed k \<and> queued (currentThread k) k = 0"
proof -
  assume inv: "thr_inv k" and run: "\<not> idling k"
  have o: "occ t k \<le> 1" for t using inv by (simp add: thr_inv_def)
  have "queued t k \<le> 1" for t using o [of t] by (simp add: occ_def)
  moreover have "queued (currentThread k) k = 0"
    using o [of "currentThread k"] run by (simp add: occ_def on_cpu_def)
  ultimately show ?thesis using inv by (auto simp: thr_inv_def placed_def queued_def)
qed

text \<open>The effect of \<^verbatim>\<open>Sleep\<close> on places: the current thread leaves the CPU, nothing else moves.\<close>

lemma Sleep_occ: "Thread_Sleep k = Inr k' \<Longrightarrow> occ t k' = queued t k"
  by (auto simp: Thread_Sleep_def Scheduler_FindNextToRun_def Let_def occ_def on_cpu_def queued_def
      split: if_splits list.splits)

lemma Sleep_fields:
  "Thread_Sleep k = Inr k' \<Longrightarrow> nextThread k' = nextThread k \<and>
     threadToBeDestroyed k' = threadToBeDestroyed k \<and> destroyed k' = destroyed k \<and>
     sems k' = sems k \<and> locks k' = locks k \<and> conds k' = conds k \<and> level k' = IntOff \<and>
     waiting t k' = waiting t k \<and> synchlists k' = synchlists k \<and> received k' = received k"
  by (auto simp: Thread_Sleep_def Scheduler_FindNextToRun_def Let_def split: if_splits list.splits)

lemma Sleep_status:
  assumes "Thread_Sleep k = Inr k'" "placed k"
  shows "status_ok t k' \<and> (\<not> idling k' \<longrightarrow> threadStatus k' (currentThread k') = RUNNING)"
  using assms
  by (auto simp: Thread_Sleep_def Scheduler_FindNextToRun_def Let_def placed_def status_ok_def
      queued_def split: if_splits list.splits dest!: spec [of _ t])

lemma Sleep_thr_inv:
  assumes "Thread_Sleep k = Inr k'" "placed k" "gone k"
  shows "thr_inv k'"
  using assms Sleep_occ [OF assms(1)] Sleep_fields [OF assms(1)] Sleep_status [OF assms(1,2)]
  by (auto simp: thr_inv_def placed_def gone_def dead_def)

section \<open>Moving threads between queues\<close>

definition same_threads :: "kstate \<Rightarrow> kstate \<Rightarrow> bool" where
  "same_threads k k' \<longleftrightarrow> currentThread k' = currentThread k \<and> idling k' = idling k \<and>
     readyList k' = readyList k \<and> threadStatus k' = threadStatus k \<and> nextThread k' = nextThread k \<and>
     threadToBeDestroyed k' = threadToBeDestroyed k \<and> destroyed k' = destroyed k"

lemma same_threads_upd [simp]:
  "same_threads k (upd_sem s f k) " "same_threads k (upd_lock l g k)" "same_threads k (upd_cond c h k)"
  "same_threads k (push is k)" "same_threads k (pop k)" "same_threads k (k\<lparr>level := x\<rparr>)"
  "same_threads k (k\<lparr>synchlists := sl\<rparr>)" "same_threads k (k\<lparr>received := rv\<rparr>)" "same_threads k k"
  by (simp_all add: same_threads_def)

lemma same_threads_trans: "same_threads k k1 \<Longrightarrow> same_threads k1 k2 \<Longrightarrow> same_threads k k2"
  by (simp add: same_threads_def)

lemma same_threads_simps:
  "same_threads k k1 \<Longrightarrow> same_threads k (upd_sem s f k1)"
  "same_threads k k1 \<Longrightarrow> same_threads k (upd_lock l g k1)"
  "same_threads k k1 \<Longrightarrow> same_threads k (upd_cond c h k1)"
  "same_threads k k1 \<Longrightarrow> same_threads k (push is k1)"
  "same_threads k k1 \<Longrightarrow> same_threads k (k1\<lparr>level := x\<rparr>)"
  "same_threads k k1 \<Longrightarrow> same_threads k (k1\<lparr>received := rv\<rparr>)"
  by (simp_all add: same_threads_def)

lemma thr_inv_cong:
  assumes "same_threads k k'" "\<And>u. waiting u k' = waiting u k"
  shows "thr_inv k' = thr_inv k"
  using assms by (simp add: thr_inv_def same_threads_def occ_def queued_def on_cpu_def status_ok_def dead_def)

lemma placed_cong:
  assumes "same_threads k k'" "\<And>u. waiting u k' = waiting u k"
  shows "placed k' = placed k" "gone k' = gone k"
  using assms by (simp_all add: placed_def gone_def dead_def same_threads_def queued_def status_ok_def)

text \<open>A thread taken off a wait queue and made ready.\<close>

lemma wake_thr_inv:
  assumes inv: "thr_inv k" and same: "same_threads k k1"
    and move: "\<And>u. waiting u k1 + (if u = t then 1 else 0) = waiting u k"
  shows "thr_inv (Scheduler_ReadyToRun t k1)"
proof -
  let ?k = "Scheduler_ReadyToRun t k1"
  have o: "occ u ?k = occ u k" for u
    using move [of u] same by (auto simp: occ_def on_cpu_def queued_def same_threads_def)
  have "occ t k \<le> 1" "waiting t k \<ge> 1" using inv move [of t] by (simp_all add: thr_inv_def)
  then have t: "waiting t k1 = 0" "count_list (readyList k) t = 0" "on_cpu t k = 0"
    using move [of t] by (simp_all add: occ_def queued_def)
  have "status_ok u ?k" for u
    using inv same move [of u] t by (auto simp: thr_inv_def status_ok_def same_threads_def)
  moreover have "\<not> idling ?k \<longrightarrow> threadStatus ?k (currentThread ?k) = RUNNING"
    using inv same t(3) by (auto simp: thr_inv_def same_threads_def on_cpu_def)
  ultimately show ?thesis
    using inv same o by (auto simp: thr_inv_def dead_def same_threads_def split: if_splits)
qed

lemma wake_placed:
  assumes inv: "placed k" "gone k" and same: "same_threads k k1" and t: "t \<noteq> currentThread k"
    and move: "\<And>u. waiting u k1 + (if u = t then 1 else 0) = waiting u k"
  shows "placed (Scheduler_ReadyToRun t k1) \<and> gone (Scheduler_ReadyToRun t k1)"
proof -
  let ?k = "Scheduler_ReadyToRun t k1"
  have q: "queued u ?k = queued u k" for u
    using move [of u] same by (auto simp: queued_def same_threads_def)
  have "queued t k \<le> 1" "waiting t k \<ge> 1" using inv move [of t] by (simp_all add: placed_def)
  then have tz: "waiting t k1 = 0" using move [of t] by (simp add: queued_def)
  have "u \<noteq> currentThread ?k \<longrightarrow> status_ok u ?k" for u
    using inv same move [of u] tz by (auto simp: placed_def status_ok_def same_threads_def)
  then show ?thesis using inv same t q by (simp add: placed_def gone_def dead_def same_threads_def)
qed

text \<open>The current thread put on a wait queue, still on the CPU.\<close>

lemma enqueue_placed:
  assumes inv: "thr_inv k" "\<not> idling k" and same: "same_threads k k1"
    and move: "\<And>u. waiting u k1 = waiting u k + (if u = currentThread k then 1 else 0)"
  shows "placed k1 \<and> gone k1"
proof -
  have p: "placed k" and z: "queued (currentThread k) k = 0" using thr_inv_placed [OF inv] by auto
  have q: "queued u k1 = queued u k + (if u = currentThread k then 1 else 0)" for u
    using move [of u] same by (simp add: queued_def same_threads_def)
  have "queued u k1 \<le> 1" for u using p z q [of u] by (auto simp: placed_def)
  moreover have "u \<noteq> currentThread k \<longrightarrow> status_ok u k1" for u
    using p same move [of u] by (simp add: placed_def status_ok_def same_threads_def)
  moreover have "on_cpu (currentThread k) k = 1" using inv by (simp add: on_cpu_def)
  then have "occ (currentThread k) k \<noteq> 0" by (simp add: occ_def)
  then have "gone k1" using inv(1) same q
    by (auto simp: gone_def dead_def thr_inv_def same_threads_def occ_def)
  ultimately show ?thesis using p z same q by (simp add: placed_def queued_def same_threads_def)
qed

section \<open>Every routine keeps the thread invariant\<close>

lemma V_thr_inv: "Semaphore_V s k = Inr k' \<Longrightarrow> thr_inv k \<Longrightarrow> thr_inv k'"
proof -
  assume V: "Semaphore_V s k = Inr k'" and inv: "thr_inv k"
  have s: "s < length (sems k)" using V by (simp add: Semaphore_V_def split: if_splits)
  let ?k1 = "k\<lparr>level := IntOff\<rparr>"
  show ?thesis
  proof (cases "sem_queue (sems k ! s)")
    case Nil
    have "k' = (upd_sem s (\<lambda>x. x\<lparr>sem_value := int32 (sem_value x + 1)\<rparr>) ?k1)\<lparr>level := level k\<rparr>"
      using V s Nil by (simp add: Semaphore_V_def Let_def)
    moreover have "waiting u (upd_sem s (\<lambda>x. x\<lparr>sem_value := int32 (sem_value x + 1)\<rparr>) ?k1) = waiting u k" for u
      using waiting_upd_sem [of s ?k1 u "\<lambda>x. x\<lparr>sem_value := int32 (sem_value x + 1)\<rparr>"] s by simp
    ultimately show ?thesis using inv thr_inv_cong [of k k'] by (simp add: same_threads_simps)
  next
    case (Cons t ts)
    let ?k2 = "Scheduler_ReadyToRun t (upd_sem s (\<lambda>x. x\<lparr>sem_queue := ts\<rparr>) ?k1)"
    have k': "k' = (upd_sem s (\<lambda>x. x\<lparr>sem_value := int32 (sem_value x + 1)\<rparr>) ?k2)\<lparr>level := level k\<rparr>"
      using V s Cons by (simp add: Semaphore_V_def Let_def)
    have "waiting u (upd_sem s (\<lambda>x. x\<lparr>sem_queue := ts\<rparr>) ?k1) + (if u = t then 1 else 0) = waiting u k" for u
      using waiting_upd_sem [of s ?k1 u "\<lambda>x. x\<lparr>sem_queue := ts\<rparr>"] s Cons by auto
    then have "thr_inv ?k2" using inv by (intro wake_thr_inv [of k]) (simp_all add: same_threads_simps)
    moreover have "waiting u (upd_sem s (\<lambda>x. x\<lparr>sem_value := int32 (sem_value x + 1)\<rparr>) ?k2) = waiting u ?k2" for u
      using waiting_upd_sem [of s ?k2 u "\<lambda>x. x\<lparr>sem_value := int32 (sem_value x + 1)\<rparr>"] s by simp
    ultimately show ?thesis using thr_inv_cong [of ?k2 k'] k' by (simp add: same_threads_simps)
  qed
qed

lemma P_loop_thr_inv:
  "Semaphore_P_loop s lvl k = Inr k' \<Longrightarrow> thr_inv k \<Longrightarrow> \<not> idling k \<Longrightarrow> thr_inv k'"
proof -
  assume P: "Semaphore_P_loop s lvl k = Inr k'" and inv: "thr_inv k" "\<not> idling k"
  have s: "s < length (sems k)" using P by (simp add: Semaphore_P_loop_def split: if_splits)
  show ?thesis
  proof (cases "sem_value (sems k ! s) = 0")
    case True
    let ?f = "\<lambda>x. x\<lparr>sem_queue := sem_queue x @ [currentThread k]\<rparr>"
    have "waiting u (push [P_loop s lvl] (upd_sem s ?f k)) =
        waiting u k + (if u = currentThread k then 1 else 0)" for u
      using waiting_upd_sem [of s k u ?f] s by auto
    then have "placed (push [P_loop s lvl] (upd_sem s ?f k)) \<and> gone (push [P_loop s lvl] (upd_sem s ?f k))"
      using inv by (intro enqueue_placed) (simp_all add: same_threads_simps)
    with P s True show ?thesis by (auto simp: Semaphore_P_loop_def intro: Sleep_thr_inv)
  next
    case False
    let ?f = "\<lambda>x. x\<lparr>sem_value := int32 (sem_value x - 1)\<rparr>"
    have "waiting u (upd_sem s ?f k) = waiting u k" for u
      using waiting_upd_sem [of s k u ?f] s by simp
    moreover have "k' = (upd_sem s ?f k)\<lparr>level := lvl\<rparr>"
      using P s False by (simp add: Semaphore_P_loop_def)
    ultimately show ?thesis using inv thr_inv_cong [of k k'] by (simp add: same_threads_simps)
  qed
qed

lemma Acquire_thr_inv:
  "Lock_Acquire l k = Inr k' \<Longrightarrow> thr_inv k \<Longrightarrow> \<not> idling k \<Longrightarrow> thr_inv k'"
proof -
  assume A: "Lock_Acquire l k = Inr k'" and inv: "thr_inv k" "\<not> idling k"
  have l: "l < length (locks k)" using A by (simp add: Lock_Acquire_def split: if_splits)
  let ?k1 = "k\<lparr>level := IntOff\<rparr>"
  let ?q = "\<lambda>x. x\<lparr>lock_waitQueue := lock_waitQueue x @ [currentThread k]\<rparr>"
  let ?b = "\<lambda>x. x\<lparr>lock_state := BUSY, lock_owner := Some (currentThread k)\<rparr>"
  have wb: "waiting u (upd_lock l ?b ?k1) = waiting u k" for u
    using waiting_upd_lock [of l ?k1 u ?b] l by simp
  have "waiting u (push [Restore (level k)] (upd_lock l ?q ?k1)) =
      waiting u k + (if u = currentThread k then 1 else 0)" for u
    using waiting_upd_lock [of l ?k1 u ?q] l by auto
  then have pl: "placed (push [Restore (level k)] (upd_lock l ?q ?k1)) \<and>
      gone (push [Restore (level k)] (upd_lock l ?q ?k1))"
    using inv by (intro enqueue_placed) (simp_all add: same_threads_simps)
  consider "k' = ?k1\<lparr>level := level k\<rparr>" | "k' = (upd_lock l ?b ?k1)\<lparr>level := level k\<rparr>"
    | "Thread_Sleep (push [Restore (level k)] (upd_lock l ?q ?k1)) = Inr k'"
    using A l by (auto simp: Lock_Acquire_def Let_def split: if_splits)
  then show ?thesis
  proof cases
    case 1
    then show ?thesis using inv thr_inv_cong [of k k'] by simp
  next
    case 2
    then show ?thesis using inv wb thr_inv_cong [of k k'] by (simp add: same_threads_simps)
  next
    case 3
    then show ?thesis using pl by (auto intro: Sleep_thr_inv)
  qed
qed

text \<open>The three ways \<^verbatim>\<open>Release\<close> ends: not the owner, hand-over to the first waiter, lock freed.\<close>

lemma Acquire_cases:
  assumes "Lock_Acquire l k = Inr k'"
  obtains (held) "l < length (locks k)" "lock_owner (locks k ! l) = Some (currentThread k)"
      "k' = k\<lparr>level := level k\<rparr>"
  | (free) "l < length (locks k)" "lock_state (locks k ! l) = FREE"
      "lock_owner (locks k ! l) \<noteq> Some (currentThread k)"
      "k' = (upd_lock l (\<lambda>x. x\<lparr>lock_state := BUSY, lock_owner := Some (currentThread k)\<rparr>)
         (k\<lparr>level := IntOff\<rparr>))\<lparr>level := level k\<rparr>"
  | (sleep) "l < length (locks k)" "lock_state (locks k ! l) = BUSY"
      "lock_owner (locks k ! l) \<noteq> Some (currentThread k)"
      "Thread_Sleep (push [Restore (level k)]
         (upd_lock l (\<lambda>x. x\<lparr>lock_waitQueue := lock_waitQueue x @ [currentThread k]\<rparr>) (k\<lparr>level := IntOff\<rparr>))) = Inr k'"
  using assms
  by (cases "lock_state (locks k ! l)")
    (auto simp: Lock_Acquire_def Lock_isHeldByCurrentThread_def Let_def split: if_splits)

lemma Release_cases:
  assumes "Lock_Release l k = Inr k'"
  obtains (other) "l < length (locks k)" "lock_owner (locks k ! l) \<noteq> Some (currentThread k)"
      "k' = k\<lparr>level := level k\<rparr>"
  | (free) "l < length (locks k)" "lock_owner (locks k ! l) = Some (currentThread k)"
      "lock_waitQueue (locks k ! l) = []"
      "k' = (upd_lock l (\<lambda>x. x\<lparr>lock_state := FREE, lock_owner := None\<rparr>) (k\<lparr>level := IntOff\<rparr>))\<lparr>level := level k\<rparr>"
  | (hand) t ts where "l < length (locks k)" "lock_owner (locks k ! l) = Some (currentThread k)"
      "lock_waitQueue (locks k ! l) = t # ts"
      "k' = (Scheduler_ReadyToRun t (upd_lock l (\<lambda>x. x\<lparr>lock_waitQueue := ts, lock_owner := Some t\<rparr>)
         (k\<lparr>level := IntOff\<rparr>)))\<lparr>level := level k\<rparr>"
  using assms
  by (auto simp: Lock_Release_def Lock_isHeldByCurrentThread_def Let_def split: if_splits list.splits)

lemma Release_move:
  assumes "l < length (locks k)" "lock_waitQueue (locks k ! l) = t # ts"
  shows "waiting u (upd_lock l (\<lambda>x. x\<lparr>lock_waitQueue := ts, lock_owner := Some t\<rparr>) (k\<lparr>level := IntOff\<rparr>)) +
     (if u = t then 1 else 0) = waiting u k"
  using waiting_upd_lock [of l "k\<lparr>level := IntOff\<rparr>" u "\<lambda>x. x\<lparr>lock_waitQueue := ts, lock_owner := Some t\<rparr>"] assms
  by auto

lemma Release_free_waiting:
  "l < length (locks k) \<Longrightarrow> waiting u (upd_lock l (\<lambda>x. x\<lparr>lock_state := FREE, lock_owner := None\<rparr>)
     (k\<lparr>level := IntOff\<rparr>)) = waiting u k"
  using waiting_upd_lock [of l "k\<lparr>level := IntOff\<rparr>" u "\<lambda>x. x\<lparr>lock_state := FREE, lock_owner := None\<rparr>"]
  by simp

lemma Release_thr_inv: "Lock_Release l k = Inr k' \<Longrightarrow> thr_inv k \<Longrightarrow> thr_inv k'"
proof (erule Release_cases)
  assume inv: "thr_inv k" and k': "k' = k\<lparr>level := level k\<rparr>"
  then show ?thesis using thr_inv_cong [of k k'] by simp
next
  assume inv: "thr_inv k" and l: "l < length (locks k)"
    and k': "k' = (upd_lock l (\<lambda>x. x\<lparr>lock_state := FREE, lock_owner := None\<rparr>) (k\<lparr>level := IntOff\<rparr>))\<lparr>level := level k\<rparr>"
  then show ?thesis using thr_inv_cong [of k k'] Release_free_waiting [OF l] by (simp add: same_threads_simps)
next
  fix t ts
  let ?k1 = "upd_lock l (\<lambda>x. x\<lparr>lock_waitQueue := ts, lock_owner := Some t\<rparr>) (k\<lparr>level := IntOff\<rparr>)"
  assume inv: "thr_inv k" and l: "l < length (locks k)" "lock_waitQueue (locks k ! l) = t # ts"
    and k': "k' = (Scheduler_ReadyToRun t ?k1)\<lparr>level := level k\<rparr>"
  have "thr_inv (Scheduler_ReadyToRun t ?k1)"
    using inv Release_move [OF l] by (intro wake_thr_inv [of k]) (simp_all add: same_threads_simps)
  then show ?thesis using thr_inv_cong [of "Scheduler_ReadyToRun t ?k1" k'] k' by simp
qed

lemma Release_placed:
  assumes R: "Lock_Release l k = Inr k'" and inv: "placed k" "gone k"
    and notin: "currentThread k \<notin> set (lock_waitQueue (locks k ! l))"
  shows "placed k' \<and> gone k' \<and> level k' = level k"
  using R
proof (cases rule: Release_cases)
  case other
  then show ?thesis using inv placed_cong [of k k'] by simp
next
  case free
  then show ?thesis using inv placed_cong [of k k'] Release_free_waiting by (simp add: same_threads_simps)
next
  case (hand t ts)
  let ?k1 = "upd_lock l (\<lambda>x. x\<lparr>lock_waitQueue := ts, lock_owner := Some t\<rparr>) (k\<lparr>level := IntOff\<rparr>)"
  have "placed (Scheduler_ReadyToRun t ?k1) \<and> gone (Scheduler_ReadyToRun t ?k1)"
    using inv notin hand Release_move [OF hand(1,3)]
    by (intro wake_placed [of k]) (auto simp: same_threads_simps)
  then show ?thesis using hand placed_cong [of "Scheduler_ReadyToRun t ?k1" k'] by simp
qed

lemma not_waiting_notin:
  "waiting t k = 0 \<Longrightarrow> l < length (locks k) \<Longrightarrow> t \<notin> set (lock_waitQueue (locks k ! l))"
  "waiting t k = 0 \<Longrightarrow> s < length (sems k) \<Longrightarrow> t \<notin> set (sem_queue (sems k ! s))"
  "waiting t k = 0 \<Longrightarrow> c < length (conds k) \<Longrightarrow> t \<notin> set (cv_waitQueue (conds k ! c))"
  using queue_count_le_waiting [of _ k t] by (metis count_list_0_iff le_zero_eq)+

lemma Release_length: "Lock_Release l k = Inr k' \<Longrightarrow> l < length (locks k)"
  by (simp add: Lock_Release_def split: if_splits)

lemma Wait_thr_inv:
  assumes W: "Condition_Wait c lo k = Inr k'" and inv: "thr_inv k" "\<not> idling k"
  shows "thr_inv k'"
proof -
  let ?k1 = "k\<lparr>level := IntOff\<rparr>"
  have c: "c < length (conds k)" using W by (simp add: Condition_Wait_def split: if_splits)
  consider "k' = ?k1\<lparr>level := level k\<rparr>"
    | l k2 where "Lock_Release l (upd_cond c (\<lambda>x. x\<lparr>cv_waitingLock := Some l,
        cv_waitQueue := cv_waitQueue x @ [currentThread k]\<rparr>) ?k1) = Inr k2"
      "Thread_Sleep (push [Acquire l, Restore (level k)] k2) = Inr k'"
    using W c by (auto simp: Condition_Wait_def Let_def bindR_eq_Inr_iff split: if_splits option.splits)
  then show ?thesis
  proof cases
    case 1
    then show ?thesis using inv thr_inv_cong [of k k'] by simp
  next
    case (2 l k2)
    let ?f = "\<lambda>x. x\<lparr>cv_waitingLock := Some l, cv_waitQueue := cv_waitQueue x @ [currentThread k]\<rparr>"
    let ?ku = "upd_cond c ?f ?k1"
    have "waiting u ?ku = waiting u k + (if u = currentThread k then 1 else 0)" for u
      using waiting_upd_cond [of c ?k1 u ?f] c by auto
    then have p: "placed ?ku \<and> gone ?ku"
      using inv by (intro enqueue_placed) (simp_all add: same_threads_simps)
    have "waiting (currentThread k) k = 0" using thr_inv_placed [OF inv] by (simp add: queued_def)
    then have "currentThread ?ku \<notin> set (lock_waitQueue (locks ?ku ! l))"
      using not_waiting_notin(1) Release_length [OF 2(1)] by simp
    with p Release_placed [OF 2(1)] have k2: "placed k2 \<and> gone k2" by blast
    then have "placed (push [Acquire l, Restore (level k)] k2)" "gone (push [Acquire l, Restore (level k)] k2)"
      using placed_cong [of k2 "push [Acquire l, Restore (level k)] k2"] by simp_all
    with 2(2) show ?thesis by (rule Sleep_thr_inv)
  qed
qed

lemma Signal_cases:
  assumes "Condition_Signal c lo k = Inr k'"
  obtains (skip) "c < length (conds k)" "k' = k\<lparr>level := level k\<rparr>"
      "lo = None \<or> cv_waitQueue (conds k ! c) = [] \<or> lo \<noteq> cv_waitingLock (conds k ! c)"
  | (wake) t ts m where "c < length (conds k)" "cv_waitQueue (conds k ! c) = t # ts"
      "cv_waitingLock (conds k ! c) = Some m" "lo = Some m"
      "k' = (Scheduler_ReadyToRun t (upd_cond c (\<lambda>x. x\<lparr>cv_waitQueue := ts,
         cv_waitingLock := (if ts = [] then None else cv_waitingLock x)\<rparr>) k))\<lparr>level := level k\<rparr>"
proof -
  have c: "c < length (conds k)" using assms by (simp add: Condition_Signal_def split: if_splits)
  show ?thesis
  proof (cases "lo = None \<or> cv_waitQueue (conds k ! c) = [] \<or> lo \<noteq> cv_waitingLock (conds k ! c)")
    case True
    then have "k' = k\<lparr>level := level k\<rparr>"
      using assms c by (auto simp: Condition_Signal_def Let_def split: if_splits list.splits)
    with True c show ?thesis using skip by blast
  next
    case False
    then obtain t ts m where q: "cv_waitQueue (conds k ! c) = t # ts" "lo = Some m"
      "cv_waitingLock (conds k ! c) = Some m" by (cases "cv_waitQueue (conds k ! c)") auto
    have "k' = (Scheduler_ReadyToRun t (upd_cond c (\<lambda>x. x\<lparr>cv_waitQueue := ts,
         cv_waitingLock := (if ts = [] then None else cv_waitingLock x)\<rparr>) k))\<lparr>level := level k\<rparr>"
      using assms c q
      by (auto simp: Condition_Signal_def Let_def upd_cond_def Scheduler_ReadyToRun_def)
    with c q show ?thesis using wake by blast
  qed
qed

lemma Signal_thr_inv: "Condition_Signal c lo k = Inr k' \<Longrightarrow> thr_inv k \<Longrightarrow> thr_inv k'"
proof (erule Signal_cases)
  assume "thr_inv k" "k' = k\<lparr>level := level k\<rparr>"
  then show ?thesis using thr_inv_cong [of k k'] by simp
next
  fix t ts m
  let ?f = "\<lambda>x. x\<lparr>cv_waitQueue := ts, cv_waitingLock := (if ts = [] then None else cv_waitingLock x)\<rparr>"
  assume inv: "thr_inv k" and c: "c < length (conds k)" "cv_waitQueue (conds k ! c) = t # ts"
    and k': "k' = (Scheduler_ReadyToRun t (upd_cond c ?f k))\<lparr>level := level k\<rparr>"
  have "waiting u (upd_cond c ?f k) + (if u = t then 1 else 0) = waiting u k" for u
    using waiting_upd_cond [of c k u ?f] c by auto
  then have "thr_inv (Scheduler_ReadyToRun t (upd_cond c ?f k))"
    using inv by (intro wake_thr_inv [of k]) simp_all
  then show ?thesis using thr_inv_cong [of "Scheduler_ReadyToRun t (upd_cond c ?f k)" k'] k' by simp
qed

lemma Broadcast_loop_result:
  "Broadcast_loop c lo k = Inr k' \<Longrightarrow> k' = k \<or> k' = push [Signal c lo, Bcast_loop c lo] k"
  by (simp add: Broadcast_loop_def split: if_splits)

lemma Broadcast_result:
  "Condition_Broadcast c lo k = Inr k' \<Longrightarrow> k' = k \<or> k' = push [Bcast_loop c lo] k"
  by (auto simp: Condition_Broadcast_def Let_def split: if_splits)

lemma Broadcast_thr_inv:
  "Condition_Broadcast c lo k = Inr k' \<Longrightarrow> thr_inv k \<Longrightarrow> thr_inv k'"
  "Broadcast_loop c lo k = Inr k' \<Longrightarrow> thr_inv k \<Longrightarrow> thr_inv k'"
  using thr_inv_cong [of k k'] by (auto dest!: Broadcast_result Broadcast_loop_result simp: same_threads_def)

lemma Yield_thr_inv:
  assumes inv: "thr_inv k" "\<not> idling k"
  shows "thr_inv (Thread_Yield k)"
proof (cases "readyList k")
  case Nil
  then have "Thread_Yield k = k\<lparr>level := level k\<rparr>"
    by (simp add: Thread_Yield_def Scheduler_FindNextToRun_def Let_def)
  then show ?thesis using inv thr_inv_cong [of k "Thread_Yield k"] by simp
next
  case (Cons t ts)
  let ?k' = "Thread_Yield k"
  have p: "placed k" and z: "queued (currentThread k) k = 0" using thr_inv_placed [OF inv] by auto
  have k': "readyList ?k' = ts @ [currentThread k]" "waiting u ?k' = waiting u k"
    "currentThread ?k' = t" "\<not> idling ?k'" "nextThread ?k' = nextThread k"
    "threadToBeDestroyed ?k' = threadToBeDestroyed k" "destroyed ?k' = destroyed k"
    "threadStatus ?k' = (threadStatus k)(currentThread k := READY, t := RUNNING)" for u
    using Cons by (simp_all add: Thread_Yield_def Scheduler_FindNextToRun_def Let_def)
  have o: "occ u ?k' = occ u k" for u
    using Cons k' inv(2) by (auto simp: occ_def on_cpu_def queued_def)
  have "queued t k \<le> 1" using p by (simp add: placed_def)
  then have t: "count_list ts t = 0" "waiting t k = 0" using Cons by (simp_all add: queued_def)
  have "t \<noteq> currentThread k" using z Cons by (auto simp: queued_def)
  then have "status_ok u ?k'" for u
    using inv t z Cons k' by (auto simp: thr_inv_def status_ok_def queued_def)
  then show ?thesis using inv k' o by (simp add: thr_inv_def dead_def)
qed

lemma Fork_thr_inv:
  assumes inv: "thr_inv k" "\<not> idling k"
  shows "thr_inv (Thread_Fork f k)"
proof -
  let ?k' = "Thread_Fork f k"
  have k': "readyList ?k' = readyList k @ [nextThread k]" "waiting u ?k' = waiting u k"
    "currentThread ?k' = currentThread k" "idling ?k' = idling k" "nextThread ?k' = Suc (nextThread k)"
    "threadToBeDestroyed ?k' = threadToBeDestroyed k" "destroyed ?k' = destroyed k"
    "threadStatus ?k' = (threadStatus k)(nextThread k := READY)" for u
    by (simp_all add: Thread_Fork_def Thread_StackAllocate_def Let_def)
  have fresh: "occ (nextThread k) k = 0" using inv by (simp add: thr_inv_def)
  then have new: "currentThread k \<noteq> nextThread k" "waiting (nextThread k) k = 0"
    "count_list (readyList k) (nextThread k) = 0" "\<not> dead (nextThread k) k"
    using inv by (auto simp: occ_def on_cpu_def queued_def thr_inv_def split: if_splits)
  have o: "occ u ?k' = occ u k + (if u = nextThread k then 1 else 0)" for u
    using k' by (simp add: occ_def on_cpu_def queued_def)
  have "status_ok u ?k'" for u
    using inv new k' by (auto simp: thr_inv_def status_ok_def)
  then show ?thesis using inv k' o fresh new
    by (auto simp: thr_inv_def dead_def less_Suc_eq)
qed

lemma Finish_thr_inv:
  assumes F: "Thread_Finish k = Inr k'" and inv: "thr_inv k" "\<not> idling k"
  shows "thr_inv k'"
proof -
  let ?k1 = "k\<lparr>level := IntOff, threadToBeDestroyed := Some (currentThread k)\<rparr>"
  have p: "placed k" and z: "queued (currentThread k) k = 0" using thr_inv_placed [OF inv] by auto
  have "occ (currentThread k) k \<noteq> 0" using inv by (simp add: occ_def on_cpu_def)
  moreover have "nextThread k \<le> currentThread k \<Longrightarrow> occ (currentThread k) k = 0"
    using inv(1) by (simp add: thr_inv_def)
  ultimately have "currentThread k < nextThread k" using not_le by blast
  moreover have "queued t k = 0" if "dead t k \<or> nextThread k \<le> t" for t
    using inv that by (auto simp: thr_inv_def occ_def)
  moreover have "t < nextThread k" if "dead t k" for t using inv that by (simp add: thr_inv_def)
  ultimately have "gone ?k1" using z by (auto simp: gone_def dead_def)
  moreover have "placed ?k1" using p by (simp add: placed_def status_ok_def)
  ultimately show ?thesis using F by (auto simp: Thread_Finish_def intro: Sleep_thr_inv)
qed

lemma AfterSwitch_thr_inv: "Run_after_switch k = Inr k' \<Longrightarrow> thr_inv k \<Longrightarrow> thr_inv k'"
  by (auto simp: Run_after_switch_def thr_inv_def dead_def occ_def on_cpu_def status_ok_def
      split: option.splits if_splits)

lemma SynchList_thr_inv:
  "SynchList_Append q x k = Inr k' \<Longrightarrow> thr_inv k \<Longrightarrow> thr_inv k'"
  "SynchList_Remove q k = Inr k' \<Longrightarrow> thr_inv k \<Longrightarrow> thr_inv k'"
  "SynchList_put q x k = Inr k' \<Longrightarrow> thr_inv k \<Longrightarrow> thr_inv k'"
  "SynchList_take q k = Inr k' \<Longrightarrow> thr_inv k \<Longrightarrow> thr_inv k'"
  "SynchList_Mapcar q f k = Inr k' \<Longrightarrow> thr_inv k \<Longrightarrow> thr_inv k'"
  "SynchList_walk q f k = Inr k' \<Longrightarrow> thr_inv k \<Longrightarrow> thr_inv k'"
  using thr_inv_cong [of k k']
  by (auto simp: SynchList_Append_def SynchList_Remove_def SynchList_put_def SynchList_take_def SynchList_Mapcar_def
      SynchList_walk_def Let_def same_threads_def split: if_splits list.splits)

lemma SynchList_map_thr_inv: "thr_inv k \<Longrightarrow> thr_inv (SynchList_map its f k)"
  using thr_inv_cong [of k "SynchList_map its f k"]
  by (auto simp: SynchList_map_def same_threads_def split: list.splits)

lemma exec_instr_thr_inv:
  "exec_instr i k = Inr k' \<Longrightarrow> thr_inv k \<Longrightarrow> \<not> idling k \<Longrightarrow> thr_inv k'"
proof (cases i)
  case (P s)
  assume "exec_instr i k = Inr k'" "thr_inv k" "\<not> idling k"
  then show ?thesis using P P_loop_thr_inv [of s "level k" "k\<lparr>level := IntOff\<rparr>" k']
      thr_inv_cong [of k "k\<lparr>level := IntOff\<rparr>"]
    by (simp add: Semaphore_P_def)
qed (auto intro: V_thr_inv P_loop_thr_inv Acquire_thr_inv Release_thr_inv Wait_thr_inv Signal_thr_inv
    Broadcast_thr_inv Yield_thr_inv Fork_thr_inv Finish_thr_inv AfterSwitch_thr_inv SynchList_thr_inv SynchList_map_thr_inv
    thr_inv_cong [of k "k\<lparr>level := _\<rparr>", THEN iffD2])

lemma thr_inv_pop [simp]: "thr_inv (pop k) = thr_inv k"
  by (rule thr_inv_cong) simp_all

lemma Dispatch_thr_inv:
  assumes idle: "idling k" and f: "Scheduler_FindNextToRun k = (Some t, k1)" and inv: "thr_inv k"
  shows "thr_inv (Scheduler_Run t k1)"
proof -
  let ?k' = "Scheduler_Run t k1"
  obtain ts where r: "readyList k = t # ts" "k1 = k\<lparr>readyList := ts\<rparr>"
    using f by (auto simp: Scheduler_FindNextToRun_def split: list.splits)
  have o: "occ u ?k' = occ u k" for u
    using r idle by (simp add: occ_def on_cpu_def queued_def)
  have "occ t k \<le> 1" using inv by (simp add: thr_inv_def)
  then have "count_list ts t = 0" "waiting t k = 0" using r by (simp_all add: occ_def queued_def)
  then have "status_ok u ?k'" for u
    using inv r by (auto simp: thr_inv_def status_ok_def)
  then show ?thesis using inv o r by (simp add: thr_inv_def dead_def)
qed

theorem kstep_thr_inv: "kstep k k' \<Longrightarrow> thr_inv k \<Longrightarrow> thr_inv k'"
proof (induction rule: kstep.induct)
  case (run k k')
  then obtain i "is" where i: "code k (currentThread k) = i # is" by (cases "code k (currentThread k)") auto
  have "exec_instr i (pop k) = Inr k'" using run(3) i by (simp add: run_current_def)
  then show ?case using run by (auto intro: exec_instr_thr_inv [of i "pop k"])
next
  case (preempt k)
  then show ?case by (simp add: Yield_thr_inv)
next
  case (device k s k')
  then show ?case by (blast intro: V_thr_inv)
next
  case (dispatch k t k1)
  then show ?case by (rule Dispatch_thr_inv)
qed

section \<open>Locks and conditions stay consistent\<close>

definition lock_ok :: "Lock \<Rightarrow> bool" where
  "lock_ok x \<longleftrightarrow> (lock_state x = FREE \<longleftrightarrow> lock_owner x = None) \<and>
     (lock_owner x = None \<longrightarrow> lock_waitQueue x = []) \<and>
     (\<forall>t. lock_owner x = Some t \<longrightarrow> t \<notin> set (lock_waitQueue x))"

definition cond_ok :: "Condition \<Rightarrow> bool" where
  "cond_ok x \<longleftrightarrow> (cv_waitingLock x = None \<longleftrightarrow> cv_waitQueue x = [])"

definition obj_inv :: "kstate \<Rightarrow> bool" where
  "obj_inv k \<longleftrightarrow> (\<forall>x \<in> set (locks k). lock_ok x) \<and>
     (\<forall>x \<in> set (conds k). cond_ok x)"

lemma update_memD: "x \<in> set (xs[i := y]) \<Longrightarrow> x = y \<or> x \<in> set xs"
  using set_update_subset_insert [of xs i y] by auto

lemma obj_invD:
  assumes "obj_inv k"
  shows "l < length (locks k) \<Longrightarrow> lock_ok (locks k ! l)"
    and "c < length (conds k) \<Longrightarrow> cond_ok (conds k ! c)"
  using assms by (auto simp: obj_inv_def)

lemma obj_inv_upd:
  "obj_inv k \<Longrightarrow> obj_inv (upd_sem s f k)"
  "obj_inv k \<Longrightarrow> lock_ok (g (locks k ! l)) \<Longrightarrow> obj_inv (upd_lock l g k)"
  "obj_inv k \<Longrightarrow> cond_ok (h (conds k ! c)) \<Longrightarrow> obj_inv (upd_cond c h k)"
  by (auto simp: obj_inv_def dest!: update_memD)

lemma obj_inv_frame [simp]:
  "obj_inv (push is k) = obj_inv k" "obj_inv (pop k) = obj_inv k"
  "obj_inv (k\<lparr>level := x\<rparr>) = obj_inv k" "obj_inv (Scheduler_ReadyToRun u k) = obj_inv k"
  "obj_inv (Scheduler_Run u k) = obj_inv k" "obj_inv (k\<lparr>readyList := rl\<rparr>) = obj_inv k"
  "obj_inv (k\<lparr>idling := b\<rparr>) = obj_inv k" "obj_inv (k\<lparr>threadStatus := st\<rparr>) = obj_inv k"
  "obj_inv (k\<lparr>threadToBeDestroyed := d\<rparr>) = obj_inv k" "obj_inv (k\<lparr>destroyed := ds\<rparr>) = obj_inv k"
  "obj_inv (k\<lparr>synchlists := sl\<rparr>) = obj_inv k" "obj_inv (k\<lparr>received := rv\<rparr>) = obj_inv k"
  "obj_inv (k\<lparr>nextThread := n\<rparr>) = obj_inv k" "obj_inv (k\<lparr>code := cd\<rparr>) = obj_inv k"
  by (simp_all add: obj_inv_def)

lemma Sleep_obj_inv: "Thread_Sleep k = Inr k' \<Longrightarrow> obj_inv k' = obj_inv k"
  using Sleep_fields [of k k'] by (simp add: obj_inv_def)

lemma P_loop_obj_inv: "Semaphore_P_loop s lvl k = Inr k' \<Longrightarrow> obj_inv k \<Longrightarrow> obj_inv k'"
  by (auto simp: Semaphore_P_loop_def Sleep_obj_inv intro!: obj_inv_upd split: if_splits)

lemma V_obj_inv: "Semaphore_V s k = Inr k' \<Longrightarrow> obj_inv k \<Longrightarrow> obj_inv k'"
  by (auto simp: Semaphore_V_def Let_def intro!: obj_inv_upd split: if_splits list.splits)

lemma Acquire_obj_inv: "Lock_Acquire l k = Inr k' \<Longrightarrow> obj_inv k \<Longrightarrow> obj_inv k'"
  using obj_invD(1) [of k l]
  by (auto simp: Lock_Acquire_def Lock_isHeldByCurrentThread_def Let_def Sleep_obj_inv lock_ok_def
      intro!: obj_inv_upd split: if_splits)

lemma Release_obj_inv:
  assumes R: "Lock_Release l k = Inr k'" and inv: "obj_inv k" and d: "\<And>t. waiting t k \<le> 1"
  shows "obj_inv k'"
  using R
proof (cases rule: Release_cases)
  case other
  then show ?thesis using inv by simp
next
  case free
  then show ?thesis using inv by (auto simp: lock_ok_def intro!: obj_inv_upd)
next
  case (hand t ts)
  have "count_list (t # ts) t \<le> 1"
    using queue_count_le_waiting(2) [OF hand(1), of t] d [of t] hand(3) by simp
  then have "t \<notin> set ts" by (simp add: count_list_0_iff)
  then show ?thesis using hand inv obj_invD(1) [OF inv hand(1)]
    by (auto simp: lock_ok_def intro!: obj_inv_upd)
qed

lemma thr_inv_waiting: "thr_inv k \<Longrightarrow> waiting t k \<le> 1"
proof -
  assume "thr_inv k"
  then have "occ t k \<le> 1" by (simp add: thr_inv_def)
  then show ?thesis by (simp add: occ_def queued_def)
qed

lemma placed_waiting: "placed k \<Longrightarrow> waiting t k \<le> 1"
proof -
  assume "placed k"
  then have "queued t k \<le> 1" by (simp add: placed_def)
  then show ?thesis by (simp add: queued_def)
qed

lemma Wait_obj_inv:
  assumes W: "Condition_Wait c lo k = Inr k'" and inv: "obj_inv k" and thr: "thr_inv k" "\<not> idling k"
  shows "obj_inv k'"
proof -
  let ?k1 = "k\<lparr>level := IntOff\<rparr>"
  have c: "c < length (conds k)" using W by (simp add: Condition_Wait_def split: if_splits)
  consider "k' = ?k1\<lparr>level := level k\<rparr>"
    | l k2 where "Lock_Release l (upd_cond c (\<lambda>x. x\<lparr>cv_waitingLock := Some l,
        cv_waitQueue := cv_waitQueue x @ [currentThread k]\<rparr>) ?k1) = Inr k2"
      "Thread_Sleep (push [Acquire l, Restore (level k)] k2) = Inr k'"
    using W c by (auto simp: Condition_Wait_def Let_def bindR_eq_Inr_iff split: if_splits option.splits)
  then show ?thesis
  proof cases
    case 1
    then show ?thesis using inv by simp
  next
    case (2 l k2)
    let ?f = "\<lambda>x. x\<lparr>cv_waitingLock := Some l, cv_waitQueue := cv_waitQueue x @ [currentThread k]\<rparr>"
    have w: "waiting u (upd_cond c ?f ?k1) = waiting u k + (if u = currentThread k then 1 else 0)" for u
      using waiting_upd_cond [of c ?k1 u ?f] c by auto
    then have "placed (upd_cond c ?f ?k1)"
      using enqueue_placed [OF thr, of "upd_cond c ?f ?k1"] by (simp add: same_threads_simps)
    moreover have "obj_inv (upd_cond c ?f ?k1)" using inv by (intro obj_inv_upd) (simp_all add: cond_ok_def)
    ultimately have "obj_inv k2" using Release_obj_inv [OF 2(1)] placed_waiting by blast
    then show ?thesis using Sleep_obj_inv [OF 2(2)] by simp
  qed
qed

lemma Signal_obj_inv:
  assumes "Condition_Signal c lo k = Inr k'" and inv: "obj_inv k"
  shows "obj_inv k'"
  using assms(1)
proof (cases rule: Signal_cases)
  case skip
  then show ?thesis using inv by simp
next
  case (wake t ts m)
  then show ?thesis using inv by (auto simp: cond_ok_def intro!: obj_inv_upd)
qed

lemma exec_instr_obj_inv:
  assumes "exec_instr i k = Inr k'" "obj_inv k" "thr_inv k" "\<not> idling k"
  shows "obj_inv k'"
proof (cases i)
  case (Broadcast c lo)
  then show ?thesis using assms by (auto dest!: Broadcast_result)
next
  case (Bcast_loop c lo)
  then show ?thesis using assms by (auto dest!: Broadcast_loop_result)
next
  case (P s)
  then show ?thesis using assms P_loop_obj_inv [of s "level k" "k\<lparr>level := IntOff\<rparr>" k']
    by (simp add: Semaphore_P_def)
next
  case Yield
  then show ?thesis using assms
    by (auto simp: Thread_Yield_def Let_def Scheduler_FindNextToRun_def split: list.splits)
next
  case (Fork f)
  then show ?thesis using assms
    by (auto simp: Thread_Fork_def Thread_StackAllocate_def Let_def)
next
  case Finish
  then show ?thesis using assms
      Sleep_obj_inv [of "k\<lparr>level := IntOff, threadToBeDestroyed := Some (currentThread k)\<rparr>" k']
    by (simp add: Thread_Finish_def)
next
  case AfterSwitch
  then show ?thesis using assms by (auto simp: Run_after_switch_def split: option.splits if_splits)
qed (use assms in \<open>auto intro: P_loop_obj_inv V_obj_inv Acquire_obj_inv Release_obj_inv Wait_obj_inv
    Signal_obj_inv thr_inv_waiting simp: SynchList_Append_def SynchList_Remove_def SynchList_put_def
    SynchList_take_def SynchList_Mapcar_def SynchList_walk_def SynchList_map_def Let_def split: if_splits list.splits\<close>)

lemma kstep_obj_inv: "kstep k k' \<Longrightarrow> obj_inv k \<Longrightarrow> thr_inv k \<Longrightarrow> obj_inv k'"
proof (induction rule: kstep.induct)
  case (run k k')
  then obtain i "is" where i: "code k (currentThread k) = i # is" by (cases "code k (currentThread k)") auto
  have "exec_instr i (pop k) = Inr k'" using run(3) i by (simp add: run_current_def)
  then show ?case using run exec_instr_obj_inv [of i "pop k" k'] by simp
next
  case (preempt k)
  then show ?case
    by (auto simp: Thread_Yield_def Let_def Scheduler_FindNextToRun_def split: list.splits)
next
  case (device k s k')
  then show ?case by (blast intro: V_obj_inv)
next
  case (dispatch k t k1)
  then show ?case by (auto simp: Scheduler_FindNextToRun_def split: list.splits)
qed

section \<open>The kernel's assertions hold\<close>

text \<open>
  \<open>plain\<close> steps are those a program may contain; \<open>P_loop\<close> and \<open>AfterSwitch\<close> only arise
  as the rest of an interrupted routine. A suspended thread continues after its
  \<^verbatim>\<open>SWITCH\<close>; the running one is inside an interrupted \<^verbatim>\<open>P\<close> only with interrupts off.
\<close>

fun plain :: "instr \<Rightarrow> bool" where
  "plain (P_loop s lvl) = False"
| "plain AfterSwitch = False"
| "plain (Fork f) = list_all plain f"
| "plain (SL_Mapcar q f) = list_all plain f"
| "plain (SL_walk q f) = list_all plain f"
| "plain (SL_map its f) = list_all plain f"
| "plain _ = True"

definition tail_ok :: "instr list \<Rightarrow> bool" where
  "tail_ok is \<longleftrightarrow> list_all plain is \<or> (\<exists>s lvl js. is = P_loop s lvl # js \<and> list_all plain js)"

definition suspended_ok :: "instr list \<Rightarrow> bool" where
  "suspended_ok is \<longleftrightarrow> list_all plain is \<or> (\<exists>js. is = AfterSwitch # js \<and> tail_ok js)"

definition running_ok :: "IntStatus \<Rightarrow> instr list \<Rightarrow> bool" where
  "running_ok lvl is \<longleftrightarrow> list_all plain is \<or> (lvl = IntOff \<and> (tail_ok is \<or> suspended_ok is))"

definition others_ok :: "kstate \<Rightarrow> bool" where
  "others_ok k \<longleftrightarrow> (\<forall>t. t \<noteq> currentThread k \<longrightarrow> suspended_ok (code k t))"

definition code_inv :: "kstate \<Rightarrow> bool" where
  "code_inv k \<longleftrightarrow> others_ok k \<and>
     (if idling k then level k = IntOff \<and> tail_ok (code k (currentThread k))
      else running_ok (level k) (code k (currentThread k)))"

lemma plain_oks:
  assumes "list_all plain is"
  shows "tail_ok is" "suspended_ok is" "running_ok lvl is" "suspended_ok (AfterSwitch # is)"
  using assms by (auto simp: tail_ok_def suspended_ok_def running_ok_def)

lemma Sleep_code_inv:
  assumes "Thread_Sleep k = Inr k'" "others_ok k" "tail_ok (code k (currentThread k))"
  shows "code_inv k'"
  using assms
  by (auto simp: Thread_Sleep_def Scheduler_FindNextToRun_def Let_def code_inv_def others_ok_def
      running_ok_def suspended_ok_def split: if_splits list.splits)

lemma Release_code: "Lock_Release l k = Inr k' \<Longrightarrow> code k' = code k \<and> level k' = level k \<and>
    currentThread k' = currentThread k \<and> idling k' = idling k"
  by (erule Release_cases) simp_all

lemma Signal_code: "Condition_Signal c lo k = Inr k' \<Longrightarrow> code k' = code k \<and> level k' = level k \<and>
    currentThread k' = currentThread k \<and> idling k' = idling k"
  by (erule Signal_cases) simp_all

lemma push_code [simp]:
  "code (push is k) (currentThread k) = is @ code k (currentThread k)"
  "others_ok (push is k) = others_ok k"
  by (auto simp: push_def others_ok_def)

lemma others_ok_cong:
  "code k' = code k \<Longrightarrow> currentThread k' = currentThread k \<Longrightarrow> others_ok k' = others_ok k"
  by (simp add: others_ok_def)

lemma code_inv_returns:
  assumes "others_ok k" "list_all plain (code k (currentThread k))" "\<not> idling k"
    and "code k' = code k" "currentThread k' = currentThread k" "idling k' = idling k"
  shows "code_inv k'"
  using assms others_ok_cong [of k' k] by (simp add: code_inv_def plain_oks)

lemma Yield_code_inv:
  assumes "others_ok k" "list_all plain (code k (currentThread k))" "\<not> idling k"
  shows "code_inv (Thread_Yield k)"
proof (cases "readyList k")
  case Nil
  then show ?thesis using assms
    by (intro code_inv_returns [of k]) (simp_all add: Thread_Yield_def Scheduler_FindNextToRun_def Let_def)
next
  case (Cons t ts)
  have "code (Thread_Yield k) = (code k)(currentThread k :=
      AfterSwitch # Restore (level k) # code k (currentThread k))"
    and "level (Thread_Yield k) = IntOff" "\<not> idling (Thread_Yield k)" "currentThread (Thread_Yield k) = t"
    using Cons by (simp_all add: Thread_Yield_def Scheduler_FindNextToRun_def Let_def push_def)
  moreover have "suspended_ok (AfterSwitch # Restore (level k) # code k (currentThread k))"
    using assms by (intro plain_oks) simp
  ultimately show ?thesis using assms by (auto simp: code_inv_def others_ok_def running_ok_def)
qed

lemma P_loop_code_inv:
  assumes ex: "Semaphore_P_loop s lvl k = Inr k'" and o: "others_ok k" "\<not> idling k"
    and p: "list_all plain (code k (currentThread k))"
  shows "code_inv k'"
proof (cases "sem_value (sems k ! s) = 0")
  case True
  let ?k1 = "upd_sem s (\<lambda>x. x\<lparr>sem_queue := sem_queue x @ [currentThread k]\<rparr>) k"
  have "Thread_Sleep (push [P_loop s lvl] ?k1) = Inr k'"
    using ex True by (simp add: Semaphore_P_loop_def split: if_splits)
  moreover have "others_ok ?k1" using o others_ok_cong [of ?k1 k] by simp
  moreover have "tail_ok (code (push [P_loop s lvl] ?k1) (currentThread ?k1))"
    using p by (simp only: push_code) (simp add: tail_ok_def)
  ultimately show ?thesis using Sleep_code_inv [of "push [P_loop s lvl] ?k1" k'] by simp
next
  case False
  then have "k' = (upd_sem s (\<lambda>x. x\<lparr>sem_value := int32 (sem_value x - 1)\<rparr>) k)\<lparr>level := lvl\<rparr>"
    using ex by (simp add: Semaphore_P_loop_def split: if_splits)
  then show ?thesis using p o by (intro code_inv_returns [of k]) simp_all
qed

lemma exec_plain_code_inv:
  assumes ex: "exec_instr i k = Inr k'" and p: "plain i" "list_all plain (code k (currentThread k))"
    and o: "others_ok k" "\<not> idling k"
  shows "code_inv k'"
proof (cases i)
  case (P s)
  then show ?thesis using ex p o P_loop_code_inv [of s "level k" "k\<lparr>level := IntOff\<rparr>" k']
    by (simp add: Semaphore_P_def others_ok_def)
next
  case (V s)
  then show ?thesis using ex p o
    by (intro code_inv_returns [of k]) (auto simp: Semaphore_V_def Let_def split: if_splits list.splits)
next
  case (Acquire l)
  with ex have "Lock_Acquire l k = Inr k'" by simp
  then show ?thesis
  proof (cases rule: Acquire_cases)
    case sleep
    then show ?thesis using p o others_ok_cong [of "upd_lock l f (k\<lparr>level := IntOff\<rparr>)" k for f]
      by (intro Sleep_code_inv [OF sleep(4)]) (auto simp: push_def others_ok_def tail_ok_def)
  qed (use p o in \<open>auto intro!: code_inv_returns [of k]\<close>)
next
  case (Release l)
  then show ?thesis using ex p o Release_code [of l k k'] by (auto intro: code_inv_returns)
next
  case (Wait c lo)
  let ?k1 = "k\<lparr>level := IntOff\<rparr>"
  consider "k' = ?k1\<lparr>level := level k\<rparr>"
    | l k2 where "Lock_Release l (upd_cond c (\<lambda>x. x\<lparr>cv_waitingLock := Some l,
        cv_waitQueue := cv_waitQueue x @ [currentThread k]\<rparr>) ?k1) = Inr k2"
      "Thread_Sleep (push [Acquire l, Restore (level k)] k2) = Inr k'"
    using ex Wait
    by (auto simp: Condition_Wait_def Let_def bindR_eq_Inr_iff split: if_splits option.splits)
  then show ?thesis
  proof cases
    case 1
    then show ?thesis using p o by (intro code_inv_returns [of k]) simp_all
  next
    case (2 l k2)
    then show ?thesis using p o Release_code [OF 2(1)] others_ok_cong [of k2 k]
      by (intro Sleep_code_inv [OF 2(2)]) (auto simp: push_def others_ok_def tail_ok_def)
  qed
next
  case (Signal c lo)
  then show ?thesis using ex p o Signal_code [of c lo k k'] by (auto intro: code_inv_returns)
next
  case (Broadcast c lo)
  then show ?thesis using ex p o by (auto simp: code_inv_def plain_oks dest!: Broadcast_result)
next
  case (Bcast_loop c lo)
  then show ?thesis using ex p o by (auto simp: code_inv_def plain_oks dest!: Broadcast_loop_result)
next
  case Yield
  then show ?thesis using ex p o Yield_code_inv by auto
next
  case (Fork f)
  let ?c = "Restore IntOn # f @ [Finish]"
  have "code k' = (code k)(nextThread k := ?c)" "currentThread k' = currentThread k" "idling k' = idling k"
    using ex Fork by (auto simp: Thread_Fork_def Thread_StackAllocate_def Let_def)
  moreover have "list_all plain ?c" using p Fork by simp
  ultimately show ?thesis using p o by (auto simp: code_inv_def others_ok_def plain_oks)
next
  case Finish
  then show ?thesis using ex p o
    by (auto simp: Thread_Finish_def others_ok_def plain_oks intro!: Sleep_code_inv)
next
  case (SL_Append q x)
  then show ?thesis using ex p o
    by (auto simp: SynchList_Append_def Let_def code_inv_def plain_oks split: if_splits)
next
  case (SL_Remove q)
  then show ?thesis using ex p o
    by (auto simp: SynchList_Remove_def Let_def code_inv_def plain_oks split: if_splits)
next
  case (Restore lvl)
  then show ?thesis using ex p o by (intro code_inv_returns [of k]) auto
next
  case (SL_put q x)
  then show ?thesis using ex p o
    by (intro code_inv_returns [of k]) (auto simp: SynchList_put_def split: if_splits)
next
  case (SL_take q)
  then show ?thesis using ex p o
    by (auto simp: SynchList_take_def Let_def code_inv_def others_ok_def push_def plain_oks
        split: if_splits list.splits)
next
  case (SL_Mapcar q f)
  then show ?thesis using ex p o
    by (auto simp: SynchList_Mapcar_def Let_def code_inv_def plain_oks split: if_splits)
next
  case (SL_walk q f)
  then show ?thesis using ex p o
    by (auto simp: SynchList_walk_def code_inv_def plain_oks split: if_splits)
next
  case (SL_map its f)
  then show ?thesis using ex p o
    by (auto simp: SynchList_map_def code_inv_def others_ok_def push_def plain_oks split: list.splits)
qed (use p in auto)

lemma code_inv_running:
  assumes "code_inv k" "\<not> idling k" "code k (currentThread k) = i # is"
  obtains (plain) "list_all plain (i # is)"
  | (loop) s lvl where "level k = IntOff" "i = P_loop s lvl" "list_all plain is"
  | (switched) "level k = IntOff" "i = AfterSwitch" "tail_ok is"
  using assms by (auto simp: code_inv_def running_ok_def tail_ok_def suspended_ok_def)

lemma pop_code [simp]: "others_ok (pop k) = others_ok k"
  "code (pop k) (currentThread k) = tl (code k (currentThread k))"
  by (auto simp: pop_def others_ok_def)

lemma AfterSwitch_code_inv:
  assumes "Run_after_switch k = Inr k'" "others_ok k" "level k = IntOff" "\<not> idling k"
    "tail_ok (code k (currentThread k))"
  shows "code_inv k'"
  using assms
  by (auto simp: Run_after_switch_def code_inv_def others_ok_def running_ok_def
      split: option.splits if_splits)

theorem kstep_code_inv: "kstep k k' \<Longrightarrow> code_inv k \<Longrightarrow> code_inv k'"
proof (induction rule: kstep.induct)
  case (run k k')
  then obtain i "is" where i: "code k (currentThread k) = i # is" by (cases "code k (currentThread k)") auto
  have ex: "exec_instr i (pop k) = Inr k'" using run(3) i by (simp add: run_current_def)
  have o: "others_ok (pop k)" using run by (simp add: code_inv_def)
  from \<open>code_inv k\<close> \<open>\<not> idling k\<close> i show ?case
  proof (cases rule: code_inv_running)
    case plain
    then show ?thesis using ex o run i by (intro exec_plain_code_inv [of i "pop k"]) auto
  next
    case (loop s lvl)
    then show ?thesis using ex o run i by (intro P_loop_code_inv [of s lvl "pop k"]) auto
  next
    case switched
    then show ?thesis using ex o run i by (intro AfterSwitch_code_inv [of "pop k"]) auto
  qed
next
  case (preempt k)
  then show ?case by (intro Yield_code_inv) (auto simp: code_inv_def running_ok_def)
next
  case (device k s k')
  have "code k' = code k" "level k' = level k" "currentThread k' = currentThread k" "idling k' = idling k"
    using device(2) by (auto simp: Semaphore_V_def Let_def split: if_splits list.splits)
  then show ?case using device(3) by (simp add: code_inv_def others_ok_def)
next
  case (dispatch k t k1)
  then obtain ts where r: "readyList k = t # ts" "k1 = k\<lparr>readyList := ts\<rparr>"
    by (auto simp: Scheduler_FindNextToRun_def split: list.splits)
  have "code (Scheduler_Run t k1) = (code k)(currentThread k := AfterSwitch # code k (currentThread k))"
    using r by (simp add: push_def)
  moreover have "suspended_ok (AfterSwitch # code k (currentThread k))"
    using dispatch by (simp add: code_inv_def suspended_ok_def)
  ultimately show ?case using dispatch r
    by (auto simp: code_inv_def others_ok_def running_ok_def)
qed

text \<open>
  With the three invariants no step of the running thread violates an \<^verbatim>\<open>ASSERT\<close>:
  it can only name a semaphore, lock, condition or list that does not exist.
\<close>

lemma Sleep_IntOff: "level k = IntOff \<Longrightarrow> \<exists>k'. Thread_Sleep k = Inr k'"
  by (auto simp: Thread_Sleep_def Let_def split: prod.splits option.splits)

lemma Sleep_Inl_iff: "Thread_Sleep k = Inl f \<longleftrightarrow> level k = IntOn \<and> f = AssertionFailed"
  by (cases "level k") (auto simp: Thread_Sleep_def Let_def split: prod.splits option.splits)

lemma P_loop_faults: "Semaphore_P_loop s lvl k = Inl f \<Longrightarrow> level k = IntOff \<Longrightarrow> f = NullDeref"
  by (auto simp: Semaphore_P_loop_def Sleep_Inl_iff split: if_splits)

lemma Acquire_faults: "Lock_Acquire l k = Inl f \<Longrightarrow> f = NullDeref"
  by (auto simp: Lock_Acquire_def Let_def Sleep_Inl_iff split: if_splits)

lemma Release_faults: "Lock_Release l k = Inl f \<Longrightarrow> f = NullDeref"
  by (auto simp: Lock_Release_def Let_def split: if_splits list.splits)

lemma Wait_faults: "Condition_Wait c lo k = Inl f \<Longrightarrow> f = NullDeref"
proof (cases lo)
  case (Some l)
  let ?k1 = "upd_cond c (\<lambda>x. x\<lparr>cv_waitingLock := Some l, cv_waitQueue := cv_waitQueue x @ [currentThread k]\<rparr>)
    (k\<lparr>level := IntOff\<rparr>)"
  have "\<exists>k'. Thread_Sleep (push [Acquire l, Restore (level k)] k2) = Inr k'" if "Lock_Release l ?k1 = Inr k2" for k2
    using Release_code [OF that] by (intro Sleep_IntOff) simp
  moreover assume "Condition_Wait c lo k = Inl f"
  ultimately show ?thesis using Some Release_faults [of l ?k1 f]
    by (cases "Lock_Release l ?k1") (fastforce simp: Condition_Wait_def Let_def split: if_splits)+
qed (auto simp: Condition_Wait_def Let_def split: if_splits)

lemma Signal_faults: "Condition_Signal c lo k = Inl f \<Longrightarrow> f = NullDeref"
  by (auto simp: Condition_Signal_def Let_def split: if_splits list.splits)

lemma Broadcast_faults:
  "Condition_Broadcast c lo k = Inl f \<Longrightarrow> f = NullDeref" "Broadcast_loop c lo k = Inl f \<Longrightarrow> f = NullDeref"
  by (auto simp: Condition_Broadcast_def Broadcast_loop_def Let_def split: if_splits)

lemma Finish_faults: "Thread_Finish k \<noteq> Inl f"
  using Sleep_IntOff [of "k\<lparr>level := IntOff, threadToBeDestroyed := Some (currentThread k)\<rparr>"]
  by (auto simp: Thread_Finish_def)

lemma AfterSwitch_faults: "thr_inv k \<Longrightarrow> \<not> idling k \<Longrightarrow> Run_after_switch k \<noteq> Inl f"
proof -
  assume inv: "thr_inv k" "\<not> idling k"
  have "dead (currentThread k) k \<Longrightarrow> occ (currentThread k) k = 0" using inv by (simp add: thr_inv_def)
  then have "threadToBeDestroyed k \<noteq> Some (currentThread k)"
    using inv by (auto simp: dead_def occ_def on_cpu_def)
  then show ?thesis by (auto simp: Run_after_switch_def split: option.splits)
qed

lemma exec_instr_faults:
  assumes "exec_instr i k = Inl f" "thr_inv k" "\<not> idling k" "\<And>s lvl. i = P_loop s lvl \<Longrightarrow> level k = IntOff"
  shows "f = NullDeref"
  using assms P_loop_faults [of _ "level k" "k\<lparr>level := IntOff\<rparr>" f]
  by (cases i) (auto simp: Semaphore_P_def Semaphore_V_def Let_def SynchList_Append_def SynchList_Remove_def
      SynchList_put_def SynchList_take_def SynchList_Mapcar_def SynchList_walk_def Finish_faults AfterSwitch_faults
      dest: P_loop_faults Acquire_faults Release_faults Wait_faults Signal_faults Broadcast_faults
      split: if_splits list.splits)

lemma run_current_faults:
  assumes "run_current k = Inl f" "thr_inv k" "code_inv k" "\<not> idling k"
  shows "f = NullDeref"
proof -
  obtain i "is" where i: "code k (currentThread k) = i # is"
    using assms(1) by (cases "code k (currentThread k)") (auto simp: run_current_def)
  have "exec_instr i (pop k) = Inl f" using assms(1) i by (simp add: run_current_def)
  moreover have "level (pop k) = IntOff" if "i = P_loop s lvl" for s lvl
    using \<open>code_inv k\<close> \<open>\<not> idling k\<close> i that by (cases rule: code_inv_running) auto
  ultimately show ?thesis using assms by (intro exec_instr_faults [of i "pop k"]) auto
qed

end
