(* ===== verification/Thread_Props.thy ===== *)
theory Thread_Props
  imports Thread_Safety
begin

text \<open>
  What the thread system promises to its clients: the invariants of
  \<open>Thread_Safety\<close> hold in every state reachable from \<open>Initialize\<close>, locks are exclusive and
  handed over in order, semaphores account for every \<^verbatim>\<open>P\<close> and \<^verbatim>\<open>V\<close> as long as their C \<^verbatim>\<open>int\<close> does not
  overflow, and a \<^verbatim>\<open>Broadcast\<close> that is not disturbed wakes every waiter.
\<close>

section \<open>Reachable states\<close>

definition kernel_inv :: "kstate \<Rightarrow> bool" where
  "kernel_inv k \<longleftrightarrow> thr_inv k \<and> obj_inv k \<and> code_inv k"

lemma qsum_replicate: "q x = [] \<Longrightarrow> qsum q (replicate n x) t = 0"
  by (induction n) (simp_all add: qsum_def)

lemma qsum_new_Semaphore: "qsum sem_queue (map new_Semaphore vals) t = 0"
  by (induction vals) (simp_all add: qsum_def new_Semaphore_def)

lemma Initialize_waiting [simp]: "waiting t (Initialize vals nl nc sl prog) = 0"
  by (simp add: waiting_def Initialize_def qsum_replicate qsum_new_Semaphore new_Lock_def new_Condition_def)

lemma Initialize_kernel_inv:
  assumes "list_all plain prog"
  shows "kernel_inv (Initialize vals nl nc sl prog)" (is "kernel_inv ?k")
proof -
  have f: "currentThread ?k = 0" "\<not> idling ?k" "readyList ?k = []" "threadStatus ?k 0 = RUNNING"
    "nextThread ?k = 1" "destroyed ?k = []" "threadToBeDestroyed ?k = None"
    by (simp_all add: Initialize_def)
  have "occ t ?k = (if t = 0 then 1 else 0)" for t
    using f by (simp add: occ_def on_cpu_def queued_def)
  then have "thr_inv ?k" using f by (auto simp: thr_inv_def status_ok_def dead_def)
  moreover have "obj_inv ?k"
    by (auto simp: obj_inv_def Initialize_def new_Semaphore_def new_Lock_def new_Condition_def
        lock_ok_def cond_ok_def)
  moreover have "code_inv ?k" using assms
    by (auto simp: code_inv_def others_ok_def Initialize_def plain_oks)
  ultimately show ?thesis by (simp add: kernel_inv_def)
qed

lemma Initialize_sems:
  "length (sems (Initialize vals nl nc sl prog)) = length vals"
  "s < length vals \<Longrightarrow> sem_value (sems (Initialize vals nl nc sl prog) ! s) = vals ! s"
  by (simp_all add: Initialize_def new_Semaphore_def)

lemma kstep_kernel_inv: "kstep k k' \<Longrightarrow> kernel_inv k \<Longrightarrow> kernel_inv k'"
  by (simp add: kernel_inv_def kstep_thr_inv kstep_obj_inv kstep_code_inv)

lemma kreach_kernel_inv: "kreach k0 k \<Longrightarrow> kernel_inv k0 \<Longrightarrow> kernel_inv k"
  by (induction rule: kreach.induct) (auto intro: kstep_kernel_inv)

section \<open>Lock ownership\<close>

lemma Acquire_owner:
  assumes "Lock_Acquire m k = Inr k'" "lock_ok (locks k ! l)" "lock_owner (locks k ! l) = Some t"
  shows "lock_owner (locks k' ! l) = Some t"
  using assms(1)
proof (cases rule: Acquire_cases)
  case sleep
  then show ?thesis using assms(3) Sleep_fields [OF sleep(4)] by (cases "m = l") simp_all
qed (use assms in \<open>cases "m = l"; simp add: lock_ok_def\<close>)+

lemma Release_owner:
  assumes "Lock_Release m k = Inr k'" "lock_owner (locks k ! l) = Some t" "t \<noteq> currentThread k \<or> m \<noteq> l"
  shows "lock_owner (locks k' ! l) = Some t"
  using assms(1) by (cases rule: Release_cases; use assms in \<open>cases "m = l"; simp\<close>)

lemma Wait_cases:
  assumes "Condition_Wait c lo k = Inr k'"
  obtains (skip) "k' = k\<lparr>level := level k\<rparr>"
  | (sleep) l k2 where "lo = Some l"
      "Lock_Release l (upd_cond c (\<lambda>x. x\<lparr>cv_waitingLock := Some l,
         cv_waitQueue := cv_waitQueue x @ [currentThread k]\<rparr>) (k\<lparr>level := IntOff\<rparr>)) = Inr k2"
      "Thread_Sleep (push [Acquire l, Restore (level k)] k2) = Inr k'"
  using assms
  by (auto simp: Condition_Wait_def Let_def bindR_eq_Inr_iff split: if_splits option.splits)

lemma Wait_owner:
  assumes "Condition_Wait c lo k = Inr k'" "lock_owner (locks k ! l) = Some t"
    "t \<noteq> currentThread k \<or> lo \<noteq> Some l"
  shows "lock_owner (locks k' ! l) = Some t"
  using assms(1)
proof (cases rule: Wait_cases)
  case (sleep m k2)
  then show ?thesis using assms(2,3) Sleep_fields [OF sleep(3)] Release_owner [OF sleep(2), of l t] by simp
qed (use assms in simp)

lemma Signal_tables: "Condition_Signal c lo k = Inr k' \<Longrightarrow> locks k' = locks k \<and> sems k' = sems k"
  by (erule Signal_cases) simp_all

lemma Broadcast_tables:
  "Condition_Broadcast c lo k = Inr k' \<Longrightarrow> locks k' = locks k \<and> sems k' = sems k"
  "Broadcast_loop c lo k = Inr k' \<Longrightarrow> locks k' = locks k \<and> sems k' = sems k"
  by (auto simp: push_def dest!: Broadcast_result Broadcast_loop_result)

lemma P_loop_locks: "Semaphore_P_loop s lvl k = Inr k' \<Longrightarrow> locks k' = locks k"
  using Sleep_fields by (auto simp: Semaphore_P_loop_def split: if_splits dest!: Sleep_fields)

lemma V_locks: "Semaphore_V s k = Inr k' \<Longrightarrow> locks k' = locks k"
  by (auto simp: Semaphore_V_def Let_def split: if_splits list.splits)

lemma Yield_tables: "locks (Thread_Yield k) = locks k" "sems (Thread_Yield k) = sems k"
  by (auto simp: Thread_Yield_def Let_def Scheduler_FindNextToRun_def split: list.splits)

lemma Fork_tables: "locks (Thread_Fork f k) = locks k" "sems (Thread_Fork f k) = sems k"
  by (auto simp: Thread_Fork_def Thread_StackAllocate_def Let_def)

lemma Finish_tables: "Thread_Finish k = Inr k' \<Longrightarrow> locks k' = locks k \<and> sems k' = sems k"
  by (auto simp: Thread_Finish_def dest!: Sleep_fields)

lemma AfterSwitch_tables: "Run_after_switch k = Inr k' \<Longrightarrow> locks k' = locks k \<and> sems k' = sems k"
  by (auto simp: Run_after_switch_def split: option.splits if_splits)

lemma SynchList_tables:
  "SynchList_Append q x k = Inr k' \<Longrightarrow> locks k' = locks k \<and> sems k' = sems k"
  "SynchList_Remove q k = Inr k' \<Longrightarrow> locks k' = locks k \<and> sems k' = sems k"
  "SynchList_put q x k = Inr k' \<Longrightarrow> locks k' = locks k \<and> sems k' = sems k"
  "SynchList_take q k = Inr k' \<Longrightarrow> locks k' = locks k \<and> sems k' = sems k"
  "SynchList_Mapcar q f k = Inr k' \<Longrightarrow> locks k' = locks k \<and> sems k' = sems k"
  "SynchList_walk q f k = Inr k' \<Longrightarrow> locks k' = locks k \<and> sems k' = sems k"
  by (auto simp: SynchList_Append_def SynchList_Remove_def SynchList_put_def SynchList_take_def SynchList_Mapcar_def
      SynchList_walk_def Let_def push_def split: if_splits list.splits)

lemma SynchList_map_tables: "locks (SynchList_map its f k) = locks k" "sems (SynchList_map its f k) = sems k"
  by (auto simp: SynchList_map_def push_def split: list.splits)

lemmas table_frames = Signal_tables Broadcast_tables Finish_tables AfterSwitch_tables SynchList_tables

lemma exec_instr_owner:
  assumes "exec_instr i k = Inr k'" "lock_ok (locks k ! l)" "lock_owner (locks k ! l) = Some t"
    "t \<noteq> currentThread k \<or> (i \<noteq> Release l \<and> (\<forall>c. i \<noteq> Wait c (Some l)))"
  shows "lock_owner (locks k' ! l) = Some t"
proof (cases "\<exists>m c lo. i = Acquire m \<or> i = Release m \<or> i = Wait c lo")
  case True
  then show ?thesis using assms by (fastforce intro: Acquire_owner Release_owner Wait_owner)
next
  case False
  then have "locks k' = locks k" using assms(1)
    by (cases i) (auto simp: Yield_tables Fork_tables SynchList_map_tables Semaphore_P_def dest: table_frames P_loop_locks V_locks)
  then show ?thesis using assms by simp
qed

lemma kstep_owner:
  assumes "kstep k k'" "obj_inv k" "l < length (locks k)" "lock_owner (locks k ! l) = Some t"
    "lock_owner (locks k' ! l) \<noteq> Some t"
  shows "\<not> idling k \<and> currentThread k = t \<and>
    (\<exists>is c. code k t = Release l # is \<or> code k t = Wait c (Some l) # is)"
  using assms
proof (induction rule: kstep.induct)
  case (run k k')
  then obtain i "is" where i: "code k (currentThread k) = i # is" by (cases "code k (currentThread k)") auto
  have "exec_instr i (pop k) = Inr k'" using run(3) i by (simp add: run_current_def)
  moreover have "lock_ok (locks k ! l)" using run(4,5) obj_invD by blast
  ultimately show ?case using run exec_instr_owner [of i "pop k" k' l t] i by auto
next
  case (dispatch k u k1)
  then show ?case by (auto simp: Scheduler_FindNextToRun_def split: list.splits)
qed (auto simp: Yield_tables dest: V_locks)

section \<open>Semaphore accounting\<close>

text \<open>\<open>P_completes\<close>: the next step of the running thread gets through the loop of \<^verbatim>\<open>P\<close>.\<close>

definition P_completes :: "nat \<Rightarrow> kstate \<Rightarrow> bool" where
  "P_completes s k \<longleftrightarrow> sem_value (sems k ! s) \<noteq> 0 \<and>
     (case code k (currentThread k) of P r # _ \<Rightarrow> r = s | P_loop r _ # _ \<Rightarrow> r = s | _ \<Rightarrow> False)"

definition V_next :: "nat \<Rightarrow> kstate \<Rightarrow> bool" where
  "V_next s k \<longleftrightarrow> (case code k (currentThread k) of V r # _ \<Rightarrow> r = s | _ \<Rightarrow> False)"

lemma V_value:
  assumes "Semaphore_V r k = Inr k'" "s < length (sems k)"
  shows "sem_value (sems k' ! s) = (if r = s then int32 (sem_value (sems k ! s) + 1) else sem_value (sems k ! s))"
    "length (sems k') = length (sems k)"
  using assms by (cases "r = s"; auto simp: Semaphore_V_def Let_def split: if_splits list.splits)+

lemma P_loop_value:
  assumes "Semaphore_P_loop r lvl k = Inr k'" "s < length (sems k)"
  shows "sem_value (sems k' ! s) = (if r = s \<and> sem_value (sems k ! s) \<noteq> 0 then int32 (sem_value (sems k ! s) - 1)
      else sem_value (sems k ! s))"
    "length (sems k') = length (sems k)"
  using assms by (cases "r = s"; auto simp: Semaphore_P_loop_def split: if_splits dest!: Sleep_fields)+

lemma Acquire_sems: "Lock_Acquire l k = Inr k' \<Longrightarrow> sems k' = sems k"
  by (erule Acquire_cases) (auto dest!: Sleep_fields)

lemma Release_sems: "Lock_Release l k = Inr k' \<Longrightarrow> sems k' = sems k"
  by (erule Release_cases) simp_all

lemma Wait_sems: "Condition_Wait c lo k = Inr k' \<Longrightarrow> sems k' = sems k"
  by (erule Wait_cases) (auto dest!: Sleep_fields Release_sems)

lemma run_value:
  assumes "run_current k = Inr k'" "s < length (sems k)"
  shows "sem_value (sems k' ! s) = (if V_next s k then int32 (sem_value (sems k ! s) + 1)
      else if P_completes s k then int32 (sem_value (sems k ! s) - 1) else sem_value (sems k ! s)) \<and>
    length (sems k') = length (sems k)"
proof (cases "code k (currentThread k)")
  case (Cons i "is")
  then have ex: "exec_instr i (pop k) = Inr k'" using assms by (simp add: run_current_def)
  show ?thesis
  proof (cases "\<exists>r lvl. i = P r \<or> i = V r \<or> i = P_loop r lvl")
    case True
    then show ?thesis using ex Cons assms(2)
      by (auto simp: P_completes_def V_next_def Semaphore_P_def V_value P_loop_value)
  next
    case False
    then have "sems k' = sems k" using ex
      by (cases i) (auto simp: Yield_tables Fork_tables SynchList_map_tables dest: table_frames Acquire_sems Release_sems Wait_sems)
    then show ?thesis using False Cons by (auto simp: P_completes_def V_next_def split: instr.splits)
  qed
qed (use assms in \<open>simp add: run_current_def P_completes_def V_next_def\<close>)

text \<open>Executions that count the calls of \<^verbatim>\<open>V\<close> (\<open>v\<close>) and the completed calls of \<^verbatim>\<open>P\<close> (\<open>p\<close>) on \<open>s\<close>.\<close>

inductive kcount :: "nat \<Rightarrow> kstate \<Rightarrow> nat \<Rightarrow> nat \<Rightarrow> kstate \<Rightarrow> bool" for s k0 where
  start: "kcount s k0 0 0 k0"
| run: "kcount s k0 v p k \<Longrightarrow> \<not> idling k \<Longrightarrow> code k (currentThread k) \<noteq> [] \<Longrightarrow> run_current k = Inr k' \<Longrightarrow>
    kcount s k0 (v + of_bool (V_next s k)) (p + of_bool (P_completes s k)) k'"
| preempt: "kcount s k0 v p k \<Longrightarrow> \<not> idling k \<Longrightarrow> level k = IntOn \<Longrightarrow> kcount s k0 v p (Thread_Yield k)"
| device: "kcount s k0 v p k \<Longrightarrow> idling k \<or> level k = IntOn \<Longrightarrow> Semaphore_V r k = Inr k' \<Longrightarrow>
    kcount s k0 (v + of_bool (r = s)) p k'"
| dispatch: "kcount s k0 v p k \<Longrightarrow> idling k \<Longrightarrow> Scheduler_FindNextToRun k = (Some t, k1) \<Longrightarrow>
    kcount s k0 v p (Scheduler_Run t k1)"

lemma kcount_kreach: "kcount s k0 v p k \<Longrightarrow> kreach k0 k"
  by (induction rule: kcount.induct) (blast intro: kreach.intros kstep.intros)+

lemma kreach_kcount: "kreach k0 k \<Longrightarrow> \<exists>v p. kcount s k0 v p k"
proof (induction rule: kreach.induct)
  case (step k k')
  then obtain v p where c: "kcount s k0 v p k" by blast
  from step(2) show ?case by (cases rule: kstep.cases) (use c in \<open>blast intro: kcount.intros\<close>)+
qed (blast intro: kcount.start)

lemma V_next_not_P: "V_next s k \<Longrightarrow> \<not> P_completes s k"
  by (auto simp: V_next_def P_completes_def split: list.splits instr.splits)

lemma kcount_value:
  assumes "s < length (sems k0)" "0 \<le> sem_value (sems k0 ! s)"
  shows "kcount s k0 v p k \<Longrightarrow> sem_value (sems k0 ! s) + int v < 2 ^ 31 \<Longrightarrow>
    s < length (sems k) \<and> 0 \<le> sem_value (sems k ! s) \<and>
    sem_value (sems k ! s) + int p = sem_value (sems k0 ! s) + int v"
proof (induction rule: kcount.induct)
  case (run v p k k')
  have "sem_value (sems k0 ! s) + int v < 2 ^ 31" using run.prems by (cases "V_next s k") simp_all
  with run.IH have IH: "s < length (sems k)" "0 \<le> sem_value (sems k ! s)"
    "sem_value (sems k ! s) + int p = sem_value (sems k0 ! s) + int v" by auto
  note val = run_value [OF run(4) IH(1)]
  show ?case
  proof (cases "V_next s k")
    case True
    then show ?thesis using val IH run.prems V_next_not_P [OF True] by simp
  next
    case False
    moreover have "P_completes s k \<Longrightarrow> sem_value (sems k ! s) \<noteq> 0" by (simp add: P_completes_def)
    ultimately show ?thesis using val IH run.prems by auto
  qed
next
  case (device v p k r k')
  then show ?case using V_value [of r k k' s] by auto
next
  case (dispatch v p k t k1)
  then show ?case by (auto simp: Scheduler_FindNextToRun_def split: list.splits)
qed (use assms in \<open>simp_all add: Yield_tables\<close>)

lemma kreach_steps: "(kstep ^^ n) k0 k \<Longrightarrow> kreach k0 k"
  by (induction n arbitrary: k) (auto intro: kreach.intros)

lemma kcount_steps: "(kstep ^^ n) k0 k \<Longrightarrow> \<exists>v p. kcount s k0 v p k \<and> v \<le> n"
proof (induction n arbitrary: k)
  case (Suc n)
  then obtain k1 v p where c: "kcount s k0 v p k1" "v \<le> n" "kstep k1 k" by fastforce
  from c(3) show ?case
  proof (cases rule: kstep.cases)
    case run
    with c(2) kcount.run [OF c(1) run] show ?thesis by (intro exI conjI) (assumption, simp)
  next
    case preempt
    with c kcount.preempt [OF c(1)] show ?thesis by (auto intro: le_SucI)
  next
    case (device r)
    with c(2) kcount.device [OF c(1) device] show ?thesis by (intro exI conjI) (assumption, simp)
  next
    case dispatch
    with c kcount.dispatch [OF c(1)] show ?thesis by (auto intro: le_SucI)
  qed
qed (auto intro: kcount.start)

text \<open>A semaphore beyond the largest \<^verbatim>\<open>int\<close> becomes negative, and \<^verbatim>\<open>P\<close> no longer blocks on it.\<close>

lemma V_overflows:
  assumes "s < length (sems k)" "sem_value (sems k ! s) = 2 ^ 31 - 1"
  shows "\<exists>k'. Semaphore_V s k = Inr k' \<and> sem_value (sems k' ! s) = - (2 ^ 31)"
  using assms by (auto simp: Semaphore_V_def Let_def int32_def signed_take_bit_int_eq_self_iff split: list.splits)

section \<open>Properties\<close>


definition demo_kernel :: kstate where
  "demo_kernel = Initialize [0] 1 1 [] [Acquire 0, Wait 0 (Some 0), Release 0]"

definition demo_locked :: kstate where
  "demo_locked = projr (run_current demo_kernel)"

lemmas demo_simps = demo_kernel_def demo_locked_def Initialize_def new_Lock_def new_Semaphore_def
  new_Condition_def run_current_def pop_def Lock_Acquire_def Lock_isHeldByCurrentThread_def upd_lock_def Let_def

lemma demo_locked_step: "kstep demo_kernel demo_locked"
  by (rule kstep.run) (simp_all add: demo_simps)

lemma demo_locked_reach: "kreach demo_kernel demo_locked"
  using demo_locked_step by (blast intro: kreach.intros)

lemma demo_locked_reach': "kreach (Initialize [0] 1 1 [] [Acquire 0, Wait 0 (Some 0), Release 0]) demo_locked"
  using demo_locked_reach by (simp add: demo_kernel_def)


text \<open>
  C3: In every reachable state a thread is in at most one place: on the CPU, on the ready
  list or in the queue of one semaphore, lock or condition; its status agrees with the
  place, and a thread that has finished is in none of them.
\<close>

theorem reachable_one_place:
  assumes "list_all plain prog"
    and "kreach (Initialize vals nl nc sl prog) k"
  shows "on_cpu t k + count_list (readyList k) t + waiting t k \<le> 1 \<and>
    (t \<in> set (readyList k) \<longrightarrow> threadStatus k t = READY) \<and>
    (waiting t k > 0 \<longrightarrow> threadStatus k t = BLOCKED) \<and>
    (\<not> idling k \<longrightarrow> threadStatus k (currentThread k) = RUNNING) \<and>
    (t \<in> set (destroyed k) \<longrightarrow> on_cpu t k + count_list (readyList k) t + waiting t k = 0)"
proof -
  have inv: "thr_inv k" using kreach_kernel_inv assms Initialize_kernel_inv kernel_inv_def by blast
  have "occ t k \<le> 1" "status_ok t k" "dead t k \<Longrightarrow> occ t k = 0" using inv by (simp_all add: thr_inv_def)
  moreover have "\<not> idling k \<longrightarrow> threadStatus k (currentThread k) = RUNNING" using inv by (simp add: thr_inv_def)
  ultimately show ?thesis
    by (auto simp: occ_def queued_def status_ok_def dead_def count_list_0_iff)
qed

theorem reachable_one_place_witness:
  "on_cpu 0 demo_locked + count_list (readyList demo_locked) 0 + waiting 0 demo_locked \<le> 1"
  using reachable_one_place [OF _ demo_locked_reach', of 0] by (simp add: demo_simps)

text \<open>
  C4: In every reachable state a lock is free exactly when it has no owner, then nobody waits
  for it, and its owner is not in its queue; a condition is bound to a lock exactly while somebody
  waits on it; and after \<open>n\<close> steps a semaphore is not negative, if its initial value was not and
  initial value and steps together stay below \<open>2 ^ 31\<close>, so that its C \<^verbatim>\<open>int\<close> cannot have overflowed.
\<close>

theorem reachable_objects_consistent:
  assumes "list_all plain prog" and "(kstep ^^ n) (Initialize vals nl nc sl prog) k"
  shows "(\<forall>s < length vals. 0 \<le> vals ! s \<longrightarrow> vals ! s + int n < 2 ^ 31 \<longrightarrow> 0 \<le> sem_value (sems k ! s)) \<and>
    (\<forall>x \<in> set (locks k). (lock_state x = FREE \<longleftrightarrow> lock_owner x = None) \<and>
       (lock_owner x = None \<longrightarrow> lock_waitQueue x = []) \<and>
       (\<forall>t. lock_owner x = Some t \<longrightarrow> t \<notin> set (lock_waitQueue x))) \<and>
    (\<forall>x \<in> set (conds k). cv_waitingLock x = None \<longleftrightarrow> cv_waitQueue x = [])"
proof -
  let ?k0 = "Initialize vals nl nc sl prog"
  have "obj_inv k" using kreach_kernel_inv [OF kreach_steps [OF assms(2)] Initialize_kernel_inv [OF assms(1)]]
    by (simp add: kernel_inv_def)
  moreover have "0 \<le> sem_value (sems k ! s)" if "s < length vals" "0 \<le> vals ! s" "vals ! s + int n < 2 ^ 31" for s
  proof -
    obtain v p where c: "kcount s ?k0 v p k" "v \<le> n" using kcount_steps [OF assms(2)] by blast
    show ?thesis using kcount_value [OF _ _ c(1)] that c(2) by (simp add: Initialize_sems)
  qed
  ultimately show ?thesis by (simp add: obj_inv_def lock_ok_def cond_ok_def)
qed

theorem reachable_objects_consistent_witness:
  "0 \<le> sem_value (sems demo_locked ! 0) \<and> (lock_state (locks demo_locked ! 0) = FREE) = False"
proof -
  have "(kstep ^^ 1) (Initialize [0] 1 1 [] [Acquire 0, Wait 0 (Some 0), Release 0]) demo_locked"
    using demo_locked_step by (auto simp: demo_kernel_def)
  from reachable_objects_consistent [OF _ this] show ?thesis by (simp add: demo_simps)
qed

text \<open>
  C1: Mutual exclusion. In a reachable state the lock \<open>l\<close> belongs to thread \<open>t\<close>; a step after
  which it does not is a step of \<open>t\<close> itself that calls \<^verbatim>\<open>Release\<close> on \<open>l\<close> or \<^verbatim>\<open>Wait\<close> with \<open>l\<close>.
\<close>

theorem lock_lost_only_by_its_owner:
  assumes "list_all plain prog"
    and "kreach (Initialize vals nl nc sl prog) k" "kstep k k'"
    and "l < length (locks k)" "lock_owner (locks k ! l) = Some t" "lock_owner (locks k' ! l) \<noteq> Some t"
  shows "\<not> idling k \<and> currentThread k = t \<and>
    (\<exists>is c. code k t = Release l # is \<or> code k t = Wait c (Some l) # is)"
  using kstep_owner [OF assms(3) _ assms(4-6)]
    kreach_kernel_inv [OF assms(2) Initialize_kernel_inv [OF assms(1)]]
  by (simp add: kernel_inv_def)

definition demo_waiting :: kstate where
  "demo_waiting = projr (run_current demo_locked)"

lemmas demo_wait_simps = demo_waiting_def Condition_Wait_def Lock_Release_def upd_cond_def push_def
  Thread_Sleep_def Scheduler_FindNextToRun_def

theorem lock_lost_only_by_its_owner_witness:
  "\<not> idling demo_locked \<and> currentThread demo_locked = 0 \<and>
    (\<exists>is c. code demo_locked 0 = Release 0 # is \<or> code demo_locked 0 = Wait c (Some 0) # is)"
proof (rule lock_lost_only_by_its_owner [OF _ demo_locked_reach'])
  show "kstep demo_locked demo_waiting"
    by (rule kstep.run) (simp_all add: demo_simps demo_wait_simps)
qed (simp_all add: demo_simps demo_wait_simps)

text \<open>
  \<^verbatim>\<open>Release\<close> by the owner makes the thread that has waited longest the owner and puts it
  at the end of the ready list, so the lock is never seen free while somebody waits for it;
  with nobody waiting the lock becomes free; a call by anybody else changes nothing.
\<close>

theorem Release_hands_over:
  assumes "l < length (locks k)"
  shows "\<exists>k'. Lock_Release l k = Inr k' \<and> level k' = level k \<and>
    (if lock_owner (locks k ! l) \<noteq> Some (currentThread k) then k' = k
     else case lock_waitQueue (locks k ! l) of
         [] \<Rightarrow> lock_owner (locks k' ! l) = None \<and> lock_state (locks k' ! l) = FREE \<and>
               readyList k' = readyList k
       | t # ts \<Rightarrow> lock_owner (locks k' ! l) = Some t \<and> lock_waitQueue (locks k' ! l) = ts \<and>
               lock_state (locks k' ! l) = lock_state (locks k ! l) \<and> readyList k' = readyList k @ [t] \<and>
               threadStatus k' t = READY)"
  using assms
  by (auto simp: Lock_Release_def Lock_isHeldByCurrentThread_def Let_def split: list.splits)

theorem Release_hands_over_witness:
  "\<exists>k'. Lock_Release 0 demo_locked = Inr k' \<and> readyList k' = []"
  using Release_hands_over [of 0 demo_locked] by (auto simp: demo_simps)

text \<open>
  C7: Semaphore accounting. After an execution in which the initial value (not negative) and the
  number of calls of \<^verbatim>\<open>V\<close> stay together below \<open>2 ^ 31\<close>, the value of a semaphore is its initial
  value plus the number of calls of \<^verbatim>\<open>V\<close> (by threads and interrupt handlers) minus the
  number of completed calls of \<^verbatim>\<open>P\<close>, and not negative; so no more calls of \<^verbatim>\<open>P\<close> complete than the
  initial value and the calls of \<^verbatim>\<open>V\<close> allow.
\<close>

theorem semaphore_accounting:
  assumes "s < length vals" "0 \<le> vals ! s" "vals ! s + int v < 2 ^ 31"
    and "kcount s (Initialize vals nl nc sl prog) v p k"
  shows "sem_value (sems k ! s) = vals ! s + int v - int p \<and> int p \<le> vals ! s + int v"
  using kcount_value [OF _ _ assms(4)] assms(1-3) by (simp add: Initialize_sems)

definition demo_sem :: kstate where
  "demo_sem = Initialize [0] 0 0 [] [V 0, P 0]"

theorem semaphore_accounting_witness:
  "sem_value (sems (projr (run_current demo_sem)) ! 0) = 1"
proof -
  have e: "run_current demo_sem = Inr (projr (run_current demo_sem))" "V_next 0 demo_sem" "\<not> P_completes 0 demo_sem"
    by (simp_all add: demo_sem_def Initialize_def run_current_def pop_def Semaphore_V_def new_Semaphore_def
        V_next_def P_completes_def)
  have "kcount 0 demo_sem (0 + of_bool (V_next 0 demo_sem)) (0 + of_bool (P_completes 0 demo_sem))
      (projr (run_current demo_sem))"
    by (rule kcount.run [OF kcount.start _ _ e(1)]) (simp_all add: demo_sem_def Initialize_def)
  then have "kcount 0 (Initialize [0] 0 0 [] [V 0, P 0]) 1 0 (projr (run_current demo_sem))"
    using e by (simp add: demo_sem_def)
  from semaphore_accounting [OF _ _ _ this] show ?thesis by simp
qed

text \<open>
  \<^verbatim>\<open>Broadcast\<close> with the lock the waiters hold, when no other thread or interrupt comes in between, empties the condition's
  queue and appends all its threads, in order, to the ready list, and returns.
\<close>

lemma Signal_wakes_first:
  assumes "c < length (conds k)" "cv_waitQueue (conds k ! c) = t # ts" "cv_waitingLock (conds k ! c) = Some l"
  shows "\<exists>k'. Condition_Signal c (Some l) k = Inr k' \<and> cv_waitQueue (conds k' ! c) = ts \<and>
     readyList k' = readyList k @ [t] \<and> length (conds k') = length (conds k) \<and>
     (ts \<noteq> [] \<longrightarrow> cv_waitingLock (conds k' ! c) = Some l) \<and>
     code k' = code k \<and> currentThread k' = currentThread k \<and> idling k' = idling k"
  using assms by (auto simp: Condition_Signal_def Let_def)

lemma Bcast_loop_wakes_all:
  "\<not> idling k \<Longrightarrow> code k (currentThread k) = Bcast_loop c (Some l) # cs \<Longrightarrow> c < length (conds k) \<Longrightarrow>
     cv_waitQueue (conds k ! c) = ts \<Longrightarrow> (ts \<noteq> [] \<longrightarrow> cv_waitingLock (conds k ! c) = Some l) \<Longrightarrow>
     \<exists>k'. kstep\<^sup>*\<^sup>* k k' \<and> currentThread k' = currentThread k \<and> code k' (currentThread k) = cs \<and>
       cv_waitQueue (conds k' ! c) = [] \<and> readyList k' = readyList k @ ts"
proof (induction ts arbitrary: k)
  case Nil
  have "kstep k (pop k)" using Nil by (intro kstep.run) (simp_all add: run_current_def Broadcast_loop_def)
  then show ?case using Nil by (intro exI [of _ "pop k"]) (auto simp: pop_def)
next
  case (Cons t ts)
  let ?k1 = "push [Signal c (Some l), Bcast_loop c (Some l)] (pop k)"
  have s1: "kstep k ?k1" using Cons.prems by (intro kstep.run) (simp_all add: run_current_def Broadcast_loop_def)
  have c1: "code ?k1 (currentThread ?k1) = Signal c (Some l) # Bcast_loop c (Some l) # cs"
    using Cons.prems by (simp add: push_def pop_def)
  obtain k2 where k2: "Condition_Signal c (Some l) (pop ?k1) = Inr k2" "cv_waitQueue (conds k2 ! c) = ts"
    "readyList k2 = readyList k @ [t]" "length (conds k2) = length (conds k)"
    "ts \<noteq> [] \<longrightarrow> cv_waitingLock (conds k2 ! c) = Some l"
    "code k2 = code (pop ?k1)" "currentThread k2 = currentThread k" "idling k2 = idling k"
    using Signal_wakes_first [of c "pop ?k1" t ts l] Cons.prems by auto
  have s2: "kstep ?k1 k2" using Cons.prems k2(1) c1 by (intro kstep.run) (simp_all add: run_current_def)
  have c2: "code k2 (currentThread k2) = Bcast_loop c (Some l) # cs" using k2(6,7) c1 by (simp add: pop_def)
  from Cons.IH [OF _ c2 _ k2(2,5)] k2 Cons.prems obtain k' where "kstep\<^sup>*\<^sup>* k2 k'" "currentThread k' = currentThread k"
    "code k' (currentThread k) = cs" "cv_waitQueue (conds k' ! c) = []" "readyList k' = readyList k @ t # ts" by auto
  moreover from this(1) s1 s2 have "kstep\<^sup>*\<^sup>* k k'" by (meson converse_rtranclp_into_rtranclp)
  ultimately show ?case by blast
qed

theorem Broadcast_wakes_all:
  assumes "\<not> idling k" "code k (currentThread k) = Broadcast c (Some l) # cs" "c < length (conds k)"
    "cv_waitingLock (conds k ! c) = Some l"
  shows "\<exists>k'. kstep\<^sup>*\<^sup>* k k' \<and> currentThread k' = currentThread k \<and> code k' (currentThread k) = cs \<and>
    cv_waitQueue (conds k' ! c) = [] \<and> readyList k' = readyList k @ cv_waitQueue (conds k ! c)"
proof -
  let ?k1 = "push [Bcast_loop c (Some l)] ((pop k)\<lparr>level := level k\<rparr>)"
  have "kstep k ?k1" using assms by (intro kstep.run) (simp_all add: run_current_def Condition_Broadcast_def Let_def)
  moreover have "code ?k1 (currentThread ?k1) = Bcast_loop c (Some l) # cs" using assms(2) by (simp add: push_def pop_def)
  ultimately show ?thesis using Bcast_loop_wakes_all [of ?k1 c l cs "cv_waitQueue (conds k ! c)"] assms
    by (auto intro: converse_rtranclp_into_rtranclp)
qed

text \<open>
  Disturbed, \<^verbatim>\<open>Broadcast\<close> may not return: interrupts are enabled during its loop, and when another thread has emptied the queue
  and a third has begun to wait with another lock, \<^verbatim>\<open>Signal\<close> wakes nobody and the loop comes back to the same state.
\<close>

lemma Broadcast_spins:
  assumes "\<not> idling k" "code k (currentThread k) = Bcast_loop c (Some l) # cs" "c < length (conds k)"
    "cv_waitQueue (conds k ! c) \<noteq> []" "cv_waitingLock (conds k ! c) \<noteq> Some l"
  shows "kstep\<^sup>+\<^sup>+ k k"
proof -
  let ?k1 = "push [Signal c (Some l), Bcast_loop c (Some l)] (pop k)"
  have s1: "kstep k ?k1" using assms by (intro kstep.run) (simp_all add: run_current_def Broadcast_loop_def)
  have c1: "code ?k1 (currentThread ?k1) = Signal c (Some l) # Bcast_loop c (Some l) # cs"
    using assms by (simp add: push_def pop_def)
  have p1: "pop ?k1 = k" using assms(2) by (simp add: push_def pop_def fun_upd_idem)
  have "Condition_Signal c (Some l) k = Inr k"
    using assms(3-5) by (auto simp: Condition_Signal_def Let_def split: list.splits)
  then have "kstep ?k1 k" using assms(1) c1 p1 by (intro kstep.run) (simp_all add: run_current_def)
  with s1 show ?thesis by (meson tranclp.r_into_trancl tranclp.trancl_into_trancl)
qed

text \<open>
  \<^verbatim>\<open>Wait\<close> by the owner of the lock queues the thread on the condition, gives the lock up
  (to the first thread waiting for it, if any), and blocks the thread; when it runs
  again it first acquires the lock again.
\<close>

theorem Wait_releases_and_sleeps:
  assumes "kernel_inv k" "\<not> idling k" "c < length (conds k)" "l < length (locks k)"
    and "lock_owner (locks k ! l) = Some (currentThread k)"
    and "cv_waitingLock (conds k ! c) \<in> {None, Some l}"
  shows "\<exists>k'. Condition_Wait c (Some l) k = Inr k' \<and>
    cv_waitQueue (conds k' ! c) = cv_waitQueue (conds k ! c) @ [currentThread k] \<and>
    cv_waitingLock (conds k' ! c) = Some l \<and>
    lock_owner (locks k' ! l) = (case lock_waitQueue (locks k ! l) of [] \<Rightarrow> None | t # _ \<Rightarrow> Some t) \<and>
    (idling k' \<or> currentThread k' \<noteq> currentThread k) \<and> threadStatus k' (currentThread k) = BLOCKED \<and>
    code k' (currentThread k) =
      (if idling k' then [] else [AfterSwitch]) @ [Acquire l, Restore (level k)] @ code k (currentThread k)"
proof -
  have o: "occ (currentThread k) k \<le> 1" using assms(1) by (simp add: kernel_inv_def thr_inv_def)
  then have q: "queued (currentThread k) k = 0" using assms(2) by (simp add: occ_def on_cpu_def)
  then have r: "currentThread k \<notin> set (readyList k)" by (auto simp: queued_def count_list_0_iff)
  have "count_list (lock_waitQueue (locks k ! l)) (currentThread k) = 0"
    using q queue_count_le_waiting(2) [OF assms(4), of "currentThread k"] by (simp add: queued_def)
  then have w: "currentThread k \<notin> set (lock_waitQueue (locks k ! l))" by (simp add: count_list_0_iff)
  show ?thesis
    using assms(2-6) r w
    by (cases "lock_waitQueue (locks k ! l)"; cases "readyList k")
      (auto simp: Condition_Wait_def Lock_Release_def Lock_isHeldByCurrentThread_def Let_def
        Thread_Sleep_def Scheduler_FindNextToRun_def push_def)
qed

theorem Wait_releases_and_sleeps_witness:
  "\<exists>k'. Condition_Wait 0 (Some 0) demo_locked = Inr k' \<and> idling k' \<and> threadStatus k' 0 = BLOCKED"
proof -
  have "kernel_inv demo_locked"
    using kreach_kernel_inv [OF demo_locked_reach] by (simp add: demo_kernel_def Initialize_kernel_inv)
  moreover have "\<not> idling demo_locked" "0 < length (conds demo_locked)" "0 < length (locks demo_locked)"
    "lock_owner (locks demo_locked ! 0) = Some (currentThread demo_locked)" "currentThread demo_locked = 0"
    "cv_waitingLock (conds demo_locked ! 0) \<in> {None, Some 0}"
    by (simp_all add: demo_simps)
  ultimately show ?thesis using Wait_releases_and_sleeps [of demo_locked 0 0]
    by (auto simp: demo_simps demo_wait_simps)
qed

section \<open>Mapcar on a synchronised list\<close>

text \<open>
  Undisturbed, \<^verbatim>\<open>SynchList::Mapcar\<close> with a function that makes no calls hands the items of the list to it, each once and in
  order, and goes on behind the call.
\<close>

lemma SL_map_items:
  "\<not> idling k \<Longrightarrow> code k (currentThread k) = SL_map its [] # cs \<Longrightarrow>
     \<exists>k'. kstep\<^sup>*\<^sup>* k k' \<and> currentThread k' = currentThread k \<and> code k' (currentThread k) = cs \<and>
       received k' (currentThread k) = received k (currentThread k) @ its"
proof (induction its arbitrary: k)
  case Nil
  have "kstep k (pop k)" using Nil by (intro kstep.run) (simp_all add: run_current_def SynchList_map_def)
  then show ?case using Nil by (intro exI [of _ "pop k"]) (auto simp: pop_def)
next
  case (Cons it its)
  let ?k = "SynchList_map (it # its) [] (pop k)"
  have s: "kstep k ?k" using Cons.prems by (intro kstep.run) (simp_all add: run_current_def)
  have k: "\<not> idling ?k" "currentThread ?k = currentThread k" "code ?k (currentThread ?k) = SL_map its [] # cs"
    "received ?k (currentThread k) = received k (currentThread k) @ [it]"
    using Cons.prems by (simp_all add: SynchList_map_def push_def pop_def)
  from Cons.IH [OF k(1,3)] k(2,4) s show ?case by (auto intro: converse_rtranclp_into_rtranclp)
qed

end
