(* ===== verification/Thread_Tests.thy ===== *)
theory Thread_Tests
  imports Thread_Props
begin

text \<open>
  The test programs of \<^verbatim>\<open>threads/threadtest.cc\<close> on the kernel: \<^verbatim>\<open>ThreadTest\<close> and \<^verbatim>\<open>TestSuite\<close>, as the sequences of kernel
  calls their threads make. Each semaphore, lock and condition of the tests has a number; output is left out.
\<close>

section \<open>Programs\<close>

definition SimpleThread :: "instr list" where
  "SimpleThread = replicate 5 Yield"

definition ThreadTest :: "instr list" where
  "ThreadTest = Fork SimpleThread # SimpleThread"

abbreviation (input) "t1_s1 \<equiv> 0 :: nat"
abbreviation (input) "t1_s2 \<equiv> 1 :: nat"
abbreviation (input) "t1_s3 \<equiv> 2 :: nat"
abbreviation (input) "t1_done \<equiv> 3 :: nat"
abbreviation (input) "t2_s1 \<equiv> 4 :: nat"
abbreviation (input) "t2_done \<equiv> 5 :: nat"
abbreviation (input) "t3_s1 \<equiv> 6 :: nat"
abbreviation (input) "t3_done \<equiv> 7 :: nat"
abbreviation (input) "t4_s1 \<equiv> 8 :: nat"
abbreviation (input) "t4_done \<equiv> 9 :: nat"
abbreviation (input) "t5_s1 \<equiv> 10 :: nat"

abbreviation (input) "t1_l1 \<equiv> 0 :: nat"
abbreviation (input) "t2_l1 \<equiv> 1 :: nat"
abbreviation (input) "t3_l1 \<equiv> 2 :: nat"
abbreviation (input) "t4_l1 \<equiv> 3 :: nat"
abbreviation (input) "t5_l1 \<equiv> 4 :: nat"
abbreviation (input) "t5_l2 \<equiv> 5 :: nat"

abbreviation (input) "t2_c1 \<equiv> 0 :: nat"
abbreviation (input) "t3_c1 \<equiv> 1 :: nat"
abbreviation (input) "t4_c1 \<equiv> 2 :: nat"
abbreviation (input) "t5_c1 \<equiv> 3 :: nat"

definition t1_t1 :: "instr list" where
  "t1_t1 = [Acquire t1_l1, V t1_s1, P t1_s3, Release t1_l1, V t1_done]"

definition t1_t2 :: "instr list" where
  "t1_t2 = [P t1_s1, V t1_s2, Acquire t1_l1, Release t1_l1, V t1_done]"

definition t1_t3 :: "instr list" where
  "t1_t3 = [P t1_s2, V t1_s3] @ replicate 3 (Release t1_l1)"

definition t2_t1 :: "instr list" where
  "t2_t1 = [Acquire t2_l1, Signal t2_c1 (Some t2_l1), Release t2_l1, V t2_s1, V t2_done]"

definition t2_t2 :: "instr list" where
  "t2_t2 = [P t2_s1, Acquire t2_l1, Wait t2_c1 (Some t2_l1), Release t2_l1]"

definition t3_waiter :: "instr list" where
  "t3_waiter = [Acquire t3_l1, V t3_s1, Wait t3_c1 (Some t3_l1), Release t3_l1, V t3_done]"

definition t3_signaller :: "instr list" where
  "t3_signaller = replicate 5 (P t3_s1) @ [Acquire t3_l1, Signal t3_c1 (Some t3_l1), Release t3_l1, V t3_done]"

definition t4_waiter :: "instr list" where
  "t4_waiter = [Acquire t4_l1, V t4_s1, Wait t4_c1 (Some t4_l1), Release t4_l1, V t4_done]"

definition t4_signaller :: "instr list" where
  "t4_signaller = replicate 5 (P t4_s1) @ [Acquire t4_l1, Broadcast t4_c1 (Some t4_l1), Release t4_l1, V t4_done]"

definition t5_t1 :: "instr list" where
  "t5_t1 = [Acquire t5_l1, V t5_s1, Wait t5_c1 (Some t5_l1), Release t5_l1]"

definition t5_t2 :: "instr list" where
  "t5_t2 = [P t5_s1, Acquire t5_l1, Acquire t5_l2, Signal t5_c1 (Some t5_l2), Release t5_l2, Release t5_l1]"

definition TestSuite :: "instr list" where
  "TestSuite =
     [Fork t1_t1, Fork t1_t2, Fork t1_t3] @ replicate 2 (P t1_done) @
     [Fork t2_t1, Fork t2_t2, P t2_done] @
     replicate 5 (Fork t3_waiter) @ [Fork t3_signaller] @ replicate 2 (P t3_done) @
     replicate 5 (Fork t4_waiter) @ [Fork t4_signaller] @ replicate 6 (P t4_done) @
     [Fork t5_t1, Fork t5_t2]"

text \<open>The kernel after start-up, with the test suite as the main thread, which then finishes.\<close>

definition suite_start :: kstate where
  "suite_start = Initialize (replicate 11 0) 6 4 [] (TestSuite @ [Finish])"

section \<open>Safety\<close>

lemmas test_programs = t1_t1_def t1_t2_def t1_t3_def t2_t1_def t2_t2_def t3_waiter_def t3_signaller_def t4_waiter_def t4_signaller_def
  t5_t1_def t5_t2_def

lemma TestSuite_plain: "list_all plain (TestSuite @ [Finish])" "list_all plain ThreadTest"
  by (simp_all add: TestSuite_def test_programs ThreadTest_def SimpleThread_def numeral_eq_Suc)

text \<open>
  In every interleaving of the test suite, the thread that runs next is not stopped by an assertion of the kernel, and the objects of
  the tests stay consistent.
\<close>

lemma TestSuite_safe:
  assumes "kreach suite_start k"
  shows "kernel_inv k"
  using kreach_kernel_inv [OF assms [unfolded suite_start_def] Initialize_kernel_inv [OF TestSuite_plain(1)]] by simp

end
