(* ===== verification/Monitor_Threads.thy ===== *)
theory Monitor_Threads
  imports Main
begin

text \<open>
  Threads that share data under locks and condition variables, as the threads of \<^verbatim>\<open>threads/threadtest.cc\<close> do: the
  programs they run, the effect of the calls of \<^verbatim>\<open>threads/synch.cc\<close> on the threads that take part in them, and
  all interleavings. The kernel below (ready list, interrupts, context switches) is the subject of
  \<open>Thread_Kernel\<close>; here every thread that is not waiting may run next.

  A lock discipline is given as a type system: \<open>typed\<close> follows the set of locks a thread holds through its program.
  Well-typed threads release, wait and signal only under locks they hold, and never wait for locks in a circle.
\<close>

section \<open>Programs\<close>

text \<open>
  \<open>Act f g\<close> is code without calls that may switch threads: the data change by \<open>f\<close>, and \<open>g\<close> gives what follows, both
  from the data before. \<open>Rand g\<close> continues with a number that \<^verbatim>\<open>rand()\<close> (or a user) chooses, \<open>Goto b\<close> with the code at a
  label of the thread, which is how loops are written. \<open>Fail\<close> is a failed assertion or an access
  outside an array, \<open>Return\<close> the end of the thread. \<open>Broadcasting c l\<close> is the loop of a \<^verbatim>\<open>Broadcast\<close> that has
  begun.
\<close>

datatype ('s, 't, 'l, 'c, 'b) prog =
    Return
  | Fail
  | Goto 'b
  | Yield "('s, 't, 'l, 'c, 'b) prog"
  | Fork 't 'b "('s, 't, 'l, 'c, 'b) prog"
  | Acquire 'l "('s, 't, 'l, 'c, 'b) prog"
  | Release 'l "('s, 't, 'l, 'c, 'b) prog"
  | Wait 'c 'l "('s, 't, 'l, 'c, 'b) prog"
  | Signal 'c 'l "('s, 't, 'l, 'c, 'b) prog"
  | Broadcast 'c 'l "('s, 't, 'l, 'c, 'b) prog"
  | Broadcasting 'c 'l "('s, 't, 'l, 'c, 'b) prog"
  | Act "'s \<Rightarrow> 's" "'s \<Rightarrow> ('s, 't, 'l, 'c, 'b) prog"
  | Rand "nat \<Rightarrow> ('s, 't, 'l, 'c, 'b) prog"

datatype ('s, 't, 'l, 'c, 'b) status =
    Unborn
  | Ready "('s, 't, 'l, 'c, 'b) prog"
  | OnLock 'l "('s, 't, 'l, 'c, 'b) prog"
  | OnCV 'c 'l "('s, 't, 'l, 'c, 'b) prog"

record ('s, 't, 'l, 'c, 'b) world =
  dat :: 's
  owner :: "'l \<Rightarrow> 't option"
  lockq :: "'l \<Rightarrow> 't list"
  cvq :: "'c \<Rightarrow> 't list"
  waitingLock :: "'c \<Rightarrow> 'l option"
  stat :: "'t \<Rightarrow> ('s, 't, 'l, 'c, 'b) status"

section \<open>Steps\<close>

text \<open>A thread that gets the lock it waits for, and one that a signal wakes: it has to get its lock again.\<close>

fun granted :: "('s, 't, 'l, 'c, 'b) status \<Rightarrow> ('s, 't, 'l, 'c, 'b) status" where
  "granted (OnLock l p) = Ready p"
| "granted x = x"

fun woken :: "('s, 't, 'l, 'c, 'b) status \<Rightarrow> ('s, 't, 'l, 'c, 'b) status" where
  "woken (OnCV c l p) = Ready (Acquire l p)"
| "woken x = x"

definition set_stat :: "'t \<Rightarrow> ('s, 't, 'l, 'c, 'b) status \<Rightarrow> ('s, 't, 'l, 'c, 'b) world \<Rightarrow> ('s, 't, 'l, 'c, 'b) world" where
  "set_stat t x w = w\<lparr>stat := (stat w)(t := x)\<rparr>"

definition acquire :: "'t \<Rightarrow> 'l \<Rightarrow> ('s, 't, 'l, 'c, 'b) prog \<Rightarrow> ('s, 't, 'l, 'c, 'b) world \<Rightarrow> ('s, 't, 'l, 'c, 'b) world" where
  "acquire t l p w =
     (if owner w l = Some t then set_stat t (Ready p) w
      else if owner w l = None then set_stat t (Ready p) (w\<lparr>owner := (owner w)(l \<mapsto> t)\<rparr>)
      else set_stat t (OnLock l p) (w\<lparr>lockq := (lockq w)(l := lockq w l @ [t])\<rparr>))"

text \<open>\<^verbatim>\<open>Release\<close> does nothing for a thread that is not the owner, and hands the lock to the first thread that waits.\<close>

definition release :: "'t \<Rightarrow> 'l \<Rightarrow> ('s, 't, 'l, 'c, 'b) world \<Rightarrow> ('s, 't, 'l, 'c, 'b) world" where
  "release t l w =
     (if owner w l \<noteq> Some t then w
      else case lockq w l of
        [] \<Rightarrow> w\<lparr>owner := (owner w)(l := None)\<rparr>
      | u # us \<Rightarrow> w\<lparr>owner := (owner w)(l \<mapsto> u), lockq := (lockq w)(l := us), stat := (stat w)(u := granted (stat w u))\<rparr>)"

definition wait :: "'t \<Rightarrow> 'c \<Rightarrow> 'l \<Rightarrow> ('s, 't, 'l, 'c, 'b) prog \<Rightarrow> ('s, 't, 'l, 'c, 'b) world \<Rightarrow> ('s, 't, 'l, 'c, 'b) world" where
  "wait t c l p w =
     (if waitingLock w c = None \<or> waitingLock w c = Some l
      then release t l (set_stat t (OnCV c l p) (w\<lparr>waitingLock := (waitingLock w)(c \<mapsto> l), cvq := (cvq w)(c := cvq w c @ [t])\<rparr>))
      else set_stat t (Ready p) w)"

definition signal :: "'c \<Rightarrow> 'l \<Rightarrow> ('s, 't, 'l, 'c, 'b) world \<Rightarrow> ('s, 't, 'l, 'c, 'b) world" where
  "signal c l w = (case cvq w c of
     [] \<Rightarrow> w
   | u # us \<Rightarrow> if waitingLock w c \<noteq> Some l then w
       else w\<lparr>cvq := (cvq w)(c := us), waitingLock := (waitingLock w)(c := (if us = [] then None else Some l)),
              stat := (stat w)(u := woken (stat w u))\<rparr>)"

text \<open>
  \<^verbatim>\<open>Broadcast\<close> tests the lock, and then, with interrupts enabled again, signals until the queue is empty: each test of
  the loop, with the \<^verbatim>\<open>Signal\<close> it allows, is a step of its own.
\<close>

definition broadcast :: "'t \<Rightarrow> 'c \<Rightarrow> 'l \<Rightarrow> ('s, 't, 'l, 'c, 'b) prog \<Rightarrow> ('s, 't, 'l, 'c, 'b) world \<Rightarrow> ('s, 't, 'l, 'c, 'b) world" where
  "broadcast t c l p w = set_stat t (Ready (if waitingLock w c = Some l then Broadcasting c l p else p)) w"

definition broadcast_loop :: "'t \<Rightarrow> 'c \<Rightarrow> 'l \<Rightarrow> ('s, 't, 'l, 'c, 'b) prog \<Rightarrow> ('s, 't, 'l, 'c, 'b) world \<Rightarrow> ('s, 't, 'l, 'c, 'b) world" where
  "broadcast_loop t c l p w =
     (if cvq w c = [] then set_stat t (Ready p) w else set_stat t (Ready (Broadcasting c l p)) (signal c l w))"

text \<open>
  The step of thread \<open>t\<close>, if it can make one; \<open>n\<close> is the number \<^verbatim>\<open>rand()\<close> gives, and \<open>body\<close> the code at the labels.
\<close>

fun prog_step :: "('t \<Rightarrow> 'b \<Rightarrow> ('s, 't, 'l, 'c, 'b) prog) \<Rightarrow> 't \<Rightarrow> nat \<Rightarrow> ('s, 't, 'l, 'c, 'b) prog \<Rightarrow> ('s, 't, 'l, 'c, 'b) world \<Rightarrow>
    ('s, 't, 'l, 'c, 'b) world option" where
  "prog_step body t n Return w = None"
| "prog_step body t n Fail w = None"
| "prog_step body t n (Goto b) w = Some (set_stat t (Ready (body t b)) w)"
| "prog_step body t n (Yield p) w = Some (set_stat t (Ready p) w)"
| "prog_step body t n (Fork u b p) w =
     (case stat w u of Unborn \<Rightarrow> Some (set_stat t (Ready p) (set_stat u (Ready (Goto b)) w)) | _ \<Rightarrow> None)"
| "prog_step body t n (Acquire l p) w = Some (acquire t l p w)"
| "prog_step body t n (Release l p) w = Some (set_stat t (Ready p) (release t l w))"
| "prog_step body t n (Wait c l p) w = Some (wait t c l p w)"
| "prog_step body t n (Signal c l p) w = Some (set_stat t (Ready p) (signal c l w))"
| "prog_step body t n (Broadcast c l p) w = Some (broadcast t c l p w)"
| "prog_step body t n (Broadcasting c l p) w = Some (broadcast_loop t c l p w)"
| "prog_step body t n (Act f g) w = Some (set_stat t (Ready (g (dat w))) (w\<lparr>dat := f (dat w)\<rparr>))"
| "prog_step body t n (Rand g) w = Some (set_stat t (Ready (g n)) w)"

definition thread_step :: "('t \<Rightarrow> 'b \<Rightarrow> ('s, 't, 'l, 'c, 'b) prog) \<Rightarrow> 't \<Rightarrow> nat \<Rightarrow> ('s, 't, 'l, 'c, 'b) world \<Rightarrow> ('s, 't, 'l, 'c, 'b) world option" where
  "thread_step body t n w = (case stat w t of Ready p \<Rightarrow> prog_step body t n p w | _ \<Rightarrow> None)"

inductive world_step :: "('t \<Rightarrow> 'b \<Rightarrow> ('s, 't, 'l, 'c, 'b) prog) \<Rightarrow> ('s, 't, 'l, 'c, 'b) world \<Rightarrow> ('s, 't, 'l, 'c, 'b) world \<Rightarrow> bool"
  for body where
  "thread_step body t n w = Some w' \<Longrightarrow> world_step body w w'"

text \<open>A run along a schedule: which thread makes the next step, and the number it draws.\<close>

fun run_schedule :: "('t \<Rightarrow> 'b \<Rightarrow> ('s, 't, 'l, 'c, 'b) prog) \<Rightarrow> ('t \<times> nat) list \<Rightarrow> ('s, 't, 'l, 'c, 'b) world \<Rightarrow> ('s, 't, 'l, 'c, 'b) world option" where
  "run_schedule body [] w = Some w"
| "run_schedule body ((t, n) # ts) w = (case thread_step body t n w of None \<Rightarrow> None | Some w' \<Rightarrow> run_schedule body ts w')"

lemma run_schedule_reaches: "run_schedule body ts w = Some w' \<Longrightarrow> (world_step body)\<^sup>*\<^sup>* w w'"
proof (induction ts arbitrary: w)
  case (Cons a ts)
  obtain t n where a: "a = (t, n)" by (cases a)
  with Cons.prems obtain v where "thread_step body t n w = Some v" "run_schedule body ts v = Some w'"
    by (auto split: option.splits)
  with Cons.IH show ?case by (meson converse_rtranclp_into_rtranclp world_step.intros)
qed simp

section \<open>The lock discipline as a type system\<close>

text \<open>
  \<open>typed t H p\<close>: thread \<open>t\<close> may run \<open>p\<close> while it holds the locks \<open>H\<close>. Locks are acquired in the order of their
  \<open>rank\<close>, only locks of \<open>keep\<close> are held while waiting on a condition, \<open>held\<close> are the locks held at labels, and \<open>I\<close> is an
  invariant of the data.
\<close>

primrec typed :: "('l \<Rightarrow> nat) \<Rightarrow> 'l set \<Rightarrow> ('s \<Rightarrow> bool) \<Rightarrow> ('t \<Rightarrow> 'b \<Rightarrow> 'l set) \<Rightarrow> 't \<Rightarrow> ('s, 't, 'l, 'c, 'b) prog \<Rightarrow> 'l set \<Rightarrow> bool" where
  "typed rank keep I held t Return H \<longleftrightarrow> H = {}"
| "typed rank keep I held t Fail H \<longleftrightarrow> True"
| "typed rank keep I held t (Goto b) H \<longleftrightarrow> H = held t b"
| "typed rank keep I held t (Yield p) H \<longleftrightarrow> typed rank keep I held t p H"
| "typed rank keep I held t (Fork u b p) H \<longleftrightarrow> held u b = {} \<and> typed rank keep I held t p H"
| "typed rank keep I held t (Acquire l p) H \<longleftrightarrow> l \<notin> H \<and> (\<forall>h \<in> H. rank h < rank l) \<and> typed rank keep I held t p (insert l H)"
| "typed rank keep I held t (Release l p) H \<longleftrightarrow> l \<in> H \<and> typed rank keep I held t p (H - {l})"
| "typed rank keep I held t (Wait c l p) H \<longleftrightarrow> l \<in> H \<and> H - {l} \<subseteq> keep \<and> (\<forall>h \<in> H - {l}. rank h < rank l) \<and> typed rank keep I held t p H"
| "typed rank keep I held t (Signal c l p) H \<longleftrightarrow> l \<in> H \<and> typed rank keep I held t p H"
| "typed rank keep I held t (Broadcast c l p) H \<longleftrightarrow> l \<in> H \<and> typed rank keep I held t p H"
| "typed rank keep I held t (Broadcasting c l p) H \<longleftrightarrow> l \<in> H \<and> typed rank keep I held t p H"
| "typed rank keep I held t (Act f g) H \<longleftrightarrow> (\<forall>s. I s \<longrightarrow> I (f s) \<and> typed rank keep I held t (g s) H)"
| "typed rank keep I held t (Rand g) H \<longleftrightarrow> (\<forall>n. typed rank keep I held t (g n) H)"

definition holds :: "('s, 't, 'l, 'c, 'b) world \<Rightarrow> 't \<Rightarrow> 'l set" where
  "holds w t = {l. owner w l = Some t}"

text \<open>\<open>waits_for w t u\<close>: thread \<open>t\<close> waits for a lock that \<open>u\<close> holds.\<close>

definition waits_for :: "('s, 't, 'l, 'c, 'b) world \<Rightarrow> 't \<Rightarrow> 't \<Rightarrow> bool" where
  "waits_for w t u \<longleftrightarrow> (\<exists>l p. stat w t = OnLock l p \<and> owner w l = Some u)"

text \<open>What a call needs of the locks its thread holds.\<close>

fun call_ok :: "('s, 't, 'l, 'c, 'b) prog \<Rightarrow> 'l set \<Rightarrow> bool" where
  "call_ok (Release l p) H \<longleftrightarrow> l \<in> H"
| "call_ok (Wait c l p) H \<longleftrightarrow> l \<in> H"
| "call_ok (Signal c l p) H \<longleftrightarrow> l \<in> H"
| "call_ok (Broadcast c l p) H \<longleftrightarrow> l \<in> H"
| "call_ok (Broadcasting c l p) H \<longleftrightarrow> l \<in> H"
| "call_ok (Acquire l p) H \<longleftrightarrow> l \<notin> H"
| "call_ok Return H \<longleftrightarrow> H = {}"
| "call_ok _ H \<longleftrightarrow> True"

locale lock_discipline =
  fixes body :: "'t \<Rightarrow> 'b \<Rightarrow> ('s, 't, 'l, 'c, 'b) prog"
    and held :: "'t \<Rightarrow> 'b \<Rightarrow> 'l set"
    and rank :: "'l \<Rightarrow> nat"
    and keep :: "'l set"
    and I :: "'s \<Rightarrow> bool"
    and top :: nat
  assumes body_typed: "typed rank keep I held t (body t b) (held t b)"
    and rank_bound: "rank l \<le> top"
begin

fun stat_ok :: "'t \<Rightarrow> 'l set \<Rightarrow> ('s, 't, 'l, 'c, 'b) status \<Rightarrow> bool" where
  "stat_ok t H Unborn \<longleftrightarrow> H = {}"
| "stat_ok t H (Ready p) \<longleftrightarrow> typed rank keep I held t p H"
| "stat_ok t H (OnLock l p) \<longleftrightarrow> typed rank keep I held t (Acquire l p) H"
| "stat_ok t H (OnCV c l p) \<longleftrightarrow> H \<subseteq> keep \<and> typed rank keep I held t (Acquire l p) H"

definition queues_ok :: "('s, 't, 'l, 'c, 'b) world \<Rightarrow> bool" where
  "queues_ok w \<longleftrightarrow>
     (\<forall>l t. t \<in> set (lockq w l) \<longleftrightarrow> (\<exists>p. stat w t = OnLock l p)) \<and>
     (\<forall>c t. t \<in> set (cvq w c) \<longleftrightarrow> (\<exists>l p. stat w t = OnCV c l p)) \<and>
     (\<forall>l. distinct (lockq w l) \<and> (lockq w l \<noteq> [] \<longrightarrow> owner w l \<noteq> None)) \<and> (\<forall>c. distinct (cvq w c))"

definition ok :: "('s, 't, 'l, 'c, 'b) world \<Rightarrow> bool" where
  "ok w \<longleftrightarrow> I (dat w) \<and> queues_ok w \<and> (\<forall>t. stat_ok t (holds w t) (stat w t))"

lemma holds_set_stat [simp]: "holds (set_stat t x w) u = holds w u"
  by (simp add: holds_def set_stat_def)

lemma holds_simps [simp]: "holds (w\<lparr>dat := s\<rparr>) u = holds w u" "holds (w\<lparr>lockq := q\<rparr>) u = holds w u" "holds (w\<lparr>cvq := r\<rparr>) u = holds w u"
  "holds (w\<lparr>waitingLock := m\<rparr>) u = holds w u" "holds (w\<lparr>stat := x\<rparr>) u = holds w u"
  by (simp_all add: holds_def)

lemma set_stat_simps [simp]:
  "dat (set_stat t x w) = dat w" "owner (set_stat t x w) = owner w" "lockq (set_stat t x w) = lockq w"
  "cvq (set_stat t x w) = cvq w" "waitingLock (set_stat t x w) = waitingLock w" "stat (set_stat t x w) = (stat w)(t := x)"
  by (simp_all add: set_stat_def)

text \<open>A thread that can run moves to another point where it can run.\<close>

lemma ok_ready:
  assumes "ok w" "stat w t = Ready p" "typed rank keep I held t q (holds w t)"
  shows "ok (set_stat t (Ready q) w)"
  using assms by (auto simp: ok_def queues_ok_def)

lemma ok_dat: "ok w \<Longrightarrow> I s \<Longrightarrow> ok (w\<lparr>dat := s\<rparr>)"
  by (simp add: ok_def queues_ok_def holds_def)

lemma ok_typed: "ok w \<Longrightarrow> stat w t = Ready p \<Longrightarrow> typed rank keep I held t p (holds w t)"
  by (metis ok_def stat_ok.simps(2))

lemma ok_acquire:
  assumes "ok w" "stat w t = Ready (Acquire l p)"
  shows "ok (acquire t l p w)"
proof -
  have T: "l \<notin> holds w t" "\<forall>h \<in> holds w t. rank h < rank l" "typed rank keep I held t p (insert l (holds w t))"
    using ok_typed [OF assms] by auto
  show ?thesis
  proof (cases "owner w l")
    case None
    let ?w = "set_stat t (Ready p) (w\<lparr>owner := (owner w)(l \<mapsto> t)\<rparr>)"
    have "holds ?w u = (if u = t then insert l (holds w t) else holds w u)" for u using None by (auto simp: holds_def)
    with assms T None show ?thesis by (auto simp: acquire_def ok_def queues_ok_def)
  next
    case (Some u)
    with T(1) have "u \<noteq> t" by (auto simp: holds_def)
    let ?w = "set_stat t (OnLock l p) (w\<lparr>lockq := (lockq w)(l := lockq w l @ [t])\<rparr>)"
    have "holds ?w v = holds w v" for v by (simp add: holds_def)
    with assms T Some \<open>u \<noteq> t\<close> show ?thesis by (auto simp: acquire_def ok_def queues_ok_def)
  qed
qed

lemma ok_release:
  assumes I: "I (dat w)" and q: "queues_ok w" and o: "owner w l = Some t"
    and others: "\<And>u. u \<noteq> t \<Longrightarrow> stat_ok u (holds w u) (stat w u)" and me: "stat_ok t (holds w t - {l}) (stat w t)"
    and notq: "t \<notin> set (lockq w l)"
  shows "ok (release t l w)"
proof (cases "lockq w l")
  case Nil
  have h: "holds (w\<lparr>owner := (owner w)(l := None)\<rparr>) u = (if u = t then holds w t - {l} else holds w u)" for u
    using o by (auto simp: holds_def)
  show ?thesis using Nil o I q others me by (auto simp: release_def ok_def h queues_ok_def)
next
  case (Cons u us)
  with q obtain p where p: "stat w u = OnLock l p" unfolding queues_ok_def by (metis list.set_intros(1))
  have ut: "u \<noteq> t" using notq Cons by auto
  let ?w = "w\<lparr>owner := (owner w)(l \<mapsto> u), lockq := (lockq w)(l := us), stat := (stat w)(u := granted (stat w u))\<rparr>"
  have r: "release t l w = ?w" using o Cons by (simp add: release_def)
  have h: "holds ?w v = (if v = t then holds w t - {l} else if v = u then insert l (holds w u) else holds w v)" for v
    using o ut by (auto simp: holds_def)
  have "stat_ok v (holds ?w v) (stat ?w v)" for v
    unfolding h using others [of v] me ut p by auto
  moreover have "queues_ok ?w"
  proof -
    have d: "distinct (u # us)" using q Cons unfolding queues_ok_def by metis
    have "v \<in> set (cvq ?w e) \<longleftrightarrow> (\<exists>l p. stat ?w v = OnCV e l p)" for v e using q p unfolding queues_ok_def by auto
    moreover have "v \<in> set (lockq ?w m) \<longleftrightarrow> (\<exists>p. stat ?w v = OnLock m p)" for v m
    proof (cases "v = u")
      case True
      have "u \<in> set (lockq w m) \<longleftrightarrow> m = l" using q p unfolding queues_ok_def by auto
      then show ?thesis using True d p by simp
    next
      case False
      have "v \<in> set (lockq w m) \<longleftrightarrow> (\<exists>p. stat w v = OnLock m p)" using q unfolding queues_ok_def by blast
      then show ?thesis using False Cons by auto
    qed
    ultimately show ?thesis using q d unfolding queues_ok_def by simp
  qed
  ultimately show ?thesis unfolding r ok_def using I by simp
qed

lemma release_set_stat: "t \<notin> set (lockq w l) \<Longrightarrow> set_stat t x (release t l w) = release t l (set_stat t x w)"
  by (auto simp: release_def set_stat_def fun_upd_twist split: list.splits)

lemma not_queued: "queues_ok w \<Longrightarrow> stat w t = Ready p \<Longrightarrow> t \<notin> set (lockq w l) \<and> t \<notin> set (cvq w c)"
  unfolding queues_ok_def by auto

lemma ok_Release:
  assumes "ok w" "stat w t = Ready (Release l p)"
  shows "ok (set_stat t (Ready p) (release t l w))"
proof -
  have T: "l \<in> holds w t" "typed rank keep I held t p (holds w t - {l})" using ok_typed [OF assms] by auto
  have n: "t \<notin> set (lockq w l)" using assms not_queued unfolding ok_def by metis
  have "queues_ok (set_stat t (Ready p) w)" using assms by (auto simp: ok_def queues_ok_def)
  with assms T n show ?thesis unfolding release_set_stat [OF n]
    by (intro ok_release) (auto simp: ok_def holds_def)
qed

lemma ok_Wait:
  assumes "ok w" "stat w t = Ready (Wait c l p)"
  shows "ok (wait t c l p w)"
proof (cases "waitingLock w c = None \<or> waitingLock w c = Some l")
  case True
  have T: "l \<in> holds w t" "holds w t - {l} \<subseteq> keep" "\<forall>h \<in> holds w t - {l}. rank h < rank l" "typed rank keep I held t p (holds w t)"
    using ok_typed [OF assms] by auto
  let ?w = "set_stat t (OnCV c l p) (w\<lparr>waitingLock := (waitingLock w)(c \<mapsto> l), cvq := (cvq w)(c := cvq w c @ [t])\<rparr>)"
  have n: "t \<notin> set (lockq w l)" "t \<notin> set (cvq w c)" using assms not_queued unfolding ok_def by metis+
  have h: "holds ?w u = holds w u" for u by (simp add: holds_def)
  have "queues_ok ?w" using assms n by (auto simp: ok_def queues_ok_def)
  moreover have "insert l (holds w t - {l}) = holds w t" using T(1) by blast
  ultimately have "ok (release t l ?w)"
    using assms T n by (intro ok_release) (auto simp: h ok_def, auto simp: holds_def)
  then show ?thesis using True by (simp add: wait_def)
next
  case False
  then show ?thesis using ok_ready [OF assms] ok_typed [OF assms] by (auto simp: wait_def)
qed

text \<open>Signals change nothing but the threads that wait.\<close>

lemma signal_frame: "dat (signal c l w) = dat w" "owner (signal c l w) = owner w" "lockq (signal c l w) = lockq w"
  by (simp_all add: signal_def split: list.splits)

lemma ok_signal: "ok w \<Longrightarrow> ok (signal c l w)"
proof (cases "cvq w c")
  case (Cons u us)
  assume ok: "ok w"
  then have q: "queues_ok w" by (simp add: ok_def)
  with Cons obtain m p where p: "stat w u = OnCV c m p" unfolding queues_ok_def by (metis list.set_intros(1))
  let ?w = "w\<lparr>cvq := (cvq w)(c := us), waitingLock := (waitingLock w)(c := (if us = [] then None else Some l)),
              stat := (stat w)(u := woken (stat w u))\<rparr>"
  have h: "holds ?w v = holds w v" for v by (simp add: holds_def)
  have d: "distinct (u # us)" using q Cons unfolding queues_ok_def by metis
  have "v \<in> set (lockq ?w m) \<longleftrightarrow> (\<exists>p. stat ?w v = OnLock m p)" for v m using q p unfolding queues_ok_def by auto
  moreover have "v \<in> set (cvq ?w e) \<longleftrightarrow> (\<exists>l p. stat ?w v = OnCV e l p)" for v e
  proof (cases "v = u")
    case True
    have "u \<in> set (cvq w e) \<longleftrightarrow> e = c" using q p unfolding queues_ok_def by auto
    then show ?thesis using True d p by simp
  next
    case False
    have "v \<in> set (cvq w e) \<longleftrightarrow> (\<exists>l p. stat w v = OnCV e l p)" using q unfolding queues_ok_def by blast
    then show ?thesis using False Cons by auto
  qed
  ultimately have "queues_ok ?w" using q d unfolding queues_ok_def by simp
  moreover have "stat_ok v (holds ?w v) (stat ?w v)" for v
  proof (cases "v = u")
    case True
    have "stat_ok u (holds w u) (stat w u)" using ok by (simp add: ok_def)
    then show ?thesis using True p unfolding h by simp
  next
    case False
    then show ?thesis using ok unfolding h ok_def by simp
  qed
  ultimately have "ok ?w" using ok unfolding ok_def by simp
  then show ?thesis using ok Cons by (simp add: signal_def)
qed (simp add: signal_def)

lemma signal_other: "stat w t = Ready p \<Longrightarrow> stat (signal c l w) t = Ready p"
  by (auto simp: signal_def split: list.splits)

lemma ok_signal_ready:
  assumes "ok w" "stat w t = Ready p" "typed rank keep I held t q (holds w t)"
  shows "ok (set_stat t (Ready q) (signal c l w))"
  using ok_ready [OF ok_signal [OF assms(1)] signal_other [OF assms(2)]] assms(3) by (simp add: holds_def signal_frame)

lemma ok_Fork:
  assumes "ok w" "stat w t = Ready (Fork u b p)" "stat w u = Unborn"
  shows "ok (set_stat t (Ready p) (set_stat u (Ready (Goto b)) w))"
proof -
  have T: "held u b = {}" "typed rank keep I held t p (holds w t)" using ok_typed [OF assms(1,2)] by auto
  have tu: "u \<noteq> t" using assms(2,3) by auto
  have "stat_ok u (holds w u) (stat w u)" using assms(1) by (simp add: ok_def)
  then have "ok (set_stat u (Ready (Goto b)) w)" using assms T by (auto simp: ok_def queues_ok_def)
  moreover have "stat (set_stat u (Ready (Goto b)) w) t = Ready (Fork u b p)" using assms(2) tu by simp
  ultimately show ?thesis by (rule ok_ready) (simp add: T)
qed

lemma ok_step: "ok w \<Longrightarrow> world_step body w w' \<Longrightarrow> ok w'"
proof -
  assume "ok w" and "world_step body w w'"
  then obtain t n p where p: "stat w t = Ready p" "prog_step body t n p w = Some w'"
    by (auto simp: thread_step_def split: status.splits elim!: world_step.cases)
  note T = ok_typed [OF \<open>ok w\<close> p(1)]
  show "ok w'"
  proof (cases p)
    case (Act f g)
    have "I (dat w)" using \<open>ok w\<close> by (simp add: ok_def)
    with T Act have "I (f (dat w))" "typed rank keep I held t (g (dat w)) (holds w t)" by auto
    moreover from this have "ok (w\<lparr>dat := f (dat w)\<rparr>)" using ok_dat [OF \<open>ok w\<close>] by blast
    ultimately show ?thesis using Act p ok_ready [of "w\<lparr>dat := f (dat w)\<rparr>" t p "g (dat w)"] by simp
  next
    case (Signal c l q)
    then show ?thesis using ok_signal_ready [OF \<open>ok w\<close> p(1), of q] T p by auto
  next
    case (Broadcast c l q)
    then show ?thesis using ok_ready [OF \<open>ok w\<close> p(1)] T p by (auto simp: broadcast_def)
  next
    case (Broadcasting c l q)
    then show ?thesis using ok_ready [OF \<open>ok w\<close> p(1), of q] ok_signal_ready [OF \<open>ok w\<close> p(1), of p] T p
      by (auto simp: broadcast_loop_def split: if_splits)
  next
    case (Goto b)
    then show ?thesis using p T body_typed ok_ready [OF \<open>ok w\<close> p(1)] by auto
  qed (use p T ok_ready [OF \<open>ok w\<close> p(1)] ok_acquire ok_Release ok_Wait ok_Fork \<open>ok w\<close> in \<open>auto split: status.splits\<close>)
qed

lemma ok_run: "(world_step body)\<^sup>*\<^sup>* w w' \<Longrightarrow> ok w \<Longrightarrow> ok w'"
  by (induction rule: rtranclp_induct) (auto intro: ok_step)

text \<open>Every call is made under the locks it needs, and a thread that ends holds none.\<close>

lemma calls_ok: "ok w \<Longrightarrow> stat w t = Ready p \<Longrightarrow> call_ok p (holds w t)"
  by (cases p) (auto dest: ok_typed)

text \<open>A thread that waits for a lock holds only locks of lower rank, so the ranks grow along a chain of waiting threads.\<close>

lemma waits_for_rank:
  assumes "ok w" "stat w t = OnLock l p" "owner w l = Some u" "stat w u = OnLock m q"
  shows "rank l < rank m"
proof -
  have "stat_ok u (holds w u) (stat w u)" using assms(1) by (simp add: ok_def)
  with assms(3,4) show ?thesis by (auto simp: holds_def)
qed

lemma chain_rank:
  assumes "ok w" "(waits_for w)\<^sup>+\<^sup>+ t u" "stat w t = OnLock l p" "stat w u = OnLock m q"
  shows "rank l < rank m"
  using assms(2,4)
proof (induction arbitrary: m q rule: tranclp_induct)
  case (base u)
  then show ?case using assms(1,3) waits_for_rank by (auto simp: waits_for_def)
next
  case (step v u)
  then obtain k r where k: "stat w v = OnLock k r" "owner w k = Some u" by (auto simp: waits_for_def)
  with step show ?case using waits_for_rank [OF assms(1) k] by (meson order_less_trans)
qed

lemma no_circle:
  assumes "ok w"
  shows "\<not> (waits_for w)\<^sup>+\<^sup>+ t t"
proof
  assume c: "(waits_for w)\<^sup>+\<^sup>+ t t"
  from tranclpD [OF this] obtain l p where "stat w t = OnLock l p" by (auto simp: waits_for_def)
  with chain_rank [OF assms c] show False by blast
qed

text \<open>
  A chain that starts at a lock of higher rank than those that may be kept while waiting ends at a thread that can run.
\<close>

lemma chain_runs:
  assumes "ok w" "stat w t = OnLock l p" "\<forall>k \<in> keep. rank k < rank l"
  shows "\<exists>u q. (waits_for w)\<^sup>+\<^sup>+ t u \<and> stat w u = Ready q \<and> q \<noteq> Return"
  using assms(2,3)
proof (induction "top - rank l" arbitrary: t l p rule: less_induct)
  case less
  have "t \<in> set (lockq w l)" using assms(1) less.prems(1) unfolding ok_def queues_ok_def by blast
  then have "owner w l \<noteq> None" using assms(1) unfolding ok_def queues_ok_def by (metis empty_iff empty_set)
  then obtain u where u: "owner w l = Some u" by blast
  then have tu: "waits_for w t u" using less.prems(1) by (auto simp: waits_for_def)
  have s: "stat_ok u (holds w u) (stat w u)" and l: "l \<in> holds w u" using assms(1) u by (simp_all add: ok_def holds_def)
  show ?case
  proof (cases "stat w u")
    case (Ready q)
    with s l have "q \<noteq> Return" by auto
    with Ready tu show ?thesis by blast
  next
    case (OnLock m q)
    have r: "rank l < rank m" using waits_for_rank [OF assms(1) less.prems(1) u OnLock] .
    then have "top - rank m < top - rank l" "\<forall>k \<in> keep. rank k < rank m"
      using rank_bound [of m] less.prems(2) by auto
    from less.hyps [OF this(1) OnLock this(2)] show ?thesis using tranclp_into_tranclp2 [of "waits_for w", OF tu] by blast
  qed (use s l less.prems(2) in auto)
qed

end

section \<open>Waiting for ever\<close>

text \<open>A lock whose owner has ended is never free again.\<close>

lemma signal_finished:
  "stat w t = Ready Return \<Longrightarrow> stat (signal c m w) t = Ready Return \<and> owner (signal c m w) = owner w"
  by (auto simp: signal_def split: list.splits)

lemma finished_keeps_lock:
  assumes "world_step body w w'" "stat w t = Ready Return" "owner w l = Some t"
  shows "stat w' t = Ready Return \<and> owner w' l = Some t"
proof -
  from assms obtain u n p where p: "stat w u = Ready p" "prog_step body u n p w = Some w'"
    by (auto simp: thread_step_def split: status.splits elim!: world_step.cases)
  then have "u \<noteq> t" using assms(2) by auto
  then show ?thesis using p assms(2,3) signal_finished [OF assms(2)]
    by (cases p) (auto simp: set_stat_def acquire_def release_def wait_def broadcast_def broadcast_loop_def
        split: if_splits list.splits status.splits)
qed

lemma finished_keeps_lock_for_ever:
  "(world_step body)\<^sup>*\<^sup>* w w' \<Longrightarrow> stat w t = Ready Return \<Longrightarrow> owner w l = Some t \<Longrightarrow> stat w' t = Ready Return \<and> owner w' l = Some t"
  by (induction rule: rtranclp_induct) (auto dest: finished_keeps_lock)

text \<open>
  \<open>quiet S T c t p\<close>: a program of thread \<open>t\<close> that never signals \<open>c\<close> and starts none of the threads \<open>S\<close>, which do;
  only the threads \<open>T\<close> go to labels.
\<close>

primrec quiet :: "'t set \<Rightarrow> 't set \<Rightarrow> 'c \<Rightarrow> 't \<Rightarrow> ('s, 't, 'l, 'c, 'b) prog \<Rightarrow> bool" where
  "quiet S T c t Return \<longleftrightarrow> True"
| "quiet S T c t Fail \<longleftrightarrow> True"
| "quiet S T c t (Goto b) \<longleftrightarrow> t \<in> T"
| "quiet S T c t (Yield p) \<longleftrightarrow> quiet S T c t p"
| "quiet S T c t (Fork u b p) \<longleftrightarrow> u \<notin> S \<and> u \<in> T \<and> quiet S T c t p"
| "quiet S T c t (Acquire l p) \<longleftrightarrow> quiet S T c t p"
| "quiet S T c t (Release l p) \<longleftrightarrow> quiet S T c t p"
| "quiet S T c t (Wait d l p) \<longleftrightarrow> quiet S T c t p"
| "quiet S T c t (Signal d l p) \<longleftrightarrow> d \<noteq> c \<and> quiet S T c t p"
| "quiet S T c t (Broadcast d l p) \<longleftrightarrow> d \<noteq> c \<and> quiet S T c t p"
| "quiet S T c t (Broadcasting d l p) \<longleftrightarrow> d \<noteq> c \<and> quiet S T c t p"
| "quiet S T c t (Act f g) \<longleftrightarrow> (\<forall>s. quiet S T c t (g s))"
| "quiet S T c t (Rand g) \<longleftrightarrow> (\<forall>n. quiet S T c t (g n))"

fun quiet_stat :: "'t set \<Rightarrow> 't set \<Rightarrow> 'c \<Rightarrow> 't \<Rightarrow> ('s, 't, 'l, 'c, 'b) status \<Rightarrow> bool" where
  "quiet_stat S T c t Unborn \<longleftrightarrow> True"
| "quiet_stat S T c t (Ready p) \<longleftrightarrow> quiet S T c t p"
| "quiet_stat S T c t (OnLock l p) \<longleftrightarrow> quiet S T c t p"
| "quiet_stat S T c t (OnCV d l p) \<longleftrightarrow> quiet S T c t p"

definition silent :: "'t set \<Rightarrow> 't set \<Rightarrow> 'c \<Rightarrow> ('s, 't, 'l, 'c, 'b) world \<Rightarrow> bool" where
  "silent S T c w \<longleftrightarrow> (\<forall>t \<in> S. stat w t = Unborn \<or> stat w t = Ready Return) \<and> (\<forall>t. t \<notin> S \<longrightarrow> quiet_stat S T c t (stat w t))"

lemma quiet_granted: "quiet_stat S T c t x \<Longrightarrow> quiet_stat S T c t (granted x)" "quiet_stat S T c t x \<Longrightarrow> quiet_stat S T c t (woken x)"
  by (cases x; simp)+

lemma silent_upd: "silent S T c w \<Longrightarrow> t \<notin> S \<Longrightarrow> quiet_stat S T c t x \<Longrightarrow> silent S T c (set_stat t x w)"
  by (auto simp: silent_def set_stat_def)

lemma silent_map:
  assumes "silent S T c w" "stat w' = (stat w)(u := f (stat w u))" "f = granted \<or> f = woken"
  shows "silent S T c w'"
proof -
  have "f Unborn = Unborn" "f (Ready Return) = Ready Return" "quiet_stat S T c t x \<Longrightarrow> quiet_stat S T c t (f x)" for t x
    using assms(3) quiet_granted by auto
  with assms(1,2) show ?thesis by (auto simp: silent_def)
qed

lemma silent_stat: "silent S T c w \<Longrightarrow> stat w' = stat w \<Longrightarrow> silent S T c w'"
  by (simp add: silent_def)

lemma silent_release: "silent S T c w \<Longrightarrow> silent S T c (release t l w)"
  by (auto simp: release_def split: list.splits elim: silent_stat intro: silent_map [where f = granted])

lemma silent_signal: "silent S T c w \<Longrightarrow> silent S T c (signal d l w)"
  by (auto simp: signal_def split: list.splits intro: silent_map [where f = woken])

lemma silent_prog_step:
  assumes "silent S T c w" "quiet S T c t p" "t \<notin> S" "prog_step body t n p w = Some w'" "\<And>b. t \<in> T \<Longrightarrow> quiet S T c t (body t b)"
  shows "silent S T c w'"
proof (cases p)
  case (Fork u b q)
  with assms have "silent S T c (set_stat u (Ready (Goto b)) w)" by (auto intro: silent_upd split: status.splits)
  with assms Fork show ?thesis by (auto intro: silent_upd split: status.splits)
next
  case (Wait d l q)
  have "silent S T c (set_stat t (OnCV d l q) (w\<lparr>waitingLock := m, cvq := r\<rparr>))" for m r
    using assms Wait by (intro silent_upd) (auto elim: silent_stat)
  with assms Wait show ?thesis by (auto simp: wait_def intro: silent_upd intro!: silent_release split: if_splits)
next
  case (Acquire l q)
  have "silent S T c (w\<lparr>owner := m\<rparr>)" "silent S T c (w\<lparr>lockq := r\<rparr>)" for m r using assms by (auto elim: silent_stat)
  with assms Acquire show ?thesis by (auto simp: acquire_def intro!: silent_upd split: if_splits)
next
  case (Act f g)
  have "silent S T c (w\<lparr>dat := x\<rparr>)" for x using assms(1) by (auto elim: silent_stat)
  with assms Act show ?thesis by (auto intro!: silent_upd)
qed (use assms in \<open>auto simp: broadcast_def broadcast_loop_def intro!: silent_upd silent_release silent_signal split: if_splits\<close>)

lemma silent_step:
  assumes "world_step body w w'" "silent S T c w" "\<And>t b. t \<in> T \<Longrightarrow> t \<notin> S \<Longrightarrow> quiet S T c t (body t b)"
  shows "silent S T c w'"
proof -
  from assms(1) obtain t n p where p: "stat w t = Ready p" "prog_step body t n p w = Some w'"
    by (auto simp: thread_step_def split: status.splits elim!: world_step.cases)
  then have t: "t \<notin> S" using assms(2) by (auto simp: silent_def)
  then have "quiet_stat S T c t (stat w t)" using assms(2) by (simp add: silent_def)
  then have "quiet S T c t p" by (simp add: p(1))
  from silent_prog_step [OF assms(2) this t p(2) assms(3)] t show ?thesis by blast
qed

text \<open>What the step of a thread does to the others: it may grant them a lock, wake or start them.\<close>

lemma stat_signal: "stat (signal c l w) u = stat w u \<or> stat (signal c l w) u = woken (stat w u)"
  by (auto simp: signal_def split: list.splits)

lemma stat_release: "stat (release t l w) u = stat w u \<or> stat (release t l w) u = granted (stat w u)"
  by (auto simp: release_def split: list.splits)

lemma others_change:
  assumes "prog_step body t n p w = Some w'" "u \<noteq> t"
  shows "stat w' u = stat w u \<or> stat w' u = granted (stat w u) \<or> stat w' u = woken (stat w u) \<or> (\<exists>b. stat w' u = Ready (Goto b))"
proof (cases p)
  case (Wait c l q)
  let ?v = "set_stat t (OnCV c l q) (w\<lparr>waitingLock := (waitingLock w)(c \<mapsto> l), cvq := (cvq w)(c := cvq w c @ [t])\<rparr>)"
  have "stat ?v u = stat w u" using assms(2) by (simp add: set_stat_def)
  with Wait assms stat_release [of t l ?v u] show ?thesis by (auto simp: wait_def set_stat_def split: if_splits)
next
  case (Release l q)
  then show ?thesis using assms stat_release [of t l w u] by (auto simp: set_stat_def)
next
  case (Signal c l q)
  then show ?thesis using assms stat_signal [of c l w u] by (auto simp: set_stat_def)
next
  case (Broadcasting c l q)
  then show ?thesis using assms stat_signal [of c l w u] by (auto simp: set_stat_def broadcast_loop_def split: if_splits)
qed (use assms in \<open>auto simp: set_stat_def acquire_def broadcast_def split: if_splits status.splits\<close>)

definition muted :: "'t set \<Rightarrow> 't set \<Rightarrow> 't set \<Rightarrow> 'c \<Rightarrow> ('s, 't, 'l, 'c, 'b) world \<Rightarrow> bool" where
  "muted G S T c w \<longleftrightarrow> (\<forall>t \<in> G. quiet_stat S T c t (stat w t))"

lemma muted_step:
  assumes "world_step body w w'" "muted G S T c w" "G \<subseteq> T" "\<And>t b. t \<in> G \<Longrightarrow> quiet S T c t (body t b)"
  shows "muted G S T c w'"
  unfolding muted_def
proof
  fix u
  assume u: "u \<in> G"
  from assms(1) obtain t n p where p: "stat w t = Ready p" "prog_step body t n p w = Some w'"
    by (auto simp: thread_step_def split: status.splits elim!: world_step.cases)
  have q: "quiet_stat S T c u (stat w u)" using assms(2) u by (simp add: muted_def)
  show "quiet_stat S T c u (stat w' u)"
  proof (cases "u = t")
    case False
    from others_change [OF p(2) False] show ?thesis using q quiet_granted u assms(3) by auto
  next
    case True
    with q p(1) have "quiet S T c t p" by simp
    then show ?thesis using p True assms(4) [OF u]
      by (cases p) (auto simp: set_stat_def acquire_def wait_def release_def broadcast_def broadcast_loop_def
          split: if_splits list.splits status.splits)
  qed
qed

text \<open>Nobody is left to signal \<open>c\<close>, so a thread that waits on it waits for ever.\<close>

lemma signal_other_cv:
  assumes "stat w t = OnCV c l p" "\<And>u e. u \<in> set (cvq w e) \<Longrightarrow> \<exists>l p. stat w u = OnCV e l p" "d \<noteq> c"
  shows "stat (signal d m w) t = OnCV c l p"
proof (cases "cvq w d")
  case (Cons u us)
  then have "\<exists>l p. stat w u = OnCV d l p" using assms(2) [of u d] by simp
  then have "u \<noteq> t" using assms(1,3) by auto
  then show ?thesis using assms(1) Cons by (simp add: signal_def)
qed (simp add: signal_def assms(1))

context lock_discipline
begin

lemma waits_on:
  assumes "ok w" "silent S T c w" "stat w t = OnCV c l p" "world_step body w w'"
  shows "stat w' t = OnCV c l p"
proof -
  from assms(4) obtain u n q where q: "stat w u = Ready q" "prog_step body u n q w = Some w'"
    by (auto simp: thread_step_def split: status.splits elim!: world_step.cases)
  then have u: "u \<notin> S" "u \<noteq> t" using assms(2,3) by (auto simp: silent_def)
  then have "quiet_stat S T c u (stat w u)" using assms(2) by (simp add: silent_def)
  then have qq: "quiet S T c u q" by (simp add: q(1))
  have qs: "queues_ok w" using assms(1) by (simp add: ok_def)
  then have cq: "\<And>v e. v \<in> set (cvq w e) \<Longrightarrow> \<exists>l p. stat w v = OnCV e l p" by (auto simp: queues_ok_def)
  have lq: "lockq w m = v # vs \<Longrightarrow> v \<noteq> t" for m v vs using qs assms(3) unfolding queues_ok_def by (metis list.set_intros(1) status.distinct(11))
  show ?thesis
  proof (cases q)
    case (Signal d m r)
    with qq have "d \<noteq> c" by simp
    from signal_other_cv [OF assms(3) cq this, where m = m] show ?thesis using Signal q u by auto
  next
    case (Broadcasting d m r)
    with qq have "d \<noteq> c" by simp
    from signal_other_cv [OF assms(3) cq this, where m = m] show ?thesis using Broadcasting q u assms(3)
      by (auto simp: broadcast_loop_def split: if_splits)
  next
    case (Wait d m r)
    then show ?thesis using q u lq assms(3) by (auto simp: wait_def release_def split: if_splits list.splits)
  next
    case (Release m r)
    then show ?thesis using q u lq assms(3) by (auto simp: release_def split: if_splits list.splits)
  qed (use q u assms(3) in \<open>auto simp: acquire_def broadcast_def split: if_splits status.splits\<close>)
qed

lemma waits_for_ever:
  assumes "(world_step body)\<^sup>*\<^sup>* w w'" "ok w" "silent S T c w" "stat w t = OnCV c l p" "\<And>u b. u \<in> T \<Longrightarrow> u \<notin> S \<Longrightarrow> quiet S T c u (body u b)"
  shows "stat w' t = OnCV c l p"
proof -
  from assms(1) have "ok w' \<and> silent S T c w' \<and> stat w' t = OnCV c l p"
    by (induction rule: rtranclp_induct)
      (use assms(2-5) in \<open>auto intro: ok_step waits_on silent_step [of body _ _ S T c]\<close>)
  then show ?thesis by blast
qed

end

end
