(* ===== verification/Passport_Office.thy ===== *)
theory Passport_Office
  imports Monitor_Threads
begin

text \<open>
  The passport office of \<^verbatim>\<open>threads/threadtest.cc\<close>: customers, senators, four kinds of clerks and a manager, as threads that
  share the office under locks and condition variables. The four \<^verbatim>\<open>goTo...\<close> routines and the four
  clerks' \<^verbatim>\<open>Run\<close> repeat the same text with another clerk; here they share the definitions of that text. Output is left out.

  One run is one choice from the menu of \<^verbatim>\<open>Part2\<close>: the main thread forks all others and waits for the
  manager.
\<close>

section \<open>Data\<close>

datatype ClerkState = CLERK_FREE | CLERK_BUSY | CLERK_BREAK

datatype kind = App | Pic | Pass | Cash

record Clerk =
  state :: ClerkState
  lineCount :: int
  bribeLineCount :: int
  senatorInLine :: bool
  toFile :: int
  c_money :: int
  picLiked :: bool

definition new_Clerk :: Clerk where
  "new_Clerk = \<lparr>state = CLERK_FREE, lineCount = 0, bribeLineCount = 0, senatorInLine = False, toFile = -1, c_money = 0, picLiked = False\<rparr>"

record CustomerData =
  arrived :: bool
  outside :: bool
  social :: bool
  picture :: bool
  passport :: bool
  paid :: bool

definition new_CustomerData :: CustomerData where
  "new_CustomerData = \<lparr>arrived = False, outside = False, social = False, picture = False, passport = False, paid = False\<rparr>"

text \<open>
  The clerks of a kind are one of the arrays \<^verbatim>\<open>appClerk\<close>, \<^verbatim>\<open>picClerk\<close>, \<^verbatim>\<open>passClerk\<close>, \<^verbatim>\<open>cashier\<close>; \<open>purse\<close> is the money of the
  customers and \<open>senatorPurse\<close> that of the senators. \<^verbatim>\<open>numCustomers\<close> and the other sizes are the lengths of
  the arrays.
\<close>

record Office =
  choice :: int
  numPassports :: int
  totalSpent :: int
  clerks :: "kind \<Rightarrow> Clerk list"
  senatorFlag :: bool
  customerData :: "CustomerData list"
  senatorData :: "CustomerData list"
  purse :: "int list"
  senatorPurse :: "int list"

datatype lockid = SystemLock | clerkLineLock | moneyLock | senatorLock | outsideLock | passPortLock | clerkLock kind nat

datatype cvid = SystemCondition | senatorCV | customersCV
  | clerkLineCV kind nat | clerkBribeLineCV kind nat | senatorLineCV kind nat | clerkCV kind nat

datatype actor = A_Main | A_Manager | A_Customer nat | A_Senator nat | A_Clerk kind nat

type_synonym totals = "int \<times> int \<times> int \<times> int"

text \<open>
  Labels: where a thread starts; choosing a line of a kind, with the clerks still to be visited after it; the loop at the
  counter of picture clerk \<open>m\<close>; the main loop of a clerk; the loop of a picture clerk (with a senator
  or not); the rounds of the manager.
\<close>

datatype label = Start | Line kind "kind list" | PicLoop nat "kind list" | ClerkLoop | ClerkPicLoop bool | Round nat totals

type_synonym office_prog = "(Office, actor, lockid, cvid, label) prog"

abbreviation numCustomers :: "Office \<Rightarrow> int" where "numCustomers s \<equiv> int (length (customerData s))"

definition clerk :: "Office \<Rightarrow> kind \<Rightarrow> nat \<Rightarrow> Clerk" where
  "clerk s k i = clerks s k ! i"

definition upd_clerk :: "kind \<Rightarrow> nat \<Rightarrow> (Clerk \<Rightarrow> Clerk) \<Rightarrow> Office \<Rightarrow> Office" where
  "upd_clerk k i f s = s\<lparr>clerks := (clerks s)(k := (clerks s k)[i := f (clerks s k ! i)])\<rparr>"

definition upd_customer :: "nat \<Rightarrow> (CustomerData \<Rightarrow> CustomerData) \<Rightarrow> Office \<Rightarrow> Office" where
  "upd_customer i f s = s\<lparr>customerData := (customerData s)[i := f (customerData s ! i)]\<rparr>"

definition upd_senator :: "nat \<Rightarrow> (CustomerData \<Rightarrow> CustomerData) \<Rightarrow> Office \<Rightarrow> Office" where
  "upd_senator i f s = s\<lparr>senatorData := (senatorData s)[i := f (senatorData s ! i)]\<rparr>"

definition setState :: "kind \<Rightarrow> nat \<Rightarrow> ClerkState \<Rightarrow> Office \<Rightarrow> Office" where
  "setState k i x = upd_clerk k i (\<lambda>c. c\<lparr>state := x\<rparr>)"

definition setToFile :: "kind \<Rightarrow> nat \<Rightarrow> int \<Rightarrow> Office \<Rightarrow> Office" where
  "setToFile k i n = upd_clerk k i (\<lambda>c. c\<lparr>toFile := n\<rparr>)"

definition addMoney :: "kind \<Rightarrow> nat \<Rightarrow> int \<Rightarrow> Office \<Rightarrow> Office" where
  "addMoney k i m = upd_clerk k i (\<lambda>c. c\<lparr>c_money := c_money c + m\<rparr>)"

definition addLine :: "kind \<Rightarrow> nat \<Rightarrow> int \<Rightarrow> Office \<Rightarrow> Office" where
  "addLine k i d = upd_clerk k i (\<lambda>c. c\<lparr>lineCount := lineCount c + d\<rparr>)"

definition addBribeLine :: "kind \<Rightarrow> nat \<Rightarrow> int \<Rightarrow> Office \<Rightarrow> Office" where
  "addBribeLine k i d = upd_clerk k i (\<lambda>c. c\<lparr>bribeLineCount := bribeLineCount c + d\<rparr>)"

definition setSenatorInLine :: "kind \<Rightarrow> nat \<Rightarrow> bool \<Rightarrow> Office \<Rightarrow> Office" where
  "setSenatorInLine k i b = upd_clerk k i (\<lambda>c. c\<lparr>senatorInLine := b\<rparr>)"

definition setPicLiked :: "nat \<Rightarrow> bool \<Rightarrow> Office \<Rightarrow> Office" where
  "setPicLiked i b = upd_clerk Pic i (\<lambda>c. c\<lparr>picLiked := b\<rparr>)"

text \<open>\<open>pay i m\<close>: customer \<open>i\<close> spends \<open>m\<close>.\<close>

definition pay :: "nat \<Rightarrow> int \<Rightarrow> Office \<Rightarrow> Office" where
  "pay i m s = s\<lparr>purse := (purse s)[i := purse s ! i - m], totalSpent := totalSpent s + m\<rparr>"

definition senator_pay :: "nat \<Rightarrow> int \<Rightarrow> Office \<Rightarrow> Office" where
  "senator_pay i m s = s\<lparr>senatorPurse := (senatorPurse s)[i := senatorPurse s ! i - m], totalSpent := totalSpent s + m\<rparr>"

definition yields :: "nat \<Rightarrow> office_prog \<Rightarrow> office_prog" where
  "yields n p = (Yield ^^ n) p"

section \<open>Choosing a line\<close>

text \<open>One turn of the loop over the clerks: \<^verbatim>\<open>myLine\<close>, \<^verbatim>\<open>lineSize\<close> and \<^verbatim>\<open>hasBribed\<close> after clerk \<open>i\<close>.\<close>

definition line_step :: "int \<Rightarrow> nat \<Rightarrow> Clerk \<Rightarrow> int \<times> int \<times> bool \<Rightarrow> int \<times> int \<times> bool" where
  "line_step money i c acc =
     (let (myLine, lineSize, hasBribed) = acc;
          (myLine1, lineSize1, hasBribed1) =
            (if state c = CLERK_FREE \<and> lineCount c < lineSize then (int i, lineCount c, False)
             else if state c = CLERK_BUSY \<and> lineCount c + 1 < lineSize then (int i, lineCount c + 1, False)
             else if lineCount c + 2 < lineSize then (int i, lineCount c + 2, False)
             else (myLine, lineSize, hasBribed))
      in if state c \<noteq> CLERK_BREAK \<and> money \<ge> 500 \<and> bribeLineCount c < lineSize1 then (int i, bribeLineCount c, True)
         else (myLine1, lineSize1, hasBribed1))"

fun line_loop :: "int \<Rightarrow> nat \<Rightarrow> Clerk list \<Rightarrow> int \<times> int \<times> bool \<Rightarrow> int \<times> int \<times> bool" where
  "line_loop money i [] acc = acc"
| "line_loop money i (c # cs) acc = line_loop money (Suc i) cs (line_step money i c acc)"

fun shortest_loop :: "nat \<Rightarrow> Clerk list \<Rightarrow> int \<times> int \<Rightarrow> int \<times> int" where
  "shortest_loop i [] acc = acc"
| "shortest_loop i (c # cs) (myLine, lineSize) =
     shortest_loop (Suc i) cs (if lineCount c < lineSize then (int i, lineCount c) else (myLine, lineSize))"

definition choose_line :: "int \<Rightarrow> int \<Rightarrow> Clerk list \<Rightarrow> int \<times> bool" where
  "choose_line money n cs =
     (let (myLine, lineSize, hasBribed) = line_loop money 0 cs (-1, n + 1, False)
      in if myLine = -1 then (fst (shortest_loop 0 cs (myLine, lineSize)), hasBribed) else (myLine, hasBribed))"

section \<open>Customers\<close>

text \<open>Going outside until the senators have left.\<close>

definition go_outside :: "nat \<Rightarrow> office_prog \<Rightarrow> office_prog" where
  "go_outside i p =
     Acquire outsideLock (Act (upd_customer i (\<lambda>d. d\<lparr>outside := True\<rparr>)) (\<lambda>_.
     Wait senatorCV outsideLock (Release outsideLock p)))"

definition checkSenator :: "nat \<Rightarrow> office_prog \<Rightarrow> office_prog" where
  "checkSenator i p = Act id (\<lambda>s. if senatorFlag s then go_outside i p else p)"

text \<open>What follows a visit: the clerks that are left, each after a look for senators.\<close>

fun after_clerk :: "nat \<Rightarrow> kind list \<Rightarrow> office_prog" where
  "after_clerk i [] = Return"
| "after_clerk i (k # ks) = checkSenator i (Goto (Line k ks))"

text \<open>Called up while a senator is in the building, the customer leaves and chooses a line again.\<close>

definition called_up :: "nat \<Rightarrow> kind \<Rightarrow> kind list \<Rightarrow> office_prog \<Rightarrow> office_prog" where
  "called_up i k ks p =
     Act id (\<lambda>s. if senatorFlag s then Release clerkLineLock (go_outside i (Goto (Line k ks))) else p)"

text \<open>
  One turn of \<^verbatim>\<open>while (chooseLine)\<close>; \<open>at m\<close> is what follows when clerk \<open>m\<close> has called the customer up. The index -1 is
  an access outside the array. In test 1 the routine for application clerks returns from the line.
\<close>

definition get_in_line :: "nat \<Rightarrow> kind \<Rightarrow> kind list \<Rightarrow> (nat \<Rightarrow> office_prog) \<Rightarrow> office_prog" where
  "get_in_line i k ks at =
     Acquire clerkLineLock (Act
       (\<lambda>s. if snd (choose_line (purse s ! i) (numCustomers s) (clerks s k)) then pay i 500 s else s)
       (\<lambda>s. let (myLine, hasBribed) = choose_line (purse s ! i) (numCustomers s) (clerks s k); m = nat myLine in
          if myLine < 0 then Fail
          else if hasBribed then
            Acquire moneyLock (Act (addMoney k m 500) (\<lambda>_. Release moneyLock (
            Act (addBribeLine k m 1) (\<lambda>_. Wait (clerkBribeLineCV k m) clerkLineLock (
            Act (addBribeLine k m (-1)) (\<lambda>_. called_up i k ks (at m)))))))
          else Act (addLine k m 1) (\<lambda>s.
            if k = App \<and> choice s = 1
            then Act (upd_customer i (\<lambda>d. d\<lparr>paid := True, passport := True, picture := True, social := True\<rparr>)) (\<lambda>_. after_clerk i ks)
            else Wait (clerkLineCV k m) clerkLineLock (
                 Act (addLine k m (-1)) (\<lambda>_. called_up i k ks (at m))))))"

text \<open>Going up to the counter: the clerk is busy, its lock is taken before the line lock is given back.\<close>

definition step_up :: "int \<Rightarrow> kind \<Rightarrow> nat \<Rightarrow> office_prog \<Rightarrow> office_prog" where
  "step_up ssn k m p =
     Act (setState k m CLERK_BUSY) (\<lambda>_. Acquire (clerkLock k m) (Release clerkLineLock (
     Act (setToFile k m ssn) (\<lambda>_. p))))"

definition leave_counter :: "kind \<Rightarrow> nat \<Rightarrow> office_prog \<Rightarrow> office_prog" where
  "leave_counter k m p =
     Wait (clerkCV k m) (clerkLock k m) (Act (setState k m CLERK_FREE) (\<lambda>_.
     Signal (clerkCV k m) (clerkLock k m) (Release (clerkLock k m) p)))"

definition goToAppClerk :: "nat \<Rightarrow> kind list \<Rightarrow> office_prog" where
  "goToAppClerk i ks = get_in_line i App ks (\<lambda>m. step_up (int i) App m (
     Signal (clerkCV App m) (clerkLock App m) (leave_counter App m (after_clerk i ks))))"

definition goToPicClerk :: "nat \<Rightarrow> kind list \<Rightarrow> office_prog" where
  "goToPicClerk i ks = get_in_line i Pic ks (\<lambda>m. step_up (int i) Pic m (Goto (PicLoop m ks)))"

text \<open>One turn of \<^verbatim>\<open>while (!picLiked)\<close> at the counter; \<open>done\<close> is what follows the loop.\<close>

definition picture_turn :: "nat \<Rightarrow> kind list \<Rightarrow> office_prog \<Rightarrow> office_prog" where
  "picture_turn m ks done =
     Signal (clerkCV Pic m) (clerkLock Pic m) (Wait (clerkCV Pic m) (clerkLock Pic m) (Rand (\<lambda>random.
     let leave = \<lambda>next. Signal (clerkCV Pic m) (clerkLock Pic m) (Wait (clerkCV Pic m) (clerkLock Pic m) next) in
     if random mod 10 = 0 then leave (Goto (PicLoop m ks))
     else Act (setPicLiked m True) (\<lambda>_. leave (Release (clerkLock Pic m) done)))))"

definition goToPassClerk :: "nat \<Rightarrow> kind list \<Rightarrow> office_prog" where
  "goToPassClerk i ks = get_in_line i Pass ks (\<lambda>m. step_up (int i) Pass m (
     Signal (clerkCV Pass m) (clerkLock Pass m) (leave_counter Pass m (after_clerk i ks))))"

definition goToCashier :: "nat \<Rightarrow> kind list \<Rightarrow> office_prog" where
  "goToCashier i ks = get_in_line i Cash ks (\<lambda>m. step_up (int i) Cash m (
     Signal (clerkCV Cash m) (clerkLock Cash m) (Act (pay i 100) (\<lambda>_. leave_counter Cash m (after_clerk i ks)))))"

definition Customer_Run :: "nat \<Rightarrow> office_prog" where
  "Customer_Run i =
     checkSenator i (Act (upd_customer i (\<lambda>d. d\<lparr>arrived := True\<rparr>)) (\<lambda>s. Rand (\<lambda>random.
       if choice s = 1 then Goto (Line App [])
       else if random mod 2 = 0 then after_clerk i [App, Pic, Pass, Cash]
       else after_clerk i [Pic, App, Pass, Cash])))"

fun customer_body :: "nat \<Rightarrow> label \<Rightarrow> office_prog" where
  "customer_body i Start = Customer_Run i"
| "customer_body i (Line App ks) = goToAppClerk i ks"
| "customer_body i (Line Pic ks) = goToPicClerk i ks"
| "customer_body i (Line Pass ks) = goToPassClerk i ks"
| "customer_body i (Line Cash ks) = goToCashier i ks"
| "customer_body i (PicLoop m ks) = picture_turn m ks (after_clerk i ks)"
| "customer_body i _ = Return"

section \<open>Senators\<close>

text \<open>A senator gets in the line of the first clerk; \<^verbatim>\<open>senatorLock\<close> is held all the time.\<close>

definition senator_line :: "nat \<Rightarrow> kind \<Rightarrow> office_prog \<Rightarrow> office_prog" where
  "senator_line i k p =
     Acquire clerkLineLock (Act (setSenatorInLine k 0 True) (\<lambda>_.
     Wait (senatorLineCV k 0) clerkLineLock (
     Act (setSenatorInLine k 0 False) (\<lambda>_. step_up (int i) k 0 p))))"

text \<open>The end of \<^verbatim>\<open>Senator::Run\<close>: the customers may come back in.\<close>

definition senator_leaves :: office_prog where
  "senator_leaves =
     Acquire outsideLock (Broadcast senatorCV outsideLock (Release outsideLock (
     Act (\<lambda>s. s\<lparr>senatorFlag := False\<rparr>) (\<lambda>_. Release senatorLock Return))))"

fun after_senator :: "kind list \<Rightarrow> office_prog" where
  "after_senator [] = senator_leaves"
| "after_senator (k # ks) = Goto (Line k ks)"

definition senator_goToAppClerk :: "nat \<Rightarrow> kind list \<Rightarrow> office_prog" where
  "senator_goToAppClerk i ks = senator_line i App (
     Signal (clerkCV App 0) (clerkLock App 0) (leave_counter App 0 (after_senator ks)))"

definition senator_goToPicClerk :: "nat \<Rightarrow> kind list \<Rightarrow> office_prog" where
  "senator_goToPicClerk i ks = senator_line i Pic (Goto (PicLoop 0 ks))"

definition senator_goToPassClerk :: "nat \<Rightarrow> kind list \<Rightarrow> office_prog" where
  "senator_goToPassClerk i ks = senator_line i Pass (
     Signal (clerkCV Pass 0) (clerkLock Pass 0) (leave_counter Pass 0 (after_senator ks)))"

definition senator_goToCashier :: "nat \<Rightarrow> kind list \<Rightarrow> office_prog" where
  "senator_goToCashier i ks = senator_line i Cash (
     Signal (clerkCV Cash 0) (clerkLock Cash 0) (Act (senator_pay i 100) (\<lambda>_. leave_counter Cash 0 (after_senator ks))))"

definition Senator_Run :: "nat \<Rightarrow> office_prog" where
  "Senator_Run i =
     Acquire senatorLock (Act (\<lambda>s. s\<lparr>senatorFlag := True\<rparr>) (\<lambda>_.
     Acquire outsideLock (Wait customersCV outsideLock (
     Act (upd_senator i (\<lambda>d. d\<lparr>arrived := True\<rparr>)) (\<lambda>_. Release outsideLock (Rand (\<lambda>random.
       if random mod 2 = 0 then after_senator [App, Pic, Pass, Cash] else after_senator [Pic, App, Pass, Cash])))))))"

fun senator_body :: "nat \<Rightarrow> label \<Rightarrow> office_prog" where
  "senator_body i Start = Senator_Run i"
| "senator_body i (Line App ks) = senator_goToAppClerk i ks"
| "senator_body i (Line Pic ks) = senator_goToPicClerk i ks"
| "senator_body i (Line Pass ks) = senator_goToPassClerk i ks"
| "senator_body i (Line Cash ks) = senator_goToCashier i ks"
| "senator_body i (PicLoop m ks) = picture_turn m ks (after_senator ks)"
| "senator_body i _ = Return"

section \<open>Clerks\<close>

text \<open>
  Recording something for the person at the counter, a senator or a customer, in the array that \<^verbatim>\<open>toFile\<close> indexes.
\<close>

definition record_for :: "bool \<Rightarrow> kind \<Rightarrow> nat \<Rightarrow> (CustomerData \<Rightarrow> CustomerData) \<Rightarrow> office_prog \<Rightarrow> office_prog" where
  "record_for sen k i f p =
     Act (\<lambda>s. if sen then upd_senator (nat (toFile (clerk s k i))) f s else upd_customer (nat (toFile (clerk s k i))) f s)
       (\<lambda>s. let n = toFile (clerk s k i) in
          if 0 \<le> n \<and> n < int (length (if sen then senatorData s else customerData s)) then p else Fail)"

definition end_service :: "kind \<Rightarrow> nat \<Rightarrow> office_prog" where
  "end_service k i = Release (clerkLock k i) (Act (setState k i CLERK_FREE) (\<lambda>_. Goto ClerkLoop))"

definition ApplicationClerk_serve :: "bool \<Rightarrow> nat \<Rightarrow> office_prog" where
  "ApplicationClerk_serve sen i =
     Wait (clerkCV App i) (clerkLock App i) (yields 50 (
     record_for sen App i (\<lambda>d. d\<lparr>social := True\<rparr>) (
     Signal (clerkCV App i) (clerkLock App i) (
     Wait (clerkCV App i) (clerkLock App i) (end_service App i)))))"

text \<open>The picture clerk: a turn of its loop, which ends when the customer liked the picture.\<close>

definition PictureClerk_turn :: "bool \<Rightarrow> nat \<Rightarrow> office_prog" where
  "PictureClerk_turn sen i =
     Wait (clerkCV Pic i) (clerkLock Pic i) (yields 20 (
     Signal (clerkCV Pic i) (clerkLock Pic i) (
     Wait (clerkCV Pic i) (clerkLock Pic i) (
     Signal (clerkCV Pic i) (clerkLock Pic i) (
     Act id (\<lambda>s. if picLiked (clerk s Pic i)
                 then record_for sen Pic i (\<lambda>d. d\<lparr>picture := True\<rparr>) (end_service Pic i)
                 else Goto (ClerkPicLoop sen)))))))"

definition PictureClerk_serve :: "bool \<Rightarrow> nat \<Rightarrow> office_prog" where
  "PictureClerk_serve sen i = Act (setPicLiked i False) (\<lambda>_. Goto (ClerkPicLoop sen))"

definition PassportClerk_serve :: "bool \<Rightarrow> nat \<Rightarrow> office_prog" where
  "PassportClerk_serve sen i =
     Wait (clerkCV Pass i) (clerkLock Pass i) (yields 50 (
     record_for sen Pass i (\<lambda>d. d\<lparr>passport := True\<rparr>) (
     Signal (clerkCV Pass i) (clerkLock Pass i) (
     Wait (clerkCV Pass i) (clerkLock Pass i) (end_service Pass i)))))"

definition take_payment :: "nat \<Rightarrow> office_prog \<Rightarrow> office_prog" where
  "take_payment i p = Acquire moneyLock (Act (addMoney Cash i 100) (\<lambda>_. Release moneyLock p))"

text \<open>The cashier counts the passports of test 3 after it has told the customer.\<close>

definition hand_over :: "bool \<Rightarrow> nat \<Rightarrow> office_prog" where
  "hand_over sen i =
     record_for sen Cash i (\<lambda>d. d\<lparr>paid := True\<rparr>) (
     Signal (clerkCV Cash i) (clerkLock Cash i) (
     Act id (\<lambda>s.
       let leave = Wait (clerkCV Cash i) (clerkLock Cash i) (end_service Cash i) in
       if choice s = 3
       then Acquire passPortLock (Act (\<lambda>s. s\<lparr>numPassports := numPassports s + 1\<rparr>) (\<lambda>_. Release passPortLock leave))
       else leave)))"

definition Cashier_serve :: "bool \<Rightarrow> bool \<Rightarrow> nat \<Rightarrow> office_prog" where
  "Cashier_serve sen bribe i =
     Wait (clerkCV Cash i) (clerkLock Cash i) (
       if bribe then take_payment i (yields 10 (hand_over sen i))
       else yields 10 (take_payment i (hand_over sen i)))"

fun serve :: "kind \<Rightarrow> bool \<Rightarrow> bool \<Rightarrow> nat \<Rightarrow> office_prog" where
  "serve App sen bribe i = ApplicationClerk_serve sen i"
| "serve Pic sen bribe i = PictureClerk_serve sen i"
| "serve Pass sen bribe i = PassportClerk_serve sen i"
| "serve Cash sen bribe i = Cashier_serve sen bribe i"

definition go_on_break :: "kind \<Rightarrow> nat \<Rightarrow> office_prog" where
  "go_on_break k i =
     Act (setState k i CLERK_BREAK) (\<lambda>_. Release clerkLineLock (Acquire (clerkLock k i) (
     Wait (clerkCV k i) (clerkLock k i) (
     Act (setState k i CLERK_FREE) (\<lambda>_. Release (clerkLock k i) (Goto ClerkLoop))))))"

text \<open>Calling up somebody who waits on \<open>c\<close>.\<close>

definition call_up :: "cvid \<Rightarrow> kind \<Rightarrow> bool \<Rightarrow> bool \<Rightarrow> nat \<Rightarrow> office_prog" where
  "call_up c k sen bribe i =
     Signal c clerkLineLock (Act (setState k i CLERK_BUSY) (\<lambda>_.
     Acquire (clerkLock k i) (Release clerkLineLock (serve k sen bribe i))))"

definition broadcastOnLineCV :: "kind \<Rightarrow> nat \<Rightarrow> office_prog \<Rightarrow> office_prog" where
  "broadcastOnLineCV k i p =
     Broadcast (clerkLineCV k i) clerkLineLock (
     Act id (\<lambda>s. if bribeLineCount (clerk s k i) > 0 then Broadcast (clerkBribeLineCV k i) clerkLineLock p else p))"

text \<open>One turn of \<^verbatim>\<open>while (true)\<close> of a clerk.\<close>

definition clerk_turn :: "kind \<Rightarrow> nat \<Rightarrow> office_prog" where
  "clerk_turn k i =
     Acquire clerkLineLock (Act id (\<lambda>s.
       if senatorFlag s then
         let rest = Act id (\<lambda>s. if senatorInLine (clerk s k i) then call_up (senatorLineCV k i) k True False i else go_on_break k i)
         in if lineCount (clerk s k i) > 0 then broadcastOnLineCV k i rest else rest
       else if bribeLineCount (clerk s k i) > 0 then call_up (clerkBribeLineCV k i) k False True i
       else if lineCount (clerk s k i) > 0 then call_up (clerkLineCV k i) k False False i
       else go_on_break k i))"

definition ApplicationClerk_Run :: "nat \<Rightarrow> office_prog" where
  "ApplicationClerk_Run i = Act id (\<lambda>s.
     if choice s = 1
     then Yield (Act (upd_clerk App i (\<lambda>c. c\<lparr>lineCount := (if i = 1 then 0 else 2)\<rparr>)) (\<lambda>_. Goto Start))
     else Goto ClerkLoop)"

definition PictureClerk_Run :: "nat \<Rightarrow> office_prog" where
  "PictureClerk_Run i = clerk_turn Pic i"

definition PassportClerk_Run :: "nat \<Rightarrow> office_prog" where
  "PassportClerk_Run i = clerk_turn Pass i"

definition Cashier_Run :: "nat \<Rightarrow> office_prog" where
  "Cashier_Run i = clerk_turn Cash i"

fun clerk_body :: "kind \<Rightarrow> nat \<Rightarrow> label \<Rightarrow> office_prog" where
  "clerk_body App i Start = ApplicationClerk_Run i"
| "clerk_body Pic i Start = PictureClerk_Run i"
| "clerk_body Pass i Start = PassportClerk_Run i"
| "clerk_body Cash i Start = Cashier_Run i"
| "clerk_body k i ClerkLoop = clerk_turn k i"
| "clerk_body Pic i (ClerkPicLoop sen) = PictureClerk_turn sen i"
| "clerk_body k i _ = Return"

section \<open>The manager\<close>

definition all_clerks :: "Office \<Rightarrow> (kind \<times> nat) list" where
  "all_clerks s = concat (map (\<lambda>k. map (Pair k) [0..<length (clerks s k)]) [App, Pic, Pass, Cash])"

definition wake_clerk :: "kind \<Rightarrow> nat \<Rightarrow> office_prog \<Rightarrow> office_prog" where
  "wake_clerk k i p = Acquire (clerkLock k i) (Signal (clerkCV k i) (clerkLock k i) (Release (clerkLock k i) p))"

text \<open>The loops over the clerks of \<^verbatim>\<open>ManagerCheckLines\<close>; \<open>gone\<close> is \<^verbatim>\<open>customersGone\<close>.\<close>

fun check_clerks :: "(kind \<times> nat) list \<Rightarrow> bool \<Rightarrow> (bool \<Rightarrow> office_prog) \<Rightarrow> office_prog" where
  "check_clerks [] gone p = p gone"
| "check_clerks ((k, i) # xs) gone p = Act id (\<lambda>s.
     let c = clerk s k i;
         next = Act id (\<lambda>s. if state (clerk s k i) = CLERK_BUSY then check_clerks xs False p else check_clerks xs gone p)
     in if state c = CLERK_BREAK \<and>
           (lineCount c > (if k = App then 2 else 3) \<or> senatorInLine c \<or> (lineCount c > 0 \<and> senatorFlag s))
        then wake_clerk k i next else next)"

definition ManagerCheckLines :: "office_prog \<Rightarrow> office_prog" where
  "ManagerCheckLines p = Act id (\<lambda>s. check_clerks (all_clerks s) True (\<lambda>gone. Act id (\<lambda>s.
     if gone \<and> (\<forall>d \<in> set (customerData s). \<not> (arrived d \<and> \<not> outside d)) \<and> senatorFlag s
     then Acquire outsideLock (Signal customersCV outsideLock (Release outsideLock p))
     else p)))"

definition money_of :: "Office \<Rightarrow> kind \<Rightarrow> int" where
  "money_of s k = sum_list (map c_money (clerks s k))"

definition ManagerCountMoney :: "totals \<Rightarrow> (totals \<Rightarrow> office_prog) \<Rightarrow> office_prog" where
  "ManagerCountMoney tot p = Acquire moneyLock (Act
     (\<lambda>s. s\<lparr>clerks := (\<lambda>k. map (\<lambda>c. c\<lparr>c_money := 0\<rparr>) (clerks s k))\<rparr>)
     (\<lambda>s. let (appMoney, picMoney, passMoney, cashMoney) = tot;
              appMoney1 = appMoney + money_of s App; picMoney1 = picMoney + money_of s Pic;
              passMoney1 = passMoney + money_of s Pass; cashMoney1 = cashMoney + money_of s Cash;
              total = appMoney1 + picMoney1 + passMoney1 + cashMoney1
          in if choice s = 6 \<and> total \<noteq> totalSpent s then Fail
             else Release moneyLock (p (appMoney1, picMoney1, passMoney1, cashMoney1))))"

text \<open>One loop over customers or senators: \<^verbatim>\<open>doneFlag\<close> and \<^verbatim>\<open>allHereFlag\<close> at the first that is not done.\<close>

fun all_done :: "CustomerData list \<Rightarrow> bool \<times> bool" where
  "all_done [] = (True, True)"
| "all_done (d # ds) =
     (if \<not> arrived d then (False, False)
      else if \<not> social d \<or> \<not> picture d \<or> \<not> passport d \<or> \<not> paid d then (False, True)
      else all_done ds)"

fun wake_lines :: "(kind \<times> nat) list \<Rightarrow> office_prog \<Rightarrow> office_prog" where
  "wake_lines [] p = p"
| "wake_lines ((k, i) # xs) p = Act id (\<lambda>s. if lineCount (clerk s k i) > 0 then wake_clerk k i (wake_lines xs p) else wake_lines xs p)"

definition ManagerCheckClose :: "(bool \<Rightarrow> office_prog) \<Rightarrow> office_prog" where
  "ManagerCheckClose p = Act
     (\<lambda>s. if fst (all_done (senatorData s)) \<and> fst (all_done (customerData s)) \<and> choice s = 3 then s\<lparr>numPassports := 0\<rparr> else s)
     (\<lambda>s. if fst (all_done (senatorData s)) \<and> fst (all_done (customerData s))
          then if choice s = 3 \<and> numPassports s \<noteq> numCustomers s then Fail else p True
          else if snd (all_done (senatorData s)) \<and> snd (all_done (customerData s)) \<and>
                  (\<forall>(k, i) \<in> set (all_clerks s). state (clerk s k i) = CLERK_BREAK)
          then wake_lines (all_clerks s) (p False)
          else p False)"

definition Manager_round :: "nat \<Rightarrow> totals \<Rightarrow> office_prog" where
  "Manager_round k tot =
     (if k < 60 then ManagerCheckLines (yields 70 (Goto (Round (Suc k) tot)))
      else ManagerCountMoney tot (\<lambda>tot1. ManagerCheckClose (\<lambda>closed.
        if closed then Acquire SystemLock (Signal SystemCondition SystemLock (Release SystemLock Return))
        else Goto (Round 0 tot1))))"

definition Manager_Run :: office_prog where
  "Manager_Run = Goto (Round 0 (0, 0, 0, 0))"

fun manager_body :: "label \<Rightarrow> office_prog" where
  "manager_body Start = Manager_Run"
| "manager_body (Round k tot) = Manager_round k tot"
| "manager_body _ = Return"

section \<open>The main thread\<close>

definition fork_all :: "actor list \<Rightarrow> office_prog \<Rightarrow> office_prog" where
  "fork_all ts p = foldr (\<lambda>t. Fork t Start) ts p"

text \<open>\<^verbatim>\<open>system_test\<close> after it has set up the data, and the end of the menu entry in \<^verbatim>\<open>Part2\<close>.\<close>

definition system_test_forks :: "office_prog \<Rightarrow> office_prog" where
  "system_test_forks p = Act id (\<lambda>s.
     Fork A_Manager Start (
     fork_all (map (\<lambda>(k, i). A_Clerk k i) (all_clerks s)) (
     foldr (\<lambda>i q. Fork (A_Customer i) Start (Rand (\<lambda>random. yields (random mod 30) q))) [0..<length (customerData s)] (
     foldr (\<lambda>i q. Fork (A_Senator i) Start (yields 60 q)) [0..<length (senatorData s)] p))))"

definition Part2_entry :: office_prog where
  "Part2_entry = Acquire SystemLock (system_test_forks (Wait SystemCondition SystemLock (Release SystemLock Return)))"

fun main_body :: "label \<Rightarrow> office_prog" where
  "main_body Start = Part2_entry"
| "main_body _ = Return"

fun office :: "actor \<Rightarrow> label \<Rightarrow> office_prog" where
  "office A_Main = main_body"
| "office A_Manager = manager_body"
| "office (A_Customer i) = customer_body i"
| "office (A_Senator i) = senator_body i"
| "office (A_Clerk k i) = clerk_body k i"

text \<open>The constructor of customers; \<open>random\<close> is what \<^verbatim>\<open>rand()\<close> returned.\<close>

definition new_Customer_money :: "int \<Rightarrow> nat \<Rightarrow> int" where
  "new_Customer_money ch random = (if ch = 1 then 0 else 100 + int (random mod 4) * 500)"

text \<open>The numbers of a test: customers, application, picture and passport clerks, cashiers, senators.\<close>

record Numbers =
  n_customers :: nat
  n_clerks :: "kind \<Rightarrow> nat"
  n_senators :: nat

definition system_test_data :: "int \<Rightarrow> Numbers \<Rightarrow> int \<Rightarrow> int \<Rightarrow> nat list \<Rightarrow> Office" where
  "system_test_data ch n passports spent randoms =
     \<lparr>choice = ch, numPassports = passports, totalSpent = spent,
      clerks = (\<lambda>k. replicate (n_clerks n k) new_Clerk), senatorFlag = False,
      customerData = replicate (n_customers n) new_CustomerData, senatorData = replicate (n_senators n) new_CustomerData,
      purse = map (new_Customer_money ch) (take (n_customers n) randoms), senatorPurse = replicate (n_senators n) 100\<rparr>"

text \<open>The state in which a test starts: all locks and conditions are new, only the main thread runs.\<close>

definition start_test :: "Office \<Rightarrow> (Office, actor, lockid, cvid, label) world" where
  "start_test s = \<lparr>dat = s, owner = Map.empty, lockq = (\<lambda>_. []), cvq = (\<lambda>_. []), waitingLock = Map.empty,
     stat = (\<lambda>_. Unborn)(A_Main := Ready (Goto Start))\<rparr>"

text \<open>The numbers of the tests of the menu.\<close>

definition clerk_numbers :: "nat \<Rightarrow> nat \<Rightarrow> nat \<Rightarrow> nat \<Rightarrow> kind \<Rightarrow> nat" where
  "clerk_numbers app pic pass cash k = (case k of App \<Rightarrow> app | Pic \<Rightarrow> pic | Pass \<Rightarrow> pass | Cash \<Rightarrow> cash)"

definition t1_shortest_line :: Numbers where
  "t1_shortest_line = \<lparr>n_customers = 2, n_clerks = clerk_numbers 2 1 1 1, n_senators = 0\<rparr>"

definition t2_manager_money :: Numbers where
  "t2_manager_money = \<lparr>n_customers = 5, n_clerks = clerk_numbers 2 2 2 2, n_senators = 0\<rparr>"

definition t3_total_passport :: Numbers where
  "t3_total_passport = \<lparr>n_customers = 5, n_clerks = clerk_numbers 2 2 2 2, n_senators = 0\<rparr>"

definition t4_clerk_break :: Numbers where
  "t4_clerk_break = \<lparr>n_customers = 1, n_clerks = clerk_numbers 3 3 3 3, n_senators = 0\<rparr>"

definition t5_manager_wakeup :: Numbers where
  "t5_manager_wakeup = \<lparr>n_customers = 4, n_clerks = clerk_numbers 1 1 1 1, n_senators = 0\<rparr>"

text \<open>Test 6 also sets \<^verbatim>\<open>totalSpent\<close> to 0.\<close>

definition t6_total_sales :: Numbers where
  "t6_total_sales = \<lparr>n_customers = 3, n_clerks = clerk_numbers 1 1 1 1, n_senators = 0\<rparr>"

definition t7_senators :: Numbers where
  "t7_senators = \<lparr>n_customers = 5, n_clerks = clerk_numbers 1 1 1 1, n_senators = 1\<rparr>"

text \<open>
  \<^verbatim>\<open>get_system_test_input\<close>: each number is asked for until it is in its range; \<open>None\<close> is an input that ends before.
\<close>

fun read_between :: "int \<Rightarrow> int \<Rightarrow> int list \<Rightarrow> (int \<times> int list) option" where
  "read_between lo hi [] = None"
| "read_between lo hi (x # xs) = (if x > hi \<or> x < lo then read_between lo hi xs else Some (x, xs))"

definition get_system_test_input :: "int list \<Rightarrow> (Numbers \<times> int list) option" where
  "get_system_test_input xs =
     Option.bind (read_between 1 50 xs) (\<lambda>(c, xs1). Option.bind (read_between 1 5 xs1) (\<lambda>(app, xs2).
     Option.bind (read_between 1 5 xs2) (\<lambda>(pic, xs3). Option.bind (read_between 1 5 xs3) (\<lambda>(pass, xs4).
     Option.bind (read_between 1 5 xs4) (\<lambda>(cash, xs5). Option.bind (read_between 0 10 xs5) (\<lambda>(sen, xs6).
     Some (\<lparr>n_customers = nat c, n_clerks = clerk_numbers (nat app) (nat pic) (nat pass) (nat cash), n_senators = nat sen\<rparr>, xs6)))))))"

text \<open>
  The numbers a choice of \<^verbatim>\<open>Part2\<close> runs with: entries 1 to 7 are fixed, 8 asks, and what is left of the menu
  (9 ends it, anything else is asked again) starts no test.
\<close>

definition Part2_numbers :: "int \<Rightarrow> int list \<Rightarrow> Numbers option" where
  "Part2_numbers ch xs =
     (if ch = 1 then Some t1_shortest_line else if ch = 2 then Some t2_manager_money
      else if ch = 3 then Some t3_total_passport else if ch = 4 then Some t4_clerk_break
      else if ch = 5 then Some t5_manager_wakeup else if ch = 6 then Some t6_total_sales
      else if ch = 7 then Some t7_senators else if ch = 8 then map_option fst (get_system_test_input xs) else None)"

text \<open>The states of a test: any choice but the first entry of the menu, or that one, with any purses.\<close>

inductive test_reach :: "int \<Rightarrow> (Office, actor, lockid, cvid, label) world \<Rightarrow> bool" where
  start: "Part2_numbers ch xs = Some n \<Longrightarrow> length randoms = n_customers n \<Longrightarrow> ch = 6 \<longrightarrow> spent = 0 \<Longrightarrow>
    test_reach ch (start_test (system_test_data ch n passports spent randoms))"
| step: "test_reach ch w \<Longrightarrow> world_step office w w' \<Longrightarrow> test_reach ch w'"

end
