(* ===== verification/Office_Props.thy ===== *)
theory Office_Props
  imports Passport_Office
begin

text \<open>
  What holds in every interleaving of the passport office, and what can go wrong in it: the lock discipline and
  the absence of circular waiting, the choice of a line, and three races.
\<close>

section \<open>The lock discipline\<close>

fun rank :: "lockid \<Rightarrow> nat" where
  "rank senatorLock = 0"
| "rank SystemLock = 1"
| "rank outsideLock = 1"
| "rank clerkLineLock = 2"
| "rank (clerkLock k i) = 3"
| "rank moneyLock = 4"
| "rank passPortLock = 5"

fun held :: "actor \<Rightarrow> label \<Rightarrow> lockid set" where
  "held (A_Customer i) (PicLoop m ks) = {clerkLock Pic m}"
| "held (A_Senator i) (Line k ks) = {senatorLock}"
| "held (A_Senator i) (PicLoop m ks) = {senatorLock, clerkLock Pic m}"
| "held (A_Clerk Pic i) (ClerkPicLoop sen) = {clerkLock Pic i}"
| "held t b = {}"

definition not_test1 :: "Office \<Rightarrow> bool" where
  "not_test1 s \<longleftrightarrow> choice s \<noteq> 1"

lemma choice_kept [simp]:
  "choice (upd_clerk k i f s) = choice s" "choice (upd_customer i g s) = choice s" "choice (upd_senator i g s) = choice s"
  "choice (pay i m s) = choice s" "choice (senator_pay i m s) = choice s"
  by (simp_all add: upd_clerk_def upd_customer_def upd_senator_def pay_def senator_pay_def)

lemmas upd_defs = setState_def setToFile_def addMoney_def addLine_def addBribeLine_def setSenatorInLine_def setPicLiked_def

abbreviation "wt \<equiv> typed rank {senatorLock} not_test1 held"

lemma wt_id: "wt t (Act id g) H \<longleftrightarrow> (\<forall>s. not_test1 s \<longrightarrow> wt t (g s) H)"
  by simp

lemma wt_yields [simp]: "wt t (yields n p) H = wt t p H"
  unfolding yields_def by (induction n) auto

lemma wt_go_outside: "wt t p {} \<Longrightarrow> wt t (go_outside i p) {}"
  by (auto simp: go_outside_def not_test1_def)

lemma wt_checkSenator: "wt t p {} \<Longrightarrow> wt t (checkSenator i p) {}"
  by (auto simp: checkSenator_def wt_go_outside)

lemma wt_after_clerk: "wt (A_Customer i) (after_clerk i ks) {}"
  by (cases ks) (auto intro: wt_checkSenator)

lemma wt_called_up: "wt (A_Customer i) p {clerkLineLock} \<Longrightarrow> wt (A_Customer i) (called_up i k ks p) {clerkLineLock}"
  by (auto simp: called_up_def intro: wt_go_outside)

lemma wt_get_in_line:
  assumes "\<And>m. wt (A_Customer i) (at m) {clerkLineLock}"
  shows "wt (A_Customer i) (get_in_line i k ks at) {}"
  using assms by (auto simp: get_in_line_def not_test1_def Let_def upd_defs insert_Diff_if split: prod.splits intro!: wt_called_up)

text \<open>At a counter, customers hold no other lock and senators \<^verbatim>\<open>senatorLock\<close>.\<close>

lemma wt_step_up: "wt t p (insert (clerkLock k m) H) \<Longrightarrow> H = {} \<or> H = {senatorLock} \<Longrightarrow> wt t (step_up n k m p) (insert clerkLineLock H)"
  by (elim disjE) (simp_all add: step_up_def not_test1_def upd_defs insert_Diff_if insert_commute)

lemma wt_leave_counter:
  "wt t p H \<Longrightarrow> H = {} \<or> H = {senatorLock} \<Longrightarrow> wt t (leave_counter k m p) (insert (clerkLock k m) H)"
  by (elim disjE) (simp_all add: leave_counter_def not_test1_def upd_defs insert_Diff_if insert_commute)

lemma wt_picture_turn:
  "wt t p H \<Longrightarrow> H = {} \<or> H = {senatorLock} \<Longrightarrow> held t (PicLoop m ks) = insert (clerkLock Pic m) H \<Longrightarrow>
   wt t (picture_turn m ks p) (insert (clerkLock Pic m) H)"
  by (elim disjE) (simp_all add: picture_turn_def Let_def not_test1_def upd_defs insert_Diff_if insert_commute)

lemma wt_customer: "wt (A_Customer i) (customer_body i b) (held (A_Customer i) b)"
proof (cases b)
  case Start
  then show ?thesis by (auto simp: Customer_Run_def not_test1_def intro!: wt_checkSenator wt_after_clerk)
next
  case (Line k ks)
  have "wt (A_Customer i) (step_up n k m p) {clerkLineLock}" if "wt (A_Customer i) p {clerkLock k m}" for n m p
    using wt_step_up [of "A_Customer i" p k m "{}"] that by simp
  moreover have "wt (A_Customer i) (leave_counter k m (after_clerk i ks)) {clerkLock k m}" for m
    using wt_leave_counter [OF wt_after_clerk] by simp
  ultimately show ?thesis using Line
    by (cases k) (auto simp: goToAppClerk_def goToPicClerk_def goToPassClerk_def goToCashier_def not_test1_def intro!: wt_get_in_line)
next
  case (PicLoop m ks)
  then show ?thesis using wt_picture_turn [OF wt_after_clerk] by simp
qed auto

lemma wt_after_senator: "wt (A_Senator i) (after_senator ks) {senatorLock}"
  by (cases ks) (simp_all add: senator_leaves_def not_test1_def insert_Diff_if)

lemma wt_senator_line: "wt (A_Senator i) p {clerkLock k 0, senatorLock} \<Longrightarrow> wt (A_Senator i) (senator_line n k p) {senatorLock}"
  using wt_step_up [of "A_Senator i" p k 0 "{senatorLock}"]
  by (simp add: senator_line_def not_test1_def upd_defs insert_Diff_if insert_commute)

lemma wt_senator: "wt (A_Senator i) (senator_body i b) (held (A_Senator i) b)"
proof (cases b)
  case Start
  then show ?thesis using wt_after_senator by (simp add: Senator_Run_def not_test1_def insert_Diff_if del: after_senator.simps)
next
  case (Line k ks)
  have "wt (A_Senator i) (leave_counter k 0 (after_senator ks)) {clerkLock k 0, senatorLock}"
    using wt_leave_counter [OF wt_after_senator] by simp
  then show ?thesis using Line
    by (cases k) (auto simp: senator_goToAppClerk_def senator_goToPicClerk_def senator_goToPassClerk_def senator_goToCashier_def
      not_test1_def insert_commute intro!: wt_senator_line)
next
  case (PicLoop m ks)
  then show ?thesis using wt_picture_turn [OF wt_after_senator] by (simp add: insert_commute)
qed auto

lemma wt_record_for: "wt t p H \<Longrightarrow> wt t (record_for sen k i f p) H"
  by (simp add: record_for_def not_test1_def Let_def)

lemma wt_end_service: "wt (A_Clerk k i) (end_service k i) {clerkLock k i}"
  by (cases k) (simp_all add: end_service_def not_test1_def upd_defs)

lemma wt_hand_over: "wt (A_Clerk Cash i) (hand_over sen i) {clerkLock Cash i}"
  using wt_end_service [of Cash i]
  by (auto simp: hand_over_def Let_def not_test1_def insert_Diff_if intro!: wt_record_for)

lemma wt_serve: "wt (A_Clerk k i) (serve k sen bribe i) {clerkLock k i}"
proof (cases k)
  case Cash
  then show ?thesis using wt_hand_over by (simp add: Cashier_serve_def take_payment_def not_test1_def upd_defs insert_Diff_if)
qed (use wt_end_service in \<open>auto simp: ApplicationClerk_serve_def PictureClerk_serve_def PassportClerk_serve_def not_test1_def upd_defs
       intro!: wt_record_for\<close>)

lemma wt_call_up: "wt (A_Clerk k i) (call_up c k sen bribe i) {clerkLineLock}"
  using wt_serve by (simp add: call_up_def not_test1_def upd_defs insert_Diff_if)

lemma wt_break: "wt (A_Clerk k i) (go_on_break k i) {clerkLineLock}"
  by (cases k) (simp_all add: go_on_break_def not_test1_def upd_defs)

lemma wt_clerk_turn: "wt (A_Clerk k i) (clerk_turn k i) {}"
  using wt_call_up wt_break by (simp add: clerk_turn_def broadcastOnLineCV_def Let_def)

lemma wt_picture_clerk: "wt (A_Clerk Pic i) (PictureClerk_turn sen i) {clerkLock Pic i}"
  using wt_end_service [of Pic] by (auto simp: PictureClerk_turn_def intro!: wt_record_for)

lemma wt_clerk: "wt (A_Clerk k i) (clerk_body k i b) (held (A_Clerk k i) b)"
  by (cases k; cases b)
    (simp_all add: wt_clerk_turn wt_picture_clerk ApplicationClerk_Run_def PictureClerk_Run_def PassportClerk_Run_def Cashier_Run_def not_test1_def)

lemma wt_wake_clerk: "wt t p {} \<Longrightarrow> wt t (wake_clerk k i p) {}"
  by (simp add: wake_clerk_def)

lemma wt_check_clerks: "(\<And>g. wt t (p g) {}) \<Longrightarrow> wt t (check_clerks xs gone p) {}"
  by (induction xs gone p rule: check_clerks.induct) (auto simp: Let_def intro: wt_wake_clerk)

lemma wt_wake_lines: "wt t p {} \<Longrightarrow> wt t (wake_lines xs p) {}"
  by (induction xs p rule: wake_lines.induct) (auto intro: wt_wake_clerk)

lemma wt_manager: "wt A_Manager (manager_body b) (held A_Manager b)"
proof (cases b)
  case (Round k tot)
  have "wt A_Manager (ManagerCheckLines p) {}" if "wt A_Manager p {}" for p
    using that by (auto simp: ManagerCheckLines_def intro!: wt_check_clerks)
  moreover have "wt A_Manager (ManagerCountMoney tot p) {}" if "\<And>x. wt A_Manager (p x) {}" for p
    using that by (auto simp: ManagerCountMoney_def Let_def not_test1_def split: prod.splits)
  moreover have "wt A_Manager (ManagerCheckClose p) {}" if "\<And>x. wt A_Manager (p x) {}" for p
    using that by (auto simp: ManagerCheckClose_def not_test1_def intro!: wt_wake_lines)
  ultimately show ?thesis using Round by (auto simp: Manager_round_def)
qed (auto simp: Manager_Run_def)

lemma held_Start: "held t Start = {}"
  by (cases t) auto

lemma wt_fork_all: "wt t p H \<Longrightarrow> wt t (fork_all ts p) H"
  unfolding fork_all_def by (induction ts) (auto simp: held_Start)

lemma wt_main: "wt A_Main (main_body b) (held A_Main b)"
proof (cases b)
  case Start
  have "wt t (foldr (\<lambda>i q. Fork (A_Customer i) Start (Rand (\<lambda>r. yields (r mod 30) q))) xs p) H" if "wt t p H" for t p H xs
    using that by (induction xs) auto
  moreover have "wt t (foldr (\<lambda>i q. Fork (A_Senator i) Start (yields 60 q)) xs p) H" if "wt t p H" for t p H xs
    using that by (induction xs) auto
  ultimately show ?thesis using Start by (auto simp: Part2_entry_def system_test_forks_def intro!: wt_fork_all)
qed auto

text \<open>Every thread of the office keeps the lock discipline.\<close>

interpretation office: lock_discipline office held rank "{senatorLock}" not_test1 5
proof
  show "wt t (office t b) (held t b)" for t b
    using wt_customer wt_senator wt_clerk wt_manager wt_main by (cases t) auto
  show "rank l \<le> 5" for l by (cases l) auto
qed

lemma test_ok: "test_reach ch w \<Longrightarrow> ch \<noteq> 1 \<Longrightarrow> office.ok w"
proof (induction rule: test_reach.induct)
  case (start ch xs n randoms spent passports)
  then show ?case unfolding office.ok_def office.queues_ok_def
    by (auto simp: start_test_def system_test_data_def not_test1_def holds_def)
next
  case (step ch w w')
  then show ?case by (auto intro: office.ok_step)
qed

text \<open>
  C5: in every interleaving of every test but the first, the threads keep the lock discipline: whoever releases a lock, waits on or
  signals a condition holds the lock of that call, nobody acquires a lock twice, and a thread that ends holds no
  lock.
\<close>

theorem office_lock_discipline:
  assumes "test_reach ch w" "ch \<noteq> 1" "stat w t = Ready p"
  shows "call_ok p (holds w t)"
  using office.calls_ok [OF test_ok [OF assms(1,2)] assms(3)] .

text \<open>
  C6: in every interleaving of every test but the first, threads never wait for locks in a circle: no chain of threads,
  each waiting for a lock that the next one holds, leads back to its beginning. And if a thread waits for a lock
  other than \<^verbatim>\<open>senatorLock\<close>, the chain that starts at it leads to a thread that is not waiting and has not ended: it can
  run, unless it has failed an assertion or an array bound. (For \<^verbatim>\<open>senatorLock\<close>, which a senator keeps for the whole visit, the chain may end at a senator who waits on a condition.)
\<close>

theorem office_no_lock_deadlock:
  assumes "test_reach ch w" "ch \<noteq> 1"
  shows "\<not> (waits_for w)\<^sup>+\<^sup>+ t t \<and>
    (\<forall>l p. stat w t = OnLock l p \<and> l \<noteq> senatorLock \<longrightarrow>
       (\<exists>u q. (waits_for w)\<^sup>+\<^sup>+ t u \<and> stat w u = Ready q \<and> q \<noteq> Return))"
proof (intro conjI allI impI)
  note ok = test_ok [OF assms]
  show "\<not> (waits_for w)\<^sup>+\<^sup>+ t t" by (rule office.no_circle [OF ok])
  fix l p
  assume l: "stat w t = OnLock l p \<and> l \<noteq> senatorLock"
  then have "\<forall>k \<in> {senatorLock}. rank k < rank l" by (cases l) auto
  from office.chain_runs [OF ok conjunct1 [OF l] this]
  show "\<exists>u q. (waits_for w)\<^sup>+\<^sup>+ t u \<and> stat w u = Ready q \<and> q \<noteq> Return" .
qed

section \<open>The choice of a line\<close>

text \<open>What a line costs in the eyes of a customer.\<close>

definition cost :: "Clerk \<Rightarrow> int" where
  "cost c = lineCount c + (case state c of CLERK_FREE \<Rightarrow> 0 | CLERK_BUSY \<Rightarrow> 1 | CLERK_BREAK \<Rightarrow> 2)"

definition can_bribe :: "int \<Rightarrow> Clerk \<Rightarrow> bool" where
  "can_bribe money c \<longleftrightarrow> 500 \<le> money \<and> state c \<noteq> CLERK_BREAK"

definition no_better :: "int \<Rightarrow> int \<Rightarrow> Clerk \<Rightarrow> bool" where
  "no_better money v c \<longleftrightarrow> v \<le> cost c \<and> (can_bribe money c \<longrightarrow> v \<le> bribeLineCount c)"

text \<open>The invariant of the loop over the clerks \<open>cs\<close>, of which \<open>pre\<close> are done.\<close>

definition line_inv :: "int \<Rightarrow> int \<Rightarrow> Clerk list \<Rightarrow> int \<times> int \<times> bool \<Rightarrow> bool" where
  "line_inv money n pre acc = (case acc of (m, v, b) \<Rightarrow>
     (\<forall>c \<in> set pre. no_better money v c) \<and>
     ((m = -1 \<and> v = n + 1 \<and> \<not> b) \<or>
      (0 \<le> m \<and> nat m < length pre \<and> v \<le> n \<and> (if b then can_bribe money (pre ! nat m) \<and> v = bribeLineCount (pre ! nat m) else v = cost (pre ! nat m)))))"

lemma line_step_eq:
  "line_step money i c (m, v, b) =
     (if can_bribe money c \<and> bribeLineCount c < min v (cost c) then (int i, bribeLineCount c, True)
      else if cost c < v then (int i, cost c, False) else (m, v, b))"
  by (cases "state c") (auto simp: line_step_def cost_def can_bribe_def Let_def min_def)

lemma line_inv_step: "line_inv money n pre acc \<Longrightarrow> line_inv money n (pre @ [c]) (line_step money (length pre) c acc)"
  by (cases acc) (auto simp: line_inv_def line_step_eq no_better_def nth_append min_def split: if_splits)

lemma line_loop_inv: "line_inv money n pre acc \<Longrightarrow> line_inv money n (pre @ cs) (line_loop money (length pre) cs acc)"
proof (induction cs arbitrary: pre acc)
  case (Cons c cs)
  from Cons.IH [OF line_inv_step [OF Cons.prems, of c]] show ?case by simp
qed simp

lemma shortest_loop_inv:
  assumes "(m = -1 \<and> (\<forall>c \<in> set pre. v \<le> lineCount c)) \<or>
    (0 \<le> m \<and> nat m < length pre \<and> v = lineCount (pre ! nat m) \<and> (\<forall>c \<in> set pre. v \<le> lineCount c))"
    "\<exists>c \<in> set (pre @ cs). lineCount c < n" "m = -1 \<longrightarrow> v = n"
  shows "\<exists>r. shortest_loop (length pre) cs (m, v) = r \<and> 0 \<le> fst r \<and> nat (fst r) < length (pre @ cs) \<and>
    (\<forall>c \<in> set (pre @ cs). lineCount ((pre @ cs) ! nat (fst r)) \<le> lineCount c)"
  using assms
proof (induction cs arbitrary: pre m v)
  case Nil
  then show ?case by auto
next
  case (Cons c cs)
  let ?m = "if lineCount c < v then int (length pre) else m" and ?v = "if lineCount c < v then lineCount c else v"
  have "(?m = -1 \<and> (\<forall>x \<in> set (pre @ [c]). ?v \<le> lineCount x)) \<or>
    (0 \<le> ?m \<and> nat ?m < length (pre @ [c]) \<and> ?v = lineCount ((pre @ [c]) ! nat ?m) \<and> (\<forall>x \<in> set (pre @ [c]). ?v \<le> lineCount x))"
    using Cons.prems(1) by (auto simp: nth_append)
  from Cons.IH [OF this] Cons.prems(2,3) show ?case by (auto split: if_splits)
qed

text \<open>
  C29: if some line has at most as many people as there are customers, the line a customer chooses exists and a bribe is
  chosen only with the money for it and never from a clerk on break. If some line, bribe lines included, costs no
  more than the number of customers, no line is cheaper than the chosen one. If all cost more, the customer does not
  bribe and takes the line with the fewest people, which need not be the cheapest.
\<close>

theorem choose_line_best:
  assumes "choose_line money n cs = (m, b)" "\<exists>c \<in> set cs. lineCount c \<le> n"
  shows "0 \<le> m \<and> nat m < length cs \<and> (b \<longrightarrow> can_bribe money (cs ! nat m)) \<and>
    (if \<forall>c \<in> set cs. no_better money (n + 1) c then \<not> b \<and> (\<forall>c \<in> set cs. lineCount (cs ! nat m) \<le> lineCount c)
     else \<forall>c \<in> set cs. no_better money (if b then bribeLineCount (cs ! nat m) else cost (cs ! nat m)) c)"
proof -
  obtain m1 v b1 where l: "line_loop money 0 cs (-1, n + 1, False) = (m1, v, b1)" by (cases "line_loop money 0 cs (-1, n + 1, False)")
  have inv: "line_inv money n cs (m1, v, b1)"
    using line_loop_inv [of money n "[]" "(-1, n + 1, False)" cs] l by (simp add: line_inv_def)
  show ?thesis
  proof (cases "m1 = -1")
    case True
    with inv have b: "v = n + 1" "\<not> b1" "\<forall>c \<in> set cs. no_better money (n + 1) c" by (auto simp: line_inv_def)
    from assms(2) have "\<exists>c \<in> set ([] @ cs). lineCount c < n + 1" by auto
    with shortest_loop_inv [of "-1" "[]" "n + 1" cs "n + 1"] have
      s: "0 \<le> fst (shortest_loop 0 cs (-1, n + 1))" "nat (fst (shortest_loop 0 cs (-1, n + 1))) < length cs"
        "\<forall>c \<in> set cs. lineCount (cs ! nat (fst (shortest_loop 0 cs (-1, n + 1)))) \<le> lineCount c" by auto
    have "m = fst (shortest_loop 0 cs (-1, n + 1))" "\<not> b" using assms(1) l True b by (auto simp: choose_line_def)
    with s b show ?thesis by auto
  next
    case False
    with assms(1) l have "m = m1" "b = b1" by (auto simp: choose_line_def)
    moreover from inv False have i: "0 \<le> m1" "nat m1 < length cs" "v \<le> n" "\<forall>c \<in> set cs. no_better money v c"
      "if b1 then can_bribe money (cs ! nat m1) \<and> v = bribeLineCount (cs ! nat m1) else v = cost (cs ! nat m1)"
      by (auto simp: line_inv_def)
    moreover from i(3,5) have "\<not> no_better money (n + 1) (cs ! nat m1)" by (auto simp: no_better_def split: if_splits)
    then have "\<not> (\<forall>c \<in> set cs. no_better money (n + 1) c)" using nth_mem [OF i(2)] by blast
    ultimately show ?thesis by (auto split: if_splits)
  qed
qed

section \<open>Schedules\<close>

text \<open>Runs that are given by a schedule: \<open>turns t r n\<close> are \<open>n\<close> steps of \<open>t\<close>, which draws \<open>r\<close>.\<close>

definition turns :: "actor \<Rightarrow> nat \<Rightarrow> nat \<Rightarrow> (actor \<times> nat) list" where
  "turns t r n = replicate n (t, r)"

lemma test_reach_run: "(world_step office)\<^sup>*\<^sup>* w w' \<Longrightarrow> test_reach ch w \<Longrightarrow> test_reach ch w'"
  by (induction rule: rtranclp_induct) (auto intro: test_reach.step)

lemma test_schedule: "run_schedule office ts w = Some w' \<Longrightarrow> test_reach ch w \<Longrightarrow> test_reach ch w'"
  by (rule test_reach_run [OF run_schedule_reaches])

fun is_waiting :: "cvid \<Rightarrow> (Office, actor, lockid, cvid, label) status \<Rightarrow> bool" where
  "is_waiting c (OnCV d l p) = (d = c)"
| "is_waiting c x = False"

fun is_blocked :: "lockid \<Rightarrow> (Office, actor, lockid, cvid, label) status \<Rightarrow> bool" where
  "is_blocked l (OnLock m p) = (m = l)"
| "is_blocked l x = False"

fun is_finished :: "(Office, actor, lockid, cvid, label) status \<Rightarrow> bool" where
  "is_finished (Ready Return) = True"
| "is_finished x = False"

fun is_failed :: "(Office, actor, lockid, cvid, label) status \<Rightarrow> bool" where
  "is_failed (Ready Fail) = True"
| "is_failed x = False"

fun is_unborn :: "(Office, actor, lockid, cvid, label) status \<Rightarrow> bool" where
  "is_unborn Unborn = True"
| "is_unborn x = False"

fun main_waits :: "(Office, actor, lockid, cvid, label) status \<Rightarrow> bool" where
  "main_waits (OnCV c l (Release m Return)) = True"
| "main_waits x = False"

lemma finished_eq: "is_finished x \<longleftrightarrow> x = Ready Return"
  by (cases x rule: is_finished.cases) simp_all

lemma failed_eq: "is_failed x \<longleftrightarrow> x = Ready Fail"
  by (cases x rule: is_failed.cases) simp_all

lemma unborn_eq: "is_unborn x \<longleftrightarrow> x = Unborn"
  by (cases x) simp_all

subsection \<open>A customer who is left outside\<close>

definition one_of_each :: Numbers where
  "one_of_each = \<lparr>n_customers = 1, n_clerks = clerk_numbers 1 1 1 1, n_senators = 1\<rparr>"

lemma one_of_each_input: "Part2_numbers 8 [1, 1, 1, 1, 1, 1] = Some one_of_each"
  by (simp add: Part2_numbers_def get_system_test_input_def one_of_each_def)

definition senator_schedule :: "(actor \<times> nat) list" where
  "senator_schedule =
     turns A_Main 1 73 @ turns (A_Senator 0) 1 5 @ turns A_Manager 1 20 @ turns (A_Senator 0) 1 8 @
     turns (A_Clerk Pic 0) 1 11 @ turns (A_Senator 0) 1 9 @ turns (A_Clerk Pic 0) 1 23 @ turns (A_Senator 0) 1 5 @
     turns (A_Clerk Pic 0) 1 14 @ turns (A_Senator 0) 1 6 @
     turns (A_Clerk App 0) 1 11 @ turns (A_Senator 0) 1 8 @ turns (A_Clerk App 0) 1 54 @ turns (A_Senator 0) 1 8 @
     turns (A_Clerk Pass 0) 1 9 @ turns (A_Senator 0) 1 8 @ turns (A_Clerk Pass 0) 1 54 @ turns (A_Senator 0) 1 8 @
     turns (A_Clerk Cash 0) 1 9 @ turns (A_Senator 0) 1 9 @ turns (A_Clerk Cash 0) 1 18 @ turns (A_Senator 0) 1 7 @
     turns (A_Customer 0) 1 5"

definition senator_exit :: "(actor \<times> nat) list" where
  "senator_exit = turns (A_Senator 0) 1 2"

text \<open>\<open>senators_gone\<close>: the main thread has started everybody, and every senator it has started has ended.\<close>

definition senators_gone :: "(Office, actor, lockid, cvid, label) world \<Rightarrow> bool" where
  "senators_gone w \<longleftrightarrow> (\<forall>i. stat w (A_Senator i) = Unborn \<or> stat w (A_Senator i) = Ready Return) \<and> main_waits (stat w A_Main)"

lemma senator_run:
  "case run_schedule office senator_schedule (start_test (system_test_data 8 one_of_each 0 0 [0])) of
     None \<Rightarrow> False
   | Some w \<Rightarrow> is_waiting senatorCV (stat w (A_Customer 0)) \<and> senatorFlag (dat w) \<and>
       (case thread_step office (A_Senator 0) 0 w of None \<Rightarrow> False | Some w1 \<Rightarrow> \<not> senatorFlag (dat w1)) \<and>
       (case run_schedule office senator_exit w of
          None \<Rightarrow> False
        | Some w' \<Rightarrow> is_waiting senatorCV (stat w' (A_Customer 0)) \<and> is_finished (stat w' (A_Senator 0)) \<and>
            is_unborn (stat w' (A_Senator (Suc j))) \<and> main_waits (stat w' A_Main))"
  by code_simp

text \<open>Only senators wake the customers who wait outside.\<close>

abbreviation "qt \<equiv> quiet (range A_Senator) (- {A_Main}) senatorCV"

lemma qt_yields [simp]: "qt t (yields n p) = qt t p"
  unfolding yields_def by (induction n) auto

lemma qt_after_clerk [simp]: "qt (A_Customer i) (after_clerk i ks)"
  by (cases ks) (auto simp: checkSenator_def go_outside_def)

lemma qt_customer: "qt (A_Customer i) (customer_body i b)"
proof (cases b)
  case (Line k ks)
  then show ?thesis
    by (cases k) (auto simp: goToAppClerk_def goToPicClerk_def goToPassClerk_def goToCashier_def get_in_line_def called_up_def go_outside_def
      step_up_def leave_counter_def Let_def split: prod.splits)
qed (auto simp: Customer_Run_def checkSenator_def go_outside_def picture_turn_def Let_def)

lemma qt_clerk_turn: "qt (A_Clerk k i) (clerk_turn k i)"
  by (cases k) (auto simp: clerk_turn_def call_up_def go_on_break_def broadcastOnLineCV_def Let_def ApplicationClerk_serve_def PictureClerk_serve_def
    PassportClerk_serve_def Cashier_serve_def take_payment_def hand_over_def record_for_def end_service_def)

lemma qt_clerk: "qt (A_Clerk k i) (clerk_body k i b)"
  by (cases k; cases b)
    (auto simp: qt_clerk_turn PictureClerk_turn_def record_for_def end_service_def Let_def ApplicationClerk_Run_def PictureClerk_Run_def
      PassportClerk_Run_def Cashier_Run_def)

lemma qt_check_clerks: "(\<And>g. qt t (p g)) \<Longrightarrow> qt t (check_clerks xs gone p)"
  by (induction xs gone p rule: check_clerks.induct) (auto simp: Let_def wake_clerk_def)

lemma qt_wake_lines: "qt t p \<Longrightarrow> qt t (wake_lines xs p)"
  by (induction xs p rule: wake_lines.induct) (auto simp: wake_clerk_def)

lemma qt_manager: "qt A_Manager (manager_body b)"
  by (cases b) (auto simp: Manager_Run_def Manager_round_def ManagerCheckLines_def ManagerCountMoney_def ManagerCheckClose_def Let_def
    intro!: qt_check_clerks qt_wake_lines split: prod.splits)

lemma qt_office: "t \<in> - {A_Main} \<Longrightarrow> t \<notin> range A_Senator \<Longrightarrow> qt t (office t b)"
  using qt_customer qt_clerk qt_manager by (cases t) auto

lemma test_muted: "test_reach ch w \<Longrightarrow> muted (- {A_Main} - range A_Senator) (range A_Senator) (- {A_Main}) senatorCV w"
proof (induction rule: test_reach.induct)
  case (start ch xs n randoms spent passports)
  then show ?case by (auto simp: muted_def start_test_def)
next
  case (step ch w w')
  then show ?case using muted_step [OF step(2,3)] qt_office by auto
qed

lemma senators_gone_waits:
  assumes "test_reach ch w" "ch \<noteq> 1" "senators_gone w" "stat w (A_Customer i) = OnCV senatorCV l p" "(world_step office)\<^sup>*\<^sup>* w w'"
  shows "stat w' (A_Customer i) = OnCV senatorCV l p"
proof -
  have m: "quiet_stat (range A_Senator) (- {A_Main}) senatorCV A_Main (stat w A_Main)"
    using assms(3) unfolding senators_gone_def by (cases "stat w A_Main" rule: main_waits.cases) auto
  have "quiet_stat (range A_Senator) (- {A_Main}) senatorCV t (stat w t)" if "t \<notin> range A_Senator" for t
    using test_muted [OF assms(1)] m that by (cases "t = A_Main") (auto simp: muted_def)
  with assms(3) have "silent (range A_Senator) (- {A_Main}) senatorCV w" by (auto simp: silent_def senators_gone_def)
  with assms show ?thesis using office.waits_for_ever [OF _ test_ok [OF assms(1,2)] _ assms(4) qt_office] by blast
qed

text \<open>
  C39: customers can be left outside for ever. In every test but the first, once the main thread has started everybody and
  all senators have ended, a customer who waits on \<^verbatim>\<open>senatorCV\<close> never gets further, whatever the others do. And this
  can happen: there is a run of test 8 with one customer and one senator that reaches a state where the customer waits
  on \<^verbatim>\<open>senatorCV\<close> while the flag is still set and the next step of the senator resets it (the \<^verbatim>\<open>Broadcast\<close> is over), and
  from there a state where the senator has ended and the customer still waits.
\<close>

theorem customer_left_outside:
  "(\<forall>ch w i l p w'. test_reach ch w \<and> ch \<noteq> 1 \<and> senators_gone w \<and> stat w (A_Customer i) = OnCV senatorCV l p \<and>
      (world_step office)\<^sup>*\<^sup>* w w' \<longrightarrow> stat w' (A_Customer i) = OnCV senatorCV l p) \<and>
   (\<exists>w w1 w2 k q l p. test_reach 8 w \<and> stat w (A_Customer 0) = OnCV senatorCV k q \<and> senatorFlag (dat w) \<and>
      thread_step office (A_Senator 0) 0 w = Some w1 \<and> \<not> senatorFlag (dat w1) \<and>
      (world_step office)\<^sup>*\<^sup>* w w2 \<and> test_reach 8 w2 \<and> senators_gone w2 \<and> stat w2 (A_Customer 0) = OnCV senatorCV l p)"
proof (rule conjI)
  let ?w0 = "start_test (system_test_data 8 one_of_each 0 0 [0])"
  obtain w where run: "run_schedule office senator_schedule ?w0 = Some w"
    using senator_run [of 0] by (cases "run_schedule office senator_schedule ?w0") auto
  obtain w1 where s: "thread_step office (A_Senator 0) 0 w = Some w1"
    using senator_run [of 0] unfolding run by (cases "thread_step office (A_Senator 0) 0 w") auto
  obtain w2 where run2: "run_schedule office senator_exit w = Some w2"
    using senator_run [of 0] unfolding run by (cases "run_schedule office senator_exit w") auto
  have w: "is_waiting senatorCV (stat w (A_Customer 0))" "senatorFlag (dat w)" "\<not> senatorFlag (dat w1)"
      "is_waiting senatorCV (stat w2 (A_Customer 0))" "is_finished (stat w2 (A_Senator 0))" "main_waits (stat w2 A_Main)"
      "is_unborn (stat w2 (A_Senator (Suc j)))" for j
    using senator_run [of j] unfolding run option.case s run2 by auto
  have "test_reach 8 ?w0" by (rule test_reach.start [OF one_of_each_input]) (simp_all add: one_of_each_def)
  then have r: "test_reach 8 w" by (rule test_schedule [OF run])
  from w(1) obtain k q where c: "stat w (A_Customer 0) = OnCV senatorCV k q" by (cases "stat w (A_Customer 0)") auto
  from w(4) obtain l p where c2: "stat w2 (A_Customer 0) = OnCV senatorCV l p" by (cases "stat w2 (A_Customer 0)") auto
  have "stat w2 (A_Senator i) = Unborn \<or> stat w2 (A_Senator i) = Ready Return" for i
    using w(5,7) by (cases i) (auto simp: finished_eq unborn_eq)
  then have "senators_gone w2" using w(6) by (simp add: senators_gone_def)
  then show "\<exists>w w1 w2 k q l p. test_reach 8 w \<and> stat w (A_Customer 0) = OnCV senatorCV k q \<and> senatorFlag (dat w) \<and>
      thread_step office (A_Senator 0) 0 w = Some w1 \<and> \<not> senatorFlag (dat w1) \<and>
      (world_step office)\<^sup>*\<^sup>* w w2 \<and> test_reach 8 w2 \<and> senators_gone w2 \<and> stat w2 (A_Customer 0) = OnCV senatorCV l p"
    using r c w(2,3) s run_schedule_reaches [OF run2] test_schedule [OF run2 r] c2 by blast
qed (blast intro: senators_gone_waits)

theorem customer_left_outside_witness:
  "\<exists>w l p. test_reach 8 w \<and> (\<forall>w'. (world_step office)\<^sup>*\<^sup>* w w' \<longrightarrow> stat w' (A_Customer 0) = OnCV senatorCV l p)"
proof -
  from customer_left_outside obtain w l p where "test_reach 8 w" "senators_gone w" "stat w (A_Customer 0) = OnCV senatorCV l p" by blast
  moreover from this have "stat w' (A_Customer 0) = OnCV senatorCV l p" if "(world_step office)\<^sup>*\<^sup>* w w'" for w'
    using conjunct1 [OF customer_left_outside, rule_format, of 8 w 0 l p w'] that by simp
  ultimately show ?thesis by blast
qed

subsection \<open>The sales that do not add up\<close>

text \<open>Steps of one thread that change nothing but its own point in the program.\<close>

lemma own_step: "prog_step office t n p (set_stat t (Ready p) w) = Some (set_stat t (Ready q) w) \<Longrightarrow>
    (world_step office)\<^sup>*\<^sup>* (set_stat t (Ready p) w) (set_stat t (Ready q) w)"
  by (intro r_into_rtranclp world_step.intros [of _ t n]) (simp add: thread_step_def set_stat_def)

lemma own_Act: "(world_step office)\<^sup>*\<^sup>* (set_stat t (Ready (Act id g)) w) (set_stat t (Ready (g (dat w))) w)"
  by (rule own_step [of _ 0]) (simp add: set_stat_def)

lemma own_Goto: "(world_step office)\<^sup>*\<^sup>* (set_stat t (Ready (Goto b)) w) (set_stat t (Ready (office t b)) w)"
  by (rule own_step [of _ 0]) (simp add: set_stat_def)

lemma own_yields: "(world_step office)\<^sup>*\<^sup>* (set_stat t (Ready (yields n p)) w) (set_stat t (Ready p) w)"
proof (induction n)
  case (Suc n)
  have "(world_step office)\<^sup>*\<^sup>* (set_stat t (Ready (yields (Suc n) p)) w) (set_stat t (Ready (yields n p)) w)"
    by (rule own_step [of _ 0]) (simp add: set_stat_def yields_def)
  with Suc show ?case by (rule rtranclp_trans [rotated])
qed (simp add: yields_def)

text \<open>While all clerks are free and no senator is there, the manager's rounds do nothing.\<close>

lemma own_check_clerks:
  assumes "\<forall>(k, i) \<in> set xs. state (clerk (dat w) k i) = CLERK_FREE"
  shows "(world_step office)\<^sup>*\<^sup>* (set_stat t (Ready (check_clerks xs gone p)) w) (set_stat t (Ready (p gone)) w)"
  using assms
proof (induction xs)
  case (Cons x xs)
  obtain k i where x: "x = (k, i)" by (cases x)
  let ?next = "Act id (\<lambda>s. if state (clerk s k i) = CLERK_BUSY then check_clerks xs False p else check_clerks xs gone p)"
  have f: "state (clerk (dat w) k i) = CLERK_FREE" using Cons.prems x by simp
  have 1: "(world_step office)\<^sup>*\<^sup>* (set_stat t (Ready (check_clerks (x # xs) gone p)) w) (set_stat t (Ready ?next) w)"
    using own_Act [of t _ w] f unfolding x check_clerks.simps Let_def by (smt (verit, best) ClerkState.distinct(3))
  have 2: "(world_step office)\<^sup>*\<^sup>* (set_stat t (Ready ?next) w) (set_stat t (Ready (check_clerks xs gone p)) w)"
    using own_Act [of t "\<lambda>s. if state (clerk s k i) = CLERK_BUSY then check_clerks xs False p else check_clerks xs gone p" w] f by simp
  have 3: "(world_step office)\<^sup>*\<^sup>* (set_stat t (Ready (check_clerks xs gone p)) w) (set_stat t (Ready (p gone)) w)"
    using Cons by simp
  show ?case by (rule rtranclp_trans [OF 1 rtranclp_trans [OF 2 3]])
qed simp

lemma manager_round:
  assumes "\<forall>(k, i) \<in> set (all_clerks (dat w)). state (clerk (dat w) k i) = CLERK_FREE" "\<not> senatorFlag (dat w)" "k < 60"
  shows "(world_step office)\<^sup>*\<^sup>* (set_stat A_Manager (Ready (Goto (Round k tot))) w) (set_stat A_Manager (Ready (Goto (Round (Suc k) tot))) w)"
proof -
  let ?p = "yields 70 (Goto (Round (Suc k) tot))"
  let ?g = "\<lambda>gone. Act id (\<lambda>s. if gone \<and> (\<forall>d \<in> set (customerData s). \<not> (arrived d \<and> \<not> outside d)) \<and> senatorFlag s
     then Acquire outsideLock (Signal customersCV outsideLock (Release outsideLock ?p)) else ?p)"
  note own_Goto [of A_Manager "Round k tot" w]
  also have "office A_Manager (Round k tot) = Act id (\<lambda>s. check_clerks (all_clerks s) True ?g)"
    using assms(3) by (simp add: Manager_round_def ManagerCheckLines_def)
  also note own_Act [of A_Manager "\<lambda>s. check_clerks (all_clerks s) True ?g" w]
  also note own_check_clerks [OF assms(1), of A_Manager True ?g]
  also note own_Act [of A_Manager _ w]
  also have "(if True \<and> (\<forall>d \<in> set (customerData (dat w)). \<not> (arrived d \<and> \<not> outside d)) \<and> senatorFlag (dat w)
     then Acquire outsideLock (Signal customersCV outsideLock (Release outsideLock ?p)) else ?p) = ?p" using assms(2) by simp
  also note own_yields [of A_Manager 70 _ w]
  finally show ?thesis .
qed

lemma manager_rounds:
  assumes "\<forall>(k, i) \<in> set (all_clerks (dat w)). state (clerk (dat w) k i) = CLERK_FREE" "\<not> senatorFlag (dat w)" "k \<le> 60"
  shows "(world_step office)\<^sup>*\<^sup>* (set_stat A_Manager (Ready (Goto (Round 0 tot))) w) (set_stat A_Manager (Ready (Goto (Round k tot))) w)"
  using assms(3)
proof (induction k)
  case (Suc k)
  then show ?case using manager_round [OF assms(1,2), of k tot] by (auto intro: rtranclp_trans)
qed simp

fun is_at :: "label \<Rightarrow> (Office, actor, lockid, cvid, label) status \<Rightarrow> bool" where
  "is_at b (Ready (Goto a)) = (a = b)"
| "is_at b x = False"

lemma at_eq: "is_at b x \<longleftrightarrow> x = Ready (Goto b)"
  by (cases "(b, x)" rule: is_at.cases) auto

text \<open>Customer 1 gets in the only line, customer 0 bribes the clerk, and the manager counts before the clerk has the bribe.\<close>

definition forking :: "(actor \<times> nat) list" where
  "forking = turns A_Main 0 15 @ turns A_Manager 0 1"

definition sales_schedule :: "(actor \<times> nat) list" where
  "sales_schedule = turns (A_Customer 1) 0 10 @ turns (A_Customer 0) 0 8 @ turns A_Manager 0 3"

definition sales_start :: "(Office, actor, lockid, cvid, label) world" where
  "sales_start = start_test (system_test_data 6 t6_total_sales 0 0 [1, 0, 0])"

lemma sales_run:
  "case run_schedule office forking sales_start of
     None \<Rightarrow> False
   | Some w \<Rightarrow> is_at (Round 0 (0, 0, 0, 0)) (stat w A_Manager) \<and> \<not> senatorFlag (dat w) \<and>
       (\<forall>(k, i) \<in> set (all_clerks (dat w)). state (clerk (dat w) k i) = CLERK_FREE) \<and>
       (case run_schedule office sales_schedule (set_stat A_Manager (Ready (Goto (Round 60 (0, 0, 0, 0)))) w) of
          None \<Rightarrow> False
        | Some w' \<Rightarrow> is_failed (stat w' A_Manager) \<and> totalSpent (dat w') = 500)"
  by code_simp

text \<open>
  the assertion of test 6, that the money the manager has counted is all that was spent, can fail: a customer adds
  a bribe to \<^verbatim>\<open>totalSpent\<close> before handing it to the clerk under \<^verbatim>\<open>moneyLock\<close>, and the manager may count in between.
\<close>

theorem total_sales_assertion_fails: "\<exists>w. test_reach 6 w \<and> stat w A_Manager = Ready Fail"
proof -
  let ?b = "Goto (Round 60 (0, 0, 0, 0))"
  obtain w where r1: "run_schedule office forking sales_start = Some w"
    using sales_run by (cases "run_schedule office forking sales_start") auto
  obtain w' where r2: "run_schedule office sales_schedule (set_stat A_Manager (Ready ?b) w) = Some w'"
    using sales_run unfolding r1 by (cases "run_schedule office sales_schedule (set_stat A_Manager (Ready ?b) w)") auto
  have c: "stat w A_Manager = Ready (Goto (Round 0 (0, 0, 0, 0)))" "\<not> senatorFlag (dat w)"
      "\<forall>(k, i) \<in> set (all_clerks (dat w)). state (clerk (dat w) k i) = CLERK_FREE" "stat w' A_Manager = Ready Fail"
    using sales_run unfolding r1 option.case r2 at_eq failed_eq by auto
  have "Part2_numbers 6 [] = Some t6_total_sales" by (simp add: Part2_numbers_def)
  then have "test_reach 6 sales_start" unfolding sales_start_def by (rule test_reach.start) (simp_all add: t6_total_sales_def)
  then have "test_reach 6 w" by (rule test_schedule [OF r1])
  moreover have "w = set_stat A_Manager (Ready (Goto (Round 0 (0, 0, 0, 0)))) w" using c(1) by (simp add: set_stat_def fun_upd_idem)
  ultimately have "test_reach 6 (set_stat A_Manager (Ready ?b) w)"
    using test_reach_run [OF manager_rounds [OF c(3,2) order_refl, of "(0, 0, 0, 0)"]] by simp
  then have "test_reach 6 w'" by (rule test_schedule [OF r2])
  with c(4) show ?thesis by blast
qed

subsection \<open>The first test\<close>

definition first_schedule :: "(actor \<times> nat) list" where
  "first_schedule = turns A_Main 0 11 @ turns (A_Customer 0) 0 9"

definition first_start :: "(Office, actor, lockid, cvid, label) world" where
  "first_start = start_test (system_test_data 1 t1_shortest_line 0 0 [0, 0])"

lemma first_run:
  "case run_schedule office first_schedule first_start of
     None \<Rightarrow> False
   | Some w \<Rightarrow> is_finished (stat w (A_Customer 0)) \<and> owner w clerkLineLock = Some (A_Customer 0)"
  by code_simp

text \<open>
  in test 1 a customer ends holding \<^verbatim>\<open>clerkLineLock\<close>, because \<^verbatim>\<open>goToAppClerk\<close> returns without releasing it; the lock
  is never free again, so nobody else gets past \<^verbatim>\<open>clerkLineLock->Acquire()\<close> any more.
\<close>

theorem test1_keeps_line_lock:
  "\<exists>w. test_reach 1 w \<and> stat w (A_Customer 0) = Ready Return \<and>
     (\<forall>w'. (world_step office)\<^sup>*\<^sup>* w w' \<longrightarrow> owner w' clerkLineLock = Some (A_Customer 0))"
proof -
  obtain w where r: "run_schedule office first_schedule first_start = Some w"
    using first_run by (cases "run_schedule office first_schedule first_start") auto
  have c: "stat w (A_Customer 0) = Ready Return" "owner w clerkLineLock = Some (A_Customer 0)"
    using first_run unfolding r option.case finished_eq by auto
  have "Part2_numbers 1 [] = Some t1_shortest_line" by (simp add: Part2_numbers_def)
  then have "test_reach 1 first_start" unfolding first_start_def by (rule test_reach.start) (simp_all add: t1_shortest_line_def)
  then have "test_reach 1 w" by (rule test_schedule [OF r])
  with c show ?thesis using finished_keeps_lock_for_ever [of office w] by blast
qed

subsection \<open>Example states\<close>

definition break_start :: "(Office, actor, lockid, cvid, label) world" where
  "break_start = start_test (system_test_data 4 t4_clerk_break 0 0 [0])"

lemma break_reach: "run_schedule office ts break_start = Some w \<Longrightarrow> test_reach 4 w"
proof -
  have "Part2_numbers 4 [] = Some t4_clerk_break" by (simp add: Part2_numbers_def)
  then have "test_reach 4 break_start" unfolding break_start_def by (rule test_reach.start) (simp_all add: t4_clerk_break_def)
  then show "run_schedule office ts break_start = Some w \<Longrightarrow> test_reach 4 w" by (rule test_schedule [rotated])
qed

fun is_releasing :: "lockid \<Rightarrow> (Office, actor, lockid, cvid, label) status \<Rightarrow> bool" where
  "is_releasing l (Ready (Release m p)) = (m = l)"
| "is_releasing l x = False"

definition break_schedule :: "(actor \<times> nat) list" where
  "break_schedule = turns A_Main 0 14 @ turns (A_Clerk App 0) 0 6 @ turns (A_Clerk App 1) 0 4"

lemma break_run:
  "case run_schedule office break_schedule break_start of
     None \<Rightarrow> False
   | Some w \<Rightarrow> is_releasing clerkLineLock (stat w (A_Clerk App 0)) \<and> is_blocked clerkLineLock (stat w (A_Clerk App 1))"
  by code_simp

lemma break_world:
  "\<exists>w p q. test_reach 4 w \<and> stat w (A_Clerk App 0) = Ready (Release clerkLineLock p) \<and> stat w (A_Clerk App 1) = OnLock clerkLineLock q"
proof -
  obtain w where r: "run_schedule office break_schedule break_start = Some w"
    using break_run by (cases "run_schedule office break_schedule break_start") auto
  have c: "is_releasing clerkLineLock (stat w (A_Clerk App 0))" "is_blocked clerkLineLock (stat w (A_Clerk App 1))"
    using break_run unfolding r option.case by auto
  from c(1) obtain p where "stat w (A_Clerk App 0) = Ready (Release clerkLineLock p)"
    by (cases "(clerkLineLock, stat w (A_Clerk App 0))" rule: is_releasing.cases) auto
  moreover from c(2) obtain q where "stat w (A_Clerk App 1) = OnLock clerkLineLock q"
    by (cases "stat w (A_Clerk App 1)") auto
  ultimately show ?thesis using break_reach [OF r] by blast
qed

theorem office_lock_discipline_witness:
  "\<exists>w p. test_reach 4 w \<and> stat w (A_Clerk App 0) = Ready (Release clerkLineLock p) \<and> clerkLineLock \<in> holds w (A_Clerk App 0)"
proof -
  from break_world obtain w p where w: "test_reach 4 w" "stat w (A_Clerk App 0) = Ready (Release clerkLineLock p)" by blast
  from office_lock_discipline [OF w(1) _ w(2)] have "clerkLineLock \<in> holds w (A_Clerk App 0)" by simp
  with w show ?thesis by blast
qed

theorem office_no_lock_deadlock_witness:
  "\<exists>w q. test_reach 4 w \<and> stat w (A_Clerk App 1) = OnLock clerkLineLock q \<and>
     (\<exists>u r. (waits_for w)\<^sup>+\<^sup>+ (A_Clerk App 1) u \<and> u \<noteq> A_Clerk App 1 \<and> stat w u = Ready r)"
proof -
  from break_world obtain w q where w: "test_reach 4 w" "stat w (A_Clerk App 1) = OnLock clerkLineLock q" by blast
  from office_no_lock_deadlock [OF w(1), of "A_Clerk App 1"] w(2)
  have "\<exists>u r. (waits_for w)\<^sup>+\<^sup>+ (A_Clerk App 1) u \<and> u \<noteq> A_Clerk App 1 \<and> stat w u = Ready r" by fastforce
  with w show ?thesis by blast
qed

theorem choose_line_best_witness:
  "choose_line 600 3 [new_Clerk\<lparr>lineCount := 2\<rparr>, new_Clerk\<lparr>state := CLERK_BUSY\<rparr>] = (0, True) \<and>
   can_bribe 600 ([new_Clerk\<lparr>lineCount := 2\<rparr>, new_Clerk\<lparr>state := CLERK_BUSY\<rparr>] ! nat 0)"
proof -
  let ?cs = "[new_Clerk\<lparr>lineCount := 2\<rparr>, new_Clerk\<lparr>state := CLERK_BUSY\<rparr>]"
  have c: "choose_line 600 3 ?cs = (0, True)" by code_simp
  from choose_line_best [OF c] show ?thesis using c by simp
qed

end
