(* ===== verification/Machine_Memory.thy ===== *)
theory Machine_Memory
  imports Nachos_Prelude "HOL-Library.Word"
begin

unbundle bit_operations_syntax

text \<open>
  The simulated machine: registers, main memory and address translation
  (\<^verbatim>\<open>machine/machine.cc\<close>, \<^verbatim>\<open>machine/translate.cc\<close> and their headers).

  An \<^verbatim>\<open>int\<close> of the simulator is a \<open>32 word\<close>; where the C++ code reads it as signed the
  model uses \<open>sint\<close>, elsewhere \<open>unat\<close>. Signed arithmetic wraps, as it does on the hosts
  Nachos runs on. \<^verbatim>\<open>HOST_IS_BIG_ENDIAN\<close>, a compile-time flag, is the field \<open>hostBig\<close>.
  \<^verbatim>\<open>ExceptionHandler\<close>, the kernel's entry point, is an argument of every routine that may raise.
\<close>

section \<open>State\<close>

abbreviation (input) PageSize :: nat where "PageSize \<equiv> 128"
abbreviation (input) NumPhysPages :: nat where "NumPhysPages \<equiv> 256"
abbreviation (input) MemorySize :: nat where "MemorySize \<equiv> 32768"
abbreviation (input) TLBSize :: nat where "TLBSize \<equiv> 4"

datatype ExceptionType = NoException | SyscallException | PageFaultException | ReadOnlyException
  | BusErrorException | AddressErrorException | OverflowException | IllegalInstrException

abbreviation (input) StackReg :: nat where "StackReg \<equiv> 29"
abbreviation (input) RetAddrReg :: nat where "RetAddrReg \<equiv> 31"
abbreviation (input) HiReg :: nat where "HiReg \<equiv> 32"
abbreviation (input) LoReg :: nat where "LoReg \<equiv> 33"
abbreviation (input) PCReg :: nat where "PCReg \<equiv> 34"
abbreviation (input) NextPCReg :: nat where "NextPCReg \<equiv> 35"
abbreviation (input) PrevPCReg :: nat where "PrevPCReg \<equiv> 36"
abbreviation (input) LoadReg :: nat where "LoadReg \<equiv> 37"
abbreviation (input) LoadValueReg :: nat where "LoadValueReg \<equiv> 38"
abbreviation (input) BadVAddrReg :: nat where "BadVAddrReg \<equiv> 39"
abbreviation (input) NumTotalRegs :: nat where "NumTotalRegs \<equiv> 40"

record TranslationEntry =
  virtualPage :: "32 word"
  physicalPage :: "32 word"
  valid :: bool
  readOnly :: bool
  use :: bool
  dirty :: bool

datatype MachineStatus = IdleMode | SystemMode | UserMode

record Machine =
  mainMemory :: "nat \<Rightarrow> 8 word"
  registers :: "nat \<Rightarrow> 32 word"
  tlb :: "TranslationEntry list option"
  pageTable :: "TranslationEntry list option"
  pageTableSize :: nat
  lastUsed :: "nat \<Rightarrow> int"
  totalTicks :: int
  machineStatus :: MachineStatus
  hostBig :: bool

type_synonym handler = "ExceptionType \<Rightarrow> Machine \<Rightarrow> Machine res"

text \<open>\<open>useTLB\<close> is the compile-time flag \<^verbatim>\<open>USE_TLB\<close>; the entries of a new TLB have an arbitrary content.\<close>

definition new_Machine :: "bool \<Rightarrow> TranslationEntry list \<Rightarrow> int \<Rightarrow> bool \<Rightarrow> MachineStatus \<Rightarrow> Machine" where
  "new_Machine useTLB garbage now big st =
     \<lparr>mainMemory = (\<lambda>_. 0), registers = (\<lambda>_. 0),
      tlb = (if useTLB then Some (map (\<lambda>e. e\<lparr>valid := False\<rparr>) (take TLBSize garbage)) else None),
      pageTable = None, pageTableSize = 0, lastUsed = (\<lambda>_. now), totalTicks = now,
      machineStatus = st, hostBig = big\<rparr>"

section \<open>Registers\<close>

definition ReadRegister :: "int \<Rightarrow> Machine \<Rightarrow> 32 word res" where
  "ReadRegister num m =
     (if 0 \<le> num \<and> num < int NumTotalRegs then Inr (registers m (nat num)) else Inl AssertionFailed)"

definition WriteRegister :: "int \<Rightarrow> 32 word \<Rightarrow> Machine \<Rightarrow> Machine res" where
  "WriteRegister num v m =
     (if 0 \<le> num \<and> num < int NumTotalRegs then Inr (m\<lparr>registers := (registers m)(nat num := v)\<rparr>)
      else Inl AssertionFailed)"

definition getTimeUsed :: "int \<Rightarrow> Machine \<Rightarrow> int" where
  "getTimeUsed pageNo m =
     (if pageNo < 0 \<or> int NumPhysPages \<le> pageNo then - 1 else lastUsed m (nat pageNo))"

text \<open>The register that \<^verbatim>\<open>LoadReg\<close> names is written unchecked; an index beyond the array is an error.\<close>

definition DelayedLoad :: "32 word \<Rightarrow> 32 word \<Rightarrow> Machine \<Rightarrow> Machine res" where
  "DelayedLoad nextReg nextValue m =
     (let r = unat (registers m LoadReg) in
      if r < NumTotalRegs
      then Inr (m\<lparr>registers := (((registers m)(r := registers m LoadValueReg))
                 (LoadReg := nextReg, LoadValueReg := nextValue, 0 := 0))\<rparr>)
      else Inl OutOfBounds)"

definition RaiseException :: "handler \<Rightarrow> ExceptionType \<Rightarrow> 32 word \<Rightarrow> Machine \<Rightarrow> Machine res" where
  "RaiseException ExceptionHandler which badVAddr m =
     bindR (DelayedLoad 0 0 (m\<lparr>registers := (registers m)(BadVAddrReg := badVAddr)\<rparr>)) (\<lambda>m1.
     bindR (ExceptionHandler which (m1\<lparr>machineStatus := SystemMode\<rparr>)) (\<lambda>m2.
     Inr (m2\<lparr>machineStatus := UserMode\<rparr>)))"

section \<open>Byte order\<close>

definition WordToHost :: "bool \<Rightarrow> 32 word \<Rightarrow> 32 word" where
  "WordToHost big w =
     (if big
      then ((((drop_bit 24 w AND 0xff) OR (drop_bit 8 w AND 0xff00)) OR
             (push_bit 8 w AND 0xff0000)) OR (push_bit 24 w AND 0xff000000))
      else w)"

definition ShortToHost :: "bool \<Rightarrow> 16 word \<Rightarrow> 16 word" where
  "ShortToHost big w =
     (if big then (push_bit 8 w AND 0xff00) OR (drop_bit 8 w AND 0xff) else w)"

definition WordToMachine :: "bool \<Rightarrow> 32 word \<Rightarrow> 32 word" where
  "WordToMachine big w = WordToHost big w"

definition ShortToMachine :: "bool \<Rightarrow> 16 word \<Rightarrow> 16 word" where
  "ShortToMachine big w = ShortToHost big w"

text \<open>How the host reads and writes a multi-byte integer at an address, in its own byte order.\<close>

definition host_load32 :: "bool \<Rightarrow> (nat \<Rightarrow> 8 word) \<Rightarrow> nat \<Rightarrow> 32 word" where
  "host_load32 big mem a =
     (if big
      then push_bit 24 (ucast (mem a)) OR push_bit 16 (ucast (mem (a + 1))) OR
           push_bit 8 (ucast (mem (a + 2))) OR ucast (mem (a + 3))
      else push_bit 24 (ucast (mem (a + 3))) OR push_bit 16 (ucast (mem (a + 2))) OR
           push_bit 8 (ucast (mem (a + 1))) OR ucast (mem a))"

definition host_load16 :: "bool \<Rightarrow> (nat \<Rightarrow> 8 word) \<Rightarrow> nat \<Rightarrow> 16 word" where
  "host_load16 big mem a =
     (if big then push_bit 8 (ucast (mem a)) OR ucast (mem (a + 1))
      else push_bit 8 (ucast (mem (a + 1))) OR ucast (mem a))"

definition host_store32 :: "bool \<Rightarrow> (nat \<Rightarrow> 8 word) \<Rightarrow> nat \<Rightarrow> 32 word \<Rightarrow> nat \<Rightarrow> 8 word" where
  "host_store32 big mem a w =
     (if big
      then mem(a := ucast (drop_bit 24 w), a + 1 := ucast (drop_bit 16 w),
               a + 2 := ucast (drop_bit 8 w), a + 3 := ucast w)
      else mem(a := ucast w, a + 1 := ucast (drop_bit 8 w),
               a + 2 := ucast (drop_bit 16 w), a + 3 := ucast (drop_bit 24 w)))"

definition host_store16 :: "bool \<Rightarrow> (nat \<Rightarrow> 8 word) \<Rightarrow> nat \<Rightarrow> 16 word \<Rightarrow> nat \<Rightarrow> 8 word" where
  "host_store16 big mem a w =
     (if big then mem(a := ucast (drop_bit 8 w), a + 1 := ucast w)
      else mem(a := ucast w, a + 1 := ucast (drop_bit 8 w)))"

section \<open>Translation\<close>

definition misaligned :: "32 word \<Rightarrow> nat \<Rightarrow> bool" where
  "misaligned virtAddr sz \<longleftrightarrow>
     sz = 4 \<and> (virtAddr AND 3) \<noteq> 0 \<or> sz = 2 \<and> (virtAddr AND 1) \<noteq> 0"

text \<open>The search of the TLB: the first valid entry for the page, among \<^verbatim>\<open>TLBSize\<close> many.\<close>

definition tlb_match :: "nat \<Rightarrow> TranslationEntry \<Rightarrow> bool" where
  "tlb_match vpn e \<longleftrightarrow> valid e \<and> unat (virtualPage e) = vpn"

definition touch :: "bool \<Rightarrow> TranslationEntry \<Rightarrow> TranslationEntry" where
  "touch writing e = (let e1 = e\<lparr>use := True\<rparr> in if writing then e1\<lparr>dirty := True\<rparr> else e1)"

text \<open>What follows once the entry is found; \<open>upd\<close> stores the changed entry back in its table.\<close>

definition translate_entry ::
  "TranslationEntry \<Rightarrow> (TranslationEntry \<Rightarrow> Machine) \<Rightarrow> nat \<Rightarrow> nat \<Rightarrow> bool \<Rightarrow> Machine \<Rightarrow>
     (ExceptionType \<times> nat \<times> Machine) res" where
  "translate_entry e upd offset sz writing m =
     (if readOnly e \<and> writing then Inr (ReadOnlyException, 0, m)
      else let pageFrame = unat (physicalPage e) in
        if NumPhysPages \<le> pageFrame then Inr (BusErrorException, 0, m)
        else let physAddr = pageFrame * PageSize + offset in
          if physAddr + sz \<le> MemorySize then Inr (NoException, physAddr, upd (touch writing e))
          else Inl AssertionFailed)"

definition Translate :: "32 word \<Rightarrow> nat \<Rightarrow> bool \<Rightarrow> Machine \<Rightarrow> (ExceptionType \<times> nat \<times> Machine) res" where
  "Translate virtAddr sz writing m =
     (if misaligned virtAddr sz then Inr (AddressErrorException, 0, m)
      else let vpn = unat virtAddr div PageSize; offset = unat virtAddr mod PageSize in
        case (tlb m, pageTable m) of
          (Some _, Some _) \<Rightarrow> Inl AssertionFailed
        | (None, None) \<Rightarrow> Inl AssertionFailed
        | (None, Some pt) \<Rightarrow>
            if pageTableSize m \<le> vpn then Inr (AddressErrorException, 0, m)
            else if length pt \<le> vpn then Inl OutOfBounds
            else if \<not> valid (pt ! vpn) then Inr (PageFaultException, 0, m)
            else translate_entry (pt ! vpn) (\<lambda>e. m\<lparr>pageTable := Some (pt[vpn := e])\<rparr>) offset sz writing m
        | (Some t, None) \<Rightarrow>
            (case find_index (tlb_match vpn) t of
               None \<Rightarrow> Inr (PageFaultException, 0, m)
             | Some i \<Rightarrow> translate_entry (t ! i) (\<lambda>e. m\<lparr>tlb := Some (t[i := e])\<rparr>) offset sz writing m))"

section \<open>Memory access\<close>

text \<open>
  \<^verbatim>\<open>ReadMem\<close> and \<^verbatim>\<open>WriteMem\<close>: \<open>None\<close> is the result FALSE, after the exception was handled. A byte
  is read as a \<^verbatim>\<open>char\<close> and so sign-extended.
\<close>

definition mark_used :: "nat \<Rightarrow> Machine \<Rightarrow> Machine" where
  "mark_used physAddr m = m\<lparr>lastUsed := (lastUsed m)(physAddr div PageSize := totalTicks m)\<rparr>"

definition ReadMem :: "handler \<Rightarrow> 32 word \<Rightarrow> nat \<Rightarrow> Machine \<Rightarrow> (32 word option \<times> Machine) res" where
  "ReadMem h addr sz m =
     bindR (Translate addr sz False m) (\<lambda>(ex, physAddr, m1).
       if ex \<noteq> NoException then bindR (RaiseException h ex addr m1) (\<lambda>m2. Inr (None, m2))
       else if sz = 1 then Inr (Some (scast (mainMemory m1 physAddr)), mark_used physAddr m1)
       else if sz = 2
       then Inr (Some (ucast (ShortToHost (hostBig m1) (host_load16 (hostBig m1) (mainMemory m1) physAddr))),
                 mark_used physAddr m1)
       else if sz = 4
       then Inr (Some (WordToHost (hostBig m1) (host_load32 (hostBig m1) (mainMemory m1) physAddr)),
                 mark_used physAddr m1)
       else Inl AssertionFailed)"

definition WriteMem :: "handler \<Rightarrow> 32 word \<Rightarrow> nat \<Rightarrow> 32 word \<Rightarrow> Machine \<Rightarrow> (bool \<times> Machine) res" where
  "WriteMem h addr sz v m =
     bindR (Translate addr sz True m) (\<lambda>(ex, physAddr, m1).
       if ex \<noteq> NoException then bindR (RaiseException h ex addr m1) (\<lambda>m2. Inr (False, m2))
       else if sz = 1
       then Inr (True, mark_used physAddr
              (m1\<lparr>mainMemory := (mainMemory m1)(physAddr := ucast (v AND 0xff))\<rparr>))
       else if sz = 2
       then Inr (True, mark_used physAddr
              (m1\<lparr>mainMemory := host_store16 (hostBig m1) (mainMemory m1) physAddr
                 (ShortToMachine (hostBig m1) (ucast (v AND 0xffff)))\<rparr>))
       else if sz = 4
       then Inr (True, mark_used physAddr
              (m1\<lparr>mainMemory := host_store32 (hostBig m1) (mainMemory m1) physAddr (WordToMachine (hostBig m1) v)\<rparr>))
       else Inl AssertionFailed)"

section \<open>Translation is correct\<close>

text \<open>\<open>well_mapped\<close>: the machine has a TLB of the right size or a page table, not both.\<close>

definition well_mapped :: "Machine \<Rightarrow> bool" where
  "well_mapped m \<longleftrightarrow> (case (tlb m, pageTable m) of
     (Some t, None) \<Rightarrow> length t = TLBSize
   | (None, Some pt) \<Rightarrow> pageTableSize m \<le> length pt
   | _ \<Rightarrow> False)"

definition lookup_entry :: "Machine \<Rightarrow> nat \<Rightarrow> TranslationEntry option" where
  "lookup_entry m vpn = (case (tlb m, pageTable m) of
     (Some t, None) \<Rightarrow> List.find (tlb_match vpn) t
   | (None, Some pt) \<Rightarrow> if vpn < pageTableSize m \<and> valid (pt ! vpn) then Some (pt ! vpn) else None
   | _ \<Rightarrow> None)"

lemma find_index_find:
  "List.find P xs = (case find_index P xs of None \<Rightarrow> None | Some i \<Rightarrow> Some (xs ! i))"
  by (induction xs) (auto split: option.splits)

lemma find_update:
  "find_index P xs = Some i \<Longrightarrow> P y \<Longrightarrow> List.find P (xs[i := y]) = Some y"
  by (induction xs arbitrary: i) (auto split: if_splits nat.splits)

lemma aligned_mod:
  fixes w :: "32 word"
  shows "(w AND 3) = 0 \<Longrightarrow> unat w mod 4 = 0" "(w AND 1) = 0 \<Longrightarrow> unat w mod 2 = 0"
proof -
  have "w AND 3 = take_bit 2 w" by (simp add: take_bit_eq_mask mask_eq_exp_minus_1)
  moreover have "unat (take_bit 2 w) = unat w mod 4" by (simp add: unsigned_take_bit_eq take_bit_eq_mod [where 'a = nat])
  ultimately show "(w AND 3) = 0 \<Longrightarrow> unat w mod 4 = 0" by simp
  have "w AND 1 = take_bit 1 w" by (simp add: take_bit_eq_mask mask_eq_exp_minus_1)
  moreover have "unat (take_bit 1 w) = unat w mod 2" by (simp only: unsigned_take_bit_eq take_bit_eq_mod [where 'a = nat]) simp
  ultimately show "(w AND 1) = 0 \<Longrightarrow> unat w mod 2 = 0" by simp
qed

lemma offset_fits:
  assumes "\<not> misaligned w sz" "sz \<in> {1, 2, 4}" "f < NumPhysPages"
  shows "f * PageSize + unat w mod PageSize + sz \<le> MemorySize"
    "(f * PageSize + unat w mod PageSize) div PageSize = f"
    "unat w mod PageSize + sz \<le> PageSize"
proof -
  have m4: "sz = 4 \<Longrightarrow> unat w mod 4 = 0" and m2: "sz = 2 \<Longrightarrow> unat w mod 2 = 0"
    using assms(1) aligned_mod by (auto simp: misaligned_def)
  have "unat w mod 128 mod 4 = unat w mod 4" "unat w mod 128 mod 2 = unat w mod 2"
    by (simp_all add: mod_mod_cancel)
  moreover have "unat w mod 128 < 128" by simp
  moreover have "x mod 4 = 0 \<Longrightarrow> x + 4 \<le> 128" "x mod 2 = 0 \<Longrightarrow> x + 2 \<le> 128" if "x < 128" for x :: nat
    using that by presburger+
  ultimately have "unat w mod PageSize + sz \<le> PageSize" using assms(2) m4 m2 by fastforce
  then show "unat w mod PageSize + sz \<le> PageSize"
    "f * PageSize + unat w mod PageSize + sz \<le> MemorySize" using assms(3) by auto
  show "(f * PageSize + unat w mod PageSize) div PageSize = f" by simp
qed


text \<open>The result of a translation, by cases on the entry found; the assertions in the code hold.\<close>

definition translate_result :: "TranslationEntry option \<Rightarrow> 32 word \<Rightarrow> nat \<Rightarrow> bool \<Rightarrow> ExceptionType" where
  "translate_result eo w sz writing =
     (if misaligned w sz then AddressErrorException
      else case eo of
        None \<Rightarrow> PageFaultException
      | Some e \<Rightarrow>
          if readOnly e \<and> writing then ReadOnlyException
          else if NumPhysPages \<le> unat (physicalPage e) then BusErrorException else NoException)"

lemma translate_entry_ok:
  assumes "\<not> misaligned w sz" "sz \<in> {1, 2, 4}"
  shows "translate_entry e upd (unat w mod PageSize) sz writing m =
    (let ex = translate_result (Some e) w sz writing in
     Inr (if ex = NoException
       then (ex, unat (physicalPage e) * PageSize + unat w mod PageSize, upd (touch writing e)) else (ex, 0, m)))"
  using offset_fits(1) [OF assms, of "unat (physicalPage e)"] assms(1)
  by (auto simp: translate_entry_def translate_result_def Let_def)

lemma lookup_touch:
  "tlb_match vpn e \<Longrightarrow> tlb_match vpn (touch writing e)" "valid (touch writing e) = valid e"
  by (auto simp: touch_def tlb_match_def Let_def)

definition memory_part :: "Machine \<Rightarrow> Machine" where
  "memory_part m = m\<lparr>tlb := None, pageTable := None\<rparr>"

lemma memory_partD:
  assumes "memory_part m1 = memory_part m"
  shows "mainMemory m1 = mainMemory m" "registers m1 = registers m" "hostBig m1 = hostBig m" "totalTicks m1 = totalTicks m"
proof -
  show "mainMemory m1 = mainMemory m" using arg_cong [OF assms, of mainMemory] by (simp add: memory_part_def)
  show "registers m1 = registers m" using arg_cong [OF assms, of registers] by (simp add: memory_part_def)
  show "hostBig m1 = hostBig m" using arg_cong [OF assms, of hostBig] by (simp add: memory_part_def)
  show "totalTicks m1 = totalTicks m" using arg_cong [OF assms, of totalTicks] by (simp add: memory_part_def)
qed

lemma Translate_found:
  assumes "well_mapped m" "sz \<in> {1, 2, 4}" "lookup_entry m (unat w div PageSize) = Some e"
    "translate_result (Some e) w sz writing = NoException"
  shows "\<exists>m'. Translate w sz writing m = Inr (NoException, unat (physicalPage e) * PageSize + unat w mod PageSize, m') \<and>
    lookup_entry m' (unat w div PageSize) = Some (touch writing e) \<and> memory_part m' = memory_part m \<and> well_mapped m'"
proof -
  have al: "\<not> misaligned w sz" using assms(4) by (auto simp: translate_result_def)
  note te = translate_entry_ok [OF al assms(2)]
  consider t where "tlb m = Some t" "pageTable m = None" | pt where "tlb m = None" "pageTable m = Some pt"
    using assms(1) by (auto simp: well_mapped_def split: option.splits)
  then show ?thesis
  proof cases
    case 1
    then obtain i where i: "find_index (tlb_match (unat w div PageSize)) t = Some i" "e = t ! i"
      using assms(3) by (auto simp: lookup_entry_def find_index_find split: option.splits)
    then have "tlb_match (unat w div PageSize) e" using find_index_SomeD by blast
    then show ?thesis using 1 i al te assms(1,4)
      by (auto simp: Translate_def Let_def lookup_entry_def find_update lookup_touch memory_part_def well_mapped_def)
  next
    case 2
    then show ?thesis using al te assms
      by (auto simp: Translate_def Let_def lookup_entry_def lookup_touch memory_part_def well_mapped_def
          split: if_splits)
  qed
qed

lemma Translate_refused:
  assumes "well_mapped m" "sz \<in> {1, 2, 4}"
    "translate_result (lookup_entry m (unat w div PageSize)) w sz writing \<noteq> NoException"
  shows "\<exists>ex. Translate w sz writing m = Inr (ex, 0, m) \<and> ex \<noteq> NoException \<and>
    (ex = translate_result (lookup_entry m (unat w div PageSize)) w sz writing \<or>
     pageTable m \<noteq> None \<and> pageTableSize m \<le> unat w div PageSize \<and> ex = AddressErrorException)"
proof (cases "misaligned w sz")
  case True
  then show ?thesis by (simp add: Translate_def translate_result_def)
next
  case al: False
  note te = translate_entry_ok [OF al assms(2)]
  consider t where "tlb m = Some t" "pageTable m = None" | pt where "tlb m = None" "pageTable m = Some pt"
    using assms(1) by (auto simp: well_mapped_def split: option.splits)
  then show ?thesis
  proof cases
    case 1
    then show ?thesis using al te assms(3)
      by (auto simp: Translate_def Let_def lookup_entry_def find_index_find translate_result_def
          split: option.splits)
  next
    case 2
    then show ?thesis using al te assms(1,3)
      by (auto simp: Translate_def Let_def lookup_entry_def well_mapped_def translate_result_def
          split: option.splits if_splits)
  qed
qed

section \<open>Byte order does not matter\<close>

lemma byte_masks:
  "(0xff :: 32 word) = mask 8" "(0xff00 :: 32 word) = push_bit 8 (mask 8)"
  "(0xff0000 :: 32 word) = push_bit 16 (mask 8)" "(0xff000000 :: 32 word) = push_bit 24 (mask 8)"
  "(0xff :: 16 word) = mask 8" "(0xff00 :: 16 word) = push_bit 8 (mask 8)"
  by (simp_all add: mask_eq_exp_minus_1 push_bit_eq_mult)

lemma byte_bit: "8 \<le> k \<Longrightarrow> \<not> bit (b :: 8 word) k"
  using bit_imp_le_length [of b k] by auto

lemma word32_cases:
  assumes "n < (32 :: nat)"
  obtains "n < 8" | "8 \<le> n" "n < 16" | "16 \<le> n" "n < 24" | "24 \<le> n" "n < 32"
  using assms by linarith

lemma load32_little: "WordToHost big (host_load32 big mem a) = host_load32 False mem a"
proof (cases big)
  case True
  show ?thesis unfolding WordToHost_def host_load32_def byte_masks True if_True
  proof (simp only: if_False, rule bit_word_eqI, goal_cases)
    case (1 n)
    then have "n < 32" by simp
    then show ?case by (cases rule: word32_cases) (auto simp: bit_simps byte_bit)
  qed
qed (simp add: WordToHost_def)

lemma load16_little: "ShortToHost big (host_load16 big mem a) = host_load16 False mem a"
proof (cases big)
  case True
  show ?thesis unfolding ShortToHost_def host_load16_def byte_masks True if_True
  proof (simp only: if_False, rule bit_word_eqI, goal_cases)
    case (1 n)
    then show ?case by (cases "n < 8") (auto simp: bit_simps byte_bit)
  qed
qed (simp add: ShortToHost_def)

lemma load_store32: "host_load32 big (host_store32 big mem a w) a = w"
proof (rule bit_word_eqI)
  fix n assume "n < LENGTH(32)"
  then have "n < 32" by simp
  then show "bit (host_load32 big (host_store32 big mem a w) a) n = bit w n"
    by (cases rule: word32_cases) (auto simp: host_load32_def host_store32_def bit_simps)
qed

lemma load_store16: "host_load16 big (host_store16 big mem a w) a = w"
proof (rule bit_word_eqI)
  fix n assume "n < LENGTH(16)"
  then show "bit (host_load16 big (host_store16 big mem a w) a) n = bit w n"
    by (cases "n < 8") (auto simp: host_load16_def host_store16_def bit_simps)
qed


lemma swapped_bytes:
  "(ucast (drop_bit 24 (WordToHost True w)) :: 8 word) = ucast w"
  "(ucast (drop_bit 16 (WordToHost True w)) :: 8 word) = ucast (drop_bit 8 w)"
  "(ucast (drop_bit 8 (WordToHost True w)) :: 8 word) = ucast (drop_bit 16 w)"
  "(ucast (WordToHost True w) :: 8 word) = ucast (drop_bit 24 w)"
  "(ucast (drop_bit 8 (ShortToHost True v)) :: 8 word) = ucast v"
  "(ucast (ShortToHost True v) :: 8 word) = ucast (drop_bit 8 v)"
  unfolding WordToHost_def ShortToHost_def byte_masks if_True
  by (rule bit_word_eqI; auto simp: bit_simps)+

lemma store32_little: "host_store32 big mem a (WordToMachine big w) = host_store32 False mem a w"
  by (cases big) (auto simp: host_store32_def WordToMachine_def swapped_bytes WordToHost_def [of False])

lemma store16_little: "host_store16 big mem a (ShortToMachine big w) = host_store16 False mem a w"
  by (cases big) (auto simp: host_store16_def ShortToMachine_def swapped_bytes ShortToHost_def [of False])

section \<open>Reading and writing\<close>

definition page_ok :: "Machine \<Rightarrow> 32 word \<Rightarrow> nat \<Rightarrow> bool \<Rightarrow> TranslationEntry \<Rightarrow> bool" where
  "page_ok m w sz writing e \<longleftrightarrow> well_mapped m \<and> sz \<in> {1, 2, 4} \<and>
     lookup_entry m (unat w div PageSize) = Some e \<and> translate_result (Some e) w sz writing = NoException"

definition phys_addr :: "TranslationEntry \<Rightarrow> 32 word \<Rightarrow> nat" where
  "phys_addr e w = unat (physicalPage e) * PageSize + unat w mod PageSize"

text \<open>The bytes at an address as a number, least significant first, and the bytes a write leaves there.\<close>

definition read_value :: "(nat \<Rightarrow> 8 word) \<Rightarrow> nat \<Rightarrow> nat \<Rightarrow> 32 word" where
  "read_value mem sz a =
     (if sz = 1 then scast (mem a) else if sz = 2 then ucast (host_load16 False mem a) else host_load32 False mem a)"

definition written :: "(nat \<Rightarrow> 8 word) \<Rightarrow> nat \<Rightarrow> nat \<Rightarrow> 32 word \<Rightarrow> nat \<Rightarrow> 8 word" where
  "written mem sz a v =
     (if sz = 1 then mem(a := ucast v) else if sz = 2 then host_store16 False mem a (ucast v)
      else host_store32 False mem a v)"

lemma low_masks:
  fixes v :: "32 word"
  shows "(ucast (v AND 0xff) :: 8 word) = ucast v" "(ucast (v AND 0xffff) :: 16 word) = ucast v"
proof -
  have m: "(0xff :: 32 word) = mask 8" "(0xffff :: 32 word) = mask 16" by (simp_all add: mask_eq_exp_minus_1)
  show "(ucast (v AND 0xff) :: 8 word) = ucast v" "(ucast (v AND 0xffff) :: 16 word) = ucast v"
    unfolding m by (auto intro!: bit_word_eqI simp: bit_simps)
qed

lemma ReadMem_ok:
  assumes "page_ok m w sz False e"
  shows "\<exists>m'. ReadMem h w sz m = Inr (Some (read_value (mainMemory m) sz (phys_addr e w)), m') \<and>
    mainMemory m' = mainMemory m \<and> registers m' = registers m"
proof -
  obtain m1 where m1: "Translate w sz False m = Inr (NoException, phys_addr e w, m1)" "memory_part m1 = memory_part m"
    using Translate_found [of m sz w e False] assms by (auto simp: page_ok_def phys_addr_def)
  have "mainMemory m1 = mainMemory m" "registers m1 = registers m"
    using memory_partD [OF m1(2)] by simp_all
  moreover have "sz = 1 \<or> sz = 2 \<or> sz = 4" using assms by (auto simp: page_ok_def)
  ultimately show ?thesis using m1(1)
    by (auto simp: ReadMem_def read_value_def load32_little load16_little mark_used_def)
qed

lemma mapping_frame [simp]:
  "well_mapped (m\<lparr>mainMemory := mem\<rparr>) = well_mapped m" "well_mapped (mark_used a m) = well_mapped m"
  "lookup_entry (m\<lparr>mainMemory := mem\<rparr>) v = lookup_entry m v" "lookup_entry (mark_used a m) v = lookup_entry m v"
  "mainMemory (mark_used a m) = mainMemory m" "registers (mark_used a m) = registers m"
  by (auto simp: well_mapped_def lookup_entry_def mark_used_def split: option.splits)

lemma WriteMem_ok:
  assumes "page_ok m w sz True e"
  shows "\<exists>m'. WriteMem h w sz v m = Inr (True, m') \<and>
    mainMemory m' = written (mainMemory m) sz (phys_addr e w) v \<and> registers m' = registers m \<and> well_mapped m' \<and>
    lookup_entry m' (unat w div PageSize) = Some (touch True e)"
proof -
  obtain m1 where m1: "Translate w sz True m = Inr (NoException, phys_addr e w, m1)" "memory_part m1 = memory_part m"
    "lookup_entry m1 (unat w div PageSize) = Some (touch True e)" "well_mapped m1"
    using Translate_found [of m sz w e True] assms by (auto simp: page_ok_def phys_addr_def)
  have "mainMemory m1 = mainMemory m" "registers m1 = registers m"
    using memory_partD [OF m1(2)] by simp_all
  moreover have "sz = 1 \<or> sz = 2 \<or> sz = 4" using assms by (auto simp: page_ok_def)
  ultimately show ?thesis using m1(1,3,4)
    by (auto simp: WriteMem_def written_def store32_little store16_little low_masks)
qed

lemma read_written:
  "sz \<in> {1, 2, 4} \<Longrightarrow> read_value (written mem sz a v) sz a =
    (if sz = 1 then scast (ucast v :: 8 word) else if sz = 2 then ucast (ucast v :: 16 word) else v)"
  by (auto simp: read_value_def written_def load_store32 load_store16)

lemma written_frame:
  "sz \<in> {1, 2, 4} \<Longrightarrow> b \<notin> {a..<a + sz} \<Longrightarrow> written mem sz a v b = mem b"
  by (auto simp: written_def host_store16_def host_store32_def)

section \<open>Properties\<close>

definition demo_entry :: TranslationEntry where
  "demo_entry = \<lparr>virtualPage = 3, physicalPage = 7, valid = True, readOnly = False, use = False, dirty = False\<rparr>"

definition demo_machine :: Machine where
  "demo_machine = (new_Machine True (replicate 4 demo_entry) 0 False UserMode)
     \<lparr>tlb := Some [demo_entry\<lparr>valid := False\<rparr>, demo_entry, demo_entry, demo_entry]\<rparr>"

lemma demo_page_ok: "page_ok demo_machine 400 4 writing demo_entry"
proof -
  have "(400 AND 3 :: 32 word) = 0" by simp
  then show ?thesis
    by (simp add: page_ok_def demo_machine_def demo_entry_def new_Machine_def well_mapped_def lookup_entry_def
      tlb_match_def translate_result_def misaligned_def)
qed

text \<open>
  C35: Address translation. An access of 1, 2 or 4 bytes never violates an assertion: it succeeds
  exactly when it is aligned, the page has a valid entry, the page may be accessed that way
  and the frame exists; then the physical address is the same offset in that frame, lies with
  all its bytes inside main memory, and the entry's use bit (and dirty bit, for a write) is set.
  Otherwise an exception is reported and nothing changes.
\<close>

theorem Translate_correct:
  assumes "well_mapped m" "sz \<in> {1, 2, 4}"
  shows "case lookup_entry m (unat w div PageSize) of
      Some e \<Rightarrow>
        (if translate_result (Some e) w sz writing = NoException
         then \<exists>m'. Translate w sz writing m = Inr (NoException, phys_addr e w, m') \<and>
             phys_addr e w + sz \<le> MemorySize \<and> phys_addr e w div PageSize = unat (physicalPage e) \<and>
             phys_addr e w mod PageSize = unat w mod PageSize \<and>
             lookup_entry m' (unat w div PageSize) = Some (touch writing e) \<and> memory_part m' = memory_part m
         else \<exists>ex. ex \<noteq> NoException \<and> Translate w sz writing m = Inr (ex, 0, m))
    | None \<Rightarrow> \<exists>ex. ex \<noteq> NoException \<and> Translate w sz writing m = Inr (ex, 0, m)"
proof (cases "lookup_entry m (unat w div PageSize)")
  case None
  then have "translate_result (lookup_entry m (unat w div PageSize)) w sz writing \<noteq> NoException"
    by (simp add: translate_result_def)
  then show ?thesis using Translate_refused [OF assms, of w writing] None by auto
next
  case (Some e)
  show ?thesis
  proof (cases "translate_result (Some e) w sz writing = NoException")
    case True
    then have "\<not> misaligned w sz" "unat (physicalPage e) < NumPhysPages"
      by (auto simp: translate_result_def split: if_splits)
    then show ?thesis
      using Translate_found [OF assms Some True] offset_fits [of w sz "unat (physicalPage e)"] assms(2) Some True
      by (auto simp: phys_addr_def)
  next
    case False
    then show ?thesis using Translate_refused [OF assms, of w writing] Some by auto
  qed
qed

theorem Translate_correct_witness:
  "\<exists>m'. Translate 400 4 True demo_machine = Inr (NoException, 912, m')"
  using Translate_correct [of demo_machine 4 400 True] demo_page_ok [of True]
  by (auto simp: page_ok_def phys_addr_def demo_entry_def)

text \<open>
  Memory behaves as memory, on hosts of either byte order: reading back what was just
  written gives the value written (the low 16 bits for a short, the sign-extended low
  byte for a byte).
\<close>

theorem read_after_write:
  assumes "page_ok m w sz True e"
  shows "\<exists>m1 m2. WriteMem h w sz v m = Inr (True, m1) \<and>
    ReadMem h w sz m1 = Inr (Some (if sz = 1 then scast (ucast v :: 8 word)
       else if sz = 2 then ucast (ucast v :: 16 word) else v), m2)"
proof -
  obtain m1 where m1: "WriteMem h w sz v m = Inr (True, m1)"
    "mainMemory m1 = written (mainMemory m) sz (phys_addr e w) v"
    "well_mapped m1" "lookup_entry m1 (unat w div PageSize) = Some (touch True e)"
    using WriteMem_ok [OF assms(1), of h v] by blast
  have t: "phys_addr (touch True e) w = phys_addr e w" by (simp add: phys_addr_def touch_def Let_def)
  have "page_ok m1 w sz False (touch True e)"
    using assms m1 by (auto simp: page_ok_def translate_result_def touch_def Let_def split: if_splits)
  from ReadMem_ok [OF this, of h] t m1 read_written [of sz] assms(1) show ?thesis
    by (auto simp: page_ok_def)
qed

theorem read_after_write_witness:
  "\<exists>m1 m2. WriteMem (\<lambda>_. Inr) 400 4 0xdeadbeef demo_machine = Inr (True, m1) \<and>
     ReadMem (\<lambda>_. Inr) 400 4 m1 = Inr (Some 0xdeadbeef, m2)"
  using read_after_write [where h = "\<lambda>_. Inr" and v = "0xdeadbeef", OF demo_page_ok] by simp

text \<open>
  A write changes only the addressed bytes, and these lie in the frame that the page's
  translation entry names: no access reaches another page's frame.
\<close>

theorem write_stays_in_frame:
  assumes "page_ok m w sz True e"
  shows "\<exists>m'. WriteMem h w sz v m = Inr (True, m') \<and>
    (\<forall>b. mainMemory m' b \<noteq> mainMemory m b \<longrightarrow>
       phys_addr e w \<le> b \<and> b < phys_addr e w + sz \<and> b div PageSize = unat (physicalPage e) \<and> b < MemorySize)"
proof -
  have al: "\<not> misaligned w sz" "sz \<in> {1, 2, 4}" "unat (physicalPage e) < NumPhysPages"
    using assms by (auto simp: page_ok_def translate_result_def split: if_splits)
  note fits = offset_fits [OF al]
  have "b div PageSize = unat (physicalPage e) \<and> b < MemorySize"
    if "phys_addr e w \<le> b" "b < phys_addr e w + sz" for b
  proof -
    have "b = unat (physicalPage e) * PageSize + (b - unat (physicalPage e) * PageSize)"
      "b - unat (physicalPage e) * PageSize < PageSize"
      using that fits(3) by (auto simp: phys_addr_def)
    then have "b div PageSize = unat (physicalPage e)" by (metis div_mult_self3 div_less add_0_right add.commute zero_neq_numeral)
    then show ?thesis using that fits(1) by (simp add: phys_addr_def)
  qed
  moreover obtain m' where "WriteMem h w sz v m = Inr (True, m')"
    and mem: "mainMemory m' = written (mainMemory m) sz (phys_addr e w) v" using WriteMem_ok [OF assms] by blast
  moreover have "phys_addr e w \<le> b \<and> b < phys_addr e w + sz" if "mainMemory m' b \<noteq> mainMemory m b" for b
  proof -
    have "b \<in> {phys_addr e w..<phys_addr e w + sz}" using that mem written_frame [OF al(2)] by metis
    then show ?thesis by simp
  qed
  ultimately show ?thesis by blast
qed

theorem write_stays_in_frame_witness:
  "\<exists>m'. WriteMem (\<lambda>_. Inr) 400 4 1 demo_machine = Inr (True, m') \<and> mainMemory m' 911 = 0 \<and> mainMemory m' 916 = 0"
proof -
  have d: "phys_addr demo_entry 400 = 912" "mainMemory demo_machine b = 0" for b
    by (simp_all add: phys_addr_def demo_entry_def demo_machine_def new_Machine_def)
  obtain m' where m': "WriteMem (\<lambda>_. Inr) 400 4 1 demo_machine = Inr (True, m')"
    "mainMemory m' b \<noteq> mainMemory demo_machine b \<Longrightarrow> 912 \<le> b \<and> b < 916" for b
    using write_stays_in_frame [where h = "\<lambda>_. Inr" and v = 1, OF demo_page_ok] d(1) by auto
  then show ?thesis using m'(2) [of 911] m'(2) [of 916] d(2) by auto
qed

end
