(* ===== verification/Mips_Sim.thy ===== *)
theory Mips_Sim
  imports Machine_Memory "HOL-Library.Signed_Division"
begin

unbundle bit_operations_syntax

text \<open>
  The MIPS simulator, \<^verbatim>\<open>machine/mipssim.cc\<close> and \<^verbatim>\<open>machine/mipssim.h\<close>: decoding, one definition
  per case of the switch of \<^verbatim>\<open>Machine::OneInstruction\<close>, delayed loads and branches, and the
  multiplication routine.
\<close>

section \<open>Operation codes and decoding\<close>

abbreviation (input) OP_ADD :: nat where "OP_ADD \<equiv> 1"
abbreviation (input) OP_ADDI :: nat where "OP_ADDI \<equiv> 2"
abbreviation (input) OP_ADDIU :: nat where "OP_ADDIU \<equiv> 3"
abbreviation (input) OP_ADDU :: nat where "OP_ADDU \<equiv> 4"
abbreviation (input) OP_AND :: nat where "OP_AND \<equiv> 5"
abbreviation (input) OP_ANDI :: nat where "OP_ANDI \<equiv> 6"
abbreviation (input) OP_BEQ :: nat where "OP_BEQ \<equiv> 7"
abbreviation (input) OP_BGEZ :: nat where "OP_BGEZ \<equiv> 8"
abbreviation (input) OP_BGEZAL :: nat where "OP_BGEZAL \<equiv> 9"
abbreviation (input) OP_BGTZ :: nat where "OP_BGTZ \<equiv> 10"
abbreviation (input) OP_BLEZ :: nat where "OP_BLEZ \<equiv> 11"
abbreviation (input) OP_BLTZ :: nat where "OP_BLTZ \<equiv> 12"
abbreviation (input) OP_BLTZAL :: nat where "OP_BLTZAL \<equiv> 13"
abbreviation (input) OP_BNE :: nat where "OP_BNE \<equiv> 14"
abbreviation (input) OP_DIV :: nat where "OP_DIV \<equiv> 16"
abbreviation (input) OP_DIVU :: nat where "OP_DIVU \<equiv> 17"
abbreviation (input) OP_J :: nat where "OP_J \<equiv> 18"
abbreviation (input) OP_JAL :: nat where "OP_JAL \<equiv> 19"
abbreviation (input) OP_JALR :: nat where "OP_JALR \<equiv> 20"
abbreviation (input) OP_JR :: nat where "OP_JR \<equiv> 21"
abbreviation (input) OP_LB :: nat where "OP_LB \<equiv> 22"
abbreviation (input) OP_LBU :: nat where "OP_LBU \<equiv> 23"
abbreviation (input) OP_LH :: nat where "OP_LH \<equiv> 24"
abbreviation (input) OP_LHU :: nat where "OP_LHU \<equiv> 25"
abbreviation (input) OP_LUI :: nat where "OP_LUI \<equiv> 26"
abbreviation (input) OP_LW :: nat where "OP_LW \<equiv> 27"
abbreviation (input) OP_LWL :: nat where "OP_LWL \<equiv> 28"
abbreviation (input) OP_LWR :: nat where "OP_LWR \<equiv> 29"
abbreviation (input) OP_MFHI :: nat where "OP_MFHI \<equiv> 31"
abbreviation (input) OP_MFLO :: nat where "OP_MFLO \<equiv> 32"
abbreviation (input) OP_MTHI :: nat where "OP_MTHI \<equiv> 34"
abbreviation (input) OP_MTLO :: nat where "OP_MTLO \<equiv> 35"
abbreviation (input) OP_MULT :: nat where "OP_MULT \<equiv> 36"
abbreviation (input) OP_MULTU :: nat where "OP_MULTU \<equiv> 37"
abbreviation (input) OP_NOR :: nat where "OP_NOR \<equiv> 38"
abbreviation (input) OP_OR :: nat where "OP_OR \<equiv> 39"
abbreviation (input) OP_ORI :: nat where "OP_ORI \<equiv> 40"
abbreviation (input) OP_RFE :: nat where "OP_RFE \<equiv> 41"
abbreviation (input) OP_SB :: nat where "OP_SB \<equiv> 42"
abbreviation (input) OP_SH :: nat where "OP_SH \<equiv> 43"
abbreviation (input) OP_SLL :: nat where "OP_SLL \<equiv> 44"
abbreviation (input) OP_SLLV :: nat where "OP_SLLV \<equiv> 45"
abbreviation (input) OP_SLT :: nat where "OP_SLT \<equiv> 46"
abbreviation (input) OP_SLTI :: nat where "OP_SLTI \<equiv> 47"
abbreviation (input) OP_SLTIU :: nat where "OP_SLTIU \<equiv> 48"
abbreviation (input) OP_SLTU :: nat where "OP_SLTU \<equiv> 49"
abbreviation (input) OP_SRA :: nat where "OP_SRA \<equiv> 50"
abbreviation (input) OP_SRAV :: nat where "OP_SRAV \<equiv> 51"
abbreviation (input) OP_SRL :: nat where "OP_SRL \<equiv> 52"
abbreviation (input) OP_SRLV :: nat where "OP_SRLV \<equiv> 53"
abbreviation (input) OP_SUB :: nat where "OP_SUB \<equiv> 54"
abbreviation (input) OP_SUBU :: nat where "OP_SUBU \<equiv> 55"
abbreviation (input) OP_SW :: nat where "OP_SW \<equiv> 56"
abbreviation (input) OP_SWL :: nat where "OP_SWL \<equiv> 57"
abbreviation (input) OP_SWR :: nat where "OP_SWR \<equiv> 58"
abbreviation (input) OP_XOR :: nat where "OP_XOR \<equiv> 59"
abbreviation (input) OP_XORI :: nat where "OP_XORI \<equiv> 60"
abbreviation (input) OP_SYSCALL :: nat where "OP_SYSCALL \<equiv> 61"
abbreviation (input) OP_UNIMP :: nat where "OP_UNIMP \<equiv> 62"
abbreviation (input) OP_RES :: nat where "OP_RES \<equiv> 63"
abbreviation (input) SPECIAL :: nat where "SPECIAL \<equiv> 100"
abbreviation (input) BCOND :: nat where "BCOND \<equiv> 101"

datatype format = IFMT | JFMT | RFMT

record Instruction =
  opCode :: nat
  rs :: nat
  rt :: nat
  rd :: nat
  extra :: "32 word"

definition opTable :: "(nat \<times> format) list" where
  "opTable =
    [(SPECIAL, RFMT), (BCOND, IFMT), (OP_J, JFMT), (OP_JAL, JFMT),
     (OP_BEQ, IFMT), (OP_BNE, IFMT), (OP_BLEZ, IFMT), (OP_BGTZ, IFMT),
     (OP_ADDI, IFMT), (OP_ADDIU, IFMT), (OP_SLTI, IFMT), (OP_SLTIU, IFMT),
     (OP_ANDI, IFMT), (OP_ORI, IFMT), (OP_XORI, IFMT), (OP_LUI, IFMT),
     (OP_UNIMP, IFMT), (OP_UNIMP, IFMT), (OP_UNIMP, IFMT), (OP_UNIMP, IFMT),
     (OP_RES, IFMT), (OP_RES, IFMT), (OP_RES, IFMT), (OP_RES, IFMT),
     (OP_RES, IFMT), (OP_RES, IFMT), (OP_RES, IFMT), (OP_RES, IFMT),
     (OP_RES, IFMT), (OP_RES, IFMT), (OP_RES, IFMT), (OP_RES, IFMT),
     (OP_LB, IFMT), (OP_LH, IFMT), (OP_LWL, IFMT), (OP_LW, IFMT),
     (OP_LBU, IFMT), (OP_LHU, IFMT), (OP_LWR, IFMT), (OP_RES, IFMT),
     (OP_SB, IFMT), (OP_SH, IFMT), (OP_SWL, IFMT), (OP_SW, IFMT),
     (OP_RES, IFMT), (OP_RES, IFMT), (OP_SWR, IFMT), (OP_RES, IFMT),
     (OP_UNIMP, IFMT), (OP_UNIMP, IFMT), (OP_UNIMP, IFMT), (OP_UNIMP, IFMT),
     (OP_RES, IFMT), (OP_RES, IFMT), (OP_RES, IFMT), (OP_RES, IFMT),
     (OP_UNIMP, IFMT), (OP_UNIMP, IFMT), (OP_UNIMP, IFMT), (OP_UNIMP, IFMT),
     (OP_RES, IFMT), (OP_RES, IFMT), (OP_RES, IFMT), (OP_RES, IFMT)]"

definition specialTable :: "nat list" where
  "specialTable =
    [OP_SLL, OP_RES, OP_SRL, OP_SRA, OP_SLLV, OP_RES, OP_SRLV, OP_SRAV,
     OP_JR, OP_JALR, OP_RES, OP_RES, OP_SYSCALL, OP_UNIMP, OP_RES, OP_RES,
     OP_MFHI, OP_MTHI, OP_MFLO, OP_MTLO, OP_RES, OP_RES, OP_RES, OP_RES,
     OP_MULT, OP_MULTU, OP_DIV, OP_DIVU, OP_RES, OP_RES, OP_RES, OP_RES,
     OP_ADD, OP_ADDU, OP_SUB, OP_SUBU, OP_AND, OP_OR, OP_XOR, OP_NOR,
     OP_RES, OP_RES, OP_SLT, OP_SLTU, OP_RES, OP_RES, OP_RES, OP_RES,
     OP_RES, OP_RES, OP_RES, OP_RES, OP_RES, OP_RES, OP_RES, OP_RES,
     OP_RES, OP_RES, OP_RES, OP_RES, OP_RES, OP_RES, OP_RES, OP_RES]"

definition Decode_extra :: "format \<Rightarrow> 32 word \<Rightarrow> 32 word" where
  "Decode_extra fmt v = (case fmt of
     IFMT \<Rightarrow> (let x = v AND 0xffff in if (x AND 0x8000) \<noteq> 0 then x OR 0xffff0000 else x)
   | RFMT \<Rightarrow> drop_bit 6 v AND 0x1f
   | JFMT \<Rightarrow> v AND 0x3ffffff)"

definition Decode_bcond :: "32 word \<Rightarrow> nat" where
  "Decode_bcond v = (let i = v AND 0x1f0000 in
     if i = 0 then OP_BLTZ
     else if i = 0x10000 then OP_BGEZ
     else if i = 0x100000 then OP_BLTZAL
     else if i = 0x110000 then OP_BGEZAL
     else OP_UNIMP)"

definition Decode :: "32 word \<Rightarrow> Instruction" where
  "Decode v =
     (let (op, fmt) = opTable ! unat (drop_bit 26 v AND 0x3f) in
      \<lparr>opCode = (if op = SPECIAL then specialTable ! unat (v AND 0x3f)
                 else if op = BCOND then Decode_bcond v else op),
       rs = unat (drop_bit 21 v AND 0x1f), rt = unat (drop_bit 16 v AND 0x1f),
       rd = unat (drop_bit 11 v AND 0x1f), extra = Decode_extra fmt v\<rparr>)"

section \<open>Multiplication\<close>

text \<open>
  The loop of \<^verbatim>\<open>Mult\<close>; \<open>n\<close> counts the rounds left. The multiplicand \<open>a\<close> is a signed
  \<^verbatim>\<open>int\<close>, so its right shift is arithmetic.
\<close>

fun Mult_loop :: "nat \<Rightarrow> 32 word \<Rightarrow> 32 word \<Rightarrow> 32 word \<Rightarrow> 32 word \<Rightarrow> 32 word \<Rightarrow> 32 word \<times> 32 word" where
  "Mult_loop 0 a bLo bHi lo hi = (hi, lo)"
| "Mult_loop (Suc n) a bLo bHi lo hi =
     (let lo1 = (if (a AND 1) \<noteq> 0 then lo + bLo else lo);
          hi1 = (if (a AND 1) \<noteq> 0 then (if lo1 < bLo then hi + 1 else hi) + bHi else hi)
      in if (a AND 1) \<noteq> 0 \<and> (a AND 0xfffffffe) = 0 then (hi1, lo1)
         else let bHi1 = push_bit 1 bHi;
                  bHi2 = (if (bLo AND 0x80000000) \<noteq> 0 then bHi1 OR 1 else bHi1)
              in Mult_loop n (signed_drop_bit 1 a) (push_bit 1 bLo) bHi2 lo1 hi1)"

definition Mult :: "32 word \<Rightarrow> 32 word \<Rightarrow> bool \<Rightarrow> 32 word \<times> 32 word" where
  "Mult a b signedArith =
     (if a = 0 \<or> b = 0 then (0, 0)
      else let na = signedArith \<and> sint a < 0; nb = signedArith \<and> sint b < 0;
               (hi, lo) = Mult_loop 32 (if na then - a else a) (if nb then - b else b) 0 0 0
           in if na \<noteq> nb
              then let hi1 = NOT hi; lo1 = NOT lo + 1 in (if lo1 = 0 then hi1 + 1 else hi1, lo1)
              else (hi, lo))"

section \<open>The cases of the switch\<close>

text \<open>
  A case either returns early, after an exception was raised and handled, or reaches the end of
  the switch with the machine, the register and value of the next delayed load, and
  the address for \<^verbatim>\<open>NextPCReg\<close>.
\<close>

datatype flow = Return Machine | Break Machine "32 word" "32 word" "32 word"

definition setReg :: "nat \<Rightarrow> 32 word \<Rightarrow> Machine \<Rightarrow> Machine" where
  "setReg r v m = m\<lparr>registers := (registers m)(r := v)\<rparr>"

abbreviation (input) SIGN_BIT :: "32 word" where "SIGN_BIT \<equiv> 0x80000000"

definition IndexToAddr :: "32 word \<Rightarrow> 32 word" where
  "IndexToAddr x = push_bit 2 x"

text \<open>No delayed load follows: \<open>to_end\<close> is the state after an ordinary case.\<close>

definition to_end :: "32 word \<Rightarrow> Machine \<Rightarrow> flow res" where
  "to_end pcAfter m = Inr (Break m 0 0 pcAfter)"

definition raise_return :: "handler \<Rightarrow> ExceptionType \<Rightarrow> 32 word \<Rightarrow> Machine \<Rightarrow> flow res" where
  "raise_return h ex badVAddr m = bindR (RaiseException h ex badVAddr m) (\<lambda>m'. Inr (Return m'))"

subsection \<open>Arithmetic and logic\<close>

definition exec_ADD :: "handler \<Rightarrow> Instruction \<Rightarrow> 32 word \<Rightarrow> Machine \<Rightarrow> flow res" where
  "exec_ADD h i pcAfter m =
     (let a = registers m (rs i); b = registers m (rt i); s = a + b in
      if ((a XOR b) AND SIGN_BIT) = 0 \<and> ((a XOR s) AND SIGN_BIT) \<noteq> 0
      then raise_return h OverflowException 0 m
      else to_end pcAfter (setReg (rd i) s m))"

definition exec_ADDI :: "handler \<Rightarrow> Instruction \<Rightarrow> 32 word \<Rightarrow> Machine \<Rightarrow> flow res" where
  "exec_ADDI h i pcAfter m =
     (let a = registers m (rs i); s = a + extra i in
      if ((a XOR extra i) AND SIGN_BIT) = 0 \<and> ((extra i XOR s) AND SIGN_BIT) \<noteq> 0
      then raise_return h OverflowException 0 m
      else to_end pcAfter (setReg (rt i) s m))"

definition exec_SUB :: "handler \<Rightarrow> Instruction \<Rightarrow> 32 word \<Rightarrow> Machine \<Rightarrow> flow res" where
  "exec_SUB h i pcAfter m =
     (let a = registers m (rs i); b = registers m (rt i); d = a - b in
      if ((a XOR b) AND SIGN_BIT) \<noteq> 0 \<and> ((a XOR d) AND SIGN_BIT) \<noteq> 0
      then raise_return h OverflowException 0 m
      else to_end pcAfter (setReg (rd i) d m))"

text \<open>The cases that store a function of two registers in \<^verbatim>\<open>rd\<close>.\<close>

definition alu_RRR :: "(32 word \<Rightarrow> 32 word \<Rightarrow> 32 word) \<Rightarrow> Instruction \<Rightarrow> 32 word \<Rightarrow> Machine \<Rightarrow> flow res" where
  "alu_RRR f i pcAfter m = to_end pcAfter (setReg (rd i) (f (registers m (rs i)) (registers m (rt i))) m)"

text \<open>The cases that store a function of a register and the immediate operand in \<^verbatim>\<open>rt\<close>.\<close>

definition alu_RRI :: "(32 word \<Rightarrow> 32 word \<Rightarrow> 32 word) \<Rightarrow> Instruction \<Rightarrow> 32 word \<Rightarrow> Machine \<Rightarrow> flow res" where
  "alu_RRI f i pcAfter m = to_end pcAfter (setReg (rt i) (f (registers m (rs i)) (extra i)) m)"

definition op_ADDU :: "32 word \<Rightarrow> 32 word \<Rightarrow> 32 word" where "op_ADDU a b = a + b"
definition op_SUBU :: "32 word \<Rightarrow> 32 word \<Rightarrow> 32 word" where "op_SUBU a b = a - b"
definition op_AND :: "32 word \<Rightarrow> 32 word \<Rightarrow> 32 word" where "op_AND a b = a AND b"
definition op_NOR :: "32 word \<Rightarrow> 32 word \<Rightarrow> 32 word" where "op_NOR a b = NOT (a OR b)"
definition op_XOR :: "32 word \<Rightarrow> 32 word \<Rightarrow> 32 word" where "op_XOR a b = a XOR b"
definition op_OR :: "32 word \<Rightarrow> 32 word \<Rightarrow> 32 word" where "op_OR a b = a OR a"
definition op_ADDIU :: "32 word \<Rightarrow> 32 word \<Rightarrow> 32 word" where "op_ADDIU a x = a + x"
definition op_ANDI :: "32 word \<Rightarrow> 32 word \<Rightarrow> 32 word" where "op_ANDI a x = a AND (x AND 0xffff)"
definition op_ORI :: "32 word \<Rightarrow> 32 word \<Rightarrow> 32 word" where "op_ORI a x = a OR (x AND 0xffff)"
definition op_XORI :: "32 word \<Rightarrow> 32 word \<Rightarrow> 32 word" where "op_XORI a x = a XOR (x AND 0xffff)"
definition op_LUI :: "32 word \<Rightarrow> 32 word \<Rightarrow> 32 word" where "op_LUI a x = push_bit 16 x"
definition op_SLT :: "32 word \<Rightarrow> 32 word \<Rightarrow> 32 word" where "op_SLT a b = (if sint a < sint b then 1 else 0)"
definition op_SLTU :: "32 word \<Rightarrow> 32 word \<Rightarrow> 32 word" where "op_SLTU a b = (if a < b then 1 else 0)"
definition op_SLLV :: "32 word \<Rightarrow> 32 word \<Rightarrow> 32 word" where "op_SLLV a b = push_bit (unat (a AND 0x1f)) b"
definition op_SRAV :: "32 word \<Rightarrow> 32 word \<Rightarrow> 32 word" where "op_SRAV a b = signed_drop_bit (unat (a AND 0x1f)) b"
definition op_SRLV :: "32 word \<Rightarrow> 32 word \<Rightarrow> 32 word" where "op_SRLV a b = signed_drop_bit (unat (a AND 0x1f)) b"

definition exec_SLL :: "Instruction \<Rightarrow> 32 word \<Rightarrow> Machine \<Rightarrow> flow res" where
  "exec_SLL i pcAfter m = to_end pcAfter (setReg (rd i) (push_bit (unat (extra i)) (registers m (rt i))) m)"

definition exec_SRA :: "Instruction \<Rightarrow> 32 word \<Rightarrow> Machine \<Rightarrow> flow res" where
  "exec_SRA i pcAfter m = to_end pcAfter (setReg (rd i) (signed_drop_bit (unat (extra i)) (registers m (rt i))) m)"

definition exec_SRL :: "Instruction \<Rightarrow> 32 word \<Rightarrow> Machine \<Rightarrow> flow res" where
  "exec_SRL i pcAfter m = to_end pcAfter (setReg (rd i) (signed_drop_bit (unat (extra i)) (registers m (rt i))) m)"

subsection \<open>Branches and jumps\<close>

definition branch :: "bool \<Rightarrow> Instruction \<Rightarrow> 32 word \<Rightarrow> Machine \<Rightarrow> flow res" where
  "branch c i pcAfter m =
     to_end (if c then registers m NextPCReg + IndexToAddr (extra i) else pcAfter) m"

definition link :: "nat \<Rightarrow> Machine \<Rightarrow> Machine" where
  "link r m = setReg r (registers m NextPCReg + 4) m"

definition exec_BEQ :: "Instruction \<Rightarrow> 32 word \<Rightarrow> Machine \<Rightarrow> flow res" where
  "exec_BEQ i pcAfter m = branch (registers m (rs i) = registers m (rt i)) i pcAfter m"

definition exec_BGEZ :: "Instruction \<Rightarrow> 32 word \<Rightarrow> Machine \<Rightarrow> flow res" where
  "exec_BGEZ i pcAfter m = branch ((registers m (rs i) AND SIGN_BIT) = 0) i pcAfter m"

definition exec_BGEZAL :: "Instruction \<Rightarrow> 32 word \<Rightarrow> Machine \<Rightarrow> flow res" where
  "exec_BGEZAL i pcAfter m = exec_BGEZ i pcAfter (link RetAddrReg m)"

definition exec_BGTZ :: "Instruction \<Rightarrow> 32 word \<Rightarrow> Machine \<Rightarrow> flow res" where
  "exec_BGTZ i pcAfter m = branch (0 < sint (registers m (rs i))) i pcAfter m"

definition exec_BLEZ :: "Instruction \<Rightarrow> 32 word \<Rightarrow> Machine \<Rightarrow> flow res" where
  "exec_BLEZ i pcAfter m = branch (sint (registers m (rs i)) \<le> 0) i pcAfter m"

definition exec_BLTZ :: "Instruction \<Rightarrow> 32 word \<Rightarrow> Machine \<Rightarrow> flow res" where
  "exec_BLTZ i pcAfter m = branch ((registers m (rs i) AND SIGN_BIT) \<noteq> 0) i pcAfter m"

definition exec_BLTZAL :: "Instruction \<Rightarrow> 32 word \<Rightarrow> Machine \<Rightarrow> flow res" where
  "exec_BLTZAL i pcAfter m = exec_BLTZ i pcAfter (link RetAddrReg m)"

definition exec_BNE :: "Instruction \<Rightarrow> 32 word \<Rightarrow> Machine \<Rightarrow> flow res" where
  "exec_BNE i pcAfter m = branch (registers m (rs i) \<noteq> registers m (rt i)) i pcAfter m"

definition exec_J :: "Instruction \<Rightarrow> 32 word \<Rightarrow> Machine \<Rightarrow> flow res" where
  "exec_J i pcAfter m = to_end ((pcAfter AND 0xf0000000) OR IndexToAddr (extra i)) m"

definition exec_JAL :: "Instruction \<Rightarrow> 32 word \<Rightarrow> Machine \<Rightarrow> flow res" where
  "exec_JAL i pcAfter m = exec_J i pcAfter (link RetAddrReg m)"

definition exec_JR :: "Instruction \<Rightarrow> 32 word \<Rightarrow> Machine \<Rightarrow> flow res" where
  "exec_JR i pcAfter m = to_end (registers m (rs i)) m"

definition exec_JALR :: "Instruction \<Rightarrow> 32 word \<Rightarrow> Machine \<Rightarrow> flow res" where
  "exec_JALR i pcAfter m = exec_JR i pcAfter (link (rd i) m)"

subsection \<open>Multiplication and division\<close>

text \<open>Dividing the smallest number by -1 overflows: the host's division instruction traps.\<close>

definition exec_DIV :: "Instruction \<Rightarrow> 32 word \<Rightarrow> Machine \<Rightarrow> flow res" where
  "exec_DIV i pcAfter m =
     (let a = registers m (rs i); b = registers m (rt i) in
      if b = 0 then to_end pcAfter (setReg HiReg 0 (setReg LoReg 0 m))
      else if a = SIGN_BIT \<and> b = - 1 then Inl DivideTrap
      else to_end pcAfter (setReg HiReg (word_of_int (sint a smod sint b))
             (setReg LoReg (word_of_int (sint a sdiv sint b)) m)))"

definition exec_DIVU :: "Instruction \<Rightarrow> 32 word \<Rightarrow> Machine \<Rightarrow> flow res" where
  "exec_DIVU i pcAfter m =
     (let a = registers m (rs i); b = registers m (rt i) in
      if b = 0 then to_end pcAfter (setReg HiReg 0 (setReg LoReg 0 m))
      else to_end pcAfter (setReg HiReg (a mod b) (setReg LoReg (a div b) m)))"

definition exec_MULT :: "bool \<Rightarrow> Instruction \<Rightarrow> 32 word \<Rightarrow> Machine \<Rightarrow> flow res" where
  "exec_MULT signedArith i pcAfter m =
     (let (hi, lo) = Mult (registers m (rs i)) (registers m (rt i)) signedArith in
      to_end pcAfter (setReg LoReg lo (setReg HiReg hi m)))"

definition exec_MF :: "nat \<Rightarrow> Instruction \<Rightarrow> 32 word \<Rightarrow> Machine \<Rightarrow> flow res" where
  "exec_MF r i pcAfter m = to_end pcAfter (setReg (rd i) (registers m r) m)"

definition exec_MT :: "nat \<Rightarrow> Instruction \<Rightarrow> 32 word \<Rightarrow> Machine \<Rightarrow> flow res" where
  "exec_MT r i pcAfter m = to_end pcAfter (setReg r (registers m (rs i)) m)"

subsection \<open>Loads and stores\<close>

definition eff_addr :: "Instruction \<Rightarrow> Machine \<Rightarrow> 32 word" where
  "eff_addr i m = registers m (rs i) + extra i"

text \<open>\<open>load\<close>: read \<open>sz\<close> bytes and, unless an exception occurred, schedule \<open>f value\<close> for register \<^verbatim>\<open>rt\<close>.\<close>

definition load :: "handler \<Rightarrow> nat \<Rightarrow> (Machine \<Rightarrow> 32 word \<Rightarrow> 32 word) \<Rightarrow> Instruction \<Rightarrow> 32 word \<Rightarrow> Machine \<Rightarrow> flow res" where
  "load h sz f i pcAfter m =
     bindR (ReadMem h (eff_addr i m) sz m) (\<lambda>(vo, m1). case vo of
       None \<Rightarrow> Inr (Return m1)
     | Some v \<Rightarrow> Inr (Break m1 (of_nat (rt i)) (f m1 v) pcAfter))"

definition exec_LB :: "handler \<Rightarrow> Instruction \<Rightarrow> 32 word \<Rightarrow> Machine \<Rightarrow> flow res" where
  "exec_LB h i pcAfter m = load h 1 (\<lambda>_ v.
     if (v AND 0x80) \<noteq> 0 \<and> opCode i = OP_LB then v OR 0xffffff00 else v AND 0xff) i pcAfter m"

definition exec_LH :: "handler \<Rightarrow> Instruction \<Rightarrow> 32 word \<Rightarrow> Machine \<Rightarrow> flow res" where
  "exec_LH h i pcAfter m =
     (if (eff_addr i m AND 1) \<noteq> 0 then raise_return h AddressErrorException (eff_addr i m) m
      else load h 2 (\<lambda>_ v.
        if (v AND 0x8000) \<noteq> 0 \<and> opCode i = OP_LH then v OR 0xffff0000 else v AND 0xffff) i pcAfter m)"

definition exec_LW :: "handler \<Rightarrow> Instruction \<Rightarrow> 32 word \<Rightarrow> Machine \<Rightarrow> flow res" where
  "exec_LW h i pcAfter m =
     (if (eff_addr i m AND 3) \<noteq> 0 then raise_return h AddressErrorException (eff_addr i m) m
      else load h 4 (\<lambda>_ v. v) i pcAfter m)"

text \<open>The value that the pending delayed load, or else the register, gives to \<^verbatim>\<open>rt\<close>.\<close>

definition pending_value :: "Instruction \<Rightarrow> Machine \<Rightarrow> 32 word" where
  "pending_value i m = (if registers m LoadReg = of_nat (rt i) then registers m LoadValueReg else registers m (rt i))"

definition lwl_merge :: "nat \<Rightarrow> 32 word \<Rightarrow> 32 word \<Rightarrow> 32 word" where
  "lwl_merge k old v =
     (if k = 0 then v
      else if k = 1 then (old AND 0xff) OR push_bit 8 v
      else if k = 2 then (old AND 0xffff) OR push_bit 16 v
      else (old AND 0xffffff) OR push_bit 24 v)"

definition lwr_merge :: "nat \<Rightarrow> 32 word \<Rightarrow> 32 word \<Rightarrow> 32 word" where
  "lwr_merge k old v =
     (if k = 0 then (old AND 0xffffff00) OR (signed_drop_bit 24 v AND 0xff)
      else if k = 1 then (old AND 0xffff0000) OR (signed_drop_bit 16 v AND 0xffff)
      else if k = 2 then (old AND 0xff000000) OR (signed_drop_bit 8 v AND 0xffffff)
      else v)"

definition exec_LWL :: "handler \<Rightarrow> Instruction \<Rightarrow> 32 word \<Rightarrow> Machine \<Rightarrow> flow res" where
  "exec_LWL h i pcAfter m =
     (if (eff_addr i m AND 3) = 0
      then load h 4 (\<lambda>m1 v. lwl_merge (unat (eff_addr i m AND 3)) (pending_value i m1) v) i pcAfter m
      else Inl AssertionFailed)"

definition exec_LWR :: "handler \<Rightarrow> Instruction \<Rightarrow> 32 word \<Rightarrow> Machine \<Rightarrow> flow res" where
  "exec_LWR h i pcAfter m =
     (if (eff_addr i m AND 3) = 0
      then load h 4 (\<lambda>m1 v. lwr_merge (unat (eff_addr i m AND 3)) (pending_value i m1) v) i pcAfter m
      else Inl AssertionFailed)"

definition store :: "handler \<Rightarrow> 32 word \<Rightarrow> nat \<Rightarrow> 32 word \<Rightarrow> 32 word \<Rightarrow> Machine \<Rightarrow> flow res" where
  "store h addr sz v pcAfter m =
     bindR (WriteMem h addr sz v m) (\<lambda>(ok, m1). if ok then to_end pcAfter m1 else Inr (Return m1))"

definition exec_S :: "nat \<Rightarrow> handler \<Rightarrow> Instruction \<Rightarrow> 32 word \<Rightarrow> Machine \<Rightarrow> flow res" where
  "exec_S sz h i pcAfter m = store h (eff_addr i m) sz (registers m (rt i)) pcAfter m"

definition swl_merge :: "nat \<Rightarrow> 32 word \<Rightarrow> 32 word \<Rightarrow> 32 word" where
  "swl_merge k v r =
     (if k = 0 then r
      else if k = 1 then (v AND 0xff000000) OR (signed_drop_bit 8 r AND 0xffffff)
      else if k = 2 then (v AND 0xffff0000) OR (signed_drop_bit 16 r AND 0xffff)
      else (v AND 0xffffff00) OR (signed_drop_bit 24 r AND 0xff))"

definition swr_merge :: "nat \<Rightarrow> 32 word \<Rightarrow> 32 word \<Rightarrow> 32 word" where
  "swr_merge k v r =
     (if k = 0 then (v AND 0xffffff) OR push_bit 24 r
      else if k = 1 then (v AND 0xffff) OR push_bit 16 r
      else if k = 2 then (v AND 0xff) OR push_bit 8 r
      else r)"

definition read_merge_write ::
  "(nat \<Rightarrow> 32 word \<Rightarrow> 32 word \<Rightarrow> 32 word) \<Rightarrow> handler \<Rightarrow> Instruction \<Rightarrow> 32 word \<Rightarrow> Machine \<Rightarrow> flow res" where
  "read_merge_write f h i pcAfter m =
     (let tmp = eff_addr i m in
      if (tmp AND 3) = 0
      then bindR (ReadMem h (tmp AND NOT 3) 4 m) (\<lambda>(vo, m1). case vo of
          None \<Rightarrow> Inr (Return m1)
        | Some v \<Rightarrow> store h (tmp AND NOT 3) 4 (f (unat (tmp AND 3)) v (registers m1 (rt i))) pcAfter m1)
      else Inl AssertionFailed)"

definition exec_SWL :: "handler \<Rightarrow> Instruction \<Rightarrow> 32 word \<Rightarrow> Machine \<Rightarrow> flow res" where
  "exec_SWL = read_merge_write swl_merge"

definition exec_SWR :: "handler \<Rightarrow> Instruction \<Rightarrow> 32 word \<Rightarrow> Machine \<Rightarrow> flow res" where
  "exec_SWR = read_merge_write swr_merge"

section \<open>One instruction\<close>

definition exec_switch :: "handler \<Rightarrow> Instruction \<Rightarrow> 32 word \<Rightarrow> Machine \<Rightarrow> flow res" where
  "exec_switch h i pcAfter m =
     (let opc = opCode i in
      if opc = OP_ADD then exec_ADD h i pcAfter m
      else if opc = OP_ADDI then exec_ADDI h i pcAfter m
      else if opc = OP_ADDIU then alu_RRI op_ADDIU i pcAfter m
      else if opc = OP_ADDU then alu_RRR op_ADDU i pcAfter m
      else if opc = OP_AND then alu_RRR op_AND i pcAfter m
      else if opc = OP_ANDI then alu_RRI op_ANDI i pcAfter m
      else if opc = OP_BEQ then exec_BEQ i pcAfter m
      else if opc = OP_BGEZAL then exec_BGEZAL i pcAfter m
      else if opc = OP_BGEZ then exec_BGEZ i pcAfter m
      else if opc = OP_BGTZ then exec_BGTZ i pcAfter m
      else if opc = OP_BLEZ then exec_BLEZ i pcAfter m
      else if opc = OP_BLTZAL then exec_BLTZAL i pcAfter m
      else if opc = OP_BLTZ then exec_BLTZ i pcAfter m
      else if opc = OP_BNE then exec_BNE i pcAfter m
      else if opc = OP_DIV then exec_DIV i pcAfter m
      else if opc = OP_DIVU then exec_DIVU i pcAfter m
      else if opc = OP_JAL then exec_JAL i pcAfter m
      else if opc = OP_J then exec_J i pcAfter m
      else if opc = OP_JALR then exec_JALR i pcAfter m
      else if opc = OP_JR then exec_JR i pcAfter m
      else if opc = OP_LB \<or> opc = OP_LBU then exec_LB h i pcAfter m
      else if opc = OP_LH \<or> opc = OP_LHU then exec_LH h i pcAfter m
      else if opc = OP_LUI then alu_RRI op_LUI i pcAfter m
      else if opc = OP_LW then exec_LW h i pcAfter m
      else if opc = OP_LWL then exec_LWL h i pcAfter m
      else if opc = OP_LWR then exec_LWR h i pcAfter m
      else if opc = OP_MFHI then exec_MF HiReg i pcAfter m
      else if opc = OP_MFLO then exec_MF LoReg i pcAfter m
      else if opc = OP_MTHI then exec_MT HiReg i pcAfter m
      else if opc = OP_MTLO then exec_MT LoReg i pcAfter m
      else if opc = OP_MULT then exec_MULT True i pcAfter m
      else if opc = OP_MULTU then exec_MULT False i pcAfter m
      else if opc = OP_NOR then alu_RRR op_NOR i pcAfter m
      else if opc = OP_OR then alu_RRR op_OR i pcAfter m
      else if opc = OP_ORI then alu_RRI op_ORI i pcAfter m
      else if opc = OP_SB then exec_S 1 h i pcAfter m
      else if opc = OP_SH then exec_S 2 h i pcAfter m
      else if opc = OP_SLL then exec_SLL i pcAfter m
      else if opc = OP_SLLV then alu_RRR op_SLLV i pcAfter m
      else if opc = OP_SLT then alu_RRR op_SLT i pcAfter m
      else if opc = OP_SLTI then alu_RRI op_SLT i pcAfter m
      else if opc = OP_SLTIU then alu_RRI op_SLTU i pcAfter m
      else if opc = OP_SLTU then alu_RRR op_SLTU i pcAfter m
      else if opc = OP_SRA then exec_SRA i pcAfter m
      else if opc = OP_SRAV then alu_RRR op_SRAV i pcAfter m
      else if opc = OP_SRL then exec_SRL i pcAfter m
      else if opc = OP_SRLV then alu_RRR op_SRLV i pcAfter m
      else if opc = OP_SUB then exec_SUB h i pcAfter m
      else if opc = OP_SUBU then alu_RRR op_SUBU i pcAfter m
      else if opc = OP_SW then exec_S 4 h i pcAfter m
      else if opc = OP_SWL then exec_SWL h i pcAfter m
      else if opc = OP_SWR then exec_SWR h i pcAfter m
      else if opc = OP_SYSCALL then raise_return h SyscallException 0 m
      else if opc = OP_XOR then alu_RRR op_XOR i pcAfter m
      else if opc = OP_XORI then alu_RRI op_XORI i pcAfter m
      else if opc = OP_RES \<or> opc = OP_UNIMP then raise_return h IllegalInstrException 0 m
      else Inl AssertionFailed)"

definition advance_pc :: "32 word \<Rightarrow> Machine \<Rightarrow> Machine" where
  "advance_pc pcAfter m =
     m\<lparr>registers := (registers m)(PrevPCReg := registers m PCReg, PCReg := registers m NextPCReg,
                        NextPCReg := pcAfter)\<rparr>"

definition OneInstruction :: "handler \<Rightarrow> Machine \<Rightarrow> Machine res" where
  "OneInstruction h m =
     bindR (ReadMem h (registers m PCReg) 4 m) (\<lambda>(raw, m1). case raw of
       None \<Rightarrow> Inr m1
     | Some v \<Rightarrow>
         bindR (exec_switch h (Decode v) (registers m1 NextPCReg + 4) m1) (\<lambda>fl. case fl of
           Return m2 \<Rightarrow> Inr m2
         | Break m2 nextLoadReg nextLoadValue pcAfter \<Rightarrow>
             bindR (DelayedLoad nextLoadReg nextLoadValue m2) (\<lambda>m3. Inr (advance_pc pcAfter m3))))"

end
