(* ===== verification/Mips_Props.thy ===== *)
theory Mips_Props
  imports Mips_Sim
begin

unbundle bit_operations_syntax

text \<open>
  Correctness of the MIPS simulator: the shift-and-add multiplication computes the exact
  64-bit product, the overflow tests are exact, decoding always yields an operation
  the switch handles, and executing one instruction keeps the machine in a safe state.
\<close>

section \<open>Multiplication\<close>

text \<open>The double word held in the registers Hi and Lo.\<close>

definition dword :: "32 word \<Rightarrow> 32 word \<Rightarrow> 64 word" where
  "dword hi lo = word_of_int (uint hi * 2 ^ 32 + uint lo)"

lemma high_wrap: "(word_of_int (x mod 2 ^ 32 * 2 ^ 32 + y) :: 64 word) = word_of_int (x * 2 ^ 32 + y)"
proof -
  have "x mod 2 ^ 32 * 2 ^ 32 = (x * 2 ^ 32) mod (2 ^ 64 :: int)" by (simp add: mult_mod_left)
  moreover have "take_bit LENGTH(64) (z mod 2 ^ 64 + y) = take_bit LENGTH(64) (z + y)" for z :: int
    by (simp add: take_bit_eq_mod mod_simps)
  ultimately show ?thesis by (simp only: word_of_int_eq_iff)
qed

lemma uint_add32: "uint (x + y :: 32 word) = (uint x + uint y) mod 2 ^ 32"
  by (simp add: uint_word_ariths)

lemma uint_range32: "0 \<le> uint (x :: 32 word)" "uint (x :: 32 word) < 2 ^ 32"
  using uint_lt2p [of x] by simp_all

lemma carry_iff: "lo + b < b \<longleftrightarrow> 2 ^ 32 \<le> uint lo + uint (b :: 32 word)"
  and carry_uint: "uint (lo + b) = uint lo + uint b - (if lo + b < b then 2 ^ 32 else 0)"
proof -
  have c: "uint (lo + b) = (if uint lo + uint b < 2 ^ 32 then uint lo + uint b else uint lo + uint b - 2 ^ 32)"
    using uint_plus_if' [of lo b] by (simp split: if_splits)
  show "lo + b < b \<longleftrightarrow> 2 ^ 32 \<le> uint lo + uint b"
    unfolding word_less_def c using uint_range32 [of lo] uint_range32 [of b] by auto
  then show "uint (lo + b) = uint lo + uint b - (if lo + b < b then 2 ^ 32 else 0)"
    using c by auto
qed

lemma dword_add:
  "dword ((if lo + bLo < bLo then hi + 1 else hi) + bHi) (lo + bLo) = dword hi lo + dword bHi bLo"
proof -
  let ?c = "if lo + bLo < bLo then 1 else 0 :: int"
  have "uint ((if lo + bLo < bLo then hi + 1 else hi) + bHi) = (uint hi + ?c + uint bHi) mod 2 ^ 32"
    by (simp add: uint_add32 mod_simps)
  then have "dword ((if lo + bLo < bLo then hi + 1 else hi) + bHi) (lo + bLo) =
      word_of_int ((uint hi + ?c + uint bHi) * 2 ^ 32 + uint (lo + bLo))"
    unfolding dword_def by (simp only: high_wrap)
  also have "(uint hi + ?c + uint bHi) * 2 ^ 32 + uint (lo + bLo) =
      (uint hi * 2 ^ 32 + uint lo) + (uint bHi * 2 ^ 32 + uint bLo)"
    unfolding carry_uint by (simp add: algebra_simps)
  finally show ?thesis by (simp add: dword_def)
qed


lemma bit31_iff: "bit (uint (b :: 32 word)) 31 \<longleftrightarrow> 2 ^ 31 \<le> uint b"
proof -
  have "uint b div 2 ^ 31 < 2" "0 \<le> uint b div 2 ^ 31"
    using uint_range32 [of b] by (auto simp: div_less_iff_less_mult pos_imp_zdiv_nonneg_iff)
  then have "odd (uint b div 2 ^ 31) \<longleftrightarrow> 0 < uint b div 2 ^ 31" by (auto simp: odd_iff_mod_2_eq_one)
  then show ?thesis by (simp add: bit_iff_odd pos_imp_zdiv_pos_iff)
qed

lemma top_bit_iff: "(b AND 0x80000000) \<noteq> 0 \<longleftrightarrow> 2 ^ 31 \<le> uint (b :: 32 word)"
proof -
  have "(0x80000000 :: 32 word) = 2 ^ 31" by simp
  then have "(b AND 0x80000000) \<noteq> 0 \<longleftrightarrow> bit b 31"
    using and_exp_eq_0_iff_not_bit [of b 31] by metis
  then show ?thesis using bit31_iff [of b] by (simp add: bit_uint_iff)
qed

lemma sint_cases: "sint (a :: 32 word) = (if uint a < 2 ^ 31 then uint a else uint a - 2 ^ 32)"
proof -
  have "sint a = take_bit 32 (uint a) - 2 ^ 32 * of_bool (bit (uint a) 31)"
    by (simp add: sint_uint signed_take_bit_eq_take_bit_minus)
  moreover have "take_bit 32 (uint a) = uint a" using uint_range32 [of a] by (simp add: take_bit_int_eq_self)
  ultimately show ?thesis by (simp add: bit31_iff)
qed

lemma dword_shift:
  "dword (if (bLo AND 0x80000000) \<noteq> 0 then push_bit 1 bHi OR 1 else push_bit 1 bHi) (push_bit 1 bLo) =
     2 * dword bHi bLo"
proof -
  let ?c = "if (bLo AND 0x80000000) \<noteq> 0 then 1 else 0 :: int"
  have d: "push_bit 1 bHi = bHi + bHi" "push_bit 1 bLo = bLo + bLo" by (simp_all add: push_bit_eq_mult)
  have "even (bHi + bHi)" by (simp flip: mult_2)
  then have ev: "push_bit 1 bHi OR 1 = bHi + bHi + 1" unfolding d using or_one_eq [of "bHi + bHi"] by simp
  have "uint (if (bLo AND 0x80000000) \<noteq> 0 then push_bit 1 bHi OR 1 else push_bit 1 bHi) = (2 * uint bHi + ?c) mod 2 ^ 32"
    unfolding ev unfolding d by (simp only: uint_add32 if_distrib [of uint]) (simp add: mod_simps)
  moreover have "uint (push_bit 1 bLo) = 2 * uint bLo - ?c * 2 ^ 32"
    unfolding top_bit_iff d using uint_range32 [of bLo] uint_plus_if' [of bLo bLo] by (auto split: if_splits)
  ultimately have "dword (if (bLo AND 0x80000000) \<noteq> 0 then push_bit 1 bHi OR 1 else push_bit 1 bHi) (push_bit 1 bLo) =
      word_of_int ((2 * uint bHi + ?c) * 2 ^ 32 + (2 * uint bLo - ?c * 2 ^ 32))"
    unfolding dword_def by (simp only: high_wrap)
  also have "(2 * uint bHi + ?c) * 2 ^ 32 + (2 * uint bLo - ?c * 2 ^ 32) = 2 * (uint bHi * 2 ^ 32 + uint bLo)"
    by (simp add: algebra_simps)
  finally show ?thesis by (simp add: dword_def)
qed


lemma take_bit_step:
  assumes "n < 32"
  shows "take_bit (Suc n) (uint (a :: 32 word)) =
    (if (a AND 1) \<noteq> 0 then 1 else 0) + 2 * take_bit n (uint (signed_drop_bit 1 a))"
proof -
  have "take_bit n (uint a div 2) = take_bit n (uint (signed_drop_bit 1 a))"
  proof (rule bit_eqI)
    fix k
    show "bit (take_bit n (uint a div 2)) k = bit (take_bit n (uint (signed_drop_bit 1 a))) k"
      using assms by (auto simp: bit_take_bit_iff bit_uint_iff bit_signed_drop_bit_iff simp flip: bit_Suc)
  qed
  moreover have "uint a mod 2 = (if (a AND 1) \<noteq> 0 then 1 else 0)"
  proof -
    have "uint (a AND 1) = uint a mod 2" by (simp add: and_one_eq uint_mod_distrib)
    moreover have "(a AND 1) = 0 \<longleftrightarrow> uint (a AND 1) = 0" by (metis uint_0_iff)
    ultimately show ?thesis by (simp add: mod2_eq_if split: if_splits)
  qed
  ultimately show ?thesis by (simp add: take_bit_Suc)
qed

lemma only_low_bit:
  assumes "(a AND 1) \<noteq> 0" "(a AND 0xfffffffe) = 0"
  shows "a = (1 :: 32 word)"
proof -
  have m: "(0xfffffffe :: 32 word) = NOT 1" by simp
  have "a = (a AND 1) OR (a AND NOT 1)" by (rule bit_word_eqI) (auto simp: bit_simps)
  then have "a = a AND 1" using assms(2) unfolding m by simp
  then show ?thesis using assms(1) by (metis and_one_eq of_bool_def one_and_eq mod2_eq_if)
qed

lemma Mult_loop_ok:
  "n \<le> 32 \<Longrightarrow> Mult_loop n a bLo bHi lo hi = (h, l) \<Longrightarrow>
     dword h l = dword hi lo + word_of_int (take_bit n (uint a)) * dword bHi bLo"
proof (induction n arbitrary: a bLo bHi lo hi)
  case 0
  then show ?case by simp
next
  case (Suc n)
  let ?b = "(a AND 1) \<noteq> 0"
  let ?lo = "if ?b then lo + bLo else lo"
  let ?hi = "if ?b then (if ?lo < bLo then hi + 1 else hi) + bHi else hi"
  let ?bHi = "if (bLo AND 0x80000000) \<noteq> 0 then push_bit 1 bHi OR 1 else push_bit 1 bHi"
  have add: "dword ?hi ?lo = dword hi lo + (if ?b then 1 else 0) * dword bHi bLo"
    using dword_add [of lo bLo hi bHi] by simp
  show ?case
  proof (cases "?b \<and> (a AND 0xfffffffe) = 0")
    case True
    then have "a = 1" using only_low_bit by blast
    then show ?thesis using Suc.prems(2) add by (auto simp: take_bit_Suc Let_def)
  next
    case False
    then have "Mult_loop n (signed_drop_bit 1 a) (push_bit 1 bLo) ?bHi ?lo ?hi = (h, l)"
      using Suc.prems(2) unfolding Mult_loop.simps Let_def by (simp only: False if_False)
    from Suc.IH [OF _ this] Suc.prems(1)
    have "dword h l = dword ?hi ?lo + word_of_int (take_bit n (uint (signed_drop_bit 1 a))) * (2 * dword bHi bLo)"
      by (simp only: dword_shift)
    then show ?thesis unfolding add using take_bit_step [of n a] Suc.prems(1)
      by (simp add: algebra_simps)
  qed
qed


lemma dword_zero_hi: "dword 0 b = word_of_int (uint b)"
  by (simp add: dword_def)

lemma dword_neg:
  "dword (if NOT lo + 1 = 0 then NOT hi + 1 else NOT hi) (NOT lo + 1) = - dword hi lo"
proof -
  have n: "NOT lo + 1 = - lo" "NOT hi = - hi - 1" by (simp_all add: not_eq_complement)
  have "uint (- x) = (if x = 0 then 0 else 2 ^ 32 - uint x)" for x :: "32 word"
    using uint_range32 [of x] by (simp add: uint_word_ariths zmod_zminus1_eq_if uint_0_iff mod_pos_pos_trivial)
  then have neg: "uint (- x) = - uint x + (if x = 0 then 0 else 2 ^ 32)" for x :: "32 word" by simp
  have h: "uint (- hi - 1) = (- uint hi - 1) mod 2 ^ 32"
    by (simp add: uint_word_ariths mod_simps)
  show ?thesis
  proof (cases "lo = 0")
    case True
    have "dword (- hi) 0 = word_of_int ((- uint hi) mod 2 ^ 32 * 2 ^ 32 + 0)"
      by (simp add: dword_def uint_word_ariths)
    then show ?thesis using True unfolding n high_wrap by (simp add: dword_def)
  next
    case False
    have "dword (- hi - 1) (- lo) = word_of_int ((- uint hi - 1) mod 2 ^ 32 * 2 ^ 32 + (2 ^ 32 - uint lo))"
      using False unfolding dword_def h neg by (simp only: if_False) (simp add: algebra_simps)
    then show ?thesis using False unfolding n high_wrap by (simp add: dword_def algebra_simps)
  qed
qed

lemma abs_value:
  fixes a :: "32 word"
  shows "sint a < 0 \<Longrightarrow> uint (- a) = - sint a" "\<not> sint a < 0 \<Longrightarrow> uint a = sint a"
proof -
  note s = sint_cases [of a]
  show "sint a < 0 \<Longrightarrow> uint (- a) = - sint a" 
    using s uint_range32 [of a] by (auto simp: uint_word_ariths zmod_zminus1_eq_if split: if_splits)
  show "\<not> sint a < 0 \<Longrightarrow> uint a = sint a" using s uint_range32 [of a] by (auto split: if_splits)
qed


lemma Mult_loop_full:
  "Mult_loop 32 a b 0 0 0 = (h, l) \<Longrightarrow> dword h l = word_of_int (uint a * uint b)"
proof -
  assume "Mult_loop 32 a b 0 0 0 = (h, l)"
  from Mult_loop_ok [OF _ this] have "dword h l = word_of_int (take_bit 32 (uint a)) * dword 0 b"
    by (simp add: dword_def [of 0 0])
  moreover have "take_bit 32 (uint a) = uint a" using uint_range32 [of a] by (simp add: take_bit_int_eq_self)
  ultimately show ?thesis by (simp add: dword_zero_hi)
qed

lemma Mult_dword:
  assumes "Mult a b signedArith = (hi, lo)"
  shows "dword hi lo = word_of_int (if signedArith then sint a * sint b else uint a * uint b)"
proof (cases "a = 0 \<or> b = 0")
  case True
  then show ?thesis using assms by (auto simp: Mult_def dword_def)
next
  case False
  define na nb where "na = (signedArith \<and> sint a < 0)" and "nb = (signedArith \<and> sint b < 0)"
  obtain h l where hl: "Mult_loop 32 (if na then - a else a) (if nb then - b else b) 0 0 0 = (h, l)"
    by (metis surj_pair)
  have d: "dword h l = word_of_int (uint (if na then - a else a) * uint (if nb then - b else b))"
    by (rule Mult_loop_full [OF hl])
  have "(hi, lo) = (if na \<noteq> nb then (if NOT l + 1 = 0 then NOT h + 1 else NOT h, NOT l + 1) else (h, l))"
    using assms False hl by (auto simp: Mult_def na_def nb_def Let_def split: if_splits)
  then have neg: "dword hi lo = (if na \<noteq> nb then - dword h l else dword h l)"
    using dword_neg [of l h] by (auto split: if_splits)
  define p where "p = (if signedArith then sint a * sint b else uint a * uint b)"
  have e: "uint (if na then - a else a) * uint (if nb then - b else b) = (if na \<noteq> nb then - 1 else 1) * p"
    using abs_value [of a] abs_value [of b]
    by (cases signedArith; cases "sint a < 0"; cases "sint b < 0") (simp_all add: na_def nb_def p_def)
  show ?thesis using neg unfolding d e p_def [symmetric] by (cases "na = nb") simp_all
qed

lemma congruent_equal:
  assumes "(word_of_int x :: 64 word) = word_of_int y" "\<bar>x - y\<bar> < 2 ^ 64"
  shows "x = y"
proof -
  have "x mod 2 ^ 64 = y mod 2 ^ 64" using assms(1) by (simp add: word_of_int_eq_iff take_bit_eq_mod)
  then have "(2 :: int) ^ 64 dvd x - y" by (simp add: mod_eq_dvd_iff)
  then show ?thesis using assms(2) zdvd_not_zless [of "\<bar>x - y\<bar>" "2 ^ 64"] by (cases "x = y") auto
qed

lemma Mult_exact:
  assumes "Mult a b signedArith = (hi, lo)"
  shows "(if signedArith then sint hi else uint hi) * 2 ^ 32 + uint lo =
    (if signedArith then sint a * sint b else uint a * uint b)"
proof (cases signedArith)
  case True
  have r: "- (2 ^ 31) \<le> sint w" "sint w < 2 ^ 31" for w :: "32 word"
    using sint_greater_eq [of w] sint_less [of w] by simp_all
  have "\<bar>sint a\<bar> \<le> 2 ^ 31" "\<bar>sint b\<bar> \<le> 2 ^ 31" using r [of a] r [of b] by auto
  then have "\<bar>sint a * sint b\<bar> \<le> 2 ^ 31 * 2 ^ 31" unfolding abs_mult by (rule mult_mono) auto
  moreover have "\<bar>sint hi * 2 ^ 32 + uint lo\<bar> \<le> 2 ^ 63"
  proof -
    have "- 2147483648 \<le> sint hi" "sint hi \<le> 2147483647" "0 \<le> uint lo" "uint lo < 4294967296"
      using r [of hi] uint_range32 [of lo] by simp_all
    then have "\<bar>sint hi * 4294967296 + uint lo\<bar> \<le> 9223372036854775808" by (intro abs_leI) linarith+
    then show ?thesis by simp
  qed
  moreover have "(word_of_int (sint hi * 2 ^ 32 + uint lo) :: 64 word) = dword hi lo"
  proof -
    have "sint hi mod 2 ^ 32 = uint hi" using sint_cases [of hi] uint_range32 [of hi]
      by (auto split: if_splits simp: mod_pos_pos_trivial)
    then show ?thesis using high_wrap [of "sint hi" "uint lo"] by (simp add: dword_def)
  qed
  ultimately show ?thesis using Mult_dword [OF assms] True
    congruent_equal [of "sint hi * 2 ^ 32 + uint lo" "sint a * sint b"] by auto
next
  case False
  have "uint a * uint b \<le> (2 ^ 32 - 1) * (2 ^ 32 - 1)" using uint_range32 [of a] uint_range32 [of b]
    by (intro mult_mono) auto
  then have "uint a * uint b < 2 ^ 64" "0 \<le> uint a * uint b" by simp_all
  moreover have "0 \<le> uint hi * 2 ^ 32 + uint lo" "uint hi * 2 ^ 32 + uint lo < 2 ^ 64"
    using uint_range32 [of hi] uint_range32 [of lo] by auto
  ultimately have "\<bar>uint hi * 2 ^ 32 + uint lo - uint a * uint b\<bar> < 2 ^ 64" by linarith
  moreover have "(word_of_int (uint hi * 2 ^ 32 + uint lo) :: 64 word) = word_of_int (uint a * uint b)"
    using Mult_dword [OF assms] False unfolding dword_def by (simp only: if_False)
  ultimately show ?thesis using False congruent_equal by simp
qed

section \<open>Overflow\<close>

lemma sign_bit_iff: "(x AND 0x80000000) \<noteq> 0 \<longleftrightarrow> sint (x :: 32 word) < 0"
  unfolding top_bit_iff using sint_cases [of x] uint_range32 [of x] by auto

lemma sign_xor: "((x XOR y) AND 0x80000000) \<noteq> 0 \<longleftrightarrow> (sint (x :: 32 word) < 0) \<noteq> (sint y < 0)"
proof -
  have e: "(0x80000000 :: 32 word) = 2 ^ 31" by simp
  have b: "(z AND 0x80000000) \<noteq> 0 \<longleftrightarrow> bit z 31" for z :: "32 word"
    unfolding e using and_exp_eq_0_iff_not_bit [of z 31] by blast
  show ?thesis unfolding sign_bit_iff [symmetric] unfolding b by (simp add: bit_xor_iff)
qed

lemma sign_xor_eq: "((x XOR y) AND 0x80000000) = 0 \<longleftrightarrow> (sint (x :: 32 word) < 0) = (sint y < 0)"
  using sign_xor [of x y] by blast

lemma add_overflow:
  fixes a b :: "32 word"
  shows "sint (a + b) = sint a + sint b \<longleftrightarrow> - (2 ^ 31) \<le> sint a + sint b \<and> sint a + sint b < 2 ^ 31"
    and "- (2 ^ 31) \<le> sint a + sint b \<and> sint a + sint b < 2 ^ 31 \<longleftrightarrow>
      \<not> ((sint a < 0) = (sint b < 0) \<and> (sint a < 0) \<noteq> (sint (a + b) < 0))"
proof -
  have r: "- 2147483648 \<le> sint w" "sint w \<le> 2147483647" for w :: "32 word"
    using sint_greater_eq [of w] sint_less [of w] by simp_all
  have s: "sint w = uint w \<or> sint w = uint w - 4294967296" for w :: "32 word" using sint_cases [of w] by auto
  have "uint (a + b) = uint a + uint b \<or> uint (a + b) = uint a + uint b - 4294967296"
    using carry_uint [of a b] by auto
  then have "sint (a + b) = sint a + sint b \<or> sint (a + b) = sint a + sint b - 4294967296 \<or>
      sint (a + b) = sint a + sint b + 4294967296"
    using s [of a] s [of b] s [of "a + b"] r [of a] r [of b] r [of "a + b"] by presburger
  then consider "sint (a + b) = sint a + sint b" | "sint (a + b) = sint a + sint b - 4294967296"
    | "sint (a + b) = sint a + sint b + 4294967296" by blast
  note c = this
  show "sint (a + b) = sint a + sint b \<longleftrightarrow> - (2 ^ 31) \<le> sint a + sint b \<and> sint a + sint b < 2 ^ 31"
    using c r [of a] r [of b] r [of "a + b"] by cases (simp; linarith)+
  show "- (2 ^ 31) \<le> sint a + sint b \<and> sint a + sint b < 2 ^ 31 \<longleftrightarrow>
      \<not> ((sint a < 0) = (sint b < 0) \<and> (sint a < 0) \<noteq> (sint (a + b) < 0))"
    using c r [of a] r [of b] r [of "a + b"] by cases (simp; linarith)+
qed

lemma sub_overflow:
  fixes a b :: "32 word"
  shows "sint (a - b) = sint a - sint b \<longleftrightarrow> - (2 ^ 31) \<le> sint a - sint b \<and> sint a - sint b < 2 ^ 31"
    and "- (2 ^ 31) \<le> sint a - sint b \<and> sint a - sint b < 2 ^ 31 \<longleftrightarrow>
      \<not> ((sint a < 0) \<noteq> (sint b < 0) \<and> (sint a < 0) \<noteq> (sint (a - b) < 0))"
proof -
  have r: "- 2147483648 \<le> sint w" "sint w \<le> 2147483647" for w :: "32 word"
    using sint_greater_eq [of w] sint_less [of w] by simp_all
  have s: "sint w = uint w \<or> sint w = uint w - 4294967296" for w :: "32 word" using sint_cases [of w] by auto
  have "uint (a - b) = uint a - uint b \<or> uint (a - b) = uint a - uint b + 4294967296"
    using uint_sub_if' [of a b] by (auto split: if_splits)
  then have "sint (a - b) = sint a - sint b \<or> sint (a - b) = sint a - sint b - 4294967296 \<or>
      sint (a - b) = sint a - sint b + 4294967296"
    using s [of a] s [of b] s [of "a - b"] r [of a] r [of b] r [of "a - b"] by presburger
  then consider "sint (a - b) = sint a - sint b" | "sint (a - b) = sint a - sint b - 4294967296"
    | "sint (a - b) = sint a - sint b + 4294967296" by blast
  note c = this
  show "sint (a - b) = sint a - sint b \<longleftrightarrow> - (2 ^ 31) \<le> sint a - sint b \<and> sint a - sint b < 2 ^ 31"
    using c r [of a] r [of b] r [of "a - b"] by cases (simp; linarith)+
  show "- (2 ^ 31) \<le> sint a - sint b \<and> sint a - sint b < 2 ^ 31 \<longleftrightarrow>
      \<not> ((sint a < 0) \<noteq> (sint b < 0) \<and> (sint a < 0) \<noteq> (sint (a - b) < 0))"
    using c r [of a] r [of b] r [of "a - b"] by cases (simp; linarith)+
qed

section \<open>Decoding\<close>

text \<open>The operation codes that have a case in the switch.\<close>

definition handled :: "nat list" where
  "handled =
    [OP_ADD, OP_ADDI, OP_ADDIU, OP_ADDU, OP_AND, OP_ANDI, OP_BEQ, OP_BGEZ,
     OP_BGEZAL, OP_BGTZ, OP_BLEZ, OP_BLTZ, OP_BLTZAL, OP_BNE, OP_DIV, OP_DIVU,
     OP_J, OP_JAL, OP_JALR, OP_JR, OP_LB, OP_LBU, OP_LH, OP_LHU,
     OP_LUI, OP_LW, OP_LWL, OP_LWR, OP_MFHI, OP_MFLO, OP_MTHI, OP_MTLO,
     OP_MULT, OP_MULTU, OP_NOR, OP_OR, OP_ORI, OP_SB, OP_SH, OP_SLL,
     OP_SLLV, OP_SLT, OP_SLTI, OP_SLTIU, OP_SLTU, OP_SRA, OP_SRAV, OP_SRL,
     OP_SRLV, OP_SUB, OP_SUBU, OP_SW, OP_SWL, OP_SWR, OP_XOR, OP_XORI,
     OP_SYSCALL, OP_UNIMP, OP_RES]"

lemma low_bits_less:
  fixes x :: "32 word"
  shows "unat (x AND 0x1f) < 32" "unat (x AND 0x3f) < 64"
proof -
  have m: "(0x1f :: 32 word) = mask 5" "(0x3f :: 32 word) = mask 6" by (simp_all add: mask_eq_exp_minus_1)
  have "unat (take_bit n x) < 2 ^ n" for n by (simp add: unsigned_take_bit_eq)
  from this [of 5] this [of 6] show "unat (x AND 0x1f) < 32" "unat (x AND 0x3f) < 64"
    unfolding m take_bit_eq_mask by simp_all
qed

lemma opTable_ok: "n < 64 \<Longrightarrow> fst (opTable ! n) \<in> insert SPECIAL (insert BCOND (set handled))"
proof -
  have "\<forall>x \<in> set opTable. fst x \<in> insert SPECIAL (insert BCOND (set handled))" "length opTable = 64"
    by (simp_all add: opTable_def handled_def)
  then show "n < 64 \<Longrightarrow> fst (opTable ! n) \<in> insert SPECIAL (insert BCOND (set handled))"
    by (metis nth_mem)
qed

lemma specialTable_ok: "n < 64 \<Longrightarrow> specialTable ! n \<in> set handled"
proof -
  have "\<forall>x \<in> set specialTable. x \<in> set handled" "length specialTable = 64"
    by (simp_all add: specialTable_def handled_def)
  then show "n < 64 \<Longrightarrow> specialTable ! n \<in> set handled" by (metis nth_mem)
qed

lemma Decode_handled: "opCode (Decode v) \<in> set handled"
proof -
  obtain op fmt where t: "opTable ! unat (drop_bit 26 v AND 0x3f) = (op, fmt)" by (metis surj_pair)
  have "op \<in> insert SPECIAL (insert BCOND (set handled))"
    using opTable_ok [OF low_bits_less(2), of "drop_bit 26 v"] t by simp
  moreover have "Decode_bcond v \<in> set handled" by (simp add: Decode_bcond_def handled_def Let_def)
  ultimately show ?thesis using t specialTable_ok [OF low_bits_less(2), of v]
    by (auto simp: Decode_def)
qed

lemma Decode_regs: "rs (Decode v) < 32" "rt (Decode v) < 32" "rd (Decode v) < 32"
  by (simp_all add: Decode_def low_bits_less split: prod.splits)

text \<open>Immediate operands are sign-extended 16-bit numbers.\<close>

lemma Decode_immediate: "Decode_extra IFMT v = scast (ucast v :: 16 word)"
proof -
  have m: "(0xffff :: 32 word) = mask 16" "(0xffff0000 :: 32 word) = push_bit 16 (mask 16)"
    "(0x8000 :: 32 word) = 2 ^ 15"
    by (simp_all add: mask_eq_exp_minus_1 push_bit_eq_mult)
  have b: "((v AND mask 16) AND 2 ^ 15) \<noteq> 0 \<longleftrightarrow> bit v 15"
    using and_exp_eq_0_iff_not_bit [of "v AND mask 16" 15] by (simp add: bit_simps)
  show ?thesis unfolding Decode_extra_def m Let_def format.case b
  proof (rule bit_word_eqI)
    fix n assume "n < LENGTH(32)"
    then show "bit (if bit v 15 then (v AND mask 16) OR push_bit 16 (mask 16) else v AND mask 16) n =
        bit (scast (ucast v :: 16 word) :: 32 word) n"
      by (cases "n = 15"; cases "n < 16") (auto simp: bit_simps min_def not_less)
  qed
qed

section \<open>Safety of one instruction\<close>

text \<open>
  \<open>cpu_ok\<close>: the memory map is well-formed and the pending delayed load names a register of the
  array. An exception handler is \<open>sane\<close> when it returns and keeps this, or does not return at all
  (\<open>HandlerCalled\<close>): to call it is then the end of the instruction.
\<close>

definition cpu_ok :: "Machine \<Rightarrow> bool" where
  "cpu_ok m \<longleftrightarrow> well_mapped m \<and> unat (registers m LoadReg) < NumTotalRegs"

definition sane :: "handler \<Rightarrow> bool" where
  "sane h \<longleftrightarrow> (\<forall>ex m. cpu_ok m \<longrightarrow> (case h ex m of Inl f \<Rightarrow> f = HandlerCalled | Inr m' \<Rightarrow> cpu_ok m'))"

definition leave :: handler where
  "leave ex m = Inl HandlerCalled"

lemma sane_leave: "sane leave"
  by (simp add: sane_def leave_def)

text \<open>What a case may deliver: a safe state, the trap of a division, or a call of the handler; \<open>A\<close> allows an assertion to fail.\<close>

definition flow_ok :: "bool \<Rightarrow> flow res \<Rightarrow> bool" where
  "flow_ok A r \<longleftrightarrow> (case r of
     Inl f \<Rightarrow> f = DivideTrap \<or> f = HandlerCalled \<or> A \<and> f = AssertionFailed
   | Inr (Return m) \<Rightarrow> cpu_ok m
   | Inr (Break m lr lv pc) \<Rightarrow> cpu_ok m \<and> unat lr < NumTotalRegs)"

lemma well_mapped_registers [simp]: "well_mapped (m\<lparr>registers := x\<rparr>) = well_mapped m"
  by (auto simp: well_mapped_def split: option.splits)

lemma cpu_ok_simps [simp]:
  "cpu_ok (m\<lparr>machineStatus := x\<rparr>) = cpu_ok m"
  "r \<noteq> LoadReg \<Longrightarrow> cpu_ok (setReg r v m) = cpu_ok m"
  by (auto simp: cpu_ok_def well_mapped_def setReg_def split: option.splits)

lemma DelayedLoad_ok:
  assumes "unat (registers m LoadReg) < NumTotalRegs" "well_mapped m" "unat nr < NumTotalRegs"
  shows "\<exists>m'. DelayedLoad nr nv m = Inr m' \<and> cpu_ok m' \<and> registers m' 0 = 0"
  using assms by (auto simp: DelayedLoad_def Let_def cpu_ok_def well_mapped_def split: option.splits)

lemma sane_step: "sane h \<Longrightarrow> cpu_ok m \<Longrightarrow> h ex m = Inl HandlerCalled \<or> (\<exists>m'. h ex m = Inr m' \<and> cpu_ok m')"
  unfolding sane_def by (drule spec [of _ ex], drule spec [of _ m]) (auto split: sum.splits)

lemma RaiseException_ok:
  assumes "sane h" "cpu_ok m"
  shows "RaiseException h ex a m = Inl HandlerCalled \<or> (\<exists>m'. RaiseException h ex a m = Inr m' \<and> cpu_ok m')"
proof -
  have "\<exists>m1. DelayedLoad 0 0 (m\<lparr>registers := (registers m)(BadVAddrReg := a)\<rparr>) = Inr m1 \<and> cpu_ok m1"
    using DelayedLoad_ok [of "m\<lparr>registers := (registers m)(BadVAddrReg := a)\<rparr>" 0 0] assms(2)
    by (auto simp: cpu_ok_def)
  then obtain m1 where m1: "DelayedLoad 0 0 (m\<lparr>registers := (registers m)(BadVAddrReg := a)\<rparr>) = Inr m1" "cpu_ok m1"
    by blast
  then show ?thesis using sane_step [OF assms(1), of "m1\<lparr>machineStatus := SystemMode\<rparr>" ex]
    by (auto simp: RaiseException_def)
qed

lemma raise_return_ok: "sane h \<Longrightarrow> cpu_ok m \<Longrightarrow> flow_ok A (raise_return h ex a m)"
  using RaiseException_ok [of h m ex a] by (auto simp: raise_return_def flow_ok_def)

lemma Translate_total:
  assumes "well_mapped m" "sz \<in> {1, 2, 4}"
  shows "\<exists>ex pa m'. Translate w sz writing m = Inr (ex, pa, m') \<and> well_mapped m' \<and> registers m' = registers m"
proof (cases "translate_result (lookup_entry m (unat w div PageSize)) w sz writing = NoException")
  case True
  then obtain e where "lookup_entry m (unat w div PageSize) = Some e"
    by (cases "lookup_entry m (unat w div PageSize)") (auto simp: translate_result_def split: if_splits)
  then obtain pa m' where "Translate w sz writing m = Inr (NoException, pa, m')" "well_mapped m'"
    "memory_part m' = memory_part m" using Translate_found [OF assms, of w e writing] True by auto
  then show ?thesis using memory_partD(2) by blast
next
  case False
  then show ?thesis using Translate_refused [OF assms, of w writing] assms(1) by auto
qed

lemma mark_used_ok [simp]: "cpu_ok (mark_used a m) = cpu_ok m" "cpu_ok (m\<lparr>mainMemory := mem\<rparr>) = cpu_ok m"
  by (simp_all add: cpu_ok_def)

lemma ReadMem_total:
  assumes "cpu_ok m" "sane h" "sz \<in> {1, 2, 4}"
  shows "ReadMem h a sz m = Inl HandlerCalled \<or> (\<exists>vo m'. ReadMem h a sz m = Inr (vo, m') \<and> cpu_ok m')"
proof -
  obtain ex pa m1 where m1: "Translate a sz False m = Inr (ex, pa, m1)" "cpu_ok m1"
    using Translate_total [of m sz a False] assms by (auto simp: cpu_ok_def)
  then show ?thesis using RaiseException_ok [OF assms(2) m1(2), of ex a] assms(3)
    by (cases "ex = NoException") (auto simp: ReadMem_def)
qed

lemma WriteMem_total:
  assumes "cpu_ok m" "sane h" "sz \<in> {1, 2, 4}"
  shows "WriteMem h a sz v m = Inl HandlerCalled \<or> (\<exists>ok m'. WriteMem h a sz v m = Inr (ok, m') \<and> cpu_ok m')"
proof -
  obtain ex pa m1 where m1: "Translate a sz True m = Inr (ex, pa, m1)" "cpu_ok m1"
    using Translate_total [of m sz a True] assms by (auto simp: cpu_ok_def)
  then show ?thesis using RaiseException_ok [OF assms(2) m1(2), of ex a] assms(3)
    by (cases "ex = NoException") (auto simp: WriteMem_def)
qed

lemma to_end_ok: "cpu_ok m \<Longrightarrow> flow_ok A (to_end pc m)"
  by (simp add: to_end_def flow_ok_def)

lemma load_ok:
  assumes "cpu_ok m" "sane h" "sz \<in> {1, 2, 4}" "rt i < 32"
  shows "flow_ok A (load h sz f i pc m)"
proof -
  have "unat (of_nat (rt i) :: 32 word) < NumTotalRegs" using assms(4) by (simp add: unat_of_nat)
  then show ?thesis using ReadMem_total [OF assms(1-3), of "eff_addr i m"]
    by (auto simp: load_def flow_ok_def split: option.splits)
qed

lemma store_ok:
  assumes "cpu_ok m" "sane h" "sz \<in> {1, 2, 4}"
  shows "flow_ok A (store h a sz v pc m)"
proof -
  from WriteMem_total [OF assms, of a v] show ?thesis by (auto simp: store_def flow_ok_def to_end_def)
qed

lemma read_merge_write_ok:
  assumes "cpu_ok m" "sane h" "(eff_addr i m AND 3) = 0 \<or> A"
  shows "flow_ok A (read_merge_write f h i pc m)"
proof (cases "(eff_addr i m AND 3) = 0")
  case True
  have "(4 :: nat) \<in> {1, 2, 4}" by simp
  from ReadMem_total [OF assms(1,2) this, of "eff_addr i m AND NOT 3"] show ?thesis
  proof (elim disjE exE conjE)
    fix vo m'
    assume "ReadMem h (eff_addr i m AND NOT 3) 4 m = Inr (vo, m')" "cpu_ok m'"
    then show ?thesis using True store_ok [of m' h 4] assms(2)
      by (cases vo) (auto simp: read_merge_write_def Let_def flow_ok_def)
  qed (use True in \<open>simp_all add: read_merge_write_def Let_def flow_ok_def\<close>)
qed (use assms(3) in \<open>simp add: read_merge_write_def flow_ok_def\<close>)

lemma alu_ok:
  "cpu_ok m \<Longrightarrow> rd i < 32 \<Longrightarrow> flow_ok A (alu_RRR f i pc m)"
  "cpu_ok m \<Longrightarrow> rt i < 32 \<Longrightarrow> flow_ok A (alu_RRI f i pc m)"
  "cpu_ok m \<Longrightarrow> rd i < 32 \<Longrightarrow> flow_ok A (exec_SLL i pc m)"
  "cpu_ok m \<Longrightarrow> rd i < 32 \<Longrightarrow> flow_ok A (exec_SRA i pc m)"
  "cpu_ok m \<Longrightarrow> rd i < 32 \<Longrightarrow> flow_ok A (exec_SRL i pc m)"
  "cpu_ok m \<Longrightarrow> rd i < 32 \<Longrightarrow> flow_ok A (exec_MF r i pc m)"
  "cpu_ok m \<Longrightarrow> r \<noteq> LoadReg \<Longrightarrow> flow_ok A (exec_MT r i pc m)"
  "cpu_ok m \<Longrightarrow> flow_ok A (exec_MULT sg i pc m)"
  "cpu_ok m \<Longrightarrow> flow_ok A (exec_DIVU i pc m)"
  by (auto simp: alu_RRR_def alu_RRI_def exec_SLL_def exec_SRA_def exec_SRL_def exec_MF_def exec_MT_def
      exec_MULT_def exec_DIVU_def Let_def split: prod.splits intro!: to_end_ok)

lemma DIV_ok: "cpu_ok m \<Longrightarrow> flow_ok A (exec_DIV i pc m)"
  using to_end_ok [of _ A pc] by (auto simp: exec_DIV_def Let_def flow_ok_def [of A "Inl _"])

lemma branch_ok: "cpu_ok m \<Longrightarrow> flow_ok A (branch c i pc m)"
  by (simp add: branch_def to_end_ok)

lemma link_ok: "cpu_ok m \<Longrightarrow> r \<noteq> LoadReg \<Longrightarrow> cpu_ok (link r m)"
  by (simp add: link_def)

lemma jump_ok:
  "cpu_ok m \<Longrightarrow> flow_ok A (exec_BEQ i pc m)" "cpu_ok m \<Longrightarrow> flow_ok A (exec_BGEZ i pc m)"
  "cpu_ok m \<Longrightarrow> flow_ok A (exec_BGEZAL i pc m)" "cpu_ok m \<Longrightarrow> flow_ok A (exec_BGTZ i pc m)"
  "cpu_ok m \<Longrightarrow> flow_ok A (exec_BLEZ i pc m)" "cpu_ok m \<Longrightarrow> flow_ok A (exec_BLTZ i pc m)"
  "cpu_ok m \<Longrightarrow> flow_ok A (exec_BLTZAL i pc m)" "cpu_ok m \<Longrightarrow> flow_ok A (exec_BNE i pc m)"
  "cpu_ok m \<Longrightarrow> flow_ok A (exec_J i pc m)" "cpu_ok m \<Longrightarrow> flow_ok A (exec_JAL i pc m)"
  "cpu_ok m \<Longrightarrow> flow_ok A (exec_JR i pc m)" "cpu_ok m \<Longrightarrow> rd i < 32 \<Longrightarrow> flow_ok A (exec_JALR i pc m)"
  by (simp_all add: exec_BEQ_def exec_BGEZ_def exec_BGEZAL_def exec_BGTZ_def exec_BLEZ_def exec_BLTZ_def
      exec_BLTZAL_def exec_BNE_def exec_J_def exec_JAL_def exec_JR_def exec_JALR_def branch_ok to_end_ok link_ok)

lemma arith_ok:
  "cpu_ok m \<Longrightarrow> sane h \<Longrightarrow> rd i < 32 \<Longrightarrow> flow_ok A (exec_ADD h i pc m)"
  "cpu_ok m \<Longrightarrow> sane h \<Longrightarrow> rd i < 32 \<Longrightarrow> flow_ok A (exec_SUB h i pc m)"
  "cpu_ok m \<Longrightarrow> sane h \<Longrightarrow> rt i < 32 \<Longrightarrow> flow_ok A (exec_ADDI h i pc m)"
  by (simp_all add: exec_ADD_def exec_SUB_def exec_ADDI_def Let_def raise_return_ok to_end_ok)

lemma memory_ok:
  "cpu_ok m \<Longrightarrow> sane h \<Longrightarrow> rt i < 32 \<Longrightarrow> flow_ok A (exec_LB h i pc m)"
  "cpu_ok m \<Longrightarrow> sane h \<Longrightarrow> rt i < 32 \<Longrightarrow> flow_ok A (exec_LH h i pc m)"
  "cpu_ok m \<Longrightarrow> sane h \<Longrightarrow> rt i < 32 \<Longrightarrow> flow_ok A (exec_LW h i pc m)"
  "cpu_ok m \<Longrightarrow> sane h \<Longrightarrow> sz \<in> {1, 2, 4} \<Longrightarrow> flow_ok A (exec_S sz h i pc m)"
  by (simp_all add: exec_LB_def exec_LH_def exec_LW_def exec_S_def load_ok store_ok raise_return_ok)

lemma partial_ok:
  assumes "cpu_ok m" "sane h" "rt i < 32" "(eff_addr i m AND 3) = 0 \<or> A"
  shows "flow_ok A (exec_LWL h i pc m)" "flow_ok A (exec_LWR h i pc m)"
    "flow_ok A (exec_SWL h i pc m)" "flow_ok A (exec_SWR h i pc m)"
  using assms load_ok [OF assms(1,2) _ assms(3)] read_merge_write_ok [OF assms(1,2,4)]
  by (auto simp: exec_LWL_def exec_LWR_def exec_SWL_def exec_SWR_def flow_ok_def [of A "Inl _"])

lemma if_flow: "(c \<Longrightarrow> flow_ok A x) \<Longrightarrow> (\<not> c \<Longrightarrow> flow_ok A y) \<Longrightarrow> flow_ok A (if c then x else y)"
  by simp

definition partial_misaligned :: "Instruction \<Rightarrow> Machine \<Rightarrow> bool" where
  "partial_misaligned i m \<longleftrightarrow> opCode i \<in> {OP_LWL, OP_LWR, OP_SWL, OP_SWR} \<and> (eff_addr i m AND 3) \<noteq> 0"

lemma exec_switch_ok:
  assumes "cpu_ok m" "sane h" "opCode i \<in> set handled" "rt i < 32" "rd i < 32"
  shows "flow_ok (partial_misaligned i m) (exec_switch h i pc m)"
  unfolding exec_switch_def Let_def
  apply (intro if_flow)
  using assms
  apply (simp_all add: alu_ok DIV_ok jump_ok arith_ok memory_ok raise_return_ok del: One_nat_def)
  apply (auto intro!: partial_ok simp: partial_misaligned_def handled_def)
  done

lemma OneInstruction_ok:
  assumes "cpu_ok m" "sane h"
  shows "(\<exists>m'. OneInstruction h m = Inr m' \<and> cpu_ok m') \<or>
    OneInstruction h m = Inl HandlerCalled \<or> OneInstruction h m = Inl DivideTrap \<or>
    (OneInstruction h m = Inl AssertionFailed \<and>
      (\<exists>v m1. ReadMem h (registers m PCReg) 4 m = Inr (Some v, m1) \<and> partial_misaligned (Decode v) m1))"
proof (cases "ReadMem h (registers m PCReg) 4 m = Inl HandlerCalled")
  case False
  then obtain vo m1 where m1: "ReadMem h (registers m PCReg) 4 m = Inr (vo, m1)" "cpu_ok m1"
    using ReadMem_total [OF assms, of 4 "registers m PCReg"] by auto
  show ?thesis
  proof (cases vo)
    case None
    then show ?thesis using m1 by (simp add: OneInstruction_def)
  next
    case (Some v)
    let ?fl = "exec_switch h (Decode v) (registers m1 NextPCReg + 4) m1"
    have ok: "flow_ok (partial_misaligned (Decode v) m1) ?fl"
      by (rule exec_switch_ok) (simp_all add: m1 assms Decode_handled Decode_regs)
    show ?thesis
    proof (cases ?fl)
      case (Inl f)
      then show ?thesis using ok m1 Some by (auto simp: OneInstruction_def flow_ok_def)
    next
      case (Inr fl)
      show ?thesis
      proof (cases fl)
        case (Break m2 lr lv pc)
        then have b: "cpu_ok m2" "unat lr < NumTotalRegs" using ok Inr by (simp_all add: flow_ok_def)
        then obtain m3 where m3: "DelayedLoad lr lv m2 = Inr m3" "cpu_ok m3"
          using DelayedLoad_ok [of m2 lr lv] by (auto simp: cpu_ok_def)
        then have "cpu_ok (advance_pc pc m3)" by (simp add: advance_pc_def cpu_ok_def)
        then show ?thesis using m1 Some Inr Break m3 by (simp add: OneInstruction_def)
      qed (use ok m1 Some Inr in \<open>auto simp: OneInstruction_def flow_ok_def\<close>)
    qed
  qed
qed (simp add: OneInstruction_def)

section \<open>Properties\<close>

text \<open>
  C36: The shift-and-add loop of \<^verbatim>\<open>Mult\<close>, with its early exit and carry tests, computes the
  exact 64-bit product: signed operands give the signed product (also for the smallest
  number), unsigned ones the unsigned product.
\<close>

theorem Mult_is_product:
  "case Mult a b signedArith of (hi, lo) \<Rightarrow>
     (if signedArith then sint hi else uint hi) * 2 ^ 32 + uint lo =
     (if signedArith then sint a * sint b else uint a * uint b)"
  using Mult_exact [of a b signedArith] by (cases "Mult a b signedArith") (simp only: prod.case)

definition in_int_range :: "int \<Rightarrow> bool" where
  "in_int_range x \<longleftrightarrow> - (2 ^ 31) \<le> x \<and> x < 2 ^ 31"

text \<open>
  C37: ADD, ADDI and SUB raise an overflow exception exactly when the mathematical result does not
  fit in 32 bits; otherwise the destination register receives the exact result.
\<close>

theorem overflow_exact:
  "exec_ADD h i pc m =
     (let r = sint (registers m (rs i)) + sint (registers m (rt i)) in
      if in_int_range r then to_end pc (setReg (rd i) (word_of_int r) m) else raise_return h OverflowException 0 m) \<and>
   exec_ADDI h i pc m =
     (let r = sint (registers m (rs i)) + sint (extra i) in
      if in_int_range r then to_end pc (setReg (rt i) (word_of_int r) m) else raise_return h OverflowException 0 m) \<and>
   exec_SUB h i pc m =
     (let r = sint (registers m (rs i)) - sint (registers m (rt i)) in
      if in_int_range r then to_end pc (setReg (rd i) (word_of_int r) m) else raise_return h OverflowException 0 m)"
proof (intro conjI)
  show "exec_ADD h i pc m =
     (let r = sint (registers m (rs i)) + sint (registers m (rt i)) in
      if in_int_range r then to_end pc (setReg (rd i) (word_of_int r) m) else raise_return h OverflowException 0 m)"
    unfolding exec_ADD_def Let_def sign_xor sign_xor_eq in_int_range_def add_overflow(2) by auto
  show "exec_ADDI h i pc m =
     (let r = sint (registers m (rs i)) + sint (extra i) in
      if in_int_range r then to_end pc (setReg (rt i) (word_of_int r) m) else raise_return h OverflowException 0 m)"
    unfolding exec_ADDI_def Let_def sign_xor sign_xor_eq in_int_range_def add_overflow(2) by auto
  show "exec_SUB h i pc m =
     (let r = sint (registers m (rs i)) - sint (registers m (rt i)) in
      if in_int_range r then to_end pc (setReg (rd i) (word_of_int r) m) else raise_return h OverflowException 0 m)"
    unfolding exec_SUB_def Let_def sign_xor sign_xor_eq in_int_range_def sub_overflow(2) by auto
qed

lemma sint_word_of_int: "in_int_range x \<Longrightarrow> sint (word_of_int x :: 32 word) = x"
  by (simp add: in_int_range_def signed_of_int signed_take_bit_int_eq_self)

lemma sint_in_range: "in_int_range (sint (w :: 32 word))"
  using sint_greater_eq [of w] sint_less [of w] by (simp add: in_int_range_def)

lemma sint_nonzero: "b \<noteq> 0 \<Longrightarrow> sint (b :: 32 word) \<noteq> 0"
  using signed_word_eqI [of b 0] by auto

lemma sdiv_in_range:
  fixes a b :: "32 word"
  assumes "b \<noteq> 0" "\<not> (a = 0x80000000 \<and> b = - 1)"
  shows "in_int_range (sint a sdiv sint b)" "in_int_range (sint a smod sint b)"
proof -
  have r: "in_int_range (sint a)" "in_int_range (sint b)" by (simp_all add: sint_in_range)
  have b0: "sint b \<noteq> 0" using assms(1) by (rule sint_nonzero)
  show "in_int_range (sint a smod sint b)"
    using smod_int_range [OF b0, of "sint a"] r(2) by (auto simp: in_int_range_def)
  have "sint a sdiv sint b \<noteq> 2 ^ 31"
  proof
    assume q: "sint a sdiv sint b = 2 ^ 31"
    then have "2 ^ 31 \<le> \<bar>sint a\<bar>" using sdiv_int_range [of "sint a" "sint b"] by simp
    then have a: "sint a = - (2 ^ 31)" using r(1) by (auto simp: in_int_range_def)
    then have "sint b = - 1" using q int_sdiv_negated_is_minus1 [of "sint a" "sint b"] by simp
    then have "b = - 1" by (metis signed_minus_1 signed_word_eqI)
    moreover have "a = 0x80000000" using a by (intro signed_word_eqI) simp
    ultimately show False using assms(2) by simp
  qed
  then show "in_int_range (sint a sdiv sint b)"
    using sdiv_int_range [of "sint a" "sint b"] r(1) by (auto simp: in_int_range_def)
qed

text \<open>
  Signed division truncates towards zero: whenever the divisor is not 0 and the quotient fits,
  Lo and Hi receive a quotient and a remainder with a = b * q + r, |r| < |b| and r = 0 or
  of the sign of a; division by zero clears both.
\<close>

theorem DIV_quotient_remainder:
  assumes "a = registers m (rs i)" "b = registers m (rt i)" "\<not> (a = 0x80000000 \<and> b = - 1)"
  shows "\<exists>m'. exec_DIV i pc m = to_end pc m' \<and>
    (if b = 0 then registers m' HiReg = 0 \<and> registers m' LoReg = 0
     else sint a = sint b * sint (registers m' LoReg) + sint (registers m' HiReg) \<and>
       \<bar>sint (registers m' HiReg)\<bar> < \<bar>sint b\<bar> \<and>
       (sint (registers m' HiReg) = 0 \<or> sgn (sint (registers m' HiReg)) = sgn (sint a)))"
proof (cases "b = 0")
  case True
  then show ?thesis using assms(2) by (auto simp: exec_DIV_def setReg_def)
next
  case False
  let ?m = "setReg HiReg (word_of_int (sint a smod sint b)) (setReg LoReg (word_of_int (sint a sdiv sint b)) m)"
  have b0: "sint b \<noteq> 0" using False by (rule sint_nonzero)
  have v: "sint (registers ?m LoReg) = sint a sdiv sint b" "sint (registers ?m HiReg) = sint a smod sint b"
    using sdiv_in_range [OF False assms(3)] by (simp_all add: setReg_def sint_word_of_int del: of_int_add)
  have "sint a smod sint b = 0 \<or> sgn (sint a smod sint b) = sgn (sint a)"
  proof (cases "\<bar>sint a\<bar> mod \<bar>sint b\<bar> = 0")
    case False
    then have "0 < \<bar>sint a\<bar> mod \<bar>sint b\<bar>" using b0 by (simp add: less_le)
    then show ?thesis by (simp add: signed_modulo_int_def sgn_mult)
  qed (simp add: signed_modulo_int_def)
  moreover have "exec_DIV i pc m = to_end pc ?m"
    using False assms by (auto simp: exec_DIV_def Let_def)
  ultimately show ?thesis using False v smod_int_range [OF b0, of "sint a"] mult_sdiv_smod_eq [of "sint b" "sint a"]
    by (intro exI [of _ ?m]) auto
qed

theorem DIV_quotient_remainder_witness:
  "\<exists>m'. exec_DIV \<lparr>opCode = OP_DIV, rs = 8, rt = 9, rd = 0, extra = 0\<rparr> 0
       (setReg 9 2 (setReg 8 (- 7) demo_machine)) = to_end 0 m' \<and>
     - 7 = 2 * sint (registers m' LoReg) + sint (registers m' HiReg)"
proof -
  let ?m = "setReg 9 2 (setReg 8 (- 7) demo_machine)"
  have r: "registers ?m 8 = - 7" "registers ?m 9 = 2" by (simp_all add: setReg_def)
  have "sint (- 7 :: 32 word) = - 7" "sint (2 :: 32 word) = 2" by simp_all
  then show ?thesis
    using DIV_quotient_remainder [of "- 7" ?m "\<lparr>opCode = OP_DIV, rs = 8, rt = 9, rd = 0, extra = 0\<rparr>" 2 0] r by auto
qed

text \<open>
  Every 32-bit word decodes to an operation that the switch handles (its default case,
  \<^verbatim>\<open>ASSERT(FALSE)\<close>, is unreachable), with register fields below 32 and sign-extended immediate
  operands. Starting from a state with a well-formed memory map and a legal pending load, and with
  an exception handler that keeps this or does not return, executing one instruction succeeds and
  keeps it or ends in the handler, except
  that dividing the smallest number by -1 traps, and LWL, LWR, SWL and SWR fail their assertion
  on an address that is not a multiple of 4.
\<close>

theorem OneInstruction_safe:
  assumes "cpu_ok m" "sane h"
  shows "(\<exists>m'. OneInstruction h m = Inr m' \<and> cpu_ok m') \<or>
    OneInstruction h m = Inl HandlerCalled \<or> OneInstruction h m = Inl DivideTrap \<or>
    (OneInstruction h m = Inl AssertionFailed \<and>
      (\<exists>v m1. ReadMem h (registers m PCReg) 4 m = Inr (Some v, m1) \<and> partial_misaligned (Decode v) m1))"
  by (rule OneInstruction_ok [OF assms])

theorem OneInstruction_safe_witness:
  "sane (\<lambda>_. Inr) \<and> cpu_ok demo_machine \<and>
   ((\<exists>m'. OneInstruction (\<lambda>_. Inr) demo_machine = Inr m' \<and> cpu_ok m') \<or>
    OneInstruction (\<lambda>_. Inr) demo_machine = Inl HandlerCalled \<or>
    OneInstruction (\<lambda>_. Inr) demo_machine = Inl DivideTrap \<or>
    OneInstruction (\<lambda>_. Inr) demo_machine = Inl AssertionFailed)"
proof -
  have s: "sane (\<lambda>_. Inr)" by (simp add: sane_def)
  have c: "cpu_ok demo_machine" by (simp add: cpu_ok_def demo_machine_def new_Machine_def well_mapped_def)
  show ?thesis using s c OneInstruction_safe [OF c s] by blast
qed

text \<open>
  Decoding is total: every word yields a handled operation, register numbers below 32, and for an
  immediate-format operation the sign-extended low 16 bits as its operand.
\<close>

theorem Decode_total:
  "opCode (Decode v) \<in> set handled \<and> rs (Decode v) < 32 \<and> rt (Decode v) < 32 \<and> rd (Decode v) < 32 \<and>
   extra (Decode v) = (case snd (opTable ! unat (drop_bit 26 v AND 0x3f)) of
     IFMT \<Rightarrow> scast (ucast v :: 16 word) | RFMT \<Rightarrow> drop_bit 6 v AND 0x1f | JFMT \<Rightarrow> v AND 0x3ffffff)"
proof -
  have "extra (Decode v) = Decode_extra (snd (opTable ! unat (drop_bit 26 v AND 0x3f))) v"
    by (simp add: Decode_def split: prod.splits)
  then show ?thesis using Decode_handled [of v] Decode_regs [of v]
    by (cases "snd (opTable ! unat (drop_bit 26 v AND 0x3f))") (simp_all add: Decode_immediate, simp_all add: Decode_extra_def)
qed

text \<open>
  Delay slots: when the switch of an instruction is completed, register 0 stays 0, the
  pending load of the previous instruction is applied now and that of this one stays pending, and the
  branch target takes effect one instruction later (PC becomes the old NextPC).
\<close>

theorem OneInstruction_delay_slots:
  assumes "ReadMem h (registers m PCReg) 4 m = Inr (Some v, m1)"
    and "exec_switch h (Decode v) (registers m1 NextPCReg + 4) m1 = Inr (Break m2 nextLoadReg nextLoadValue pcAfter)"
    and "unat (registers m2 LoadReg) = r" "r < 32"
  shows "\<exists>m'. OneInstruction h m = Inr m' \<and> registers m' 0 = 0 \<and>
    (0 < r \<longrightarrow> registers m' r = registers m2 LoadValueReg) \<and>
    registers m' LoadReg = nextLoadReg \<and> registers m' LoadValueReg = nextLoadValue \<and>
    registers m' PCReg = registers m2 NextPCReg \<and> registers m' NextPCReg = pcAfter \<and>
    registers m' PrevPCReg = registers m2 PCReg \<and>
    (\<forall>k < 34. k \<noteq> 0 \<longrightarrow> k \<noteq> r \<longrightarrow> registers m' k = registers m2 k)"
  using assms by (auto simp: OneInstruction_def DelayedLoad_def Let_def advance_pc_def)

theorem OneInstruction_delay_slots_witness:
  "\<exists>m'. OneInstruction (\<lambda>_. Inr) (setReg NextPCReg 404 (setReg PCReg 400 demo_machine)) = Inr m' \<and>
     registers m' PCReg = 404 \<and> registers m' NextPCReg = 408"
proof -
  let ?m = "setReg NextPCReg 404 (setReg PCReg 400 demo_machine)"
  have f: "well_mapped (setReg r v m) = well_mapped m" "lookup_entry (setReg r v m) p = lookup_entry m p" for r v m p
    by (auto simp: setReg_def lookup_entry_def split: option.splits)
  have pc: "registers ?m PCReg = 400" "registers ?m NextPCReg = 404" "registers ?m LoadReg = 0"
    "mainMemory ?m = (\<lambda>_. 0)" by (simp_all add: setReg_def demo_machine_def new_Machine_def)
  have "page_ok ?m 400 4 False demo_entry"
    using demo_page_ok [of False] unfolding page_ok_def f .
  from ReadMem_ok [OF this] obtain m1 where m1: "ReadMem (\<lambda>_. Inr) 400 4 ?m = Inr (Some 0, m1)" "registers m1 = registers ?m"
    unfolding pc(4) by (auto simp: read_value_def host_load32_def)
  have d: "Decode 0 = \<lparr>opCode = OP_SLL, rs = 0, rt = 0, rd = 0, extra = 0\<rparr>"
    by (simp add: Decode_def opTable_def specialTable_def Decode_extra_def)
  have "exec_switch (\<lambda>_. Inr) (Decode 0) (registers m1 NextPCReg + 4) m1 =
      Inr (Break (setReg 0 (registers m1 0) m1) 0 0 (registers m1 NextPCReg + 4))"
    unfolding d by (simp add: exec_switch_def exec_SLL_def to_end_def)
  moreover have "ReadMem (\<lambda>_. Inr) (registers ?m PCReg) 4 ?m = Inr (Some 0, m1)" using m1(1) pc(1) by metis
  moreover have "registers (setReg 0 (registers m1 0) m1) LoadReg = 0"
    "registers (setReg 0 (registers m1 0) m1) NextPCReg = 404" "registers m1 NextPCReg = 404"
    using m1(2) pc by (simp_all add: setReg_def)
  ultimately obtain m' where "OneInstruction (\<lambda>_. Inr) ?m = Inr m'" "registers m' PCReg = 404"
    "registers m' NextPCReg = 404 + 4"
    using OneInstruction_delay_slots [of "\<lambda>_. Inr" ?m 0 m1 "setReg 0 (registers m1 0) m1" 0 0 "registers m1 NextPCReg + 4" 0]
    by auto
  then show ?thesis by auto
qed

text \<open>
  Where the simulator deviates from the MIPS architecture: OR combines its first operand
  with itself and ignores the second; the logical right shifts SRL and SRLV shift a signed
  integer and so act exactly as SRA and SRAV; and dividing the smallest number by -1 stops
  the simulator instead of producing a result.
\<close>

theorem mips_deviations:
  "exec_switch h (i\<lparr>opCode := OP_OR\<rparr>) pc m = to_end pc (setReg (rd i) (registers m (rs i)) m) \<and>
   exec_switch h (i\<lparr>opCode := OP_SRL\<rparr>) pc m = exec_switch h (i\<lparr>opCode := OP_SRA\<rparr>) pc m \<and>
   exec_switch h (i\<lparr>opCode := OP_SRLV\<rparr>) pc m = exec_switch h (i\<lparr>opCode := OP_SRAV\<rparr>) pc m \<and>
   exec_DIV (i\<lparr>rs := 8, rt := 9\<rparr>) pc (setReg 9 (- 1) (setReg 8 0x80000000 m)) = Inl DivideTrap"
  by (simp add: exec_switch_def alu_RRR_def op_OR_def exec_SRL_def exec_SRA_def op_SRLV_def op_SRAV_def
      exec_DIV_def setReg_def)

end
