(* ===== verification/Interpreter.thy ===== *)
theory Interpreter
  imports Mips_Props
begin

unbundle bit_operations_syntax

text \<open>
  The interpreter of MIPS programs that comes with the tools (\<^verbatim>\<open>bin/execute.c\<close>, with the macros of \<^verbatim>\<open>bin/instr.h\<close>,
  \<^verbatim>\<open>bin/int.h\<close> and \<^verbatim>\<open>bin/encode.h\<close>), and a comparison of its instructions with those of the simulator of the
  kernel (\<^verbatim>\<open>machine/mipssim.cc\<close>).
\<close>

section \<open>State\<close>

abbreviation (input) MEMSIZE :: nat where "MEMSIZE \<equiv> 16777216"
abbreviation (input) memoffset :: "32 word" where "memoffset \<equiv> 0x10000000"

text \<open>The registers and the variables of \<^verbatim>\<open>runprogram\<close>; memory is indexed from \<^verbatim>\<open>memoffset\<close> on.\<close>

record Interp =
  Reg :: "nat \<Rightarrow> 32 word"
  HI :: "32 word"
  LO :: "32 word"
  ipc :: "32 word"
  npc :: "32 word"
  imem :: "nat \<Rightarrow> 8 word"
  icount :: nat

text \<open>
  Why the interpreter stops: \<^verbatim>\<open>u()\<close>, a coprocessor instruction, a call of the host through \<^verbatim>\<open>system_trap\<close> or \<^verbatim>\<open>system_break\<close>,
  a division that traps on the host; and what C leaves undefined: an address outside \<^verbatim>\<open>mem\<close> or misaligned, and a shift
  by a number of bits outside of 0 to 31.
\<close>

datatype stop = Unimplemented | Coprocessor | SystemTrap Interp | SystemBreak Interp | HostDivideTrap | WildAccess | WildShift

section \<open>Memory and instruction fields\<close>

definition mem_index :: "32 word \<Rightarrow> nat \<Rightarrow> stop + nat" where
  "mem_index addr sz =
     (let k = addr - memoffset in
      if sint k < 0 \<or> MEMSIZE < unat k + sz \<or> unat addr mod sz \<noteq> 0 then Inl WildAccess else Inr (unat k))"

definition fetch :: "bool \<Rightarrow> 32 word \<Rightarrow> Interp \<Rightarrow> stop + 32 word" where
  "fetch big addr s = bindR (mem_index addr 4) (\<lambda>k. Inr (host_load32 big (imem s) k))"

definition usfetch :: "bool \<Rightarrow> 32 word \<Rightarrow> Interp \<Rightarrow> stop + 16 word" where
  "usfetch big addr s = bindR (mem_index addr 2) (\<lambda>k. Inr (host_load16 big (imem s) k))"

definition ucfetch :: "32 word \<Rightarrow> Interp \<Rightarrow> stop + 8 word" where
  "ucfetch addr s = bindR (mem_index addr 1) (\<lambda>k. Inr (imem s k))"

definition istore :: "bool \<Rightarrow> 32 word \<Rightarrow> 32 word \<Rightarrow> Interp \<Rightarrow> stop + Interp" where
  "istore big addr v s = bindR (mem_index addr 4) (\<lambda>k. Inr (s\<lparr>imem := host_store32 big (imem s) k v\<rparr>))"

definition sstore :: "bool \<Rightarrow> 32 word \<Rightarrow> 32 word \<Rightarrow> Interp \<Rightarrow> stop + Interp" where
  "sstore big addr v s = bindR (mem_index addr 2) (\<lambda>k. Inr (s\<lparr>imem := host_store16 big (imem s) k (ucast v)\<rparr>))"

definition cstore :: "32 word \<Rightarrow> 32 word \<Rightarrow> Interp \<Rightarrow> stop + Interp" where
  "cstore addr v s = bindR (mem_index addr 1) (\<lambda>k. Inr (s\<lparr>imem := (imem s)(k := ucast v)\<rparr>))"

text \<open>\<^verbatim>\<open>>>\<close> on an \<^verbatim>\<open>int\<close> keeps the sign.\<close>

definition f_op :: "32 word \<Rightarrow> nat" where "f_op i = unat (signed_drop_bit 26 i AND 0x3f)"
definition f_rd :: "32 word \<Rightarrow> nat" where "f_rd i = unat (signed_drop_bit 11 i AND 0x1f)"
definition f_rt :: "32 word \<Rightarrow> nat" where "f_rt i = unat (signed_drop_bit 16 i AND 0x1f)"
definition f_rs :: "32 word \<Rightarrow> nat" where "f_rs i = unat (signed_drop_bit 21 i AND 0x1f)"
definition f_shamt :: "32 word \<Rightarrow> nat" where "f_shamt i = unat (signed_drop_bit 6 i AND 0x1f)"

definition immed :: "32 word \<Rightarrow> 32 word" where
  "immed i = (if i AND 0x8000 \<noteq> 0 then i OR - 0x8000 else i AND 0x7fff)"

definition setR :: "nat \<Rightarrow> 32 word \<Rightarrow> Interp \<Rightarrow> Interp" where
  "setR r v s = s\<lparr>Reg := (Reg s)(r := v)\<rparr>"

definition shift_by :: "32 word \<Rightarrow> (nat \<Rightarrow> stop + Interp) \<Rightarrow> stop + Interp" where
  "shift_by n k = (if unat n < 32 then k (unat n) else Inl WildShift)"

section \<open>The instructions\<close>

definition int_high :: "32 word \<Rightarrow> 32 word \<Rightarrow> 32 word" where
  "int_high t1 t2 =
     (let t1l = t1 AND 0xffff; t1h = signed_drop_bit 16 t1 AND 0xffff;
          t2l = t2 AND 0xffff; t2h = signed_drop_bit 16 t2 AND 0xffff in
      t1h * t2h + signed_drop_bit 16 (t1h * t2l) + signed_drop_bit 16 (t2h * t1l))"

definition int_MULT :: "32 word \<Rightarrow> 32 word \<Rightarrow> 32 word \<times> 32 word" where
  "int_MULT t1 t2 =
     (let neg1 = sint t1 < 0; u1 = (if neg1 then - t1 else t1);
          neg2 = sint t2 < 0; u2 = (if neg2 then - t2 else t2);
          LO' = u1 * u2; HI' = int_high u1 u2 in
      if neg1 \<noteq> neg2
      then let LO1 = NOT LO' + 1; HI1 = NOT HI' in (if LO1 = 0 then HI1 + 1 else HI1, LO1)
      else (HI', LO'))"

definition int_special :: "32 word \<Rightarrow> 32 word \<Rightarrow> Interp \<Rightarrow> stop + Interp" where
  "int_special i xpc s =
     (let f = unat (i AND 0x3f); a = Reg s (f_rs i); b = Reg s (f_rt i); d = f_rd i in
      if f = 0 then Inr (setR d (push_bit (f_shamt i) b) s)
      else if f = 2 then Inr (setR d (drop_bit (f_shamt i) b) s)
      else if f = 3 then Inr (setR d (signed_drop_bit (f_shamt i) b) s)
      else if f = 4 then shift_by a (\<lambda>n. Inr (setR d (push_bit n b) s))
      else if f = 6 then shift_by a (\<lambda>n. Inr (setR d (drop_bit n b) s))
      else if f = 7 then shift_by a (\<lambda>n. Inr (setR d (signed_drop_bit n b) s))
      else if f = 8 then Inr (s\<lparr>npc := a\<rparr>)
      else if f = 9 then Inr (setR d (xpc + 8) (s\<lparr>npc := a\<rparr>))
      else if f = 12 then Inl (SystemTrap s)
      else if f = 13 then Inl (SystemBreak s)
      else if f = 16 then Inr (setR d (HI s) s)
      else if f = 17 then Inr (s\<lparr>HI := a\<rparr>)
      else if f = 18 then Inr (setR d (LO s) s)
      else if f = 19 then Inr (s\<lparr>LO := a\<rparr>)
      else if f = 24 then Inr (s\<lparr>HI := fst (int_MULT a b), LO := snd (int_MULT a b)\<rparr>)
      else if f = 25 then Inr (s\<lparr>HI := int_high a b, LO := a * b\<rparr>)
      else if f = 26 then
        (if b = 0 \<or> a = 0x80000000 \<and> b = - 1 then Inl HostDivideTrap
         else Inr (s\<lparr>LO := word_of_int (sint a sdiv sint b), HI := word_of_int (sint a smod sint b)\<rparr>))
      else if f = 27 then (if b = 0 then Inl HostDivideTrap else Inr (s\<lparr>LO := a div b, HI := a mod b\<rparr>))
      else if f = 32 \<or> f = 33 then Inr (setR d (a + b) s)
      else if f = 34 \<or> f = 35 then Inr (setR d (a - b) s)
      else if f = 36 then Inr (setR d (a AND b) s)
      else if f = 37 then Inr (setR d (a OR b) s)
      else if f = 38 then Inr (setR d (a XOR b) s)
      else if f = 39 then Inr (setR d (NOT (a OR b)) s)
      else if f = 42 then Inr (setR d (if sint a < sint b then 1 else 0) s)
      else if f = 43 then Inr (setR d (if a < b then 1 else 0) s)
      else Inl Unimplemented)"

definition branch_if :: "bool \<Rightarrow> 32 word \<Rightarrow> 32 word \<Rightarrow> Interp \<Rightarrow> Interp" where
  "branch_if c i xpc s = (if c then s\<lparr>npc := xpc + 4 + push_bit 2 (immed i)\<rparr> else s)"

definition int_bcond :: "32 word \<Rightarrow> 32 word \<Rightarrow> Interp \<Rightarrow> stop + Interp" where
  "int_bcond i xpc s =
     (let s1 = setR 31 (xpc + 8) s in
      if f_rt i = 0 then Inr (branch_if (sint (Reg s (f_rs i)) < 0) i xpc s)
      else if f_rt i = 1 then Inr (branch_if (sint (Reg s (f_rs i)) \<ge> 0) i xpc s)
      else if f_rt i = 16 then Inr (branch_if (sint (Reg s1 (f_rs i)) < 0) i xpc s1)
      else if f_rt i = 17 then Inr (branch_if (sint (Reg s1 (f_rs i)) \<ge> 0) i xpc s1)
      else Inl Unimplemented)"

definition jump_to :: "32 word \<Rightarrow> 32 word \<Rightarrow> Interp \<Rightarrow> Interp" where
  "jump_to i xpc s = s\<lparr>npc := (xpc AND 0xf0000000) OR push_bit 2 (i AND 0x03ffffff)\<rparr>"

definition int_LWL :: "bool \<Rightarrow> 32 word \<Rightarrow> Interp \<Rightarrow> stop + Interp" where
  "int_LWL big i s =
     (let x = Reg s (f_rs i) + immed i;
          s1 = setR (f_rt i) (Reg s (f_rt i) AND signed_drop_bit (8 * unat (- x AND 3)) (- 1)) s in
      bindR (fetch big (x AND 0xfffffffc) s1) (\<lambda>w.
        Inr (setR (f_rt i) (Reg s1 (f_rt i) OR push_bit (8 * unat (x AND 3)) w) s1)))"

definition int_LWR :: "bool \<Rightarrow> 32 word \<Rightarrow> Interp \<Rightarrow> stop + Interp" where
  "int_LWR big i s =
     (let x = Reg s (f_rs i) + immed i;
          v = (if x AND 3 = 0 then 0 else Reg s (f_rt i) AND push_bit (8 * unat (x AND 3)) (- 1));
          s1 = setR (f_rt i) v s in
      bindR (fetch big (x AND 0xfffffffc) s1) (\<lambda>w.
        Inr (setR (f_rt i) (Reg s1 (f_rt i) OR signed_drop_bit (8 * unat (- x AND 3)) w) s1)))"

definition int_exec :: "bool \<Rightarrow> 32 word \<Rightarrow> 32 word \<Rightarrow> Interp \<Rightarrow> stop + Interp" where
  "int_exec big i xpc s =
     (let opc = f_op i; a = Reg s (f_rs i); b = Reg s (f_rt i); t = f_rt i; x = immed i in
      if opc = 0 then int_special i xpc s
      else if opc = 1 then int_bcond i xpc s
      else if opc = 2 then Inr (jump_to i xpc s)
      else if opc = 3 then Inr (jump_to i xpc (setR 31 (xpc + 8) s))
      else if opc = 4 then Inr (branch_if (a = b) i xpc s)
      else if opc = 5 then Inr (branch_if (a \<noteq> b) i xpc s)
      else if opc = 6 then Inr (branch_if (sint a \<le> 0) i xpc s)
      else if opc = 7 then Inr (branch_if (sint a > 0) i xpc s)
      else if opc = 8 \<or> opc = 9 then Inr (setR t (a + x) s)
      else if opc = 10 then Inr (setR t (if sint a < sint x then 1 else 0) s)
      else if opc = 11 then Inr (setR t (if a < x then 1 else 0) s)
      else if opc = 12 then Inr (setR t (a AND x) s)
      else if opc = 13 then Inr (setR t (a OR x) s)
      else if opc = 14 then Inr (setR t (a XOR x) s)
      else if opc = 15 then Inr (setR t (push_bit 16 i) s)
      else if opc = 32 then bindR (ucfetch (a + x) s) (\<lambda>w. Inr (setR t (scast w) s))
      else if opc = 33 then bindR (usfetch big (a + x) s) (\<lambda>w. Inr (setR t (scast w) s))
      else if opc = 34 then int_LWL big i s
      else if opc = 35 then bindR (fetch big (a + x) s) (\<lambda>w. Inr (setR t w s))
      else if opc = 36 then bindR (ucfetch (a + x) s) (\<lambda>w. Inr (setR t (ucast w) s))
      else if opc = 37 then bindR (usfetch big (a + x) s) (\<lambda>w. Inr (setR t (ucast w) s))
      else if opc = 38 then int_LWR big i s
      else if opc = 40 then cstore (a + x) b s
      else if opc = 41 then sstore big (a + x) b s
      else if opc = 42 then Inl Unimplemented
      else if opc = 43 then istore big (a + x) b s
      else if opc = 46 then Inl Unimplemented
      else if opc \<in> {48, 49, 50, 51, 56, 57, 58, 59, 16, 17, 18, 19} then Inl Coprocessor
      else Inl Unimplemented)"

definition int_step :: "bool \<Rightarrow> Interp \<Rightarrow> stop + Interp" where
  "int_step big s =
     (let xpc = ipc s; s1 = s\<lparr>icount := icount s + 1, ipc := npc s, npc := npc s + 4\<rparr> in
      bindR (fetch big xpc s1) (\<lambda>instr.
      let s2 = setR 0 0 s1 in
      if instr \<noteq> 0 then int_exec big instr xpc s2 else Inr s2))"

text \<open>The loop of \<^verbatim>\<open>runprogram\<close> ends only by an exit; \<open>int_run n\<close> are its first \<open>n\<close> rounds.\<close>

fun int_run :: "nat \<Rightarrow> bool \<Rightarrow> Interp \<Rightarrow> stop + Interp" where
  "int_run 0 big s = Inr s"
| "int_run (Suc n) big s = bindR (int_step big s) (int_run n big)"

text \<open>The start of \<^verbatim>\<open>runprogram\<close>: the stack pointer and the arguments, each a string with its terminating zero.\<close>

fun put_string :: "32 word \<Rightarrow> 8 word list \<Rightarrow> Interp \<Rightarrow> stop + Interp" where
  "put_string addr [] s = Inr s"
| "put_string addr (c # cs) s = bindR (cstore addr (ucast c) s) (put_string (addr + 1) cs)"

fun push_args :: "bool \<Rightarrow> 32 word \<Rightarrow> 32 word \<Rightarrow> 8 word list list \<Rightarrow> Interp \<Rightarrow> stop + Interp" where
  "push_args big aci ai [] s = Inr s"
| "push_args big aci ai (arg # args) s =
     bindR (put_string ai (arg @ [0]) s) (\<lambda>s1.
     bindR (istore big aci ai s1) (\<lambda>s2.
     push_args big (aci + 4) (ai + of_nat (length arg) + 1) args s2))"

definition start_program :: "bool \<Rightarrow> 32 word \<Rightarrow> 8 word list list \<Rightarrow> Interp \<Rightarrow> stop + Interp" where
  "start_program big startpc argv s =
     (let i = of_nat (MEMSIZE - 1024) + memoffset;
          s1 = setR 29 i (s\<lparr>icount := 0, ipc := startpc, npc := startpc + 4\<rparr>) in
      bindR (istore big i (of_nat (length argv)) s1) (push_args big (i + 4) (i + 4 + 32) argv))"

section \<open>Comparison with the simulator of the kernel\<close>

text \<open>The part of \<^verbatim>\<open>Machine::OneInstruction\<close> after the instruction has been fetched.\<close>

definition mips_exec :: "handler \<Rightarrow> 32 word \<Rightarrow> Machine \<Rightarrow> Machine res" where
  "mips_exec h v m = bindR (exec_switch h (Decode v) (registers m NextPCReg + 4) m) (\<lambda>fl. case fl of
     Return m2 \<Rightarrow> Inr m2
   | Break m2 nextLoadReg nextLoadValue pcAfter \<Rightarrow>
       bindR (DelayedLoad nextLoadReg nextLoadValue m2) (\<lambda>m3. Inr (advance_pc pcAfter m3)))"

lemma OneInstruction_fetched:
  "ReadMem h (registers m PCReg) 4 m = Inr (Some v, m1) \<Longrightarrow> OneInstruction h m = mips_exec h v m1"
  by (simp add: OneInstruction_def mips_exec_def)

text \<open>The interpreter at an instruction it has fetched.\<close>

definition started :: "Interp \<Rightarrow> Interp" where
  "started s = setR 0 0 (s\<lparr>icount := icount s + 1, ipc := npc s, npc := npc s + 4\<rparr>)"

definition same_cpu :: "Machine \<Rightarrow> Interp \<Rightarrow> bool" where
  "same_cpu m s \<longleftrightarrow> (\<forall>i. 0 < i \<longrightarrow> i < 32 \<longrightarrow> registers m i = Reg s i) \<and> registers m 0 = 0 \<and> registers m HiReg = HI s \<and>
     registers m LoReg = LO s \<and> registers m PCReg = ipc s \<and> registers m NextPCReg = npc s \<and> registers m LoadReg = 0"

text \<open>Fields of an instruction.\<close>

lemma signed_field: "n + k \<le> 32 \<Longrightarrow> signed_drop_bit n i AND mask k = drop_bit n i AND mask k" for i :: "32 word"
  by (rule bit_word_eqI) (auto simp: bit_simps)

lemma fields:
  "f_op i = unat (drop_bit 26 i AND 0x3f)" "f_rs i = unat (drop_bit 21 i AND 0x1f)" "f_rt i = unat (drop_bit 16 i AND 0x1f)"
  "f_rd i = unat (drop_bit 11 i AND 0x1f)" "f_shamt i = unat (drop_bit 6 i AND 0x1f)"
  using signed_field [of 26 6 i] signed_field [of 21 5 i] signed_field [of 16 5 i] signed_field [of 11 5 i] signed_field [of 6 5 i]
  by (simp_all add: f_op_def f_rs_def f_rt_def f_rd_def f_shamt_def mask_eq_exp_minus_1)

lemma field_bound: "unat (x AND 0x1f) < 32" for x :: "32 word"
proof -
  have "x AND 0x1f \<le> 0x1f" by (rule word_and_le1)
  then show ?thesis by (simp add: word_le_nat_alt)
qed

lemma field_bounds [simp]: "f_rs i < 32" "f_rt i < 32" "f_rd i < 32" "f_shamt i < 32"
  by (simp_all add: fields field_bound)

lemma immed_masks:
  "(0xffff :: 32 word) = mask 16" "(0x7fff :: 32 word) = mask 15" "(0xffff0000 :: 32 word) = NOT (mask 16)"
  "- (0x8000 :: 32 word) = NOT (mask 15)" "(0x8000 :: 32 word) = 2 ^ 15"
  by (simp_all add: mask_eq_exp_minus_1)

lemma sign_of_immed: "v AND 0x8000 \<noteq> 0 \<longleftrightarrow> bit v 15" for v :: "32 word"
  unfolding immed_masks(5) using and_exp_eq_0_iff_not_bit [of v 15] by simp

lemma immed_extra: "Decode_extra IFMT v = immed v"
proof -
  have "(v AND 0xffff) AND 0x8000 = v AND 0x8000" by (simp add: and.assoc)
  then have c: "(v AND 0xffff) AND 0x8000 \<noteq> 0 \<longleftrightarrow> bit v 15" using sign_of_immed by simp
  have k: "n < 16 \<longleftrightarrow> n < 15 \<or> n = 15" for n :: nat by auto
  have "bit v 15 \<Longrightarrow> (v AND mask 16) OR NOT (mask 16) = v OR NOT (mask 15)" "\<not> bit v 15 \<Longrightarrow> v AND mask 16 = v AND mask 15"
    by (auto intro!: bit_word_eqI simp: bit_simps k)
  then have "bit v 15 \<Longrightarrow> (v AND 0xffff) OR 0xffff0000 = v OR - 0x8000" "\<not> bit v 15 \<Longrightarrow> v AND 0xffff = v AND 0x7fff"
    unfolding immed_masks(1-4) by blast+
  then show ?thesis unfolding Decode_extra_def immed_def format.case Let_def sign_of_immed c [unfolded sign_of_immed] by presburger
qed

lemma Decode_fields:
  "Decode v = \<lparr>opCode = (let opc = fst (opTable ! f_op v) in if opc = SPECIAL then specialTable ! unat (v AND 0x3f)
     else if opc = BCOND then Decode_bcond v else opc), rs = f_rs v, rt = f_rt v, rd = f_rd v,
     extra = Decode_extra (snd (opTable ! f_op v)) v\<rparr>"
  by (simp add: Decode_def fields Let_def split: prod.splits)

lemma bcond_field: "Decode_bcond v = (if f_rt v = 0 then OP_BLTZ else if f_rt v = 1 then OP_BGEZ
    else if f_rt v = 16 then OP_BLTZAL else if f_rt v = 17 then OP_BGEZAL else OP_UNIMP)"
proof -
  define f where "f = drop_bit 16 v AND 0x1f"
  have m: "(0x1f0000 :: 32 word) = push_bit 16 (mask 5)" "(0x1f :: 32 word) = mask 5" by (simp_all add: mask_eq_exp_minus_1 push_bit_eq_mult)
  have e: "v AND 0x1f0000 = push_bit 16 f" "drop_bit 16 (v AND 0x1f0000) = f" unfolding f_def m
    by (rule bit_word_eqI; auto simp: bit_simps)+
  have "v AND 0x1f0000 = push_bit 16 (of_nat c) \<longleftrightarrow> f_rt v = c" if "c \<in> {0, 1, 16, 17}" for c :: nat
  proof
    assume "v AND 0x1f0000 = push_bit 16 (of_nat c)"
    with e(2) have "f = drop_bit 16 (push_bit 16 (of_nat c))" by simp
    also have "\<dots> = of_nat c" using that by (auto simp: push_bit_eq_mult drop_bit_eq_div)
    finally have "f = of_nat c" .
    then show "f_rt v = c" using that by (auto simp: fields f_def [symmetric])
  next
    assume "f_rt v = c"
    then have "f = of_nat c" by (auto simp: fields f_def [symmetric])
    then show "v AND 0x1f0000 = push_bit 16 (of_nat c)" by (simp add: e(1))
  qed
  from this [of 0] this [of 1] this [of 16] this [of 17] show ?thesis
    by (simp add: Decode_bcond_def Let_def push_bit_eq_mult)
qed

text \<open>
  The instructions and operands for which agreement is shown below, not all those that both simulators have. Left out
  are loads and stores (the memories differ) and traps; \<^verbatim>\<open>OR\<close>, \<^verbatim>\<open>MULT\<close> and \<^verbatim>\<open>MULTU\<close>, which one of them gets wrong; \<^verbatim>\<open>SRL\<close>
  and \<^verbatim>\<open>SRLV\<close> of negative numbers; variable shifts by 32 or more; \<^verbatim>\<open>ANDI\<close>, \<^verbatim>\<open>ORI\<close> and \<^verbatim>\<open>XORI\<close> with bit 15 of the immediate set
  (one extends its sign); \<^verbatim>\<open>ADD\<close>, \<^verbatim>\<open>ADDI\<close> and \<^verbatim>\<open>SUB\<close> that overflow; division by zero and of the least number by -1;
  \<^verbatim>\<open>JALR\<close> with \<^verbatim>\<open>rd = rs\<close>; branches and linking jumps in a delay slot; and \<^verbatim>\<open>J\<close> and \<^verbatim>\<open>JAL\<close> across a border of 256 MB.
\<close>

definition agreeing_special :: "32 word \<Rightarrow> Interp \<Rightarrow> bool" where
  "agreeing_special v s \<longleftrightarrow>
     (let f = unat (v AND 0x3f); a = Reg (started s) (f_rs v); b = Reg (started s) (f_rt v) in
      f \<in> {0, 3, 8, 16, 17, 18, 19, 33, 35, 36, 38, 39, 42, 43} \<or>
      f = 2 \<and> 0 \<le> sint b \<or> f \<in> {4, 7} \<and> unat a < 32 \<or> f = 6 \<and> unat a < 32 \<and> 0 \<le> sint b \<or>
      f = 9 \<and> npc s = ipc s + 4 \<and> f_rd v \<noteq> f_rs v \<or>
      f = 26 \<and> b \<noteq> 0 \<and> \<not> (a = 0x80000000 \<and> b = - 1) \<or> f = 27 \<and> b \<noteq> 0 \<or>
      f = 32 \<and> in_int_range (sint a + sint b) \<or> f = 34 \<and> in_int_range (sint a - sint b))"

definition agreeing_instr :: "32 word \<Rightarrow> Interp \<Rightarrow> bool" where
  "agreeing_instr v s \<longleftrightarrow>
     (let opc = f_op v; a = Reg (started s) (f_rs v) in
      opc = 0 \<and> agreeing_special v s \<or>
      opc = 1 \<and> f_rt v \<in> {0, 1, 16, 17} \<and> npc s = ipc s + 4 \<or>
      opc \<in> {2, 3} \<and> npc s = ipc s + 4 \<and> (ipc s + 8) AND 0xf0000000 = ipc s AND 0xf0000000 \<or>
      opc \<in> {4, 5, 6, 7} \<and> npc s = ipc s + 4 \<or>
      opc = 8 \<and> in_int_range (sint a + sint (immed v)) \<or>
      opc \<in> {9, 10, 11, 15} \<or> opc \<in> {12, 13, 14} \<and> \<not> bit v 15)"

lemma same_operand: "same_cpu m s \<Longrightarrow> r < 32 \<Longrightarrow> registers m r = Reg (started s) r"
  by (auto simp: same_cpu_def started_def setR_def)

text \<open>An instruction that ends in the same state on both sides.\<close>

definition agree :: "handler \<Rightarrow> bool \<Rightarrow> 32 word \<Rightarrow> Machine \<Rightarrow> Interp \<Rightarrow> bool" where
  "agree h big v m s \<longleftrightarrow> (\<exists>m' s'. mips_exec h v m = Inr m' \<and> int_exec big v (ipc s) (started s) = Inr s' \<and> same_cpu m' s')"

lemma agreeI:
  assumes "same_cpu m s" "exec_switch h (Decode v) (registers m NextPCReg + 4) m = to_end pc m2"
    "int_exec big v (ipc s) (started s) = Inr s'"
    "\<And>i. 0 < i \<Longrightarrow> i < 32 \<Longrightarrow> registers m2 i = Reg s' i" "registers m2 HiReg = HI s'" "registers m2 LoReg = LO s'"
    "registers m2 NextPCReg = ipc s'" "pc = npc s'" "registers m2 LoadReg = 0"
  shows "agree h big v m s"
  using assms by (auto simp: agree_def mips_exec_def to_end_def DelayedLoad_def advance_pc_def same_cpu_def)

lemma started_simps [simp]: "ipc (started s) = npc s" "npc (started s) = npc s + 4" "HI (started s) = HI s" "LO (started s) = LO s"
  by (simp_all add: started_def setR_def)

lemma agree_write:
  assumes "same_cpu m s" "r < 32" "exec_switch h (Decode v) (npc s + 4) m = to_end (npc s + 4) (setReg r w m)"
    "int_exec big v (ipc s) (started s) = Inr (setR r w (started s))"
  shows "agree h big v m s"
  by (rule agreeI [OF assms(1) _ assms(4), of h "npc s + 4" "setReg r w m"])
     (use assms(1-3) in \<open>auto simp: same_cpu_def setReg_def setR_def same_operand [OF assms(1)]\<close>)

lemma agree_link:
  assumes "same_cpu m s" "r < 32" "exec_switch h (Decode v) (npc s + 4) m = to_end pc (setReg r w m)"
    "int_exec big v (ipc s) (started s) = Inr (setR r w ((started s)\<lparr>npc := pc\<rparr>))"
  shows "agree h big v m s"
  by (rule agreeI [OF assms(1) _ assms(4), of h pc "setReg r w m"])
     (use assms(1-3) in \<open>auto simp: same_cpu_def setReg_def setR_def same_operand [OF assms(1)]\<close>)

lemma agree_jump:
  assumes "same_cpu m s" "exec_switch h (Decode v) (npc s + 4) m = to_end pc m"
    "int_exec big v (ipc s) (started s) = Inr ((started s)\<lparr>npc := pc\<rparr>)"
  shows "agree h big v m s"
  by (rule agreeI [OF assms(1) _ assms(3), of h pc m])
     (use assms(1,2) in \<open>auto simp: same_cpu_def same_operand [OF assms(1)]\<close>)

lemma agree_hilo:
  assumes "same_cpu m s" "exec_switch h (Decode v) (npc s + 4) m = to_end (npc s + 4) (m\<lparr>registers := (registers m)(HiReg := x, LoReg := y)\<rparr>)"
    "int_exec big v (ipc s) (started s) = Inr ((started s)\<lparr>HI := x, LO := y\<rparr>)"
  shows "agree h big v m s"
  by (rule agreeI [OF assms(1) _ assms(3), of h "npc s + 4" "m\<lparr>registers := (registers m)(HiReg := x, LoReg := y)\<rparr>"])
     (use assms(1,2) in \<open>auto simp: same_cpu_def same_operand [OF assms(1)]\<close>)

lemmas decode_defs = exec_switch_def Decode_fields opTable_def Let_def immed_extra

lemma agree_immediate:
  assumes "same_cpu m s" "f_op v \<in> {9, 10, 11, 15}"
  shows "agree h big v m s"
proof -
  have ops: "registers m (f_rs v) = Reg (started s) (f_rs v)" by (simp add: same_operand [OF assms(1)])
  have k: "n < 16 \<longleftrightarrow> n < 15 \<or> n = 15" for n :: nat by auto
  have low: "n < 16 \<Longrightarrow> bit (immed v) n = bit v n" for n
    unfolding immed_def sign_of_immed immed_masks(2,4) by (auto simp: bit_simps k)
  have lui: "push_bit 16 (immed v) = push_bit 16 v" by (rule bit_word_eqI) (auto simp: bit_simps low)
  from assms(2) consider "f_op v = 9" | "f_op v = 10" | "f_op v = 11" | "f_op v = 15" by auto
  then show ?thesis
  proof cases
    case 1 show ?thesis
      by (rule agree_write [OF assms(1), of "f_rt v" _ _ "Reg (started s) (f_rs v) + immed v"])
         (simp_all add: 1 ops decode_defs alu_RRI_def op_ADDIU_def int_exec_def)
  next
    case 2 show ?thesis
      by (rule agree_write [OF assms(1), of "f_rt v" _ _ "if sint (Reg (started s) (f_rs v)) < sint (immed v) then 1 else 0"])
         (simp_all add: 2 ops decode_defs alu_RRI_def op_SLT_def int_exec_def)
  next
    case 3 show ?thesis
      by (rule agree_write [OF assms(1), of "f_rt v" _ _ "if Reg (started s) (f_rs v) < immed v then 1 else 0"])
         (simp_all add: 3 ops decode_defs alu_RRI_def op_SLTU_def int_exec_def)
  next
    case 4 show ?thesis
      by (rule agree_write [OF assms(1), of "f_rt v" _ _ "push_bit 16 v"])
         (simp_all add: 4 ops decode_defs alu_RRI_def op_LUI_def int_exec_def lui)
  qed
qed

lemma agree_logical:
  assumes "same_cpu m s" "f_op v \<in> {12, 13, 14}" "\<not> bit v 15"
  shows "agree h big v m s"
proof -
  have ops: "registers m (f_rs v) = Reg (started s) (f_rs v)" by (simp add: same_operand [OF assms(1)])
  have i: "immed v AND 0xffff = immed v"
    using assms(3) unfolding immed_def sign_of_immed by (simp add: and.assoc)
  let ?a = "Reg (started s) (f_rs v)"
  from assms(2) consider "f_op v = 12" | "f_op v = 13" | "f_op v = 14" by auto
  then show ?thesis
  proof cases
    case 1 show ?thesis
      by (rule agree_write [OF assms(1), of "f_rt v" _ _ "?a AND immed v"])
         (simp_all add: 1 ops decode_defs alu_RRI_def op_ANDI_def int_exec_def i)
  next
    case 2 show ?thesis
      by (rule agree_write [OF assms(1), of "f_rt v" _ _ "?a OR immed v"])
         (simp_all add: 2 ops decode_defs alu_RRI_def op_ORI_def int_exec_def i)
  next
    case 3 show ?thesis
      by (rule agree_write [OF assms(1), of "f_rt v" _ _ "?a XOR immed v"])
         (simp_all add: 3 ops decode_defs alu_RRI_def op_XORI_def int_exec_def i)
  qed
qed

lemma agree_addi:
  assumes "same_cpu m s" "f_op v = 8" "in_int_range (sint (Reg (started s) (f_rs v)) + sint (immed v))"
  shows "agree h big v m s"
proof (rule agree_write [OF assms(1), of "f_rt v" _ _ "Reg (started s) (f_rs v) + immed v"])
  have "exec_ADDI h (Decode v) pc m = to_end pc (setReg (f_rt v) (registers m (f_rs v) + immed v) m)" for pc
    using assms(3) unfolding exec_ADDI_def Let_def sign_xor sign_xor_eq in_int_range_def add_overflow(2)
    by (auto simp: decode_defs assms(2) same_operand [OF assms(1)])
  then show "exec_switch h (Decode v) (npc s + 4) m = to_end (npc s + 4) (setReg (f_rt v) (Reg (started s) (f_rs v) + immed v) m)"
    by (simp add: decode_defs assms(2) same_operand [OF assms(1)])
qed (simp_all add: assms(2) int_exec_def Let_def)

text \<open>Branches.\<close>

lemma branch_target:
  assumes "same_cpu m s" "npc s = ipc s + 4" "extra i = immed v"
  shows "branch c i (npc s + 4) m = to_end (npc (branch_if c v (ipc s) (started s))) m"
  using assms by (simp add: branch_def branch_if_def same_cpu_def IndexToAddr_def)

lemma branch_if_npc: "branch_if c v x s = s\<lparr>npc := npc (branch_if c v x s)\<rparr>" by (simp add: branch_if_def)

lemma agree_branch:
  assumes "same_cpu m s" "npc s = ipc s + 4" "exec_switch h (Decode v) (npc s + 4) m = branch c (Decode v) (npc s + 4) m"
    "extra (Decode v) = immed v" "int_exec big v (ipc s) (started s) = Inr (branch_if c v (ipc s) (started s))"
  shows "agree h big v m s"
  by (rule agree_jump [OF assms(1), of _ _ "npc (branch_if c v (ipc s) (started s))"])
     (use assms(3,5) branch_target [OF assms(1,2,4)] branch_if_npc in \<open>simp_all\<close>)

lemma agree_branches:
  assumes "same_cpu m s" "npc s = ipc s + 4" "f_op v \<in> {4, 5, 6, 7}"
  shows "agree h big v m s"
proof -
  have ops: "registers m (f_rs v) = Reg (started s) (f_rs v)" "registers m (f_rt v) = Reg (started s) (f_rt v)"
    by (simp_all add: same_operand [OF assms(1)])
  let ?a = "Reg (started s) (f_rs v)" and ?b = "Reg (started s) (f_rt v)"
  from assms(3) consider "f_op v = 4" | "f_op v = 5" | "f_op v = 6" | "f_op v = 7" by auto
  then show ?thesis
  proof cases
    case 1 show ?thesis by (rule agree_branch [OF assms(1,2), of _ _ "?a = ?b"])
      (simp_all add: 1 ops decode_defs exec_BEQ_def int_exec_def)
  next
    case 2 show ?thesis by (rule agree_branch [OF assms(1,2), of _ _ "?a \<noteq> ?b"])
      (simp_all add: 2 ops decode_defs exec_BNE_def int_exec_def)
  next
    case 3 show ?thesis by (rule agree_branch [OF assms(1,2), of _ _ "sint ?a \<le> 0"])
      (simp_all add: 3 ops decode_defs exec_BLEZ_def int_exec_def)
  next
    case 4 show ?thesis by (rule agree_branch [OF assms(1,2), of _ _ "sint ?a > 0"])
      (simp_all add: 4 ops decode_defs exec_BGTZ_def int_exec_def)
  qed
qed

lemma link_straight: "same_cpu m s \<Longrightarrow> npc s = ipc s + 4 \<Longrightarrow> link r m = setReg r (ipc s + 8) m"
  by (simp add: link_def same_cpu_def add.commute)

lemma agree_bcond:
  assumes "same_cpu m s" "npc s = ipc s + 4" "f_op v = 1" "f_rt v \<in> {0, 1, 16, 17}"
  shows "agree h big v m s"
proof -
  have ops: "registers m (f_rs v) = Reg (started s) (f_rs v)" by (simp add: same_operand [OF assms(1)])
  have ge: "(x AND 0x80000000) = 0 \<longleftrightarrow> 0 \<le> sint x" for x :: "32 word" using sign_bit_iff [of x] by auto
  let ?L = "link RetAddrReg m" and ?S = "setR 31 (ipc s + 8) (started s)"
  note l = link_straight [OF assms(1,2)]
  have lop: "registers ?L (f_rs v) = Reg ?S (f_rs v)" by (simp add: l setReg_def setR_def ops)
  have br: "branch c (Decode v) (npc s + 4) ?L = to_end (npc (branch_if c v (ipc s) (started s))) (setReg 31 (ipc s + 8) m)" for c
    using assms(1,2) by (simp add: branch_def branch_if_def same_cpu_def IndexToAddr_def l setReg_def decode_defs assms(3))
  have bi: "branch_if c v (ipc s) ?S = setR 31 (ipc s + 8) ((started s)\<lparr>npc := npc (branch_if c v (ipc s) (started s))\<rparr>)" for c
    by (simp add: branch_if_def setR_def)
  from assms(4) consider "f_rt v = 0" | "f_rt v = 1" | "f_rt v = 16" | "f_rt v = 17" by auto
  then show ?thesis
  proof cases
    case 1 show ?thesis by (rule agree_branch [OF assms(1,2), of _ _ "sint (Reg (started s) (f_rs v)) < 0"])
      (simp_all add: 1 assms(3) ops decode_defs bcond_field exec_BLTZ_def sign_bit_iff int_exec_def int_bcond_def)
  next
    case 2 show ?thesis by (rule agree_branch [OF assms(1,2), of _ _ "0 \<le> sint (Reg (started s) (f_rs v))"])
      (simp_all add: 2 assms(3) ops decode_defs bcond_field exec_BGEZ_def ge int_exec_def int_bcond_def)
  next
    case 3 show ?thesis
      by (rule agree_link [OF assms(1), of 31 _ _ "npc (branch_if (sint (Reg ?S (f_rs v)) < 0) v (ipc s) (started s))" "ipc s + 8"])
         (use br bi lop in \<open>simp_all add: 3 assms(3) decode_defs bcond_field exec_BLTZAL_def exec_BLTZ_def sign_bit_iff int_exec_def int_bcond_def\<close>)
  next
    case 4 show ?thesis
      by (rule agree_link [OF assms(1), of 31 _ _ "npc (branch_if (0 \<le> sint (Reg ?S (f_rs v))) v (ipc s) (started s))" "ipc s + 8"])
         (use br bi lop in \<open>simp_all add: 4 assms(3) decode_defs bcond_field exec_BGEZAL_def exec_BGEZ_def ge int_exec_def int_bcond_def\<close>)
  qed
qed

lemma agree_jumps:
  assumes "same_cpu m s" "npc s = ipc s + 4" "(ipc s + 8) AND 0xf0000000 = ipc s AND 0xf0000000" "f_op v \<in> {2, 3}"
  shows "agree h big v m s"
proof -
  let ?t = "(ipc s AND 0xf0000000) OR push_bit 2 (v AND 0x3ffffff)"
  have n: "npc s + 4 = ipc s + 8" using assms(2) by simp
  from assms(4) consider "f_op v = 2" | "f_op v = 3" by auto
  then show ?thesis
  proof cases
    case 1 show ?thesis by (rule agree_jump [OF assms(1), of _ _ ?t])
      (simp_all add: 1 n assms(3) exec_switch_def Decode_fields opTable_def Let_def Decode_extra_def exec_J_def IndexToAddr_def int_exec_def jump_to_def)
  next
    case 2
    note l = link_straight [OF assms(1,2), of 31]
    show ?thesis by (rule agree_link [OF assms(1), of 31 _ _ ?t "ipc s + 8"])
      (simp_all add: 2 n assms(3) exec_switch_def Decode_fields opTable_def Let_def Decode_extra_def exec_JAL_def exec_J_def l IndexToAddr_def
        int_exec_def jump_to_def setR_def)
  qed
qed

text \<open>The instructions on registers.\<close>

lemmas special_defs = exec_switch_def Decode_fields opTable_def specialTable_def Let_def int_exec_def int_special_def

lemma shamt_extra: "unat (Decode_extra RFMT v) = f_shamt v"
  by (simp add: Decode_extra_def fields)

lemma small_shift: "unat a < 32 \<Longrightarrow> a AND 0x1f = a" for a :: "32 word"
proof -
  assume "unat a < 32"
  then have "a < 2 ^ 5" by (simp add: word_less_nat_alt)
  then have "a AND mask 5 = a" by (rule less_mask_eq)
  then show ?thesis by (simp add: mask_eq_exp_minus_1)
qed

lemma unsigned_shift: "0 \<le> sint b \<Longrightarrow> signed_drop_bit n b = drop_bit n b" for b :: "32 word"
  by (rule bit_word_eqI) (auto simp: bit_simps bit_last_iff [of b, simplified] not_le [symmetric] dest: bit_imp_le_length)

lemma agree_writes:
  assumes "same_cpu m s" "f_op v = 0" "unat (v AND 0x3f) \<in> {0, 3, 16, 18, 33, 35, 36, 38, 39, 42, 43}"
  shows "agree h big v m s"
proof -
  let ?a = "Reg (started s) (f_rs v)" and ?b = "Reg (started s) (f_rt v)" and ?f = "unat (v AND 0x3f)"
  note ops = same_operand [OF assms(1)]
  have hi: "registers m HiReg = HI s" "registers m LoReg = LO s" using assms(1) by (simp_all add: same_cpu_def)
  from assms(3) consider "?f = 0" | "?f = 3" | "?f = 16" | "?f = 18" | "?f = 33" | "?f = 35" | "?f = 36" | "?f = 38" | "?f = 39" | "?f = 42" | "?f = 43" by auto
  then show ?thesis
  proof cases
    case 1 show ?thesis by (rule agree_write [OF assms(1), of "f_rd v" _ _ "push_bit (f_shamt v) ?b"])
      (simp_all add: 1 assms(2) ops special_defs shamt_extra exec_SLL_def)
  next
    case 2 show ?thesis by (rule agree_write [OF assms(1), of "f_rd v" _ _ "signed_drop_bit (f_shamt v) ?b"])
      (simp_all add: 2 assms(2) ops special_defs shamt_extra exec_SRA_def)
  next
    case 3 show ?thesis by (rule agree_write [OF assms(1), of "f_rd v" _ _ "HI s"])
      (simp_all add: 3 assms(2) ops special_defs shamt_extra exec_MF_def hi)
  next
    case 4 show ?thesis by (rule agree_write [OF assms(1), of "f_rd v" _ _ "LO s"])
      (simp_all add: 4 assms(2) ops special_defs shamt_extra exec_MF_def hi)
  next
    case 5 show ?thesis by (rule agree_write [OF assms(1), of "f_rd v" _ _ "?a + ?b"])
      (simp_all add: 5 assms(2) ops special_defs shamt_extra alu_RRR_def op_ADDU_def)
  next
    case 6 show ?thesis by (rule agree_write [OF assms(1), of "f_rd v" _ _ "?a - ?b"])
      (simp_all add: 6 assms(2) ops special_defs shamt_extra alu_RRR_def op_SUBU_def)
  next
    case 7 show ?thesis by (rule agree_write [OF assms(1), of "f_rd v" _ _ "?a AND ?b"])
      (simp_all add: 7 assms(2) ops special_defs shamt_extra alu_RRR_def op_AND_def)
  next
    case 8 show ?thesis by (rule agree_write [OF assms(1), of "f_rd v" _ _ "?a XOR ?b"])
      (simp_all add: 8 assms(2) ops special_defs shamt_extra alu_RRR_def op_XOR_def)
  next
    case 9 show ?thesis by (rule agree_write [OF assms(1), of "f_rd v" _ _ "NOT (?a OR ?b)"])
      (simp_all add: 9 assms(2) ops special_defs shamt_extra alu_RRR_def op_NOR_def)
  next
    case 10 show ?thesis by (rule agree_write [OF assms(1), of "f_rd v" _ _ "if sint ?a < sint ?b then 1 else 0"])
      (simp_all add: 10 assms(2) ops special_defs shamt_extra alu_RRR_def op_SLT_def)
  next
    case 11 show ?thesis by (rule agree_write [OF assms(1), of "f_rd v" _ _ "if ?a < ?b then 1 else 0"])
      (simp_all add: 11 assms(2) ops special_defs shamt_extra alu_RRR_def op_SLTU_def)
  qed
qed

lemma agree_shifts:
  assumes "same_cpu m s" "f_op v = 0" "unat (v AND 0x3f) = 2 \<and> 0 \<le> sint (Reg (started s) (f_rt v)) \<or>
    unat (v AND 0x3f) \<in> {4, 7} \<and> unat (Reg (started s) (f_rs v)) < 32 \<or>
    unat (v AND 0x3f) = 6 \<and> unat (Reg (started s) (f_rs v)) < 32 \<and> 0 \<le> sint (Reg (started s) (f_rt v))"
  shows "agree h big v m s"
proof -
  let ?a = "Reg (started s) (f_rs v)" and ?b = "Reg (started s) (f_rt v)" and ?f = "unat (v AND 0x3f)"
  note ops = same_operand [OF assms(1)]
  from assms(3) consider "?f = 2" "0 \<le> sint ?b" | "?f = 4" "unat ?a < 32" | "?f = 7" "unat ?a < 32" | "?f = 6" "unat ?a < 32" "0 \<le> sint ?b" by auto
  then show ?thesis
  proof cases
    case 1 show ?thesis by (rule agree_write [OF assms(1), of "f_rd v" _ _ "drop_bit (f_shamt v) ?b"])
      (simp_all add: 1 assms(2) ops special_defs shamt_extra exec_SRL_def unsigned_shift)
  next
    case 2 show ?thesis by (rule agree_write [OF assms(1), of "f_rd v" _ _ "push_bit (unat ?a) ?b"])
      (simp_all add: 2 assms(2) ops special_defs alu_RRR_def op_SLLV_def small_shift shift_by_def)
  next
    case 3 show ?thesis by (rule agree_write [OF assms(1), of "f_rd v" _ _ "signed_drop_bit (unat ?a) ?b"])
      (simp_all add: 3 assms(2) ops special_defs alu_RRR_def op_SRAV_def small_shift shift_by_def)
  next
    case 4 show ?thesis by (rule agree_write [OF assms(1), of "f_rd v" _ _ "drop_bit (unat ?a) ?b"])
      (simp_all add: 4 assms(2) ops special_defs alu_RRR_def op_SRLV_def small_shift shift_by_def unsigned_shift)
  qed
qed

lemma agree_moves:
  assumes "same_cpu m s" "f_op v = 0" "unat (v AND 0x3f) \<in> {17, 19} \<or> unat (v AND 0x3f) = 8 \<or>
    unat (v AND 0x3f) = 9 \<and> npc s = ipc s + 4 \<and> f_rd v \<noteq> f_rs v"
  shows "agree h big v m s"
proof -
  let ?a = "Reg (started s) (f_rs v)" and ?f = "unat (v AND 0x3f)"
  note ops = same_operand [OF assms(1)]
  have hi: "registers m HiReg = HI s" "registers m LoReg = LO s" using assms(1) by (simp_all add: same_cpu_def)
  from assms(3) consider "?f = 17" | "?f = 19" | "?f = 8" | "?f = 9" "npc s = ipc s + 4" "f_rd v \<noteq> f_rs v" by auto
  then show ?thesis
  proof cases
    case 1 show ?thesis by (rule agree_hilo [OF assms(1), of _ _ ?a "LO s"])
      (simp_all add: 1 assms(2) ops special_defs exec_MT_def setReg_def hi [symmetric] fun_upd_idem)
  next
    case 2 show ?thesis by (rule agree_hilo [OF assms(1), of _ _ "HI s" ?a])
      (simp_all add: 2 assms(2) ops special_defs exec_MT_def setReg_def hi [symmetric] fun_upd_idem)
  next
    case 3 show ?thesis by (rule agree_jump [OF assms(1), of _ _ ?a])
      (simp_all add: 3 assms(2) ops special_defs exec_JR_def)
  next
    case 4 show ?thesis by (rule agree_link [OF assms(1), of "f_rd v" _ _ ?a "ipc s + 8"])
      (simp_all add: 4(1) assms(2) ops special_defs exec_JALR_def exec_JR_def link_straight [OF assms(1) 4(2)] setReg_def 4(3) [symmetric])
  qed
qed

lemma agree_arith:
  assumes "same_cpu m s" "f_op v = 0"
    "unat (v AND 0x3f) = 32 \<and> in_int_range (sint (Reg (started s) (f_rs v)) + sint (Reg (started s) (f_rt v))) \<or>
     unat (v AND 0x3f) = 34 \<and> in_int_range (sint (Reg (started s) (f_rs v)) - sint (Reg (started s) (f_rt v)))"
  shows "agree h big v m s"
proof -
  let ?a = "Reg (started s) (f_rs v)" and ?b = "Reg (started s) (f_rt v)" and ?f = "unat (v AND 0x3f)"
  note ops = same_operand [OF assms(1)]
  from assms(3) consider "?f = 32" "in_int_range (sint ?a + sint ?b)" | "?f = 34" "in_int_range (sint ?a - sint ?b)" by auto
  then show ?thesis
  proof cases
    case 1
    have "exec_ADD h (Decode v) pc m = to_end pc (setReg (f_rd v) (?a + ?b) m)" for pc
      using 1(2) unfolding exec_ADD_def Let_def sign_xor sign_xor_eq in_int_range_def add_overflow(2)
      by (auto simp: Decode_fields ops)
    then show ?thesis by (intro agree_write [OF assms(1), of "f_rd v" _ _ "?a + ?b"]) (simp_all add: 1(1) assms(2) special_defs)
  next
    case 2
    have "exec_SUB h (Decode v) pc m = to_end pc (setReg (f_rd v) (?a - ?b) m)" for pc
      using 2(2) unfolding exec_SUB_def Let_def sign_xor sign_xor_eq in_int_range_def sub_overflow(2)
      by (auto simp: Decode_fields ops)
    then show ?thesis by (intro agree_write [OF assms(1), of "f_rd v" _ _ "?a - ?b"]) (simp_all add: 2(1) assms(2) special_defs)
  qed
qed

lemma agree_division:
  assumes "same_cpu m s" "f_op v = 0" "Reg (started s) (f_rt v) \<noteq> 0"
    "unat (v AND 0x3f) = 26 \<and> \<not> (Reg (started s) (f_rs v) = 0x80000000 \<and> Reg (started s) (f_rt v) = - 1) \<or> unat (v AND 0x3f) = 27"
  shows "agree h big v m s"
proof -
  let ?a = "Reg (started s) (f_rs v)" and ?b = "Reg (started s) (f_rt v)" and ?f = "unat (v AND 0x3f)"
  note ops = same_operand [OF assms(1)]
  from assms(4) consider "?f = 26" "\<not> (?a = 0x80000000 \<and> ?b = - 1)" | "?f = 27" by auto
  then show ?thesis
  proof cases
    case 1
    have "exec_DIV (Decode v) pc m = to_end pc (m\<lparr>registers := (registers m)
        (HiReg := word_of_int (sint ?a smod sint ?b), LoReg := word_of_int (sint ?a sdiv sint ?b))\<rparr>)" for pc
      using 1(2) assms(3) by (auto simp: exec_DIV_def Let_def Decode_fields ops setReg_def fun_upd_twist)
    then show ?thesis
      by (intro agree_hilo [OF assms(1), of _ _ "word_of_int (sint ?a smod sint ?b)" "word_of_int (sint ?a sdiv sint ?b)"])
         (use 1(2) assms(3) in \<open>auto simp: 1(1) assms(2) special_defs\<close>)
  next
    case 2
    have "exec_DIVU (Decode v) pc m = to_end pc (m\<lparr>registers := (registers m)(HiReg := ?a mod ?b, LoReg := ?a div ?b)\<rparr>)" for pc
      using assms(3) by (simp add: exec_DIVU_def Let_def Decode_fields ops setReg_def fun_upd_twist)
    then show ?thesis
      by (intro agree_hilo [OF assms(1), of _ _ "?a mod ?b" "?a div ?b"]) (use assms(3) in \<open>auto simp: 2 assms(2) special_defs\<close>)
  qed
qed

lemma agree_special:
  assumes "same_cpu m s" "f_op v = 0" "agreeing_special v s"
  shows "agree h big v m s"
proof -
  let ?f = "unat (v AND 0x3f)" and ?a = "Reg (started s) (f_rs v)" and ?b = "Reg (started s) (f_rt v)"
  from assms(3) consider "?f \<in> {0, 3, 16, 18, 33, 35, 36, 38, 39, 42, 43}"
    | "?f = 2 \<and> 0 \<le> sint ?b \<or> ?f \<in> {4, 7} \<and> unat ?a < 32 \<or> ?f = 6 \<and> unat ?a < 32 \<and> 0 \<le> sint ?b"
    | "?f \<in> {17, 19} \<or> ?f = 8 \<or> ?f = 9 \<and> npc s = ipc s + 4 \<and> f_rd v \<noteq> f_rs v"
    | "?f = 32 \<and> in_int_range (sint ?a + sint ?b) \<or> ?f = 34 \<and> in_int_range (sint ?a - sint ?b)"
    | "?b \<noteq> 0" "?f = 26 \<and> \<not> (?a = 0x80000000 \<and> ?b = - 1) \<or> ?f = 27"
    unfolding agreeing_special_def Let_def insert_iff empty_iff by argo
  then show ?thesis using agree_writes [OF assms(1,2)] agree_shifts [OF assms(1,2)] agree_moves [OF assms(1,2)]
      agree_arith [OF assms(1,2)] agree_division [OF assms(1,2)] by cases blast+
qed

text \<open>
  C38: where the interpreter of the tools and the simulator of the kernel agree: from states with the same registers and
  program counters, executing an instruction of \<open>agreeing_instr\<close> leaves the same registers, \<^verbatim>\<open>HI\<close>, \<^verbatim>\<open>LO\<close> and program
  counters on both. These are arithmetic that does not overflow, comparison, division (except by 0 and of the least
  number by -1), logic without \<^verbatim>\<open>OR\<close> and with immediates below 0x8000, shifts (logical right shifts only of numbers that
  are not negative, variable shifts by less than 32), moves, and branches and jumps outside of delay slots (\<^verbatim>\<open>JALR\<close>
  with \<^verbatim>\<open>rd\<close> other than \<^verbatim>\<open>rs\<close>, \<^verbatim>\<open>J\<close> and \<^verbatim>\<open>JAL\<close> not across 256 MB). Loads, stores, traps, \<^verbatim>\<open>OR\<close>, \<^verbatim>\<open>MULT\<close> and \<^verbatim>\<open>MULTU\<close>
  are not among them.
\<close>

theorem simulators_agree:
  assumes "same_cpu m s" "agreeing_instr v s"
  shows "\<exists>m' s'. mips_exec h v m = Inr m' \<and> int_exec big v (ipc s) (started s) = Inr s' \<and> same_cpu m' s'"
proof -
  have "agree h big v m s"
    using assms(2) agree_special [OF assms(1)] agree_bcond [OF assms(1)] agree_jumps [OF assms(1)] agree_branches [OF assms(1)]
      agree_addi [OF assms(1)] agree_immediate [OF assms(1)] agree_logical [OF assms(1)]
    unfolding agreeing_instr_def Let_def by metis
  then show ?thesis by (simp add: agree_def)
qed

text \<open>\<^verbatim>\<open>ADDIU r2, r2, 5\<close>.\<close>

text \<open>The instruction \<^verbatim>\<open>ADDIU r2, r2, 5\<close> on machines whose registers are all 0.\<close>

definition demo_interp :: Interp where
  "demo_interp = \<lparr>Reg = (\<lambda>_. 0), HI = 0, LO = 0, ipc = 0, npc = 0, imem = (\<lambda>_. 0), icount = 0\<rparr>"

theorem simulators_agree_witness:
  "\<exists>m' s'. mips_exec (\<lambda>_. Inr) 0x24420005 demo_machine = Inr m' \<and>
     int_exec False 0x24420005 0 (started demo_interp) = Inr s' \<and> same_cpu m' s' \<and> Reg s' 2 = 5"
proof -
  have f: "f_op 0x24420005 = 9" "f_rt 0x24420005 = 2" "f_rs 0x24420005 = 2"
    by (simp_all add: fields drop_bit_eq_div)
  have "same_cpu demo_machine demo_interp" by (simp add: same_cpu_def demo_machine_def new_Machine_def demo_interp_def)
  moreover have "agreeing_instr 0x24420005 demo_interp" by (simp add: agreeing_instr_def f)
  moreover have "int_exec False 0x24420005 0 (started demo_interp) = Inr s' \<Longrightarrow> Reg s' 2 = 5" for s'
    by (auto simp: int_exec_def f Let_def immed_def setR_def started_def demo_interp_def)
  ultimately show ?thesis using simulators_agree [where m = demo_machine and s = demo_interp and v = "0x24420005" and h = "\<lambda>_. Inr" and big = False]
    by (auto simp: demo_interp_def)
qed

text \<open>
  Multiplication in the interpreter adds partial products of 16-bit halves without the carries between them, so \<^verbatim>\<open>HI\<close> is
  wrong.
\<close>

lemma int_multiplication_drops_carries:
  "int_MULT 0x1ffff 0x1ffff = (1, 0xfffc0001)" "(0x1ffff :: int) * 0x1ffff = 3 * 2 ^ 32 + 0xfffc0001"
  by (simp_all add: int_MULT_def int_high_def Let_def unsigned_shift drop_bit_eq_div)

section \<open>The logarithm\<close>

text \<open>\<^verbatim>\<open>ilog2\<close> searches the highest bit by bisection.\<close>

definition ilog2_step :: "32 word \<Rightarrow> nat \<Rightarrow> 32 word \<times> nat \<Rightarrow> 32 word \<times> nat" where
  "ilog2_step msk w = (\<lambda>(i, l). let j = i AND msk in if j \<noteq> 0 then (j, l + w) else (i, l))"

definition ilog2 :: "32 word \<Rightarrow> nat" where
  "ilog2 i =
     (if i = 0 then 0
      else snd (ilog2_step 0xaaaaaaaa 1 (ilog2_step 0xcccccccc 2 (ilog2_step 0xf0f0f0f0 4
             (ilog2_step 0xff00ff00 8 (ilog2_step 0xffff0000 16 (i, 1)))))))"

text \<open>Every mask has the bits whose number has a given bit.\<close>

definition index_mask :: "nat \<Rightarrow> 32 word \<Rightarrow> bool" where
  "index_mask k msk \<longleftrightarrow> (\<forall>n < 32. bit msk n \<longleftrightarrow> odd (n div 2 ^ k))"

lemma index_masks: "index_mask 4 0xffff0000" "index_mask 3 0xff00ff00" "index_mask 2 0xf0f0f0f0" "index_mask 1 0xcccccccc" "index_mask 0 0xaaaaaaaa"
proof -
  have all: "(\<forall>n < 32. P n) \<longleftrightarrow> list_all P [0..<32]" for P by (simp add: list_all_iff atLeast0LessThan Ball_def)
  have u: "[0..<32] = [0, 1, 2, 3, 4, 5, 6, 7, 8, 9, 10, 11, 12, 13, 14, 15, 16, 17, 18, 19, 20, 21, 22, 23, 24, 25, 26, 27, 28, 29, 30, 31 :: nat]"
    by (simp add: upt_rec)
  show "index_mask 4 0xffff0000" "index_mask 3 0xff00ff00" "index_mask 2 0xf0f0f0f0" "index_mask 1 0xcccccccc" "index_mask 0 0xaaaaaaaa"
    unfolding index_mask_def all u by simp_all
qed

text \<open>\<open>near k M p\<close>: the bits left have the same number as the highest one, \<open>M\<close>, up to its last \<open>k\<close> bits.\<close>

definition near :: "nat \<Rightarrow> nat \<Rightarrow> 32 word \<times> nat \<Rightarrow> bool" where
  "near k M p \<longleftrightarrow> bit (fst p) M \<and> (\<forall>n. bit (fst p) n \<longrightarrow> n \<le> M \<and> n div 2 ^ k = M div 2 ^ k) \<and> snd p = Suc (M div 2 ^ k * 2 ^ k)"

lemma near_step:
  assumes "near (Suc k) M p" "index_mask k msk"
  shows "near k M (ilog2_step msk (2 ^ k) p)"
proof -
  obtain i l where p: "p = (i, l)" by (cases p)
  have h: "n div 2 ^ Suc k = n div 2 ^ k div 2" for n :: nat
    by (simp only: power_Suc2 div_mult2_eq)
  have q: "odd x \<Longrightarrow> x = x div 2 * 2 + 1" "x div 2 = z div 2 \<Longrightarrow> x \<le> z \<Longrightarrow> even z \<Longrightarrow> even x"
    "x div 2 = z div 2 \<Longrightarrow> even x \<Longrightarrow> even z \<Longrightarrow> x = z" for x z :: nat by presburger+
  note y = assms(1) [unfolded near_def p fst_conv snd_conv h]
  note nd = conjunct1 [OF y] conjunct1 [OF conjunct2 [OF y], rule_format, THEN conjunct1] conjunct1 [OF conjunct2 [OF y], rule_format, THEN conjunct2]
    conjunct2 [OF conjunct2 [OF y], unfolded power_Suc]
  have b: "n \<le> M \<and> n div 2 ^ k div 2 = M div 2 ^ k div 2 \<and> n < 32" if "bit i n" for n
    using nd(2,3) [OF that] bit_imp_le_length [OF that] by (intro conjI) simp_all
  have le: "bit i n \<Longrightarrow> n div 2 ^ k \<le> M div 2 ^ k" for n using b by (simp add: div_le_mono)
  have j: "bit (i AND msk) n \<longleftrightarrow> bit i n \<and> odd (n div 2 ^ k)" for n
    using assms(2) b [of n] unfolding index_mask_def bit_and_iff by blast
  note iM = nd(1) and l = nd(4)
  show ?thesis
  proof (cases "odd (M div 2 ^ k)")
    case True
    then have jM: "bit (i AND msk) M" using j iM by blast
    then have st: "ilog2_step msk (2 ^ k) p = (i AND msk, l + 2 ^ k)" by (auto simp: ilog2_step_def p Let_def)
    have all: "n \<le> M \<and> n div 2 ^ k = M div 2 ^ k" if "bit (i AND msk) n" for n
    proof -
      have "bit i n" "odd (n div 2 ^ k)" using that j by blast+
      from b [OF this(1)] q(1) [OF this(2)] q(1) [OF True] show ?thesis by simp
    qed
    have "l + 2 ^ k = Suc (M div 2 ^ k * 2 ^ k)"
      unfolding l by (subst (2) q(1) [OF True]) (simp add: algebra_simps)
    then show ?thesis unfolding near_def st fst_conv snd_conv
      by (intro conjI allI impI jM all [THEN conjunct1] all [THEN conjunct2])
  next
    case False
    have ev: "even (n div 2 ^ k)" if "bit i n" for n
      using b [OF that] le [OF that] False q(2) [of "n div 2 ^ k" "M div 2 ^ k"] by blast
    then have "i AND msk = 0" by (intro bit_word_eqI) (simp add: j)
    then have st: "ilog2_step msk (2 ^ k) p = (i, l)" by (simp add: ilog2_step_def p)
    have all: "n \<le> M \<and> n div 2 ^ k = M div 2 ^ k" if "bit i n" for n
      using b [OF that] ev [OF that] False q(3) [of "n div 2 ^ k" "M div 2 ^ k"] by blast
    have "l = Suc (M div 2 ^ k * 2 ^ k)" using False unfolding l by (simp only: mult.assoc [symmetric] dvd_div_mult_self not_not)
    then show ?thesis unfolding near_def st fst_conv snd_conv
      by (intro conjI allI impI iM all [THEN conjunct1] all [THEN conjunct2])
  qed
qed

lemma ilog2_highest_bit: "i \<noteq> 0 \<Longrightarrow> ilog2 i = Suc (Max {n. bit i n})"
proof -
  assume nz: "i \<noteq> 0"
  let ?M = "Max {n. bit i n}"
  have fin: "finite {n. bit i n}" by (rule finite_subset [of _ "{..<32}"]) (auto dest: bit_imp_le_length)
  have ne: "{n. bit i n} \<noteq> {}" using nz bit_eq_iff [of i 0] by auto
  have M: "bit i ?M" "\<And>n. bit i n \<Longrightarrow> n \<le> ?M" "?M < 32"
    using Max_in [OF fin ne] Max_ge [OF fin] by (auto dest: bit_imp_le_length)
  have "near 5 ?M (i, 1)" using M by (auto simp: near_def dest: bit_imp_le_length)
  then have "near (Suc 4) ?M (i, 1)" by simp
  have pw: "(2 :: nat) ^ 4 = 16" "(2 :: nat) ^ 3 = 8" "(2 :: nat) ^ 2 = 4" "(2 :: nat) ^ 1 = 2" "Suc 3 = 4" "Suc 2 = 3" "Suc 1 = 2" by simp_all
  note 1 = near_step [OF \<open>near (Suc 4) ?M (i, 1)\<close> index_masks(1), unfolded pw]
  note 2 = near_step [of 3, unfolded pw, OF 1 index_masks(2)]
  note 3 = near_step [of 2, unfolded pw, OF 2 index_masks(3)]
  note 4 = near_step [of 1, unfolded pw, OF 3 index_masks(4)]
  have "near (Suc 0) ?M (ilog2_step 0xcccccccc 2 (ilog2_step 0xf0f0f0f0 4 (ilog2_step 0xff00ff00 8 (ilog2_step 0xffff0000 16 (i, 1)))))"
    using 4 by simp
  from near_step [OF this index_masks(5)] nz show ?thesis by (simp add: near_def ilog2_def)
qed

text \<open>The comment in front of \<^verbatim>\<open>ilog2\<close> lists 1 as the result for 2.\<close>

lemma ilog2_of_two: "ilog2 2 = 2" by (simp add: ilog2_def ilog2_step_def)

end
