(* ===== verification/Open_Table.thy ===== *)
theory Open_Table
  imports Bit_Map
begin

text \<open>
  The table of open files of an address space (class \<^verbatim>\<open>Table\<close>, \<^verbatim>\<open>userprog/addrspace.cc\<close>): a bit map of
  the slots in use beside the array of pointers. \<open>handles\<close> is the finite map it represents; the locale
  \<open>handle_table\<close> is the contract its clients, the file system calls, rely on.
\<close>

section \<open>Operations\<close>

text \<open>\<open>None\<close> is the null pointer; \<^verbatim>\<open>Table(s)\<close> leaves its slots uninitialised.\<close>

record 'a Table =
  tmap :: BitMap
  ttable :: "'a option list"
  tsize :: nat

definition new_Table :: "32 word list \<Rightarrow> 'a option list \<Rightarrow> nat \<Rightarrow> 'a Table res" where
  "new_Table junkWords junkSlots s =
     bindR (new_BitMap junkWords s) (\<lambda>m. Inr \<lparr>tmap = m, ttable = take s junkSlots, tsize = s\<rparr>)"

definition Table_Get :: "'a Table \<Rightarrow> int \<Rightarrow> 'a option res" where
  "Table_Get t i =
     (if i \<ge> 0 \<and> i < int (tsize t)
      then bindR (BitMap_Test (tmap t) i) (\<lambda>b. if b then Inr (ttable t ! nat i) else Inr None)
      else Inr None)"

definition Table_Put :: "'a Table \<Rightarrow> 'a option \<Rightarrow> (int \<times> 'a Table) res" where
  "Table_Put t f =
     bindR (BitMap_Find (tmap t)) (\<lambda>(i, m).
       if i \<noteq> -1 then Inr (i, t\<lparr>tmap := m, ttable := (ttable t)[nat i := f]\<rparr>)
       else Inr (i, t\<lparr>tmap := m\<rparr>))"

definition Table_Remove :: "'a Table \<Rightarrow> int \<Rightarrow> ('a option \<times> 'a Table) res" where
  "Table_Remove t i =
     (if i \<ge> 0 \<and> i < int (tsize t)
      then bindR (BitMap_Test (tmap t) i) (\<lambda>b.
           if b then bindR (BitMap_Clear (tmap t) i) (\<lambda>m.
                       Inr (ttable t ! nat i, t\<lparr>tmap := m, ttable := (ttable t)[nat i := None]\<rparr>))
           else Inr (None, t))
      else Inr (None, t))"

section \<open>The contract\<close>

text \<open>
  A table of handles: a map from handles to pointers, null pointers included. A handle that \<open>put\<close>
  returns was not in use; the result of \<open>get\<close> does not tell a null pointer from a handle not in use.
\<close>

locale handle_table =
  fixes get :: "'t \<Rightarrow> int \<Rightarrow> 'a option res"
    and put :: "'t \<Rightarrow> 'a option \<Rightarrow> (int \<times> 't) res"
    and remove :: "'t \<Rightarrow> int \<Rightarrow> ('a option \<times> 't) res"
    and handles :: "'t \<Rightarrow> int \<Rightarrow> 'a option option"
    and cap :: "'t \<Rightarrow> nat"
    and invar :: "'t \<Rightarrow> bool"
  assumes dom_handles: "invar t \<Longrightarrow> dom (handles t) \<subseteq> {0..<int (cap t)}"
    and get_ok: "invar t \<Longrightarrow> get t i = Inr (case handles t i of Some f \<Rightarrow> f | None \<Rightarrow> None)"
    and put_full: "invar t \<Longrightarrow> dom (handles t) = {0..<int (cap t)} \<Longrightarrow> put t f = Inr (-1, t)"
    and put_free: "invar t \<Longrightarrow> dom (handles t) \<noteq> {0..<int (cap t)} \<Longrightarrow>
      \<exists>i t'. put t f = Inr (i, t') \<and> 0 \<le> i \<and> i < int (cap t) \<and> handles t i = None \<and>
        (\<forall>j. 0 \<le> j \<and> j < i \<longrightarrow> handles t j \<noteq> None) \<and> invar t' \<and>
        cap t' = cap t \<and> handles t' = (handles t)(i \<mapsto> f)"
    and remove_ok: "invar t \<Longrightarrow>
      \<exists>t'. remove t i = Inr (case handles t i of Some f \<Rightarrow> f | None \<Rightarrow> None, t') \<and> invar t' \<and> cap t' = cap t \<and>
        handles t' = (handles t)(i := None)"
begin

text \<open>What a client gets: a pointer put in the table is found under its handle until it is removed.\<close>

lemma put_get_remove:
  assumes "invar t" "put t (Some f) = Inr (i, t1)" "i \<noteq> -1"
  shows "handles t i = None" "get t1 i = Inr (Some f)" "j \<noteq> i \<Longrightarrow> get t1 j = get t j"
    "\<exists>t2. remove t1 i = Inr (Some f, t2) \<and> invar t2 \<and> handles t2 = handles t"
proof -
  have "dom (handles t) \<noteq> {0..<int (cap t)}" using put_full [OF assms(1), of "Some f"] assms(2,3) by auto
  from put_free [OF assms(1) this, of "Some f"] assms(2) have
    p: "handles t i = None" "invar t1" "cap t1 = cap t" "handles t1 = (handles t)(i \<mapsto> Some f)" by auto
  then show "handles t i = None" "get t1 i = Inr (Some f)" "j \<noteq> i \<Longrightarrow> get t1 j = get t j"
    using get_ok [OF p(2)] get_ok [OF assms(1)] by simp_all
  from remove_ok [OF p(2), of i] p show "\<exists>t2. remove t1 i = Inr (Some f, t2) \<and> invar t2 \<and> handles t2 = handles t"
    by (auto simp: map_upd_triv fun_upd_idem)
qed

lemma put_result:
  assumes "invar t"
  shows "\<exists>i t'. put t f = Inr (i, t') \<and> invar t' \<and> cap t' = cap t \<and> (i = -1 \<and> t' = t \<or> 0 \<le> i \<and> i < int (cap t))"
  using put_full [OF assms] put_free [OF assms] assms by metis

end

section \<open>Provided by the class Table\<close>

definition table_inv :: "'a Table \<Rightarrow> bool" where
  "table_inv t \<longleftrightarrow> BitMap_inv (tmap t) \<and> numBits (tmap t) = tsize t \<and> length (ttable t) = tsize t"

definition handles :: "'a Table \<Rightarrow> int \<Rightarrow> 'a option option" where
  "handles t i = (if 0 \<le> i \<and> nat i < numBits (tmap t) \<and> nat i \<in> marked (tmap t) then Some (ttable t ! nat i) else None)"

lemma dom_handles_marked: "dom (handles t) = int ` marked (tmap t)"
proof
  show "dom (handles t) \<subseteq> int ` marked (tmap t)"
  proof
    fix i assume "i \<in> dom (handles t)"
    then have "0 \<le> i" "nat i \<in> marked (tmap t)" by (auto simp: handles_def split: if_splits)
    then show "i \<in> int ` marked (tmap t)" by (intro image_eqI [of _ _ "nat i"]) simp_all
  qed
  show "int ` marked (tmap t) \<subseteq> dom (handles t)" using marked_bounded [of "tmap t"] by (auto simp: handles_def)
qed

lemma table_full_iff:
  assumes "table_inv t"
  shows "dom (handles t) = {0..<int (tsize t)} \<longleftrightarrow> marked (tmap t) = {..<numBits (tmap t)}"
proof -
  have "{0..<int (tsize t)} = int ` {..<numBits (tmap t)}"
    using assms by (simp add: table_inv_def image_int_atLeastLessThan lessThan_atLeast0)
  then show ?thesis unfolding dom_handles_marked by (simp add: inj_image_eq_iff)
qed

lemma Put_free:
  assumes "table_inv t" "marked (tmap t) \<noteq> {..<numBits (tmap t)}"
  shows "\<exists>i t'. Table_Put t f = Inr (i, t') \<and> 0 \<le> i \<and> i < int (tsize t) \<and> handles t i = None \<and>
    (\<forall>j. 0 \<le> j \<and> j < i \<longrightarrow> handles t j \<noteq> None) \<and> table_inv t' \<and> tsize t' = tsize t \<and> handles t' = (handles t)(i \<mapsto> f)"
proof -
  have b: "BitMap_inv (tmap t)" "numBits (tmap t) = tsize t" "length (ttable t) = tsize t"
    using assms(1) by (simp_all add: table_inv_def)
  from Find_free [OF b(1) assms(2)] obtain i m where
    i: "BitMap_Find (tmap t) = Inr (int i, m)" "i < tsize t" "i \<notin> marked (tmap t)" "\<forall>j < i. j \<in> marked (tmap t)"
      "BitMap_inv m" "numBits m = tsize t" "marked m = insert i (marked (tmap t))" using b(2) by auto
  let ?t = "t\<lparr>tmap := m, ttable := (ttable t)[i := f]\<rparr>"
  have "Table_Put t f = Inr (int i, ?t)" using i(1) by (simp add: Table_Put_def)
  moreover have "handles ?t = (handles t)(int i \<mapsto> f)"
    using i b by (auto simp: handles_def fun_eq_iff nth_list_update_if)
  moreover have "\<forall>j. 0 \<le> j \<and> j < int i \<longrightarrow> handles t j \<noteq> None"
    using i(2,4) b(2) by (auto simp: handles_def)
  ultimately show ?thesis using i b by (intro exI [of _ "int i"] exI [of _ ?t]) (auto simp: table_inv_def handles_def)
qed

lemma Remove_result:
  assumes "table_inv t"
  shows "\<exists>t'. Table_Remove t i = Inr (case handles t i of Some f \<Rightarrow> f | None \<Rightarrow> None, t') \<and> table_inv t' \<and>
    tsize t' = tsize t \<and> handles t' = (handles t)(i := None)"
proof (cases "handles t i")
  case None
  have b: "BitMap_inv (tmap t)" "numBits (tmap t) = tsize t" using assms(1) by (simp_all add: table_inv_def)
  have "Table_Remove t i = Inr (None, t)"
    using None Test_ok [OF b(1), of "nat i"] b(2) by (auto simp: Table_Remove_def handles_def split: if_splits)
  then show ?thesis using None assms by (simp add: fun_upd_idem)
next
  case (Some f)
  have b: "BitMap_inv (tmap t)" "numBits (tmap t) = tsize t" "length (ttable t) = tsize t"
    using assms(1) by (simp_all add: table_inv_def)
  from Some have i: "0 \<le> i" "nat i < tsize t" "nat i \<in> marked (tmap t)" "f = ttable t ! nat i"
    using b(2) by (auto simp: handles_def split: if_splits)
  from Clear_ok [OF b(1), of "nat i"] i b(2) obtain m where
    m: "BitMap_Clear (tmap t) i = Inr m" "BitMap_inv m" "numBits m = tsize t" "marked m = marked (tmap t) - {nat i}" by auto
  let ?t = "t\<lparr>tmap := m, ttable := (ttable t)[nat i := None]\<rparr>"
  have "i < int (tsize t)" using i(1,2) by simp
  then have "Table_Remove t i = Inr (f, ?t)" using i m(1) Test_ok [OF b(1), of "nat i"] b(2) by (simp add: Table_Remove_def)
  moreover have "handles ?t = (handles t)(i := None)"
    using i b m(3,4) by (auto simp: handles_def fun_eq_iff nth_list_update_if eq_nat_nat_iff)
  ultimately show ?thesis using Some m b by (intro exI [of _ ?t]) (simp add: table_inv_def)
qed

interpretation files: handle_table Table_Get Table_Put Table_Remove handles tsize table_inv
proof unfold_locales
  fix t :: "'a Table" and i f
  show "dom (handles t) \<subseteq> {0..<int (tsize t)}" if "table_inv t"
    using that marked_bounded [of "tmap t"] unfolding dom_handles_marked by (auto simp: table_inv_def)
  assume inv: "table_inv t"
  then have b: "BitMap_inv (tmap t)" "numBits (tmap t) = tsize t" by (simp_all add: table_inv_def)
  show "Table_Get t i = Inr (case handles t i of Some f \<Rightarrow> f | None \<Rightarrow> None)"
    using Test_ok [OF b(1), of "nat i"] b(2) by (auto simp: Table_Get_def handles_def)
  show "Table_Put t f = Inr (-1, t)" if "dom (handles t) = {0..<int (tsize t)}"
    using Find_full [OF b(1)] that table_full_iff [OF inv] by (simp add: Table_Put_def)
  show "\<exists>i t'. Table_Put t f = Inr (i, t') \<and> 0 \<le> i \<and> i < int (tsize t) \<and> handles t i = None \<and>
      (\<forall>j. 0 \<le> j \<and> j < i \<longrightarrow> handles t j \<noteq> None) \<and> table_inv t' \<and> tsize t' = tsize t \<and> handles t' = (handles t)(i \<mapsto> f)"
    if "dom (handles t) \<noteq> {0..<int (tsize t)}"
    using Put_free [OF inv] that table_full_iff [OF inv] by blast
  show "\<exists>t'. Table_Remove t i = Inr (case handles t i of Some f \<Rightarrow> f | None \<Rightarrow> None, t') \<and> table_inv t' \<and>
      tsize t' = tsize t \<and> handles t' = (handles t)(i := None)" by (rule Remove_result [OF inv])
qed

lemma new_Table_ok:
  assumes "divRoundUp n BitsInWord \<le> length jw" "n \<le> length js"
  shows "\<exists>t. new_Table jw js n = Inr t \<and> table_inv t \<and> tsize t = n \<and> handles t = Map.empty"
proof -
  from new_BitMap_ok [OF assms(1)] obtain m where m: "new_BitMap jw n = Inr m" "BitMap_inv m" "numBits m = n" "marked m = {}"
    by blast
  let ?t = "\<lparr>tmap = m, ttable = take n js, tsize = n\<rparr>"
  have "handles ?t = Map.empty" using m(4) by (auto simp: handles_def fun_eq_iff)
  then show ?thesis using m assms(2) by (intro exI [of _ ?t]) (simp add: new_Table_def table_inv_def)
qed

end
