(* ===== verification/Virtual_Memory.thy ===== *)
theory Virtual_Memory
  imports Machine_Memory Open_Table
begin

text \<open>
  Address spaces and demand paging (\<^verbatim>\<open>userprog/addrspace.cc\<close> and the page-fault handler of
  \<^verbatim>\<open>userprog/exception.cc\<close>), with the table of open files each address space holds (\<open>Open_Table\<close>).

  Address spaces are objects named by a number (\<open>spaces\<close> maps live ones to their fields); physical
  frames are described by the inverted page table \<open>IPT\<close>, a TLB of four entries is loaded by
  software, and pages come from the executable, the swap file or nowhere. The executable and the
  swap file are UNIX files. The locks of the paging routines leave no trace in the state: a routine is one step, taken when
  they are free. (The page-fault handler runs with interrupts off and finds them free unless a thread was preempted inside
  \<^verbatim>\<open>clearMem\<close> or \<^verbatim>\<open>clearStack\<close>; the latter takes \<^verbatim>\<open>bitMapLock\<close> and \<^verbatim>\<open>IPTLock\<close> in the order opposite to the handler's, so
  that the two can block each other for ever.)
\<close>

section \<open>UNIX files\<close>

text \<open>
  The file operations of the kernel built on UNIX files (\<^verbatim>\<open>FILESYS_STUB\<close>): a read returns what
  the file has, a write past the end fills the gap with zeros.
\<close>

definition uReadAt :: "8 word list \<Rightarrow> nat \<Rightarrow> nat \<Rightarrow> 8 word list" where
  "uReadAt f n pos = take n (drop pos f)"

definition uWriteAt :: "8 word list \<Rightarrow> 8 word list \<Rightarrow> nat \<Rightarrow> 8 word list" where
  "uWriteAt f bs pos = take pos (f @ replicate (pos - length f) 0) @ bs @ drop (pos + length bs) f"

section \<open>State\<close>

abbreviation (input) InSwapFile :: int where "InSwapFile \<equiv> 0"
abbreviation (input) InExecutable :: int where "InExecutable \<equiv> 1"
abbreviation (input) Nowhere :: int where "Nowhere \<equiv> 2"
abbreviation (input) StackPages :: nat where "StackPages \<equiv> 8"
abbreviation (input) UserStackSize :: nat where "UserStackSize \<equiv> 1024"
abbreviation (input) MaxOpenFiles :: nat where "MaxOpenFiles \<equiv> 256"

record PageTableEntry =
  entry :: TranslationEntry
  location :: int
  byteOffset :: nat
  swapLocation :: int

record AddrSpace =
  pages :: "PageTableEntry list"
  numPages :: nat
  numPageQueue :: "nat list"
  executable :: "8 word list"
  fileTable :: "nat Table"

record IPTEntry =
  ientry :: TranslationEntry
  owner :: "nat option"

text \<open>\<open>curSpace\<close> is \<^verbatim>\<open>currentThread->space\<close>.\<close>

record VM =
  mach :: Machine
  spaces :: "nat \<Rightarrow> AddrSpace option"
  IPT :: "IPTEntry list"
  frameMap :: BitMap
  swapMap :: BitMap
  swapFile :: "8 word list"
  currentTLB :: nat
  currentIPT :: nat
  PRand :: bool
  curSpace :: nat

text \<open>Access through pointers and to arrays: dangling pointers and bad indices are errors.\<close>

definition get_space :: "nat \<Rightarrow> VM \<Rightarrow> AddrSpace res" where
  "get_space a vm = (case spaces vm a of Some s \<Rightarrow> Inr s | None \<Rightarrow> Inl UseAfterFree)"

definition put_space :: "nat \<Rightarrow> AddrSpace \<Rightarrow> VM \<Rightarrow> VM" where
  "put_space a s vm = vm\<lparr>spaces := (spaces vm)(a \<mapsto> s)\<rparr>"

definition get_page :: "nat \<Rightarrow> nat \<Rightarrow> VM \<Rightarrow> PageTableEntry res" where
  "get_page a v vm =
     bindR (get_space a vm) (\<lambda>s. if v < length (pages s) then Inr (pages s ! v) else Inl OutOfBounds)"

definition upd_page :: "nat \<Rightarrow> nat \<Rightarrow> (PageTableEntry \<Rightarrow> PageTableEntry) \<Rightarrow> VM \<Rightarrow> VM res" where
  "upd_page a v g vm =
     bindR (get_space a vm) (\<lambda>s.
       if v < length (pages s) then Inr (put_space a (s\<lparr>pages := (pages s)[v := g (pages s ! v)]\<rparr>) vm)
       else Inl OutOfBounds)"

definition get_IPT :: "nat \<Rightarrow> VM \<Rightarrow> IPTEntry res" where
  "get_IPT p vm = (if p < length (IPT vm) then Inr (IPT vm ! p) else Inl OutOfBounds)"

definition upd_IPT :: "nat \<Rightarrow> (IPTEntry \<Rightarrow> IPTEntry) \<Rightarrow> VM \<Rightarrow> VM res" where
  "upd_IPT p g vm =
     (if p < length (IPT vm) then Inr (vm\<lparr>IPT := (IPT vm)[p := g (IPT vm ! p)]\<rparr>) else Inl OutOfBounds)"

definition get_tlb :: "VM \<Rightarrow> TranslationEntry list res" where
  "get_tlb vm = (case tlb (mach vm) of Some t \<Rightarrow> Inr t | None \<Rightarrow> Inl NullDeref)"

definition put_tlb :: "TranslationEntry list \<Rightarrow> VM \<Rightarrow> VM" where
  "put_tlb t vm = vm\<lparr>mach := (mach vm)\<lparr>tlb := Some t\<rparr>\<rparr>"

definition frame_bytes :: "nat \<Rightarrow> VM \<Rightarrow> 8 word list" where
  "frame_bytes p vm = map (\<lambda>i. mainMemory (mach vm) (p * PageSize + i)) [0..<PageSize]"

text \<open>\<open>load_frame\<close>: \<^verbatim>\<open>bzero\<close> of a frame followed by copying at most a page of bytes to its start.\<close>

definition load_frame :: "nat \<Rightarrow> 8 word list \<Rightarrow> VM \<Rightarrow> VM" where
  "load_frame p bs vm = vm\<lparr>mach := (mach vm)\<lparr>mainMemory := (\<lambda>a.
     if a div PageSize = p
     then (if a mod PageSize < length bs then bs ! (a mod PageSize) else 0)
     else mainMemory (mach vm) a)\<rparr>\<rparr>"

text \<open>
  The part of \<^verbatim>\<open>Initialize\<close> that sets up paging; the entries of a new \<^verbatim>\<open>IPT\<close> are \<open>junk\<close> except for the
  fields it assigns.
\<close>

abbreviation (input) SwapPages :: nat where "SwapPages \<equiv> 4096"

definition init_IPT :: "(nat \<Rightarrow> TranslationEntry) \<Rightarrow> IPTEntry list" where
  "init_IPT junk = map (\<lambda>i. \<lparr>ientry = (junk i)\<lparr>valid := False, physicalPage := of_nat i\<rparr>, owner = None\<rparr>)
     [0..<NumPhysPages]"

definition init_VM ::
  "32 word list \<Rightarrow> 32 word list \<Rightarrow> (nat \<Rightarrow> TranslationEntry) \<Rightarrow> bool \<Rightarrow> Machine \<Rightarrow> VM res" where
  "init_VM junkFrames junkSwap junk prand m =
     bindR (new_BitMap junkFrames NumPhysPages) (\<lambda>fm.
     bindR (new_BitMap junkSwap SwapPages) (\<lambda>sm.
       Inr \<lparr>mach = m, spaces = Map.empty, IPT = init_IPT junk, frameMap = fm, swapMap = sm, swapFile = [],
            currentTLB = 0, currentIPT = 0, PRand = prand, curSpace = 0\<rparr>))"

section \<open>Address spaces\<close>

record NoffHeader =
  noffMagic :: "32 word"
  codeSize :: "32 word"
  codeVirtualAddr :: "32 word"
  codeInFileAddr :: "32 word"
  initDataSize :: "32 word"
  initDataVirtualAddr :: "32 word"
  initDataInFileAddr :: "32 word"
  uninitDataSize :: "32 word"
  uninitDataVirtualAddr :: "32 word"
  uninitDataInFileAddr :: "32 word"

text \<open>
  The header as \<^verbatim>\<open>ReadAt\<close> fills it: 40 bytes, each \<^verbatim>\<open>int\<close> in host order; bytes the file does
  not have keep the value \<open>junk\<close>.
\<close>

definition noff_word :: "bool \<Rightarrow> (nat \<Rightarrow> 8 word) \<Rightarrow> 8 word list \<Rightarrow> nat \<Rightarrow> 32 word" where
  "noff_word big junk f k =
     host_load32 big (\<lambda>i. if i < length (uReadAt f 40 0) then uReadAt f 40 0 ! i else junk i) (4 * k)"

definition read_NoffHeader :: "bool \<Rightarrow> (nat \<Rightarrow> 8 word) \<Rightarrow> 8 word list \<Rightarrow> NoffHeader" where
  "read_NoffHeader big junk f =
     (let w = noff_word big junk f in
      \<lparr>noffMagic = w 0, codeSize = w 3, codeVirtualAddr = w 1, codeInFileAddr = w 2,
       initDataSize = w 6, initDataVirtualAddr = w 4, initDataInFileAddr = w 5,
       uninitDataSize = w 9, uninitDataVirtualAddr = w 7, uninitDataInFileAddr = w 8\<rparr>)"

abbreviation (input) NOFFMAGIC :: "32 word" where "NOFFMAGIC \<equiv> 0xbadfad"

definition SwapHeader :: "bool \<Rightarrow> NoffHeader \<Rightarrow> NoffHeader" where
  "SwapHeader big h =
     \<lparr>noffMagic = WordToHost big (noffMagic h),
      codeSize = WordToHost big (codeSize h), codeVirtualAddr = WordToHost big (codeVirtualAddr h),
      codeInFileAddr = WordToHost big (codeInFileAddr h),
      initDataSize = WordToHost big (initDataSize h),
      initDataVirtualAddr = WordToHost big (initDataVirtualAddr h),
      initDataInFileAddr = WordToHost big (initDataInFileAddr h),
      uninitDataSize = WordToHost big (uninitDataSize h),
      uninitDataVirtualAddr = WordToHost big (uninitDataVirtualAddr h),
      uninitDataInFileAddr = WordToHost big (uninitDataInFileAddr h)\<rparr>"

text \<open>
  A page of a new address space: its translation is filled in except for the physical page, which
  stays uninitialised, as does \<^verbatim>\<open>swapLocation\<close>.
\<close>

definition fresh_page :: "PageTableEntry \<Rightarrow> nat \<Rightarrow> int \<Rightarrow> PageTableEntry" where
  "fresh_page junk i loc =
     junk\<lparr>entry := (entry junk)\<lparr>virtualPage := of_nat i, valid := False, use := False, dirty := False,
            readOnly := False\<rparr>,
          byteOffset := 40 + i * PageSize, location := loc\<rparr>"

text \<open>
  The constructor. Slots 0 and 1 of the file table, the console, are taken by null pointers.
\<close>

definition new_fileTable :: "32 word list \<Rightarrow> nat option list \<Rightarrow> nat Table res" where
  "new_fileTable junkWords junkSlots =
     bindR (new_Table junkWords junkSlots MaxOpenFiles) (\<lambda>t0.
     bindR (Table_Put t0 None) (\<lambda>(_, t1).
     bindR (Table_Put t1 None) (\<lambda>(_, t2). Inr t2)))"

definition new_AddrSpace ::
  "bool \<Rightarrow> (nat \<Rightarrow> 8 word) \<Rightarrow> (nat \<Rightarrow> PageTableEntry) \<Rightarrow> 32 word list \<Rightarrow> nat option list \<Rightarrow> 8 word list \<Rightarrow>
     AddrSpace res" where
  "new_AddrSpace big junk junkPages junkWords junkSlots file =
     bindR (new_fileTable junkWords junkSlots) (\<lambda>ft.
     let h = read_NoffHeader big junk file;
          h = (if noffMagic h \<noteq> NOFFMAGIC \<and> WordToHost big (noffMagic h) = NOFFMAGIC
               then SwapHeader big h else h) in
      if noffMagic h \<noteq> NOFFMAGIC then Inl AssertionFailed
      else let sz = codeSize h + initDataSize h + uninitDataSize h;
               n = divRoundUp (unat sz) PageSize + divRoundUp UserStackSize PageSize
           in Inr \<lparr>pages = map (\<lambda>i. fresh_page (junkPages i) i InExecutable) [0..<n],
                   numPages = n, numPageQueue = [n], executable = file, fileTable = ft\<rparr>)"

definition InitRegisters :: "nat \<Rightarrow> VM \<Rightarrow> VM res" where
  "InitRegisters a vm =
     bindR (get_space a vm) (\<lambda>s.
     bindR (fold (\<lambda>i r. bindR r (WriteRegister (int i) 0)) [0..<NumTotalRegs] (Inr (mach vm))) (\<lambda>m1.
     bindR (WriteRegister (int PCReg) 0 m1) (\<lambda>m2.
     bindR (WriteRegister (int NextPCReg) 4 m2) (\<lambda>m3.
     bindR (WriteRegister (int StackReg) (of_nat (numPages s * PageSize) - 16) m3) (\<lambda>m4.
       Inr (vm\<lparr>mach := m4\<rparr>))))))"

definition SaveState :: "VM \<Rightarrow> VM res" where
  "SaveState vm =
     bindR (get_tlb vm) (\<lambda>t.
       if length t < TLBSize then Inl OutOfBounds
       else Inr (put_tlb (map (\<lambda>e. e\<lparr>valid := False\<rparr>) (take TLBSize t) @ drop TLBSize t) vm))"

definition RestoreState :: "nat \<Rightarrow> VM \<Rightarrow> VM res" where
  "RestoreState a vm =
     bindR (get_space a vm) (\<lambda>s. Inr (vm\<lparr>mach := (mach vm)\<lparr>pageTableSize := numPages s\<rparr>\<rparr>))"

text \<open>Giving a frame back: clear its bit, zero it, invalidate its \<^verbatim>\<open>IPT\<close> entry and the page.\<close>

definition free_page :: "nat \<Rightarrow> nat \<Rightarrow> VM \<Rightarrow> VM res" where
  "free_page a v vm =
     bindR (get_page a v vm) (\<lambda>pg.
     let p = sint (physicalPage (entry pg)) in
     bindR (BitMap_Clear (frameMap vm) p) (\<lambda>bm.
     bindR (upd_IPT (nat p) (\<lambda>e. e\<lparr>ientry := (ientry e)\<lparr>valid := False\<rparr>\<rparr>)
              (load_frame (nat p) [] (vm\<lparr>frameMap := bm\<rparr>))) (\<lambda>vm1.
     upd_page a v (\<lambda>pg. pg\<lparr>entry := (entry pg)\<lparr>valid := False\<rparr>\<rparr>) vm1)))"

fun clearMem_loop :: "nat \<Rightarrow> nat list \<Rightarrow> VM \<Rightarrow> VM res" where
  "clearMem_loop a [] vm = Inr vm"
| "clearMem_loop a (v # vs) vm =
     bindR (get_page a v vm) (\<lambda>pg.
       if valid (entry pg) then bindR (free_page a v vm) (clearMem_loop a vs)
       else clearMem_loop a vs vm)"

definition clearMem :: "nat \<Rightarrow> VM \<Rightarrow> VM res" where
  "clearMem a vm = bindR (get_space a vm) (\<lambda>s. clearMem_loop a [0..<numPages s] vm)"

text \<open>\<^verbatim>\<open>clearStack\<close> frees eight pages without asking whether they are resident.\<close>

fun clearStack_loop :: "nat \<Rightarrow> int list \<Rightarrow> VM \<Rightarrow> VM res" where
  "clearStack_loop a [] vm = Inr vm"
| "clearStack_loop a (v # vs) vm =
     (if v < 0 then Inl OutOfBounds
      else bindR (free_page a (nat v) vm) (clearStack_loop a vs))"

definition clearStack :: "nat \<Rightarrow> int \<Rightarrow> VM \<Rightarrow> VM res" where
  "clearStack a stack vm =
     (let stackEnd = stack sdiv int PageSize in clearStack_loop a [stackEnd - 7..stackEnd] vm)"

definition copy_page :: "PageTableEntry \<Rightarrow> PageTableEntry \<Rightarrow> PageTableEntry" where
  "copy_page junk pg = pg\<lparr>swapLocation := swapLocation junk\<rparr>"

text \<open>The copies of the old entries in the new table do not include \<^verbatim>\<open>swapLocation\<close>.\<close>

definition allocateStack :: "(nat \<Rightarrow> PageTableEntry) \<Rightarrow> nat \<Rightarrow> VM \<Rightarrow> VM res" where
  "allocateStack junk a vm =
     bindR (get_space a vm) (\<lambda>s.
       let n = numPages s + StackPages in
       if length (pages s) < numPages s then Inl OutOfBounds
       else RestoreState a (put_space a (s\<lparr>numPages := n, numPageQueue := numPageQueue s @ [n],
              pages := map (\<lambda>i. copy_page (junk i) (pages s ! i)) [0..<numPages s] @
                       map (\<lambda>i. fresh_page (junk i) i Nowhere) [numPages s..<n]\<rparr>) vm))"

definition getNumPages :: "nat \<Rightarrow> VM \<Rightarrow> (nat \<times> VM) res" where
  "getNumPages a vm =
     bindR (get_space a vm) (\<lambda>s.
       case numPageQueue s of
         [] \<Rightarrow> Inl Uninitialised
       | n # ns \<Rightarrow> Inr (n, put_space a (s\<lparr>numPageQueue := ns\<rparr>) vm))"

text \<open>Where the contents of a page come from; \<^verbatim>\<open>Lseek\<close> asserts that the position is not negative.\<close>

definition page_source :: "AddrSpace \<Rightarrow> PageTableEntry \<Rightarrow> VM \<Rightarrow> 8 word list res" where
  "page_source s pg vm =
     (if location pg = InExecutable then Inr (uReadAt (executable s) PageSize (byteOffset pg))
      else if location pg = InSwapFile
      then if swapLocation pg < 0 then Inl AssertionFailed
           else Inr (uReadAt (swapFile vm) PageSize (nat (swapLocation pg) * PageSize))
      else Inr [])"

definition IPTMiss :: "nat \<Rightarrow> int \<Rightarrow> nat \<Rightarrow> VM \<Rightarrow> VM res" where
  "IPTMiss a v ppn vm =
     (if v < 0 then Inl OutOfBounds else let vpn = nat v in
     bindR (get_space a vm) (\<lambda>s.
     bindR (get_page a vpn vm) (\<lambda>pg.
     bindR (page_source s pg vm) (\<lambda>bs.
     bindR (upd_page a vpn (\<lambda>pg. pg\<lparr>entry := (entry pg)\<lparr>valid := True, physicalPage := of_nat ppn\<rparr>\<rparr>)
              (load_frame ppn bs vm)) (\<lambda>vm1.
     upd_IPT ppn (\<lambda>e. e\<lparr>owner := Some a,
        ientry := \<lparr>virtualPage = of_nat vpn, physicalPage = of_nat ppn, valid = True,
                   readOnly = readOnly (entry pg), use = use (entry pg), dirty = dirty (entry pg)\<rparr>\<rparr>) vm1)))))"

definition swappedPage :: "nat \<Rightarrow> nat \<Rightarrow> nat \<Rightarrow> VM \<Rightarrow> VM res" where
  "swappedPage a vpn slot vm =
     upd_page a vpn (\<lambda>pg. pg\<lparr>entry := (entry pg)\<lparr>valid := False\<rparr>, location := InSwapFile,
        swapLocation := int slot\<rparr>) vm"

definition evictedPage :: "nat \<Rightarrow> nat \<Rightarrow> VM \<Rightarrow> VM res" where
  "evictedPage a vpn vm = upd_page a vpn (\<lambda>pg. pg\<lparr>entry := (entry pg)\<lparr>valid := False\<rparr>\<rparr>) vm"

section \<open>Page faults\<close>

definition updateTLB :: "nat \<Rightarrow> VM \<Rightarrow> VM res" where
  "updateTLB ppn vm =
     bindR (get_tlb vm) (\<lambda>t.
       if currentTLB vm < length t
       then let old = t ! currentTLB vm in
            bindR (if dirty old
                   then upd_IPT (unat (physicalPage old)) (\<lambda>e. e\<lparr>ientry := (ientry e)\<lparr>dirty := True\<rparr>\<rparr>) vm
                   else Inr vm) (\<lambda>vm1.
            bindR (get_IPT ppn vm1) (\<lambda>e.
              Inr ((put_tlb (t[currentTLB vm1 := ientry e]) vm1)
                   \<lparr>currentTLB := (currentTLB vm1 + 1) mod TLBSize\<rparr>)))
       else Inl OutOfBounds)"

text \<open>
  The loop of \<^verbatim>\<open>HandleMemoryFull\<close> over the TLB: every entry that names the victim frame, valid or
  not, is invalidated and its dirty bit overwrites that of the frame.
\<close>

fun flush_loop :: "nat \<Rightarrow> nat list \<Rightarrow> VM \<Rightarrow> VM res" where
  "flush_loop ppn [] vm = Inr vm"
| "flush_loop ppn (i # is) vm =
     bindR (get_tlb vm) (\<lambda>t.
       if i < length t
       then if physicalPage (t ! i) = of_nat ppn
            then bindR (upd_IPT ppn (\<lambda>e. e\<lparr>ientry := (ientry e)\<lparr>dirty := dirty (t ! i)\<rparr>\<rparr>)
                          (put_tlb (t[i := (t ! i)\<lparr>valid := False\<rparr>]) vm)) (flush_loop ppn is)
            else flush_loop ppn is vm
       else Inl OutOfBounds)"

definition victim :: "nat \<Rightarrow> VM \<Rightarrow> nat \<times> VM" where
  "victim rnd vm =
     (if PRand vm then (rnd mod NumPhysPages, vm)
      else (currentIPT vm, vm\<lparr>currentIPT := (currentIPT vm + 1) mod NumPhysPages\<rparr>))"

definition frame_owner :: "IPTEntry \<Rightarrow> nat res" where
  "frame_owner e = (case owner e of None \<Rightarrow> Inl NullDeref | Some a \<Rightarrow> Inr a)"

definition HandleMemoryFull :: "nat \<Rightarrow> VM \<Rightarrow> (nat \<times> VM) res" where
  "HandleMemoryFull rnd vm =
     (let (ppn, vm0) = victim rnd vm in
      bindR (flush_loop ppn [0..<TLBSize] vm0) (\<lambda>vm1.
      bindR (get_IPT ppn vm1) (\<lambda>e.
        if dirty (ientry e)
        then bindR (BitMap_Find (swapMap vm1)) (\<lambda>(loc, sm).
             if loc = -1 then Inl Halted
             else let vm2 = vm1\<lparr>swapMap := sm,
                        swapFile := uWriteAt (swapFile vm1) (frame_bytes ppn vm1) (nat loc * PageSize)\<rparr>
                  in bindR (frame_owner e) (\<lambda>a.
                     bindR (swappedPage a (unat (virtualPage (ientry e))) (nat loc) vm2) (\<lambda>vm3. Inr (ppn, vm3))))
        else bindR (frame_owner e) (\<lambda>a.
             bindR (evictedPage a (unat (virtualPage (ientry e))) vm1) (\<lambda>vm2. Inr (ppn, vm2))))))"

definition HandleIPTMiss :: "nat \<Rightarrow> int \<Rightarrow> VM \<Rightarrow> (nat \<times> VM) res" where
  "HandleIPTMiss rnd vpn vm =
     bindR (BitMap_Find (frameMap vm)) (\<lambda>(p, bm).
     bindR (if p = -1 then HandleMemoryFull rnd (vm\<lparr>frameMap := bm\<rparr>)
            else Inr (nat p, vm\<lparr>frameMap := bm\<rparr>)) (\<lambda>(ppn, vm1).
     bindR (IPTMiss (curSpace vm1) vpn ppn vm1) (\<lambda>vm2. Inr (ppn, vm2))))"

definition ipt_match :: "nat \<Rightarrow> int \<Rightarrow> IPTEntry \<Rightarrow> bool" where
  "ipt_match a vpn e \<longleftrightarrow> sint (virtualPage (ientry e)) = vpn \<and> owner e = Some a \<and> valid (ientry e)"

definition HandlePageFault :: "nat \<Rightarrow> VM \<Rightarrow> VM res" where
  "HandlePageFault rnd vm =
     bindR (ReadRegister (int BadVAddrReg) (mach vm)) (\<lambda>bad.
     let vpn = sint bad sdiv int PageSize in
     bindR (case find_index (ipt_match (curSpace vm) vpn) (take NumPhysPages (IPT vm)) of
              Some i \<Rightarrow> Inr (unat (physicalPage (ientry (IPT vm ! i))), vm)
            | None \<Rightarrow> HandleIPTMiss rnd vpn vm) (\<lambda>(ppn, vm1).
     updateTLB ppn vm1))"

end
