(* ===== verification/VM_Props.thy ===== *)
theory VM_Props
  imports Virtual_Memory
begin

text \<open>
  Demand paging is safe: \<open>vm_inv\<close> relates the inverted page table, the page tables, the TLB and the
  frame map; the page-fault handler keeps it and leaves the faulting page mapped. \<open>page_bytes\<close> is
  what a page of an address space contains, wherever it is; the handler keeps the contents of every
  page as long as every modified frame is flagged (\<open>dirty_ok\<close>), and the cases in which the flag or
  the swap location is lost are exhibited.
\<close>

section \<open>Invariant\<close>

definition space_wf :: "AddrSpace \<Rightarrow> bool" where
  "space_wf s \<longleftrightarrow> numPages s = length (pages s) \<and> numPages s < 2 ^ 24 \<and>
     list_all (\<lambda>pg. \<not> readOnly (entry pg)) (pages s)"

definition resident :: "VM \<Rightarrow> nat \<Rightarrow> nat \<Rightarrow> nat \<Rightarrow> bool" where
  "resident vm a v p \<longleftrightarrow> p < NumPhysPages \<and> valid (ientry (IPT vm ! p)) \<and> owner (IPT vm ! p) = Some a \<and>
     virtualPage (ientry (IPT vm ! p)) = of_nat v"

text \<open>
  The invariant in five parts. \<open>X\<close> is the set of frames that are being reassigned: between
  operations it is empty.
\<close>

definition shape_ok :: "VM \<Rightarrow> bool" where
  "shape_ok vm \<longleftrightarrow>
     length (IPT vm) = NumPhysPages \<and> currentTLB vm < TLBSize \<and> currentIPT vm < NumPhysPages \<and>
     BitMap_inv (frameMap vm) \<and> numBits (frameMap vm) = NumPhysPages \<and>
     BitMap_inv (swapMap vm) \<and> numBits (swapMap vm) = SwapPages \<and> pageTable (mach vm) = None \<and>
     (\<forall>a s. spaces vm a = Some s \<longrightarrow> space_wf s)"

definition frames_ok :: "nat set \<Rightarrow> VM \<Rightarrow> bool" where
  "frames_ok X vm \<longleftrightarrow> X \<subseteq> marked (frameMap vm) \<and>
     (\<forall>p < NumPhysPages. p \<notin> X \<longrightarrow>
        (valid (ientry (IPT vm ! p)) \<longleftrightarrow> p \<in> marked (frameMap vm)) \<and>
        (valid (ientry (IPT vm ! p)) \<longrightarrow>
           physicalPage (ientry (IPT vm ! p)) = of_nat p \<and> \<not> readOnly (ientry (IPT vm ! p)) \<and>
           (\<exists>a s v. spaces vm a = Some s \<and> v < numPages s \<and> resident vm a v p \<and>
              valid (entry (pages s ! v)) \<and> physicalPage (entry (pages s ! v)) = of_nat p)))"

definition pages_ok :: "nat set \<Rightarrow> VM \<Rightarrow> bool" where
  "pages_ok X vm \<longleftrightarrow>
     (\<forall>a s v. spaces vm a = Some s \<longrightarrow> v < numPages s \<longrightarrow> valid (entry (pages s ! v)) \<longrightarrow>
        (\<exists>p. p \<notin> X \<and> resident vm a v p \<and> physicalPage (entry (pages s ! v)) = of_nat p))"

definition swap_ok :: "VM \<Rightarrow> bool" where
  "swap_ok vm \<longleftrightarrow>
     (\<forall>a s v. spaces vm a = Some s \<longrightarrow> v < numPages s \<longrightarrow> location (pages s ! v) = InSwapFile \<longrightarrow>
        0 \<le> swapLocation (pages s ! v) \<and> nat (swapLocation (pages s ! v)) \<in> marked (swapMap vm))"

definition tlb_ok :: "nat set \<Rightarrow> VM \<Rightarrow> bool" where
  "tlb_ok X vm \<longleftrightarrow>
     (\<exists>t. tlb (mach vm) = Some t \<and> length t = TLBSize \<and>
        (\<forall>e \<in> set t. dirty e \<longrightarrow> unat (physicalPage e) < NumPhysPages) \<and>
        (\<forall>e \<in> set t. valid e \<longrightarrow> (\<exists>v p. p \<notin> X \<and> resident vm (curSpace vm) v p \<and>
           e = (ientry (IPT vm ! p))\<lparr>use := use e, dirty := dirty e\<rparr>)))"

definition vm_inv_ex :: "nat set \<Rightarrow> VM \<Rightarrow> bool" where
  "vm_inv_ex X vm \<longleftrightarrow> shape_ok vm \<and> frames_ok X vm \<and> pages_ok X vm \<and> swap_ok vm \<and> tlb_ok X vm"

definition vm_inv :: "VM \<Rightarrow> bool" where
  "vm_inv vm \<longleftrightarrow> vm_inv_ex {} vm"

section \<open>Accessors\<close>

lemma get_space_live: "spaces vm a = Some s \<Longrightarrow> get_space a vm = Inr s"
  by (simp add: get_space_def)

lemma upd_page_ok:
  "spaces vm a = Some s \<Longrightarrow> v < length (pages s) \<Longrightarrow>
     upd_page a v g vm = Inr (vm\<lparr>spaces := (spaces vm)(a \<mapsto> s\<lparr>pages := (pages s)[v := g (pages s ! v)]\<rparr>)\<rparr>)"
  by (simp add: upd_page_def get_space_def put_space_def)

lemma get_page_ok: "spaces vm a = Some s \<Longrightarrow> v < length (pages s) \<Longrightarrow> get_page a v vm = Inr (pages s ! v)"
  by (simp add: get_page_def get_space_def)

lemma upd_IPT_ok: "p < length (IPT vm) \<Longrightarrow> upd_IPT p g vm = Inr (vm\<lparr>IPT := (IPT vm)[p := g (IPT vm ! p)]\<rparr>)"
  by (simp add: upd_IPT_def)

lemma get_IPT_ok: "p < length (IPT vm) \<Longrightarrow> get_IPT p vm = Inr (IPT vm ! p)"
  by (simp add: get_IPT_def)

lemma get_tlb_ok: "tlb (mach vm) = Some t \<Longrightarrow> get_tlb vm = Inr t"
  by (simp add: get_tlb_def)

lemmas vm_access = get_space_live upd_page_ok get_page_ok upd_IPT_ok get_IPT_ok get_tlb_ok

lemma load_frame_simps [simp]:
  "spaces (load_frame p bs vm) = spaces vm" "IPT (load_frame p bs vm) = IPT vm"
  "frameMap (load_frame p bs vm) = frameMap vm" "swapMap (load_frame p bs vm) = swapMap vm"
  "swapFile (load_frame p bs vm) = swapFile vm" "currentTLB (load_frame p bs vm) = currentTLB vm"
  "currentIPT (load_frame p bs vm) = currentIPT vm" "curSpace (load_frame p bs vm) = curSpace vm"
  "PRand (load_frame p bs vm) = PRand vm" "tlb (mach (load_frame p bs vm)) = tlb (mach vm)"
  "pageTable (mach (load_frame p bs vm)) = pageTable (mach vm)"
  "registers (mach (load_frame p bs vm)) = registers (mach vm)"
  by (simp_all add: load_frame_def)

lemma put_tlb_simps [simp]:
  "spaces (put_tlb t vm) = spaces vm" "IPT (put_tlb t vm) = IPT vm" "frameMap (put_tlb t vm) = frameMap vm"
  "swapMap (put_tlb t vm) = swapMap vm" "swapFile (put_tlb t vm) = swapFile vm"
  "currentTLB (put_tlb t vm) = currentTLB vm" "currentIPT (put_tlb t vm) = currentIPT vm"
  "curSpace (put_tlb t vm) = curSpace vm" "PRand (put_tlb t vm) = PRand vm"
  "tlb (mach (put_tlb t vm)) = Some t" "pageTable (mach (put_tlb t vm)) = pageTable (mach vm)"
  "mainMemory (mach (put_tlb t vm)) = mainMemory (mach vm)" "registers (mach (put_tlb t vm)) = registers (mach vm)"
  by (simp_all add: put_tlb_def)

lemma of_nat_small: "n < 2 ^ 24 \<Longrightarrow> unat (of_nat n :: 32 word) = n"
  by (simp add: unat_of_nat take_bit_nat_eq_self_iff)

lemma sint_small: "n < 2 ^ 24 \<Longrightarrow> sint (of_nat n :: 32 word) = int n"
  by (simp add: sint_uint signed_take_bit_int_eq_self uint_nat unat_of_nat take_bit_nat_eq_self_iff)

lemma frame_number: "p < NumPhysPages \<Longrightarrow> unat (of_nat p :: 32 word) = p"
  by (simp add: of_nat_small)

lemma of_nat_inj: "v < 2 ^ 24 \<Longrightarrow> w < 2 ^ 24 \<Longrightarrow> (of_nat v :: 32 word) = of_nat w \<Longrightarrow> v = w"
  by (metis of_nat_small)

section \<open>Flushing the TLB entries of a frame\<close>

definition drop_entry :: "nat \<Rightarrow> TranslationEntry \<Rightarrow> TranslationEntry" where
  "drop_entry p e = (if physicalPage e = of_nat p then e\<lparr>valid := False\<rparr> else e)"

text \<open>The dirty bit of a frame after the loop: that of the last entry naming it, if there is one.\<close>

definition flushed_dirty :: "nat \<Rightarrow> TranslationEntry list \<Rightarrow> bool \<Rightarrow> bool" where
  "flushed_dirty p t d = foldl (\<lambda>d e. if physicalPage e = of_nat p then dirty e else d) d t"

lemma flushed_dirty_simps [simp]:
  "flushed_dirty p [] d = d"
  "flushed_dirty p (e # t) d = flushed_dirty p t (if physicalPage e = of_nat p then dirty e else d)"
  by (simp_all add: flushed_dirty_def)

definition set_dirty :: "bool \<Rightarrow> IPTEntry \<Rightarrow> IPTEntry" where
  "set_dirty b e = e\<lparr>ientry := (ientry e)\<lparr>dirty := b\<rparr>\<rparr>"

lemma set_dirty_simps [simp]:
  "owner (set_dirty b e) = owner e" "valid (ientry (set_dirty b e)) = valid (ientry e)"
  "virtualPage (ientry (set_dirty b e)) = virtualPage (ientry e)"
  "physicalPage (ientry (set_dirty b e)) = physicalPage (ientry e)"
  "readOnly (ientry (set_dirty b e)) = readOnly (ientry e)" "use (ientry (set_dirty b e)) = use (ientry e)"
  "dirty (ientry (set_dirty b e)) = b" "set_dirty b (set_dirty c e) = set_dirty b e"
  "set_dirty (dirty (ientry e)) e = e"
  by (simp_all add: set_dirty_def)

lemma flush_loop_ok:
  "p < length (IPT vm) \<Longrightarrow> tlb (mach vm) = Some t \<Longrightarrow> k + n = length t \<Longrightarrow>
     flush_loop p [k..<k + n] vm =
       Inr ((put_tlb (take k t @ map (drop_entry p) (drop k t)) vm)
            \<lparr>IPT := (IPT vm)[p := set_dirty (flushed_dirty p (drop k t) (dirty (ientry (IPT vm ! p)))) (IPT vm ! p)]\<rparr>)"
proof (induction n arbitrary: k t vm)
  case 0
  then show ?case by (simp add: put_tlb_def)
next
  case (Suc n)
  have u: "[k..<k + Suc n] = k # [Suc k..<Suc k + n]" by (simp add: upt_conv_Cons)
  have k: "k < length t" using Suc.prems by simp
  have dk: "drop k t = t ! k # drop (Suc k) t" using k by (simp add: Cons_nth_drop_Suc)
  show ?case
  proof (cases "physicalPage (t ! k) = of_nat p")
    case True
    let ?t = "t[k := (t ! k)\<lparr>valid := False\<rparr>]"
    let ?vm = "(put_tlb ?t vm)\<lparr>IPT := (IPT vm)[p := set_dirty (dirty (t ! k)) (IPT vm ! p)]\<rparr>"
    have "flush_loop p [k..<k + Suc n] vm = flush_loop p [Suc k..<Suc k + n] ?vm"
      unfolding u using True k Suc.prems by (simp add: get_tlb_def upd_IPT_def set_dirty_def)
    also have "\<dots> = Inr ((put_tlb (take (Suc k) ?t @ map (drop_entry p) (drop (Suc k) ?t)) ?vm)
        \<lparr>IPT := (IPT ?vm)[p := set_dirty (flushed_dirty p (drop (Suc k) ?t) (dirty (ientry (IPT ?vm ! p)))) (IPT ?vm ! p)]\<rparr>)"
      by (rule Suc.IH) (use Suc.prems in \<open>simp_all add: put_tlb_def\<close>)
    also have "take (Suc k) ?t @ map (drop_entry p) (drop (Suc k) ?t) = take k t @ map (drop_entry p) (drop k t)"
      using k True by (simp add: take_Suc_conv_app_nth dk drop_entry_def)
    finally show ?thesis using Suc.prems(1) True by (simp add: dk put_tlb_def)
  next
    case False
    have "flush_loop p [k..<k + Suc n] vm = flush_loop p [Suc k..<Suc k + n] vm"
      unfolding u using False k Suc.prems by (simp add: get_tlb_def)
    also have "\<dots> = Inr ((put_tlb (take (Suc k) t @ map (drop_entry p) (drop (Suc k) t)) vm)
        \<lparr>IPT := (IPT vm)[p := set_dirty (flushed_dirty p (drop (Suc k) t) (dirty (ientry (IPT vm ! p)))) (IPT vm ! p)]\<rparr>)"
      by (rule Suc.IH) (use Suc.prems in simp_all)
    also have "take (Suc k) t @ map (drop_entry p) (drop (Suc k) t) = take k t @ map (drop_entry p) (drop k t)"
      using k False by (simp add: take_Suc_conv_app_nth dk drop_entry_def)
    finally show ?thesis using False by (simp add: dk)
  qed
qed

lemma flush_all:
  assumes "p < length (IPT vm)" "tlb (mach vm) = Some t" "length t = TLBSize"
  shows "flush_loop p [0..<TLBSize] vm =
    Inr ((put_tlb (map (drop_entry p) t) vm)
      \<lparr>IPT := (IPT vm)[p := set_dirty (flushed_dirty p t (dirty (ientry (IPT vm ! p)))) (IPT vm ! p)]\<rparr>)"
  using flush_loop_ok [OF assms(1,2), of 0 4] assms(3) by simp

section \<open>Taking a frame\<close>

lemma shapeD:
  assumes "shape_ok vm"
  shows "length (IPT vm) = 256" "currentTLB vm < 4" "currentIPT vm < 256" "BitMap_inv (frameMap vm)"
    "numBits (frameMap vm) = 256" "BitMap_inv (swapMap vm)" "numBits (swapMap vm) = 4096"
    "pageTable (mach vm) = None" "\<And>a s. spaces vm a = Some s \<Longrightarrow> numPages s = length (pages s) \<and> length (pages s) < 2 ^ 24"
    "\<And>a s v. spaces vm a = Some s \<Longrightarrow> v < length (pages s) \<Longrightarrow> \<not> readOnly (entry (pages s ! v))"
proof -
  show "numPages s = length (pages s) \<and> length (pages s) < 2 ^ 24" if "spaces vm a = Some s" for a s
    using assms that unfolding shape_ok_def space_wf_def by fastforce
  show "\<not> readOnly (entry (pages s ! v))" if "spaces vm a = Some s" "v < length (pages s)" for a s v
    using assms that unfolding shape_ok_def space_wf_def list_all_length by blast
qed (use assms in \<open>simp_all add: shape_ok_def\<close>)

text \<open>At most one page is resident in a frame.\<close>

lemma resident_unique:
  "resident vm a v p \<Longrightarrow> resident vm b w p \<Longrightarrow> v < 2 ^ 24 \<Longrightarrow> w < 2 ^ 24 \<Longrightarrow> a = b \<and> v = w"
  unfolding resident_def by (metis of_nat_inj option.inject)

lemma frame_of_page:
  assumes "frames_ok X vm" "p \<notin> X" "resident vm a v p" "v < 2 ^ 24" "shape_ok vm"
  obtains s where "spaces vm a = Some s" "v < length (pages s)" "valid (entry (pages s ! v))"
    "physicalPage (entry (pages s ! v)) = of_nat p" "physicalPage (ientry (IPT vm ! p)) = of_nat p"
proof -
  have p: "p < 256" "valid (ientry (IPT vm ! p))" using assms(3) by (simp_all add: resident_def)
  with assms(1,2) have ph: "physicalPage (ientry (IPT vm ! p)) = of_nat p"
    and ex: "\<exists>a s v. spaces vm a = Some s \<and> v < numPages s \<and> resident vm a v p \<and>
      valid (entry (pages s ! v)) \<and> physicalPage (entry (pages s ! v)) = of_nat p"
    unfolding frames_ok_def by blast+
  from ex obtain b s w where bsw: "spaces vm b = Some s" "w < numPages s" "resident vm b w p"
    "valid (entry (pages s ! w))" "physicalPage (entry (pages s ! w)) = of_nat p" by blast
  have w: "w < 2 ^ 24" "w < length (pages s)" using shapeD(9) [OF assms(5) bsw(1)] bsw(2) by auto
  from resident_unique [OF assms(3) bsw(3) assms(4) w(1)] bsw w(2) ph that show thesis by auto
qed

lemma take_free_frame:
  assumes inv: "vm_inv vm" and p: "p < 256" "p \<notin> marked (frameMap vm)"
    and bm: "BitMap_inv bm" "numBits bm = 256" "marked bm = insert p (marked (frameMap vm))"
  shows "vm_inv_ex {p} (vm\<lparr>frameMap := bm\<rparr>)"
proof -
  let ?vm = "vm\<lparr>frameMap := bm\<rparr>"
  have i: "shape_ok vm" "frames_ok {} vm" "pages_ok {} vm" "swap_ok vm" "tlb_ok {} vm"
    using inv by (simp_all add: vm_inv_def vm_inv_ex_def)
  have res: "resident ?vm = resident vm" by (simp add: resident_def fun_eq_iff)
  have np: "\<not> resident vm a v p" for a v
    using i(2) p by (auto simp: frames_ok_def resident_def)
  have "shape_ok ?vm" using i(1) bm by (simp add: shape_ok_def)
  moreover have "frames_ok {p} ?vm" using i(2) bm(3) unfolding frames_ok_def res by auto
  moreover have "pages_ok {p} ?vm" using i(3) np unfolding pages_ok_def res by fastforce
  moreover have "swap_ok ?vm" using i(4) by (simp add: swap_ok_def)
  moreover have "tlb_ok {p} ?vm" using i(5) np unfolding tlb_ok_def res by fastforce
  ultimately show ?thesis by (simp add: vm_inv_ex_def)
qed

section \<open>Evicting a page\<close>

lemma space_wf_update:
  "space_wf s \<Longrightarrow> w < length (pages s) \<Longrightarrow> \<not> readOnly (entry pg) \<Longrightarrow> space_wf (s\<lparr>pages := (pages s)[w := pg]\<rparr>)"
  by (simp add: space_wf_def list_all_length nth_list_update)

lemma drop_entry_valid: "valid (drop_entry p e) \<Longrightarrow> drop_entry p e = e \<and> physicalPage e \<noteq> of_nat p"
  by (auto simp: drop_entry_def split: if_splits)

lemma drop_entry_dirty [simp]: "dirty (drop_entry p e) = dirty e" "physicalPage (drop_entry p e) = physicalPage e"
  by (simp_all add: drop_entry_def)

text \<open>
  What \<^verbatim>\<open>HandleMemoryFull\<close> does to the tables, whichever way the page goes: \<open>pg'\<close> is the new entry
  of the evicted page.
\<close>

definition evict_to :: "nat \<Rightarrow> nat \<Rightarrow> AddrSpace \<Rightarrow> nat \<Rightarrow> PageTableEntry \<Rightarrow> TranslationEntry list \<Rightarrow> bool \<Rightarrow> VM \<Rightarrow> VM \<Rightarrow> bool" where
  "evict_to p b s w pg' t dd vm vm' \<longleftrightarrow>
     spaces vm' = (spaces vm)(b \<mapsto> s\<lparr>pages := (pages s)[w := pg']\<rparr>) \<and>
     IPT vm' = (IPT vm)[p := set_dirty dd (IPT vm ! p)] \<and>
     tlb (mach vm') = Some (map (drop_entry p) t) \<and> pageTable (mach vm') = pageTable (mach vm) \<and>
     mainMemory (mach vm') = mainMemory (mach vm) \<and> registers (mach vm') = registers (mach vm) \<and>
     frameMap vm' = frameMap vm \<and> currentTLB vm' = currentTLB vm \<and> curSpace vm' = curSpace vm \<and>
     currentIPT vm' < 256 \<and> PRand vm' = PRand vm"

lemma evict_inv:
  assumes inv: "vm_inv vm" and t: "tlb (mach vm) = Some t"
    and p: "p < 256" "resident vm b w p" and s: "spaces vm b = Some s" "w < length (pages s)"
    and e: "evict_to p b s w pg' t dd vm vm'"
    and pg': "\<not> valid (entry pg')" "\<not> readOnly (entry pg')"
    and sm: "BitMap_inv (swapMap vm')" "numBits (swapMap vm') = 4096" "marked (swapMap vm) \<subseteq> marked (swapMap vm')"
      "location pg' = 0 \<Longrightarrow> 0 \<le> swapLocation pg' \<and> nat (swapLocation pg') \<in> marked (swapMap vm')"
  shows "vm_inv_ex {p} vm'"
proof -
  have i: "shape_ok vm" "frames_ok {} vm" "pages_ok {} vm" "swap_ok vm" "tlb_ok {} vm"
    using inv by (simp_all add: vm_inv_def vm_inv_ex_def)
  note sh = shapeD [OF i(1)]
  let ?s = "s\<lparr>pages := (pages s)[w := pg']\<rparr>"
  have w24: "w < 2 ^ 24" using s sh(9) by fastforce
  have E: "spaces vm' = (spaces vm)(b \<mapsto> ?s)" "IPT vm' = (IPT vm)[p := set_dirty dd (IPT vm ! p)]"
    "tlb (mach vm') = Some (map (drop_entry p) t)" "frameMap vm' = frameMap vm" "curSpace vm' = curSpace vm"
    using e by (simp_all add: evict_to_def)
  have res: "resident vm' a v q \<longleftrightarrow> resident vm a v q" for a v q
    using E(2) p(1) sh(1) by (auto simp: resident_def nth_list_update)
  have ipt: "IPT vm' ! q = IPT vm ! q" if "q \<noteq> p" for q using that E(2) by simp
  have sp: "spaces vm' a = Some s' \<longleftrightarrow> (if a = b then s' = ?s else spaces vm a = Some s')" for a s'
    using E(1) by auto
  have "shape_ok vm'"
    unfolding shape_ok_def
  proof (intro conjI allI impI)
    fix a s' assume "spaces vm' a = Some s'"
    moreover have "space_wf ?s" using i(1) s pg'(2) by (intro space_wf_update) (auto simp: shape_ok_def)
    ultimately show "space_wf s'" using i(1) by (auto simp: sp shape_ok_def split: if_splits)
  qed (use e i(1) sm sh in \<open>simp_all add: evict_to_def shape_ok_def\<close>)
  moreover have "frames_ok {p} vm'"
    unfolding frames_ok_def E(4)
  proof (intro conjI allI impI)
    show "{p} \<subseteq> marked (frameMap vm)" using i(2) p by (auto simp: frames_ok_def resident_def)
    fix q assume q: "q < 256" "q \<notin> {p}"
    then have qq: "IPT vm' ! q = IPT vm ! q" using ipt by simp
    show "valid (ientry (IPT vm' ! q)) \<longleftrightarrow> q \<in> marked (frameMap vm)" using qq i(2) q by (simp add: frames_ok_def)
    assume v: "valid (ientry (IPT vm' ! q))"
    then show "physicalPage (ientry (IPT vm' ! q)) = of_nat q" "\<not> readOnly (ientry (IPT vm' ! q))"
      using qq i(2) q by (simp_all add: frames_ok_def)
    from i(2) q v qq obtain a s' v' where a: "spaces vm a = Some s'" "v' < numPages s'" "resident vm a v' q"
      "valid (entry (pages s' ! v'))" "physicalPage (entry (pages s' ! v')) = of_nat q"
      unfolding frames_ok_def by auto
    have ne: "a = b \<Longrightarrow> v' \<noteq> w"
      using a(3) p(2) q frame_of_page [OF i(2) _ p(2) w24 i(1)] a s(1) frame_number [of p] frame_number [of q] p(1)
      by (metis empty_iff insertCI option.inject)
    let ?s' = "if a = b then ?s else s'"
    have "spaces vm' a = Some ?s'" using sp a(1) by simp
    moreover have "pages ?s' ! v' = pages s' ! v'" "numPages ?s' = numPages s'" using ne s(1) a(1) by auto
    ultimately show "\<exists>a s v. spaces vm' a = Some s \<and> v < numPages s \<and> resident vm' a v q \<and>
        valid (entry (pages s ! v)) \<and> physicalPage (entry (pages s ! v)) = of_nat q"
      using a res by metis
  qed
  moreover have "pages_ok {p} vm'"
    unfolding pages_ok_def
  proof (intro allI impI)
    fix a s' v assume a: "spaces vm' a = Some s'" "v < numPages s'" "valid (entry (pages s' ! v))"
    have "\<not> (a = b \<and> v = w)" using a(1,3) sp s pg'(1) by auto
    moreover obtain s0 where s0: "spaces vm a = Some s0" "v < numPages s0" "pages s0 ! v = pages s' ! v"
      using a sp [of a s'] s(1) calculation by (auto split: if_splits)
    ultimately obtain q where q: "resident vm a v q" "physicalPage (entry (pages s' ! v)) = of_nat q"
      using i(3) a(3) unfolding pages_ok_def by metis
    have "v < 2 ^ 24" using s0 sh(9) by fastforce
    then have "q \<noteq> p" using resident_unique [OF q(1) _ _ w24] p(2) \<open>\<not> (a = b \<and> v = w)\<close> by blast
    with q res show "\<exists>q. q \<notin> {p} \<and> resident vm' a v q \<and> physicalPage (entry (pages s' ! v)) = of_nat q" by auto
  qed
  moreover have "swap_ok vm'"
    unfolding swap_ok_def
  proof (intro allI impI)
    fix a s' v assume a: "spaces vm' a = Some s'" "v < numPages s'" "location (pages s' ! v) = 0"
    show "0 \<le> swapLocation (pages s' ! v) \<and> nat (swapLocation (pages s' ! v)) \<in> marked (swapMap vm')"
    proof (cases "a = b \<and> v = w")
      case True
      then show ?thesis using a sp sm(4) s(2) by auto
    next
      case False
      obtain s0 where "spaces vm a = Some s0" "v < numPages s0" "pages s0 ! v = pages s' ! v"
        using a sp [of a s'] s(1) False by (auto split: if_splits)
      with i(4) a(3) sm(3) show ?thesis unfolding swap_ok_def by (metis subsetD)
    qed
  qed
  moreover have "tlb_ok {p} vm'"
  proof -
    have T: "length t = 4" "\<forall>e \<in> set t. dirty e \<longrightarrow> unat (physicalPage e) < 256"
      "\<forall>e \<in> set t. valid e \<longrightarrow> (\<exists>v q. resident vm (curSpace vm) v q \<and>
         e = (ientry (IPT vm ! q))\<lparr>use := use e, dirty := dirty e\<rparr>)"
      using i(5) t by (auto simp: tlb_ok_def)
    have "\<exists>v q. q \<notin> {p} \<and> resident vm' (curSpace vm') v q \<and>
        e = (ientry (IPT vm' ! q))\<lparr>use := use e, dirty := dirty e\<rparr>" if e: "e \<in> set t" "valid (drop_entry p e)" for e
    proof -
      from drop_entry_valid [OF e(2)] have e': "valid e" "physicalPage e \<noteq> of_nat p" using e(2) by auto
      from T(3) e(1) e'(1) obtain v q where vq: "resident vm (curSpace vm) v q"
        "e = (ientry (IPT vm ! q))\<lparr>use := use e, dirty := dirty e\<rparr>" by blast
      have "q < 256" "physicalPage (ientry (IPT vm ! q)) = of_nat q"
        using vq(1) i(2) unfolding resident_def frames_ok_def by auto
      then have "q \<noteq> p" using vq(2) e'(2) by (metis TranslationEntry.select_convs(2) TranslationEntry.surjective
            TranslationEntry.update_convs(5) TranslationEntry.update_convs(6))
      from ipt [OF this] vq(2) have "e = (ientry (IPT vm' ! q))\<lparr>use := use e, dirty := dirty e\<rparr>" by (simp only:)
      moreover have "resident vm' (curSpace vm') v q" using vq(1) res E(5) by simp
      ultimately show ?thesis using \<open>q \<noteq> p\<close> by blast
    qed
    then show ?thesis unfolding tlb_ok_def E(3) using T drop_entry_valid by fastforce
  qed
  ultimately show ?thesis by (simp add: vm_inv_ex_def)
qed

section \<open>Loading a page\<close>

lemma IPTMiss_ok:
  assumes inv: "vm_inv_ex {p} vm" and p: "p < 256" and s: "spaces vm a = Some s" "v < length (pages s)"
    and nv: "\<not> valid (entry (pages s ! v))" and cur: "curSpace vm = a"
  shows "\<exists>bs vm'. page_source s (pages s ! v) vm = Inr bs \<and> IPTMiss a (int v) p vm = Inr vm' \<and> vm_inv vm' \<and>
     resident vm' a v p \<and> curSpace vm' = a \<and> swapMap vm' = swapMap vm \<and> swapFile vm' = swapFile vm \<and>
     registers (mach vm') = registers (mach vm) \<and>
     tlb (mach vm') = tlb (mach vm) \<and> currentTLB vm' = currentTLB vm \<and>
     mainMemory (mach vm') = mainMemory (mach (load_frame p bs vm)) \<and>
     spaces vm' = (spaces vm)(a \<mapsto> s\<lparr>pages := (pages s)[v := (pages s ! v)\<lparr>entry :=
        (entry (pages s ! v))\<lparr>valid := True, physicalPage := of_nat p\<rparr>\<rparr>]\<rparr>) \<and>
     (\<forall>q. q \<noteq> p \<longrightarrow> IPT vm' ! q = IPT vm ! q) \<and> dirty (ientry (IPT vm' ! p)) = dirty (entry (pages s ! v))"
proof -
  have i: "shape_ok vm" "frames_ok {p} vm" "pages_ok {p} vm" "swap_ok vm" "tlb_ok {p} vm"
    using inv by (simp_all add: vm_inv_ex_def)
  note sh = shapeD [OF i(1)]
  have v: "v < numPages s" "v < 2 ^ 24" using s sh(9) by fastforce+
  let ?pg = "pages s ! v"
  have "location ?pg = 0 \<Longrightarrow> 0 \<le> swapLocation ?pg" using i(4) s(1) v(1) unfolding swap_ok_def by blast
  then have "\<exists>bs. page_source s ?pg vm = Inr bs" by (auto simp: page_source_def)
  then obtain bs where bs: "page_source s ?pg vm = Inr bs" by blast
  let ?pg' = "?pg\<lparr>entry := (entry ?pg)\<lparr>valid := True, physicalPage := of_nat p\<rparr>\<rparr>"
  let ?s = "s\<lparr>pages := (pages s)[v := ?pg']\<rparr>"
  let ?te = "\<lparr>virtualPage = of_nat v, physicalPage = of_nat p, valid = True, readOnly = readOnly (entry ?pg),
    use = use (entry ?pg), dirty = dirty (entry ?pg)\<rparr> :: TranslationEntry"
  let ?ie = "(IPT vm ! p)\<lparr>owner := Some a, ientry := ?te\<rparr>"
  define nvm where "nvm = (load_frame p bs vm)\<lparr>spaces := (spaces vm)(a \<mapsto> ?s), IPT := (IPT vm)[p := ?ie]\<rparr>"
  have run: "IPTMiss a (int v) p vm = Inr nvm"
    using s bs p sh(1) by (simp add: nvm_def IPTMiss_def get_space_live get_page_ok upd_page_ok upd_IPT_ok)
  have ipt: "IPT nvm ! q = (if q = p then ?ie else IPT vm ! q)" for q
    using p sh(1) by (simp add: nvm_def)
  have fld: "spaces nvm = (spaces vm)(a \<mapsto> ?s)" "length (IPT nvm) = length (IPT vm)" "frameMap nvm = frameMap vm"
    "swapMap nvm = swapMap vm" "swapFile nvm = swapFile vm" "currentTLB nvm = currentTLB vm"
    "currentIPT nvm = currentIPT vm" "curSpace nvm = curSpace vm" "tlb (mach nvm) = tlb (mach vm)"
    "pageTable (mach nvm) = pageTable (mach vm)" "registers (mach nvm) = registers (mach vm)"
    "mainMemory (mach nvm) = mainMemory (mach (load_frame p bs vm))"
    by (simp_all add: nvm_def)
  have sp: "spaces nvm a' = Some s' \<longleftrightarrow> (if a' = a then s' = ?s else spaces vm a' = Some s')" for a' s'
    by (auto simp: fld(1))
  have res: "resident nvm a' v' q \<longleftrightarrow> (if q = p then a' = a \<and> of_nat v' = (of_nat v :: 32 word) else resident vm a' v' q)" for a' v' q
    using p by (auto simp: resident_def ipt)
  have pa: "resident nvm a v p" by (simp add: res)
  have old: "\<exists>s0. spaces vm a' = Some s0 \<and> v' < numPages s0 \<and> pages s0 ! v' = pages s' ! v'"
    if "spaces nvm a' = Some s'" "v' < numPages s'" "\<not> (a' = a \<and> v' = v)" for a' s' v'
    using that s(1) by (auto simp: sp split: if_splits)
  have "shape_ok nvm"
    unfolding shape_ok_def
  proof (intro conjI allI impI)
    fix a' s' assume "spaces nvm a' = Some s'"
    moreover have "space_wf ?s" using i(1) s sh(10) [OF s] by (intro space_wf_update) (auto simp: shape_ok_def)
    ultimately show "space_wf s'" using i(1) by (auto simp: sp shape_ok_def split: if_splits)
  qed (use i(1) in \<open>simp_all add: shape_ok_def fld\<close>)
  moreover have "frames_ok {} nvm"
    unfolding frames_ok_def
  proof (intro conjI allI impI)
    fix q :: nat assume q: "q < 256" "q \<notin> {}"
    show "valid (ientry (IPT nvm ! q)) \<longleftrightarrow> q \<in> marked (frameMap nvm)"
      using i(2) q by (auto simp: ipt frames_ok_def fld(3))
    assume vq: "valid (ientry (IPT nvm ! q))"
    then show "physicalPage (ientry (IPT nvm ! q)) = of_nat q" "\<not> readOnly (ientry (IPT nvm ! q))"
      using i(2) q sh(10) [OF s] by (auto simp: ipt frames_ok_def split: if_splits)
    show "\<exists>a s v. spaces nvm a = Some s \<and> v < numPages s \<and> resident nvm a v q \<and>
        valid (entry (pages s ! v)) \<and> physicalPage (entry (pages s ! v)) = of_nat q"
    proof (cases "q = p")
      case True
      then show ?thesis using pa s v(1) by (intro exI [of _ a] exI [of _ ?s] exI [of _ v]) (auto simp: sp)
    next
      case False
      with i(2) q vq obtain b s0 w where b: "spaces vm b = Some s0" "w < numPages s0" "resident vm b w q"
        "valid (entry (pages s0 ! w))" "physicalPage (entry (pages s0 ! w)) = of_nat q"
        unfolding frames_ok_def ipt by auto
      have ne: "\<not> (b = a \<and> w = v)" using b(1,4) s(1) nv by auto
      let ?s0 = "if b = a then ?s else s0"
      have "spaces nvm b = Some ?s0" "w < numPages ?s0" "pages ?s0 ! w = pages s0 ! w" "resident nvm b w q"
        using b ne s(1) False by (auto simp: sp res)
      then show ?thesis using b(4,5) by metis
    qed
  qed simp
  moreover have "pages_ok {} nvm"
    unfolding pages_ok_def
  proof (intro allI impI)
    fix a' s' v' assume a: "spaces nvm a' = Some s'" "v' < numPages s'" "valid (entry (pages s' ! v'))"
    show "\<exists>q. q \<notin> {} \<and> resident nvm a' v' q \<and> physicalPage (entry (pages s' ! v')) = of_nat q"
    proof (cases "a' = a \<and> v' = v")
      case True
      then show ?thesis using a(1) pa s(2) by (intro exI [of _ p]) (auto simp: sp)
    next
      case False
      from old [OF a(1,2) False] i(3) a(3) obtain q where
        "q \<noteq> p" "resident vm a' v' q" "physicalPage (entry (pages s' ! v')) = of_nat q"
        unfolding pages_ok_def by (metis insertCI)
      then show ?thesis by (intro exI [of _ q]) (simp add: res)
    qed
  qed
  moreover have "swap_ok nvm"
    unfolding swap_ok_def
  proof (intro allI impI)
    fix a' s' v' assume a: "spaces nvm a' = Some s'" "v' < numPages s'" "location (pages s' ! v') = 0"
    show "0 \<le> swapLocation (pages s' ! v') \<and> nat (swapLocation (pages s' ! v')) \<in> marked (swapMap nvm)"
    proof (cases "a' = a \<and> v' = v")
      case True
      then have "pages s' ! v' = ?pg'" using a(1) s(2) by (auto simp: sp)
      then show ?thesis using a(3) i(4) s(1) v(1) unfolding swap_ok_def fld(4) by auto
    next
      case False
      from old [OF a(1,2) False] i(4) a(3) show ?thesis unfolding swap_ok_def fld(4) by metis
    qed
  qed
  moreover have "tlb_ok {} nvm"
  proof -
    have keep: "\<exists>v q. q \<notin> {} \<and> resident nvm (curSpace nvm) v q \<and> e = (ientry (IPT nvm ! q))\<lparr>use := use e, dirty := dirty e\<rparr>"
      if "\<exists>v q. q \<notin> {p} \<and> resident vm (curSpace vm) v q \<and> e = (ientry (IPT vm ! q))\<lparr>use := use e, dirty := dirty e\<rparr>" for e
      using that fld(8) by (auto simp: res ipt)
    with i(5) show ?thesis unfolding tlb_ok_def fld(9) by metis
  qed
  ultimately have "vm_inv nvm" by (simp add: vm_inv_def vm_inv_ex_def)
  then show ?thesis using run bs pa ipt cur fld by (intro exI [of _ bs] exI [of _ nvm]) simp
qed

section \<open>Loading the TLB\<close>

lemma updateTLB_ok:
  assumes inv: "vm_inv vm" and r: "resident vm (curSpace vm) v p" and t: "tlb (mach vm) = Some t"
  shows "\<exists>vm' I'. updateTLB p vm = Inr vm' \<and> vm_inv vm' \<and> vm' = (put_tlb (t[currentTLB vm := ientry (I' ! p)]) vm)
       \<lparr>IPT := I', currentTLB := (currentTLB vm + 1) mod 4\<rparr> \<and>
     I' = (if dirty (t ! currentTLB vm) then (IPT vm)[unat (physicalPage (t ! currentTLB vm)) :=
        set_dirty True (IPT vm ! unat (physicalPage (t ! currentTLB vm)))] else IPT vm)"
proof -
  have i: "shape_ok vm" "frames_ok {} vm" "pages_ok {} vm" "swap_ok vm" "tlb_ok {} vm"
    using inv by (simp_all add: vm_inv_def vm_inv_ex_def)
  note sh = shapeD [OF i(1)]
  let ?k = "currentTLB vm" and ?old = "t ! currentTLB vm"
  let ?q = "unat (physicalPage ?old)"
  let ?I = "if dirty ?old then (IPT vm)[?q := set_dirty True (IPT vm ! ?q)] else IPT vm"
  let ?vm = "(put_tlb (t[?k := ientry (?I ! p)]) vm)\<lparr>IPT := ?I, currentTLB := (?k + 1) mod 4\<rparr>"
  have T: "length t = 4" "\<forall>e \<in> set t. dirty e \<longrightarrow> unat (physicalPage e) < 256"
    "\<forall>e \<in> set t. valid e \<longrightarrow> (\<exists>v q. resident vm (curSpace vm) v q \<and>
       e = (ientry (IPT vm ! q))\<lparr>use := use e, dirty := dirty e\<rparr>)"
    using i(5) t by (auto simp: tlb_ok_def)
  have k: "?k < length t" using sh(2) T(1) by simp
  have q: "dirty ?old \<Longrightarrow> ?q < 256" using T(2) k by simp
  have p: "p < 256" using r by (simp add: resident_def)
  have run: "updateTLB p vm = Inr ?vm"
    using t k q p sh(1) by (cases "dirty ?old")
      (simp_all add: updateTLB_def get_tlb_def upd_IPT_def get_IPT_def set_dirty_def put_tlb_def Let_def)
  have ipt: "\<exists>b. ?I ! x = set_dirty b (IPT vm ! x)" for x
    by (cases "dirty ?old"; cases "x = ?q") (auto simp: nth_list_update sh(1) q intro: exI [of _ "dirty (ientry (IPT vm ! x))"])
  have fld: "owner (?I ! x) = owner (IPT vm ! x)" "valid (ientry (?I ! x)) = valid (ientry (IPT vm ! x))"
    "virtualPage (ientry (?I ! x)) = virtualPage (ientry (IPT vm ! x))"
    "physicalPage (ientry (?I ! x)) = physicalPage (ientry (IPT vm ! x))"
    "readOnly (ientry (?I ! x)) = readOnly (ientry (IPT vm ! x))" for x
    using ipt [of x] by auto
  have res: "resident ?vm = resident vm" unfolding resident_def fun_eq_iff using fld by simp
  have "shape_ok ?vm" using i(1) by (simp add: shape_ok_def)
  moreover have "frames_ok {} ?vm" using i(2) fld unfolding frames_ok_def res by simp
  moreover have "pages_ok {} ?vm" using i(3) unfolding pages_ok_def res by simp
  moreover have "swap_ok ?vm" using i(4) by (simp add: swap_ok_def)
  moreover have "tlb_ok {} ?vm"
  proof -
    have ph: "physicalPage (ientry (?I ! p)) = of_nat p"
      using i(2) r fld unfolding frames_ok_def resident_def by auto
    have new: "\<exists>v q. q \<notin> {} \<and> resident ?vm (curSpace ?vm) v q \<and>
        e = (ientry (IPT ?vm ! q))\<lparr>use := use e, dirty := dirty e\<rparr>"
      if "e \<in> set (t[?k := ientry (?I ! p)])" "valid e" for e
    proof (cases "e = ientry (?I ! p)")
      case True
      then show ?thesis using r unfolding res by (intro exI [of _ v] exI [of _ p]) simp
    next
      case False
      then have "e \<in> set t" using that(1) set_update_subset_insert [of t ?k "ientry (?I ! p)"] by blast
      with T(3) that(2) obtain v' q' where vq: "resident vm (curSpace vm) v' q'"
        "e = (ientry (IPT vm ! q'))\<lparr>use := use e, dirty := dirty e\<rparr>" by blast
      from ipt [of q'] obtain b where "?I ! q' = set_dirty b (IPT vm ! q')" by blast
      then have "e = (ientry (?I ! q'))\<lparr>use := use e, dirty := dirty e\<rparr>"
        using vq(2) by (simp add: set_dirty_def)
      then show ?thesis using vq(1) unfolding res by (intro exI [of _ v'] exI [of _ q']) simp
    qed
    moreover have "unat (physicalPage e) < 256" if "e \<in> set (t[?k := ientry (?I ! p)])" "dirty e" for e
      using that set_update_subset_insert [of t ?k "ientry (?I ! p)"] T(2) ph frame_number [OF p] p by auto
    ultimately show ?thesis unfolding tlb_ok_def using T(1) by simp
  qed
  ultimately have "vm_inv ?vm" by (simp add: vm_inv_def vm_inv_ex_def)
  then show ?thesis using run by blast
qed

section \<open>Contents of pages\<close>

text \<open>
  \<open>page_bytes vm a v\<close> is what page \<open>v\<close> of address space \<open>a\<close> contains: its frame when it is resident,
  otherwise what will be loaded, zeros after the end of the file included.
\<close>

definition pad :: "8 word list \<Rightarrow> 8 word list" where
  "pad bs = map (\<lambda>i. if i < length bs then bs ! i else 0) [0..<PageSize]"

definition src_bytes :: "AddrSpace \<Rightarrow> PageTableEntry \<Rightarrow> VM \<Rightarrow> 8 word list" where
  "src_bytes s pg vm = (case page_source s pg vm of Inr bs \<Rightarrow> pad bs | Inl _ \<Rightarrow> [])"

definition page_bytes :: "VM \<Rightarrow> nat \<Rightarrow> nat \<Rightarrow> 8 word list option" where
  "page_bytes vm a v =
     (case spaces vm a of
        None \<Rightarrow> None
      | Some s \<Rightarrow>
          if v < numPages s
          then Some (if valid (entry (pages s ! v))
                     then frame_bytes (unat (physicalPage (entry (pages s ! v)))) vm
                     else src_bytes s (pages s ! v) vm)
          else None)"

text \<open>Every frame that differs from where its page would be loaded from is flagged for writing back.\<close>

definition dirty_ok :: "VM \<Rightarrow> bool" where
  "dirty_ok vm \<longleftrightarrow>
     (\<forall>a s v p t. spaces vm a = Some s \<longrightarrow> v < numPages s \<longrightarrow> resident vm a v p \<longrightarrow> tlb (mach vm) = Some t \<longrightarrow>
        \<not> flushed_dirty p t (dirty (ientry (IPT vm ! p))) \<longrightarrow> frame_bytes p vm = src_bytes s (pages s ! v) vm)"

lemma frame_bytes_cong: "mainMemory (mach vm') = mainMemory (mach vm) \<Longrightarrow> frame_bytes p vm' = frame_bytes p vm"
  by (simp add: frame_bytes_def)

lemma length_frame_bytes [simp]: "length (frame_bytes p vm) = PageSize"
  by (simp add: frame_bytes_def)

lemma pad_full: "length bs = PageSize \<Longrightarrow> pad bs = bs"
  by (auto simp: pad_def intro!: nth_equalityI)

lemma frame_bytes_load:
  assumes "length bs \<le> PageSize"
  shows "frame_bytes q (load_frame p bs vm) = (if q = p then pad bs else frame_bytes q vm)"
  by (auto simp: frame_bytes_def load_frame_def pad_def)

lemma page_source_length: "page_source s pg vm = Inr bs \<Longrightarrow> length bs \<le> PageSize"
  by (auto simp: page_source_def uReadAt_def split: if_splits)

lemma length_uWriteAt: "length (uWriteAt f bs pos) = max (length f) (pos + length bs)"
  by (auto simp: uWriteAt_def max_def)

lemma nth_uWriteAt:
  assumes "i < length (uWriteAt f bs pos)"
  shows "uWriteAt f bs pos ! i =
    (if pos \<le> i \<and> i < pos + length bs then bs ! (i - pos) else if i < length f then f ! i else 0)"
proof -
  have l: "length (take pos (f @ replicate (pos - length f) 0)) = pos" by simp
  have N: "uWriteAt f bs pos ! i = (if i < pos then take pos (f @ replicate (pos - length f) 0) ! i
      else if i - pos < length bs then bs ! (i - pos) else drop (pos + length bs) f ! (i - pos - length bs))"
    by (simp only: uWriteAt_def nth_append l)
  consider "i < pos" | "pos \<le> i" "i < pos + length bs" | "pos + length bs \<le> i" by linarith
  then show ?thesis
  proof cases
    case 1
    then show ?thesis unfolding N by (auto simp: nth_append)
  next
    case 2
    then show ?thesis unfolding N by auto
  next
    case 3
    then have "i < length f" using assms by (simp add: length_uWriteAt)
    with 3 show ?thesis unfolding N by auto
  qed
qed

lemma read_swapped: "length bs = n \<Longrightarrow> uReadAt (uWriteAt f bs pos) n pos = bs"
  by (simp add: uReadAt_def uWriteAt_def)

lemma pad_read_other:
  assumes "k \<noteq> l" "length bs = 128"
  shows "pad (uReadAt (uWriteAt f bs (l * 128)) 128 (k * 128)) = pad (uReadAt f 128 (k * 128))"
proof (rule nth_equalityI)
  fix i assume "i < length (pad (uReadAt (uWriteAt f bs (l * 128)) 128 (k * 128)))"
  then have i: "i < 128" by (simp add: pad_def)
  let ?g = "uWriteAt f bs (l * 128)" and ?x = "k * 128 + i"
  have out: "\<not> (l * 128 \<le> ?x \<and> ?x < l * 128 + 128)"
    using assms(1) i by (cases "k < l") auto
  have g: "?x < length ?g \<Longrightarrow> ?g ! ?x = (if ?x < length f then f ! ?x else 0)"
    using nth_uWriteAt [of ?x f bs "l * 128"] out assms(2) by auto
  have "?x < length f \<Longrightarrow> ?x < length ?g" by (simp add: length_uWriteAt)
  then show "pad (uReadAt ?g 128 (k * 128)) ! i = pad (uReadAt f 128 (k * 128)) ! i"
    using i g by (auto simp: pad_def uReadAt_def)
qed (simp add: pad_def)

section \<open>Memory full\<close>

lemma HandleMemoryFull_ok:
  assumes inv: "vm_inv vm" and full: "marked (frameMap vm) = {..<256}"
    and room: "marked (swapMap vm) \<noteq> {..<4096} \<or> HandleMemoryFull rnd vm \<noteq> Inl Halted"
  shows "\<exists>p vm'. HandleMemoryFull rnd vm = Inr (p, vm') \<and> p < 256 \<and> vm_inv_ex {p} vm' \<and> curSpace vm' = curSpace vm \<and>
     registers (mach vm') = registers (mach vm) \<and>
     (\<forall>a. map_option numPages (spaces vm' a) = map_option numPages (spaces vm a)) \<and>
     (\<forall>a s' v. spaces vm' a = Some s' \<and> v < numPages s' \<and> valid (entry (pages s' ! v)) \<longrightarrow>
        (\<exists>s. spaces vm a = Some s \<and> valid (entry (pages s ! v)))) \<and>
     (dirty_ok vm \<longrightarrow> page_bytes vm' = page_bytes vm)"
proof -
  have i: "shape_ok vm" "frames_ok {} vm" "pages_ok {} vm" "swap_ok vm" "tlb_ok {} vm"
    using inv by (simp_all add: vm_inv_def vm_inv_ex_def)
  note sh = shapeD [OF i(1)]
  from i(5) obtain t where t: "tlb (mach vm) = Some t" "length t = 4" by (auto simp: tlb_ok_def)
  obtain p vm0 where v: "victim rnd vm = (p, vm0)" by fastforce
  have vm0: "IPT vm0 = IPT vm" "mach vm0 = mach vm" "spaces vm0 = spaces vm" "frameMap vm0 = frameMap vm"
    "swapMap vm0 = swapMap vm" "swapFile vm0 = swapFile vm" "currentTLB vm0 = currentTLB vm"
    "curSpace vm0 = curSpace vm" "PRand vm0 = PRand vm" "currentIPT vm0 < 256" and p: "p < 256"
    using v sh(3) by (auto simp: victim_def split: if_splits)
  have "valid (ientry (IPT vm ! p))" using i(2) full p by (simp add: frames_ok_def)
  with i(2) p obtain b s w where b: "spaces vm b = Some s" "w < numPages s" "resident vm b w p"
    "valid (entry (pages s ! w))" "physicalPage (entry (pages s ! w)) = of_nat p"
    unfolding frames_ok_def by blast
  have w: "w < length (pages s)" "w < 2 ^ 24" using b(1,2) sh(9) by fastforce+
  define dd where "dd = flushed_dirty p t (dirty (ientry (IPT vm ! p)))"
  let ?vm1 = "(put_tlb (map (drop_entry p) t) vm0)\<lparr>IPT := (IPT vm)[p := set_dirty dd (IPT vm ! p)]\<rparr>"
  have fl: "flush_loop p [0..<4] vm0 = Inr ?vm1"
    using flush_all [of p vm0 t] p sh(1) t vm0 by (simp add: dd_def)
  let ?e = "set_dirty dd (IPT vm ! p)"
  have e: "get_IPT p ?vm1 = Inr ?e" using p sh(1) by (simp add: get_IPT_def)
  have ow: "frame_owner ?e = Inr b" "unat (virtualPage (ientry ?e)) = w"
    using b(3) of_nat_small [OF w(2)] by (simp_all add: frame_owner_def resident_def)
  let ?pg = "pages s ! w"
  have phys: "unat (physicalPage (entry ?pg)) = p" using b(5) frame_number [OF p] by simp
  have other: "unat (physicalPage (entry (pages s' ! v))) \<noteq> p"
    if "spaces vm a = Some s'" "v < numPages s'" "valid (entry (pages s' ! v))" "\<not> (a = b \<and> v = w)" for a s' v
  proof -
    from i(3) that(1-3) obtain q where q: "resident vm a v q" "physicalPage (entry (pages s' ! v)) = of_nat q"
      unfolding pages_ok_def by blast
    have "v < 2 ^ 24" using that(1,2) sh(9) by fastforce
    then have "q \<noteq> p" using resident_unique [OF q(1) _ _ w(2)] b(3) that(4) by blast
    then show ?thesis using q frame_number [of q] by (simp add: resident_def)
  qed
  show ?thesis
  proof (cases dd)
    case True
    have "HandleMemoryFull rnd vm = Inl Halted" if "marked (swapMap vm) = {..<4096}"
      using True fl e Find_full [OF sh(6)] that sh(7) by (simp add: HandleMemoryFull_def v vm0)
    with Find_free [OF sh(6)] room sh(7) obtain l sm where
      l: "BitMap_Find (swapMap vm) = Inr (int l, sm)" "l < 4096" "l \<notin> marked (swapMap vm)" "BitMap_inv sm"
        "numBits sm = 4096" "marked sm = insert l (marked (swapMap vm))" by auto
    let ?pg' = "?pg\<lparr>entry := (entry ?pg)\<lparr>valid := False\<rparr>, location := 0, swapLocation := int l\<rparr>"
    let ?s = "s\<lparr>pages := (pages s)[w := ?pg']\<rparr>"
    define vm' where "vm' = ?vm1\<lparr>swapMap := sm,
      swapFile := uWriteAt (swapFile vm) (frame_bytes p vm) (l * 128), spaces := (spaces vm)(b \<mapsto> ?s)\<rparr>"
    have fb: "frame_bytes p ?vm1 = frame_bytes p vm" by (simp add: frame_bytes_def vm0 put_tlb_def)
    have run: "HandleMemoryFull rnd vm = Inr (p, vm')"
      using True fl e ow l(1) b(1) w(1) fb
      by (simp add: HandleMemoryFull_def v vm0 swappedPage_def upd_page_ok vm'_def)
    have ev: "evict_to p b s w ?pg' t dd vm vm'"
      by (simp add: evict_to_def vm'_def vm0 put_tlb_def)
    have "swapMap vm' = sm" by (simp add: vm'_def)
    then have inv': "vm_inv_ex {p} vm'"
      using l sh(10) [OF b(1) w(1)] by (intro evict_inv [OF inv t(1) p b(3,1) w(1) ev]) auto
    have sp: "spaces vm' a = (if a = b then Some ?s else spaces vm a)" for a by (simp add: vm'_def)
    have "page_bytes vm' a v = page_bytes vm a v" if "dirty_ok vm" for a v
    proof -
      have src: "src_bytes s' pg vm' = src_bytes s' pg vm"
        if "location pg = 0 \<longrightarrow> 0 \<le> swapLocation pg \<and> nat (swapLocation pg) \<in> marked (swapMap vm)" for s' pg
      proof -
        have "location pg = 0 \<Longrightarrow> nat (swapLocation pg) \<noteq> l" using that l(3) by auto
        then show ?thesis using that pad_read_other [of "nat (swapLocation pg)" l "frame_bytes p vm" "swapFile vm"]
          by (auto simp: src_bytes_def page_source_def vm'_def)
      qed
      have mem: "frame_bytes q vm' = frame_bytes q vm" for q
        by (rule frame_bytes_cong) (simp add: vm'_def put_tlb_def vm0)
      have so: "spaces vm a = Some s' \<Longrightarrow> v < numPages s' \<Longrightarrow>
          src_bytes s' (pages s' ! v) vm' = src_bytes s' (pages s' ! v) vm" for s'
        using i(4) by (intro src) (simp add: swap_ok_def)
      show ?thesis
      proof (cases "a = b \<and> v = w")
        case True
        have "src_bytes ?s ?pg' vm' = frame_bytes p vm"
          using read_swapped [of "frame_bytes p vm" 128 "swapFile vm" "l * 128"] pad_full [of "frame_bytes p vm"]
          by (simp add: src_bytes_def page_source_def vm'_def)
        then show ?thesis using True b(1,2,4) w(1) phys by (simp add: page_bytes_def sp)
      next
        case False
        have se: "src_bytes ?s pg x = src_bytes s pg x" for pg x by (simp add: src_bytes_def page_source_def)
        show ?thesis
        proof (cases "a = b")
          case True
          then show ?thesis using False b(1) so [of s] mem se by (simp add: page_bytes_def sp)
        next
          case False
          then show ?thesis using so mem by (simp add: page_bytes_def sp split: option.split)
        qed
      qed
    qed
    then have "dirty_ok vm \<longrightarrow> page_bytes vm' = page_bytes vm" by (simp add: fun_eq_iff)
    moreover have "\<forall>a. map_option numPages (spaces vm' a) = map_option numPages (spaces vm a)" using b(1) by (simp add: sp)
    moreover have "registers (mach vm') = registers (mach vm)" "curSpace vm' = curSpace vm" using ev by (simp_all add: evict_to_def)
    moreover have "\<exists>s. spaces vm a = Some s \<and> valid (entry (pages s ! v))"
      if "spaces vm' a = Some s'" "v < numPages s'" "valid (entry (pages s' ! v))" for a s' v
      using that b(1,4) by (auto simp: sp split: if_splits) (metis b(4) nth_list_update_neq)
    ultimately show ?thesis using run p inv' by blast
  next
    case False
    let ?pg' = "?pg\<lparr>entry := (entry ?pg)\<lparr>valid := False\<rparr>\<rparr>"
    let ?s = "s\<lparr>pages := (pages s)[w := ?pg']\<rparr>"
    define vm' where "vm' = ?vm1\<lparr>spaces := (spaces vm)(b \<mapsto> ?s)\<rparr>"
    have run: "HandleMemoryFull rnd vm = Inr (p, vm')"
      using False fl e ow b(1) w(1) by (simp add: HandleMemoryFull_def v vm0 evictedPage_def upd_page_ok vm'_def)
    have ev: "evict_to p b s w ?pg' t dd vm vm'" by (simp add: evict_to_def vm'_def vm0 put_tlb_def)
    have sm: "swapMap vm' = swapMap vm" by (simp add: vm'_def vm0)
    have inv': "vm_inv_ex {p} vm'"
      using sh(6,7) sh(10) [OF b(1) w(1)] i(4) b(1,2) sm
      by (intro evict_inv [OF inv t(1) p b(3,1) w(1) ev]) (auto simp: swap_ok_def)
    have sp: "spaces vm' a = (if a = b then Some ?s else spaces vm a)" for a by (simp add: vm'_def)
    have "page_bytes vm' a v = page_bytes vm a v" if "dirty_ok vm" for a v
    proof -
      have src: "src_bytes s' pg vm' = src_bytes s' pg vm" "src_bytes ?s pg vm = src_bytes s pg vm"
        "src_bytes s ?pg' vm = src_bytes s ?pg vm" for s' pg
        by (simp_all add: src_bytes_def page_source_def vm'_def vm0)
      have mem: "frame_bytes q vm' = frame_bytes q vm" for q
        by (rule frame_bytes_cong) (simp add: vm'_def put_tlb_def vm0)
      have "frame_bytes p vm = src_bytes s ?pg vm"
        using that b(1-3) t(1) False unfolding dirty_ok_def dd_def by blast
      then show ?thesis using b(1,2,4) w(1) phys src mem
        by (cases "a = b"; cases "v = w") (simp_all add: page_bytes_def sp split: option.split)
    qed
    then have "dirty_ok vm \<longrightarrow> page_bytes vm' = page_bytes vm" by (simp add: fun_eq_iff)
    moreover have "\<forall>a. map_option numPages (spaces vm' a) = map_option numPages (spaces vm a)" using b(1) by (simp add: sp)
    moreover have "registers (mach vm') = registers (mach vm)" "curSpace vm' = curSpace vm" using ev by (simp_all add: evict_to_def)
    moreover have "\<exists>s. spaces vm a = Some s \<and> valid (entry (pages s ! v))"
      if "spaces vm' a = Some s'" "v < numPages s'" "valid (entry (pages s' ! v))" for a s' v
      using that b(1,4) by (auto simp: sp split: if_splits) (metis b(4) nth_list_update_neq)
    ultimately show ?thesis using run p inv' by blast
  qed
qed

section \<open>The page-fault handler\<close>

lemma IPTMiss_bytes:
  assumes inv: "vm_inv_ex {p} vm" and s: "spaces vm a = Some s" "v < length (pages s)"
    and nv: "\<not> valid (entry (pages s ! v))" and p: "p < 256"
    and bs: "page_source s (pages s ! v) vm = Inr bs"
    and vm': "spaces vm' = (spaces vm)(a \<mapsto> s\<lparr>pages := (pages s)[v := (pages s ! v)\<lparr>entry :=
        (entry (pages s ! v))\<lparr>valid := True, physicalPage := of_nat p\<rparr>\<rparr>]\<rparr>)"
      "mainMemory (mach vm') = mainMemory (mach (load_frame p bs vm))" "swapFile vm' = swapFile vm"
  shows "page_bytes vm' = page_bytes vm"
proof (intro ext)
  fix b w
  have i: "shape_ok vm" "pages_ok {p} vm" using inv by (simp_all add: vm_inv_ex_def)
  note sh = shapeD [OF i(1)]
  let ?pg = "(pages s ! v)\<lparr>entry := (entry (pages s ! v))\<lparr>valid := True, physicalPage := of_nat p\<rparr>\<rparr>"
  let ?s = "s\<lparr>pages := (pages s)[v := ?pg]\<rparr>"
  have fr: "frame_bytes q vm' = (if q = p then pad bs else frame_bytes q vm)" for q
    using frame_bytes_cong [OF vm'(2), of q] frame_bytes_load [OF page_source_length [OF bs]] by simp
  have src: "src_bytes s' pg vm' = src_bytes s' pg vm" for s' pg
    by (simp add: src_bytes_def page_source_def vm'(3))
  have se: "src_bytes ?s pg x = src_bytes s pg x" for pg x by (simp add: src_bytes_def page_source_def)
  have ne: "unat (physicalPage (entry (pages s' ! w))) \<noteq> p"
    if a: "spaces vm b = Some s'" "w < numPages s'" "valid (entry (pages s' ! w))" for s'
  proof -
    from i(2) a obtain q where q: "q \<noteq> p" "resident vm b w q" "physicalPage (entry (pages s' ! w)) = of_nat q"
      unfolding pages_ok_def by blast
    then show ?thesis using frame_number [of q] by (simp add: resident_def)
  qed
  show "page_bytes vm' b w = page_bytes vm b w"
  proof (cases "b = a \<and> w = v")
    case True
    have "src_bytes s (pages s ! v) vm = pad bs" using bs by (simp add: src_bytes_def)
    then show ?thesis using True s nv frame_number [OF p] by (simp add: page_bytes_def vm'(1) fr)
  next
    case other: False
    show ?thesis
    proof (cases "b = a")
      case True
      with other have wv: "w \<noteq> v" by simp
      then show ?thesis using True s(1) ne [of s] by (simp add: page_bytes_def vm'(1) fr src se)
    next
      case False
      then show ?thesis using ne by (simp add: page_bytes_def vm'(1) fr src split: option.split)
    qed
  qed
qed

text \<open>The contents of the pages depend on memory, the swap file and the page tables alone.\<close>

lemma page_bytes_cong:
  assumes "mainMemory (mach x) = mainMemory (mach y)" "swapFile x = swapFile y" "spaces x = spaces y"
  shows "page_bytes x = page_bytes y"
proof -
  have "frame_bytes q x = frame_bytes q y" for q by (simp add: frame_bytes_def assms)
  moreover have "src_bytes s pg x = src_bytes s pg y" for s pg by (simp add: src_bytes_def page_source_def assms)
  ultimately show ?thesis by (simp add: page_bytes_def assms fun_eq_iff split: option.split)
qed

text \<open>Where a page of the current space is, when the inverted page table knows it.\<close>

lemma ipt_match_resident:
  assumes "v < 2 ^ 24" "q < 256"
  shows "ipt_match a (int v) (IPT vm ! q) \<longleftrightarrow> resident vm a v q"
proof -
  have "sint w = int v \<longleftrightarrow> w = of_nat v" for w :: "32 word"
  proof
    assume "sint w = int v"
    then have "(of_int (sint w) :: 32 word) = of_int (int v)" by simp
    then show "w = of_nat v" by simp
  qed (simp add: sint_small [OF assms(1)])
  then show ?thesis using assms(2) by (auto simp: ipt_match_def resident_def)
qed

lemma fault_page:
  assumes "unat bad div 128 = v" "v < 2 ^ 24"
  shows "sint (bad :: 32 word) sdiv 128 = int v"
proof -
  have "unat bad div 128 < 16777216" using assms by simp
  then have "unat bad < 2147483648" by simp
  then have n: "uint bad < 2147483648" unfolding uint_nat by linarith
  have "- 2147483648 \<le> uint bad" using uint_nonnegative [of bad] by linarith
  then have "sint bad = uint bad"
    using n by (simp add: sint_uint signed_take_bit_int_eq_self_iff)
  moreover have "uint bad sdiv 128 = uint bad div 128" using uint_nonnegative [of bad] by (rule sdiv_nonneg) simp
  moreover have "int (unat bad div 128) = uint bad div 128" by (simp add: zdiv_int)
  ultimately show ?thesis using assms(1) by simp
qed

lemma HandleIPTMiss_ok:
  assumes inv: "vm_inv vm" and s: "spaces vm (curSpace vm) = Some s" "v < numPages s"
    and miss: "\<And>q. \<not> resident vm (curSpace vm) v q"
    and room: "marked (swapMap vm) \<noteq> {..<4096} \<or> HandleIPTMiss rnd (int v) vm \<noteq> Inl Halted"
  shows "\<exists>p vm'. HandleIPTMiss rnd (int v) vm = Inr (p, vm') \<and> vm_inv vm' \<and> resident vm' (curSpace vm) v p \<and>
     curSpace vm' = curSpace vm \<and> registers (mach vm') = registers (mach vm) \<and>
     (\<forall>a. map_option numPages (spaces vm' a) = map_option numPages (spaces vm a)) \<and>
     (dirty_ok vm \<longrightarrow> page_bytes vm' = page_bytes vm)"
proof -
  have i: "shape_ok vm" "pages_ok {} vm" using inv by (simp_all add: vm_inv_def vm_inv_ex_def)
  note sh = shapeD [OF i(1)]
  have nv: "\<not> valid (entry (pages s ! v))" using i(2) s miss unfolding pages_ok_def by blast
  have fin: "\<exists>vm'. bindR (IPTMiss (curSpace vm1) (int v) p vm1) (\<lambda>vm2. Inr (p, vm2)) = Inr (p, vm') \<and> vm_inv vm' \<and>
     resident vm' (curSpace vm) v p \<and> curSpace vm' = curSpace vm \<and> registers (mach vm') = registers (mach vm1) \<and>
     (\<forall>a. map_option numPages (spaces vm' a) = map_option numPages (spaces vm1 a)) \<and> page_bytes vm' = page_bytes vm1"
    if v1: "vm_inv_ex {p} vm1" "p < 256" "curSpace vm1 = curSpace vm" "spaces vm1 (curSpace vm) = Some s1"
      "v < numPages s1" "\<not> valid (entry (pages s1 ! v))" for p vm1 s1
  proof -
    have "v < length (pages s1)" using v1(1,4,5) shapeD(9) [of vm1] by (fastforce simp: vm_inv_ex_def)
    from IPTMiss_ok [OF v1(1,2,4) this v1(6,3)] obtain bs vm' where
      m: "page_source s1 (pages s1 ! v) vm1 = Inr bs" "IPTMiss (curSpace vm) (int v) p vm1 = Inr vm'" "vm_inv vm'"
        "resident vm' (curSpace vm) v p" "curSpace vm' = curSpace vm" "swapFile vm' = swapFile vm1"
        "registers (mach vm') = registers (mach vm1)"
        "mainMemory (mach vm') = mainMemory (mach (load_frame p bs vm1))"
        "spaces vm' = (spaces vm1)(curSpace vm \<mapsto> s1\<lparr>pages := (pages s1)[v := (pages s1 ! v)\<lparr>entry :=
          (entry (pages s1 ! v))\<lparr>valid := True, physicalPage := of_nat p\<rparr>\<rparr>]\<rparr>)" by blast
    have "page_bytes vm' = page_bytes vm1"
      by (rule IPTMiss_bytes [OF v1(1,4) \<open>v < length (pages s1)\<close> v1(6,2) m(1,9,8,6)])
    with m v1(3,4) show ?thesis by auto
  qed
  show ?thesis
  proof (cases "marked (frameMap vm) = {..<256}")
    case True
    have f: "BitMap_Find (frameMap vm) = Inr (-1, frameMap vm)" using Find_full [OF sh(4)] True sh(5) by simp
    have "vm\<lparr>frameMap := frameMap vm\<rparr> = vm" by simp
    have "HandleMemoryFull rnd vm = Inl Halted \<Longrightarrow> HandleIPTMiss rnd (int v) vm = Inl Halted"
      using f by (simp add: HandleIPTMiss_def)
    with room have "marked (swapMap vm) \<noteq> {..<4096} \<or> HandleMemoryFull rnd vm \<noteq> Inl Halted" by blast
    from HandleMemoryFull_ok [OF inv True this] obtain p vm1 where
      h: "HandleMemoryFull rnd vm = Inr (p, vm1)" "p < 256" "vm_inv_ex {p} vm1" "curSpace vm1 = curSpace vm"
        "registers (mach vm1) = registers (mach vm)"
        "\<forall>a. map_option numPages (spaces vm1 a) = map_option numPages (spaces vm a)"
        "\<forall>a s' v. spaces vm1 a = Some s' \<and> v < numPages s' \<and> valid (entry (pages s' ! v)) \<longrightarrow>
          (\<exists>s. spaces vm a = Some s \<and> valid (entry (pages s ! v)))"
        "dirty_ok vm \<longrightarrow> page_bytes vm1 = page_bytes vm" by blast
    have "map_option numPages (spaces vm1 (curSpace vm)) = Some (numPages s)" using h(6) s(1) by simp
    then obtain s1 where s1: "spaces vm1 (curSpace vm) = Some s1" "numPages s1 = numPages s" by auto
    have "\<not> valid (entry (pages s1 ! v))" using h(7) s1 s nv by (metis option.inject)
    from fin [OF h(3,2,4) s1(1) _ this] s1(2) s(2) obtain vm' where
      m: "bindR (IPTMiss (curSpace vm1) (int v) p vm1) (\<lambda>vm2. Inr (p, vm2)) = Inr (p, vm')" "vm_inv vm'"
        "resident vm' (curSpace vm) v p" "curSpace vm' = curSpace vm" "registers (mach vm') = registers (mach vm1)"
        "\<forall>a. map_option numPages (spaces vm' a) = map_option numPages (spaces vm1 a)" "page_bytes vm' = page_bytes vm1"
      by auto
    have "HandleIPTMiss rnd (int v) vm = Inr (p, vm')" using f h(1) m(1) by (simp add: HandleIPTMiss_def)
    with m h show ?thesis by metis
  next
    case False
    with Find_free [OF sh(4)] sh(5) obtain p bm where
      f: "BitMap_Find (frameMap vm) = Inr (int p, bm)" "p < 256" "p \<notin> marked (frameMap vm)" "BitMap_inv bm"
        "numBits bm = 256" "marked bm = insert p (marked (frameMap vm))" by auto
    note ex = take_free_frame [OF inv f(2-6)]
    have pb: "page_bytes (vm\<lparr>frameMap := bm\<rparr>) = page_bytes vm"
      by (rule page_bytes_cong) simp_all
    from fin [OF ex f(2), of s] s nv obtain vm' where
      m: "bindR (IPTMiss (curSpace (vm\<lparr>frameMap := bm\<rparr>)) (int v) p (vm\<lparr>frameMap := bm\<rparr>)) (\<lambda>vm2. Inr (p, vm2)) = Inr (p, vm')"
        "vm_inv vm'" "resident vm' (curSpace vm) v p" "curSpace vm' = curSpace vm"
        "registers (mach vm') = registers (mach vm)"
        "\<forall>a. map_option numPages (spaces vm' a) = map_option numPages (spaces vm a)"
        "page_bytes vm' = page_bytes (vm\<lparr>frameMap := bm\<rparr>)" by auto
    have "HandleIPTMiss rnd (int v) vm = Inr (p, vm')" using f(1) m(1) by (simp add: HandleIPTMiss_def)
    with m pb show ?thesis by metis
  qed
qed

text \<open>A page that the TLB maps is resident and writable, and it is the right frame.\<close>

lemma tlb_hit:
  assumes inv: "vm_inv vm" and e: "lookup_entry (mach vm) v = Some e"
  shows "\<exists>p. p < 256 \<and> resident vm (curSpace vm) v p \<and> physicalPage e = of_nat p \<and> \<not> readOnly e"
proof -
  have i: "shape_ok vm" "frames_ok {} vm" "tlb_ok {} vm" using inv by (simp_all add: vm_inv_def vm_inv_ex_def)
  from i(3) obtain t where t: "tlb (mach vm) = Some t" "\<forall>e \<in> set t. valid e \<longrightarrow>
      (\<exists>v q. resident vm (curSpace vm) v q \<and> e = (ientry (IPT vm ! q))\<lparr>use := use e, dirty := dirty e\<rparr>)"
    by (auto simp: tlb_ok_def)
  from e t(1) shapeD(8) [OF i(1)] have m: "e \<in> set t" "valid e" "unat (virtualPage e) = v"
    by (auto simp: lookup_entry_def find_Some_iff tlb_match_def in_set_conv_nth)
  from t(2) m(1,2) obtain w q where q: "resident vm (curSpace vm) w q"
    "e = (ientry (IPT vm ! q))\<lparr>use := use e, dirty := dirty e\<rparr>" by blast
  have fld: "physicalPage e = physicalPage (ientry (IPT vm ! q))" "readOnly e = readOnly (ientry (IPT vm ! q))"
    "virtualPage e = virtualPage (ientry (IPT vm ! q))" by (subst q(2), simp)+
  have "q < 256" "virtualPage (ientry (IPT vm ! q)) = of_nat v"
    using q(1) m(3) fld(3) by (auto simp: resident_def)
  moreover from q(1) i(2) have "physicalPage (ientry (IPT vm ! q)) = of_nat q" "\<not> readOnly (ientry (IPT vm ! q))"
    by (auto simp: resident_def frames_ok_def)
  ultimately show ?thesis using q(1) fld by (intro exI [of _ q]) (auto simp: resident_def)
qed

lemma HandlePageFault_ok:
  assumes inv: "vm_inv vm" and s: "spaces vm (curSpace vm) = Some s" "v < numPages s"
    and bad: "unat (registers (mach vm) BadVAddrReg) div PageSize = v"
    and room: "marked (swapMap vm) \<noteq> {..<4096} \<or> HandlePageFault rnd vm \<noteq> Inl Halted"
  shows "\<exists>vm' e. HandlePageFault rnd vm = Inr vm' \<and> vm_inv vm' \<and> curSpace vm' = curSpace vm \<and>
     registers (mach vm') = registers (mach vm) \<and> lookup_entry (mach vm') v = Some e \<and>
     (\<forall>a. map_option numPages (spaces vm' a) = map_option numPages (spaces vm a)) \<and>
     (dirty_ok vm \<longrightarrow> page_bytes vm' = page_bytes vm)"
proof -
  have i: "shape_ok vm" "frames_ok {} vm" using inv by (simp_all add: vm_inv_def vm_inv_ex_def)
  note sh = shapeD [OF i(1)]
  have v24: "v < 2 ^ 24" using s sh(9) by fastforce
  let ?cur = "curSpace vm"
  have vp: "sint (registers (mach vm) 39) sdiv 128 = int v" using fault_page [OF bad v24] .
  have vp': "sint (registers (mach vm) BadVAddrReg) sdiv int PageSize = int v" using vp by simp
  have rr: "ReadRegister (int BadVAddrReg) (mach vm) = Inr (registers (mach vm) BadVAddrReg)"
    by (simp add: ReadRegister_def)
  have stage: "\<exists>p vm1. (case find_index (ipt_match ?cur (int v)) (take 256 (IPT vm)) of
       Some i \<Rightarrow> Inr (unat (physicalPage (ientry (IPT vm ! i))), vm)
     | None \<Rightarrow> HandleIPTMiss rnd (int v) vm) = Inr (p, vm1) \<and> vm_inv vm1 \<and> resident vm1 ?cur v p \<and>
     curSpace vm1 = ?cur \<and> registers (mach vm1) = registers (mach vm) \<and>
     (\<forall>a. map_option numPages (spaces vm1 a) = map_option numPages (spaces vm a)) \<and>
     (dirty_ok vm \<longrightarrow> page_bytes vm1 = page_bytes vm)"
  proof (cases "find_index (ipt_match ?cur (int v)) (IPT vm)")
    case None
    then have "\<not> ipt_match ?cur (int v) (IPT vm ! q)" if "q < 256" for q
      using that sh(1) by (auto simp: find_index_None_iff)
    then have "\<not> resident vm ?cur v q" for q
      using ipt_match_resident [OF v24] by (cases "q < 256") (auto simp: resident_def)
    note miss = this
    have "HandleIPTMiss rnd (int v) vm = Inl Halted \<Longrightarrow> HandlePageFault rnd vm = Inl Halted"
      unfolding HandlePageFault_def rr bindR_simps vp' Let_def using None sh(1) by simp
    with room have "marked (swapMap vm) \<noteq> {..<4096} \<or> HandleIPTMiss rnd (int v) vm \<noteq> Inl Halted" by blast
    from HandleIPTMiss_ok [OF inv s miss this] None sh(1) show ?thesis by simp
  next
    case (Some q)
    then have q: "q < 256" "resident vm ?cur v q"
      using find_index_SomeD [OF Some] sh(1) ipt_match_resident [OF v24, of q] by auto
    then have "physicalPage (ientry (IPT vm ! q)) = of_nat q" using i(2) by (auto simp: resident_def frames_ok_def)
    then have "unat (physicalPage (ientry (IPT vm ! q))) = q" using frame_number [OF q(1)] by simp
    then show ?thesis using Some sh(1) inv q(2) by auto
  qed
  then obtain p vm1 where st: "(case find_index (ipt_match ?cur (int v)) (take 256 (IPT vm)) of
       Some i \<Rightarrow> Inr (unat (physicalPage (ientry (IPT vm ! i))), vm)
     | None \<Rightarrow> HandleIPTMiss rnd (int v) vm) = Inr (p, vm1)" "vm_inv vm1" "resident vm1 ?cur v p"
     "curSpace vm1 = ?cur" "registers (mach vm1) = registers (mach vm)"
     "\<forall>a. map_option numPages (spaces vm1 a) = map_option numPages (spaces vm a)"
     "dirty_ok vm \<longrightarrow> page_bytes vm1 = page_bytes vm" by blast
  from st(2) obtain t where t: "tlb (mach vm1) = Some t" "length t = 4"
    by (auto simp: vm_inv_def vm_inv_ex_def tlb_ok_def)
  have r1: "resident vm1 (curSpace vm1) v p" using st(3,4) by simp
  from updateTLB_ok [OF st(2) r1 t(1)] obtain vm' I' where
    u: "updateTLB p vm1 = Inr vm'" "vm_inv vm'"
      "vm' = (put_tlb (t[currentTLB vm1 := ientry (I' ! p)]) vm1)\<lparr>IPT := I', currentTLB := (currentTLB vm1 + 1) mod 4\<rparr>"
      "I' = (if dirty (t ! currentTLB vm1) then (IPT vm1)[unat (physicalPage (t ! currentTLB vm1)) :=
        set_dirty True (IPT vm1 ! unat (physicalPage (t ! currentTLB vm1)))] else IPT vm1)" by blast
  have k: "currentTLB vm1 < length t" using st(2) t(2) by (simp add: vm_inv_def vm_inv_ex_def shape_ok_def)
  have "virtualPage (ientry (I' ! p)) = of_nat v" "valid (ientry (I' ! p))"
    using st(3) unfolding u(4) resident_def
    by (cases "p = unat (physicalPage (t ! currentTLB vm1))"; cases "p < length (IPT vm1)"; simp add: list_update_beyond)+
  then have "tlb_match v (ientry (I' ! p))" using of_nat_small [OF v24] by (simp add: tlb_match_def)
  moreover have "ientry (I' ! p) \<in> set (t[currentTLB vm1 := ientry (I' ! p)])" using k by (rule set_update_memI)
  ultimately have "find (tlb_match v) (t[currentTLB vm1 := ientry (I' ! p)]) \<noteq> None"
    by (auto simp: find_None_iff)
  moreover have "pageTable (mach vm') = None" using u(2) by (simp add: vm_inv_def vm_inv_ex_def shape_ok_def)
  ultimately have "\<exists>e. lookup_entry (mach vm') v = Some e" using u(3) by (auto simp: lookup_entry_def)
  moreover have "HandlePageFault rnd vm = Inr vm'"
    unfolding HandlePageFault_def rr bindR_simps vp' Let_def st(1) using u(1) by simp
  moreover have "page_bytes vm' = page_bytes vm1"
    by (rule page_bytes_cong) (simp_all add: u(3) put_tlb_def)
  moreover have "curSpace vm' = ?cur" "registers (mach vm') = registers (mach vm)" "spaces vm' = spaces vm1"
    using u(3) st(4,5) by simp_all
  ultimately show ?thesis using u(2) st(6,7) by metis
qed

end
