(* ===== verification/VM_Reach.thy ===== *)
theory VM_Reach
  imports VM_Props
begin

text \<open>
  Runs of the paged machine. A step is one thing the kernel or a user program does to memory: a
  program is loaded, a load or a store hits the TLB, registers change, a page fault is handled, the
  processor is switched to another address space, a thread is forked, a thread or a process exits. Every state reached from the
  boot of the machine satisfies \<open>vm_inv\<close>; what that gives a user program is stated at the end.
\<close>

section \<open>The invariant and the machine\<close>

lemma resident_cong: "IPT vm' = IPT vm \<Longrightarrow> resident vm' = resident vm"
  by (simp add: resident_def fun_eq_iff)

text \<open>Of the machine, only the TLB and the absence of a page table matter.\<close>

lemma vm_inv_mach:
  assumes "vm_inv vm" "tlb m = tlb (mach vm)" "pageTable m = pageTable (mach vm)"
  shows "vm_inv (vm\<lparr>mach := m\<rparr>)"
proof -
  have "resident (vm\<lparr>mach := m\<rparr>) = resident vm" by (rule resident_cong) simp
  then show ?thesis using assms
    by (simp add: vm_inv_def vm_inv_ex_def shape_ok_def frames_ok_def pages_ok_def swap_ok_def tlb_ok_def)
qed

text \<open>A TLB whose entries are all invalid suits any current address space.\<close>

lemma vm_inv_new_tlb:
  assumes "shape_ok vm" "frames_ok {} vm" "pages_ok {} vm" "swap_ok vm"
    and m: "tlb m = Some t" "length t = 4" "pageTable m = None"
    and t: "\<And>e. e \<in> set t \<Longrightarrow> dirty e \<Longrightarrow> unat (physicalPage e) < 256"
      "\<And>e. e \<in> set t \<Longrightarrow> valid e \<Longrightarrow> \<exists>v p. resident vm a v p \<and> e = (ientry (IPT vm ! p))\<lparr>use := use e, dirty := dirty e\<rparr>"
  shows "vm_inv (vm\<lparr>curSpace := a, mach := m\<rparr>)"
proof -
  have "resident (vm\<lparr>curSpace := a, mach := m\<rparr>) = resident vm" by (rule resident_cong) simp
  then show ?thesis using assms
    by (simp add: vm_inv_def vm_inv_ex_def shape_ok_def frames_ok_def pages_ok_def swap_ok_def tlb_ok_def)
qed

lemma vm_invD:
  "vm_inv vm \<Longrightarrow> shape_ok vm" "vm_inv vm \<Longrightarrow> frames_ok {} vm" "vm_inv vm \<Longrightarrow> pages_ok {} vm"
  "vm_inv vm \<Longrightarrow> swap_ok vm" "vm_inv vm \<Longrightarrow> tlb_ok {} vm"
  by (simp_all add: vm_inv_def vm_inv_ex_def)

section \<open>Boot and new address spaces\<close>

lemma boot_ok:
  assumes "8 \<le> length jf" "128 \<le> length js" "length garbage = 4" "\<forall>e \<in> set garbage. \<not> dirty e"
  shows "\<exists>vm. init_VM jf js junk prand (new_Machine True garbage now big st) = Inr vm \<and> vm_inv vm \<and>
     spaces vm = Map.empty \<and> marked (frameMap vm) = {} \<and> marked (swapMap vm) = {} \<and>
     mach vm = new_Machine True garbage now big st"
proof -
  from new_BitMap_ok [of 256 jf] assms(1) obtain fm where
    fm: "new_BitMap jf 256 = Inr fm" "BitMap_inv fm" "numBits fm = 256" "marked fm = {}"
    by (auto simp: divRoundUp_def)
  from new_BitMap_ok [of 4096 js] assms(2) obtain sm where
    sm: "new_BitMap js 4096 = Inr sm" "BitMap_inv sm" "numBits sm = 4096" "marked sm = {}"
    by (auto simp: divRoundUp_def)
  let ?m = "new_Machine True garbage now big st"
  let ?vm = "\<lparr>mach = ?m, spaces = Map.empty, IPT = init_IPT junk, frameMap = fm, swapMap = sm, swapFile = [],
            currentTLB = 0, currentIPT = 0, PRand = prand, curSpace = 0\<rparr>"
  have "init_VM jf js junk prand ?m = Inr ?vm" using fm sm by (simp add: init_VM_def)
  moreover have "vm_inv ?vm"
    using fm sm assms(3,4)
    by (auto simp: vm_inv_def vm_inv_ex_def shape_ok_def frames_ok_def pages_ok_def swap_ok_def tlb_ok_def
        init_IPT_def new_Machine_def)
  ultimately show ?thesis using fm(4) sm(4) by simp
qed

lemma new_AddrSpace_pages:
  assumes "new_AddrSpace big junk jp jw js file = Inr s"
  shows "numPages s = length (pages s)"
    "v < length (pages s) \<Longrightarrow> \<not> valid (entry (pages s ! v)) \<and> \<not> readOnly (entry (pages s ! v)) \<and> location (pages s ! v) = 1"
  using assms by (auto simp: new_AddrSpace_def bindR_eq_Inr_iff Let_def fresh_page_def split: if_splits)

lemma exec_inv:
  assumes inv: "vm_inv vm" and new: "new_AddrSpace big junk jp jw js file = Inr s" "spaces vm a = None" "numPages s < 2 ^ 24"
  shows "vm_inv (put_space a s vm)"
proof -
  note np = new_AddrSpace_pages [OF new(1)]
  let ?vm = "put_space a s vm"
  have res: "resident ?vm = resident vm" by (rule resident_cong) (simp add: put_space_def)
  have sp: "spaces ?vm b = (if b = a then Some s else spaces vm b)" for b by (simp add: put_space_def)
  have rest: "IPT ?vm = IPT vm" "frameMap ?vm = frameMap vm" "swapMap ?vm = swapMap vm" "mach ?vm = mach vm"
    "currentTLB ?vm = currentTLB vm" "currentIPT ?vm = currentIPT vm" "curSpace ?vm = curSpace vm"
    by (simp_all add: put_space_def)
  have "space_wf s" using np new(3) by (simp add: space_wf_def list_all_length)
  then have "shape_ok ?vm" using vm_invD(1) [OF inv] by (simp add: shape_ok_def sp rest)
  moreover have "frames_ok {} ?vm"
    unfolding frames_ok_def res rest
  proof (intro conjI allI impI)
    fix p assume p: "p < NumPhysPages" "p \<notin> {}"
    note f = vm_invD(2) [OF inv, unfolded frames_ok_def, THEN conjunct2, rule_format, OF p]
    show "valid (ientry (IPT vm ! p)) \<longleftrightarrow> p \<in> marked (frameMap vm)" by (rule f [THEN conjunct1])
    assume "valid (ientry (IPT vm ! p))"
    note g = f [THEN conjunct2, rule_format, OF this]
    show "physicalPage (ientry (IPT vm ! p)) = of_nat p" "\<not> readOnly (ientry (IPT vm ! p))" using g by simp_all
    from g obtain b s' v where "spaces vm b = Some s'" "v < numPages s'" "resident vm b v p"
      "valid (entry (pages s' ! v))" "physicalPage (entry (pages s' ! v)) = of_nat p" by blast
    moreover from this(1) new(2) have "spaces ?vm b = Some s'" unfolding sp by auto
    ultimately show "\<exists>b s' v. spaces ?vm b = Some s' \<and> v < numPages s' \<and> resident vm b v p \<and>
      valid (entry (pages s' ! v)) \<and> physicalPage (entry (pages s' ! v)) = of_nat p" by blast
  qed simp
  moreover have "pages_ok {} ?vm" using vm_invD(3) [OF inv] np unfolding pages_ok_def res sp by (auto split: if_splits)
  moreover have "swap_ok ?vm" using vm_invD(4) [OF inv] np unfolding swap_ok_def rest sp by (auto split: if_splits)
  moreover have "tlb_ok {} ?vm" using vm_invD(5) [OF inv] unfolding tlb_ok_def res rest .
  ultimately show ?thesis by (simp add: vm_inv_def vm_inv_ex_def)
qed

section \<open>Switching address spaces\<close>

lemma SaveState_ok:
  assumes "tlb (mach vm) = Some t" "length t = 4"
  shows "SaveState vm = Inr (put_tlb (map (\<lambda>e. e\<lparr>valid := False\<rparr>) t) vm)"
  using assms by (simp add: SaveState_def get_tlb_def)

lemma switch_inv:
  assumes "shape_ok vm" "frames_ok {} vm" "pages_ok {} vm" "swap_ok vm"
    and t: "tlb (mach vm) = Some t" "length t = 4" "\<And>e. e \<in> set t \<Longrightarrow> dirty e \<Longrightarrow> unat (physicalPage e) < 256"
    and run: "SaveState vm = Inr vm1" "RestoreState a (vm1\<lparr>curSpace := a\<rparr>) = Inr vm2"
  shows "vm_inv vm2"
proof -
  let ?t = "map (\<lambda>e. e\<lparr>valid := False\<rparr>) t"
  have vm1: "vm1 = vm\<lparr>mach := (mach vm)\<lparr>tlb := Some ?t\<rparr>\<rparr>"
    using run(1) unfolding SaveState_ok [OF t(1,2)] by (simp add: put_tlb_def)
  from run(2) obtain s :: AddrSpace where
    "Inr (vm1\<lparr>curSpace := a, mach := (mach (vm1\<lparr>curSpace := a\<rparr>))\<lparr>pageTableSize := numPages s\<rparr>\<rparr>) = (Inr vm2 :: VM res)"
    unfolding RestoreState_def bindR_eq_Inr_iff by blast
  then have "vm2 = vm\<lparr>curSpace := a, mach := (mach vm)\<lparr>tlb := Some ?t, pageTableSize := numPages s\<rparr>\<rparr>"
    by (simp add: vm1)
  moreover have "pageTable (mach vm) = None" using assms(1) by (simp add: shape_ok_def)
  ultimately show ?thesis using t assms(1-4) by (auto intro!: vm_inv_new_tlb)
qed

section \<open>Loads and stores\<close>

lemma entry_same_iff:
  "(e :: TranslationEntry) = x\<lparr>use := use e, dirty := dirty e\<rparr> \<longleftrightarrow>
     virtualPage e = virtualPage x \<and> physicalPage e = physicalPage x \<and> valid e = valid x \<and> readOnly e = readOnly x"
  by (cases e; cases x) auto

lemma access_inv:
  assumes inv: "vm_inv vm" and tr: "Translate w sz writing (mach vm) = Inr (NoException, pa, m)"
  shows "vm_inv (vm\<lparr>mach := m\<rparr>)"
proof -
  note i = vm_invD [OF inv]
  from i(5) obtain t where t: "tlb (mach vm) = Some t" "length t = 4"
    "\<forall>e \<in> set t. dirty e \<longrightarrow> unat (physicalPage e) < 256"
    "\<forall>e \<in> set t. valid e \<longrightarrow> (\<exists>v p. resident vm (curSpace vm) v p \<and> e = (ientry (IPT vm ! p))\<lparr>use := use e, dirty := dirty e\<rparr>)"
    by (auto simp: tlb_ok_def)
  have pt: "pageTable (mach vm) = None" using i(1) by (simp add: shape_ok_def)
  from tr t(1) pt obtain k where k: "find_index (tlb_match (unat w div PageSize)) t = Some k"
    "\<not> NumPhysPages \<le> unat (physicalPage (t ! k))" "m = (mach vm)\<lparr>tlb := Some (t[k := touch writing (t ! k)])\<rparr>"
    by (auto simp: Translate_def translate_entry_def Let_def split: if_splits option.splits)
  have kv: "k < length t" "valid (t ! k)" using find_index_SomeD [OF k(1)] by (simp_all add: tlb_match_def)
  have "vm_inv (vm\<lparr>curSpace := curSpace vm, mach := m\<rparr>)"
  proof (rule vm_inv_new_tlb [OF i(1-4), of m "t[k := touch writing (t ! k)]"])
    fix e assume e: "e \<in> set (t[k := touch writing (t ! k)])"
    then consider "e \<in> set t" | "e = touch writing (t ! k)" using set_update_subset_insert by fastforce
    note cs = this
    show "unat (physicalPage e) < 256" if "dirty e"
      using cs by cases (use t(3) that k(2) in \<open>auto simp: touch_def Let_def\<close>)
    have e': "\<exists>v p. resident vm (curSpace vm) v p \<and> t ! k = (ientry (IPT vm ! p))\<lparr>use := use (t ! k), dirty := dirty (t ! k)\<rparr>"
      using t(4) kv by auto
    show "\<exists>v p. resident vm (curSpace vm) v p \<and> e = (ientry (IPT vm ! p))\<lparr>use := use e, dirty := dirty e\<rparr>" if "valid e"
      using cs
    proof cases
      case 1
      then show ?thesis using t(4) that by blast
    next
      case 2
      from e' obtain v p where v: "resident vm (curSpace vm) v p"
        "t ! k = (ientry (IPT vm ! p))\<lparr>use := use (t ! k), dirty := dirty (t ! k)\<rparr>" by blast
      then have "e = (ientry (IPT vm ! p))\<lparr>use := use e, dirty := dirty e\<rparr>"
        unfolding entry_same_iff 2 by (simp add: touch_def Let_def)
      then show ?thesis using v(1) by blast
    qed
  qed (use t pt k(3) in simp_all)
  then show ?thesis by simp
qed

section \<open>A process exits\<close>

text \<open>What of the invariant is left while the frames of a process are being freed: all but the TLB.\<close>

definition paging_ok :: "VM \<Rightarrow> bool" where
  "paging_ok vm \<longleftrightarrow> shape_ok vm \<and> frames_ok {} vm \<and> pages_ok {} vm \<and> swap_ok vm"

lemma paging_okD:
  "paging_ok vm \<Longrightarrow> shape_ok vm" "paging_ok vm \<Longrightarrow> frames_ok {} vm" "paging_ok vm \<Longrightarrow> pages_ok {} vm"
  "paging_ok vm \<Longrightarrow> swap_ok vm"
  by (simp_all add: paging_ok_def)

definition unmap_page :: "nat \<Rightarrow> AddrSpace \<Rightarrow> AddrSpace" where
  "unmap_page v s = s\<lparr>pages := (pages s)[v := (pages s ! v)\<lparr>entry := (entry (pages s ! v))\<lparr>valid := False\<rparr>\<rparr>]\<rparr>"

lemma unmap_page_simps [simp]:
  "numPages (unmap_page v s) = numPages s" "length (pages (unmap_page v s)) = length (pages s)"
  "v < length (pages s) \<Longrightarrow> valid (entry (pages (unmap_page v s) ! w)) \<longleftrightarrow> w \<noteq> v \<and> valid (entry (pages s ! w))"
  "v < length (pages s) \<Longrightarrow> physicalPage (entry (pages (unmap_page v s) ! w)) = physicalPage (entry (pages s ! w))"
  "v < length (pages s) \<Longrightarrow> readOnly (entry (pages (unmap_page v s) ! w)) = readOnly (entry (pages s ! w))"
  "v < length (pages s) \<Longrightarrow> location (pages (unmap_page v s) ! w) = location (pages s ! w)"
  "v < length (pages s) \<Longrightarrow> swapLocation (pages (unmap_page v s) ! w) = swapLocation (pages s ! w)"
  by (auto simp: unmap_page_def nth_list_update_if)

lemma unmap_page_wf: "space_wf s \<Longrightarrow> v < length (pages s) \<Longrightarrow> space_wf (unmap_page v s)"
  by (simp add: space_wf_def list_all_length)

lemma free_page_ok:
  assumes ok: "paging_ok vm" and s: "spaces vm a = Some s" "v < numPages s" "valid (entry (pages s ! v))"
  shows "\<exists>vm'. free_page a v vm = Inr vm' \<and> paging_ok vm' \<and> spaces vm' = (spaces vm)(a \<mapsto> unmap_page v s) \<and>
     tlb (mach vm') = tlb (mach vm)"
proof -
  note i = paging_okD [OF ok]
  note sh = shapeD [OF i(1)]
  have v: "v < length (pages s)" "v < 2 ^ 24" using sh(9) [OF s(1)] s(2) by auto
  from i(3) s obtain p where p: "resident vm a v p" "physicalPage (entry (pages s ! v)) = of_nat p"
    unfolding pages_ok_def by blast
  have p256: "p < 256" using p(1) by (simp add: resident_def)
  then have sp: "sint (physicalPage (entry (pages s ! v))) = int p" using sint_small [of p] p(2) by simp
  from Clear_ok [OF sh(4), of p] p256 sh(5) obtain bm where
    bm: "BitMap_Clear (frameMap vm) (int p) = Inr bm" "BitMap_inv bm" "numBits bm = 256"
      "marked bm = marked (frameMap vm) - {p}" by auto
  let ?I = "(IPT vm)[p := (IPT vm ! p)\<lparr>ientry := (ientry (IPT vm ! p))\<lparr>valid := False\<rparr>\<rparr>]"
  define vm' where "vm' = (load_frame p [] (vm\<lparr>frameMap := bm\<rparr>))\<lparr>IPT := ?I, spaces := (spaces vm)(a \<mapsto> unmap_page v s)\<rparr>"
  have run: "free_page a v vm = Inr vm'"
    using s(1) v(1) sp bm(1) p256 sh(1)
    by (simp add: free_page_def vm_access vm'_def unmap_page_def)
  have f: "IPT vm' = ?I" "spaces vm' b = (if b = a then Some (unmap_page v s) else spaces vm b)" "frameMap vm' = bm"
    "swapMap vm' = swapMap vm" "tlb (mach vm') = tlb (mach vm)" "pageTable (mach vm') = pageTable (mach vm)"
    "currentTLB vm' = currentTLB vm" "currentIPT vm' = currentIPT vm" for b
    by (simp_all add: vm'_def)
  have res: "resident vm' b w q \<longleftrightarrow> q \<noteq> p \<and> resident vm b w q" for b w q
    using p256 sh(1) by (auto simp: resident_def f(1) nth_list_update_if)
  have "shape_ok vm'"
    using i(1) bm sh(1) v(1) s(1) unfolding shape_ok_def f by (auto simp: unmap_page_wf)
  moreover have "frames_ok {} vm'"
    unfolding frames_ok_def
  proof (intro conjI allI impI)
    fix q assume q: "q < NumPhysPages" "q \<notin> {}"
    note g = i(2) [unfolded frames_ok_def, THEN conjunct2, rule_format, OF q]
    show "valid (ientry (IPT vm' ! q)) \<longleftrightarrow> q \<in> marked (frameMap vm')"
      using g p256 sh(1) by (auto simp: f(1,3) bm(4) nth_list_update_if)
    assume "valid (ientry (IPT vm' ! q))"
    then have qp: "q \<noteq> p" and vq: "valid (ientry (IPT vm ! q))"
      using p256 sh(1) by (auto simp: f(1) nth_list_update_if split: if_splits)
    note h = g [THEN conjunct2, rule_format, OF vq]
    show "physicalPage (ientry (IPT vm' ! q)) = of_nat q" "\<not> readOnly (ientry (IPT vm' ! q))"
      using h qp by (simp_all add: f(1))
    from h obtain b s' w where w: "spaces vm b = Some s'" "w < numPages s'" "resident vm b w q"
      "valid (entry (pages s' ! w))" "physicalPage (entry (pages s' ! w)) = of_nat q" by blast
    have "\<not> (b = a \<and> w = v)"
      using w(1,5) s(1) p(2) qp frame_number [of q] frame_number [of p] q(1) p256 by force
    then have "\<exists>s''. spaces vm' b = Some s'' \<and> w < numPages s'' \<and> valid (entry (pages s'' ! w)) \<and>
      physicalPage (entry (pages s'' ! w)) = of_nat q"
      using w s(1) v(1) by (cases "b = a") (auto simp: f(2))
    then show "\<exists>b s' w. spaces vm' b = Some s' \<and> w < numPages s' \<and> resident vm' b w q \<and>
      valid (entry (pages s' ! w)) \<and> physicalPage (entry (pages s' ! w)) = of_nat q"
      using w(3) qp res by blast
  qed simp
  moreover have "pages_ok {} vm'"
    unfolding pages_ok_def
  proof (intro allI impI)
    fix b s' w assume w: "spaces vm' b = Some s'" "w < numPages s'" "valid (entry (pages s' ! w))"
    then obtain s0 where s0: "spaces vm b = Some s0" "w < numPages s0" "valid (entry (pages s0 ! w))" "\<not> (b = a \<and> w = v)"
      "physicalPage (entry (pages s' ! w)) = physicalPage (entry (pages s0 ! w))"
      using s(1) v(1) by (cases "b = a") (auto simp: f(2))
    with i(3) obtain q where q: "resident vm b w q" "physicalPage (entry (pages s0 ! w)) = of_nat q"
      unfolding pages_ok_def by blast
    have "w < 2 ^ 24" using sh(9) [OF s0(1)] s0(2) by auto
    then have "q \<noteq> p" using resident_unique [OF q(1) _ _ v(2)] p(1) s0(4) by blast
    then show "\<exists>q. q \<notin> {} \<and> resident vm' b w q \<and> physicalPage (entry (pages s' ! w)) = of_nat q"
      using q s0(5) res by auto
  qed
  moreover have "swap_ok vm'" using i(4) s(1) v(1) unfolding swap_ok_def f by auto
  ultimately show ?thesis using run f(5) by (auto simp: paging_ok_def vm'_def)
qed

lemma clearMem_loop_ok:
  "paging_ok vm \<Longrightarrow> spaces vm a = Some s \<Longrightarrow> \<forall>v \<in> set vs. v < numPages s \<Longrightarrow>
     \<exists>vm' s'. clearMem_loop a vs vm = Inr vm' \<and> paging_ok vm' \<and> spaces vm' = (spaces vm)(a \<mapsto> s') \<and>
       tlb (mach vm') = tlb (mach vm) \<and> numPages s' = numPages s \<and>
       (\<forall>v < numPages s. valid (entry (pages s' ! v)) \<longrightarrow> v \<notin> set vs \<and> valid (entry (pages s ! v)))"
proof (induction vs arbitrary: vm s)
  case Nil
  then show ?case by (intro exI [of _ vm] exI [of _ s]) (simp add: map_upd_triv)
next
  case (Cons v vs)
  have v: "v < numPages s" "v < length (pages s)" using Cons.prems shapeD(9) [of vm a s] by (auto simp: paging_ok_def)
  note get = get_page_ok [OF Cons.prems(2) v(2)]
  show ?case
  proof (cases "valid (entry (pages s ! v))")
    case True
    from free_page_ok [OF Cons.prems(1,2) v(1) True] obtain vm1 where
      f: "free_page a v vm = Inr vm1" "paging_ok vm1" "spaces vm1 = (spaces vm)(a \<mapsto> unmap_page v s)"
        "tlb (mach vm1) = tlb (mach vm)" by blast
    have "spaces vm1 a = Some (unmap_page v s)" "\<forall>w \<in> set vs. w < numPages (unmap_page v s)"
      using f(3) Cons.prems(3) by simp_all
    from Cons.IH [OF f(2) this] obtain vm' s' where
      l: "clearMem_loop a vs vm1 = Inr vm'" "paging_ok vm'" "spaces vm' = (spaces vm1)(a \<mapsto> s')"
      "tlb (mach vm') = tlb (mach vm1)" "numPages s' = numPages s"
      "\<forall>w < numPages s. valid (entry (pages s' ! w)) \<longrightarrow> w \<notin> set vs \<and> valid (entry (pages (unmap_page v s) ! w))"
      unfolding unmap_page_simps by blast
    have "spaces vm' = (spaces vm)(a \<mapsto> s')" unfolding l(3) f(3) by simp
    then show ?thesis using f(1,4) get True l v(2) by (intro exI [of _ vm'] exI [of _ s']) auto
  next
    case False
    have "\<forall>w \<in> set vs. w < numPages s" using Cons.prems(3) by simp
    from Cons.IH [OF Cons.prems(1,2) this] obtain vm' s' where
      l: "clearMem_loop a vs vm = Inr vm'" "paging_ok vm'" "spaces vm' = (spaces vm)(a \<mapsto> s')"
      "tlb (mach vm') = tlb (mach vm)" "numPages s' = numPages s"
      "\<forall>w < numPages s. valid (entry (pages s' ! w)) \<longrightarrow> w \<notin> set vs \<and> valid (entry (pages s ! w))" by blast
    then show ?thesis using get False by (intro exI [of _ vm'] exI [of _ s']) auto
  qed
qed

text \<open>\<^verbatim>\<open>Exit_Syscall\<close> clears the memory of the last thread's process and deletes its address space.\<close>

definition exit_space :: "nat \<Rightarrow> VM \<Rightarrow> VM res" where
  "exit_space a vm = bindR (clearMem a vm) (\<lambda>vm1. Inr (vm1\<lparr>spaces := (spaces vm1)(a := None)\<rparr>))"

lemma exit_space_ok:
  assumes ok: "paging_ok vm" and s: "spaces vm a = Some s"
  shows "\<exists>vm'. exit_space a vm = Inr vm' \<and> paging_ok vm' \<and> spaces vm' = (spaces vm)(a := None) \<and>
     tlb (mach vm') = tlb (mach vm)"
proof -
  from clearMem_loop_ok [OF ok s, of "[0..<numPages s]"] obtain vm1 s' where
    c: "clearMem_loop a [0..<numPages s] vm = Inr vm1" "paging_ok vm1" "spaces vm1 = (spaces vm)(a \<mapsto> s')"
      "tlb (mach vm1) = tlb (mach vm)" "numPages s' = numPages s"
      "\<forall>v < numPages s. \<not> valid (entry (pages s' ! v))" by auto
  define vm' where "vm' = vm1\<lparr>spaces := (spaces vm)(a := None)\<rparr>"
  have run: "exit_space a vm = Inr vm'"
    using s c(1,3) by (simp add: exit_space_def clearMem_def get_space_def vm'_def)
  note i = paging_okD [OF c(2)]
  have res: "resident vm' = resident vm1" by (rule resident_cong) (simp add: vm'_def)
  have sp: "spaces vm' b = (if b = a then None else spaces vm1 b)" for b by (simp add: vm'_def c(3))
  have rest: "IPT vm' = IPT vm1" "frameMap vm' = frameMap vm1" "swapMap vm' = swapMap vm1" "mach vm' = mach vm1"
    "currentTLB vm' = currentTLB vm1" "currentIPT vm' = currentIPT vm1" by (simp_all add: vm'_def)
  have "shape_ok vm'" using i(1) unfolding shape_ok_def sp rest by auto
  moreover have "frames_ok {} vm'"
    unfolding frames_ok_def res rest
  proof (intro conjI allI impI)
    fix p assume p: "p < NumPhysPages" "p \<notin> {}"
    note f = i(2) [unfolded frames_ok_def, THEN conjunct2, rule_format, OF p]
    show "valid (ientry (IPT vm1 ! p)) \<longleftrightarrow> p \<in> marked (frameMap vm1)" by (rule f [THEN conjunct1])
    assume "valid (ientry (IPT vm1 ! p))"
    note g = f [THEN conjunct2, rule_format, OF this]
    show "physicalPage (ientry (IPT vm1 ! p)) = of_nat p" "\<not> readOnly (ientry (IPT vm1 ! p))" using g by simp_all
    from g obtain b s0 v where b: "spaces vm1 b = Some s0" "v < numPages s0" "resident vm1 b v p"
      "valid (entry (pages s0 ! v))" "physicalPage (entry (pages s0 ! v)) = of_nat p" by blast
    then have "b \<noteq> a" using c(3,5,6) by auto
    then show "\<exists>b s0 v. spaces vm' b = Some s0 \<and> v < numPages s0 \<and> resident vm1 b v p \<and>
      valid (entry (pages s0 ! v)) \<and> physicalPage (entry (pages s0 ! v)) = of_nat p" using b unfolding sp by auto
  qed simp
  moreover have "pages_ok {} vm'" using i(3) unfolding pages_ok_def res sp by (auto split: if_splits)
  moreover have "swap_ok vm'" using i(4) unfolding swap_ok_def rest sp by (auto split: if_splits)
  ultimately show ?thesis using run c(4) by (auto simp: paging_ok_def vm'_def)
qed

section \<open>Steps\<close>

text \<open>\<^verbatim>\<open>clearStack\<close> is right when the pages it frees are resident.\<close>

definition stack_resident :: "int \<Rightarrow> AddrSpace \<Rightarrow> bool" where
  "stack_resident stack s \<longleftrightarrow> (\<forall>v \<in> set [stack sdiv int PageSize - 7..stack sdiv int PageSize].
     0 \<le> v \<and> nat v < numPages s \<and> valid (entry (pages s ! nat v)))"

text \<open>
  The steps. Loads and stores are those that hit the TLB; one that misses is a \<open>fault\<close>, with the
  address in \<^verbatim>\<open>BadVAddrReg\<close>, and it is inside the address space: the handler does not check that, see
  \<open>wild_address_escapes\<close>. An address space has at most \<open>2 ^ 24\<close> pages, so that addresses are
  non-negative as \<^verbatim>\<open>int\<close>. A thread or process that exits runs no instruction between clearing its memory and
  the switch to another thread.

  Two routines damage the state when they are called at the wrong moment (\<open>clearStack_damages\<close>, \<open>allocateStack_forgets\<close>), and
  the steps are the runs in which they are not: \<^verbatim>\<open>Fork\<close> is called when no page of the process is in the swap file, and a thread
  that is not the last of its process exits when the eight pages of its stack are resident. Each routine is one step: no thread
  faults while another is inside \<^verbatim>\<open>clearMem\<close>, \<^verbatim>\<open>clearStack\<close> or \<^verbatim>\<open>allocateStack\<close>, so that the locks of the handler are free.
\<close>

inductive vm_step :: "VM \<Rightarrow> VM \<Rightarrow> bool" where
  exec: "new_AddrSpace big junk jp jw js file = Inr s \<Longrightarrow> spaces vm a = None \<Longrightarrow> numPages s < 2 ^ 24 \<Longrightarrow>
    vm_step vm (put_space a s vm)"
| load: "ReadMem h w sz (mach vm) = Inr (Some x, m) \<Longrightarrow> vm_step vm (vm\<lparr>mach := m\<rparr>)"
| store: "WriteMem h w sz x (mach vm) = Inr (True, m) \<Longrightarrow> vm_step vm (vm\<lparr>mach := m\<rparr>)"
| regs: "vm_step vm (vm\<lparr>mach := (mach vm)\<lparr>registers := r\<rparr>\<rparr>)"
| status: "vm_step vm (vm\<lparr>mach := (mach vm)\<lparr>machineStatus := st\<rparr>\<rparr>)"
| table: "spaces vm a = Some s \<Longrightarrow> vm_step vm (put_space a (s\<lparr>fileTable := t\<rparr>) vm)"
| fault: "spaces vm (curSpace vm) = Some s \<Longrightarrow> unat (registers (mach vm) BadVAddrReg) div PageSize < numPages s \<Longrightarrow>
    HandlePageFault rnd vm = Inr vm' \<Longrightarrow> vm_step vm vm'"
| switch: "SaveState vm = Inr vm1 \<Longrightarrow> RestoreState a (vm1\<lparr>curSpace := a\<rparr>) = Inr vm2 \<Longrightarrow> vm_step vm vm2"
| exit: "exit_space b vm = Inr vm1 \<Longrightarrow> SaveState vm1 = Inr vm2 \<Longrightarrow>
    RestoreState a (vm2\<lparr>curSpace := a\<rparr>) = Inr vm3 \<Longrightarrow> vm_step vm vm3"
| fork: "spaces vm a = Some s \<Longrightarrow> \<forall>pg \<in> set (pages s). location pg \<noteq> InSwapFile \<Longrightarrow> numPages s + StackPages < 2 ^ 24 \<Longrightarrow>
    allocateStack junk a vm = Inr vm' \<Longrightarrow> vm_step vm vm'"
| stack: "getNumPages a vm = Inr (n, vm') \<Longrightarrow> vm_step vm vm'"
| finish: "spaces vm b = Some s \<Longrightarrow> stack_resident stack s \<Longrightarrow> clearStack b stack vm = Inr vm1 \<Longrightarrow>
    SaveState vm1 = Inr vm2 \<Longrightarrow> RestoreState a (vm2\<lparr>curSpace := a\<rparr>) = Inr vm3 \<Longrightarrow> vm_step vm vm3"

text \<open>The state after boot; the TLB entries the machine starts with must not be marked dirty.\<close>

definition vm_boot :: "VM \<Rightarrow> bool" where
  "vm_boot vm \<longleftrightarrow> (\<exists>jf js junk prand garbage now big st.
     8 \<le> length jf \<and> 128 \<le> length js \<and> length garbage = TLBSize \<and> (\<forall>e \<in> set garbage. \<not> dirty e) \<and>
     init_VM jf js junk prand (new_Machine True garbage now big st) = Inr vm)"

lemma vm_bootI:
  "init_VM jf js junk prand (new_Machine True garbage now big st) = Inr vm \<Longrightarrow> 8 \<le> length jf \<Longrightarrow>
     128 \<le> length js \<Longrightarrow> length garbage = TLBSize \<Longrightarrow> \<forall>e \<in> set garbage. \<not> dirty e \<Longrightarrow> vm_boot vm"
  unfolding vm_boot_def by blast

inductive vm_reach :: "VM \<Rightarrow> bool" where
  boot: "vm_boot vm \<Longrightarrow> vm_reach vm"
| step: "vm_reach vm \<Longrightarrow> vm_step vm vm' \<Longrightarrow> vm_reach vm'"

lemma mem_access:
  "ReadMem h w sz m = Inr (Some x, m') \<Longrightarrow> \<exists>pa m1. Translate w sz False m = Inr (NoException, pa, m1) \<and>
     tlb m' = tlb m1 \<and> pageTable m' = pageTable m1"
  "WriteMem h w sz v m = Inr (True, m') \<Longrightarrow> \<exists>pa m1. Translate w sz True m = Inr (NoException, pa, m1) \<and>
     tlb m' = tlb m1 \<and> pageTable m' = pageTable m1"
  unfolding ReadMem_def WriteMem_def by (auto simp: bindR_eq_Inr_iff mark_used_def split: if_splits)

lemma exit_switch_inv:
  assumes ok: "paging_ok vm"
    and t: "tlb (mach vm) = Some t" "length t = 4" "\<And>e. e \<in> set t \<Longrightarrow> dirty e \<Longrightarrow> unat (physicalPage e) < 256"
    and run: "exit_space b vm = Inr vm1" "SaveState vm1 = Inr vm2" "RestoreState a (vm2\<lparr>curSpace := a\<rparr>) = Inr vm3"
  shows "vm_inv vm3"
proof -
  from run(1) obtain s where "spaces vm b = Some s"
    by (auto simp: exit_space_def clearMem_def bindR_eq_Inr_iff get_space_def split: option.splits)
  from exit_space_ok [OF ok this] run(1) have "paging_ok vm1" "tlb (mach vm1) = Some t" using t(1) by auto
  then show ?thesis using switch_inv [OF _ _ _ _ _ t(2,3) run(2,3)] by (auto simp: paging_ok_def)
qed

lemma vm_inv_put_space:
  assumes inv: "vm_inv vm" and s: "spaces vm a = Some s" and wf: "space_wf s'" and np: "numPages s \<le> numPages s'"
    and old: "\<And>v. v < numPages s \<Longrightarrow> entry (pages s' ! v) = entry (pages s ! v)"
    and new: "\<And>v. numPages s \<le> v \<Longrightarrow> v < numPages s' \<Longrightarrow> \<not> valid (entry (pages s' ! v))"
    and sw: "\<And>v. v < numPages s' \<Longrightarrow> location (pages s' ! v) = 0 \<Longrightarrow>
      v < numPages s \<and> location (pages s ! v) = 0 \<and> swapLocation (pages s' ! v) = swapLocation (pages s ! v)"
  shows "vm_inv (put_space a s' vm)"
proof -
  let ?vm = "put_space a s' vm"
  note i = vm_invD [OF inv]
  have r: "resident ?vm = resident vm" by (rule resident_cong) (simp add: put_space_def)
  have f: "IPT ?vm = IPT vm" "frameMap ?vm = frameMap vm" "swapMap ?vm = swapMap vm" "mach ?vm = mach vm" "curSpace ?vm = curSpace vm"
    "currentTLB ?vm = currentTLB vm" "currentIPT ?vm = currentIPT vm" by (simp_all add: put_space_def)
  have sp: "spaces ?vm b = (if b = a then Some s' else spaces vm b)" for b by (simp add: put_space_def)
  have bk: "\<exists>s0. spaces vm b = Some s0 \<and> w < numPages s0 \<and> entry (pages x ! w) = entry (pages s0 ! w)"
    if "spaces ?vm b = Some x" "w < numPages x" "valid (entry (pages x ! w))" for b x w
    using that s old [of w] new [of w] by (cases "w < numPages s") (auto simp: sp split: if_splits)
  have forth: "\<exists>x. spaces ?vm b = Some x \<and> w < numPages x \<and> entry (pages x ! w) = entry (pages s0 ! w)"
    if "spaces vm b = Some s0" "w < numPages s0" for b s0 w
    using that s old [of w] np by (auto simp: sp)
  have "shape_ok ?vm" using i(1) wf unfolding shape_ok_def f sp by auto
  moreover have "frames_ok {} ?vm" unfolding frames_ok_def f r
  proof (intro conjI allI impI)
    fix p assume p: "p < NumPhysPages" "p \<notin> {}"
    show "valid (ientry (IPT vm ! p)) \<longleftrightarrow> p \<in> marked (frameMap vm)" using i(2) p unfolding frames_ok_def by blast
    assume v: "valid (ientry (IPT vm ! p))"
    show "physicalPage (ientry (IPT vm ! p)) = of_nat p" "\<not> readOnly (ientry (IPT vm ! p))" using i(2) p v unfolding frames_ok_def by blast+
    from i(2) p v obtain b s0 w where "spaces vm b = Some s0" "w < numPages s0" "resident vm b w p" "valid (entry (pages s0 ! w))"
      "physicalPage (entry (pages s0 ! w)) = of_nat p" unfolding frames_ok_def by blast
    with forth show "\<exists>a s v. spaces ?vm a = Some s \<and> v < numPages s \<and> resident vm a v p \<and>
        valid (entry (pages s ! v)) \<and> physicalPage (entry (pages s ! v)) = of_nat p" by metis
  qed simp
  moreover have "pages_ok {} ?vm" unfolding pages_ok_def r
  proof (intro allI impI)
    fix b x w assume w: "spaces ?vm b = Some x" "w < numPages x" "valid (entry (pages x ! w))"
    from bk [OF this] obtain s0 where "spaces vm b = Some s0" "w < numPages s0" "entry (pages x ! w) = entry (pages s0 ! w)" by blast
    with i(3) w(3) show "\<exists>p. p \<notin> {} \<and> resident vm b w p \<and> physicalPage (entry (pages x ! w)) = of_nat p"
      unfolding pages_ok_def by metis
  qed
  moreover have "swap_ok ?vm" unfolding swap_ok_def f
  proof (intro allI impI)
    fix b x w assume "spaces ?vm b = Some x" "w < numPages x" "location (pages x ! w) = 0"
    then show "0 \<le> swapLocation (pages x ! w) \<and> nat (swapLocation (pages x ! w)) \<in> marked (swapMap vm)"
      using i(4) s sw [of w] unfolding swap_ok_def by (auto simp: sp split: if_splits)
  qed
  moreover have "tlb_ok {} ?vm" using i(5) unfolding tlb_ok_def f r .
  ultimately show ?thesis by (simp add: vm_inv_def vm_inv_ex_def)
qed

lemma vm_inv_same_pages:
  assumes inv: "vm_inv vm" and s: "spaces vm a = Some s" "pages s' = pages s" "numPages s' = numPages s"
  shows "vm_inv (put_space a s' vm)"
proof -
  have "space_wf s'" using vm_invD(1) [OF inv] s unfolding shape_ok_def space_wf_def by metis
  then show ?thesis using s by (intro vm_inv_put_space [OF inv s(1)]) simp_all
qed

text \<open>
  \<^verbatim>\<open>allocateStack\<close> keeps the invariant when no page of the process is in the swap file: the entry of such a page would lose
  its \<^verbatim>\<open>swapLocation\<close>.
\<close>

lemma allocateStack_inv:
  assumes inv: "vm_inv vm" and s: "spaces vm a = Some s" "\<forall>pg \<in> set (pages s). location pg \<noteq> InSwapFile"
    "numPages s + StackPages < 2 ^ 24" and run: "allocateStack junk a vm = Inr vm'"
  shows "vm_inv vm'"
proof -
  let ?n = "numPages s + 8"
  let ?pgs = "map (\<lambda>i. copy_page (junk i) (pages s ! i)) [0..<numPages s] @ map (\<lambda>i. fresh_page (junk i) i 2) [numPages s..<?n]"
  let ?s = "s\<lparr>numPages := ?n, numPageQueue := numPageQueue s @ [?n], pages := ?pgs\<rparr>"
  have n: "numPages s = length (pages s)" using shapeD(9) [OF vm_invD(1) [OF inv] s(1)] by simp
  have o: "?pgs ! v = copy_page (junk v) (pages s ! v)" if "v < numPages s" for v using that by (simp add: nth_append)
  have w: "?pgs ! v = fresh_page (junk v) v 2" if "numPages s \<le> v" "v < ?n" for v
    using that by (simp add: nth_append)
  have ro: "\<not> readOnly (entry (?pgs ! v))" if "v < ?n" for v
    using o [of v] w [of v] that shapeD(10) [OF vm_invD(1) [OF inv] s(1), of v] n
    by (cases "v < numPages s") (simp_all add: copy_page_def fresh_page_def)
  then have wf: "space_wf ?s" using s(3) by (simp add: space_wf_def list_all_length)
  have "vm_inv (put_space a ?s vm)"
  proof (rule vm_inv_put_space [OF inv s(1) wf])
    fix v assume v: "v < numPages ?s" "location (pages ?s ! v) = 0"
    have "v < numPages s"
    proof (rule ccontr)
      assume "\<not> v < numPages s"
      then show False using v w [of v] by (simp add: fresh_page_def)
    qed
    then show "v < numPages s \<and> location (pages s ! v) = 0 \<and> swapLocation (pages ?s ! v) = swapLocation (pages s ! v)"
      using v(2) o [of v] s(2) n by (simp add: copy_page_def)
  qed (use o w in \<open>simp_all add: copy_page_def fresh_page_def\<close>)
  moreover have "vm' = (put_space a ?s vm)\<lparr>mach := (mach vm)\<lparr>pageTableSize := ?n\<rparr>\<rparr>"
    using run s(1) n by (simp add: allocateStack_def get_space_def Let_def RestoreState_def put_space_def)
  ultimately show ?thesis using vm_inv_mach [of "put_space a ?s vm" "(mach vm)\<lparr>pageTableSize := ?n\<rparr>"]
    by (simp add: put_space_def)
qed

lemma clearStack_loop_ok:
  "paging_ok vm \<Longrightarrow> spaces vm a = Some s \<Longrightarrow> distinct vs \<Longrightarrow>
     \<forall>v \<in> set vs. 0 \<le> v \<and> nat v < numPages s \<and> valid (entry (pages s ! nat v)) \<Longrightarrow>
     \<exists>vm' s'. clearStack_loop a vs vm = Inr vm' \<and> paging_ok vm' \<and> spaces vm' = (spaces vm)(a \<mapsto> s') \<and>
       tlb (mach vm') = tlb (mach vm)"
proof (induction vs arbitrary: vm s)
  case Nil
  then show ?case by (intro exI [of _ vm] exI [of _ s]) (simp add: map_upd_triv)
next
  case (Cons v vs)
  have v: "0 \<le> v" "nat v < numPages s" "valid (entry (pages s ! nat v))" "nat v < length (pages s)"
    using Cons.prems shapeD(9) [of vm a s] by (auto simp: paging_ok_def)
  from free_page_ok [OF Cons.prems(1,2) v(2,3)] obtain vm1 where
    f: "free_page a (nat v) vm = Inr vm1" "paging_ok vm1" "spaces vm1 = (spaces vm)(a \<mapsto> unmap_page (nat v) s)"
      "tlb (mach vm1) = tlb (mach vm)" by blast
  have "spaces vm1 a = Some (unmap_page (nat v) s)" using f(3) by simp
  moreover have "\<forall>w \<in> set vs. 0 \<le> w \<and> nat w < numPages (unmap_page (nat v) s) \<and> valid (entry (pages (unmap_page (nat v) s) ! nat w))"
    using Cons.prems(3,4) v by (auto simp: eq_nat_nat_iff)
  ultimately obtain vm' s' where "clearStack_loop a vs vm1 = Inr vm'" "paging_ok vm'"
    "spaces vm' = (spaces vm1)(a \<mapsto> s')" "tlb (mach vm') = tlb (mach vm1)"
    using Cons.IH [OF f(2)] Cons.prems(3) by force
  then show ?case using v(1) f by (intro exI [of _ vm'] exI [of _ s']) simp
qed

lemma clearStack_switch_inv:
  assumes ok: "paging_ok vm"
    and t: "tlb (mach vm) = Some t" "length t = 4" "\<And>e. e \<in> set t \<Longrightarrow> dirty e \<Longrightarrow> unat (physicalPage e) < 256"
    and s: "spaces vm b = Some s" "stack_resident stack s"
    and run: "clearStack b stack vm = Inr vm1" "SaveState vm1 = Inr vm2" "RestoreState a (vm2\<lparr>curSpace := a\<rparr>) = Inr vm3"
  shows "vm_inv vm3"
proof -
  define vs where "vs = [stack sdiv int PageSize - 7..stack sdiv int PageSize]"
  have vs: "distinct vs" "\<forall>v \<in> set vs. 0 \<le> v \<and> nat v < numPages s \<and> valid (entry (pages s ! nat v))"
    using s(2) by (simp_all only: vs_def stack_resident_def distinct_upto)
  have "clearStack_loop b vs vm = Inr vm1" using run(1) by (simp only: clearStack_def Let_def vs_def)
  with clearStack_loop_ok [OF ok s(1) vs] have "paging_ok vm1" "tlb (mach vm1) = Some t" using t(1) by auto
  then show ?thesis using switch_inv [OF _ _ _ _ _ t(2,3) run(2,3)] by (auto simp: paging_ok_def)
qed

lemma vm_step_inv:
  assumes "vm_step vm vm'" "vm_inv vm"
  shows "vm_inv vm'"
proof -
  note i = vm_invD [OF assms(2)]
  have ok: "paging_ok vm" using i by (simp add: paging_ok_def)
  from i(5) obtain t where t: "tlb (mach vm) = Some t" "length t = 4" "\<And>e. e \<in> set t \<Longrightarrow> dirty e \<Longrightarrow> unat (physicalPage e) < 256"
    by (auto simp: tlb_ok_def)
  have acc: "vm_inv (vm\<lparr>mach := m\<rparr>)" if "Translate w sz wr (mach vm) = Inr (NoException, pa, m1)"
    "tlb m = tlb m1" "pageTable m = pageTable m1" for w sz wr pa m m1
    using vm_inv_mach [OF access_inv [OF assms(2) that(1)], of m] that(2,3) by simp
  from assms(1) show ?thesis
  proof (cases rule: vm_step.cases)
    case exec
    then show ?thesis using exec_inv [OF assms(2)] by auto
  next
    case load
    then show ?thesis using mem_access(1) acc by blast
  next
    case store
    then show ?thesis using mem_access(2) acc by blast
  next
    case regs
    then show ?thesis using vm_inv_mach [OF assms(2)] by simp
  next
    case status
    then show ?thesis using vm_inv_mach [OF assms(2)] by simp
  next
    case (table a s t)
    then show ?thesis using vm_inv_same_pages [OF assms(2)] by simp
  next
    case (fault s rnd)
    have "HandlePageFault rnd vm \<noteq> Inl Halted" using fault(3) by simp
    then show ?thesis using HandlePageFault_ok [OF assms(2) fault(1,2) refl, of rnd] fault(3) by auto
  next
    case switch
    then show ?thesis using switch_inv [OF i(1-4) t] by blast
  next
    case exit
    then show ?thesis using exit_switch_inv [OF ok t] by blast
  next
    case fork
    then show ?thesis using allocateStack_inv [OF assms(2)] by blast
  next
    case stack
    then show ?thesis using vm_inv_same_pages [OF assms(2)]
      by (auto simp: getNumPages_def get_space_def bindR_eq_Inr_iff split: option.splits list.splits)
  next
    case finish
    then show ?thesis using clearStack_switch_inv [OF ok t] by blast
  qed
qed

lemma vm_reach_inv: "vm_reach vm \<Longrightarrow> vm_inv vm"
proof (induction rule: vm_reach.induct)
  case (boot vm)
  then obtain jf js junk prand garbage now big st where
    b: "8 \<le> length jf" "128 \<le> length js" "length garbage = 4" "\<forall>e \<in> set garbage. \<not> dirty e"
      "init_VM jf js junk prand (new_Machine True garbage now big st) = Inr vm" unfolding vm_boot_def by blast
  from boot_ok [OF b(1-4)] b(5) show ?case by (metis sum.inject(2))
next
  case (step vm vm')
  then show ?case using vm_step_inv by blast
qed

section \<open>What a user program can rely on\<close>

lemma tlb_hit_page:
  assumes inv: "vm_inv vm" and e: "lookup_entry (mach vm) v = Some e"
  obtains p s where "p < 256" "physicalPage e = of_nat p" "\<not> readOnly e" "resident vm (curSpace vm) v p"
    "spaces vm (curSpace vm) = Some s" "v < length (pages s)" "v < 2 ^ 24" "valid (entry (pages s ! v))"
    "physicalPage (entry (pages s ! v)) = of_nat p"
proof -
  note i = vm_invD [OF inv]
  from tlb_hit [OF inv e] obtain p where p: "p < 256" "resident vm (curSpace vm) v p" "physicalPage e = of_nat p" "\<not> readOnly e"
    by blast
  have "tlb_match v e"
    using i(1,5) e by (auto simp: tlb_ok_def lookup_entry_def find_Some_iff shape_ok_def)
  then have vv: "unat (of_nat v :: 32 word) = v" by (auto simp: tlb_match_def)
  have "valid (ientry (IPT vm ! p))" using p(2) by (simp add: resident_def)
  with i(2) p(1) obtain b s w where b: "spaces vm b = Some s" "w < numPages s" "resident vm b w p"
    unfolding frames_ok_def by blast
  have w: "w < 2 ^ 24" using b shapeD(9) [OF i(1) b(1)] by auto
  have "(of_nat v :: 32 word) = of_nat w" using p(2) b(3) by (simp add: resident_def)
  then have "v = w" using of_nat_small [OF w] vv by simp
  then have v: "v < 2 ^ 24" using w by simp
  from frame_of_page [OF i(2) _ p(2) v i(1)] p that show thesis using v by (metis empty_iff)
qed

lemma page_ok_mapped:
  assumes inv: "vm_inv vm" and e: "lookup_entry (mach vm) (unat w div PageSize) = Some e"
    and w: "\<not> misaligned w sz" "sz \<in> {1, 2, 4}"
  shows "page_ok (mach vm) w sz writing e"
proof -
  from tlb_hit_page [OF inv e] obtain p where "p < 256" "physicalPage e = of_nat p" "\<not> readOnly e" by metis
  moreover have "well_mapped (mach vm)"
    using vm_invD(1,5) [OF inv] by (auto simp: shape_ok_def tlb_ok_def well_mapped_def)
  ultimately show ?thesis using w e frame_number [of p] by (simp add: page_ok_def translate_result_def)
qed

lemma mapped_page_bytes:
  assumes inv: "vm_inv vm" and e: "lookup_entry (mach vm) v = Some e"
  shows "page_bytes vm (curSpace vm) v = Some (frame_bytes (unat (physicalPage e)) vm)"
proof -
  from tlb_hit_page [OF inv e] obtain p s where ps: "physicalPage e = of_nat p" "spaces vm (curSpace vm) = Some s"
    "v < length (pages s)" "valid (entry (pages s ! v))" "physicalPage (entry (pages s ! v)) = of_nat p" by metis
  moreover have "numPages s = length (pages s)" using shapeD(9) [OF vm_invD(1) [OF inv] ps(2)] by simp
  ultimately show ?thesis by (simp add: page_bytes_def)
qed

lemma frame_bytes_nth: "k < PageSize \<Longrightarrow> frame_bytes p vm ! k = mainMemory (mach vm) (p * PageSize + k)"
  by (simp add: frame_bytes_def)

text \<open>A program of one page of code, loaded and running; it has just touched its second page.\<close>

definition demo_file :: "8 word list" where
  "demo_file = [0xad, 0xdf, 0xba, 0] @ replicate 8 0 @ [128, 0, 0, 0] @ replicate 24 0 @ replicate 128 7"

lemma new_fileTable_ok:
  assumes "8 \<le> length jw" "256 \<le> length js"
  shows "\<exists>t. new_fileTable jw js = Inr t \<and> table_inv t \<and> tsize t = 256 \<and> handles t = [0 \<mapsto> None, 1 \<mapsto> None]"
proof -
  from new_Table_ok [of 256 jw js] assms obtain t0 where
    t0: "new_Table jw js 256 = Inr t0" "table_inv t0" "tsize t0 = 256" "handles t0 = Map.empty"
    by (auto simp: divRoundUp_def)
  have n: "dom (handles t0) \<noteq> {0..<int (tsize t0)}" unfolding t0(3,4) using atLeastLessThan_iff [of 0 0 "int 256"] by force
  from files.put_free [OF t0(2) n, of None] obtain k t1 where
    t1: "Table_Put t0 None = Inr (k, t1)" "0 \<le> k" "\<forall>j. 0 \<le> j \<and> j < k \<longrightarrow> handles t0 j \<noteq> None"
      "table_inv t1" "tsize t1 = tsize t0" "handles t1 = (handles t0)(k \<mapsto> None)" by blast
  have "k = 0" using t1(2) t1(3) [rule_format, of 0] t0(4) by force
  note t1 = t1(1) [unfolded this] t1(4) t1(5) [unfolded t0(3)] t1(6) [unfolded this t0(4)]
  have "1 \<notin> dom (handles t1)" "1 \<in> {0..<int (tsize t1)}" by (simp_all add: t1(3,4))
  then have n1: "dom (handles t1) \<noteq> {0..<int (tsize t1)}" by metis
  from files.put_free [OF t1(2) n1, of None] obtain i t2 where
    t2: "Table_Put t1 None = Inr (i, t2)" "0 \<le> i" "handles t1 i = None" "\<forall>j. 0 \<le> j \<and> j < i \<longrightarrow> handles t1 j \<noteq> None"
      "table_inv t2" "tsize t2 = tsize t1" "handles t2 = (handles t1)(i \<mapsto> None)" by blast
  have "i \<noteq> 0" using t2(3) t1(4) by auto
  moreover have "i \<le> 1" using t2(4) [rule_format, of 1] t1(4) by force
  ultimately have "i = 1" using t2(2) by simp
  then show ?thesis using t0 t1 t2 by (simp add: new_fileTable_def)
qed

lemma demo_space: "\<exists>s. new_AddrSpace False (\<lambda>_. 0) jp (replicate 8 0) (replicate 256 None) demo_file = Inr s \<and> numPages s = 9"
proof -
  from new_fileTable_ok [of "replicate 8 0" "replicate 256 None"] obtain ft where
    ft: "new_fileTable (replicate 8 0) (replicate 256 None) = Inr ft" by auto
  have f: "uReadAt demo_file 40 0 = [0xad, 0xdf, 0xba, 0] @ replicate 8 0 @ [128, 0, 0, 0] @ replicate 24 0"
    by (simp add: demo_file_def uReadAt_def)
  have "noff_word False (\<lambda>_. 0) demo_file 0 = 0xbadfad" "noff_word False (\<lambda>_. 0) demo_file 3 = 128"
    "noff_word False (\<lambda>_. 0) demo_file 6 = 0" "noff_word False (\<lambda>_. 0) demo_file 9 = 0"
    by (simp_all add: noff_word_def f host_load32_def nth_append nth_Cons' push_bit_eq_mult)
  then show ?thesis by (simp add: ft new_AddrSpace_def read_NoffHeader_def Let_def divRoundUp_def)
qed

lemma demo_run:
  "\<exists>vm s. vm_reach vm \<and> spaces vm (curSpace vm) = Some s \<and> numPages s = 9 \<and> registers (mach vm) BadVAddrReg = 130 \<and>
     marked (swapMap vm) = {} \<and> marked (frameMap vm) = {} \<and> dirty_ok vm"
proof -
  define g :: "TranslationEntry list" where
    "g = replicate 4 \<lparr>virtualPage = 0, physicalPage = 0, valid = False, readOnly = False, use = False, dirty = False\<rparr>"
  define m where "m = new_Machine True g 0 False SystemMode"
  have g: "length g = 4" "\<forall>e \<in> set g. \<not> dirty e" by (simp_all add: g_def)
  from boot_ok [of "replicate 8 0" "replicate 128 0" g undefined False 0 False SystemMode] g obtain v0 where
    v0: "init_VM (replicate 8 0) (replicate 128 0) undefined False m = Inr v0" "vm_inv v0" "spaces v0 = Map.empty"
      "marked (frameMap v0) = {}" "marked (swapMap v0) = {}" "mach v0 = m" by (auto simp: m_def)
  have r0: "vm_reach v0"
    using v0(1) g unfolding m_def by (intro vm_reach.boot vm_bootI) auto
  from demo_space obtain s where s: "new_AddrSpace False (\<lambda>_. 0) undefined (replicate 8 0) (replicate 256 None) demo_file = Inr s" "numPages s = 9" by blast
  define v1 where "v1 = put_space 0 s v0"
  have r1: "vm_reach v1"
    using vm_step.exec [OF s(1), of v0 0] v0(3) s(2) vm_reach.step [OF r0] by (simp add: v1_def)
  define v2 where "v2 = v1\<lparr>mach := (mach v1)\<lparr>registers := (\<lambda>_. 130)\<rparr>\<rparr>"
  have r2: "vm_reach v2" unfolding v2_def by (rule vm_reach.step [OF r1 vm_step.regs])
  have sp: "spaces v2 (curSpace v2) = Some s"
    using v0(1) by (auto simp: v2_def v1_def put_space_def init_VM_def bindR_eq_Inr_iff)
  have fm: "marked (frameMap v2) = {}" "marked (swapMap v2) = {}" "registers (mach v2) BadVAddrReg = 130"
    using v0(4,5) by (simp_all add: v2_def v1_def put_space_def)
  have "\<not> resident v2 a w p" for a w p
    using vm_invD(2) [OF vm_reach_inv [OF r2]] fm(1) by (auto simp: frames_ok_def resident_def)
  then have "dirty_ok v2" by (simp add: dirty_ok_def)
  then show ?thesis using r2 sp s(2) fm by blast
qed

text \<open>
  C9: memory protection. In every state of a run in which \<^verbatim>\<open>Fork\<close> is called with no page of the process in the swap file, a thread that is not the last of its process exits with its
  stack resident, and the paging routines do not overlap (see \<open>vm_step\<close>; the TLB starts without dirty bits), an address that the TLB translates leads to the
  frame that holds that page of the running process: the page is within its page table, the frame
  contains the page's contents, and no other page of any process is in that frame.
\<close>

theorem tlb_isolates_processes:
  assumes "vm_reach vm" "lookup_entry (mach vm) v = Some e"
  shows "\<exists>p s. p < NumPhysPages \<and> physicalPage e = of_nat p \<and> spaces vm (curSpace vm) = Some s \<and> v < numPages s \<and>
     page_bytes vm (curSpace vm) v = Some (frame_bytes p vm) \<and>
     (\<forall>b s' w. spaces vm b = Some s' \<and> w < numPages s' \<and> valid (entry (pages s' ! w)) \<and>
        physicalPage (entry (pages s' ! w)) = of_nat p \<longrightarrow> b = curSpace vm \<and> w = v)"
proof -
  have inv: "vm_inv vm" by (rule vm_reach_inv [OF assms(1)])
  note i = vm_invD [OF inv]
  from tlb_hit_page [OF inv assms(2)] obtain p s where ps: "p < 256" "physicalPage e = of_nat p"
    "resident vm (curSpace vm) v p" "spaces vm (curSpace vm) = Some s" "v < length (pages s)" "v < 2 ^ 24" by metis
  have n: "numPages s = length (pages s)" using shapeD(9) [OF i(1) ps(4)] by simp
  have "b = curSpace vm \<and> w = v"
    if w: "spaces vm b = Some s'" "w < numPages s'" "valid (entry (pages s' ! w))" "physicalPage (entry (pages s' ! w)) = of_nat p"
    for b s' w
  proof -
    from i(3) w(1-3) obtain q where q: "resident vm b w q" "physicalPage (entry (pages s' ! w)) = of_nat q"
      unfolding pages_ok_def by blast
    then have "q = p" using w(4) ps(1) frame_number [of q] frame_number [of p] by (auto simp: resident_def)
    moreover have "w < 2 ^ 24" using shapeD(9) [OF i(1) w(1)] w(2) by auto
    ultimately show ?thesis using resident_unique [OF q(1) _ _ ps(6)] ps(3) by blast
  qed
  moreover have "page_bytes vm (curSpace vm) v = Some (frame_bytes p vm)"
    using mapped_page_bytes [OF inv assms(2)] ps(1,2) frame_number [of p] by simp
  ultimately show ?thesis using ps n by (intro exI [of _ p] exI [of _ s]) auto
qed

text \<open>
  C8: a page fault is resolved. In every state of a run in which \<^verbatim>\<open>Fork\<close> is called with no page of the process in the swap file, a thread that is not the last of its process exits with its
  stack resident, and the paging routines do not overlap (see \<open>vm_step\<close>; the TLB starts without dirty bits), as long as the swap file is not full, the
  handler for a fault at an address of the running process returns, no assertion failing and no
  index out of range, and the instruction that faulted can be retried: a load and a store at
  that address succeed.
\<close>

theorem page_fault_resolved:
  assumes "vm_reach vm" "spaces vm (curSpace vm) = Some s" "registers (mach vm) BadVAddrReg = w"
    "unat w div PageSize < numPages s" "\<not> misaligned w sz" "sz \<in> {1, 2, 4}" "marked (swapMap vm) \<noteq> {..<SwapPages}"
  shows "\<exists>vm' x m1 m2. HandlePageFault rnd vm = Inr vm' \<and> vm_reach vm' \<and>
     ReadMem h w sz (mach vm') = Inr (Some x, m1) \<and> WriteMem h w sz y (mach vm') = Inr (True, m2)"
proof -
  have inv: "vm_inv vm" by (rule vm_reach_inv [OF assms(1)])
  from HandlePageFault_ok [OF inv assms(2) _ refl, of rnd] assms(3,4,7) obtain vm' e where
    h: "HandlePageFault rnd vm = Inr vm'" "vm_inv vm'" "lookup_entry (mach vm') (unat w div PageSize) = Some e" by auto
  have "vm_reach vm'" using vm_step.fault [OF assms(2) _ h(1)] assms(3,4) vm_reach.step [OF assms(1)] by simp
  then show ?thesis
    using h(1) ReadMem_ok [OF page_ok_mapped [OF h(2,3) assms(5,6)], of h] WriteMem_ok [OF page_ok_mapped [OF h(2,3) assms(5,6)], of h y]
    by blast
qed

theorem page_fault_resolved_witness:
  "\<exists>vm vm' x m1 m2. HandlePageFault 0 vm = Inr vm' \<and> vm_reach vm' \<and>
     ReadMem (\<lambda>_. Inr) 130 2 (mach vm') = Inr (Some x, m1) \<and> WriteMem (\<lambda>_. Inr) 130 2 77 (mach vm') = Inr (True, m2)"
proof -
  from demo_run obtain vm s where d: "vm_reach vm" "spaces vm (curSpace vm) = Some s" "numPages s = 9"
    "registers (mach vm) BadVAddrReg = 130" "marked (swapMap vm) = {}" by blast
  have "\<not> misaligned (130 :: 32 word) 2" by (simp add: misaligned_def)
  moreover have "marked (swapMap vm) \<noteq> {..<4096}" using d(5) lessThan_iff [of 0 "4096 :: nat"] by force
  ultimately show ?thesis using page_fault_resolved [OF d(1,2,4), of 2 0 "\<lambda>_. Inr" 77] d(3) by auto
qed

text \<open>
  C11: paging is transparent. In a run in which \<^verbatim>\<open>Fork\<close> is called with no page of the process in the swap file, a thread that is not the last of its process exits with its
  stack resident, and the paging routines do not overlap (see \<open>vm_step\<close>; the TLB starts without dirty bits): as long as no modified frame has lost its dirty bit (\<open>dirty_ok\<close>), a page
  fault changes the contents of no page of any process, whether it evicts a page, reads one from the
  swap file or the executable or zeroes a new one; and a retried byte load returns the byte that the
  page had before the fault.
\<close>

theorem page_fault_transparent:
  assumes "vm_reach vm" "dirty_ok vm" "spaces vm (curSpace vm) = Some s" "registers (mach vm) BadVAddrReg = w"
    "unat w div PageSize < numPages s" "HandlePageFault rnd vm = Inr vm'"
  shows "page_bytes vm' = page_bytes vm \<and>
     (\<exists>bs m. page_bytes vm (curSpace vm) (unat w div PageSize) = Some bs \<and>
        ReadMem h w 1 (mach vm') = Inr (Some (scast (bs ! (unat w mod PageSize))), m))"
proof -
  have inv: "vm_inv vm" by (rule vm_reach_inv [OF assms(1)])
  from HandlePageFault_ok [OF inv assms(3) _ refl, of rnd] assms(2,4-6) obtain e where
    h: "vm_inv vm'" "lookup_entry (mach vm') (unat w div PageSize) = Some e" "page_bytes vm' = page_bytes vm"
      "curSpace vm' = curSpace vm" by auto
  have al: "\<not> misaligned w 1" by (simp add: misaligned_def)
  note pb = mapped_page_bytes [OF h(1,2)]
  from ReadMem_ok [OF page_ok_mapped [OF h(1,2) al, of False], of h] obtain m where
    m: "ReadMem h w 1 (mach vm') = Inr (Some (read_value (mainMemory (mach vm')) 1 (phys_addr e w)), m)" by auto
  have "read_value (mainMemory (mach vm')) 1 (phys_addr e w) =
      scast (frame_bytes (unat (physicalPage e)) vm' ! (unat w mod PageSize))"
    by (simp add: read_value_def phys_addr_def frame_bytes_nth)
  then show ?thesis using m pb h(3,4) by auto
qed

lemma demo_fault: "\<exists>vm s vm' e. vm_reach vm \<and> spaces vm (curSpace vm) = Some s \<and> numPages s = 9 \<and> dirty_ok vm \<and>
  registers (mach vm) BadVAddrReg = 130 \<and> HandlePageFault 0 vm = Inr vm' \<and> vm_reach vm' \<and> lookup_entry (mach vm') 1 = Some e"
proof -
  from demo_run obtain vm s where d: "vm_reach vm" "spaces vm (curSpace vm) = Some s" "numPages s = 9"
    "registers (mach vm) BadVAddrReg = 130" "marked (swapMap vm) = {}" "dirty_ok vm" by blast
  have "marked (swapMap vm) \<noteq> {..<4096}" using d(5) lessThan_iff [of 0 "4096 :: nat"] by force
  with HandlePageFault_ok [OF vm_reach_inv [OF d(1)] d(2), of 1 0] d(3,4) obtain vm' e where
    h: "HandlePageFault 0 vm = Inr vm'" "lookup_entry (mach vm') 1 = Some e" by auto
  have "vm_reach vm'" using vm_step.fault [OF d(2) _ h(1)] d(3,4) vm_reach.step [OF d(1)] by simp
  then show ?thesis using d h by blast
qed

theorem tlb_isolates_processes_witness:
  "\<exists>vm e p s. vm_reach vm \<and> lookup_entry (mach vm) 1 = Some e \<and> p < NumPhysPages \<and> physicalPage e = of_nat p \<and>
     spaces vm (curSpace vm) = Some s \<and> 1 < numPages s"
proof -
  from demo_fault obtain vm e where "vm_reach vm" "lookup_entry (mach vm) 1 = Some e" by blast
  with tlb_isolates_processes [OF this] show ?thesis by blast
qed

theorem page_fault_transparent_witness:
  "\<exists>vm vm' bs m. HandlePageFault 0 vm = Inr vm' \<and> page_bytes vm' = page_bytes vm \<and>
     ReadMem (\<lambda>_. Inr) 130 1 (mach vm') = Inr (Some (scast (bs ! 2 :: 8 word)), m)"
proof -
  from demo_fault obtain vm s vm' where d: "vm_reach vm" "spaces vm (curSpace vm) = Some s" "numPages s = 9" "dirty_ok vm"
    "registers (mach vm) BadVAddrReg = 130" "HandlePageFault 0 vm = Inr vm'" by blast
  have "unat (130 :: 32 word) div PageSize < numPages s" using d(3) by simp
  from page_fault_transparent [OF d(1,4,2,5) this d(6), of "\<lambda>_. Inr"] show ?thesis using d(6) by auto
qed

section \<open>What it cannot rely on\<close>

text \<open>
  \<^verbatim>\<open>clearStack\<close> does not ask whether the pages of the stack are resident. A page that is not has an old or uninitialised
  \<^verbatim>\<open>physicalPage\<close>; the frame of that number, whosever page it holds, is zeroed and given back.
\<close>

lemma clearStack_damages:
  assumes "shape_ok vm" "spaces vm a = Some s" "v < length (pages s)" "physicalPage (entry (pages s ! v)) = of_nat p" "p < NumPhysPages"
    and "spaces vm b = Some s'" "w < numPages s'" "valid (entry (pages s' ! w))" "physicalPage (entry (pages s' ! w)) = of_nat p" "b \<noteq> a"
  shows "\<exists>vm'. free_page a v vm = Inr vm' \<and> p \<notin> marked (frameMap vm') \<and> page_bytes vm' b w = Some (replicate PageSize 0)"
proof -
  note sh = shapeD [OF assms(1)]
  have sp: "sint (physicalPage (entry (pages s ! v))) = int p" using sint_small [of p] assms(4,5) by simp
  from Clear_ok [OF sh(4), of p] assms(5) sh(5) obtain bm where
    bm: "BitMap_Clear (frameMap vm) (int p) = Inr bm" "marked bm = marked (frameMap vm) - {p}" by auto
  let ?I = "(IPT vm)[p := (IPT vm ! p)\<lparr>ientry := (ientry (IPT vm ! p))\<lparr>valid := False\<rparr>\<rparr>]"
  define vm' where "vm' = (load_frame p [] (vm\<lparr>frameMap := bm\<rparr>))\<lparr>IPT := ?I, spaces := (spaces vm)(a \<mapsto> unmap_page v s)\<rparr>"
  have "free_page a v vm = Inr vm'"
    using assms(2,3,5) sp bm(1) sh(1) by (simp add: free_page_def vm_access vm'_def unmap_page_def)
  moreover have "p \<notin> marked (frameMap vm')" by (simp add: vm'_def bm(2))
  moreover have "frame_bytes p vm' = replicate 128 0"
    by (auto simp: frame_bytes_def vm'_def load_frame_def map_replicate_const intro!: nth_equalityI)
  then have "page_bytes vm' b w = Some (replicate 128 0)"
    using assms(6-10) frame_number [OF assms(5)] by (simp add: page_bytes_def vm'_def)
  ultimately show ?thesis by auto
qed

text \<open>After \<^verbatim>\<open>allocateStack\<close> a page in the swap file is looked for at an arbitrary place.\<close>

lemma allocateStack_forgets:
  assumes "spaces vm a = Some s" "v < numPages s" "numPages s \<le> length (pages s)" "allocateStack junk a vm = Inr vm'"
  shows "\<exists>s'. spaces vm' a = Some s' \<and> location (pages s' ! v) = location (pages s ! v) \<and>
    swapLocation (pages s' ! v) = swapLocation (junk v)"
  using assms by (auto simp: allocateStack_def get_space_def Let_def RestoreState_def put_space_def copy_page_def nth_append)

text \<open>
  an address beyond the page table reaches the kernel. \<^verbatim>\<open>HandlePageFault\<close> does not compare the page
  number with \<^verbatim>\<open>numPages\<close>: for any address of a page the running process does not have, \<^verbatim>\<open>IPTMiss\<close> indexes
  its page table out of bounds, in every reachable state with a free frame.
\<close>

theorem wild_address_escapes:
  assumes "vm_reach vm" "spaces vm (curSpace vm) = Some s" "unat (registers (mach vm) BadVAddrReg) div PageSize = v"
    "numPages s \<le> v" "v < 2 ^ 24" "marked (frameMap vm) \<noteq> {..<NumPhysPages}"
  shows "HandlePageFault rnd vm = Inl OutOfBounds"
proof -
  note i = vm_invD [OF vm_reach_inv [OF assms(1)]]
  note sh = shapeD [OF i(1)]
  have "\<not> resident vm (curSpace vm) v q" for q
  proof
    assume "resident vm (curSpace vm) v q"
    from frame_of_page [OF i(2) _ this assms(5) i(1)] obtain s' where "spaces vm (curSpace vm) = Some s'" "v < length (pages s')"
      by blast
    then show False using assms(2,4) sh(9) [OF assms(2)] by simp
  qed
  then have "\<not> ipt_match (curSpace vm) (int v) (IPT vm ! q)" if "q < 256" for q
    using ipt_match_resident [OF assms(5) that] by blast
  then have none: "find_index (ipt_match (curSpace vm) (int v)) (take 256 (IPT vm)) = None"
    using sh(1) by (auto simp: find_index_None_iff in_set_conv_nth)
  from Find_free [OF sh(4)] assms(6) sh(5) obtain p bm where "BitMap_Find (frameMap vm) = Inr (int p, bm)" by auto
  then have miss: "HandleIPTMiss rnd (int v) vm = Inl OutOfBounds"
    using assms(2,4) sh(9) [OF assms(2)]
    by (simp add: HandleIPTMiss_def IPTMiss_def get_page_def get_space_def)
  have rr: "ReadRegister (int BadVAddrReg) (mach vm) = Inr (registers (mach vm) BadVAddrReg)"
    by (simp add: ReadRegister_def)
  have vp: "sint (registers (mach vm) BadVAddrReg) sdiv int PageSize = int v" using fault_page [OF assms(3,5)] by simp
  show ?thesis unfolding HandlePageFault_def rr bindR_simps vp Let_def none using miss by simp
qed

theorem wild_address_escapes_witness: "\<exists>vm. vm_reach vm \<and> HandlePageFault 0 vm = Inl OutOfBounds"
proof -
  from demo_run obtain vm s where d: "vm_reach vm" "spaces vm (curSpace vm) = Some s" "numPages s = 9"
    "marked (frameMap vm) = {}" by blast
  define v where "v = vm\<lparr>mach := (mach vm)\<lparr>registers := (\<lambda>_. 2000)\<rparr>\<rparr>"
  have r: "vm_reach v" unfolding v_def by (rule vm_reach.step [OF d(1) vm_step.regs])
  have "marked (frameMap v) = {}" using d(4) by (simp add: v_def)
  then have "marked (frameMap v) \<noteq> {..<256}" using lessThan_iff [of 0 "256 :: nat"] by force
  moreover have "spaces v (curSpace v) = Some s" "unat (registers (mach v) BadVAddrReg) div PageSize = 15"
    using d(2) by (simp_all add: v_def)
  ultimately have "HandlePageFault 0 v = Inl OutOfBounds" using wild_address_escapes [OF r, of s 15 0] d(3) by simp
  then show ?thesis using r by blast
qed

text \<open>
  a modified page can be lost. The loop of \<^verbatim>\<open>HandleMemoryFull\<close> lets every TLB entry that names the
  victim frame, valid or not, overwrite the frame's dirty bit, so that the last one decides. If that
  is a clean entry left over from before a context switch, the page is evicted without being written to
  the swap file, although the \<^verbatim>\<open>IPT\<close> or a valid entry says it is dirty: its contents revert to what
  they were when it was last loaded.
\<close>

theorem stale_entry_loses_page:
  assumes "vm_inv vm" "marked (frameMap vm) = {..<NumPhysPages}" "\<not> PRand vm" "currentIPT vm = p"
    "resident vm a v p" "spaces vm a = Some s" "v < numPages s"
    "tlb (mach vm) = Some [e0, e1, e2, e3]" "physicalPage e3 = of_nat p" "\<not> dirty e3"
  shows "\<exists>vm'. HandleMemoryFull rnd vm = Inr (p, vm') \<and> swapFile vm' = swapFile vm \<and>
     page_bytes vm a v = Some (frame_bytes p vm) \<and> page_bytes vm' a v = Some (src_bytes s (pages s ! v) vm)"
proof -
  note i = vm_invD [OF assms(1)]
  note sh = shapeD [OF i(1)]
  have p: "p < 256" using assms(5) by (simp add: resident_def)
  have v: "v < length (pages s)" "v < 2 ^ 24" using sh(9) [OF assms(6)] assms(7) by auto
  from frame_of_page [OF i(2) _ assms(5) v(2) i(1)] obtain s' where
    s': "spaces vm a = Some s'" "valid (entry (pages s' ! v))" "physicalPage (entry (pages s' ! v)) = of_nat p" by blast
  have b: "page_bytes vm a v = Some (frame_bytes p vm)"
    using s' assms(7) frame_number [OF p] assms(6) by (simp add: page_bytes_def)
  let ?t = "[e0, e1, e2, e3]"
  let ?vm0 = "vm\<lparr>currentIPT := (p + 1) mod 256\<rparr>"
  have d: "\<not> flushed_dirty p ?t d" for d using assms(9,10) by simp
  let ?vm1 = "(put_tlb (map (drop_entry p) ?t) ?vm0)\<lparr>IPT := (IPT vm)[p := set_dirty False (IPT vm ! p)]\<rparr>"
  have fl: "flush_loop p [0..<4] ?vm0 = Inr ?vm1"
    using flush_all [of p ?vm0 ?t] p sh(1) assms(8) d by simp
  have e: "get_IPT p ?vm1 = Inr (set_dirty False (IPT vm ! p))" using p sh(1) by (simp add: get_IPT_def)
  have ow: "frame_owner (set_dirty False (IPT vm ! p)) = Inr a" "unat (virtualPage (ientry (set_dirty False (IPT vm ! p)))) = v"
    using assms(5) of_nat_small [OF v(2)] by (simp_all add: frame_owner_def resident_def)
  define vm' where "vm' = ?vm1\<lparr>spaces := (spaces vm)(a \<mapsto> unmap_page v s)\<rparr>"
  have "HandleMemoryFull rnd vm = Inr (p, vm')"
    using assms(3,4,6) v(1) fl e ow
    by (simp add: HandleMemoryFull_def victim_def evictedPage_def upd_page_ok vm'_def unmap_page_def)
  moreover have "swapFile vm' = swapFile vm" by (simp add: vm'_def)
  moreover have "src_bytes (unmap_page v s) (pages (unmap_page v s) ! v) vm' = src_bytes s (pages s ! v) vm"
    using v(1) by (simp add: src_bytes_def page_source_def vm'_def unmap_page_def)
  then have "page_bytes vm' a v = Some (src_bytes s (pages s ! v) vm)"
    using assms(7) v(1) by (simp add: page_bytes_def vm'_def)
  ultimately show ?thesis using b by blast
qed

text \<open>
  A full memory: one process with 256 pages, each resident in the frame of its number and full of
  sevens; its first page is dirty in the \<^verbatim>\<open>IPT\<close> and in slot 0 of the TLB, and a clean entry for it is
  left in slot 3.
\<close>

definition full_entry :: "bool \<Rightarrow> nat \<Rightarrow> TranslationEntry" where
  "full_entry d i = \<lparr>virtualPage = of_nat i, physicalPage = of_nat i, valid = True, readOnly = False, use = True, dirty = d\<rparr>"

definition full_space :: AddrSpace where
  "full_space = \<lparr>pages = map (\<lambda>i. \<lparr>entry = full_entry False i, location = 2, byteOffset = 0, swapLocation = 0\<rparr>) [0..<256],
     numPages = 256, numPageQueue = [], executable = [],
     fileTable = \<lparr>tmap = \<lparr>numBits = 256, numWords = 8, bmap = replicate 8 0\<rparr>, ttable = replicate 256 None, tsize = 256\<rparr>\<rparr>"

definition full_vm :: VM where
  "full_vm = \<lparr>mach = (new_Machine True [] 0 False UserMode)\<lparr>mainMemory := (\<lambda>_. 7),
       tlb := Some [full_entry True 0, full_entry False 1, full_entry False 2, (full_entry False 0)\<lparr>valid := False\<rparr>]\<rparr>,
     spaces = Map.empty(0 \<mapsto> full_space),
     IPT = map (\<lambda>i. \<lparr>ientry = full_entry (i = 0) i, owner = Some 0\<rparr>) [0..<256],
     frameMap = \<lparr>numBits = 256, numWords = 8, bmap = replicate 8 (- 1)\<rparr>,
     swapMap = \<lparr>numBits = 4096, numWords = 128, bmap = replicate 128 0\<rparr>, swapFile = [],
     currentTLB = 0, currentIPT = 0, PRand = False, curSpace = 0\<rparr>"

lemma full_vm_fields [simp]:
  "spaces full_vm a = (if a = 0 then Some full_space else None)" "i < 256 \<Longrightarrow> IPT full_vm ! i = \<lparr>ientry = full_entry (i = 0) i, owner = Some 0\<rparr>"
  "length (IPT full_vm) = 256" "currentTLB full_vm = 0" "currentIPT full_vm = 0" "curSpace full_vm = 0" "PRand full_vm = False"
  "tlb (mach full_vm) = Some [full_entry True 0, full_entry False 1, full_entry False 2, (full_entry False 0)\<lparr>valid := False\<rparr>]"
  "pageTable (mach full_vm) = None" "numPages full_space = 256" "length (pages full_space) = 256"
  "i < 256 \<Longrightarrow> pages full_space ! i = \<lparr>entry = full_entry False i, location = 2, byteOffset = 0, swapLocation = 0\<rparr>"
  by (simp_all add: full_vm_def full_space_def new_Machine_def)

lemma full_vm_map: "BitMap_inv (frameMap full_vm)" "numBits (frameMap full_vm) = 256" "marked (frameMap full_vm) = {..<256}"
  "BitMap_inv (swapMap full_vm)" "numBits (swapMap full_vm) = 4096"
  by (auto simp: full_vm_def BitMap_inv_def divRoundUp_def marked_def is_marked_def less_mult_imp_div_less)

lemma full_resident: "i < 256 \<Longrightarrow> resident full_vm 0 i i"
  by (simp add: resident_def full_entry_def)

lemma full_vm_inv: "vm_inv full_vm"
proof -
  have "space_wf full_space" by (simp add: space_wf_def list_all_length full_entry_def)
  then have "shape_ok full_vm" using full_vm_map by (simp add: shape_ok_def)
  moreover have "frames_ok {} full_vm"
    using full_resident by (auto simp: frames_ok_def full_vm_map full_entry_def)
  moreover have "pages_ok {} full_vm" using full_resident by (auto simp: pages_ok_def full_entry_def split: if_splits)
  moreover have "swap_ok full_vm" by (auto simp: swap_ok_def split: if_splits)
  moreover have "\<exists>v p. resident full_vm 0 v p \<and> full_entry d i = (ientry (IPT full_vm ! p))\<lparr>use := use (full_entry d i), dirty := dirty (full_entry d i)\<rparr>"
    if "i < 256" for i d
    using full_resident [OF that] that by (intro exI [of _ i]) (simp add: full_entry_def)
  from this [of 0 True] this [of 1 False] this [of 2 False] have "tlb_ok {} full_vm"
    by (auto simp: tlb_ok_def full_entry_def)
  ultimately show ?thesis by (simp add: vm_inv_def vm_inv_ex_def)
qed

theorem stale_entry_loses_page_witness:
  "dirty (ientry (IPT full_vm ! 0)) \<and> page_bytes full_vm 0 0 = Some (replicate 128 7) \<and>
   (\<exists>vm'. HandleMemoryFull 0 full_vm = Inr (0, vm') \<and> page_bytes vm' 0 0 = Some (replicate 128 0))"
proof -
  have f: "frame_bytes 0 full_vm = replicate 128 7"
    by (simp add: frame_bytes_def full_vm_def map_replicate_const)
  have z: "src_bytes full_space (pages full_space ! 0) full_vm = replicate 128 0"
    by (simp add: src_bytes_def page_source_def pad_def map_replicate_const)
  from stale_entry_loses_page [OF full_vm_inv full_vm_map(3), of 0 0 0 full_space "full_entry True 0" "full_entry False 1"
      "full_entry False 2" "(full_entry False 0)\<lparr>valid := False\<rparr>" 0] full_resident [of 0]
  show ?thesis unfolding f z by (auto simp: full_entry_def)
qed
end
