(* ===== verification/Coff_Noff.thy ===== *)
theory Coff_Noff
  imports VM_Reach
begin

text \<open>
  The converter of linked MIPS programs into the executable format of Nachos (\<^verbatim>\<open>bin/coff2noff.c\<close>), and its
  composition with the loader: what a program finds in its memory is what the linker put into the COFF file.
\<close>

section \<open>The converter\<close>

datatype coff_error = TooShort | UnableToWrite | NotMipsel | NotOmagic | BothData | BothBss | UnknownSegment

text \<open>
  A section header has 40 bytes; the fields that are used, in host byte order. \<^verbatim>\<open>long\<close> has 32 bits, as the
  file format needs.
\<close>

record scnhdr =
  s_name :: "8 word list"
  s_paddr :: "32 word"
  s_size :: "32 word"
  s_scnptr :: "32 word"

text \<open>The variables of \<^verbatim>\<open>main\<close>, with the contents of the output file and the positions in both files.\<close>

record Converter =
  noffH :: NoffHeader
  outFile :: "8 word list"
  outPos :: nat
  inPos :: nat
  inNoffFile :: "32 word"

text \<open>
  \<^verbatim>\<open>Read\<close> and \<^verbatim>\<open>Write\<close>: the system calls fail with -1 for a negative size; \<open>room\<close> is how long the output file
  can get. An error removes the output file and ends the program.
\<close>

definition coff_Read :: "8 word list \<Rightarrow> nat \<Rightarrow> int \<Rightarrow> coff_error + (8 word list \<times> nat)" where
  "coff_Read f pos nBytes =
     (let buf = (if nBytes < 0 then [] else uReadAt f (nat nBytes) pos);
          r = (if nBytes < 0 then -1 else int (length buf)) in
      if r \<noteq> nBytes then Inl TooShort else Inr (buf, pos + length buf))"

definition coff_Write :: "nat \<Rightarrow> 8 word list \<Rightarrow> nat \<Rightarrow> 8 word list \<Rightarrow> int \<Rightarrow> coff_error + (8 word list \<times> nat)" where
  "coff_Write room f pos buf nBytes =
     (if nBytes < 0 then if -1 \<noteq> nBytes then Inl UnableToWrite else Inr (f, pos)
      else if room < pos + nat nBytes then Inl UnableToWrite
      else Inr (uWriteAt f (take (nat nBytes) buf) pos, pos + nat nBytes))"

definition name_is :: "8 word list \<Rightarrow> scnhdr \<Rightarrow> bool" where
  "name_is lit s \<longleftrightarrow> take (Suc (length lit)) (s_name s) = lit @ [0]"

definition is_text :: "scnhdr \<Rightarrow> bool" where "is_text = name_is [46, 116, 101, 120, 116]"

definition is_data :: "scnhdr \<Rightarrow> bool" where
  "is_data s \<longleftrightarrow> name_is [46, 100, 97, 116, 97] s \<or> name_is [46, 114, 100, 97, 116, 97] s"

definition is_bss :: "scnhdr \<Rightarrow> bool" where
  "is_bss s \<longleftrightarrow> name_is [46, 98, 115, 115] s \<or> name_is [46, 115, 98, 115, 115] s"

definition read_scnhdr :: "bool \<Rightarrow> 8 word list \<Rightarrow> nat \<Rightarrow> scnhdr" where
  "read_scnhdr big b i =
     (let long = (\<lambda>k. WordToHost big (host_load32 big (\<lambda>a. b ! a) (40 * i + k))) in
      \<lparr>s_name = take 8 (drop (40 * i) b), s_paddr = long 8, s_size = long 16, s_scnptr = long 20\<rparr>)"

abbreviation (input) MIPSELMAGIC :: "16 word" where "MIPSELMAGIC \<equiv> 0x0162"
abbreviation (input) OMAGIC :: "16 word" where "OMAGIC \<equiv> 0x0107"

definition read_sections :: "bool \<Rightarrow> 8 word list \<Rightarrow> coff_error + (scnhdr list \<times> nat)" where
  "read_sections big f =
     bindR (coff_Read f 0 20) (\<lambda>(fileh, p1).
     if ShortToHost big (host_load16 big (\<lambda>a. fileh ! a) 0) \<noteq> MIPSELMAGIC then Inl NotMipsel
     else bindR (coff_Read f p1 56) (\<lambda>(systemh, p2).
     if ShortToHost big (host_load16 big (\<lambda>a. systemh ! a) 0) \<noteq> OMAGIC then Inl NotOmagic
     else let numsections = unat (ShortToHost big (host_load16 big (\<lambda>a. fileh ! a) 2)) in
     bindR (coff_Read f p2 (int (numsections * 40))) (\<lambda>(b, p3).
       Inr (map (read_scnhdr big b) [0..<numsections], p3))))"

definition copy_bytes :: "nat \<Rightarrow> 8 word list \<Rightarrow> scnhdr \<Rightarrow> Converter \<Rightarrow> coff_error + Converter" where
  "copy_bytes room f s c =
     (let p = (if 0 \<le> sint (s_scnptr s) then nat (sint (s_scnptr s)) else inPos c) in
      bindR (coff_Read f p (sint (s_size s))) (\<lambda>(buffer, p1).
      bindR (coff_Write room (outFile c) (outPos c) buffer (sint (s_size s))) (\<lambda>(out, q).
        Inr (c\<lparr>inPos := p1, outFile := out, outPos := q, inNoffFile := inNoffFile c + s_size s\<rparr>))))"

definition copy_section :: "nat \<Rightarrow> 8 word list \<Rightarrow> scnhdr \<Rightarrow> Converter \<Rightarrow> coff_error + Converter" where
  "copy_section room f s c =
     (let h = noffH c in
      if s_size s = 0 then Inr c
      else if is_text s
      then copy_bytes room f s (c\<lparr>noffH := h\<lparr>codeVirtualAddr := s_paddr s, codeInFileAddr := inNoffFile c, codeSize := s_size s\<rparr>\<rparr>)
      else if is_data s
      then if initDataSize h \<noteq> 0 then Inl BothData
           else copy_bytes room f s (c\<lparr>noffH := h\<lparr>initDataVirtualAddr := s_paddr s, initDataInFileAddr := inNoffFile c,
                                                    initDataSize := s_size s\<rparr>\<rparr>)
      else if is_bss s
      then if uninitDataSize h \<noteq> 0
           then if s_paddr s = uninitDataVirtualAddr h + uninitDataSize h then Inl BothBss
                else Inr (c\<lparr>noffH := h\<lparr>uninitDataSize := uninitDataSize h + s_size s\<rparr>\<rparr>)
           else Inr (c\<lparr>noffH := h\<lparr>uninitDataVirtualAddr := s_paddr s, uninitDataSize := s_size s\<rparr>\<rparr>)
      else Inl UnknownSegment)"

fun copy_sections :: "nat \<Rightarrow> 8 word list \<Rightarrow> scnhdr list \<Rightarrow> Converter \<Rightarrow> coff_error + Converter" where
  "copy_sections room f [] c = Inr c"
| "copy_sections room f (s # ss) c = bindR (copy_section room f s c) (copy_sections room f ss)"

text \<open>The bytes of an \<^verbatim>\<open>int\<close> and of the header in the memory of the host.\<close>

definition host_bytes :: "bool \<Rightarrow> 32 word \<Rightarrow> 8 word list" where
  "host_bytes big w = map (host_store32 big (\<lambda>_. 0) 0 w) [0..<4]"

definition header_bytes :: "bool \<Rightarrow> NoffHeader \<Rightarrow> 8 word list" where
  "header_bytes big h = concat (map (host_bytes big)
     [noffMagic h, codeVirtualAddr h, codeInFileAddr h, codeSize h,
      initDataVirtualAddr h, initDataInFileAddr h, initDataSize h,
      uninitDataVirtualAddr h, uninitDataInFileAddr h, uninitDataSize h])"

text \<open>\<open>junkH\<close> is the header before it is initialised: the addresses of segments that the program lacks stay so.\<close>

definition coff2noff :: "nat \<Rightarrow> bool \<Rightarrow> NoffHeader \<Rightarrow> 8 word list \<Rightarrow> coff_error + 8 word list" where
  "coff2noff room big junkH f =
     bindR (read_sections big f) (\<lambda>(sections, p).
     bindR (copy_sections room f sections
              \<lparr>noffH = junkH\<lparr>noffMagic := NOFFMAGIC, codeSize := 0, initDataSize := 0, uninitDataSize := 0\<rparr>,
               outFile = [], outPos = 40, inPos = p, inNoffFile = 40\<rparr>) (\<lambda>c.
     bindR (coff_Write room (outFile c) 0 (header_bytes big (noffH c)) 40) (\<lambda>(out, _). Inr out)))"

section \<open>The layout of the output\<close>

text \<open>A section whose bytes are copied, and those bytes.\<close>

definition copied :: "scnhdr \<Rightarrow> bool" where "copied s \<longleftrightarrow> s_size s \<noteq> 0 \<and> (is_text s \<or> is_data s)"

definition sec_bytes :: "8 word list \<Rightarrow> scnhdr \<Rightarrow> 8 word list" where
  "sec_bytes f s = take (unat (s_size s)) (drop (unat (s_scnptr s)) f)"

definition sec_ok :: "8 word list \<Rightarrow> scnhdr \<Rightarrow> bool" where
  "sec_ok f s \<longleftrightarrow> length (sec_bytes f s) = unat (s_size s)"

definition in_range :: "scnhdr \<Rightarrow> bool" where
  "in_range s \<longleftrightarrow> 0 \<le> sint (s_size s) \<and> 0 \<le> sint (s_scnptr s)"

definition out_ok :: "Converter \<Rightarrow> 8 word list \<Rightarrow> bool" where
  "out_ok c body \<longleftrightarrow> outPos c = 40 + length body \<and> outFile c = (if body = [] then [] else replicate 40 0 @ body)"

lemma sint_unat: "0 \<le> sint w \<Longrightarrow> sint w = int (unat w)" for w :: "32 word"
proof -
  assume "0 \<le> sint w"
  moreover have "sint w < 2 ^ 31" using sint_lt [of w] by simp
  ultimately have "uint w = sint w" by (simp add: uint_sint take_bit_int_eq_self)
  then show "sint w = int (unat w)" by simp
qed

lemma coff_Read_eq: "coff_Read f p (int n) = Inr r \<longleftrightarrow> p + n \<le> length f \<and> r = (take n (drop p f), p + n) \<or> n = 0 \<and> r = ([], p)"
  by (auto simp: coff_Read_def uReadAt_def Let_def)

lemma coff_Write_eq:
  "coff_Write room f p buf (int n) = Inr r \<longleftrightarrow> p + n \<le> room \<and> r = (uWriteAt f (take n buf) p, p + n)"
  by (auto simp: coff_Write_def)

lemma out_ok_append:
  assumes "out_ok c body" "bs \<noteq> []" "outFile c' = uWriteAt (outFile c) bs (outPos c)" "outPos c' = outPos c + length bs"
  shows "out_ok c' (body @ bs)"
  using assms by (auto simp: out_ok_def uWriteAt_def)

lemma copy_bytes_ok:
  assumes "copy_bytes room f s c = Inr c'" "in_range s" "out_ok c body" "s_size s \<noteq> 0"
  shows "out_ok c' (body @ sec_bytes f s) \<and> sec_ok f s \<and> noffH c' = noffH c"
proof -
  define n m where "n = unat (s_size s)" and "m = unat (s_scnptr s)"
  have i: "sint (s_size s) = int n" "sint (s_scnptr s) = int m" "0 < n"
    using assms(2,4) by (simp_all add: in_range_def sint_unat n_def m_def unat_gt_0)
  from assms(1) have r: "m + n \<le> length f" "c' = c\<lparr>inPos := m + n, outFile := uWriteAt (outFile c) (take n (take n (drop m f))) (outPos c),
      outPos := outPos c + n, inNoffFile := inNoffFile c + s_size s\<rparr>"
    using i(3) by (auto simp: copy_bytes_def i(1,2) coff_Read_eq coff_Write_eq bindR_eq_Inr_iff)
  have b: "sec_bytes f s = take n (drop m f)" by (simp add: sec_bytes_def n_def m_def)
  have l: "length (sec_bytes f s) = n" using r(1) by (simp add: b)
  then have "sec_bytes f s \<noteq> []" using i(3) by auto
  from out_ok_append [OF assms(3) this] r(2) l show ?thesis by (simp add: b sec_ok_def n_def)
qed

definition seg_total :: "NoffHeader \<Rightarrow> 32 word" where
  "seg_total h = codeSize h + initDataSize h + uninitDataSize h"

abbreviation (input) texts :: "scnhdr list \<Rightarrow> scnhdr list" where "texts ss \<equiv> filter (\<lambda>s. copied s \<and> is_text s) ss"

lemma copy_section_ok:
  assumes "copy_section room f s c = Inr c'" "copied s \<longrightarrow> in_range s" "out_ok c body"
  shows "out_ok c' (body @ concat (map (sec_bytes f) (filter copied [s]))) \<and> (copied s \<longrightarrow> sec_ok f s) \<and>
    noffMagic (noffH c') = noffMagic (noffH c) \<and> (\<not> (copied s \<and> is_text s) \<longrightarrow> codeSize (noffH c') = codeSize (noffH c)) \<and>
    ((copied s \<and> is_text s \<longrightarrow> codeSize (noffH c) = 0) \<longrightarrow> seg_total (noffH c') = seg_total (noffH c) + s_size s)"
proof (cases "copied s")
  case True
  let ?c = "\<lambda>h. c\<lparr>noffH := h\<rparr>"
  have o: "out_ok (?c h) body" for h using assms(3) by (simp add: out_ok_def)
  have "in_range s" "s_size s \<noteq> 0" using True assms(2) by (auto simp: copied_def)
  note cb = copy_bytes_ok [OF _ this(1) o this(2)]
  show ?thesis using True assms(1)
    by (auto simp: copy_section_def copied_def Let_def seg_total_def dest!: cb split: if_splits)
next
  case False
  then show ?thesis using assms(1,3)
    by (auto simp: copy_section_def copied_def Let_def out_ok_def seg_total_def split: if_splits)
qed

lemma copy_sections_ok:
  assumes "copy_sections room f ss c = Inr c'" "list_all in_range (filter copied ss)" "out_ok c body"
    "length (texts ss) \<le> (if codeSize (noffH c) = 0 then 1 else 0)"
  shows "out_ok c' (body @ concat (map (sec_bytes f) (filter copied ss))) \<and> list_all (sec_ok f) (filter copied ss) \<and>
    noffMagic (noffH c') = noffMagic (noffH c) \<and> seg_total (noffH c') = seg_total (noffH c) + sum_list (map s_size ss)"
  using assms
proof (induction ss arbitrary: c body)
  case (Cons s ss)
  from Cons.prems(1) obtain c1 where c1: "copy_section room f s c = Inr c1" "copy_sections room f ss c1 = Inr c'"
    by (auto simp: bindR_eq_Inr_iff)
  have r: "copied s \<longrightarrow> in_range s" "list_all in_range (filter copied ss)" using Cons.prems(2) by (auto split: if_splits)
  note k = copy_section_ok [OF c1(1) r(1) Cons.prems(3)]
  have "copied s \<and> is_text s \<longrightarrow> codeSize (noffH c) = 0" using Cons.prems(4) by (auto split: if_splits)
  with k have t: "seg_total (noffH c1) = seg_total (noffH c) + s_size s" by blast
  have "length (texts ss) \<le> (if codeSize (noffH c1) = 0 then 1 else 0)"
    using Cons.prems(4) k by (cases "copied s \<and> is_text s") (auto split: if_splits)
  from Cons.IH [OF c1(2) r(2) conjunct1 [OF k] this] k t show ?case by (auto simp: add.assoc)
qed auto

text \<open>When the conversion succeeds.\<close>

definition known :: "scnhdr \<Rightarrow> bool" where "known s \<longleftrightarrow> s_size s = 0 \<or> is_text s \<or> is_data s \<or> is_bss s"

abbreviation (input) datas :: "scnhdr list \<Rightarrow> scnhdr list" where "datas ss \<equiv> filter (\<lambda>s. copied s \<and> \<not> is_text s) ss"
abbreviation (input) bsss :: "scnhdr list \<Rightarrow> scnhdr list" where "bsss ss \<equiv> filter (\<lambda>s. s_size s \<noteq> 0 \<and> is_bss s) ss"

lemma copy_bytes_total:
  assumes "in_range s" "sec_ok f s" "outPos c + unat (s_size s) \<le> room" "s_size s \<noteq> 0"
  shows "\<exists>c'. copy_bytes room f s c = Inr c' \<and> outPos c' = outPos c + unat (s_size s) \<and> noffH c' = noffH c"
proof -
  define n m where "n = unat (s_size s)" and "m = unat (s_scnptr s)"
  have i: "sint (s_size s) = int n" "sint (s_scnptr s) = int m" "0 < n"
    using assms(1,4) by (simp_all add: in_range_def sint_unat n_def m_def unat_gt_0)
  have "m + n \<le> length f" using assms(2) i(3) by (simp add: sec_ok_def sec_bytes_def n_def m_def min_def split: if_splits)
  then have "coff_Read f m (int n) = Inr (take n (drop m f), m + n)" by (simp add: coff_Read_eq)
  moreover have "outPos c + n \<le> room" using assms(3) by (simp add: n_def)
  then have "coff_Write room (outFile c) (outPos c) buf (int n) = Inr (uWriteAt (outFile c) (take n buf) (outPos c), outPos c + n)" for buf
    by (simp add: coff_Write_eq)
  ultimately show ?thesis by (simp add: copy_bytes_def i(1,2) n_def [symmetric])
qed

lemma copy_section_total:
  assumes "known s" "copied s \<longrightarrow> in_range s \<and> sec_ok f s \<and> outPos c + unat (s_size s) \<le> room"
    "copied s \<and> \<not> is_text s \<longrightarrow> initDataSize (noffH c) = 0" "s_size s \<noteq> 0 \<and> is_bss s \<longrightarrow> uninitDataSize (noffH c) = 0"
  shows "\<exists>c1. copy_section room f s c = Inr c1 \<and> outPos c1 = outPos c + (if copied s then unat (s_size s) else 0) \<and>
    (\<not> (copied s \<and> \<not> is_text s) \<longrightarrow> initDataSize (noffH c1) = initDataSize (noffH c)) \<and>
    (\<not> (s_size s \<noteq> 0 \<and> is_bss s) \<longrightarrow> uninitDataSize (noffH c1) = uninitDataSize (noffH c))"
proof (cases "copied s")
  case True
  then have "\<exists>c'. copy_bytes room f s (c\<lparr>noffH := h\<rparr>) = Inr c' \<and> outPos c' = outPos c + unat (s_size s) \<and> noffH c' = h" for h
    using copy_bytes_total [of s f "c\<lparr>noffH := h\<rparr>" room] assms(2) by (auto simp: copied_def)
  note cb = this [of "(noffH c)\<lparr>codeVirtualAddr := s_paddr s, codeInFileAddr := inNoffFile c, codeSize := s_size s\<rparr>"]
    this [of "(noffH c)\<lparr>initDataVirtualAddr := s_paddr s, initDataInFileAddr := inNoffFile c, initDataSize := s_size s\<rparr>"]
  show ?thesis using True assms(3) cb by (cases "is_text s") (auto simp: copy_section_def copied_def Let_def)
next
  case False
  then show ?thesis using assms(1,4) by (auto simp: copy_section_def copied_def known_def Let_def)
qed

lemma copy_sections_total:
  assumes "list_all known ss" "list_all in_range (filter copied ss)" "list_all (sec_ok f) (filter copied ss)"
    "length (datas ss) \<le> (if initDataSize (noffH c) = 0 then 1 else 0)" "length (bsss ss) \<le> (if uninitDataSize (noffH c) = 0 then 1 else 0)"
    "outPos c + sum_list (map (\<lambda>s. unat (s_size s)) (filter copied ss)) \<le> room"
  shows "\<exists>c'. copy_sections room f ss c = Inr c'"
  using assms
proof (induction ss arbitrary: c)
  case (Cons s ss)
  have "copied s \<longrightarrow> in_range s \<and> sec_ok f s \<and> outPos c + unat (s_size s) \<le> room"
    using Cons.prems(2,3,6) by (auto split: if_splits)
  moreover have "copied s \<and> \<not> is_text s \<longrightarrow> initDataSize (noffH c) = 0" using Cons.prems(4) by (auto split: if_splits)
  moreover have "s_size s \<noteq> 0 \<and> is_bss s \<longrightarrow> uninitDataSize (noffH c) = 0" using Cons.prems(5) by (auto split: if_splits)
  ultimately obtain c1 where c1: "copy_section room f s c = Inr c1" "outPos c1 = outPos c + (if copied s then unat (s_size s) else 0)"
    "\<not> (copied s \<and> \<not> is_text s) \<longrightarrow> initDataSize (noffH c1) = initDataSize (noffH c)"
    "\<not> (s_size s \<noteq> 0 \<and> is_bss s) \<longrightarrow> uninitDataSize (noffH c1) = uninitDataSize (noffH c)"
    using copy_section_total [of s f c room] Cons.prems(1) by auto
  have "\<exists>c'. copy_sections room f ss c1 = Inr c'"
  proof (rule Cons.IH)
    show "length (datas ss) \<le> (if initDataSize (noffH c1) = 0 then 1 else 0)"
      using Cons.prems(4) c1(3) by (cases "copied s \<and> \<not> is_text s") (auto split: if_splits)
    show "length (bsss ss) \<le> (if uninitDataSize (noffH c1) = 0 then 1 else 0)"
      using Cons.prems(5) c1(4) by (cases "s_size s \<noteq> 0 \<and> is_bss s") (auto split: if_splits)
  qed (use Cons.prems c1(2) in \<open>auto split: if_splits\<close>)
  then show ?case by (simp add: c1(1))
qed simp

section \<open>The header, written and read\<close>

lemma length_host_bytes [simp]: "length (host_bytes big w) = 4" by (simp add: host_bytes_def)

lemma host_load32_cong:
  assumes "\<And>i. i < 4 \<Longrightarrow> g (a + i) = h (b + i)"
  shows "host_load32 big g a = host_load32 big h b"
  using assms [of 0] assms [of 1] assms [of 2] assms [of 3] by (simp add: host_load32_def)

lemma concat_block:
  assumes "k < length ws" "i < 4"
  shows "concat (map (host_bytes big) ws) ! (4 * k + i) = host_bytes big (ws ! k) ! i \<and>
    4 * k + i < length (concat (map (host_bytes big) ws))"
  using assms
proof (induction ws arbitrary: k)
  case (Cons w ws)
  then show ?case by (cases k) (auto simp: nth_append)
qed simp

lemma load_host_bytes: "host_load32 big (\<lambda>i. host_bytes big w ! i) 0 = w"
proof -
  have "host_load32 big (\<lambda>i. host_bytes big w ! i) 0 = host_load32 big (host_store32 big (\<lambda>_. 0) 0 w) 0"
    by (rule host_load32_cong) (simp add: host_bytes_def)
  then show ?thesis by (simp add: load_store32)
qed

text \<open>
  A host reads the header in its own byte order; on a big-endian host \<^verbatim>\<open>WordToHost\<close> restores the words that a
  little-endian one wrote.
\<close>

abbreviation (input) header_words :: "NoffHeader \<Rightarrow> 32 word list" where
  "header_words h \<equiv> [noffMagic h, codeVirtualAddr h, codeInFileAddr h, codeSize h, initDataVirtualAddr h, initDataInFileAddr h,
     initDataSize h, uninitDataVirtualAddr h, uninitDataInFileAddr h, uninitDataSize h]"

lemma length_header_bytes [simp]: "length (header_bytes big h) = 40" by (simp add: header_bytes_def)

lemma noff_word_written:
  assumes "k < 10"
  shows "noff_word big junk (header_bytes big h @ body) k = header_words h ! k"
    and "WordToHost True (noff_word True junk (header_bytes False h @ body) k) = header_words h ! k"
proof -
  have w: "noff_word b junk (header_bytes big h @ body) k = host_load32 b (\<lambda>i. host_bytes big (header_words h ! k) ! i) 0" for b big
    unfolding noff_word_def uReadAt_def
  proof (rule host_load32_cong)
    fix i :: nat assume "i < 4"
    with assms concat_block [of k "header_words h" i big] show
      "(if 4 * k + i < length (take 40 (drop 0 (header_bytes big h @ body))) then take 40 (drop 0 (header_bytes big h @ body)) ! (4 * k + i)
        else junk (4 * k + i)) = host_bytes big (header_words h ! k) ! (0 + i)"
      by (simp add: header_bytes_def del: nth_Cons')
  qed
  show "noff_word big junk (header_bytes big h @ body) k = header_words h ! k" by (simp only: w load_host_bytes)
  show "WordToHost True (noff_word True junk (header_bytes False h @ body) k) = header_words h ! k"
    by (simp only: w load32_little load_host_bytes)
qed

section \<open>Loading a converted program\<close>

text \<open>
  How the linker lays a program out: the sections with bytes in the file are inside it and placed one after the other
  from address 0, there is at most one of each kind, and the whole fits into the address space.
\<close>

fun laid_out :: "nat \<Rightarrow> scnhdr list \<Rightarrow> bool" where
  "laid_out n [] \<longleftrightarrow> True"
| "laid_out n (s # ss) \<longleftrightarrow> unat (s_paddr s) = n \<and> in_range s \<and> laid_out (n + unat (s_size s)) ss"

definition linked :: "8 word list \<Rightarrow> scnhdr list \<Rightarrow> bool" where
  "linked f ss \<longleftrightarrow> list_all known ss \<and> laid_out 0 (filter copied ss) \<and> list_all (sec_ok f) (filter copied ss) \<and>
     length (texts ss) \<le> 1 \<and> length (datas ss) \<le> 1 \<and> length (bsss ss) \<le> 1 \<and> sum_list (map (\<lambda>s. unat (s_size s)) ss) < 2 ^ 31"

text \<open>The byte of a program at an address: that of the section there, and 0 elsewhere.\<close>

definition holds_addr :: "nat \<Rightarrow> scnhdr \<Rightarrow> bool" where
  "holds_addr x s \<longleftrightarrow> unat (s_paddr s) \<le> x \<and> x < unat (s_paddr s) + unat (s_size s)"

definition program_byte :: "8 word list \<Rightarrow> scnhdr list \<Rightarrow> nat \<Rightarrow> 8 word" where
  "program_byte f ss x = (case find (holds_addr x) (filter copied ss) of
     Some s \<Rightarrow> f ! (unat (s_scnptr s) + (x - unat (s_paddr s)))
   | None \<Rightarrow> 0)"

lemma laid_out_in_range: "laid_out n ss \<Longrightarrow> list_all in_range ss"
  by (induction ss arbitrary: n) auto

lemma laid_out_above: "laid_out n ss \<Longrightarrow> x < n \<Longrightarrow> find (holds_addr x) ss = None"
  by (induction ss arbitrary: n) (auto simp: holds_addr_def)

lemma image_byte:
  assumes "laid_out n ss" "list_all (sec_ok f) ss" "n \<le> x"
  shows "(case find (holds_addr x) ss of Some s \<Rightarrow> f ! (unat (s_scnptr s) + (x - unat (s_paddr s))) | None \<Rightarrow> 0) =
    (let b = concat (map (sec_bytes f) ss) in if x - n < length b then b ! (x - n) else 0)"
  using assms
proof (induction ss arbitrary: n)
  case (Cons s ss)
  have l: "length (sec_bytes f s) = unat (s_size s)" using Cons.prems(2) by (simp add: sec_ok_def)
  show ?case
  proof (cases "x < n + unat (s_size s)")
    case True
    then have "sec_bytes f s ! (x - n) = f ! (unat (s_scnptr s) + (x - n))"
      using Cons.prems(3) l by (auto simp: sec_bytes_def)
    then show ?thesis using True Cons.prems(1,3) l by (auto simp: holds_addr_def nth_append Let_def)
  next
    case False
    then have "n + unat (s_size s) \<le> x" by simp
    from Cons.IH [OF _ _ this] Cons.prems False l show ?thesis
      by (simp add: holds_addr_def nth_append Let_def less_diff_conv2 diff_diff_eq)
  qed
qed simp

lemma unat_sum_list: "sum_list (map unat ws) < 2 ^ 32 \<Longrightarrow> unat (sum_list ws) = sum_list (map unat ws)" for ws :: "32 word list"
  by (induction ws) (auto simp: unat_word_ariths(1))

lemma coff2noff_written:
  assumes "read_sections big f = Inr (ss, p)" "linked f ss" "40 + sum_list (map (\<lambda>s. unat (s_size s)) (filter copied ss)) \<le> room"
  shows "\<exists>h. coff2noff room big junkH f = Inr (header_bytes big h @ concat (map (sec_bytes f) (filter copied ss))) \<and>
    noffMagic h = NOFFMAGIC \<and> unat (seg_total h) = sum_list (map (\<lambda>s. unat (s_size s)) ss)"
proof -
  let ?c = "\<lparr>noffH = junkH\<lparr>noffMagic := NOFFMAGIC, codeSize := 0, initDataSize := 0, uninitDataSize := 0\<rparr>,
               outFile = [], outPos = 40, inPos = p, inNoffFile = 40\<rparr>"
  let ?body = "concat (map (sec_bytes f) (filter copied ss))"
  have r: "list_all in_range (filter copied ss)" "out_ok ?c []" "length (texts ss) \<le> (if codeSize (noffH ?c) = 0 then 1 else 0)"
    using assms(2) laid_out_in_range [of 0 "filter copied ss"] by (simp_all add: linked_def out_ok_def)
  from copy_sections_total [OF _ r(1), of f ?c room] assms(2,3) obtain c where c: "copy_sections room f ss ?c = Inr c"
    by (auto simp: linked_def)
  from copy_sections_ok [OF c r] have k: "out_ok c ?body"
    "noffMagic (noffH c) = NOFFMAGIC" "seg_total (noffH c) = sum_list (map s_size ss)" by (simp_all add: seg_total_def)
  have "coff_Write room (outFile c) 0 (header_bytes big (noffH c)) 40 = Inr (header_bytes big (noffH c) @ ?body, 40)"
    using k(1) assms(3) coff_Write_eq [of room "outFile c" 0 "header_bytes big (noffH c)" 40] by (auto simp: out_ok_def uWriteAt_def)
  then have "coff2noff room big junkH f = Inr (header_bytes big (noffH c) @ ?body)"
    using assms(1) c by (simp add: coff2noff_def)
  moreover have "unat (seg_total (noffH c)) = sum_list (map (\<lambda>s. unat (s_size s)) ss)"
    using unat_sum_list [of "map s_size ss"] assms(2) by (simp add: k(3) linked_def comp_def)
  ultimately show ?thesis using k(2) by blast
qed

lemma new_AddrSpace_written:
  assumes "noff = header_bytes big h @ body" "noffMagic h = NOFFMAGIC" "8 \<le> length jw" "256 \<le> length js" "big \<longrightarrow> big'"
  shows "\<exists>s. new_AddrSpace big' junk jp jw js noff = Inr s \<and> executable s = noff \<and>
    numPages s = divRoundUp (unat (seg_total h)) PageSize + StackPages \<and>
    pages s = map (\<lambda>i. fresh_page (jp i) i InExecutable) [0..<numPages s]"
proof -
  from new_fileTable_ok [OF assms(3,4)] obtain ft where ft: "new_fileTable jw js = Inr ft" by blast
  note w = noff_word_written(1) [where big = big and junk = junk and h = h and body = body]
    noff_word_written(2) [where junk = junk and h = h and body = body]
  have v: "noff_word b j f 0 \<noteq> NOFFMAGIC" if "WordToHost True (noff_word b j f 0) = NOFFMAGIC" for b j f
    using that by (auto simp: WordToHost_def)
  show ?thesis
  proof (cases "big' = big")
    case True
    then show ?thesis using ft assms(2) w(1) [where k = 0] w(1) [where k = 3] w(1) [where k = 6] w(1) [where k = 9]
      by (simp add: assms(1) new_AddrSpace_def read_NoffHeader_def Let_def seg_total_def divRoundUp_def)
  next
    case False
    then have b: "big' = True" "big = False" using assms(5) by auto
    show ?thesis using ft assms(2) w(2) [where k = 0] w(2) [where k = 3] w(2) [where k = 6] w(2) [where k = 9] v [of True junk noff]
      by (simp add: assms(1) b new_AddrSpace_def read_NoffHeader_def SwapHeader_def Let_def seg_total_def divRoundUp_def)
  qed
qed

lemma pad_read: "i < PageSize \<Longrightarrow> pad (uReadAt f PageSize q) ! i = (if q + i < length f then f ! (q + i) else 0)"
  by (auto simp: pad_def uReadAt_def)

text \<open>
  C12: a program that is linked as the converter assumes reaches its process unchanged: \<^verbatim>\<open>coff2noff\<close> accepts it, and
  demand paging of the executable that it writes finds, at every address of the new address space, the byte of the COFF
  section that the linker placed at that address, and 0 in the uninitialised data and the stack; the address space has
  room for all sections and a stack of \<^verbatim>\<open>UserStackSize\<close> bytes above them. The hosts of converter and kernel may differ
  in byte order if the converter ran on the little-endian one.
\<close>

theorem converted_program_loads:
  assumes "read_sections big f = Inr (ss, p)" "linked f ss" "40 + sum_list (map (\<lambda>s. unat (s_size s)) (filter copied ss)) \<le> room"
    "8 \<le> length jw" "256 \<le> length js" "big \<longrightarrow> big'"
  shows "\<exists>noff s. coff2noff room big junkH f = Inr noff \<and> new_AddrSpace big' junk jp jw js noff = Inr s \<and>
    sum_list (map (\<lambda>s. unat (s_size s)) ss) + UserStackSize \<le> numPages s * PageSize \<and>
    (\<forall>x < numPages s * PageSize. \<exists>bs. page_bytes (put_space a s vm) a (x div PageSize) = Some bs \<and>
       bs ! (x mod PageSize) = program_byte f ss x)"
proof -
  let ?body = "concat (map (sec_bytes f) (filter copied ss))"
  from coff2noff_written [OF assms(1-3), of junkH] obtain h noff where h: "noff = header_bytes big h @ ?body" "noffMagic h = NOFFMAGIC"
    "unat (seg_total h) = sum_list (map (\<lambda>s. unat (s_size s)) ss)" "coff2noff room big junkH f = Inr noff" by blast
  have ok: "list_all (sec_ok f) (filter copied ss)" using assms(2) by (simp add: linked_def)
  from new_AddrSpace_written [OF h(1,2) assms(4-6), of junk jp] obtain s where s: "new_AddrSpace big' junk jp jw js noff = Inr s"
    "executable s = noff" "numPages s = divRoundUp (unat (seg_total h)) PageSize + StackPages"
    "pages s = map (\<lambda>i. fresh_page (jp i) i InExecutable) [0..<numPages s]" by blast
  have room: "sum_list (map (\<lambda>s. unat (s_size s)) ss) + UserStackSize \<le> numPages s * PageSize"
    using divRoundUp_covers [of PageSize "unat (seg_total h)"] by (simp add: s(3) h(3))
  have "\<exists>bs. page_bytes (put_space a s vm) a (x div PageSize) = Some bs \<and> bs ! (x mod PageSize) = program_byte f ss x"
    if x: "x < numPages s * PageSize" for x
  proof -
    have v: "x div PageSize < numPages s" using x by (simp add: less_mult_imp_div_less)
    have o: "40 + x div PageSize * PageSize + x mod PageSize = 40 + x" by simp
    have p: "pages s ! (x div PageSize) = fresh_page (jp (x div PageSize)) (x div PageSize) InExecutable" using v by (subst s(4)) simp
    let ?bs = "uReadAt noff PageSize (40 + x div PageSize * PageSize)"
    have "page_bytes (put_space a s vm) a (x div PageSize) = Some (pad ?bs)"
      using v by (simp add: page_bytes_def put_space_def p fresh_page_def src_bytes_def page_source_def s(2))
    moreover have "pad ?bs ! (x mod PageSize) = (if x < length ?body then ?body ! x else 0)"
      using pad_read [of "x mod PageSize" noff "40 + x div PageSize * PageSize", unfolded o] by (simp add: h(1) nth_append)
    moreover have "program_byte f ss x = (if x < length ?body then ?body ! x else 0)"
      using image_byte [OF _ ok, of 0 x] assms(2) by (simp add: linked_def program_byte_def Let_def)
    ultimately show ?thesis by simp
  qed
  with s(1) h(4) room show ?thesis by blast
qed

text \<open>A program of three sections: four bytes of code, three of data, eight of uninitialised data.\<close>

definition demo_coff :: "8 word list" where
  "demo_coff = [0x62, 1, 3, 0] @ replicate 16 0 @ [7, 1] @ replicate 54 0 @
     [46, 116, 101, 120, 116, 0, 0, 0] @ [0, 0, 0, 0] @ replicate 4 0 @ [4, 0, 0, 0] @ [196, 0, 0, 0] @ replicate 16 0 @
     [46, 100, 97, 116, 97, 0, 0, 0] @ [4, 0, 0, 0] @ replicate 4 0 @ [3, 0, 0, 0] @ [200, 0, 0, 0] @ replicate 16 0 @
     [46, 98, 115, 115, 0, 0, 0, 0] @ [7, 0, 0, 0] @ replicate 4 0 @ [8, 0, 0, 0] @ [0, 0, 0, 0] @ replicate 16 0 @
     [1, 2, 3, 4] @ [5, 6, 7]"

definition demo_sections :: "scnhdr list" where
  "demo_sections =
     [\<lparr>s_name = [46, 116, 101, 120, 116, 0, 0, 0], s_paddr = 0, s_size = 4, s_scnptr = 196\<rparr>,
      \<lparr>s_name = [46, 100, 97, 116, 97, 0, 0, 0], s_paddr = 4, s_size = 3, s_scnptr = 200\<rparr>,
      \<lparr>s_name = [46, 98, 115, 115, 0, 0, 0, 0], s_paddr = 7, s_size = 8, s_scnptr = 0\<rparr>]"

lemmas section_defs = demo_sections_def copied_def is_text_def is_data_def is_bss_def name_is_def in_range_def

lemma demo_linked: "linked demo_coff demo_sections"
  by (simp add: linked_def section_defs known_def sec_ok_def sec_bytes_def demo_coff_def)

lemma demo_read: "read_sections False demo_coff = Inr (demo_sections, 196)"
proof -
  have l: "length demo_coff = 203" by (simp add: demo_coff_def)
  have a: "take 20 demo_coff = [0x62, 1, 3, 0] @ replicate 16 0" by (simp add: demo_coff_def)
  have b: "take 56 (drop 20 demo_coff) = [7, 1] @ replicate 54 0" by (simp add: demo_coff_def)
  have c: "take 120 (drop 76 demo_coff) =
    [46, 116, 101, 120, 116, 0, 0, 0] @ [0, 0, 0, 0] @ replicate 4 0 @ [4, 0, 0, 0] @ [196, 0, 0, 0] @ replicate 16 0 @
    [46, 100, 97, 116, 97, 0, 0, 0] @ [4, 0, 0, 0] @ replicate 4 0 @ [3, 0, 0, 0] @ [200, 0, 0, 0] @ replicate 16 0 @
    [46, 98, 115, 115, 0, 0, 0, 0] @ [7, 0, 0, 0] @ replicate 4 0 @ [8, 0, 0, 0] @ [0, 0, 0, 0] @ replicate 16 0" by (simp add: demo_coff_def)
  show ?thesis
    by (simp add: read_sections_def coff_Read_def uReadAt_def l a b c ShortToHost_def WordToHost_def host_load16_def host_load32_def Let_def
        read_scnhdr_def nth_append nth_Cons' upt_rec demo_sections_def push_bit_eq_mult)
qed

theorem converted_program_loads_witness:
  "\<forall>h jp vm. \<exists>noff s. coff2noff 100 False h demo_coff = Inr noff \<and>
     new_AddrSpace True (\<lambda>_. 0) jp (replicate 8 0) (replicate 256 None) noff = Inr s \<and> 15 + UserStackSize \<le> numPages s * PageSize \<and>
     (\<exists>bs. page_bytes (put_space 0 s vm) 0 0 = Some bs \<and> bs ! 5 = 6) \<and> (\<exists>bs. page_bytes (put_space 0 s vm) 0 1 = Some bs \<and> bs ! 0 = 0)"
proof (intro allI)
  fix h jp vm
  have "program_byte demo_coff demo_sections 5 = 6" "program_byte demo_coff demo_sections 128 = 0"
    by (simp_all add: program_byte_def section_defs holds_addr_def demo_coff_def nth_append nth_Cons')
  moreover have "40 + sum_list (map (\<lambda>s. unat (s_size s)) (filter copied demo_sections)) \<le> 100" "sum_list (map (\<lambda>s. unat (s_size s)) demo_sections) = 15"
    by (simp_all add: section_defs)
  ultimately obtain noff s where s: "coff2noff 100 False h demo_coff = Inr noff"
    "new_AddrSpace True (\<lambda>_. 0) jp (replicate 8 0) (replicate 256 None) noff = Inr s" "15 + UserStackSize \<le> numPages s * PageSize"
    "\<forall>x < numPages s * PageSize. \<exists>bs. page_bytes (put_space 0 s vm) 0 (x div PageSize) = Some bs \<and>
       bs ! (x mod PageSize) = program_byte demo_coff demo_sections x"
    "program_byte demo_coff demo_sections 5 = 6" "program_byte demo_coff demo_sections 128 = 0"
    using converted_program_loads [OF demo_read demo_linked, of 100 "replicate 8 0" "replicate 256 None" True h "\<lambda>_. 0" jp 0 vm] by auto
  show "\<exists>noff s. coff2noff 100 False h demo_coff = Inr noff \<and>
     new_AddrSpace True (\<lambda>_. 0) jp (replicate 8 0) (replicate 256 None) noff = Inr s \<and> 15 + UserStackSize \<le> numPages s * PageSize \<and>
     (\<exists>bs. page_bytes (put_space 0 s vm) 0 0 = Some bs \<and> bs ! 5 = 6) \<and> (\<exists>bs. page_bytes (put_space 0 s vm) 0 1 = Some bs \<and> bs ! 0 = 0)"
    using s(1-3) s(4) [rule_format, of 5] s(4) [rule_format, of 128] s(5,6) by (intro exI [of _ noff] exI [of _ s]) simp
qed

end
