(* ===== verification/Example_Stacks.thy ===== *)
theory Example_Stacks
  imports Nachos_Prelude "HOL-Library.Word"
begin

text \<open>
  The stacks of the C++ introduction (\<^verbatim>\<open>nachos-csci402/c++example\<close>): the array stacks of \<^verbatim>\<open>stack.cc\<close>,
  \<^verbatim>\<open>templatestack.cc\<close> and \<^verbatim>\<open>inheritstack.cc\<close>, the list of \<^verbatim>\<open>list.cc\<close> with its cells on a heap, and the
  stack over it. The abstract class \<^verbatim>\<open>Stack\<close> is a locale, with the virtual functions as its parameters.
\<close>

section \<open>Array stacks\<close>

text \<open>
  \<^verbatim>\<open>Stack<T>\<close>. The array is allocated uninitialised; \<open>junk\<close> are its contents.
\<close>

record 'a TStack =
  capacity :: int
  topIndex :: int
  arr :: "'a list"

definition new_TStack :: "(nat \<Rightarrow> 'a) \<Rightarrow> int \<Rightarrow> 'a TStack res" where
  "new_TStack junk sz =
     (if sz \<ge> 1 then Inr \<lparr>capacity = sz, topIndex = 0, arr = map junk [0..<nat sz]\<rparr> else Inl AssertionFailed)"

definition TStack_Full :: "'a TStack \<Rightarrow> bool" where "TStack_Full s \<longleftrightarrow> topIndex s = capacity s"

definition TStack_Empty :: "'a TStack \<Rightarrow> bool" where "TStack_Empty s \<longleftrightarrow> topIndex s = 0"

definition TStack_Push :: "'a \<Rightarrow> 'a TStack \<Rightarrow> 'a TStack res" where
  "TStack_Push v s =
     (if TStack_Full s then Inl AssertionFailed
      else if 0 \<le> topIndex s \<and> topIndex s < int (length (arr s)) then Inr (s\<lparr>arr := (arr s)[nat (topIndex s) := v], topIndex := topIndex s + 1\<rparr>)
      else Inl OutOfBounds)"

definition TStack_Pop :: "'a TStack \<Rightarrow> ('a \<times> 'a TStack) res" where
  "TStack_Pop s =
     (if TStack_Empty s then Inl AssertionFailed
      else let t = topIndex s - 1 in
           if 0 \<le> t \<and> t < int (length (arr s)) then Inr (arr s ! nat t, s\<lparr>topIndex := t\<rparr>) else Inl OutOfBounds)"

text \<open>What the test routines print. Their loops have fuel.\<close>

datatype 'a StackMsg = Pushing 'a | Popping 'a

fun fill_loop :: "nat \<Rightarrow> ('s \<Rightarrow> bool) \<Rightarrow> ('a \<Rightarrow> 's \<Rightarrow> 's res) \<Rightarrow> 'a::{one,plus} \<Rightarrow> 's \<Rightarrow> ('a StackMsg list \<times> 's) res" where
  "fill_loop 0 isFull push count s = Inl Diverges"
| "fill_loop (Suc n) isFull push count s =
     (if isFull s then Inr ([], s)
      else bindR (push count s) (\<lambda>s1.
           bindR (fill_loop n isFull push (count + 1) s1) (\<lambda>(out, s2). Inr (Pushing count # out, s2))))"

fun drain_loop :: "nat \<Rightarrow> ('s \<Rightarrow> bool) \<Rightarrow> ('s \<Rightarrow> ('a \<times> 's) res) \<Rightarrow> 's \<Rightarrow> ('a StackMsg list \<times> 's) res" where
  "drain_loop 0 isEmpty pop s = Inl Diverges"
| "drain_loop (Suc n) isEmpty pop s =
     (if isEmpty s then Inr ([], s)
      else bindR (pop s) (\<lambda>(v, s1). bindR (drain_loop n isEmpty pop s1) (\<lambda>(out, s2). Inr (Popping v # out, s2))))"

definition TStack_SelfTest :: "nat \<Rightarrow> 'a::{one,plus} \<Rightarrow> 'a TStack \<Rightarrow> ('a StackMsg list \<times> 'a TStack) res" where
  "TStack_SelfTest n start s =
     bindR (fill_loop n TStack_Full TStack_Push start s) (\<lambda>(out1, s1).
     bindR (drain_loop n TStack_Empty TStack_Pop s1) (\<lambda>(out2, s2). Inr (out1 @ out2, s2)))"

text \<open>\<^verbatim>\<open>main\<close> of \<^verbatim>\<open>templatestack.cc\<close> tests a stack of \<^verbatim>\<open>int\<close> and one of \<^verbatim>\<open>char\<close>.\<close>

definition template_main :: "nat \<Rightarrow> (nat \<Rightarrow> 32 word) \<Rightarrow> (nat \<Rightarrow> 8 word) \<Rightarrow> (32 word StackMsg list \<times> 8 word StackMsg list) res" where
  "template_main n junk1 junk2 =
     bindR (new_TStack junk1 10) (\<lambda>s1.
     bindR (new_TStack junk2 10) (\<lambda>s2.
     bindR (TStack_SelfTest n 17 s1) (\<lambda>(out1, _).
     bindR (TStack_SelfTest n 97 s2) (\<lambda>(out2, _). Inr (out1, out2)))))"

text \<open>The class of \<^verbatim>\<open>stack.cc\<close> is the template for \<^verbatim>\<open>int\<close>, word for word.\<close>

definition new_Stack :: "(nat \<Rightarrow> 32 word) \<Rightarrow> int \<Rightarrow> 32 word TStack res" where "new_Stack = new_TStack"
definition Stack_Full :: "32 word TStack \<Rightarrow> bool" where "Stack_Full = TStack_Full"
definition Stack_Empty :: "32 word TStack \<Rightarrow> bool" where "Stack_Empty = TStack_Empty"
definition Stack_Push :: "32 word \<Rightarrow> 32 word TStack \<Rightarrow> 32 word TStack res" where "Stack_Push = TStack_Push"
definition Stack_Pop :: "32 word TStack \<Rightarrow> (32 word \<times> 32 word TStack) res" where "Stack_Pop = TStack_Pop"

definition Stack_SelfTest :: "nat \<Rightarrow> 32 word TStack \<Rightarrow> (32 word StackMsg list \<times> 32 word TStack) res" where
  "Stack_SelfTest n s =
     bindR (fill_loop n Stack_Full Stack_Push 17 s) (\<lambda>(out1, s1).
     bindR (drain_loop n Stack_Empty Stack_Pop s1) (\<lambda>(out2, s2). Inr (out1 @ out2, s2)))"

definition stack_main :: "nat \<Rightarrow> (nat \<Rightarrow> 32 word) \<Rightarrow> 32 word StackMsg list res" where
  "stack_main n junk = bindR (new_Stack junk 10) (\<lambda>s. bindR (Stack_SelfTest n s) (\<lambda>(out, _). Inr out))"

section \<open>The list\<close>

record ListCell =
  nextCell :: "nat option"
  cellItem :: "32 word"

text \<open>A list with the heap that holds its cells; addresses from \<open>heapEnd\<close> on have not been allocated.\<close>

record IntList =
  firstCell :: "nat option"
  lastCell :: "nat option"
  cells :: "nat \<Rightarrow> ListCell option"
  heapEnd :: nat

definition new_IntList :: "nat \<Rightarrow> IntList" where
  "new_IntList a = \<lparr>firstCell = None, lastCell = None, cells = Map.empty, heapEnd = a\<rparr>"

definition IntList_Empty :: "IntList \<Rightarrow> bool" where "IntList_Empty l \<longleftrightarrow> firstCell l = None"

definition IntList_Prepend :: "32 word \<Rightarrow> IntList \<Rightarrow> IntList res" where
  "IntList_Prepend v l =
     (let a = heapEnd l; l1 = l\<lparr>cells := (cells l)(a \<mapsto> \<lparr>nextCell = None, cellItem = v\<rparr>), heapEnd := a + 1\<rparr> in
      if IntList_Empty l1 then Inr (l1\<lparr>firstCell := Some a, lastCell := Some a\<rparr>)
      else Inr (l1\<lparr>cells := (cells l1)(a \<mapsto> \<lparr>nextCell = firstCell l1, cellItem = v\<rparr>), firstCell := Some a\<rparr>))"

definition IntList_Remove :: "IntList \<Rightarrow> (32 word \<times> IntList) res" where
  "IntList_Remove l = (case firstCell l of
     None \<Rightarrow> Inl AssertionFailed
   | Some a \<Rightarrow> (case cells l a of
       None \<Rightarrow> Inl UseAfterFree
     | Some element \<Rightarrow>
         let l1 = (if firstCell l = lastCell l then l\<lparr>firstCell := None, lastCell := None\<rparr>
                   else l\<lparr>firstCell := nextCell element\<rparr>) in
         Inr (cellItem element, l1\<lparr>cells := (cells l1)(a := None)\<rparr>)))"

fun IntList_destroy :: "nat \<Rightarrow> IntList \<Rightarrow> IntList res" where
  "IntList_destroy 0 l = Inl Diverges"
| "IntList_destroy (Suc n) l = (if IntList_Empty l then Inr l else bindR (IntList_Remove l) (\<lambda>(_, l1). IntList_destroy n l1))"

section \<open>The abstract class and its implementations\<close>

text \<open>\<^verbatim>\<open>Stack::SelfTest\<close> calls the virtual functions of the object it is given.\<close>

fun push_loop :: "('s \<Rightarrow> bool) \<Rightarrow> (32 word \<Rightarrow> 's \<Rightarrow> 's res) \<Rightarrow> nat \<Rightarrow> 32 word \<Rightarrow> 's \<Rightarrow> (32 word StackMsg list \<times> 's) res" where
  "push_loop isFull push 0 count s = Inr ([], s)"
| "push_loop isFull push (Suc n) count s =
     (if isFull s then Inl AssertionFailed
      else bindR (push count s) (\<lambda>s1.
           bindR (push_loop isFull push n (count + 1) s1) (\<lambda>(out, s2). Inr (Pushing count # out, s2))))"

definition SelfTest ::
  "nat \<Rightarrow> ('s \<Rightarrow> bool) \<Rightarrow> ('s \<Rightarrow> bool) \<Rightarrow> (32 word \<Rightarrow> 's \<Rightarrow> 's res) \<Rightarrow> ('s \<Rightarrow> (32 word \<times> 's) res) \<Rightarrow> int \<Rightarrow> 's \<Rightarrow>
     (32 word StackMsg list \<times> 's) res" where
  "SelfTest fuel isFull isEmpty push pop numToPush s =
     bindR (push_loop isFull push (nat numToPush) 17 s) (\<lambda>(out1, s1).
     bindR (drain_loop fuel isEmpty pop s1) (\<lambda>(out2, s2). Inr (out1 @ out2, s2)))"

text \<open>The members of \<^verbatim>\<open>ArrayStack\<close> are those of the class of \<^verbatim>\<open>stack.cc\<close> again.\<close>

definition new_ArrayStack :: "(nat \<Rightarrow> 32 word) \<Rightarrow> int \<Rightarrow> 32 word TStack res" where "new_ArrayStack = new_TStack"
definition ArrayStack_Full :: "32 word TStack \<Rightarrow> bool" where "ArrayStack_Full = TStack_Full"
definition ArrayStack_Empty :: "32 word TStack \<Rightarrow> bool" where "ArrayStack_Empty = TStack_Empty"
definition ArrayStack_Push :: "32 word \<Rightarrow> 32 word TStack \<Rightarrow> 32 word TStack res" where "ArrayStack_Push = TStack_Push"
definition ArrayStack_Pop :: "32 word TStack \<Rightarrow> (32 word \<times> 32 word TStack) res" where "ArrayStack_Pop = TStack_Pop"

definition new_ListStack :: "nat \<Rightarrow> IntList" where "new_ListStack = new_IntList"
definition ListStack_Full :: "IntList \<Rightarrow> bool" where "ListStack_Full s \<longleftrightarrow> False"
definition ListStack_Empty :: "IntList \<Rightarrow> bool" where "ListStack_Empty s = IntList_Empty s"
definition ListStack_Push :: "32 word \<Rightarrow> IntList \<Rightarrow> IntList res" where "ListStack_Push v s = IntList_Prepend v s"

definition ListStack_Pop :: "IntList \<Rightarrow> (32 word \<times> IntList) res" where
  "ListStack_Pop s = (if ListStack_Empty s then Inl AssertionFailed else IntList_Remove s)"

definition ListStack_destroy :: "nat \<Rightarrow> IntList \<Rightarrow> IntList res" where "ListStack_destroy = IntList_destroy"

definition inherit_main :: "nat \<Rightarrow> (nat \<Rightarrow> 32 word) \<Rightarrow> nat \<Rightarrow> (32 word StackMsg list \<times> 32 word StackMsg list \<times> IntList) res" where
  "inherit_main fuel junk a =
     bindR (new_ArrayStack junk 10) (\<lambda>s1.
     bindR (SelfTest fuel ArrayStack_Full ArrayStack_Empty ArrayStack_Push ArrayStack_Pop 10 s1) (\<lambda>(out1, _).
     bindR (SelfTest fuel ListStack_Full ListStack_Empty ListStack_Push ListStack_Pop 10 (new_ListStack a)) (\<lambda>(out2, s2).
     bindR (ListStack_destroy fuel s2) (\<lambda>s3. Inr (out1, out2, s3)))))"

text \<open>The numbers a test pushes.\<close>

definition nums :: "'w::len word \<Rightarrow> nat \<Rightarrow> 'w word list" where "nums c k = map (\<lambda>i. c + of_nat i) [0..<k]"

lemma nums_0 [simp]: "nums c 0 = []" by (simp add: nums_def)

lemma nums_Suc: "nums c (Suc k) = c # nums (c + 1) k"
  by (simp add: nums_def upt_conv_Cons map_Suc_upt [symmetric] comp_def add.assoc del: upt_Suc)

lemma length_nums [simp]: "length (nums c k) = k" by (simp add: nums_def)

section \<open>The contract of the abstract class\<close>

text \<open>
  \<open>R s xs\<close>: the object \<open>s\<close> stands for the stack \<open>xs\<close>, top first; \<open>bound\<close> is its capacity, if it has one.
\<close>

locale abstract_stack =
  fixes isFull isEmpty :: "'s \<Rightarrow> bool" and push :: "'w::len word \<Rightarrow> 's \<Rightarrow> 's res" and pop :: "'s \<Rightarrow> ('w word \<times> 's) res"
    and R :: "'s \<Rightarrow> 'w word list \<Rightarrow> bool" and bound :: "'s \<Rightarrow> nat option"
  assumes full_iff: "R s xs \<Longrightarrow> isFull s \<longleftrightarrow> bound s = Some (length xs)"
    and empty_iff: "R s xs \<Longrightarrow> isEmpty s \<longleftrightarrow> xs = []"
    and push_ok: "R s xs \<Longrightarrow> \<not> isFull s \<Longrightarrow> \<exists>s'. push v s = Inr s' \<and> R s' (v # xs) \<and> bound s' = bound s"
    and push_full: "R s xs \<Longrightarrow> isFull s \<Longrightarrow> push v s = Inl AssertionFailed"
    and pop_ok: "R s (x # xs) \<Longrightarrow> \<exists>s'. pop s = Inr (x, s') \<and> R s' xs \<and> bound s' = bound s"
    and pop_empty: "R s [] \<Longrightarrow> pop s = Inl AssertionFailed"
begin

lemma drain:
  assumes "R s xs" "length xs < n"
  shows "\<exists>s'. drain_loop n isEmpty pop s = Inr (map Popping xs, s') \<and> R s' [] \<and> bound s' = bound s"
  using assms
proof (induction n arbitrary: s xs)
  case (Suc n)
  show ?case
  proof (cases xs)
    case Nil
    then show ?thesis using Suc.prems empty_iff by auto
  next
    case (Cons x ys)
    with pop_ok Suc.prems obtain s' where s': "pop s = Inr (x, s')" "R s' ys" "bound s' = bound s" by blast
    from Suc.IH [OF s'(2)] Suc.prems Cons s' show ?thesis using empty_iff [OF Suc.prems(1)] by auto
  qed
qed simp

lemma fill:
  assumes "R s xs" "bound s = Some (length xs + k)" "k < n"
  shows "\<exists>s'. fill_loop n isFull push c s = Inr (map Pushing (nums c k), s') \<and> R s' (rev (nums c k) @ xs) \<and> bound s' = bound s"
  using assms
proof (induction n arbitrary: s xs k c)
  case (Suc n)
  show ?case
  proof (cases k)
    case 0
    then show ?thesis using Suc.prems full_iff by auto
  next
    case (Suc j)
    then have f: "\<not> isFull s" using Suc.prems full_iff by auto
    from push_ok [OF Suc.prems(1) f] obtain s' where s': "push c s = Inr s'" "R s' (c # xs)" "bound s' = bound s" by blast
    from Suc.IH [OF s'(2), of j "c + 1"] Suc.prems Suc s' f show ?thesis by (auto simp: nums_Suc)
  qed
qed simp

end

text \<open>The test of the abstract class uses only its contract.\<close>

locale int_stack = abstract_stack isFull isEmpty push pop R bound
  for isFull isEmpty :: "'s \<Rightarrow> bool" and push :: "32 word \<Rightarrow> 's \<Rightarrow> 's res" and pop R bound
begin

lemma push_loop_ok:
  assumes "R s xs" "case bound s of None \<Rightarrow> True | Some b \<Rightarrow> length xs + k \<le> b"
  shows "\<exists>s'. push_loop isFull push k c s = Inr (map Pushing (nums c k), s') \<and> R s' (rev (nums c k) @ xs) \<and> bound s' = bound s"
  using assms
proof (induction k arbitrary: s xs c)
  case (Suc k)
  then have f: "\<not> isFull s" using full_iff by auto
  from push_ok [OF Suc.prems(1) f] obtain s' where s': "push c s = Inr s'" "R s' (c # xs)" "bound s' = bound s" by blast
  from Suc.IH [OF s'(2), of "c + 1"] Suc.prems s' f show ?case by (auto simp: nums_Suc split: option.splits)
qed (auto simp: nums_def)

lemma push_loop_overflows:
  assumes "R s xs" "bound s = Some b" "length xs \<le> b" "b < length xs + k"
  shows "push_loop isFull push k c s = Inl AssertionFailed"
  using assms
proof (induction k arbitrary: s xs c)
  case (Suc k)
  show ?case
  proof (cases "isFull s")
    case False
    from push_ok [OF Suc.prems(1) False] obtain s' where s': "push c s = Inr s'" "R s' (c # xs)" "bound s' = bound s" by blast
    have "length xs \<noteq> b" using False full_iff [OF Suc.prems(1)] Suc.prems(2) by auto
    with Suc.IH [OF s'(2)] Suc.prems s' False show ?thesis by auto
  qed simp
qed simp

lemma selftest:
  assumes "R s []" "nat n < fuel"
  shows "case bound s of
      Some b \<Rightarrow> if nat n \<le> b
        then \<exists>s'. SelfTest fuel isFull isEmpty push pop n s = Inr (map Pushing (nums 17 (nat n)) @ map Popping (rev (nums 17 (nat n))), s') \<and> R s' []
        else SelfTest fuel isFull isEmpty push pop n s = Inl AssertionFailed
    | None \<Rightarrow> \<exists>s'. SelfTest fuel isFull isEmpty push pop n s = Inr (map Pushing (nums 17 (nat n)) @ map Popping (rev (nums 17 (nat n))), s') \<and> R s' []"
proof (cases "case bound s of None \<Rightarrow> True | Some b \<Rightarrow> nat n \<le> b")
  case True
  with push_loop_ok [OF assms(1), of "nat n" 17] obtain s1 where
    s1: "push_loop isFull push (nat n) 17 s = Inr (map Pushing (nums 17 (nat n)), s1)" "R s1 (rev (nums 17 (nat n)))"
    by (auto split: option.splits)
  from drain [OF s1(2), of fuel] assms(2) s1 True show ?thesis by (auto simp: SelfTest_def nums_def split: option.splits)
next
  case False
  then show ?thesis using push_loop_overflows [OF assms(1)] by (auto simp: SelfTest_def split: option.splits)
qed

end

section \<open>Both implementations keep the contract\<close>

definition TStack_rep :: "'a TStack \<Rightarrow> 'a list \<Rightarrow> bool" where
  "TStack_rep s xs \<longleftrightarrow> topIndex s = int (length xs) \<and> length xs \<le> length (arr s) \<and> capacity s = int (length (arr s)) \<and>
     take (length xs) (arr s) = rev xs"

definition TStack_bound :: "'a TStack \<Rightarrow> nat option" where "TStack_bound s = Some (length (arr s))"

lemmas TStack_laws = TStack_rep_def TStack_Full_def TStack_Empty_def TStack_Push_def TStack_Pop_def TStack_bound_def

interpretation ts: abstract_stack TStack_Full TStack_Empty TStack_Push TStack_Pop TStack_rep TStack_bound
  by unfold_locales (auto simp: TStack_laws Let_def take_Suc_conv_app_nth)

interpretation array_stack: int_stack ArrayStack_Full ArrayStack_Empty ArrayStack_Push ArrayStack_Pop TStack_rep TStack_bound
  unfolding ArrayStack_Full_def ArrayStack_Empty_def ArrayStack_Push_def ArrayStack_Pop_def
  by unfold_locales

fun chain :: "(nat \<Rightarrow> ListCell option) \<Rightarrow> nat option \<Rightarrow> nat list \<Rightarrow> 32 word list \<Rightarrow> bool" where
  "chain h p [] xs \<longleftrightarrow> p = None \<and> xs = []"
| "chain h p (a # as) xs \<longleftrightarrow> p = Some a \<and>
     (case h a of None \<Rightarrow> False | Some c \<Rightarrow> (case xs of [] \<Rightarrow> False | x # ys \<Rightarrow> x = cellItem c \<and> chain h (nextCell c) as ys))"

definition IntList_rep :: "IntList \<Rightarrow> 32 word list \<Rightarrow> bool" where
  "IntList_rep l xs \<longleftrightarrow> (\<exists>as. chain (cells l) (firstCell l) as xs \<and> distinct as \<and> dom (cells l) = set as \<and>
     (\<forall>a \<in> set as. a < heapEnd l) \<and> lastCell l = (if as = [] then None else Some (last as)))"

lemma chain_frame: "a \<notin> set as \<Longrightarrow> chain (h(a := c)) p as xs = chain h p as xs"
  by (induction as arbitrary: p xs) (auto split: option.splits list.splits)

lemma chain_Nil: "chain h p as [] \<longleftrightarrow> as = [] \<and> p = None"
  by (cases as) (auto split: option.splits)

lemma Prepend_rep:
  assumes "IntList_rep l xs"
  shows "\<exists>l'. IntList_Prepend v l = Inr l' \<and> IntList_rep l' (v # xs)"
proof -
  from assms obtain as where as: "chain (cells l) (firstCell l) as xs" "distinct as" "dom (cells l) = set as"
    "\<forall>a \<in> set as. a < heapEnd l" "lastCell l = (if as = [] then None else Some (last as))" by (auto simp: IntList_rep_def)
  have a: "heapEnd l \<notin> set as" using as(4) by blast
  have e: "firstCell l = None \<longleftrightarrow> as = []" using as(1) by (cases as) auto
  define l' where "l' = \<lparr>firstCell = Some (heapEnd l), lastCell = (if as = [] then Some (heapEnd l) else lastCell l),
    cells = (cells l)(heapEnd l \<mapsto> \<lparr>nextCell = firstCell l, cellItem = v\<rparr>), heapEnd = heapEnd l + 1\<rparr>"
  have l: "IntList_Prepend v l = Inr l'" using e by (cases l) (auto simp: IntList_Prepend_def IntList_Empty_def Let_def l'_def)
  have "IntList_rep l' (v # xs)" unfolding IntList_rep_def
    by (rule exI [of _ "heapEnd l # as"]) (use as a in \<open>auto simp: chain_frame l'_def\<close>)
  with l show ?thesis by blast
qed

lemma Remove_rep:
  assumes "IntList_rep l (x # xs)"
  shows "\<exists>l'. IntList_Remove l = Inr (x, l') \<and> IntList_rep l' xs"
proof -
  from assms obtain as where as: "chain (cells l) (firstCell l) as (x # xs)" "distinct as" "dom (cells l) = set as"
    "\<forall>a \<in> set as. a < heapEnd l" "lastCell l = (if as = [] then None else Some (last as))" by (auto simp: IntList_rep_def)
  from as(1) obtain a bs c where a: "as = a # bs" "firstCell l = Some a" "cells l a = Some c" "x = cellItem c" "chain (cells l) (nextCell c) bs xs"
    by (cases as) (auto split: option.splits)
  have one: "firstCell l = lastCell l \<longleftrightarrow> bs = []" using as(2,5) a(1,2) by auto
  have nx: "bs = [] \<longrightarrow> nextCell c = None" using a(5) by auto
  obtain l' where l': "IntList_Remove l = Inr (x, l')" "firstCell l' = nextCell c" "cells l' = (cells l)(a := None)"
    "heapEnd l' = heapEnd l" "lastCell l' = (if bs = [] then None else lastCell l)"
    using a one nx by (auto simp: IntList_Remove_def Let_def)
  have "IntList_rep l' xs" unfolding IntList_rep_def
    by (rule exI [of _ bs]) (use as a l' in \<open>auto simp: chain_frame\<close>)
  with l'(1) show ?thesis by blast
qed

lemma IntList_Empty_rep: "IntList_rep l xs \<Longrightarrow> IntList_Empty l \<longleftrightarrow> xs = []"
  unfolding IntList_rep_def IntList_Empty_def
proof (elim exE conjE)
  fix as assume "chain (cells l) (firstCell l) as xs"
  then show "firstCell l = None \<longleftrightarrow> xs = []" by (cases as; cases xs) (auto split: option.splits)
qed

interpretation list_stack: int_stack ListStack_Full ListStack_Empty ListStack_Push ListStack_Pop IntList_rep "\<lambda>_. None"
  by unfold_locales (auto simp: ListStack_Full_def ListStack_Empty_def ListStack_Push_def ListStack_Pop_def IntList_Empty_rep
      intro: Prepend_rep Remove_rep)

lemma new_TStack_rep: "1 \<le> sz \<Longrightarrow> \<exists>s. new_TStack junk sz = Inr s \<and> TStack_rep s [] \<and> TStack_bound s = Some (nat sz)"
  by (simp add: new_TStack_def TStack_rep_def TStack_bound_def)

lemma new_IntList_rep: "IntList_rep (new_IntList a) []"
  unfolding IntList_rep_def by (rule exI [of _ "[]"]) (simp add: new_IntList_def)

lemma destroy_rep:
  assumes "IntList_rep l xs" "length xs < n"
  shows "\<exists>l'. IntList_destroy n l = Inr l' \<and> cells l' = Map.empty"
  using assms
proof (induction n arbitrary: l xs)
  case (Suc n)
  show ?case
  proof (cases xs)
    case Nil
    with Suc.prems(1) have "cells l = Map.empty" "IntList_Empty l" by (auto simp: IntList_rep_def IntList_Empty_def chain_Nil)
    then show ?thesis by simp
  next
    case (Cons x ys)
    with Remove_rep Suc.prems(1) obtain l' where "IntList_Remove l = Inr (x, l')" "IntList_rep l' ys" by blast
    with Suc.IH [of l' ys] Suc.prems Cons show ?thesis by (simp add: IntList_Empty_rep [OF Suc.prems(1)])
  qed
qed simp

definition test_output :: "nat \<Rightarrow> 32 word StackMsg list" where
  "test_output n = map Pushing (nums 17 n) @ map Popping (rev (nums 17 n))"

text \<open>
  the test of the abstract class behaves the same on both implementations: it prints the numbers from 17 on that it
  pushes and then the same numbers in reverse; an array stack that is too small fails the assertion, and deleting the
  list stack afterwards frees every cell.
\<close>

theorem selftest_of_both_stacks:
  assumes "1 \<le> sz" "nat n < fuel"
  shows "(\<exists>s. new_ArrayStack junk sz = Inr s \<and>
      (if n \<le> sz then \<exists>s'. SelfTest fuel ArrayStack_Full ArrayStack_Empty ArrayStack_Push ArrayStack_Pop n s = Inr (test_output (nat n), s')
       else SelfTest fuel ArrayStack_Full ArrayStack_Empty ArrayStack_Push ArrayStack_Pop n s = Inl AssertionFailed)) \<and>
    (\<exists>l' l''. SelfTest fuel ListStack_Full ListStack_Empty ListStack_Push ListStack_Pop n (new_ListStack a) = Inr (test_output (nat n), l') \<and>
       ListStack_destroy fuel l' = Inr l'' \<and> cells l'' = Map.empty)"
proof (rule conjI)
  from new_TStack_rep [OF assms(1)] obtain s :: "32 word TStack" where
    s: "new_TStack junk sz = Inr s" "TStack_rep s []" "TStack_bound s = Some (nat sz)" by blast
  have "nat n \<le> nat sz \<longleftrightarrow> n \<le> sz" using assms(1) by auto
  with array_stack.selftest [OF s(2) assms(2)] s(1,3) show "\<exists>s. new_ArrayStack junk sz = Inr s \<and>
      (if n \<le> sz then \<exists>s'. SelfTest fuel ArrayStack_Full ArrayStack_Empty ArrayStack_Push ArrayStack_Pop n s = Inr (test_output (nat n), s')
       else SelfTest fuel ArrayStack_Full ArrayStack_Empty ArrayStack_Push ArrayStack_Pop n s = Inl AssertionFailed)"
    by (auto simp: new_ArrayStack_def test_output_def split: if_splits)
next
  from list_stack.selftest [OF new_IntList_rep assms(2), of a] obtain l' where
    l': "SelfTest fuel ListStack_Full ListStack_Empty ListStack_Push ListStack_Pop n (new_IntList a) = Inr (test_output (nat n), l')"
      "IntList_rep l' []" by (auto simp: test_output_def)
  from destroy_rep [OF l'(2), of fuel] assms(2) l'(1) show
    "\<exists>l' l''. SelfTest fuel ListStack_Full ListStack_Empty ListStack_Push ListStack_Pop n (new_ListStack a) = Inr (test_output (nat n), l') \<and>
       ListStack_destroy fuel l' = Inr l'' \<and> cells l'' = Map.empty"
    by (auto simp: new_ListStack_def ListStack_destroy_def)
qed

theorem selftest_of_both_stacks_witness:
  "\<exists>s s'. new_ArrayStack (\<lambda>_. 0) 2 = Inr s \<and>
    SelfTest 3 ArrayStack_Full ArrayStack_Empty ArrayStack_Push ArrayStack_Pop 2 s = Inr ([Pushing 17, Pushing 18, Popping 18, Popping 17], s')"
proof -
  have "test_output 2 = [Pushing 17, Pushing 18, Popping 18, Popping 17]" by (simp add: test_output_def nums_def upt_rec)
  then show ?thesis using selftest_of_both_stacks [of 2 2 3 "\<lambda>_. 0"] by auto
qed

text \<open>The three test programs print what their comments announce.\<close>

lemma TStack_SelfTest_ok:
  fixes c :: "'w::len word"
  assumes "1 \<le> sz" "nat sz < fuel"
  shows "\<exists>s s'. new_TStack junk sz = Inr s \<and>
    TStack_SelfTest fuel c s = Inr (map Pushing (nums c (nat sz)) @ map Popping (rev (nums c (nat sz))), s')"
proof -
  from new_TStack_rep [OF assms(1)] obtain s :: "'w word TStack" where
    s: "new_TStack junk sz = Inr s" "TStack_rep s []" "TStack_bound s = Some (nat sz)" by blast
  from ts.fill [OF s(2), of "nat sz" fuel c] s(3) assms(2) obtain s1 where
    s1: "fill_loop fuel TStack_Full TStack_Push c s = Inr (map Pushing (nums c (nat sz)), s1)" "TStack_rep s1 (rev (nums c (nat sz)))" by auto
  from ts.drain [OF s1(2), of fuel] assms(2) s(1) s1(1) show ?thesis by (auto simp: TStack_SelfTest_def)
qed

lemma test_programs:
  assumes "10 < fuel"
  shows "\<exists>l. inherit_main fuel junk a = Inr (test_output 10, test_output 10, l) \<and> cells l = Map.empty"
    and "stack_main fuel junk = Inr (map Pushing (nums 17 10) @ map Popping (rev (nums 17 10)))"
    and "template_main fuel junk junk' =
      Inr (map Pushing (nums 17 10) @ map Popping (rev (nums 17 10)), map Pushing (nums 97 10) @ map Popping (rev (nums 97 10)))"
proof -
  show "\<exists>l. inherit_main fuel junk a = Inr (test_output 10, test_output 10, l) \<and> cells l = Map.empty"
    using selftest_of_both_stacks [of 10 10 fuel junk a] assms by (auto simp: inherit_main_def)
  have eq: "Stack_SelfTest fuel s = TStack_SelfTest fuel 17 s" for s
    by (simp add: Stack_SelfTest_def TStack_SelfTest_def Stack_Full_def Stack_Empty_def Stack_Push_def Stack_Pop_def)
  from TStack_SelfTest_ok [of 10 fuel junk 17] TStack_SelfTest_ok [of 10 fuel junk' 97] assms show
    "stack_main fuel junk = Inr (map Pushing (nums 17 10) @ map Popping (rev (nums 17 10)))"
    "template_main fuel junk junk' =
      Inr (map Pushing (nums 17 10) @ map Popping (rev (nums 17 10)), map Pushing (nums 97 10) @ map Popping (rev (nums 97 10)))"
    by (auto simp: stack_main_def template_main_def eq new_Stack_def)
qed

end
