(* ===== verification/User_Switch.thy ===== *)
theory User_Switch
  imports VM_Reach
begin

text \<open>
  The context switch between threads that run user programs: \<^verbatim>\<open>Scheduler::Run\<close> of \<^verbatim>\<open>threads/scheduler.cc\<close> with the parts
  for user programs, and \<^verbatim>\<open>SaveUserState\<close>, \<^verbatim>\<open>RestoreUserState\<close>, \<^verbatim>\<open>CheckOverflow\<close> and the destructor of
  \<^verbatim>\<open>threads/thread.cc\<close>. \<^verbatim>\<open>SWITCH\<close> exchanges the kernel stacks of the host: after it, a thread continues behind its own
  last call of \<^verbatim>\<open>SWITCH\<close>, or in the function it was forked with when it has never run.
\<close>

section \<open>Threads and their user state\<close>

text \<open>
  \<open>fencepost\<close> is the word at the end of the stack, \<open>None\<close> for the main thread, which has no stack of its own; \<open>fresh\<close>
  threads have not run.
\<close>

record UThread =
  userRegisters :: "nat \<Rightarrow> 32 word"
  space :: "nat option"
  fencepost :: "32 word option"
  fresh :: bool

abbreviation (input) STACK_FENCEPOST :: "32 word" where "STACK_FENCEPOST \<equiv> 0xdeadbeef"

record Switcher =
  uvm :: VM
  running :: nat
  uthreads :: "nat \<Rightarrow> UThread option"
  doomed :: "nat option"

definition new_Thread :: "(nat \<Rightarrow> 32 word) \<Rightarrow> UThread" where
  "new_Thread junk = \<lparr>userRegisters = junk, space = None, fencepost = None, fresh = True\<rparr>"

definition set_fencepost :: "UThread \<Rightarrow> UThread" where
  "set_fencepost t = t\<lparr>fencepost := Some STACK_FENCEPOST\<rparr>"

definition SaveUserState :: "Machine \<Rightarrow> UThread \<Rightarrow> UThread res" where
  "SaveUserState m t =
     fold (\<lambda>i r. bindR r (\<lambda>t. bindR (ReadRegister (int i) m) (\<lambda>v. Inr (t\<lparr>userRegisters := (userRegisters t)(i := v)\<rparr>))))
       [0..<NumTotalRegs] (Inr t)"

definition RestoreUserState :: "UThread \<Rightarrow> Machine \<Rightarrow> Machine res" where
  "RestoreUserState t m =
     fold (\<lambda>i r. bindR r (WriteRegister (int i) (userRegisters t i))) [0..<NumTotalRegs] (Inr m)"

definition CheckOverflow :: "UThread \<Rightarrow> unit res" where
  "CheckOverflow t = (case fencepost t of
     None \<Rightarrow> Inr ()
   | Some w \<Rightarrow> if w = STACK_FENCEPOST then Inr () else Inl AssertionFailed)"

definition get_thread :: "nat \<Rightarrow> Switcher \<Rightarrow> UThread res" where
  "get_thread t S = (case uthreads S t of None \<Rightarrow> Inl UseAfterFree | Some th \<Rightarrow> Inr th)"

definition delete_Thread :: "nat \<Rightarrow> Switcher \<Rightarrow> Switcher res" where
  "delete_Thread t S = bindR (get_thread t S) (\<lambda>_.
     if t = running S then Inl AssertionFailed else Inr (S\<lparr>uthreads := (uthreads S)(t := None)\<rparr>))"

section \<open>The switch\<close>

definition save_user :: "Switcher \<Rightarrow> Switcher res" where
  "save_user S = bindR (get_thread (running S) S) (\<lambda>old. case space old of
     None \<Rightarrow> Inr S
   | Some _ \<Rightarrow>
       bindR (SaveUserState (mach (uvm S)) old) (\<lambda>old1.
       bindR (SaveState (uvm S)) (\<lambda>vm.
         Inr (S\<lparr>uvm := vm, uthreads := (uthreads S)(running S \<mapsto> old1)\<rparr>))))"

definition after_switch :: "Switcher \<Rightarrow> Switcher res" where
  "after_switch S =
     bindR (case doomed S of None \<Rightarrow> Inr S
            | Some d \<Rightarrow> bindR (delete_Thread d S) (\<lambda>S1. Inr (S1\<lparr>doomed := None\<rparr>))) (\<lambda>S1.
     bindR (get_thread (running S1) S1) (\<lambda>t. case space t of
       None \<Rightarrow> Inr S1
     | Some a \<Rightarrow>
         bindR (RestoreUserState t (mach (uvm S1))) (\<lambda>m.
         bindR (RestoreState a ((uvm S1)\<lparr>mach := m\<rparr>)) (\<lambda>vm. Inr (S1\<lparr>uvm := vm\<rparr>)))))"

text \<open>\<open>curSpace\<close> of the paging system follows \<^verbatim>\<open>currentThread->space\<close>.\<close>

definition Run_user :: "nat \<Rightarrow> Switcher \<Rightarrow> Switcher res" where
  "Run_user nx S =
     bindR (save_user S) (\<lambda>S1.
     bindR (get_thread (running S1) S1) (\<lambda>old.
     bindR (CheckOverflow old) (\<lambda>_.
     bindR (get_thread nx S1) (\<lambda>t.
     let S2 = S1\<lparr>running := nx,
                 uvm := (case space t of None \<Rightarrow> uvm S1 | Some a \<Rightarrow> (uvm S1)\<lparr>curSpace := a\<rparr>)\<rparr> in
     if fresh t then Inr (S2\<lparr>uthreads := (uthreads S2)(nx \<mapsto> t\<lparr>fresh := False\<rparr>)\<rparr>)
     else after_switch S2))))"

text \<open>\<^verbatim>\<open>Thread::Finish\<close> up to the switch: the thread will be deleted by the nx one that returns from \<^verbatim>\<open>SWITCH\<close>.\<close>

definition Finish_user :: "Switcher \<Rightarrow> Switcher" where
  "Finish_user S = S\<lparr>doomed := Some (running S)\<rparr>"

section \<open>Behaviour\<close>

text \<open>
  Between switches the running thread may do anything to the machine and the paging system that keeps the TLB an array of
  \<^verbatim>\<open>TLBSize\<close> entries; a thread without an address space leaves the TLB alone. It may create threads, get an address space
  (\<^verbatim>\<open>StartProcess\<close>), overrun its stack, or finish.
\<close>

definition tlb_of :: "VM \<Rightarrow> TranslationEntry list" where
  "tlb_of vm = (case tlb (mach vm) of None \<Rightarrow> [] | Some t \<Rightarrow> t)"

definition no_translation :: "VM \<Rightarrow> bool" where
  "no_translation vm \<longleftrightarrow> list_all (\<lambda>e. \<not> valid e) (tlb_of vm)"

inductive ustep :: "Switcher \<Rightarrow> Switcher \<Rightarrow> bool" where
  run: "nx \<noteq> running S \<Longrightarrow> doomed S \<noteq> Some nx \<Longrightarrow> Run_user nx S = Inr S' \<Longrightarrow> ustep S S'"
| user: "uthreads S (running S) = Some t \<Longrightarrow> space t = Some a \<Longrightarrow> length (tlb_of vm) = TLBSize \<Longrightarrow> curSpace vm = curSpace (uvm S) \<Longrightarrow>
    ustep S (S\<lparr>uvm := vm\<rparr>)"
| kernel: "uthreads S (running S) = Some t \<Longrightarrow> space t = None \<Longrightarrow> tlb (mach vm) = tlb (mach (uvm S)) \<Longrightarrow> ustep S (S\<lparr>uvm := vm\<rparr>)"
| create: "uthreads S n = None \<Longrightarrow>
    ustep S (S\<lparr>uthreads := (uthreads S)(n \<mapsto> (set_fencepost (new_Thread junk))\<lparr>space := sp\<rparr>)\<rparr>)"
| start: "uthreads S (running S) = Some t \<Longrightarrow> space t = None \<Longrightarrow>
    ustep S (S\<lparr>uthreads := (uthreads S)(running S \<mapsto> t\<lparr>space := Some a\<rparr>), uvm := (uvm S)\<lparr>curSpace := a\<rparr>\<rparr>)"
| overrun: "uthreads S (running S) = Some t \<Longrightarrow> fencepost t \<noteq> None \<Longrightarrow>
    ustep S (S\<lparr>uthreads := (uthreads S)(running S \<mapsto> t\<lparr>fencepost := Some w\<rparr>)\<rparr>)"
| finish: "ustep S (Finish_user S)"

definition main_only :: "Switcher \<Rightarrow> bool" where
  "main_only S \<longleftrightarrow> doomed S = None \<and> length (tlb_of (uvm S)) = TLBSize \<and> no_translation (uvm S) \<and>
     (\<exists>junk. uthreads S = [running S \<mapsto> (new_Thread junk)\<lparr>fresh := False\<rparr>])"

inductive ureach :: "Switcher \<Rightarrow> bool" where
  boot: "main_only S \<Longrightarrow> ureach S"
| step: "ureach S \<Longrightarrow> ustep S S' \<Longrightarrow> ureach S'"

text \<open>Runs in which the thread \<open>t\<close> does not get the processor.\<close>

inductive away :: "nat \<Rightarrow> Switcher \<Rightarrow> Switcher \<Rightarrow> bool" for t where
  refl: "running S \<noteq> t \<Longrightarrow> away t S S"
| more: "away t S S1 \<Longrightarrow> ustep S1 S2 \<Longrightarrow> running S2 \<noteq> t \<Longrightarrow> away t S S2"

section \<open>The loops over the registers\<close>

lemma SaveUserState_ok:
  "SaveUserState m t = Inr (t\<lparr>userRegisters := (\<lambda>i. if i < NumTotalRegs then registers m i else userRegisters t i)\<rparr>)"
proof -
  have "n \<le> NumTotalRegs \<Longrightarrow> fold (\<lambda>i r. bindR r (\<lambda>t. bindR (ReadRegister (int i) m) (\<lambda>v. Inr (t\<lparr>userRegisters := (userRegisters t)(i := v)\<rparr>))))
     [0..<n] (Inr t) = Inr (t\<lparr>userRegisters := (\<lambda>i. if i < n then registers m i else userRegisters t i)\<rparr>)" for n
    by (induction n) (auto simp: ReadRegister_def fun_eq_iff less_Suc_eq)
  then show ?thesis by (simp only: SaveUserState_def)
qed

lemma RestoreUserState_ok:
  "RestoreUserState t m = Inr (m\<lparr>registers := (\<lambda>i. if i < NumTotalRegs then userRegisters t i else registers m i)\<rparr>)"
proof -
  have "n \<le> NumTotalRegs \<Longrightarrow> fold (\<lambda>i r. bindR r (WriteRegister (int i) (userRegisters t i))) [0..<n] (Inr m) =
     Inr (m\<lparr>registers := (\<lambda>i. if i < n then userRegisters t i else registers m i)\<rparr>)" for n
    by (induction n) (auto simp: WriteRegister_def fun_eq_iff less_Suc_eq)
  then show ?thesis by (simp only: RestoreUserState_def)
qed

lemma SaveState_flushes:
  assumes "length (tlb_of vm) = TLBSize"
  shows "\<exists>vm'. SaveState vm = Inr vm' \<and> no_translation vm' \<and> length (tlb_of vm') = TLBSize \<and>
    spaces vm' = spaces vm \<and> registers (mach vm') = registers (mach vm) \<and> curSpace vm' = curSpace vm"
  using assms by (auto simp: tlb_of_def SaveState_def get_tlb_def put_tlb_def no_translation_def list_all_def split: option.splits)

section \<open>What a switch does\<close>

definition uinv :: "Switcher \<Rightarrow> bool" where
  "uinv S \<longleftrightarrow> length (tlb_of (uvm S)) = TLBSize \<and>
     (\<exists>t. uthreads S (running S) = Some t \<and> \<not> fresh t \<and> (space t = None \<longrightarrow> no_translation (uvm S))) \<and>
     (\<forall>d. doomed S = Some d \<longrightarrow> uthreads S d \<noteq> None)"

definition intact :: "UThread \<Rightarrow> bool" where
  "intact t \<longleftrightarrow> fencepost t = None \<or> fencepost t = Some STACK_FENCEPOST"

definition saved :: "Machine \<Rightarrow> UThread \<Rightarrow> UThread" where
  "saved m t = (if space t = None then t
     else t\<lparr>userRegisters := (\<lambda>i. if i < NumTotalRegs then registers m i else userRegisters t i)\<rparr>)"

lemma saved_simps [simp]: "space (saved m t) = space t" "fencepost (saved m t) = fencepost t" "fresh (saved m t) = fresh t"
  by (simp_all add: saved_def)

lemma save_user_ok:
  assumes "uinv S" "uthreads S (running S) = Some old"
  shows "\<exists>vm. save_user S = Inr (S\<lparr>uvm := vm, uthreads := (uthreads S)(running S \<mapsto> saved (mach (uvm S)) old)\<rparr>) \<and>
    no_translation vm \<and> length (tlb_of vm) = TLBSize \<and> spaces vm = spaces (uvm S) \<and> curSpace vm = curSpace (uvm S)"
proof (cases "space old")
  case None
  then show ?thesis using assms
    by (intro exI [of _ "uvm S"]) (auto simp: save_user_def get_thread_def saved_def uinv_def fun_upd_idem)
next
  case (Some a)
  then show ?thesis using assms SaveState_flushes [of "uvm S"]
    by (auto simp: save_user_def get_thread_def saved_def SaveUserState_ok uinv_def)
qed

text \<open>The threads after the switch.\<close>

definition switched :: "nat \<Rightarrow> UThread \<Rightarrow> UThread \<Rightarrow> Switcher \<Rightarrow> nat \<Rightarrow> UThread option" where
  "switched nx old t S =
     (let U = (uthreads S)(running S \<mapsto> saved (mach (uvm S)) old) in
      if fresh t then U(nx \<mapsto> t\<lparr>fresh := False\<rparr>)
      else (case doomed S of None \<Rightarrow> U | Some d \<Rightarrow> U(d := None)))"

definition resumed :: "UThread \<Rightarrow> VM \<Rightarrow> bool" where
  "resumed t vm \<longleftrightarrow> (\<forall>a. space t = Some a \<longrightarrow> (\<forall>i < NumTotalRegs. registers (mach vm) i = userRegisters t i) \<and> curSpace vm = a \<and>
     (\<exists>s. spaces vm a = Some s \<and> pageTableSize (mach vm) = numPages s))"

definition can_resume :: "UThread \<Rightarrow> VM \<Rightarrow> bool" where
  "can_resume t vm \<longleftrightarrow> fresh t \<or> (\<forall>a. space t = Some a \<longrightarrow> spaces vm a \<noteq> None)"

lemma Run_user_eq:
  assumes "uinv S" "uthreads S (running S) = Some old" "nx \<noteq> running S" "uthreads S nx = Some t" "doomed S \<noteq> Some nx"
  shows "\<exists>vm. Run_user nx S =
     (if \<not> intact old then Inl AssertionFailed else if \<not> can_resume t (uvm S) then Inl UseAfterFree
      else Inr (S\<lparr>uvm := vm, running := nx, uthreads := switched nx old t S, doomed := if fresh t then doomed S else None\<rparr>)) \<and>
    (can_resume t (uvm S) \<longrightarrow> no_translation vm \<and> length (tlb_of vm) = TLBSize \<and> (\<not> fresh t \<longrightarrow> resumed t vm))"
proof -
  from save_user_ok [OF assms(1,2)] obtain vm where
    vm: "save_user S = Inr (S\<lparr>uvm := vm, uthreads := (uthreads S)(running S \<mapsto> saved (mach (uvm S)) old)\<rparr>)"
      "no_translation vm" "length (tlb_of vm) = TLBSize" "spaces vm = spaces (uvm S)" by blast
  define U where "U = (uthreads S)(running S \<mapsto> saved (mach (uvm S)) old)"
  define V where "V = (case space t of None \<Rightarrow> vm | Some a \<Rightarrow> vm\<lparr>curSpace := a\<rparr>)"
  let ?S = "S\<lparr>uthreads := U, running := nx, uvm := V\<rparr>"
  have c: "CheckOverflow (saved (mach (uvm S)) old) = (if intact old then Inr () else Inl AssertionFailed)"
    by (auto simp: CheckOverflow_def intact_def split: option.splits)
  have r: "Run_user nx S = (if \<not> intact old then Inl AssertionFailed
      else if fresh t then Inr (?S\<lparr>uthreads := U(nx \<mapsto> t\<lparr>fresh := False\<rparr>)\<rparr>) else after_switch ?S)"
    using assms(3,4) vm(1) c by (cases "space t") (simp_all add: Run_user_def get_thread_def Let_def U_def V_def)
  have k: "no_translation V" "length (tlb_of V) = TLBSize" "spaces V = spaces (uvm S)" "\<And>a. space t = Some a \<Longrightarrow> curSpace V = a"
    using vm(2-4) by (simp_all add: no_translation_def tlb_of_def V_def split: option.splits)
  show ?thesis
  proof (cases "fresh t")
    case True
    then show ?thesis using r k by (intro exI [of _ V]) (simp add: switched_def Let_def U_def can_resume_def)
  next
    case False
    let ?S1 = "?S\<lparr>uthreads := switched nx old t S, doomed := None\<rparr>"
    have d: "(case doomed ?S of None \<Rightarrow> Inr ?S | Some d \<Rightarrow> bindR (delete_Thread d ?S) (\<lambda>S1. Inr (S1\<lparr>doomed := None\<rparr>))) = Inr ?S1"
      using assms(1,5) False
      by (auto simp: delete_Thread_def get_thread_def uinv_def switched_def Let_def U_def split: option.splits)
    have g: "get_thread nx ?S1 = Inr t"
      using assms(3-5) False by (auto simp: get_thread_def switched_def Let_def split: option.splits)
    have aw: "after_switch ?S = (case space t of None \<Rightarrow> Inr ?S1 | Some a \<Rightarrow>
      bindR (RestoreUserState t (mach V)) (\<lambda>m. bindR (RestoreState a (V\<lparr>mach := m\<rparr>)) (\<lambda>vm. Inr (?S1\<lparr>uvm := vm\<rparr>))))"
      unfolding after_switch_def d using g by (cases "space t") simp_all
    show ?thesis
    proof (cases "space t")
      case None
      then show ?thesis using r k aw False by (intro exI [of _ V]) (simp add: resumed_def can_resume_def)
    next
      case (Some a)
      let ?m = "\<lambda>sp. (mach V)\<lparr>registers := (\<lambda>i. if i < NumTotalRegs then userRegisters t i else registers (mach V) i), pageTableSize := numPages sp\<rparr>"
      show ?thesis using r k aw False Some
        by (intro exI [of _ "V\<lparr>mach := ?m (the (spaces V a))\<rparr>"])
           (auto simp: resumed_def can_resume_def RestoreUserState_ok RestoreState_def get_space_def no_translation_def tlb_of_def)
    qed
  qed
qed

text \<open>A switch succeeds only to a thread that exists, has its address space and is not finishing, and from a stack in order.\<close>

lemma Run_userD:
  assumes "uinv S" "Run_user nx S = Inr S'" "nx \<noteq> running S" "doomed S \<noteq> Some nx"
  obtains old t vm where "uthreads S (running S) = Some old" "uthreads S nx = Some t" "intact old"
    "S' = S\<lparr>uvm := vm, running := nx, uthreads := switched nx old t S, doomed := if fresh t then doomed S else None\<rparr>"
    "no_translation vm" "length (tlb_of vm) = TLBSize" "\<not> fresh t \<longrightarrow> resumed t vm"
proof -
  from assms(1) obtain old where old: "uthreads S (running S) = Some old" by (auto simp: uinv_def)
  have "uthreads S nx \<noteq> None"
  proof
    assume "uthreads S nx = None"
    then show False using save_user_ok [OF assms(1) old] assms(2,3)
      by (auto simp: Run_user_def get_thread_def bindR_eq_Inr_iff)
  qed
  then obtain t where t: "uthreads S nx = Some t" by auto
  from Run_user_eq [OF assms(1) old assms(3) t assms(4)] assms(2) old t that show ?thesis by (auto split: if_splits)
qed

lemma uinv_step:
  assumes "uinv S" "ustep S S'"
  shows "uinv S'"
  using assms(2,1)
proof cases
  case (run nx)
  from Run_userD [OF assms(1) run(3,1,2)] obtain old t vm where
    r: "uthreads S (running S) = Some old" "uthreads S nx = Some t"
      "S' = S\<lparr>uvm := vm, running := nx, uthreads := switched nx old t S, doomed := if fresh t then doomed S else None\<rparr>"
      "no_translation vm" "length (tlb_of vm) = TLBSize" by blast
  show ?thesis using assms(1) r run(1,2) by (auto simp: uinv_def switched_def Let_def split: option.splits)
qed (auto simp: uinv_def no_translation_def tlb_of_def Finish_user_def)

lemma ureach_inv: "ureach S \<Longrightarrow> uinv S"
proof (induction rule: ureach.induct)
  case (boot S)
  then show ?case by (auto simp: main_only_def uinv_def new_Thread_def)
qed (rule uinv_step)

text \<open>A thread that is not running and not finishing stays as it is.\<close>

lemma parked_step:
  assumes "uinv S" "ustep S S'" "running S \<noteq> t" "running S' \<noteq> t" "uthreads S t = Some th" "doomed S \<noteq> Some t"
  shows "uthreads S' t = Some th \<and> doomed S' \<noteq> Some t"
  using assms(2)
proof cases
  case (run nx)
  from Run_userD [OF assms(1) run(3,1,2)] obtain old u vm where
    r: "uthreads S (running S) = Some old" "uthreads S nx = Some u"
      "S' = S\<lparr>uvm := vm, running := nx, uthreads := switched nx old u S, doomed := if fresh u then doomed S else None\<rparr>" by blast
  show ?thesis using assms r run(1,2) by (auto simp: switched_def Let_def split: option.splits)
qed (use assms in \<open>auto simp: Finish_user_def\<close>)

lemma parked_away:
  assumes "away t S S'" "uinv S" "uthreads S t = Some th" "doomed S \<noteq> Some t"
  shows "uinv S' \<and> running S' \<noteq> t \<and> uthreads S' t = Some th \<and> doomed S' \<noteq> Some t"
  using assms by (induction rule: away.induct) (auto dest: uinv_step parked_step)

section \<open>Theorems\<close>

text \<open>
  C10: the context switch hides the other threads from a user program. Whatever they do to the machine while a thread of
  a process is not running, when it is dispatched again all its registers are as they were when it lost the processor, its
  address space is the current one, and the TLB holds no translation that another process could have left.
\<close>

theorem user_state_survives_switch:
  assumes "ureach S0" "uthreads S0 (running S0) = Some th" "space th = Some a" "doomed S0 \<noteq> Some (running S0)"
    "nx \<noteq> running S0" "doomed S0 \<noteq> Some nx" "Run_user nx S0 = Inr S1" "away (running S0) S1 S2" "Run_user (running S0) S2 = Inr S3"
  shows "running S3 = running S0 \<and> (\<forall>i < NumTotalRegs. registers (mach (uvm S3)) i = registers (mach (uvm S0)) i) \<and>
    curSpace (uvm S3) = a \<and> (\<exists>s. spaces (uvm S3) a = Some s \<and> pageTableSize (mach (uvm S3)) = numPages s) \<and> no_translation (uvm S3)"
proof -
  note i = ureach_inv [OF assms(1)]
  let ?th = "saved (mach (uvm S0)) th"
  from Run_userD [OF i assms(7,5,6)] assms(2) obtain t vm where
    r: "uthreads S0 nx = Some t" "S1 = S0\<lparr>uvm := vm, running := nx, uthreads := switched nx th t S0, doomed := if fresh t then doomed S0 else None\<rparr>"
    by (metis option.inject)
  have i1: "uinv S1" using uinv_step [OF i ustep.run [OF assms(5,6,7)]] .
  have f: "\<not> fresh th" using i assms(2) by (auto simp: uinv_def)
  have "uthreads S1 (running S0) = Some ?th" "doomed S1 \<noteq> Some (running S0)"
    using r(2) assms(4,5) by (auto simp: switched_def Let_def split: option.splits)
  from parked_away [OF assms(8) i1 this] have
    p: "uinv S2" "running S2 \<noteq> running S0" "uthreads S2 (running S0) = Some ?th" "doomed S2 \<noteq> Some (running S0)" by auto
  from Run_userD [OF p(1) assms(9) p(2) [symmetric] p(4)] p(3) obtain vm' where
    "running S3 = running S0" "uvm S3 = vm'" "no_translation vm'" "\<not> fresh ?th \<longrightarrow> resumed ?th vm'" by force
  then show ?thesis using f assms(3) by (auto simp: resumed_def saved_def)
qed

text \<open>
  a switch to another thread that exists and is not finishing fails in two cases only: when the thread that gives up the
  processor has overrun its stack, which the check of the fencepost finds, and when the address space of the other one
  has been deleted.
\<close>

theorem switch_outcome:
  assumes "ureach S" "uthreads S (running S) = Some old" "nx \<noteq> running S" "uthreads S nx = Some t" "doomed S \<noteq> Some nx"
  shows "if \<not> intact old then Run_user nx S = Inl AssertionFailed
    else if \<not> can_resume t (uvm S) then Run_user nx S = Inl UseAfterFree
    else \<exists>S'. Run_user nx S = Inr S' \<and> running S' = nx \<and> no_translation (uvm S')"
  using Run_user_eq [OF ureach_inv [OF assms(1)] assms(2-5)] by auto

text \<open>
  A thread that finishes is deleted by the next one that returns from \<^verbatim>\<open>SWITCH\<close>. A new thread does not return from it:
  if it finishes before another switch, \<^verbatim>\<open>threadToBeDestroyed\<close> is overwritten and the first thread is never deleted.
\<close>

lemma finished_thread_leaks:
  assumes "ureach S" "uthreads S (running S) = Some old" "intact old" "nx \<noteq> running S" "uthreads S nx = Some t" "fresh t"
  shows "\<exists>S'. Run_user nx (Finish_user S) = Inr S' \<and> uthreads (Finish_user S') (running S) \<noteq> None \<and> doomed (Finish_user S') = Some nx"
proof -
  have i: "uinv (Finish_user S)" by (rule uinv_step [OF ureach_inv [OF assms(1)] ustep.finish])
  have "uthreads (Finish_user S) (running (Finish_user S)) = Some old" "nx \<noteq> running (Finish_user S)"
    "uthreads (Finish_user S) nx = Some t" "doomed (Finish_user S) \<noteq> Some nx" using assms by (auto simp: Finish_user_def)
  from Run_user_eq [OF i this] assms(3,4,6) show ?thesis by (auto simp: Finish_user_def can_resume_def switched_def Let_def)
qed

section \<open>A run with two threads\<close>

text \<open>The main thread starts a process and forks a thread in it; both have loaded their registers.\<close>

lemma two_threads:
  "\<exists>S th t. ureach S \<and> running S = 0 \<and> uthreads S 0 = Some th \<and> space th = Some 0 \<and> intact th \<and> doomed S = None \<and>
     uthreads S 1 = Some t \<and> fresh t \<and> intact t \<and> space t = Some 0 \<and> spaces (uvm S) 0 \<noteq> None \<and> registers (mach (uvm S)) 2 = 7"
proof -
  fix e :: TranslationEntry and vm0 :: VM and s :: AddrSpace
  define m where "m = new_Machine True (replicate 4 e) 0 False UserMode"
  define vm where "vm = vm0\<lparr>mach := m, spaces := [0 \<mapsto> s]\<rparr>"
  define S1 where "S1 = \<lparr>uvm = vm, running = 0, uthreads = [0 \<mapsto> (new_Thread (\<lambda>_. 0))\<lparr>fresh := False\<rparr>], doomed = None\<rparr>"
  have v: "length (tlb_of vm) = 4" "no_translation vm"
    by (simp_all add: vm_def m_def tlb_of_def no_translation_def new_Machine_def list_all_length)
  then have "ureach S1" by (intro ureach.boot) (auto simp: main_only_def S1_def)
  from ureach.step [OF this ustep.start [of S1 "(new_Thread (\<lambda>_. 0))\<lparr>fresh := False\<rparr>" 0]]
  have r2: "ureach (S1\<lparr>uthreads := [0 \<mapsto> (new_Thread (\<lambda>_. 0))\<lparr>fresh := False, space := Some 0\<rparr>], uvm := vm\<lparr>curSpace := 0\<rparr>\<rparr>)" (is "ureach ?S2")
    by (simp add: S1_def new_Thread_def)
  from ureach.step [OF r2 ustep.create [of ?S2 1 "Some 0" "\<lambda>_. 0"]]
  have r3: "ureach (?S2\<lparr>uthreads := (uthreads ?S2)(1 \<mapsto> (set_fencepost (new_Thread (\<lambda>_. 0)))\<lparr>space := Some 0\<rparr>)\<rparr>)" (is "ureach ?S3")
    by simp
  let ?vm4 = "(uvm ?S3)\<lparr>mach := m\<lparr>registers := (\<lambda>_. 7)\<rparr>\<rparr>"
  have "length (tlb_of ?vm4) = TLBSize" using v by (simp add: tlb_of_def vm_def)
  from ureach.step [OF r3 ustep.user [of ?S3 _ 0 ?vm4, OF _ _ this]]
  have "ureach (?S3\<lparr>uvm := ?vm4\<rparr>)" by (simp add: S1_def)
  then show ?thesis
    by (intro exI [of _ "?S3\<lparr>uvm := ?vm4\<rparr>"]) (simp add: S1_def new_Thread_def set_fencepost_def intact_def vm_def)
qed

theorem user_state_survives_switch_witness:
  "\<exists>S0 S1 S2 S3. ureach S0 \<and> running S0 = 0 \<and> Run_user 1 S0 = Inr S1 \<and> away 0 S1 S2 \<and> registers (mach (uvm S2)) 2 = 9 \<and>
     Run_user 0 S2 = Inr S3 \<and> registers (mach (uvm S3)) 2 = 7"
proof -
  from two_threads obtain S0 th t where
    S0: "ureach S0" "running S0 = 0" "uthreads S0 0 = Some th" "space th = Some 0" "intact th" "doomed S0 = None"
      "uthreads S0 1 = Some t" "fresh t" "intact t" "space t = Some 0" "spaces (uvm S0) 0 \<noteq> None" "registers (mach (uvm S0)) 2 = 7"
    by blast
  from Run_user_eq [OF ureach_inv [OF S0(1)], of th 1 t] S0 obtain vm where
    "Run_user 1 S0 = Inr (S0\<lparr>uvm := vm, running := 1, uthreads := switched 1 th t S0, doomed := None\<rparr>)" (is "_ = Inr ?S1")
    "length (tlb_of vm) = TLBSize" by (auto simp: can_resume_def)
  then have S1: "Run_user 1 S0 = Inr ?S1" "length (tlb_of (uvm ?S1)) = TLBSize" "uthreads ?S1 1 = Some (t\<lparr>fresh := False\<rparr>)"
    "uthreads ?S1 0 = Some (saved (mach (uvm S0)) th)" using S0 by (simp_all add: switched_def Let_def)
  have i1: "uinv ?S1" using uinv_step [OF ureach_inv [OF S0(1)] ustep.run [of 1 S0 ?S1]] S1(1) S0(2,6) by simp
  define vm2 where "vm2 = vm\<lparr>spaces := spaces (uvm S0), mach := (mach vm)\<lparr>registers := (\<lambda>_. 9)\<rparr>\<rparr>"
  let ?S2 = "?S1\<lparr>uvm := vm2\<rparr>"
  have u: "ustep ?S1 ?S2" using S1(2,3) S0(10)
    by (intro ustep.user [where t = "t\<lparr>fresh := False\<rparr>" and a = 0]) (simp_all add: vm2_def tlb_of_def)
  have aw: "away 0 ?S1 ?S2" by (rule away.more [OF away.refl u]) simp_all
  have i2: "uinv ?S2" by (rule uinv_step [OF i1 u])
  have "\<exists>S3. Run_user 0 ?S2 = Inr S3"
    using Run_user_eq [OF i2, of "t\<lparr>fresh := False\<rparr>" 0 "saved (mach (uvm S0)) th"] S1(3,4) S0 by (auto simp: intact_def can_resume_def vm2_def)
  then obtain S3 where S3: "Run_user 0 ?S2 = Inr S3" by blast
  from user_state_survives_switch [OF S0(1), of th 0 1 ?S1 ?S2 S3] S0 S1(1) aw S3 have "registers (mach (uvm S3)) 2 = 7" by simp
  with S0(1,2) S1(1) aw S3 show ?thesis
    by (intro exI [of _ S0] exI [of _ ?S1] exI [of _ ?S2] exI [of _ S3]) (simp add: vm2_def)
qed

theorem switch_outcome_witness: "\<exists>S S'. ureach S \<and> Run_user 1 S = Inr S' \<and> running S' = 1 \<and> no_translation (uvm S')"
proof -
  from two_threads obtain S th t where "ureach S" "running S = 0" "uthreads S 0 = Some th" "intact th" "doomed S = None"
    "uthreads S 1 = Some t" "fresh t" by blast
  with switch_outcome [of S th 1 t] show ?thesis by (auto simp: can_resume_def)
qed

end
