(* ===== verification/Memory_Image.thy ===== *)
theory Memory_Image
  imports Nachos_Prelude
begin

text \<open>
  Objects as their memory image, on a little-endian host with 32-bit \<^verbatim>\<open>int\<close>: this is how the file
  system stores headers and directories on the disk and how the network sends packet headers.
\<close>

type_synonym byte = "8 word"

section \<open>Memory images\<close>

definition int_bytes :: "int \<Rightarrow> byte list" where
  "int_bytes x = [word_of_int x, word_of_int (x div 256), word_of_int (x div 65536),
     word_of_int (x div 16777216)]"

definition bytes_int :: "byte list \<Rightarrow> int" where
  "bytes_int bs = int32 (uint (bs ! 0) + 256 * uint (bs ! 1) + 65536 * uint (bs ! 2) +
     16777216 * uint (bs ! 3))"

definition ints_bytes :: "int list \<Rightarrow> byte list" where
  "ints_bytes xs = concat (map int_bytes xs)"

definition bytes_ints :: "nat \<Rightarrow> byte list \<Rightarrow> int list" where
  "bytes_ints n bs = map (\<lambda>i. bytes_int (take 4 (drop (4 * i) bs))) [0..<n]"

section \<open>Round trips\<close>

definition is_int32 :: "int \<Rightarrow> bool" where
  "is_int32 x \<longleftrightarrow> - (2 ^ 31) \<le> x \<and> x < 2 ^ 31"

lemma length_int_bytes [simp]: "length (int_bytes x) = 4"
  by (simp add: int_bytes_def)

lemma length_ints_bytes [simp]: "length (ints_bytes xs) = 4 * length xs"
  by (induction xs) (simp_all add: ints_bytes_def)

lemma base256: "x mod 256 + 256 * (x div 256 mod 256) + 65536 * (x div 65536 mod 256) +
    16777216 * (x div 16777216 mod 256) = (x :: int) mod 4294967296"
proof -
  have "x mod 4294967296 = x mod (16777216 * 256)" by simp
  also have "\<dots> = 16777216 * (x div 16777216 mod 256) + x mod 16777216"
    by (rule zmod_zmult2_eq) simp
  also have "x mod 16777216 = x mod (65536 * 256)" by simp
  also have "\<dots> = 65536 * (x div 65536 mod 256) + x mod 65536" by (rule zmod_zmult2_eq) simp
  also have "x mod 65536 = x mod (256 * 256)" by simp
  also have "\<dots> = 256 * (x div 256 mod 256) + x mod 256" by (rule zmod_zmult2_eq) simp
  finally show ?thesis by (simp only: ac_simps)
qed

lemma bytes_int_bytes: "bytes_int (int_bytes x) = int32 x"
proof -
  have "bytes_int (int_bytes x) = int32 (x mod 4294967296)"
    by (simp add: bytes_int_def int_bytes_def uint_word_of_int base256)
  also have "\<dots> = int32 x"
    by (simp add: int32_def signed_take_bit_eq_iff_take_bit_eq take_bit_eq_mod)
  finally show ?thesis .
qed

lemma drop_ints_bytes: "i < length xs \<Longrightarrow> take 4 (drop (4 * i) (ints_bytes xs)) = int_bytes (xs ! i)"
proof (induction xs arbitrary: i)
  case Nil
  then show ?case by simp
next
  case (Cons x xs)
  then show ?case by (cases i) (simp_all add: ints_bytes_def)
qed

lemma bytes_ints_bytes:
  "\<forall>x \<in> set xs. is_int32 x \<Longrightarrow> length xs = n \<Longrightarrow> bytes_ints n (ints_bytes xs @ ys) = xs"
  by (auto simp: bytes_ints_def drop_ints_bytes bytes_int_bytes is_int32_def int32_id intro!: nth_equalityI)

end
