(* ===== verification/Disk_Device.thy ===== *)
theory Disk_Device
  imports Memory_Image
begin

text \<open>
  The simulated disk of \<^verbatim>\<open>machine/disk.cc\<close>, with its head position, rotation and track
  buffer, and the synchronous interface of \<^verbatim>\<open>filesys/synchdisk.cc\<close> that the file system
  uses. The locale \<open>sector_store\<close> is what that interface promises: a sector read returns what
  was last written there, and other sectors are untouched.
\<close>

section \<open>The disk\<close>

abbreviation (input) SectorSize :: nat where "SectorSize \<equiv> 128"
abbreviation (input) SectorsPerTrack :: int where "SectorsPerTrack \<equiv> 32"
abbreviation (input) NumSectors :: nat where "NumSectors \<equiv> 1024"
abbreviation (input) RotationTime :: int where "RotationTime \<equiv> 500"
abbreviation (input) SeekTime :: int where "SeekTime \<equiv> 500"

text \<open>
  \<open>contents\<close> is the UNIX file behind the disk after its magic number, cut into sectors.
  \<open>totalTicks\<close>, \<open>numDiskReads\<close> and \<open>numDiskWrites\<close> are the fields of the global
  \<^verbatim>\<open>stats\<close> object that the disk uses, and \<open>due\<close> the time for which the pending completion
  interrupt is scheduled.
\<close>

record Disk =
  contents :: "nat \<Rightarrow> byte list"
  active :: bool
  lastSector :: int
  bufferInit :: int
  due :: "int option"
  totalTicks :: int
  numDiskReads :: nat
  numDiskWrites :: nat

text \<open>
  The constructor on an existing file checks the magic number; without a file it writes one
  and extends the file to its full size, with zeros.
\<close>

abbreviation (input) MagicNumber :: "32 word" where "MagicNumber \<equiv> 0x456789ab"

definition new_Disk :: "(32 word \<times> (nat \<Rightarrow> byte list)) option \<Rightarrow> int \<Rightarrow> Disk res" where
  "new_Disk unixFile now =
     (let d = \<lparr>contents = (\<lambda>_. replicate SectorSize 0), active = False, lastSector = 0, bufferInit = 0,
               due = None, totalTicks = now, numDiskReads = 0, numDiskWrites = 0\<rparr> in
      case unixFile of
        Some (magicNum, c) \<Rightarrow>
          if magicNum = MagicNumber then Inr (d\<lparr>contents := c\<rparr>) else Inl AssertionFailed
      | None \<Rightarrow> Inr d)"

definition TimeToSeek :: "Disk \<Rightarrow> int \<Rightarrow> int \<times> int" where
  "TimeToSeek d newSector =
     (let newTrack = newSector sdiv SectorsPerTrack;
          oldTrack = lastSector d sdiv SectorsPerTrack;
          seek = int32 (\<bar>newTrack - oldTrack\<bar> * SeekTime);
          over = int32 ((totalTicks d + seek) smod RotationTime)
      in (seek, if over > 0 then int32 (RotationTime - over) else 0))"

definition ModuloDiff :: "int \<Rightarrow> int \<Rightarrow> int" where
  "ModuloDiff target frm =
     (let toOffset = target smod SectorsPerTrack; fromOffset = frm smod SectorsPerTrack
      in ((toOffset - fromOffset) + SectorsPerTrack) smod SectorsPerTrack)"

definition ComputeLatency :: "Disk \<Rightarrow> int \<Rightarrow> bool \<Rightarrow> int" where
  "ComputeLatency d newSector writing =
     (let (seek, rotation) = TimeToSeek d newSector;
          timeAfter = int32 (totalTicks d + seek + rotation) in
      if \<not> writing \<and> seek = 0 \<and>
         (timeAfter - bufferInit d) sdiv RotationTime
           > ModuloDiff newSector (int32 (bufferInit d sdiv RotationTime))
      then RotationTime
      else int32 (seek + int32 (rotation +
             ModuloDiff newSector (int32 (timeAfter sdiv RotationTime)) * RotationTime) + RotationTime))"

definition UpdateLast :: "int \<Rightarrow> Disk \<Rightarrow> Disk" where
  "UpdateLast newSector d =
     (let (seek, rotate) = TimeToSeek d newSector in
      d\<lparr>bufferInit := (if seek \<noteq> 0 then int32 (totalTicks d + seek + rotate) else bufferInit d),
        lastSector := newSector\<rparr>)"

text \<open>
  \<^verbatim>\<open>interrupt->Schedule(DiskDone, this, ticks, DiskInt)\<close> asserts that the delay is positive
  and queues the completion at the current time plus the delay.
\<close>

definition Schedule_DiskDone :: "int \<Rightarrow> Disk \<Rightarrow> Disk res" where
  "Schedule_DiskDone ticks d =
     (if ticks > 0 then Inr (d\<lparr>due := Some (totalTicks d + ticks)\<rparr>) else Inl AssertionFailed)"

definition ReadRequest :: "int \<Rightarrow> Disk \<Rightarrow> (byte list \<times> Disk) res" where
  "ReadRequest sectorNumber d =
     (let ticks = ComputeLatency d sectorNumber False in
      if active d then Inl AssertionFailed
      else if \<not> (sectorNumber \<ge> 0 \<and> sectorNumber < int NumSectors) then Inl AssertionFailed
      else let data = contents d (nat sectorNumber);
               d' = UpdateLast sectorNumber (d\<lparr>active := True\<rparr>)
           in bindR (Schedule_DiskDone ticks (d'\<lparr>numDiskReads := numDiskReads d' + 1\<rparr>))
                (\<lambda>d''. Inr (data, d'')))"

definition WriteRequest :: "int \<Rightarrow> byte list \<Rightarrow> Disk \<Rightarrow> Disk res" where
  "WriteRequest sectorNumber data d =
     (let ticks = ComputeLatency d sectorNumber True in
      if active d then Inl AssertionFailed
      else if \<not> (sectorNumber \<ge> 0 \<and> sectorNumber < int NumSectors) then Inl AssertionFailed
      else let d' = UpdateLast sectorNumber
                      (d\<lparr>contents := (contents d)(nat sectorNumber := take SectorSize data),
                         active := True\<rparr>)
           in Schedule_DiskDone ticks (d'\<lparr>numDiskWrites := numDiskWrites d' + 1\<rparr>))"

text \<open>
  The completion interrupt, at its due time; the handler it calls is
  \<^verbatim>\<open>SynchDisk::RequestDone\<close>, the \<^verbatim>\<open>V\<close> of the semaphore the requesting thread waits on.
\<close>

definition HandleInterrupt :: "Disk \<Rightarrow> Disk res" where
  "HandleInterrupt d =
     (case due d of None \<Rightarrow> Inl AssertionFailed
      | Some t \<Rightarrow> Inr (d\<lparr>totalTicks := t, due := None, active := False\<rparr>))"

section \<open>The synchronous interface\<close>

text \<open>
  \<^verbatim>\<open>ReadSector\<close> and \<^verbatim>\<open>WriteSector\<close> as one thread sees them: the lock keeps other threads
  away from the disk, the request is issued, and \<^verbatim>\<open>P\<close> returns after the completion interrupt.
\<close>

definition ReadSector :: "int \<Rightarrow> Disk \<Rightarrow> (byte list \<times> Disk) res" where
  "ReadSector sectorNumber d =
     bindR (ReadRequest sectorNumber d) (\<lambda>(data, d1).
     bindR (HandleInterrupt d1) (\<lambda>d2. Inr (data, d2)))"

definition WriteSector :: "int \<Rightarrow> byte list \<Rightarrow> Disk \<Rightarrow> Disk res" where
  "WriteSector sectorNumber data d = bindR (WriteRequest sectorNumber data d) HandleInterrupt"

section \<open>Timing\<close>

text \<open>
  Between requests the head rests on a sector and the disk is idle. Nothing is asked of the
  clock: the delay is positive even when the driver's \<^verbatim>\<open>int\<close> copies of it have wrapped.
\<close>

definition Disk_inv :: "Disk \<Rightarrow> bool" where
  "Disk_inv d \<longleftrightarrow> \<not> active d \<and> 0 \<le> lastSector d \<and> lastSector d < int NumSectors \<and>
     (\<forall>s. length (contents d s) = SectorSize)"

definition on_disk :: "int \<Rightarrow> bool" where
  "on_disk s \<longleftrightarrow> 0 \<le> s \<and> s < int NumSectors"

lemma smod_bounds: "0 < b \<Longrightarrow> - b < a smod b \<and> a smod b < (b::int)"
proof (cases "0 \<le> a")
  case True
  assume "0 < b"
  with True show ?thesis using pos_mod_bound [of b a] pos_mod_sign [of b a] by (simp del: pos_mod_sign)
next
  case False
  assume b: "0 < b"
  with False have "a smod b = - ((- a) mod b)"
    by (simp add: signed_modulo_int_def sgn_if)
  moreover have "0 \<le> (- a) mod b" "(- a) mod b < b" using b by simp_all
  ultimately show ?thesis using b by linarith
qed

lemma ModuloDiff_bounds: "0 \<le> target \<Longrightarrow> 0 \<le> ModuloDiff target frm \<and> ModuloDiff target frm < 32"
proof -
  assume t: "0 \<le> target"
  let ?x = "target mod 32 - frm smod 32 + 32"
  have "0 \<le> ?x" using smod_bounds [of 32 frm] pos_mod_sign [of 32 target] by linarith
  then show ?thesis using t by (simp add: ModuloDiff_def Let_def)
qed

lemma track_diff: "on_disk a \<Longrightarrow> on_disk b \<Longrightarrow> \<bar>a div 32 - b div 32\<bar> \<le> 31"
  unfolding on_disk_def of_nat_numeral by presburger

lemma TimeToSeek_bounds:
  assumes "on_disk s" "on_disk (lastSector d)" "TimeToSeek d s = (seek, rot)"
  shows "0 \<le> seek" "seek \<le> 15500" "0 \<le> rot" "rot < 500" "seek = \<bar>s div 32 - lastSector d div 32\<bar> * 500"
proof -
  let ?s = "\<bar>s div 32 - lastSector d div 32\<bar> * 500"
  have b: "0 \<le> ?s" "?s \<le> 15500" using track_diff [OF assms(1,2)] by simp_all
  then show "seek = ?s" using assms by (simp add: TimeToSeek_def Let_def on_disk_def)
  then show "0 \<le> seek" "seek \<le> 15500" using b by simp_all
  let ?o = "(totalTicks d + seek) smod 500"
  have o: "- 500 < ?o" "?o < 500" using smod_bounds [of 500] by auto
  then have "int32 ?o = ?o" by (simp add: int32_id)
  then have "rot = (if ?o > 0 then int32 (500 - ?o) else 0)"
    using assms by (auto simp: TimeToSeek_def Let_def)
  then show "0 \<le> rot" "rot < 500" using o by (simp_all split: if_splits)
qed

lemma ComputeLatency_bounds:
  assumes "on_disk s" "on_disk (lastSector d)"
  shows "500 \<le> ComputeLatency d s w \<and> ComputeLatency d s w < 32000"
proof -
  obtain seek rot where t: "TimeToSeek d s = (seek, rot)" by fastforce
  note b = TimeToSeek_bounds [OF assms t]
  have m: "0 \<le> ModuloDiff s x * 500" "ModuloDiff s x * 500 \<le> 15500" for x
    using ModuloDiff_bounds [of s x] assms(1) by (simp_all add: on_disk_def)
  show ?thesis
    using b(1-4) m [of "int32 (int32 (totalTicks d + seek + rot) sdiv 500)"]
    by (simp add: ComputeLatency_def t Let_def)
qed

lemma UpdateLast_simps [simp]:
  "contents (UpdateLast s d) = contents d"
  "active (UpdateLast s d) = active d"
  "lastSector (UpdateLast s d) = s"
  "totalTicks (UpdateLast s d) = totalTicks d"
  "due (UpdateLast s d) = due d"
  by (simp_all add: UpdateLast_def split: prod.splits)

section \<open>The sector interface\<close>

text \<open>
  What the clients of the synchronous disk rely on. \<open>cells\<close> is the abstract contents. A run of
  several reads or writes is \<open>read_run\<close> and \<open>write_run\<close>, the loops of \<^verbatim>\<open>OpenFile\<close>.
\<close>

fun read_run :: "(int \<Rightarrow> 'd \<Rightarrow> ('b list \<times> 'd) res) \<Rightarrow> int list \<Rightarrow> 'd \<Rightarrow> ('b list \<times> 'd) res" where
  "read_run rd [] d = Inr ([], d)"
| "read_run rd (s # ss) d =
     bindR (rd s d) (\<lambda>(x, d1). bindR (read_run rd ss d1) (\<lambda>(xs, d2). Inr (x @ xs, d2)))"

fun write_run :: "(int \<Rightarrow> 'b list \<Rightarrow> 'd \<Rightarrow> 'd res) \<Rightarrow> nat \<Rightarrow> int list \<Rightarrow> 'b list \<Rightarrow> 'd \<Rightarrow> 'd res" where
  "write_run wr n [] buf d = Inr d"
| "write_run wr n (s # ss) buf d =
     bindR (wr s (take n buf) d) (\<lambda>d1. write_run wr n ss (drop n buf) d1)"

locale sector_store =
  fixes load :: "int \<Rightarrow> 'd \<Rightarrow> ('b list \<times> 'd) res"
    and store :: "int \<Rightarrow> 'b list \<Rightarrow> 'd \<Rightarrow> 'd res"
    and cells :: "'d \<Rightarrow> nat \<Rightarrow> 'b list"
    and valid :: "int \<Rightarrow> bool"
    and invar :: "'d \<Rightarrow> bool"
    and len :: nat
  assumes valid_nonneg: "valid s \<Longrightarrow> 0 \<le> s"
    and cell_length: "invar d \<Longrightarrow> length (cells d n) = len"
    and read_ok: "invar d \<Longrightarrow> valid s \<Longrightarrow>
      \<exists>d'. load s d = Inr (cells d (nat s), d') \<and> invar d' \<and> cells d' = cells d"
    and write_ok: "invar d \<Longrightarrow> valid s \<Longrightarrow> length x = len \<Longrightarrow>
      \<exists>d'. store s x d = Inr d' \<and> invar d' \<and> cells d' = (cells d)(nat s := x)"
begin

text \<open>The state after writing successive blocks of \<open>buf\<close> to the sectors \<open>ss\<close>.\<close>

fun put :: "int list \<Rightarrow> 'b list \<Rightarrow> (nat \<Rightarrow> 'b list) \<Rightarrow> nat \<Rightarrow> 'b list" where
  "put [] buf c = c"
| "put (s # ss) buf c = put ss (drop len buf) (c(nat s := take len buf))"

lemma read_run_ok:
  "invar d \<Longrightarrow> \<forall>s \<in> set ss. valid s \<Longrightarrow>
     \<exists>d'. read_run load ss d = Inr (concat (map (\<lambda>s. cells d (nat s)) ss), d') \<and> invar d' \<and>
       cells d' = cells d"
proof (induction ss arbitrary: d)
  case Nil
  then show ?case by simp
next
  case (Cons s ss)
  then obtain d1 where d1: "load s d = Inr (cells d (nat s), d1)" "invar d1" "cells d1 = cells d"
    using read_ok [of d s] by auto
  with Cons.IH [of d1] Cons.prems show ?case by auto
qed

lemma write_run_ok:
  "invar d \<Longrightarrow> \<forall>s \<in> set ss. valid s \<Longrightarrow> length buf = length ss * len \<Longrightarrow>
     \<exists>d'. write_run store len ss buf d = Inr d' \<and> invar d' \<and> cells d' = put ss buf (cells d)"
proof (induction ss arbitrary: d buf)
  case Nil
  then show ?case by simp
next
  case (Cons s ss)
  then obtain d1 where d1: "store s (take len buf) d = Inr d1" "invar d1"
    "cells d1 = (cells d)(nat s := take len buf)"
    using write_ok [of d s "take len buf"] by auto
  with Cons.IH [of d1 "drop len buf"] Cons.prems show ?case by (auto simp del: fun_upd_apply)
qed

lemma valid_inj: "valid s \<Longrightarrow> valid t \<Longrightarrow> nat t = nat s \<longleftrightarrow> t = s"
  using valid_nonneg [of s] valid_nonneg [of t] by auto

lemma put_other: "\<forall>s \<in> set ss. nat s \<noteq> n \<Longrightarrow> put ss buf c n = c n"
  by (induction ss arbitrary: buf c) auto

lemma put_nth:
  "distinct ss \<Longrightarrow> \<forall>s \<in> set ss. valid s \<Longrightarrow> i < length ss \<Longrightarrow>
     put ss buf c (nat (ss ! i)) = take len (drop (i * len) buf)"
proof (induction ss arbitrary: i buf c)
  case Nil
  then show ?case by simp
next
  case (Cons s ss)
  show ?case
  proof (cases i)
    case 0
    have "nat t \<noteq> nat s" if "t \<in> set ss" for t
      using that Cons.prems by (auto simp: valid_inj)
    then show ?thesis using 0 by (simp add: put_other)
  next
    case (Suc j)
    then show ?thesis using Cons.IH [of j "drop len buf"] Cons.prems by (simp add: add.commute)
  qed
qed

text \<open>Reading back the sectors just written gives the buffer.\<close>

lemma put_concat:
  assumes "distinct ss" "\<forall>s \<in> set ss. valid s" "length buf = length ss * len"
  shows "concat (map (\<lambda>s. put ss buf c (nat s)) ss) = buf"
  using assms
proof (induction ss arbitrary: buf c)
  case Nil
  then show ?case by simp
next
  case (Cons s ss)
  have ne: "nat t \<noteq> nat s" if "t \<in> set ss" for t
    using that Cons.prems by (auto simp: valid_inj)
  have "put (s # ss) buf c (nat s) = take len buf" using put_nth [of "s # ss" 0] Cons.prems by simp
  with Cons.IH [of "drop len buf" "c(nat s := take len buf)"] Cons.prems show ?case
    by (simp del: fun_upd_apply)
qed

end

lemma ReadSector_ok:
  assumes "Disk_inv d" "on_disk s"
  shows "\<exists>d'. ReadSector s d = Inr (contents d (nat s), d') \<and> Disk_inv d' \<and> contents d' = contents d"
  using assms ComputeLatency_bounds [of s d False]
  by (auto simp: ReadSector_def ReadRequest_def Schedule_DiskDone_def HandleInterrupt_def Disk_inv_def
      on_disk_def Let_def)

lemma WriteSector_ok:
  assumes "Disk_inv d" "on_disk s" "length x = SectorSize"
  shows "\<exists>d'. WriteSector s x d = Inr d' \<and> Disk_inv d' \<and> contents d' = (contents d)(nat s := x)"
  using assms ComputeLatency_bounds [of s d True]
  by (auto simp: WriteSector_def WriteRequest_def Schedule_DiskDone_def HandleInterrupt_def Disk_inv_def
      on_disk_def Let_def)

interpretation disk: sector_store ReadSector WriteSector contents on_disk Disk_inv SectorSize
proof (unfold_locales, goal_cases)
  case (1 s)
  then show ?case by (simp add: on_disk_def)
next
  case (2 d n)
  then show ?case by (simp add: Disk_inv_def)
next
  case (3 d s)
  then show ?case by (rule ReadSector_ok)
next
  case (4 d s x)
  then show ?case by (rule WriteSector_ok)
qed

lemma off_disk_asserts:
  assumes "\<not> on_disk s"
  shows "ReadSector s d = Inl AssertionFailed" "WriteSector s x d = Inl AssertionFailed"
  using assms
  by (auto simp: ReadSector_def WriteSector_def ReadRequest_def WriteRequest_def on_disk_def Let_def)

section \<open>Properties\<close>

lemma TimeToSeek_boundary:
  assumes "on_disk s" "on_disk (lastSector d)" "0 \<le> totalTicks d" "TimeToSeek d s = (seek, rot)"
  shows "(totalTicks d + seek + rot) mod 500 = 0"
proof -
  note b = TimeToSeek_bounds [OF assms(1,2,4)]
  let ?t = "totalTicks d + seek"
  have t: "0 \<le> ?t" using assms(3) b(1) by simp
  have m: "0 \<le> ?t mod 500" "?t mod 500 < 500" by simp_all
  have "rot = (if int32 (?t smod 500) > 0 then int32 (500 - int32 (?t smod 500)) else 0)"
    using assms(4) by (auto simp: TimeToSeek_def Let_def)
  also have "int32 (?t smod 500) = ?t mod 500" using t m by simp
  finally have r: "rot = (if ?t mod 500 > 0 then 500 - ?t mod 500 else 0)" using m by simp
  show ?thesis
  proof (cases "?t mod 500 > 0")
    case True
    have "(?t + (500 - ?t mod 500)) mod 500 = (?t - ?t mod 500 + 500) mod 500"
      by (simp add: algebra_simps)
    also have "\<dots> = 0" by (simp add: minus_mod_eq_mult_div)
    finally show ?thesis using r True by simp
  next
    case False
    with m(1) have "?t mod 500 = 0" by linarith
    with r show ?thesis by simp
  qed
qed

lemma head_after_delay:
  assumes "0 \<le> (s::int)" "0 \<le> t" "t mod 500 = 0"
  shows "(t + (ModuloDiff s (t div 500) + 1) * 500) div 500 mod 32 = (s + 1) mod 32"
proof -
  let ?k = "t div 500"
  have "0 \<le> s mod 32 - ?k mod 32 + 32"
    using pos_mod_sign [of 32 s] pos_mod_bound [of 32 ?k] by linarith
  then have m: "ModuloDiff s ?k = (s - ?k) mod 32"
    using assms by (simp add: ModuloDiff_def Let_def mod_diff_eq)
  have "(t + (ModuloDiff s ?k + 1) * 500) div 500 = ?k + (ModuloDiff s ?k + 1)" by simp
  also have "\<dots> mod 32 = (?k + ((s - ?k) mod 32 + 1)) mod 32" by (simp add: m)
  also have "?k + ((s - ?k) mod 32 + 1) = (s - ?k) mod 32 + (?k + 1)" by simp
  also have "((s - ?k) mod 32 + (?k + 1)) mod 32 = ((s - ?k) + (?k + 1)) mod 32"
    by (rule mod_add_left_eq)
  finally show ?thesis by simp
qed

text \<open>
  The delay charged for a write brings the head to the end of the target sector: the request
  completes on a sector boundary, at the instant when the requested sector has just passed under
  the head, after at most a full sweep, a full turn and a partial sector. Completion is always
  in the future, which is what \<^verbatim>\<open>Interrupt::Schedule\<close> asserts.
\<close>

theorem write_latency_exact:
  assumes "on_disk s" "on_disk (lastSector d)" "0 \<le> totalTicks d" "totalTicks d < 2 ^ 31 - 16000"
  shows "(totalTicks d + ComputeLatency d s True) mod RotationTime = 0 \<and>
     (totalTicks d + ComputeLatency d s True) div RotationTime mod SectorsPerTrack =
       (s + 1) mod SectorsPerTrack \<and>
     RotationTime \<le> ComputeLatency d s True \<and> ComputeLatency d s True < 64 * RotationTime"
proof -
  obtain seek rot where t: "TimeToSeek d s = (seek, rot)" by fastforce
  note b = TimeToSeek_bounds [OF assms(1,2) t]
  let ?T = "totalTicks d + seek + rot"
  have T: "0 \<le> ?T" "?T < 2147483648" using b(1-4) assms(3,4) by simp_all
  have m: "0 \<le> ModuloDiff s (?T div 500)" "ModuloDiff s (?T div 500) < 32"
    using ModuloDiff_bounds [of s "?T div 500"] assms(1) by (auto simp: on_disk_def)
  have "?T div 500 < 2147483648" using T by linarith
  then have "ComputeLatency d s True = seek + rot + (ModuloDiff s (?T div 500) + 1) * 500"
    using T m b(1-4) by (simp add: ComputeLatency_def t Let_def algebra_simps)
  then have e: "totalTicks d + ComputeLatency d s True = ?T + (ModuloDiff s (?T div 500) + 1) * 500" by simp
  note z = TimeToSeek_boundary [OF assms(1-3) t]
  have "(?T + (ModuloDiff s (?T div 500) + 1) * 500) mod 500 = 0" using z by (simp add: mod_eq_0_iff_dvd)
  moreover have "0 \<le> s" using assms(1) by (simp add: on_disk_def)
  ultimately show ?thesis
    using head_after_delay [OF _ T(1) z, of s] ComputeLatency_bounds [OF assms(1,2), of True]
    unfolding e by auto
qed

definition demo_disk :: Disk where
  "demo_disk = \<lparr>contents = (\<lambda>_. replicate SectorSize 0), active = False, lastSector = 40, bufferInit = 0,
     due = None, totalTicks = 1230, numDiskReads = 0, numDiskWrites = 0\<rparr>"

lemma demo_disk_inv: "Disk_inv demo_disk"
  by (simp add: Disk_inv_def demo_disk_def)

theorem write_latency_exact_witness:
  "(1230 + ComputeLatency demo_disk 77 True) mod 500 = 0 \<and>
   (1230 + ComputeLatency demo_disk 77 True) div 500 mod 32 = 14"
  using write_latency_exact [of 77 demo_disk] by (simp add: demo_disk_def on_disk_def)

text \<open>
  The synchronous disk is a sector memory: on an idle disk, writing a run of distinct sectors
  and reading the same run back returns the data; every other sector keeps its contents, and no
  assertion of the driver fails on the way.
\<close>

theorem disk_write_read_run:
  assumes "Disk_inv d" "distinct ss" "list_all on_disk ss" "length buf = length ss * SectorSize"
  shows "\<exists>d1 d2. write_run WriteSector SectorSize ss buf d = Inr d1 \<and>
     read_run ReadSector ss d1 = Inr (buf, d2) \<and>
     (\<forall>n. n \<notin> nat ` set ss \<longrightarrow> contents d2 n = contents d n) \<and> Disk_inv d2"
proof -
  have v: "\<forall>s \<in> set ss. on_disk s" using assms(3) by (simp add: list_all_iff)
  from disk.write_run_ok [OF assms(1) v assms(4)] obtain d1 where
    d1: "write_run WriteSector SectorSize ss buf d = Inr d1" "Disk_inv d1"
      "contents d1 = disk.put ss buf (contents d)" by blast
  from disk.read_run_ok [OF d1(2) v] obtain d2 where
    d2: "read_run ReadSector ss d1 = Inr (concat (map (\<lambda>s. contents d1 (nat s)) ss), d2)" "Disk_inv d2"
      "contents d2 = contents d1" by blast
  have "concat (map (\<lambda>s. contents d1 (nat s)) ss) = buf"
    using disk.put_concat [OF assms(2) v assms(4)] d1(3) by simp
  moreover have "contents d2 n = contents d n" if "n \<notin> nat ` set ss" for n
    using that disk.put_other [of ss n buf "contents d"] d1(3) d2(3) by auto
  ultimately show ?thesis using d1(1) d2(1,2) by metis
qed

theorem disk_write_read_run_witness:
  "\<exists>d1 d2. write_run WriteSector SectorSize [3, 900] (replicate 256 7) demo_disk = Inr d1 \<and>
     read_run ReadSector [3, 900] d1 = Inr (replicate 256 7, d2)"
  using disk_write_read_run [of demo_disk "[3, 900]" "replicate 256 7"] demo_disk_inv
  by (auto simp: on_disk_def)

end
