(* ===== verification/Open_File.thy ===== *)
theory Open_File
  imports Disk_Device Bit_Map Memory_Image
begin

text \<open>
  File headers and open files of the Nachos file system (\<^verbatim>\<open>filesys/filehdr.cc\<close>,
  \<^verbatim>\<open>filesys/openfile.cc\<close> and the parts of \<^verbatim>\<open>userprog/bitmap.cc\<close> that store a bitmap in a
  file), and the proof that an open file behaves as a byte array of fixed length.

  Objects are stored on disk as their memory image, on a little-endian host with 32-bit
  \<^verbatim>\<open>int\<close>. Memory that C++ leaves uninitialised is an argument: \<open>fresh\<close> gives the bytes of a new
  buffer, and a new \<^verbatim>\<open>FileHeader\<close> is an arbitrary record.
\<close>

section \<open>File headers\<close>

abbreviation (input) NumDirect :: nat where "NumDirect \<equiv> 30"

record FileHeader =
  numBytes :: int
  numSectors :: int
  dataSectors :: "int list"

definition hdr_bytes :: "FileHeader \<Rightarrow> byte list" where
  "hdr_bytes h = ints_bytes (numBytes h # numSectors h # dataSectors h)"

definition hdr_of_bytes :: "byte list \<Rightarrow> FileHeader" where
  "hdr_of_bytes bs = (let xs = bytes_ints (2 + NumDirect) bs in
     \<lparr>numBytes = xs ! 0, numSectors = xs ! 1, dataSectors = drop 2 xs\<rparr>)"

text \<open>
  \<^verbatim>\<open>divRoundUp\<close> on a signed size. The loop stores into \<^verbatim>\<open>dataSectors[i]\<close> without comparing
  \<open>i\<close> with \<^verbatim>\<open>NumDirect\<close>.
\<close>

definition sectors_for :: "int \<Rightarrow> int" where
  "sectors_for n = n sdiv int SectorSize + (if n smod int SectorSize > 0 then 1 else 0)"

fun Allocate_loop :: "FileHeader \<Rightarrow> BitMap \<Rightarrow> nat list \<Rightarrow> (FileHeader \<times> BitMap) res" where
  "Allocate_loop h freeMap [] = Inr (h, freeMap)"
| "Allocate_loop h freeMap (i # is) =
     bindR (BitMap_Find freeMap) (\<lambda>(s, freeMap').
       if i < length (dataSectors h)
       then Allocate_loop (h\<lparr>dataSectors := (dataSectors h)[i := s]\<rparr>) freeMap' is
       else Inl OutOfBounds)"

definition Allocate :: "FileHeader \<Rightarrow> BitMap \<Rightarrow> int \<Rightarrow> (bool \<times> FileHeader \<times> BitMap) res" where
  "Allocate h freeMap fileSize =
     (let h1 = h\<lparr>numBytes := fileSize, numSectors := sectors_for fileSize\<rparr> in
      bindR (BitMap_NumClear freeMap) (\<lambda>c.
        if int c < numSectors h1 then Inr (False, h1, freeMap)
        else bindR (Allocate_loop h1 freeMap [0..<nat (numSectors h1)]) (\<lambda>(h2, freeMap').
               Inr (True, h2, freeMap'))))"

fun Deallocate_loop :: "FileHeader \<Rightarrow> BitMap \<Rightarrow> nat list \<Rightarrow> BitMap res" where
  "Deallocate_loop h freeMap [] = Inr freeMap"
| "Deallocate_loop h freeMap (i # is) =
     (if i < length (dataSectors h)
      then bindR (BitMap_Test freeMap (dataSectors h ! i)) (\<lambda>t.
             if t then bindR (BitMap_Clear freeMap (dataSectors h ! i)) (\<lambda>freeMap'.
                         Deallocate_loop h freeMap' is)
             else Inl AssertionFailed)
      else Inl OutOfBounds)"

definition Deallocate :: "FileHeader \<Rightarrow> BitMap \<Rightarrow> BitMap res" where
  "Deallocate h freeMap = Deallocate_loop h freeMap [0..<nat (numSectors h)]"

definition hdr_FetchFrom :: "int \<Rightarrow> Disk \<Rightarrow> (FileHeader \<times> Disk) res" where
  "hdr_FetchFrom sector d = bindR (ReadSector sector d) (\<lambda>(b, d'). Inr (hdr_of_bytes b, d'))"

definition hdr_WriteBack :: "FileHeader \<Rightarrow> int \<Rightarrow> Disk \<Rightarrow> Disk res" where
  "hdr_WriteBack h sector d = WriteSector sector (hdr_bytes h) d"

definition ByteToSector :: "FileHeader \<Rightarrow> int \<Rightarrow> int res" where
  "ByteToSector h offset =
     (let i = offset sdiv int SectorSize in
      if 0 \<le> i \<and> i < int (length (dataSectors h)) then Inr (dataSectors h ! nat i)
      else Inl OutOfBounds)"

definition FileLength :: "FileHeader \<Rightarrow> int" where
  "FileLength h = numBytes h"

section \<open>Open files\<close>

record OpenFile =
  hdr :: FileHeader
  seekPosition :: int

definition new_OpenFile :: "int \<Rightarrow> Disk \<Rightarrow> (OpenFile \<times> Disk) res" where
  "new_OpenFile sector d =
     bindR (hdr_FetchFrom sector d) (\<lambda>(h, d'). Inr (\<lparr>hdr = h, seekPosition = 0\<rparr>, d'))"

definition Seek :: "int \<Rightarrow> OpenFile \<Rightarrow> OpenFile" where
  "Seek position f = f\<lparr>seekPosition := position\<rparr>"

text \<open>\<^verbatim>\<open>bcopy\<close> out of and into a buffer: outside the buffer's bounds it is an error.\<close>

definition slice :: "byte list \<Rightarrow> int \<Rightarrow> int \<Rightarrow> byte list res" where
  "slice buf off n =
     (if 0 \<le> off \<and> 0 \<le> n \<and> off + n \<le> int (length buf) then Inr (take (nat n) (drop (nat off) buf))
      else Inl OutOfBounds)"

definition blit :: "byte list \<Rightarrow> int \<Rightarrow> byte list \<Rightarrow> byte list res" where
  "blit buf off bs =
     (if 0 \<le> off \<and> off + int (length bs) \<le> int (length buf)
      then Inr (take (nat off) buf @ bs @ drop (nat off + length bs) buf)
      else Inl OutOfBounds)"

text \<open>The loops over the sectors \<open>firstSector .. lastSector\<close>.\<close>

fun ReadAt_loop :: "FileHeader \<Rightarrow> int list \<Rightarrow> Disk \<Rightarrow> (byte list \<times> Disk) res" where
  "ReadAt_loop h [] d = Inr ([], d)"
| "ReadAt_loop h (i # is) d =
     bindR (ByteToSector h (i * int SectorSize)) (\<lambda>s.
     bindR (ReadSector s d) (\<lambda>(b, d1).
     bindR (ReadAt_loop h is d1) (\<lambda>(bs, d2). Inr (b @ bs, d2))))"

fun WriteAt_loop :: "FileHeader \<Rightarrow> int list \<Rightarrow> byte list \<Rightarrow> Disk \<Rightarrow> Disk res" where
  "WriteAt_loop h [] buf d = Inr d"
| "WriteAt_loop h (i # is) buf d =
     bindR (ByteToSector h (i * int SectorSize)) (\<lambda>s.
     bindR (WriteSector s (take SectorSize buf) d) (\<lambda>d1.
     WriteAt_loop h is (drop SectorSize buf) d1))"

text \<open>
  \<open>ReadAt\<close> returns the bytes it copies into the caller's buffer; the C++ result is their number.
  A negative array size makes \<^verbatim>\<open>new\<close> fail. \<open>count\<close>, \<open>firstS\<close> and \<open>lastS\<close> are the locals
  \<^verbatim>\<open>numBytes\<close>, \<^verbatim>\<open>firstSector\<close> and \<^verbatim>\<open>lastSector\<close>.
\<close>

definition ReadAt :: "OpenFile \<Rightarrow> int \<Rightarrow> int \<Rightarrow> Disk \<Rightarrow> (byte list \<times> Disk) res" where
  "ReadAt f count position d =
     (let fileLength = FileLength (hdr f) in
      if count \<le> 0 \<or> position \<ge> fileLength then Inr ([], d)
      else
        let n = (if int32 (position + count) > fileLength then int32 (fileLength - position) else count);
            firstS = position sdiv int SectorSize;
            lastS = int32 (position + n - 1) sdiv int SectorSize
        in if 1 + lastS - firstS < 0 then Inl OutOfBounds
           else bindR (ReadAt_loop (hdr f) [firstS..lastS] d) (\<lambda>(buf, d').
                bindR (slice buf (position - firstS * int SectorSize) n) (\<lambda>bs. Inr (bs, d'))))"

definition WriteAt :: "(nat \<Rightarrow> byte) \<Rightarrow> OpenFile \<Rightarrow> byte list \<Rightarrow> int \<Rightarrow> int \<Rightarrow> Disk \<Rightarrow> (int \<times> Disk) res" where
  "WriteAt fresh f src count position d =
     (let fileLength = FileLength (hdr f) in
      if count \<le> 0 \<or> position \<ge> fileLength then Inr (0, d)
      else
        let n = (if int32 (position + count) > fileLength then int32 (fileLength - position) else count);
            firstS = position sdiv int SectorSize;
            lastS = int32 (position + n - 1) sdiv int SectorSize;
            nSectors = 1 + lastS - firstS;
            firstAligned = (position = firstS * int SectorSize);
            lastAligned = (position + n = (lastS + 1) * int SectorSize)
        in if nSectors < 0 then Inl OutOfBounds
           else
             let buf = map fresh [0..<nat nSectors * SectorSize] in
             bindR (if \<not> firstAligned
                    then bindR (ReadAt f (int SectorSize) (firstS * int SectorSize) d) (\<lambda>(bs, d').
                         bindR (blit buf 0 bs) (\<lambda>buf'. Inr (buf', d')))
                    else Inr (buf, d)) (\<lambda>(buf1, d1).
             bindR (if \<not> lastAligned \<and> (firstS \<noteq> lastS \<or> firstAligned)
                    then bindR (ReadAt f (int SectorSize) (lastS * int SectorSize) d1) (\<lambda>(bs, d').
                         bindR (blit buf1 ((lastS - firstS) * int SectorSize) bs) (\<lambda>buf'.
                           Inr (buf', d')))
                    else Inr (buf1, d1)) (\<lambda>(buf2, d2).
             bindR (slice src 0 n) (\<lambda>bs.
             bindR (blit buf2 (position - firstS * int SectorSize) bs) (\<lambda>buf3.
             bindR (WriteAt_loop (hdr f) [firstS..lastS] buf3 d2) (\<lambda>d3. Inr (n, d3)))))))"

definition Read :: "OpenFile \<Rightarrow> int \<Rightarrow> Disk \<Rightarrow> (byte list \<times> OpenFile \<times> Disk) res" where
  "Read f count d =
     bindR (ReadAt f count (seekPosition f) d) (\<lambda>(bs, d').
       Inr (bs, f\<lparr>seekPosition := int32 (seekPosition f + int (length bs))\<rparr>, d'))"

definition Write :: "(nat \<Rightarrow> byte) \<Rightarrow> OpenFile \<Rightarrow> byte list \<Rightarrow> int \<Rightarrow> Disk \<Rightarrow> (int \<times> OpenFile \<times> Disk) res" where
  "Write fresh f src count d =
     bindR (WriteAt fresh f src count (seekPosition f) d) (\<lambda>(result, d').
       Inr (result, f\<lparr>seekPosition := int32 (seekPosition f + result)\<rparr>, d'))"

definition OpenFile_Length :: "OpenFile \<Rightarrow> int" where
  "OpenFile_Length f = FileLength (hdr f)"

section \<open>Bitmaps in files\<close>

definition map_bytes :: "BitMap \<Rightarrow> byte list" where
  "map_bytes bm = ints_bytes (map uint (bmap bm))"

definition BitMap_FetchFrom :: "BitMap \<Rightarrow> OpenFile \<Rightarrow> Disk \<Rightarrow> (BitMap \<times> Disk) res" where
  "BitMap_FetchFrom bm f d =
     bindR (ReadAt f (int (numWords bm) * 4) 0 d) (\<lambda>(bs, d').
     bindR (blit (map_bytes bm) 0 bs) (\<lambda>img.
       Inr (bm\<lparr>bmap := map word_of_int (bytes_ints (numWords bm) img)\<rparr>, d')))"

definition BitMap_WriteBack :: "(nat \<Rightarrow> byte) \<Rightarrow> BitMap \<Rightarrow> OpenFile \<Rightarrow> Disk \<Rightarrow> Disk res" where
  "BitMap_WriteBack fresh bm f d =
     bindR (WriteAt fresh f (map_bytes bm) (int (numWords bm) * 4) 0 d) (\<lambda>(r, d'). Inr d')"

section \<open>Memory images of headers\<close>

definition hdr_wf :: "FileHeader \<Rightarrow> bool" where
  "hdr_wf h \<longleftrightarrow> length (dataSectors h) = NumDirect \<and> is_int32 (numBytes h) \<and> is_int32 (numSectors h) \<and>
     (\<forall>s \<in> set (dataSectors h). is_int32 s)"

lemma length_hdr_bytes: "hdr_wf h \<Longrightarrow> length (hdr_bytes h) = SectorSize"
  by (simp add: hdr_wf_def hdr_bytes_def)

lemma hdr_of_bytes_bytes: "hdr_wf h \<Longrightarrow> hdr_of_bytes (hdr_bytes h) = h"
  using bytes_ints_bytes [of "numBytes h # numSectors h # dataSectors h" 32 "[]"]
  by (simp add: hdr_wf_def hdr_bytes_def hdr_of_bytes_def Let_def)

lemma words_roundtrip:
  "length ws = n \<Longrightarrow> map word_of_int (bytes_ints n (ints_bytes (map uint ws))) = (ws :: 32 word list)"
proof -
  assume n: "length ws = n"
  have "word_of_int (int32 (uint w)) = (w :: 32 word)" for w
  proof (rule bit_word_eqI)
    fix n
    assume "n < LENGTH(32)"
    then have "n < 31 \<or> n = 31" by auto
    then show "bit (word_of_int (int32 (uint w)) :: 32 word) n = bit w n"
      by (auto simp: int32_def bit_simps)
  qed
  then show ?thesis using n
    by (auto simp: bytes_ints_def drop_ints_bytes bytes_int_bytes intro!: nth_equalityI)
qed


section \<open>An open file is a byte array\<close>

text \<open>
  \<open>file_ok h\<close>: the header describes a file whose data sectors are distinct sectors of the disk.
  \<open>file_data c h\<close> is the file's contents on a disk with contents \<open>c\<close>; \<open>raw\<close> includes the unused
  tail of its last sector.
\<close>

definition blocks :: "FileHeader \<Rightarrow> int list" where
  "blocks h = take (nat (numSectors h)) (dataSectors h)"

definition file_ok :: "FileHeader \<Rightarrow> bool" where
  "file_ok h \<longleftrightarrow> length (dataSectors h) = NumDirect \<and> 0 \<le> numBytes h \<and>
     numSectors h = sectors_for (numBytes h) \<and> numSectors h \<le> int NumDirect \<and>
     distinct (blocks h) \<and> list_all on_disk (blocks h)"

definition raw :: "(nat \<Rightarrow> byte list) \<Rightarrow> FileHeader \<Rightarrow> byte list" where
  "raw c h = concat (map (\<lambda>s. c (nat s)) (blocks h))"

definition file_data :: "(nat \<Rightarrow> byte list) \<Rightarrow> FileHeader \<Rightarrow> byte list" where
  "file_data c h = take (nat (numBytes h)) (raw c h)"

lemma concat_take_uniform:
  "\<forall>x \<in> set xs. length x = n \<Longrightarrow> concat (take k xs) = take (k * n) (concat xs)"
proof (induction xs arbitrary: k)
  case Nil
  then show ?case by simp
next
  case (Cons x xs)
  then show ?case by (cases k) simp_all
qed

lemma concat_drop_uniform:
  "\<forall>x \<in> set xs. length x = n \<Longrightarrow> concat (drop k xs) = drop (k * n) (concat xs)"
proof (induction xs arbitrary: k)
  case Nil
  then show ?case by simp
next
  case (Cons x xs)
  then show ?case by (cases k) simp_all
qed

lemma length_concat_uniform: "\<forall>x \<in> set xs. length x = n \<Longrightarrow> length (concat xs) = length xs * n"
  by (induction xs) simp_all

lemma sectors_for_nat: "sectors_for (int n) = int (divRoundUp n SectorSize)"
proof -
  have "int n mod 128 = int (n mod 128)" "int n div 128 = int (n div 128)"
    by (simp_all add: zmod_int zdiv_int)
  then show ?thesis by (simp add: sectors_for_def divRoundUp_def)
qed

lemma file_okD:
  assumes "file_ok h"
  shows "length (dataSectors h) = 30" "nat (numSectors h) = divRoundUp (nat (numBytes h)) 128"
    "length (blocks h) = divRoundUp (nat (numBytes h)) 128" "divRoundUp (nat (numBytes h)) 128 \<le> 30"
    "distinct (blocks h)" "\<forall>s \<in> set (blocks h). on_disk s" "0 \<le> numBytes h" "numBytes h \<le> 3840"
proof -
  have s: "numSectors h = int (divRoundUp (nat (numBytes h)) 128)"
    using assms sectors_for_nat [of "nat (numBytes h)"] by (simp add: file_ok_def)
  then show n: "nat (numSectors h) = divRoundUp (nat (numBytes h)) 128" by (simp only: nat_int)
  show "length (dataSectors h) = 30" "distinct (blocks h)" "\<forall>s \<in> set (blocks h). on_disk s" "0 \<le> numBytes h"
    using assms by (simp_all add: file_ok_def list_all_iff)
  from s assms show d: "divRoundUp (nat (numBytes h)) 128 \<le> 30" by (simp add: file_ok_def)
  with assms show "length (blocks h) = divRoundUp (nat (numBytes h)) 128"
    unfolding blocks_def n by (simp add: file_ok_def)
  have "nat (numBytes h) \<le> 30 * 128"
    using divRoundUp_covers [of 128 "nat (numBytes h)"] d by linarith
  then show "numBytes h \<le> 3840" by simp
qed

lemma length_raw:
  "file_ok h \<Longrightarrow> \<forall>s. length (c s) = 128 \<Longrightarrow> length (raw c h) = divRoundUp (nat (numBytes h)) 128 * 128"
  using length_concat_uniform [of "map (\<lambda>s. c (nat s)) (blocks h)" 128] file_okD(3) [of h]
  by (simp add: raw_def)

lemma length_file_data:
  "file_ok h \<Longrightarrow> \<forall>s. length (c s) = 128 \<Longrightarrow> length (file_data c h) = nat (numBytes h)"
  using length_raw [of h c] divRoundUp_covers [of 128 "nat (numBytes h)"] by (simp add: file_data_def)

lemma ByteToSector_block:
  "file_ok h \<Longrightarrow> i < length (blocks h) \<Longrightarrow> ByteToSector h (int i * 128) = Inr (blocks h ! i)"
  using file_okD(1) [of h] by (simp add: ByteToSector_def blocks_def)

lemma map_nth_range: "a \<le> b \<Longrightarrow> b \<le> length xs \<Longrightarrow> map ((!) xs) [a..<b] = take (b - a) (drop a xs)"
  by (auto intro!: nth_equalityI)

lemma ReadAt_loop_run:
  "file_ok h \<Longrightarrow> \<forall>i \<in> set is. i < length (blocks h) \<Longrightarrow>
     ReadAt_loop h (map int is) d = read_run ReadSector (map ((!) (blocks h)) is) d"
  by (induction "is" arbitrary: d)
    (auto simp: ByteToSector_block bindR_def split: sum.splits)

lemma WriteAt_loop_run:
  "file_ok h \<Longrightarrow> \<forall>i \<in> set is. i < length (blocks h) \<Longrightarrow>
     WriteAt_loop h (map int is) buf d = write_run WriteSector 128 (map ((!) (blocks h)) is) buf d"
  by (induction "is" arbitrary: d buf)
    (auto simp: ByteToSector_block bindR_def split: sum.splits)

lemma upto_map_int: "[int a..int b] = map int [a..<b + 1]"
proof (induction b)
  case 0
  then show ?case by (cases a) simp_all
next
  case (Suc b)
  show ?case
  proof (cases "a \<le> Suc b")
    case True
    then have "[int a..int (Suc b)] = [int a..int (Suc b) - 1] @ [int (Suc b)]" by (intro upto_rec2) simp
    also have "int (Suc b) - 1 = int b" by simp
    finally show ?thesis using Suc True by simp
  next
    case False
    then show ?thesis by simp
  qed
qed

text \<open>Reading the sectors \<open>a .. b\<close> of a file, and writing them.\<close>

lemma ReadAt_loop_ok:
  assumes "file_ok h" "Disk_inv d" "a \<le> b" "b < length (blocks h)"
  shows "\<exists>d'. ReadAt_loop h [int a..int b] d =
      Inr (take ((b + 1 - a) * 128) (drop (a * 128) (raw (contents d) h)), d') \<and>
    Disk_inv d' \<and> contents d' = contents d"
proof -
  let ?ss = "take (b + 1 - a) (drop a (blocks h))"
  have m: "map ((!) (blocks h)) [a..<b + 1] = ?ss" using assms(3,4) by (intro map_nth_range) simp_all
  have v: "\<forall>s \<in> set ?ss. on_disk s" using file_okD(6) [OF assms(1)] by (auto dest!: in_set_takeD in_set_dropD)
  have u: "\<forall>x \<in> set (map (\<lambda>s. contents d (nat s)) (blocks h)). length x = 128"
    using assms(2) by (auto simp: Disk_inv_def)
  have "concat (map (\<lambda>s. contents d (nat s)) ?ss) =
      concat (take (b + 1 - a) (drop a (map (\<lambda>s. contents d (nat s)) (blocks h))))"
    by (simp add: take_map drop_map)
  also have "\<dots> = take ((b + 1 - a) * 128) (concat (drop a (map (\<lambda>s. contents d (nat s)) (blocks h))))"
    by (rule concat_take_uniform) (use u in \<open>auto simp: drop_map dest: in_set_dropD\<close>)
  also have "concat (drop a (map (\<lambda>s. contents d (nat s)) (blocks h))) = drop (a * 128) (raw (contents d) h)"
    unfolding raw_def by (rule concat_drop_uniform [OF u])
  finally show ?thesis
    using disk.read_run_ok [OF assms(2) v] ReadAt_loop_run [OF assms(1), of "[a..<b + 1]" d] assms(4) m
    by (auto simp: upto_map_int)
qed

lemma WriteAt_loop_ok:
  assumes "file_ok h" "Disk_inv d" "a \<le> b" "b < length (blocks h)" "length buf = (b + 1 - a) * 128"
  shows "\<exists>d'. WriteAt_loop h [int a..int b] buf d = Inr d' \<and> Disk_inv d' \<and>
     raw (contents d') h = take (a * 128) (raw (contents d) h) @ buf @ drop ((b + 1) * 128) (raw (contents d) h) \<and>
     (\<forall>n. n \<notin> nat ` set (blocks h) \<longrightarrow> contents d' n = contents d n)"
proof -
  let ?ss = "take (b + 1 - a) (drop a (blocks h))"
  let ?c = "\<lambda>s. contents d (nat s)" and ?p = "\<lambda>s. disk.put ?ss buf (contents d) (nat s)"
  have m: "map ((!) (blocks h)) [a..<b + 1] = ?ss" using assms(3,4) by (intro map_nth_range) simp_all
  have v: "\<forall>s \<in> set ?ss. on_disk s" using file_okD(6) [OF assms(1)] by (auto dest!: in_set_takeD in_set_dropD)
  have l: "length buf = length ?ss * 128" using assms(4,5) by simp
  from disk.write_run_ok [OF assms(2) v l] obtain d' where
    d': "write_run WriteSector 128 ?ss buf d = Inr d'" "Disk_inv d'" "contents d' = disk.put ?ss buf (contents d)"
    by blast
  have u: "\<forall>x \<in> set (map ?c (blocks h)). length x = 128" using assms(2) by (auto simp: Disk_inv_def)
  have sp: "blocks h = take a (blocks h) @ ?ss @ drop (b + 1) (blocks h)"
    using assms(3) by (metis append_take_drop_id drop_drop le_add_diff_inverse2 trans_le_add1)
  have dst: "distinct (take a (blocks h) @ ?ss @ drop (b + 1) (blocks h))"
    using sp file_okD(5) [OF assms(1)] by metis
  then have ne: "s \<notin> set ?ss" if "s \<in> set (take a (blocks h)) \<union> set (drop (b + 1) (blocks h))" for s
    using that by auto
  have od: "on_disk s" if "s \<in> set (take a (blocks h)) \<union> set (drop (b + 1) (blocks h))" for s
    using that file_okD(6) [OF assms(1)] by (auto dest!: in_set_takeD in_set_dropD)
  have keep: "?p s = ?c s" if "s \<in> set (take a (blocks h)) \<union> set (drop (b + 1) (blocks h))" for s
    using ne [OF that] od [OF that] v by (intro disk.put_other) (metis disk.valid_inj)
  have "raw (contents d') h = concat (map ?p (take a (blocks h) @ ?ss @ drop (b + 1) (blocks h)))"
    using sp d'(3) by (simp add: raw_def)
  also have "\<dots> = concat (map ?c (take a (blocks h))) @ concat (map ?p ?ss) @ concat (map ?c (drop (b + 1) (blocks h)))"
    using keep by (simp cong: map_cong)
  also have "concat (map ?p ?ss) = buf"
    using dst by (intro disk.put_concat [OF _ v l]) simp
  also have "concat (map ?c (take a (blocks h))) = take (a * 128) (raw (contents d) h)"
    using concat_take_uniform [OF u, of a] by (simp add: raw_def take_map)
  also have "concat (map ?c (drop (b + 1) (blocks h))) = drop ((b + 1) * 128) (raw (contents d) h)"
    using concat_drop_uniform [OF u, of "b + 1"] by (simp add: raw_def drop_map)
  finally have r: "raw (contents d') h = take (a * 128) (raw (contents d) h) @ buf @
    drop ((b + 1) * 128) (raw (contents d) h)" .
  have "contents d' n = contents d n" if "n \<notin> nat ` set (blocks h)" for n
    unfolding d'(3) by (rule disk.put_other) (use that in \<open>auto dest!: in_set_takeD in_set_dropD\<close>)
  moreover have "WriteAt_loop h [int a..int b] buf d = Inr d'"
    using d'(1) WriteAt_loop_run [OF assms(1), of "[a..<b + 1]" buf d] assms(3,4)
    unfolding upto_map_int m by simp
  ultimately show ?thesis using d'(2) r by blast
qed


lemma clip_count:
  assumes "file_ok (hdr f)" "p < nat (FileLength (hdr f))" "p + m < 2147483648"
  shows "(if int32 (int p + int m) > FileLength (hdr f) then int32 (FileLength (hdr f) - int p) else int m) =
    int (min m (nat (FileLength (hdr f)) - p))"
proof -
  have "FileLength (hdr f) \<le> 3840" using file_okD(8) [OF assms(1)] by (simp add: FileLength_def)
  moreover have "int p < FileLength (hdr f)" using assms(2) by simp
  ultimately show ?thesis using assms(3) by auto
qed

lemma sector_range:
  assumes "file_ok h" "0 < n" "p + n \<le> nat (numBytes h)"
  shows "p div 128 \<le> (p + n - 1) div 128" "(p + n - 1) div 128 < length (blocks h)"
    "p + n \<le> ((p + n - 1) div 128 + 1) * 128" "p div 128 * 128 \<le> p"
    "p < (p div 128 + 1) * 128" "((p + n - 1) div 128) * 128 < p + n"
    "int32 (int p + int n - 1) sdiv 128 = int ((p + n - 1) div 128)"
    "int p sdiv 128 = int (p div 128)"
proof -
  show "p div 128 \<le> (p + n - 1) div 128" using assms(2) by (intro div_le_mono) simp
  show "(p + n - 1) div 128 < length (blocks h)"
    unfolding file_okD(3) [OF assms(1)] using assms(2,3) by (intro less_divRoundUp_bound) simp_all
  have x: "x div 128 * 128 \<le> x" "x < (x div 128 + 1) * 128" for x :: nat
    using dividend_less_div_times [of 128 x] by (simp_all add: add.commute)
  show "p div 128 * 128 \<le> p" "p < (p div 128 + 1) * 128" by (rule x)+
  show "p + n \<le> ((p + n - 1) div 128 + 1) * 128" using x(2) [of "p + n - 1"] assms(2) by linarith
  show "((p + n - 1) div 128) * 128 < p + n" using x(1) [of "p + n - 1"] assms(2) by linarith
  have "p + n \<le> 3840" using assms(3) file_okD(8) [OF assms(1)] by simp
  then have "int32 (int p + int n - 1) = int (p + n - 1)" using assms(2) by (simp add: of_nat_diff)
  then show "int32 (int p + int n - 1) sdiv 128 = int ((p + n - 1) div 128)" by (simp add: zdiv_int)
  show "int p sdiv 128 = int (p div 128)" by (simp add: zdiv_int)
qed

lemma slice_ok: "off + n \<le> length xs \<Longrightarrow> slice xs (int off) (int n) = Inr (take n (drop off xs))"
  by (simp add: slice_def)

lemma take_drop_take: "q + n \<le> k \<Longrightarrow> take n (drop q (take k xs)) = take n (drop q xs)"
  by (simp add: drop_take)

lemma ReadAt_ok:
  assumes f: "file_ok (hdr f)" and d: "Disk_inv d" and m: "0 < m"
    and p: "p < nat (FileLength (hdr f))" and s: "p + m < 2147483648"
  shows "\<exists>d'. ReadAt f (int m) (int p) d = Inr (take m (drop p (file_data (contents d) (hdr f))), d') \<and>
     Disk_inv d' \<and> contents d' = contents d"
proof -
  let ?L = "nat (FileLength (hdr f))" and ?R = "raw (contents d) (hdr f)"
  define n where "n = min m (?L - p)"
  define a where "a = p div 128"
  define b where "b = (p + n - 1) div 128"
  have n: "0 < n" "p + n \<le> nat (numBytes (hdr f))" using m p by (simp_all add: n_def FileLength_def)
  note r = sector_range [OF f n]
  from ReadAt_loop_ok [OF f d r(1,2)] obtain d' where
    l: "ReadAt_loop (hdr f) [int a..int b] d = Inr (take ((b + 1 - a) * 128) (drop (a * 128) ?R), d')"
      "Disk_inv d'" "contents d' = contents d" unfolding a_def b_def by blast
  have len: "length ?R = length (blocks (hdr f)) * 128"
    using length_raw [OF f] file_okD(3) [OF f] d by (simp add: Disk_inv_def)
  have B: "(b + 1) * 128 \<le> length ?R" using r(2) len unfolding b_def by simp
  have off: "p - a * 128 + n \<le> (b + 1 - a) * 128" "a * 128 \<le> p"
    using r(3,4) unfolding a_def [symmetric] b_def [symmetric] diff_mult_distrib by linarith+
  have "slice (take ((b + 1 - a) * 128) (drop (a * 128) ?R)) (int p - int a * 128) (int n) =
      Inr (take n (drop p ?R))"
  proof -
    have q: "int p - int a * 128 = int (p - a * 128)" using off(2) by simp
    have "length (take ((b + 1 - a) * 128) (drop (a * 128) ?R)) = (b + 1 - a) * 128"
      using diff_le_mono [OF B, of "a * 128"] by (simp add: diff_mult_distrib min_absorb2)
    then have "slice (take ((b + 1 - a) * 128) (drop (a * 128) ?R)) (int p - int a * 128) (int n) =
        Inr (take n (drop (p - a * 128) (take ((b + 1 - a) * 128) (drop (a * 128) ?R))))"
      unfolding q using off(1) by (intro slice_ok) (simp only:)
    also have "\<dots> = Inr (take n (drop p ?R))"
      unfolding take_drop_take [OF off(1)] using off(2) by simp
    finally show ?thesis .
  qed
  moreover have "take n (drop p ?R) = take m (drop p (file_data (contents d) (hdr f)))"
    using n by (simp add: file_data_def drop_take n_def FileLength_def min.commute)
  moreover have "1 + int b - int a \<ge> 0" using r(1) unfolding a_def b_def by simp
  moreover have "\<not> (int m \<le> 0 \<or> FileLength (hdr f) \<le> int p)" using m p by auto
  ultimately show ?thesis
    using l r(7,8) unfolding ReadAt_def Let_def clip_count [OF f p s] n_def [symmetric]
    by (simp add: a_def b_def)
qed


text \<open>Bringing one sector of the file into the write buffer.\<close>

lemma blit_ok:
  assumes "off + length bs \<le> length buf"
  shows "\<exists>buf'. blit buf (int off) bs = Inr buf' \<and> length buf' = length buf \<and>
    (\<forall>x < length buf. buf' ! x = (if off \<le> x \<and> x < off + length bs then bs ! (x - off) else buf ! x))"
  using assms by (auto simp: blit_def nth_append)

lemma fetch_sector:
  assumes f: "file_ok (hdr f)" and d: "Disk_inv d" and i: "a \<le> i" "i \<le> b"
    and L: "i * 128 < nat (numBytes (hdr f))" and buf: "length buf = (b + 1 - a) * 128"
  shows "\<exists>buf' d'. bindR (ReadAt f 128 (int i * 128) d) (\<lambda>(bs, d').
       bindR (blit buf ((int i - int a) * 128) bs) (\<lambda>buf'. Inr (buf', d'))) = Inr (buf', d') \<and>
     Disk_inv d' \<and> contents d' = contents d \<and> length buf' = length buf \<and>
     (\<forall>j. i * 128 \<le> j \<and> j < (i + 1) * 128 \<and> j < nat (numBytes (hdr f)) \<longrightarrow>
        buf' ! (j - a * 128) = raw (contents d) (hdr f) ! j) \<and>
     (\<forall>x < length buf. x < (i - a) * 128 \<or> (i - a + 1) * 128 \<le> x \<longrightarrow> buf' ! x = buf ! x)"
proof -
  let ?F = "file_data (contents d) (hdr f)" and ?L = "nat (numBytes (hdr f))"
  let ?bs = "take 128 (drop (i * 128) ?F)"
  have lF: "length ?F = ?L" using length_file_data [OF f] d by (simp add: Disk_inv_def)
  have "?L \<le> 3840" using file_okD(8) [OF f] by simp
  then obtain d' where r: "ReadAt f 128 (int i * 128) d = Inr (?bs, d')" "Disk_inv d'" "contents d' = contents d"
    using ReadAt_ok [OF f d, of 128 "i * 128"] L by (auto simp: FileLength_def)
  have "(i - a) * 128 + length ?bs \<le> length buf" using i buf by (simp add: diff_mult_distrib)
  from blit_ok [OF this] obtain buf' where
    bu: "blit buf (int ((i - a) * 128)) ?bs = Inr buf'" "length buf' = length buf"
      "\<forall>x < length buf. buf' ! x = (if (i - a) * 128 \<le> x \<and> x < (i - a) * 128 + length ?bs
         then ?bs ! (x - (i - a) * 128) else buf ! x)" by blast
  have o: "(int i - int a) * 128 = int ((i - a) * 128)" using i(1) by (simp add: of_nat_diff)
  have "buf' ! (j - a * 128) = raw (contents d) (hdr f) ! j"
    if j: "i * 128 \<le> j" "j < (i + 1) * 128" "j < ?L" for j
  proof -
    obtain e g where e: "i = a + e" "b = a + e + g" using i by (metis le_Suc_ex)
    obtain r where r: "j = (a + e) * 128 + r" "r < 128" using j(1,2) e by (auto simp: le_iff_add)
    have x: "j - a * 128 < length buf" "(i - a) * 128 \<le> j - a * 128"
      "j - a * 128 < (i - a) * 128 + length ?bs" "j - a * 128 - (i - a) * 128 = j - i * 128"
      using j(3) buf lF r e by simp_all
    then have "buf' ! (j - a * 128) = ?bs ! (j - i * 128)" using bu(3) by metis
    also have "\<dots> = ?F ! j" using j lF by simp
    also have "\<dots> = raw (contents d) (hdr f) ! j" using j by (simp add: file_data_def)
    finally show ?thesis .
  qed
  moreover have "buf' ! x = buf ! x" if "x < length buf" "x < (i - a) * 128 \<or> (i - a + 1) * 128 \<le> x" for x
  proof -
    have "length ?bs \<le> 128" by simp
    with that(2) have "\<not> ((i - a) * 128 \<le> x \<and> x < (i - a) * 128 + length ?bs)"
      unfolding add_mult_distrib by auto
    with that(1) bu(3) show ?thesis by metis
  qed
  moreover have "bindR (ReadAt f 128 (int i * 128) d) (\<lambda>(bs, d').
       bindR (blit buf ((int i - int a) * 128) bs) (\<lambda>buf'. Inr (buf', d'))) = Inr (buf', d')"
    using r(1) bu(1) unfolding o by simp
  ultimately show ?thesis using r(2,3) bu(2) by blast
qed


text \<open>
  The buffer that \<^verbatim>\<open>WriteAt\<close> writes back agrees with the old contents outside the bytes being
  changed, wherever the file has bytes.
\<close>

lemma fill_buffer:
  assumes f: "file_ok (hdr f)" and d: "Disk_inv d" and n: "0 < n" "p + n \<le> nat (numBytes (hdr f))"
    and a: "a = p div 128" and b: "b = (p + n - 1) div 128" and buf: "length buf = (b + 1 - a) * 128"
  shows "\<exists>buf1 d1 buf2 d2.
     (if \<not> int p = int a * 128
      then bindR (ReadAt f 128 (int a * 128) d) (\<lambda>(bs, d').
           bindR (blit buf 0 bs) (\<lambda>buf'. Inr (buf', d')))
      else Inr (buf, d)) = Inr (buf1, d1) \<and>
     (if \<not> int p + int n = (int b + 1) * 128 \<and> (int a \<noteq> int b \<or> int p = int a * 128)
      then bindR (ReadAt f 128 (int b * 128) d1) (\<lambda>(bs, d').
           bindR (blit buf1 ((int b - int a) * 128) bs) (\<lambda>buf'. Inr (buf', d')))
      else Inr (buf1, d1)) = Inr (buf2, d2) \<and>
     Disk_inv d2 \<and> contents d2 = contents d \<and> length buf2 = length buf \<and>
     (\<forall>j. a * 128 \<le> j \<and> j < (b + 1) * 128 \<and> j < nat (numBytes (hdr f)) \<and> \<not> (p \<le> j \<and> j < p + n) \<longrightarrow>
        buf2 ! (j - a * 128) = raw (contents d) (hdr f) ! j)"
proof -
  let ?L = "nat (numBytes (hdr f))" and ?R = "raw (contents d) (hdr f)"
  note r = sector_range [OF f n, folded a b]
  have La: "a * 128 < ?L" and Lb: "b * 128 < ?L" using r n by linarith+
  have "\<exists>buf1 d1. (if \<not> int p = int a * 128
      then bindR (ReadAt f 128 (int a * 128) d) (\<lambda>(bs, d').
           bindR (blit buf 0 bs) (\<lambda>buf'. Inr (buf', d')))
      else Inr (buf, d)) = Inr (buf1, d1) \<and> Disk_inv d1 \<and> contents d1 = contents d \<and> length buf1 = length buf \<and>
      (p \<noteq> a * 128 \<longrightarrow> (\<forall>j. a * 128 \<le> j \<and> j < (a + 1) * 128 \<and> j < ?L \<longrightarrow> buf1 ! (j - a * 128) = ?R ! j))"
    using fetch_sector [OF f d le_refl r(1) La buf] d by (cases "p = a * 128") auto
  then obtain buf1 d1 where s1: "(if \<not> int p = int a * 128
      then bindR (ReadAt f 128 (int a * 128) d) (\<lambda>(bs, d').
           bindR (blit buf 0 bs) (\<lambda>buf'. Inr (buf', d')))
      else Inr (buf, d)) = Inr (buf1, d1)" "Disk_inv d1" "contents d1 = contents d" "length buf1 = length buf"
      "p \<noteq> a * 128 \<Longrightarrow> \<forall>j. a * 128 \<le> j \<and> j < (a + 1) * 128 \<and> j < ?L \<longrightarrow> buf1 ! (j - a * 128) = ?R ! j"
    by blast
  have buf1: "length buf1 = (b + 1 - a) * 128" using s1(4) buf by simp
  let ?c = "\<not> int p + int n = (int b + 1) * 128 \<and> (int a \<noteq> int b \<or> int p = int a * 128)"
  let ?s2 = "if ?c
      then bindR (ReadAt f 128 (int b * 128) d1) (\<lambda>(bs, d').
           bindR (blit buf1 ((int b - int a) * 128) bs) (\<lambda>buf'. Inr (buf', d')))
      else Inr (buf1, d1)"
  have out: "j < (a + 1) * 128" if "\<not> (p \<le> j \<and> j < p + n)" "a * 128 \<le> j" "j < b * 128" for j
    using that r(5,6) by linarith
  have inp: "p \<noteq> a * 128" if "\<not> (p \<le> j \<and> j < p + n)" "a * 128 \<le> j" "j < b * 128" for j
    using that r(6) by linarith
  have "\<exists>buf2 d2. ?s2 = Inr (buf2, d2) \<and> Disk_inv d2 \<and> contents d2 = contents d \<and> length buf2 = length buf \<and>
     (\<forall>j. a * 128 \<le> j \<and> j < (b + 1) * 128 \<and> j < ?L \<and> \<not> (p \<le> j \<and> j < p + n) \<longrightarrow> buf2 ! (j - a * 128) = ?R ! j)"
  proof (cases ?c)
    case True
    from fetch_sector [OF f s1(2) r(1) le_refl Lb buf1] obtain buf2 d2 where
      s2: "bindR (ReadAt f 128 (int b * 128) d1) (\<lambda>(bs, d').
           bindR (blit buf1 ((int b - int a) * 128) bs) (\<lambda>buf'. Inr (buf', d'))) = Inr (buf2, d2)"
        "Disk_inv d2" "contents d2 = contents d1" "length buf2 = length buf1"
        "\<forall>j. b * 128 \<le> j \<and> j < (b + 1) * 128 \<and> j < ?L \<longrightarrow> buf2 ! (j - a * 128) = raw (contents d1) (hdr f) ! j"
        "\<forall>x < length buf1. x < (b - a) * 128 \<or> (b - a + 1) * 128 \<le> x \<longrightarrow> buf2 ! x = buf1 ! x" by blast
    have "buf2 ! (j - a * 128) = ?R ! j"
      if j: "a * 128 \<le> j" "j < (b + 1) * 128" "j < ?L" "\<not> (p \<le> j \<and> j < p + n)" for j
    proof (cases "b * 128 \<le> j")
      case True
      with s2(5) j s1(3) show ?thesis by simp
    next
      case False
      have x: "j - a * 128 < (b - a) * 128"
        using False j(1) unfolding diff_mult_distrib by linarith
      moreover have "(b - a) * 128 \<le> length buf1" unfolding buf1 by (rule mult_le_mono1) simp
      ultimately have "buf2 ! (j - a * 128) = buf1 ! (j - a * 128)" using s2(6) by (meson less_le_trans)
      with s1(5) out [of j] inp [of j] False j show ?thesis by simp
    qed
    with s2(1-4) s1(3,4) show ?thesis unfolding if_P [OF True] by metis
  next
    case False
    have "buf1 ! (j - a * 128) = ?R ! j"
      if j: "a * 128 \<le> j" "j < (b + 1) * 128" "j < ?L" "\<not> (p \<le> j \<and> j < p + n)" for j
    proof (cases "b * 128 \<le> j")
      case True
      have "a = b \<and> p \<noteq> a * 128"
      proof (rule ccontr)
        assume "\<not> (a = b \<and> p \<noteq> a * 128)"
        with False have "p + n = (b + 1) * 128" by auto
        with j(2,4) have "j < p" by linarith
        with True r(5) have "b * 128 < (a + 1) * 128" "b * 128 < p" by linarith+
        with r(1) \<open>\<not> (a = b \<and> p \<noteq> a * 128)\<close> show False by simp
      qed
      with s1(5) j True show ?thesis by simp
    next
      case False
      with s1(5) out [of j] inp [of j] j show ?thesis by simp
    qed
    with s1(2,3,4) show ?thesis unfolding if_not_P [OF False] by blast
  qed
  with s1(1) show ?thesis by blast
qed


lemma overwrite_file:
  assumes R: "length R = N * 128" and b: "b < N" "a \<le> b" and buf: "length buf = (b + 1 - a) * 128"
    and L: "L \<le> N * 128" "p + n \<le> L" and p: "a * 128 \<le> p" "p + n \<le> (b + 1) * 128" and bs: "length bs = n"
    and new: "\<forall>x < length buf. buf ! x = (if p - a * 128 \<le> x \<and> x < p - a * 128 + n
       then bs ! (x - (p - a * 128)) else old ! x)"
    and keep: "\<forall>j. a * 128 \<le> j \<and> j < (b + 1) * 128 \<and> j < L \<and> \<not> (p \<le> j \<and> j < p + n) \<longrightarrow>
       old ! (j - a * 128) = R ! j"
  shows "take L (take (a * 128) R @ buf @ drop ((b + 1) * 128) R) =
    take p (take L R) @ bs @ drop (p + n) (take L R)"
proof (rule nth_equalityI)
  have ab: "a * 128 + length buf = (b + 1) * 128" "(b + 1) * 128 \<le> N * 128"
    using buf b by (simp_all add: diff_mult_distrib)
  have len: "length (take (a * 128) R @ buf @ drop ((b + 1) * 128) R) = N * 128"
    using R ab by simp
  show "length (take L (take (a * 128) R @ buf @ drop ((b + 1) * 128) R)) =
      length (take p (take L R) @ bs @ drop (p + n) (take L R))"
    using len R L bs by simp
  fix j
  assume "j < length (take L (take (a * 128) R @ buf @ drop ((b + 1) * 128) R))"
  then have j: "j < L" "j < N * 128" unfolding length_take len by simp_all
  have lhs: "take L (take (a * 128) R @ buf @ drop ((b + 1) * 128) R) ! j =
      (if a * 128 \<le> j \<and> j < (b + 1) * 128 then buf ! (j - a * 128) else R ! j)"
    using j R ab by (auto simp: nth_append)
  have rhs: "(take p (take L R) @ bs @ drop (p + n) (take L R)) ! j =
      (if p \<le> j \<and> j < p + n then bs ! (j - p) else R ! j)"
    using j R L bs by (auto simp: nth_append)
  have "buf ! (j - a * 128) = (if p \<le> j \<and> j < p + n then bs ! (j - p) else R ! j)"
    if "a * 128 \<le> j" "j < (b + 1) * 128"
  proof -
    have x: "j - a * 128 < length buf" using that ab by linarith
    have y: "p - a * 128 \<le> j - a * 128 \<and> j - a * 128 < p - a * 128 + n \<longleftrightarrow> p \<le> j \<and> j < p + n"
      "j - a * 128 - (p - a * 128) = j - p" using that(1) p(1) by linarith+
    show ?thesis using new x keep that j unfolding y by (metis y)
  qed
  moreover have "\<not> (p \<le> j \<and> j < p + n)" if "\<not> (a * 128 \<le> j \<and> j < (b + 1) * 128)"
    using that p by linarith
  ultimately show "take L (take (a * 128) R @ buf @ drop ((b + 1) * 128) R) ! j =
      (take p (take L R) @ bs @ drop (p + n) (take L R)) ! j"
    unfolding lhs rhs by auto
qed

lemma WriteAt_ok:
  assumes f: "file_ok (hdr f)" and d: "Disk_inv d" and m: "0 < m" "m \<le> length src"
    and p: "p < nat (FileLength (hdr f))" and s: "p + m < 2147483648"
  shows "\<exists>d'. WriteAt fresh f src (int m) (int p) d = Inr (int (min m (nat (FileLength (hdr f)) - p)), d') \<and>
     Disk_inv d' \<and>
     file_data (contents d') (hdr f) =
       take p (file_data (contents d) (hdr f)) @ take (min m (nat (FileLength (hdr f)) - p)) src @
       drop (p + min m (nat (FileLength (hdr f)) - p)) (file_data (contents d) (hdr f)) \<and>
     (\<forall>x. x \<notin> nat ` set (blocks (hdr f)) \<longrightarrow> contents d' x = contents d x)"
proof -
  let ?L = "nat (FileLength (hdr f))" and ?R = "raw (contents d) (hdr f)" and ?N = "length (blocks (hdr f))"
  define n where "n = min m (?L - p)"
  define a where "a = p div 128"
  define b where "b = (p + n - 1) div 128"
  have n: "0 < n" "p + n \<le> nat (numBytes (hdr f))" "n \<le> length src"
    using m p by (simp_all add: n_def FileLength_def)
  note r = sector_range [OF f n(1,2), folded a_def b_def]
  let ?buf = "map fresh [0..<nat (1 + int b - int a) * 128]"
  have k: "nat (1 + int b - int a) = b + 1 - a" using r(1) by linarith
  then have "length ?buf = (b + 1 - a) * 128" by simp
  from fill_buffer [OF f d n(1,2) a_def b_def this] obtain buf1 d1 buf2 d2 where
    s1: "(if \<not> int p = int a * 128
      then bindR (ReadAt f 128 (int a * 128) d) (\<lambda>(bs, d').
           bindR (blit ?buf 0 bs) (\<lambda>buf'. Inr (buf', d')))
      else Inr (?buf, d)) = Inr (buf1, d1)" and
    s2: "(if \<not> int p + int n = (int b + 1) * 128 \<and> (int a \<noteq> int b \<or> int p = int a * 128)
      then bindR (ReadAt f 128 (int b * 128) d1) (\<lambda>(bs, d').
           bindR (blit buf1 ((int b - int a) * 128) bs) (\<lambda>buf'. Inr (buf', d')))
      else Inr (buf1, d1)) = Inr (buf2, d2)" and
    d2: "Disk_inv d2" "contents d2 = contents d" and l2: "length buf2 = (b + 1 - a) * 128" and
    k2: "\<forall>j. a * 128 \<le> j \<and> j < (b + 1) * 128 \<and> j < nat (numBytes (hdr f)) \<and> \<not> (p \<le> j \<and> j < p + n) \<longrightarrow>
        buf2 ! (j - a * 128) = ?R ! j" using k by auto
  have "p - a * 128 + n \<le> (b + 1 - a) * 128"
    using r(3,4) unfolding diff_mult_distrib by linarith
  then have "p - a * 128 + length (take n src) \<le> length buf2" using l2 n(3) by simp
  from blit_ok [OF this] obtain buf3 where
    b3: "blit buf2 (int (p - a * 128)) (take n src) = Inr buf3" "length buf3 = length buf2"
      "\<forall>x < length buf3. buf3 ! x = (if p - a * 128 \<le> x \<and> x < p - a * 128 + n
         then take n src ! (x - (p - a * 128)) else buf2 ! x)" using n(3) by auto
  have o: "int p - int a * 128 = int (p - a * 128)" using r(4) by simp
  from WriteAt_loop_ok [OF f d2(1) r(1,2), of buf3] b3(2) l2 obtain d3 where
    w: "WriteAt_loop (hdr f) [int a..int b] buf3 d2 = Inr d3" "Disk_inv d3"
      "raw (contents d3) (hdr f) = take (a * 128) ?R @ buf3 @ drop ((b + 1) * 128) ?R"
      "\<forall>x. x \<notin> nat ` set (blocks (hdr f)) \<longrightarrow> contents d3 x = contents d x" using d2(2) by auto
  have R: "length ?R = ?N * 128" using length_raw [OF f] file_okD(3) [OF f] d by (simp add: Disk_inv_def)
  have "file_data (contents d3) (hdr f) = take p (file_data (contents d) (hdr f)) @ take n src @
      drop (p + n) (file_data (contents d) (hdr f))"
    unfolding file_data_def w(3)
    by (rule overwrite_file [OF R r(2,1) _ _ n(2) r(4,3) _ b3(3) k2])
      (use b3(2) l2 n(3) divRoundUp_covers [of 128 "nat (numBytes (hdr f))"] file_okD(3) [OF f] in simp_all)
  moreover have "WriteAt fresh f src (int m) (int p) d = Inr (int n, d3)"
  proof -
    have "slice src 0 (int n) = Inr (take n src)" using slice_ok [of 0 n src] n(3) by simp
    moreover have "\<not> (int m \<le> 0 \<or> FileLength (hdr f) \<le> int p)" using m p by auto
    moreover have "\<not> 1 + int b - int a < 0" using r(1) by simp
    ultimately show ?thesis
      unfolding WriteAt_def Let_def of_nat_numeral clip_count [OF f p s] n_def [symmetric] r(7,8) o
      using s1 s2 b3(1) w(1) by (simp only: if_False bindR_simps prod.case)
  qed
  ultimately show ?thesis using w(2,4) unfolding n_def by blast
qed


section \<open>Allocating and releasing data sectors\<close>

lemma Allocate_loop_find_times:
  "k + n \<le> length (dataSectors h) \<Longrightarrow>
     Allocate_loop h fm [k..<k + n] = bindR (find_times BitMap_Find n fm) (\<lambda>(is, fm').
       Inr (h\<lparr>dataSectors := take k (dataSectors h) @ is @ drop (k + n) (dataSectors h)\<rparr>, fm'))"
proof (induction n arbitrary: k h fm)
  case 0
  then show ?case by simp
next
  case (Suc n)
  have u: "[k..<k + Suc n] = k # [Suc k..<Suc k + n]" by (simp add: upt_conv_Cons)
  have t: "take (Suc k) ((dataSectors h)[k := s]) = take k (dataSectors h) @ [s]" for s
    using Suc.prems by (simp add: take_Suc_conv_app_nth)
  show ?case unfolding u
  proof (cases "BitMap_Find fm")
    case (Inl e)
    then show "Allocate_loop h fm (k # [Suc k..<Suc k + n]) = bindR (find_times BitMap_Find (Suc n) fm) (\<lambda>(is, fm').
       Inr (h\<lparr>dataSectors := take k (dataSectors h) @ is @ drop (k + Suc n) (dataSectors h)\<rparr>, fm'))" by simp
  next
    case (Inr x)
    then show "Allocate_loop h fm (k # [Suc k..<Suc k + n]) = bindR (find_times BitMap_Find (Suc n) fm) (\<lambda>(is, fm').
       Inr (h\<lparr>dataSectors := take k (dataSectors h) @ is @ drop (k + Suc n) (dataSectors h)\<rparr>, fm'))"
      using Suc.prems Suc.IH [of "Suc k" "h\<lparr>dataSectors := (dataSectors h)[k := fst x]\<rparr>" "snd x"] t
      by (cases x) (simp add: bindR_assoc case_prod_beta)
  qed
qed

lemma Allocate_fail:
  assumes "BitMap_inv fm" "int (numBits fm - card (marked fm)) < sectors_for n"
  shows "Allocate h fm n = Inr (False, h\<lparr>numBytes := n, numSectors := sectors_for n\<rparr>, fm)"
  using assms by (simp add: Allocate_def NumClear_ok)

lemma Allocate_ok:
  assumes inv: "BitMap_inv fm" "numBits fm = NumSectors" and h: "length (dataSectors h) = NumDirect"
    and n: "n \<le> NumDirect * SectorSize" and c: "divRoundUp n SectorSize \<le> NumSectors - card (marked fm)"
  shows "\<exists>h' fm'. Allocate h fm (int n) = Inr (True, h', fm') \<and> file_ok h' \<and> numBytes h' = int n \<and>
     nat ` set (blocks h') \<inter> marked fm = {} \<and> marked fm' = marked fm \<union> nat ` set (blocks h') \<and>
     drop (divRoundUp n SectorSize) (dataSectors h') = drop (divRoundUp n SectorSize) (dataSectors h) \<and>
     BitMap_inv fm' \<and> numBits fm' = NumSectors"
proof -
  let ?k = "divRoundUp n 128"
  have k: "?k \<le> 30" using divRoundUp_tight [of 128 n] n by linarith
  let ?h1 = "h\<lparr>numBytes := int n, numSectors := int ?k\<rparr>"
  have c': "?k \<le> numBits fm - card (marked fm)" using c inv(2) by simp
  from bitmap.find_times_ok [OF inv(1) c'] obtain "is" fm' where
    f: "find_times BitMap_Find ?k fm = Inr (map int is, fm')" "length is = ?k" "distinct is"
      "set is \<inter> marked fm = {}" "set is \<subseteq> {..<numBits fm}" "BitMap_inv fm'" "numBits fm' = numBits fm"
      "marked fm' = marked fm \<union> set is" by blast
  let ?h2 = "?h1\<lparr>dataSectors := map int is @ drop ?k (dataSectors h)\<rparr>"
  have "Allocate_loop ?h1 fm [0..<?k] = Inr (?h2, fm')"
    using Allocate_loop_find_times [of 0 ?k ?h1 fm] f(1) k h by simp
  then have "Allocate h fm (int n) = Inr (True, ?h2, fm')"
    using c' by (simp add: Allocate_def sectors_for_nat NumClear_ok [OF inv(1)])
  moreover have bl: "blocks ?h2 = map int is" using f(2) by (simp add: blocks_def)
  have "file_ok ?h2"
    using f(2,3,5) k h inv(2) sectors_for_nat [of n]
    by (auto simp: file_ok_def bl list_all_iff on_disk_def distinct_map)
  moreover have "nat ` set (blocks ?h2) = set is" by (simp add: bl image_image)
  ultimately show ?thesis using f inv(2) by (intro exI [of _ ?h2] exI [of _ fm']) simp
qed

lemma Allocate_overflow:
  assumes inv: "BitMap_inv fm" and h: "length (dataSectors h) = NumDirect"
    and n: "NumDirect * SectorSize < n" and c: "divRoundUp n SectorSize \<le> numBits fm - card (marked fm)"
  shows "Allocate h fm (int n) = Inl OutOfBounds"
proof -
  let ?k = "divRoundUp n 128"
  have k: "30 < ?k" using divRoundUp_covers [of 128 n] n by (simp add: mult.commute)
  let ?h1 = "h\<lparr>numBytes := int n, numSectors := int ?k\<rparr>"
  have sp: "[0..<?k] = [0..<30] @ [30..<?k]" using k upt_add_eq_append [of 0 30 "?k - 30"] by (simp del: upt_rec_numeral)
  have app: "Allocate_loop h fm (is @ js) = bindR (Allocate_loop h fm is) (\<lambda>(h', fm'). Allocate_loop h' fm' js)"
    for h fm "is" js by (induction "is" arbitrary: h fm) (auto simp: bindR_def split: sum.splits)
  from c k have "30 \<le> numBits fm - card (marked fm)" by linarith
  from bitmap.find_times_ok [OF inv this] obtain "is" fm' where
    f: "find_times BitMap_Find 30 fm = Inr (map int is, fm')" "length is = 30" "distinct is"
      "set is \<inter> marked fm = {}" "BitMap_inv fm'" "numBits fm' = numBits fm" "marked fm' = marked fm \<union> set is"
    by blast
  let ?h2 = "?h1\<lparr>dataSectors := map int is\<rparr>"
  have one: "Allocate_loop ?h1 fm [0..<30] = Inr (?h2, fm')"
    using Allocate_loop_find_times [of 0 30 ?h1 fm] f(1) h by simp
  have "card (marked fm') = card (marked fm) + 30"
    using f(2,3,4,7) by (simp add: card_Un_disjoint Int_commute distinct_card)
  then have "card (marked fm') \<noteq> numBits fm'" using c k f(6) by linarith
  then have "marked fm' \<noteq> {..<numBits fm'}" by (metis card_lessThan)
  from Find_free [OF f(5) this] obtain i fm'' where "BitMap_Find fm' = Inr (int i, fm'')" by blast
  moreover have "[30..<?k] = 30 # [Suc 30..<?k]" by (rule upt_conv_Cons [OF k])
  moreover have "\<not> 30 < length (dataSectors ?h2)" using f(2) by simp
  ultimately have "Allocate_loop ?h2 fm' [30..<?k] = Inl OutOfBounds"
    by (simp only: Allocate_loop.simps bindR_simps prod.case if_False)
  then have "Allocate_loop ?h1 fm [0..<?k] = Inl OutOfBounds" unfolding sp app one by simp
  then show ?thesis using c by (simp add: Allocate_def sectors_for_nat NumClear_ok [OF inv])
qed

lemma Deallocate_loop_ok:
  assumes "BitMap_inv fm" "numBits fm = NumSectors" "distinct is" "\<forall>i \<in> set is. i < length (dataSectors h)"
    and "\<forall>i \<in> set is. on_disk (dataSectors h ! i) \<and> nat (dataSectors h ! i) \<in> marked fm"
    and "inj_on ((!) (dataSectors h)) (set is)"
  shows "\<exists>fm'. Deallocate_loop h fm is = Inr fm' \<and> BitMap_inv fm' \<and> numBits fm' = NumSectors \<and>
     marked fm' = marked fm - (\<lambda>i. nat (dataSectors h ! i)) ` set is"
  using assms
proof (induction "is" arbitrary: fm)
  case Nil
  then show ?case by simp
next
  case (Cons i "is")
  let ?s = "nat (dataSectors h ! i)"
  have s: "dataSectors h ! i = int ?s" "?s < numBits fm" "?s \<in> marked fm" "i < length (dataSectors h)"
    using Cons.prems by (auto simp: on_disk_def)
  from Clear_ok [OF Cons.prems(1) s(2)] s(1) obtain fm1 where
    c: "BitMap_Clear fm (dataSectors h ! i) = Inr fm1" "BitMap_inv fm1" "numBits fm1 = numBits fm"
      "marked fm1 = marked fm - {?s}" by auto
  have ne: "nat (dataSectors h ! j) \<noteq> ?s" if "j \<in> set is" for j
    using that Cons.prems eq_nat_nat_iff [of "dataSectors h ! j" "dataSectors h ! i"]
    by (auto simp: on_disk_def inj_on_def)
  have "\<exists>fm'. Deallocate_loop h fm1 is = Inr fm' \<and> BitMap_inv fm' \<and> numBits fm' = NumSectors \<and>
     marked fm' = marked fm1 - (\<lambda>i. nat (dataSectors h ! i)) ` set is"
    using Cons.IH [OF c(2)] Cons.prems c(3,4) ne by auto
  then obtain fm' where fm': "Deallocate_loop h fm1 is = Inr fm'" "BitMap_inv fm'" "numBits fm' = NumSectors"
     "marked fm' = marked fm1 - (\<lambda>i. nat (dataSectors h ! i)) ` set is" by blast
  have t: "BitMap_Test fm (dataSectors h ! i) = Inr True"
    using Test_ok [OF Cons.prems(1) s(2)] s(1,3) by metis
  show ?case using c t fm' s(4) by (intro exI [of _ fm']) auto
qed

lemma Deallocate_ok:
  assumes "BitMap_inv fm" "numBits fm = NumSectors" "file_ok h" "nat ` set (blocks h) \<subseteq> marked fm"
  shows "\<exists>fm'. Deallocate h fm = Inr fm' \<and> BitMap_inv fm' \<and> numBits fm' = NumSectors \<and>
     marked fm' = marked fm - nat ` set (blocks h)"
proof -
  let ?n = "nat (numSectors h)"
  have n: "?n = length (blocks h)" "?n \<le> 30" using file_okD(2,3,4) [OF assms(3)] by simp_all
  have b: "dataSectors h ! i = blocks h ! i" if "i < ?n" for i using that by (simp add: blocks_def)
  have im: "(\<lambda>i. nat (dataSectors h ! i)) ` set [0..<?n] = nat ` set (blocks h)"
    using n(1) b by (auto simp: set_conv_nth image_def)
  have "inj_on ((!) (dataSectors h)) (set [0..<?n])"
    using file_okD(5) [OF assms(3)] b n(1) by (auto simp: inj_on_def nth_eq_iff_index_eq)
  moreover have "\<forall>i \<in> set [0..<?n]. on_disk (dataSectors h ! i) \<and> nat (dataSectors h ! i) \<in> marked fm"
    using file_okD(6) [OF assms(3)] assms(4) b n(1) by auto
  moreover have "\<forall>i \<in> set [0..<?n]. i < length (dataSectors h)" using file_okD(1) [OF assms(3)] n(2) by simp
  ultimately show ?thesis
    using Deallocate_loop_ok [OF assms(1,2), of "[0..<?n]" h] im by (auto simp: Deallocate_def)
qed


section \<open>Properties\<close>

definition demo_hdr :: FileHeader where
  "demo_hdr = \<lparr>numBytes = 300, numSectors = 3, dataSectors = [17, 5, 900] @ replicate 27 0\<rparr>"

definition demo_file :: OpenFile where
  "demo_file = \<lparr>hdr = demo_hdr, seekPosition = 0\<rparr>"

lemma demo_file_ok: "file_ok demo_hdr" "hdr demo_file = demo_hdr" "FileLength demo_hdr = 300"
  by (simp_all add: demo_hdr_def demo_file_def file_ok_def blocks_def sectors_for_def on_disk_def FileLength_def
      signed_divide_int_def signed_modulo_int_def)

text \<open>
  C33: An open file is a byte array of fixed length. \<^verbatim>\<open>WriteAt\<close> inside the file stores exactly the
  requested bytes, cut at the end of the file, returns their number and changes no other byte of
  this file and no sector of any other; a \<^verbatim>\<open>ReadAt\<close> afterwards, at any position, returns the
  bytes of the updated array. No bounds check of the buffer handling fails, whatever the alignment
  of the request and whatever the new buffer contained.
\<close>

theorem WriteAt_then_ReadAt:
  assumes "file_ok (hdr f)" "Disk_inv d" "0 < m" "m \<le> length src" "p < nat (FileLength (hdr f))"
    "p + m < 2 ^ 31" "0 < k" "q < nat (FileLength (hdr f))" "q + k < 2 ^ 31"
    "n = min m (nat (FileLength (hdr f)) - p)"
    "new = take p (file_data (contents d) (hdr f)) @ take n src @ drop (p + n) (file_data (contents d) (hdr f))"
  shows "\<exists>d1 d2. WriteAt fresh f src (int m) (int p) d = Inr (int n, d1) \<and>
     ReadAt f (int k) (int q) d1 = Inr (take k (drop q new), d2) \<and> length new = nat (FileLength (hdr f)) \<and>
     (\<forall>x. x \<notin> nat ` set (blocks (hdr f)) \<longrightarrow> contents d2 x = contents d x) \<and> Disk_inv d2"
proof -
  from WriteAt_ok [OF assms(1-5), of fresh] assms(6,10,11) obtain d1 where
    w: "WriteAt fresh f src (int m) (int p) d = Inr (int n, d1)" "Disk_inv d1"
      "file_data (contents d1) (hdr f) = new"
      "\<forall>x. x \<notin> nat ` set (blocks (hdr f)) \<longrightarrow> contents d1 x = contents d x" by auto
  from ReadAt_ok [OF assms(1) w(2) assms(7,8)] assms(9) w(3) obtain d2 where
    "ReadAt f (int k) (int q) d1 = Inr (take k (drop q new), d2)" "Disk_inv d2" "contents d2 = contents d1"
    by auto
  moreover have "length new = nat (FileLength (hdr f))"
    using length_file_data [OF assms(1), of "contents d1"] w(2,3) by (simp add: Disk_inv_def FileLength_def)
  ultimately show ?thesis using w(1,4) by auto
qed

theorem WriteAt_then_ReadAt_witness:
  "\<exists>d1 d2. WriteAt (\<lambda>_. 99) demo_file [1, 2, 3, 4, 5] 5 126 demo_disk = Inr (5, d1) \<and>
     ReadAt demo_file 3 127 d1 = Inr ([2, 3, 4], d2)"
proof -
  let ?F = "file_data (contents demo_disk) demo_hdr"
  let ?n = "take 126 ?F @ [1, 2, 3, 4, 5] @ drop 131 ?F"
  have l: "length ?F = 300"
    using length_file_data [OF demo_file_ok(1), of "contents demo_disk"] by (simp add: demo_disk_def demo_hdr_def)
  have "take 3 (drop 127 ?n) = [2, 3, 4]" using l by simp
  with WriteAt_then_ReadAt [of demo_file demo_disk 5 "[1, 2, 3, 4, 5]" 126 3 127 5 ?n "\<lambda>_. 99"]
    demo_disk_inv demo_file_ok show ?thesis by auto
qed

text \<open>
  Allocation of a file's data sectors. When the disk has room and the size fits a header, the
  sectors come from the free map, are distinct and were free, exactly they become marked, and the
  header is well formed; \<^verbatim>\<open>Deallocate\<close> passes its assertions and gives exactly them back. Without
  room \<^verbatim>\<open>Allocate\<close> returns FALSE and takes nothing.
\<close>

theorem Allocate_Deallocate:
  assumes "BitMap_inv fm" "numBits fm = NumSectors" "length (dataSectors h) = NumDirect"
    "n \<le> NumDirect * SectorSize"
  shows "if NumSectors - card (marked fm) < divRoundUp n SectorSize
     then \<exists>h'. Allocate h fm (int n) = Inr (False, h', fm)
     else \<exists>h' fm1 fm2. Allocate h fm (int n) = Inr (True, h', fm1) \<and> file_ok h' \<and> FileLength h' = int n \<and>
       nat ` set (blocks h') \<inter> marked fm = {} \<and> marked fm1 = marked fm \<union> nat ` set (blocks h') \<and>
       Deallocate h' fm1 = Inr fm2 \<and> marked fm2 = marked fm"
proof (cases "NumSectors - card (marked fm) < divRoundUp n SectorSize")
  case True
  then have "int (numBits fm - card (marked fm)) < sectors_for (int n)"
    using assms(2) unfolding sectors_for_nat by simp
  from Allocate_fail [OF assms(1) this] True show ?thesis by simp
next
  case False
  then have "divRoundUp n SectorSize \<le> NumSectors - card (marked fm)" by simp
  from Allocate_ok [OF assms this] obtain h' fm1 where
    a: "Allocate h fm (int n) = Inr (True, h', fm1)" "file_ok h'" "numBytes h' = int n"
      "nat ` set (blocks h') \<inter> marked fm = {}" "marked fm1 = marked fm \<union> nat ` set (blocks h')"
      "BitMap_inv fm1" "numBits fm1 = NumSectors" by blast
  from Deallocate_ok [OF a(6,7,2)] a(5) obtain fm2 where
    "Deallocate h' fm1 = Inr fm2" "marked fm2 = marked fm1 - nat ` set (blocks h')" by auto
  moreover have "marked fm1 - nat ` set (blocks h') = marked fm" using a(4,5) by auto
  ultimately show ?thesis using a False by (auto simp: FileLength_def)
qed

definition demo_free :: BitMap where
  "demo_free = projr (new_BitMap (replicate 32 0) 1024)"

lemma demo_free_ok: "BitMap_inv demo_free" "numBits demo_free = 1024" "marked demo_free = {}"
  using new_BitMap_ok [of 1024 "replicate 32 0"] by (auto simp: demo_free_def divRoundUp_def)

theorem Allocate_Deallocate_witness:
  "\<exists>h' fm1 fm2. Allocate demo_hdr demo_free 1000 = Inr (True, h', fm1) \<and> file_ok h' \<and>
     marked fm1 = nat ` set (blocks h') \<and> Deallocate h' fm1 = Inr fm2 \<and> marked fm2 = {}"
  using Allocate_Deallocate [of demo_free demo_hdr 1000] demo_free_ok demo_file_ok(1)
  by (auto simp: divRoundUp_def file_ok_def)

text \<open>
  \<^verbatim>\<open>Allocate\<close> does not check the size against \<^verbatim>\<open>MaxFileSize\<close>: for every larger size that the
  disk has room for it writes past the end of \<^verbatim>\<open>dataSectors\<close>, although the routine has a failure
  result for requests it cannot satisfy.
\<close>

theorem Allocate_writes_past_header:
  assumes "BitMap_inv fm" "numBits fm = NumSectors" "length (dataSectors h) = NumDirect"
    "NumDirect * SectorSize < n" "divRoundUp n SectorSize \<le> NumSectors - card (marked fm)"
  shows "Allocate h fm (int n) = Inl OutOfBounds"
  using Allocate_overflow [OF assms(1,3,4)] assms(2,5) by simp

theorem Allocate_writes_past_header_witness: "Allocate demo_hdr demo_free 3841 = Inl OutOfBounds"
  using Allocate_writes_past_header [of demo_free demo_hdr 3841] demo_free_ok demo_file_ok(1)
  by (simp add: divRoundUp_def file_ok_def)

end
