(* ===== verification/File_Directory.thy ===== *)
theory File_Directory
  imports Open_File
begin

text \<open>
  The single directory of the Nachos file system (\<^verbatim>\<open>filesys/directory.cc\<close>): a fixed table of
  entries, searched by the first nine characters of a name. The locale \<open>name_table\<close> says what the
  file system relies on, a finite map from truncated names to header sectors.
\<close>

section \<open>C strings\<close>

text \<open>
  A C string is the list of its bytes before the terminating NUL; reading on yields NULs.
  \<^verbatim>\<open>strncmp(a, b, n) == 0\<close> and \<^verbatim>\<open>strncpy(dst, src, n)\<close>, which pads with NULs up to \<open>n\<close> and writes
  no terminator after \<open>n\<close> characters.
\<close>

definition chr0 :: "byte list \<Rightarrow> byte" where
  "chr0 s = (case s of [] \<Rightarrow> 0 | c # _ \<Rightarrow> c)"

fun strncmp_eq :: "nat \<Rightarrow> byte list \<Rightarrow> byte list \<Rightarrow> bool" where
  "strncmp_eq 0 a b = True"
| "strncmp_eq (Suc n) a b = (chr0 a = chr0 b \<and> (chr0 a = 0 \<or> strncmp_eq n (tl a) (tl b)))"

definition strncpy :: "byte list \<Rightarrow> byte list \<Rightarrow> nat \<Rightarrow> byte list" where
  "strncpy dst src n = take n (src @ replicate n 0) @ drop n dst"

definition strn :: "nat \<Rightarrow> byte list \<Rightarrow> byte list" where
  "strn n s = takeWhile (\<lambda>c. c \<noteq> 0) (take n s)"

section \<open>The directory\<close>

abbreviation (input) FileNameMaxLen :: nat where "FileNameMaxLen \<equiv> 9"

text \<open>
  \<open>pad1\<close> and \<open>pad2\<close> are the padding bytes the compiler inserts after \<^verbatim>\<open>inUse\<close> and at the end; they
  travel to the disk and back with the rest of the entry.
\<close>

record DirectoryEntry =
  inUse :: bool
  pad1 :: "byte list"
  deSector :: int
  deName :: "byte list"
  pad2 :: "byte list"

record Directory =
  tableSize :: nat
  table :: "DirectoryEntry list"

definition new_Directory :: "(nat \<Rightarrow> DirectoryEntry) \<Rightarrow> nat \<Rightarrow> Directory" where
  "new_Directory junk sz =
     \<lparr>tableSize = sz, table = map (\<lambda>i. (junk i)\<lparr>inUse := False\<rparr>) [0..<sz]\<rparr>"

definition entry_matches :: "byte list \<Rightarrow> DirectoryEntry \<Rightarrow> bool" where
  "entry_matches nm e \<longleftrightarrow> inUse e \<and> strncmp_eq FileNameMaxLen (deName e) nm"

definition FindIndex :: "Directory \<Rightarrow> byte list \<Rightarrow> int" where
  "FindIndex dir nm =
     (case find_index (entry_matches nm) (take (tableSize dir) (table dir)) of
        Some i \<Rightarrow> int i | None \<Rightarrow> -1)"

definition Directory_Find :: "Directory \<Rightarrow> byte list \<Rightarrow> int" where
  "Directory_Find dir nm =
     (let i = FindIndex dir nm in if i \<noteq> -1 then deSector (table dir ! nat i) else -1)"

definition Directory_Add :: "Directory \<Rightarrow> byte list \<Rightarrow> int \<Rightarrow> bool \<times> Directory" where
  "Directory_Add dir nm newSector =
     (if FindIndex dir nm \<noteq> -1 then (False, dir)
      else case find_index (\<lambda>e. \<not> inUse e) (take (tableSize dir) (table dir)) of
             Some i \<Rightarrow> (True, dir\<lparr>table := (table dir)[i := (table dir ! i)
                \<lparr>inUse := True, deName := strncpy (deName (table dir ! i)) nm FileNameMaxLen,
                 deSector := newSector\<rparr>]\<rparr>)
           | None \<Rightarrow> (False, dir))"

definition Directory_Remove :: "Directory \<Rightarrow> byte list \<Rightarrow> bool \<times> Directory" where
  "Directory_Remove dir nm =
     (let i = FindIndex dir nm in
      if i = -1 then (False, dir)
      else (True, dir\<lparr>table := (table dir)[nat i := (table dir ! nat i)\<lparr>inUse := False\<rparr>]\<rparr>))"

text \<open>\<^verbatim>\<open>printf("%s")\<close> of a name reads up to its NUL; without one it reads past the entry.\<close>

fun List_loop :: "DirectoryEntry list \<Rightarrow> byte list list res" where
  "List_loop [] = Inr []"
| "List_loop (e # es) =
     (if inUse e
      then if 0 \<in> set (deName e)
           then bindR (List_loop es) (\<lambda>out. Inr (takeWhile (\<lambda>c. c \<noteq> 0) (deName e) # out))
           else Inl OutOfBounds
      else List_loop es)"

definition Directory_List :: "Directory \<Rightarrow> byte list list res" where
  "Directory_List dir = List_loop (take (tableSize dir) (table dir))"

text \<open>The image of an entry in memory, 20 bytes, and of the table.\<close>

definition entry_bytes :: "DirectoryEntry \<Rightarrow> byte list" where
  "entry_bytes e = (if inUse e then 1 else 0) # pad1 e @ int_bytes (deSector e) @ deName e @ pad2 e"

definition entry_of_bytes :: "byte list \<Rightarrow> DirectoryEntry" where
  "entry_of_bytes bs =
     \<lparr>inUse = (bs ! 0 \<noteq> 0), pad1 = take 3 (drop 1 bs), deSector = bytes_int (take 4 (drop 4 bs)),
      deName = take 10 (drop 8 bs), pad2 = take 2 (drop 18 bs)\<rparr>"

definition table_bytes :: "DirectoryEntry list \<Rightarrow> byte list" where
  "table_bytes es = concat (map entry_bytes es)"

definition table_of_bytes :: "nat \<Rightarrow> byte list \<Rightarrow> DirectoryEntry list" where
  "table_of_bytes n bs = map (\<lambda>i. entry_of_bytes (take 20 (drop (i * 20) bs))) [0..<n]"

definition Directory_FetchFrom :: "Directory \<Rightarrow> OpenFile \<Rightarrow> Disk \<Rightarrow> (Directory \<times> Disk) res" where
  "Directory_FetchFrom dir f d =
     bindR (ReadAt f (int (tableSize dir) * 20) 0 d) (\<lambda>(bs, d').
     bindR (blit (table_bytes (table dir)) 0 bs) (\<lambda>img.
       Inr (dir\<lparr>table := table_of_bytes (tableSize dir) img\<rparr>, d')))"

definition Directory_WriteBack :: "(nat \<Rightarrow> byte) \<Rightarrow> Directory \<Rightarrow> OpenFile \<Rightarrow> Disk \<Rightarrow> Disk res" where
  "Directory_WriteBack fresh dir f d =
     bindR (WriteAt fresh f (table_bytes (table dir)) (int (tableSize dir) * 20) 0 d) (\<lambda>(r, d'). Inr d')"

section \<open>Names\<close>

lemma strncmp_eq_strn: "strncmp_eq n a b \<longleftrightarrow> strn n a = strn n b"
proof (induction n arbitrary: a b)
  case 0
  then show ?case by (simp add: strn_def)
next
  case (Suc n)
  show ?case
    by (cases a; cases b) (auto simp: chr0_def strn_def Suc.IH [unfolded strn_def])
qed

lemma takeWhile_zeros: "takeWhile (\<lambda>c. c \<noteq> 0) (xs @ replicate k (0::byte)) = takeWhile (\<lambda>c. c \<noteq> 0) xs"
proof (induction xs)
  case Nil
  show ?case by (cases k) simp_all
qed simp

lemma strn_strncpy: "strn n (strncpy dst src n) = strn n src"
  by (simp add: strn_def strncpy_def takeWhile_zeros)

lemma length_strncpy: "n \<le> length dst \<Longrightarrow> length (strncpy dst src n) = length dst"
  by (simp add: strncpy_def)

section \<open>The directory as a map\<close>

definition entry_wf :: "DirectoryEntry \<Rightarrow> bool" where
  "entry_wf e \<longleftrightarrow> length (pad1 e) = 3 \<and> length (pad2 e) = 2 \<and> length (deName e) = 10 \<and> is_int32 (deSector e)"

definition Directory_inv :: "Directory \<Rightarrow> bool" where
  "Directory_inv dir \<longleftrightarrow> length (table dir) = tableSize dir \<and> list_all entry_wf (table dir) \<and>
     (\<forall>i < tableSize dir. \<forall>j < tableSize dir. inUse (table dir ! i) \<and> inUse (table dir ! j) \<and>
        strn FileNameMaxLen (deName (table dir ! i)) = strn FileNameMaxLen (deName (table dir ! j)) \<longrightarrow> i = j)"

definition dir_lookup :: "Directory \<Rightarrow> byte list \<Rightarrow> int option" where
  "dir_lookup dir k =
     map_option (\<lambda>i. deSector (table dir ! i))
       (find_index (\<lambda>e. inUse e \<and> strn FileNameMaxLen (deName e) = k) (table dir))"

definition dir_full :: "Directory \<Rightarrow> bool" where
  "dir_full dir \<longleftrightarrow> list_all inUse (table dir)"

lemma entry_matches_strn: "entry_matches nm = (\<lambda>e. inUse e \<and> strn 9 (deName e) = strn 9 nm)"
  by (auto simp: entry_matches_def strncmp_eq_strn)

lemma dir_lookup_iff:
  assumes "Directory_inv dir"
  shows "dir_lookup dir k = Some s \<longleftrightarrow>
    (\<exists>i < length (table dir). inUse (table dir ! i) \<and> strn 9 (deName (table dir ! i)) = k \<and> deSector (table dir ! i) = s)"
proof
  assume "dir_lookup dir k = Some s"
  then show "\<exists>i < length (table dir). inUse (table dir ! i) \<and> strn 9 (deName (table dir ! i)) = k \<and>
      deSector (table dir ! i) = s"
    by (auto simp: dir_lookup_def dest: find_index_SomeD)
next
  assume "\<exists>i < length (table dir). inUse (table dir ! i) \<and> strn 9 (deName (table dir ! i)) = k \<and>
      deSector (table dir ! i) = s"
  then obtain i where i: "i < length (table dir)" "inUse (table dir ! i)" "strn 9 (deName (table dir ! i)) = k"
    "deSector (table dir ! i) = s" by blast
  have "\<forall>j < i. \<not> (inUse (table dir ! j) \<and> strn 9 (deName (table dir ! j)) = k)"
    using assms i by (metis (mono_tags, lifting) Directory_inv_def less_trans nat_neq_iff)
  with i have "find_index (\<lambda>e. inUse e \<and> strn 9 (deName e) = k) (table dir) = Some i"
    by (simp add: find_index_Some_iff)
  with i show "dir_lookup dir k = Some s" by (simp add: dir_lookup_def)
qed

lemma FindIndex_cases:
  assumes "Directory_inv dir"
  shows "(FindIndex dir nm = -1 \<and> dir_lookup dir (strn 9 nm) = None) \<or>
    (\<exists>i < length (table dir). FindIndex dir nm = int i \<and> inUse (table dir ! i) \<and>
       strn 9 (deName (table dir ! i)) = strn 9 nm \<and> dir_lookup dir (strn 9 nm) = Some (deSector (table dir ! i)))"
  using assms
  by (auto simp: FindIndex_def dir_lookup_def entry_matches_strn Directory_inv_def split: option.splits
      dest: find_index_SomeD)

lemma Directory_Find_lookup:
  "Directory_inv dir \<Longrightarrow>
     Directory_Find dir nm = (case dir_lookup dir (strn 9 nm) of None \<Rightarrow> -1 | Some s \<Rightarrow> s)"
  using FindIndex_cases [of dir nm] by (auto simp: Directory_Find_def)

lemma FindIndex_missing:
  "Directory_inv dir \<Longrightarrow> FindIndex dir nm = -1 \<longleftrightarrow> dir_lookup dir (strn 9 nm) = None"
  using FindIndex_cases [of dir nm] by auto

lemma Directory_Add_present:
  "Directory_inv dir \<Longrightarrow> dir_lookup dir (strn 9 nm) \<noteq> None \<Longrightarrow> Directory_Add dir nm s = (False, dir)"
  by (simp add: Directory_Add_def FindIndex_missing)

lemma Directory_Add_full:
  "Directory_inv dir \<Longrightarrow> dir_full dir \<Longrightarrow> Directory_Add dir nm s = (False, dir)"
proof -
  assume "Directory_inv dir" "dir_full dir"
  then have "find_index (\<lambda>e. \<not> inUse e) (take (tableSize dir) (table dir)) = None"
    by (auto simp: find_index_None_iff dir_full_def list_all_iff dest: in_set_takeD)
  then show ?thesis by (simp add: Directory_Add_def)
qed

lemma Directory_Add_ok:
  assumes inv: "Directory_inv dir" and new: "dir_lookup dir (strn 9 nm) = None" and room: "\<not> dir_full dir"
    and s: "is_int32 s"
  shows "\<exists>dir'. Directory_Add dir nm s = (True, dir') \<and> Directory_inv dir' \<and> tableSize dir' = tableSize dir \<and>
     dir_lookup dir' = (dir_lookup dir)(strn 9 nm \<mapsto> s)"
proof -
  have "find_index (\<lambda>e. \<not> inUse e) (table dir) \<noteq> None"
    using room by (auto simp: find_index_None_iff dir_full_def list_all_iff)
  then obtain i where fi: "find_index (\<lambda>e. \<not> inUse e) (table dir) = Some i" by auto
  then have i: "i < length (table dir)" "\<not> inUse (table dir ! i)" by (auto dest: find_index_SomeD)
  let ?e = "(table dir ! i)\<lparr>inUse := True, deName := strncpy (deName (table dir ! i)) nm 9, deSector := s\<rparr>"
  let ?d = "dir\<lparr>table := (table dir)[i := ?e]\<rparr>"
  have add: "Directory_Add dir nm s = (True, ?d)"
    using fi inv new by (simp add: Directory_Add_def FindIndex_missing Directory_inv_def)
  have wf: "entry_wf ?e" using inv i s
    by (auto simp: Directory_inv_def entry_wf_def list_all_length length_strncpy)
  have none: "\<not> (inUse (table dir ! j) \<and> strn 9 (deName (table dir ! j)) = strn 9 nm)" if "j < length (table dir)" for j
    using dir_lookup_iff [OF inv, of "strn 9 nm"] new that by auto
  then have none': "inUse (table dir ! j) \<Longrightarrow> strn 9 nm \<noteq> strn 9 (deName (table dir ! j))"
    if "j < length (table dir)" for j using that by metis
  have inv': "Directory_inv ?d"
    using inv wf i none none' by (auto simp: Directory_inv_def nth_list_update strn_strncpy list_all_length)
  have "dir_lookup ?d k = Some t \<longleftrightarrow> ((dir_lookup dir)(strn 9 nm \<mapsto> s)) k = Some t" for k t
    unfolding dir_lookup_iff [OF inv'] using i none dir_lookup_iff [OF inv, of k t]
    by (auto simp: nth_list_update strn_strncpy split: if_splits) metis
  then have "dir_lookup ?d k = ((dir_lookup dir)(strn 9 nm \<mapsto> s)) k" for k
    by (cases "dir_lookup ?d k"; cases "((dir_lookup dir)(strn 9 nm \<mapsto> s)) k") (metis option.distinct(1) option.inject)+
  then show ?thesis using add inv' by (intro exI [of _ ?d]) auto
qed

lemma Directory_Remove_missing:
  "Directory_inv dir \<Longrightarrow> dir_lookup dir (strn 9 nm) = None \<Longrightarrow> Directory_Remove dir nm = (False, dir)"
  by (simp add: Directory_Remove_def FindIndex_missing)

lemma Directory_Remove_ok:
  assumes inv: "Directory_inv dir" and old: "dir_lookup dir (strn 9 nm) \<noteq> None"
  shows "\<exists>dir'. Directory_Remove dir nm = (True, dir') \<and> Directory_inv dir' \<and> tableSize dir' = tableSize dir \<and>
     dir_lookup dir' = (dir_lookup dir)(strn 9 nm := None) \<and> \<not> dir_full dir'"
proof -
  from FindIndex_cases [OF inv, of nm] old obtain i where
    i: "i < length (table dir)" "FindIndex dir nm = int i" "inUse (table dir ! i)"
      "strn 9 (deName (table dir ! i)) = strn 9 nm" by auto
  let ?d = "dir\<lparr>table := (table dir)[i := (table dir ! i)\<lparr>inUse := False\<rparr>]\<rparr>"
  have rem: "Directory_Remove dir nm = (True, ?d)" using i by (simp add: Directory_Remove_def)
  have inv': "Directory_inv ?d"
    using inv i by (auto simp: Directory_inv_def nth_list_update list_all_length entry_wf_def)
  have other: "strn 9 (deName (table dir ! j)) \<noteq> strn 9 nm" if "j < length (table dir)" "inUse (table dir ! j)" "j \<noteq> i" for j
    using inv i that unfolding Directory_inv_def by metis
  have "dir_lookup ?d k = Some t \<longleftrightarrow> ((dir_lookup dir)(strn 9 nm := None)) k = Some t" for k t
    unfolding dir_lookup_iff [OF inv'] using i other dir_lookup_iff [OF inv, of k t]
    by (auto simp: nth_list_update split: if_splits) metis
  then have "dir_lookup ?d k = ((dir_lookup dir)(strn 9 nm := None)) k" for k
    by (cases "dir_lookup ?d k"; cases "((dir_lookup dir)(strn 9 nm := None)) k") (metis option.distinct(1) option.inject)+
  moreover have "\<not> dir_full ?d" using i by (auto simp: dir_full_def list_all_length)
  ultimately show ?thesis using rem inv' by (intro exI [of _ ?d]) auto
qed

section \<open>The interface the file system uses\<close>

locale name_table =
  fixes find :: "'d \<Rightarrow> 'n \<Rightarrow> int"
    and add :: "'d \<Rightarrow> 'n \<Rightarrow> int \<Rightarrow> bool \<times> 'd"
    and remove :: "'d \<Rightarrow> 'n \<Rightarrow> bool \<times> 'd"
    and look :: "'d \<Rightarrow> 'k \<Rightarrow> int option"
    and key :: "'n \<Rightarrow> 'k"
    and full :: "'d \<Rightarrow> bool"
    and valid :: "int \<Rightarrow> bool"
    and invar :: "'d \<Rightarrow> bool"
  assumes find_look: "invar t \<Longrightarrow> find t n = (case look t (key n) of None \<Rightarrow> -1 | Some s \<Rightarrow> s)"
    and add_refused: "invar t \<Longrightarrow> look t (key n) \<noteq> None \<or> full t \<Longrightarrow> add t n s = (False, t)"
    and add_ok: "invar t \<Longrightarrow> look t (key n) = None \<Longrightarrow> \<not> full t \<Longrightarrow> valid s \<Longrightarrow>
      \<exists>t'. add t n s = (True, t') \<and> invar t' \<and> look t' = (look t)(key n \<mapsto> s)"
    and remove_missing: "invar t \<Longrightarrow> look t (key n) = None \<Longrightarrow> remove t n = (False, t)"
    and remove_ok: "invar t \<Longrightarrow> look t (key n) \<noteq> None \<Longrightarrow>
      \<exists>t'. remove t n = (True, t') \<and> invar t' \<and> look t' = (look t)(key n := None) \<and> \<not> full t'"
begin

text \<open>After a successful \<open>add\<close>, exactly the names with the same key find the new value.\<close>

lemma find_after_add:
  assumes "invar t" "add t n s = (True, t')" "valid s"
  shows "invar t' \<and> look t (key n) = None \<and> look t' = (look t)(key n \<mapsto> s) \<and>
    find t' m = (if key m = key n then s else find t m)"
proof -
  have none: "look t (key n) = None" "\<not> full t" using assms(2) add_refused [OF assms(1), of n s] by force+
  from add_ok [OF assms(1) none assms(3)] assms(2) have "invar t'" "look t' = (look t)(key n \<mapsto> s)" by auto
  then show ?thesis using none(1) find_look [OF assms(1)] find_look [of t'] by simp
qed

lemma find_after_remove:
  assumes "invar t" "remove t n = (True, t')"
  shows "invar t' \<and> find t' m = (if key m = key n then -1 else find t m)"
proof -
  have "look t (key n) \<noteq> None" using assms(2) remove_missing [OF assms(1), of n] by force
  from remove_ok [OF assms(1) this] assms(2) have "invar t'" "look t' = (look t)(key n := None)" by auto
  then show ?thesis using find_look [OF assms(1)] find_look [of t'] by simp
qed

end

interpretation directory: name_table Directory_Find Directory_Add Directory_Remove dir_lookup
  "strn FileNameMaxLen" dir_full is_int32 Directory_inv
proof (unfold_locales, goal_cases)
  case (1 t n)
  then show ?case by (rule Directory_Find_lookup)
next
  case (2 t n s)
  then show ?case using Directory_Add_present Directory_Add_full by blast
next
  case (3 t n s)
  then show ?case using Directory_Add_ok by blast
next
  case (4 t n)
  then show ?case by (rule Directory_Remove_missing)
next
  case (5 t n)
  then show ?case using Directory_Remove_ok by blast
qed

section \<open>The directory in its file\<close>

lemma length_entry_bytes: "entry_wf e \<Longrightarrow> length (entry_bytes e) = 20"
  by (simp add: entry_wf_def entry_bytes_def)

lemma entry_of_entry_bytes: "entry_wf e \<Longrightarrow> entry_of_bytes (entry_bytes e) = e"
proof -
  assume wf: "entry_wf e"
  obtain a b c where p: "pad1 e = [a, b, c]" using wf
    by (auto simp: entry_wf_def length_Suc_conv numeral_3_eq_3)
  have "bytes_int (int_bytes (deSector e)) = deSector e"
    using wf by (simp add: entry_wf_def bytes_int_bytes is_int32_def int32_id)
  then show ?thesis using wf p
    by (cases e) (auto simp: entry_wf_def entry_of_bytes_def entry_bytes_def int_bytes_def)
qed

lemma length_table_bytes: "list_all entry_wf es \<Longrightarrow> length (table_bytes es) = length es * 20"
  by (induction es) (simp_all add: table_bytes_def length_entry_bytes)

lemma table_roundtrip:
  assumes "list_all entry_wf es"
  shows "table_of_bytes (length es) (table_bytes es) = es"
proof (rule nth_equalityI)
  show "length (table_of_bytes (length es) (table_bytes es)) = length es" by (simp add: table_of_bytes_def)
  fix i
  assume "i < length (table_of_bytes (length es) (table_bytes es))"
  then have i: "i < length es" by (simp add: table_of_bytes_def)
  have u: "\<forall>x \<in> set (map entry_bytes es). length x = 20"
    using assms by (auto simp: list_all_iff length_entry_bytes)
  have "take 20 (drop (i * 20) (table_bytes es)) = take (1 * 20) (concat (drop i (map entry_bytes es)))"
    unfolding table_bytes_def concat_drop_uniform [OF u] by simp
  also have "\<dots> = concat (take 1 (drop i (map entry_bytes es)))"
    by (rule concat_take_uniform [symmetric]) (use u in \<open>auto simp: drop_map dest: in_set_dropD\<close>)
  also have "take 1 (drop i (map entry_bytes es)) = [entry_bytes (es ! i)]"
    using i by (simp add: take_Suc_conv_app_nth [of 0, simplified] hd_drop_conv_nth take_Suc)
  finally show "table_of_bytes (length es) (table_bytes es) ! i = es ! i"
    using i assms by (simp add: table_of_bytes_def entry_of_entry_bytes list_all_length)
qed

text \<open>A whole-file read or write of an object image.\<close>

lemma blit_whole: "length bs = length buf \<Longrightarrow> blit buf 0 bs = Inr bs"
  by (simp add: blit_def)

lemma WriteAt_whole:
  assumes "file_ok (hdr f)" "Disk_inv d" "FileLength (hdr f) = int (length src)" "src \<noteq> []"
  shows "\<exists>d'. WriteAt fresh f src (int (length src)) 0 d = Inr (int (length src), d') \<and> Disk_inv d' \<and>
     file_data (contents d') (hdr f) = src \<and>
     (\<forall>x. x \<notin> nat ` set (blocks (hdr f)) \<longrightarrow> contents d' x = contents d x)"
proof -
  have "length src \<le> 3840" using file_okD(8) [OF assms(1)] assms(3) by (simp add: FileLength_def)
  moreover have "length (file_data (contents d) (hdr f)) = length src"
    using length_file_data [OF assms(1)] assms(2,3) by (simp add: Disk_inv_def FileLength_def)
  ultimately show ?thesis
    using WriteAt_ok [OF assms(1,2), of "length src" src 0 fresh] assms(3,4) by auto
qed

lemma ReadAt_whole:
  assumes "file_ok (hdr f)" "Disk_inv d" "FileLength (hdr f) = int n" "0 < n"
  shows "\<exists>d'. ReadAt f (int n) 0 d = Inr (file_data (contents d) (hdr f), d') \<and> Disk_inv d' \<and>
     contents d' = contents d"
proof -
  have "n \<le> 3840" using file_okD(8) [OF assms(1)] assms(3) by (simp add: FileLength_def)
  moreover have "length (file_data (contents d) (hdr f)) = n"
    using length_file_data [OF assms(1)] assms(2,3) by (simp add: Disk_inv_def FileLength_def)
  ultimately show ?thesis using ReadAt_ok [OF assms(1,2), of n 0] assms(3,4) by auto
qed

lemma Directory_WriteBack_ok:
  assumes "Directory_inv dir" "file_ok (hdr f)" "Disk_inv d" "FileLength (hdr f) = int (tableSize dir * 20)"
    "0 < tableSize dir"
  shows "\<exists>d'. Directory_WriteBack fresh dir f d = Inr d' \<and> Disk_inv d' \<and>
     file_data (contents d') (hdr f) = table_bytes (table dir) \<and>
     (\<forall>x. x \<notin> nat ` set (blocks (hdr f)) \<longrightarrow> contents d' x = contents d x)"
proof -
  have l: "length (table_bytes (table dir)) = tableSize dir * 20"
    using assms(1) by (simp add: Directory_inv_def length_table_bytes)
  with assms(5) have "table_bytes (table dir) \<noteq> []" by auto
  with WriteAt_whole [OF assms(2,3), of "table_bytes (table dir)" fresh] l assms(4) show ?thesis
    by (auto simp: Directory_WriteBack_def)
qed

lemma Directory_FetchFrom_ok:
  assumes "length (table_bytes (table dir)) = tableSize dir * 20" "file_ok (hdr f)" "Disk_inv d"
    "FileLength (hdr f) = int (tableSize dir * 20)" "0 < tableSize dir"
  shows "\<exists>d'. Directory_FetchFrom dir f d =
      Inr (dir\<lparr>table := table_of_bytes (tableSize dir) (file_data (contents d) (hdr f))\<rparr>, d') \<and>
     Disk_inv d' \<and> contents d' = contents d"
proof -
  have "length (file_data (contents d) (hdr f)) = tableSize dir * 20"
    using length_file_data [OF assms(2)] assms(3,4) by (simp add: Disk_inv_def FileLength_def)
  with ReadAt_whole [OF assms(2,3,4)] assms(1,5) blit_whole show ?thesis
    by (auto simp: Directory_FetchFrom_def)
qed

lemma new_Directory_inv:
  "(\<And>i. entry_wf (junk i)) \<Longrightarrow> Directory_inv (new_Directory junk n) \<and> dir_lookup (new_Directory junk n) = Map.empty"
  by (auto simp: Directory_inv_def new_Directory_def list_all_iff entry_wf_def dir_lookup_def
      find_index_None_iff fun_eq_iff)

section \<open>Properties\<close>

text \<open>
  The directory is a map keyed by the first nine characters of a name: after a successful
  \<^verbatim>\<open>Add\<close>, exactly the names that agree with the new one on nine characters find its sector, every
  other lookup is unchanged, and \<^verbatim>\<open>Remove\<close> of any such name restores all lookups.
\<close>

theorem directory_add_find_remove:
  assumes "Directory_inv dir" "is_int32 s" "Directory_Add dir nm s = (True, dir')"
    "strn FileNameMaxLen nm2 = strn FileNameMaxLen nm"
  shows "Directory_Find dir' other =
      (if strn FileNameMaxLen other = strn FileNameMaxLen nm then s else Directory_Find dir other) \<and>
    (\<exists>dir''. Directory_Remove dir' nm2 = (True, dir'') \<and> Directory_inv dir'' \<and>
       Directory_Find dir'' other = Directory_Find dir other)"
proof -
  note a = directory.find_after_add [OF assms(1,3,2)]
  have look: "dir_lookup dir' (strn 9 nm2) \<noteq> None"
    using directory.find_after_add [OF assms(1,3,2)] assms(4) by simp
  from directory.remove_ok [OF _ look] a obtain dir'' where
    r: "Directory_Remove dir' nm2 = (True, dir'')" "Directory_inv dir''" by blast
  from directory.find_after_remove [OF _ r(1)] a have
    "Directory_Find dir'' other = (if strn 9 other = strn 9 nm then -1 else Directory_Find dir' other)"
    using assms(4) by auto
  moreover have "Directory_Find dir nm = -1" using a directory.find_look [OF assms(1), of nm] by simp
  moreover have "Directory_Find dir other = Directory_Find dir nm" if "strn 9 other = strn 9 nm"
    using that directory.find_look [OF assms(1)] by simp
  ultimately show ?thesis using a r by auto
qed

definition demo_dir :: Directory where
  "demo_dir = new_Directory (\<lambda>i. \<lparr>inUse = False, pad1 = [7, 7, 7], deSector = 3,
     deName = replicate 10 255, pad2 = [9, 9]\<rparr>) 10"

lemma demo_dir_inv: "Directory_inv demo_dir"
  unfolding demo_dir_def by (rule new_Directory_inv [THEN conjunct1]) (simp add: entry_wf_def is_int32_def)

theorem directory_add_find_remove_witness:
  "Directory_Find (snd (Directory_Add demo_dir [97, 98] 44)) [97, 98] = 44"
  using directory_add_find_remove [of demo_dir 44 "[97, 98]" "snd (Directory_Add demo_dir [97, 98] 44)"
      "[97, 98]" "[97, 98]"] demo_dir_inv
  by (simp add: is_int32_def prod_eq_iff demo_dir_def new_Directory_def Directory_Add_def FindIndex_def
      entry_matches_def numeral_eq_Suc upt_rec)

end
