(* ===== verification/File_System.thy ===== *)
theory File_System
  imports File_Directory
begin

text \<open>
  The file system proper (\<^verbatim>\<open>filesys/filesys.cc\<close>): formatting, creating, opening and removing
  files. \<open>fs_inv\<close> says how the directory, the free map and the headers on disk fit together;
  \<open>fs_files\<close> is the abstract state, a map from truncated names to contents, and every operation
  is shown to act on it as its comment promises.
\<close>

section \<open>Operations\<close>

abbreviation (input) FreeMapSector :: int where "FreeMapSector \<equiv> 0"
abbreviation (input) DirectorySector :: int where "DirectorySector \<equiv> 1"
abbreviation (input) FreeMapFileSize :: int where "FreeMapFileSize \<equiv> 128"
abbreviation (input) NumDirEntries :: nat where "NumDirEntries \<equiv> 10"
abbreviation (input) DirectoryFileSize :: int where "DirectoryFileSize \<equiv> 200"

record FileSystem =
  freeMapFile :: OpenFile
  directoryFile :: OpenFile

text \<open>
  What the objects an operation allocates contain before they are written: buffers, bitmap words,
  directory entries and headers, the latter numbered in the order of their allocation.
\<close>

record Junk =
  jBytes :: "nat \<Rightarrow> nat \<Rightarrow> byte"
  jWords :: "32 word list"
  jDir :: "nat \<Rightarrow> DirectoryEntry"
  jHdr :: "nat \<Rightarrow> FileHeader"

definition open_both :: "Disk \<Rightarrow> (FileSystem \<times> Disk) res" where
  "open_both d =
     bindR (new_OpenFile FreeMapSector d) (\<lambda>(mf, d1).
     bindR (new_OpenFile DirectorySector d1) (\<lambda>(df, d2).
       Inr (\<lparr>freeMapFile = mf, directoryFile = df\<rparr>, d2)))"

definition assert_ok :: "(bool \<times> 'a) res \<Rightarrow> 'a res" where
  "assert_ok m = bindR m (\<lambda>(b, x). if b then Inr x else Inl AssertionFailed)"

definition new_FileSystem :: "Junk \<Rightarrow> bool \<Rightarrow> Disk \<Rightarrow> (FileSystem \<times> Disk) res" where
  "new_FileSystem j format d =
     (if format then
        let directory = new_Directory (jDir j) NumDirEntries in
        bindR (new_BitMap (jWords j) NumSectors) (\<lambda>m0.
        bindR (BitMap_Mark m0 FreeMapSector) (\<lambda>m1.
        bindR (BitMap_Mark m1 DirectorySector) (\<lambda>m2.
        bindR (assert_ok (Allocate (jHdr j 0) m2 FreeMapFileSize)) (\<lambda>(mapHdr, m3).
        bindR (assert_ok (Allocate (jHdr j 1) m3 DirectoryFileSize)) (\<lambda>(dirHdr, m4).
        bindR (hdr_WriteBack mapHdr FreeMapSector d) (\<lambda>d1.
        bindR (hdr_WriteBack dirHdr DirectorySector d1) (\<lambda>d2.
        bindR (open_both d2) (\<lambda>(fs, d3).
        bindR (BitMap_WriteBack (jBytes j 0) m4 (freeMapFile fs) d3) (\<lambda>d4.
        bindR (Directory_WriteBack (jBytes j 1) directory (directoryFile fs) d4) (\<lambda>d5.
          Inr (fs, d5)))))))))))
      else open_both d)"

definition FileSystem_Create :: "Junk \<Rightarrow> FileSystem \<Rightarrow> byte list \<Rightarrow> int \<Rightarrow> Disk \<Rightarrow> (bool \<times> Disk) res" where
  "FileSystem_Create j fs nm initialSize d =
     bindR (Directory_FetchFrom (new_Directory (jDir j) NumDirEntries) (directoryFile fs) d) (\<lambda>(directory, d1).
     if Directory_Find directory nm \<noteq> -1 then Inr (False, d1)
     else
       bindR (new_BitMap (jWords j) NumSectors) (\<lambda>m0.
       bindR (BitMap_FetchFrom m0 (freeMapFile fs) d1) (\<lambda>(freeMap, d2).
       bindR (BitMap_Find freeMap) (\<lambda>(sector, freeMap1).
         if sector = -1 then Inr (False, d2)
         else case Directory_Add directory nm sector of
           (added, directory1) \<Rightarrow>
             if \<not> added then Inr (False, d2)
             else bindR (Allocate (jHdr j 0) freeMap1 initialSize) (\<lambda>(success, h, freeMap2).
               if \<not> success then Inr (False, d2)
               else
                 bindR (hdr_WriteBack h sector d2) (\<lambda>d3.
                 bindR (Directory_WriteBack (jBytes j 0) directory1 (directoryFile fs) d3) (\<lambda>d4.
                 bindR (BitMap_WriteBack (jBytes j 1) freeMap2 (freeMapFile fs) d4) (\<lambda>d5.
                   Inr (True, d5)))))))))"

definition FileSystem_Open :: "Junk \<Rightarrow> FileSystem \<Rightarrow> byte list \<Rightarrow> Disk \<Rightarrow> (OpenFile option \<times> Disk) res" where
  "FileSystem_Open j fs nm d =
     bindR (Directory_FetchFrom (new_Directory (jDir j) NumDirEntries) (directoryFile fs) d) (\<lambda>(directory, d1).
     let sector = Directory_Find directory nm in
     if sector \<ge> 0 then bindR (new_OpenFile sector d1) (\<lambda>(f, d2). Inr (Some f, d2))
     else Inr (None, d1))"

definition FileSystem_Remove :: "Junk \<Rightarrow> FileSystem \<Rightarrow> byte list \<Rightarrow> Disk \<Rightarrow> (bool \<times> Disk) res" where
  "FileSystem_Remove j fs nm d =
     bindR (Directory_FetchFrom (new_Directory (jDir j) NumDirEntries) (directoryFile fs) d) (\<lambda>(directory, d1).
     let sector = Directory_Find directory nm in
     if sector = -1 then Inr (False, d1)
     else
       bindR (hdr_FetchFrom sector d1) (\<lambda>(fileHdr, d2).
       bindR (new_BitMap (jWords j) NumSectors) (\<lambda>m0.
       bindR (BitMap_FetchFrom m0 (freeMapFile fs) d2) (\<lambda>(freeMap, d3).
       bindR (Deallocate fileHdr freeMap) (\<lambda>freeMap1.
       bindR (BitMap_Clear freeMap1 sector) (\<lambda>freeMap2.
       let directory1 = snd (Directory_Remove directory nm) in
       bindR (BitMap_WriteBack (jBytes j 0) freeMap2 (freeMapFile fs) d3) (\<lambda>d4.
       bindR (Directory_WriteBack (jBytes j 1) directory1 (directoryFile fs) d4) (\<lambda>d5.
         Inr (True, d5)))))))))"

definition FileSystem_List :: "Junk \<Rightarrow> FileSystem \<Rightarrow> Disk \<Rightarrow> (byte list list \<times> Disk) res" where
  "FileSystem_List j fs d =
     bindR (Directory_FetchFrom (new_Directory (jDir j) NumDirEntries) (directoryFile fs) d) (\<lambda>(directory, d1).
     bindR (Directory_List directory) (\<lambda>names. Inr (names, d1)))"

section \<open>The state on disk\<close>

definition hdr_at :: "(nat \<Rightarrow> byte list) \<Rightarrow> nat \<Rightarrow> FileHeader" where
  "hdr_at c s = hdr_of_bytes (c s)"

definition fs_dir :: "FileSystem \<Rightarrow> Disk \<Rightarrow> Directory" where
  "fs_dir fs d = \<lparr>tableSize = NumDirEntries,
     table = table_of_bytes NumDirEntries (file_data (contents d) (hdr (directoryFile fs)))\<rparr>"

definition fs_map :: "FileSystem \<Rightarrow> Disk \<Rightarrow> BitMap" where
  "fs_map fs d = \<lparr>numBits = NumSectors, numWords = 32,
     bmap = map word_of_int (bytes_ints 32 (file_data (contents d) (hdr (freeMapFile fs))))\<rparr>"

text \<open>\<open>owned c s\<close>: the sectors of the file whose header is in sector \<open>s\<close>, header included.\<close>

definition owned :: "(nat \<Rightarrow> byte list) \<Rightarrow> nat \<Rightarrow> nat set" where
  "owned c s = insert s (nat ` set (blocks (hdr_at c s)))"

definition heads :: "FileSystem \<Rightarrow> Disk \<Rightarrow> nat set" where
  "heads fs d = {0, 1} \<union> nat ` ran (dir_lookup (fs_dir fs d))"

definition fs_files :: "FileSystem \<Rightarrow> Disk \<Rightarrow> byte list \<Rightarrow> byte list option" where
  "fs_files fs d k =
     map_option (\<lambda>s. file_data (contents d) (hdr_at (contents d) (nat s))) (dir_lookup (fs_dir fs d) k)"

definition fs_inv :: "FileSystem \<Rightarrow> Disk \<Rightarrow> bool" where
  "fs_inv fs d \<longleftrightarrow> Disk_inv d \<and>
     hdr (freeMapFile fs) = hdr_at (contents d) 0 \<and> numBytes (hdr_at (contents d) 0) = FreeMapFileSize \<and>
     hdr (directoryFile fs) = hdr_at (contents d) 1 \<and> numBytes (hdr_at (contents d) 1) = DirectoryFileSize \<and>
     Directory_inv (fs_dir fs d) \<and>
     (\<forall>k s. dir_lookup (fs_dir fs d) k = Some s \<longrightarrow> on_disk s \<and> 1 < s) \<and>
     inj_on (dir_lookup (fs_dir fs d)) (dom (dir_lookup (fs_dir fs d))) \<and>
     (\<forall>s \<in> heads fs d. file_ok (hdr_at (contents d) s) \<and> s \<notin> nat ` set (blocks (hdr_at (contents d) s))) \<and>
     (\<forall>s \<in> heads fs d. \<forall>t \<in> heads fs d. s \<noteq> t \<longrightarrow> owned (contents d) s \<inter> owned (contents d) t = {}) \<and>
     marked (fs_map fs d) = (\<Union>s \<in> heads fs d. owned (contents d) s)"

definition junk_ok :: "Junk \<Rightarrow> bool" where
  "junk_ok j \<longleftrightarrow> length (jWords j) \<ge> 32 \<and> (\<forall>i. entry_wf (jDir j i)) \<and> (\<forall>i. hdr_wf (jHdr j i))"

section \<open>Fetching and flushing the two tables\<close>

lemma fs_invD:
  assumes "fs_inv fs d"
  shows "Disk_inv d" "hdr (freeMapFile fs) = hdr_at (contents d) 0" "numBytes (hdr_at (contents d) 0) = 128"
    "hdr (directoryFile fs) = hdr_at (contents d) 1" "numBytes (hdr_at (contents d) 1) = 200"
    "Directory_inv (fs_dir fs d)"
    "\<And>k s. dir_lookup (fs_dir fs d) k = Some s \<Longrightarrow> on_disk s \<and> 1 < s"
    "inj_on (dir_lookup (fs_dir fs d)) (dom (dir_lookup (fs_dir fs d)))"
    "\<And>s. s \<in> heads fs d \<Longrightarrow> file_ok (hdr_at (contents d) s)"
    "\<And>s. s \<in> heads fs d \<Longrightarrow> s \<notin> nat ` set (blocks (hdr_at (contents d) s))"
    "\<And>s t. s \<in> heads fs d \<Longrightarrow> t \<in> heads fs d \<Longrightarrow> s \<noteq> t \<Longrightarrow> owned (contents d) s \<inter> owned (contents d) t = {}"
    "marked (fs_map fs d) = (\<Union>s \<in> heads fs d. owned (contents d) s)"
  using assms unfolding fs_inv_def by blast+

lemma heads_01 [simp]: "0 \<in> heads fs d" "1 \<in> heads fs d" "Suc 0 \<in> heads fs d"
  by (simp_all add: heads_def)

lemma table_files_ok:
  assumes "fs_inv fs d"
  shows "file_ok (hdr (freeMapFile fs))" "file_ok (hdr (directoryFile fs))"
    "FileLength (hdr (freeMapFile fs)) = 128" "FileLength (hdr (directoryFile fs)) = 200"
  using fs_invD(2-5) [OF assms] fs_invD(9) [OF assms, of 0] fs_invD(9) [OF assms, of 1]
  by (simp_all add: FileLength_def)

lemma words_1024 [simp]: "divRoundUp 1024 32 = 32"
  by (simp add: divRoundUp_def)

lemma fs_map_wf [simp]: "BitMap_inv (fs_map fs d)" "numBits (fs_map fs d) = 1024"
  by (simp_all add: BitMap_inv_def fs_map_def bytes_ints_def)

lemma new_map_ok:
  assumes "junk_ok j"
  shows "\<exists>m0. new_BitMap (jWords j) NumSectors = Inr m0 \<and> BitMap_inv m0 \<and> numBits m0 = 1024 \<and>
    numWords m0 = 32 \<and> marked m0 = {}"
  using new_BitMap_ok [of 1024 "jWords j"] assms by (auto simp: junk_ok_def BitMap_inv_def)

lemma length_map_bytes: "BitMap_inv bm \<Longrightarrow> numBits bm = 1024 \<Longrightarrow> length (map_bytes bm) = 128"
  by (simp add: map_bytes_def BitMap_inv_def)

lemma fetch_dir:
  assumes "fs_inv fs d" "junk_ok j"
  shows "\<exists>d1. Directory_FetchFrom (new_Directory (jDir j) NumDirEntries) (directoryFile fs) d = Inr (fs_dir fs d, d1) \<and>
    Disk_inv d1 \<and> contents d1 = contents d"
proof -
  let ?n = "new_Directory (jDir j) NumDirEntries"
  have inv: "Directory_inv ?n" using new_Directory_inv [of "jDir j" 10] assms(2) by (simp add: junk_ok_def)
  have sz: "tableSize ?n = 10" by (simp add: new_Directory_def)
  have l: "length (table_bytes (table ?n)) = tableSize ?n * 20"
    using inv length_table_bytes [of "table ?n"] by (simp add: Directory_inv_def)
  from Directory_FetchFrom_ok [OF l table_files_ok(2) [OF assms(1)] fs_invD(1) [OF assms(1)]]
    table_files_ok(4) [OF assms(1)] sz obtain d1 where
    "Directory_FetchFrom ?n (directoryFile fs) d =
      Inr (?n\<lparr>table := table_of_bytes 10 (file_data (contents d) (hdr (directoryFile fs)))\<rparr>, d1)"
    "Disk_inv d1" "contents d1 = contents d" by auto
  moreover have "?n\<lparr>table := table_of_bytes 10 (file_data (contents d) (hdr (directoryFile fs)))\<rparr> = fs_dir fs d"
    by (simp add: new_Directory_def fs_dir_def)
  ultimately show ?thesis by auto
qed

lemma fetch_map:
  assumes "fs_inv fs d" "Disk_inv d1" "contents d1 = contents d"
    and m0: "BitMap_inv m0" "numBits m0 = 1024" "numWords m0 = 32"
  shows "\<exists>d2. BitMap_FetchFrom m0 (freeMapFile fs) d1 = Inr (fs_map fs d, d2) \<and> Disk_inv d2 \<and> contents d2 = contents d"
proof -
  let ?F = "file_data (contents d) (hdr (freeMapFile fs))"
  have "length ?F = 128"
    using length_file_data [OF table_files_ok(1) [OF assms(1)], of "contents d"] fs_invD(1) [OF assms(1)]
      table_files_ok(3) [OF assms(1)] by (simp add: Disk_inv_def FileLength_def)
  moreover have "length (map_bytes m0) = 128" using m0 by (simp add: length_map_bytes)
  moreover have "m0\<lparr>bmap := map word_of_int (bytes_ints 32 ?F)\<rparr> = fs_map fs d"
    using m0 by (simp add: fs_map_def)
  moreover have "FileLength (hdr (freeMapFile fs)) = int 128" using table_files_ok(3) [OF assms(1)] by simp
  from ReadAt_whole [OF table_files_ok(1) [OF assms(1)] assms(2) this] assms(3) obtain d2 where
    "ReadAt (freeMapFile fs) 128 0 d1 = Inr (?F, d2)" "Disk_inv d2" "contents d2 = contents d" by auto
  ultimately show ?thesis using m0(3) by (auto simp: BitMap_FetchFrom_def blit_whole)
qed

lemma flush_map:
  assumes "file_ok (hdr f)" "FileLength (hdr f) = 128" "Disk_inv d" "BitMap_inv bm" "numBits bm = 1024"
  shows "\<exists>d'. BitMap_WriteBack fresh bm f d = Inr d' \<and> Disk_inv d' \<and>
     file_data (contents d') (hdr f) = map_bytes bm \<and>
     (\<forall>x. x \<notin> nat ` set (blocks (hdr f)) \<longrightarrow> contents d' x = contents d x)"
proof -
  have l: "length (map_bytes bm) = 128" "numWords bm = 32"
    using assms(4,5) by (simp_all add: length_map_bytes BitMap_inv_def)
  then have "map_bytes bm \<noteq> []" by auto
  with WriteAt_whole [OF assms(1,3), of "map_bytes bm" fresh] l assms(2) show ?thesis
    by (auto simp: BitMap_WriteBack_def)
qed

lemma flush_dir:
  assumes "file_ok (hdr f)" "FileLength (hdr f) = 200" "Disk_inv d" "Directory_inv dir" "tableSize dir = 10"
  shows "\<exists>d'. Directory_WriteBack fresh dir f d = Inr d' \<and> Disk_inv d' \<and>
     file_data (contents d') (hdr f) = table_bytes (table dir) \<and>
     (\<forall>x. x \<notin> nat ` set (blocks (hdr f)) \<longrightarrow> contents d' x = contents d x)"
  using Directory_WriteBack_ok [OF assms(4,1,3)] assms(2,5) by simp

lemma read_back_dir:
  assumes "file_data (contents d) (hdr (directoryFile fs)) = table_bytes (table dir)"
    "Directory_inv dir" "tableSize dir = 10"
  shows "fs_dir fs d = dir"
proof -
  have "table_of_bytes 10 (table_bytes (table dir)) = table dir"
    using table_roundtrip [of "table dir"] assms(2,3) by (simp add: Directory_inv_def)
  then show ?thesis using assms(1,3) by (simp add: fs_dir_def)
qed

lemma read_back_map:
  assumes "file_data (contents d) (hdr (freeMapFile fs)) = map_bytes bm" "BitMap_inv bm" "numBits bm = 1024"
  shows "fs_map fs d = bm"
proof -
  have "map word_of_int (bytes_ints 32 (map_bytes bm)) = bmap bm"
    using words_roundtrip [of "bmap bm" 32] assms(2,3) by (simp add: map_bytes_def BitMap_inv_def)
  then show ?thesis using assms by (simp add: fs_map_def BitMap_inv_def)
qed

lemma file_data_cong:
  assumes "\<And>x. x \<in> nat ` set (blocks h) \<Longrightarrow> c' x = c x"
  shows "file_data c' h = file_data c h"
proof -
  have "map (\<lambda>s. c' (nat s)) (blocks h) = map (\<lambda>s. c (nat s)) (blocks h)" using assms by simp
  then show ?thesis by (simp only: file_data_def raw_def)
qed

lemma file_data_apart:
  assumes "\<forall>x. x \<notin> S \<longrightarrow> c' x = c x" "nat ` set (blocks h) \<inter> S = {}"
  shows "file_data c' h = file_data c h"
  by (rule file_data_cong) (use assms in blast)

text \<open>A file none of whose sectors changes keeps its header, sectors and contents.\<close>

lemma file_unchanged:
  assumes "\<And>x. x \<in> owned c s \<Longrightarrow> c' x = c x"
  shows "hdr_at c' s = hdr_at c s" "owned c' s = owned c s"
    "file_data c' (hdr_at c' s) = file_data c (hdr_at c s)"
proof -
  show h: "hdr_at c' s = hdr_at c s" using assms [of s] by (simp add: owned_def hdr_at_def)
  then show "owned c' s = owned c s" by (simp add: owned_def)
  show "file_data c' (hdr_at c' s) = file_data c (hdr_at c s)"
    unfolding h by (rule file_data_cong) (use assms in \<open>simp add: owned_def\<close>)
qed

lemma lookup_heads: "dir_lookup (fs_dir fs d) k = Some s \<Longrightarrow> nat s \<in> heads fs d"
  by (auto simp: heads_def ran_def)


section \<open>Effect of the operations on the state\<close>

text \<open>The sectors of the two tables, and of any other file, are apart.\<close>

lemma table_sectors:
  assumes "fs_inv fs d"
  shows "nat ` set (blocks (hdr (freeMapFile fs))) \<subseteq> owned (contents d) 0"
    "nat ` set (blocks (hdr (directoryFile fs))) \<subseteq> owned (contents d) 1"
    "t \<in> heads fs d \<Longrightarrow> t \<notin> nat ` set (blocks (hdr (freeMapFile fs)))"
    "t \<in> heads fs d \<Longrightarrow> t \<notin> nat ` set (blocks (hdr (directoryFile fs)))"
proof -
  note i = fs_invD [OF assms]
  show o: "nat ` set (blocks (hdr (freeMapFile fs))) \<subseteq> owned (contents d) 0"
    "nat ` set (blocks (hdr (directoryFile fs))) \<subseteq> owned (contents d) 1"
    using i(2,4) by (auto simp: owned_def)
  have "t \<in> owned (contents d) t" by (simp add: owned_def)
  then show "t \<in> heads fs d \<Longrightarrow> t \<notin> nat ` set (blocks (hdr (freeMapFile fs)))"
    "t \<in> heads fs d \<Longrightarrow> t \<notin> nat ` set (blocks (hdr (directoryFile fs)))"
    using i(2,4) i(10) [of t] i(11) [of t 0] i(11) [of t 1] o
    by (cases "t = 0", auto) (cases "t = 1", auto)
qed

lemma user_file_kept:
  assumes inv: "fs_inv fs d" and t: "t \<in> heads fs d" "1 < t"
    and keep: "\<And>x. x \<notin> S \<Longrightarrow> x \<notin> nat ` set (blocks (hdr (freeMapFile fs))) \<Longrightarrow>
      x \<notin> nat ` set (blocks (hdr (directoryFile fs))) \<Longrightarrow> c' x = contents d x"
    and S: "owned (contents d) t \<inter> S = {}"
  shows "hdr_at c' t = hdr_at (contents d) t" "owned c' t = owned (contents d) t"
    "file_data c' (hdr_at c' t) = file_data (contents d) (hdr_at (contents d) t)"
proof -
  have "owned (contents d) t \<inter> owned (contents d) 0 = {}" "owned (contents d) t \<inter> owned (contents d) 1 = {}"
    using fs_invD(11) [OF inv t(1)] t(2) by auto
  then have "\<And>x. x \<in> owned (contents d) t \<Longrightarrow> c' x = contents d x"
    using keep S table_sectors(1,2) [OF inv] by blast
  from file_unchanged [OF this] show "hdr_at c' t = hdr_at (contents d) t" "owned c' t = owned (contents d) t"
    "file_data c' (hdr_at c' t) = file_data (contents d) (hdr_at (contents d) t)" by auto
qed

lemma head_kept:
  assumes inv: "fs_inv fs d" and t: "t \<in> heads fs d" "t \<notin> S"
    and keep: "\<And>x. x \<notin> S \<Longrightarrow> x \<notin> nat ` set (blocks (hdr (freeMapFile fs))) \<Longrightarrow>
      x \<notin> nat ` set (blocks (hdr (directoryFile fs))) \<Longrightarrow> c' x = contents d x"
  shows "hdr_at c' t = hdr_at (contents d) t" "owned c' t = owned (contents d) t"
proof -
  show "hdr_at c' t = hdr_at (contents d) t"
    using keep [OF t(2)] table_sectors(3,4) [OF inv t(1)] by (simp add: hdr_at_def)
  then show "owned c' t = owned (contents d) t" by (simp add: owned_def)
qed

lemma add_file:
  assumes inv: "fs_inv fs d" and d': "Disk_inv d'" and s: "s < 1024" "s \<notin> marked (fs_map fs d)"
    and h: "file_ok h" "hdr_wf h" "nat ` set (blocks h) \<inter> insert s (marked (fs_map fs d)) = {}"
    and new: "dir_lookup (fs_dir fs d) k = None"
    and dir': "Directory_inv dir'" "tableSize dir' = 10"
      "dir_lookup dir' = (dir_lookup (fs_dir fs d))(k \<mapsto> int s)"
    and bm': "BitMap_inv bm'" "numBits bm' = 1024"
      "marked bm' = insert s (marked (fs_map fs d)) \<union> nat ` set (blocks h)"
    and files: "file_data (contents d') (hdr (directoryFile fs)) = table_bytes (table dir')"
      "file_data (contents d') (hdr (freeMapFile fs)) = map_bytes bm'" "contents d' s = hdr_bytes h"
    and keep: "\<And>x. x \<notin> {s} \<Longrightarrow> x \<notin> nat ` set (blocks (hdr (freeMapFile fs))) \<Longrightarrow>
      x \<notin> nat ` set (blocks (hdr (directoryFile fs))) \<Longrightarrow> contents d' x = contents d x"
  shows "fs_inv fs d' \<and> fs_files fs d' = (fs_files fs d)(k \<mapsto> file_data (contents d) h) \<and>
    marked (fs_map fs d') = marked (fs_map fs d) \<union> insert s (nat ` set (blocks h))"
proof -
  note i = fs_invD [OF inv]
  let ?c = "contents d" and ?c' = "contents d'"
  have dd: "fs_dir fs d' = dir'" and mm: "fs_map fs d' = bm'"
    using read_back_dir [OF files(1) dir'(1,2)] read_back_map [OF files(2) bm'(1,2)] by auto
  have mk: "owned ?c t \<subseteq> marked (fs_map fs d)" if "t \<in> heads fs d" for t using i(12) that by auto
  have sn: "s \<notin> owned ?c t" if "t \<in> heads fs d" for t using mk [OF that] s(2) by auto
  then have s1: "s \<notin> heads fs d" "s \<noteq> 0" "s \<noteq> 1"
    using sn [of 0] sn [of 1] sn [of s] by (auto simp: owned_def)
  have old: "hdr_at ?c' t = hdr_at ?c t" "owned ?c' t = owned ?c t" if "t \<in> heads fs d" for t
    using head_kept [OF inv that, of "{s}" ?c'] keep that s1(1) by blast+
  have hs: "hdr_at ?c' s = h" using files(3) hdr_of_bytes_bytes [OF h(2)] by (simp add: hdr_at_def)
  then have os: "owned ?c' s = insert s (nat ` set (blocks h))" by (simp add: owned_def)
  have apart: "owned ?c t \<inter> owned ?c' s = {}" if "t \<in> heads fs d" for t
    using mk [OF that] sn [OF that] h(3) os by auto
  have ran: "ran (dir_lookup dir') = insert (int s) (ran (dir_lookup (fs_dir fs d)))"
    using new dir'(3) by simp
  then have hd: "heads fs d' = insert s (heads fs d)" by (simp add: heads_def dd insert_commute)
  have "fs_inv fs d'"
    unfolding fs_inv_def dd mm hd
  proof (intro conjI ballI allI impI)
    show "hdr (freeMapFile fs) = hdr_at ?c' 0" "numBytes (hdr_at ?c' 0) = 128"
      "hdr (directoryFile fs) = hdr_at ?c' 1" "numBytes (hdr_at ?c' 1) = 200"
      using i(2-5) old(1) [of 0] old(1) [of 1] by simp_all
    show "on_disk t" "1 < t" if "dir_lookup dir' k' = Some t" for k' t
      using that dir'(3) i(7) s(1) s1 by (auto simp: on_disk_def split: if_splits)
    have "int s \<notin> ran (dir_lookup (fs_dir fs d))"
      using s1(1) lookup_heads [of fs d _ "int s"] by (auto simp: ran_def)
    then show "inj_on (dir_lookup dir') (dom (dir_lookup dir'))"
      using i(8) dir'(3) new by (auto simp: inj_on_def ran_def dom_def)
    fix t assume t: "t \<in> insert s (heads fs d)"
    have "file_ok (hdr_at ?c' t) \<and> t \<notin> nat ` set (blocks (hdr_at ?c' t))"
      using t i(9) [of t] i(10) [of t] old(1) [of t] hs h(1,3) by (cases "t = s") simp_all
    then show "file_ok (hdr_at ?c' t)" "t \<notin> nat ` set (blocks (hdr_at ?c' t))" by auto
    fix u assume "u \<in> insert s (heads fs d)" "t \<noteq> u"
    then show "owned ?c' t \<inter> owned ?c' u = {}"
      using t i(11) [of t u] old(2) apart by (cases "t = s"; cases "u = s") (auto simp: Int_commute)
  next
    show "marked bm' = (\<Union>t \<in> insert s (heads fs d). owned ?c' t)"
      using bm'(3) i(12) old(2) os by auto
  qed (use d' dir'(1) in auto)
  moreover have "fs_files fs d' k' = ((fs_files fs d)(k \<mapsto> file_data ?c h)) k'" for k'
  proof (cases "k' = k")
    case True
    have "file_data ?c' h = file_data ?c h"
    proof (rule file_data_cong)
      fix x assume x: "x \<in> nat ` set (blocks h)"
      then have "x \<notin> marked (fs_map fs d)" "x \<noteq> s" using h(3) by auto
      then show "?c' x = ?c x" using keep [of x] mk [OF heads_01(1)] mk [OF heads_01(2)] table_sectors(1,2) [OF inv]
        by blast
    qed
    then show ?thesis using True dir'(3) hs by (simp add: fs_files_def dd)
  next
    case False
    show ?thesis
    proof (cases "dir_lookup (fs_dir fs d) k'")
      case (Some t)
      have t: "nat t \<in> heads fs d" "1 < nat t" using lookup_heads [OF Some] i(7) [OF Some] by auto
      have "owned ?c (nat t) \<inter> {s} = {}" using sn [OF t(1)] by auto
      from user_file_kept(3) [OF inv t keep this] Some False dir'(3) show ?thesis
        by (simp add: fs_files_def dd)
    qed (use False dir'(3) in \<open>simp add: fs_files_def dd\<close>)
  qed
  ultimately show ?thesis using mm bm'(3) by auto
qed


lemma remove_file:
  assumes inv: "fs_inv fs d" and d': "Disk_inv d'" and k: "dir_lookup (fs_dir fs d) k = Some s"
    and dir': "Directory_inv dir'" "tableSize dir' = 10"
      "dir_lookup dir' = (dir_lookup (fs_dir fs d))(k := None)"
    and bm': "BitMap_inv bm'" "numBits bm' = 1024"
      "marked bm' = marked (fs_map fs d) - owned (contents d) (nat s)"
    and files: "file_data (contents d') (hdr (directoryFile fs)) = table_bytes (table dir')"
      "file_data (contents d') (hdr (freeMapFile fs)) = map_bytes bm'"
    and keep: "\<And>x. x \<notin> {} \<Longrightarrow> x \<notin> nat ` set (blocks (hdr (freeMapFile fs))) \<Longrightarrow>
      x \<notin> nat ` set (blocks (hdr (directoryFile fs))) \<Longrightarrow> contents d' x = contents d x"
  shows "fs_inv fs d' \<and> fs_files fs d' = (fs_files fs d)(k := None)"
proof -
  note i = fs_invD [OF inv]
  let ?c = "contents d" and ?c' = "contents d'"
  have dd: "fs_dir fs d' = dir'" and mm: "fs_map fs d' = bm'"
    using read_back_dir [OF files(1) dir'(1,2)] read_back_map [OF files(2) bm'(1,2)] by auto
  have s: "nat s \<in> heads fs d" "1 < s" using lookup_heads [OF k] i(7) [OF k] by auto
  have old: "hdr_at ?c' t = hdr_at ?c t" "owned ?c' t = owned ?c t" if "t \<in> heads fs d" for t
    using head_kept [OF inv that, of "{}" ?c'] keep by blast+
  have sub: "dir_lookup (fs_dir fs d) k' = Some t" if "dir_lookup dir' k' = Some t" for k' t
    using that dir'(3) by (auto split: if_splits)
  have ne: "t \<noteq> s" if "dir_lookup dir' k' = Some t" for k' t
    using that dir'(3) k i(8) by (auto simp: inj_on_def dom_def split: if_splits)
  have "nat ` ran (dir_lookup dir') = nat ` ran (dir_lookup (fs_dir fs d)) - {nat s}"
  proof (intro equalityI subsetI)
    fix x assume "x \<in> nat ` ran (dir_lookup dir')"
    then obtain k' t where t: "dir_lookup dir' k' = Some t" "x = nat t" by (auto simp: ran_def)
    with i(7) [OF sub [OF t(1)]] s(2) ne [OF t(1)] sub [OF t(1)] show
      "x \<in> nat ` ran (dir_lookup (fs_dir fs d)) - {nat s}" by (auto simp: ran_def eq_nat_nat_iff)
  next
    fix x assume "x \<in> nat ` ran (dir_lookup (fs_dir fs d)) - {nat s}"
    then obtain k' t where t: "dir_lookup (fs_dir fs d) k' = Some t" "x = nat t" "x \<noteq> nat s"
      by (auto simp: ran_def)
    then have "k' \<noteq> k" using k by auto
    with t dir'(3) show "x \<in> nat ` ran (dir_lookup dir')" by (auto simp: ran_def)
  qed
  moreover have "nat s \<noteq> 0" "nat s \<noteq> 1" using s(2) by auto
  ultimately have hd: "heads fs d' = heads fs d - {nat s}" by (auto simp: heads_def dd)
  have "fs_inv fs d'"
    unfolding fs_inv_def dd mm
  proof (intro conjI ballI allI impI)
    show "hdr (freeMapFile fs) = hdr_at ?c' 0" "numBytes (hdr_at ?c' 0) = 128"
      "hdr (directoryFile fs) = hdr_at ?c' 1" "numBytes (hdr_at ?c' 1) = 200"
      using i(2-5) old(1) [of 0] old(1) [of 1] by simp_all
    show "on_disk t" "1 < t" if "dir_lookup dir' k' = Some t" for k' t using i(7) [OF sub [OF that]] by auto
    show "inj_on (dir_lookup dir') (dom (dir_lookup dir'))"
      using i(8) dir'(3) by (auto simp: inj_on_def dom_def)
    fix t assume t: "t \<in> heads fs d'"
    show "file_ok (hdr_at ?c' t)" "t \<notin> nat ` set (blocks (hdr_at ?c' t))"
      using t hd i(9,10) old(1) by auto
    fix u assume "u \<in> heads fs d'" "t \<noteq> u"
    then show "owned ?c' t \<inter> owned ?c' u = {}" using t hd i(11) [of t u] old(2) by auto
  next
    have "(\<Union>t \<in> heads fs d'. owned ?c' t) = (\<Union>t \<in> heads fs d - {nat s}. owned ?c t)"
      using hd old(2) by auto
    also have "\<dots> = (\<Union>t \<in> heads fs d. owned ?c t) - owned ?c (nat s)"
      using i(11) s(1) by blast
    finally show "marked bm' = (\<Union>t \<in> heads fs d'. owned ?c' t)" using bm'(3) i(12) by simp
  qed (use d' dir'(1) in auto)
  moreover have "fs_files fs d' k' = ((fs_files fs d)(k := None)) k'" for k'
  proof (cases "dir_lookup dir' k'")
    case None
    then show ?thesis using dir'(3) by (auto simp: fs_files_def dd split: if_splits)
  next
    case (Some t)
    have t: "nat t \<in> heads fs d" "1 < nat t" using lookup_heads [OF sub [OF Some]] i(7) [OF sub [OF Some]] by auto
    have "k' \<noteq> k" using Some dir'(3) by auto
    with user_file_kept(3) [OF inv t keep Int_empty_right] Some sub [OF Some] show ?thesis by (simp add: fs_files_def dd)
  qed
  ultimately show ?thesis by auto
qed

text \<open>Writing to an open file changes its own contents and nothing else of the file system.\<close>

lemma write_file:
  assumes inv: "fs_inv fs d" and d': "Disk_inv d'" and k: "dir_lookup (fs_dir fs d) k = Some s"
    and keep: "\<And>x. x \<notin> nat ` set (blocks (hdr_at (contents d) (nat s))) \<Longrightarrow> contents d' x = contents d x"
  shows "fs_inv fs d' \<and>
    fs_files fs d' = (fs_files fs d)(k \<mapsto> file_data (contents d') (hdr_at (contents d) (nat s))) \<and>
    fs_dir fs d' = fs_dir fs d \<and> hdr_at (contents d') (nat s) = hdr_at (contents d) (nat s)"
proof -
  note i = fs_invD [OF inv]
  let ?c = "contents d" and ?c' = "contents d'"
  have s: "nat s \<in> heads fs d" "1 < s" using lookup_heads [OF k] i(7) [OF k] by auto
  have out: "x \<notin> nat ` set (blocks (hdr_at ?c (nat s)))" if "t \<in> heads fs d" "t \<noteq> nat s" "x \<in> owned ?c t" for t x
    using i(11) [OF that(1) s(1) that(2)] that(3) by (auto simp: owned_def)
  have same: "file_data ?c' (hdr_at ?c' t) = file_data ?c (hdr_at ?c t)" if "t \<in> heads fs d" "t \<noteq> nat s" for t
    by (rule file_unchanged(3)) (use keep out [OF that] in blast)
  have old: "hdr_at ?c' t = hdr_at ?c t" if "t \<in> heads fs d" for t
  proof -
    have "t \<notin> nat ` set (blocks (hdr_at ?c (nat s)))"
      using out [OF that, of t] i(10) [OF s(1)] by (cases "t = nat s") (auto simp: owned_def)
    then show ?thesis using keep by (simp add: hdr_at_def)
  qed
  then have ow: "owned ?c' t = owned ?c t" if "t \<in> heads fs d" for t using that by (simp add: owned_def)
  have dd: "fs_dir fs d' = fs_dir fs d"
    using same [of 1] old [of 1] i(4) s(2) by (simp add: fs_dir_def)
  have mm: "fs_map fs d' = fs_map fs d"
    using same [of 0] old [of 0] i(2) s(2) by (simp add: fs_map_def)
  have hd: "heads fs d' = heads fs d" by (simp add: heads_def dd)
  have "fs_inv fs d'"
    using inv d' old ow unfolding fs_inv_def dd mm hd by simp
  moreover have "fs_files fs d' k' = ((fs_files fs d)(k \<mapsto> file_data ?c' (hdr_at ?c (nat s)))) k'" for k'
  proof (cases "dir_lookup (fs_dir fs d) k'")
    case None
    then show ?thesis using k by (auto simp: fs_files_def dd)
  next
    case (Some t)
    have t: "nat t \<in> heads fs d" "1 < t" using lookup_heads [OF Some] i(7) [OF Some] by auto
    show ?thesis
    proof (cases "k' = k")
      case True
      then show ?thesis using k old [OF s(1)] by (simp add: fs_files_def dd)
    next
      case False
      then have "t \<noteq> s" using Some k i(8) by (auto simp: inj_on_def dom_def)
      then have "nat t \<noteq> nat s" using t(2) s(2) by auto
      with False Some same [OF t(1)] show ?thesis by (simp add: fs_files_def dd)
    qed
  qed
  ultimately show ?thesis using dd old [OF s(1)] by auto
qed


section \<open>The operations\<close>

lemma Allocate_hdr_wf:
  assumes "file_ok h'" "numBytes h' = int n" "hdr_wf h"
    "drop (divRoundUp n 128) (dataSectors h') = drop (divRoundUp n 128) (dataSectors h)"
  shows "hdr_wf h'"
proof -
  note f = file_okD [OF assms(1)]
  have n: "nat (numSectors h') = divRoundUp n 128" using f(2) assms(2) by simp
  have "dataSectors h' = blocks h' @ drop (divRoundUp n 128) (dataSectors h)"
    using n assms(4) by (metis append_take_drop_id blocks_def)
  then have "set (dataSectors h') \<subseteq> set (blocks h') \<union> set (dataSectors h)"
    by (metis Un_mono order_refl set_append set_drop_subset)
  moreover have "is_int32 x" if "x \<in> set (blocks h')" for x
    using f(6) that by (force simp: on_disk_def is_int32_def)
  moreover have "0 \<le> numSectors h'" "numSectors h' \<le> 30"
    using assms(1) sectors_for_nat [of n] assms(2) by (simp_all add: file_ok_def)
  ultimately show ?thesis
    using assms(3) f(1,7,8) by (auto simp: hdr_wf_def is_int32_def)
qed

lemma hdr_WriteBack_ok:
  assumes "hdr_wf h" "on_disk s" "Disk_inv d"
  shows "\<exists>d'. hdr_WriteBack h s d = Inr d' \<and> Disk_inv d' \<and> contents d' = (contents d)(nat s := hdr_bytes h)"
  using WriteSector_ok [OF assms(3,2)] length_hdr_bytes [OF assms(1)] by (simp add: hdr_WriteBack_def)

lemma hdr_FetchFrom_ok:
  assumes "on_disk s" "Disk_inv d"
  shows "\<exists>d'. hdr_FetchFrom s d = Inr (hdr_at (contents d) (nat s), d') \<and> Disk_inv d' \<and> contents d' = contents d"
  using ReadSector_ok [OF assms(2,1)] by (auto simp: hdr_FetchFrom_def hdr_at_def)

lemma fs_files_None: "fs_files fs d k = None \<longleftrightarrow> dir_lookup (fs_dir fs d) k = None"
  by (simp add: fs_files_def)

lemma fs_same:
  assumes "fs_inv fs d" "Disk_inv d'" "contents d' = contents d"
  shows "fs_inv fs d' \<and> fs_files fs d' = fs_files fs d"
proof -
  have e: "fs_dir fs d' = fs_dir fs d" "fs_map fs d' = fs_map fs d" "heads fs d' = heads fs d"
    using assms(3) by (simp_all add: fs_dir_def fs_map_def heads_def)
  show ?thesis using assms unfolding fs_inv_def fs_files_def e by simp
qed

lemma Find_missing:
  assumes "fs_inv fs d"
  shows "Directory_Find (fs_dir fs d) nm \<noteq> -1 \<longleftrightarrow> fs_files fs d (strn 9 nm) \<noteq> None"
  using directory.find_look [OF fs_invD(6) [OF assms], of nm] fs_invD(7) [OF assms, of "strn 9 nm"]
  by (auto simp: fs_files_None on_disk_def split: option.splits)

text \<open>Whether \<^verbatim>\<open>Create\<close> can succeed: the name is new, the directory and the disk have room.\<close>

definition can_create :: "FileSystem \<Rightarrow> Disk \<Rightarrow> byte list \<Rightarrow> nat \<Rightarrow> bool" where
  "can_create fs d nm n \<longleftrightarrow> fs_files fs d (strn 9 nm) = None \<and> \<not> dir_full (fs_dir fs d) \<and>
     divRoundUp n SectorSize < NumSectors - card (marked (fs_map fs d))"

lemma Create_flush:
  assumes inv: "fs_inv fs d" and d2: "Disk_inv d2" "contents d2 = contents d"
    and s: "s < 1024" "s \<notin> marked (fs_map fs d)"
    and h: "file_ok h" "hdr_wf h" "nat ` set (blocks h) \<inter> insert s (marked (fs_map fs d)) = {}"
    and new: "dir_lookup (fs_dir fs d) k = None"
    and dir': "Directory_inv dir'" "tableSize dir' = 10"
      "dir_lookup dir' = (dir_lookup (fs_dir fs d))(k \<mapsto> int s)"
    and bm': "BitMap_inv bm'" "numBits bm' = 1024"
      "marked bm' = insert s (marked (fs_map fs d)) \<union> nat ` set (blocks h)"
  shows "\<exists>d3 d4 d5. hdr_WriteBack h (int s) d2 = Inr d3 \<and>
     Directory_WriteBack fr (dir') (directoryFile fs) d3 = Inr d4 \<and>
     BitMap_WriteBack fr' bm' (freeMapFile fs) d4 = Inr d5 \<and>
     fs_inv fs d5 \<and> fs_files fs d5 = (fs_files fs d)(k \<mapsto> file_data (contents d) h) \<and>
     marked (fs_map fs d5) = marked (fs_map fs d) \<union> insert s (nat ` set (blocks h))"
proof -
  let ?M = "nat ` set (blocks (hdr (freeMapFile fs)))" and ?D = "nat ` set (blocks (hdr (directoryFile fs)))"
  note i = fs_invD [OF inv] and t = table_files_ok [OF inv]
  have mk: "owned (contents d) 0 \<subseteq> marked (fs_map fs d)" "owned (contents d) 1 \<subseteq> marked (fs_map fs d)"
    using i(12) heads_01(1,2) [of fs d] by blast+
  have sMD: "s \<notin> ?M" "s \<notin> ?D" using table_sectors(1,2) [OF inv] mk s(2) by blast+
  have "owned (contents d) 0 \<inter> owned (contents d) 1 = {}" using i(11) [of 0 1] by simp
  then have MD: "?M \<inter> ?D = {}" using table_sectors(1,2) [OF inv] by blast
  have "on_disk (int s)" using s(1) by (simp add: on_disk_def)
  from hdr_WriteBack_ok [OF h(2) this d2(1)] obtain d3 where
    d3: "hdr_WriteBack h (int s) d2 = Inr d3" "Disk_inv d3" "contents d3 = (contents d)(s := hdr_bytes h)"
    using d2(2) by auto
  from flush_dir [OF t(2,4) d3(2) dir'(1,2), of fr] obtain d4 where
    d4: "Directory_WriteBack fr dir' (directoryFile fs) d3 = Inr d4" "Disk_inv d4"
      "file_data (contents d4) (hdr (directoryFile fs)) = table_bytes (table dir')"
      "\<forall>x. x \<notin> ?D \<longrightarrow> contents d4 x = contents d3 x" by blast
  from flush_map [OF t(1,3) d4(2) bm'(1,2), of fr'] obtain d5 where
    d5: "BitMap_WriteBack fr' bm' (freeMapFile fs) d4 = Inr d5" "Disk_inv d5"
      "file_data (contents d5) (hdr (freeMapFile fs)) = map_bytes bm'"
      "\<forall>x. x \<notin> ?M \<longrightarrow> contents d5 x = contents d4 x" by blast
  have "file_data (contents d5) (hdr (directoryFile fs)) = table_bytes (table dir')"
    using file_data_apart [OF d5(4)] MD d4(3) by (simp add: Int_commute)
  moreover have "contents d5 s = hdr_bytes h" using d3(3) d4(4) d5(4) sMD by simp
  moreover have "contents d5 x = contents d x" if "x \<notin> {s}" "x \<notin> ?M" "x \<notin> ?D" for x
    using that d3(3) d4(4) d5(4) by simp
  ultimately show ?thesis
    using add_file [OF inv d5(2) s h new dir' bm' _ d5(3)] d3(1) d4(1) d5(1) by blast
qed

lemma Create_ok:
  assumes inv: "fs_inv fs d" and j: "junk_ok j" and n: "n \<le> NumDirect * SectorSize"
  shows "\<exists>d'. FileSystem_Create j fs nm (int n) d = Inr (can_create fs d nm n, d') \<and> fs_inv fs d' \<and>
     (if can_create fs d nm n then \<exists>bs. length bs = n \<and> fs_files fs d' = (fs_files fs d)(strn 9 nm \<mapsto> bs)
      else contents d' = contents d)"
proof -
  note i = fs_invD [OF inv]
  note same = fs_same [OF inv, THEN conjunct1]
  let ?k = "strn 9 nm"
  from fetch_dir [OF inv j] obtain d1 where
    d1: "Directory_FetchFrom (new_Directory (jDir j) 10) (directoryFile fs) d = Inr (fs_dir fs d, d1)"
      "Disk_inv d1" "contents d1 = contents d" by blast
  show ?thesis
  proof (cases "fs_files fs d ?k = None")
    case False
    then have "Directory_Find (fs_dir fs d) nm \<noteq> -1" using Find_missing [OF inv] by simp
    with d1 False same show ?thesis by (auto simp: FileSystem_Create_def can_create_def)
  next
    case new: True
    then have f: "Directory_Find (fs_dir fs d) nm = -1" using Find_missing [OF inv, of nm] by blast
    have look: "dir_lookup (fs_dir fs d) ?k = None" using new by (simp add: fs_files_None)
    from new_map_ok [OF j] obtain m0 where
      m0: "new_BitMap (jWords j) 1024 = Inr m0" "BitMap_inv m0" "numBits m0 = 1024" "numWords m0 = 32" by blast
    from fetch_map [OF inv d1(2,3) m0(2-4)] obtain d2 where
      d2: "BitMap_FetchFrom m0 (freeMapFile fs) d1 = Inr (fs_map fs d, d2)" "Disk_inv d2" "contents d2 = contents d"
      by blast
    let ?m = "marked (fs_map fs d)"
    note start = FileSystem_Create_def d1(1) f m0(1) d2(1)
    show ?thesis
    proof (cases "?m = {..<1024}")
      case True
      then have "BitMap_Find (fs_map fs d) = Inr (-1, fs_map fs d)" "card ?m = 1024"
        using Find_full [of "fs_map fs d"] by simp_all
      then show ?thesis using same [OF d2(2,3)] d2(3) by (simp add: start can_create_def)
    next
      case False
      then obtain s m1 where
        s: "BitMap_Find (fs_map fs d) = Inr (int s, m1)" "s < 1024" "s \<notin> ?m" "BitMap_inv m1" "numBits m1 = 1024"
          "marked m1 = insert s ?m" using Find_free [of "fs_map fs d"] by auto
      have s32: "is_int32 (int s)" "int s \<noteq> -1" using s(2) by (simp_all add: is_int32_def)
      show ?thesis
      proof (cases "dir_full (fs_dir fs d)")
        case True
        then have "Directory_Add (fs_dir fs d) nm (int s) = (False, fs_dir fs d)"
          using directory.add_refused [OF i(6)] by blast
        then show ?thesis using True same [OF d2(2,3)] d2(3) s(1) s32(2) by (simp add: start can_create_def)
      next
        case room: False
        have "tableSize (fs_dir fs d) = 10" by (simp add: fs_dir_def)
        with Directory_Add_ok [OF i(6) look room s32(1)] obtain dir' where
          dir': "Directory_Add (fs_dir fs d) nm (int s) = (True, dir')" "Directory_inv dir'" "tableSize dir' = 10"
            "dir_lookup dir' = (dir_lookup (fs_dir fs d))(?k \<mapsto> int s)" by auto
        have c: "card (marked m1) = card ?m + 1" using s(3,6) by simp
        have "?m \<subset> {..<1024}" using False marked_bounded [of "fs_map fs d"] by auto
        then have lt: "card ?m < 1024" using psubset_card_mono [of "{..<1024}" ?m] by simp
        have hw: "hdr_wf (jHdr j 0)" "length (dataSectors (jHdr j 0)) = 30"
          using j by (auto simp: junk_ok_def hdr_wf_def)
        show ?thesis
        proof (cases "divRoundUp n 128 \<le> 1024 - card (marked m1)")
          case False
          then have "\<not> divRoundUp n 128 < 1024 - card ?m" using c lt by linarith
          then have cc: "\<not> can_create fs d nm n" by (simp add: can_create_def)
          have "int (numBits m1 - card (marked m1)) < sectors_for (int n)"
            using False s(5) by (simp add: sectors_for_nat)
          from Allocate_fail [OF s(4) this] cc dir'(1) same [OF d2(2,3)] d2(3) s(1) s32(2) show ?thesis
            by (simp add: start)
        next
          case True
          from Allocate_ok [OF s(4,5) hw(2) n True] obtain h m2 where
            h: "Allocate (jHdr j 0) m1 (int n) = Inr (True, h, m2)" "file_ok h" "numBytes h = int n"
              "nat ` set (blocks h) \<inter> marked m1 = {}" "marked m2 = marked m1 \<union> nat ` set (blocks h)"
              "drop (divRoundUp n 128) (dataSectors h) = drop (divRoundUp n 128) (dataSectors (jHdr j 0))"
              "BitMap_inv m2" "numBits m2 = 1024" by blast
          have hwf: "hdr_wf h" by (rule Allocate_hdr_wf [OF h(2,3) hw(1) h(6)])
          have x: "nat ` set (blocks h) \<inter> insert s ?m = {}" "marked m2 = insert s ?m \<union> nat ` set (blocks h)"
            using h(4,5) s(6) by simp_all
          from Create_flush [OF inv d2(2,3) s(2,3) h(2) hwf x(1) look dir'(2,3,4) h(7,8) x(2),
              of "jBytes j 0" "jBytes j 1"] obtain d3 d4 d5 where
            w: "hdr_WriteBack h (int s) d2 = Inr d3"
              "Directory_WriteBack (jBytes j 0) dir' (directoryFile fs) d3 = Inr d4"
              "BitMap_WriteBack (jBytes j 1) m2 (freeMapFile fs) d4 = Inr d5" "fs_inv fs d5"
              "fs_files fs d5 = (fs_files fs d)(?k \<mapsto> file_data (contents d) h)" by blast
          have "length (file_data (contents d) h) = n"
            using length_file_data [OF h(2)] i(1) h(3) by (simp add: Disk_inv_def)
          moreover have "divRoundUp n 128 < 1024 - card ?m" using True c lt by linarith
          then have "can_create fs d nm n" using new room by (simp add: can_create_def)
          ultimately show ?thesis using w dir'(1) s(1) s32(2) h(1) by (auto simp: start)
        qed
      qed
    qed
  qed
qed


lemma Remove_ok:
  assumes inv: "fs_inv fs d" and j: "junk_ok j"
  shows "\<exists>d'. FileSystem_Remove j fs nm d = Inr (fs_files fs d (strn 9 nm) \<noteq> None, d') \<and> fs_inv fs d' \<and>
     fs_files fs d' = (fs_files fs d)(strn 9 nm := None)"
proof -
  note i = fs_invD [OF inv] and t = table_files_ok [OF inv]
  let ?k = "strn 9 nm"
  from fetch_dir [OF inv j] obtain d1 where
    d1: "Directory_FetchFrom (new_Directory (jDir j) 10) (directoryFile fs) d = Inr (fs_dir fs d, d1)"
      "Disk_inv d1" "contents d1 = contents d" by blast
  show ?thesis
  proof (cases "dir_lookup (fs_dir fs d) ?k")
    case None
    then have "Directory_Find (fs_dir fs d) nm = -1" using directory.find_look [OF i(6)] by simp
    moreover have "(fs_files fs d)(?k := None) = fs_files fs d" using None by (simp add: fs_files_None fun_upd_idem)
    ultimately show ?thesis using d1 None fs_same [OF inv d1(2,3)] fs_files_None [of fs d ?k]
      by (simp add: FileSystem_Remove_def)
  next
    case (Some s)
    then have f: "Directory_Find (fs_dir fs d) nm = s" using directory.find_look [OF i(6)] by simp
    have s: "on_disk s" "1 < s" "nat s \<in> heads fs d" using i(7) [OF Some] lookup_heads [OF Some] by auto
    let ?h = "hdr_at (contents d) (nat s)"
    from hdr_FetchFrom_ok [OF s(1) d1(2)] d1(3) obtain d2 where
      d2: "hdr_FetchFrom s d1 = Inr (?h, d2)" "Disk_inv d2" "contents d2 = contents d" by auto
    from new_map_ok [OF j] obtain m0 where
      m0: "new_BitMap (jWords j) 1024 = Inr m0" "BitMap_inv m0" "numBits m0 = 1024" "numWords m0 = 32" by blast
    from fetch_map [OF inv d2(2,3) m0(2-4)] obtain d3 where
      d3: "BitMap_FetchFrom m0 (freeMapFile fs) d2 = Inr (fs_map fs d, d3)" "Disk_inv d3" "contents d3 = contents d"
      by blast
    have mk: "owned (contents d) (nat s) \<subseteq> marked (fs_map fs d)" using i(12) s(3) by blast
    then have "nat ` set (blocks ?h) \<subseteq> marked (fs_map fs d)" by (auto simp: owned_def)
    from Deallocate_ok [OF _ _ i(9) [OF s(3)] this] obtain m1 where
      m1: "Deallocate ?h (fs_map fs d) = Inr m1" "BitMap_inv m1" "numBits m1 = 1024"
        "marked m1 = marked (fs_map fs d) - nat ` set (blocks ?h)" by auto
    have "nat s < numBits m1" "int (nat s) = s" using s(1,2) m1(3) by (auto simp: on_disk_def)
    with Clear_ok [OF m1(2), of "nat s"] m1(3) obtain m2 where
      m2: "BitMap_Clear m1 s = Inr m2" "BitMap_inv m2" "numBits m2 = 1024" "marked m2 = marked m1 - {nat s}" by auto
    have mm: "marked m2 = marked (fs_map fs d) - owned (contents d) (nat s)"
      using m1(4) m2(4) by (auto simp: owned_def)
    have sz: "tableSize (fs_dir fs d) = 10" by (simp add: fs_dir_def)
    from Directory_Remove_ok [OF i(6), of nm] Some sz obtain dir' where
      dir': "Directory_Remove (fs_dir fs d) nm = (True, dir')" "Directory_inv dir'" "tableSize dir' = 10"
        "dir_lookup dir' = (dir_lookup (fs_dir fs d))(?k := None)" by auto
    from flush_map [OF t(1,3) d3(2) m2(2,3), of "jBytes j 0"] obtain d4 where
      d4: "BitMap_WriteBack (jBytes j 0) m2 (freeMapFile fs) d3 = Inr d4" "Disk_inv d4"
        "file_data (contents d4) (hdr (freeMapFile fs)) = map_bytes m2"
        "\<forall>x. x \<notin> nat ` set (blocks (hdr (freeMapFile fs))) \<longrightarrow> contents d4 x = contents d3 x" by blast
    from flush_dir [OF t(2,4) d4(2) dir'(2,3), of "jBytes j 1"] obtain d5 where
      d5: "Directory_WriteBack (jBytes j 1) dir' (directoryFile fs) d4 = Inr d5" "Disk_inv d5"
        "file_data (contents d5) (hdr (directoryFile fs)) = table_bytes (table dir')"
        "\<forall>x. x \<notin> nat ` set (blocks (hdr (directoryFile fs))) \<longrightarrow> contents d5 x = contents d4 x" by blast
    have "owned (contents d) 0 \<inter> owned (contents d) 1 = {}" using i(11) [of 0 1] by simp
    then have "nat ` set (blocks (hdr (freeMapFile fs))) \<inter> nat ` set (blocks (hdr (directoryFile fs))) = {}"
      using table_sectors(1,2) [OF inv] by blast
    then have "file_data (contents d5) (hdr (freeMapFile fs)) = map_bytes m2"
      using file_data_apart [OF d5(4)] d4(3) by simp
    moreover have "contents d5 x = contents d x" if "x \<notin> nat ` set (blocks (hdr (freeMapFile fs)))"
      "x \<notin> nat ` set (blocks (hdr (directoryFile fs)))" for x
      using that d3(3) d4(4) d5(4) by simp
    ultimately have "fs_inv fs d5 \<and> fs_files fs d5 = (fs_files fs d)(?k := None)"
      using remove_file [OF inv d5(2) Some dir'(2-4) m2(2,3) mm d5(3)] by blast
    moreover have "FileSystem_Remove j fs nm d = Inr (True, d5)"
      using s(2) d5(1) by (simp add: FileSystem_Remove_def d1(1) f d2(1) m0(1) d3(1) m1(1) m2(1) dir'(1) d4(1) Let_def)
    moreover have "fs_files fs d ?k \<noteq> None" using Some by (simp add: fs_files_None)
    ultimately show ?thesis by auto
  qed
qed

lemma Open_ok:
  assumes inv: "fs_inv fs d" and j: "junk_ok j"
  shows "\<exists>r d'. FileSystem_Open j fs nm d = Inr (r, d') \<and> Disk_inv d' \<and> contents d' = contents d \<and>
     (case dir_lookup (fs_dir fs d) (strn 9 nm) of
        None \<Rightarrow> r = None
      | Some s \<Rightarrow> r = Some \<lparr>hdr = hdr_at (contents d) (nat s), seekPosition = 0\<rparr>)"
proof -
  note i = fs_invD [OF inv]
  from fetch_dir [OF inv j] obtain d1 where
    d1: "Directory_FetchFrom (new_Directory (jDir j) 10) (directoryFile fs) d = Inr (fs_dir fs d, d1)"
      "Disk_inv d1" "contents d1 = contents d" by blast
  note f = directory.find_look [OF i(6), of nm]
  show ?thesis
  proof (cases "dir_lookup (fs_dir fs d) (strn 9 nm)")
    case None
    with f d1 show ?thesis by (simp add: FileSystem_Open_def)
  next
    case (Some s)
    have s: "on_disk s" "0 \<le> s" using i(7) [OF Some] by auto
    from hdr_FetchFrom_ok [OF s(1) d1(2)] d1 f s(2) Some show ?thesis
      by (auto simp: FileSystem_Open_def new_OpenFile_def)
  qed
qed

lemma open_both_ok:
  assumes "Disk_inv d"
  shows "\<exists>d'. open_both d = Inr (\<lparr>freeMapFile = \<lparr>hdr = hdr_at (contents d) 0, seekPosition = 0\<rparr>,
      directoryFile = \<lparr>hdr = hdr_at (contents d) 1, seekPosition = 0\<rparr>\<rparr>, d') \<and> Disk_inv d' \<and> contents d' = contents d"
proof -
  have o: "on_disk 0" "on_disk 1" by (simp_all add: on_disk_def)
  from hdr_FetchFrom_ok [OF o(1) assms] obtain d1 where
    d1: "hdr_FetchFrom 0 d = Inr (hdr_at (contents d) 0, d1)" "Disk_inv d1" "contents d1 = contents d" by auto
  from hdr_FetchFrom_ok [OF o(2) d1(2)] d1 show ?thesis by (auto simp: open_both_def new_OpenFile_def)
qed

lemma format_ok:
  assumes d: "Disk_inv d" and j: "junk_ok j"
  shows "\<exists>fs d'. new_FileSystem j True d = Inr (fs, d') \<and> fs_inv fs d' \<and> fs_files fs d' = Map.empty"
proof -
  let ?dir = "new_Directory (jDir j) 10"
  have dir: "Directory_inv ?dir" "dir_lookup ?dir = Map.empty" "tableSize ?dir = 10"
    using new_Directory_inv [of "jDir j" 10] j by (auto simp: junk_ok_def new_Directory_def)
  have hw: "hdr_wf (jHdr j i)" "length (dataSectors (jHdr j i)) = 30" for i
    using j by (auto simp: junk_ok_def hdr_wf_def)
  have k: "divRoundUp 128 128 = 1" "divRoundUp 200 128 = 2" by (simp_all add: divRoundUp_def)
  from new_map_ok [OF j] obtain m0 where
    m0: "new_BitMap (jWords j) 1024 = Inr m0" "BitMap_inv m0" "numBits m0 = 1024" "marked m0 = {}" by blast
  from Mark_ok [OF m0(2), of 0] m0 obtain m1 where
    m1: "BitMap_Mark m0 0 = Inr m1" "BitMap_inv m1" "numBits m1 = 1024" "marked m1 = {0}" by auto
  from Mark_ok [OF m1(2), of 1] m1 obtain m2 where
    m2: "BitMap_Mark m1 1 = Inr m2" "BitMap_inv m2" "numBits m2 = 1024" "marked m2 = {0, 1}" by auto
  have "\<exists>h' fm'. Allocate (jHdr j 0) m2 (int 128) = Inr (True, h', fm') \<and> file_ok h' \<and> numBytes h' = int 128 \<and>
     nat ` set (blocks h') \<inter> marked m2 = {} \<and> marked fm' = marked m2 \<union> nat ` set (blocks h') \<and>
     drop (divRoundUp 128 128) (dataSectors h') = drop (divRoundUp 128 128) (dataSectors (jHdr j 0)) \<and>
     BitMap_inv fm' \<and> numBits fm' = 1024"
    by (rule Allocate_ok [OF m2(2,3) hw(2)]) (use m2(4) k in simp_all)
  then obtain mh m3 where a: "Allocate (jHdr j 0) m2 128 = Inr (True, mh, m3)" "file_ok mh" "numBytes mh = 128"
    "nat ` set (blocks mh) \<inter> {0, 1} = {}" "marked m3 = {0, 1} \<union> nat ` set (blocks mh)"
    "drop (divRoundUp 128 128) (dataSectors mh) = drop (divRoundUp 128 128) (dataSectors (jHdr j 0))"
    "BitMap_inv m3" "numBits m3 = 1024" using m2(4) by auto
  have "card (marked m3) \<le> card {0::nat, 1} + card (nat ` set (blocks mh))"
    unfolding a(5) by (rule card_Un_le)
  also have "card (nat ` set (blocks mh)) \<le> length (blocks mh)"
    using card_image_le [OF finite_set, of nat "blocks mh"] card_length [of "blocks mh"] by linarith
  finally have c3: "card (marked m3) \<le> 3" using file_okD(3) [OF a(2)] a(3) k by simp
  have "\<exists>h' fm'. Allocate (jHdr j 1) m3 (int 200) = Inr (True, h', fm') \<and> file_ok h' \<and> numBytes h' = int 200 \<and>
     nat ` set (blocks h') \<inter> marked m3 = {} \<and> marked fm' = marked m3 \<union> nat ` set (blocks h') \<and>
     drop (divRoundUp 200 128) (dataSectors h') = drop (divRoundUp 200 128) (dataSectors (jHdr j 1)) \<and>
     BitMap_inv fm' \<and> numBits fm' = 1024"
    by (rule Allocate_ok [OF a(7,8) hw(2)]) (use c3 k in simp_all)
  then obtain dh m4 where b: "Allocate (jHdr j 1) m3 200 = Inr (True, dh, m4)" "file_ok dh" "numBytes dh = 200"
    "nat ` set (blocks dh) \<inter> marked m3 = {}" "marked m4 = marked m3 \<union> nat ` set (blocks dh)"
    "drop (divRoundUp 200 128) (dataSectors dh) = drop (divRoundUp 200 128) (dataSectors (jHdr j 1))"
    "BitMap_inv m4" "numBits m4 = 1024" by auto
  have wf: "hdr_wf mh" "hdr_wf dh"
    using Allocate_hdr_wf [of mh 128 "jHdr j 0"] Allocate_hdr_wf [of dh 200 "jHdr j 1"] a b hw(1) by auto
  have o: "on_disk 0" "on_disk 1" by (simp_all add: on_disk_def)
  from hdr_WriteBack_ok [OF wf(1) o(1) d] obtain d1 where
    d1: "hdr_WriteBack mh 0 d = Inr d1" "Disk_inv d1" "contents d1 = (contents d)(0 := hdr_bytes mh)" by auto
  from hdr_WriteBack_ok [OF wf(2) o(2) d1(2)] d1(3) obtain d2 where
    d2: "hdr_WriteBack dh 1 d1 = Inr d2" "Disk_inv d2" "contents d2 0 = hdr_bytes mh" "contents d2 1 = hdr_bytes dh"
    by auto
  have h2: "hdr_at (contents d2) 0 = mh" "hdr_at (contents d2) 1 = dh"
    using d2(3,4) hdr_of_bytes_bytes wf by (simp_all add: hdr_at_def)
  let ?fs = "\<lparr>freeMapFile = \<lparr>hdr = mh, seekPosition = 0\<rparr>, directoryFile = \<lparr>hdr = dh, seekPosition = 0\<rparr>\<rparr>"
  from open_both_ok [OF d2(2)] h2 obtain d3 where
    d3: "open_both d2 = Inr (?fs, d3)" "Disk_inv d3" "contents d3 = contents d2" by auto
  from flush_map [of "freeMapFile ?fs", OF _ _ d3(2) b(7,8), of "jBytes j 0"] a(2,3) obtain d4 where
    d4: "BitMap_WriteBack (jBytes j 0) m4 (freeMapFile ?fs) d3 = Inr d4" "Disk_inv d4"
      "file_data (contents d4) mh = map_bytes m4"
      "\<forall>x. x \<notin> nat ` set (blocks mh) \<longrightarrow> contents d4 x = contents d3 x" by (auto simp: FileLength_def)
  from flush_dir [of "directoryFile ?fs", OF _ _ d4(2) dir(1,3), of "jBytes j 1"] b(2,3) obtain d5 where
    d5: "Directory_WriteBack (jBytes j 1) ?dir (directoryFile ?fs) d4 = Inr d5" "Disk_inv d5"
      "file_data (contents d5) dh = table_bytes (table ?dir)"
      "\<forall>x. x \<notin> nat ` set (blocks dh) \<longrightarrow> contents d5 x = contents d4 x" by (auto simp: FileLength_def)
  have n01: "0 \<notin> nat ` set (blocks mh)" "1 \<notin> nat ` set (blocks mh)" "0 \<notin> nat ` set (blocks dh)"
    "1 \<notin> nat ` set (blocks dh)" "nat ` set (blocks mh) \<inter> nat ` set (blocks dh) = {}"
    using a(4,5) b(4) by blast+
  then have h5: "hdr_at (contents d5) 0 = mh" "hdr_at (contents d5) 1 = dh"
    using h2 d3(3) d4(4) d5(4) by (simp_all add: hdr_at_def)
  have fm: "file_data (contents d5) mh = map_bytes m4"
    using file_data_apart [OF d5(4) n01(5)] d4(3) by simp
  have dd: "fs_dir ?fs d5 = ?dir" using read_back_dir [of d5 ?fs ?dir] d5(3) dir by simp
  have mm: "fs_map ?fs d5 = m4" using read_back_map [of d5 ?fs m4] fm b(7,8) by simp
  have hd: "heads ?fs d5 = {0, 1}" by (simp add: heads_def dd dir(2))
  have ow: "owned (contents d5) 0 = insert 0 (nat ` set (blocks mh))"
    "owned (contents d5) 1 = insert 1 (nat ` set (blocks dh))" by (simp_all only: owned_def h5)
  have "fs_inv ?fs d5"
    unfolding fs_inv_def dd mm hd
  proof (intro conjI ballI allI impI)
    fix s :: nat assume s: "s \<in> {0, 1}"
    then have "file_ok (hdr_at (contents d5) s) \<and> s \<notin> nat ` set (blocks (hdr_at (contents d5) s))"
      using h5 a(2) b(2) n01 by (cases "s = 0") simp_all
    then show "file_ok (hdr_at (contents d5) s)" "s \<notin> nat ` set (blocks (hdr_at (contents d5) s))" by auto
    fix t :: nat assume "t \<in> {0, 1}" "s \<noteq> t"
    then have st: "s = 0 \<and> t = 1 \<or> s = 1 \<and> t = 0" using s by auto
    have x: "owned (contents d5) 0 \<inter> owned (contents d5) 1 = {}"
      "owned (contents d5) 1 \<inter> owned (contents d5) 0 = {}" unfolding ow using n01 by auto
    from st show "owned (contents d5) s \<inter> owned (contents d5) t = {}"
      by (elim disjE conjE) (simp_all only: x)
  next
    show "marked m4 = (\<Union>s \<in> {0, 1}. owned (contents d5) s)"
      unfolding b(5) a(5) UN_insert ow by auto
  qed (use d5(2) h5 a(3) b(3) dir in simp_all)
  moreover have "fs_files ?fs d5 = Map.empty" by (auto simp: fs_files_def dd dir(2))
  moreover have "new_FileSystem j True d = Inr (?fs, d5)"
    using d4(1) d5(1) b(1) d2(1) by (simp add: new_FileSystem_def assert_ok_def Let_def m0(1) m1(1) m2(1) a(1) d1(1) d3(1))
  ultimately show ?thesis by blast
qed


section \<open>Histories and properties\<close>

text \<open>
  The states a file system can be in: a freshly formatted disk, then any sequence of creations
  (of sizes a header can describe), removals and writes through files that were just opened.
\<close>

inductive fs_reach :: "FileSystem \<Rightarrow> Disk \<Rightarrow> bool" where
  format: "Disk_inv d \<Longrightarrow> junk_ok j \<Longrightarrow> new_FileSystem j True d = Inr (fs, d') \<Longrightarrow> fs_reach fs d'"
| create: "fs_reach fs d \<Longrightarrow> junk_ok j \<Longrightarrow> n \<le> NumDirect * SectorSize \<Longrightarrow>
    FileSystem_Create j fs nm (int n) d = Inr (b, d') \<Longrightarrow> fs_reach fs d'"
| remove: "fs_reach fs d \<Longrightarrow> junk_ok j \<Longrightarrow> FileSystem_Remove j fs nm d = Inr (b, d') \<Longrightarrow> fs_reach fs d'"
| update: "fs_reach fs d \<Longrightarrow> junk_ok j \<Longrightarrow> FileSystem_Open j fs nm d = Inr (Some f, d1) \<Longrightarrow>
    0 < m \<Longrightarrow> m \<le> length src \<Longrightarrow> p < nat (FileLength (hdr f)) \<Longrightarrow> p + m < 2 ^ 31 \<Longrightarrow>
    WriteAt (jBytes j 0) f src (int m) (int p) d1 = Inr (r, d') \<Longrightarrow> fs_reach fs d'"

inductive_cases fs_reachE: "fs_reach fs d"

lemma Open_SomeD:
  assumes "fs_inv fs d" "junk_ok j" "FileSystem_Open j fs nm d = Inr (Some f, d1)"
  obtains s where "dir_lookup (fs_dir fs d) (strn 9 nm) = Some s" "hdr f = hdr_at (contents d) (nat s)"
    "Disk_inv d1" "contents d1 = contents d" "file_ok (hdr f)"
proof -
  from Open_ok [OF assms(1,2), of nm] assms(3) obtain s where
    s: "dir_lookup (fs_dir fs d) (strn 9 nm) = Some s" "hdr f = hdr_at (contents d) (nat s)"
      "Disk_inv d1" "contents d1 = contents d" by (auto split: option.splits)
  with fs_invD(9) [OF assms(1) lookup_heads [OF s(1)]] that show thesis by auto
qed

lemma write_open_file:
  assumes inv: "fs_inv fs d" and j: "junk_ok j" and o: "FileSystem_Open j fs nm d = Inr (Some f, d1)"
    and m: "0 < m" "m \<le> length src" "p < nat (FileLength (hdr f))" "p + m < 2 ^ 31"
  shows "\<exists>old d'. fs_files fs d (strn 9 nm) = Some old \<and>
     WriteAt fresh f src (int m) (int p) d1 = Inr (int (min m (length old - p)), d') \<and> fs_inv fs d' \<and>
     fs_files fs d' = (fs_files fs d)(strn 9 nm \<mapsto>
       take p old @ take (min m (length old - p)) src @ drop (p + min m (length old - p)) old)"
proof -
  from Open_SomeD [OF inv j o] obtain s where
    s: "dir_lookup (fs_dir fs d) (strn 9 nm) = Some s" "hdr f = hdr_at (contents d) (nat s)"
      "Disk_inv d1" "contents d1 = contents d" "file_ok (hdr f)" .
  let ?old = "file_data (contents d) (hdr f)"
  have l: "length ?old = nat (FileLength (hdr f))"
    using length_file_data [OF s(5), of "contents d"] fs_invD(1) [OF inv] by (simp add: Disk_inv_def FileLength_def)
  from WriteAt_ok [OF s(5,3) m(1,2,3), of fresh] m(4) s(4) l obtain d' where
    w: "WriteAt fresh f src (int m) (int p) d1 = Inr (int (min m (length ?old - p)), d')" "Disk_inv d'"
      "file_data (contents d') (hdr f) = take p ?old @ take (min m (length ?old - p)) src @
        drop (p + min m (length ?old - p)) ?old"
      "\<forall>x. x \<notin> nat ` set (blocks (hdr f)) \<longrightarrow> contents d' x = contents d x" by auto
  have "contents d' x = contents d x" if "x \<notin> nat ` set (blocks (hdr_at (contents d) (nat s)))" for x
    using w(4) that s(2) by simp
  note wf = write_file [OF inv w(2) s(1) this]
  have "fs_files fs d (strn 9 nm) = Some ?old" using s(1,2) by (simp add: fs_files_def)
  then show ?thesis using w(1,3) wf s(2) by metis
qed

lemma reach_inv: "fs_reach fs d \<Longrightarrow> fs_inv fs d"
proof (induction rule: fs_reach.induct)
  case (format d j fs d')
  with format_ok [of d j] show ?case by auto
next
  case (create fs d j n nm b d')
  with Create_ok [of fs d j n nm] show ?case by auto
next
  case (remove fs d j nm b d')
  with Remove_ok [of fs d j nm] show ?case by auto
next
  case (update fs d j nm f d1 m src p r d')
  with write_open_file [of fs d j nm f d1 m src p "jBytes j 0"] show ?case by auto
qed

text \<open>
  C30: In every history of formatting, creations of files of at most 3840 bytes (what the direct
  sectors of a header hold), removals, and writes inside a file through a handle opened for the write,
  the file system stays consistent: the free map marks exactly the sectors of the two tables and of
  the files in the directory, no sector belongs to two files, and every header on disk is well formed.
  No assertion fails and no index leaves its array in the next operation of these kinds or the next
  \<^verbatim>\<open>Open\<close>. (Larger files overrun the header: nothing in \<^verbatim>\<open>Create\<close> checks the size.)
\<close>

theorem file_system_consistent:
  assumes "fs_reach fs d" "junk_ok j" "n \<le> NumDirect * SectorSize"
  shows "fs_inv fs d \<and> (\<exists>r. FileSystem_Create j fs nm (int n) d = Inr r) \<and>
    (\<exists>r. FileSystem_Open j fs nm d = Inr r) \<and> (\<exists>r. FileSystem_Remove j fs nm d = Inr r) \<and>
    (\<forall>f d1 src m p. FileSystem_Open j fs nm d = Inr (Some f, d1) \<and> 0 < m \<and> m \<le> length src \<and>
       p < nat (FileLength (hdr f)) \<and> p + m < 2 ^ 31 \<longrightarrow> (\<exists>r. WriteAt fresh f src (int m) (int p) d1 = Inr r))"
proof -
  note i = reach_inv [OF assms(1)]
  have "\<exists>r. WriteAt fresh f src (int m) (int p) d1 = Inr r"
    if "FileSystem_Open j fs nm d = Inr (Some f, d1) \<and> 0 < m \<and> m \<le> length src \<and>
       p < nat (FileLength (hdr f)) \<and> p + m < 2 ^ 31" for f d1 src m p
    using write_open_file [OF i assms(2), of nm f d1 m src p fresh] that by blast
  then show ?thesis using i Create_ok [OF i assms(2,3), of nm] Open_ok [OF i assms(2), of nm]
      Remove_ok [OF i assms(2), of nm] by auto
qed

text \<open>
  C31: The file system implements a map from names, cut to nine characters, to byte arrays of at most
  3840 bytes. \<^verbatim>\<open>Create\<close> (of at most so many bytes) succeeds exactly when the name is new and directory and disk have room; it then adds a file of
  the requested length, and otherwise changes nothing. \<^verbatim>\<open>Open\<close> finds exactly the existing files,
  \<^verbatim>\<open>Remove\<close> deletes the named file, and a write through an opened file overwrites the addressed
  bytes; every other file keeps its contents.
\<close>

theorem file_system_is_a_map:
  assumes "fs_reach fs d" "junk_ok j" "n \<le> NumDirect * SectorSize"
  shows "(\<exists>d'. FileSystem_Create j fs nm (int n) d = Inr (can_create fs d nm n, d') \<and>
      (if can_create fs d nm n
       then \<exists>bs. length bs = n \<and> fs_files fs d' = (fs_files fs d)(strn FileNameMaxLen nm \<mapsto> bs)
       else fs_files fs d' = fs_files fs d)) \<and>
    (\<exists>d'. FileSystem_Remove j fs nm d = Inr (fs_files fs d (strn FileNameMaxLen nm) \<noteq> None, d') \<and>
       fs_files fs d' = (fs_files fs d)(strn FileNameMaxLen nm := None)) \<and>
    (\<exists>r d1. FileSystem_Open j fs nm d = Inr (r, d1) \<and>
       map_option (\<lambda>f. file_data (contents d1) (hdr f)) r = fs_files fs d (strn FileNameMaxLen nm) \<and>
       (\<forall>f src m p. r = Some f \<and> 0 < m \<and> m \<le> length src \<and> p < nat (FileLength (hdr f)) \<and> p + m < 2 ^ 31 \<longrightarrow>
          (\<exists>old d'. fs_files fs d (strn FileNameMaxLen nm) = Some old \<and>
             WriteAt fresh f src (int m) (int p) d1 = Inr (int (min m (length old - p)), d') \<and>
             fs_files fs d' = (fs_files fs d)(strn FileNameMaxLen nm \<mapsto>
               take p old @ take (min m (length old - p)) src @ drop (p + min m (length old - p)) old))))"
proof (intro conjI)
  note i = reach_inv [OF assms(1)]
  from Create_ok [OF i assms(2,3), of nm] obtain d' where
    c: "FileSystem_Create j fs nm (int n) d = Inr (can_create fs d nm n, d')" "fs_inv fs d'"
      "if can_create fs d nm n then \<exists>bs. length bs = n \<and> fs_files fs d' = (fs_files fs d)(strn 9 nm \<mapsto> bs)
       else contents d' = contents d" by blast
  have "fs_files fs d' = fs_files fs d" if "contents d' = contents d"
    using fs_same [OF i fs_invD(1) [OF c(2)] that] by simp
  with c show "\<exists>d'. FileSystem_Create j fs nm (int n) d = Inr (can_create fs d nm n, d') \<and>
      (if can_create fs d nm n then \<exists>bs. length bs = n \<and> fs_files fs d' = (fs_files fs d)(strn 9 nm \<mapsto> bs)
       else fs_files fs d' = fs_files fs d)" by (metis (full_types))
  show "\<exists>d'. FileSystem_Remove j fs nm d = Inr (fs_files fs d (strn 9 nm) \<noteq> None, d') \<and>
       fs_files fs d' = (fs_files fs d)(strn 9 nm := None)" using Remove_ok [OF i assms(2), of nm] by blast
  from Open_ok [OF i assms(2), of nm] obtain r d1 where
    o: "FileSystem_Open j fs nm d = Inr (r, d1)" "contents d1 = contents d"
      "case dir_lookup (fs_dir fs d) (strn 9 nm) of None \<Rightarrow> r = None
       | Some s \<Rightarrow> r = Some \<lparr>hdr = hdr_at (contents d) (nat s), seekPosition = 0\<rparr>" by blast
  have "map_option (\<lambda>f. file_data (contents d1) (hdr f)) r = fs_files fs d (strn 9 nm)"
    using o(2,3) by (auto simp: fs_files_def split: option.splits)
  moreover have "\<exists>old d'. fs_files fs d (strn 9 nm) = Some old \<and>
      WriteAt fresh f src (int m) (int p) d1 = Inr (int (min m (length old - p)), d') \<and>
      fs_files fs d' = (fs_files fs d)(strn 9 nm \<mapsto>
        take p old @ take (min m (length old - p)) src @ drop (p + min m (length old - p)) old)"
    if "r = Some f \<and> 0 < m \<and> m \<le> length src \<and> p < nat (FileLength (hdr f)) \<and> p + m < 2 ^ 31" for f src m p
    using write_open_file [OF i assms(2), of nm f d1 m src p fresh] o(1) that by blast
  ultimately show "\<exists>r d1. FileSystem_Open j fs nm d = Inr (r, d1) \<and>
       map_option (\<lambda>f. file_data (contents d1) (hdr f)) r = fs_files fs d (strn 9 nm) \<and>
       (\<forall>f src m p. r = Some f \<and> 0 < m \<and> m \<le> length src \<and> p < nat (FileLength (hdr f)) \<and> p + m < 2 ^ 31 \<longrightarrow>
          (\<exists>old d'. fs_files fs d (strn 9 nm) = Some old \<and>
             WriteAt fresh f src (int m) (int p) d1 = Inr (int (min m (length old - p)), d') \<and>
             fs_files fs d' = (fs_files fs d)(strn 9 nm \<mapsto>
               take p old @ take (min m (length old - p)) src @ drop (p + min m (length old - p)) old)))"
    using o(1) by blast
qed

definition demo_junk :: Junk where
  "demo_junk = \<lparr>jBytes = (\<lambda>_ _. 42), jWords = replicate 32 0,
     jDir = (\<lambda>_. \<lparr>inUse = True, pad1 = [1, 2, 3], deSector = 5, deName = replicate 10 255, pad2 = [4, 5]\<rparr>),
     jHdr = (\<lambda>_. \<lparr>numBytes = 9, numSectors = 9, dataSectors = replicate 30 7\<rparr>)\<rparr>"

lemma demo_junk_ok: "junk_ok demo_junk"
  by (simp add: demo_junk_def junk_ok_def entry_wf_def is_int32_def hdr_wf_def)

definition demo_fs :: "FileSystem \<times> Disk" where
  "demo_fs = projr (new_FileSystem demo_junk True demo_disk)"

lemma demo_fs_reach: "fs_reach (fst demo_fs) (snd demo_fs)" "fs_files (fst demo_fs) (snd demo_fs) = Map.empty"
  using format_ok [OF demo_disk_inv demo_junk_ok] fs_reach.format [OF demo_disk_inv demo_junk_ok]
  by (auto simp: demo_fs_def)

theorem file_system_consistent_witness:
  "fs_inv (fst demo_fs) (snd demo_fs) \<and>
   (\<exists>r. FileSystem_Create demo_junk (fst demo_fs) [65] 100 (snd demo_fs) = Inr r)"
  using file_system_consistent [OF demo_fs_reach(1) demo_junk_ok, of 100 "[65]"] by simp

theorem file_system_is_a_map_witness:
  "\<exists>d'. FileSystem_Remove demo_junk (fst demo_fs) [65] (snd demo_fs) = Inr (False, d') \<and>
     fs_files (fst demo_fs) d' [66] = None"
  using file_system_is_a_map [OF demo_fs_reach(1) demo_junk_ok, of 100 "[65]"] demo_fs_reach(2) by auto

text \<open>
  \<^verbatim>\<open>Add\<close> copies at most nine characters and never writes the tenth byte of the name field, so a
  name of nine or more characters is terminated only if the entry's memory happens to hold a NUL
  there; otherwise \<^verbatim>\<open>List\<close> runs past the end of the name.
\<close>

theorem long_name_unterminated:
  assumes "Directory_inv dir" "Directory_Add dir nm s = (True, dir')" "FileNameMaxLen \<le> length nm"
    "0 \<notin> set (take FileNameMaxLen nm)" "list_all (\<lambda>e. \<not> inUse e \<longrightarrow> deName e ! FileNameMaxLen \<noteq> 0) (table dir)"
    "list_all (\<lambda>e. inUse e \<longrightarrow> 0 \<in> set (deName e)) (table dir)"
  shows "Directory_List dir = Inr (map (\<lambda>e. takeWhile (\<lambda>c. c \<noteq> 0) (deName e)) (filter inUse (table dir))) \<and>
    Directory_List dir' = Inl OutOfBounds"
proof -
  let ?t = "table dir"
  have len: "length ?t = tableSize dir" using assms(1) by (simp add: Directory_inv_def)
  have ok: "list_all (\<lambda>e. inUse e \<longrightarrow> 0 \<in> set (deName e)) es \<Longrightarrow>
      List_loop es = Inr (map (\<lambda>e. takeWhile (\<lambda>c. c \<noteq> 0) (deName e)) (filter inUse es))" for es
    by (induction es) auto
  have bad: "e \<in> set es \<Longrightarrow> inUse e \<Longrightarrow> 0 \<notin> set (deName e) \<Longrightarrow> List_loop es = Inl OutOfBounds" for e es
    by (induction es) (auto simp: bindR_def split: sum.splits)
  from assms(2) obtain i where i: "find_index (\<lambda>e. \<not> inUse e) ?t = Some i"
    "dir' = dir\<lparr>table := ?t[i := (?t ! i)\<lparr>inUse := True, deName := strncpy (deName (?t ! i)) nm 9, deSector := s\<rparr>]\<rparr>"
    by (auto simp: Directory_Add_def len [symmetric] split: if_splits option.splits)
  let ?e = "(?t ! i)\<lparr>inUse := True, deName := strncpy (deName (?t ! i)) nm 9, deSector := s\<rparr>"
  have f: "i < length ?t" "\<not> inUse (?t ! i)" using find_index_SomeD [OF i(1)] by auto
  then have n: "length (deName (?t ! i)) = 10" "deName (?t ! i) ! 9 \<noteq> 0"
    using assms(1,5) by (auto simp: Directory_inv_def list_all_length entry_wf_def)
  have "drop 9 (deName (?t ! i)) = [deName (?t ! i) ! 9]"
    using n(1) Cons_nth_drop_Suc [of 9 "deName (?t ! i)"] by simp
  then have "deName ?e = take 9 nm @ [deName (?t ! i) ! 9]"
    using assms(3) by (simp add: strncpy_def)
  then have "0 \<notin> set (deName ?e)" using assms(4) n(2) by simp
  moreover have "?e \<in> set (?t[i := ?e])" using f(1) by (metis length_list_update nth_list_update_eq nth_mem)
  ultimately have "List_loop (?t[i := ?e]) = Inl OutOfBounds" using bad by simp
  then show ?thesis using ok [OF assms(6)] i(2) len by (simp add: Directory_List_def)
qed

theorem long_name_unterminated_witness:
  "Directory_List (snd (Directory_Add demo_dir (replicate 9 97) 44)) = Inl OutOfBounds"
proof -
  have "fst (Directory_Add demo_dir (replicate 9 97) 44)"
    by (simp add: demo_dir_def new_Directory_def Directory_Add_def FindIndex_def
      entry_matches_def numeral_eq_Suc upt_rec)
  then have "Directory_Add demo_dir (replicate 9 97) 44 = (True, snd (Directory_Add demo_dir (replicate 9 97) 44))"
    by (simp add: prod_eq_iff)
  from long_name_unterminated [OF demo_dir_inv this] show ?thesis
    by (simp add: demo_dir_def new_Directory_def list_all_iff)
qed

end
