(* ===== verification/File_Tests.thy ===== *)
theory File_Tests
  imports File_System
begin

text \<open>
  The test routines of the file system (\<^verbatim>\<open>filesys/fstest.cc\<close>): copying a UNIX file into the file system,
  printing a file, and the performance test. They use the file system only through its operations.
\<close>

section \<open>Routines\<close>

abbreviation (input) TransferSize :: nat where "TransferSize \<equiv> 10"

text \<open>
  \<open>unix\<close> are the UNIX files; \<open>j\<close> is the uninitialised memory of \<^verbatim>\<open>Create\<close> and \<open>j'\<close> that of the operations after it. What a routine prints is its result.
\<close>

datatype CopyResult = NoInputFile | NoOutputFile | Copied

function Copy_loop :: "(nat \<Rightarrow> byte) \<Rightarrow> byte list \<Rightarrow> OpenFile \<Rightarrow> Disk \<Rightarrow> Disk res" where
  "Copy_loop fresh rest f d =
     (let buffer = take TransferSize rest in
      if buffer = [] then Inr d
      else bindR (Write fresh f buffer (int (length buffer)) d) (\<lambda>(_, f1, d1).
           Copy_loop fresh (drop TransferSize rest) f1 d1))"
  by auto
termination by (relation "measure (\<lambda>(_, rest, _, _). length rest)") auto

declare Copy_loop.simps [simp del]

definition Copy :: "Junk \<Rightarrow> Junk \<Rightarrow> FileSystem \<Rightarrow> (byte list \<Rightarrow> byte list option) \<Rightarrow> byte list \<Rightarrow> byte list \<Rightarrow> Disk \<Rightarrow>
     (CopyResult \<times> Disk) res" where
  "Copy j j' fs unix src dst d = (case unix src of
     None \<Rightarrow> Inr (NoInputFile, d)
   | Some bytes \<Rightarrow>
       bindR (FileSystem_Create j fs dst (int (length bytes)) d) (\<lambda>(created, d1).
       if \<not> created then Inr (NoOutputFile, d1)
       else bindR (FileSystem_Open j' fs dst d1) (\<lambda>(openFile, d2). case openFile of
         None \<Rightarrow> Inl AssertionFailed
       | Some f \<Rightarrow> bindR (Copy_loop (jBytes j' 2) bytes f d2) (\<lambda>d3. Inr (Copied, d3)))))"

text \<open>The loop of \<^verbatim>\<open>Print\<close>, with fuel; \<open>print_chunks_ok\<close> shows how much is enough.\<close>

fun Print_loop :: "nat \<Rightarrow> OpenFile \<Rightarrow> Disk \<Rightarrow> (byte list \<times> Disk) res" where
  "Print_loop 0 f d = Inl Diverges"
| "Print_loop (Suc n) f d =
     bindR (Read f (int TransferSize) d) (\<lambda>(buffer, f1, d1).
       if buffer = [] then Inr ([], d1)
       else bindR (Print_loop n f1 d1) (\<lambda>(out, d2). Inr (buffer @ out, d2)))"

definition Print :: "nat \<Rightarrow> Junk \<Rightarrow> FileSystem \<Rightarrow> byte list \<Rightarrow> Disk \<Rightarrow> (byte list option \<times> Disk) res" where
  "Print n j fs nm d =
     bindR (FileSystem_Open j fs nm d) (\<lambda>(openFile, d1). case openFile of
       None \<Rightarrow> Inr (None, d1)
     | Some f \<Rightarrow> bindR (Print_loop n f d1) (\<lambda>(out, d2). Inr (Some out, d2)))"

definition FileName :: "byte list" where "FileName = [84, 101, 115, 116, 70, 105, 108, 101]"
definition Contents :: "byte list" where "Contents = [49, 50, 51, 52, 53, 54, 55, 56, 57, 48]"

datatype PerfMessage = CantCreate | CantOpen | CantWrite | CantRead | CantRemove

text \<open>5000 rounds of ten bytes.\<close>

fun FileWrite_loop :: "nat \<Rightarrow> (nat \<Rightarrow> byte) \<Rightarrow> OpenFile \<Rightarrow> Disk \<Rightarrow> (PerfMessage list \<times> Disk) res" where
  "FileWrite_loop 0 fresh f d = Inr ([], d)"
| "FileWrite_loop (Suc n) fresh f d =
     bindR (Write fresh f Contents 10 d) (\<lambda>(numBytes, f1, d1).
       if numBytes < 10 then Inr ([CantWrite], d1) else FileWrite_loop n fresh f1 d1)"

definition FileWrite :: "Junk \<Rightarrow> Junk \<Rightarrow> FileSystem \<Rightarrow> Disk \<Rightarrow> (PerfMessage list \<times> Disk) res" where
  "FileWrite j j' fs d =
     bindR (FileSystem_Create j fs FileName 0 d) (\<lambda>(created, d1).
     if \<not> created then Inr ([CantCreate], d1)
     else bindR (FileSystem_Open j' fs FileName d1) (\<lambda>(openFile, d2). case openFile of
       None \<Rightarrow> Inr ([CantOpen], d2)
     | Some f \<Rightarrow> FileWrite_loop 5000 (jBytes j' 2) f d2))"

fun FileRead_loop :: "nat \<Rightarrow> OpenFile \<Rightarrow> Disk \<Rightarrow> (PerfMessage list \<times> Disk) res" where
  "FileRead_loop 0 f d = Inr ([], d)"
| "FileRead_loop (Suc n) f d =
     bindR (Read f 10 d) (\<lambda>(buffer, f1, d1).
       if length buffer < 10 \<or> buffer \<noteq> Contents then Inr ([CantRead], d1) else FileRead_loop n f1 d1)"

definition FileRead :: "Junk \<Rightarrow> FileSystem \<Rightarrow> Disk \<Rightarrow> (PerfMessage list \<times> Disk) res" where
  "FileRead j fs d =
     bindR (FileSystem_Open j fs FileName d) (\<lambda>(openFile, d1). case openFile of
       None \<Rightarrow> Inr ([CantOpen], d1)
     | Some f \<Rightarrow> FileRead_loop 5000 f d1)"

definition PerformanceTest :: "Junk \<Rightarrow> Junk \<Rightarrow> FileSystem \<Rightarrow> Disk \<Rightarrow> (PerfMessage list \<times> Disk) res" where
  "PerformanceTest j j' fs d =
     bindR (FileWrite j j' fs d) (\<lambda>(m1, d1).
     bindR (FileRead j' fs d1) (\<lambda>(m2, d2).
     bindR (FileSystem_Remove j' fs FileName d2) (\<lambda>(removed, d3).
       Inr (m1 @ m2 @ (if removed then [] else [CantRemove]), d3))))"

section \<open>A file that is open\<close>

text \<open>\<open>opened fs d k f\<close>: \<open>f\<close> is open on the file \<open>k\<close> of a consistent file system.\<close>

definition opened :: "FileSystem \<Rightarrow> Disk \<Rightarrow> byte list \<Rightarrow> OpenFile \<Rightarrow> bool" where
  "opened fs d k f \<longleftrightarrow> fs_inv fs d \<and> (\<exists>s. dir_lookup (fs_dir fs d) k = Some s \<and> hdr f = hdr_at (contents d) (nat s))"

lemma openedD:
  assumes "opened fs d k f"
  shows "file_ok (hdr f)" "Disk_inv d" "fs_files fs d k = Some (file_data (contents d) (hdr f))"
    "length (file_data (contents d) (hdr f)) = nat (FileLength (hdr f))" "0 \<le> FileLength (hdr f)" "FileLength (hdr f) \<le> 3840"
proof -
  from assms obtain s where s: "fs_inv fs d" "dir_lookup (fs_dir fs d) k = Some s" "hdr f = hdr_at (contents d) (nat s)"
    by (auto simp: opened_def)
  show ok: "file_ok (hdr f)" using fs_invD(9) [OF s(1) lookup_heads [OF s(2)]] s(3) by simp
  show "Disk_inv d" by (rule fs_invD(1) [OF s(1)])
  then show "length (file_data (contents d) (hdr f)) = nat (FileLength (hdr f))"
    using length_file_data [OF ok, of "contents d"] by (simp add: Disk_inv_def FileLength_def)
  show "fs_files fs d k = Some (file_data (contents d) (hdr f))" using s by (simp add: fs_files_def)
  show "0 \<le> FileLength (hdr f)" using ok by (simp add: file_ok_def FileLength_def)
  show "FileLength (hdr f) \<le> 3840" using file_okD(8) [OF ok] by (simp add: FileLength_def)
qed

lemma dir_not_full:
  assumes "Directory_inv dir" "0 < tableSize dir" "\<And>k. dir_lookup dir k = None"
  shows "\<not> dir_full dir"
proof
  assume "dir_full dir"
  moreover have t: "table dir \<noteq> []" using assms(1,2) by (auto simp: Directory_inv_def)
  ultimately have "inUse (hd (table dir))" by (cases "table dir") (auto simp: dir_full_def)
  then show False using assms(3) [of "strn 9 (deName (hd (table dir)))"] t by (auto simp: dir_lookup_def find_index_None_iff)
qed

lemma opened_seek [simp]: "opened fs d k (f\<lparr>seekPosition := p\<rparr>) = opened fs d k f"
  by (simp add: opened_def)

lemma opened_same:
  assumes "opened fs d k f" "Disk_inv d'" "contents d' = contents d"
  shows "opened fs d' k f \<and> fs_files fs d' = fs_files fs d"
  using assms fs_same [of fs d d'] by (auto simp: opened_def fs_dir_def)

lemma Open_opened:
  assumes "fs_inv fs d" "junk_ok j" "fs_files fs d (strn 9 nm) = Some bs"
  shows "\<exists>f d'. FileSystem_Open j fs nm d = Inr (Some f, d') \<and> opened fs d' (strn 9 nm) f \<and> seekPosition f = 0 \<and>
    fs_files fs d' = fs_files fs d \<and> contents d' = contents d"
proof -
  from assms(3) obtain s where s: "dir_lookup (fs_dir fs d) (strn 9 nm) = Some s" by (auto simp: fs_files_def)
  with Open_ok [OF assms(1,2), of nm] obtain d' where
    d': "FileSystem_Open j fs nm d = Inr (Some \<lparr>hdr = hdr_at (contents d) (nat s), seekPosition = 0\<rparr>, d')" "Disk_inv d'" "contents d' = contents d"
    by auto
  have "opened fs d (strn 9 nm) \<lparr>hdr = hdr_at (contents d) (nat s), seekPosition = 0\<rparr>" using assms(1) s by (simp add: opened_def)
  from opened_same [OF this d'(2,3)] d' show ?thesis by auto
qed

text \<open>One sequential write or read of a file that has room.\<close>

lemma Write_opened:
  assumes o: "opened fs d k f" and p: "seekPosition f = int p" "bs \<noteq> []"
    and r: "p + length bs \<le> length (file_data (contents d) (hdr f))"
  shows "\<exists>d'. Write fresh f bs (int (length bs)) d = Inr (int (length bs), f\<lparr>seekPosition := int (p + length bs)\<rparr>, d') \<and> opened fs d' k f \<and>
    fs_files fs d' = (fs_files fs d)(k \<mapsto> file_data (contents d') (hdr f)) \<and>
    file_data (contents d') (hdr f) = take p (file_data (contents d) (hdr f)) @ bs @ drop (p + length bs) (file_data (contents d) (hdr f))"
proof -
  note O = openedD [OF o]
  let ?old = "file_data (contents d) (hdr f)"
  have l: "length ?old \<le> 3840" using O(4-6) by simp
  have "0 < length bs" using p(2) by simp
  moreover have "p < nat (FileLength (hdr f))" "p + length bs < 2147483648" using r O(4) p(2) l by (simp_all add: less_le_trans [of p "p + length bs"])
  ultimately obtain d' where w: "WriteAt fresh f bs (int (length bs)) (int p) d = Inr (int (min (length bs) (nat (FileLength (hdr f)) - p)), d')"
      "Disk_inv d'" "file_data (contents d') (hdr f) = take p ?old @ take (min (length bs) (nat (FileLength (hdr f)) - p)) bs @
        drop (p + min (length bs) (nat (FileLength (hdr f)) - p)) ?old" "\<forall>x. x \<notin> nat ` set (blocks (hdr f)) \<longrightarrow> contents d' x = contents d x"
    using WriteAt_ok [OF O(1,2), of "length bs" bs p fresh] by auto
  have m: "min (length bs) (nat (FileLength (hdr f)) - p) = length bs" using r O(4) by simp
  from o obtain s where s: "fs_inv fs d" "dir_lookup (fs_dir fs d) k = Some s" "hdr f = hdr_at (contents d) (nat s)" by (auto simp: opened_def)
  have "contents d' x = contents d x" if "x \<notin> nat ` set (blocks (hdr_at (contents d) (nat s)))" for x using w(4) that s(3) by simp
  note F = write_file [OF s(1) w(2) s(2) this]
  have i: "int32 (int p + int (length bs)) = int (p + length bs)" using r l by (simp add: int32_id)
  show ?thesis using w F s p(1) m i by (intro exI [of _ d']) (simp add: Write_def opened_def)
qed

lemma Read_opened:
  assumes o: "opened fs d k f" and p: "seekPosition f = int p" "p \<le> length (file_data (contents d) (hdr f))"
  shows "\<exists>d'. Read f 10 d = Inr (take 10 (drop p (file_data (contents d) (hdr f))),
      f\<lparr>seekPosition := int (p + length (take 10 (drop p (file_data (contents d) (hdr f)))))\<rparr>, d') \<and>
    Disk_inv d' \<and> contents d' = contents d"
proof -
  note O = openedD [OF o]
  let ?old = "file_data (contents d) (hdr f)"
  have l: "length ?old \<le> 3840" using O(4-6) by simp
  have i: "int32 (int p + int (length (take 10 (drop p ?old)))) = int (p + length (take 10 (drop p ?old)))"
    using p(2) l by (simp add: int32_id)
  show ?thesis
  proof (cases "p < length ?old")
    case True
    then have "p < nat (FileLength (hdr f))" "p + 10 < 2147483648" using O(4) l by simp_all
    from ReadAt_ok [OF O(1,2) _ this] obtain d' where
      "ReadAt f 10 (int p) d = Inr (take 10 (drop p ?old), d')" "Disk_inv d'" "contents d' = contents d" by auto
    then show ?thesis using p(1) i by (auto simp: Read_def)
  next
    case False
    then have "FileLength (hdr f) \<le> int p" using O(4) by simp
    then have "ReadAt f 10 (int p) d = Inr ([], d)" by (simp add: ReadAt_def)
    then show ?thesis using p(1) False O(2) i by (intro exI [of _ d]) (simp add: Read_def)
  qed
qed

section \<open>Copying and printing\<close>

lemma Copy_loop_ok:
  assumes "opened fs d k f" "seekPosition f = int p" "length (file_data (contents d) (hdr f)) = p + length rest"
  shows "\<exists>d'. Copy_loop fresh rest f d = Inr d' \<and> fs_inv fs d' \<and>
    fs_files fs d' = (fs_files fs d)(k \<mapsto> take p (file_data (contents d) (hdr f)) @ rest)"
  using assms
proof (induction rest arbitrary: d f p rule: length_induct)
  case (1 rest)
  show ?case
  proof (cases "rest = []")
    case True
    then show ?thesis using 1(2,4) openedD(3) [OF 1(2)] by (auto simp: Copy_loop.simps opened_def fun_upd_idem)
  next
    case False
    let ?b = "take 10 rest" and ?old = "file_data (contents d) (hdr f)"
    have b: "?b \<noteq> []" "p + length ?b \<le> length ?old" "length (drop 10 rest) < length rest" using False 1(4) by (cases rest; simp)+
    from Write_opened [OF 1(2,3) b(1,2), of fresh] obtain d1 where
      w: "Write fresh f ?b (int (length ?b)) d = Inr (int (length ?b), f\<lparr>seekPosition := int (p + length ?b)\<rparr>, d1)" "opened fs d1 k f"
        "fs_files fs d1 = (fs_files fs d)(k \<mapsto> file_data (contents d1) (hdr f))"
        "file_data (contents d1) (hdr f) = take p ?old @ ?b @ drop (p + length ?b) ?old" by blast
    let ?f = "f\<lparr>seekPosition := int (p + length ?b)\<rparr>"
    have "opened fs d1 k ?f" "seekPosition ?f = int (p + length ?b)" "length (file_data (contents d1) (hdr ?f)) = p + length ?b + length (drop 10 rest)"
      using w(2,4) 1(4) by simp_all
    from 1(1) [rule_format, OF b(3) this] obtain d' where
      d': "Copy_loop fresh (drop 10 rest) ?f d1 = Inr d'" "fs_inv fs d'"
        "fs_files fs d' = (fs_files fs d1)(k \<mapsto> take (p + length ?b) (file_data (contents d1) (hdr f)) @ drop 10 rest)" by auto
    have "take (p + length ?b) (file_data (contents d1) (hdr f)) = take p ?old @ ?b" using w(4) 1(4) by (simp add: take_all_iff min_def)
    then have "fs_files fs d' = (fs_files fs d)(k \<mapsto> take p ?old @ rest)" using d'(3) w(3) by simp
    moreover have "Copy_loop fresh rest f d = Inr d'" using d'(1) w(1) b(1) by (simp add: Copy_loop.simps [of fresh rest])
    ultimately show ?thesis using d'(2) by blast
  qed
qed

lemma print_chunks_ok:
  assumes "opened fs d k f" "seekPosition f = int p" "p \<le> length (file_data (contents d) (hdr f))"
    "length (file_data (contents d) (hdr f)) - p < n"
  shows "\<exists>d'. Print_loop n f d = Inr (drop p (file_data (contents d) (hdr f)), d') \<and> Disk_inv d' \<and> contents d' = contents d"
  using assms
proof (induction n arbitrary: d f p)
  case (Suc n)
  let ?old = "file_data (contents d) (hdr f)"
  from Read_opened [OF Suc.prems(1-3)] obtain d1 where
    r: "Read f 10 d = Inr (take 10 (drop p ?old), f\<lparr>seekPosition := int (p + length (take 10 (drop p ?old)))\<rparr>, d1)" "Disk_inv d1" "contents d1 = contents d"
    by blast
  show ?case
  proof (cases "drop p ?old = []")
    case True
    then show ?thesis using r by simp
  next
    case False
    let ?q = "p + length (take 10 (drop p ?old))"
    let ?f = "f\<lparr>seekPosition := int ?q\<rparr>"
    have q: "p < ?q" "?q \<le> length ?old" using False by (simp_all add: min_def) linarith
    have "opened fs d1 k ?f" using opened_same [OF Suc.prems(1) r(2,3)] by simp
    moreover have "length ?old - ?q < n" using q Suc.prems(4) by linarith
    ultimately obtain d' where d': "Print_loop n ?f d1 = Inr (drop ?q ?old, d')" "Disk_inv d'" "contents d' = contents d"
      using Suc.IH [of d1 ?f ?q] q(2) r(3) by auto
    have "drop ?q ?old = drop 10 (drop p ?old)" by (cases "length ?old - p \<le> 10") (simp_all add: min_def add.commute)
    then have "take 10 (drop p ?old) @ drop ?q ?old = drop p ?old" by (simp only: append_take_drop_id)
    then show ?thesis using r(1) d' False by simp
  qed
qed simp

text \<open>
  C32: a UNIX file of at most 3840 bytes that \<^verbatim>\<open>Copy\<close> puts into a file system with room for it and no file of
  the name is stored byte for byte and printed unchanged by \<^verbatim>\<open>Print\<close>, no other file changes, and otherwise
  nothing changes. (Larger files overrun the file header.)
\<close>

theorem copy_then_print:
  assumes "fs_reach fs d" "junk_ok j" "junk_ok j'" "unix src = Some bytes" "length bytes \<le> NumDirect * SectorSize"
  shows "if can_create fs d dst (length bytes)
    then \<exists>d1. Copy j j' fs unix src dst d = Inr (Copied, d1) \<and> fs_files fs d1 = (fs_files fs d)(strn FileNameMaxLen dst \<mapsto> bytes) \<and>
      (\<exists>d2. Print (Suc (length bytes)) j' fs dst d1 = Inr (Some bytes, d2))
    else \<exists>d1. Copy j j' fs unix src dst d = Inr (NoOutputFile, d1) \<and> fs_files fs d1 = fs_files fs d"
proof -
  note i = reach_inv [OF assms(1)]
  let ?k = "strn 9 dst"
  from Create_ok [OF i assms(2,5), of dst] obtain d0 where
    c: "FileSystem_Create j fs dst (int (length bytes)) d = Inr (can_create fs d dst (length bytes), d0)" "fs_inv fs d0"
      "if can_create fs d dst (length bytes) then \<exists>bs. length bs = length bytes \<and> fs_files fs d0 = (fs_files fs d)(?k \<mapsto> bs)
       else contents d0 = contents d" by blast
  show ?thesis
  proof (cases "can_create fs d dst (length bytes)")
    case False
    then show ?thesis using c assms(4) fs_same [OF i fs_invD(1) [OF c(2)]] by (simp add: Copy_def)
  next
    case True
    with c(3) obtain bs where bs: "length bs = length bytes" "fs_files fs d0 = (fs_files fs d)(?k \<mapsto> bs)" by auto
    from Open_opened [OF c(2) assms(3), of dst bs] bs obtain f d1 where
      f: "FileSystem_Open j' fs dst d0 = Inr (Some f, d1)" "opened fs d1 ?k f" "seekPosition f = 0" "fs_files fs d1 = fs_files fs d0" by auto
    have "length (file_data (contents d1) (hdr f)) = 0 + length bytes" using openedD(3) [OF f(2)] f(4) bs by simp
    from Copy_loop_ok [OF f(2) _ this, of "jBytes j' 2"] f(3,4) bs obtain d2 where
      l: "Copy_loop (jBytes j' 2) bytes f d1 = Inr d2" "fs_inv fs d2" "fs_files fs d2 = (fs_files fs d)(?k \<mapsto> bytes)" by auto
    from Open_opened [OF l(2) assms(3), of dst bytes] l(3) obtain g d3 where
      g: "FileSystem_Open j' fs dst d2 = Inr (Some g, d3)" "opened fs d3 ?k g" "seekPosition g = 0" "fs_files fs d3 = fs_files fs d2" by auto
    have b: "file_data (contents d3) (hdr g) = bytes" using openedD(3) [OF g(2)] g(4) l(3) by simp
    from print_chunks_ok [OF g(2), of 0 "Suc (length bytes)"] g(3) b obtain d4 where
      "Print_loop (Suc (length bytes)) g d3 = Inr (bytes, d4)" by auto
    then have "Print (Suc (length bytes)) j' fs dst d2 = Inr (Some bytes, d4)" using g(1) by (simp add: Print_def del: Print_loop.simps)
    moreover have "Copy j j' fs unix src dst d = Inr (Copied, d2)" using c(1) True f(1) l(1) assms(4) by (simp add: Copy_def)
    ultimately show ?thesis using True l(3) by auto
  qed
qed

lemma demo_room: "n \<le> 3840 \<Longrightarrow> can_create (fst demo_fs) (snd demo_fs) nm n"
proof -
  assume n: "n \<le> 3840"
  let ?fs = "fst demo_fs" and ?d = "snd demo_fs"
  have i: "fs_inv ?fs ?d" by (rule reach_inv [OF demo_fs_reach(1)])
  note I = fs_invD [OF i]
  have e: "dir_lookup (fs_dir ?fs ?d) k = None" for k using demo_fs_reach(2) by (simp add: fs_files_None [symmetric])
  have h: "heads ?fs ?d = {0, 1}" using e by (auto simp: heads_def ran_def)
  have f: "file_ok (hdr_at (contents ?d) 0)" "file_ok (hdr_at (contents ?d) 1)" using I(9) h by auto
  have "length (blocks (hdr_at (contents ?d) 0)) = 1" "length (blocks (hdr_at (contents ?d) 1)) = 2"
    using file_okD(3) [OF f(1)] file_okD(3) [OF f(2)] I(3,5) by (simp_all add: divRoundUp_def)
  then have "card (nat ` set (blocks (hdr_at (contents ?d) 0))) \<le> 1" "card (nat ` set (blocks (hdr_at (contents ?d) 1))) \<le> 2"
    by (metis card_image_le card_length finite_set le_trans)+
  then have "card (owned (contents ?d) 0) \<le> 2" "card (owned (contents ?d) 1) \<le> 3"
    unfolding owned_def by (auto simp: card_insert_if)
  then have m: "card (marked (fs_map ?fs ?d)) \<le> 5"
    using card_Un_le [of "owned (contents ?d) 0" "owned (contents ?d) 1"] by (simp add: I(12) h)
  have "\<not> dir_full (fs_dir ?fs ?d)" using dir_not_full [OF I(6)] e by (simp add: fs_dir_def)
  moreover have "divRoundUp n 128 \<le> 30" proof -
    have "n div 128 \<le> 30" "n mod 128 > 0 \<Longrightarrow> n div 128 < 30" using n div_mult_mod_eq [of n 128] by linarith+
    then show ?thesis by (auto simp: divRoundUp_def)
  qed
  ultimately show ?thesis using e m by (simp add: can_create_def fs_files_None)
qed

theorem copy_then_print_witness:
  "\<exists>d1 d2. Copy demo_junk demo_junk (fst demo_fs) [[65] \<mapsto> [1, 2, 3]] [65] [66] (snd demo_fs) = Inr (Copied, d1) \<and>
     Print 4 demo_junk (fst demo_fs) [66] d1 = Inr (Some [1, 2, 3], d2)"
  using copy_then_print [OF demo_fs_reach(1) demo_junk_ok demo_junk_ok, of "[[65] \<mapsto> [1, 2, 3]]" "[65]" "[1, 2, 3]" "[66]"]
    demo_room [of 3 "[66]"] by (simp add: eval_nat_numeral) blast

section \<open>The performance test\<close>

text \<open>
  the performance test never measures anything: files have a fixed length, the test creates its file with
  length 0, so its first write and its first read fail, and the file is removed again.
\<close>

theorem performance_test_stops:
  assumes "fs_reach fs d" "junk_ok j" "junk_ok j'" "can_create fs d FileName 0"
  shows "\<exists>d'. PerformanceTest j j' fs d = Inr ([CantWrite, CantRead], d') \<and> fs_files fs d' = fs_files fs d"
proof -
  note i = reach_inv [OF assms(1)]
  let ?k = "strn 9 FileName"
  from Create_ok [OF i assms(2), of 0 FileName] assms(4) obtain d0 where
    c: "FileSystem_Create j fs FileName 0 d = Inr (True, d0)" "fs_inv fs d0" "fs_files fs d0 = (fs_files fs d)(?k \<mapsto> [])" by auto
  from Open_opened [OF c(2) assms(3), of FileName "[]"] c(3) obtain f d1 where
    f: "FileSystem_Open j' fs FileName d0 = Inr (Some f, d1)" "opened fs d1 ?k f" "seekPosition f = 0" "fs_files fs d1 = fs_files fs d0" by auto
  have e: "FileLength (hdr f) = 0" using openedD [OF f(2)] f(4) c(3) by simp
  have w: "FileWrite j j' fs d = Inr ([CantWrite], d1)"
    using c(1) f(1,3) e by (simp add: FileWrite_def Write_def WriteAt_def FileWrite_loop.simps(2) [of 4999, simplified])
  have d1: "fs_inv fs d1" using f(2) by (simp add: opened_def)
  from Open_opened [OF d1 assms(3), of FileName "[]"] f(4) c(3) obtain g d2 where
    g: "FileSystem_Open j' fs FileName d1 = Inr (Some g, d2)" "opened fs d2 ?k g" "seekPosition g = 0" "fs_files fs d2 = fs_files fs d1" by auto
  have e': "FileLength (hdr g) = 0" using openedD [OF g(2)] g(4) f(4) c(3) by simp
  have r: "FileRead j' fs d1 = Inr ([CantRead], d2)"
    using g(1,3) e' by (simp add: FileRead_def Read_def ReadAt_def FileRead_loop.simps(2) [of 4999, simplified])
  have "fs_inv fs d2" using g(2) by (simp add: opened_def)
  from Remove_ok [OF this assms(3), of FileName] g(4) f(4) c(3) obtain d3 where
    "FileSystem_Remove j' fs FileName d2 = Inr (True, d3)" "fs_files fs d3 = (fs_files fs d)(?k := None)" by auto
  moreover have "fs_files fs d ?k = None" using assms(4) by (simp add: can_create_def)
  ultimately show ?thesis using w r by (simp add: PerformanceTest_def fun_upd_idem)
qed

theorem performance_test_stops_witness:
  "\<exists>d'. PerformanceTest demo_junk demo_junk (fst demo_fs) (snd demo_fs) = Inr ([CantWrite, CantRead], d')"
  using performance_test_stops [OF demo_fs_reach(1) demo_junk_ok demo_junk_ok] demo_room [of 0 FileName] by auto

end
