(* ===== verification/User_Memory.thy ===== *)
theory User_Memory
  imports VM_Reach
begin

text \<open>
  Kernel access to user memory: \<^verbatim>\<open>copyin\<close> and \<^verbatim>\<open>copyout\<close> of \<^verbatim>\<open>userprog/exception.cc\<close>. They go through
  \<^verbatim>\<open>Machine::ReadMem\<close> and \<^verbatim>\<open>WriteMem\<close>, so a page that the TLB does not map raises a page fault inside
  the kernel, which \<^verbatim>\<open>HandlePageFault\<close> resolves; \<^verbatim>\<open>copyin\<close> then tries again, \<^verbatim>\<open>copyout\<close> gives up.
  The arguments \<open>rnd\<close> are the numbers that \<^verbatim>\<open>rand()\<close> returns where a frame is chosen at random.
\<close>

section \<open>Memory accesses that may fault\<close>

text \<open>The part of \<^verbatim>\<open>ExceptionHandler\<close> that an exception raised by a memory access reaches.\<close>

definition memory_exception :: "nat \<Rightarrow> ExceptionType \<Rightarrow> VM \<Rightarrow> VM res" where
  "memory_exception rnd which vm = (if which = PageFaultException then HandlePageFault rnd vm else Inl Halted)"

text \<open>\<^verbatim>\<open>RaiseException\<close>, \<^verbatim>\<open>ReadMem\<close> and \<^verbatim>\<open>WriteMem\<close> with that handler, on the whole state.\<close>

definition vm_RaiseException :: "nat \<Rightarrow> ExceptionType \<Rightarrow> 32 word \<Rightarrow> VM \<Rightarrow> VM res" where
  "vm_RaiseException rnd which badVAddr vm =
     bindR (DelayedLoad 0 0 ((mach vm)\<lparr>registers := (registers (mach vm))(BadVAddrReg := badVAddr)\<rparr>)) (\<lambda>m1.
     bindR (memory_exception rnd which (vm\<lparr>mach := m1\<lparr>machineStatus := SystemMode\<rparr>\<rparr>)) (\<lambda>vm1.
     Inr (vm1\<lparr>mach := (mach vm1)\<lparr>machineStatus := UserMode\<rparr>\<rparr>)))"

definition vm_ReadMem :: "nat \<Rightarrow> 32 word \<Rightarrow> nat \<Rightarrow> VM \<Rightarrow> (32 word option \<times> VM) res" where
  "vm_ReadMem rnd addr sz vm =
     bindR (Translate addr sz False (mach vm)) (\<lambda>(ex, _, m1).
       if ex \<noteq> NoException then bindR (vm_RaiseException rnd ex addr (vm\<lparr>mach := m1\<rparr>)) (\<lambda>vm1. Inr (None, vm1))
       else bindR (ReadMem (\<lambda>_. Inr) addr sz (mach vm)) (\<lambda>(x, m2). Inr (x, vm\<lparr>mach := m2\<rparr>)))"

definition vm_WriteMem :: "nat \<Rightarrow> 32 word \<Rightarrow> nat \<Rightarrow> 32 word \<Rightarrow> VM \<Rightarrow> (bool \<times> VM) res" where
  "vm_WriteMem rnd addr sz v vm =
     bindR (Translate addr sz True (mach vm)) (\<lambda>(ex, _, m1).
       if ex \<noteq> NoException then bindR (vm_RaiseException rnd ex addr (vm\<lparr>mach := m1\<rparr>)) (\<lambda>vm1. Inr (False, vm1))
       else bindR (WriteMem (\<lambda>_. Inr) addr sz v (mach vm)) (\<lambda>(x, m2). Inr (x, vm\<lparr>mach := m2\<rparr>)))"

section \<open>copyin and copyout\<close>

text \<open>
  The inner loop of \<^verbatim>\<open>copyin\<close>, with fuel; \<open>copyin_byte_ok\<close> shows that two rounds are enough. No other thread runs between a fault
  and the next attempt: threads are preempted only by the timer, which \<^verbatim>\<open>Initialize\<close> creates for the option \<^verbatim>\<open>-rs\<close> alone.
\<close>

fun copyin_byte :: "nat \<Rightarrow> (nat \<Rightarrow> nat) \<Rightarrow> 32 word \<Rightarrow> VM \<Rightarrow> (32 word \<times> VM) res" where
  "copyin_byte 0 rnd vaddr vm = Inl Diverges"
| "copyin_byte (Suc k) rnd vaddr vm =
     bindR (vm_ReadMem (rnd k) vaddr 1 vm) (\<lambda>(x, vm1). case x of
       Some v \<Rightarrow> Inr (v, vm1)
     | None \<Rightarrow> copyin_byte k rnd vaddr vm1)"

fun copyin_loop :: "nat \<Rightarrow> (nat \<Rightarrow> nat \<Rightarrow> nat) \<Rightarrow> 32 word \<Rightarrow> nat \<Rightarrow> VM \<Rightarrow> (8 word list \<times> VM) res" where
  "copyin_loop k rnd vaddr 0 vm = Inr ([], vm)"
| "copyin_loop k rnd vaddr (Suc n) vm =
     bindR (copyin_byte k (rnd n) vaddr vm) (\<lambda>(v, vm1).
     bindR (copyin_loop k rnd (vaddr + 1) n vm1) (\<lambda>(bs, vm2). Inr (ucast v # bs, vm2)))"

definition copyin :: "nat \<Rightarrow> (nat \<Rightarrow> nat \<Rightarrow> nat) \<Rightarrow> 32 word \<Rightarrow> int \<Rightarrow> VM \<Rightarrow> (int \<times> 8 word list \<times> VM) res" where
  "copyin k rnd vaddr len vm =
     bindR (copyin_loop k rnd vaddr (nat len) vm) (\<lambda>(bs, vm1). Inr (len, bs, vm1))"

fun copyout_loop :: "(nat \<Rightarrow> nat) \<Rightarrow> 32 word \<Rightarrow> 8 word list \<Rightarrow> VM \<Rightarrow> (bool \<times> VM) res" where
  "copyout_loop rnd vaddr [] vm = Inr (True, vm)"
| "copyout_loop rnd vaddr (b # bs) vm =
     bindR (vm_WriteMem (rnd (length bs)) vaddr 1 (scast b) vm) (\<lambda>(result, vm1).
       if \<not> result then Inr (False, vm1) else copyout_loop rnd (vaddr + 1) bs vm1)"

text \<open>\<open>buf\<close> are the \<^verbatim>\<open>len\<close> bytes that are copied.\<close>

definition copyout :: "(nat \<Rightarrow> nat) \<Rightarrow> 32 word \<Rightarrow> 8 word list \<Rightarrow> VM \<Rightarrow> (int \<times> VM) res" where
  "copyout rnd vaddr buf vm =
     bindR (copyout_loop rnd vaddr buf vm) (\<lambda>(ok, vm1). Inr (if ok then int (length buf) else - 1, vm1))"

section \<open>One access\<close>

text \<open>The register of a delayed load is one that an instruction can name.\<close>

definition regs_ok :: "VM \<Rightarrow> bool" where
  "regs_ok vm \<longleftrightarrow> unat (registers (mach vm) LoadReg) < 32"

text \<open>What user-memory accesses leave alone.\<close>

definition same_spaces :: "VM \<Rightarrow> VM \<Rightarrow> bool" where
  "same_spaces vm vm' \<longleftrightarrow> curSpace vm' = curSpace vm \<and>
     (\<forall>a. map_option numPages (spaces vm' a) = map_option numPages (spaces vm a))"

lemma same_spaces_refl [simp]: "same_spaces vm vm"
  by (simp add: same_spaces_def)

lemma same_spaces_trans: "same_spaces vm vm1 \<Longrightarrow> same_spaces vm1 vm2 \<Longrightarrow> same_spaces vm vm2"
  by (simp add: same_spaces_def)

definition mapped :: "VM \<Rightarrow> nat \<Rightarrow> bool" where
  "mapped vm v \<longleftrightarrow> lookup_entry (mach vm) v \<noteq> None"

lemma lookup_entry_cong:
  "tlb m' = tlb m \<Longrightarrow> pageTable m' = pageTable m \<Longrightarrow> pageTableSize m' = pageTableSize m \<Longrightarrow> lookup_entry m' v = lookup_entry m v"
  unfolding lookup_entry_def by (simp split: option.split)

lemma byte_aligned [simp]: "\<not> misaligned w 1" "\<not> misaligned w (Suc 0)"
  by (simp_all add: misaligned_def)

lemma read_mapped:
  assumes r: "vm_reach vm" and m: "mapped vm (unat w div PageSize)"
  shows "\<exists>bs m'. vm_ReadMem rnd w 1 vm = Inr (Some (scast (bs ! (unat w mod PageSize))), vm\<lparr>mach := m'\<rparr>) \<and>
    page_bytes vm (curSpace vm) (unat w div PageSize) = Some bs \<and> vm_reach (vm\<lparr>mach := m'\<rparr>) \<and>
    page_bytes (vm\<lparr>mach := m'\<rparr>) = page_bytes vm \<and> mapped (vm\<lparr>mach := m'\<rparr>) (unat w div PageSize) \<and>
    registers m' = registers (mach vm)"
proof -
  let ?v = "unat w div PageSize"
  have inv: "vm_inv vm" by (rule vm_reach_inv [OF r])
  from m obtain e where e: "lookup_entry (mach vm) ?v = Some e" by (auto simp: mapped_def)
  have ok: "page_ok (mach vm) w 1 False e" by (rule page_ok_mapped [OF inv e]) simp_all
  then obtain m1 where t: "Translate w 1 False (mach vm) = Inr (NoException, phys_addr e w, m1)"
    "lookup_entry m1 ?v = Some (touch False e)" "memory_part m1 = memory_part (mach vm)"
    using Translate_found [of "mach vm" 1 w e False] by (auto simp: page_ok_def phys_addr_def)
  let ?m' = "mark_used (phys_addr e w) m1"
  note mp = memory_partD [OF t(3)]
  let ?x = "scast (mainMemory (mach vm) (phys_addr e w)) :: 32 word"
  have rd: "ReadMem (\<lambda>_. Inr) w 1 (mach vm) = Inr (Some ?x, ?m')" using t(1) mp by (simp add: ReadMem_def)
  then have "vm_ReadMem rnd w 1 vm = Inr (Some ?x, vm\<lparr>mach := ?m'\<rparr>)" using t(1) by (simp add: vm_ReadMem_def)
  moreover have "vm_reach (vm\<lparr>mach := ?m'\<rparr>)" using vm_reach.step [OF r vm_step.load [OF rd]] .
  moreover have "page_bytes vm (curSpace vm) ?v = Some (frame_bytes (unat (physicalPage e)) vm)"
    by (rule mapped_page_bytes [OF inv e])
  moreover have "page_bytes (vm\<lparr>mach := ?m'\<rparr>) = page_bytes vm"
    by (rule page_bytes_cong) (simp_all add: mark_used_def mp)
  moreover have "mapped (vm\<lparr>mach := ?m'\<rparr>) ?v" 
    using t(2) lookup_entry_cong [of ?m' m1 ?v] by (simp add: mapped_def mark_used_def)
  moreover have "frame_bytes (unat (physicalPage e)) vm ! (unat w mod PageSize) = mainMemory (mach vm) (phys_addr e w)"
    by (simp add: frame_bytes_nth phys_addr_def)
  ultimately show ?thesis using mp
    by (intro exI [of _ "frame_bytes (unat (physicalPage e)) vm"] exI [of _ ?m']) (simp add: mark_used_def)
qed

text \<open>A fault in the address space is resolved, unless the swap file is full.\<close>

lemma dirty_ok_regs: "dirty_ok (vm\<lparr>mach := (mach vm)\<lparr>registers := r, machineStatus := st\<rparr>\<rparr>) \<longleftrightarrow> dirty_ok vm"
proof -
  let ?vm = "vm\<lparr>mach := (mach vm)\<lparr>registers := r, machineStatus := st\<rparr>\<rparr>"
  have "resident ?vm = resident vm" "frame_bytes p ?vm = frame_bytes p vm" "src_bytes s pg ?vm = src_bytes s pg vm" for p s pg
    by (simp_all add: resident_def fun_eq_iff frame_bytes_def src_bytes_def page_source_def)
  then show ?thesis by (simp add: dirty_ok_def)
qed

lemma raise_fault:
  assumes r: "vm_reach vm" and l: "regs_ok vm" and s: "spaces vm (curSpace vm) = Some s" "unat w div PageSize < numPages s"
  shows "(vm_RaiseException rnd PageFaultException w vm = Inl Halted \<and> marked (swapMap vm) = {..<SwapPages}) \<or>
    (\<exists>vm'. vm_RaiseException rnd PageFaultException w vm = Inr vm' \<and> vm_reach vm' \<and> regs_ok vm' \<and> same_spaces vm vm' \<and>
       mapped vm' (unat w div PageSize) \<and> (dirty_ok vm \<longrightarrow> page_bytes vm' = page_bytes vm))"
proof -
  have "unat (registers (mach vm) 37) < 32" using l by (simp add: regs_ok_def)
  then have "\<exists>r'. DelayedLoad 0 0 ((mach vm)\<lparr>registers := (registers (mach vm))(BadVAddrReg := w)\<rparr>) =
      Inr ((mach vm)\<lparr>registers := r'\<rparr>) \<and> r' BadVAddrReg = w \<and> r' LoadReg = 0"
    by (auto simp: DelayedLoad_def)
  then obtain m1 r' where m1: "DelayedLoad 0 0 ((mach vm)\<lparr>registers := (registers (mach vm))(BadVAddrReg := w)\<rparr>) = Inr m1"
    and r': "m1 = (mach vm)\<lparr>registers := r'\<rparr>" "r' BadVAddrReg = w" "r' LoadReg = 0" by blast
  let ?vm = "vm\<lparr>mach := (mach vm)\<lparr>registers := r', machineStatus := SystemMode\<rparr>\<rparr>"
  have "vm_reach (vm\<lparr>mach := (mach vm)\<lparr>registers := r'\<rparr>\<rparr>)" by (rule vm_reach.step [OF r vm_step.regs])
  from vm_reach.step [OF this vm_step.status [of _ SystemMode]] have r1: "vm_reach ?vm" by simp
  have s1: "spaces ?vm (curSpace ?vm) = Some s" using s(1) by simp
  have e: "vm_RaiseException rnd PageFaultException w vm =
      bindR (HandlePageFault rnd ?vm) (\<lambda>vm1. Inr (vm1\<lparr>mach := (mach vm1)\<lparr>machineStatus := UserMode\<rparr>\<rparr>))"
    unfolding vm_RaiseException_def m1 using r' by (simp add: memory_exception_def)
  have b: "unat (registers (mach ?vm) BadVAddrReg) div PageSize = unat w div PageSize" using r' by simp
  show ?thesis
  proof (cases "HandlePageFault rnd ?vm = Inl Halted \<and> marked (swapMap vm) = {..<SwapPages}")
    case True
    then show ?thesis using e by simp
  next
    case False
    then have "marked (swapMap ?vm) \<noteq> {..<4096} \<or> HandlePageFault rnd ?vm \<noteq> Inl Halted" by auto
    from HandlePageFault_ok [OF vm_reach_inv [OF r1] s1 s(2) b this] obtain vm' en where
      h: "HandlePageFault rnd ?vm = Inr vm'" "curSpace vm' = curSpace ?vm" "registers (mach vm') = registers (mach ?vm)"
        "lookup_entry (mach vm') (unat w div PageSize) = Some en"
        "\<forall>a. map_option numPages (spaces vm' a) = map_option numPages (spaces ?vm a)"
        "dirty_ok ?vm \<longrightarrow> page_bytes vm' = page_bytes ?vm" by blast
    let ?vm' = "vm'\<lparr>mach := (mach vm')\<lparr>machineStatus := UserMode\<rparr>\<rparr>"
    have "vm_step ?vm vm'" using vm_step.fault [OF s1 _ h(1)] s(2) b by simp
    then have "vm_reach vm'" using vm_reach.step [OF r1] by blast
    then have "vm_reach ?vm'" using vm_reach.step [OF _ vm_step.status] by blast
    moreover have "page_bytes ?vm' = page_bytes vm'" "page_bytes ?vm = page_bytes vm" by (rule page_bytes_cong; simp)+
    moreover have "mapped ?vm' (unat w div PageSize)" 
      using h(4) lookup_entry_cong [of "mach ?vm'" "mach vm'"] by (simp add: mapped_def)
    ultimately show ?thesis using h e r'(3) dirty_ok_regs
      by (intro disjI2 exI [of _ ?vm']) (simp add: regs_ok_def same_spaces_def)
  qed
qed

lemma access_fault:
  assumes r: "vm_reach vm" and m: "\<not> mapped vm (unat w div PageSize)"
  shows "vm_ReadMem rnd w 1 vm = bindR (vm_RaiseException rnd PageFaultException w vm) (\<lambda>vm1. Inr (None, vm1))"
    "vm_WriteMem rnd w 1 x vm = bindR (vm_RaiseException rnd PageFaultException w vm) (\<lambda>vm1. Inr (False, vm1))"
proof -
  have sh: "pageTable (mach vm) = None" "well_mapped (mach vm)"
    using vm_invD(1,5) [OF vm_reach_inv [OF r]] by (auto simp: shape_ok_def tlb_ok_def well_mapped_def)
  have n: "lookup_entry (mach vm) (unat w div PageSize) = None" using m by (simp add: mapped_def)
  then have "translate_result (lookup_entry (mach vm) (unat w div PageSize)) w 1 wr = PageFaultException" for wr
    by (simp add: translate_result_def)
  then have "Translate w 1 wr (mach vm) = Inr (PageFaultException, 0, mach vm)" for wr
    using Translate_refused [OF sh(2), of 1 w wr] sh(1) by auto
  then show "vm_ReadMem rnd w 1 vm = bindR (vm_RaiseException rnd PageFaultException w vm) (\<lambda>vm1. Inr (None, vm1))"
    "vm_WriteMem rnd w 1 x vm = bindR (vm_RaiseException rnd PageFaultException w vm) (\<lambda>vm1. Inr (False, vm1))"
    by (simp_all add: vm_ReadMem_def vm_WriteMem_def)
qed

text \<open>A store through the TLB changes one byte of one page of the running process.\<close>

lemma frame_bytes_store:
  assumes "mainMemory (mach vm') = (mainMemory (mach vm))(p * PageSize + k := b)" "k < PageSize"
  shows "frame_bytes q vm' = (if q = p then (frame_bytes p vm)[k := b] else frame_bytes q vm)"
proof -
  have "q * 128 + i = p * 128 + k \<longleftrightarrow> q = p \<and> i = k" if "i < 128" for i
  proof
    assume e: "q * 128 + i = p * 128 + k"
    have "(q * 128 + i) div 128 = q" "(p * 128 + k) div 128 = p" using that assms(2) by simp_all
    then show "q = p \<and> i = k" using e by simp
  qed simp
  then show ?thesis using assms by (auto simp: frame_bytes_def intro!: nth_equalityI split: if_splits)
qed

lemma scast_back: "ucast (scast (b :: 8 word) :: 32 word) = b"
  by (intro bit_word_eqI) (auto simp: bit_simps)

definition put_byte :: "nat \<Rightarrow> nat \<Rightarrow> nat \<Rightarrow> 8 word \<Rightarrow> (nat \<Rightarrow> nat \<Rightarrow> 8 word list option) \<Rightarrow> nat \<Rightarrow> nat \<Rightarrow> 8 word list option" where
  "put_byte a v k b pb = pb(a := (pb a)(v := map_option (\<lambda>bs. bs[k := b]) (pb a v)))"

lemma page_bytes_store:
  assumes inv: "vm_inv vm" and e: "lookup_entry (mach vm) v = Some e" and k: "k < PageSize"
    and m: "mainMemory m' = (mainMemory (mach vm))(unat (physicalPage e) * PageSize + k := b)"
  shows "page_bytes (vm\<lparr>mach := m'\<rparr>) = put_byte (curSpace vm) v k b (page_bytes vm)"
proof (intro ext)
  fix a u
  let ?vm' = "vm\<lparr>mach := m'\<rparr>"
  from tlb_hit_page [OF inv e] obtain p s where p: "p < 256" "physicalPage e = of_nat p" "resident vm (curSpace vm) v p"
    "spaces vm (curSpace vm) = Some s" "v < length (pages s)" "v < 2 ^ 24" "valid (entry (pages s ! v))"
    "physicalPage (entry (pages s ! v)) = of_nat p" by metis
  have ph: "unat (physicalPage e) = p" using p(1,2) frame_number by simp
  have "mainMemory (mach ?vm') = (mainMemory (mach vm))(p * PageSize + k := b)" using m ph by simp
  note fb = frame_bytes_store [OF this k]
  have src: "src_bytes s' pg ?vm' = src_bytes s' pg vm" for s' pg by (simp add: src_bytes_def page_source_def)
  have np: "numPages s = length (pages s)" using shapeD(9) [OF vm_invD(1) [OF inv] p(4)] by simp
  show "page_bytes ?vm' a u = put_byte (curSpace vm) v k b (page_bytes vm) a u"
  proof (cases "a = curSpace vm \<and> u = v")
    case True
    then show ?thesis using p np frame_number [OF p(1)] fb by (simp add: page_bytes_def put_byte_def)
  next
    case False
    have "unat (physicalPage (entry (pages s' ! u))) \<noteq> p"
      if s': "spaces vm a = Some s'" "u < numPages s'" "valid (entry (pages s' ! u))" for s'
    proof
      assume "unat (physicalPage (entry (pages s' ! u))) = p"
      moreover obtain q where q: "resident vm a u q" "physicalPage (entry (pages s' ! u)) = of_nat q"
        using vm_invD(3) [OF inv] s' unfolding pages_ok_def by blast
      ultimately have "q = p" using frame_number [of q] by (simp add: resident_def)
      moreover have "u < 2 ^ 24" using shapeD(9) [OF vm_invD(1) [OF inv] s'(1)] s'(2) by auto
      ultimately show False using resident_unique [OF p(3) q(1) [unfolded \<open>q = p\<close>] p(6)] False by simp
    qed
    then show ?thesis using False fb by (auto simp: page_bytes_def put_byte_def src split: option.split)
  qed
qed

lemma write_mapped:
  assumes r: "vm_reach vm" and m: "mapped vm (unat w div PageSize)"
  shows "\<exists>m'. vm_WriteMem rnd w 1 (scast b) vm = Inr (True, vm\<lparr>mach := m'\<rparr>) \<and> vm_reach (vm\<lparr>mach := m'\<rparr>) \<and>
    page_bytes (vm\<lparr>mach := m'\<rparr>) = put_byte (curSpace vm) (unat w div PageSize) (unat w mod PageSize) b (page_bytes vm) \<and>
    mapped (vm\<lparr>mach := m'\<rparr>) (unat w div PageSize) \<and> registers m' = registers (mach vm)"
proof -
  let ?v = "unat w div PageSize"
  have inv: "vm_inv vm" by (rule vm_reach_inv [OF r])
  from m obtain e where e: "lookup_entry (mach vm) ?v = Some e" by (auto simp: mapped_def)
  have ok: "page_ok (mach vm) w 1 True e" by (rule page_ok_mapped [OF inv e]) simp_all
  from WriteMem_ok [OF ok, of "\<lambda>_. Inr" "scast b"] obtain m' where
    w: "WriteMem (\<lambda>_. Inr) w 1 (scast b) (mach vm) = Inr (True, m')" "mainMemory m' = written (mainMemory (mach vm)) 1 (phys_addr e w) (scast b)"
      "registers m' = registers (mach vm)" "lookup_entry m' ?v = Some (touch True e)" by blast
  from Translate_found [of "mach vm" 1 w e True] ok obtain m1 where
    "Translate w 1 True (mach vm) = Inr (NoException, phys_addr e w, m1)" by (auto simp: page_ok_def phys_addr_def)
  then have "vm_WriteMem rnd w 1 (scast b) vm = Inr (True, vm\<lparr>mach := m'\<rparr>)" using w(1) by (simp add: vm_WriteMem_def)
  moreover have "mainMemory m' = (mainMemory (mach vm))(unat (physicalPage e) * PageSize + unat w mod PageSize := b)"
    using w(2) by (simp add: written_def phys_addr_def scast_back)
  then have "page_bytes (vm\<lparr>mach := m'\<rparr>) = put_byte (curSpace vm) ?v (unat w mod PageSize) b (page_bytes vm)"
    by (intro page_bytes_store [OF inv e]) simp_all
  moreover have "vm_reach (vm\<lparr>mach := m'\<rparr>)" using vm_reach.step [OF r vm_step.store [OF w(1)]] .
  ultimately show ?thesis using w(3,4) by (intro exI [of _ m']) (simp add: mapped_def)
qed

section \<open>Whole buffers\<close>

lemma next_addr:
  assumes "unat (w :: 32 word) mod 128 + 1 < 128"
  shows "unat (w + 1) div 128 = unat w div 128" "unat (w + 1) mod 128 = unat w mod 128 + 1"
proof -
  obtain q r where qr: "unat w = 128 * q + r" "r < 127" using assms that [of "unat w div 128" "unat w mod 128"] by simp
  have "unat w < 4294967296" using unsigned_less [of w] by simp
  then have "q < 33554432" using qr by linarith
  then have "unat w + 1 < 4294967296" using qr by linarith
  then have "unat (w + 1) = 128 * q + (r + 1)" using qr by (simp add: unat_word_ariths)
  then show "unat (w + 1) div 128 = unat w div 128" "unat (w + 1) mod 128 = unat w mod 128 + 1" using qr by simp_all
qed

lemma mapped_length:
  "vm_reach vm \<Longrightarrow> mapped vm v \<Longrightarrow> page_bytes vm (curSpace vm) v = Some bs \<Longrightarrow> length bs = PageSize"
  using mapped_page_bytes [OF vm_reach_inv] by (fastforce simp: mapped_def)

lemma copyin_byte_ok:
  assumes "vm_reach vm" "regs_ok vm" "spaces vm (curSpace vm) = Some s" "unat w div PageSize < numPages s" "dirty_ok vm \<or> \<not> exact"
  shows "(copyin_byte (Suc (Suc k)) rnd w vm = Inl Halted \<and> marked (swapMap vm) = {..<SwapPages}) \<or>
    (\<exists>x vm'. copyin_byte (Suc (Suc k)) rnd w vm = Inr (x, vm') \<and> vm_reach vm' \<and> regs_ok vm' \<and> same_spaces vm vm' \<and>
       mapped vm' (unat w div PageSize) \<and> (exact \<longrightarrow> page_bytes vm' = page_bytes vm \<and>
         map_option (\<lambda>bs. bs ! (unat w mod PageSize)) (page_bytes vm (curSpace vm) (unat w div PageSize)) = Some (ucast x)))"
proof (cases "mapped vm (unat w div PageSize)")
  case True
  from read_mapped [OF assms(1) True, of "rnd (Suc k)"] assms(2) show ?thesis
    by (auto simp: regs_ok_def same_spaces_def scast_back)
next
  case False
  note f = access_fault(1) [OF assms(1) False]
  show ?thesis
  proof (cases "vm_RaiseException (rnd (Suc k)) PageFaultException w vm = Inl Halted \<and> marked (swapMap vm) = {..<SwapPages}")
    case True
    then show ?thesis using f by simp
  next
    case no: False
    then obtain vm1 where v1: "vm_RaiseException (rnd (Suc k)) PageFaultException w vm = Inr vm1" "vm_reach vm1" "regs_ok vm1"
      "same_spaces vm vm1" "mapped vm1 (unat w div PageSize)" "dirty_ok vm \<longrightarrow> page_bytes vm1 = page_bytes vm"
      using raise_fault [OF assms(1-4), of "rnd (Suc k)"] by blast
    from read_mapped [OF v1(2,5), of "rnd k"] obtain bs m' where
      rd: "vm_ReadMem (rnd k) w 1 vm1 = Inr (Some (scast (bs ! (unat w mod PageSize))), vm1\<lparr>mach := m'\<rparr>)"
      "page_bytes vm1 (curSpace vm1) (unat w div PageSize) = Some bs" "vm_reach (vm1\<lparr>mach := m'\<rparr>)"
      "page_bytes (vm1\<lparr>mach := m'\<rparr>) = page_bytes vm1" "mapped (vm1\<lparr>mach := m'\<rparr>) (unat w div PageSize)"
      "registers m' = registers (mach vm1)" by blast
    have "copyin_byte (Suc (Suc k)) rnd w vm = Inr (scast (bs ! (unat w mod PageSize)), vm1\<lparr>mach := m'\<rparr>)"
      using f v1(1) rd(1) by simp
    moreover have "exact \<longrightarrow> page_bytes vm (curSpace vm) (unat w div PageSize) = Some bs"
      using v1(4,6) assms(5) rd(2) by (auto simp: same_spaces_def)
    ultimately show ?thesis using v1(3,4,6) rd(3-6) assms(5)
      by (intro disjI2 exI [of _ "scast (bs ! (unat w mod PageSize))"] exI [of _ "vm1\<lparr>mach := m'\<rparr>"])
        (auto simp: regs_ok_def same_spaces_def scast_back)
  qed
qed

lemma copyin_loop_mapped:
  assumes "vm_reach vm" "mapped vm v" "page_bytes vm (curSpace vm) v = Some bs" "n > 0 \<Longrightarrow> unat w div PageSize = v"
    "unat w mod PageSize + n \<le> PageSize"
  shows "\<exists>m'. copyin_loop (Suc k) rnd w n vm = Inr (take n (drop (unat w mod PageSize) bs), vm\<lparr>mach := m'\<rparr>) \<and>
    vm_reach (vm\<lparr>mach := m'\<rparr>) \<and> page_bytes (vm\<lparr>mach := m'\<rparr>) = page_bytes vm \<and> registers m' = registers (mach vm) \<and>
    mapped (vm\<lparr>mach := m'\<rparr>) v"
  using assms
proof (induction n arbitrary: w vm)
  case 0
  then show ?case by (intro exI [of _ "mach vm"]) simp
next
  case (Suc n)
  then have wv: "unat w div PageSize = v" by simp
  have m: "mapped vm (unat w div PageSize)" using Suc.prems(2) wv by simp
  from read_mapped [OF Suc.prems(1) m, of "rnd n k"] Suc.prems(3) wv obtain m' where
    rd: "vm_ReadMem (rnd n k) w 1 vm = Inr (Some (scast (bs ! (unat w mod PageSize))), vm\<lparr>mach := m'\<rparr>)"
      "vm_reach (vm\<lparr>mach := m'\<rparr>)" "page_bytes (vm\<lparr>mach := m'\<rparr>) = page_bytes vm" "mapped (vm\<lparr>mach := m'\<rparr>) v"
      "registers m' = registers (mach vm)" by auto
  have lb: "length bs = 128" using mapped_length [OF Suc.prems(1,2,3)] .
  have nx: "unat (w + 1) div PageSize = v \<and> unat (w + 1) mod PageSize = unat w mod PageSize + 1" if "n > 0"
    using next_addr [of w] Suc.prems(5) that wv by simp
  have tk: "take (Suc n) (drop (unat w mod 128) bs) = bs ! (unat w mod 128) # take n (drop (Suc (unat w mod 128)) bs)"
    using lb by (simp add: Cons_nth_drop_Suc [symmetric])
  show ?case
  proof (cases "n = 0")
    case True
    then show ?thesis using rd tk by (intro exI [of _ m']) (simp add: scast_back)
  next
    case False
    then have p: "unat (w + 1) mod PageSize + n \<le> PageSize" "n > 0 \<Longrightarrow> unat (w + 1) div PageSize = v" using nx Suc.prems(5) by simp_all
    have "page_bytes (vm\<lparr>mach := m'\<rparr>) (curSpace (vm\<lparr>mach := m'\<rparr>)) v = Some bs" using rd(3) Suc.prems(3) by simp
    from Suc.IH [OF rd(2,4) this p(2,1)] obtain m2 where
      "copyin_loop (Suc k) rnd (w + 1) n (vm\<lparr>mach := m'\<rparr>) = Inr (take n (drop (unat (w + 1) mod PageSize) bs), vm\<lparr>mach := m2\<rparr>)"
      "vm_reach (vm\<lparr>mach := m2\<rparr>)" "page_bytes (vm\<lparr>mach := m2\<rparr>) = page_bytes vm" "registers m2 = registers (mach vm)"
      "mapped (vm\<lparr>mach := m2\<rparr>) v"
      using rd(3,5) by auto
    then show ?thesis using rd(1) tk nx False by (intro exI [of _ m2]) (simp add: scast_back)
  qed
qed

lemma copyin_loop_any:
  assumes "vm_reach vm" "regs_ok vm" "spaces vm (curSpace vm) = Some s" "unat w + n \<le> numPages s * PageSize"
  shows "copyin_loop (Suc (Suc k)) rnd w n vm = Inl Halted \<or>
    (\<exists>bs vm'. copyin_loop (Suc (Suc k)) rnd w n vm = Inr (bs, vm') \<and> length bs = n \<and> vm_reach vm' \<and> regs_ok vm' \<and> same_spaces vm vm')"
  using assms
proof (induction n arbitrary: w vm s)
  case (Suc n)
  have "unat w < numPages s * 128" using Suc.prems(4) by simp
  then have v: "unat w div PageSize < numPages s" by (simp add: less_mult_imp_div_less)
  from copyin_byte_ok [OF Suc.prems(1-3) v, of False k "rnd n"] consider
    "copyin_byte (Suc (Suc k)) (rnd n) w vm = Inl Halted"
    | x vm1 where "copyin_byte (Suc (Suc k)) (rnd n) w vm = Inr (x, vm1)" "vm_reach vm1" "regs_ok vm1" "same_spaces vm vm1" by blast
  then show ?case
  proof cases
    case 1
    then show ?thesis by (simp del: copyin_byte.simps)
  next
    case (2 x vm1)
    then obtain s1 where s1: "spaces vm1 (curSpace vm1) = Some s1" "numPages s1 = numPages s"
      using Suc.prems(3) unfolding same_spaces_def by (metis (no_types, lifting) map_option_eq_Some)
    have "unat (w + 1) \<le> unat w + 1" by (simp add: unat_word_ariths)
    then have "unat (w + 1) + n \<le> numPages s1 * PageSize" using Suc.prems(4) s1(2) by linarith
    from Suc.IH [OF 2(2,3) s1(1) this] 2 show ?thesis
      by (auto simp del: copyin_byte.simps intro: same_spaces_trans)
  qed
qed simp

definition put_range :: "nat \<Rightarrow> nat \<Rightarrow> nat \<Rightarrow> 8 word list \<Rightarrow> (nat \<Rightarrow> nat \<Rightarrow> 8 word list option) \<Rightarrow> nat \<Rightarrow> nat \<Rightarrow> 8 word list option" where
  "put_range a v k xs pb = pb(a := (pb a)(v := map_option (\<lambda>bs. take k bs @ xs @ drop (k + length xs) bs) (pb a v)))"

lemma splice_step:
  "k < length bs \<Longrightarrow> take (Suc k) (bs[k := x]) @ xs @ drop (Suc k + length xs) (bs[k := x]) = take k bs @ (x # xs) @ drop (k + length (x # xs)) bs"
  by (simp add: take_Suc_conv_app_nth)

lemma copyout_loop_mapped:
  assumes "vm_reach vm" "mapped vm v" "buf \<noteq> [] \<Longrightarrow> unat w div PageSize = v" "unat w mod PageSize + length buf \<le> PageSize"
  shows "\<exists>m'. copyout_loop rnd w buf vm = Inr (True, vm\<lparr>mach := m'\<rparr>) \<and> vm_reach (vm\<lparr>mach := m'\<rparr>) \<and> registers m' = registers (mach vm) \<and>
    (buf \<noteq> [] \<longrightarrow> page_bytes (vm\<lparr>mach := m'\<rparr>) = put_range (curSpace vm) v (unat w mod PageSize) buf (page_bytes vm))"
  using assms
proof (induction buf arbitrary: w vm)
  case Nil
  then show ?case by (intro exI [of _ "mach vm"]) simp
next
  case (Cons b buf)
  then have wv: "unat w div PageSize = v" by simp
  then have "mapped vm (unat w div PageSize)" using Cons.prems(2) by simp
  from write_mapped [OF Cons.prems(1) this, of "rnd (length buf)" b] wv obtain m' where
    wr: "vm_WriteMem (rnd (length buf)) w 1 (scast b) vm = Inr (True, vm\<lparr>mach := m'\<rparr>)" "vm_reach (vm\<lparr>mach := m'\<rparr>)"
      "page_bytes (vm\<lparr>mach := m'\<rparr>) = put_byte (curSpace vm) v (unat w mod PageSize) b (page_bytes vm)"
      "mapped (vm\<lparr>mach := m'\<rparr>) v" "registers m' = registers (mach vm)" by auto
  obtain bs where bs: "page_bytes vm (curSpace vm) v = Some bs" using mapped_page_bytes [OF vm_reach_inv [OF Cons.prems(1)]] Cons.prems(2)
    by (auto simp: mapped_def)
  have lb: "length bs = 128" using mapped_length [OF Cons.prems(1,2) bs] .
  note sp = splice_step [of "unat w mod 128" bs b]
  show ?case
  proof (cases buf)
    case Nil
    then have "page_bytes (vm\<lparr>mach := m'\<rparr>) = put_range (curSpace vm) v (unat w mod PageSize) [b] (page_bytes vm)"
      using wr(3) bs lb by (simp add: put_byte_def put_range_def upd_conv_take_nth_drop)
    then show ?thesis using wr Nil by (intro exI [of _ m']) simp
  next
    case (Cons c cs)
    then have nx: "unat (w + 1) div PageSize = v" "unat (w + 1) mod PageSize = Suc (unat w mod PageSize)"
      using next_addr [of w] Cons.prems(4) wv by simp_all
    have l: "unat (w + 1) mod PageSize + length buf \<le> PageSize" using nx Cons.prems(4) by simp
    from Cons.IH [OF wr(2,4) _ l] nx(1) obtain m2 where
      i: "copyout_loop rnd (w + 1) buf (vm\<lparr>mach := m'\<rparr>) = Inr (True, vm\<lparr>mach := m2\<rparr>)" "vm_reach (vm\<lparr>mach := m2\<rparr>)"
        "registers m2 = registers m'"
        "page_bytes (vm\<lparr>mach := m2\<rparr>) = put_range (curSpace vm) v (unat (w + 1) mod PageSize) buf (page_bytes (vm\<lparr>mach := m'\<rparr>))"
      using Cons by auto
    have "page_bytes (vm\<lparr>mach := m2\<rparr>) = put_range (curSpace vm) v (unat w mod PageSize) (b # buf) (page_bytes vm)"
      unfolding i(4) wr(3) nx(2) using bs sp [of buf] lb by (simp add: put_byte_def put_range_def)
    then show ?thesis using wr(1,5) i by (intro exI [of _ m2]) simp
  qed
qed

lemma copyin_any:
  assumes "vm_reach vm" "regs_ok vm" "spaces vm (curSpace vm) = Some s" "0 \<le> len" "unat w + nat len \<le> numPages s * PageSize"
  shows "copyin (Suc (Suc k)) rnd w len vm = Inl Halted \<or>
    (\<exists>bs vm'. copyin (Suc (Suc k)) rnd w len vm = Inr (len, bs, vm') \<and> length bs = nat len \<and> vm_reach vm' \<and> regs_ok vm' \<and> same_spaces vm vm')"
  using copyin_loop_any [OF assms(1-3,5), of k rnd] by (auto simp: copyin_def)

text \<open>A buffer within one page is read exactly.\<close>

lemma copyin_page:
  assumes "vm_reach vm" "regs_ok vm" "spaces vm (curSpace vm) = Some s" "0 \<le> len" "unat w + nat len \<le> numPages s * PageSize"
    and d: "dirty_ok vm" and pg: "unat w mod PageSize + nat len \<le> PageSize" and n: "0 < len" and room: "marked (swapMap vm) \<noteq> {..<SwapPages}"
  shows "\<exists>bs vm'. page_bytes vm (curSpace vm) (unat w div PageSize) = Some bs \<and>
    copyin (Suc (Suc k)) rnd w len vm = Inr (len, take (nat len) (drop (unat w mod PageSize) bs), vm') \<and> page_bytes vm' = page_bytes vm \<and>
    mapped vm' (unat w div PageSize)"
proof -
  let ?v = "unat w div PageSize"
  obtain m where m: "nat len = Suc m" using n by (cases "nat len") auto
  have "unat w < numPages s * 128" using assms(5) m by simp
  then have v: "?v < numPages s" by (simp add: less_mult_imp_div_less)
  from copyin_byte_ok [OF assms(1-3) v, of True k "rnd m"] d room obtain x vm1 where
    b: "copyin_byte (Suc (Suc k)) (rnd m) w vm = Inr (x, vm1)" "vm_reach vm1" "same_spaces vm vm1" "mapped vm1 ?v"
      "page_bytes vm1 = page_bytes vm"
      "map_option (\<lambda>bs. bs ! (unat w mod PageSize)) (page_bytes vm (curSpace vm) ?v) = Some (ucast x)" by blast
  then obtain bs where bs: "page_bytes vm (curSpace vm) ?v = Some bs" "bs ! (unat w mod PageSize) = ucast x" by auto
  have bs1: "page_bytes vm1 (curSpace vm1) ?v = Some bs" using bs(1) b(3,5) by (simp add: same_spaces_def)
  have lb: "length bs = 128" using mapped_length [OF b(2,4) bs1] .
  have nx: "unat (w + 1) div PageSize = ?v \<and> unat (w + 1) mod PageSize = unat w mod PageSize + 1" if "m > 0"
    using next_addr [of w] pg m that by simp
  have "\<exists>vm'. copyin_loop (Suc (Suc k)) rnd (w + 1) m vm1 = Inr (take m (drop (Suc (unat w mod PageSize)) bs), vm') \<and> page_bytes vm' = page_bytes vm \<and> mapped vm' ?v"
  proof (cases "m = 0")
    case False
    then have "unat (w + 1) mod PageSize + m \<le> PageSize" using nx pg m by simp
    from copyin_loop_mapped [OF b(2,4) bs1 _ this, of "Suc k" rnd] nx False b(5) show ?thesis by auto
  qed (use b(4,5) in simp)
  then obtain vm' where l: "copyin_loop (Suc (Suc k)) rnd (w + 1) m vm1 = Inr (take m (drop (Suc (unat w mod PageSize)) bs), vm')"
    "page_bytes vm' = page_bytes vm" "mapped vm' ?v" by blast
  have "take (Suc m) (drop (unat w mod 128) bs) = bs ! (unat w mod 128) # take m (drop (Suc (unat w mod 128)) bs)"
    using lb by (simp add: Cons_nth_drop_Suc [symmetric])
  then show ?thesis
    using bs b(1) l m by (intro exI [of _ bs] exI [of _ vm']) (simp add: copyin_def del: copyin_byte.simps)
qed

lemma copyout_page:
  assumes "vm_reach vm" "buf \<noteq> []" "unat w mod PageSize + length buf \<le> PageSize" "mapped vm (unat w div PageSize)"
  shows "\<exists>vm'. copyout rnd w buf vm = Inr (int (length buf), vm') \<and> vm_reach vm' \<and>
    page_bytes vm' = put_range (curSpace vm) (unat w div PageSize) (unat w mod PageSize) buf (page_bytes vm)"
  using copyout_loop_mapped [OF assms(1,4) _ assms(3), of rnd] assms(2) by (auto simp: copyout_def)

lemma copyout_miss:
  assumes "vm_reach vm" "regs_ok vm" "spaces vm (curSpace vm) = Some s" "buf \<noteq> []" "unat w div PageSize < numPages s"
    "\<not> mapped vm (unat w div PageSize)" "marked (swapMap vm) \<noteq> {..<SwapPages}"
  shows "\<exists>vm1. copyout rnd w buf vm = Inr (- 1, vm1) \<and> vm_reach vm1 \<and> mapped vm1 (unat w div PageSize) \<and>
    (dirty_ok vm \<longrightarrow> page_bytes vm1 = page_bytes vm)"
proof -
  obtain b bs where b: "buf = b # bs" using assms(4) by (cases buf) auto
  from raise_fault [OF assms(1-3,5), of "rnd (length bs)"] assms(7) obtain vm1 where
    v1: "vm_RaiseException (rnd (length bs)) PageFaultException w vm = Inr vm1" "vm_reach vm1" "mapped vm1 (unat w div PageSize)"
      "dirty_ok vm \<longrightarrow> page_bytes vm1 = page_bytes vm" by blast
  have "copyout rnd w buf vm = Inr (- 1, vm1)"
    using access_fault(2) [OF assms(1,6), of "rnd (length bs)" "scast b"] v1(1) by (simp add: copyout_def b)
  then show ?thesis using v1 by blast
qed

section \<open>Properties\<close>

text \<open>
  C13: \<^verbatim>\<open>copyin\<close> reads the caller's memory. In a run as described at \<open>vm_step\<close>, without time slicing, for a buffer anywhere inside the address space of the running
  process, \<^verbatim>\<open>copyin\<close> ends (each byte is read at the second attempt at the latest), or the system halts because
  the swap file is full; no other error is possible and as many bytes as asked for are returned. That they are the right ones is
  shown for a buffer within one page, when no dirty bit was lost before and the swap file has room: they are those of the
  page, wherever the page was, and no page changes.
\<close>

theorem copyin_reads_user_memory:
  assumes "vm_reach vm" "regs_ok vm" "spaces vm (curSpace vm) = Some s" "0 \<le> len" "unat w + nat len \<le> numPages s * PageSize"
  shows "(copyin (Suc (Suc k)) rnd w len vm = Inl Halted \<or>
      (\<exists>bs vm'. copyin (Suc (Suc k)) rnd w len vm = Inr (len, bs, vm') \<and> length bs = nat len \<and> vm_reach vm' \<and> regs_ok vm' \<and> same_spaces vm vm')) \<and>
    (dirty_ok vm \<longrightarrow> unat w mod PageSize + nat len \<le> PageSize \<longrightarrow> 0 < len \<longrightarrow> marked (swapMap vm) \<noteq> {..<SwapPages} \<longrightarrow>
      (\<exists>bs vm'. page_bytes vm (curSpace vm) (unat w div PageSize) = Some bs \<and>
         copyin (Suc (Suc k)) rnd w len vm = Inr (len, take (nat len) (drop (unat w mod PageSize) bs), vm') \<and>
         page_bytes vm' = page_bytes vm))"
  using copyin_any [OF assms, of k rnd] copyin_page [OF assms, of k rnd] by blast

text \<open>
  \<^verbatim>\<open>copyout\<close> does not try again. For a buffer within one page: if the TLB maps the page, \<^verbatim>\<open>copyout\<close> returns the
  number of bytes and has stored exactly these bytes, in no other place. If it does not, then the
  page fault is handled, but \<^verbatim>\<open>copyout\<close> returns -1 and stores nothing; the same call made again succeeds.
\<close>

theorem copyout_gives_up_on_fault:
  assumes "vm_reach vm" "regs_ok vm" "spaces vm (curSpace vm) = Some s" "buf \<noteq> []" "unat w div PageSize < numPages s"
    "unat w mod PageSize + length buf \<le> PageSize" "marked (swapMap vm) \<noteq> {..<SwapPages}"
  shows "if mapped vm (unat w div PageSize)
    then \<exists>vm'. copyout rnd w buf vm = Inr (int (length buf), vm') \<and> vm_reach vm' \<and>
      page_bytes vm' = put_range (curSpace vm) (unat w div PageSize) (unat w mod PageSize) buf (page_bytes vm)
    else \<exists>vm1 vm2. copyout rnd w buf vm = Inr (- 1, vm1) \<and> vm_reach vm1 \<and> (dirty_ok vm \<longrightarrow> page_bytes vm1 = page_bytes vm) \<and>
      copyout rnd' w buf vm1 = Inr (int (length buf), vm2)"
proof (cases "mapped vm (unat w div PageSize)")
  case True
  then show ?thesis using copyout_page [OF assms(1,4,6) True, of rnd] by simp
next
  case False
  from copyout_miss [OF assms(1-5) False assms(7), of rnd] obtain vm1 where
    v1: "copyout rnd w buf vm = Inr (- 1, vm1)" "vm_reach vm1" "mapped vm1 (unat w div PageSize)"
      "dirty_ok vm \<longrightarrow> page_bytes vm1 = page_bytes vm" by blast
  from copyout_page [OF v1(2) assms(4,6) v1(3), of rnd'] v1 False show ?thesis by auto
qed

lemma demo_user:
  "\<exists>vm s. vm_reach vm \<and> regs_ok vm \<and> spaces vm (curSpace vm) = Some s \<and> numPages s = 9 \<and> marked (swapMap vm) \<noteq> {..<4096} \<and> dirty_ok vm"
proof -
  from demo_run obtain vm s where d: "vm_reach vm" "spaces vm (curSpace vm) = Some s" "numPages s = 9" "marked (swapMap vm) = {}" "dirty_ok vm"
    by blast
  let ?vm = "vm\<lparr>mach := (mach vm)\<lparr>registers := (\<lambda>_. 0), machineStatus := SystemMode\<rparr>\<rparr>"
  have "vm_reach (vm\<lparr>mach := (mach vm)\<lparr>registers := (\<lambda>_. 0)\<rparr>\<rparr>)" by (rule vm_reach.step [OF d(1) vm_step.regs])
  from vm_reach.step [OF this vm_step.status [of _ SystemMode]] have "vm_reach ?vm" by simp
  moreover have "marked (swapMap vm) \<noteq> {..<4096}" using d(4) lessThan_iff [of 0 "4096 :: nat"] by force
  ultimately show ?thesis using d dirty_ok_regs by (intro exI [of _ ?vm] exI [of _ s]) (simp add: regs_ok_def)
qed

theorem copyin_reads_user_memory_witness:
  "\<exists>vm bs vm'. page_bytes vm (curSpace vm) 1 = Some bs \<and> copyin (Suc (Suc 0)) (\<lambda>_ _. 0) 130 5 vm = Inr (5, take 5 (drop 2 bs), vm') \<and>
     page_bytes vm' = page_bytes vm"
proof -
  from demo_user obtain vm s where d: "vm_reach vm" "regs_ok vm" "spaces vm (curSpace vm) = Some s" "numPages s = 9"
    "marked (swapMap vm) \<noteq> {..<4096}" "dirty_ok vm" by blast
  from copyin_reads_user_memory [OF d(1-3), of 5 130 0 "\<lambda>_ _. 0"] d(4-6) show ?thesis
    by (intro exI [of _ vm]) simp
qed

theorem copyout_gives_up_on_fault_witness:
  "\<exists>vm. if mapped vm 1 then \<exists>vm'. copyout (\<lambda>_. 0) 130 [1, 2] vm = Inr (2, vm')
     else \<exists>vm1 vm2. copyout (\<lambda>_. 0) 130 [1, 2] vm = Inr (- 1, vm1) \<and> copyout (\<lambda>_. 0) 130 [1, 2] vm1 = Inr (2, vm2)"
proof -
  from demo_user obtain vm s where d: "vm_reach vm" "regs_ok vm" "spaces vm (curSpace vm) = Some s" "numPages s = 9"
    "marked (swapMap vm) \<noteq> {..<4096}" by blast
  from copyout_gives_up_on_fault [OF d(1-3), of "[1, 2]" 130 "\<lambda>_. 0" "\<lambda>_. 0"] d(4,5) show ?thesis
    by (intro exI [of _ vm]) (auto split: if_splits)
qed

end
