(* ===== verification/File_Calls.thy ===== *)
theory File_Calls
  imports User_Memory
begin

text \<open>
  The system calls on files (\<^verbatim>\<open>userprog/exception.cc\<close>), in the kernel built on UNIX files
  (\<^verbatim>\<open>FILESYS_STUB\<close>, the configuration of \<^verbatim>\<open>vm/\<close> and \<^verbatim>\<open>network/\<close>): names and data are copied between user memory and kernel
  buffers, open files are objects that the table of the address space points to.
\<close>

section \<open>State\<close>

text \<open>
  A UNIX file is named by its path; nothing the system calls do removes a file. \<open>ofiles\<close> are the live
  \<^verbatim>\<open>OpenFile\<close> objects, \<open>nextFile\<close> the address of the next one; \<open>keyboard\<close> are the words that \<^verbatim>\<open>scanf\<close> will
  read, \<open>screen\<close> what was printed.
\<close>

record UFile =
  ufile :: "8 word list"
  currentOffset :: nat

record Sys =
  vmem :: VM
  unixFiles :: "8 word list \<Rightarrow> 8 word list option"
  ofiles :: "nat \<Rightarrow> UFile option"
  nextFile :: nat
  keyboard :: "8 word list list"
  screen :: "8 word list"

abbreviation (input) ConsoleInput :: int where "ConsoleInput \<equiv> 0"
abbreviation (input) ConsoleOutput :: int where "ConsoleOutput \<equiv> 1"

section \<open>Files\<close>

text \<open>\<open>creatable\<close> says for which names UNIX can create or truncate a file; otherwise \<^verbatim>\<open>OpenForWrite\<close> aborts.\<close>

definition stub_Create :: "(8 word list \<Rightarrow> bool) \<Rightarrow> 8 word list \<Rightarrow> Sys \<Rightarrow> Sys res" where
  "stub_Create creatable name S =
     (if creatable name then Inr (S\<lparr>unixFiles := (unixFiles S)(name \<mapsto> [])\<rparr>) else Inl AssertionFailed)"

definition stub_Open :: "8 word list \<Rightarrow> Sys \<Rightarrow> nat option \<times> Sys" where
  "stub_Open name S = (case unixFiles S name of
     None \<Rightarrow> (None, S)
   | Some _ \<Rightarrow> (Some (nextFile S),
        S\<lparr>ofiles := (ofiles S)(nextFile S \<mapsto> \<lparr>ufile = name, currentOffset = 0\<rparr>), nextFile := nextFile S + 1\<rparr>))"

definition get_ofile :: "nat \<Rightarrow> Sys \<Rightarrow> UFile res" where
  "get_ofile f S = (case ofiles S f of None \<Rightarrow> Inl UseAfterFree | Some u \<Rightarrow> Inr u)"

definition get_content :: "UFile \<Rightarrow> Sys \<Rightarrow> 8 word list res" where
  "get_content u S = (case unixFiles S (ufile u) of None \<Rightarrow> Inl AssertionFailed | Some c \<Rightarrow> Inr c)"

definition stub_Read :: "nat \<Rightarrow> nat \<Rightarrow> Sys \<Rightarrow> (8 word list \<times> Sys) res" where
  "stub_Read f numBytes S =
     bindR (get_ofile f S) (\<lambda>u.
     bindR (get_content u S) (\<lambda>c.
     let bs = uReadAt c numBytes (currentOffset u) in
     Inr (bs, S\<lparr>ofiles := (ofiles S)(f \<mapsto> u\<lparr>currentOffset := currentOffset u + length bs\<rparr>)\<rparr>)))"

text \<open>A write of no bytes leaves the file as it is, also when the offset is behind its end.\<close>

definition stub_Write :: "nat \<Rightarrow> 8 word list \<Rightarrow> Sys \<Rightarrow> Sys res" where
  "stub_Write f bs S =
     bindR (get_ofile f S) (\<lambda>u.
     bindR (get_content u S) (\<lambda>c.
     Inr (S\<lparr>unixFiles := (unixFiles S)(ufile u \<mapsto> (if bs = [] then c else uWriteAt c bs (currentOffset u))),
            ofiles := (ofiles S)(f \<mapsto> u\<lparr>currentOffset := currentOffset u + length bs\<rparr>)\<rparr>)))"

definition delete_OpenFile :: "nat \<Rightarrow> Sys \<Rightarrow> Sys res" where
  "delete_OpenFile f S = bindR (get_ofile f S) (\<lambda>_. Inr (S\<lparr>ofiles := (ofiles S)(f := None)\<rparr>))"

section \<open>System calls\<close>

text \<open>
  \<^verbatim>\<open>new char[n]\<close> with a negative \<^verbatim>\<open>n\<close> throws an exception that nothing catches. \<open>fuel\<close> and \<open>rnd\<close> are the
  arguments of \<open>copyin\<close>.
\<close>

definition new_buffer :: "int \<Rightarrow> unit res" where
  "new_buffer n = (if n < 0 then Inl AssertionFailed else Inr ())"

definition read_user :: "nat \<Rightarrow> (nat \<Rightarrow> nat \<Rightarrow> nat) \<Rightarrow> 32 word \<Rightarrow> int \<Rightarrow> Sys \<Rightarrow> (int \<times> 8 word list \<times> Sys) res" where
  "read_user fuel rnd vaddr len S =
     bindR (copyin fuel rnd vaddr len (vmem S)) (\<lambda>(r, bs, vm1). Inr (r, bs, S\<lparr>vmem := vm1\<rparr>))"

definition Create_Syscall ::
  "nat \<Rightarrow> (nat \<Rightarrow> nat \<Rightarrow> nat) \<Rightarrow> (8 word list \<Rightarrow> bool) \<Rightarrow> 32 word \<Rightarrow> int \<Rightarrow> Sys \<Rightarrow> Sys res" where
  "Create_Syscall fuel rnd creatable vaddr len S =
     bindR (new_buffer (len + 1)) (\<lambda>_.
     bindR (read_user fuel rnd vaddr len S) (\<lambda>(r, buf, S1).
       if r = -1 then Inr S1 else stub_Create creatable (cstr buf) S1))"

text \<open>The open file table of the running process.\<close>

definition cur_table :: "Sys \<Rightarrow> nat Table res" where
  "cur_table S = bindR (get_space (curSpace (vmem S)) (vmem S)) (\<lambda>s. Inr (fileTable s))"

definition set_table :: "nat Table \<Rightarrow> Sys \<Rightarrow> Sys res" where
  "set_table t S = bindR (get_space (curSpace (vmem S)) (vmem S)) (\<lambda>s.
     Inr (S\<lparr>vmem := put_space (curSpace (vmem S)) (s\<lparr>fileTable := t\<rparr>) (vmem S)\<rparr>))"

definition Open_Syscall :: "nat \<Rightarrow> (nat \<Rightarrow> nat \<Rightarrow> nat) \<Rightarrow> 32 word \<Rightarrow> int \<Rightarrow> Sys \<Rightarrow> (int \<times> Sys) res" where
  "Open_Syscall fuel rnd vaddr len S =
     bindR (new_buffer (len + 1)) (\<lambda>_.
     bindR (read_user fuel rnd vaddr len S) (\<lambda>(r, buf, S1).
       if r = -1 then Inr (-1, S1)
       else case stub_Open (cstr buf) S1 of
              (None, S2) \<Rightarrow> Inr (-1, S2)
            | (Some f, S2) \<Rightarrow>
                bindR (cur_table S2) (\<lambda>t.
                bindR (Table_Put t (Some f)) (\<lambda>(i, t1).
                bindR (set_table t1 S2) (\<lambda>S3.
                if i = -1 then bindR (delete_OpenFile f S3) (\<lambda>S4. Inr (i, S4)) else Inr (i, S3))))))"

definition Write_Syscall :: "nat \<Rightarrow> (nat \<Rightarrow> nat \<Rightarrow> nat) \<Rightarrow> 32 word \<Rightarrow> int \<Rightarrow> int \<Rightarrow> Sys \<Rightarrow> Sys res" where
  "Write_Syscall fuel rnd vaddr len i S =
     (if i = ConsoleInput then Inr S
      else bindR (new_buffer len) (\<lambda>_.
           bindR (read_user fuel rnd vaddr len S) (\<lambda>(r, buf, S1).
             if r = -1 then Inr S1
             else if i = ConsoleOutput then Inr (S1\<lparr>screen := screen S1 @ buf\<rparr>)
             else bindR (cur_table S1) (\<lambda>t.
                  bindR (Table_Get t i) (\<lambda>fo. case fo of
                    Some f \<Rightarrow> stub_Write f buf S1
                  | None \<Rightarrow> Inr S1)))))"

definition copy_back :: "(nat \<Rightarrow> nat) \<Rightarrow> 32 word \<Rightarrow> 8 word list \<Rightarrow> Sys \<Rightarrow> Sys res" where
  "copy_back rnd vaddr buf S = bindR (copyout rnd vaddr buf (vmem S)) (\<lambda>(_, vm1). Inr (S\<lparr>vmem := vm1\<rparr>))"

text \<open>
  \<open>junk\<close> is the content of the new buffer. \<^verbatim>\<open>scanf\<close> stores the word and a terminating zero without looking at
  the size of the buffer; with no word left it stores nothing.
\<close>

definition Read_Syscall :: "(nat \<Rightarrow> nat) \<Rightarrow> 8 word list \<Rightarrow> 32 word \<Rightarrow> int \<Rightarrow> int \<Rightarrow> Sys \<Rightarrow> (int \<times> Sys) res" where
  "Read_Syscall rnd junk vaddr len i S =
     (if i = ConsoleOutput then Inr (-1, S)
      else bindR (new_buffer len) (\<lambda>_.
        let n = nat len in
        if i = ConsoleInput
        then case keyboard S of
               [] \<Rightarrow> bindR (copy_back rnd vaddr (take n junk) S) (\<lambda>S1. Inr (len, S1))
             | w # ws \<Rightarrow>
                 if length w + 1 \<le> n
                 then bindR (copy_back rnd vaddr (w @ [0] @ drop (length w + 1) (take n junk)) (S\<lparr>keyboard := ws\<rparr>)) (\<lambda>S1. Inr (len, S1))
                 else Inl OutOfBounds
        else bindR (cur_table S) (\<lambda>t.
             bindR (Table_Get t i) (\<lambda>fo. case fo of
               Some f \<Rightarrow> bindR (stub_Read f n S) (\<lambda>(bs, S1).
                 if bs \<noteq> [] then bindR (copy_back rnd vaddr bs S1) (\<lambda>S2. Inr (int (length bs), S2))
                 else Inr (0, S1))
             | None \<Rightarrow> Inr (-1, S)))))"

definition Close_Syscall :: "int \<Rightarrow> Sys \<Rightarrow> Sys res" where
  "Close_Syscall fd S =
     bindR (cur_table S) (\<lambda>t.
     bindR (Table_Remove t fd) (\<lambda>(fo, t1).
     bindR (set_table t1 S) (\<lambda>S1. case fo of
       Some f \<Rightarrow> delete_OpenFile f S1
     | None \<Rightarrow> Inr S1)))"

text \<open>\<^verbatim>\<open>Print_Syscall\<close> ignores the result of \<^verbatim>\<open>copyin\<close>; what it prints ends at the first zero.\<close>

definition Print_Syscall :: "nat \<Rightarrow> (nat \<Rightarrow> nat \<Rightarrow> nat) \<Rightarrow> 32 word \<Rightarrow> int \<Rightarrow> Sys \<Rightarrow> Sys res" where
  "Print_Syscall fuel rnd vaddr len S =
     bindR (new_buffer (len + 1)) (\<lambda>_.
     bindR (read_user fuel rnd vaddr len S) (\<lambda>(_, buf, S1).
       if len < 0 then Inl OutOfBounds else Inr (S1\<lparr>screen := screen S1 @ cstr buf\<rparr>)))"

section \<open>What page faults leave alone\<close>

definition tables :: "VM \<Rightarrow> nat \<Rightarrow> nat Table option" where
  "tables vm a = map_option fileTable (spaces vm a)"

definition files_view :: "VM \<Rightarrow> nat \<times> (nat \<Rightarrow> nat Table option)" where
  "files_view vm = (curSpace vm, tables vm)"

text \<open>What no page fault changes: the running process, and of each address space its table and its size.\<close>

definition space_view :: "VM \<Rightarrow> nat \<times> (nat \<Rightarrow> (nat Table \<times> nat \<times> nat list) option)" where
  "space_view vm = (curSpace vm, \<lambda>a. map_option (\<lambda>s. (fileTable s, numPages s, numPageQueue s)) (spaces vm a))"

lemma view_upd_page: "upd_page a v g vm = Inr vm' \<Longrightarrow> space_view vm' = space_view vm"
  by (auto simp: upd_page_def bindR_eq_Inr_iff get_space_def put_space_def space_view_def fun_eq_iff split: if_splits option.splits)

lemma view_upd_IPT: "upd_IPT p g vm = Inr vm' \<Longrightarrow> space_view vm' = space_view vm"
  by (auto simp: upd_IPT_def space_view_def split: if_splits)

lemma view_simps [simp]:
  "space_view (put_tlb t vm) = space_view vm" "space_view (load_frame p bs vm) = space_view vm" "space_view (vm\<lparr>mach := m\<rparr>) = space_view vm"
  "space_view (vm\<lparr>frameMap := fm\<rparr>) = space_view vm" "space_view (vm\<lparr>swapMap := sm\<rparr>) = space_view vm" "space_view (vm\<lparr>swapFile := sf\<rparr>) = space_view vm"
  "space_view (vm\<lparr>currentTLB := k\<rparr>) = space_view vm" "space_view (vm\<lparr>currentIPT := k\<rparr>) = space_view vm"
  by (simp_all add: space_view_def fun_eq_iff put_tlb_def load_frame_def)

lemma view_flush: "flush_loop p is vm = Inr vm' \<Longrightarrow> space_view vm' = space_view vm"
proof (induction "is" arbitrary: vm)
  case (Cons i "is")
  then show ?case by (auto simp: bindR_eq_Inr_iff split: if_splits dest!: view_upd_IPT)
qed simp

lemma view_HandleMemoryFull: "HandleMemoryFull rnd vm = Inr (p, vm') \<Longrightarrow> space_view vm' = space_view vm"
  unfolding HandleMemoryFull_def victim_def swappedPage_def evictedPage_def
  by (auto simp: bindR_eq_Inr_iff Let_def split: if_splits dest!: view_upd_page view_flush)

lemma view_IPTMiss: "IPTMiss a v p vm = Inr vm' \<Longrightarrow> space_view vm' = space_view vm"
  unfolding IPTMiss_def by (auto simp: bindR_eq_Inr_iff Let_def split: if_splits dest!: view_upd_page view_upd_IPT)

lemma view_HandleIPTMiss: "HandleIPTMiss rnd v vm = Inr (p, vm') \<Longrightarrow> space_view vm' = space_view vm"
  unfolding HandleIPTMiss_def by (auto simp: bindR_eq_Inr_iff split: if_splits dest!: view_HandleMemoryFull view_IPTMiss)

lemma view_updateTLB: "updateTLB p vm = Inr vm' \<Longrightarrow> space_view vm' = space_view vm"
  unfolding updateTLB_def by (auto simp: bindR_eq_Inr_iff Let_def split: if_splits dest!: view_upd_IPT)

lemma view_HandlePageFault: "HandlePageFault rnd vm = Inr vm' \<Longrightarrow> space_view vm' = space_view vm"
  unfolding HandlePageFault_def
  by (auto simp: bindR_eq_Inr_iff Let_def split: option.splits dest!: view_HandleIPTMiss view_updateTLB)

lemma view_RaiseException: "vm_RaiseException rnd ex w vm = Inr vm' \<Longrightarrow> space_view vm' = space_view vm"
  unfolding vm_RaiseException_def memory_exception_def
  by (auto simp: bindR_eq_Inr_iff split: if_splits dest!: view_HandlePageFault)

lemma view_access:
  "vm_ReadMem rnd w sz vm = Inr (x, vm') \<Longrightarrow> space_view vm' = space_view vm"
  "vm_WriteMem rnd w sz v vm = Inr (y, vm') \<Longrightarrow> space_view vm' = space_view vm"
  unfolding vm_ReadMem_def vm_WriteMem_def
  by (auto simp: bindR_eq_Inr_iff split: if_splits dest!: view_RaiseException)

lemma view_copyin_byte: "copyin_byte k rnd w vm = Inr (x, vm') \<Longrightarrow> space_view vm' = space_view vm"
proof (induction k arbitrary: vm)
  case (Suc k)
  then obtain r vm1 where r: "vm_ReadMem (rnd k) w 1 vm = Inr (r, vm1)" by (auto simp: bindR_eq_Inr_iff)
  with Suc view_access(1) [OF r] show ?case by (cases r) auto
qed simp

lemma view_copyin_loop: "copyin_loop k rnd w n vm = Inr (bs, vm') \<Longrightarrow> space_view vm' = space_view vm"
proof (induction n arbitrary: w vm bs)
  case (Suc n)
  then show ?case by (fastforce simp: bindR_eq_Inr_iff dest: view_copyin_byte)
qed simp

lemma view_copyin: "copyin k rnd w len vm = Inr (r, bs, vm') \<Longrightarrow> space_view vm' = space_view vm"
  by (auto simp: copyin_def bindR_eq_Inr_iff dest: view_copyin_loop)

lemma view_copyout: "copyout rnd w buf vm = Inr (r, vm') \<Longrightarrow> space_view vm' = space_view vm"
proof -
  have "copyout_loop rnd w buf vm = Inr (ok, vm') \<Longrightarrow> space_view vm' = space_view vm" for ok
    by (induction buf arbitrary: w vm) (auto simp: bindR_eq_Inr_iff split: if_splits dest!: view_access)
  then show "copyout rnd w buf vm = Inr (r, vm') \<Longrightarrow> space_view vm' = space_view vm"
    by (auto simp: copyout_def bindR_eq_Inr_iff)
qed

end
