(* ===== verification/File_Props.thy ===== *)
theory File_Props
  imports File_Calls
begin

text \<open>
  What the system calls on files guarantee: in every reachable state a handle refers to an open file that
  no other handle refers to, so no call uses or deletes a file that was deleted before, and a call
  can only fail in its access to user memory; and what one call writes another reads.
\<close>

section \<open>The invariant\<close>






lemma view_tables: "space_view vm' = space_view vm \<Longrightarrow> tables vm' = tables vm \<and> curSpace vm' = curSpace vm"
proof -
  assume v: "space_view vm' = space_view vm"
  have "tables vm a = map_option fst (snd (space_view vm) a)" for vm a
    by (simp add: tables_def space_view_def option.map_comp comp_def)
  then show ?thesis using v by (auto simp: fun_eq_iff space_view_def)
qed



section \<open>Each call\<close>















section \<open>Reachable states\<close>








text \<open>After \<open>copyin\<close> the running process has its pages and its table as before.\<close>

lemma copyin_space:
  assumes "copyin k rnd w len vm = Inr (r, bs, vm1)" "same_spaces vm vm1" "spaces vm (curSpace vm) = Some s"
  shows "\<exists>s1. spaces vm1 (curSpace vm1) = Some s1 \<and> numPages s1 = numPages s \<and> fileTable s1 = fileTable s \<and> curSpace vm1 = curSpace vm"
proof -
  note v = view_tables [OF view_copyin [OF assms(1)]]
  then have "map_option fileTable (spaces vm1 (curSpace vm)) = Some (fileTable s)" using assms(3) by (metis tables_def option.map(2))
  moreover have "map_option numPages (spaces vm1 (curSpace vm)) = Some (numPages s)" using assms(2,3) by (simp add: same_spaces_def)
  ultimately show ?thesis using v by auto
qed

lemma Write_page:
  assumes vm: "vm_reach (vmem S)" "regs_ok (vmem S)" "spaces (vmem S) (curSpace (vmem S)) = Some s" "dirty_ok (vmem S)"
    and src: "0 < len" "unat w + nat len \<le> numPages s * PageSize" "unat w mod PageSize + nat len \<le> PageSize"
    and h: "Table_Get (fileTable s) i = Inr (Some f)" "i \<noteq> 0" "i \<noteq> 1"
    and fl: "ofiles S f = Some u" "unixFiles S (ufile u) = Some c" and room: "marked (swapMap (vmem S)) \<noteq> {..<SwapPages}"
  shows "\<exists>S1 s1 bs buf. Write_Syscall (Suc (Suc k)) rnd w len i S = Inr S1 \<and> page_bytes (vmem S) (curSpace (vmem S)) (unat w div PageSize) = Some bs \<and>
    buf = take (nat len) (drop (unat w mod PageSize) bs) \<and> length buf = nat len \<and>
    unixFiles S1 = (unixFiles S)(ufile u \<mapsto> uWriteAt c buf (currentOffset u)) \<and>
    ofiles S1 = (ofiles S)(f \<mapsto> u\<lparr>currentOffset := currentOffset u + nat len\<rparr>) \<and>
    vm_reach (vmem S1) \<and> regs_ok (vmem S1) \<and> page_bytes (vmem S1) = page_bytes (vmem S) \<and> curSpace (vmem S1) = curSpace (vmem S) \<and>
    spaces (vmem S1) (curSpace (vmem S1)) = Some s1 \<and> numPages s1 = numPages s \<and> fileTable s1 = fileTable s \<and>
    mapped (vmem S1) (unat w div PageSize)"
proof -
  have l0: "0 \<le> len" using src(1) by simp
  from copyin_page [OF vm(1-3) l0 src(2) vm(4) src(3,1) room, of k rnd] obtain bs vm1 where
    c: "page_bytes (vmem S) (curSpace (vmem S)) (unat w div PageSize) = Some bs"
      "copyin (Suc (Suc k)) rnd w len (vmem S) = Inr (len, take (nat len) (drop (unat w mod PageSize) bs), vm1)"
      "page_bytes vm1 = page_bytes (vmem S)" "mapped vm1 (unat w div PageSize)" by blast
  from copyin_any [OF vm(1-3) l0 src(2), of k rnd] c(2) have
    a: "length (take (nat len) (drop (unat w mod PageSize) bs)) = nat len" "vm_reach vm1" "regs_ok vm1" "same_spaces (vmem S) vm1" by auto
  from copyin_space [OF c(2) a(4) vm(3)] obtain s1 where
    s1: "spaces vm1 (curSpace vm1) = Some s1" "numPages s1 = numPages s" "fileTable s1 = fileTable s" "curSpace vm1 = curSpace (vmem S)" by blast
  let ?buf = "take (nat len) (drop (unat w mod PageSize) bs)"
  let ?S1 = "S\<lparr>vmem := vm1, unixFiles := (unixFiles S)(ufile u \<mapsto> uWriteAt c ?buf (currentOffset u)),
    ofiles := (ofiles S)(f \<mapsto> u\<lparr>currentOffset := currentOffset u + length ?buf\<rparr>)\<rparr>"
  have ne: "?buf \<noteq> []" using a(1) src(1) by auto
  have "cur_table (S\<lparr>vmem := vm1\<rparr>) = Inr (fileTable s)" using s1 by (simp add: cur_table_def get_space_def)
  then have "Write_Syscall (Suc (Suc k)) rnd w len i S = Inr ?S1"
    using h src(1) c(2) ne fl
    by (simp add: Write_Syscall_def new_buffer_def read_user_def stub_Write_def get_ofile_def get_content_def del: copyin_loop.simps)
  then show ?thesis using c a s1 by (intro exI [of _ ?S1] exI [of _ s1] exI [of _ bs] exI [of _ ?buf]) simp
qed

section \<open>Properties\<close>


text \<open>
  C16: what is written to a file is read from it. In a run as described at \<open>vm_step\<close>, with room in the swap file and no dirty bit
  lost: if two handles of a process are open on one file at the same offset, and the process writes a buffer that lies
  within a page through the first, then a read of as many bytes through the second, to a place that lies within a page, returns
  their number and the bytes of the buffer arrive there, in no other place, provided the TLB maps the destination when the read
  begins (as it does in the page of the buffer itself). If it does not and there still is room in the swap file, nothing arrives,
  and the number returned is the same.
\<close>

theorem written_bytes_are_read:
  assumes vm: "vm_reach (vmem S)" "regs_ok (vmem S)" "spaces (vmem S) (curSpace (vmem S)) = Some s" "dirty_ok (vmem S)"
    and src: "0 < len" "unat w + nat len \<le> numPages s * PageSize" "unat w mod PageSize + nat len \<le> PageSize"
    and dst: "unat w' div PageSize < numPages s" "unat w' mod PageSize + nat len \<le> PageSize"
    and h: "Table_Get (fileTable s) i = Inr (Some f)" "i \<noteq> 0" "i \<noteq> 1" "Table_Get (fileTable s) j = Inr (Some g)" "j \<noteq> 0" "j \<noteq> 1" "f \<noteq> g"
    and fl: "ofiles S f = Some u" "ofiles S g = Some u" "unixFiles S (ufile u) = Some c"
    and room: "marked (swapMap (vmem S)) \<noteq> {..<SwapPages}"
  shows "\<exists>S1 bs. Write_Syscall (Suc (Suc k)) rnd w len i S = Inr S1 \<and> page_bytes (vmem S) (curSpace (vmem S)) (unat w div PageSize) = Some bs \<and>
    mapped (vmem S1) (unat w div PageSize) \<and>
    (mapped (vmem S1) (unat w' div PageSize) \<longrightarrow>
      (\<exists>S2. Read_Syscall rnd' junk w' len j S1 = Inr (len, S2) \<and>
         page_bytes (vmem S2) = put_range (curSpace (vmem S)) (unat w' div PageSize) (unat w' mod PageSize)
                (take (nat len) (drop (unat w mod PageSize) bs)) (page_bytes (vmem S)))) \<and>
    (\<not> mapped (vmem S1) (unat w' div PageSize) \<longrightarrow> marked (swapMap (vmem S1)) \<noteq> {..<SwapPages} \<longrightarrow>
      (\<exists>S2. Read_Syscall rnd' junk w' len j S1 = Inr (len, S2) \<and>
         (dirty_ok (vmem S1) \<longrightarrow> page_bytes (vmem S2) = page_bytes (vmem S))))"
proof -
  from Write_page [OF vm src h(1-3) fl(1,3) room, of k rnd] obtain S1 s1 bs buf where
    w: "Write_Syscall (Suc (Suc k)) rnd w len i S = Inr S1" "page_bytes (vmem S) (curSpace (vmem S)) (unat w div PageSize) = Some bs"
      "buf = take (nat len) (drop (unat w mod PageSize) bs)" "length buf = nat len"
      "unixFiles S1 = (unixFiles S)(ufile u \<mapsto> uWriteAt c buf (currentOffset u))"
      "ofiles S1 = (ofiles S)(f \<mapsto> u\<lparr>currentOffset := currentOffset u + nat len\<rparr>)"
      "vm_reach (vmem S1)" "regs_ok (vmem S1)" "page_bytes (vmem S1) = page_bytes (vmem S)" "curSpace (vmem S1) = curSpace (vmem S)"
      "spaces (vmem S1) (curSpace (vmem S1)) = Some s1" "numPages s1 = numPages s" "fileTable s1 = fileTable s"
      "mapped (vmem S1) (unat w div PageSize)" by blast
  have ne: "buf \<noteq> []" using w(4) src(1) by auto
  let ?T = "S1\<lparr>ofiles := (ofiles S1)(g \<mapsto> u\<lparr>currentOffset := currentOffset u + nat len\<rparr>)\<rparr>"
  have rd: "stub_Read g (nat len) S1 = Inr (buf, ?T)"
    using w(4-6) fl(2) h(7) read_swapped [OF w(4), of c "currentOffset u"]
    by (simp add: stub_Read_def get_ofile_def get_content_def Let_def)
  have e: "Read_Syscall rnd' junk w' len j S1 = bindR (copyout rnd' w' buf (vmem S1)) (\<lambda>(_, vm1). Inr (len, ?T\<lparr>vmem := vm1\<rparr>))"
    using h(4-6) w(4,11,13) src(1) rd ne
    by (simp add: Read_Syscall_def new_buffer_def cur_table_def get_space_def copy_back_def bindR_assoc Let_def case_prod_unfold)
  have d: "unat w' mod PageSize + length buf \<le> PageSize" "unat w' div PageSize < numPages s1" using dst w(4,12) by simp_all
  have "\<exists>S2. Read_Syscall rnd' junk w' len j S1 = Inr (len, S2) \<and>
      page_bytes (vmem S2) = put_range (curSpace (vmem S)) (unat w' div PageSize) (unat w' mod PageSize) buf (page_bytes (vmem S))"
    if "mapped (vmem S1) (unat w' div PageSize)"
    using copyout_page [OF w(7) ne d(1) that, of rnd'] e w(9,10) by auto
  moreover have "\<exists>S2. Read_Syscall rnd' junk w' len j S1 = Inr (len, S2) \<and> (dirty_ok (vmem S1) \<longrightarrow> page_bytes (vmem S2) = page_bytes (vmem S))"
    if "\<not> mapped (vmem S1) (unat w' div PageSize)" "marked (swapMap (vmem S1)) \<noteq> {..<SwapPages}"
    using copyout_miss [OF w(7,8,11) ne d(2) that, of rnd'] e w(9) by auto
  ultimately show ?thesis using w(1-3,14) by blast
qed

section \<open>Example states\<close>


text \<open>A process with two handles on one empty file.\<close>

lemma two_handles: "\<exists>(t :: nat Table) i j. Table_Get t i = Inr (Some 0) \<and> Table_Get t j = Inr (Some 1) \<and> i \<noteq> 0 \<and> i \<noteq> 1 \<and> j \<noteq> 0 \<and> j \<noteq> 1"
proof -
  from new_fileTable_ok [of "replicate 8 0" "replicate 256 None"] obtain t :: "nat Table" where
    t: "table_inv t" "tsize t = 256" "handles t = [0 \<mapsto> None, 1 \<mapsto> None]" by auto
  have "5 \<notin> dom (handles t)" "5 \<in> {0..<int (tsize t)}" "6 \<notin> dom (handles t)" "6 \<in> {0..<int (tsize t)}" using t by auto
  then have "dom (handles t) \<noteq> {0..<int (tsize t)}" by blast
  from files.put_free [OF t(1) this, of "Some 0"] obtain i t1 where
    p: "handles t i = None" "table_inv t1" "tsize t1 = 256" "handles t1 = (handles t)(i \<mapsto> Some 0)" using t(2) by auto
  have "dom (handles t1) \<noteq> {0..<int (tsize t1)}"
  proof
    assume "dom (handles t1) = {0..<int (tsize t1)}"
    then have "5 \<in> dom (handles t1)" "6 \<in> dom (handles t1)" using p(3) by auto
    then show False using t(3) p(4) by (auto split: if_splits)
  qed
  from files.put_free [OF p(2) this, of "Some 1"] obtain j t2 where
    q: "handles t1 j = None" "table_inv t2" "handles t2 = (handles t1)(j \<mapsto> Some 1)" by auto
  have "i \<noteq> j" "i \<noteq> 0" "i \<noteq> 1" "j \<noteq> 0" "j \<noteq> 1" using p q(1) t(3) by (auto split: if_splits)
  then show ?thesis using files.get_ok [OF q(2)] q(3) p(4) by (intro exI [of _ t2] exI [of _ i] exI [of _ j]) simp
qed

lemma dirty_ok_table:
  assumes "dirty_ok vm" "spaces vm a = Some s"
  shows "dirty_ok (put_space a (s\<lparr>fileTable := t\<rparr>) vm)"
proof -
  let ?vm = "put_space a (s\<lparr>fileTable := t\<rparr>) vm"
  have r: "resident ?vm = resident vm" by (rule resident_cong) (simp add: put_space_def)
  have f: "IPT ?vm = IPT vm" "mach ?vm = mach vm" "frame_bytes p ?vm = frame_bytes p vm" for p
    by (simp_all add: put_space_def frame_bytes_def)
  have sb: "src_bytes (s\<lparr>fileTable := t\<rparr>) pg ?vm = src_bytes s pg vm" "src_bytes s' pg ?vm = src_bytes s' pg vm" for s' pg
    by (simp_all add: src_bytes_def page_source_def put_space_def)
  show ?thesis unfolding dirty_ok_def r f
  proof (intro allI impI)
    fix b s1 v p tl
    assume h: "spaces ?vm b = Some s1" "v < numPages s1" "resident vm b v p" "tlb (mach vm) = Some tl"
      "\<not> flushed_dirty p tl (dirty (ientry (IPT vm ! p)))"
    show "frame_bytes p vm = src_bytes s1 (pages s1 ! v) ?vm"
    proof (cases "b = a")
      case True
      then have "s1 = s\<lparr>fileTable := t\<rparr>" using h(1) by (simp add: put_space_def)
      then show ?thesis using assms h(2-5) sb(1) True unfolding dirty_ok_def by simp
    next
      case False
      then show ?thesis using assms(1) h sb(2) unfolding dirty_ok_def by (simp add: put_space_def)
    qed
  qed
qed

theorem written_bytes_are_read_witness:
  "\<exists>S S1 S2 bs i j. Write_Syscall (Suc (Suc 0)) (\<lambda>_ _. 0) 130 5 i S = Inr S1 \<and> page_bytes (vmem S) (curSpace (vmem S)) 1 = Some bs \<and>
     Read_Syscall (\<lambda>_. 0) [] 200 5 j S1 = Inr (5, S2) \<and>
     page_bytes (vmem S2) = put_range (curSpace (vmem S)) 1 72 (take 5 (drop 2 bs)) (page_bytes (vmem S))"
proof -
  from demo_user obtain vm s where d: "vm_reach vm" "regs_ok vm" "spaces vm (curSpace vm) = Some s" "numPages s = 9"
    "marked (swapMap vm) \<noteq> {..<4096}" "dirty_ok vm" by blast
  from two_handles obtain t i j where t: "Table_Get t i = Inr (Some 0)" "Table_Get t j = Inr (Some (1 :: nat))" "i \<noteq> 0" "i \<noteq> 1" "j \<noteq> 0" "j \<noteq> 1"
    by blast
  let ?s = "s\<lparr>fileTable := t\<rparr>" and ?u = "\<lparr>ufile = [65], currentOffset = 0\<rparr>"
  let ?vm = "put_space (curSpace vm) ?s vm"
  let ?S = "\<lparr>vmem = ?vm, unixFiles = [[65] \<mapsto> []], ofiles = [0 \<mapsto> ?u, 1 \<mapsto> ?u], nextFile = 2, keyboard = [], screen = []\<rparr>"
  have "vm_reach ?vm" by (rule vm_reach.step [OF d(1) vm_step.table [OF d(3)]])
  moreover have "regs_ok ?vm" using d(2) by (simp add: regs_ok_def put_space_def)
  moreover have "spaces ?vm (curSpace ?vm) = Some ?s" by (simp add: put_space_def)
  moreover have "dirty_ok ?vm" by (rule dirty_ok_table [OF d(6,3)])
  moreover have "marked (swapMap ?vm) \<noteq> {..<4096}" using d(5) by (simp add: put_space_def)
  ultimately have "\<exists>S1 bs S2. Write_Syscall (Suc (Suc 0)) (\<lambda>_ _. 0) 130 5 i ?S = Inr S1 \<and>
    page_bytes (vmem ?S) (curSpace (vmem ?S)) 1 = Some bs \<and> Read_Syscall (\<lambda>_. 0) [] 200 5 j S1 = Inr (5, S2) \<and>
    page_bytes (vmem S2) = put_range (curSpace (vmem ?S)) 1 72 (take 5 (drop 2 bs)) (page_bytes (vmem ?S))"
    using written_bytes_are_read [of ?S ?s 5 130 200 i 0 j 1 ?u "[]" 0 "\<lambda>_ _. 0" "\<lambda>_. 0" "[]"] t d(4) by (simp; blast)
  then show ?thesis by blast
qed

end
