(* ===== verification/Processes.thy ===== *)
theory Processes
  imports File_Calls
begin

text \<open>
  Processes (\<^verbatim>\<open>StartProcess\<close> of \<^verbatim>\<open>userprog/progtest.cc\<close> and the system calls \<^verbatim>\<open>Exec\<close>, \<^verbatim>\<open>Fork\<close>, \<^verbatim>\<open>Exit\<close> of
  \<^verbatim>\<open>userprog/exception.cc\<close>): the process table with the threads of each process and their stacks.

  A call runs from the point where it gets \<^verbatim>\<open>processLock\<close>; the result \<open>None\<close> is a caller that has to wait for
  it. What a routine does before or between its waits for the lock is a part of its own (\<open>Exec_create\<close> and \<open>Exec_record\<close>,
  \<open>Fork_Thread_begin\<close> and \<open>Fork_Thread_enter\<close>), so that other threads may run between the parts. \<open>lockOwner\<close> is the thread that holds the lock after a call, which is nobody unless a call
  returns without releasing it. The tables of kernel locks and conditions, which \<^verbatim>\<open>Exit\<close> searches,
  are always empty: the code that filled them is commented out.
\<close>

section \<open>State\<close>

text \<open>
  A stack is named by the address where its thread starts it, an \<^verbatim>\<open>unsigned int\<close> computed from the number of pages of the
  address space when the stack was made.
\<close>

definition stack_of :: "nat \<Rightarrow> int" where
  "stack_of n = (int n * int PageSize - 16) mod 2 ^ 32"

record Process =
  p_space :: nat
  p_numThreads :: int
  p_stacks :: "(nat \<times> int) list"

datatype start = Exec_start | Fork_start "32 word"

text \<open>
  \<open>thrSpace\<close>, \<open>thrName\<close> and \<open>thrBox\<close> are the fields \<^verbatim>\<open>space\<close>, \<^verbatim>\<open>name\<close> and \<^verbatim>\<open>mailBox\<close> of the threads; \<open>forked\<close>
  are the threads that have been forked but have not run, with what they will run. \<open>newPairs\<close> are the pairs that \<^verbatim>\<open>Exec\<close> and
  \<^verbatim>\<open>Fork_Thread\<close> have made and not yet put into the process table: thread, its address space, its stack.
\<close>

record Kern =
  ksys :: Sys
  processTable :: "Process list"
  lockOwner :: "nat option"
  curThread :: nat
  thrSpace :: "nat \<Rightarrow> nat option"
  thrName :: "nat \<Rightarrow> 8 word list"
  thrBox :: "nat \<Rightarrow> int"
  nextThread :: nat
  numMailBox :: int
  forked :: "(nat \<times> start) list"
  newPairs :: "(nat \<times> nat \<times> int) list"

definition kvm :: "Kern \<Rightarrow> VM" where
  "kvm K = vmem (ksys K)"

definition set_kvm :: "VM \<Rightarrow> Kern \<Rightarrow> Kern" where
  "set_kvm vm K = K\<lparr>ksys := (ksys K)\<lparr>vmem := vm\<rparr>\<rparr>"

definition new_Process :: "nat \<Rightarrow> Process" where
  "new_Process a = \<lparr>p_space = a, p_numThreads = 1, p_stacks = []\<rparr>"

text \<open>\<^verbatim>\<open>processLock->Acquire()\<close> returns at once to its owner.\<close>

definition lock_free :: "Kern \<Rightarrow> bool" where
  "lock_free K \<longleftrightarrow> lockOwner K = None \<or> lockOwner K = Some (curThread K)"

text \<open>The loops that look for the process of an address space change the first that has it.\<close>

fun upd_process :: "nat \<Rightarrow> (Process \<Rightarrow> Process) \<Rightarrow> Process list \<Rightarrow> Process list" where
  "upd_process a g [] = []"
| "upd_process a g (p # ps) = (if p_space p = a then g p # ps else p # upd_process a g ps)"

definition push_stack :: "nat \<Rightarrow> int \<Rightarrow> Process \<Rightarrow> Process" where
  "push_stack t stack p = p\<lparr>p_stacks := p_stacks p @ [(t, stack)]\<rparr>"

text \<open>\<^verbatim>\<open>currentThread->space->...\<close>; a thread without an address space has a null pointer there.\<close>

definition cur_space :: "Kern \<Rightarrow> nat res" where
  "cur_space K = (case thrSpace K (curThread K) of None \<Rightarrow> Inl NullDeref | Some a \<Rightarrow> Inr a)"

section \<open>Starting the first process\<close>

text \<open>
  \<open>a\<close> is the address of the new address space; the bytes the constructor reads are those of the UNIX
  file. (\<open>big\<close> and the arguments after it are those of \<open>new_AddrSpace\<close>.)
\<close>

definition load_program ::
  "bool \<Rightarrow> (nat \<Rightarrow> 8 word) \<Rightarrow> (nat \<Rightarrow> PageTableEntry) \<Rightarrow> 32 word list \<Rightarrow> nat option list \<Rightarrow> nat \<Rightarrow> 8 word list \<Rightarrow> Sys \<Rightarrow>
     Sys option res" where
  "load_program big junk jp jw js a name S = (case unixFiles S name of
     None \<Rightarrow> Inr None
   | Some bytes \<Rightarrow> bindR (new_AddrSpace big junk jp jw js bytes) (\<lambda>s.
       Inr (Some ((snd (stub_Open name S))\<lparr>vmem := put_space a s (vmem S)\<rparr>))))"

definition StartProcess ::
  "bool \<Rightarrow> (nat \<Rightarrow> 8 word) \<Rightarrow> (nat \<Rightarrow> PageTableEntry) \<Rightarrow> 32 word list \<Rightarrow> nat option list \<Rightarrow> nat \<Rightarrow> 8 word list \<Rightarrow> Kern \<Rightarrow>
     Kern res" where
  "StartProcess big junk jp jw js a name K =
     bindR (load_program big junk jp jw js a name (ksys K)) (\<lambda>r. case r of
       None \<Rightarrow> Inr K
     | Some S1 \<Rightarrow>
         bindR (getNumPages a (vmem S1)) (\<lambda>(n, vm1).
         let p = push_stack (curThread K) (stack_of n) (new_Process a) in
         bindR (InitRegisters a (vm1\<lparr>curSpace := a\<rparr>)) (\<lambda>vm2.
         bindR (RestoreState a vm2) (\<lambda>vm3.
         Inr (K\<lparr>ksys := S1\<lparr>vmem := vm3\<rparr>, processTable := processTable K @ [p],
                thrSpace := (thrSpace K)(curThread K \<mapsto> a)\<rparr>)))))"

section \<open>System calls\<close>

text \<open>
  \<open>Exec_create\<close> is \<^verbatim>\<open>Exec_Syscall\<close> up to its second \<^verbatim>\<open>Acquire\<close>: it makes the process, the thread and the pair with its stack, and
  has released the lock (\<open>None\<close>: it has returned -1, with the lock held). \<open>Exec_record\<close> is the rest.
\<close>

definition Exec_create ::
  "nat \<Rightarrow> (nat \<Rightarrow> nat \<Rightarrow> nat) \<Rightarrow> bool \<Rightarrow> (nat \<Rightarrow> 8 word) \<Rightarrow> (nat \<Rightarrow> PageTableEntry) \<Rightarrow> 32 word list \<Rightarrow> nat option list \<Rightarrow> nat \<Rightarrow>
     32 word \<Rightarrow> int \<Rightarrow> Kern \<Rightarrow> ((nat \<times> nat \<times> int) option \<times> Kern) option res" where
  "Exec_create fuel rnd big junk jp jw js a vaddr len K =
     (if \<not> lock_free K then Inr None
      else let K0 = K\<lparr>lockOwner := Some (curThread K)\<rparr> in
        bindR (new_buffer (len + 1)) (\<lambda>_.
        bindR (read_user fuel rnd vaddr len (ksys K0)) (\<lambda>(r, buf, S1).
        if r = -1 then Inr (Some (None, K0\<lparr>ksys := S1\<rparr>))
        else bindR (load_program big junk jp jw js a (cstr buf) S1) (\<lambda>ex. case ex of
          None \<Rightarrow> Inr (Some (None, K0\<lparr>ksys := S1\<rparr>))
        | Some S2 \<Rightarrow>
            let t = nextThread K0 in
            bindR (getNumPages a (vmem S2)) (\<lambda>(n, vm1).
            let pair = (t, a, stack_of n) in
            Inr (Some (Some pair, K0\<lparr>ksys := S2\<lparr>vmem := vm1\<rparr>, lockOwner := None,
              processTable := processTable K0 @ [new_Process a],
              thrSpace := (thrSpace K0)(t \<mapsto> a), thrName := (thrName K0)(t := cstr buf),
              thrBox := (thrBox K0)(t := numMailBox K0), numMailBox := numMailBox K0 + 1, nextThread := t + 1,
              newPairs := newPairs K0 @ [pair]\<rparr>)))))))"

text \<open>\<open>record_pair\<close>: the loop under \<^verbatim>\<open>processLock\<close> that puts a pair into the process table, in \<^verbatim>\<open>Exec_Syscall\<close> and \<^verbatim>\<open>Fork_Thread\<close>.\<close>

definition record_pair :: "nat \<times> nat \<times> int \<Rightarrow> Kern \<Rightarrow> Kern option" where
  "record_pair pair K =
     (if \<not> lock_free K then None
      else case pair of (t, a, stack) \<Rightarrow>
        Some (K\<lparr>lockOwner := None, processTable := upd_process a (push_stack t stack) (processTable K),
          newPairs := remove1 pair (newPairs K)\<rparr>))"

definition Exec_record :: "nat \<times> nat \<times> int \<Rightarrow> Kern \<Rightarrow> Kern option" where
  "Exec_record pair K =
     (case record_pair pair K of None \<Rightarrow> None | Some K1 \<Rightarrow> Some (K1\<lparr>forked := forked K1 @ [(fst pair, Exec_start)]\<rparr>))"

text \<open>The whole call, when no other thread was waiting for the lock that \<^verbatim>\<open>Exec_create\<close> releases.\<close>

definition Exec_Syscall ::
  "nat \<Rightarrow> (nat \<Rightarrow> nat \<Rightarrow> nat) \<Rightarrow> bool \<Rightarrow> (nat \<Rightarrow> 8 word) \<Rightarrow> (nat \<Rightarrow> PageTableEntry) \<Rightarrow> 32 word list \<Rightarrow> nat option list \<Rightarrow> nat \<Rightarrow>
     32 word \<Rightarrow> int \<Rightarrow> Kern \<Rightarrow> (int \<times> Kern) option res" where
  "Exec_Syscall fuel rnd big junk jp jw js a vaddr len K =
     bindR (Exec_create fuel rnd big junk jp jw js a vaddr len K) (\<lambda>r. Inr (case r of
       None \<Rightarrow> None
     | Some (None, K1) \<Rightarrow> Some (-1, K1)
     | Some (Some pair, K1) \<Rightarrow> map_option (Pair 0) (Exec_record pair K1)))"

text \<open>
  \<^verbatim>\<open>Fork_Syscall\<close>: the new thread gets mail box 0, and \<open>junkPages\<close> is the uninitialised part of the new page
  table. A size below 0 makes it write in front of its buffer.
\<close>

definition Fork_Syscall ::
  "nat \<Rightarrow> (nat \<Rightarrow> nat \<Rightarrow> nat) \<Rightarrow> (nat \<Rightarrow> PageTableEntry) \<Rightarrow> 32 word \<Rightarrow> 32 word \<Rightarrow> int \<Rightarrow> int \<Rightarrow> Kern \<Rightarrow> Kern option res" where
  "Fork_Syscall fuel rnd junkPages addr vaddr len i K =
     (if \<not> lock_free K then Inr None
      else bindR (cur_space K) (\<lambda>a.
        let table = upd_process a (\<lambda>p. p\<lparr>p_numThreads := p_numThreads p + 1\<rparr>) (processTable K); t = nextThread K in
        bindR (new_buffer (len + 3)) (\<lambda>_.
        bindR (read_user fuel rnd vaddr len (ksys K)) (\<lambda>(_, buf, S1).
        if len < 0 then Inl OutOfBounds
        else bindR (allocateStack junkPages a (vmem S1)) (\<lambda>vm1.
        Inr (Some (K\<lparr>ksys := S1\<lparr>vmem := vm1\<rparr>, lockOwner := None, processTable := table,
          thrSpace := (thrSpace K)(t \<mapsto> a), thrName := (thrName K)(t := cstr (buf @ [32, word_of_int (i + 48), 0])),
          thrBox := (thrBox K)(t := 0), nextThread := t + 1,
          forked := forked K @ [(t, Fork_start addr)]\<rparr>)))))))"

text \<open>
  The routines a forked thread starts with, up to \<^verbatim>\<open>machine->Run()\<close>. The thread is the running one:
  \<open>curThread\<close> and \<open>curSpace\<close> were set by the context switch.
\<close>

definition Exec_Thread :: "Kern \<Rightarrow> Kern res" where
  "Exec_Thread K =
     bindR (cur_space K) (\<lambda>a.
     bindR (InitRegisters a (kvm K)) (\<lambda>vm1.
     bindR (RestoreState a vm1) (\<lambda>vm2. Inr (set_kvm vm2 K))))"

text \<open>
  \<^verbatim>\<open>Fork_Thread\<close> takes its stack before it waits for the lock; the first component of the result tells whether it got it and has
  gone on to run the program.
\<close>

definition Fork_Thread_begin :: "Kern \<Rightarrow> ((nat \<times> nat \<times> int) \<times> Kern) res" where
  "Fork_Thread_begin K =
     bindR (cur_space K) (\<lambda>a.
     bindR (getNumPages a (kvm K)) (\<lambda>(n, vm1).
     let pair = (curThread K, a, stack_of n) in
     Inr (pair, (set_kvm vm1 K)\<lparr>newPairs := newPairs K @ [pair]\<rparr>)))"

definition Fork_Thread_enter :: "32 word \<Rightarrow> nat \<times> nat \<times> int \<Rightarrow> Kern \<Rightarrow> Kern option res" where
  "Fork_Thread_enter vaddr pair K =
     (case record_pair pair K of None \<Rightarrow> Inr None
      | Some K1 \<Rightarrow>
          bindR (cur_space K1) (\<lambda>a.
          bindR (RestoreState a (kvm K1)) (\<lambda>vm2.
          bindR (WriteRegister (int PCReg) vaddr (mach vm2)) (\<lambda>m1.
          bindR (WriteRegister (int NextPCReg) (vaddr + 4) m1) (\<lambda>m2.
          bindR (WriteRegister (int StackReg) (word_of_int (snd (snd pair))) m2) (\<lambda>m3.
          Inr (Some (set_kvm (vm2\<lparr>mach := m3\<rparr>) K1))))))))"

definition Fork_Thread :: "32 word \<Rightarrow> Kern \<Rightarrow> (bool \<times> Kern) res" where
  "Fork_Thread vaddr K =
     bindR (Fork_Thread_begin K) (\<lambda>(pair, K1).
     bindR (Fork_Thread_enter vaddr pair K1) (\<lambda>r. Inr (case r of None \<Rightarrow> (False, K1) | Some K2 \<Rightarrow> (True, K2))))"

fun find_process :: "nat \<Rightarrow> nat \<Rightarrow> Process list \<Rightarrow> (nat \<times> Process) option" where
  "find_process a k [] = None"
| "find_process a k (p # ps) = (if p_space p = a then Some (k, p) else find_process a (Suc k) ps)"

fun find_stack :: "nat \<Rightarrow> nat \<Rightarrow> (nat \<times> int) list \<Rightarrow> (nat \<times> int) option" where
  "find_stack t k [] = None"
| "find_stack t k ((u, stack) # v) = (if u = t then Some (k, stack) else find_stack t (Suc k) v)"

definition erase :: "nat \<Rightarrow> 'a list \<Rightarrow> 'a list" where
  "erase i xs = take i xs @ drop (Suc i) xs"

text \<open>
  \<^verbatim>\<open>Exit_Syscall\<close>. \<^verbatim>\<open>myProcess\<close> and \<^verbatim>\<open>p\<close> are uninitialised if the loops find nothing. \<^verbatim>\<open>Finish\<close> takes the
  thread away.
\<close>

definition finish_thread :: "Kern \<Rightarrow> Kern" where
  "finish_thread K = K\<lparr>thrSpace := (thrSpace K)(curThread K := None)\<rparr>"

definition Exit_Syscall :: "Kern \<Rightarrow> Kern option res" where
  "Exit_Syscall K =
     (if \<not> lock_free K then Inr None
      else bindR (cur_space K) (\<lambda>a. case find_process a 0 (processTable K) of
        None \<Rightarrow> Inl Uninitialised
      | Some (myIndex, myProcess) \<Rightarrow>
          if p_numThreads myProcess > 1
          then case find_stack (curThread K) 0 (p_stacks myProcess) of
                 None \<Rightarrow> Inl Uninitialised
               | Some (threadIndex, stack) \<Rightarrow>
                   bindR (clearStack a (int32 stack) (kvm K)) (\<lambda>vm1.
                   Inr (Some (finish_thread ((set_kvm vm1 K)\<lparr>lockOwner := None,
                     processTable := (processTable K)[myIndex := myProcess\<lparr>p_numThreads := p_numThreads myProcess - 1,
                       p_stacks := erase threadIndex (p_stacks myProcess)\<rparr>]\<rparr>))))
          else if length (processTable K) = 1 then Inl Halted
          else bindR (clearMem a (kvm K)) (\<lambda>vm1.
               Inr (Some (finish_thread ((set_kvm (vm1\<lparr>spaces := (spaces vm1)(a := None)\<rparr>) K)\<lparr>lockOwner := None,
                 processTable := erase myIndex (processTable K)\<rparr>))))))"

text \<open>\<^verbatim>\<open>GetID_Syscall\<close>: the last character of the thread's name; an empty name has none.\<close>

definition GetID_Syscall :: "Kern \<Rightarrow> int res" where
  "GetID_Syscall K = (case thrName K (curThread K) of [] \<Rightarrow> Inl OutOfBounds | name \<Rightarrow> Inr (sint (last name) - 48))"

end
