(* ===== verification/Process_Props.thy ===== *)
theory Process_Props
  imports Processes "HOL-Library.Multiset"
begin

text \<open>
  The invariant of the process table: the stacks of the threads of a process lie in its address space and
  apart from each other, every thread that has been forked will find a stack, and the count of threads is right.
\<close>

section \<open>The sizes of address spaces\<close>

definition spv :: "VM \<Rightarrow> nat \<Rightarrow> (nat \<times> nat list) option" where
  "spv vm a = map_option (\<lambda>s. (numPages s, numPageQueue s)) (spaces vm a)"

lemma spv_view: "space_view vm' = space_view vm \<Longrightarrow> spv vm' = spv vm"
proof -
  assume v: "space_view vm' = space_view vm"
  have "spv vm a = map_option snd (snd (space_view vm) a)" for vm a
    by (simp add: spv_def space_view_def option.map_comp comp_def)
  then show ?thesis using v by (simp add: fun_eq_iff)
qed

lemma spv_mach [simp]: "spv (vm\<lparr>mach := m\<rparr>) = spv vm" "spv (vm\<lparr>curSpace := c\<rparr>) = spv vm"
  by (simp_all add: spv_def fun_eq_iff)

lemma spv_getNumPages:
  "getNumPages a vm = Inr (n, vm') \<Longrightarrow> \<exists>N q. spv vm a = Some (N, n # q) \<and> spv vm' = (spv vm)(a \<mapsto> (N, q))"
  by (auto simp: getNumPages_def bindR_eq_Inr_iff get_space_def put_space_def spv_def fun_eq_iff split: option.splits list.splits)

lemma getNumPages_ok: "spv vm a = Some (N, n # q) \<Longrightarrow> \<exists>vm'. getNumPages a vm = Inr (n, vm')"
  by (auto simp: getNumPages_def get_space_def spv_def)

lemma spv_RestoreState: "RestoreState a vm = Inr vm' \<Longrightarrow> spv vm' = spv vm"
  by (auto simp: RestoreState_def bindR_eq_Inr_iff)

lemma spv_InitRegisters: "InitRegisters a vm = Inr vm' \<Longrightarrow> spv vm' = spv vm"
  by (auto simp: InitRegisters_def bindR_eq_Inr_iff)

lemma spv_allocateStack:
  assumes "allocateStack junk a vm = Inr vm'"
  shows "\<exists>N q. spv vm a = Some (N, q) \<and> spv vm' = (spv vm)(a \<mapsto> (N + 8, q @ [N + 8]))"
proof -
  from assms obtain s where s: "spaces vm a = Some s"
    by (auto simp: allocateStack_def bindR_eq_Inr_iff get_space_def split: option.splits)
  from assms s spv_RestoreState have "\<exists>pg. spv vm' = spv (put_space a (s\<lparr>numPages := numPages s + 8, numPageQueue := numPageQueue s @ [numPages s + 8], pages := pg\<rparr>) vm)"
    by (fastforce simp: allocateStack_def get_space_def Let_def split: if_splits)
  moreover have "spv (put_space a x vm) = (spv vm)(a \<mapsto> (numPages x, numPageQueue x))" for x
    by (auto simp: spv_def put_space_def fun_eq_iff)
  ultimately have "spv vm' = (spv vm)(a \<mapsto> (numPages s + 8, numPageQueue s @ [numPages s + 8]))" by auto
  then show ?thesis using s by (auto simp: spv_def)
qed

lemma view_free_page: "free_page a v vm = Inr vm' \<Longrightarrow> space_view vm' = space_view vm"
  unfolding free_page_def by (auto simp: bindR_eq_Inr_iff Let_def dest!: view_upd_page view_upd_IPT)

lemma spv_clearStack: "clearStack a stack vm = Inr vm' \<Longrightarrow> spv vm' = spv vm"
proof -
  have "clearStack_loop a vs vm = Inr vm' \<Longrightarrow> space_view vm' = space_view vm" for vs
  proof (induction vs arbitrary: vm)
    case (Cons v vs)
    then show ?case by (auto simp: bindR_eq_Inr_iff split: if_splits dest!: view_free_page)
  qed simp
  then show "clearStack a stack vm = Inr vm' \<Longrightarrow> spv vm' = spv vm" by (auto simp: clearStack_def Let_def intro: spv_view)
qed

lemma spv_clearMem: "clearMem a vm = Inr vm' \<Longrightarrow> spv vm' = spv vm"
proof -
  have "clearMem_loop a vs vm = Inr vm' \<Longrightarrow> space_view vm' = space_view vm" for vs
  proof (induction vs arbitrary: vm)
    case (Cons v vs)
    then show ?case by (auto simp: bindR_eq_Inr_iff split: if_splits dest!: view_free_page)
  qed simp
  then show "clearMem a vm = Inr vm' \<Longrightarrow> spv vm' = spv vm" by (auto simp: clearMem_def bindR_eq_Inr_iff intro: spv_view)
qed

lemma spv_new_AddrSpace:
  "new_AddrSpace big junk jp jw js file = Inr s \<Longrightarrow> numPageQueue s = [numPages s] \<and> 8 \<le> numPages s"
  by (auto simp: new_AddrSpace_def bindR_eq_Inr_iff Let_def divRoundUp_def split: if_splits)

lemma spv_read_user: "read_user k rnd w len S = Inr (r, bs, S1) \<Longrightarrow> spv (vmem S1) = spv (vmem S)"
  by (auto simp: read_user_def bindR_eq_Inr_iff intro: spv_view [OF view_copyin])

lemma load_program_spv:
  assumes "load_program big junk jp jw js a name S = Inr (Some S1)"
  shows "\<exists>N. 8 \<le> N \<and> spv (vmem S1) = (spv (vmem S))(a \<mapsto> (N, [N]))"
proof -
  from assms obtain bytes s where s: "new_AddrSpace big junk jp jw js bytes = Inr s" "vmem S1 = put_space a s (vmem S)"
    by (auto simp: load_program_def bindR_eq_Inr_iff split: option.splits)
  with spv_new_AddrSpace [OF s(1)] show ?thesis
    by (intro exI [of _ "numPages s"]) (auto simp: spv_def put_space_def fun_eq_iff)
qed

section \<open>The process table\<close>

lemma upd_process_map:
  "distinct (map p_space ps) \<Longrightarrow> upd_process a g ps = map (\<lambda>p. if p_space p = a then g p else p) ps"
proof (induction ps)
  case (Cons p ps)
  have "map (\<lambda>p. if p_space p = a then g p else p) ps = ps" if "p_space p = a"
    using Cons.prems that by (intro map_idI) (auto simp: image_iff)
  then show ?case using Cons by auto
qed simp

lemma find_process_Some:
  "find_process a k ps = Some (i, p) \<Longrightarrow> k \<le> i \<and> i - k < length ps \<and> ps ! (i - k) = p \<and> p_space p = a"
proof (induction ps arbitrary: k)
  case (Cons q ps)
  then show ?case
  proof (cases "p_space q = a")
    case False
    with Cons.IH [of "Suc k"] Cons.prems have "Suc k \<le> i" "i - Suc k < length ps" "ps ! (i - Suc k) = p" "p_space p = a" by auto
    moreover from this have "i - k = Suc (i - Suc k)" by simp
    ultimately show ?thesis by simp
  qed simp
qed simp

lemma find_process_found: "p \<in> set ps \<Longrightarrow> p_space p = a \<Longrightarrow> find_process a k ps \<noteq> None"
  by (induction ps arbitrary: k) auto

lemma found_unique:
  assumes "distinct (map p_space ps)" "i < length ps" "ps ! i = p"
  shows "ps[i := g p] = map (\<lambda>x. if p_space x = p_space p then g x else x) ps"
    "erase i ps = filter (\<lambda>x. p_space x \<noteq> p_space p) ps"
proof -
  have u: "p_space (ps ! j) = p_space p \<longleftrightarrow> j = i" if "j < length ps" for j
    using assms that by (metis length_map nth_eq_iff_index_eq nth_map)
  show "ps[i := g p] = map (\<lambda>x. if p_space x = p_space p then g x else x) ps"
    using u assms(2,3) by (intro nth_equalityI) (auto simp: nth_list_update)
  have sp: "ps = take i ps @ p # drop (Suc i) ps" using assms(2,3) id_take_nth_drop by blast
  have "p_space p \<notin> p_space ` set (take i ps) \<union> p_space ` set (drop (Suc i) ps)"
  proof -
    have "distinct (map p_space (take i ps @ p # drop (Suc i) ps))" using assms(1) sp by metis
    then show ?thesis by auto
  qed
  then have "filter (\<lambda>x. p_space x \<noteq> p_space p) (take i ps @ p # drop (Suc i) ps) = take i ps @ drop (Suc i) ps"
    by (auto simp: image_iff intro!: arg_cong2 [where f = "(@)"] filter_True)
  then show "erase i ps = filter (\<lambda>x. p_space x \<noteq> p_space p) ps" using sp by (simp add: erase_def)
qed

section \<open>The invariant\<close>

text \<open>
  Stacks are counted in pages: \<open>ns\<close> are the numbers of pages from which the stacks of a process were computed, those its threads
  use and those that wait for a forked thread. (Page numbers and thread counts are not bounded; the 32-bit counters of the code wrap
  only after \<open>2 ^ 29\<close> calls of \<^verbatim>\<open>Fork\<close> in one process.)
\<close>

definition wf_ends :: "nat \<Rightarrow> nat list \<Rightarrow> int \<Rightarrow> bool" where
  "wf_ends N es k \<longleftrightarrow> distinct es \<and> k = int (length es) \<and> (\<forall>e \<in> set es. 8 \<le> e \<and> e \<le> N \<and> (N - e) mod 8 = 0)"

lemma wf_ends_perm: "mset es = mset es' \<Longrightarrow> wf_ends N es k \<longleftrightarrow> wf_ends N es' k"
  unfolding wf_ends_def by (metis mset_eq_imp_distinct_iff mset_eq_length mset_eq_setD)

lemma wf_ends_add: "wf_ends N es k \<Longrightarrow> wf_ends (N + 8) (es @ [N + 8]) (k + 1)"
  unfolding wf_ends_def by (auto simp: Suc_diff_le) (metis Nat.add_diff_assoc2 mod_add_self2)

lemma wf_ends_del: "wf_ends N (e # es) k \<Longrightarrow> wf_ends N es (k - 1)"
  unfolding wf_ends_def by auto

lemma wf_ends_apart:
  assumes "wf_ends N es k" "d \<in> set es" "e \<in> set es" "d \<noteq> e"
  shows "8 \<le> \<bar>int d - int e\<bar>"
proof -
  have d: "d \<le> N" "e \<le> N" and "(N - d) mod 8 = (N - e) mod 8" using assms(1-3) by (auto simp: wf_ends_def)
  then have "int (N - d) mod 8 = int (N - e) mod 8" by (metis of_nat_mod of_nat_numeral)
  then have "8 dvd int (N - d) - int (N - e)" by (simp add: mod_eq_dvd_iff)
  then have "8 dvd (int e - int d)" using d by (simp add: of_nat_diff)
  then show ?thesis using assms(4) dvd_imp_le_int [of "int e - int d" 8] by (simp add: abs_minus_commute)
qed

lemma stack_of_small: "8 \<le> n \<Longrightarrow> n * PageSize < 2 ^ 32 \<Longrightarrow> stack_of n = int n * 128 - 16"
  by (simp add: stack_of_def mod_pos_pos_trivial)

text \<open>The stacks of a process: those in the table and those whose pairs are still to be put there.\<close>

definition pending :: "nat \<Rightarrow> (nat \<times> nat \<times> int) list \<Rightarrow> (nat \<times> int) list" where
  "pending a np = map (\<lambda>(t, _, x). (t, x)) (filter (\<lambda>(_, b, _). b = a) np)"

lemma pending_simps [simp]:
  "pending a [] = []" "pending a (np @ [(t, b, x)]) = pending a np @ (if b = a then [(t, x)] else [])"
  by (simp_all add: pending_def)

lemma pending_mem: "(t, x) \<in> set (pending a np) \<longleftrightarrow> (t, a, x) \<in> set np"
  by (force simp: pending_def)

lemma pending_remove1:
  "(t, b, x) \<in> set np \<Longrightarrow>
     mset (pending a np) = mset (pending a (remove1 (t, b, x) np)) + (if b = a then {#(t, x)#} else {#})"
  by (induction np) (auto simp: pending_def)

lemma pending_none: "\<forall>(t, b, x) \<in> set np. b \<noteq> a \<Longrightarrow> pending a np = []"
  by (auto simp: pending_def filter_empty_conv)

definition stacks_of :: "(nat \<times> nat \<times> int) list \<Rightarrow> Process \<Rightarrow> (nat \<times> int) list" where
  "stacks_of np p = p_stacks p @ pending (p_space p) np"

definition ends_ok :: "nat \<Rightarrow> (nat \<times> int) list \<Rightarrow> nat list \<Rightarrow> int \<Rightarrow> bool" where
  "ends_ok N st q k \<longleftrightarrow> (\<exists>ns. map snd st = map stack_of ns \<and> wf_ends N (ns @ q) k)"

lemma ends_ok_length: "ends_ok N st q k \<Longrightarrow> k = int (length st) + int (length q)"
  unfolding ends_ok_def wf_ends_def by (metis length_append length_map of_nat_add)

lemma mset_stacks:
  "mset st = mset st' \<Longrightarrow> map snd st = map stack_of ns \<Longrightarrow> \<exists>ns'. map snd st' = map stack_of ns' \<and> mset ns' = mset ns"
proof (induction st arbitrary: st' ns)
  case (Cons e st)
  from Cons.prems(2) obtain n ns1 where n: "ns = n # ns1" "snd e = stack_of n" "map snd st = map stack_of ns1" by (cases ns) auto
  have "e \<in> set st'" using Cons.prems(1) by (metis list.set_intros(1) set_mset_mset)
  then obtain xs ys where st': "st' = xs @ e # ys" by (meson split_list)
  then have "mset st = mset (xs @ ys)" using Cons.prems(1) by simp
  from Cons.IH [OF this n(3)] obtain ns' where ns': "map snd xs @ map snd ys = map stack_of ns'" "mset ns' = mset ns1" by auto
  then obtain as bs where "ns' = as @ bs" "map snd xs = map stack_of as" "map snd ys = map stack_of bs"
    by (auto simp: append_eq_map_conv)
  then show ?case using st' n ns' by (intro exI [of _ "as @ n # bs"]) auto
qed simp

lemma ends_ok_perm:
  assumes "mset st = mset st'" "ends_ok N st q k"
  shows "ends_ok N st' q k"
proof -
  from assms(2) obtain ns where ns: "map snd st = map stack_of ns" "wf_ends N (ns @ q) k" by (auto simp: ends_ok_def)
  from mset_stacks [OF assms(1) ns(1)] obtain ns' where "map snd st' = map stack_of ns'" "mset (ns' @ q) = mset (ns @ q)" by auto
  then show ?thesis using ns(2) wf_ends_perm unfolding ends_ok_def by blast
qed

lemma ends_ok_add: "ends_ok N st q k \<Longrightarrow> ends_ok (N + 8) st (q @ [N + 8]) (k + 1)"
  unfolding ends_ok_def using wf_ends_add by fastforce

lemma ends_ok_take: "ends_ok N st (m # q) k \<Longrightarrow> ends_ok N (st @ [(t, stack_of m)]) q k"
  unfolding ends_ok_def by (metis append.assoc append_Cons append_Nil list.simps(8,9) map_append snd_conv)

lemma ends_ok_del: "ends_ok N (e # st) q k \<Longrightarrow> ends_ok N st q (k - 1)"
proof -
  assume "ends_ok N (e # st) q k"
  then obtain ns where ns: "map snd (e # st) = map stack_of ns" "wf_ends N (ns @ q) k" unfolding ends_ok_def by blast
  then obtain n ns' where "ns = n # ns'" by (cases ns) auto
  with ns wf_ends_del [of N n "ns' @ q" k] show ?thesis by (auto simp: ends_ok_def)
qed

lemma ends_ok_one: "8 \<le> N \<Longrightarrow> ends_ok N [(t, stack_of N)] [] 1"
  unfolding ends_ok_def wf_ends_def by (intro exI [of _ "[N]"]) simp

text \<open>In an address space that does not exceed 32-bit addresses, stacks lie inside it and 1024 bytes apart.\<close>

lemma ends_ok_apart:
  assumes "ends_ok N st q k" "N * PageSize < 2 ^ 32" "i < length st"
  shows "1024 \<le> snd (st ! i) + 16" "snd (st ! i) + 16 \<le> int (N * PageSize)"
    "j < length st \<Longrightarrow> j \<noteq> i \<Longrightarrow> 1024 \<le> \<bar>snd (st ! i) - snd (st ! j)\<bar>" "n \<in> set q \<Longrightarrow> 1024 \<le> \<bar>snd (st ! i) - stack_of n\<bar>"
proof -
  from assms(1) obtain ns where ns: "map snd st = map stack_of ns" "wf_ends N (ns @ q) k" by (auto simp: ends_ok_def)
  have l: "length ns = length st" using arg_cong [OF ns(1), of length] by simp
  have r: "8 \<le> m \<and> m \<le> N" if "m \<in> set (ns @ q)" for m using that ns(2) by (auto simp: wf_ends_def)
  have so: "stack_of m = int m * 128 - 16" if "m \<in> set (ns @ q)" for m
    using r [OF that] assms(2) by (intro stack_of_small) auto
  have e: "snd (st ! j) = stack_of (ns ! j)" if "j < length st" for j using ns(1) that l by (metis nth_map)
  have m: "ns ! j \<in> set (ns @ q)" if "j < length st" for j using that l by simp
  show "1024 \<le> snd (st ! i) + 16" "snd (st ! i) + 16 \<le> int (N * PageSize)"
    using e [OF assms(3)] so [OF m [OF assms(3)]] r [OF m [OF assms(3)]] by simp_all
  show "1024 \<le> \<bar>snd (st ! i) - snd (st ! j)\<bar>" if j: "j < length st" "j \<noteq> i"
  proof -
    have "ns ! i \<noteq> ns ! j" using ns(2) assms(3) j l by (simp add: wf_ends_def nth_eq_iff_index_eq)
    from wf_ends_apart [OF ns(2) m [OF assms(3)] m [OF j(1)] this] show ?thesis
      using e [OF assms(3)] e [OF j(1)] so [OF m [OF assms(3)]] so [OF m [OF j(1)]] by linarith
  qed
  show "1024 \<le> \<bar>snd (st ! i) - stack_of n\<bar>" if n: "n \<in> set q"
  proof -
    have "ns ! i \<in> set ns" using assms(3) l by simp
    then have "ns ! i \<noteq> n" using ns(2) n by (auto simp: wf_ends_def)
    moreover have "n \<in> set (ns @ q)" using n by simp
    ultimately show ?thesis
      using wf_ends_apart [OF ns(2) m [OF assms(3)], of n] e [OF assms(3)] so [OF m [OF assms(3)]] so [of n] by linarith
  qed
qed

text \<open>The threads of an address space that have been forked and have not run.\<close>

definition waiting :: "(nat \<Rightarrow> nat option) \<Rightarrow> (nat \<times> start) list \<Rightarrow> nat \<Rightarrow> nat" where
  "waiting th fk a = length (filter (\<lambda>(t, s). s \<noteq> Exec_start \<and> th t = Some a) fk)"

definition proc_ok ::
  "(nat \<Rightarrow> (nat \<times> nat list) option) \<Rightarrow> (nat \<Rightarrow> nat option) \<Rightarrow> (nat \<times> start) list \<Rightarrow> (nat \<times> nat \<times> int) list \<Rightarrow> Process \<Rightarrow> bool" where
  "proc_ok f th fk np p \<longleftrightarrow> (case f (p_space p) of None \<Rightarrow> False
     | Some (N, q) \<Rightarrow> ends_ok N (stacks_of np p) q (p_numThreads p) \<and> length q = waiting th fk (p_space p))"

definition has_stack :: "(nat \<times> start) list \<Rightarrow> (nat \<times> nat \<times> int) list \<Rightarrow> nat \<Rightarrow> Process \<Rightarrow> bool" where
  "has_stack fk np t p \<longleftrightarrow> t \<in> fst ` set (stacks_of np p) \<or> (\<exists>w. (t, Fork_start w) \<in> set fk)"

text \<open>The threads that have been forked, and those that have made their pair: each is in one of the lists, once.\<close>

definition lists_ok :: "(nat \<Rightarrow> nat option) \<Rightarrow> (nat \<times> start) list \<Rightarrow> (nat \<times> nat \<times> int) list \<Rightarrow> bool" where
  "lists_ok th fk np \<longleftrightarrow> distinct (map fst fk @ map fst np) \<and> (\<forall>t \<in> fst ` set fk. th t \<noteq> None) \<and>
     (\<forall>t a x. (t, a, x) \<in> set np \<longrightarrow> th t = Some a)"

lemma lists_ok_fresh:
  "lists_ok th fk np \<Longrightarrow> t \<notin> fst ` set fk \<Longrightarrow> t \<notin> fst ` set np \<Longrightarrow> lists_ok (th(t := x)) fk np"
  by (auto simp: lists_ok_def image_iff)

lemma lists_ok_add:
  "lists_ok th fk np \<Longrightarrow> t \<notin> fst ` set fk \<Longrightarrow> t \<notin> fst ` set np \<Longrightarrow> th t \<noteq> None \<Longrightarrow> lists_ok th (fk @ [(t, s)]) np"
  "lists_ok th fk np \<Longrightarrow> t \<notin> fst ` set fk \<Longrightarrow> t \<notin> fst ` set np \<Longrightarrow> th t = Some a \<Longrightarrow> lists_ok th fk (np @ [(t, a, y)])"
  by (auto simp: lists_ok_def)

lemma distinct_map_remove1: "distinct (map g xs) \<Longrightarrow> distinct (map g (remove1 x xs))"
  by (auto simp: distinct_map intro: inj_on_subset [OF _ Diff_subset])

lemma lists_ok_remove:
  assumes "lists_ok th fk np"
  shows "lists_ok th (remove1 e fk) np" "lists_ok th fk (remove1 z np)"
    "e \<in> set fk \<Longrightarrow> fst e \<notin> fst ` set (remove1 e fk) \<and> fst e \<notin> fst ` set np"
    "z \<in> set np \<Longrightarrow> fst z \<notin> fst ` set fk \<and> fst z \<notin> fst ` set (remove1 z np)"
proof -
  have s: "set (remove1 e fk) \<subseteq> set fk" "set (remove1 z np) \<subseteq> set np" by (rule set_remove1_subset)+
  then show "lists_ok th (remove1 e fk) np" "lists_ok th fk (remove1 z np)"
    using assms unfolding lists_ok_def by (auto simp: distinct_map_remove1) blast+
  have d: "distinct (map fst fk)" "distinct (map fst np)" "fst ` set fk \<inter> fst ` set np = {}"
    using assms by (auto simp: lists_ok_def)
  then show "e \<in> set fk \<Longrightarrow> fst e \<notin> fst ` set (remove1 e fk) \<and> fst e \<notin> fst ` set np"
    "z \<in> set np \<Longrightarrow> fst z \<notin> fst ` set fk \<and> fst z \<notin> fst ` set (remove1 z np)"
    by (auto simp: distinct_map inj_on_def)
qed

definition kinv ::
  "(nat \<Rightarrow> (nat \<times> nat list) option) \<Rightarrow> Process list \<Rightarrow> (nat \<Rightarrow> nat option) \<Rightarrow> (nat \<times> start) list \<Rightarrow> (nat \<times> nat \<times> int) list \<Rightarrow> nat \<Rightarrow> bool" where
  "kinv f ps th fk np n \<longleftrightarrow> distinct (map p_space ps) \<and> (\<forall>p \<in> set ps. proc_ok f th fk np p) \<and>
     (\<forall>t a. th t = Some a \<longrightarrow> (\<exists>p \<in> set ps. p_space p = a \<and> has_stack fk np t p)) \<and>
     lists_ok th fk np \<and> (\<forall>t \<ge> n. th t = None)"

lemma kinv_proc:
  assumes "kinv f ps th fk np n" "th t = Some a"
  shows "\<exists>p N q. p \<in> set ps \<and> p_space p = a \<and> has_stack fk np t p \<and> f a = Some (N, q) \<and>
    ends_ok N (stacks_of np p) q (p_numThreads p) \<and> length q = waiting th fk a"
proof -
  from assms obtain p where p: "p \<in> set ps" "p_space p = a" "has_stack fk np t p" "proc_ok f th fk np p"
    unfolding kinv_def by blast
  then show ?thesis by (auto simp: proc_ok_def split: option.splits)
qed

lemma proc_ok_cong:
  "f' (p_space p) = f (p_space p) \<Longrightarrow> waiting th' fk' (p_space p) = waiting th fk (p_space p) \<Longrightarrow>
   pending (p_space p) np' = pending (p_space p) np \<Longrightarrow> proc_ok f' th' fk' np' p = proc_ok f th fk np p"
  by (auto simp: proc_ok_def stacks_of_def split: option.splits)

lemma kinv_unique: "kinv f ps th fk np n \<Longrightarrow> p \<in> set ps \<Longrightarrow> q \<in> set ps \<Longrightarrow> p_space q = p_space p \<Longrightarrow> q = p"
  unfolding kinv_def by (metis distinct_map inj_onD)

lemma kinv_mine: "kinv f ps th fk np n \<Longrightarrow> p \<in> set ps \<Longrightarrow> th u = Some (p_space p) \<Longrightarrow> has_stack fk np u p"
proof -
  assume I: "kinv f ps th fk np n" and p: "p \<in> set ps" "th u = Some (p_space p)"
  then obtain q where "q \<in> set ps" "p_space q = p_space p" "has_stack fk np u q" unfolding kinv_def by blast
  with kinv_unique [OF I p(1)] show ?thesis by auto
qed

lemma kinv_fresh:
  assumes "kinv f ps th fk np n" "th t = None"
  shows "t \<notin> fst ` set fk" "t \<notin> fst ` set np"
proof -
  have l: "\<forall>u \<in> fst ` set fk. th u \<noteq> None" "\<forall>u a x. (u, a, x) \<in> set np \<longrightarrow> th u = Some a"
    using assms(1) by (simp_all add: kinv_def lists_ok_def)
  show "t \<notin> fst ` set fk" using l(1) assms(2) by blast
  show "t \<notin> fst ` set np" using l(2) assms(2) by force
qed

lemma kinv_no_space: "kinv f ps th fk np n \<Longrightarrow> a \<notin> p_space ` set ps \<Longrightarrow> th u \<noteq> Some a \<and> pending a np = []"
proof -
  assume I: "kinv f ps th fk np n" and a: "a \<notin> p_space ` set ps"
  have th: "th u \<noteq> Some a" for u using I a by (fastforce simp: kinv_def)
  moreover have "\<forall>t b x. (t, b, x) \<in> set np \<longrightarrow> th t = Some b" using I by (simp add: kinv_def lists_ok_def)
  ultimately have "\<forall>(t, b, x) \<in> set np. b \<noteq> a" by blast
  then show ?thesis using th pending_none by blast
qed

lemma kinvI:
  assumes "distinct (map p_space ps)" "\<And>p. p \<in> set ps \<Longrightarrow> proc_ok f th fk np p"
    "\<And>t a. th t = Some a \<Longrightarrow> \<exists>p \<in> set ps. p_space p = a \<and> has_stack fk np t p"
    "lists_ok th fk np" "\<forall>t \<ge> n. th t = None"
  shows "kinv f ps th fk np n"
  unfolding kinv_def using assms by blast

lemma waiting_fresh: "t \<notin> fst ` set fk \<Longrightarrow> waiting (th(t := x)) fk b = waiting th fk b"
  unfolding waiting_def by (intro arg_cong [where f = length] filter_cong) (auto simp: image_iff)

lemma waiting_append: "waiting th (fk @ [(t, s)]) a = waiting th fk a + (if s \<noteq> Exec_start \<and> th t = Some a then 1 else 0)"
  by (simp add: waiting_def)

lemma waiting_remove1:
  "(t, s) \<in> set fk \<Longrightarrow> waiting th fk a = waiting th (remove1 (t, s) fk) a + (if s \<noteq> Exec_start \<and> th t = Some a then 1 else 0)"
  by (induction fk) (auto simp: waiting_def)

text \<open>A new process, by \<open>StartProcess\<close> (with its stack in the table) or \<open>Exec_create\<close> (with a pair for it).\<close>

lemma kinv_new:
  assumes I: "kinv f ps th fk np n" and a: "a \<notin> p_space ` set ps" and t: "th t = None" and N: "8 \<le> N"
    and st: "st = [(t, stack_of N)] \<and> np' = np \<or> st = [] \<and> np' = np @ [(t, a, stack_of N)]" and n: "t < n'" "n \<le> n'"
  shows "kinv (f(a \<mapsto> (N, []))) (ps @ [\<lparr>p_space = a, p_numThreads = 1, p_stacks = st\<rparr>]) (th(t \<mapsto> a)) fk np' n'"
proof -
  note fresh = kinv_fresh [OF I t]
  note none = kinv_no_space [OF I a]
  have w: "waiting (th(t \<mapsto> a)) fk b = waiting th fk b" for b using fresh(1) by (rule waiting_fresh)
  have w0: "waiting th fk a = 0" using none by (simp add: waiting_def)
  have pd: "b \<noteq> a \<Longrightarrow> pending b np' = pending b np" for b using st by auto
  have old: "proc_ok (f(a \<mapsto> (N, []))) (th(t \<mapsto> a)) fk np' p" if "p \<in> set ps" for p
  proof -
    from a that have "p_space p \<noteq> a" by auto
    then show ?thesis using I w pd that proc_ok_cong [of "f(a \<mapsto> (N, []))" p f "th(t \<mapsto> a)" fk th fk np' np] by (simp add: kinv_def)
  qed
  let ?new = "\<lparr>p_space = a, p_numThreads = 1, p_stacks = st\<rparr>"
  have so: "stacks_of np' ?new = [(t, stack_of N)]" using st none by (auto simp: stacks_of_def)
  have new: "proc_ok (f(a \<mapsto> (N, []))) (th(t \<mapsto> a)) fk np' ?new"
    using ends_ok_one [OF N, of t] w w0 so by (simp add: proc_ok_def)
  have keep: "has_stack fk np u p \<Longrightarrow> has_stack fk np' u p" for u p using st by (auto simp: has_stack_def stacks_of_def)
  show ?thesis
  proof (rule kinvI)
    show "\<exists>p \<in> set (ps @ [?new]). p_space p = b \<and> has_stack fk np' u p" if "(th(t \<mapsto> a)) u = Some b" for u b
    proof (cases "u = t")
      case False
      with that kinv_proc [OF I, of u b] obtain p where "p \<in> set ps" "p_space p = b" "has_stack fk np u p" by auto
      with keep show ?thesis by auto
    next
      case True
      then show ?thesis using that so by (auto simp: has_stack_def)
    qed
    have "lists_ok (th(t \<mapsto> a)) fk np" using I fresh by (simp add: kinv_def lists_ok_fresh)
    then show "lists_ok (th(t \<mapsto> a)) fk np'" using fresh st by (auto intro: lists_ok_add)
  qed (use I a n new old in \<open>auto simp: kinv_def\<close>)
qed

text \<open>A change of the process of one address space.\<close>

lemma kinv_upd:
  assumes I: "kinv f ps th fk np n" and p: "p \<in> set ps" "p_space p = a" and g: "p_space (g p) = a"
    and ok: "proc_ok f' th' fk' np' (g p)"
    and other: "\<And>b. b \<noteq> a \<Longrightarrow> f' b = f b \<and> waiting th' fk' b = waiting th fk b \<and> pending b np' = pending b np"
    and live: "\<And>t. th' t = Some a \<Longrightarrow> has_stack fk' np' t (g p)"
    and others: "\<And>t b. b \<noteq> a \<Longrightarrow> th' t = Some b \<Longrightarrow> th t = Some b \<and> (\<forall>w. (t, Fork_start w) \<in> set fk \<longrightarrow> (t, Fork_start w) \<in> set fk')"
    and fk: "lists_ok th' fk' np'" "\<forall>t \<ge> n'. th' t = None"
  shows "kinv f' (map (\<lambda>p. if p_space p = a then g p else p) ps) th' fk' np' n'"
proof -
  let ?u = "\<lambda>p. if p_space p = a then g p else p"
  have d: "distinct (map p_space ps)" using I by (simp add: kinv_def)
  have u: "q = p" if "q \<in> set ps" "p_space q = a" for q using that p kinv_unique [OF I] by simp
  have sp: "p_space (?u q) = p_space q" if "q \<in> set ps" for q using u that g by auto
  then have m: "map p_space (map ?u ps) = map p_space ps" by simp
  have ok': "proc_ok f' th' fk' np' (?u q)" if "q \<in> set ps" for q
  proof (cases "p_space q = a")
    case False
    then show ?thesis using I that other [of "p_space q"] proc_ok_cong [of f' q f th' fk' th fk np' np] by (simp add: kinv_def)
  qed (use u ok that in auto)
  have lv: "\<exists>q \<in> ?u ` set ps. p_space q = b \<and> has_stack fk' np' t q" if tb: "th' t = Some b" for t b
  proof (cases "b = a")
    case True
    then show ?thesis using live tb p g by (intro bexI [of _ "?u p"]) auto
  next
    case False
    with others tb I obtain q where q: "q \<in> set ps" "p_space q = b" "has_stack fk np t q" unfolding kinv_def by metis
    have "has_stack fk' np' t q" using q others [OF False tb] other [OF False] by (auto simp: has_stack_def stacks_of_def)
    then show ?thesis using q False by (intro bexI [of _ "?u q"]) auto
  qed
  show ?thesis
  proof (rule kinvI)
    show "distinct (map p_space (map ?u ps))" unfolding m by (rule d)
    show "proc_ok f' th' fk' np' x" if "x \<in> set (map ?u ps)" for x using that ok' by (metis (no_types, lifting) imageE set_map)
    show "\<exists>q \<in> set (map ?u ps). p_space q = b \<and> has_stack fk' np' t q" if "th' t = Some b" for t b
      unfolding set_map using that by (rule lv)
  qed (rule fk)+
qed

lemma kinv_fork:
  assumes I: "kinv f ps th fk np n" and t: "th t = Some a" and f: "f a = Some (N, q)"
  shows "kinv (f(a \<mapsto> (N + 8, q @ [N + 8]))) (upd_process a (\<lambda>p. p\<lparr>p_numThreads := p_numThreads p + 1\<rparr>) ps) (th(n \<mapsto> a))
    (fk @ [(n, Fork_start w)]) np (n + 1)"
proof -
  have d: "distinct (map p_space ps)" using I by (simp add: kinv_def)
  have "th n = None" using I by (simp add: kinv_def)
  note n = this kinv_fresh [OF I this]
  from kinv_proc [OF I t] f obtain p where p: "p \<in> set ps" "p_space p = a"
      "ends_ok N (stacks_of np p) q (p_numThreads p)" "length q = waiting th fk a" by auto
  let ?g = "\<lambda>p. p\<lparr>p_numThreads := p_numThreads p + 1\<rparr>"
  have e: "stacks_of np (?g p) = stacks_of np p" by (simp add: stacks_of_def)
  show ?thesis unfolding upd_process_map [OF d]
  proof (rule kinv_upd [OF I p(1,2)])
    show "proc_ok (f(a \<mapsto> (N + 8, q @ [N + 8]))) (th(n \<mapsto> a)) (fk @ [(n, Fork_start w)]) np (?g p)"
      using ends_ok_add [OF p(3)] p n e by (simp add: proc_ok_def waiting_append waiting_fresh)
    show "has_stack (fk @ [(n, Fork_start w)]) np u (?g p)" if "(th(n \<mapsto> a)) u = Some a" for u
      using that kinv_mine [OF I p(1), of u] p(2) e by (cases "u = n") (auto simp: has_stack_def)
    show "lists_ok (th(n \<mapsto> a)) (fk @ [(n, Fork_start w)]) np" using I n by (simp add: kinv_def lists_ok_fresh lists_ok_add)
  qed (use I n p in \<open>auto simp: waiting_append waiting_fresh kinv_def split: if_splits\<close>)
qed

lemma kinv_forked:
  assumes "kinv f ps th fk np n" "t \<notin> fst ` set fk" "t \<notin> fst ` set np" "th t \<noteq> None"
  shows "kinv f ps th (fk @ [(t, Exec_start)]) np n"
proof (rule kinvI)
  have w: "waiting th (fk @ [(t, Exec_start)]) a = waiting th fk a" for a by (simp add: waiting_append)
  show "proc_ok f th (fk @ [(t, Exec_start)]) np p" if "p \<in> set ps" for p
    using assms(1) that w proc_ok_cong [of f p f th "fk @ [(t, Exec_start)]" th fk np np] by (simp add: kinv_def)
  show "lists_ok th (fk @ [(t, Exec_start)]) np" using assms by (simp add: kinv_def lists_ok_add)
  have "has_stack fk np u p \<Longrightarrow> has_stack (fk @ [(t, Exec_start)]) np u p" for u p by (auto simp: has_stack_def)
  then show "\<exists>p \<in> set ps. p_space p = a \<and> has_stack (fk @ [(t, Exec_start)]) np u p" if "th u = Some a" for u a
    using assms(1) that unfolding kinv_def by blast
qed (use assms(1) in \<open>simp_all add: kinv_def\<close>)

lemma kinv_begin_exec: "kinv f ps th fk np n \<Longrightarrow> (t, Exec_start) \<in> set fk \<Longrightarrow> kinv f ps th (remove1 (t, Exec_start) fk) np n"
proof -
  assume I: "kinv f ps th fk np n" and t: "(t, Exec_start) \<in> set fk"
  have w: "waiting th (remove1 (t, Exec_start) fk) a = waiting th fk a" for a using waiting_remove1 [OF t] by simp
  have h: "has_stack (remove1 (t, Exec_start) fk) np u p \<longleftrightarrow> has_stack fk np u p" for u p
    by (auto simp: has_stack_def dest: notin_set_remove1)
  show "kinv f ps th (remove1 (t, Exec_start) fk) np n"
  proof (rule kinvI)
    show "proc_ok f th (remove1 (t, Exec_start) fk) np p" if "p \<in> set ps" for p
      using I that w proc_ok_cong [of f p f th "remove1 (t, Exec_start) fk" th fk np np] by (simp add: kinv_def)
    show "lists_ok th (remove1 (t, Exec_start) fk) np" using I by (simp add: kinv_def lists_ok_remove(1))
  qed (use I in \<open>auto simp: kinv_def h\<close>)
qed

text \<open>A forked thread takes its stack.\<close>

lemma kinv_take:
  assumes I: "kinv f ps th fk np n" and t: "(t, Fork_start w) \<in> set fk" "th t = Some a" and f: "f a = Some (N, m # q)"
  shows "kinv (f(a \<mapsto> (N, q))) ps th (remove1 (t, Fork_start w) fk) (np @ [(t, a, stack_of m)]) n"
proof -
  let ?fk = "remove1 (t, Fork_start w) fk" and ?np = "np @ [(t, a, stack_of m)]"
  have l: "lists_ok th fk np" using I by (simp add: kinv_def)
  from kinv_proc [OF I t(2)] f obtain p where p: "p \<in> set ps" "p_space p = a"
      "ends_ok N (stacks_of np p) (m # q) (p_numThreads p)" "length (m # q) = waiting th fk a" by auto
  have "kinv (f(a \<mapsto> (N, q))) (map (\<lambda>p. if p_space p = a then id p else p) ps) th ?fk ?np n"
  proof (rule kinv_upd [OF I p(1,2)])
    show "proc_ok (f(a \<mapsto> (N, q))) th ?fk ?np (id p)"
      using ends_ok_take [OF p(3), of t] p waiting_remove1 [OF t(1), of th a] t(2) by (simp add: proc_ok_def stacks_of_def)
    show "has_stack ?fk ?np u (id p)" if "th u = Some a" for u
      using that kinv_mine [OF I p(1), of u] p(2) by (cases "u = t") (auto simp: stacks_of_def has_stack_def)
    show "lists_ok th ?fk ?np" using lists_ok_remove(1,3) [OF l, of "(t, Fork_start w)"] t by (simp add: lists_ok_add(2))
    show "th u = Some b \<and> (\<forall>w. (u, Fork_start w) \<in> set fk \<longrightarrow> (u, Fork_start w) \<in> set ?fk)" if "b \<noteq> a" "th u = Some b" for u b
      using that t(2) by (cases "u = t") auto
  qed (use I t p waiting_remove1 [OF t(1), of th] in \<open>auto simp: kinv_def\<close>)
  moreover have "map (\<lambda>p. if p_space p = a then id p else p) ps = ps" by (rule map_idI) simp
  ultimately show ?thesis by simp
qed

text \<open>A pair is put into the process table.\<close>

lemma kinv_record:
  assumes I: "kinv f ps th fk np n" and t: "(t, a, x) \<in> set np"
  shows "kinv f (upd_process a (push_stack t x) ps) th fk (remove1 (t, a, x) np) n"
proof -
  let ?np = "remove1 (t, a, x) np" and ?g = "push_stack t x"
  have l: "lists_ok th fk np" and d: "distinct (map p_space ps)" using I by (simp_all add: kinv_def)
  then have ta: "th t = Some a" using t unfolding lists_ok_def by blast
  from kinv_proc [OF I ta] obtain p N q where p: "p \<in> set ps" "p_space p = a" "f a = Some (N, q)"
      "ends_ok N (stacks_of np p) q (p_numThreads p)" "length q = waiting th fk a" by auto
  have m: "mset (stacks_of np p) = mset (stacks_of ?np (?g p))"
    using pending_remove1 [OF t, of a] p(2) by (simp add: stacks_of_def push_stack_def)
  then have s: "set (stacks_of ?np (?g p)) = set (stacks_of np p)" by (metis set_mset_mset)
  show ?thesis unfolding upd_process_map [OF d]
  proof (rule kinv_upd [OF I p(1,2)])
    show "proc_ok f th fk ?np (?g p)"
      using ends_ok_perm [OF m p(4)] p(2,3,5) by (simp add: proc_ok_def) (simp add: push_stack_def)
    show "has_stack fk ?np u (?g p)" if "th u = Some a" for u
      using that kinv_mine [OF I p(1), of u] p(2) s by (simp add: has_stack_def)
    show "lists_ok th fk ?np" using lists_ok_remove(2) [OF l] .
    show "f b = f b \<and> waiting th fk b = waiting th fk b \<and> pending b ?np = pending b np" if "b \<noteq> a" for b
      using t that by (induction np) (auto simp: pending_def)
  qed (use I p in \<open>auto simp: kinv_def push_stack_def\<close>)
qed

lemma find_stack_Some:
  "find_stack t k v = Some (i, stack) \<Longrightarrow> k \<le> i \<and> i - k < length v \<and> v ! (i - k) = (t, stack)"
proof (induction v arbitrary: k)
  case (Cons e v)
  obtain u s where e: "e = (u, s)" by (cases e)
  show ?case
  proof (cases "u = t")
    case False
    with Cons.IH [of "Suc k"] Cons.prems e have "Suc k \<le> i" "i - Suc k < length v" "v ! (i - Suc k) = (t, stack)" by auto
    moreover from this have "i - k = Suc (i - Suc k)" by simp
    ultimately show ?thesis by simp
  qed (use Cons.prems e in simp)
qed simp

lemma mset_erase: "i < length v \<Longrightarrow> mset v = add_mset (v ! i) (mset (erase i v))"
  unfolding erase_def by (metis id_take_nth_drop mset.simps(2) mset_append union_mset_add_mset_right)

lemma kinv_exit:
  assumes I: "kinv f ps th fk np n" and t: "th t = Some a" "t \<notin> fst ` set fk" "t \<notin> fst ` set np"
    and p: "p \<in> set ps" "p_space p = a" and i: "i < length (p_stacks p)" "p_stacks p ! i = (t, stack)"
    and g: "g = (\<lambda>p. p\<lparr>p_numThreads := p_numThreads p - 1, p_stacks := erase i (p_stacks p)\<rparr>)"
  shows "kinv f (map (\<lambda>p. if p_space p = a then g p else p) ps) (th(t := None)) fk np n"
proof -
  from kinv_proc [OF I t(1)] kinv_unique [OF I p(1)] p obtain N q where f: "f a = Some (N, q)"
      "ends_ok N (stacks_of np p) q (p_numThreads p)" "length q = waiting th fk a" by metis
  have m: "mset (stacks_of np p) = mset ((t, stack) # stacks_of np (g p))" using mset_erase [OF i(1)] i(2) g by (simp add: stacks_of_def)
  from ends_ok_perm [OF this f(2)] have w: "ends_ok N (stacks_of np (g p)) q (p_numThreads p - 1)" by (rule ends_ok_del)
  have s: "set (stacks_of np p) = insert (t, stack) (set (stacks_of np (g p)))" using arg_cong [OF m, of set_mset] by simp
  show ?thesis
  proof (rule kinv_upd [OF I p])
    show "proc_ok f (th(t := None)) fk np (g p)" using f w t p by (simp add: proc_ok_def g waiting_fresh)
    show "has_stack fk np u (g p)" if "(th(t := None)) u = Some a" for u
      using that kinv_mine [OF I p(1), of u] p(2) s by (auto simp: has_stack_def split: if_splits)
    show "lists_ok (th(t := None)) fk np" using I t by (simp add: kinv_def lists_ok_fresh)
  qed (use I t p g in \<open>auto simp: kinv_def waiting_fresh split: if_splits\<close>)
qed

text \<open>The last thread of a process is alone in it and takes it away.\<close>

lemma kinv_alone:
  assumes I: "kinv f ps th fk np n" and t: "th t = Some a" "t \<notin> fst ` set fk"
    and p: "p \<in> set ps" "p_space p = a" "\<not> 1 < p_numThreads p"
    and u: "u \<noteq> t"
  shows "th u \<noteq> Some a"
proof -
  from kinv_proc [OF I t(1)] kinv_unique [OF I p(1)] p obtain N q where f: "f a = Some (N, q)"
      "ends_ok N (stacks_of np p) q (p_numThreads p)" "length q = waiting th fk a" by metis
  have "t \<in> fst ` set (stacks_of np p)" using kinv_mine [OF I p(1), of t] t p(2) by (force simp: has_stack_def)
  moreover from this have "length (stacks_of np p) \<ge> 1" by (cases "stacks_of np p") auto
  moreover have "int (length (stacks_of np p) + length q) \<le> 1" using ends_ok_length [OF f(2)] p(3) by simp
  ultimately have w: "waiting th fk a = 0" "length (stacks_of np p) = 1" "t \<in> fst ` set (stacks_of np p)" using f(3) by linarith+
  show ?thesis
  proof
    assume u': "th u = Some a"
    from w(2,3) have "fst ` set (stacks_of np p) = {t}" by (auto simp: length_Suc_conv)
    with kinv_mine [OF I p(1), of u] p(2) u u' obtain x where "(u, Fork_start x) \<in> set fk" by (auto simp: has_stack_def)
    with w(1) u' show False by (auto simp: waiting_def filter_empty_conv)
  qed
qed

lemma kinv_last:
  assumes I: "kinv f ps th fk np n" and t: "th t = Some a" "t \<notin> fst ` set fk" "t \<notin> fst ` set np"
    and p: "p \<in> set ps" "p_space p = a" "\<not> 1 < p_numThreads p"
  shows "kinv (f(a := None)) (filter (\<lambda>p. p_space p \<noteq> a) ps) (th(t := None)) fk np n"
proof -
  have none: "th u \<noteq> Some a" if "u \<noteq> t" for u using kinv_alone [OF I t(1,2) p that] .
  show ?thesis
  proof (rule kinvI)
    show "proc_ok (f(a := None)) (th(t := None)) fk np x" if "x \<in> set (filter (\<lambda>p. p_space p \<noteq> a) ps)" for x
      using I that t(2) proc_ok_cong [of "f(a := None)" x f "th(t := None)" fk th fk np np] by (simp add: kinv_def waiting_fresh)
    show "\<exists>x \<in> set (filter (\<lambda>p. p_space p \<noteq> a) ps). p_space x = b \<and> has_stack fk np u x" if "(th(t := None)) u = Some b" for u b
      using kinv_proc [OF I, of u b] none [of u] that by (auto split: if_splits)
    show "distinct (map p_space (filter (\<lambda>p. p_space p \<noteq> a) ps))" using I by (simp add: kinv_def distinct_map_filter)
    show "lists_ok (th(t := None)) fk np" using I t by (simp add: kinv_def lists_ok_fresh)
  qed (use I t in \<open>auto simp: kinv_def\<close>)
qed

section \<open>Runs of the kernel\<close>

text \<open>
  A step is a system call on processes or the start of a forked thread, or a part of one between two waits for \<^verbatim>\<open>processLock\<close>, or anything else that leaves the sizes of the
  address spaces, the process table and the threads alone (a context switch, a page fault, another system call).
  A new address space gets memory that no other has.
\<close>

definition kern_inv :: "Kern \<Rightarrow> bool" where
  "kern_inv K \<longleftrightarrow> kinv (spv (kvm K)) (processTable K) (thrSpace K) (forked K) (newPairs K) (nextThread K)"

definition kern_core ::
  "Kern \<Rightarrow> (nat \<Rightarrow> (nat \<times> nat list) option) \<times> Process list \<times> (nat \<Rightarrow> nat option) \<times> (nat \<times> start) list \<times> (nat \<times> nat \<times> int) list \<times> nat" where
  "kern_core K = (spv (kvm K), processTable K, thrSpace K, forked K, newPairs K, nextThread K)"

inductive kern_step :: "Kern \<Rightarrow> Kern \<Rightarrow> bool" where
  start: "processTable K = [] \<Longrightarrow> thrSpace K (curThread K) = None \<Longrightarrow> curThread K < nextThread K \<Longrightarrow>
    StartProcess big junk jp jw js a name K = Inr K' \<Longrightarrow> kern_step K K'"
| exec: "spaces (kvm K) a = None \<Longrightarrow> Exec_create fuel rnd big junk jp jw js a vaddr len K = Inr (Some (r, K')) \<Longrightarrow> kern_step K K'"
| recorded: "pair \<in> set (newPairs K) \<Longrightarrow> Exec_record pair K = Some K' \<Longrightarrow> kern_step K K'"
| fork: "Fork_Syscall fuel rnd jp addr vaddr len i K = Inr (Some K') \<Longrightarrow> kern_step K K'"
| exit: "curThread K \<notin> fst ` set (forked K) \<Longrightarrow> curThread K \<notin> fst ` set (newPairs K) \<Longrightarrow> Exit_Syscall K = Inr (Some K') \<Longrightarrow> kern_step K K'"
| begin_exec: "(curThread K, Exec_start) \<in> set (forked K) \<Longrightarrow> Exec_Thread K = Inr K' \<Longrightarrow>
    kern_step K (K'\<lparr>forked := remove1 (curThread K, Exec_start) (forked K')\<rparr>)"
| begin_fork: "(curThread K, Fork_start addr) \<in> set (forked K) \<Longrightarrow> Fork_Thread_begin K = Inr (pair, K') \<Longrightarrow>
    kern_step K (K'\<lparr>forked := remove1 (curThread K, Fork_start addr) (forked K')\<rparr>)"
| enter: "pair \<in> set (newPairs K) \<Longrightarrow> fst pair = curThread K \<Longrightarrow> Fork_Thread_enter addr pair K = Inr (Some K') \<Longrightarrow> kern_step K K'"
| other: "kern_core K' = kern_core K \<Longrightarrow> kern_step K K'"

definition booted :: "Kern \<Rightarrow> bool" where
  "booted K \<longleftrightarrow> processTable K = [] \<and> thrSpace K = Map.empty \<and> forked K = [] \<and> newPairs K = []"

lemma booted_inv: "booted K \<Longrightarrow> kern_inv K"
  by (simp add: booted_def kern_inv_def kinv_def lists_ok_def)

lemma kvm_simps [simp]: "kvm (set_kvm vm K) = vm" "kvm (K\<lparr>ksys := S\<rparr>) = vmem S" "processTable (set_kvm vm K) = processTable K"
  "thrSpace (set_kvm vm K) = thrSpace K" "curThread (set_kvm vm K) = curThread K" "forked (set_kvm vm K) = forked K" "nextThread (set_kvm vm K) = nextThread K"
  "kvm (K\<lparr>lockOwner := l\<rparr>) = kvm K" "kvm (K\<lparr>processTable := ps\<rparr>) = kvm K" "kvm (K\<lparr>thrSpace := th\<rparr>) = kvm K"
  "kvm (K\<lparr>forked := fk\<rparr>) = kvm K" "kvm (K\<lparr>nextThread := n\<rparr>) = kvm K" "kvm (K\<lparr>thrName := nm\<rparr>) = kvm K"
  "kvm (K\<lparr>thrBox := bx\<rparr>) = kvm K" "kvm (K\<lparr>numMailBox := mb\<rparr>) = kvm K" "kvm (K\<lparr>newPairs := np\<rparr>) = kvm K" "newPairs (set_kvm vm K) = newPairs K"
  by (simp_all add: kvm_def set_kvm_def)

lemma cur_space_Inr: "cur_space K = Inr a \<longleftrightarrow> thrSpace K (curThread K) = Some a"
  by (auto simp: cur_space_def split: option.splits)

lemma push_new: "push_stack t stack (new_Process a) = \<lparr>p_space = a, p_numThreads = 1, p_stacks = [(t, stack)]\<rparr>"
  by (simp add: push_stack_def new_Process_def)

lemma start_inv:
  assumes "kern_inv K" "processTable K = []" "thrSpace K (curThread K) = None" "curThread K < nextThread K"
    "StartProcess big junk jp jw js a name K = Inr K'"
  shows "kern_inv K'"
proof (cases "unixFiles (ksys K) name")
  case None
  then show ?thesis using assms by (simp add: StartProcess_def load_program_def)
next
  case (Some bytes)
  then obtain S1 n vm1 vm2 vm3 where S: "load_program big junk jp jw js a name (ksys K) = Inr (Some S1)"
      "getNumPages a (vmem S1) = Inr (n, vm1)" "InitRegisters a (vm1\<lparr>curSpace := a\<rparr>) = Inr vm2" "RestoreState a vm2 = Inr vm3"
      "K' = K\<lparr>ksys := S1\<lparr>vmem := vm3\<rparr>, processTable := processTable K @ [push_stack (curThread K) (stack_of n) (new_Process a)],
        thrSpace := (thrSpace K)(curThread K \<mapsto> a)\<rparr>"
    using assms(5) by (auto simp: StartProcess_def load_program_def bindR_eq_Inr_iff Let_def split: option.splits)
  from load_program_spv [OF S(1)] obtain N where N: "8 \<le> N" "spv (vmem S1) = (spv (kvm K))(a \<mapsto> (N, [N]))" by (auto simp: kvm_def)
  from spv_getNumPages [OF S(2)] N(2) have n: "n = N" "spv vm1 = (spv (kvm K))(a \<mapsto> (N, []))" by auto
  have "spv vm3 = spv vm1" using spv_RestoreState [OF S(4)] spv_InitRegisters [OF S(3)] by simp
  with n have "spv (kvm K') = (spv (kvm K))(a \<mapsto> (N, []))" by (simp add: S(5) kvm_def)
  with kinv_new [OF assms(1) [unfolded kern_inv_def], where a = a and N = N and t = "curThread K" and st = "[(curThread K, stack_of N)]" and np' = "newPairs K" and n' = "nextThread K"]
  show ?thesis using assms(2-4) N n by (simp add: kern_inv_def S(5) push_new)
qed

lemma exec_inv_create:
  assumes I: "kern_inv K" and a: "spaces (kvm K) a = None"
    and K': "Exec_create fuel rnd big junk jp jw js a vaddr len K = Inr (Some (r, K'))"
  shows "kern_inv K'"
proof -
  from K' obtain x buf S1 where rd: "read_user fuel rnd vaddr len (ksys K) = Inr (x, buf, S1)"
      and cases: "(K' = K\<lparr>lockOwner := Some (curThread K), ksys := S1\<rparr>) \<or>
        (\<exists>S2 n vm1. load_program big junk jp jw js a (cstr buf) S1 = Inr (Some S2) \<and> getNumPages a (vmem S2) = Inr (n, vm1) \<and>
          kern_core K' = (spv vm1, processTable K @ [new_Process a], (thrSpace K)(nextThread K \<mapsto> a), forked K,
            newPairs K @ [(nextThread K, a, stack_of n)], nextThread K + 1))"
    by (auto simp: Exec_create_def bindR_eq_Inr_iff Let_def kern_core_def kvm_def split: if_splits option.splits)
  have v: "spv (vmem S1) = spv (kvm K)" using spv_read_user [OF rd] by (simp add: kvm_def)
  from cases show ?thesis
  proof (elim disjE exE conjE)
    assume "K' = K\<lparr>lockOwner := Some (curThread K), ksys := S1\<rparr>"
    then show ?thesis using I v by (simp add: kern_inv_def)
  next
    fix S2 n vm1
    assume S: "load_program big junk jp jw js a (cstr buf) S1 = Inr (Some S2)" "getNumPages a (vmem S2) = Inr (n, vm1)"
      and c: "kern_core K' = (spv vm1, processTable K @ [new_Process a], (thrSpace K)(nextThread K \<mapsto> a), forked K,
            newPairs K @ [(nextThread K, a, stack_of n)], nextThread K + 1)"
    from load_program_spv [OF S(1)] v obtain N where N: "8 \<le> N" "spv (vmem S2) = (spv (kvm K))(a \<mapsto> (N, [N]))" by auto
    from spv_getNumPages [OF S(2)] N(2) have n: "n = N" "spv vm1 = (spv (kvm K))(a \<mapsto> (N, []))" by auto
    have "a \<notin> p_space ` set (processTable K)" using I a by (fastforce simp: kern_inv_def kinv_def proc_ok_def spv_def)
    moreover have "thrSpace K (nextThread K) = None" using I by (simp add: kern_inv_def kinv_def)
    ultimately show ?thesis using c n N(1)
        kinv_new [OF I [unfolded kern_inv_def], of a "nextThread K" N "[]" "newPairs K @ [(nextThread K, a, stack_of N)]" "nextThread K + 1"]
      by (simp add: kern_core_def kern_inv_def new_Process_def)
  qed
qed

lemma record_core:
  assumes "record_pair pair K = Some K'"
  shows "kern_core K' = (spv (kvm K), upd_process (fst (snd pair)) (push_stack (fst pair) (snd (snd pair))) (processTable K), thrSpace K, forked K,
    remove1 pair (newPairs K), nextThread K)" "curThread K' = curThread K"
  using assms by (auto simp: record_pair_def kern_core_def split: if_splits prod.splits)

lemma record_inv:
  assumes I: "kern_inv K" and pr: "pair \<in> set (newPairs K)" "record_pair pair K = Some K'"
  shows "kern_inv K'"
proof -
  obtain t a x where e: "pair = (t, a, x)" by (cases pair)
  show ?thesis using kinv_record [OF I [unfolded kern_inv_def], of t a x] pr(1) record_core(1) [OF pr(2)]
    by (simp add: e kern_core_def kern_inv_def)
qed

lemma recorded_inv:
  assumes I: "kern_inv K" and pr: "pair \<in> set (newPairs K)" "Exec_record pair K = Some K'"
  shows "kern_inv K'"
proof -
  from pr(2) obtain K1 where K1: "record_pair pair K = Some K1" "K' = K1\<lparr>forked := forked K1 @ [(fst pair, Exec_start)]\<rparr>"
    by (auto simp: Exec_record_def split: option.splits)
  have c: "forked K1 = forked K" "thrSpace K1 = thrSpace K" "newPairs K1 = remove1 pair (newPairs K)"
    using record_core(1) [OF K1(1)] by (simp_all add: kern_core_def)
  have l: "lists_ok (thrSpace K) (forked K) (newPairs K)" using I by (simp add: kern_inv_def kinv_def)
  have "thrSpace K (fst pair) \<noteq> None" using l pr(1) unfolding lists_ok_def by (cases pair) fastforce
  with kinv_forked [OF record_inv [OF I pr(1) K1(1), unfolded kern_inv_def], of "fst pair"] lists_ok_remove(4) [OF l pr(1)]
  show ?thesis by (simp add: kern_inv_def K1(2) c)
qed

lemma fork_inv:
  assumes I: "kern_inv K" and K': "Fork_Syscall fuel rnd jp addr vaddr len i K = Inr (Some K')"
  shows "kern_inv K'"
proof -
  from K' obtain a x buf S1 vm1 where a: "thrSpace K (curThread K) = Some a"
      and rd: "read_user fuel rnd vaddr len (ksys K) = Inr (x, buf, S1)" and st: "allocateStack jp a (vmem S1) = Inr vm1"
      and c: "kern_core K' = (spv vm1, upd_process a (\<lambda>p. p\<lparr>p_numThreads := p_numThreads p + 1\<rparr>) (processTable K),
            (thrSpace K)(nextThread K \<mapsto> a), forked K @ [(nextThread K, Fork_start addr)], newPairs K, nextThread K + 1)"
    by (auto simp: Fork_Syscall_def bindR_eq_Inr_iff Let_def kern_core_def kvm_def cur_space_Inr split: if_splits)
  from spv_allocateStack [OF st] spv_read_user [OF rd] obtain N q where
    "spv (kvm K) a = Some (N, q)" "spv vm1 = (spv (kvm K))(a \<mapsto> (N + 8, q @ [N + 8]))" by (auto simp: kvm_def)
  with kinv_fork [OF I [unfolded kern_inv_def] a] c show ?thesis by (simp add: kern_core_def kern_inv_def)
qed

lemma begin_exec_inv:
  assumes "kern_inv K" "(curThread K, Exec_start) \<in> set (forked K)" "Exec_Thread K = Inr K'"
  shows "kern_inv (K'\<lparr>forked := remove1 (curThread K, Exec_start) (forked K')\<rparr>)"
proof -
  from assms(3) have "kern_core K' = kern_core K"
    by (auto simp: Exec_Thread_def bindR_eq_Inr_iff kern_core_def dest!: spv_RestoreState spv_InitRegisters)
  then show ?thesis using kinv_begin_exec [OF assms(1) [unfolded kern_inv_def] assms(2)] by (simp add: kern_core_def kern_inv_def)
qed

lemma begin_fork_inv:
  assumes I: "kern_inv K" and f: "(curThread K, Fork_start addr) \<in> set (forked K)" and K': "Fork_Thread_begin K = Inr (pair, K')"
  shows "kern_inv (K'\<lparr>forked := remove1 (curThread K, Fork_start addr) (forked K')\<rparr>)"
proof -
  from K' obtain a n vm1 where a: "thrSpace K (curThread K) = Some a" and n: "getNumPages a (kvm K) = Inr (n, vm1)"
      and c: "kern_core K' = (spv vm1, processTable K, thrSpace K, forked K, newPairs K @ [(curThread K, a, stack_of n)], nextThread K)"
    by (auto simp: Fork_Thread_begin_def bindR_eq_Inr_iff Let_def kern_core_def cur_space_Inr)
  from spv_getNumPages [OF n] obtain N q where
    "spv (kvm K) a = Some (N, n # q)" "spv vm1 = (spv (kvm K))(a \<mapsto> (N, q))" by auto
  with kinv_take [OF I [unfolded kern_inv_def] f a] c show ?thesis by (simp add: kern_core_def kern_inv_def)
qed

lemma other_inv: "kern_core K' = kern_core K \<Longrightarrow> kern_inv K \<Longrightarrow> kern_inv K'"
  by (simp add: kern_core_def kern_inv_def)

lemma enter_inv:
  assumes I: "kern_inv K" and pr: "pair \<in> set (newPairs K)" "Fork_Thread_enter addr pair K = Inr (Some K')"
  shows "kern_inv K'"
proof -
  from pr(2) obtain K1 where K1: "record_pair pair K = Some K1" "kern_core K' = kern_core K1"
    by (auto simp: Fork_Thread_enter_def bindR_eq_Inr_iff kern_core_def dest!: spv_RestoreState split: option.splits)
  then show ?thesis using record_inv [OF I pr(1) K1(1)] other_inv by blast
qed

lemma exit_inv:
  assumes I: "kern_inv K" and t: "curThread K \<notin> fst ` set (forked K)" "curThread K \<notin> fst ` set (newPairs K)"
    and K': "Exit_Syscall K = Inr (Some K')"
  shows "kern_inv K'"
proof -
  from K' obtain a where c: "cur_space K = Inr a" by (cases "cur_space K") (auto simp: Exit_Syscall_def split: if_splits)
  then have a: "thrSpace K (curThread K) = Some a" by (simp add: cur_space_Inr)
  from K' c obtain i p where fp: "find_process a 0 (processTable K) = Some (i, p)"
    by (cases "find_process a 0 (processTable K)") (auto simp: Exit_Syscall_def split: if_splits)
  from find_process_Some [OF fp] have p: "i < length (processTable K)" "processTable K ! i = p" "p_space p = a" "p \<in> set (processTable K)" by auto
  have d: "distinct (map p_space (processTable K))" using I by (simp add: kern_inv_def kinv_def)
  show ?thesis
  proof (cases "1 < p_numThreads p")
    case True
    let ?g = "\<lambda>j p. p\<lparr>p_numThreads := p_numThreads p - 1, p_stacks := erase j (p_stacks p)\<rparr>"
    from K' True c fp obtain j stack vm1 where j: "find_stack (curThread K) 0 (p_stacks p) = Some (j, stack)"
        "clearStack a (int32 stack) (kvm K) = Inr vm1"
        "kern_core K' = (spv vm1, (processTable K)[i := ?g j p], (thrSpace K)(curThread K := None), forked K, newPairs K, nextThread K)"
      by (auto simp: Exit_Syscall_def bindR_eq_Inr_iff kern_core_def finish_thread_def split: if_splits option.splits)
    with find_stack_Some [OF j(1)] spv_clearStack [OF j(2)] p found_unique(1) [OF d p(1,2), of "?g j"]
      kinv_exit [OF I [unfolded kern_inv_def] a t p(4,3), of j stack "?g j"]
    show ?thesis by (simp add: kern_core_def kern_inv_def)
  next
    case False
    from K' False c fp obtain vm1 where vm1: "clearMem a (kvm K) = Inr vm1"
        "kern_core K' = (spv (vm1\<lparr>spaces := (spaces vm1)(a := None)\<rparr>), erase i (processTable K), (thrSpace K)(curThread K := None), forked K, newPairs K, nextThread K)"
      by (auto simp: Exit_Syscall_def bindR_eq_Inr_iff kern_core_def finish_thread_def split: if_splits option.splits)
    have "spv (vm1\<lparr>spaces := (spaces vm1)(a := None)\<rparr>) = (spv (kvm K))(a := None)"
      using spv_clearMem [OF vm1(1)] by (auto simp: spv_def fun_eq_iff)
    with vm1(2) kinv_last [OF I [unfolded kern_inv_def] a t p(4,3) False] found_unique(2) [OF d p(1,2)] p(3)
    show ?thesis by (simp add: kern_core_def kern_inv_def)
  qed
qed

lemma kern_step_inv: "kern_step K K' \<Longrightarrow> kern_inv K \<Longrightarrow> kern_inv K'"
  by (induction rule: kern_step.induct)
    (blast intro: other_inv start_inv exec_inv_create recorded_inv fork_inv exit_inv begin_exec_inv begin_fork_inv enter_inv)+

lemma kern_run_inv: "kern_step\<^sup>*\<^sup>* K0 K \<Longrightarrow> booted K0 \<Longrightarrow> kern_inv K"
  by (induction rule: rtranclp_induct) (auto intro: booted_inv kern_step_inv)

section \<open>What the process table guarantees\<close>

lemma kern_proc:
  assumes "kern_inv K" "p \<in> set (processTable K)"
  shows "\<exists>s. spaces (kvm K) (p_space p) = Some s \<and> ends_ok (numPages s) (stacks_of (newPairs K) p) (numPageQueue s) (p_numThreads p)"
proof -
  from assms have "proc_ok (spv (kvm K)) (thrSpace K) (forked K) (newPairs K) p" by (simp add: kern_inv_def kinv_def)
  then show ?thesis by (auto simp: proc_ok_def spv_def split: option.splits)
qed

text \<open>
  C18: in every run of the kernel, also between the parts of \<^verbatim>\<open>Exec\<close> and \<^verbatim>\<open>Fork_Thread\<close>, a process counts its threads right:
  those that have a stack, in the table or in a pair that is still to be put there, and those that were forked and will take one.
  As long as its address space does not exceed 32-bit addresses, all its stacks lie inside it, and the eight pages below the start
  of a stack belong to no other thread. (Beyond, the \<^verbatim>\<open>unsigned int\<close> of a stack wraps.)
\<close>

theorem stacks_apart:
  assumes "booted K0" "kern_step\<^sup>*\<^sup>* K0 K" "p \<in> set (processTable K)"
  shows "\<exists>s. spaces (kvm K) (p_space p) = Some s \<and>
    p_numThreads p = int (length (p_stacks p)) + int (length (pending (p_space p) (newPairs K))) + int (length (numPageQueue s)) \<and>
    (numPages s * PageSize < 2 ^ 32 \<longrightarrow>
      (\<forall>(t, x) \<in> set (p_stacks p @ pending (p_space p) (newPairs K)). 1024 \<le> x + 16 \<and> x + 16 \<le> int (numPages s * PageSize) \<and>
         (\<forall>(u, y) \<in> set (p_stacks p @ pending (p_space p) (newPairs K)). u \<noteq> t \<longrightarrow> int UserStackSize \<le> \<bar>x - y\<bar>)))"
proof -
  let ?st = "p_stacks p @ pending (p_space p) (newPairs K)"
  from kern_proc [OF kern_run_inv [OF assms(2,1)] assms(3)] obtain s where
    s: "spaces (kvm K) (p_space p) = Some s" "ends_ok (numPages s) ?st (numPageQueue s) (p_numThreads p)"
    by (auto simp: stacks_of_def)
  have "1024 \<le> x + 16 \<and> x + 16 \<le> int (numPages s * PageSize) \<and> (\<forall>(u, y) \<in> set ?st. u \<noteq> t \<longrightarrow> int UserStackSize \<le> \<bar>x - y\<bar>)"
    if n: "numPages s * PageSize < 2 ^ 32" and m: "(t, x) \<in> set ?st" for t x
  proof -
    from m obtain i where i: "i < length ?st" "?st ! i = (t, x)" by (metis in_set_conv_nth)
    have "1024 \<le> \<bar>x - y\<bar>" if "(u, y) \<in> set ?st" "u \<noteq> t" for u y
    proof -
      from that(1) obtain j where j: "j < length ?st" "?st ! j = (u, y)" by (metis in_set_conv_nth)
      with that(2) i(2) have "j \<noteq> i" by auto
      from ends_ok_apart(3) [OF s(2) n i(1) j(1) this] show ?thesis by (simp only: i(2) j(2) snd_conv)
    qed
    moreover have "1024 \<le> x + 16" "x + 16 \<le> int (numPages s * PageSize)"
      using ends_ok_apart(1,2) [OF s(2) n i(1)] by (simp_all only: i(2) snd_conv)
    ultimately show ?thesis by auto
  qed
  moreover have "p_numThreads p = int (length (p_stacks p)) + int (length (pending (p_space p) (newPairs K))) + int (length (numPageQueue s))"
    using ends_ok_length [OF s(2)] by simp
  ultimately show ?thesis using s(1) by (intro exI [of _ s]) blast
qed

text \<open>
  C19: a thread that was forked always finds a stack when it first runs: \<^verbatim>\<open>Fork_Thread\<close> gets past \<^verbatim>\<open>getNumPages\<close>, and the stack it
  takes lies in the address space and apart from the other stacks of its process, as long as the address space does not exceed
  32-bit addresses. If \<^verbatim>\<open>processLock\<close> is free it goes on to run the program, with its stack in the table and its registers set; if
  not (after a failed \<^verbatim>\<open>Exec\<close> for ever, see \<open>Exec_error_keeps_lock\<close>), it waits with the stack it has taken.
\<close>

theorem forked_thread_finds_stack:
  assumes "booted K0" "kern_step\<^sup>*\<^sup>* K0 K" "(curThread K, Fork_start addr) \<in> set (forked K)"
  shows "\<exists>p s stack K1. p \<in> set (processTable K) \<and> thrSpace K (curThread K) = Some (p_space p) \<and> spaces (kvm K) (p_space p) = Some s \<and>
    Fork_Thread_begin K = Inr ((curThread K, p_space p, stack), K1) \<and>
    (numPages s * PageSize < 2 ^ 32 \<longrightarrow> 1024 \<le> stack + 16 \<and> stack + 16 \<le> int (numPages s * PageSize) \<and>
      (\<forall>(u, y) \<in> set (p_stacks p @ pending (p_space p) (newPairs K)). int UserStackSize \<le> \<bar>stack - y\<bar>)) \<and>
    (\<not> lock_free K \<longrightarrow> Fork_Thread addr K = Inr (False, K1)) \<and>
    (lock_free K \<longrightarrow> (\<exists>K'. Fork_Thread addr K = Inr (True, K') \<and> push_stack (curThread K) stack p \<in> set (processTable K') \<and>
      registers (mach (kvm K')) StackReg = word_of_int stack \<and> registers (mach (kvm K')) PCReg = addr))"
proof -
  have I: "kern_inv K" by (rule kern_run_inv [OF assms(2,1)])
  then obtain a where a: "thrSpace K (curThread K) = Some a" using assms(3) by (force simp: kern_inv_def kinv_def lists_ok_def)
  from kinv_proc [OF I [unfolded kern_inv_def] a] obtain p N q where p: "p \<in> set (processTable K)" "p_space p = a"
      "spv (kvm K) a = Some (N, q)" "ends_ok N (stacks_of (newPairs K) p) q (p_numThreads p)"
      "length q = waiting (thrSpace K) (forked K) a" by blast
  have "waiting (thrSpace K) (forked K) a \<noteq> 0" using assms(3) a by (auto simp: waiting_def filter_empty_conv)
  with p obtain n q' where q: "q = n # q'" by (cases q) auto
  from p(3) obtain s where s: "spaces (kvm K) a = Some s" "numPages s = N" by (auto simp: spv_def)
  from getNumPages_ok p(3) q obtain vm1 where vm1: "getNumPages a (kvm K) = Inr (n, vm1)" by blast
  from spv_getNumPages [OF vm1] obtain s1 where s1: "spaces vm1 a = Some s1" by (auto simp: spv_def fun_eq_iff split: if_splits)
  have d: "distinct (map p_space (processTable K))" using I by (simp add: kern_inv_def kinv_def)
  let ?st = "p_stacks p @ pending a (newPairs K)"
  have e: "ends_ok N (?st @ [(curThread K, stack_of n)]) q' (p_numThreads p)"
    using ends_ok_take [OF p(4) [unfolded q], of "curThread K"] p(2) by (simp add: stacks_of_def)
  have ap: "1024 \<le> stack_of n + 16" "stack_of n + 16 \<le> int (N * PageSize)" "\<forall>(u, y) \<in> set ?st. int UserStackSize \<le> \<bar>stack_of n - y\<bar>"
    if N: "N * PageSize < 2 ^ 32"
  proof -
    note A = ends_ok_apart [OF e N, of "length ?st"]
    show "1024 \<le> stack_of n + 16" "stack_of n + 16 \<le> int (N * PageSize)" using A(1,2) by (simp_all add: nth_append)
    have "1024 \<le> \<bar>stack_of n - y\<bar>" if "(u, y) \<in> set ?st" for u y
    proof -
      from that obtain j where j: "j < length ?st" "?st ! j = (u, y)" by (metis in_set_conv_nth)
      then have "(?st @ [(curThread K, stack_of n)]) ! j = (u, y)" by (simp only: nth_append if_True)
      then show ?thesis using A(3) [of j] j(1) by (simp add: nth_append)
    qed
    then show "\<forall>(u, y) \<in> set ?st. int UserStackSize \<le> \<bar>stack_of n - y\<bar>" by auto
  qed
  let ?pr = "(curThread K, a, stack_of n)"
  let ?K1 = "(set_kvm vm1 K)\<lparr>newPairs := newPairs K @ [?pr]\<rparr>"
  have b: "Fork_Thread_begin K = Inr (?pr, ?K1)" using a vm1 by (simp add: Fork_Thread_begin_def cur_space_def Let_def)
  have lf: "lock_free ?K1 = lock_free K" by (simp add: lock_free_def set_kvm_def)
  have no: "Fork_Thread addr K = Inr (False, ?K1)" if "\<not> lock_free K"
    using that lf by (simp add: Fork_Thread_def b Fork_Thread_enter_def record_pair_def)
  have yes: "\<exists>K'. Fork_Thread addr K = Inr (True, K') \<and> push_stack (curThread K) (stack_of n) p \<in> set (processTable K') \<and>
      registers (mach (kvm K')) StackReg = word_of_int (stack_of n) \<and> registers (mach (kvm K')) PCReg = addr" if "lock_free K"
    using that lf p(1,2) a s1
    by (auto simp: Fork_Thread_def b Fork_Thread_enter_def record_pair_def cur_space_def RestoreState_def get_space_def WriteRegister_def
      upd_process_map [OF d] intro!: image_eqI [of _ _ p])
  show ?thesis
    by (rule exI [of _ p], rule exI [of _ s], rule exI [of _ "stack_of n"], rule exI [of _ ?K1])
      (use p(1,2) a s b no yes ap in simp)
qed

lemma free_page_not_Halted: "free_page a v vm \<noteq> Inl Halted"
  by (auto simp: free_page_def Let_def bindR_eq_Inl_iff get_page_def get_space_def BitMap_Clear_def map_get_def upd_IPT_def upd_page_def
    split: option.splits if_splits)

lemma clearStack_not_Halted: "clearStack a stack vm \<noteq> Inl Halted"
proof -
  have "clearStack_loop a vs vm \<noteq> Inl Halted" for vs
    by (induction vs arbitrary: vm) (auto simp: bindR_eq_Inl_iff free_page_not_Halted)
  then show ?thesis by (simp add: clearStack_def Let_def)
qed

lemma clearMem_not_Halted: "clearMem a vm \<noteq> Inl Halted"
proof -
  have "clearMem_loop a vs vm \<noteq> Inl Halted" for vs
    by (induction vs arbitrary: vm)
      (auto simp: bindR_eq_Inl_iff free_page_not_Halted get_page_def get_space_def split: option.splits if_splits)
  then show ?thesis by (auto simp: clearMem_def bindR_eq_Inl_iff get_space_def split: option.splits)
qed

text \<open>
  C20: \<^verbatim>\<open>Exit\<close> stops the machine only when the thread that calls it is the last one: no other thread of any
  process is left.
\<close>

theorem Exit_halts_alone:
  assumes "booted K0" "kern_step\<^sup>*\<^sup>* K0 K" "curThread K \<notin> fst ` set (forked K)" "Exit_Syscall K = Inl Halted"
  shows "\<forall>u. u \<noteq> curThread K \<longrightarrow> thrSpace K u = None"
proof -
  have I: "kern_inv K" by (rule kern_run_inv [OF assms(2,1)])
  from assms(4) obtain a where a: "thrSpace K (curThread K) = Some a"
    by (cases "thrSpace K (curThread K)") (auto simp: Exit_Syscall_def cur_space_def split: if_splits)
  from kinv_proc [OF I [unfolded kern_inv_def] a] obtain p where p: "p \<in> set (processTable K)" "p_space p = a" by blast
  from assms(4) have lf: "lock_free K" by (auto simp: Exit_Syscall_def split: if_splits)
  from find_process_found [OF p] obtain i p' where fp: "find_process a 0 (processTable K) = Some (i, p')" by fastforce
  from find_process_Some [OF fp] have "p' \<in> set (processTable K)" "p_space p' = a" by auto
  with p kinv_unique [OF I [unfolded kern_inv_def] p(1)] have p': "p' = p" by simp
  have x: "length (processTable K) = 1 \<and> \<not> 1 < p_numThreads p"
    using assms(4) a lf fp p'
    by (auto simp: Exit_Syscall_def cur_space_def bindR_eq_Inl_iff clearStack_not_Halted clearMem_not_Halted split: if_splits option.splits)
  then have "set (processTable K) = {p}" using p(1) by (auto simp: length_Suc_conv)
  then have "thrSpace K u = Some b \<Longrightarrow> b = a" for u b using kinv_proc [OF I [unfolded kern_inv_def], of u b] p(2) by auto
  then show ?thesis using kinv_alone [OF I [unfolded kern_inv_def] a assms(3) p] x by (metis not_Some_eq)
qed

text \<open>
  \<^verbatim>\<open>Exec\<close> of a name that is no file returns -1 without releasing \<^verbatim>\<open>processLock\<close>; from then on every
  \<^verbatim>\<open>Exec\<close>, \<^verbatim>\<open>Fork\<close> and \<^verbatim>\<open>Exit\<close> of every other thread waits for it, and so does every thread that was forked.
\<close>

theorem Exec_error_keeps_lock:
  assumes "lock_free K" "0 \<le> len" "read_user fuel rnd vaddr len (ksys K) = Inr (r, buf, S1)" "unixFiles S1 (cstr buf) = None"
  shows "\<exists>K'. Exec_Syscall fuel rnd big junk jp jw js a vaddr len K = Inr (Some (-1, K')) \<and> lockOwner K' = Some (curThread K) \<and>
    (\<forall>t. t \<noteq> curThread K \<longrightarrow>
       Exec_Syscall fuel' rnd' big' junk' jp' jw' js' a' vaddr' len' (K'\<lparr>curThread := t\<rparr>) = Inr None \<and>
       Fork_Syscall fuel' rnd' jp' addr vaddr' len' i (K'\<lparr>curThread := t\<rparr>) = Inr None \<and>
       Exit_Syscall (K'\<lparr>curThread := t\<rparr>) = Inr None \<and>
       (\<forall>K''. Fork_Thread addr (K'\<lparr>curThread := t\<rparr>) \<noteq> Inr (True, K'')))"
  using assms
  by (auto simp: Exec_Syscall_def Exec_create_def Fork_Syscall_def Exit_Syscall_def Fork_Thread_def Fork_Thread_begin_def Fork_Thread_enter_def
    record_pair_def lock_free_def new_buffer_def load_program_def set_kvm_def bindR_eq_Inr_iff Let_def split: if_splits)

section \<open>An example run\<close>

lemma InitRegisters_ok: "spaces vm a = Some s \<Longrightarrow> \<exists>m. InitRegisters a vm = Inr (vm\<lparr>mach := m\<rparr>)"
proof -
  have "\<forall>i \<in> set is. i < 40 \<Longrightarrow> \<exists>m'. fold (\<lambda>i r. bindR r (WriteRegister (int i) 0)) is (Inr m) = Inr m'" for "is" m
    by (induction "is" arbitrary: m) (auto simp: WriteRegister_def)
  from this [of "[0..<40]" "mach vm"] show "spaces vm a = Some s \<Longrightarrow> ?thesis"
    by (auto simp: InitRegisters_def get_space_def) (simp add: WriteRegister_def; blast)
qed

text \<open>A process with one thread, which then forks a second one, which then takes its stack.\<close>

lemma demo_kernel:
  "\<exists>K0 K1 K2 s1 s2. booted K0 \<and> kern_step\<^sup>*\<^sup>* K0 K1 \<and> kern_step\<^sup>*\<^sup>* K0 K2 \<and> lockOwner K1 = None \<and> lockOwner K2 = None \<and>
     spaces (kvm K1) 0 = Some s1 \<and> spaces (kvm K2) 0 = Some s2 \<and> curThread K1 = 0 \<and> curThread K2 = 0 \<and>
     processTable K1 = [\<lparr>p_space = 0, p_numThreads = 1, p_stacks = [(0, 1136)]\<rparr>] \<and>
     processTable K2 = [\<lparr>p_space = 0, p_numThreads = 2, p_stacks = [(0, 1136)]\<rparr>] \<and>
     thrSpace K1 = [0 \<mapsto> 0] \<and> thrSpace K2 = [0 \<mapsto> 0, 1 \<mapsto> 0] \<and> forked K1 = [] \<and> forked K2 = [(1, Fork_start 0)] \<and> spaces (kvm K1) 9 = None \<and>
     newPairs K1 = [] \<and> newPairs K2 = [] \<and> numPages s2 = 17"
proof -
  obtain sp where sp: "new_AddrSpace False (\<lambda>_. 0) undefined (replicate 8 0) (replicate 256 None) demo_file = Inr sp" "numPages sp = 9"
    using demo_space by blast
  from spv_new_AddrSpace [OF sp(1)] have q: "numPageQueue sp = [9]" using sp(2) by simp
  have pg: "length (pages sp) = numPages sp"
    using sp(1) by (auto simp: new_AddrSpace_def bindR_eq_Inr_iff Let_def split: if_splits)
  define S0 :: Sys where "S0 = \<lparr>vmem = undefined\<lparr>spaces := Map.empty, curSpace := 0\<rparr>, unixFiles = [[65] \<mapsto> demo_file], ofiles = Map.empty,
    nextFile = 0, keyboard = [], screen = []\<rparr>"
  define K0 where "K0 = \<lparr>ksys = S0, processTable = [], lockOwner = None, curThread = 0, thrSpace = Map.empty, thrName = (\<lambda>_. []),
    thrBox = (\<lambda>_. 0), nextThread = 1, numMailBox = 1, forked = [], newPairs = []\<rparr>"
  let ?vm1 = "put_space 0 (sp\<lparr>numPageQueue := []\<rparr>) (put_space 0 sp (vmem S0))"
  from InitRegisters_ok [of "?vm1\<lparr>curSpace := 0\<rparr>" 0] obtain m where
    m: "InitRegisters 0 (?vm1\<lparr>curSpace := 0\<rparr>) = Inr (?vm1\<lparr>curSpace := 0, mach := m\<rparr>)" by (auto simp: put_space_def)
  obtain K1 s1 where K1: "StartProcess False (\<lambda>_. 0) undefined (replicate 8 0) (replicate 256 None) 0 [65] K0 = Inr K1"
      "processTable K1 = [\<lparr>p_space = 0, p_numThreads = 1, p_stacks = [(0, 1136)]\<rparr>]" "thrSpace K1 = [0 \<mapsto> 0]" "forked K1 = []" "newPairs K1 = []"
      "lockOwner K1 = None" "curThread K1 = 0" "nextThread K1 = 1" "spaces (kvm K1) 0 = Some s1" "spaces (kvm K1) 9 = None" "numPages s1 = 9" "length (pages s1) = 9" "numPageQueue s1 = []"
    using sp q m pg by (simp add: StartProcess_def load_program_def K0_def S0_def getNumPages_def get_space_def put_space_def
      push_stack_def new_Process_def RestoreState_def kvm_def stack_of_def Let_def)
  obtain K2 s2 where K2: "Fork_Syscall 0 undefined undefined 0 0 0 0 K1 = Inr (Some K2)" "spaces (kvm K2) 0 = Some s2"
      "processTable K2 = [\<lparr>p_space = 0, p_numThreads = 2, p_stacks = [(0, 1136)]\<rparr>]" "thrSpace K2 = [0 \<mapsto> 0, 1 \<mapsto> 0]" "forked K2 = [(1, Fork_start 0)]"
      "lockOwner K2 = None" "curThread K2 = 0" "newPairs K2 = []" "numPages s2 = 17"
    using K1 by (simp add: Fork_Syscall_def lock_free_def cur_space_def Let_def new_buffer_def read_user_def copyin_def allocateStack_def
      get_space_def kvm_def RestoreState_def put_space_def)
  have b: "booted K0" by (simp add: booted_def K0_def)
  have 1: "kern_step K0 K1" by (rule kern_step.start [OF _ _ _ K1(1)]) (simp_all add: K0_def)
  have 2: "kern_step K1 K2" by (rule kern_step.fork [OF K2(1)])
  have "kern_step\<^sup>*\<^sup>* K0 K1" "kern_step\<^sup>*\<^sup>* K0 K2" using 1 2 by auto
  then show ?thesis using b K1 K2 by blast
qed

theorem stacks_apart_witness:
  "\<exists>K0 K p s. booted K0 \<and> kern_step\<^sup>*\<^sup>* K0 K \<and> p \<in> set (processTable K) \<and> spaces (kvm K) (p_space p) = Some s \<and>
     length (numPageQueue s) = 1 \<and> numPages s = 17 \<and> (\<forall>(t, x) \<in> set (p_stacks p). 1024 \<le> x + 16 \<and> x + 16 \<le> 2176)"
proof -
  from demo_kernel obtain K0 K2 s2 where K: "booted K0" "kern_step\<^sup>*\<^sup>* K0 K2"
    "processTable K2 = [\<lparr>p_space = 0, p_numThreads = 2, p_stacks = [(0, 1136)]\<rparr>]" "newPairs K2 = []" "spaces (kvm K2) 0 = Some s2"
    "numPages s2 = 17" by blast
  let ?p = "\<lparr>p_space = 0, p_numThreads = 2, p_stacks = [(0, 1136)]\<rparr>"
  have p: "?p \<in> set (processTable K2)" by (simp add: K(3))
  from stacks_apart [OF K(1,2) p] have "length (numPageQueue s2) = 1" "\<forall>(t, x) \<in> set (p_stacks ?p). 1024 \<le> x + 16 \<and> x + 16 \<le> 2176"
    using K(4-6) by auto
  with K p show ?thesis by (intro exI [of _ K0] exI [of _ K2] exI [of _ ?p] exI [of _ s2]) simp
qed

theorem forked_thread_finds_stack_witness:
  "\<exists>K0 K K' stack. booted K0 \<and> kern_step\<^sup>*\<^sup>* K0 K \<and> Fork_Thread 0 K = Inr (True, K') \<and>
     registers (mach (kvm K')) StackReg = word_of_int stack \<and> 1024 \<le> \<bar>stack - 1136\<bar>"
proof -
  from demo_kernel obtain K0 K2 s2 where K: "booted K0" "kern_step\<^sup>*\<^sup>* K0 K2" "forked K2 = [(1, Fork_start 0)]" "lockOwner K2 = None"
    "processTable K2 = [\<lparr>p_space = 0, p_numThreads = 2, p_stacks = [(0, 1136)]\<rparr>]" "spaces (kvm K2) 0 = Some s2" "numPages s2 = 17" by blast
  let ?K = "K2\<lparr>curThread := 1\<rparr>"
  have "kern_step K2 ?K" by (rule kern_step.other) (simp add: kern_core_def kvm_def)
  with K(2) have r: "kern_step\<^sup>*\<^sup>* K0 ?K" by simp
  have "(curThread ?K, Fork_start 0) \<in> set (forked ?K)" by (simp add: K(3))
  from forked_thread_finds_stack [OF K(1) r this] obtain stack K' where
    "Fork_Thread 0 ?K = Inr (True, K')" "registers (mach (kvm K')) StackReg = word_of_int stack" "1024 \<le> \<bar>stack - 1136\<bar>"
    using K(4-7) by (auto simp: lock_free_def kvm_def)
  with K(1) r show ?thesis by blast
qed

theorem Exit_halts_alone_witness:
  "\<exists>K0 K. booted K0 \<and> kern_step\<^sup>*\<^sup>* K0 K \<and> Exit_Syscall K = Inl Halted \<and> thrSpace K 5 = None"
proof -
  from demo_kernel obtain K0 K1 where K: "booted K0" "kern_step\<^sup>*\<^sup>* K0 K1" "forked K1 = []" "lockOwner K1 = None" "curThread K1 = 0"
    "processTable K1 = [\<lparr>p_space = 0, p_numThreads = 1, p_stacks = [(0, 1136)]\<rparr>]" "thrSpace K1 = [0 \<mapsto> 0]" by blast
  have h: "Exit_Syscall K1 = Inl Halted" by (simp add: Exit_Syscall_def lock_free_def cur_space_def K(4-7))
  have "curThread K1 \<notin> fst ` set (forked K1)" by (simp add: K(3))
  from Exit_halts_alone [OF K(1,2) this h] have "thrSpace K1 5 = None" by (simp add: K(5))
  with K(1,2) h show ?thesis by blast
qed

theorem Exec_error_keeps_lock_witness:
  "\<exists>K K'. lock_free K \<and> Exec_Syscall 0 undefined False undefined undefined [] [] 1 0 0 K = Inr (Some (-1, K')) \<and> lockOwner K' = Some 0"
proof -
  define S0 :: Sys where "S0 = \<lparr>vmem = undefined, unixFiles = Map.empty, ofiles = Map.empty, nextFile = 0, keyboard = [], screen = []\<rparr>"
  define K where "K = \<lparr>ksys = S0, processTable = [], lockOwner = None, curThread = 0, thrSpace = Map.empty, thrName = (\<lambda>_. []),
    thrBox = (\<lambda>_. 0), nextThread = 1, numMailBox = 1, forked = [], newPairs = []\<rparr>"
  have lf: "lock_free K" by (simp add: lock_free_def K_def)
  have n: "unixFiles S0 (cstr []) = None" by (simp add: S0_def)
  have "read_user 0 undefined 0 0 (ksys K) = Inr (0, [], S0)" by (simp add: read_user_def copyin_def K_def)
  from Exec_error_keeps_lock [OF lf order_refl this n, where big = False and junk = undefined and jp = undefined and jw = "[]" and js = "[]" and a = 1]
  obtain K' where
    "Exec_Syscall 0 undefined False undefined undefined [] [] 1 0 0 K = Inr (Some (-1, K'))" "lockOwner K' = Some (curThread K)"
    by blast
  moreover have "curThread K = 0" by (simp add: K_def)
  ultimately show ?thesis using lf by auto
qed

end
