(* ===== verification/Net_Server.thy ===== *)
theory Net_Server
  imports Nachos_Prelude "HOL-Library.Word"
begin

text \<open>
  The lock, condition and monitor-variable server of \<^verbatim>\<open>network/nettest.cc\<close>.

  The tables hold pointers to objects. \<^verbatim>\<open>delete\<close> frees the object but leaves the pointer in the
  table, so an entry is \<open>Live\<close> or \<open>Dangling\<close>, and following a dangling pointer is an error. A
  \<^verbatim>\<open>char\<close> is an \<open>8 word\<close>, read as a signed number; names are arrays that \<^verbatim>\<open>strcmp\<close> reads up to the
  first zero. \<^verbatim>\<open>postOffice->Send\<close> asserts that the message is not too long and that the mailbox is
  one of the ten of a post office, and appends to \<open>outbox\<close>; whether the network then accepts the
  packet only changes what is printed. The content of a newly allocated reply buffer is the argument \<open>fresh\<close>.
\<close>

section \<open>State\<close>

datatype 'a cell = Live 'a | Dangling

record ReplyMsg =
  idToSendTo :: int
  boxToSendTo :: int
  msgLength :: int
  responseMsg :: "8 word list"

record ServerLock =
  sl_owner :: int
  sl_id :: int
  sl_available :: bool
  sl_ownerMailBoxNum :: int
  sl_waitQueue :: "ReplyMsg list"
  sl_name :: "8 word list"
  sl_numWaiters :: int
  sl_toBeDeleted :: bool

record ServerCV =
  sc_serverLockIndex :: int
  sc_id :: int
  sc_waitQueue :: "ReplyMsg list"
  sc_name :: "8 word list"
  sc_toBeDeleted :: bool
  sc_numWaiters :: int

record ServerMV =
  sm_values :: "int list"
  sm_id :: int
  sm_name :: "8 word list"
  sm_numElements :: int

record PendingRequest =
  noCount :: int
  pr_opCode :: "8 word"
  clientID :: int
  clientMail :: int
  pr_name :: "8 word list"

record packet =
  pkt_to :: int
  pkt_box :: int
  pkt_data :: "8 word list"

record server =
  serverLockTable :: "ServerLock cell list"
  serverCVTable :: "ServerCV cell list"
  serverMVTable :: "ServerMV cell list"
  pendingRequestTable :: "PendingRequest list"
  outbox :: "packet list"
  serverID :: int
  numServers :: int

definition new_ServerLock :: "8 word list \<Rightarrow> int \<Rightarrow> ServerLock" where
  "new_ServerLock nm i =
     \<lparr>sl_owner = - 1, sl_id = i, sl_available = True, sl_ownerMailBoxNum = - 1, sl_waitQueue = [],
      sl_name = nm, sl_numWaiters = 0, sl_toBeDeleted = False\<rparr>"

definition new_ServerCV :: "8 word list \<Rightarrow> int \<Rightarrow> ServerCV" where
  "new_ServerCV nm i =
     \<lparr>sc_serverLockIndex = - 1, sc_id = i, sc_waitQueue = [], sc_name = nm, sc_toBeDeleted = False,
      sc_numWaiters = 0\<rparr>"

text \<open>\<^verbatim>\<open>new int[size]\<close> with a negative size throws.\<close>

definition new_ServerMV :: "int \<Rightarrow> 8 word list \<Rightarrow> int \<Rightarrow> ServerMV res" where
  "new_ServerMV sz nm i =
     (if sz < 0 then Inl OutOfBounds
      else Inr \<lparr>sm_values = replicate (nat sz) 0, sm_id = i, sm_name = nm, sm_numElements = sz\<rparr>)"

definition deref_cell :: "'a cell \<Rightarrow> 'a res" where
  "deref_cell c = (case c of Live x \<Rightarrow> Inr x | Dangling \<Rightarrow> Inl UseAfterFree)"

definition in_table :: "int \<Rightarrow> 'a list \<Rightarrow> bool" where
  "in_table i t \<longleftrightarrow> - 1 < i \<and> nat i < length t"

text \<open>\<^verbatim>\<open>vector::at\<close>, followed by a dereference.\<close>

definition table_get :: "'a cell list \<Rightarrow> int \<Rightarrow> 'a res" where
  "table_get t i = (if in_table i t then deref_cell (t ! nat i) else Inl OutOfBounds)"

definition set_lock :: "int \<Rightarrow> ServerLock cell \<Rightarrow> server \<Rightarrow> server" where
  "set_lock i c s = s\<lparr>serverLockTable := (serverLockTable s)[nat i := c]\<rparr>"

definition set_cv :: "int \<Rightarrow> ServerCV cell \<Rightarrow> server \<Rightarrow> server" where
  "set_cv i c s = s\<lparr>serverCVTable := (serverCVTable s)[nat i := c]\<rparr>"

definition set_mv :: "int \<Rightarrow> ServerMV cell \<Rightarrow> server \<Rightarrow> server" where
  "set_mv i c s = s\<lparr>serverMVTable := (serverMVTable s)[nat i := c]\<rparr>"

text \<open>The assertions of \<^verbatim>\<open>PostOffice::Send\<close>; \<^verbatim>\<open>Initialize\<close> makes a post office with ten boxes.\<close>

definition legal_box :: "int \<Rightarrow> bool" where
  "legal_box box \<longleftrightarrow> 0 \<le> box \<and> box < 10"

definition posted :: "int \<Rightarrow> int \<Rightarrow> 8 word list \<Rightarrow> server \<Rightarrow> server" where
  "posted to box bytes s = s\<lparr>outbox := outbox s @ [\<lparr>pkt_to = to, pkt_box = box, pkt_data = bytes\<rparr>]\<rparr>"

definition send :: "int \<Rightarrow> int \<Rightarrow> 8 word list \<Rightarrow> server \<Rightarrow> server res" where
  "send to box bytes s =
     (if length bytes \<le> 40 \<and> legal_box box then Inr (posted to box bytes s) else Inl AssertionFailed)"

section \<open>Operations on the tables\<close>

definition updatePendingRequestTable :: "int \<Rightarrow> server \<Rightarrow> (int \<times> server) res" where
  "updatePendingRequestTable requestID s =
     (if in_table requestID (pendingRequestTable s)
      then let p = pendingRequestTable s ! nat requestID; p1 = p\<lparr>noCount := noCount p + 1\<rparr> in
        Inr (noCount p1, s\<lparr>pendingRequestTable := (pendingRequestTable s)[nat requestID := p1]\<rparr>)
      else Inl OutOfBounds)"

definition Server_CreateLock :: "8 word list \<Rightarrow> server \<Rightarrow> int \<times> server" where
  "Server_CreateLock lockName s =
     (let uniqueID = int (length (serverLockTable s)) + serverID s * 50 in
      (uniqueID, s\<lparr>serverLockTable := serverLockTable s @ [Live (new_ServerLock lockName uniqueID)]\<rparr>))"

text \<open>The loops over a table that compare names: every entry up to the match is dereferenced.\<close>

fun find_name :: "('a \<Rightarrow> 8 word list) \<Rightarrow> 8 word list \<Rightarrow> 'a cell list \<Rightarrow> nat \<Rightarrow> (nat \<times> 'a) option res" where
  "find_name nm key [] i = Inr None"
| "find_name nm key (c # cs) i =
     bindR (deref_cell c) (\<lambda>x.
       if cstr key = cstr (nm x) then Inr (Some (i, x)) else find_name nm key cs (Suc i))"

definition getLockFromTable :: "8 word list \<Rightarrow> server \<Rightarrow> int res" where
  "getLockFromTable lockName s =
     bindR (find_name sl_name lockName (serverLockTable s) 0) (\<lambda>r. case r of
       Some (i, l) \<Rightarrow> Inr (sl_id l)
     | None \<Rightarrow> Inr (- 1))"

definition Server_DestroyLock :: "int \<Rightarrow> server \<Rightarrow> server res" where
  "Server_DestroyLock index s =
     (if in_table index (serverLockTable s)
      then bindR (table_get (serverLockTable s) index) (\<lambda>l.
        if sl_numWaiters l = 0 \<and> sl_available l then Inr (set_lock index Dangling s)
        else Inr (set_lock index (Live (l\<lparr>sl_toBeDeleted := True\<rparr>)) s))
      else Inr s)"

definition Server_Acquire :: "int \<Rightarrow> server \<Rightarrow> (int \<times> server) res" where
  "Server_Acquire index s =
     (if in_table index (serverLockTable s)
      then bindR (table_get (serverLockTable s) index) (\<lambda>l.
        if sl_available l then Inr (0, set_lock index (Live (l\<lparr>sl_available := False\<rparr>)) s)
        else Inr (1, s))
      else Inr (- 1, s))"

text \<open>Handing a lock to the first waiter, in \<^verbatim>\<open>Release\<close> and \<^verbatim>\<open>Wait\<close>: its delayed reply is sent.\<close>

definition grant_next :: "int \<Rightarrow> ServerLock \<Rightarrow> server \<Rightarrow> server res" where
  "grant_next index l s = (case sl_waitQueue l of
     [] \<Rightarrow> Inl NullDeref
   | r # rest \<Rightarrow> send (idToSendTo r) (boxToSendTo r) (take (nat (msgLength r)) (responseMsg r))
       (set_lock index (Live (l\<lparr>sl_numWaiters := sl_numWaiters l - 1, sl_waitQueue := rest,
          sl_owner := idToSendTo r\<rparr>)) s))"

definition Server_Release :: "int \<Rightarrow> server \<Rightarrow> server res" where
  "Server_Release index s =
     bindR (table_get (serverLockTable s) index) (\<lambda>l.
       if sl_numWaiters l > 0 then grant_next index l s
       else if sl_toBeDeleted l then Inr (set_lock index Dangling s)
       else Inr (set_lock index (Live (l\<lparr>sl_owner := - 1, sl_available := True\<rparr>)) s))"

definition Server_CreateCV :: "8 word list \<Rightarrow> server \<Rightarrow> (int \<times> server) res" where
  "Server_CreateCV cvName s =
     bindR (find_name sc_name cvName (serverCVTable s) 0) (\<lambda>r. case r of
       Some (i, c) \<Rightarrow> Inr (int i, s)
     | None \<Rightarrow>
         let uniqueID = int (length (serverCVTable s)) + serverID s * 50 in
         Inr (uniqueID, s\<lparr>serverCVTable := serverCVTable s @ [Live (new_ServerCV cvName uniqueID)]\<rparr>))"

text \<open>One waiter of a condition moves to the queue of the lock.\<close>

definition move_waiter :: "int \<Rightarrow> int \<Rightarrow> ServerCV \<Rightarrow> server \<Rightarrow> (ServerCV \<times> server) res" where
  "move_waiter condIndex lockIndex c s = (case sc_waitQueue c of
     [] \<Rightarrow> Inl NullDeref
   | r # rest \<Rightarrow>
       bindR (table_get (serverLockTable s) lockIndex) (\<lambda>l.
         let c1 = c\<lparr>sc_numWaiters := sc_numWaiters c - 1, sc_waitQueue := rest\<rparr>;
             l1 = l\<lparr>sl_numWaiters := sl_numWaiters l + 1, sl_waitQueue := sl_waitQueue l @ [r]\<rparr>
         in Inr (c1, set_cv condIndex (Live c1) (set_lock lockIndex (Live l1) s))))"

definition Server_Signal :: "int \<Rightarrow> int \<Rightarrow> server \<Rightarrow> server res" where
  "Server_Signal condIndex lockIndex s =
     (if in_table condIndex (serverCVTable s)
      then bindR (table_get (serverCVTable s) condIndex) (\<lambda>c.
        if sc_serverLockIndex c = lockIndex
        then if sc_numWaiters c > 0
          then bindR (move_waiter condIndex lockIndex c s) (\<lambda>(c1, s1).
            if sc_numWaiters c1 = 0 \<and> sc_toBeDeleted c1 then Inr (set_cv condIndex Dangling s1) else Inr s1)
          else if sc_toBeDeleted c then Inr (set_cv condIndex Dangling s) else Inr s
        else Inr s)
      else Inr s)"

text \<open>The loop of \<^verbatim>\<open>Broadcast\<close> runs \<^verbatim>\<open>numWaiters\<close> times, since each round decrements it.\<close>

fun move_waiters :: "nat \<Rightarrow> int \<Rightarrow> int \<Rightarrow> ServerCV \<Rightarrow> server \<Rightarrow> (ServerCV \<times> server) res" where
  "move_waiters 0 condIndex lockIndex c s = Inr (c, s)"
| "move_waiters (Suc n) condIndex lockIndex c s =
     bindR (move_waiter condIndex lockIndex c s) (\<lambda>(c1, s1). move_waiters n condIndex lockIndex c1 s1)"

definition Server_Broadcast :: "int \<Rightarrow> int \<Rightarrow> server \<Rightarrow> server res" where
  "Server_Broadcast condIndex lockIndex s =
     (if in_table condIndex (serverCVTable s)
      then bindR (table_get (serverCVTable s) condIndex) (\<lambda>c.
        if sc_serverLockIndex c = lockIndex
        then bindR (move_waiters (nat (sc_numWaiters c)) condIndex lockIndex c s) (\<lambda>(c1, s1).
          if sc_toBeDeleted c1 then Inr (set_cv condIndex Dangling s1) else Inr s1)
        else Inr s)
      else Inr s)"

definition Server_Wait :: "int \<Rightarrow> int \<Rightarrow> server \<Rightarrow> server res" where
  "Server_Wait condIndex lockIndex s =
     bindR (table_get (serverCVTable s) condIndex) (\<lambda>c.
       let s1 = set_cv condIndex (Live (c\<lparr>sc_serverLockIndex := lockIndex\<rparr>)) s in
       bindR (table_get (serverLockTable s1) lockIndex) (\<lambda>l.
         if sl_numWaiters l > 0 then grant_next lockIndex l s1
         else Inr (set_lock lockIndex (Live (l\<lparr>sl_owner := - 1, sl_available := True\<rparr>)) s1)))"

definition Server_DestroyCV :: "int \<Rightarrow> server \<Rightarrow> server res" where
  "Server_DestroyCV index s =
     (if in_table index (serverCVTable s)
      then bindR (table_get (serverCVTable s) index) (\<lambda>c.
        if sc_numWaiters c = 0 then Inr (set_cv index Dangling s)
        else Inr (set_cv index (Live (c\<lparr>sc_toBeDeleted := True\<rparr>)) s))
      else Inr s)"

definition Server_CreateMV :: "8 word list \<Rightarrow> int \<Rightarrow> server \<Rightarrow> (int \<times> server) res" where
  "Server_CreateMV mvName numElements s =
     bindR (find_name sm_name mvName (serverMVTable s) 0) (\<lambda>r. case r of
       Some (i, v) \<Rightarrow> Inr (int i, s)
     | None \<Rightarrow>
         let uniqueID = int (length (serverMVTable s)) + serverID s * 50 in
         bindR (new_ServerMV numElements mvName uniqueID) (\<lambda>v.
           Inr (uniqueID, s\<lparr>serverMVTable := serverMVTable s @ [Live v]\<rparr>)))"

definition Server_SetMV :: "int \<Rightarrow> int \<Rightarrow> int \<Rightarrow> server \<Rightarrow> server res" where
  "Server_SetMV index arrayIndex v s =
     (if in_table index (serverMVTable s)
      then bindR (table_get (serverMVTable s) index) (\<lambda>mv.
        if - 1 < arrayIndex \<and> arrayIndex < sm_numElements mv
        then Inr (set_mv index (Live (mv\<lparr>sm_values := (sm_values mv)[nat arrayIndex := v]\<rparr>)) s)
        else Inr s)
      else Inr s)"

definition Server_GetMV :: "int \<Rightarrow> int \<Rightarrow> server \<Rightarrow> int res" where
  "Server_GetMV index arrayIndex s =
     (if in_table index (serverMVTable s)
      then bindR (table_get (serverMVTable s) index) (\<lambda>mv.
        if - 1 < arrayIndex \<and> arrayIndex < sm_numElements mv
        then Inr (sm_values mv ! nat arrayIndex) else Inr (- 1))
      else Inr (- 1))"

definition Server_DestroyMV :: "int \<Rightarrow> server \<Rightarrow> server res" where
  "Server_DestroyMV index s =
     (if in_table index (serverMVTable s)
      then bindR (table_get (serverMVTable s) index) (\<lambda>mv. Inr (set_mv index Dangling s))
      else Inr s)"

section \<open>Requests\<close>

text \<open>
  A request is the buffer of 40 bytes, zeroed before a message is received into it, with the
  machine and mailbox it came from.
\<close>

record request =
  req_bytes :: "8 word list"
  req_from :: int
  req_box :: int

definition req_get :: "request \<Rightarrow> int \<Rightarrow> 8 word res" where
  "req_get r i = (if - 1 < i \<and> nat i < length (req_bytes r) then Inr (req_bytes r ! nat i) else Inl OutOfBounds)"

text \<open>Copying the name out of the request: \<open>length\<close> bytes from position \<open>off\<close>, and the final zero.\<close>

definition req_name :: "request \<Rightarrow> nat \<Rightarrow> int \<Rightarrow> 8 word list res" where
  "req_name r off len =
     (if 0 \<le> len \<and> off + nat len \<le> length (req_bytes r)
      then Inr (take (nat len) (drop off (req_bytes r)) @ [0]) else Inl OutOfBounds)"

definition answer :: "request \<Rightarrow> 8 word \<Rightarrow> server \<Rightarrow> server res" where
  "answer r b s = send (req_from r) (req_box r) [b] s"

text \<open>The question to the other servers: they are asked in order, skipping this one.\<close>

fun forward_create :: "int list \<Rightarrow> 8 word list \<Rightarrow> server \<Rightarrow> server res" where
  "forward_create [] msg s = Inr s"
| "forward_create (i # is) msg s =
     bindR (if i \<noteq> serverID s then send i 0 msg s else Inr s) (forward_create is msg)"

definition handle_create_lock :: "request \<Rightarrow> server \<Rightarrow> server res" where
  "handle_create_lock r s =
     bindR (req_get r 0) (\<lambda>opc.
     bindR (req_get r 1) (\<lambda>nameLength.
     bindR (req_name r 2 (sint nameLength)) (\<lambda>lockName.
     bindR (getLockFromTable lockName s) (\<lambda>index.
       if index \<noteq> - 1 then answer r (word_of_int index) s
       else if numServers s = 1
       then let (index1, s1) = Server_CreateLock lockName s in answer r (word_of_int index1) s1
       else if 40 < 5 + sint nameLength then Inl OutOfBounds
       else let msg = [13, word_of_int (req_from r), word_of_int (req_box r), nameLength,
                       word_of_int (int (length (pendingRequestTable s)))] @ butlast lockName;
                p = \<lparr>noCount = 0, pr_opCode = opc, clientID = req_from r, clientMail = req_box r,
                     pr_name = lockName\<rparr>;
                s1 = s\<lparr>pendingRequestTable := pendingRequestTable s @ [p]\<rparr>
            in forward_create (map int [0..<nat (numServers s)]) msg s1))))"

definition handle_acquire :: "request \<Rightarrow> server \<Rightarrow> server res" where
  "handle_acquire r s =
     bindR (req_get r 1) (\<lambda>b. let index = sint b in
     bindR (Server_Acquire index s) (\<lambda>(canAcquire, s1).
       if canAcquire = 0
       then bindR (table_get (serverLockTable s1) index) (\<lambda>l.
         answer r 255 (set_lock index (Live (l\<lparr>sl_owner := req_from r\<rparr>)) s1))
       else if canAcquire = 1
       then bindR (table_get (serverLockTable s1) index) (\<lambda>l.
         Inr (set_lock index (Live (l\<lparr>sl_numWaiters := sl_numWaiters l + 1,
           sl_waitQueue := sl_waitQueue l @
             [\<lparr>idToSendTo = req_from r, boxToSendTo = req_box r, msgLength = 1, responseMsg = [255]\<rparr>]\<rparr>)) s1))
       else answer r 255 s1))"

definition owned_by :: "int \<Rightarrow> request \<Rightarrow> server \<Rightarrow> bool res" where
  "owned_by index r s =
     (if in_table index (serverLockTable s)
      then bindR (table_get (serverLockTable s) index) (\<lambda>l. Inr (sl_owner l = req_from r))
      else Inr False)"

definition handle_release :: "request \<Rightarrow> server \<Rightarrow> server res" where
  "handle_release r s =
     bindR (req_get r 1) (\<lambda>b. let index = sint b in
     bindR (owned_by index r s) (\<lambda>own.
     bindR (if own then Server_Release index s else Inr s) (\<lambda>s1.
     answer r 255 s1)))"

definition handle_destroy_lock :: "request \<Rightarrow> server \<Rightarrow> server res" where
  "handle_destroy_lock r s =
     bindR (req_get r 1) (\<lambda>b. bindR (Server_DestroyLock (sint b) s) (\<lambda>s1. answer r 255 s1))"

definition handle_create_cv :: "request \<Rightarrow> server \<Rightarrow> server res" where
  "handle_create_cv r s =
     bindR (req_get r 1) (\<lambda>nameLength.
     bindR (req_name r 2 (sint nameLength)) (\<lambda>cvName.
     bindR (Server_CreateCV cvName s) (\<lambda>(index, s1). answer r (word_of_int index) s1)))"

definition handle_signal :: "request \<Rightarrow> server \<Rightarrow> server res" where
  "handle_signal r s =
     bindR (req_get r 1) (\<lambda>cb. bindR (req_get r 2) (\<lambda>lb.
     bindR (owned_by (sint lb) r s) (\<lambda>own.
     bindR (if own then Server_Signal (sint cb) (sint lb) s else Inr s) (\<lambda>s1.
     answer r 255 s1))))"

definition handle_broadcast :: "request \<Rightarrow> server \<Rightarrow> server res" where
  "handle_broadcast r s =
     bindR (req_get r 1) (\<lambda>cb. bindR (req_get r 2) (\<lambda>lb.
     bindR (owned_by (sint lb) r s) (\<lambda>own.
     bindR (if own then Server_Broadcast (sint cb) (sint lb) s else Inr s) (\<lambda>s1.
     answer r 255 s1))))"

text \<open>\<open>cv_usable\<close>: the condition exists and is unused or used with this lock.\<close>

definition cv_usable :: "int \<Rightarrow> int \<Rightarrow> server \<Rightarrow> bool res" where
  "cv_usable condIndex lockIndex s =
     (if in_table condIndex (serverCVTable s)
      then bindR (table_get (serverCVTable s) condIndex) (\<lambda>c.
        Inr (sc_serverLockIndex c = lockIndex \<or> sc_serverLockIndex c = - 1))
      else Inr False)"

definition handle_wait :: "request \<Rightarrow> server \<Rightarrow> server res" where
  "handle_wait r s =
     bindR (req_get r 1) (\<lambda>cb. bindR (req_get r 2) (\<lambda>lb.
     bindR (owned_by (sint lb) r s) (\<lambda>own.
       if own
       then bindR (cv_usable (sint cb) (sint lb) s) (\<lambda>ok.
         if ok
         then bindR (Server_Wait (sint cb) (sint lb) s) (\<lambda>s1.
           bindR (table_get (serverCVTable s1) (sint cb)) (\<lambda>c.
             Inr (set_cv (sint cb) (Live (c\<lparr>sc_numWaiters := sc_numWaiters c + 1,
               sc_waitQueue := sc_waitQueue c @
                 [\<lparr>idToSendTo = req_from r, boxToSendTo = req_box r, msgLength = 1, responseMsg = [255]\<rparr>]\<rparr>)) s1)))
         else answer r 255 s)
       else answer r 255 s)))"

definition handle_destroy_cv :: "request \<Rightarrow> server \<Rightarrow> server res" where
  "handle_destroy_cv r s =
     bindR (req_get r 1) (\<lambda>b. bindR (Server_DestroyCV (sint b) s) (\<lambda>s1. answer r 255 s1))"

definition handle_create_mv :: "request \<Rightarrow> server \<Rightarrow> server res" where
  "handle_create_mv r s =
     bindR (req_get r 1) (\<lambda>len.
     bindR (req_name r 2 (sint len)) (\<lambda>mvName.
     bindR (req_get r (sint len + 2)) (\<lambda>n.
     bindR (Server_CreateMV mvName (sint n) s) (\<lambda>(index, s1). answer r (word_of_int index) s1))))"

definition handle_set_mv :: "request \<Rightarrow> server \<Rightarrow> server res" where
  "handle_set_mv r s =
     bindR (req_get r 1) (\<lambda>b. bindR (req_get r 2) (\<lambda>a. bindR (req_get r 3) (\<lambda>v.
     bindR (Server_SetMV (sint b) (sint a) (sint v) s) (\<lambda>s1. answer r 127 s1))))"

definition handle_get_mv :: "request \<Rightarrow> server \<Rightarrow> server res" where
  "handle_get_mv r s =
     bindR (req_get r 1) (\<lambda>b. bindR (req_get r 2) (\<lambda>a.
     bindR (Server_GetMV (sint b) (sint a) s) (\<lambda>v. answer r (word_of_int v) s)))"

definition handle_destroy_mv :: "request \<Rightarrow> server \<Rightarrow> server res" where
  "handle_destroy_mv r s =
     bindR (req_get r 1) (\<lambda>b. bindR (Server_DestroyMV (sint b) s) (\<lambda>s1. answer r 127 s1))"

definition handle_server_create :: "request \<Rightarrow> server \<Rightarrow> server res" where
  "handle_server_create r s =
     bindR (req_get r 1) (\<lambda>cid. bindR (req_get r 2) (\<lambda>cmail. bindR (req_get r 3) (\<lambda>len.
     bindR (req_get r 4) (\<lambda>rid.
     bindR (req_name r 5 (sint len)) (\<lambda>locksName.
     bindR (getLockFromTable locksName s) (\<lambda>index.
       if index \<noteq> - 1
       then bindR (send (req_from r) (req_box r) [14, 1, rid] s) (send (sint cid) (sint cmail) [word_of_int index])
       else send (req_from r) (req_box r) [14, 0, rid] s))))))"

text \<open>The identifier of the pending request is read from the new reply buffer, not from the request.\<close>

definition handle_server_reply :: "(nat \<Rightarrow> 8 word) \<Rightarrow> request \<Rightarrow> server \<Rightarrow> server res" where
  "handle_server_reply fresh r s =
     bindR (req_get r 1) (\<lambda>b.
       if b = 0
       then let responseID = sint (fresh 2) in
         bindR (updatePendingRequestTable responseID s) (\<lambda>(numNos, s1).
           if numNos = numServers s1 - 1
           then let pr = pendingRequestTable s1 ! nat responseID;
                    (index, s2) = Server_CreateLock (pr_name pr) s1
                in send (clientID pr) (clientMail pr) [word_of_int index] s2
           else Inr s1)
       else Inr s)"

definition Server_request :: "(nat \<Rightarrow> 8 word) \<Rightarrow> request \<Rightarrow> server \<Rightarrow> server res" where
  "Server_request fresh r s =
     bindR (req_get r 0) (\<lambda>b. let opc = sint b in
       if opc = 0 then handle_create_lock r s
       else if opc = 1 then handle_acquire r s
       else if opc = 2 then handle_release r s
       else if opc = 3 then handle_destroy_lock r s
       else if opc = 4 then handle_create_cv r s
       else if opc = 5 then handle_signal r s
       else if opc = 6 then handle_broadcast r s
       else if opc = 7 then handle_wait r s
       else if opc = 8 then handle_destroy_cv r s
       else if opc = 9 then handle_create_mv r s
       else if opc = 10 then handle_set_mv r s
       else if opc = 11 then handle_get_mv r s
       else if opc = 12 then handle_destroy_mv r s
       else if opc = 13 then handle_server_create r s
       else if opc = 14 then handle_server_reply fresh r s
       else Inr s)"

text \<open>The loop of \<^verbatim>\<open>Server\<close> over the messages it receives.\<close>

fun Server :: "((nat \<Rightarrow> 8 word) \<times> request) list \<Rightarrow> server \<Rightarrow> server res" where
  "Server [] s = Inr s"
| "Server ((fresh, r) # rs) s = bindR (Server_request fresh r s) (Server rs)"

definition new_server :: "int \<Rightarrow> int \<Rightarrow> server" where
  "new_server sid n = \<lparr>serverLockTable = [], serverCVTable = [], serverMVTable = [], pendingRequestTable = [],
     outbox = [], serverID = sid, numServers = n\<rparr>"

definition mk_request :: "8 word list \<Rightarrow> int \<Rightarrow> int \<Rightarrow> request" where
  "mk_request bytes from box = \<lparr>req_bytes = take 40 (bytes @ replicate 40 0), req_from = from, req_box = box\<rparr>"

end
