(* ===== verification/Server_Props.thy ===== *)
theory Server_Props
  imports Net_Server
begin

text \<open>
  Correctness of the network server: as long as nothing is destroyed, a single server handles
  every well-formed request from a legal mailbox without an error and keeps its tables consistent; a
  lock is taken from a client only by that client; waiters are served in order; monitor variables keep what
  is stored. The last section records what goes wrong after a destroy request and with
  several servers.
\<close>

section \<open>The invariant\<close>

definition reply_wf :: "ReplyMsg \<Rightarrow> bool" where
  "reply_wf m \<longleftrightarrow> 0 \<le> idToSendTo m \<and> legal_box (boxToSendTo m) \<and> msgLength m = 1 \<and> responseMsg m = [255]"

definition lock_wf :: "ServerLock \<Rightarrow> bool" where
  "lock_wf l \<longleftrightarrow> sl_numWaiters l = int (length (sl_waitQueue l)) \<and> list_all reply_wf (sl_waitQueue l) \<and>
     (if sl_available l then sl_owner l = - 1 \<and> sl_waitQueue l = [] else 0 \<le> sl_owner l) \<and> \<not> sl_toBeDeleted l"

definition cv_wf :: "ServerCV \<Rightarrow> bool" where
  "cv_wf c \<longleftrightarrow> sc_numWaiters c = int (length (sc_waitQueue c)) \<and> list_all reply_wf (sc_waitQueue c) \<and>
     \<not> sc_toBeDeleted c"

definition mv_wf :: "ServerMV \<Rightarrow> bool" where
  "mv_wf v \<longleftrightarrow> sm_numElements v = int (length (sm_values v))"

definition live :: "('a \<Rightarrow> bool) \<Rightarrow> 'a cell \<Rightarrow> bool" where
  "live P c = (case c of Live x \<Rightarrow> P x | Dangling \<Rightarrow> False)"

definition srv_inv :: "server \<Rightarrow> bool" where
  "srv_inv s \<longleftrightarrow> list_all (live lock_wf) (serverLockTable s) \<and> list_all (live cv_wf) (serverCVTable s) \<and>
     list_all (live mv_wf) (serverMVTable s) \<and> numServers s = 1"

lemma live_Live [simp]: "live P (Live x) = P x"
  by (simp add: live_def)

lemma live_mono: "list_all (live P) t \<Longrightarrow> (\<And>x. P x \<Longrightarrow> Q x) \<Longrightarrow> list_all (live Q) t"
  by (fastforce simp: list_all_iff live_def split: cell.splits)

lemma table_get_live:
  assumes "list_all (live P) t" "in_table i t"
  obtains x where "table_get t i = Inr x" "P x" "t ! nat i = Live x"
proof -
  have "live P (t ! nat i)" using assms by (auto simp: in_table_def list_all_length)
  then obtain x where "t ! nat i = Live x" "P x" by (auto simp: live_def split: cell.splits)
  then show thesis using that assms(2) by (auto simp: table_get_def deref_cell_def)
qed

lemma find_name_live:
  "list_all (live P) t \<Longrightarrow> \<exists>r. find_name nm key t k = Inr r"
  by (induction t arbitrary: k) (auto simp: live_def deref_cell_def split: cell.splits)

lemma srv_inv_sets:
  "srv_inv s \<Longrightarrow> lock_wf l \<Longrightarrow> srv_inv (set_lock i (Live l) s)"
  "srv_inv s \<Longrightarrow> cv_wf c \<Longrightarrow> srv_inv (set_cv i (Live c) s)"
  "srv_inv s \<Longrightarrow> mv_wf v \<Longrightarrow> srv_inv (set_mv i (Live v) s)"
  by (auto simp: srv_inv_def set_lock_def set_cv_def set_mv_def list_all_iff dest!: set_update_subset_insert [THEN subsetD])

text \<open>The state after a reply has been posted.\<close>

definition answered :: "request \<Rightarrow> 8 word \<Rightarrow> server \<Rightarrow> server" where
  "answered r b s = posted (req_from r) (req_box r) [b] s"

lemma answer_ok [simp]: "legal_box (req_box r) \<Longrightarrow> answer r b s = Inr (answered r b s)"
  by (simp add: answer_def send_def answered_def)

lemma srv_inv_outbox [simp]:
  "srv_inv (posted to box bytes s) = srv_inv s" "srv_inv (answered r b s) = srv_inv s"
  by (simp_all add: srv_inv_def posted_def answered_def)

text \<open>\<open>held s i c\<close>: client machine \<open>c\<close> holds the lock \<open>i\<close>.\<close>

definition held :: "server \<Rightarrow> int \<Rightarrow> int \<Rightarrow> bool" where
  "held s i c \<longleftrightarrow> in_table i (serverLockTable s) \<and>
     (case serverLockTable s ! nat i of Live l \<Rightarrow> \<not> sl_available l \<and> sl_owner l = c | Dangling \<Rightarrow> False)"

lemma held_simps [simp]:
  "held (posted to box bytes s) i c = held s i c" "held (answered r b s) i c = held s i c"
  "held (set_cv j d s) i c = held s i c" "held (set_mv j v s) i c = held s i c"
  by (simp_all add: held_def posted_def answered_def set_cv_def set_mv_def)

lemma held_set_lock:
  "in_table j (serverLockTable s) \<Longrightarrow> held (set_lock j (Live l) s) i c =
     (if i = j then \<not> sl_available l \<and> sl_owner l = c else held s i c)"
  by (auto simp: held_def set_lock_def in_table_def nth_list_update split: cell.splits)

lemma held_Live:
  "in_table i (serverLockTable s) \<Longrightarrow> serverLockTable s ! nat i = Live l \<Longrightarrow>
     held s i c \<longleftrightarrow> \<not> sl_available l \<and> sl_owner l = c"
  by (simp add: held_def)

lemma tables_simps [simp]:
  "serverLockTable (posted to box bytes s) = serverLockTable s" "serverLockTable (set_cv j d s) = serverLockTable s"
  "serverCVTable (posted to box bytes s) = serverCVTable s" "serverCVTable (set_lock j k s) = serverCVTable s"
  "serverLockTable (set_lock j k s) = (serverLockTable s)[nat j := k]"
  "serverCVTable (set_cv j d s) = (serverCVTable s)[nat j := d]"
  "serverMVTable (set_mv j v s) = (serverMVTable s)[nat j := v]"
  by (simp_all add: posted_def set_cv_def set_lock_def set_mv_def)

text \<open>
  \<open>extends s s'\<close>: \<open>s'\<close> has the locks of \<open>s\<close>, with the same numbers and names at the same places, and
  perhaps more, numbered by their places.
\<close>

definition lock_ident :: "ServerLock cell \<Rightarrow> (int \<times> 8 word list) option" where
  "lock_ident c = (case c of Live l \<Rightarrow> Some (sl_id l, sl_name l) | Dangling \<Rightarrow> None)"

definition extends :: "server \<Rightarrow> server \<Rightarrow> bool" where
  "extends s s' \<longleftrightarrow> serverID s' = serverID s \<and> numServers s' = numServers s \<and>
     length (serverLockTable s) \<le> length (serverLockTable s') \<and>
     (\<forall>i < length (serverLockTable s'). if i < length (serverLockTable s)
        then lock_ident (serverLockTable s' ! i) = lock_ident (serverLockTable s ! i)
        else \<exists>nm. lock_ident (serverLockTable s' ! i) = Some (int i + serverID s * 50, nm))"

lemma extends_simps [simp]:
  "extends s s" "extends s (posted to box bytes s') = extends s s'" "extends s (answered r b s') = extends s s'"
  "extends s (set_cv j d s') = extends s s'" "extends s (set_mv j v s') = extends s s'"
  by (simp_all add: extends_def posted_def answered_def set_cv_def set_mv_def)

lemma extends_trans: "extends s s1 \<Longrightarrow> extends s1 s2 \<Longrightarrow> extends s s2"
  unfolding extends_def by (smt (verit) order.strict_trans2 order_trans)

lemma extends_set_lock:
  assumes "serverLockTable s ! nat j = Live l" "sl_id l' = sl_id l" "sl_name l' = sl_name l" "extends s0 s"
  shows "extends s0 (set_lock j (Live l') s)"
proof -
  have "lock_ident (Live l') = lock_ident (Live l)" using assms(2,3) by (simp add: lock_ident_def)
  then have "lock_ident ((serverLockTable s)[nat j := Live l'] ! i) = lock_ident (serverLockTable s ! i)"
    if "i < length (serverLockTable s)" for i using assms(1) that by (cases "i = nat j") simp_all
  then show ?thesis using assms(4) by (simp add: extends_def set_lock_def)
qed

lemma in_table_update [simp]: "in_table i (t[j := x]) = in_table i t"
  by (simp add: in_table_def)

lemma req_name_ok:
  assumes "length (req_bytes r) = 40" "0 \<le> n" "n \<le> 38"
  shows "req_name r 2 n = Inr (take (nat n) (drop 2 (req_bytes r)) @ [0])"
proof -
  have "2 + nat n \<le> 40" using assms(2,3) by linarith
  then show ?thesis using assms(1,2) by (simp add: req_name_def)
qed

lemma req_get_ok:
  assumes "length (req_bytes r) = 40" "0 \<le> i" "i < 40"
  shows "req_get r i = Inr (req_bytes r ! nat i)"
  using assms by (simp add: req_get_def)

text \<open>
  \<open>step_ok\<close>: what every request preserves. The request succeeds, the invariant holds again, the
  locks stay where they are and any holder keeps its lock, unless \<open>gives i\<close> allows the sender to give the lock \<open>i\<close> up.
\<close>

definition step_ok :: "(int \<Rightarrow> bool) \<Rightarrow> request \<Rightarrow> server \<Rightarrow> server res \<Rightarrow> bool" where
  "step_ok gives r s res \<longleftrightarrow> (\<exists>s'. res = Inr s' \<and> srv_inv s' \<and> extends s s' \<and>
     (\<forall>i c. held s i c \<longrightarrow> held s' i c \<or> c = req_from r \<and> gives i))"

lemma step_okI: "srv_inv s' \<Longrightarrow> extends s s' \<Longrightarrow> (\<And>i c. held s i c \<Longrightarrow> held s' i c \<or> c = req_from r \<and> gives i) \<Longrightarrow>
    step_ok gives r s (Inr s')"
  by (simp add: step_ok_def)

lemma step_ok_answer: "srv_inv s \<Longrightarrow> step_ok gives r s (Inr (answered r b s))"
  by (simp add: step_ok_def)

section \<open>Locks\<close>

lemma acquire_step:
  assumes inv: "srv_inv s" and len: "length (req_bytes r) = 40" and frm: "0 \<le> req_from r"
    and bx: "legal_box (req_box r)"
  shows "step_ok gives r s (handle_acquire r s)"
proof -
  note [simp] = answer_ok [OF bx]
  let ?i = "sint (req_bytes r ! 1)"
  have g: "req_get r 1 = Inr (req_bytes r ! 1)" using req_get_ok [OF len] by simp
  show ?thesis
  proof (cases "in_table ?i (serverLockTable s)")
    case False
    then show ?thesis using inv g by (simp add: handle_acquire_def Server_Acquire_def step_ok_answer)
  next
    case True
    obtain l where l: "table_get (serverLockTable s) ?i = Inr l" "lock_wf l" "serverLockTable s ! nat ?i = Live l"
      using table_get_live [OF _ True] inv by (auto simp: srv_inv_def)
    have n: "nat ?i < length (serverLockTable s)" using True by (simp add: in_table_def)
    show ?thesis
    proof (cases "sl_available l")
      case av: True
      let ?l = "l\<lparr>sl_available := False, sl_owner := req_from r\<rparr>"
      have "handle_acquire r s = Inr (answered r 255 (set_lock ?i (Live ?l) s))"
        using g True l av n
        by (simp add: handle_acquire_def Server_Acquire_def table_get_def deref_cell_def set_lock_def)
      moreover have "lock_wf ?l" using l(2) av frm by (simp add: lock_wf_def)
      moreover have "held (set_lock ?i (Live ?l) s) i c" if "held s i c" for i c
        using that True l(3) av held_Live [OF True l(3)] by (auto simp: held_set_lock)
      ultimately show ?thesis using inv srv_inv_sets(1) [OF inv] extends_set_lock [OF l(3)] by (auto intro: step_okI)
    next
      case bu: False
      let ?m = "\<lparr>idToSendTo = req_from r, boxToSendTo = req_box r, msgLength = 1, responseMsg = [255]\<rparr>"
      let ?l = "l\<lparr>sl_numWaiters := sl_numWaiters l + 1, sl_waitQueue := sl_waitQueue l @ [?m]\<rparr>"
      have "handle_acquire r s = Inr (set_lock ?i (Live ?l) s)"
        using g True l bu by (simp add: handle_acquire_def Server_Acquire_def)
      moreover have "lock_wf ?l" using l(2) bu frm bx by (simp add: lock_wf_def reply_wf_def)
      moreover have "held (set_lock ?i (Live ?l) s) i c" if "held s i c" for i c
        using that held_Live [OF True l(3), of c] True by (auto simp: held_set_lock)
      ultimately show ?thesis using srv_inv_sets(1) [OF inv] extends_set_lock [OF l(3)] by (auto intro: step_okI)
    qed
  qed
qed

lemma owned_by_ok:
  assumes "srv_inv s"
  obtains own where "owned_by i r s = Inr own"
    "own \<Longrightarrow> in_table i (serverLockTable s) \<and> (\<exists>l. serverLockTable s ! nat i = Live l \<and>
      table_get (serverLockTable s) i = Inr l \<and> lock_wf l \<and> sl_owner l = req_from r)"
proof (cases "in_table i (serverLockTable s)")
  case True
  obtain l where "table_get (serverLockTable s) i = Inr l" "lock_wf l" "serverLockTable s ! nat i = Live l"
    using table_get_live [OF _ True] assms by (auto simp: srv_inv_def)
  then show thesis using that [of "sl_owner l = req_from r"] True by (auto simp: owned_by_def)
next
  case False
  then show thesis using that [of False] by (simp add: owned_by_def)
qed

text \<open>Giving a lock up: to the first waiter, or to nobody.\<close>

definition passed_on :: "ServerLock \<Rightarrow> ServerLock" where
  "passed_on l = (case sl_waitQueue l of
     [] \<Rightarrow> l\<lparr>sl_owner := - 1, sl_available := True\<rparr>
   | m # ms \<Rightarrow> l\<lparr>sl_numWaiters := sl_numWaiters l - 1, sl_waitQueue := ms, sl_owner := idToSendTo m\<rparr>)"

definition notify :: "ServerLock \<Rightarrow> server \<Rightarrow> server" where
  "notify l s = (case sl_waitQueue l of [] \<Rightarrow> s | m # ms \<Rightarrow> posted (idToSendTo m) (boxToSendTo m) [255] s)"

lemma passed_on_wf: "lock_wf l \<Longrightarrow> \<not> sl_available l \<Longrightarrow> lock_wf (passed_on l)"
  by (cases "sl_waitQueue l") (auto simp: passed_on_def lock_wf_def reply_wf_def)

lemma passed_on_ident: "sl_id (passed_on l) = sl_id l" "sl_name (passed_on l) = sl_name l"
  by (simp_all add: passed_on_def split: list.splits)

lemma notify_inv [simp]: "srv_inv (notify l s) = srv_inv s" "held (notify l s) i c = held s i c"
  "extends s0 (notify l s) = extends s0 s"
  by (simp_all add: notify_def split: list.splits)

lemma pass_on_eq:
  assumes "lock_wf l"
  shows "(if sl_numWaiters l > 0 then grant_next i l s
      else Inr (set_lock i (Live (l\<lparr>sl_owner := - 1, sl_available := True\<rparr>)) s)) =
    Inr (notify l (set_lock i (Live (passed_on l)) s))"
  using assms
  by (cases "sl_waitQueue l") (auto simp: grant_next_def send_def passed_on_def notify_def lock_wf_def reply_wf_def)

lemma Server_Release_eq:
  assumes "table_get (serverLockTable s) i = Inr l" "lock_wf l"
  shows "Server_Release i s = Inr (notify l (set_lock i (Live (passed_on l)) s))"
  using pass_on_eq [OF assms(2), of i s] assms by (auto simp: Server_Release_def lock_wf_def split: if_splits)

lemma pass_on_step:
  assumes "srv_inv s" "in_table j (serverLockTable s)" "serverLockTable s ! nat j = Live l" "lock_wf l"
    "sl_owner l = req_from r" "0 \<le> req_from r"
  shows "srv_inv (notify l (set_lock j (Live (passed_on l)) s))"
    "held s i c \<Longrightarrow> held (notify l (set_lock j (Live (passed_on l)) s)) i c \<or> c = req_from r \<and> i = j"
proof -
  have "\<not> sl_available l" using assms(4-6) by (auto simp: lock_wf_def split: if_splits)
  then show "srv_inv (notify l (set_lock j (Live (passed_on l)) s))"
    using srv_inv_sets(1) [OF assms(1)] passed_on_wf assms(4) by simp
  show "held s i c \<Longrightarrow> held (notify l (set_lock j (Live (passed_on l)) s)) i c \<or> c = req_from r \<and> i = j"
    using held_Live [OF assms(2,3), of c] assms(2,5) by (cases "i = j") (auto simp: held_set_lock)
qed

lemma release_step:
  assumes inv: "srv_inv s" and len: "length (req_bytes r) = 40" and frm: "0 \<le> req_from r"
    and bx: "legal_box (req_box r)"
  shows "step_ok (\<lambda>i. i = sint (req_bytes r ! 1)) r s (handle_release r s)"
proof -
  note [simp] = answer_ok [OF bx]
  let ?j = "sint (req_bytes r ! 1)"
  have g: "req_get r 1 = Inr (req_bytes r ! 1)" using req_get_ok [OF len] by simp
  obtain own where own: "owned_by ?j r s = Inr own"
    "own \<Longrightarrow> in_table ?j (serverLockTable s) \<and> (\<exists>l. serverLockTable s ! nat ?j = Live l \<and>
      table_get (serverLockTable s) ?j = Inr l \<and> lock_wf l \<and> sl_owner l = req_from r)"
    using owned_by_ok [OF inv] by blast
  show ?thesis
  proof (cases own)
    case False
    then show ?thesis using g own(1) inv by (simp add: handle_release_def step_ok_answer)
  next
    case True
    then obtain l where l: "in_table ?j (serverLockTable s)" "serverLockTable s ! nat ?j = Live l"
      "table_get (serverLockTable s) ?j = Inr l" "lock_wf l" "sl_owner l = req_from r" using own(2) by blast
    have "handle_release r s = Inr (answered r 255 (notify l (set_lock ?j (Live (passed_on l)) s)))"
      using g own(1) True Server_Release_eq [OF l(3,4)] by (simp add: handle_release_def)
    then show ?thesis using pass_on_step [OF inv l(1,2,4,5) frm] extends_set_lock [OF l(2) passed_on_ident]
      by (simp add: step_ok_def)
  qed
qed

section \<open>Conditions\<close>

lemma move_waiter_step:
  assumes inv: "srv_inv s" and c: "cv_wf c" "sc_waitQueue c \<noteq> []"
    and l: "in_table j (serverLockTable s)" "serverLockTable s ! nat j = Live l" "\<not> sl_available l"
  shows "\<exists>c1 l1 s1. move_waiter k j c s = Inr (c1, s1) \<and> cv_wf c1 \<and> sc_waitQueue c1 = tl (sc_waitQueue c) \<and>
    srv_inv s1 \<and> in_table j (serverLockTable s1) \<and> serverLockTable s1 ! nat j = Live l1 \<and> \<not> sl_available l1 \<and>
    (\<forall>i h. held s i h \<longrightarrow> held s1 i h) \<and> extends s s1 \<and> sl_waitQueue l1 = sl_waitQueue l @ [hd (sc_waitQueue c)]"
proof -
  obtain m ms where q: "sc_waitQueue c = m # ms" using c(2) by (cases "sc_waitQueue c") auto
  have lw: "lock_wf l" using inv l(1,2) by (auto simp: srv_inv_def in_table_def list_all_length)
  let ?c = "c\<lparr>sc_numWaiters := sc_numWaiters c - 1, sc_waitQueue := ms\<rparr>"
  let ?l = "l\<lparr>sl_numWaiters := sl_numWaiters l + 1, sl_waitQueue := sl_waitQueue l @ [m]\<rparr>"
  let ?s = "set_cv k (Live ?c) (set_lock j (Live ?l) s)"
  have "move_waiter k j c s = Inr (?c, ?s)"
    using q l by (simp add: move_waiter_def table_get_def deref_cell_def Let_def)
  moreover have cw: "cv_wf ?c" and "lock_wf ?l" using c(1) q lw l(3) by (auto simp: cv_wf_def lock_wf_def)
  moreover have "srv_inv ?s" using srv_inv_sets(1) [OF inv \<open>lock_wf ?l\<close>] cw by (rule srv_inv_sets(2))
  moreover have "held ?s i h" if "held s i h" for i h
    using that held_Live [OF l(1,2), of h] l(1) by (auto simp: held_set_lock)
  moreover have "nat j < length (serverLockTable s)" using l(1) by (simp add: in_table_def)
  moreover have "extends s ?s" using extends_set_lock [OF l(2)] by simp
  ultimately show ?thesis using q l(1,3) by (intro exI [of _ ?c] exI [of _ ?l] exI [of _ ?s]) simp
qed

lemma move_waiters_step:
  assumes "srv_inv s" "cv_wf c" "in_table j (serverLockTable s)" "serverLockTable s ! nat j = Live l" "\<not> sl_available l"
  shows "\<exists>c1 l1 s1. move_waiters (length (sc_waitQueue c)) k j c s = Inr (c1, s1) \<and> cv_wf c1 \<and> sc_waitQueue c1 = [] \<and>
    srv_inv s1 \<and> serverLockTable s1 ! nat j = Live l1 \<and> (\<forall>i h. held s i h \<longrightarrow> held s1 i h) \<and>
    extends s s1 \<and> sl_waitQueue l1 = sl_waitQueue l @ sc_waitQueue c"
  using assms
proof (induction "sc_waitQueue c" arbitrary: c s l)
  case Nil
  then show ?case by (auto simp: Nil(1) [symmetric])
next
  case (Cons m ms)
  obtain c1 l1 s1 where s1: "move_waiter k j c s = Inr (c1, s1)" "cv_wf c1" "sc_waitQueue c1 = ms"
    "srv_inv s1" "in_table j (serverLockTable s1)" "serverLockTable s1 ! nat j = Live l1" "\<not> sl_available l1"
    "\<forall>i h. held s i h \<longrightarrow> held s1 i h" "sl_waitQueue l1 = sl_waitQueue l @ [m]" "extends s s1"
    using move_waiter_step [OF Cons.prems(1,2) _ Cons.prems(3-5), of k] Cons.hyps(2) [symmetric] by auto
  from Cons.hyps(1) [OF s1(3) [symmetric] s1(4,2,5,6,7)] obtain c2 l2 s2 where
    "move_waiters (length ms) k j c1 s1 = Inr (c2, s2)" "cv_wf c2" "sc_waitQueue c2 = []" "srv_inv s2"
    "serverLockTable s2 ! nat j = Live l2" "\<forall>i h. held s1 i h \<longrightarrow> held s2 i h" "sl_waitQueue l2 = sl_waitQueue l1 @ ms"
    "extends s1 s2"
    using s1(3) by auto
  then show ?case using s1(1,8,9) extends_trans [OF s1(10)] Cons.hyps(2) [symmetric] by auto
qed

lemma signal_cases_ok:
  assumes inv: "srv_inv s" and l: "in_table j (serverLockTable s)" "serverLockTable s ! nat j = Live l" "\<not> sl_available l"
  shows "\<exists>s1. Server_Signal k j s = Inr s1 \<and> srv_inv s1 \<and> extends s s1 \<and> (\<forall>i h. held s i h \<longrightarrow> held s1 i h)"
    and "\<exists>s1. Server_Broadcast k j s = Inr s1 \<and> srv_inv s1 \<and> extends s s1 \<and> (\<forall>i h. held s i h \<longrightarrow> held s1 i h)"
proof -
  have "(\<exists>s1. Server_Signal k j s = Inr s1 \<and> srv_inv s1 \<and> extends s s1 \<and> (\<forall>i h. held s i h \<longrightarrow> held s1 i h)) \<and>
    (\<exists>s1. Server_Broadcast k j s = Inr s1 \<and> srv_inv s1 \<and> extends s s1 \<and> (\<forall>i h. held s i h \<longrightarrow> held s1 i h))"
  proof (cases "in_table k (serverCVTable s)")
    case True
    obtain c where c: "table_get (serverCVTable s) k = Inr c" "cv_wf c"
      using table_get_live [OF _ True] inv by (auto simp: srv_inv_def)
    have n: "nat (sc_numWaiters c) = length (sc_waitQueue c)" "sc_numWaiters c > 0 \<longleftrightarrow> sc_waitQueue c \<noteq> []"
      "\<not> sc_toBeDeleted c" using c(2) by (auto simp: cv_wf_def)
    have "\<exists>s1. Server_Signal k j s = Inr s1 \<and> srv_inv s1 \<and> extends s s1 \<and> (\<forall>i h. held s i h \<longrightarrow> held s1 i h)"
    proof (cases "sc_serverLockIndex c = j \<and> sc_waitQueue c \<noteq> []")
      case wt: True
      with move_waiter_step [OF inv c(2) _ l, of k] obtain c1 s1 where "move_waiter k j c s = Inr (c1, s1)"
        "cv_wf c1" "srv_inv s1" "extends s s1" "\<forall>i h. held s i h \<longrightarrow> held s1 i h" by blast
      then show ?thesis using True c n wt by (auto simp: Server_Signal_def cv_wf_def)
    next
      case False
      then show ?thesis using True c n inv by (auto simp: Server_Signal_def)
    qed
    moreover have "\<exists>s1. Server_Broadcast k j s = Inr s1 \<and> srv_inv s1 \<and> extends s s1 \<and> (\<forall>i h. held s i h \<longrightarrow> held s1 i h)"
    proof (cases "sc_serverLockIndex c = j")
      case wt: True
      with move_waiters_step [OF inv c(2) l, of k] obtain c1 s1 where
        "move_waiters (length (sc_waitQueue c)) k j c s = Inr (c1, s1)"
        "cv_wf c1" "srv_inv s1" "extends s s1" "\<forall>i h. held s i h \<longrightarrow> held s1 i h" by blast
      then show ?thesis using True c n wt by (auto simp: Server_Broadcast_def cv_wf_def)
    qed (use True c inv in \<open>auto simp: Server_Broadcast_def\<close>)
    ultimately show ?thesis ..
  qed (use inv in \<open>simp add: Server_Signal_def Server_Broadcast_def\<close>)
  then show "\<exists>s1. Server_Signal k j s = Inr s1 \<and> srv_inv s1 \<and> extends s s1 \<and> (\<forall>i h. held s i h \<longrightarrow> held s1 i h)"
    and "\<exists>s1. Server_Broadcast k j s = Inr s1 \<and> srv_inv s1 \<and> extends s s1 \<and> (\<forall>i h. held s i h \<longrightarrow> held s1 i h)" by blast+
qed

lemma signal_step:
  assumes inv: "srv_inv s" and len: "length (req_bytes r) = 40" and frm: "0 \<le> req_from r"
    and bx: "legal_box (req_box r)"
  shows "step_ok gives r s (handle_signal r s)" "step_ok gives r s (handle_broadcast r s)"
proof -
  note [simp] = answer_ok [OF bx]
  let ?k = "sint (req_bytes r ! 1)" and ?j = "sint (req_bytes r ! 2)"
  have g: "req_get r 1 = Inr (req_bytes r ! 1)" "req_get r 2 = Inr (req_bytes r ! 2)" using req_get_ok [OF len] by simp_all
  obtain own where own: "owned_by ?j r s = Inr own"
    "own \<Longrightarrow> in_table ?j (serverLockTable s) \<and> (\<exists>l. serverLockTable s ! nat ?j = Live l \<and>
      table_get (serverLockTable s) ?j = Inr l \<and> lock_wf l \<and> sl_owner l = req_from r)"
    using owned_by_ok [OF inv] by blast
  show "step_ok gives r s (handle_signal r s)" "step_ok gives r s (handle_broadcast r s)"
  proof (atomize (full), cases own)
    case False
    then show "step_ok gives r s (handle_signal r s) \<and> step_ok gives r s (handle_broadcast r s)"
      using g own(1) inv by (simp add: handle_signal_def handle_broadcast_def step_ok_answer)
  next
    case True
    then obtain l where l: "in_table ?j (serverLockTable s)" "serverLockTable s ! nat ?j = Live l"
      "lock_wf l" "sl_owner l = req_from r" using own(2) by blast
    then have "\<not> sl_available l" using frm by (auto simp: lock_wf_def split: if_splits)
    note sc = signal_cases_ok [OF inv l(1,2) this, of ?k]
    show "step_ok gives r s (handle_signal r s) \<and> step_ok gives r s (handle_broadcast r s)"
      using g own(1) True sc by (auto simp: handle_signal_def handle_broadcast_def step_ok_def)
  qed
qed

lemma cv_usable_ok:
  assumes "srv_inv s"
  obtains ok where "cv_usable k j s = Inr ok"
    "ok \<Longrightarrow> in_table k (serverCVTable s) \<and> (\<exists>c. table_get (serverCVTable s) k = Inr c \<and> cv_wf c)"
proof (cases "in_table k (serverCVTable s)")
  case True
  obtain c where "table_get (serverCVTable s) k = Inr c" "cv_wf c"
    using table_get_live [OF _ True] assms by (auto simp: srv_inv_def)
  then show thesis using that [of "sc_serverLockIndex c = j \<or> sc_serverLockIndex c = - 1"] True by (auto simp: cv_usable_def)
next
  case False
  then show thesis using that [of False] by (simp add: cv_usable_def)
qed

lemma notify_tables [simp]: "serverCVTable (notify l s) = serverCVTable s" "serverLockTable (notify l s) = serverLockTable s"
  by (simp_all add: notify_def split: list.splits)

lemma wait_step:
  assumes inv: "srv_inv s" and len: "length (req_bytes r) = 40" and frm: "0 \<le> req_from r"
    and bx: "legal_box (req_box r)"
  shows "step_ok (\<lambda>i. i = sint (req_bytes r ! 2)) r s (handle_wait r s)"
proof -
  note [simp] = answer_ok [OF bx]
  let ?k = "sint (req_bytes r ! 1)" and ?j = "sint (req_bytes r ! 2)"
  have g: "req_get r 1 = Inr (req_bytes r ! 1)" "req_get r 2 = Inr (req_bytes r ! 2)" using req_get_ok [OF len] by simp_all
  obtain own where own: "owned_by ?j r s = Inr own"
    "own \<Longrightarrow> in_table ?j (serverLockTable s) \<and> (\<exists>l. serverLockTable s ! nat ?j = Live l \<and>
      table_get (serverLockTable s) ?j = Inr l \<and> lock_wf l \<and> sl_owner l = req_from r)"
    using owned_by_ok [OF inv] by blast
  obtain ok where ok: "cv_usable ?k ?j s = Inr ok"
    "ok \<Longrightarrow> in_table ?k (serverCVTable s) \<and> (\<exists>c. table_get (serverCVTable s) ?k = Inr c \<and> cv_wf c)"
    using cv_usable_ok [OF inv] by blast
  show ?thesis
  proof (cases "own \<and> ok")
    case False
    then show ?thesis using g own(1) ok(1) inv by (auto simp: handle_wait_def step_ok_answer)
  next
    case True
    then obtain l c where l: "in_table ?j (serverLockTable s)" "serverLockTable s ! nat ?j = Live l"
      "table_get (serverLockTable s) ?j = Inr l" "lock_wf l" "sl_owner l = req_from r"
      and c: "in_table ?k (serverCVTable s)" "table_get (serverCVTable s) ?k = Inr c" "cv_wf c" using own(2) ok(2) by blast
    let ?m = "\<lparr>idToSendTo = req_from r, boxToSendTo = req_box r, msgLength = 1, responseMsg = [255]\<rparr>"
    let ?c1 = "c\<lparr>sc_serverLockIndex := ?j\<rparr>"
    let ?c2 = "?c1\<lparr>sc_numWaiters := sc_numWaiters c + 1, sc_waitQueue := sc_waitQueue c @ [?m]\<rparr>"
    let ?s1 = "set_cv ?k (Live ?c1) s"
    let ?s2 = "notify l (set_lock ?j (Live (passed_on l)) ?s1)"
    have i1: "srv_inv ?s1" using inv c(3) by (intro srv_inv_sets) (auto simp: cv_wf_def)
    have "Server_Wait ?k ?j s = Inr ?s2"
      using c(2) l(3) by (simp add: Server_Wait_def Let_def pass_on_eq [OF l(4)])
    moreover have "table_get (serverCVTable ?s2) ?k = Inr ?c1"
      using c(1) by (simp add: table_get_def deref_cell_def in_table_def)
    ultimately have h: "handle_wait r s = Inr (set_cv ?k (Live ?c2) ?s2)"
      using g own(1) ok(1) True by (simp add: handle_wait_def)
    have p: "srv_inv ?s2" "held ?s1 i h \<Longrightarrow> held ?s2 i h \<or> h = req_from r \<and> i = ?j" for i h
      using pass_on_step [OF i1 _ _ l(4,5) frm, of ?j] l(1,2) by auto
    have "cv_wf ?c2" using c(3) frm bx by (simp add: cv_wf_def reply_wf_def)
    then have "srv_inv (set_cv ?k (Live ?c2) ?s2)" using p(1) by (rule srv_inv_sets(2) [rotated])
    moreover have "held (set_cv ?k (Live ?c2) ?s2) i h \<or> h = req_from r \<and> i = ?j" if "held s i h" for i h
      using p(2) [of i h] that by simp
    moreover have "extends s (set_cv ?k (Live ?c2) ?s2)"
      using extends_set_lock [OF _ passed_on_ident, of ?s1 ?j l s] l(2) by simp
    ultimately show ?thesis unfolding h by (intro step_okI)
  qed
qed

section \<open>Creation and monitor variables\<close>

lemma create_lock_step:
  assumes inv: "srv_inv s" and len: "length (req_bytes r) = 40" and bx: "legal_box (req_box r)"
    and nm: "0 \<le> sint (req_bytes r ! 1)" "sint (req_bytes r ! 1) \<le> 38"
  shows "step_ok gives r s (handle_create_lock r s)"
proof -
  note [simp] = answer_ok [OF bx]
  have g: "req_get r 0 = Inr (req_bytes r ! 0)" "req_get r 1 = Inr (req_bytes r ! 1)" using req_get_ok [OF len] by simp_all
  obtain lname where q: "req_name r 2 (sint (req_bytes r ! 1)) = Inr lname" using req_name_ok [OF len nm(1)] nm(2) by simp
  obtain res where f: "find_name sl_name lname (serverLockTable s) 0 = Inr res"
    using find_name_live inv by (force simp: srv_inv_def)
  let ?s1 = "s\<lparr>serverLockTable := serverLockTable s @ [Live (new_ServerLock lname (int (length (serverLockTable s)) + serverID s * 50))]\<rparr>"
  have n: "srv_inv ?s1" using inv by (simp add: srv_inv_def lock_wf_def new_ServerLock_def)
  have h: "held s i c \<Longrightarrow> held ?s1 i c" for i c by (auto simp: held_def in_table_def nth_append split: cell.splits)
  have e: "extends s ?s1" by (simp add: extends_def nth_append lock_ident_def new_ServerLock_def)
  show ?thesis
    using g q f inv n h e srv_inv_def [of s]
    by (auto simp: handle_create_lock_def getLockFromTable_def Server_CreateLock_def Let_def step_ok_def
        split: option.splits)
qed

lemma create_cv_step:
  assumes inv: "srv_inv s" and len: "length (req_bytes r) = 40" and bx: "legal_box (req_box r)"
    and nm: "0 \<le> sint (req_bytes r ! 1)" "sint (req_bytes r ! 1) \<le> 38"
  shows "step_ok gives r s (handle_create_cv r s)"
proof -
  note [simp] = answer_ok [OF bx]
  have g: "req_get r 1 = Inr (req_bytes r ! 1)" using req_get_ok [OF len] by simp
  obtain cname where q: "req_name r 2 (sint (req_bytes r ! 1)) = Inr cname" using req_name_ok [OF len nm(1)] nm(2) by simp
  obtain res where f: "find_name sc_name cname (serverCVTable s) 0 = Inr res"
    using find_name_live inv by (force simp: srv_inv_def)
  let ?s1 = "s\<lparr>serverCVTable := serverCVTable s @ [Live (new_ServerCV cname (int (length (serverCVTable s)) + serverID s * 50))]\<rparr>"
  have n: "srv_inv ?s1" using inv by (simp add: srv_inv_def cv_wf_def new_ServerCV_def)
  have h: "held ?s1 i c = held s i c" for i c by (simp add: held_def)
  have e: "extends s ?s1" by (simp add: extends_def nth_append lock_ident_def new_ServerLock_def)
  show ?thesis
    using g q f inv n h e
    by (auto simp: handle_create_cv_def Server_CreateCV_def Let_def step_ok_def split: option.splits)
qed

lemma create_mv_step:
  assumes inv: "srv_inv s" and len: "length (req_bytes r) = 40" and bx: "legal_box (req_box r)"
    and nm: "0 \<le> sint (req_bytes r ! 1)" "sint (req_bytes r ! 1) \<le> 37"
    and el: "0 \<le> sint (req_bytes r ! nat (sint (req_bytes r ! 1) + 2))"
  shows "step_ok gives r s (handle_create_mv r s)"
proof -
  note [simp] = answer_ok [OF bx]
  have g: "req_get r 1 = Inr (req_bytes r ! 1)"
    "req_get r (sint (req_bytes r ! 1) + 2) = Inr (req_bytes r ! nat (sint (req_bytes r ! 1) + 2))"
    using req_get_ok [OF len] nm by simp_all
  obtain vname where q: "req_name r 2 (sint (req_bytes r ! 1)) = Inr vname" using req_name_ok [OF len nm(1)] nm(2) by simp
  obtain res where f: "find_name sm_name vname (serverMVTable s) 0 = Inr res"
    using find_name_live inv by (force simp: srv_inv_def)
  show ?thesis
    using g q f inv el
    by (auto simp: handle_create_mv_def Server_CreateMV_def new_ServerMV_def Let_def step_ok_def srv_inv_def mv_wf_def
        held_def extends_def answered_def posted_def split: option.splits)
qed

lemma set_get_mv_step:
  assumes inv: "srv_inv s" and len: "length (req_bytes r) = 40" and bx: "legal_box (req_box r)"
  shows "step_ok gives r s (handle_set_mv r s)" "step_ok gives r s (handle_get_mv r s)"
proof -
  note [simp] = answer_ok [OF bx]
  let ?i = "sint (req_bytes r ! 1)"
  have g: "req_get r 1 = Inr (req_bytes r ! 1)" "req_get r 2 = Inr (req_bytes r ! 2)" "req_get r 3 = Inr (req_bytes r ! 3)"
    using req_get_ok [OF len] by simp_all
  have "step_ok gives r s (handle_set_mv r s) \<and> step_ok gives r s (handle_get_mv r s)"
  proof (cases "in_table ?i (serverMVTable s)")
    case True
    obtain v where v: "table_get (serverMVTable s) ?i = Inr v" "mv_wf v"
      using table_get_live [OF _ True] inv by (auto simp: srv_inv_def)
    have "srv_inv (set_mv ?i (Live (v\<lparr>sm_values := (sm_values v)[k := x]\<rparr>)) s)" for k x
      using v(2) by (intro srv_inv_sets(3) [OF inv]) (simp add: mv_wf_def)
    then show ?thesis using g True v inv
      by (auto simp: handle_set_mv_def handle_get_mv_def Server_SetMV_def Server_GetMV_def step_ok_def)
  qed (use g inv in \<open>auto simp: handle_set_mv_def handle_get_mv_def Server_SetMV_def Server_GetMV_def step_ok_def\<close>)
  then show "step_ok gives r s (handle_set_mv r s)" "step_ok gives r s (handle_get_mv r s)" by auto
qed

section \<open>All requests\<close>

definition opc :: "request \<Rightarrow> int" where
  "opc r = sint (req_bytes r ! 0)"

text \<open>
  \<open>req_ok\<close>: a request from a client, sent from one of the ten mailboxes of its post office, that
  does not destroy anything, with the name inside the message and a non-negative size for a new
  monitor variable.
\<close>

definition req_ok :: "request \<Rightarrow> bool" where
  "req_ok r \<longleftrightarrow> length (req_bytes r) = 40 \<and> 0 \<le> req_from r \<and> legal_box (req_box r) \<and> opc r \<notin> {3, 8, 12, 13, 14} \<and>
     (opc r \<in> {0, 4, 9} \<longrightarrow> 0 \<le> sint (req_bytes r ! 1)) \<and>
     (opc r \<in> {0, 4} \<longrightarrow> sint (req_bytes r ! 1) \<le> 38) \<and>
     (opc r = 9 \<longrightarrow> sint (req_bytes r ! 1) \<le> 37 \<and> 0 \<le> sint (req_bytes r ! nat (sint (req_bytes r ! 1) + 2)))"

definition gives_up :: "request \<Rightarrow> int \<Rightarrow> bool" where
  "gives_up r i \<longleftrightarrow> opc r = 2 \<and> i = sint (req_bytes r ! 1) \<or> opc r = 7 \<and> i = sint (req_bytes r ! 2)"

lemma step_ok_mono: "step_ok g r s res \<Longrightarrow> (\<And>i. g i \<Longrightarrow> g' i) \<Longrightarrow> step_ok g' r s res"
  by (fastforce simp: step_ok_def)

lemma request_step:
  assumes inv: "srv_inv s" and ok: "req_ok r"
  shows "step_ok (gives_up r) r s (Server_request fresh r s)"
proof -
  have len: "length (req_bytes r) = 40" and frm: "0 \<le> req_from r" and bx: "legal_box (req_box r)" using ok by (simp_all add: req_ok_def)
  have g: "req_get r 0 = Inr (req_bytes r ! 0)" using req_get_ok [OF len] by simp
  have rel: "opc r = 2 \<Longrightarrow> step_ok (gives_up r) r s (handle_release r s)"
    by (rule step_ok_mono [OF release_step [OF inv len frm bx]]) (simp add: gives_up_def)
  have wt: "opc r = 7 \<Longrightarrow> step_ok (gives_up r) r s (handle_wait r s)"
    by (rule step_ok_mono [OF wait_step [OF inv len frm bx]]) (simp add: gives_up_def)
  have nop: "step_ok (gives_up r) r s (Inr s)" using inv by (simp add: step_ok_def)
  show ?thesis
    using ok rel wt nop acquire_step [OF inv len frm bx] signal_step [OF inv len frm bx] create_lock_step [OF inv len bx]
      create_cv_step [OF inv len bx] create_mv_step [OF inv len bx] set_get_mv_step [OF inv len bx]
    by (auto simp: Server_request_def g req_ok_def opc_def Let_def)
qed

lemma srv_inv_new: "srv_inv (new_server sid 1)"
  by (simp add: srv_inv_def new_server_def)

lemma Server_run:
  "srv_inv s \<Longrightarrow> list_all (req_ok \<circ> snd) rs \<Longrightarrow> \<exists>s'. Server rs s = Inr s' \<and> srv_inv s' \<and> extends s s'"
proof (induction rs arbitrary: s)
  case (Cons fr rs)
  obtain fresh r where fr: "fr = (fresh, r)" by (cases fr)
  with request_step [OF Cons.prems(1), of r fresh] Cons.prems(2) obtain s1 where
    "Server_request fresh r s = Inr s1" "srv_inv s1" "extends s s1" by (auto simp: step_ok_def)
  moreover from this(2) Cons.IH Cons.prems(2) obtain s' where "Server rs s1 = Inr s'" "srv_inv s'" "extends s1 s'" by auto
  ultimately show ?case using fr extends_trans by auto
qed simp

section \<open>Properties\<close>

definition demo_requests :: "((nat \<Rightarrow> 8 word) \<times> request) list" where
  "demo_requests = [(\<lambda>_. 0, mk_request [0, 1, 65] 4 2), (\<lambda>_. 0, mk_request [1, 0] 4 2), (\<lambda>_. 0, mk_request [1, 0] 5 3)]"

definition demo_server :: server where
  "demo_server = projr (Server demo_requests (new_server 0 1))"

lemma demo_requests_ok: "list_all (req_ok \<circ> snd) demo_requests"
  by (simp add: demo_requests_def req_ok_def opc_def mk_request_def legal_box_def)

text \<open>
  C27: A single server handles without an error (no dangling or null pointer, no access outside a
  table or buffer, no failing assertion when it sends an answer) every sequence of well-formed client
  requests that contains no destroy request and no request of another server and whose senders have
  mailboxes 0 to 9,
  and keeps its tables consistent: waiter counts agree with the queues and a lock is
  available exactly when it has no owner.
\<close>

theorem server_handles_all_requests:
  assumes "list_all (req_ok \<circ> snd) rs"
  shows "\<exists>s. Server rs (new_server sid 1) = Inr s \<and>
    list_all (live (\<lambda>l. sl_numWaiters l = int (length (sl_waitQueue l)) \<and>
      (sl_available l \<longleftrightarrow> sl_owner l = - 1) \<and> (sl_available l \<longrightarrow> sl_waitQueue l = []))) (serverLockTable s) \<and>
    list_all (live (\<lambda>c. sc_numWaiters c = int (length (sc_waitQueue c)))) (serverCVTable s)"
proof -
  obtain s where s: "Server rs (new_server sid 1) = Inr s" "srv_inv s"
    using Server_run [OF srv_inv_new assms] by blast
  have "list_all (live lock_wf) (serverLockTable s)" "list_all (live cv_wf) (serverCVTable s)"
    using s(2) by (simp_all add: srv_inv_def)
  then have "list_all (live (\<lambda>l. sl_numWaiters l = int (length (sl_waitQueue l)) \<and>
      (sl_available l \<longleftrightarrow> sl_owner l = - 1) \<and> (sl_available l \<longrightarrow> sl_waitQueue l = []))) (serverLockTable s)"
    "list_all (live (\<lambda>c. sc_numWaiters c = int (length (sc_waitQueue c)))) (serverCVTable s)"
    by (auto elim!: live_mono simp: lock_wf_def cv_wf_def split: if_splits)
  then show ?thesis using s(1) by blast
qed

theorem server_handles_all_requests_witness:
  "\<exists>s. Server demo_requests (new_server 0 1) = Inr s \<and>
    list_all (live (\<lambda>c. sc_numWaiters c = int (length (sc_waitQueue c)))) (serverCVTable s)"
  using server_handles_all_requests [OF demo_requests_ok, of 0] by blast

text \<open>
  C26: Mutual exclusion between client machines. After any history of well-formed client requests
  to a single server, none of them a destroy request or a request of another server, a lock that the
  server has granted to a client machine stays with it whatever request of this kind is handled next,
  unless this request is that machine's own release of the lock or its own wait with the lock.
\<close>

theorem server_lock_exclusive:
  assumes "list_all (req_ok \<circ> snd) rs" "Server rs (new_server sid 1) = Inr s"
    and "req_ok r" "Server_request fresh r s = Inr s'" "held s i c" "\<not> held s' i c"
  shows "c = req_from r \<and> (opc r = 2 \<and> i = sint (req_bytes r ! 1) \<or> opc r = 7 \<and> i = sint (req_bytes r ! 2))"
proof -
  have "srv_inv s" using Server_run [OF srv_inv_new assms(1), of sid] assms(2) by auto
  then show ?thesis using request_step [OF _ assms(3), of s fresh] assms(4-6)
    by (auto simp: step_ok_def gives_up_def)
qed

lemmas server_eval = demo_server_def demo_requests_def new_server_def mk_request_def Server_request_def req_get_def Let_def
  handle_create_lock_def req_name_def getLockFromTable_def Server_CreateLock_def answer_def send_def posted_def legal_box_def new_ServerLock_def
  handle_acquire_def Server_Acquire_def in_table_def table_get_def deref_cell_def set_lock_def held_def opc_def
  handle_release_def owned_by_def Server_Release_def grant_next_def

theorem server_lock_exclusive_witness:
  "req_from (mk_request [2, 0] 4 2) = 4 \<and> held demo_server 0 4 \<and>
   held (projr (Server_request (\<lambda>_. 0) (mk_request [2, 0] 4 2) demo_server)) 0 5"
proof -
  have e: "Server demo_requests (new_server 0 1) = Inr demo_server" "held demo_server 0 4"
    "Server_request (\<lambda>_. 0) (mk_request [2, 0] 4 2) demo_server =
       Inr (projr (Server_request (\<lambda>_. 0) (mk_request [2, 0] 4 2) demo_server))"
    "\<not> held (projr (Server_request (\<lambda>_. 0) (mk_request [2, 0] 4 2) demo_server)) 0 4"
    "held (projr (Server_request (\<lambda>_. 0) (mk_request [2, 0] 4 2) demo_server)) 0 5"
    by (simp_all add: server_eval)
  have "req_ok (mk_request [2, 0] 4 2)" by (simp add: req_ok_def opc_def mk_request_def legal_box_def)
  from server_lock_exclusive [OF demo_requests_ok e(1) this e(3,2,4)] e(2,5) show ?thesis by simp
qed

text \<open>
  A release by the holder passes the lock straight to the client that has waited longest,
  whose delayed reply is sent at once, before the reply to the release itself.
\<close>

theorem release_serves_first_waiter:
  assumes "srv_inv s" "length (req_bytes r) = 40" "opc r = 2" "0 \<le> req_from r"
    and "held s i (req_from r)" "i = sint (req_bytes r ! 1)"
    and "serverLockTable s ! nat i = Live l" "sl_waitQueue l = m # ms" "legal_box (req_box r)"
  shows "\<exists>s'. Server_request fresh r s = Inr s' \<and> held s' i (idToSendTo m) \<and>
    outbox s' = outbox s @ [\<lparr>pkt_to = idToSendTo m, pkt_box = boxToSendTo m, pkt_data = [255]\<rparr>,
                             \<lparr>pkt_to = req_from r, pkt_box = req_box r, pkt_data = [255]\<rparr>] \<and>
    (\<exists>l'. serverLockTable s' ! nat i = Live l' \<and> sl_waitQueue l' = ms)"
proof -
  have g: "req_get r 0 = Inr (req_bytes r ! 0)" "req_get r 1 = Inr (req_bytes r ! 1)"
    using req_get_ok [OF assms(2)] by simp_all
  have t: "in_table i (serverLockTable s)" and own: "\<not> sl_available l" "sl_owner l = req_from r"
    using assms(5,7) by (auto simp: held_def)
  have n: "nat i < length (serverLockTable s)" using t by (simp add: in_table_def)
  have lw: "lock_wf l" using assms(1,7) n by (auto simp: srv_inv_def list_all_length)
  have get: "table_get (serverLockTable s) i = Inr l" using t assms(7) by (simp add: table_get_def deref_cell_def)
  have "Server_request fresh r s = Inr (answered r 255 (notify l (set_lock i (Live (passed_on l)) s)))"
    using g assms(3,6,9) Server_Release_eq [OF get lw] t get own(2)
    by (simp add: Server_request_def opc_def handle_release_def owned_by_def)
  then show ?thesis using n own(1) assms(8) t
    by (simp add: held_def passed_on_def notify_def answered_def posted_def set_lock_def)
qed

theorem release_serves_first_waiter_witness:
  "\<exists>s'. Server_request (\<lambda>_. 0) (mk_request [2, 0] 4 2) demo_server = Inr s' \<and> held s' 0 5"
proof -
  have "srv_inv demo_server"
    using Server_run [OF srv_inv_new demo_requests_ok, of 0] by (auto simp: demo_server_def)
  then show ?thesis
    using release_serves_first_waiter [of demo_server "mk_request [2, 0] 4 2" 0 _ _ _ "\<lambda>_. 0"]
    by (simp add: server_eval)
qed

text \<open>
  Monitor variables keep what is stored: after a request to set an element to a value
  between -128 and 127, a request to get that element is answered with that value.
\<close>

theorem monitor_variable_roundtrip:
  assumes "srv_inv s" "in_table (sint b) (serverMVTable s)" "serverMVTable s ! nat (sint b) = Live v"
    and "0 \<le> sint a" "sint a < sm_numElements v" "legal_box m1" "legal_box m2"
  shows "\<exists>s1 s2. Server_request f1 (mk_request [10, b, a, x] c1 m1) s = Inr s1 \<and>
    Server_request f2 (mk_request [11, b, a] c2 m2) s1 = Inr s2 \<and>
    last (outbox s2) = \<lparr>pkt_to = c2, pkt_box = m2, pkt_data = [x]\<rparr>"
proof -
  have n: "nat (sint b) < length (serverMVTable s)" using assms(2) by (simp add: in_table_def)
  have "mv_wf v" using assms(1,3) n by (auto simp: srv_inv_def list_all_length)
  then have l: "nat (sint a) < length (sm_values v)" using assms(4,5) by (simp add: mv_wf_def)
  let ?v = "v\<lparr>sm_values := (sm_values v)[nat (sint a) := sint x]\<rparr>"
  have "Server_request f1 (mk_request [10, b, a, x] c1 m1) s =
      Inr (answered (mk_request [10, b, a, x] c1 m1) 127 (set_mv (sint b) (Live ?v) s))"
    using assms by (simp add: Server_request_def req_get_def mk_request_def handle_set_mv_def Server_SetMV_def
        table_get_def deref_cell_def)
  moreover have "Server_request f2 (mk_request [11, b, a] c2 m2)
      (answered (mk_request [10, b, a, x] c1 m1) 127 (set_mv (sint b) (Live ?v) s)) =
    Inr (answered (mk_request [11, b, a] c2 m2) x (answered (mk_request [10, b, a, x] c1 m1) 127 (set_mv (sint b) (Live ?v) s)))"
    using assms n l by (simp add: Server_request_def req_get_def mk_request_def handle_get_mv_def Server_GetMV_def
        table_get_def deref_cell_def answer_def send_def answered_def posted_def set_mv_def in_table_def)
  ultimately show ?thesis by (simp add: answered_def posted_def mk_request_def)
qed

definition demo_mv_server :: server where
  "demo_mv_server = (new_server 0 1)\<lparr>serverMVTable :=
     [Live \<lparr>sm_values = [0, 0, 0], sm_id = 0, sm_name = [65, 0], sm_numElements = 3\<rparr>]\<rparr>"

theorem monitor_variable_roundtrip_witness:
  "\<exists>s1 s2. Server_request (\<lambda>_. 0) (mk_request [10, 0, 2, 201] 4 1) demo_mv_server = Inr s1 \<and>
    Server_request (\<lambda>_. 0) (mk_request [11, 0, 2] 5 1) s1 = Inr s2 \<and>
    last (outbox s2) = \<lparr>pkt_to = 5, pkt_box = 1, pkt_data = [201]\<rparr>"
proof (rule monitor_variable_roundtrip)
  show "srv_inv demo_mv_server" by (simp add: demo_mv_server_def srv_inv_def mv_wf_def new_server_def)
  show "in_table (sint (0 :: 8 word)) (serverMVTable demo_mv_server)"
    by (simp add: demo_mv_server_def in_table_def)
  show "serverMVTable demo_mv_server ! nat (sint (0 :: 8 word)) =
      Live \<lparr>sm_values = [0, 0, 0], sm_id = 0, sm_name = [65, 0], sm_numElements = 3\<rparr>"
    by (simp add: demo_mv_server_def)
qed (simp_all add: legal_box_def)

section \<open>What goes wrong\<close>

text \<open>
  A client thread whose mailbox number is 10 or more (threads are numbered without a bound) stops the
  server: sending the answer to its request fails the assertion of \<^verbatim>\<open>PostOffice::Send\<close>.
\<close>

lemma mailbox_out_of_range_stops_server:
  assumes "srv_inv s" "\<not> legal_box box"
  shows "Server_request fresh (mk_request [11, b, a] c box) s = Inl AssertionFailed"
proof -
  have "\<exists>v. Server_GetMV (sint b) (sint a) s = Inr v"
  proof (cases "in_table (sint b) (serverMVTable s)")
    case True
    obtain v where "table_get (serverMVTable s) (sint b) = Inr v"
      using table_get_live [OF _ True] assms(1) by (auto simp: srv_inv_def)
    then show ?thesis using True by (simp add: Server_GetMV_def)
  qed (simp add: Server_GetMV_def)
  then show ?thesis using assms(2)
    by (auto simp: Server_request_def req_get_def mk_request_def handle_get_mv_def answer_def send_def)
qed

text \<open>
  Destroying a lock leaves a dangling pointer in the table. Once the first lock has been
  destroyed, every later request to create a lock, by any client and with any name, follows
  that pointer.
\<close>

theorem create_after_destroy_uses_freed_lock:
  assumes "serverLockTable s = Live l # ls" "sl_numWaiters l = 0" "sl_available l"
    and "length (req_bytes r) = 40" "opc r = 0" "0 \<le> sint (req_bytes r ! 1)" "sint (req_bytes r ! 1) \<le> 38"
    and "legal_box b"
  shows "\<exists>s1. Server_request f1 (mk_request [3, 0] c b) s = Inr s1 \<and> Server_request f2 r s1 = Inl UseAfterFree"
proof -
  let ?s1 = "answered (mk_request [3, 0] c b) 255 (set_lock 0 Dangling s)"
  have "Server_request f1 (mk_request [3, 0] c b) s = Inr ?s1"
    using assms(1-3,8) by (simp add: Server_request_def req_get_def mk_request_def handle_destroy_lock_def
        Server_DestroyLock_def in_table_def table_get_def deref_cell_def)
  moreover have "Server_request f2 r ?s1 = Inl UseAfterFree"
    using assms req_get_ok [OF assms(4), of 0] req_get_ok [OF assms(4), of 1] req_name_ok [OF assms(4,6,7)]
    by (simp add: Server_request_def opc_def handle_create_lock_def getLockFromTable_def answered_def posted_def
        set_lock_def deref_cell_def)
  ultimately show ?thesis by blast
qed

theorem create_after_destroy_uses_freed_lock_witness:
  "\<exists>s1. Server_request (\<lambda>_. 0) (mk_request [3, 0] 4 2) (projr (Server [(\<lambda>_. 0, mk_request [0, 1, 65] 4 2)] (new_server 0 1))) = Inr s1 \<and>
     Server_request (\<lambda>_. 0) (mk_request [0, 1, 66] 5 3) s1 = Inl UseAfterFree"
  by (rule create_after_destroy_uses_freed_lock [where l = "new_ServerLock [65, 0] 0" and ls = "[]"])
    (simp_all add: server_eval)

text \<open>
  With several servers, a lock's identifier starts at 50 times the server's number, but requests
  use it as an index of the table: the server answers every request to acquire its own first lock
  at once, without acquiring it, so two clients can both believe they hold it.
\<close>

theorem nonzero_server_never_acquires:
  assumes "serverID s \<in> {1, 2}" "serverLockTable s = []" "numServers s > 1"
    and "Server_CreateLock nm s = (i, s1)"
  shows "i = serverID s * 50 \<and> (\<forall>c b. Server_request f (mk_request [1, word_of_int i] c b) s1 =
    answer (mk_request [1, word_of_int i] c b) 255 s1)"
proof -
  have i: "i = serverID s * 50" "serverLockTable s1 = [Live (new_ServerLock nm i)]"
    using assms by (auto simp: Server_CreateLock_def Let_def)
  then have "sint (word_of_int i :: 8 word) = i" using assms(1) by auto
  then show ?thesis using i assms(1)
    by (auto simp: Server_request_def req_get_def mk_request_def handle_acquire_def Server_Acquire_def in_table_def)
qed

theorem nonzero_server_never_acquires_witness:
  "Server_request (\<lambda>_. 0) (mk_request [1, 50] 7 1) (snd (Server_CreateLock [65, 0] (new_server 1 2))) =
     answer (mk_request [1, 50] 7 1) 255 (snd (Server_CreateLock [65, 0] (new_server 1 2)))"
  using nonzero_server_never_acquires [of "new_server 1 2" "[65, 0]" 50 "snd (Server_CreateLock [65, 0] (new_server 1 2))" "\<lambda>_. 0"]
  by (simp add: Server_CreateLock_def new_server_def Let_def)

end
