(* ===== verification/Client_Stubs.thy ===== *)
theory Client_Stubs
  imports Server_Props
begin

text \<open>
  The system calls that are remote procedure calls to the server (\<^verbatim>\<open>userprog/exception.cc\<close>): locks,
  condition variables and monitor variables. Each fills in a request of 40 bytes, sends its first
  bytes to mailbox 0 of some server and waits for the reply in the mailbox of the calling thread.
  A call is modelled up to the point where it waits, as the mail it sends, and from there on by the
  value it returns for a reply (\<open>reply_value\<close>). \<open>call\<close> runs one call against a server.
\<close>

section \<open>Requests\<close>

record mail =
  ml_server :: int
  ml_box :: int
  ml_from :: int
  ml_data :: "8 word list"

text \<open>A new buffer has the content \<open>junk\<close>; writing outside it is an error.\<close>

definition put_char :: "int \<Rightarrow> int \<Rightarrow> 8 word list \<Rightarrow> 8 word list res" where
  "put_char i c q = (if 0 \<le> i \<and> nat i < length q then Inr (q[nat i := word_of_int c]) else Inl OutOfBounds)"

fun put_name :: "int \<Rightarrow> 8 word list \<Rightarrow> 8 word list \<Rightarrow> 8 word list res" where
  "put_name i [] q = Inr q"
| "put_name i (b # bs) q = bindR (put_char (2 + i) (sint b) q) (put_name (i + 1) bs)"

text \<open>
  Handing the request to the post office: \<^verbatim>\<open>PostOffice::Send\<close> asserts that the message is not
  longer than \<^verbatim>\<open>MaxMailSize\<close>. The server is chosen at random among \<open>n\<close>.
\<close>

abbreviation (input) MaxMailSize :: int where "MaxMailSize \<equiv> 40"

definition send_request :: "nat \<Rightarrow> int \<Rightarrow> int \<Rightarrow> int \<Rightarrow> 8 word list \<Rightarrow> mail res" where
  "send_request rnd n box len q =
     (if len \<le> MaxMailSize
      then Inr \<lparr>ml_server = int rnd mod n, ml_box = 0, ml_from = box, ml_data = take (nat len) q\<rparr>
      else Inl AssertionFailed)"

text \<open>The common shape of the calls that create an object: operation code, length, name and number.\<close>

definition create_request :: "int \<Rightarrow> 8 word list \<Rightarrow> 8 word list \<Rightarrow> int \<Rightarrow> 8 word list res" where
  "create_request opcode junk buf ident =
     (let size = int (length buf) in
      bindR (put_char 0 opcode junk) (\<lambda>q0.
      bindR (put_char 1 (if ident \<noteq> 0 then size + 2 else size) q0) (\<lambda>q1.
      bindR (put_name 0 buf q1) (\<lambda>q2.
      if ident \<noteq> 0
      then bindR (put_char (2 + size) 32 q2) (put_char (3 + size) (ident + 48))
      else Inr q2))))"

definition CreateLock_Syscall :: "8 word list \<Rightarrow> nat \<Rightarrow> int \<Rightarrow> int \<Rightarrow> 8 word list \<Rightarrow> int \<Rightarrow> mail res" where
  "CreateLock_Syscall junk rnd n box buf ident =
     bindR (create_request 0 junk buf ident) (\<lambda>q.
       send_request rnd n box (if ident \<noteq> 0 then 4 + int (length buf) else 2 + int (length buf)) q)"

definition CreateCondition_Syscall :: "8 word list \<Rightarrow> nat \<Rightarrow> int \<Rightarrow> int \<Rightarrow> 8 word list \<Rightarrow> int \<Rightarrow> mail res" where
  "CreateCondition_Syscall junk rnd n box buf ident =
     bindR (create_request 4 junk buf ident) (\<lambda>q.
       send_request rnd n box (if ident \<noteq> 0 then 4 + int (length buf) else 2 + int (length buf)) q)"

definition CreateMV_Syscall :: "8 word list \<Rightarrow> nat \<Rightarrow> int \<Rightarrow> int \<Rightarrow> 8 word list \<Rightarrow> int \<Rightarrow> int \<Rightarrow> mail res" where
  "CreateMV_Syscall junk rnd n box buf numElements ident =
     (let size = int (length buf) in
      bindR (create_request 9 junk buf ident) (\<lambda>q.
      bindR (put_char (if ident \<noteq> 0 then 4 + size else size + 2) numElements q) (\<lambda>q1.
        send_request rnd n box (if ident \<noteq> 0 then 5 + size else 3 + size) q1)))"

text \<open>The common shape of the other calls: operation code and arguments, each cut to a byte.\<close>

fun put_args :: "int \<Rightarrow> int list \<Rightarrow> 8 word list \<Rightarrow> 8 word list res" where
  "put_args i [] q = Inr q"
| "put_args i (a # as) q = bindR (put_char i a q) (put_args (i + 1) as)"

definition args_request :: "int list \<Rightarrow> 8 word list \<Rightarrow> nat \<Rightarrow> int \<Rightarrow> int \<Rightarrow> mail res" where
  "args_request as junk rnd n box =
     bindR (put_args 0 as junk) (send_request rnd n box (int (length as)))"

definition DestroyLock_Syscall :: "8 word list \<Rightarrow> nat \<Rightarrow> int \<Rightarrow> int \<Rightarrow> int \<Rightarrow> mail res" where
  "DestroyLock_Syscall junk rnd n box index = args_request [3, index] junk rnd n box"

definition Acquire_Syscall :: "8 word list \<Rightarrow> nat \<Rightarrow> int \<Rightarrow> int \<Rightarrow> int \<Rightarrow> mail res" where
  "Acquire_Syscall junk rnd n box index = args_request [1, index] junk rnd n box"

definition Release_Syscall :: "8 word list \<Rightarrow> nat \<Rightarrow> int \<Rightarrow> int \<Rightarrow> int \<Rightarrow> mail res" where
  "Release_Syscall junk rnd n box index = args_request [2, index] junk rnd n box"

definition DestroyCondition_Syscall :: "8 word list \<Rightarrow> nat \<Rightarrow> int \<Rightarrow> int \<Rightarrow> int \<Rightarrow> mail res" where
  "DestroyCondition_Syscall junk rnd n box index = args_request [8, index] junk rnd n box"

definition Wait_Syscall :: "8 word list \<Rightarrow> nat \<Rightarrow> int \<Rightarrow> int \<Rightarrow> int \<Rightarrow> int \<Rightarrow> mail res" where
  "Wait_Syscall junk rnd n box cvIndex lockIndex = args_request [7, cvIndex, lockIndex] junk rnd n box"

definition Signal_Syscall :: "8 word list \<Rightarrow> nat \<Rightarrow> int \<Rightarrow> int \<Rightarrow> int \<Rightarrow> int \<Rightarrow> mail res" where
  "Signal_Syscall junk rnd n box cvIndex lockIndex = args_request [5, cvIndex, lockIndex] junk rnd n box"

definition Broadcast_Syscall :: "8 word list \<Rightarrow> nat \<Rightarrow> int \<Rightarrow> int \<Rightarrow> int \<Rightarrow> int \<Rightarrow> mail res" where
  "Broadcast_Syscall junk rnd n box cvIndex lockIndex = args_request [6, cvIndex, lockIndex] junk rnd n box"

definition DestroyMV_Syscall :: "8 word list \<Rightarrow> nat \<Rightarrow> int \<Rightarrow> int \<Rightarrow> int \<Rightarrow> mail res" where
  "DestroyMV_Syscall junk rnd n box index = args_request [12, index] junk rnd n box"

definition SetMV_Syscall :: "8 word list \<Rightarrow> nat \<Rightarrow> int \<Rightarrow> int \<Rightarrow> int \<Rightarrow> int \<Rightarrow> int \<Rightarrow> mail res" where
  "SetMV_Syscall junk rnd n box index position v = args_request [10, index, position, v] junk rnd n box"

definition GetMV_Syscall :: "8 word list \<Rightarrow> nat \<Rightarrow> int \<Rightarrow> int \<Rightarrow> int \<Rightarrow> int \<Rightarrow> mail res" where
  "GetMV_Syscall junk rnd n box index position = args_request [11, index, position] junk rnd n box"

section \<open>Replies\<close>

text \<open>
  What a call returns: -1 if the post office could not send the request (\<open>None\<close>), and otherwise
  \<^verbatim>\<open>(unsigned int)response[0]\<close> stored in an \<^verbatim>\<open>int\<close>, the byte sign-extended. Calls without a result
  ignore it.
\<close>

definition reply_value :: "8 word list option \<Rightarrow> int res" where
  "reply_value reply = (case reply of
     None \<Rightarrow> Inr (- 1)
   | Some response \<Rightarrow> (case response of [] \<Rightarrow> Inl Uninitialised | b # _ \<Rightarrow> Inr (sint b)))"

text \<open>
  A call on machine \<open>mid\<close> served at once: the server handles the mail, and the first message it
  sends to the mailbox of the caller is the reply.
\<close>

definition call :: "(nat \<Rightarrow> 8 word) \<Rightarrow> int \<Rightarrow> mail \<Rightarrow> server \<Rightarrow> (int \<times> server) res" where
  "call fresh mid m s =
     bindR (Server_request fresh (mk_request (ml_data m) mid (ml_from m)) s) (\<lambda>s1.
       case List.find (\<lambda>p. pkt_to p = mid \<and> pkt_box p = ml_from m) (drop (length (outbox s)) (outbox s1)) of
         None \<Rightarrow> Inl Diverges
       | Some p \<Rightarrow> bindR (reply_value (Some (pkt_data p))) (\<lambda>v. Inr (v, s1)))"

section \<open>What the server reads\<close>

lemma put_char_ok: "0 \<le> i \<Longrightarrow> nat i < length q \<Longrightarrow> put_char i c q = Inr (q[nat i := word_of_int c])"
  by (simp add: put_char_def)

lemma put_name_ok:
  "k + 2 + length bs \<le> length q \<Longrightarrow>
     put_name (int k) bs q = Inr (take (2 + k) q @ bs @ drop (2 + k + length bs) q)"
proof (induction bs arbitrary: k q)
  case (Cons b bs)
  let ?q = "q[2 + k := b]"
  have "2 + k < length q" using Cons.prems by simp
  then have "take (Suc (Suc (Suc k))) ?q = take (2 + k) q @ [b]" by (simp add: take_Suc_conv_app_nth)
  moreover have "drop (Suc (Suc (Suc k)) + length bs) ?q = drop (2 + k + length (b # bs)) q" by (simp add: drop_update_cancel)
  ultimately show ?case using Cons.IH [of "Suc k" ?q] Cons.prems
    by (simp add: put_char_def add.commute nat_add_distrib)
qed simp

lemma put_args_ok:
  "k + length as \<le> length q \<Longrightarrow>
     put_args (int k) as q = Inr (take k q @ map word_of_int as @ drop (k + length as) q)"
proof (induction as arbitrary: k q)
  case (Cons a as)
  let ?q = "q[k := word_of_int a]"
  have "k < length q" using Cons.prems by simp
  then have "take (Suc k) ?q = take k q @ [word_of_int a]" by (simp add: take_Suc_conv_app_nth)
  moreover have "drop (Suc k + length as) ?q = drop (k + length (a # as)) q" by (simp add: drop_update_cancel)
  ultimately show ?case using Cons.IH [of "Suc k" ?q] Cons.prems by (simp add: put_char_def add.commute)
qed simp

text \<open>A call with arguments sends exactly its operation code and its arguments cut to bytes.\<close>

lemma args_request_ok:
  assumes "length junk = 40" "length as \<le> 40"
  shows "args_request as junk rnd n box =
    Inr \<lparr>ml_server = int rnd mod n, ml_box = 0, ml_from = box, ml_data = map word_of_int as\<rparr>"
  using put_args_ok [of 0 as junk] assms by (simp add: args_request_def send_request_def)


lemma reply_at_once:
  assumes "Server_request fresh (mk_request (ml_data m) mid (ml_from m)) s =
    Inr (answered (mk_request (ml_data m) mid (ml_from m)) b s1)" "outbox s1 = outbox s"
  shows "call fresh mid m s = Inr (sint b, answered (mk_request (ml_data m) mid (ml_from m)) b s1)"
  using assms by (simp add: call_def answered_def posted_def mk_request_def reply_value_def)

lemma sint_cut: "sint (word_of_int k :: 8 word) = signed_take_bit 7 k"
  by (simp add: sint_uint uint_word_of_int_eq signed_take_bit_take_bit)

lemma sint_byte: "- 128 \<le> k \<Longrightarrow> k < 128 \<Longrightarrow> sint (word_of_int k :: 8 word) = k"
  by (simp add: sint_cut signed_take_bit_int_eq_self)

section \<open>Names\<close>





















section \<open>Properties\<close>



text \<open>
  monitor variables across machines. What one machine stores in an element of a monitor variable is
  what another machine then reads, cut to a signed byte: the value itself if it is between -128 and
  127, and a different number otherwise, because the requests carry one byte.
\<close>

theorem remote_set_get:
  assumes "srv_inv s" "0 \<le> index" "index < 128" "nat index < length (serverMVTable s)" "serverMVTable s ! nat index = Live mv"
    "0 \<le> position" "position < 128" "position < sm_numElements mv" "length junk = 40" "length junk' = 40"
    "legal_box box" "legal_box box'"
  shows "\<exists>m m' s1 s2. SetMV_Syscall junk rnd 1 box index position v = Inr m \<and> call f a m s = Inr (127, s1) \<and>
     GetMV_Syscall junk' rnd' 1 box' index position = Inr m' \<and> call f' a' m' s1 = Inr (signed_take_bit 7 v, s2)"
proof -
  let ?b = "\<lambda>k. word_of_int k :: 8 word"
  let ?mv = "mv\<lparr>sm_values := (sm_values mv)[nat position := sint (?b v)]\<rparr>"
  have ix: "sint (?b index) = index" "sint (?b position) = position" using assms(2,3,6,7) by (simp_all add: sint_byte)
  have "mv_wf mv" using assms(1,4,5) by (auto simp: srv_inv_def list_all_length)
  then have l: "nat position < length (sm_values mv)" using assms(6,8) by (simp add: mv_wf_def)
  let ?r1 = "mk_request [10, ?b index, ?b position, ?b v] a box" and ?r2 = "mk_request [11, ?b index, ?b position] a' box'"
  let ?s1 = "set_mv index (Live ?mv) s"
  have t: "in_table index (serverMVTable s)" using assms(2,4) by (simp add: in_table_def)
  have r1: "Server_request f ?r1 s = Inr (answered ?r1 127 ?s1)"
    using assms(5,6,8,11) ix t
    by (simp add: Server_request_def req_get_def mk_request_def handle_set_mv_def Server_SetMV_def table_get_def deref_cell_def)
  have r2: "Server_request f' ?r2 (answered ?r1 127 ?s1) = Inr (answered ?r2 (word_of_int (sint (?b v))) (answered ?r1 127 ?s1))"
    using assms(4,6,8,12) ix t l
    by (simp add: Server_request_def req_get_def mk_request_def handle_get_mv_def Server_GetMV_def table_get_def
        deref_cell_def answer_def send_def answered_def posted_def set_mv_def in_table_def)
  let ?m = "\<lparr>ml_server = int rnd mod 1, ml_box = 0, ml_from = box, ml_data = [10, ?b index, ?b position, ?b v]\<rparr>"
  let ?m' = "\<lparr>ml_server = int rnd' mod 1, ml_box = 0, ml_from = box', ml_data = [11, ?b index, ?b position]\<rparr>"
  have "call f a ?m s = Inr (127, answered ?r1 127 ?s1)"
    using reply_at_once [of f ?m a s 127 ?s1] r1 by (simp add: set_mv_def)
  moreover have "call f' a' ?m' (answered ?r1 127 ?s1) =
      Inr (signed_take_bit 7 v, answered ?r2 (word_of_int (sint (?b v))) (answered ?r1 127 ?s1))"
    using reply_at_once [of f' ?m' a' "answered ?r1 127 ?s1" "word_of_int (sint (?b v))" "answered ?r1 127 ?s1"] r2
    by (simp add: sint_cut)
  moreover have "SetMV_Syscall junk rnd 1 box index position v = Inr ?m" "GetMV_Syscall junk' rnd' 1 box' index position = Inr ?m'"
    using args_request_ok [OF assms(9)] args_request_ok [OF assms(10)] by (simp_all add: SetMV_Syscall_def GetMV_Syscall_def)
  ultimately show ?thesis by blast
qed

theorem remote_set_get_witness:
  "\<exists>m m' s1 s2. SetMV_Syscall (replicate 40 0) 1 1 2 0 2 300 = Inr m \<and> call (\<lambda>_. 0) 4 m demo_mv_server = Inr (127, s1) \<and>
     GetMV_Syscall (replicate 40 0) 3 1 2 0 2 = Inr m' \<and> call (\<lambda>_. 0) 5 m' s1 = Inr (44, s2)"
proof -
  have "srv_inv demo_mv_server" by (simp add: demo_mv_server_def srv_inv_def mv_wf_def new_server_def)
  moreover have "signed_take_bit 7 (300 :: int) = 44" by code_simp
  ultimately show ?thesis
    using remote_set_get [of demo_mv_server 0 "\<lparr>sm_values = [0, 0, 0], sm_id = 0, sm_name = [65, 0], sm_numElements = 3\<rparr>"
        2 "replicate 40 0" "replicate 40 0" 2 2 1 300 "\<lambda>_. 0" 4 3 "\<lambda>_. 0" 5]
    by (simp add: demo_mv_server_def legal_box_def)
qed

lemma put_name_overflow:
  "length q < k + 2 + length bs \<Longrightarrow> k + 2 \<le> length q \<Longrightarrow> put_name (int k) bs q = Inl OutOfBounds"
proof (induction bs arbitrary: k q)
  case (Cons b bs)
  show ?case
  proof (cases "k + 2 < length q")
    case True
    then show ?thesis using Cons.IH [of "q[2 + k := b]" "Suc k"] Cons.prems
      by (simp add: put_char_def nat_add_distrib add.commute)
  next
    case False
    then show ?thesis by (simp add: put_char_def nat_add_distrib)
  qed
qed simp

text \<open>
  a long name overruns the request. The calls that create an object do not check that the name fits:
  for a name whose message would be longer than the request of 40 bytes, they write past the end of it.
\<close>

theorem long_lock_name_overflows:
  assumes "length junk = 40" "40 < length buf + (if ident \<noteq> 0 then 4 else 2)"
  shows "CreateLock_Syscall junk rnd n box buf ident = Inl OutOfBounds \<and>
    CreateCondition_Syscall junk rnd n box buf ident = Inl OutOfBounds"
proof -
  obtain a b r where j: "junk = a # b # r" using assms(1) by (cases junk; cases "tl junk") auto
  have r: "length r = 38" using assms(1) j by simp
  have "create_request c junk buf ident = Inl OutOfBounds" for c
  proof (cases "38 < length buf")
    case True
    then have "put_name 0 buf (x # y # r) = Inl OutOfBounds" for x y
      using put_name_overflow [of "x # y # r" 0 buf] r by simp
    then show ?thesis using j by (simp add: create_request_def put_char_def)
  next
    case False
    then have "put_name 0 buf (x # y # r) = Inr (x # y # buf @ drop (length buf) r)" for x y
      using put_name_ok [of 0 buf "x # y # r"] r by simp
    moreover have "ident \<noteq> 0" "37 \<le> length buf" using assms(2) False by (simp_all split: if_splits)
    ultimately show ?thesis using j r False by (auto simp: create_request_def put_char_def nat_add_distrib Let_def)
  qed
  then show ?thesis by (simp add: CreateLock_Syscall_def CreateCondition_Syscall_def)
qed

theorem long_lock_name_overflows_witness:
  "CreateLock_Syscall (replicate 40 0) 0 1 2 (replicate 37 65) 1 = Inl OutOfBounds"
  using long_lock_name_overflows [of "replicate 40 0" "replicate 37 65" 1 0 1 2] by simp

end
