(* ===== verification/System_Calls.thy ===== *)
theory System_Calls
  imports Process_Props Client_Stubs
begin

text \<open>
  The entry point of the kernel, \<^verbatim>\<open>ExceptionHandler\<close> of \<^verbatim>\<open>userprog/exception.cc\<close>: which routine serves which
  system call, which registers hold its arguments, where its result goes, and where the user program goes on.
\<close>

section \<open>The handler\<close>

text \<open>
  What one call takes from outside the kernel state: the numbers of \<^verbatim>\<open>rand()\<close>, the contents of new memory, the
  address of a new address space, the names UNIX can create; \<open>se_fuel\<close> bounds the retries of \<^verbatim>\<open>copyin\<close>.
\<close>

record Env =
  se_fuel :: nat
  se_rnd :: "nat \<Rightarrow> nat \<Rightarrow> nat"
  se_creatable :: "8 word list \<Rightarrow> bool"
  se_buffer :: "8 word list"
  se_big :: bool
  se_bytes :: "nat \<Rightarrow> 8 word"
  se_pages :: "nat \<Rightarrow> PageTableEntry"
  se_words :: "32 word list"
  se_slots :: "nat option list"
  se_addr :: nat
  numServers :: int

text \<open>
  How a system call leaves its routine: it returns a value; it has to wait for \<^verbatim>\<open>processLock\<close>; it gives up the
  processor; it has sent a request and waits for the reply (the flag says whether the reply is its result); or the
  thread is finished.
\<close>

datatype effect =
    Return int Kern
  | AwaitLock
  | YieldCPU Kern
  | AwaitReply mail bool Kern
  | Finished Kern

definition lift_sys :: "Kern \<Rightarrow> Sys res \<Rightarrow> effect res" where
  "lift_sys K r = bindR r (\<lambda>S. Inr (Return 0 (K\<lparr>ksys := S\<rparr>)))"

definition lift_sys_value :: "Kern \<Rightarrow> (int \<times> Sys) res \<Rightarrow> effect res" where
  "lift_sys_value K r = bindR r (\<lambda>(rv, S). Inr (Return rv (K\<lparr>ksys := S\<rparr>)))"

definition remote_void :: "Kern \<Rightarrow> mail res \<Rightarrow> effect res" where
  "remote_void K r = bindR r (\<lambda>m. Inr (AwaitReply m False K))"

definition remote_value :: "Kern \<Rightarrow> mail res \<Rightarrow> effect res" where
  "remote_value K r = bindR r (\<lambda>m. Inr (AwaitReply m True K))"

text \<open>The first part of the calls that create a remote object: the name is copied from user memory.\<close>

definition remote_create :: "Env \<Rightarrow> 32 word \<Rightarrow> int \<Rightarrow> (8 word list \<Rightarrow> mail res) \<Rightarrow> Kern \<Rightarrow> effect res" where
  "remote_create env vaddr len request K =
     bindR (new_buffer len) (\<lambda>_.
     bindR (read_user (se_fuel env) (se_rnd env) vaddr len (ksys K)) (\<lambda>(r, buf, S1).
       if r = -1 then Inr (Return (-1) (K\<lparr>ksys := S1\<rparr>))
       else remote_value (K\<lparr>ksys := S1\<rparr>) (request buf)))"

text \<open>\<^verbatim>\<open>PrintInt_Syscall\<close>; \<^verbatim>\<open>cout << toPrint\<close> writes the decimal digits.\<close>

fun digits :: "nat \<Rightarrow> 8 word list" where
  "digits n = (if n < 10 then [of_nat (48 + n)] else digits (n div 10) @ [of_nat (48 + n mod 10)])"

declare digits.simps [simp del]

definition decimal :: "int \<Rightarrow> 8 word list" where
  "decimal i = (if i < 0 then 45 # digits (nat (- i)) else digits (nat i))"

definition PrintInt_Syscall :: "int \<Rightarrow> Sys \<Rightarrow> Sys res" where
  "PrintInt_Syscall i S = Inr (S\<lparr>screen := screen S @ decimal i\<rparr>)"

definition lift_exit :: "Kern option res \<Rightarrow> effect res" where
  "lift_exit r = bindR r (\<lambda>x. case x of None \<Rightarrow> Inr AwaitLock | Some K1 \<Rightarrow> Inr (Finished K1))"

definition lift_exec :: "(int \<times> Kern) option res \<Rightarrow> effect res" where
  "lift_exec r = bindR r (\<lambda>x. case x of None \<Rightarrow> Inr AwaitLock | Some (rv, K1) \<Rightarrow> Inr (Return rv K1))"

definition lift_fork :: "Kern option res \<Rightarrow> effect res" where
  "lift_fork r = bindR r (\<lambda>x. case x of None \<Rightarrow> Inr AwaitLock | Some K1 \<Rightarrow> Inr (Return 0 K1))"

text \<open>
  The \<^verbatim>\<open>switch\<close> over the number of the call; \<open>a1\<close> to \<open>a4\<close> are registers 4 to 7. \<^verbatim>\<open>SC_Halt\<close>, \<^verbatim>\<open>SC_Join\<close> and every
  number without a case stop the machine.
\<close>

definition syscall :: "Env \<Rightarrow> int \<Rightarrow> 32 word \<Rightarrow> 32 word \<Rightarrow> 32 word \<Rightarrow> 32 word \<Rightarrow> Kern \<Rightarrow> effect res" where
  "syscall env no a1 a2 a3 a4 K =
     (let fuel = se_fuel env; rnd = se_rnd env; q = se_buffer env; srv = rnd 0 0; n = numServers env;
          box = thrBox K (curThread K); S = ksys K in
      if no = 1 then lift_exit (Exit_Syscall K)
      else if no = 2 then lift_exec (Exec_Syscall fuel rnd (se_big env) (se_bytes env) (se_pages env) (se_words env)
             (se_slots env) (se_addr env) a1 (sint a2) K)
      else if no = 4 then lift_sys K (Create_Syscall fuel rnd (se_creatable env) a1 (sint a2) S)
      else if no = 5 then lift_sys_value K (Open_Syscall fuel rnd a1 (sint a2) S)
      else if no = 6 then lift_sys_value K (Read_Syscall (rnd 0) q a1 (sint a2) (sint a3) S)
      else if no = 7 then lift_sys K (Write_Syscall fuel rnd a1 (sint a2) (sint a3) S)
      else if no = 8 then lift_sys K (Close_Syscall (sint a1) S)
      else if no = 9 then lift_fork (Fork_Syscall fuel rnd (se_pages env) a1 a2 (sint a3) (sint a4) K)
      else if no = 10 then Inr (YieldCPU K)
      else if no = 11 then remote_create env a1 (sint a2) (\<lambda>buf. CreateLock_Syscall q srv n box buf (sint a3)) K
      else if no = 12 then remote_void K (DestroyLock_Syscall q srv n box (uint a1))
      else if no = 13 then remote_void K (Acquire_Syscall q srv n box (uint a1))
      else if no = 14 then remote_void K (Release_Syscall q srv n box (uint a1))
      else if no = 15 then remote_create env a1 (sint a2) (\<lambda>buf. CreateCondition_Syscall q srv n box buf (sint a3)) K
      else if no = 16 then remote_void K (DestroyCondition_Syscall q srv n box (uint a1))
      else if no = 17 then remote_void K (Wait_Syscall q srv n box (uint a1) (uint a2))
      else if no = 18 then remote_void K (Signal_Syscall q srv n box (uint a1) (uint a2))
      else if no = 19 then remote_void K (Broadcast_Syscall q srv n box (uint a1) (uint a2))
      else if no = 20 then lift_sys K (Print_Syscall fuel rnd a1 (sint a2) S)
      else if no = 21 then lift_sys K (PrintInt_Syscall (sint a1) S)
      else if no = 22 then bindR (GetID_Syscall K) (\<lambda>rv. Inr (Return rv K))
      else if no = 23 then remote_create env a1 (sint a2)
             (\<lambda>buf. CreateMV_Syscall q srv n box buf (sint a3) (sint a4)) K
      else if no = 24 then remote_void K (DestroyMV_Syscall q srv n box (uint a1))
      else if no = 25 then remote_void K (SetMV_Syscall q srv n box (uint a1) (sint a2) (sint a3))
      else if no = 26 then remote_value K (GetMV_Syscall q srv n box (uint a1) (sint a2))
      else Inl Halted)"

text \<open>The end of a system call: the result goes to register 2 and the program counters move on by one instruction.\<close>

definition syscall_return :: "int \<Rightarrow> Kern \<Rightarrow> Kern res" where
  "syscall_return rv K =
     bindR (WriteRegister 2 (word_of_int rv) (mach (kvm K))) (\<lambda>m1.
     bindR (ReadRegister (int PCReg) m1) (\<lambda>pc.
     bindR (WriteRegister (int PrevPCReg) pc m1) (\<lambda>m2.
     bindR (ReadRegister (int NextPCReg) m2) (\<lambda>npc.
     bindR (WriteRegister (int PCReg) npc m2) (\<lambda>m3.
     bindR (ReadRegister (int PCReg) m3) (\<lambda>pc2.
     bindR (WriteRegister (int NextPCReg) (pc2 + 4) m3) (\<lambda>m4.
     Inr (set_kvm ((kvm K)\<lparr>mach := m4\<rparr>) K))))))))"

datatype handled =
    Resumed Kern
  | Blocked effect

definition ExceptionHandler :: "Env \<Rightarrow> ExceptionType \<Rightarrow> Kern \<Rightarrow> handled res" where
  "ExceptionHandler env which K =
     bindR (ReadRegister 2 (mach (kvm K))) (\<lambda>no.
     if which = SyscallException
     then bindR (ReadRegister 4 (mach (kvm K))) (\<lambda>a1.
          bindR (ReadRegister 5 (mach (kvm K))) (\<lambda>a2.
          bindR (ReadRegister 6 (mach (kvm K))) (\<lambda>a3.
          bindR (ReadRegister 7 (mach (kvm K))) (\<lambda>a4.
          bindR (syscall env (sint no) a1 a2 a3 a4 K) (\<lambda>e. case e of
            Return rv K1 \<Rightarrow> bindR (syscall_return rv K1) (\<lambda>K2. Inr (Resumed K2))
          | _ \<Rightarrow> Inr (Blocked e))))))
     else if which = PageFaultException
     then bindR (HandlePageFault (se_rnd env 0 0) (kvm K)) (\<lambda>vm. Inr (Resumed (set_kvm vm K)))
     else Inl Halted)"

text \<open>
  What a blocked call does when its thread runs again: after \<^verbatim>\<open>Yield\<close> it returns 0, after the reply (\<open>None\<close>: the
  request could not be sent) it returns what the reply says.
\<close>

definition continue_call :: "effect \<Rightarrow> 8 word list option \<Rightarrow> Kern \<Rightarrow> Kern res" where
  "continue_call e reply K = (case e of
     AwaitReply m True K0 \<Rightarrow> bindR (reply_value reply) (\<lambda>rv. syscall_return rv K)
   | _ \<Rightarrow> syscall_return 0 K)"

text \<open>\<^verbatim>\<open>Machine::RaiseException\<close> with this handler, on the kernel state.\<close>

definition kern_RaiseException :: "Env \<Rightarrow> ExceptionType \<Rightarrow> 32 word \<Rightarrow> Kern \<Rightarrow> handled res" where
  "kern_RaiseException env which badVAddr K =
     bindR (DelayedLoad 0 0 ((mach (kvm K))\<lparr>registers := (registers (mach (kvm K)))(BadVAddrReg := badVAddr)\<rparr>)) (\<lambda>m1.
     bindR (ExceptionHandler env which (set_kvm ((kvm K)\<lparr>mach := m1\<lparr>machineStatus := SystemMode\<rparr>\<rparr>) K)) (\<lambda>h. case h of
       Resumed K1 \<Rightarrow> Inr (Resumed (set_kvm ((kvm K1)\<lparr>mach := (mach (kvm K1))\<lparr>machineStatus := UserMode\<rparr>\<rparr>) K1))
     | Blocked e \<Rightarrow> Inr h))"

end
