(* ===== verification/Call_Props.thy ===== *)
theory Call_Props
  imports System_Calls
begin

text \<open>
  Properties of the kernel's entry point (\<open>System_Calls\<close>): a system call changes no register of the user program
  but those of its result and of the program counters, and leaves the processes consistent; what stops the machine.
\<close>

section \<open>Registers\<close>

text \<open>
  A page fault inside the kernel finishes a delayed load and stores the faulting address. When no load is pending
  the other registers keep their values.
\<close>

definition keeps :: "VM \<Rightarrow> VM \<Rightarrow> bool" where
  "keeps vm vm' \<longleftrightarrow> (registers (mach vm) LoadReg = 0 \<longrightarrow>
     registers (mach vm') LoadReg = 0 \<and>
     (\<forall>i. i \<noteq> 0 \<longrightarrow> i \<notin> {LoadReg, LoadValueReg, BadVAddrReg} \<longrightarrow> registers (mach vm') i = registers (mach vm) i))"

lemma keeps_same: "registers (mach vm') = registers (mach vm) \<Longrightarrow> keeps vm vm'"
  by (simp add: keeps_def)

lemma keeps_mach: "registers m = registers (mach vm) \<Longrightarrow> keeps vm (vm\<lparr>mach := m\<rparr>)"
  by (simp add: keeps_def)

lemma keeps_refl [simp]: "keeps vm vm"
  by (simp add: keeps_same)

lemma keeps_trans: "keeps vm vm1 \<Longrightarrow> keeps vm1 vm2 \<Longrightarrow> keeps vm vm2"
  unfolding keeps_def by simp

lemma regs_simps [simp]:
  "registers (mach (vm\<lparr>frameMap := fm\<rparr>)) = registers (mach vm)" "registers (mach (vm\<lparr>swapMap := sm\<rparr>)) = registers (mach vm)"
  "registers (mach (vm\<lparr>swapFile := sf\<rparr>)) = registers (mach vm)" "registers (mach (vm\<lparr>currentTLB := k\<rparr>)) = registers (mach vm)"
  "registers (mach (vm\<lparr>currentIPT := k\<rparr>)) = registers (mach vm)" "registers (mach (put_space a s vm)) = registers (mach vm)"
  "registers (mach (put_tlb t vm)) = registers (mach vm)" "registers (mach (load_frame p bs vm)) = registers (mach vm)"
  by (simp_all add: put_space_def put_tlb_def load_frame_def)

lemma regs_upd_page: "upd_page a v g vm = Inr vm' \<Longrightarrow> registers (mach vm') = registers (mach vm)"
  by (auto simp: upd_page_def bindR_eq_Inr_iff split: if_splits)

lemma regs_upd_IPT: "upd_IPT p g vm = Inr vm' \<Longrightarrow> registers (mach vm') = registers (mach vm)"
  by (auto simp: upd_IPT_def split: if_splits)

lemma regs_flush: "flush_loop p is vm = Inr vm' \<Longrightarrow> registers (mach vm') = registers (mach vm)"
proof (induction "is" arbitrary: vm)
  case (Cons i "is")
  then show ?case by (auto simp: bindR_eq_Inr_iff split: if_splits dest!: regs_upd_IPT)
qed simp

lemma regs_HandleMemoryFull: "HandleMemoryFull rnd vm = Inr (p, vm') \<Longrightarrow> registers (mach vm') = registers (mach vm)"
  unfolding HandleMemoryFull_def victim_def swappedPage_def evictedPage_def
  by (auto simp: bindR_eq_Inr_iff Let_def split: if_splits dest!: regs_upd_page regs_flush)

lemma regs_IPTMiss: "IPTMiss a v p vm = Inr vm' \<Longrightarrow> registers (mach vm') = registers (mach vm)"
  unfolding IPTMiss_def by (auto simp: bindR_eq_Inr_iff Let_def split: if_splits dest!: regs_upd_page regs_upd_IPT)

lemma regs_HandleIPTMiss: "HandleIPTMiss rnd v vm = Inr (p, vm') \<Longrightarrow> registers (mach vm') = registers (mach vm)"
  unfolding HandleIPTMiss_def by (auto simp: bindR_eq_Inr_iff split: if_splits dest!: regs_HandleMemoryFull regs_IPTMiss)

lemma regs_updateTLB: "updateTLB p vm = Inr vm' \<Longrightarrow> registers (mach vm') = registers (mach vm)"
  unfolding updateTLB_def by (auto simp: bindR_eq_Inr_iff Let_def split: if_splits dest!: regs_upd_IPT)

lemma regs_HandlePageFault: "HandlePageFault rnd vm = Inr vm' \<Longrightarrow> registers (mach vm') = registers (mach vm)"
  unfolding HandlePageFault_def
  by (auto simp: bindR_eq_Inr_iff Let_def split: option.splits dest!: regs_HandleIPTMiss regs_updateTLB)

lemma keeps_RaiseException: "vm_RaiseException rnd ex w vm = Inr vm' \<Longrightarrow> keeps vm vm'"
  unfolding vm_RaiseException_def memory_exception_def keeps_def
  by (auto simp: bindR_eq_Inr_iff DelayedLoad_def Let_def split: if_splits dest!: regs_HandlePageFault)

lemma regs_Translate: "Translate w sz wr m = Inr (ex, p, m') \<Longrightarrow> registers m' = registers m"
  by (auto simp: Translate_def translate_entry_def Let_def split: if_splits option.splits)

lemma regs_ReadMem: "Translate w sz False m = Inr (NoException, p, m1) \<Longrightarrow> ReadMem h w sz m = Inr (x, m') \<Longrightarrow> registers m' = registers m"
  by (auto simp: ReadMem_def bindR_eq_Inr_iff mark_used_def split: if_splits dest: regs_Translate)

lemma regs_WriteMem: "Translate w sz True m = Inr (NoException, p, m1) \<Longrightarrow> WriteMem h w sz v m = Inr (x, m') \<Longrightarrow> registers m' = registers m"
  by (auto simp: WriteMem_def bindR_eq_Inr_iff mark_used_def split: if_splits dest: regs_Translate)

lemma keeps_translated: "Translate w sz wr (mach vm) = Inr (ex, p, m1) \<Longrightarrow> keeps (vm\<lparr>mach := m1\<rparr>) vm' \<Longrightarrow> keeps vm vm'"
  by (rule keeps_trans [of _ "vm\<lparr>mach := m1\<rparr>"]) (simp_all add: keeps_same regs_Translate)

lemma keeps_access:
  "vm_ReadMem rnd w sz vm = Inr (x, vm') \<Longrightarrow> keeps vm vm'"
  "vm_WriteMem rnd w sz v vm = Inr (y, vm') \<Longrightarrow> keeps vm vm'"
  unfolding vm_ReadMem_def vm_WriteMem_def
  by (auto simp: bindR_eq_Inr_iff split: if_splits dest!: keeps_RaiseException
      intro: keeps_translated keeps_mach [OF regs_ReadMem] keeps_mach [OF regs_WriteMem])

lemma keeps_copyin_byte: "copyin_byte k rnd w vm = Inr (x, vm') \<Longrightarrow> keeps vm vm'"
proof (induction k arbitrary: vm)
  case (Suc k)
  then obtain r vm1 where r: "vm_ReadMem (rnd k) w 1 vm = Inr (r, vm1)" by (auto simp: bindR_eq_Inr_iff)
  with Suc keeps_access(1) [OF r] show ?case by (cases r) (auto intro: keeps_trans)
qed simp

lemma keeps_copyin: "copyin k rnd w len vm = Inr (r, bs, vm') \<Longrightarrow> keeps vm vm'"
proof -
  have "copyin_loop k rnd w n vm = Inr (bs, vm') \<Longrightarrow> keeps vm vm'" for n
    by (induction n arbitrary: w vm bs) (fastforce simp: bindR_eq_Inr_iff intro: keeps_trans keeps_copyin_byte)+
  then show "copyin k rnd w len vm = Inr (r, bs, vm') \<Longrightarrow> keeps vm vm'" by (auto simp: copyin_def bindR_eq_Inr_iff)
qed

lemma keeps_copyout: "copyout rnd w buf vm = Inr (r, vm') \<Longrightarrow> keeps vm vm'"
proof -
  have "copyout_loop rnd w buf vm = Inr (ok, vm') \<Longrightarrow> keeps vm vm'" for ok
    by (induction buf arbitrary: w vm) (auto simp: bindR_eq_Inr_iff split: if_splits intro: keeps_trans dest: keeps_access)
  then show "copyout rnd w buf vm = Inr (r, vm') \<Longrightarrow> keeps vm vm'" by (auto simp: copyout_def bindR_eq_Inr_iff)
qed

section \<open>System calls\<close>

text \<open>What a call on files leaves alone: the registers of the user program and the sizes of the address spaces.\<close>

definition sys_keeps :: "Sys \<Rightarrow> Sys \<Rightarrow> bool" where
  "sys_keeps S S' \<longleftrightarrow> keeps (vmem S) (vmem S') \<and> spv (vmem S') = spv (vmem S)"

lemma sys_keeps_refl [simp]: "sys_keeps S S"
  by (simp add: sys_keeps_def)

lemma sys_keeps_trans: "sys_keeps S S1 \<Longrightarrow> sys_keeps S1 S2 \<Longrightarrow> sys_keeps S S2"
  by (auto simp: sys_keeps_def intro: keeps_trans)

lemma sys_keeps_vmem: "vmem S' = vmem S \<Longrightarrow> sys_keeps S S'"
  by (simp add: sys_keeps_def)

lemma sys_keeps_congs [simp]:
  "sys_keeps S (S'\<lparr>screen := x\<rparr>) = sys_keeps S S'" "sys_keeps S (S'\<lparr>keyboard := y\<rparr>) = sys_keeps S S'"
  "sys_keeps S (S'\<lparr>unixFiles := z\<rparr>) = sys_keeps S S'" "sys_keeps S (S'\<lparr>ofiles := f\<rparr>) = sys_keeps S S'"
  "sys_keeps S (S'\<lparr>nextFile := n\<rparr>) = sys_keeps S S'" "sys_keeps (S\<lparr>keyboard := y\<rparr>) S' = sys_keeps S S'"
  by (simp_all add: sys_keeps_def)

lemma keeps_read_user: "read_user k rnd w len S = Inr (r, bs, S1) \<Longrightarrow> sys_keeps S S1"
  using spv_read_user [of k rnd w len S r bs S1]
  by (auto simp: sys_keeps_def read_user_def bindR_eq_Inr_iff intro: keeps_copyin)

lemma keeps_copy_back: "copy_back rnd w buf S = Inr S1 \<Longrightarrow> sys_keeps S S1"
  by (auto simp: sys_keeps_def copy_back_def bindR_eq_Inr_iff intro: keeps_copyout spv_view [OF view_copyout])

lemma keeps_set_table: "set_table t S = Inr S1 \<Longrightarrow> sys_keeps S S1"
  by (auto simp: sys_keeps_def set_table_def bindR_eq_Inr_iff get_space_def spv_def put_space_def fun_eq_iff keeps_same
      split: option.splits)

lemma keeps_stub:
  "stub_Create c name S = Inr S1 \<Longrightarrow> sys_keeps S S1" "stub_Open name S = (f, S2) \<Longrightarrow> sys_keeps S S2"
  "stub_Read g n S = Inr (bs, S3) \<Longrightarrow> sys_keeps S S3" "stub_Write g bs' S = Inr S4 \<Longrightarrow> sys_keeps S S4"
  "delete_OpenFile g S = Inr S5 \<Longrightarrow> sys_keeps S S5"
  by (auto simp: stub_Create_def stub_Open_def stub_Read_def stub_Write_def delete_OpenFile_def bindR_eq_Inr_iff Let_def
      intro!: sys_keeps_vmem split: if_splits option.splits)

lemmas keeps_parts = keeps_read_user keeps_copy_back keeps_set_table keeps_stub

lemma keeps_Create: "Create_Syscall k rnd c w len S = Inr S' \<Longrightarrow> sys_keeps S S'"
  by (auto simp: Create_Syscall_def bindR_eq_Inr_iff split: if_splits dest: keeps_parts intro: sys_keeps_trans)

lemma keeps_Open: "Open_Syscall k rnd w len S = Inr (r, S') \<Longrightarrow> sys_keeps S S'"
  by (auto simp: Open_Syscall_def bindR_eq_Inr_iff split: if_splits prod.splits option.splits
      dest!: keeps_parts intro: sys_keeps_trans)

lemma keeps_Write: "Write_Syscall k rnd w len i S = Inr S' \<Longrightarrow> sys_keeps S S'"
  by (auto simp: Write_Syscall_def bindR_eq_Inr_iff split: if_splits option.splits dest!: keeps_parts intro: sys_keeps_trans)

lemma keeps_Read: "Read_Syscall rnd junk w len i S = Inr (r, S') \<Longrightarrow> sys_keeps S S'"
  by (auto simp: Read_Syscall_def bindR_eq_Inr_iff Let_def split: if_splits option.splits list.splits
      dest!: keeps_parts intro: sys_keeps_trans)

lemma keeps_Close: "Close_Syscall fd S = Inr S' \<Longrightarrow> sys_keeps S S'"
  by (auto simp: Close_Syscall_def bindR_eq_Inr_iff split: option.splits dest!: keeps_parts intro: sys_keeps_trans)

lemma keeps_Print: "Print_Syscall k rnd w len S = Inr S' \<Longrightarrow> sys_keeps S S'" "PrintInt_Syscall i S = Inr S'' \<Longrightarrow> sys_keeps S S''"
  by (auto simp: Print_Syscall_def PrintInt_Syscall_def bindR_eq_Inr_iff split: if_splits dest!: keeps_parts)

lemmas keeps_files = keeps_Create keeps_Open keeps_Write keeps_Read keeps_Close keeps_Print

lemma keeps_load_program: "load_program big junk jp jw js a name S = Inr (Some S1) \<Longrightarrow> keeps (vmem S) (vmem S1)"
  by (auto simp: load_program_def bindR_eq_Inr_iff keeps_same split: option.splits)

lemma keeps_getNumPages: "getNumPages a vm = Inr (n, vm') \<Longrightarrow> keeps vm vm'"
  unfolding getNumPages_def bindR_eq_Inr_iff by (auto simp: keeps_same neq_Nil_conv split: list.split_asm)

lemma keeps_allocateStack: "allocateStack junk a vm = Inr vm' \<Longrightarrow> keeps vm vm'"
  by (auto simp: allocateStack_def RestoreState_def bindR_eq_Inr_iff Let_def keeps_same split: if_splits)

lemma keeps_Exec:
  assumes "Exec_Syscall k rnd big junk jp jw js a w len K = Inr (Some (r, K'))"
  shows "keeps (kvm K) (kvm K')"
proof -
  from assms obtain x buf S1 where S1: "read_user k rnd w len (ksys K) = Inr (x, buf, S1)"
    and K': "kvm K' = vmem S1 \<or> (\<exists>S2 n vm1. load_program big junk jp jw js a (cstr buf) S1 = Inr (Some S2) \<and>
      getNumPages a (vmem S2) = Inr (n, vm1) \<and> kvm K' = vm1)"
    by (auto simp: Exec_Syscall_def Exec_create_def Exec_record_def record_pair_def Let_def bindR_eq_Inr_iff kvm_def
      split: if_splits option.splits)
  show ?thesis using keeps_read_user [OF S1] K'
    by (auto simp: sys_keeps_def kvm_def intro: keeps_trans dest!: keeps_load_program keeps_getNumPages)
qed

lemma keeps_Fork:
  assumes "Fork_Syscall k rnd jp addr w len i K = Inr (Some K')"
  shows "keeps (kvm K) (kvm K')"
proof -
  from assms obtain x buf S1 a vm1 where S1: "read_user k rnd w len (ksys K) = Inr (x, buf, S1)"
    and K': "allocateStack jp a (vmem S1) = Inr vm1" "kvm K' = vm1"
    by (auto simp: Fork_Syscall_def Let_def bindR_eq_Inr_iff kvm_def split: if_splits)
  show ?thesis using keeps_read_user [OF S1] keeps_allocateStack [OF K'(1)] K'(2)
    by (auto simp: sys_keeps_def kvm_def intro: keeps_trans)
qed

text \<open>How each kind of call can end.\<close>

lemma lift_iffs:
  "lift_sys K r = Inr e \<longleftrightarrow> (\<exists>S. r = Inr S \<and> e = Return 0 (K\<lparr>ksys := S\<rparr>))"
  "lift_sys_value K rs = Inr e \<longleftrightarrow> (\<exists>rv S. rs = Inr (rv, S) \<and> e = Return rv (K\<lparr>ksys := S\<rparr>))"
  "remote_void K m = Inr e \<longleftrightarrow> (\<exists>x. m = Inr x \<and> e = AwaitReply x False K)"
  "remote_value K m = Inr e \<longleftrightarrow> (\<exists>x. m = Inr x \<and> e = AwaitReply x True K)"
  "lift_exit ko = Inr e \<longleftrightarrow> ko = Inr None \<and> e = AwaitLock \<or> (\<exists>K1. ko = Inr (Some K1) \<and> e = Finished K1)"
  "lift_fork ko = Inr e \<longleftrightarrow> ko = Inr None \<and> e = AwaitLock \<or> (\<exists>K1. ko = Inr (Some K1) \<and> e = Return 0 K1)"
  "lift_exec kr = Inr e \<longleftrightarrow> kr = Inr None \<and> e = AwaitLock \<or> (\<exists>rv K1. kr = Inr (Some (rv, K1)) \<and> e = Return rv K1)"
  by (auto simp: lift_sys_def lift_sys_value_def remote_void_def remote_value_def lift_exit_def lift_fork_def lift_exec_def
      bindR_eq_Inr_iff split: option.splits)

text \<open>The states a call can leave behind: that of a call on files or of a remote call, or of a call on processes.\<close>

fun state_after :: "Kern \<Rightarrow> effect \<Rightarrow> Kern" where
  "state_after K (Return rv K1) = K1"
| "state_after K AwaitLock = K"
| "state_after K (YieldCPU K1) = K1"
| "state_after K (AwaitReply m u K1) = K1"
| "state_after K (Finished K1) = K1"

definition file_call :: "Kern \<Rightarrow> Kern \<Rightarrow> bool" where
  "file_call K K1 \<longleftrightarrow> (\<exists>S. K1 = K\<lparr>ksys := S\<rparr> \<and> sys_keeps (ksys K) S)"

lemma file_call_refl [simp]: "file_call K K"
  unfolding file_call_def by (rule exI [of _ "ksys K"]) simp

lemma file_call_lift:
  "lift_sys K r = Inr e \<Longrightarrow> (\<And>S. r = Inr S \<Longrightarrow> sys_keeps (ksys K) S) \<Longrightarrow> file_call K (state_after K e)"
  "lift_sys_value K rs = Inr e \<Longrightarrow> (\<And>rv S. rs = Inr (rv, S) \<Longrightarrow> sys_keeps (ksys K) S) \<Longrightarrow> file_call K (state_after K e)"
  "remote_void K m = Inr e \<Longrightarrow> file_call K (state_after K e)"
  "remote_value K m = Inr e \<Longrightarrow> file_call K (state_after K e)"
  by (auto simp: lift_iffs file_call_def intro: exI [of _ "ksys K"])

lemma file_call_create: "remote_create env w len f K = Inr e \<Longrightarrow> file_call K (state_after K e)"
  by (auto simp: remote_create_def bindR_eq_Inr_iff lift_iffs file_call_def split: if_splits dest: keeps_read_user)

lemma syscall_cases:
  assumes "syscall env no a1 a2 a3 a4 K = Inr e"
  obtains (exit) "no = 1" "lift_exit (Exit_Syscall K) = Inr e"
  | (exec) "no = 2" "lift_exec (Exec_Syscall (se_fuel env) (se_rnd env) (se_big env) (se_bytes env) (se_pages env)
      (se_words env) (se_slots env) (se_addr env) a1 (sint a2) K) = Inr e"
  | (fork) "no = 9" "lift_fork (Fork_Syscall (se_fuel env) (se_rnd env) (se_pages env) a1 a2 (sint a3) (sint a4) K) = Inr e"
  | (other) "file_call K (state_after K e)"
proof -
  show thesis
  proof (cases "no = 1 \<or> no = 2 \<or> no = 9")
    case True
    then show ?thesis using assms exit exec fork by (auto simp: syscall_def Let_def)
  next
    case False
    then have "file_call K (state_after K e)"
      using assms unfolding syscall_def Let_def
      by (auto split: if_splits simp: bindR_eq_Inr_iff elim!: file_call_lift file_call_create dest: keeps_files)
    then show ?thesis by (rule other)
  qed
qed

lemma file_call_keeps: "file_call K K1 \<Longrightarrow> keeps (kvm K) (kvm K1)"
  by (auto simp: file_call_def sys_keeps_def kvm_def)

lemma syscall_keeps:
  assumes "syscall env no a1 a2 a3 a4 K = Inr (Return rv K1)"
  shows "keeps (kvm K) (kvm K1)"
  using assms by (cases rule: syscall_cases) (auto simp: lift_iffs dest: keeps_Exec keeps_Fork file_call_keeps)

lemma file_call_step: "file_call K K1 \<Longrightarrow> kern_step K K1"
  by (rule kern_step.other) (auto simp: file_call_def sys_keeps_def kern_core_def kvm_def)

lemma Exec_steps:
  assumes "spaces (kvm K) a = None" "Exec_Syscall fuel rnd big junk jp jw js a w len K = Inr (Some (rv, K'))"
  shows "kern_step\<^sup>*\<^sup>* K K'"
proof -
  from assms(2) obtain r K1 where c: "Exec_create fuel rnd big junk jp jw js a w len K = Inr (Some (r, K1))"
    and r: "(case r of None \<Rightarrow> K' = K1 | Some pair \<Rightarrow> Exec_record pair K1 = Some K')"
    unfolding Exec_Syscall_def bindR_eq_Inr_iff by (fastforce split: option.split_asm)
  have s: "kern_step K K1" by (rule kern_step.exec [OF assms(1) c])
  have "pair \<in> set (newPairs K1)" if "r = Some pair" for pair
    using c that by (auto simp: Exec_create_def bindR_eq_Inr_iff Let_def split: if_splits option.splits)
  then have "kern_step\<^sup>*\<^sup>* K1 K'" using r by (cases r) (auto intro: kern_step.recorded)
  with s show ?thesis by (rule converse_rtranclp_into_rtranclp)
qed

lemma syscall_step:
  assumes "syscall env no a1 a2 a3 a4 K = Inr e" "spaces (kvm K) (se_addr env) = None"
    "curThread K \<notin> fst ` set (forked K)" "curThread K \<notin> fst ` set (newPairs K)"
  shows "kern_step\<^sup>*\<^sup>* K (state_after K e)"
  using assms(1)
proof (cases rule: syscall_cases)
  case exit
  then show ?thesis using assms(3,4) by (auto simp: lift_iffs intro: r_into_rtranclp [where r = kern_step, OF kern_step.exit] r_into_rtranclp [where r = kern_step, OF file_call_step])
next
  case exec
  then show ?thesis using assms(2) by (auto simp: lift_iffs intro: Exec_steps r_into_rtranclp [where r = kern_step, OF file_call_step])
next
  case fork
  then show ?thesis by (auto simp: lift_iffs intro: r_into_rtranclp [where r = kern_step, OF kern_step.fork] r_into_rtranclp [where r = kern_step, OF file_call_step])
next
  case other
  then show ?thesis by (blast intro: file_call_step)
qed

lemma syscall_return_eq:
  "syscall_return rv K = Inr (set_kvm ((kvm K)\<lparr>mach := (mach (kvm K))\<lparr>registers := (registers (mach (kvm K)))
     (2 := word_of_int rv, PrevPCReg := registers (mach (kvm K)) PCReg, PCReg := registers (mach (kvm K)) NextPCReg,
      NextPCReg := registers (mach (kvm K)) NextPCReg + 4)\<rparr>\<rparr>) K)"
  by (simp add: syscall_return_def ReadRegister_def WriteRegister_def fun_upd_twist)

lemma handler_syscall:
  "ExceptionHandler env SyscallException K = bindR (syscall env (sint (registers (mach (kvm K)) 2)) (registers (mach (kvm K)) 4)
     (registers (mach (kvm K)) 5) (registers (mach (kvm K)) 6) (registers (mach (kvm K)) 7) K) (\<lambda>e. case e of
       Return rv K1 \<Rightarrow> bindR (syscall_return rv K1) (\<lambda>K2. Inr (Resumed K2)) | _ \<Rightarrow> Inr (Blocked e))"
  by (simp add: ExceptionHandler_def ReadRegister_def)

lemma effect_Resumed_iff:
  "(case e of Return rv K1 \<Rightarrow> bindR (syscall_return rv K1) (\<lambda>K2. Inr (Resumed K2)) | _ \<Rightarrow> Inr (Blocked e)) = Inr (Resumed K') \<longleftrightarrow>
     (\<exists>rv K1. e = Return rv K1 \<and> syscall_return rv K1 = Inr K')"
  by (cases e) (auto simp: bindR_eq_Inr_iff)

lemma handled_Resumed_iff:
  "(case h of Resumed K1 \<Rightarrow> Inr (Resumed (f K1)) | Blocked e \<Rightarrow> Inr h) = Inr (Resumed K') \<longleftrightarrow> (\<exists>K1. h = Resumed K1 \<and> K' = f K1)"
  by (cases h) auto

lemma handler_resumes:
  assumes "ExceptionHandler env SyscallException K = Inr (Resumed K')" and l: "registers (mach (kvm K)) LoadReg = 0"
  shows "registers (mach (kvm K')) PCReg = registers (mach (kvm K)) NextPCReg \<and>
    registers (mach (kvm K')) NextPCReg = registers (mach (kvm K)) NextPCReg + 4 \<and>
    registers (mach (kvm K')) PrevPCReg = registers (mach (kvm K)) PCReg \<and>
    (\<forall>i. 0 < i \<longrightarrow> i < PCReg \<longrightarrow> i \<noteq> 2 \<longrightarrow> registers (mach (kvm K')) i = registers (mach (kvm K)) i)"
proof -
  from assms(1) obtain no a1 a2 a3 a4 rv K1 where e: "syscall env no a1 a2 a3 a4 K = Inr (Return rv K1)"
    and K': "syscall_return rv K1 = Inr K'"
    unfolding handler_syscall bindR_eq_Inr_iff effect_Resumed_iff by blast
  have "\<forall>i. i \<noteq> 0 \<longrightarrow> i < 37 \<longrightarrow> registers (mach (kvm K1)) i = registers (mach (kvm K)) i"
    using syscall_keeps [OF e] l by (simp add: keeps_def)
  then show ?thesis using K' by (auto simp: syscall_return_eq)
qed

text \<open>
  C14: a system call instruction whose call returns continues the user program at the next instruction, in user
  mode: a pending load is completed, the program counters advance by one instruction, and no general register but
  register 2, which holds the result, changes, whatever page faults the kernel takes while it serves the call.
\<close>

theorem syscall_resumes:
  assumes "kern_RaiseException env SyscallException bad K = Inr (Resumed K')" "r = registers (mach (kvm K))"
    "unat (r LoadReg) < 32" "r' = registers (mach (kvm K'))"
  shows "r' PCReg = r NextPCReg \<and> r' NextPCReg = r NextPCReg + 4 \<and> r' PrevPCReg = r PCReg \<and>
    machineStatus (mach (kvm K')) = UserMode \<and>
    (\<forall>i. 0 < i \<longrightarrow> i \<le> LoReg \<longrightarrow> i \<noteq> 2 \<longrightarrow> r' i = (if i = unat (r LoadReg) then r LoadValueReg else r i))"
proof -
  from assms obtain m1 K1 where m1: "DelayedLoad 0 0 ((mach (kvm K))\<lparr>registers := r(BadVAddrReg := bad)\<rparr>) = Inr m1"
    and h: "ExceptionHandler env SyscallException (set_kvm ((kvm K)\<lparr>mach := m1\<lparr>machineStatus := SystemMode\<rparr>\<rparr>) K) = Inr (Resumed K1)"
    and K': "K' = set_kvm ((kvm K1)\<lparr>mach := (mach (kvm K1))\<lparr>machineStatus := UserMode\<rparr>\<rparr>) K1"
    unfolding kern_RaiseException_def bindR_eq_Inr_iff handled_Resumed_iff by blast
  have rm: "registers m1 = (r(BadVAddrReg := bad, unat (r LoadReg) := r LoadValueReg))(LoadReg := 0, LoadValueReg := 0, 0 := 0)"
    using m1 assms(3) by (auto simp: DelayedLoad_def Let_def fun_eq_iff split: if_splits)
  note R = handler_resumes [OF h]
  show ?thesis using R rm assms(3) by (auto simp: K' assms(4))
qed

text \<open>The state an exception leaves behind, whether the thread goes on or not.\<close>

fun kernel_after :: "Kern \<Rightarrow> handled \<Rightarrow> Kern" where
  "kernel_after K (Resumed K1) = K1"
| "kernel_after K (Blocked e) = state_after K e"

lemma return_step: "syscall_return rv K = Inr K' \<Longrightarrow> kern_step K K'"
  by (rule kern_step.other) (auto simp: syscall_return_eq kern_core_def)

lemma handler_steps:
  assumes "ExceptionHandler env which K = Inr h" "spaces (kvm K) (se_addr env) = None"
    "curThread K \<notin> fst ` set (forked K)" "curThread K \<notin> fst ` set (newPairs K)"
  shows "kern_step\<^sup>*\<^sup>* K (kernel_after K h)"
proof (cases "which = SyscallException")
  case True
  with assms(1) obtain no a1 a2 a3 a4 e where e: "syscall env no a1 a2 a3 a4 K = Inr e"
    and h: "(case e of Return rv K1 \<Rightarrow> bindR (syscall_return rv K1) (\<lambda>K2. Inr (Resumed K2)) | _ \<Rightarrow> Inr (Blocked e)) = Inr h"
    unfolding True handler_syscall bindR_eq_Inr_iff by blast
  have "kern_step\<^sup>*\<^sup>* (state_after K e) (kernel_after K h)"
    using h by (cases e) (auto simp: bindR_eq_Inr_iff dest: return_step)
  then show ?thesis using syscall_step [OF e assms(2-4)] by simp
next
  case False
  with assms(1) obtain vm where vm: "HandlePageFault (se_rnd env 0 0) (kvm K) = Inr vm" "h = Resumed (set_kvm vm K)"
    by (auto simp: ExceptionHandler_def bindR_eq_Inr_iff split: if_splits)
  then have "kern_step K (kernel_after K h)"
    by (intro kern_step.other) (simp add: kern_core_def spv_view [OF view_HandlePageFault])
  then show ?thesis by simp
qed

text \<open>
  C17: when the handler of an exception of a user program returns or waits (and does not fail, as some arguments make it do), the
  kernel has kept its processes consistent, whatever exception and arguments: each process has its own address space; the stack
  addresses of its threads come from different multiples of eight pages within it, one for each thread, in the table, in a pair
  still to be recorded, or yet to be taken; and the count of its threads is right. (\<open>stacks_apart\<close> says what this means for the
  32-bit addresses. A new address space is at an address where there is none, and a thread that raises an exception has started.)
\<close>

theorem exceptions_keep_processes:
  assumes "kern_inv K" "ExceptionHandler env which K = Inr h" "spaces (kvm K) (se_addr env) = None"
    "curThread K \<notin> fst ` set (forked K)" "curThread K \<notin> fst ` set (newPairs K)"
  shows "kern_inv (kernel_after K h)"
  using handler_steps [OF assms(2-5)] assms(1) by (induction rule: rtranclp_induct) (auto intro: kern_step_inv)

text \<open>
  a system call number without a case, among them the documented \<^verbatim>\<open>Join\<close>, and any exception of a user
  program but a page fault stop the whole machine.
\<close>

theorem unknown_call_halts:
  assumes "which \<noteq> PageFaultException" "which = SyscallException \<Longrightarrow> sint (registers (mach (kvm K)) 2) \<notin> {1..26} - {3}"
  shows "ExceptionHandler env which K = Inl Halted"
proof (cases "which = SyscallException")
  case True
  have "no \<notin> {1..26} - {3} \<Longrightarrow> syscall env no a1 a2 a3 a4 K = Inl Halted" for no a1 a2 a3 a4
    by (auto simp: syscall_def Let_def)
  then show ?thesis using assms True by (simp add: handler_syscall)
qed (use assms in \<open>simp add: ExceptionHandler_def ReadRegister_def\<close>)

section \<open>Witnesses\<close>

definition demo_env :: Env where
  "demo_env = \<lparr>se_fuel = 2, se_rnd = (\<lambda>_ _. 0), se_creatable = (\<lambda>_. True), se_buffer = replicate 40 0, se_big = False, se_bytes = (\<lambda>_. 0),
     se_pages = undefined, se_words = [], se_slots = [], se_addr = 9, numServers = 1\<rparr>"

text \<open>The first process of an example run calls \<^verbatim>\<open>PrintInt(-70)\<close> at address 16 while register 8 is being loaded.\<close>

definition call_regs :: "nat \<Rightarrow> 32 word" where
  "call_regs = (\<lambda>_. 0)(2 := 21, 4 := - 70, 8 := 3, PCReg := 16, NextPCReg := 20, LoadReg := 8, LoadValueReg := 55)"

lemma demo_process: "\<exists>K. kern_inv K \<and> forked K = [] \<and> newPairs K = [] \<and> spaces (kvm K) 9 = None \<and> screen (ksys K) = [] \<and> registers (mach (kvm K)) = call_regs"
proof -
  from demo_kernel obtain K0 K1 where K: "booted K0" "kern_step\<^sup>*\<^sup>* K0 K1" "forked K1 = []" "spaces (kvm K1) 9 = None" "newPairs K1 = []" by blast
  let ?K = "K1\<lparr>ksys := (ksys K1)\<lparr>screen := [], vmem := (kvm K1)\<lparr>mach := (mach (kvm K1))\<lparr>registers := call_regs\<rparr>\<rparr>\<rparr>\<rparr>"
  have "kern_inv K1" by (rule kern_run_inv [OF K(2,1)])
  then have "kern_inv ?K" by (rule kern_step_inv [rotated]) (simp add: kern_step.other kern_core_def kvm_def)
  then show ?thesis using K(3-5) by (intro exI [of _ ?K]) (simp add: kvm_def)
qed

lemma call_regs_simps: "unat (call_regs LoadReg) = 8" "call_regs LoadValueReg = 55"
  by (simp_all add: call_regs_def)

lemma demo_PrintInt:
  assumes "registers (mach (kvm K)) = call_regs"
  shows "\<exists>K'. kern_RaiseException demo_env SyscallException 0 K = Inr (Resumed K') \<and> screen (ksys K') = screen (ksys K) @ [45, 55, 48]"
proof -
  have d: "decimal (- 70) = [45, 55, 48]" by (simp add: decimal_def digits.simps)
  show ?thesis
    by (simp add: kern_RaiseException_def DelayedLoad_def assms call_regs_simps Let_def handler_syscall syscall_def lift_sys_def
        PrintInt_Syscall_def syscall_return_eq d) (simp add: call_regs_def set_kvm_def d)
qed

theorem syscall_resumes_witness:
  "\<exists>K K'. registers (mach (kvm K)) = call_regs \<and> kern_RaiseException demo_env SyscallException 0 K = Inr (Resumed K') \<and>
     registers (mach (kvm K')) PCReg = 20 \<and> registers (mach (kvm K')) 8 = 55 \<and> registers (mach (kvm K')) 4 = - 70"
proof -
  obtain K where r: "registers (mach (kvm K)) = call_regs" using demo_process by blast
  obtain K' where K': "kern_RaiseException demo_env SyscallException 0 K = Inr (Resumed K')" using demo_PrintInt [OF r] by blast
  have "unat (call_regs LoadReg) < 32" by (simp add: call_regs_simps)
  note R = syscall_resumes [OF K' r [symmetric] this refl]
  have "registers (mach (kvm K')) PCReg = 20" "registers (mach (kvm K')) 8 = 55" "registers (mach (kvm K')) 4 = - 70"
    using R by (simp_all add: call_regs_def)
  with r K' show ?thesis by blast
qed

theorem exceptions_keep_processes_witness:
  "\<exists>K h. kern_inv K \<and> ExceptionHandler demo_env SyscallException K = Inr h \<and> kern_inv (kernel_after K h)"
proof -
  obtain K where K: "kern_inv K" "forked K = []" "newPairs K = []" "spaces (kvm K) 9 = None" "registers (mach (kvm K)) = call_regs"
    using demo_process by blast
  then have "\<exists>h. ExceptionHandler demo_env SyscallException K = Inr h"
    by (simp add: handler_syscall syscall_def lift_sys_def PrintInt_Syscall_def syscall_return_eq call_regs_def Let_def)
  then obtain h where h: "ExceptionHandler demo_env SyscallException K = Inr h" by blast
  from exceptions_keep_processes [OF K(1) h] K h show ?thesis by (auto simp: demo_env_def)
qed

theorem unknown_call_halts_witness: "\<exists>K. registers (mach (kvm K)) 2 = 3 \<and> ExceptionHandler demo_env SyscallException K = Inl Halted"
proof -
  obtain K :: Kern where True by blast
  let ?K = "set_kvm ((kvm K)\<lparr>mach := (mach (kvm K))\<lparr>registers := (\<lambda>_. 3)\<rparr>\<rparr>) K"
  have "ExceptionHandler demo_env SyscallException ?K = Inl Halted" by (rule unknown_call_halts) simp_all
  then show ?thesis by (intro exI [of _ ?K]) simp
qed

end
