(* ===== verification/Interrupts.thy ===== *)
theory Interrupts
  imports Linked_List Machine_Memory Thread_Kernel "HOL-Library.Multiset"
begin

text \<open>
  The interrupt controller of the simulated machine (\<^verbatim>\<open>machine/interrupt.cc\<close>) and the timer device
  (\<^verbatim>\<open>machine/timer.cc\<close>). Interrupts to come are kept in a list of \<^verbatim>\<open>threads/list.cc\<close>, sorted by time.
  A handler is a function pointer; \<open>run\<close>, an argument of the routines that fire interrupts, says
  what calling it does. The locale \<open>device_handlers\<close> is what the controller relies on: a handler
  returns, leaves interrupts off and the clock alone, and schedules interrupts for later only: for
  the handlers \<open>again h\<close>, within \<open>span\<close> ticks.
\<close>

section \<open>State\<close>

datatype IntType = TimerInt | DiskInt | ConsoleWriteInt | ConsoleReadInt | NetworkSendInt | NetworkRecvInt

record 'h PendingInterrupt =
  pi_handler :: 'h
  pi_arg :: int
  pi_when :: int
  pi_type :: IntType

text \<open>
  The fields of \<^verbatim>\<open>Interrupt\<close>, the counters of \<^verbatim>\<open>stats\<close>, the machine that runs user programs if there is
  one, and the state of the devices. Times are 64-bit integers in the code; they do not wrap in
  any run that ends.
\<close>

record ('h, 'd) Interrupt =
  ilevel :: IntStatus
  pending :: "'h PendingInterrupt List"
  inHandler :: bool
  yieldOnReturn :: bool
  istatus :: MachineStatus
  totalTime :: int
  idleTicks :: int
  systemTicks :: int
  userTicks :: int
  imachine :: "Machine option"
  devs :: 'd

abbreviation (input) SystemTick :: int where "SystemTick \<equiv> 10"
abbreviation (input) UserTick :: int where "UserTick \<equiv> 1"
abbreviation (input) TimerTicks :: int where "TimerTicks \<equiv> 100"

definition new_Interrupt :: "Machine option \<Rightarrow> 'd \<Rightarrow> ('h, 'd) Interrupt" where
  "new_Interrupt m d =
     \<lparr>ilevel = IntOff, pending = new_List, inHandler = False, yieldOnReturn = False, istatus = SystemMode,
      totalTime = 0, idleTicks = 0, systemTicks = 0, userTicks = 0, imachine = m, devs = d\<rparr>"

section \<open>Operations\<close>

definition ChangeLevel :: "IntStatus \<Rightarrow> ('h, 'd) Interrupt \<Rightarrow> ('h, 'd) Interrupt" where
  "ChangeLevel new st = st\<lparr>ilevel := new\<rparr>"

definition Schedule :: "'h \<Rightarrow> int \<Rightarrow> int \<Rightarrow> IntType \<Rightarrow> ('h, 'd) Interrupt \<Rightarrow> ('h, 'd) Interrupt res" where
  "Schedule h a fromNow ty st =
     (let w = totalTime st + fromNow;
          toOccur = \<lparr>pi_handler = h, pi_arg = a, pi_when = w, pi_type = ty\<rparr> in
      if fromNow > 0
      then bindR (List_SortedInsert (pending st) (Some toOccur) w) (\<lambda>l. Inr (st\<lparr>pending := l\<rparr>))
      else Inl AssertionFailed)"

definition YieldOnReturn :: "('h, 'd) Interrupt \<Rightarrow> ('h, 'd) Interrupt res" where
  "YieldOnReturn st = (if inHandler st then Inr (st\<lparr>yieldOnReturn := True\<rparr>) else Inl AssertionFailed)"

text \<open>Firing: \<^verbatim>\<open>machine->DelayedLoad(0, 0)\<close>, then the handler with the status set to the kernel's.\<close>

definition fire ::
  "('h \<Rightarrow> int \<Rightarrow> ('h, 'd) Interrupt \<Rightarrow> ('h, 'd) Interrupt res) \<Rightarrow> 'h PendingInterrupt \<Rightarrow> ('h, 'd) Interrupt \<Rightarrow>
     ('h, 'd) Interrupt res" where
  "fire run p st =
     (let old = istatus st in
      bindR (case imachine st of
               None \<Rightarrow> Inr st
             | Some m \<Rightarrow> bindR (DelayedLoad 0 0 m) (\<lambda>m1. Inr (st\<lparr>imachine := Some m1\<rparr>))) (\<lambda>st1.
      bindR (run (pi_handler p) (pi_arg p) (st1\<lparr>inHandler := True, istatus := SystemMode\<rparr>)) (\<lambda>st2.
      Inr (st2\<lparr>istatus := old, inHandler := False\<rparr>))))"

text \<open>\<^verbatim>\<open>CheckIfDue\<close>: the result \<open>Some p\<close> is TRUE, with the interrupt \<open>p\<close> that was fired, and \<open>None\<close> is FALSE.\<close>

definition CheckIfDue ::
  "('h \<Rightarrow> int \<Rightarrow> ('h, 'd) Interrupt \<Rightarrow> ('h, 'd) Interrupt res) \<Rightarrow> bool \<Rightarrow> ('h, 'd) Interrupt \<Rightarrow>
     ('h PendingInterrupt option \<times> ('h, 'd) Interrupt) res" where
  "CheckIfDue run advanceClock st =
     (if ilevel st = IntOff
      then bindR (List_SortedRemove (pending st)) (\<lambda>(toOccur, w, l). case (toOccur, w) of
             (Some p, Some due) \<Rightarrow>
               let later = due > totalTime st;
                   st1 = st\<lparr>pending := l\<rparr>;
                   st2 = (if advanceClock \<and> later
                          then st1\<lparr>idleTicks := idleTicks st1 + (due - totalTime st1), totalTime := due\<rparr>
                          else st1);
                   putBack = bindR (List_SortedInsert l (Some p) due) (\<lambda>l1. Inr (None, st2\<lparr>pending := l1\<rparr>)) in
               if \<not> advanceClock \<and> later then putBack
               else if istatus st2 = IdleMode \<and> pi_type p = TimerInt \<and> List_IsEmpty l then putBack
               else bindR (fire run p st2) (\<lambda>st3. Inr (Some p, st3))
           | _ \<Rightarrow> Inr (None, st\<lparr>pending := l\<rparr>))
      else Inl AssertionFailed)"

text \<open>
  The loop \<^verbatim>\<open>while (CheckIfDue(FALSE)) ;\<close> with fuel, and the list of the interrupts it fires:
  \<open>due_loop_ok\<close> shows that one more than the number of pending interrupts is enough.
\<close>

fun due_loop ::
  "nat \<Rightarrow> ('h \<Rightarrow> int \<Rightarrow> ('h, 'd) Interrupt \<Rightarrow> ('h, 'd) Interrupt res) \<Rightarrow> ('h, 'd) Interrupt \<Rightarrow>
     ('h PendingInterrupt list \<times> ('h, 'd) Interrupt) res" where
  "due_loop 0 run st = Inl Diverges"
| "due_loop (Suc n) run st =
     bindR (CheckIfDue run False st) (\<lambda>(r, st1). case r of
       None \<Rightarrow> Inr ([], st1)
     | Some p \<Rightarrow> bindR (due_loop n run st1) (\<lambda>(ps, st2). Inr (p # ps, st2)))"

text \<open>
  \<^verbatim>\<open>OneTick\<close>. The result says whether a handler asked for a context switch: then the thread
  package's \<^verbatim>\<open>Yield\<close> runs, in kernel mode, before it returns (the step \<open>preempt\<close> of \<open>kstep\<close>).
\<close>

definition OneTick ::
  "nat \<Rightarrow> ('h \<Rightarrow> int \<Rightarrow> ('h, 'd) Interrupt \<Rightarrow> ('h, 'd) Interrupt res) \<Rightarrow> ('h, 'd) Interrupt \<Rightarrow>
     (bool \<times> 'h PendingInterrupt list \<times> ('h, 'd) Interrupt) res" where
  "OneTick n run st =
     (let old = istatus st;
          st1 = (if istatus st = SystemMode
                 then st\<lparr>totalTime := totalTime st + SystemTick, systemTicks := systemTicks st + SystemTick\<rparr>
                 else st\<lparr>totalTime := totalTime st + UserTick, userTicks := userTicks st + UserTick\<rparr>) in
      bindR (due_loop n run (ChangeLevel IntOff st1)) (\<lambda>(ps, st2).
      let st3 = ChangeLevel IntOn st2 in
      if yieldOnReturn st3 then Inr (True, ps, st3\<lparr>yieldOnReturn := False, istatus := old\<rparr>)
      else Inr (False, ps, st3)))"

definition SetLevel ::
  "nat \<Rightarrow> ('h \<Rightarrow> int \<Rightarrow> ('h, 'd) Interrupt \<Rightarrow> ('h, 'd) Interrupt res) \<Rightarrow> IntStatus \<Rightarrow> ('h, 'd) Interrupt \<Rightarrow>
     (IntStatus \<times> bool \<times> 'h PendingInterrupt list \<times> ('h, 'd) Interrupt) res" where
  "SetLevel n run new st =
     (let old = ilevel st in
      if new = IntOff \<or> \<not> inHandler st
      then let st1 = ChangeLevel new st in
           if new = IntOn \<and> old = IntOff
           then bindR (OneTick n run st1) (\<lambda>(y, ps, st2). Inr (old, y, ps, st2))
           else Inr (old, False, [], st1)
      else Inl AssertionFailed)"

definition Enable ::
  "nat \<Rightarrow> ('h \<Rightarrow> int \<Rightarrow> ('h, 'd) Interrupt \<Rightarrow> ('h, 'd) Interrupt res) \<Rightarrow> ('h, 'd) Interrupt \<Rightarrow>
     (IntStatus \<times> bool \<times> 'h PendingInterrupt list \<times> ('h, 'd) Interrupt) res" where
  "Enable n run st = SetLevel n run IntOn st"

text \<open>\<^verbatim>\<open>Idle\<close>: with nothing to wait for the machine halts.\<close>

definition Idle ::
  "nat \<Rightarrow> ('h \<Rightarrow> int \<Rightarrow> ('h, 'd) Interrupt \<Rightarrow> ('h, 'd) Interrupt res) \<Rightarrow> ('h, 'd) Interrupt \<Rightarrow>
     ('h PendingInterrupt list \<times> ('h, 'd) Interrupt) res" where
  "Idle n run st =
     bindR (CheckIfDue run True (st\<lparr>istatus := IdleMode\<rparr>)) (\<lambda>(r, st1). case r of
       None \<Rightarrow> Inl Halted
     | Some p \<Rightarrow> bindR (due_loop n run st1) (\<lambda>(ps, st2).
         Inr (p # ps, st2\<lparr>yieldOnReturn := False, istatus := SystemMode\<rparr>)))"

section \<open>The timer\<close>

record Timer =
  randomize :: bool

text \<open>\<open>Random\<close> is the value that \<^verbatim>\<open>Random()\<close> returns.\<close>

definition TimeOfNextInterrupt :: "nat \<Rightarrow> Timer \<Rightarrow> int" where
  "TimeOfNextInterrupt random t = (if randomize t then 1 + int random mod (TimerTicks * 2) else TimerTicks)"

definition TimerInterruptHandler :: "('h, 'd) Interrupt \<Rightarrow> ('h, 'd) Interrupt res" where
  "TimerInterruptHandler st = (if istatus st \<noteq> IdleMode then YieldOnReturn st else Inr st)"

definition new_Timer :: "'h \<Rightarrow> nat \<Rightarrow> Timer \<Rightarrow> ('h, 'd) Interrupt \<Rightarrow> ('h, 'd) Interrupt res" where
  "new_Timer timerHandler random t st = Schedule timerHandler 0 (TimeOfNextInterrupt random t) TimerInt st"

definition TimerExpired :: "'h \<Rightarrow> nat \<Rightarrow> Timer \<Rightarrow> ('h, 'd) Interrupt \<Rightarrow> ('h, 'd) Interrupt res" where
  "TimerExpired timerHandler random t st =
     bindR (Schedule timerHandler 0 (TimeOfNextInterrupt random t) TimerInt st) TimerInterruptHandler"


section \<open>What the controller relies on\<close>

definition load_ok :: "Machine option \<Rightarrow> bool" where
  "load_ok mo \<longleftrightarrow> (case mo of None \<Rightarrow> True | Some m \<Rightarrow> unat (registers m LoadReg) < NumTotalRegs)"

definition intr_wf :: "('h, 'd) Interrupt \<Rightarrow> bool" where
  "intr_wf st \<longleftrightarrow> nonnull_inv (pending st) \<and> sorted (map snd (keyed_items (pending st))) \<and>
     (\<forall>(p, k) \<in> set (keyed_items (pending st)). k = pi_when p) \<and> load_ok (imachine st)"

text \<open>\<open>later st new\<close>: interrupts to come after the present.\<close>

definition later :: "int \<Rightarrow> ('h PendingInterrupt \<times> int) list \<Rightarrow> bool" where
  "later now new \<longleftrightarrow> (\<forall>(p, k) \<in> set new. k = pi_when p \<and> now < k)"

definition due_by :: "int \<Rightarrow> ('h PendingInterrupt \<times> int) list \<Rightarrow> bool" where
  "due_by limit new \<longleftrightarrow> (\<forall>(p, k) \<in> set new. k \<le> limit)"

text \<open>The handlers that are to be called, as a multiset.\<close>

definition waiting :: "('h PendingInterrupt \<times> int) list \<Rightarrow> 'h multiset" where
  "waiting es = image_mset (pi_handler \<circ> fst) (mset es)"

lemma waiting_simps [simp]:
  "waiting [] = {#}" "waiting (e # es) = add_mset (pi_handler (fst e)) (waiting es)"
  "waiting (es @ es') = waiting es + waiting es'"
  by (simp_all add: waiting_def)

lemma waiting_insert_all: "sorted (map snd xs) \<Longrightarrow> waiting (insert_all new xs) = waiting xs + waiting new"
  using insert_all_props [of xs new] by (simp add: waiting_def)

lemma waiting_cong: "mset es = mset es' \<Longrightarrow> waiting es = waiting es'"
  by (simp add: waiting_def)

lemma sorted_insert_takeWhile:
  "now < k \<Longrightarrow> takeWhile (\<lambda>e. snd e \<le> now) (sorted_insert x k xs) = takeWhile (\<lambda>e. snd e \<le> now) xs"
  by (induction xs) (auto simp: sorted_insert_Cons)

lemma insert_all_takeWhile:
  "later now new \<Longrightarrow> takeWhile (\<lambda>e. snd e \<le> now) (insert_all new xs) = takeWhile (\<lambda>e. snd e \<le> now) xs"
proof (induction new arbitrary: xs)
  case (Cons e new)
  obtain p k where e: "e = (p, k)" by (cases e)
  have "insert_all (e # new) xs = insert_all new (sorted_insert p k xs)" by (simp add: insert_all_def e)
  then show ?case using Cons e by (auto simp: later_def sorted_insert_takeWhile)
qed (simp add: insert_all_def)

lemma insert_all_sorted_set:
  assumes "sorted (map snd xs)"
  shows "sorted (map snd (insert_all new xs))" "set (insert_all new xs) = set xs \<union> set new"
    "length (insert_all new xs) = length xs + length new"
  using insert_all_props [OF assms, of new] mset_eq_setD [of "insert_all new xs" "xs @ new"]
    size_mset [of "insert_all new xs"] by auto

lemma due_by_insert_all:
  assumes "sorted (map snd xs)"
  shows "due_by limit (insert_all new xs) \<longleftrightarrow> due_by limit xs \<and> due_by limit new"
  unfolding due_by_def insert_all_sorted_set(2) [OF assms] by blast

lemma Schedule_ok:
  assumes "intr_wf st" "0 < fromNow"
  shows "\<exists>l. Schedule h a fromNow ty st = Inr (st\<lparr>pending := l\<rparr>) \<and> intr_wf (st\<lparr>pending := l\<rparr>) \<and>
    keyed_items l = insert_all [(\<lparr>pi_handler = h, pi_arg = a, pi_when = totalTime st + fromNow, pi_type = ty\<rparr>,
      totalTime st + fromNow)] (keyed_items (pending st))"
proof -
  let ?w = "totalTime st + fromNow"
  let ?p = "\<lparr>pi_handler = h, pi_arg = a, pi_when = ?w, pi_type = ty\<rparr>"
  have wf: "nonnull_inv (pending st)" "sorted (map snd (keyed_items (pending st)))"
    "\<forall>(p, k) \<in> set (keyed_items (pending st)). k = pi_when p" "load_ok (imachine st)"
    using assms(1) by (simp_all add: intr_wf_def)
  from insert_item_ok [OF wf(1), of ?p ?w] obtain l where
    l: "List_SortedInsert (pending st) (Some ?p) ?w = Inr l" "nonnull_inv l"
      "keyed_items l = sorted_insert ?p ?w (keyed_items (pending st))" by (auto simp: insert_item_def)
  then show ?thesis using wf assms(2) sorted_sorted_insert [OF wf(2), of ?p ?w]
    by (intro exI [of _ l]) (auto simp: Schedule_def intr_wf_def insert_all_def)
qed

section \<open>Taking an interrupt from the list\<close>

text \<open>These hold whatever the handlers are.\<close>

lemma CheckIfDue_fired:
  assumes wf: "intr_wf st" and r: "CheckIfDue run adv st = Inr (Some p, st')"
  shows "\<exists>k xs st0 st1. keyed_items (pending st) = (p, k) # xs \<and> keyed_items (pending st0) = xs \<and> intr_wf st0 \<and> devs st0 = devs st \<and>
    run (pi_handler p) (pi_arg p) st0 = Inr st1 \<and> pending st' = pending st1 \<and> devs st' = devs st1 \<and> imachine st' = imachine st1 \<and>
    (case imachine st of None \<Rightarrow> imachine st0 = None | Some m \<Rightarrow> \<exists>m1. DelayedLoad 0 0 m = Inr m1 \<and> imachine st0 = Some m1)"
proof -
  have nn: "nonnull_inv (pending st)" using wf by (simp add: intr_wf_def)
  show ?thesis
  proof (cases "keyed_items (pending st)")
    case Nil
    then show ?thesis using r keyed_items_empty_iff [OF nn] by (simp add: CheckIfDue_def List_SortedRemove_def split: if_splits)
  next
    case (Cons e xs)
    obtain q k where e: "e = (q, k)" by (cases e)
    from remove_keyed_ok [OF nn, of q k xs] Cons e obtain l where
      l: "List_SortedRemove (pending st) = Inr (Some q, Some k, l)" "nonnull_inv l" "keyed_items l = xs" by auto
    define st2 where "st2 = (if adv \<and> k > totalTime st
      then st\<lparr>pending := l, idleTicks := idleTicks st + (k - totalTime st), totalTime := k\<rparr> else st\<lparr>pending := l\<rparr>)"
    have p: "q = p" and f: "fire run p st2 = Inr st'"
      using r l(1) by (auto simp: CheckIfDue_def Let_def bindR_eq_Inr_iff st2_def split: if_splits)
    have wf2: "intr_wf st2" using wf Cons e l by (auto simp: intr_wf_def st2_def)
    from f obtain s1 s2 where s1: "(case imachine st2 of None \<Rightarrow> Inr st2
        | Some m \<Rightarrow> bindR (DelayedLoad 0 0 m) (\<lambda>m1. Inr (st2\<lparr>imachine := Some m1\<rparr>))) = Inr s1"
      and s2: "run (pi_handler p) (pi_arg p) (s1\<lparr>inHandler := True, istatus := SystemMode\<rparr>) = Inr s2"
      and st': "st' = s2\<lparr>istatus := istatus st2, inHandler := False\<rparr>"
      by (auto simp: fire_def Let_def bindR_eq_Inr_iff)
    have "pending s1 = l" "devs s1 = devs st" "load_ok (imachine s1)"
      using s1 wf2 by (auto simp: st2_def intr_wf_def load_ok_def DelayedLoad_def Let_def bindR_eq_Inr_iff split: option.splits if_splits)
    moreover from this have "intr_wf (s1\<lparr>inHandler := True, istatus := SystemMode\<rparr>)"
      using wf2 by (simp add: intr_wf_def st2_def split: if_splits)
    moreover have "imachine st2 = imachine st" by (simp add: st2_def)
    then have "case imachine st of None \<Rightarrow> imachine s1 = None | Some m \<Rightarrow> \<exists>m1. DelayedLoad 0 0 m = Inr m1 \<and> imachine s1 = Some m1"
      using s1 by (auto simp: bindR_eq_Inr_iff split: option.splits)
    ultimately show ?thesis using Cons e p l(3) s2 st'
      by - (rule exI [of _ k], rule exI [of _ xs], rule exI [of _ "s1\<lparr>inHandler := True, istatus := SystemMode\<rparr>"], rule exI [of _ s2],
          simp split: option.splits)
  qed
qed

lemma CheckIfDue_quiet:
  assumes wf: "intr_wf st" and r: "CheckIfDue run adv st = Inr (None, st')"
  shows "mset (keyed_items (pending st')) = mset (keyed_items (pending st)) \<and> intr_wf st' \<and> devs st' = devs st \<and> imachine st' = imachine st"
proof -
  have nn: "nonnull_inv (pending st)" "sorted (map snd (keyed_items (pending st)))" using wf by (simp_all add: intr_wf_def)
  show ?thesis
  proof (cases "keyed_items (pending st)")
    case Nil
    then show ?thesis using r wf keyed_items_empty_iff [OF nn(1)] by (auto simp: CheckIfDue_def List_SortedRemove_def split: if_splits)
  next
    case (Cons e xs)
    obtain q k where e: "e = (q, k)" by (cases e)
    from remove_keyed_ok [OF nn(1), of q k xs] Cons e obtain l where
      l: "List_SortedRemove (pending st) = Inr (Some q, Some k, l)" "nonnull_inv l" "keyed_items l = xs" by auto
    from insert_item_ok [OF l(2), of q k] obtain l1 where
      l1: "List_SortedInsert l (Some q) k = Inr l1" "nonnull_inv l1" "keyed_items l1 = sorted_insert q k xs"
      using l(3) by (auto simp: insert_item_def)
    have st': "pending st' = l1 \<and> devs st' = devs st \<and> imachine st' = imachine st"
      using r l(1) l1(1) by (auto simp: CheckIfDue_def Let_def bindR_eq_Inr_iff split: if_splits)
    then show ?thesis using wf nn Cons e l1 sorted_sorted_insert [of xs q k]
      by (auto simp: intr_wf_def mset_sorted_insert)
  qed
qed

section \<open>Devices\<close>

text \<open>
  A handler may be called in the state \<open>called\<close> describes; \<open>dev_ok\<close> is the invariant of the devices.
\<close>

definition called :: "('h, 'd) Interrupt \<Rightarrow> bool" where
  "called st \<longleftrightarrow> intr_wf st \<and> inHandler st \<and> istatus st = SystemMode \<and> ilevel st = IntOff"

locale device_handlers =
  fixes run :: "'h \<Rightarrow> int \<Rightarrow> ('h, 'd) Interrupt \<Rightarrow> ('h, 'd) Interrupt res"
    and dev_ok :: "'d \<Rightarrow> bool"
    and again :: "'h \<Rightarrow> 'h multiset"
    and span :: int
  assumes run_ok: "called st \<Longrightarrow> dev_ok (devs st) \<Longrightarrow>
    \<exists>st' new. run h a st = Inr st' \<and> intr_wf st' \<and> dev_ok (devs st') \<and> ilevel st' = IntOff \<and>
      totalTime st' = totalTime st \<and> later (totalTime st) new \<and> due_by (totalTime st + span) new \<and> waiting new = again h \<and>
      keyed_items (pending st') = insert_all new (keyed_items (pending st))"
begin

lemma fire_ok:
  assumes "intr_wf st" "dev_ok (devs st)" "ilevel st = IntOff"
  shows "\<exists>st' new. fire run p st = Inr st' \<and> intr_wf st' \<and> dev_ok (devs st') \<and> ilevel st' = IntOff \<and>
    totalTime st' = totalTime st \<and> istatus st' = istatus st \<and> \<not> inHandler st' \<and> later (totalTime st) new \<and>
    due_by (totalTime st + span) new \<and> waiting new = again (pi_handler p) \<and>
    keyed_items (pending st') = insert_all new (keyed_items (pending st))"
proof -
  have "\<exists>mo. (case imachine st of None \<Rightarrow> Inr st
      | Some m \<Rightarrow> bindR (DelayedLoad 0 0 m) (\<lambda>m1. Inr (st\<lparr>imachine := Some m1\<rparr>))) = Inr (st\<lparr>imachine := mo\<rparr>) \<and> load_ok mo"
  proof (cases "imachine st")
    case None
    then have "st = st\<lparr>imachine := None\<rparr>" by simp
    then show ?thesis using None by (intro exI [of _ None]) (auto simp: load_ok_def)
  next
    case (Some m)
    then have "unat (registers m LoadReg) < NumTotalRegs" using assms(1) by (simp add: intr_wf_def load_ok_def)
    then show ?thesis using Some by (auto simp: DelayedLoad_def Let_def load_ok_def)
  qed
  then obtain mo where mo: "(case imachine st of None \<Rightarrow> Inr st
      | Some m \<Rightarrow> bindR (DelayedLoad 0 0 m) (\<lambda>m1. Inr (st\<lparr>imachine := Some m1\<rparr>))) = Inr (st\<lparr>imachine := mo\<rparr>)" "load_ok mo" by blast
  let ?st = "st\<lparr>imachine := mo, inHandler := True, istatus := SystemMode\<rparr>"
  have "called ?st" using assms(1,3) mo(2) by (simp add: called_def intr_wf_def)
  from run_ok [OF this, of "pi_handler p" "pi_arg p"] assms(2) obtain st2 new where
    r: "run (pi_handler p) (pi_arg p) ?st = Inr st2" "intr_wf st2" "dev_ok (devs st2)" "ilevel st2 = IntOff"
      "totalTime st2 = totalTime st" "later (totalTime st) new" "due_by (totalTime st + span) new"
      "waiting new = again (pi_handler p)" "keyed_items (pending st2) = insert_all new (keyed_items (pending st))" by auto
  show ?thesis using r mo(1)
    by (intro exI [of _ "st2\<lparr>istatus := istatus st, inHandler := False\<rparr>"] exI [of _ new])
       (simp add: fire_def Let_def intr_wf_def)
qed

text \<open>The two outcomes of \<^verbatim>\<open>CheckIfDue(FALSE)\<close>.\<close>

lemma not_due:
  assumes wf: "intr_wf st" "ilevel st = IntOff"
    and late: "keyed_items (pending st) = [] \<or> totalTime st < snd (hd (keyed_items (pending st)))"
  shows "\<exists>l. CheckIfDue run False st = Inr (None, st\<lparr>pending := l\<rparr>) \<and> intr_wf (st\<lparr>pending := l\<rparr>) \<and>
    mset (keyed_items l) = mset (keyed_items (pending st))"
proof (cases "keyed_items (pending st)")
  case Nil
  have nn: "nonnull_inv (pending st)" using wf(1) by (simp add: intr_wf_def)
  then have "List_SortedRemove (pending st) = Inr (None, None, pending st)"
    using keyed_items_empty_iff [OF nn] Nil by (simp add: List_SortedRemove_def)
  then show ?thesis using wf by (intro exI [of _ "pending st"]) (simp add: CheckIfDue_def)
next
  case (Cons e xs)
  obtain p k where e: "e = (p, k)" by (cases e)
  have nn: "nonnull_inv (pending st)" "sorted (map snd (keyed_items (pending st)))" using wf(1) by (simp_all add: intr_wf_def)
  from remove_keyed_ok [OF nn(1), of p k xs] Cons e obtain l where
    l: "List_SortedRemove (pending st) = Inr (Some p, Some k, l)" "nonnull_inv l" "keyed_items l = xs" by auto
  from insert_item_ok [OF l(2), of p k] obtain l1 where
    l1: "List_SortedInsert l (Some p) k = Inr l1" "nonnull_inv l1" "keyed_items l1 = sorted_insert p k xs"
    using l(3) by (auto simp: insert_item_def)
  have kt: "totalTime st < k" using late Cons e by simp
  have "sorted (map snd xs)" using nn(2) Cons by simp
  then have "intr_wf (st\<lparr>pending := l1\<rparr>)"
    using wf(1) Cons e l1 sorted_sorted_insert [of xs p k] by (auto simp: intr_wf_def)
  then show ?thesis using wf(2) l(1) l1 kt Cons e
    by (intro exI [of _ l1]) (simp add: CheckIfDue_def mset_sorted_insert)
qed

lemma is_due:
  assumes wf: "intr_wf st" "dev_ok (devs st)" "ilevel st = IntOff"
    and due: "keyed_items (pending st) = (p, k) # xs" "k \<le> totalTime st" "istatus st \<noteq> IdleMode \<or> pi_type p \<noteq> TimerInt \<or> xs \<noteq> []"
  shows "\<exists>st' new. CheckIfDue run False st = Inr (Some p, st') \<and> intr_wf st' \<and> dev_ok (devs st') \<and> ilevel st' = IntOff \<and>
    totalTime st' = totalTime st \<and> istatus st' = istatus st \<and> \<not> inHandler st' \<and> later (totalTime st) new \<and>
    due_by (totalTime st + span) new \<and> waiting new = again (pi_handler p) \<and>
    keyed_items (pending st') = insert_all new xs"
proof -
  have nn: "nonnull_inv (pending st)" using wf(1) by (simp add: intr_wf_def)
  from remove_keyed_ok [OF nn due(1)] obtain l where
    l: "List_SortedRemove (pending st) = Inr (Some p, Some k, l)" "nonnull_inv l" "keyed_items l = xs" by auto
  have "intr_wf (st\<lparr>pending := l\<rparr>)" using wf(1) due(1) l by (simp add: intr_wf_def)
  from fire_ok [OF this, of p] wf(2,3) l(3) obtain st' new where
    f: "fire run p (st\<lparr>pending := l\<rparr>) = Inr st'" "intr_wf st'" "dev_ok (devs st')" "ilevel st' = IntOff"
      "totalTime st' = totalTime st" "istatus st' = istatus st" "\<not> inHandler st'" "later (totalTime st) new"
      "due_by (totalTime st + span) new" "waiting new = again (pi_handler p)"
      "keyed_items (pending st') = insert_all new xs" by auto
  have "List_IsEmpty l \<longleftrightarrow> xs = []" using keyed_items_empty_iff [OF l(2)] l(3) by simp
  then have "CheckIfDue run False st = Inr (Some p, st')" using wf(3) l(1) f(1) due(2,3) by (auto simp: CheckIfDue_def)
  then show ?thesis using f by blast
qed

text \<open>With nothing else to do, the clock advances to the first interrupt.\<close>

lemma next_fires:
  assumes wf: "intr_wf st" "dev_ok (devs st)" "ilevel st = IntOff" "istatus st \<noteq> IdleMode"
    and q: "keyed_items (pending st) = (p, k) # xs" and now: "now = max (totalTime st) k"
  shows "\<exists>st' new. CheckIfDue run True st = Inr (Some p, st') \<and> intr_wf st' \<and> dev_ok (devs st') \<and> ilevel st' = IntOff \<and>
    totalTime st' = now \<and> istatus st' = istatus st \<and> later now new \<and> waiting new = again (pi_handler p) \<and>
    keyed_items (pending st') = insert_all new xs"
proof -
  have nn: "nonnull_inv (pending st)" using wf(1) by (simp add: intr_wf_def)
  from remove_keyed_ok [OF nn q] obtain l where
    l: "List_SortedRemove (pending st) = Inr (Some p, Some k, l)" "nonnull_inv l" "keyed_items l = xs" by auto
  define st2 where "st2 = (if k > totalTime st
      then st\<lparr>pending := l, idleTicks := idleTicks st + (k - totalTime st), totalTime := k\<rparr> else st\<lparr>pending := l\<rparr>)"
  have s2: "intr_wf st2" "devs st2 = devs st" "ilevel st2 = IntOff" "totalTime st2 = now" "istatus st2 = istatus st" "pending st2 = l"
    using wf q l now by (auto simp: st2_def intr_wf_def)
  from fire_ok [OF s2(1), of p] wf(2) s2 l(3) obtain st' new where
    f: "fire run p st2 = Inr st'" "intr_wf st'" "dev_ok (devs st')" "ilevel st' = IntOff" "totalTime st' = now"
      "istatus st' = istatus st" "later now new" "waiting new = again (pi_handler p)" "keyed_items (pending st') = insert_all new xs" by auto
  have "CheckIfDue run True st = Inr (Some p, st')"
    using wf(3,4) l(1) f(1) by (auto simp: CheckIfDue_def st2_def Let_def split: if_splits)
  then show ?thesis using f by blast
qed

text \<open>
  The loop ends, and it fires exactly the interrupts that are due, in the order of the list: handlers
  only add interrupts for later.
\<close>

lemma due_loop_ok:
  "intr_wf st \<Longrightarrow> dev_ok (devs st) \<Longrightarrow> ilevel st = IntOff \<Longrightarrow> istatus st \<noteq> IdleMode \<Longrightarrow>
     length (takeWhile (\<lambda>e. snd e \<le> totalTime st) (keyed_items (pending st))) < n \<Longrightarrow>
     \<exists>st'. due_loop n run st = Inr (map fst (takeWhile (\<lambda>e. snd e \<le> totalTime st) (keyed_items (pending st))), st') \<and>
       intr_wf st' \<and> dev_ok (devs st') \<and> ilevel st' = IntOff \<and> totalTime st' = totalTime st \<and> istatus st' = istatus st \<and>
       later (totalTime st) (keyed_items (pending st')) \<and> (inHandler st' \<longrightarrow> inHandler st) \<and>
       mset (dropWhile (\<lambda>e. snd e \<le> totalTime st) (keyed_items (pending st))) \<subseteq># mset (keyed_items (pending st')) \<and>
       (due_by (totalTime st + span) (keyed_items (pending st)) \<longrightarrow> due_by (totalTime st + span) (keyed_items (pending st'))) \<and>
       (\<forall>h. (\<forall>g. count (again g) h = (if g = h then 1 else 0)) \<longrightarrow>
          count (waiting (keyed_items (pending st'))) h = count (waiting (keyed_items (pending st))) h)"
proof (induction n arbitrary: st)
  case (Suc n)
  let ?D = "\<lambda>e. snd e \<le> totalTime st"
  let ?q = "keyed_items (pending st)"
  show ?case
  proof (cases "?q = [] \<or> totalTime st < snd (hd ?q)")
    case True
    then have none: "takeWhile ?D ?q = []" "dropWhile ?D ?q = ?q" by (cases ?q; simp)+
    from not_due [OF Suc.prems(1,3) True] obtain l where
      l: "CheckIfDue run False st = Inr (None, st\<lparr>pending := l\<rparr>)" "intr_wf (st\<lparr>pending := l\<rparr>)" "mset (keyed_items l) = mset ?q" by blast
    have "sorted (map snd ?q)" using Suc.prems(1) by (simp add: intr_wf_def)
    then have "\<forall>e \<in> set ?q. totalTime st < snd e" using True by (cases ?q) auto
    moreover have "set (keyed_items l) = set ?q" using l(3) by (rule mset_eq_setD)
    ultimately have "later (totalTime st) (keyed_items l)" using l(2) by (auto simp: later_def intr_wf_def)
    then show ?thesis using l Suc.prems none waiting_cong [OF l(3)] \<open>set (keyed_items l) = set ?q\<close> by (simp add: due_by_def)
  next
    case False
    then obtain p k xs where q: "?q = (p, k) # xs" "k \<le> totalTime st" by (cases ?q) auto
    from is_due [OF Suc.prems(1-3) q] Suc.prems(4) obtain st1 new where
      d: "CheckIfDue run False st = Inr (Some p, st1)" "intr_wf st1" "dev_ok (devs st1)" "ilevel st1 = IntOff"
        "totalTime st1 = totalTime st" "istatus st1 = istatus st" "\<not> inHandler st1" "later (totalTime st) new"
        "keyed_items (pending st1) = insert_all new xs" "due_by (totalTime st + span) new" "waiting new = again (pi_handler p)" by auto
    have t: "takeWhile ?D (insert_all new xs) = takeWhile ?D xs" by (rule insert_all_takeWhile [OF d(8)])
    have sx: "sorted (map snd xs)" using Suc.prems(1) q(1) by (simp add: intr_wf_def)
    have "mset (takeWhile ?D xs) + mset (dropWhile ?D (insert_all new xs)) = mset (insert_all new xs)"
      using t by (metis mset_append takeWhile_dropWhile_id)
    also have "\<dots> = mset (takeWhile ?D xs) + mset (dropWhile ?D xs) + mset new"
      using insert_all_props [OF sx, of new] by (metis mset_append takeWhile_dropWhile_id)
    finally have drop: "mset (dropWhile ?D xs) \<subseteq># mset (dropWhile ?D (insert_all new xs))" by simp
    have "istatus st1 \<noteq> IdleMode" "length (takeWhile (\<lambda>e. snd e \<le> totalTime st1) (keyed_items (pending st1))) < n"
      using Suc.prems(4,5) q d(5,6,9) t by simp_all
    from Suc.IH [OF d(2-4) this] d(5,6,9) t obtain st' where
      "due_loop n run st1 = Inr (map fst (takeWhile ?D xs), st')" "intr_wf st'" "dev_ok (devs st')" "ilevel st' = IntOff"
      "totalTime st' = totalTime st" "istatus st' = istatus st" "later (totalTime st) (keyed_items (pending st'))"
      "inHandler st' \<longrightarrow> inHandler st1" "mset (dropWhile ?D (insert_all new xs)) \<subseteq># mset (keyed_items (pending st'))"
      "due_by (totalTime st + span) (insert_all new xs) \<longrightarrow> due_by (totalTime st + span) (keyed_items (pending st'))"
      "\<forall>h. (\<forall>g. count (again g) h = (if g = h then 1 else 0)) \<longrightarrow>
          count (waiting (keyed_items (pending st'))) h = count (waiting (insert_all new xs)) h" by auto
    moreover have "due_by (totalTime st + span) ?q \<Longrightarrow> due_by (totalTime st + span) (insert_all new xs)"
      using d(10) q(1) due_by_insert_all [OF sx] by (simp add: due_by_def)
    moreover have "count (waiting (insert_all new xs)) h = count (waiting ?q) h"
      if "\<forall>g. count (again g) h = (if g = h then 1 else 0)" for h
      using that q(1) d(11) by (simp add: waiting_insert_all [OF sx])
    ultimately show ?thesis using d(1,7) q drop by (auto intro: subset_mset.order_trans)
  qed
qed simp

lemma OneTick_ok:
  assumes wf: "intr_wf st" "dev_ok (devs st)" "istatus st \<noteq> IdleMode" "length (keyed_items (pending st)) < n"
    and now: "now = totalTime st + (if istatus st = SystemMode then SystemTick else UserTick)"
  shows "\<exists>y st'. OneTick n run st = Inr (y, map fst (takeWhile (\<lambda>e. snd e \<le> now) (keyed_items (pending st))), st') \<and>
    intr_wf st' \<and> dev_ok (devs st') \<and> ilevel st' = IntOn \<and> totalTime st' = now \<and> istatus st' = istatus st \<and>
    \<not> yieldOnReturn st' \<and> later now (keyed_items (pending st')) \<and> (inHandler st' \<longrightarrow> inHandler st) \<and>
    mset (dropWhile (\<lambda>e. snd e \<le> now) (keyed_items (pending st))) \<subseteq># mset (keyed_items (pending st')) \<and>
    (due_by (now + span) (keyed_items (pending st)) \<longrightarrow> due_by (now + span) (keyed_items (pending st'))) \<and>
    (\<forall>h. (\<forall>g. count (again g) h = (if g = h then 1 else 0)) \<longrightarrow>
       count (waiting (keyed_items (pending st'))) h = count (waiting (keyed_items (pending st))) h)"
proof -
  define st1 where "st1 = ChangeLevel IntOff (if istatus st = SystemMode
    then st\<lparr>totalTime := totalTime st + SystemTick, systemTicks := systemTicks st + SystemTick\<rparr>
    else st\<lparr>totalTime := totalTime st + UserTick, userTicks := userTicks st + UserTick\<rparr>)"
  have s1: "pending st1 = pending st" "totalTime st1 = now" "istatus st1 = istatus st" "ilevel st1 = IntOff"
    "devs st1 = devs st" "imachine st1 = imachine st" "inHandler st1 = inHandler st"
    using now by (simp_all add: st1_def ChangeLevel_def)
  have "length (takeWhile (\<lambda>e. snd e \<le> now) (keyed_items (pending st))) < n"
    using wf(4) length_takeWhile_le [of "\<lambda>e. snd e \<le> now" "keyed_items (pending st)"] by linarith
  moreover have "intr_wf st1" using wf(1) s1 by (simp add: intr_wf_def)
  ultimately obtain st2 where
    d: "due_loop n run st1 = Inr (map fst (takeWhile (\<lambda>e. snd e \<le> now) (keyed_items (pending st))), st2)" "intr_wf st2"
      "dev_ok (devs st2)" "totalTime st2 = now" "istatus st2 = istatus st" "later now (keyed_items (pending st2))"
      "inHandler st2 \<longrightarrow> inHandler st"
      "mset (dropWhile (\<lambda>e. snd e \<le> now) (keyed_items (pending st))) \<subseteq># mset (keyed_items (pending st2))"
      "due_by (now + span) (keyed_items (pending st)) \<longrightarrow> due_by (now + span) (keyed_items (pending st2))"
      "\<forall>h. (\<forall>g. count (again g) h = (if g = h then 1 else 0)) \<longrightarrow>
         count (waiting (keyed_items (pending st2))) h = count (waiting (keyed_items (pending st))) h"
    using due_loop_ok [of st1 n] s1 wf(2,3) by auto
  define st' where "st' = (if yieldOnReturn st2 then st2\<lparr>ilevel := IntOn, yieldOnReturn := False, istatus := istatus st\<rparr>
    else st2\<lparr>ilevel := IntOn\<rparr>)"
  have "OneTick n run st = Inr (yieldOnReturn st2, map fst (takeWhile (\<lambda>e. snd e \<le> now) (keyed_items (pending st))), st')"
    unfolding OneTick_def Let_def st1_def [symmetric] d(1) by (simp add: ChangeLevel_def st'_def)
  moreover have "pending st' = pending st2" "imachine st' = imachine st2" "devs st' = devs st2" "totalTime st' = totalTime st2"
    "inHandler st' = inHandler st2" "istatus st' = istatus st" "ilevel st' = IntOn" "\<not> yieldOnReturn st'"
    using d(5) by (simp_all add: st'_def)
  ultimately show ?thesis using d by (auto simp: intr_wf_def)
qed

end

end
