(* ===== verification/Post_Office.thy ===== *)
theory Post_Office
  imports Interrupts Memory_Image Complex_Main
begin

text \<open>
  The network device (\<^verbatim>\<open>machine/network.cc\<close>) and the post office on top of it (\<^verbatim>\<open>network/post.cc\<close>), for
  one machine, and the handlers of the devices that interrupt it. UNIX sockets carry packets of
  \<^verbatim>\<open>MaxWireSize\<close> bytes between machines; \<open>socket\<close> is what has arrived at this one and has not been read.
  A thread that waits in \<^verbatim>\<open>Receive\<close> or for the semaphores of the post office is the result \<open>None\<close>.
\<close>

section \<open>Headers\<close>

record PacketHeader =
  ph_to :: int
  ph_from :: int
  ph_length :: int

record MailHeader =
  mh_to :: int
  mh_from :: int
  mh_length :: int

record Mail =
  m_pkt :: PacketHeader
  m_hdr :: MailHeader
  m_data :: "byte list"

abbreviation (input) MaxWireSize :: nat where "MaxWireSize \<equiv> 64"
abbreviation (input) MaxPacketSize :: nat where "MaxPacketSize \<equiv> 52"
abbreviation (input) MaxMailSize :: nat where "MaxMailSize \<equiv> 40"
abbreviation (input) NetworkTime :: int where "NetworkTime \<equiv> 100"

text \<open>The headers in memory: three 32-bit numbers, the length unsigned.\<close>

definition pkt_bytes :: "PacketHeader \<Rightarrow> byte list" where
  "pkt_bytes h = ints_bytes [ph_to h, ph_from h, ph_length h]"

definition pkt_of_bytes :: "byte list \<Rightarrow> PacketHeader" where
  "pkt_of_bytes bs = (let xs = bytes_ints 3 bs in
     \<lparr>ph_to = xs ! 0, ph_from = xs ! 1, ph_length = xs ! 2 mod 2 ^ 32\<rparr>)"

definition mail_bytes :: "MailHeader \<Rightarrow> byte list" where
  "mail_bytes h = ints_bytes [mh_to h, mh_from h, mh_length h]"

definition mail_of_bytes :: "byte list \<Rightarrow> MailHeader" where
  "mail_of_bytes bs = (let xs = bytes_ints 3 bs in
     \<lparr>mh_to = xs ! 0, mh_from = xs ! 1, mh_length = xs ! 2 mod 2 ^ 32\<rparr>)"

section \<open>State\<close>

text \<open>
  \<open>chanceToWork\<close> is the reliability, between 0 and 1. \<open>messageAvailable\<close> and \<open>messageSent\<close> are the values
  of the semaphores. \<open>randoms\<close> are the numbers that \<^verbatim>\<open>Random()\<close> returns, \<open>nrandom\<close> how many it has
  returned.
\<close>

record Network =
  ident :: int
  chanceToWork :: rat
  sendBusy :: bool
  inHdr :: PacketHeader
  inbox :: "byte list"
  socket :: "byte list list"
  numPacketsRecvd :: nat
  numPacketsSent :: nat

record PostOffice =
  netAddr :: int
  network :: Network
  boxes :: "Mail list list"
  messageAvailable :: nat
  messageSent :: nat

record Devices =
  timer :: Timer
  postOffice :: PostOffice
  randoms :: "nat \<Rightarrow> nat"
  nrandom :: nat

datatype Handler = TimerHandler | NetworkReadPoll | NetworkSendDone

type_synonym node = "(Handler, Devices) Interrupt"

definition Random :: "node \<Rightarrow> nat \<times> node" where
  "Random st = (randoms (devs st) (nrandom (devs st)), st\<lparr>devs := (devs st)\<lparr>nrandom := nrandom (devs st) + 1\<rparr>\<rparr>)"

definition po :: "node \<Rightarrow> PostOffice" where
  "po st = postOffice (devs st)"

definition set_po :: "PostOffice \<Rightarrow> node \<Rightarrow> node" where
  "set_po p st = st\<lparr>devs := (devs st)\<lparr>postOffice := p\<rparr>\<rparr>"

definition set_net :: "Network \<Rightarrow> node \<Rightarrow> node" where
  "set_net n st = set_po ((po st)\<lparr>network := n\<rparr>) st"

section \<open>The network device\<close>

definition new_Network :: "int \<Rightarrow> rat \<Rightarrow> PacketHeader \<Rightarrow> byte list \<Rightarrow> Network" where
  "new_Network addr reliability junkHdr junkBox =
     \<lparr>ident = addr,
      chanceToWork = (if reliability < 0 then 0 else if reliability > 1 then 1 else reliability),
      sendBusy = False, inHdr = junkHdr\<lparr>ph_length := 0\<rparr>, inbox = take MaxPacketSize junkBox, socket = [],
      numPacketsRecvd = 0, numPacketsSent = 0\<rparr>"

text \<open>\<^verbatim>\<open>PostOffice::IncomingPacket\<close> and \<^verbatim>\<open>PostOffice::PacketSent\<close>, the handlers the network calls.\<close>

definition IncomingPacket :: "node \<Rightarrow> node" where
  "IncomingPacket st = set_po ((po st)\<lparr>messageAvailable := messageAvailable (po st) + 1\<rparr>) st"

definition PacketSent :: "node \<Rightarrow> node" where
  "PacketSent st = set_po ((po st)\<lparr>messageSent := messageSent (po st) + 1\<rparr>) st"

definition CheckPktAvail :: "node \<Rightarrow> node res" where
  "CheckPktAvail st =
     bindR (Schedule NetworkReadPoll 0 NetworkTime NetworkRecvInt st) (\<lambda>st1.
     let net = network (po st1) in
     if ph_length (inHdr net) \<noteq> 0 then Inr st1
     else case socket net of
       [] \<Rightarrow> Inr st1
     | buffer # rest \<Rightarrow>
         let h = pkt_of_bytes buffer in
         if ph_to h = ident net \<and> ph_length h \<le> int MaxPacketSize
         then let n = nat (ph_length h) in
              Inr (IncomingPacket (set_net (net\<lparr>inHdr := h, inbox := take n (drop 12 buffer) @ drop n (inbox net),
                     socket := rest, numPacketsRecvd := numPacketsRecvd net + 1\<rparr>) st1))
         else Inl AssertionFailed)"

definition SendDone :: "node \<Rightarrow> node" where
  "SendDone st = PacketSent (set_net ((network (po st))\<lparr>sendBusy := False,
     numPacketsSent := numPacketsSent (network (po st)) + 1\<rparr>) st)"

text \<open>
  \<^verbatim>\<open>Network::Send\<close>: the packet that goes out on the wire, if it is not lost, padded with \<open>junk\<close> to its fixed size;
  \<open>sent\<close> is what \<^verbatim>\<open>SendToSocket\<close> returns.
\<close>

definition Network_Send ::
  "bool \<Rightarrow> byte list \<Rightarrow> PacketHeader \<Rightarrow> byte list \<Rightarrow> node \<Rightarrow> (bool \<times> byte list option \<times> node) res" where
  "Network_Send sent junk hdr data st =
     (let net = network (po st) in
      if \<not> sendBusy net \<and> ph_length hdr > 0 \<and> ph_length hdr \<le> int MaxPacketSize \<and> ph_from hdr = ident net
      then bindR (Schedule NetworkSendDone 0 NetworkTime NetworkSendInt st) (\<lambda>st1.
           let (r, st2) = Random st1 in
           if of_nat (r mod 100) \<ge> chanceToWork net * 100 then Inr (True, None, st2)
           else let n = nat (ph_length hdr) in
                Inr (sent, if sent then Some (pkt_bytes hdr @ take n data @ take (MaxPacketSize - n) junk) else None, st2))
      else Inl AssertionFailed)"

definition Network_Receive :: "node \<Rightarrow> PacketHeader \<times> byte list \<times> node" where
  "Network_Receive st =
     (let net = network (po st); hdr = inHdr net in
      (hdr, take (nat (ph_length hdr)) (inbox net), set_net (net\<lparr>inHdr := hdr\<lparr>ph_length := 0\<rparr>\<rparr>) st))"

section \<open>The post office\<close>

definition new_Mail :: "PacketHeader \<Rightarrow> MailHeader \<Rightarrow> byte list \<Rightarrow> Mail res" where
  "new_Mail pktH mailH msgData =
     (if mh_length mailH \<le> int MaxMailSize
      then Inr \<lparr>m_pkt = pktH, m_hdr = mailH, m_data = take (nat (mh_length mailH)) msgData\<rparr>
      else Inl AssertionFailed)"

definition MailBox_Put :: "nat \<Rightarrow> PacketHeader \<Rightarrow> MailHeader \<Rightarrow> byte list \<Rightarrow> node \<Rightarrow> node res" where
  "MailBox_Put b pktH mailH data st =
     bindR (new_Mail pktH mailH data) (\<lambda>m.
       Inr (set_po ((po st)\<lparr>boxes := (boxes (po st))[b := boxes (po st) ! b @ [m]]\<rparr>) st))"

definition MailBox_Get :: "nat \<Rightarrow> node \<Rightarrow> (Mail \<times> node) option" where
  "MailBox_Get b st = (case boxes (po st) ! b of
     [] \<Rightarrow> None
   | m # ms \<Rightarrow> Some (m, set_po ((po st)\<lparr>boxes := (boxes (po st))[b := ms]\<rparr>) st))"

definition new_PostOffice :: "int \<Rightarrow> rat \<Rightarrow> nat \<Rightarrow> PacketHeader \<Rightarrow> byte list \<Rightarrow> node \<Rightarrow> node res" where
  "new_PostOffice addr reliability nBoxes junkHdr junkBox st =
     Schedule NetworkReadPoll 0 NetworkTime NetworkRecvInt
       (set_po \<lparr>netAddr = addr, network = new_Network addr reliability junkHdr junkBox, boxes = replicate nBoxes [],
          messageAvailable = 0, messageSent = 0\<rparr> st)"

text \<open>
  One round of the postal worker; \<open>old\<close> is what its buffer holds from the rounds before, behind
  the bytes received now.
\<close>

definition PostalDelivery :: "byte list \<Rightarrow> node \<Rightarrow> node option res" where
  "PostalDelivery old st =
     (if messageAvailable (po st) = 0 then Inr None
      else let st0 = set_po ((po st)\<lparr>messageAvailable := messageAvailable (po st) - 1\<rparr>) st;
               (pktHdr, bs, st1) = Network_Receive st0;
               buffer = bs @ drop (length bs) old;
               mailHdr = mail_of_bytes buffer in
           if 0 \<le> mh_to mailHdr \<and> mh_to mailHdr < int (length (boxes (po st1))) \<and> mh_length mailHdr \<le> int MaxMailSize
           then bindR (MailBox_Put (nat (mh_to mailHdr)) pktHdr mailHdr (drop 12 buffer) st1) (\<lambda>st2. Inr (Some st2))
           else Inl AssertionFailed)"

text \<open>
  \<^verbatim>\<open>PostOffice::Send\<close> up to the point where it waits for \<^verbatim>\<open>messageSent\<close>; the thread continues, and
  releases the lock on sending, when \<open>Send_wait\<close> has a result.
\<close>

definition PostOffice_Send ::
  "bool \<Rightarrow> byte list \<Rightarrow> PacketHeader \<Rightarrow> MailHeader \<Rightarrow> byte list \<Rightarrow> node \<Rightarrow> (bool \<times> byte list option \<times> node) res" where
  "PostOffice_Send sent junk pktHdr mailHdr data st =
     (if mh_length mailHdr \<le> int MaxMailSize \<and> 0 \<le> mh_to mailHdr \<and> mh_to mailHdr < int (length (boxes (po st)))
      then let hdr = pktHdr\<lparr>ph_from := netAddr (po st), ph_length := mh_length mailHdr + 12\<rparr>;
               buffer = mail_bytes mailHdr @ take (nat (mh_length mailHdr)) data in
           Network_Send sent junk hdr buffer st
      else Inl AssertionFailed)"

definition Send_wait :: "node \<Rightarrow> node option" where
  "Send_wait st =
     (if messageSent (po st) = 0 then None
      else Some (set_po ((po st)\<lparr>messageSent := messageSent (po st) - 1\<rparr>) st))"

definition PostOffice_Receive :: "int \<Rightarrow> node \<Rightarrow> (Mail \<times> node) option res" where
  "PostOffice_Receive b st =
     (if 0 \<le> b \<and> b < int (length (boxes (po st)))
      then case MailBox_Get (nat b) st of
             None \<Rightarrow> Inr None
           | Some (m, st1) \<Rightarrow> if mh_length (m_hdr m) \<le> int MaxMailSize then Inr (Some (m, st1)) else Inl AssertionFailed
      else Inl AssertionFailed)"

section \<open>The handlers\<close>

definition run_device :: "Handler \<Rightarrow> int \<Rightarrow> node \<Rightarrow> node res" where
  "run_device h a st = (case h of
     TimerHandler \<Rightarrow> let (r, st1) = Random st in TimerExpired TimerHandler r (timer (devs st1)) st1
   | NetworkReadPoll \<Rightarrow> CheckPktAvail st
   | NetworkSendDone \<Rightarrow> Inr (SendDone st))"

end
