(* ===== verification/Net_Props.thy ===== *)
theory Net_Props
  imports Post_Office
begin

text \<open>
  The devices keep the contract of the interrupt controller (the interpretation \<open>machine_devices\<close>), so
  that clock ticks fire what is due and the timer and the network keep being polled; and the
  post office delivers mail: the mail that arrives in a box is the mail sent to it, in order.
\<close>

section \<open>The devices keep their contract\<close>

text \<open>What is in the socket of a machine are packets for it.\<close>

definition packet_to :: "int \<Rightarrow> byte list \<Rightarrow> bool" where
  "packet_to addr pkt \<longleftrightarrow> ph_to (pkt_of_bytes pkt) = addr \<and> ph_length (pkt_of_bytes pkt) \<le> int MaxPacketSize"

definition dev_ok :: "Devices \<Rightarrow> bool" where
  "dev_ok d \<longleftrightarrow> list_all (packet_to (ident (network (postOffice d)))) (socket (network (postOffice d)))"

text \<open>The timer and the network poll re-arm themselves.\<close>

definition again :: "Handler \<Rightarrow> Handler multiset" where
  "again h = (case h of TimerHandler \<Rightarrow> {#TimerHandler#} | NetworkReadPoll \<Rightarrow> {#NetworkReadPoll#} | NetworkSendDone \<Rightarrow> {#})"

lemma node_simps [simp]:
  "intr_wf (set_po p st) = intr_wf st" "pending (set_po p st) = pending st" "totalTime (set_po p st) = totalTime st"
  "ilevel (set_po p st) = ilevel st" "istatus (set_po p st) = istatus st" "inHandler (set_po p st) = inHandler st"
  "po (set_po p st) = p" "timer (devs (set_po p st)) = timer (devs st)"
  "po (st\<lparr>pending := l\<rparr>) = po st"
  by (simp_all add: set_po_def intr_wf_def po_def)

lemma dev_ok_po: "dev_ok (devs st) \<longleftrightarrow> list_all (packet_to (ident (network (po st)))) (socket (network (po st)))"
  by (simp add: dev_ok_def po_def)

lemma Random_simps:
  "Random st = (r, st1) \<Longrightarrow> intr_wf st1 = intr_wf st \<and> pending st1 = pending st \<and> totalTime st1 = totalTime st \<and>
     ilevel st1 = ilevel st \<and> istatus st1 = istatus st \<and> inHandler st1 = inHandler st \<and> po st1 = po st \<and>
     timer (devs st1) = timer (devs st)"
  by (auto simp: Random_def intr_wf_def po_def)

lemma timer_span: "0 < TimeOfNextInterrupt r t" "TimeOfNextInterrupt r t \<le> 200"
proof -
  have "0 \<le> int r mod 200" "int r mod 200 < 200" by simp_all
  then have "0 < 1 + int r mod 200" "1 + int r mod 200 \<le> 200" by linarith+
  then show "0 < TimeOfNextInterrupt r t" "TimeOfNextInterrupt r t \<le> 200" by (simp_all add: TimeOfNextInterrupt_def)
qed

lemma timer_handler_ok:
  assumes c: "called st" and d: "dev_ok (devs st)"
  shows "\<exists>st' new. run_device TimerHandler a st = Inr st' \<and> intr_wf st' \<and> dev_ok (devs st') \<and> ilevel st' = IntOff \<and>
    totalTime st' = totalTime st \<and> later (totalTime st) new \<and> due_by (totalTime st + 200) new \<and> waiting new = again TimerHandler \<and>
    keyed_items (pending st') = insert_all new (keyed_items (pending st)) \<and> po st' = po st"
proof -
  obtain r st1 where r: "Random st = (r, st1)" by fastforce
  note s = Random_simps [OF r]
  let ?n = "TimeOfNextInterrupt r (timer (devs st1))"
  have "intr_wf st1" using c s by (simp add: called_def)
  from Schedule_ok [OF this timer_span(1), of TimerHandler 0 r "timer (devs st1)" TimerInt] obtain l where
    l: "Schedule TimerHandler 0 ?n TimerInt st1 = Inr (st1\<lparr>pending := l\<rparr>)" "intr_wf (st1\<lparr>pending := l\<rparr>)"
      "keyed_items l = insert_all [(\<lparr>pi_handler = TimerHandler, pi_arg = 0, pi_when = totalTime st + ?n, pi_type = TimerInt\<rparr>,
        totalTime st + ?n)] (keyed_items (pending st))" using s by auto
  let ?st = "st1\<lparr>pending := l, yieldOnReturn := True\<rparr>"
  have "run_device TimerHandler a st = Inr ?st"
    using r l(1) s c by (simp add: run_device_def TimerExpired_def TimerInterruptHandler_def YieldOnReturn_def called_def)
  moreover have "intr_wf ?st" using l(2) by (simp add: intr_wf_def)
  moreover have "po ?st = po st" "totalTime ?st = totalTime st" "ilevel ?st = IntOff" using s c by (simp_all add: po_def called_def)
  moreover have "dev_ok (devs ?st)" using d s by (simp add: dev_ok_po)
  moreover let ?new = "[(\<lparr>pi_handler = TimerHandler, pi_arg = 0, pi_when = totalTime st + ?n, pi_type = TimerInt\<rparr>, totalTime st + ?n)]"
  have "later (totalTime st) ?new" "due_by (totalTime st + 200) ?new" "waiting ?new = again TimerHandler"
    using timer_span [of r "timer (devs st1)"] by (simp_all add: again_def later_def due_by_def)
  ultimately show ?thesis using l(3) by (intro exI [of _ ?st] exI [of _ ?new]) simp
qed

lemma poll_ok:
  assumes c: "called st" and d: "dev_ok (devs st)"
  shows "\<exists>st' new. run_device NetworkReadPoll a st = Inr st' \<and> intr_wf st' \<and> dev_ok (devs st') \<and> ilevel st' = IntOff \<and>
    totalTime st' = totalTime st \<and> later (totalTime st) new \<and> due_by (totalTime st + 200) new \<and> waiting new = again NetworkReadPoll \<and>
    keyed_items (pending st') = insert_all new (keyed_items (pending st))"
proof -
  have wf: "intr_wf st" "ilevel st = IntOff" using c by (simp_all add: called_def)
  from Schedule_ok [OF wf(1), of NetworkTime NetworkReadPoll 0 NetworkRecvInt] obtain l where
    l: "Schedule NetworkReadPoll 0 NetworkTime NetworkRecvInt st = Inr (st\<lparr>pending := l\<rparr>)" "intr_wf (st\<lparr>pending := l\<rparr>)"
      "keyed_items l = insert_all [(\<lparr>pi_handler = NetworkReadPoll, pi_arg = 0, pi_when = totalTime st + 100, pi_type = NetworkRecvInt\<rparr>,
        totalTime st + 100)] (keyed_items (pending st))" by auto
  have new: "later (totalTime st) [(\<lparr>pi_handler = NetworkReadPoll, pi_arg = 0, pi_when = totalTime st + 100, pi_type = NetworkRecvInt\<rparr>, totalTime st + 100)]"
    "due_by (totalTime st + 200) [(\<lparr>pi_handler = NetworkReadPoll, pi_arg = 0, pi_when = totalTime st + 100, pi_type = NetworkRecvInt\<rparr>, totalTime st + 100)]"
    by (simp_all add: later_def due_by_def)
  let ?net = "network (po st)"
  have "\<exists>p. CheckPktAvail st = Inr (set_po p (st\<lparr>pending := l\<rparr>)) \<and>
      list_all (packet_to (ident (network p))) (socket (network p))"
  proof (cases "ph_length (inHdr ?net) \<noteq> 0 \<or> socket ?net = []")
    case True
    then have "CheckPktAvail st = Inr (set_po (po st) (st\<lparr>pending := l\<rparr>))"
      using l(1) by (auto simp: CheckPktAvail_def Let_def set_po_def po_def)
    then show ?thesis using d by (auto simp: dev_ok_po)
  next
    case False
    then obtain pkt rest where q: "socket ?net = pkt # rest" by (cases "socket ?net") auto
    then have "packet_to (ident ?net) pkt" "list_all (packet_to (ident ?net)) rest" using d by (simp_all add: dev_ok_po)
    then show ?thesis using False q l(1)
      by (auto simp: CheckPktAvail_def Let_def packet_to_def IncomingPacket_def set_net_def set_po_def po_def)
  qed
  then obtain p where p: "CheckPktAvail st = Inr (set_po p (st\<lparr>pending := l\<rparr>))"
    "list_all (packet_to (ident (network p))) (socket (network p))" by blast
  let ?new = "[(\<lparr>pi_handler = NetworkReadPoll, pi_arg = 0, pi_when = totalTime st + 100, pi_type = NetworkRecvInt\<rparr>, totalTime st + 100)]"
  show ?thesis using p l wf new
    by (intro exI [of _ "set_po p (st\<lparr>pending := l\<rparr>)"] exI [of _ ?new]) (simp add: run_device_def dev_ok_po again_def)
qed

lemma send_done_ok:
  assumes "called st" "dev_ok (devs st)"
  shows "\<exists>st'. run_device NetworkSendDone a st = Inr st' \<and> intr_wf st' \<and> dev_ok (devs st') \<and> ilevel st' = IntOff \<and>
    totalTime st' = totalTime st \<and> keyed_items (pending st') = keyed_items (pending st)"
  using assms by (auto simp: run_device_def SendDone_def PacketSent_def set_net_def called_def dev_ok_po)

interpretation machine_devices: device_handlers run_device dev_ok again 200
proof
  fix st :: node and h a
  assume c: "called st" "dev_ok (devs st)"
  show "\<exists>st' new. run_device h a st = Inr st' \<and> intr_wf st' \<and> dev_ok (devs st') \<and> ilevel st' = IntOff \<and>
      totalTime st' = totalTime st \<and> later (totalTime st) new \<and> due_by (totalTime st + 200) new \<and> waiting new = again h \<and>
      keyed_items (pending st') = insert_all new (keyed_items (pending st))"
  proof (cases h)
    case TimerHandler
    then show ?thesis using timer_handler_ok [OF c] by blast
  next
    case NetworkReadPoll
    then show ?thesis using poll_ok [OF c] by blast
  next
    case NetworkSendDone
    from send_done_ok [OF c, of a] NetworkSendDone show ?thesis
      by (auto simp: later_def due_by_def again_def insert_all_def intro!: exI [of _ "[]"])
  qed
qed


section \<open>The clock\<close>

text \<open>Starting a machine: the interrupt controller, then the timer, then the post office.\<close>

definition boot_node :: "Machine option \<Rightarrow> Devices \<Rightarrow> nat \<Rightarrow> int \<Rightarrow> rat \<Rightarrow> nat \<Rightarrow> PacketHeader \<Rightarrow> byte list \<Rightarrow> node res" where
  "boot_node m d r addr reliability nBoxes junkHdr junkBox =
     bindR (new_Timer TimerHandler r (timer d) (new_Interrupt m d)) (\<lambda>st.
       new_PostOffice addr reliability nBoxes junkHdr junkBox st)"

text \<open>What can happen to a machine on the network, while it does not idle.\<close>

inductive node_step :: "node \<Rightarrow> node \<Rightarrow> bool" where
  tick: "istatus st \<noteq> IdleMode \<Longrightarrow> length (keyed_items (pending st)) < n \<Longrightarrow> OneTick n run_device st = Inr (y, ps, st') \<Longrightarrow>
    node_step st st'"
| mode: "m \<noteq> IdleMode \<Longrightarrow> node_step st (st\<lparr>istatus := m\<rparr>)"
| level: "node_step st (ChangeLevel l st)"
| send: "PostOffice_Send sent junk pktHdr mailHdr data st = Inr (b, w, st') \<Longrightarrow> node_step st st'"
| sent: "Send_wait st = Some st' \<Longrightarrow> node_step st st'"
| deliver: "PostalDelivery old st = Inr (Some st') \<Longrightarrow> node_step st st'"
| receive: "PostOffice_Receive b st = Inr (Some (m, st')) \<Longrightarrow> node_step st st'"
| arrive: "packet_to (ident (network (po st))) pkt \<Longrightarrow>
    node_step st (set_net ((network (po st))\<lparr>socket := socket (network (po st)) @ [pkt]\<rparr>) st)"

inductive node_reach :: "node \<Rightarrow> bool" where
  boot: "boot_node m d r addr reliability nBoxes junkHdr junkBox = Inr st \<Longrightarrow> load_ok m \<Longrightarrow> node_reach st"
| step: "node_reach st \<Longrightarrow> node_step st st' \<Longrightarrow> node_reach st'"

text \<open>Everything pending is in the future and comes within 200 ticks; timer and poll are armed once.\<close>

definition clock_inv :: "node \<Rightarrow> bool" where
  "clock_inv st \<longleftrightarrow> intr_wf st \<and> dev_ok (devs st) \<and> later (totalTime st) (keyed_items (pending st)) \<and>
     due_by (totalTime st + 200) (keyed_items (pending st)) \<and>
     count (waiting (keyed_items (pending st))) TimerHandler = 1 \<and> count (waiting (keyed_items (pending st))) NetworkReadPoll = 1"

lemma clock_inv_cong:
  assumes "clock_inv st" "pending st' = pending st" "imachine st' = imachine st" "totalTime st' = totalTime st" "dev_ok (devs st')"
  shows "clock_inv st'"
  using assms by (simp add: clock_inv_def intr_wf_def)

lemma Schedule_clock:
  assumes "intr_wf st" "0 < n" "n \<le> 200" "later (totalTime st) (keyed_items (pending st))" "due_by (totalTime st + 200) (keyed_items (pending st))"
    and "Schedule h a n ty st = Inr st'"
  shows "intr_wf st' \<and> later (totalTime st) (keyed_items (pending st')) \<and> due_by (totalTime st + 200) (keyed_items (pending st')) \<and>
    waiting (keyed_items (pending st')) = add_mset h (waiting (keyed_items (pending st))) \<and> devs st' = devs st \<and>
    totalTime st' = totalTime st \<and> imachine st' = imachine st"
proof -
  from Schedule_ok [OF assms(1,2), of h a ty] assms(6) obtain l where
    l: "st' = st\<lparr>pending := l\<rparr>" "intr_wf (st\<lparr>pending := l\<rparr>)"
      "keyed_items l = insert_all [(\<lparr>pi_handler = h, pi_arg = a, pi_when = totalTime st + n, pi_type = ty\<rparr>, totalTime st + n)]
        (keyed_items (pending st))" by auto
  have so: "sorted (map snd (keyed_items (pending st)))" using assms(1) by (simp add: intr_wf_def)
  have "later (totalTime st) (keyed_items l)"
    using assms(2,4) unfolding l(3) later_def insert_all_sorted_set(2) [OF so] by auto
  then show ?thesis using l(1,2) assms(3,5) due_by_insert_all [OF so] waiting_insert_all [OF so]
    by (simp add: l(3) due_by_def)
qed

lemma clock_inv_boot:
  assumes "boot_node m d r addr reliability nBoxes junkHdr junkBox = Inr st" "load_ok m"
  shows "clock_inv st"
proof -
  let ?s0 = "new_Interrupt m d :: node"
  have wf: "intr_wf ?s0" "keyed_items (pending ?s0) = []" "totalTime ?s0 = 0" "devs ?s0 = d"
    using assms(2) by (simp_all add: new_Interrupt_def intr_wf_def nonnull_inv_new keyed_items_new)
  from assms(1) obtain s1 where
    s1: "Schedule TimerHandler 0 (TimeOfNextInterrupt r (timer d)) TimerInt ?s0 = Inr s1"
      "new_PostOffice addr reliability nBoxes junkHdr junkBox s1 = Inr st"
    by (auto simp: boot_node_def new_Timer_def bindR_eq_Inr_iff)
  have e: "later (totalTime ?s0) (keyed_items (pending ?s0))" "due_by (totalTime ?s0 + 200) (keyed_items (pending ?s0))"
    using wf(2) by (simp_all add: later_def due_by_def)
  note c1 = Schedule_clock [OF wf(1) timer_span e s1(1)]
  let ?s2 = "set_po \<lparr>netAddr = addr, network = new_Network addr reliability junkHdr junkBox, boxes = replicate nBoxes [],
          messageAvailable = 0, messageSent = 0\<rparr> s1"
  have s2: "Schedule NetworkReadPoll 0 100 NetworkRecvInt ?s2 = Inr st" using s1(2) by (simp add: new_PostOffice_def)
  have d2: "dev_ok (devs ?s2)" by (simp add: dev_ok_po new_Network_def)
  have "intr_wf ?s2" "later (totalTime ?s2) (keyed_items (pending ?s2))" "due_by (totalTime ?s2 + 200) (keyed_items (pending ?s2))"
    using c1 by simp_all
  note c2 = Schedule_clock [OF this(1) _ _ this(2,3) s2, simplified]
  have "waiting (keyed_items (pending st)) = {#NetworkReadPoll, TimerHandler#}" using c1 c2 wf(2) by simp
  then show ?thesis using c2 d2 by (simp add: clock_inv_def)
qed

lemma clock_inv_set_po':
  "clock_inv st \<Longrightarrow> list_all (packet_to (ident (network p))) (socket (network p)) \<Longrightarrow> clock_inv (set_po p st)"
  by (rule clock_inv_cong) (simp_all add: dev_ok_po, simp add: set_po_def)

text \<open>Sending, delivering and receiving mail leave the device and the clock alone.\<close>

definition quiet :: "node \<Rightarrow> node \<Rightarrow> bool" where
  "quiet st st' \<longleftrightarrow> (\<exists>p. st' = set_po p st \<and> ident (network p) = ident (network (po st)) \<and> socket (network p) = socket (network (po st)))"

lemma clock_inv_set_po: "clock_inv st \<Longrightarrow> quiet st st' \<Longrightarrow> clock_inv st'"
  using clock_inv_set_po' [of st] by (auto simp: quiet_def clock_inv_def dev_ok_po)

lemma set_po_set_po [simp]: "set_po p (set_po p' st) = set_po p st"
  by (simp add: set_po_def)

text \<open>One round of the postal worker, in one step on the post office.\<close>

definition buffered :: "byte list \<Rightarrow> PostOffice \<Rightarrow> byte list" where
  "buffered old p = (let bs = take (nat (ph_length (inHdr (network p)))) (inbox (network p)) in bs @ drop (length bs) old)"

definition delivered :: "nat \<Rightarrow> Mail \<Rightarrow> PostOffice \<Rightarrow> PostOffice" where
  "delivered b m p = p\<lparr>messageAvailable := messageAvailable p - 1,
     network := (network p)\<lparr>inHdr := (inHdr (network p))\<lparr>ph_length := 0\<rparr>\<rparr>, boxes := (boxes p)[b := boxes p ! b @ [m]]\<rparr>"

lemma PostalDelivery_form:
  assumes "messageAvailable (po st) \<noteq> 0"
  shows "PostalDelivery old st =
    (let m = mail_of_bytes (buffered old (po st)) in
     if 0 \<le> mh_to m \<and> mh_to m < int (length (boxes (po st))) \<and> mh_length m \<le> int MaxMailSize
     then bindR (new_Mail (inHdr (network (po st))) m (drop 12 (buffered old (po st)))) (\<lambda>x.
       Inr (Some (set_po (delivered (nat (mh_to m)) x (po st)) st)))
     else Inl AssertionFailed)"
proof -
  define p where "p = (po st)\<lparr>messageAvailable := messageAvailable (po st) - 1\<rparr>"
  define p1 where "p1 = p\<lparr>network := (network p)\<lparr>inHdr := (inHdr (network p))\<lparr>ph_length := 0\<rparr>\<rparr>\<rparr>"
  have r: "Network_Receive (set_po p st) = (inHdr (network (po st)),
      take (nat (ph_length (inHdr (network (po st))))) (inbox (network (po st))), set_po p1 st)"
    by (simp add: Network_Receive_def Let_def set_net_def p1_def p_def)
  have put: "MailBox_Put b h m d (set_po p1 st) = bindR (new_Mail h m d) (\<lambda>x. Inr (set_po (delivered b x (po st)) st))" for b h m d
    by (simp add: MailBox_Put_def delivered_def p1_def p_def)
  have "boxes p1 = boxes (po st)" by (simp add: p1_def p_def)
  then show ?thesis using assms
    unfolding PostalDelivery_def p_def [symmetric] r Let_def split_conv put buffered_def by (simp add: bindR_assoc)
qed

lemma quiet_steps:
  "Send_wait st = Some st' \<Longrightarrow> quiet st st'"
  "PostalDelivery old st = Inr (Some st') \<Longrightarrow> quiet st st'"
  "PostOffice_Receive b st = Inr (Some (m, st')) \<Longrightarrow> quiet st st'"
proof -
  show "Send_wait st = Some st' \<Longrightarrow> quiet st st'" by (auto simp: Send_wait_def quiet_def split: if_splits)
  show "quiet st st'" if d: "PostalDelivery old st = Inr (Some st')"
  proof -
    have a: "messageAvailable (po st) \<noteq> 0"
    proof
      assume "messageAvailable (po st) = 0"
      then have "PostalDelivery old st = Inr None" by (simp add: PostalDelivery_def)
      then show False using d by simp
    qed
    from d show ?thesis unfolding PostalDelivery_form [OF a] Let_def
      by (auto simp: bindR_eq_Inr_iff quiet_def delivered_def split: if_splits)
  qed
  show "PostOffice_Receive b st = Inr (Some (m, st')) \<Longrightarrow> quiet st st'"
    by (auto simp: PostOffice_Receive_def MailBox_Get_def quiet_def split: if_splits option.splits list.splits)
qed

lemma clock_inv_step:
  assumes "node_step st st'" "clock_inv st"
  shows "clock_inv st'"
  using assms
proof (cases rule: node_step.cases)
  case (tick n y ps)
  let ?now = "totalTime st + (if istatus st = SystemMode then SystemTick else UserTick)"
  have i: "intr_wf st" "dev_ok (devs st)" "due_by (?now + 200) (keyed_items (pending st))"
    "count (waiting (keyed_items (pending st))) TimerHandler = 1" "count (waiting (keyed_items (pending st))) NetworkReadPoll = 1"
    using assms(2) by (auto simp: clock_inv_def due_by_def)
  have ag: "\<forall>g. count (again g) TimerHandler = (if g = TimerHandler then 1 else 0)"
    "\<forall>g. count (again g) NetworkReadPoll = (if g = NetworkReadPoll then 1 else 0)"
    by (auto simp: again_def split: Handler.split)
  from machine_devices.OneTick_ok [OF i(1,2) tick(1,2) refl] tick(3) i(3-5) ag show ?thesis
    by (auto simp: clock_inv_def)
next
  case (send sent junk pktHdr mailHdr data b w)
  then obtain hdr buffer where "Network_Send sent junk hdr buffer st = Inr (b, w, st')"
    by (auto simp: PostOffice_Send_def Let_def split: if_splits)
  then obtain s1 r where s1: "Schedule NetworkSendDone 0 100 NetworkSendInt st = Inr s1" "Random s1 = (r, st')"
    by (auto simp: Network_Send_def Let_def bindR_eq_Inr_iff Random_def split: if_splits)
  have i: "intr_wf st" "later (totalTime st) (keyed_items (pending st))" "due_by (totalTime st + 200) (keyed_items (pending st))"
    "dev_ok (devs st)" "count (waiting (keyed_items (pending st))) TimerHandler = 1"
    "count (waiting (keyed_items (pending st))) NetworkReadPoll = 1" using assms(2) by (simp_all add: clock_inv_def)
  note c = Schedule_clock [OF i(1) _ _ i(2,3) s1(1), simplified]
  have "clock_inv s1" using c i(4-6) by (simp add: clock_inv_def)
  then show ?thesis by (rule clock_inv_cong) (use s1(2) c i(4) in \<open>auto simp: Random_def dev_ok_def\<close>)
next
  case (mode m)
  show ?thesis by (rule clock_inv_cong [OF assms(2)]) (use assms(2) mode in \<open>simp_all add: clock_inv_def\<close>)
next
  case (level l)
  show ?thesis by (rule clock_inv_cong [OF assms(2)]) (use assms(2) level in \<open>simp_all add: clock_inv_def ChangeLevel_def\<close>)
next
  case sent
  then show ?thesis using clock_inv_set_po [OF assms(2)] quiet_steps(1) by blast
next
  case (deliver old)
  then show ?thesis using clock_inv_set_po [OF assms(2)] quiet_steps(2) by blast
next
  case (receive b m)
  then show ?thesis using clock_inv_set_po [OF assms(2)] quiet_steps(3) by blast
next
  case (arrive pkt)
  have "list_all (packet_to (ident (network (po st)))) (socket (network (po st)))"
    using assms(2) by (simp add: clock_inv_def dev_ok_po)
  then show ?thesis using arrive clock_inv_set_po' [OF assms(2)] by (simp add: set_net_def)
qed


lemma node_reach_inv: "node_reach st \<Longrightarrow> clock_inv st"
  by (induction rule: node_reach.induct) (auto intro: clock_inv_boot clock_inv_step)

lemma sorted_prefix:
  fixes t :: int
  assumes "sorted (map snd xs)"
  shows "takeWhile (\<lambda>e. snd e \<le> t) xs = filter (\<lambda>e. snd e \<le> t) xs \<and> dropWhile (\<lambda>e. snd e \<le> t) xs = filter (\<lambda>e. t < snd e) xs"
  using assms
proof (induction xs)
  case (Cons a xs)
  show ?case
  proof (cases "snd a \<le> t")
    case True
    then show ?thesis using Cons by simp
  next
    case False
    then have "\<forall>e \<in> set xs. t < snd e" using Cons.prems by force
    then have "filter (\<lambda>e. snd e \<le> t) xs = []" "filter (\<lambda>e. t < snd e) xs = xs" by (force simp: filter_empty_conv filter_id_conv)+
    then show ?thesis using False by simp
  qed
qed simp

text \<open>
  C21: a clock tick handles what is due. In every reachable state, \<^verbatim>\<open>OneTick\<close> returns (the loop over
  the pending interrupts ends, with fuel for each of them and one more round); it advances the time,
  fires exactly the pending interrupts whose time has come, in the order of their times, and leaves
  only interrupts that are still to come, among them all that were not due.
\<close>

theorem OneTick_fires_due:
  assumes "node_reach st" "istatus st \<noteq> IdleMode" "length (keyed_items (pending st)) < n"
  shows "\<exists>y fired st'. OneTick n run_device st = Inr (y, fired, st') \<and>
    totalTime st' = totalTime st + (if istatus st = SystemMode then SystemTick else UserTick) \<and>
    fired = map fst (filter (\<lambda>e. snd e \<le> totalTime st') (keyed_items (pending st))) \<and> sorted (map pi_when fired) \<and>
    (\<forall>(p, k) \<in> set (keyed_items (pending st')). totalTime st' < k) \<and>
    (\<forall>(p, k) \<in> set (keyed_items (pending st)). totalTime st' < k \<longrightarrow> (p, k) \<in> set (keyed_items (pending st')))"
proof -
  let ?now = "totalTime st + (if istatus st = SystemMode then SystemTick else UserTick)"
  let ?q = "keyed_items (pending st)"
  have i: "intr_wf st" "dev_ok (devs st)" using node_reach_inv [OF assms(1)] by (simp_all add: clock_inv_def)
  have so: "sorted (map snd ?q)" "\<forall>(p, k) \<in> set ?q. k = pi_when p" using i(1) by (simp_all add: intr_wf_def)
  from machine_devices.OneTick_ok [OF i assms(2,3) refl] obtain y st' where
    t: "OneTick n run_device st = Inr (y, map fst (takeWhile (\<lambda>e. snd e \<le> ?now) ?q), st')" "totalTime st' = ?now"
      "later ?now (keyed_items (pending st'))" "mset (dropWhile (\<lambda>e. snd e \<le> ?now) ?q) \<subseteq># mset (keyed_items (pending st'))" by blast
  have fr: "map pi_when (map fst (filter P ?q)) = map snd (filter P ?q)" for P using so(2) by auto
  have "sorted (map snd (filter P ?q))" for P using so(1) by (rule sorted_filter)
  then have "sorted (map pi_when (map fst (filter P ?q)))" for P unfolding fr .
  moreover have "set (dropWhile (\<lambda>e. snd e \<le> ?now) ?q) \<subseteq> set (keyed_items (pending st'))" using set_mset_mono [OF t(4)] by simp
  ultimately show ?thesis using t sorted_prefix [OF so(1), of ?now] by (auto simp: later_def)
qed

text \<open>
  the timer keeps running. In every reachable state, exactly one interrupt of the timer is pending, and
  it comes within 200 ticks; the same holds for the poll of the network.
\<close>

theorem timer_keeps_running:
  assumes "node_reach st" "h \<in> {TimerHandler, NetworkReadPoll}"
  shows "\<exists>p k. filter (\<lambda>e. pi_handler (fst e) = h) (keyed_items (pending st)) = [(p, k)] \<and>
    totalTime st < k \<and> k \<le> totalTime st + 200"
proof -
  let ?f = "filter (\<lambda>e. pi_handler (fst e) = h) (keyed_items (pending st))"
  have i: "later (totalTime st) (keyed_items (pending st))" "due_by (totalTime st + 200) (keyed_items (pending st))"
    "count (waiting (keyed_items (pending st))) h = 1" using node_reach_inv [OF assms(1)] assms(2) by (auto simp: clock_inv_def)
  have "count (waiting es) h = length (filter (\<lambda>e. pi_handler (fst e) = h) es)" for es
    by (induction es) auto
  then have "length ?f = 1" using i(3) by simp
  then obtain e where "?f = [e]" by (auto simp: length_Suc_conv)
  then obtain p k where f: "?f = [(p, k)]" by (cases e) simp
  then have "(p, k) \<in> set ?f" by simp
  then have "(p, k) \<in> set (keyed_items (pending st))" by simp
  then show ?thesis using f i(1,2) by (auto simp: later_def due_by_def)
qed

lemma boot_node_total:
  assumes "load_ok m"
  shows "\<exists>st. boot_node m d r addr rel n hdr box = Inr st \<and> istatus st = SystemMode \<and> imachine st = m"
proof -
  have wf: "intr_wf (new_Interrupt m d :: node)"
    using assms by (simp add: new_Interrupt_def intr_wf_def nonnull_inv_new keyed_items_new)
  from Schedule_ok [OF wf timer_span(1), of TimerHandler 0 r "timer d" TimerInt] obtain l where
    l: "Schedule TimerHandler 0 (TimeOfNextInterrupt r (timer d)) TimerInt (new_Interrupt m d) =
      Inr ((new_Interrupt m d :: node)\<lparr>pending := l\<rparr>)" "intr_wf ((new_Interrupt m d :: node)\<lparr>pending := l\<rparr>)" by blast
  let ?st = "set_po \<lparr>netAddr = addr, network = new_Network addr rel hdr box, boxes = replicate n [],
          messageAvailable = 0, messageSent = 0\<rparr> ((new_Interrupt m d :: node)\<lparr>pending := l\<rparr>)"
  from Schedule_ok [of ?st 100 NetworkReadPoll 0 NetworkRecvInt] l(2) obtain l2 where
    "Schedule NetworkReadPoll 0 100 NetworkRecvInt ?st = Inr (?st\<lparr>pending := l2\<rparr>)" by auto
  then show ?thesis using l(1) by (simp add: boot_node_def new_Timer_def new_PostOffice_def new_Interrupt_def, simp add: set_po_def)
qed

lemma demo_node: "\<exists>st. boot_node None d r addr rel n hdr box = Inr st \<and> istatus st = SystemMode"
  using boot_node_total [of None d r addr rel n hdr box] by (auto simp: load_ok_def)

theorem OneTick_fires_due_witness:
  "\<exists>(st :: node) y fired st'. OneTick (Suc (length (keyed_items (pending st)))) run_device st = Inr (y, fired, st') \<and>
     totalTime st' = totalTime st + 10 \<and> (\<forall>(p, k) \<in> set (keyed_items (pending st')). totalTime st' < k)"
proof -
  from demo_node obtain st where s: "boot_node None undefined 7 1 1 10 undefined [] = Inr st" "istatus st = SystemMode" by blast
  then have "node_reach st" by (intro node_reach.boot) (auto simp: load_ok_def)
  from OneTick_fires_due [OF this, of "Suc (length (keyed_items (pending st)))"] s(2) show ?thesis by (simp, blast)
qed

theorem timer_keeps_running_witness:
  "\<exists>(st :: node) p k. node_reach st \<and> filter (\<lambda>e. pi_handler (fst e) = TimerHandler) (keyed_items (pending st)) = [(p, k)]"
proof -
  from demo_node obtain st where s: "boot_node None undefined 7 1 1 10 undefined [] = Inr st" by blast
  then have r: "node_reach st" by (intro node_reach.boot) (auto simp: load_ok_def)
  from timer_keeps_running [OF r, of TimerHandler] r show ?thesis by blast
qed


section \<open>Mail\<close>

text \<open>The mail that a packet carries, and the packets that carry one to a machine with \<open>n\<close> boxes.\<close>

definition mail_of_packet :: "byte list \<Rightarrow> Mail" where
  "mail_of_packet pkt = (let h = mail_of_bytes (drop 12 pkt) in
     \<lparr>m_pkt = pkt_of_bytes pkt, m_hdr = h, m_data = take (nat (mh_length h)) (drop 24 pkt)\<rparr>)"

definition mail_packet :: "nat \<Rightarrow> int \<Rightarrow> byte list \<Rightarrow> bool" where
  "mail_packet n addr pkt \<longleftrightarrow> packet_to addr pkt \<and> length pkt = MaxWireSize \<and>
     (let h = mail_of_bytes (drop 12 pkt) in
      0 \<le> mh_to h \<and> mh_to h < int n \<and> 0 \<le> mh_length h \<and> mh_length h \<le> int MaxMailSize \<and>
      ph_length (pkt_of_bytes pkt) = mh_length h + 12)"

text \<open>
  Runs of the receiving side: packets arrive at the socket, the device is polled, the postal worker delivers,
  threads receive; anything else does not touch mail on its way in. The run records the mail that has
  arrived and the mail that was received, with the box.
\<close>

definition no_mail :: "node \<Rightarrow> bool" where
  "no_mail st \<longleftrightarrow> (\<forall>ms \<in> set (boxes (po st)). ms = []) \<and> socket (network (po st)) = [] \<and> messageAvailable (po st) = 0 \<and>
     ph_length (inHdr (network (po st))) = 0 \<and> length (inbox (network (po st))) = MaxPacketSize"

definition same_mail :: "PostOffice \<Rightarrow> PostOffice \<Rightarrow> bool" where
  "same_mail p q \<longleftrightarrow> boxes q = boxes p \<and> messageAvailable q = messageAvailable p \<and> ident (network q) = ident (network p) \<and>
     inHdr (network q) = inHdr (network p) \<and> inbox (network q) = inbox (network p) \<and> socket (network q) = socket (network p)"

inductive mail_run :: "node \<Rightarrow> Mail list \<Rightarrow> (int \<times> Mail) list \<Rightarrow> node \<Rightarrow> bool" for st0 where
  start: "no_mail st0 \<Longrightarrow> mail_run st0 [] [] st0"
| arrive: "mail_run st0 arr rcv st \<Longrightarrow> mail_packet (length (boxes (po st))) (ident (network (po st))) pkt \<Longrightarrow>
    mail_run st0 (arr @ [mail_of_packet pkt]) rcv (set_net ((network (po st))\<lparr>socket := socket (network (po st)) @ [pkt]\<rparr>) st)"
| poll: "mail_run st0 arr rcv st \<Longrightarrow> run_device NetworkReadPoll a st = Inr st' \<Longrightarrow> mail_run st0 arr rcv st'"
| deliver: "mail_run st0 arr rcv st \<Longrightarrow> PostalDelivery old st = Inr (Some st') \<Longrightarrow> mail_run st0 arr rcv st'"
| receive: "mail_run st0 arr rcv st \<Longrightarrow> PostOffice_Receive b st = Inr (Some (m, st')) \<Longrightarrow> mail_run st0 arr (rcv @ [(b, m)]) st'"
| other: "mail_run st0 arr rcv st \<Longrightarrow> same_mail (po st) (po st') \<Longrightarrow> mail_run st0 arr rcv st'"

definition box_of :: "int \<Rightarrow> Mail \<Rightarrow> bool" where
  "box_of b m \<longleftrightarrow> mh_to (m_hdr m) = b"

text \<open>\<open>cur\<close> is the packet in the device, if there is one.\<close>

definition in_device :: "byte list list \<Rightarrow> PostOffice \<Rightarrow> bool" where
  "in_device cur p \<longleftrightarrow> messageAvailable p = length cur \<and> length (inbox (network p)) = MaxPacketSize \<and>
     (case cur of
        [] \<Rightarrow> ph_length (inHdr (network p)) = 0
      | [pkt] \<Rightarrow> mail_packet (length (boxes p)) (ident (network p)) pkt \<and> inHdr (network p) = pkt_of_bytes pkt \<and>
          take (nat (ph_length (pkt_of_bytes pkt))) (inbox (network p)) = take (nat (ph_length (pkt_of_bytes pkt))) (drop 12 pkt)
      | _ \<Rightarrow> False)"

definition mail_inv :: "Mail list \<Rightarrow> (int \<times> Mail) list \<Rightarrow> PostOffice \<Rightarrow> bool" where
  "mail_inv arr rcv p \<longleftrightarrow> list_all (mail_packet (length (boxes p)) (ident (network p))) (socket (network p)) \<and>
     (\<exists>cur. in_device cur p \<and>
       (\<forall>b < length (boxes p). filter (box_of (int b)) arr = map snd (filter (\<lambda>r. fst r = int b) rcv) @ boxes p ! b @
          filter (box_of (int b)) (map mail_of_packet (cur @ socket (network p)))))"

lemma mail_of_bytes_prefix: "take 12 xs = take 12 ys \<Longrightarrow> mail_of_bytes xs = mail_of_bytes ys"
proof -
  assume t: "take 12 xs = take 12 ys"
  have "take 4 (drop (4 * i) xs) = take 4 (drop (4 * i) (take 12 xs))" if "i < 3" for i and xs :: "byte list"
    using that by (simp add: drop_take)
  then have e: "take 4 (drop (4 * i) xs) = take 4 (drop (4 * i) ys)" if "i < 3" for i using that t by metis
  show ?thesis using e [of 0] e [of 1] e [of 2] by (simp add: mail_of_bytes_def bytes_ints_def)
qed

lemma buffered_mail:
  assumes "in_device [pkt] p"
  shows "mail_of_bytes (buffered old p) = m_hdr (mail_of_packet pkt)"
    "new_Mail (inHdr (network p)) (mail_of_bytes (buffered old p)) (drop 12 (buffered old p)) = Inr (mail_of_packet pkt)"
proof -
  let ?h = "mail_of_bytes (drop 12 pkt)" and ?n = "nat (ph_length (pkt_of_bytes pkt))"
  have m: "mail_packet (length (boxes p)) (ident (network p)) pkt" "inHdr (network p) = pkt_of_bytes pkt"
    "take ?n (inbox (network p)) = take ?n (drop 12 pkt)" using assms by (simp_all add: in_device_def)
  then have l: "0 \<le> mh_length ?h" "mh_length ?h \<le> 40" "?n = nat (mh_length ?h) + 12" "length pkt = 64"
    by (auto simp: mail_packet_def Let_def nat_add_distrib)
  then have n: "?n \<le> 52" "12 \<le> ?n" by linarith+
  have bf: "buffered old p = take ?n (drop 12 pkt) @ drop (min 52 ?n) old"
    using m(2,3) l(4) by (simp add: buffered_def Let_def)
  have "take 12 (buffered old p) = take 12 (drop 12 pkt)" unfolding bf using n l(4) by simp
  then have h: "mail_of_bytes (buffered old p) = ?h" by (rule mail_of_bytes_prefix)
  then show "mail_of_bytes (buffered old p) = m_hdr (mail_of_packet pkt)" by (simp add: mail_of_packet_def Let_def)
  have "take (nat (mh_length ?h)) (drop 12 (buffered old p)) = take (nat (mh_length ?h)) (drop 24 pkt)"
    unfolding bf using n l by (simp add: take_drop add.commute min_def)
  then show "new_Mail (inHdr (network p)) (mail_of_bytes (buffered old p)) (drop 12 (buffered old p)) = Inr (mail_of_packet pkt)"
    using h m(2) l(2) by (simp add: new_Mail_def mail_of_packet_def Let_def)
qed

text \<open>A poll of a working node: it takes a packet into the device, or changes nothing of the mail.\<close>

lemma CheckPktAvail_mail:
  assumes "CheckPktAvail st = Inr st'"
  shows "same_mail (po st) (po st') \<or>
    (\<exists>buffer rest. ph_length (inHdr (network (po st))) = 0 \<and> socket (network (po st)) = buffer # rest \<and>
       boxes (po st') = boxes (po st) \<and> messageAvailable (po st') = messageAvailable (po st) + 1 \<and>
       ident (network (po st')) = ident (network (po st)) \<and> inHdr (network (po st')) = pkt_of_bytes buffer \<and>
       inbox (network (po st')) = take (nat (ph_length (pkt_of_bytes buffer))) (drop 12 buffer) @
         drop (nat (ph_length (pkt_of_bytes buffer))) (inbox (network (po st))) \<and>
       socket (network (po st')) = rest)"
proof -
  from assms obtain st1 where s: "Schedule NetworkReadPoll 0 NetworkTime NetworkRecvInt st = Inr st1"
    by (auto simp: CheckPktAvail_def bindR_eq_Inr_iff)
  then have "devs st1 = devs st" by (auto simp: Schedule_def Let_def bindR_eq_Inr_iff split: if_splits)
  then have "po st1 = po st" by (simp add: po_def)
  then show ?thesis using assms s
    by (auto simp: CheckPktAvail_def bindR_eq_Inr_iff Let_def same_mail_def IncomingPacket_def set_net_def
        split: if_splits list.splits)
qed

lemma in_device_cong:
  assumes "length (boxes q) = length (boxes p)" "messageAvailable q = messageAvailable p"
    "ident (network q) = ident (network p)" "inHdr (network q) = inHdr (network p)" "inbox (network q) = inbox (network p)"
  shows "in_device cur q = in_device cur p"
  unfolding in_device_def assms ..

lemma mail_inv_same:
  assumes "mail_inv arr rcv p" "same_mail p q"
  shows "mail_inv arr rcv q"
proof -
  have "in_device cur q = in_device cur p" for cur using assms(2) by (intro in_device_cong) (simp_all add: same_mail_def)
  then show ?thesis using assms by (simp add: mail_inv_def same_mail_def)
qed

lemma in_device_empty:
  "in_device cur p \<Longrightarrow> ph_length (inHdr (network p)) = 0 \<longleftrightarrow> cur = []"
  "in_device cur p \<Longrightarrow> messageAvailable p \<noteq> 0 \<longleftrightarrow> (\<exists>pkt. cur = [pkt])"
  by (auto simp: in_device_def mail_packet_def Let_def split: list.splits)

lemma mail_inv_poll:
  assumes "mail_inv arr rcv (po st)" "CheckPktAvail st = Inr st'"
  shows "mail_inv arr rcv (po st')"
  using CheckPktAvail_mail [OF assms(2)]
proof (elim disjE exE conjE)
  assume "same_mail (po st) (po st')"
  then show ?thesis using assms(1) by (rule mail_inv_same [rotated])
next
  fix pkt rest let ?n = "nat (ph_length (pkt_of_bytes pkt))"
  assume z: "ph_length (inHdr (network (po st))) = 0" and s: "socket (network (po st)) = pkt # rest"
    and e: "boxes (po st') = boxes (po st)" "messageAvailable (po st') = messageAvailable (po st) + 1"
      "ident (network (po st')) = ident (network (po st))" "inHdr (network (po st')) = pkt_of_bytes pkt"
      "inbox (network (po st')) = take ?n (drop 12 pkt) @ drop ?n (inbox (network (po st)))"
      "socket (network (po st')) = rest"
  from assms(1) obtain cur where c: "in_device cur (po st)"
    "\<forall>b < length (boxes (po st)). filter (box_of (int b)) arr = map snd (filter (\<lambda>r. fst r = int b) rcv) @ boxes (po st) ! b @
          filter (box_of (int b)) (map mail_of_packet (cur @ socket (network (po st))))"
    and a: "list_all (mail_packet (length (boxes (po st))) (ident (network (po st)))) (socket (network (po st)))"
    by (auto simp: mail_inv_def)
  from c(1) z have n: "cur = []" by (simp add: in_device_empty)
  from a s have m: "mail_packet (length (boxes (po st))) (ident (network (po st))) pkt" by simp
  then have l: "length pkt = 64" "?n \<le> 52" by (auto simp: mail_packet_def Let_def)
  then have "in_device [pkt] (po st')" using c(1) m e n by (simp add: in_device_def)
  moreover have "list_all (mail_packet (length (boxes (po st'))) (ident (network (po st')))) (socket (network (po st')))"
    using a s e by simp
  moreover have "\<forall>b < length (boxes (po st')). filter (box_of (int b)) arr = map snd (filter (\<lambda>r. fst r = int b) rcv) @
      boxes (po st') ! b @ filter (box_of (int b)) (map mail_of_packet ([pkt] @ socket (network (po st'))))"
    using c(2) s e n by simp
  ultimately show ?thesis unfolding mail_inv_def by blast
qed

lemma PostalDelivery_mail:
  assumes "in_device [pkt] (po st)"
  shows "PostalDelivery old st = Inr (Some (set_po (delivered (nat (mh_to (m_hdr (mail_of_packet pkt)))) (mail_of_packet pkt) (po st)) st))"
proof -
  have a: "messageAvailable (po st) \<noteq> 0" using assms by (simp add: in_device_def)
  have "0 \<le> mh_to (m_hdr (mail_of_packet pkt))" "mh_to (m_hdr (mail_of_packet pkt)) < int (length (boxes (po st)))"
    "mh_length (m_hdr (mail_of_packet pkt)) \<le> 40"
    using assms by (auto simp: in_device_def mail_packet_def mail_of_packet_def Let_def)
  then show ?thesis using buffered_mail [OF assms, of old]
    by (simp add: PostalDelivery_form [OF a] Let_def)
qed

lemma mail_inv_deliver:
  assumes "mail_inv arr rcv (po st)" "PostalDelivery old st = Inr (Some st')"
  shows "mail_inv arr rcv (po st')"
proof -
  have av: "messageAvailable (po st) \<noteq> 0" using assms(2) by (simp add: PostalDelivery_def split: if_splits)
  from assms(1) obtain cur where c: "in_device cur (po st)"
    "\<forall>b < length (boxes (po st)). filter (box_of (int b)) arr = map snd (filter (\<lambda>r. fst r = int b) rcv) @ boxes (po st) ! b @
          filter (box_of (int b)) (map mail_of_packet (cur @ socket (network (po st))))"
    and a: "list_all (mail_packet (length (boxes (po st))) (ident (network (po st)))) (socket (network (po st)))"
    by (auto simp: mail_inv_def)
  from c(1) av obtain pkt where n: "cur = [pkt]" using in_device_empty(2) by blast
  let ?m = "mail_of_packet pkt" and ?b = "nat (mh_to (m_hdr (mail_of_packet pkt)))"
  have b: "int ?b = mh_to (m_hdr ?m)" "?b < length (boxes (po st))"
    using c(1) by (auto simp: n in_device_def mail_packet_def mail_of_packet_def Let_def)
  have st': "po st' = delivered ?b ?m (po st)" using assms(2) c(1) by (auto simp: n PostalDelivery_mail)
  have "in_device [] (po st')" using c(1) by (simp add: st' n in_device_def delivered_def)
  moreover have "filter (box_of (int i)) arr = map snd (filter (\<lambda>r. fst r = int i) rcv) @ boxes (po st') ! i @
      filter (box_of (int i)) (map mail_of_packet ([] @ socket (network (po st'))))" if "i < length (boxes (po st'))" for i
    using c(2) that b by (cases "i = ?b") (auto simp: st' n delivered_def box_of_def)
  ultimately show ?thesis using a by (auto simp: mail_inv_def st' delivered_def)
qed

lemma mail_inv_receive:
  assumes "mail_inv arr rcv (po st)" "PostOffice_Receive b st = Inr (Some (m, st'))"
  shows "mail_inv arr (rcv @ [(b, m)]) (po st')"
proof -
  from assms(2) obtain ms where b: "0 \<le> b" "nat b < length (boxes (po st))" "boxes (po st) ! nat b = m # ms"
    "po st' = (po st)\<lparr>boxes := (boxes (po st))[nat b := ms]\<rparr>"
    by (auto simp: PostOffice_Receive_def MailBox_Get_def nat_less_iff split: if_splits list.splits)
  from assms(1) obtain cur where c: "in_device cur (po st)"
    "\<forall>b < length (boxes (po st)). filter (box_of (int b)) arr = map snd (filter (\<lambda>r. fst r = int b) rcv) @ boxes (po st) ! b @
          filter (box_of (int b)) (map mail_of_packet (cur @ socket (network (po st))))"
    and a: "list_all (mail_packet (length (boxes (po st))) (ident (network (po st)))) (socket (network (po st)))"
    by (auto simp: mail_inv_def)
  have "in_device cur (po st')" using c(1) by (subst in_device_cong [where p = "po st"]) (simp_all add: b)
  moreover have "filter (box_of (int i)) arr = map snd (filter (\<lambda>r. fst r = int i) (rcv @ [(b, m)])) @ boxes (po st') ! i @
      filter (box_of (int i)) (map mail_of_packet (cur @ socket (network (po st'))))" if "i < length (boxes (po st'))" for i
    using c(2) that b by (cases "i = nat b") auto
  ultimately show ?thesis using a b(4) by (auto simp: mail_inv_def)
qed

lemma mail_inv_arrive:
  assumes "mail_inv arr rcv (po st)" "mail_packet (length (boxes (po st))) (ident (network (po st))) pkt"
  shows "mail_inv (arr @ [mail_of_packet pkt]) rcv (po (set_net ((network (po st))\<lparr>socket := socket (network (po st)) @ [pkt]\<rparr>) st))"
proof -
  from assms(1) obtain cur where c: "in_device cur (po st)"
    "\<forall>b < length (boxes (po st)). filter (box_of (int b)) arr = map snd (filter (\<lambda>r. fst r = int b) rcv) @ boxes (po st) ! b @
          filter (box_of (int b)) (map mail_of_packet (cur @ socket (network (po st))))"
    "list_all (mail_packet (length (boxes (po st))) (ident (network (po st)))) (socket (network (po st)))"
    by (auto simp: mail_inv_def)
  let ?st = "set_net ((network (po st))\<lparr>socket := socket (network (po st)) @ [pkt]\<rparr>) st"
  have "in_device cur (po ?st)" using c(1) by (subst in_device_cong [where p = "po st"]) (simp_all add: set_net_def)
  then show ?thesis using c(2,3) assms(2) unfolding mail_inv_def
    by (intro conjI exI [of _ cur]) (simp_all add: set_net_def)
qed

lemma mail_run_inv: "mail_run st0 arr rcv st \<Longrightarrow> mail_inv arr rcv (po st)"
proof (induction rule: mail_run.induct)
  case start
  then have "in_device [] (po st0)" by (simp add: no_mail_def in_device_def)
  moreover have "boxes (po st0) ! b = []" if "b < length (boxes (po st0))" for b
    using start that by (simp add: no_mail_def)
  ultimately show ?case using start by (auto simp: mail_inv_def no_mail_def intro!: exI [of _ "[]"])
next
  case (poll arr rcv st a st')
  then show ?case by (auto simp: run_device_def intro: mail_inv_poll)
qed (auto intro: mail_inv_arrive mail_inv_deliver mail_inv_receive mail_inv_same)

text \<open>
  C24: mail arrives in order. Whatever polls, deliveries and receives happen in whatever order, what threads
  have received from a box, followed by what waits in the box, is an initial part of the mail that has
  arrived for the box, in the order of its arrival, and all of it when nothing is on its way through the
  device. When the postal worker has been signalled it can deliver: none of its assertions fails.
\<close>

theorem mail_arrives_in_order:
  assumes "mail_run st0 arr rcv st" "b < length (boxes (po st))"
  shows "(\<exists>coming. filter (box_of (int b)) arr = map snd (filter (\<lambda>r. fst r = int b) rcv) @ boxes (po st) ! b @ coming \<and>
      (messageAvailable (po st) = 0 \<longrightarrow> socket (network (po st)) = [] \<longrightarrow> coming = [])) \<and>
    (messageAvailable (po st) \<noteq> 0 \<longrightarrow> (\<exists>st'. PostalDelivery old st = Inr (Some st')))"
proof (intro conjI)
  from mail_run_inv [OF assms(1)] assms(2) obtain cur where c: "in_device cur (po st)"
    "filter (box_of (int b)) arr = map snd (filter (\<lambda>r. fst r = int b) rcv) @ boxes (po st) ! b @
          filter (box_of (int b)) (map mail_of_packet (cur @ socket (network (po st))))"
    by (auto simp: mail_inv_def)
  have "messageAvailable (po st) = 0 \<longrightarrow> cur = []" using c(1) by (simp add: in_device_def)
  then show "\<exists>coming. filter (box_of (int b)) arr = map snd (filter (\<lambda>r. fst r = int b) rcv) @ boxes (po st) ! b @ coming \<and>
      (messageAvailable (po st) = 0 \<longrightarrow> socket (network (po st)) = [] \<longrightarrow> coming = [])"
    using c(2) by (intro exI conjI) auto
  show "messageAvailable (po st) \<noteq> 0 \<longrightarrow> (\<exists>st'. PostalDelivery old st = Inr (Some st'))"
  proof
    assume "messageAvailable (po st) \<noteq> 0"
    with c(1) obtain pkt where "cur = [pkt]" using in_device_empty(2) by blast
    with c(1) show "\<exists>st'. PostalDelivery old st = Inr (Some st')" by (simp add: PostalDelivery_mail)
  qed
qed

lemma header_roundtrip:
  "is_int32 (ph_to h) \<Longrightarrow> is_int32 (ph_from h) \<Longrightarrow> 0 \<le> ph_length h \<Longrightarrow> ph_length h < 2 ^ 31 \<Longrightarrow>
     pkt_of_bytes (pkt_bytes h @ xs) = h"
  "is_int32 (mh_to m) \<Longrightarrow> is_int32 (mh_from m) \<Longrightarrow> 0 \<le> mh_length m \<Longrightarrow> mh_length m < 2 ^ 31 \<Longrightarrow>
     mail_of_bytes (mail_bytes m @ xs) = m"
  by (simp_all add: pkt_of_bytes_def pkt_bytes_def mail_of_bytes_def mail_bytes_def bytes_ints_bytes is_int32_def
      del: One_nat_def)

lemma packet_parts:
  fixes data rest :: "byte list"
  assumes "is_int32 (ph_to h)" "is_int32 (ph_from h)" "ph_length h = mh_length m + 12"
    "is_int32 (mh_to m)" "is_int32 (mh_from m)" "0 \<le> mh_length m" "mh_length m \<le> 40" "nat (mh_length m) \<le> length data"
  defines "pkt \<equiv> pkt_bytes h @ mail_bytes m @ take (nat (mh_length m)) data @ rest"
  shows "mail_of_packet pkt = \<lparr>m_pkt = h, m_hdr = m, m_data = take (nat (mh_length m)) data\<rparr>"
    "0 \<le> mh_to m \<Longrightarrow> mh_to m < int n \<Longrightarrow> length pkt = 64 \<Longrightarrow> mail_packet n (ph_to h) pkt"
proof -
  have l: "length (pkt_bytes h) = 12" "length (mail_bytes m) = 12" by (simp_all add: pkt_bytes_def mail_bytes_def)
  have p: "pkt_of_bytes pkt = h" using assms(1-7) unfolding pkt_def by (intro header_roundtrip) auto
  have d: "drop 12 pkt = mail_bytes m @ take (nat (mh_length m)) data @ rest" "drop 24 pkt = take (nat (mh_length m)) data @ rest"
    using l by (simp_all add: pkt_def)
  have m: "mail_of_bytes (drop 12 pkt) = m" using assms(4-7) unfolding d by (intro header_roundtrip) auto
  show "mail_of_packet pkt = \<lparr>m_pkt = h, m_hdr = m, m_data = take (nat (mh_length m)) data\<rparr>"
    unfolding mail_of_packet_def m p Let_def d(2) using assms(8) by (simp add: min_def)
  show "0 \<le> mh_to m \<Longrightarrow> mh_to m < int n \<Longrightarrow> length pkt = 64 \<Longrightarrow> mail_packet n (ph_to h) pkt"
    unfolding mail_packet_def m p Let_def packet_to_def using assms(3,6,7) by simp
qed

text \<open>
  mail is sent intact. The packet that \<^verbatim>\<open>PostOffice::Send\<close> puts on the wire is one that a machine
  with as many boxes takes from its socket and delivers, and it carries the mail header and the
  data that were sent, with the sender's address filled in; the only other results are that it fails
  one of its assertions or that the packet is lost.
\<close>

theorem mail_sent_intact:
  assumes "PostOffice_Send sent junk pktHdr mailHdr data st = Inr (ok, Some pkt, st')"
    and "is_int32 (ph_to pktHdr)" "is_int32 (ident (network (po st)))" "is_int32 (mh_to mailHdr)" "is_int32 (mh_from mailHdr)"
    and "0 \<le> mh_length mailHdr" "nat (mh_length mailHdr) \<le> length data" "length junk = MaxPacketSize"
  shows "mail_packet (length (boxes (po st))) (ph_to pktHdr) pkt \<and>
    mail_of_packet pkt = \<lparr>m_pkt = pktHdr\<lparr>ph_from := ident (network (po st)), ph_length := mh_length mailHdr + 12\<rparr>,
       m_hdr = mailHdr, m_data = take (nat (mh_length mailHdr)) data\<rparr>"
proof (intro conjI)
  let ?h = "pktHdr\<lparr>ph_from := ident (network (po st)), ph_length := mh_length mailHdr + 12\<rparr>"
  let ?n = "nat (mh_length mailHdr)"
  have s: "mh_length mailHdr \<le> 40" "0 \<le> mh_to mailHdr" "mh_to mailHdr < int (length (boxes (po st)))"
    "netAddr (po st) = ident (network (po st))"
    using assms(1) by (auto simp: PostOffice_Send_def Network_Send_def Let_def split: if_splits)
  have l: "length (mail_bytes mailHdr) = 12" "length (pkt_bytes ?h) = 12" by (simp_all add: mail_bytes_def pkt_bytes_def)
  have n: "nat (mh_length mailHdr + 12) = ?n + 12" "?n \<le> 40" using assms(6) s(1) by auto
  have pkt: "pkt = pkt_bytes ?h @ mail_bytes mailHdr @ take ?n data @ take (52 - (?n + 12)) junk"
    using assms(1) s l n by (auto simp: PostOffice_Send_def Network_Send_def Let_def bindR_eq_Inr_iff Random_def split: if_splits)
  have "length pkt = 64" using l n(2) assms(7,8) unfolding pkt by simp
  moreover note parts = packet_parts [where h = ?h and m = mailHdr and data = data and rest = "take (52 - (?n + 12)) junk", folded pkt]
  ultimately show "mail_packet (length (boxes (po st))) (ph_to pktHdr) pkt"
    "mail_of_packet pkt = \<lparr>m_pkt = ?h, m_hdr = mailHdr, m_data = take ?n data\<rparr>"
    using parts assms(2-7) s by simp_all
qed

section \<open>Example runs\<close>

text \<open>Machine 5, with one box, before any mail has arrived; it sends itself an empty letter.\<close>

definition machine5 :: node where
  "machine5 = new_Interrupt None \<lparr>timer = \<lparr>randomize = False\<rparr>,
     postOffice = \<lparr>netAddr = 5, network = new_Network 5 1 \<lparr>ph_to = 0, ph_from = 0, ph_length = 0\<rparr> (replicate 52 0),
       boxes = [[]], messageAvailable = 0, messageSent = 0\<rparr>, randoms = (\<lambda>_. 0), nrandom = 0\<rparr>"

lemma machine5_facts:
  "intr_wf machine5" "netAddr (po machine5) = 5" "network (po machine5) = new_Network 5 1 \<lparr>ph_to = 0, ph_from = 0, ph_length = 0\<rparr> (replicate 52 0)"
  "boxes (po machine5) = [[]]" "messageAvailable (po machine5) = 0" "randoms (devs machine5) = (\<lambda>_. 0)"
  by (simp_all add: machine5_def new_Interrupt_def intr_wf_def nonnull_inv_new keyed_items_new load_ok_def po_def)

lemma machine5_sends:
  "\<exists>pkt st'. PostOffice_Send True (replicate 52 0) \<lparr>ph_to = 5, ph_from = 0, ph_length = 0\<rparr> \<lparr>mh_to = 0, mh_from = 0, mh_length = 2\<rparr> [7, 8] machine5 =
     Inr (True, Some pkt, st')"
proof -
  from Schedule_ok [OF machine5_facts(1), of 100 NetworkSendDone 0 NetworkSendInt] obtain l where
    "Schedule NetworkSendDone 0 100 NetworkSendInt machine5 = Inr (machine5\<lparr>pending := l\<rparr>)" by auto
  then show ?thesis by (simp add: PostOffice_Send_def Network_Send_def Let_def machine5_facts new_Network_def Random_def)
qed

theorem mail_sent_intact_witness:
  "\<exists>pkt. mail_packet 1 5 pkt \<and> mail_of_packet pkt =
     \<lparr>m_pkt = \<lparr>ph_to = 5, ph_from = 5, ph_length = 14\<rparr>, m_hdr = \<lparr>mh_to = 0, mh_from = 0, mh_length = 2\<rparr>, m_data = [7, 8]\<rparr>"
proof -
  from machine5_sends obtain pkt st' where s: "PostOffice_Send True (replicate 52 0) \<lparr>ph_to = 5, ph_from = 0, ph_length = 0\<rparr>
    \<lparr>mh_to = 0, mh_from = 0, mh_length = 2\<rparr> [7, 8] machine5 = Inr (True, Some pkt, st')" by blast
  from mail_sent_intact [OF s] show ?thesis
    by (intro exI [of _ pkt]) (simp add: machine5_facts new_Network_def is_int32_def)
qed

lemma machine5_run:
  "\<exists>m st. mail_run machine5 [m] [] st \<and> length (boxes (po st)) = 1 \<and> messageAvailable (po st) = 0 \<and> socket (network (po st)) = [] \<and> box_of 0 m"
proof -
  let ?h = "\<lparr>ph_to = 5, ph_from = 5, ph_length = 12\<rparr>" and ?m = "\<lparr>mh_to = 0, mh_from = 0, mh_length = 0\<rparr>"
  define pkt :: "byte list" where "pkt = pkt_bytes ?h @ mail_bytes ?m @ take (nat (mh_length ?m)) [] @ replicate 40 0"
  have p: "mail_of_packet pkt = \<lparr>m_pkt = ?h, m_hdr = ?m, m_data = []\<rparr>" "mail_packet 1 5 pkt" "ph_length (pkt_of_bytes pkt) = 12"
    "ph_to (pkt_of_bytes pkt) = 5"
    using packet_parts(1) [where h = ?h and m = ?m and data = "[]" and rest = "replicate 40 0"]
      packet_parts(2) [where h = ?h and m = ?m and data = "[]" and rest = "replicate 40 0" and n = 1]
      header_roundtrip(1) [of ?h "mail_bytes ?m @ replicate 40 0"]
    by (simp_all add: pkt_def is_int32_def pkt_bytes_def mail_bytes_def)
  let ?st1 = "set_net ((network (po machine5))\<lparr>socket := [pkt]\<rparr>) machine5"
  have r0: "mail_run machine5 [] [] machine5"
    by (rule mail_run.start) (simp add: no_mail_def machine5_facts new_Network_def)
  have r1: "mail_run machine5 [mail_of_packet pkt] [] ?st1"
    using mail_run.arrive [OF r0, of pkt] p(2) by (simp add: machine5_facts new_Network_def)
  from Schedule_ok [of ?st1 100 NetworkReadPoll 0 NetworkRecvInt] obtain l where
    "Schedule NetworkReadPoll 0 100 NetworkRecvInt ?st1 = Inr (?st1\<lparr>pending := l\<rparr>)" using machine5_facts(1) by (auto simp: set_net_def)
  then obtain st2 where s2: "run_device NetworkReadPoll 0 ?st1 = Inr st2" "boxes (po st2) = [[]]" "messageAvailable (po st2) = 1"
    "socket (network (po st2)) = []"
    using p(3,4) by (auto simp: run_device_def CheckPktAvail_def Let_def machine5_facts new_Network_def set_net_def IncomingPacket_def)
  have r2: "mail_run machine5 [mail_of_packet pkt] [] st2" by (rule mail_run.poll [OF r1 s2(1)])
  from mail_run_inv [OF r2] s2(3) obtain pk where "in_device [pk] (po st2)"
    using in_device_empty(2) unfolding mail_inv_def by (metis zero_neq_one)
  from PostalDelivery_mail [OF this, of "[]"] obtain b m where
    d: "PostalDelivery [] st2 = Inr (Some (set_po (delivered b m (po st2)) st2))" by blast
  have "mail_run machine5 [mail_of_packet pkt] [] (set_po (delivered b m (po st2)) st2)" by (rule mail_run.deliver [OF r2 d])
  moreover have "length (boxes (delivered b m (po st2))) = 1" unfolding delivered_def s2(2) length_list_update by (simp del: list_update.simps)
  ultimately show ?thesis using s2(3,4) p(1)
    by (intro exI [of _ "mail_of_packet pkt"] exI [of _ "set_po (delivered b m (po st2)) st2"])
      (simp add: delivered_def box_of_def del: list_update.simps)
qed

theorem mail_arrives_in_order_witness:
  "\<exists>m st. mail_run machine5 [m] [] st \<and> boxes (po st) ! 0 = [m]"
proof -
  from machine5_run obtain m st where r: "mail_run machine5 [m] [] st" "length (boxes (po st)) = 1" "messageAvailable (po st) = 0"
    "socket (network (po st)) = []" "box_of 0 m" by blast
  from mail_arrives_in_order [OF r(1), of 0] r(2-5) have "boxes (po st) ! 0 = [m]" by auto
  then show ?thesis using r(1) by blast
qed

end
