(* ===== verification/Mail_Test.thy ===== *)
theory Mail_Test
  imports Net_Props
begin

text \<open>
  The demonstration of the network (\<^verbatim>\<open>MailTest\<close> of \<^verbatim>\<open>network/nettest.cc\<close>) on two machines that send each other a
  message and an acknowledgement, over the post office and the network device. Every interleaving of the
  two programs with the postal workers and the interrupts of both machines is considered: no assertion
  fails, no send fails, each machine prints what the other one sent, and whatever has happened so far, both can finish.
\<close>

section \<open>The program\<close>

definition c_string :: "string \<Rightarrow> byte list" where
  "c_string s = map of_char s @ [0]"

text \<open>Where the thread is: about to send, waiting in \<^verbatim>\<open>Send\<close> (with its result to be), waiting in \<^verbatim>\<open>Receive\<close>, halted.\<close>

datatype MT_pc = Send_hello | Sending_hello bool | Receive_hello | Send_ack | Sending_ack bool | Receive_ack | MT_halted

datatype MT_line = Send_failed | Got "byte list" int int

record MailTester =
  mt_pc :: MT_pc
  outPktHdr :: PacketHeader
  outMailHdr :: MailHeader
  inPktHdr :: PacketHeader
  inMailHdr :: MailHeader
  buffer :: "byte list"
  printed :: "MT_line list"

definition MailTest_begin :: "PacketHeader \<Rightarrow> MailHeader \<Rightarrow> byte list \<Rightarrow> MailTester" where
  "MailTest_begin junkPkt junkMail junk =
     \<lparr>mt_pc = Send_hello, outPktHdr = junkPkt, outMailHdr = junkMail, inPktHdr = junkPkt, inMailHdr = junkMail,
      buffer = take MaxMailSize junk, printed = []\<rparr>"

text \<open>A received mail goes to the header variables and to the front of the buffer, which is printed up to its first 0.\<close>

definition take_mail :: "Mail \<Rightarrow> MailTester \<Rightarrow> MailTester res" where
  "take_mail m t =
     (let b = m_data m @ drop (length (m_data m)) (buffer t) in
      if 0 \<in> set b
      then Inr (t\<lparr>inPktHdr := m_pkt m, inMailHdr := m_hdr m, buffer := b,
              printed := printed t @ [Got (takeWhile (\<lambda>c. c \<noteq> 0) b) (ph_from (m_pkt m)) (mh_from (m_hdr m))]\<rparr>)
      else Inl OutOfBounds)"

text \<open>
  One step of the program, up to the next point where it can wait; \<open>None\<close> if it has to wait (or has halted). The second
  component of the result is the packet that goes out on the wire. \<open>up\<close> tells whether the far machine has its
  socket, \<open>junk\<close> is what pads a packet.
\<close>

definition send_step ::
  "bool \<Rightarrow> byte list \<Rightarrow> PacketHeader \<Rightarrow> MailHeader \<Rightarrow> string \<Rightarrow> (bool \<Rightarrow> MT_pc) \<Rightarrow> MailTester \<times> node \<Rightarrow>
     ((MailTester \<times> node) \<times> byte list option) option res" where
  "send_step up junk pkt hdr msg pc = (\<lambda>(t, st).
     bindR (PostOffice_Send up junk pkt hdr (c_string msg) st) (\<lambda>(ok, wire, st1).
       Inr (Some ((t\<lparr>outPktHdr := pkt, outMailHdr := hdr, mt_pc := pc ok\<rparr>, st1), wire))))"

definition sent_step ::
  "bool \<Rightarrow> MT_pc \<Rightarrow> MailTester \<times> node \<Rightarrow> ((MailTester \<times> node) \<times> byte list option) option res" where
  "sent_step ok pc = (\<lambda>(t, st). case Send_wait st of
     None \<Rightarrow> Inr None
   | Some st1 \<Rightarrow> Inr (Some ((if ok then t\<lparr>mt_pc := pc\<rparr> else t\<lparr>mt_pc := MT_halted, printed := printed t @ [Send_failed]\<rparr>, st1), None)))"

definition receive_step ::
  "int \<Rightarrow> MT_pc \<Rightarrow> MailTester \<times> node \<Rightarrow> ((MailTester \<times> node) \<times> byte list option) option res" where
  "receive_step box pc = (\<lambda>(t, st).
     bindR (PostOffice_Receive box st) (\<lambda>r. case r of
       None \<Rightarrow> Inr None
     | Some (m, st1) \<Rightarrow> bindR (take_mail m t) (\<lambda>t1. Inr (Some ((t1\<lparr>mt_pc := pc\<rparr>, st1), None)))))"

definition MailTest_step ::
  "bool \<Rightarrow> byte list \<Rightarrow> int \<Rightarrow> MailTester \<times> node \<Rightarrow> ((MailTester \<times> node) \<times> byte list option) option res" where
  "MailTest_step up junk farAddr s = (let t = fst s in case mt_pc t of
     Send_hello \<Rightarrow> send_step up junk ((outPktHdr t)\<lparr>ph_to := farAddr\<rparr>)
       \<lparr>mh_to = 0, mh_from = 1, mh_length = int (length ''Hello there!'') + 1\<rparr> ''Hello there!'' Sending_hello s
   | Sending_hello ok \<Rightarrow> sent_step ok Receive_hello s
   | Receive_hello \<Rightarrow> receive_step 0 Send_ack s
   | Send_ack \<Rightarrow> send_step up junk ((outPktHdr t)\<lparr>ph_to := ph_from (inPktHdr t)\<rparr>)
       ((outMailHdr t)\<lparr>mh_to := mh_from (inMailHdr t), mh_length := int (length ''Got it!'') + 1\<rparr>) ''Got it!'' Sending_ack s
   | Sending_ack ok \<Rightarrow> sent_step ok Receive_ack s
   | Receive_ack \<Rightarrow> receive_step 1 MT_halted s
   | MT_halted \<Rightarrow> Inr None)"

section \<open>Two machines\<close>

text \<open>
  The machines are numbered by truth values; \<open>addr\<close> gives their addresses. A machine that has not halted runs
  its program, or its postal worker, or takes an interrupt, or does something that concerns neither the
  devices nor the pending interrupts.
\<close>

type_synonym pair = "bool \<Rightarrow> MailTester \<times> node"

definition halted :: "pair \<Rightarrow> bool \<Rightarrow> bool" where
  "halted sys i \<longleftrightarrow> mt_pc (fst (sys i)) = MT_halted"

definition put_on_wire :: "byte list option \<Rightarrow> bool \<Rightarrow> pair \<Rightarrow> pair" where
  "put_on_wire wire j sys = (case wire of
     None \<Rightarrow> sys
   | Some pkt \<Rightarrow> sys(j := (fst (sys j), let st = snd (sys j) in
       set_net ((network (po st))\<lparr>socket := socket (network (po st)) @ [pkt]\<rparr>) st)))"

inductive pair_step :: "(bool \<Rightarrow> int) \<Rightarrow> pair \<Rightarrow> pair \<Rightarrow> bool" for addr where
  program: "MailTest_step (\<not> halted sys (\<not> i)) junk (addr (\<not> i)) (sys i) = Inr (Some (s, wire)) \<Longrightarrow> length junk = MaxPacketSize \<Longrightarrow>
    pair_step addr sys (put_on_wire wire (\<not> i) (sys(i := s)))"
| worker: "\<not> halted sys i \<Longrightarrow> PostalDelivery old (snd (sys i)) = Inr (Some st) \<Longrightarrow> pair_step addr sys (sys(i := (fst (sys i), st)))"
| interrupt: "\<not> halted sys i \<Longrightarrow> CheckIfDue run_device adv (snd (sys i)) = Inr (r, st) \<Longrightarrow> pair_step addr sys (sys(i := (fst (sys i), st)))"
| other: "\<not> halted sys i \<Longrightarrow> devs st = devs (snd (sys i)) \<Longrightarrow> pending st = pending (snd (sys i)) \<Longrightarrow> imachine st = imachine (snd (sys i)) \<Longrightarrow>
    pair_step addr sys (sys(i := (fst (sys i), st)))"

inductive pair_reach :: "(bool \<Rightarrow> int) \<Rightarrow> pair \<Rightarrow> bool" for addr where
  boot: "addr True \<noteq> addr False \<Longrightarrow> (\<And>i. is_int32 (addr i)) \<Longrightarrow>
    (\<And>i. \<exists>m d r junkPkt junkMail junkBox. boot_node m d r (addr i) 1 10 junkPkt junkBox = Inr (snd (sys i)) \<and> load_ok m \<and>
       length junkBox \<ge> MaxPacketSize \<and> fst (sys i) = MailTest_begin junkPkt junkMail (drop MaxPacketSize junkBox)) \<Longrightarrow>
    pair_reach addr sys"
| step: "pair_reach addr sys \<Longrightarrow> pair_step addr sys sys' \<Longrightarrow> pair_reach addr sys'"

section \<open>One machine\<close>

text \<open>
  A machine with address \<open>a\<close> at which \<open>arr\<close> has arrived and \<open>rcv\<close> was received; \<open>w\<close>: its program waits in \<^verbatim>\<open>Send\<close>.
\<close>

abbreviation (input) to_fire :: "node \<Rightarrow> Handler multiset" where
  "to_fire st \<equiv> waiting (keyed_items (pending st))"

definition station :: "int \<Rightarrow> Mail list \<Rightarrow> (int \<times> Mail) list \<Rightarrow> bool \<Rightarrow> node \<Rightarrow> bool" where
  "station a arr rcv w st \<longleftrightarrow> intr_wf st \<and> ident (network (po st)) = a \<and> netAddr (po st) = a \<and> chanceToWork (network (po st)) = 1 \<and>
     \<not> sendBusy (network (po st)) \<and> length (boxes (po st)) = 10 \<and> mail_inv arr rcv (po st) \<and>
     count (to_fire st) NetworkReadPoll = 1 \<and> count (to_fire st) NetworkSendDone + messageSent (po st) = of_bool w"

text \<open>What of the post office the invariant depends on.\<close>

definition same_settings :: "PostOffice \<Rightarrow> PostOffice \<Rightarrow> bool" where
  "same_settings p q \<longleftrightarrow> ident (network q) = ident (network p) \<and> netAddr q = netAddr p \<and> chanceToWork (network q) = chanceToWork (network p) \<and>
     length (boxes q) = length (boxes p)"

lemma same_settings_refl [simp]: "same_settings p p"
  by (simp add: same_settings_def)

lemma Schedule_waiting:
  assumes "intr_wf st" "Schedule h a n ty st = Inr st'"
  shows "intr_wf st' \<and> devs st' = devs st \<and> imachine st' = imachine st \<and> waiting (keyed_items (pending st')) = add_mset h (waiting (keyed_items (pending st)))"
proof -
  have n: "0 < n" using assms(2) by (auto simp: Schedule_def Let_def split: if_splits)
  from Schedule_ok [OF assms(1) n, of h a ty] assms(2) obtain l where
    l: "st' = st\<lparr>pending := l\<rparr>" "intr_wf (st\<lparr>pending := l\<rparr>)"
      "keyed_items l = insert_all [(\<lparr>pi_handler = h, pi_arg = a, pi_when = totalTime st + n, pi_type = ty\<rparr>, totalTime st + n)]
        (keyed_items (pending st))" by auto
  have "sorted (map snd (keyed_items (pending st)))" using assms(1) by (simp add: intr_wf_def)
  then show ?thesis using l by (simp add: waiting_insert_all)
qed

lemma set_po_imachine: "imachine (set_po p st) = imachine st"
  by (simp add: set_po_def)

text \<open>A handler that runs, for the interrupt it was taken off the list.\<close>

lemma run_device_effect:
  assumes wf: "intr_wf st" and r: "run_device h a st = Inr st'"
  shows "intr_wf st' \<and> same_settings (po st) (po st') \<and> to_fire st' = to_fire st + again h \<and> imachine st' = imachine st \<and>
    (case h of
       TimerHandler \<Rightarrow> po st' = po st
     | NetworkReadPoll \<Rightarrow> CheckPktAvail st = Inr st' \<and> sendBusy (network (po st')) = sendBusy (network (po st)) \<and>
         messageSent (po st') = messageSent (po st)
     | NetworkSendDone \<Rightarrow> same_mail (po st) (po st') \<and> \<not> sendBusy (network (po st')) \<and> messageSent (po st') = messageSent (po st) + 1)"
proof (cases h)
  case TimerHandler
  obtain x st1 where x: "Random st = (x, st1)" by fastforce
  note s = Random_simps [OF x]
  from r TimerHandler x obtain st2 where s2: "Schedule TimerHandler 0 (TimeOfNextInterrupt x (timer (devs st1))) TimerInt st1 = Inr st2"
    "TimerInterruptHandler st2 = Inr st'" by (auto simp: run_device_def TimerExpired_def bindR_eq_Inr_iff)
  have "intr_wf st1" using s wf by simp
  note e = Schedule_waiting [OF this s2(1)]
  have st': "st' = st2 \<or> st' = st2\<lparr>yieldOnReturn := True\<rparr>"
    using s2(2) by (auto simp: TimerInterruptHandler_def YieldOnReturn_def split: if_splits)
  then have d: "pending st' = pending st2" "devs st' = devs st2" "imachine st' = imachine st2" by auto
  have "intr_wf st'" using conjunct1 [OF e] d by (simp add: intr_wf_def)
  moreover have "po st' = po st1" using e d by (simp add: po_def)
  ultimately have "intr_wf st'" "to_fire st' = add_mset TimerHandler (to_fire st)" "po st' = po st" using e d s by simp_all
  moreover have "imachine st' = imachine st" using e d x by (auto simp: Random_def)
  ultimately show ?thesis using TimerHandler by (simp add: again_def)
next
  case NetworkReadPoll
  with r have c: "CheckPktAvail st = Inr st'" by (simp add: run_device_def)
  then obtain st1 where s1: "Schedule NetworkReadPoll 0 NetworkTime NetworkRecvInt st = Inr st1"
    by (auto simp: CheckPktAvail_def bindR_eq_Inr_iff)
  note e = Schedule_waiting [OF wf s1]
  have "po st1 = po st" using e by (simp add: po_def)
  then have "intr_wf st' \<and> pending st' = pending st1 \<and> imachine st' = imachine st1 \<and> same_settings (po st) (po st') \<and> sendBusy (network (po st')) = sendBusy (network (po st)) \<and>
      messageSent (po st') = messageSent (po st)"
    using c s1 e by (auto simp: CheckPktAvail_def Let_def IncomingPacket_def set_net_def set_po_imachine same_settings_def split: if_splits list.splits)
  then show ?thesis using e c NetworkReadPoll by (simp add: again_def)
next
  case NetworkSendDone
  then have "st' = SendDone st" using r by (simp add: run_device_def)
  then show ?thesis using wf NetworkSendDone
    by (simp add: SendDone_def PacketSent_def set_net_def set_po_imachine same_settings_def same_mail_def again_def)
qed

lemma station_cong:
  assumes "station a arr rcv w st" "intr_wf st'" "same_settings (po st) (po st')" "mail_inv arr rcv (po st')" "\<not> sendBusy (network (po st'))"
    "count (to_fire st') NetworkReadPoll = count (to_fire st) NetworkReadPoll"
    "count (to_fire st') NetworkSendDone + messageSent (po st') = count (to_fire st) NetworkSendDone + messageSent (po st)"
  shows "station a arr rcv w st'"
  using assms by (simp add: station_def same_settings_def)

lemma station_other:
  assumes "station a arr rcv w st" "devs st' = devs st" "pending st' = pending st" "imachine st' = imachine st"
  shows "station a arr rcv w st'"
  using assms by (simp add: station_def po_def intr_wf_def)

lemma station_interrupt:
  assumes i: "station a arr rcv w st" and c: "CheckIfDue run_device adv st = Inr (r, st')"
  shows "station a arr rcv w st'"
proof (cases r)
  case None
  have "intr_wf st" using i by (simp add: station_def)
  from CheckIfDue_quiet [OF this, of run_device adv st'] c None
  have q: "to_fire st' = to_fire st" "intr_wf st'" "po st' = po st" by (auto simp: po_def intro: waiting_cong)
  show ?thesis by (rule station_cong [OF i]) (use q i in \<open>simp_all add: same_settings_def station_def\<close>)
next
  case (Some p)
  have wf: "intr_wf st" using i by (simp add: station_def)
  from CheckIfDue_fired [OF wf, of run_device adv p st'] c Some obtain k xs st0 st1 where
    f: "keyed_items (pending st) = (p, k) # xs" "keyed_items (pending st0) = xs" "intr_wf st0" "devs st0 = devs st"
      "run_device (pi_handler p) (pi_arg p) st0 = Inr st1" "pending st' = pending st1" "devs st' = devs st1" "imachine st' = imachine st1"
    by blast
  note e = run_device_effect [OF f(3,5)]
  have po: "po st0 = po st" "po st' = po st1" using f(4,7) by (simp_all add: po_def)
  have t: "to_fire st' + {#pi_handler p#} = to_fire st + again (pi_handler p)" using f(1,2,6) e by simp
  have m: "mail_inv arr rcv (po st0)" "\<not> sendBusy (network (po st0))" using i po by (simp_all add: station_def)
  have wf': "intr_wf st'" using conjunct1 [OF e] f(6,8) by (simp add: intr_wf_def)
  show ?thesis
  proof (cases "pi_handler p")
    case TimerHandler
    then show ?thesis using t e m po wf' by (intro station_cong [OF i]) (simp_all add: again_def)
  next
    case NetworkReadPoll
    then have "mail_inv arr rcv (po st1)" using e mail_inv_poll [OF m(1)] by simp
    then show ?thesis using t e m po wf' NetworkReadPoll by (intro station_cong [OF i]) (simp_all add: again_def)
  next
    case NetworkSendDone
    then have "mail_inv arr rcv (po st1)" using e mail_inv_same [OF m(1)] by simp
    then show ?thesis using arg_cong [OF t, of "\<lambda>M. count M NetworkSendDone"] arg_cong [OF t, of "\<lambda>M. count M NetworkReadPoll"]
        e po wf' NetworkSendDone by (intro station_cong [OF i]) (simp_all add: again_def)
  qed
qed

lemma station_worker:
  assumes i: "station a arr rcv w st" and d: "PostalDelivery old st = Inr (Some st')"
  shows "station a arr rcv w st'"
proof -
  have m: "mail_inv arr rcv (po st')" using i mail_inv_deliver [OF _ d] by (simp add: station_def)
  have av: "messageAvailable (po st) \<noteq> 0" using d by (simp add: PostalDelivery_def split: if_splits)
  from d obtain b x where "st' = set_po (delivered b x (po st)) st" unfolding PostalDelivery_form [OF av] Let_def
    by (auto simp: bindR_eq_Inr_iff split: if_splits)
  then show ?thesis using i m by (intro station_cong [OF i]) (simp_all add: station_def delivered_def same_settings_def)
qed

lemma station_sent:
  assumes i: "station a arr rcv True st" and s: "Send_wait st = Some st'"
  shows "station a arr rcv False st' \<and> same_mail (po st) (po st') \<and> pending st' = pending st"
proof -
  from s have st': "messageSent (po st) \<noteq> 0" "st' = set_po ((po st)\<lparr>messageSent := messageSent (po st) - 1\<rparr>) st"
    by (auto simp: Send_wait_def split: if_splits)
  then have e: "same_mail (po st) (po st')" by (simp add: same_mail_def)
  then have "mail_inv arr rcv (po st')" using i mail_inv_same by (auto simp: station_def)
  then show ?thesis using i e st' by (auto simp: station_def)
qed

lemma station_receive:
  assumes i: "station a arr rcv w st" and r: "PostOffice_Receive b st = Inr (Some (m, st'))"
  shows "station a arr (rcv @ [(b, m)]) w st' \<and> pending st' = pending st \<and> network (po st') = network (po st) \<and>
    messageAvailable (po st') = messageAvailable (po st)"
proof -
  have m: "mail_inv arr (rcv @ [(b, m)]) (po st')" using i mail_inv_receive [OF _ r] by (simp add: station_def)
  from r obtain ms where "st' = set_po ((po st)\<lparr>boxes := (boxes (po st))[nat b := ms]\<rparr>) st"
    by (auto simp: PostOffice_Receive_def MailBox_Get_def split: if_splits option.splits list.splits)
  then show ?thesis using i m by (auto simp: station_def)
qed

lemma station_arrive:
  assumes i: "station a arr rcv w st" and m: "mail_packet 10 a pkt"
  shows "station a (arr @ [mail_of_packet pkt]) rcv w (set_net ((network (po st))\<lparr>socket := socket (network (po st)) @ [pkt]\<rparr>) st)"
proof -
  have "mail_packet (length (boxes (po st))) (ident (network (po st))) pkt" using i m by (simp add: station_def)
  then have "mail_inv (arr @ [mail_of_packet pkt]) rcv (po (set_net ((network (po st))\<lparr>socket := socket (network (po st)) @ [pkt]\<rparr>) st))"
    using i by (intro mail_inv_arrive) (simp_all add: station_def)
  then show ?thesis using i by (simp add: station_def set_net_def)
qed

lemma station_send:
  assumes i: "station a arr rcv False st"
    and hdr: "0 \<le> mh_to hdr" "mh_to hdr < 10" "0 \<le> mh_length hdr" "mh_length hdr \<le> 40"
  shows "\<exists>pkt st'. PostOffice_Send True junk ph hdr data st = Inr (True, Some pkt, st') \<and> station a arr rcv True st' \<and>
    po st' = po st \<and> to_fire st' = add_mset NetworkSendDone (to_fire st)"
proof -
  have wf: "intr_wf st" using i by (simp add: station_def)
  from Schedule_ok [OF wf, of 100 NetworkSendDone 0 NetworkSendInt] obtain l where
    l: "Schedule NetworkSendDone 0 100 NetworkSendInt st = Inr (st\<lparr>pending := l\<rparr>)" by auto
  let ?st = "st\<lparr>pending := l\<rparr>"
  obtain x st' where x: "Random ?st = (x, st')" by fastforce
  note s = Random_simps [OF x] and e = Schedule_waiting [OF wf l]
  have "of_nat (x mod 100) < (100 :: rat)" by simp
  then have c: "\<not> of_nat (x mod 100) \<ge> chanceToWork (network (po st)) * (100 :: rat)" using i unfolding station_def by simp
  have "\<exists>pkt. PostOffice_Send True junk ph hdr data st = Inr (True, Some pkt, st')"
    using i l x c hdr unfolding PostOffice_Send_def Network_Send_def Let_def by (simp add: station_def)
  moreover have "po st' = po st" "intr_wf st'" "to_fire st' = add_mset NetworkSendDone (to_fire st)" using s e by (simp_all add: po_def)
  moreover from this have "station a arr rcv True st'" using i by (simp add: station_def)
  ultimately show ?thesis by blast
qed

lemma station_boot:
  assumes b: "boot_node m d r a 1 10 junkHdr junkBox = Inr st" and m: "load_ok m" and l: "length junkBox \<ge> MaxPacketSize"
  shows "station a [] [] False st"
proof -
  have c: "clock_inv st" by (rule clock_inv_boot [OF b m])
  from b obtain s1 s2 where s1: "Schedule TimerHandler 0 (TimeOfNextInterrupt r (timer d)) TimerInt (new_Interrupt m d :: node) = Inr s1"
    "Schedule NetworkReadPoll 0 100 NetworkRecvInt s2 = Inr st"
    "s2 = set_po \<lparr>netAddr = a, network = new_Network a 1 junkHdr junkBox, boxes = replicate 10 [], messageAvailable = 0, messageSent = 0\<rparr> s1"
    by (auto simp: boot_node_def new_Timer_def new_PostOffice_def bindR_eq_Inr_iff)
  have wf: "intr_wf (new_Interrupt m d :: node)" "to_fire (new_Interrupt m d) = {#}"
    using m by (simp_all add: new_Interrupt_def intr_wf_def nonnull_inv_new keyed_items_new)
  note e1 = Schedule_waiting [OF wf(1) s1(1)]
  have "intr_wf s2" using e1 s1(3) by simp
  note e2 = Schedule_waiting [OF this s1(2)]
  have w: "to_fire st = {#NetworkReadPoll, TimerHandler#}" using e1 e2 wf(2) s1(3) by simp
  have p: "po st = \<lparr>netAddr = a, network = new_Network a 1 junkHdr junkBox, boxes = replicate 10 [], messageAvailable = 0, messageSent = 0\<rparr>"
    using e2 s1(3) by (simp add: po_def set_po_def)
  have "no_mail st" using l by (simp add: no_mail_def p new_Network_def)
  then have "mail_inv [] [] (po st)" using mail_run_inv mail_run.start by blast
  then show ?thesis using conjunct1 [OF e2] w p by (simp add: station_def new_Network_def)
qed

section \<open>Both machines\<close>

text \<open>The mail each machine sends, what it has sent and received at each point of its program, and what it has printed.\<close>

definition hello_mail :: "(bool \<Rightarrow> int) \<Rightarrow> bool \<Rightarrow> Mail" where
  "hello_mail addr i = \<lparr>m_pkt = \<lparr>ph_to = addr (\<not> i), ph_from = addr i, ph_length = 25\<rparr>,
     m_hdr = \<lparr>mh_to = 0, mh_from = 1, mh_length = 13\<rparr>, m_data = c_string ''Hello there!''\<rparr>"

definition ack_mail :: "(bool \<Rightarrow> int) \<Rightarrow> bool \<Rightarrow> Mail" where
  "ack_mail addr i = \<lparr>m_pkt = \<lparr>ph_to = addr (\<not> i), ph_from = addr i, ph_length = 20\<rparr>,
     m_hdr = \<lparr>mh_to = 1, mh_from = 1, mh_length = 8\<rparr>, m_data = c_string ''Got it!''\<rparr>"

definition sent_mail :: "(bool \<Rightarrow> int) \<Rightarrow> bool \<Rightarrow> MT_pc \<Rightarrow> Mail list" where
  "sent_mail addr i pc = (case pc of
     Send_hello \<Rightarrow> []
   | Sending_hello ok \<Rightarrow> [hello_mail addr i]
   | Receive_hello \<Rightarrow> [hello_mail addr i]
   | Send_ack \<Rightarrow> [hello_mail addr i]
   | _ \<Rightarrow> [hello_mail addr i, ack_mail addr i])"

definition received_mail :: "(bool \<Rightarrow> int) \<Rightarrow> bool \<Rightarrow> MT_pc \<Rightarrow> (int \<times> Mail) list" where
  "received_mail addr i pc = (case pc of
     Send_hello \<Rightarrow> []
   | Sending_hello ok \<Rightarrow> []
   | Receive_hello \<Rightarrow> []
   | MT_halted \<Rightarrow> [(0, hello_mail addr (\<not> i)), (1, ack_mail addr (\<not> i))]
   | _ \<Rightarrow> [(0, hello_mail addr (\<not> i))])"

definition mail_lines :: "(bool \<Rightarrow> int) \<Rightarrow> bool \<Rightarrow> MT_line list" where
  "mail_lines addr i = [Got (map of_char ''Hello there!'') (addr (\<not> i)) 1, Got (map of_char ''Got it!'') (addr (\<not> i)) 1]"

text \<open>Machine \<open>i\<close>, when the program of the other one is at \<open>pc'\<close>.\<close>

definition member :: "(bool \<Rightarrow> int) \<Rightarrow> bool \<Rightarrow> MT_pc \<Rightarrow> MailTester \<times> node \<Rightarrow> bool" where
  "member addr i pc' = (\<lambda>(t, st).
     station (addr i) (sent_mail addr (\<not> i) pc') (received_mail addr i (mt_pc t))
       (mt_pc t \<in> {Sending_hello True, Sending_ack True}) st \<and>
     mt_pc t \<notin> {Sending_hello False, Sending_ack False} \<and>
     printed t = take (length (received_mail addr i (mt_pc t))) (mail_lines addr i) \<and>
     (mt_pc t \<noteq> Send_hello \<longrightarrow> mh_from (outMailHdr t) = 1) \<and>
     (mt_pc t = Send_ack \<longrightarrow> inPktHdr t = m_pkt (hello_mail addr (\<not> i)) \<and> inMailHdr t = m_hdr (hello_mail addr (\<not> i))))"

abbreviation (input) pc_of :: "pair \<Rightarrow> bool \<Rightarrow> MT_pc" where
  "pc_of sys i \<equiv> mt_pc (fst (sys i))"

definition pair_inv :: "(bool \<Rightarrow> int) \<Rightarrow> pair \<Rightarrow> bool" where
  "pair_inv addr sys \<longleftrightarrow> (\<forall>i. is_int32 (addr i) \<and> member addr i (pc_of sys (\<not> i)) (sys i))"

lemmas mail_defs = sent_mail_def received_mail_def mail_lines_def

lemma box_of_mail [simp]:
  "box_of b (hello_mail addr i) \<longleftrightarrow> b = 0" "box_of b (ack_mail addr i) \<longleftrightarrow> b = 1"
  by (auto simp: box_of_def hello_mail_def ack_mail_def)

lemma pair_members:
  assumes "pair_inv addr sys"
  shows "member addr i (pc_of sys (\<not> i)) (sys i)" "member addr (\<not> i) (pc_of sys i) (sys (\<not> i))" "is_int32 (addr i)"
  using assms spec [of "\<lambda>i. is_int32 (addr i) \<and> member addr i (pc_of sys (\<not> i)) (sys i)" "\<not> i"] by (simp_all add: pair_inv_def)

lemma pair_invI:
  assumes "\<And>j. is_int32 (addr j)" "member addr i (pc_of sys (\<not> i)) (sys i)" "member addr (\<not> i) (pc_of sys i) (sys (\<not> i))"
  shows "pair_inv addr sys"
  unfolding pair_inv_def
proof
  fix j
  show "is_int32 (addr j) \<and> member addr j (pc_of sys (\<not> j)) (sys j)" using assms by (cases "j = i") auto
qed

lemma pair_update:
  assumes "pair_inv addr sys" "member addr i (pc_of sys (\<not> i)) s" "sent_mail addr i (mt_pc (fst s)) = sent_mail addr i (pc_of sys i)"
  shows "pair_inv addr (sys(i := s))"
proof (rule pair_invI [where i = i])
  show "member addr (\<not> i) (pc_of (sys(i := s)) i) ((sys(i := s)) (\<not> i))"
    using pair_members(2) [OF assms(1), of i] assms(3) by (simp add: member_def)
qed (use assms pair_members [OF assms(1)] in auto)

lemma station_box:
  assumes "station a arr rcv w st" "b \<in> {0, 1}"
  shows "\<exists>coming. filter (box_of b) arr = map snd (filter (\<lambda>r. fst r = b) rcv) @ boxes (po st) ! nat b @ coming \<and>
    (messageAvailable (po st) = 0 \<longrightarrow> socket (network (po st)) = [] \<longrightarrow> coming = [])"
proof -
  have b: "nat b < length (boxes (po st))" "int (nat b) = b" using assms by (auto simp: station_def)
  from assms(1) b obtain cur where c: "in_device cur (po st)"
    "filter (box_of b) arr = map snd (filter (\<lambda>r. fst r = b) rcv) @ boxes (po st) ! nat b @
          filter (box_of b) (map mail_of_packet (cur @ socket (network (po st))))"
    unfolding station_def mail_inv_def by metis
  have "messageAvailable (po st) = 0 \<longrightarrow> cur = []" using c(1) by (simp add: in_device_def)
  then show ?thesis using c(2) by (intro exI conjI) auto
qed

text \<open>A machine that halts has got all mail of the other one.\<close>

lemma halted_later:
  assumes "pair_inv addr sys" "pc_of sys i \<in> {Send_hello, Send_ack}"
  shows "\<not> halted sys (\<not> i)"
proof
  assume h: "halted sys (\<not> i)"
  note pair_members(2) [OF assms(1), of i]
  then have "station (addr (\<not> i)) (sent_mail addr i (pc_of sys i)) (received_mail addr (\<not> i) MT_halted) False (snd (sys (\<not> i)))"
    using h by (simp add: member_def halted_def split_beta)
  from station_box [OF this, of 1] show False using assms(2) by (auto simp: mail_defs)
qed

lemma member_send:
  assumes m: "member addr i pc' (t, st)" and ints: "\<And>j. is_int32 (addr j)"
    and hdr: "mh_to hdr = 0 \<or> mh_to hdr = 1" "mh_from hdr = 1" "mh_length hdr = int (length msg) + 1" "length msg < 40"
    and pkt: "ph_to ph = addr (\<not> i)" and junk: "length junk = MaxPacketSize"
    and pc: "mt_pc t \<in> {Send_hello, Send_ack}" "pc True \<in> {Sending_hello True, Sending_ack True}"
      "received_mail addr i (pc True) = received_mail addr i (mt_pc t)"
  shows "\<exists>w s. send_step True junk ph hdr msg pc (t, st) = Inr (Some (s, Some w)) \<and> member addr i pc' s \<and> mt_pc (fst s) = pc True \<and>
    mail_packet 10 (addr (\<not> i)) w \<and>
    mail_of_packet w = \<lparr>m_pkt = \<lparr>ph_to = addr (\<not> i), ph_from = addr i, ph_length = mh_length hdr + 12\<rparr>, m_hdr = hdr, m_data = c_string msg\<rparr> \<and>
    po (snd s) = po st \<and> to_fire (snd s) = add_mset NetworkSendDone (to_fire st)"
proof -
  have st: "station (addr i) (sent_mail addr (\<not> i) pc') (received_mail addr i (mt_pc t)) False st" using m pc(1) by (auto simp: member_def)
  have "0 \<le> mh_to hdr" "mh_to hdr < 10" "0 \<le> mh_length hdr" "mh_length hdr \<le> 40" using hdr by auto
  from station_send [OF st this, of junk ph "c_string msg"] obtain w st' where
    w: "PostOffice_Send True junk ph hdr (c_string msg) st = Inr (True, Some w, st')"
      "station (addr i) (sent_mail addr (\<not> i) pc') (received_mail addr i (mt_pc t)) True st'" "po st' = po st"
      "to_fire st' = add_mset NetworkSendDone (to_fire st)" by blast
  let ?t = "t\<lparr>outPktHdr := ph, outMailHdr := hdr, mt_pc := pc True\<rparr>"
  have "is_int32 (mh_to hdr)" "is_int32 (mh_from hdr)" using hdr by (auto simp: is_int32_def)
  moreover have a: "ident (network (po st)) = addr i" "length (boxes (po st)) = 10" using st by (simp_all add: station_def)
  ultimately have "mail_packet 10 (addr (\<not> i)) w \<and>
    mail_of_packet w = \<lparr>m_pkt = ph\<lparr>ph_from := addr i, ph_length := mh_length hdr + 12\<rparr>, m_hdr = hdr, m_data = c_string msg\<rparr>"
    using mail_sent_intact [OF w(1)] ints hdr(3) pkt junk by (simp add: c_string_def)
  moreover have "ph\<lparr>ph_from := addr i, ph_length := mh_length hdr + 12\<rparr> = \<lparr>ph_to = addr (\<not> i), ph_from = addr i, ph_length = mh_length hdr + 12\<rparr>"
    using pkt by (cases ph) simp
  moreover have "send_step True junk ph hdr msg pc (t, st) = Inr (Some ((?t, st'), Some w))" by (simp add: send_step_def w(1))
  moreover have "member addr i pc' (?t, st')" using m w(2) pc hdr(2) by (auto simp: member_def)
  ultimately show ?thesis using w(3,4) by (intro exI [of _ w] exI [of _ "(?t, st')"]) simp
qed

text \<open>
  How much is left to do: program steps, packets to be taken from the socket and to be delivered, and interrupts that tell
  that a packet was sent.
\<close>

definition steps_left :: "MT_pc \<Rightarrow> nat" where
  "steps_left pc = (case pc of Send_hello \<Rightarrow> 6 | Sending_hello ok \<Rightarrow> 5 | Receive_hello \<Rightarrow> 4 | Send_ack \<Rightarrow> 3 | Sending_ack ok \<Rightarrow> 2
     | Receive_ack \<Rightarrow> 1 | MT_halted \<Rightarrow> 0)"

definition device_weight :: "node \<Rightarrow> nat" where
  "device_weight st = 2 * length (socket (network (po st))) + messageAvailable (po st) + count (to_fire st) NetworkSendDone"

definition member_weight :: "MailTester \<times> node \<Rightarrow> nat" where
  "member_weight = (\<lambda>(t, st). if mt_pc t = MT_halted then 0 else 10 * steps_left (mt_pc t) + device_weight st)"

definition pair_weight :: "pair \<Rightarrow> nat" where
  "pair_weight sys = member_weight (sys True) + member_weight (sys False)"

lemma pair_weight_at: "pair_weight sys = member_weight (sys i) + member_weight (sys (\<not> i))"
  by (cases i) (simp_all add: pair_weight_def)

lemma pair_weight_update: "member_weight s < member_weight (sys i) \<Longrightarrow> pair_weight (sys(i := s)) < pair_weight sys"
  by (cases i) (simp_all add: pair_weight_def)

lemma program_send:
  assumes inv: "pair_inv addr sys" and pc: "pc_of sys i \<in> {Send_hello, Send_ack}" and junk: "length junk = MaxPacketSize"
  shows "\<exists>s w. MailTest_step (\<not> halted sys (\<not> i)) junk (addr (\<not> i)) (sys i) = Inr (Some (s, Some w)) \<and>
    pair_inv addr (put_on_wire (Some w) (\<not> i) (sys(i := s))) \<and>
    pair_weight (put_on_wire (Some w) (\<not> i) (sys(i := s))) < pair_weight sys"
proof -
  obtain t st where s: "sys i = (t, st)" by fastforce
  have m: "member addr i (pc_of sys (\<not> i)) (t, st)" and ints: "\<And>j. is_int32 (addr j)"
    using pair_members [OF inv] s by metis+
  have up: "\<not> halted sys (\<not> i)" by (rule halted_later [OF inv pc])
  have "\<exists>w s. MailTest_step True junk (addr (\<not> i)) (t, st) = Inr (Some (s, Some w)) \<and> member addr i (pc_of sys (\<not> i)) s \<and>
      mail_packet 10 (addr (\<not> i)) w \<and> sent_mail addr i (mt_pc (fst s)) = sent_mail addr i (mt_pc t) @ [mail_of_packet w] \<and>
      Suc (steps_left (mt_pc (fst s))) = steps_left (mt_pc t) \<and> mt_pc (fst s) \<noteq> MT_halted \<and>
      po (snd s) = po st \<and> to_fire (snd s) = add_mset NetworkSendDone (to_fire st)"
  proof (cases "mt_pc t")
    case Send_hello
    from member_send [OF m ints, where hdr = "\<lparr>mh_to = 0, mh_from = 1, mh_length = 13\<rparr>" and msg = "''Hello there!''"
        and ph = "(outPktHdr t)\<lparr>ph_to := addr (\<not> i)\<rparr>" and pc = Sending_hello, OF _ _ _ _ _ junk]
    obtain w s where "send_step True junk ((outPktHdr t)\<lparr>ph_to := addr (\<not> i)\<rparr>) \<lparr>mh_to = 0, mh_from = 1, mh_length = 13\<rparr> ''Hello there!''
        Sending_hello (t, st) = Inr (Some (s, Some w))" "member addr i (pc_of sys (\<not> i)) s" "mt_pc (fst s) = Sending_hello True"
      "mail_packet 10 (addr (\<not> i)) w" "mail_of_packet w = hello_mail addr i" "po (snd s) = po st"
      "to_fire (snd s) = add_mset NetworkSendDone (to_fire st)"
      using Send_hello by (auto simp: mail_defs hello_mail_def)
    then show ?thesis using Send_hello by (intro exI [of _ w] exI [of _ s]) (simp add: MailTest_step_def mail_defs steps_left_def)
  next
    case Send_ack
    then have h: "inPktHdr t = m_pkt (hello_mail addr (\<not> i))" "inMailHdr t = m_hdr (hello_mail addr (\<not> i))" "mh_from (outMailHdr t) = 1"
      using m by (auto simp: member_def)
    have hd: "(outMailHdr t)\<lparr>mh_to := 1, mh_length := 8\<rparr> = \<lparr>mh_to = 1, mh_from = 1, mh_length = 8\<rparr>" using h(3) by (cases "outMailHdr t") simp
    from member_send [OF m ints, where hdr = "\<lparr>mh_to = 1, mh_from = 1, mh_length = 8\<rparr>" and msg = "''Got it!''"
        and ph = "(outPktHdr t)\<lparr>ph_to := addr (\<not> i)\<rparr>" and pc = Sending_ack, OF _ _ _ _ _ junk]
    obtain w s where "send_step True junk ((outPktHdr t)\<lparr>ph_to := addr (\<not> i)\<rparr>) \<lparr>mh_to = 1, mh_from = 1, mh_length = 8\<rparr> ''Got it!''
        Sending_ack (t, st) = Inr (Some (s, Some w))" "member addr i (pc_of sys (\<not> i)) s" "mt_pc (fst s) = Sending_ack True"
      "mail_packet 10 (addr (\<not> i)) w" "mail_of_packet w = ack_mail addr i" "po (snd s) = po st"
      "to_fire (snd s) = add_mset NetworkSendDone (to_fire st)"
      using Send_ack by (auto simp: mail_defs ack_mail_def)
    then show ?thesis using Send_ack h(1,2) hd by (intro exI [of _ w] exI [of _ s])
      (simp add: MailTest_step_def mail_defs steps_left_def hello_mail_def)
  qed (use pc s in auto)
  then obtain w s1 where w: "MailTest_step True junk (addr (\<not> i)) (t, st) = Inr (Some (s1, Some w))" "member addr i (pc_of sys (\<not> i)) s1"
    "mail_packet 10 (addr (\<not> i)) w" "sent_mail addr i (mt_pc (fst s1)) = sent_mail addr i (mt_pc t) @ [mail_of_packet w]"
    "Suc (steps_left (mt_pc (fst s1))) = steps_left (mt_pc t)" "mt_pc (fst s1) \<noteq> MT_halted"
    "po (snd s1) = po st" "to_fire (snd s1) = add_mset NetworkSendDone (to_fire st)" by blast
  obtain t2 st2 where s2: "sys (\<not> i) = (t2, st2)" by fastforce
  let ?st2 = "set_net ((network (po st2))\<lparr>socket := socket (network (po st2)) @ [w]\<rparr>) st2"
  have sys': "put_on_wire (Some w) (\<not> i) (sys(i := s1)) = sys(i := s1, \<not> i := (t2, ?st2))" by (simp add: put_on_wire_def s2 Let_def)
  have m2: "member addr (\<not> i) (mt_pc t) (t2, st2)" using pair_members(2) [OF inv, of i] s s2 by simp
  then have "member addr (\<not> i) (mt_pc (fst s1)) (t2, ?st2)"
    using station_arrive [OF _ w(3)] w(4) by (auto simp: member_def)
  then have "pair_inv addr (sys(i := s1, \<not> i := (t2, ?st2)))"
    using ints w(2) s2 by (intro pair_invI [where i = i]) simp_all
  moreover have "device_weight ?st2 = device_weight st2 + 2" by (simp add: device_weight_def set_net_def)
  then have "member_weight (t2, ?st2) \<le> member_weight (t2, st2) + 2" by (simp add: member_weight_def)
  moreover have "member_weight s1 + 9 = member_weight (t, st)"
    using w(5-8) by (cases s1) (auto simp: member_weight_def device_weight_def steps_left_def)
  ultimately show ?thesis using w(1) up s s2
    by (intro exI [of _ s1] exI [of _ w]) (simp add: pair_weight_at [of _ i] sys')
qed

lemma program_wait:
  assumes inv: "pair_inv addr sys" and pc: "pc_of sys i \<in> {Sending_hello ok, Sending_ack ok}"
  shows "(MailTest_step up junk far (sys i) = Inr None \<and> messageSent (po (snd (sys i))) = 0) \<or>
    (\<exists>s. MailTest_step up junk far (sys i) = Inr (Some (s, None)) \<and> pair_inv addr (sys(i := s)) \<and> pair_weight (sys(i := s)) < pair_weight sys)"
proof -
  obtain t st where s: "sys i = (t, st)" by fastforce
  have m: "member addr i (pc_of sys (\<not> i)) (t, st)" using pair_members(1) [OF inv, of i] s by simp
  then have ok: "ok" using pc s by (cases ok) (auto simp: member_def)
  define pc' where "pc' = (if mt_pc t = Sending_hello ok then Receive_hello else Receive_ack)"
  have step: "MailTest_step up junk far (sys i) = sent_step True pc' (t, st)"
    using pc s ok by (auto simp: MailTest_step_def pc'_def)
  show ?thesis
  proof (cases "Send_wait st")
    case None
    then show ?thesis using step s by (auto simp: sent_step_def Send_wait_def split: if_splits)
  next
    case (Some st1)
    have "station (addr i) (sent_mail addr (\<not> i) (pc_of sys (\<not> i))) (received_mail addr i (mt_pc t)) True st"
      using m pc s ok by (auto simp: member_def)
    note st1 = station_sent [OF this Some]
    let ?s = "(t\<lparr>mt_pc := pc'\<rparr>, st1)"
    have r: "received_mail addr i pc' = received_mail addr i (mt_pc t)" "sent_mail addr i pc' = sent_mail addr i (mt_pc t)"
      "Suc (steps_left pc') = steps_left (mt_pc t)" "pc' \<noteq> MT_halted" "mt_pc t \<noteq> MT_halted"
      using pc s by (auto simp: pc'_def mail_defs steps_left_def)
    have "member addr i (pc_of sys (\<not> i)) ?s" using m st1 r pc s by (auto simp: member_def pc'_def)
    then have "pair_inv addr (sys(i := ?s))" using pair_update [OF inv] r(2) s by simp
    moreover have "member_weight ?s < member_weight (sys i)"
      using st1 r s by (simp add: member_weight_def device_weight_def same_mail_def)
    ultimately show ?thesis using step Some by (auto simp: sent_step_def pair_weight_update)
  qed
qed

lemma program_receive:
  assumes inv: "pair_inv addr sys" and pc: "pc_of sys i = (if b = 0 then Receive_hello else Receive_ack)" "b \<in> {0, 1}"
  shows "(MailTest_step up junk far (sys i) = Inr None \<and> boxes (po (snd (sys i))) ! nat b = []) \<or>
    (\<exists>s. MailTest_step up junk far (sys i) = Inr (Some (s, None)) \<and> pair_inv addr (sys(i := s)) \<and> pair_weight (sys(i := s)) < pair_weight sys)"
proof -
  obtain t st where s: "sys i = (t, st)" by fastforce
  have m: "member addr i (pc_of sys (\<not> i)) (t, st)" using pair_members(1) [OF inv, of i] s by simp
  let ?arr = "sent_mail addr (\<not> i) (pc_of sys (\<not> i))" and ?rcv = "received_mail addr i (mt_pc t)"
  have st: "station (addr i) ?arr ?rcv False st" using m pc s by (auto simp: member_def split: if_splits)
  define pc' where "pc' = (if b = 0 then Send_ack else MT_halted)"
  have step: "MailTest_step up junk far (sys i) = receive_step b pc' (t, st)" using pc s by (auto simp: MailTest_step_def pc'_def)
  have box: "nat b < length (boxes (po st))" using st pc(2) by (auto simp: station_def)
  show ?thesis
  proof (cases "boxes (po st) ! nat b")
    case Nil
    then show ?thesis using step s pc(2) box by (auto simp: receive_step_def PostOffice_Receive_def MailBox_Get_def)
  next
    case (Cons x ms)
    from station_box [OF st pc(2)] Cons obtain more where f: "filter (box_of b) ?arr = map snd (filter (\<lambda>r. fst r = b) ?rcv) @ x # more" by auto
    have x: "x = (if b = 0 then hello_mail addr (\<not> i) else ack_mail addr (\<not> i))"
      using f pc s by (auto simp: mail_defs split: MT_pc.splits if_splits)
    then have "mh_length (m_hdr x) \<le> 40" by (simp add: hello_mail_def ack_mail_def)
    then obtain st1 where r: "PostOffice_Receive b st = Inr (Some (x, st1))"
      using Cons pc(2) box by (auto simp: PostOffice_Receive_def MailBox_Get_def)
    note st1 = station_receive [OF st r]
    have "0 \<in> set (m_data x)" "takeWhile (\<lambda>c. c \<noteq> 0) (m_data x @ ys) = map of_char (if b = 0 then ''Hello there!'' else ''Got it!'')" for ys
      using x by (simp_all add: hello_mail_def ack_mail_def c_string_def)
    then obtain t1 where t1: "take_mail x t = Inr t1" "mt_pc t1 = mt_pc t" "outMailHdr t1 = outMailHdr t" "inPktHdr t1 = m_pkt x" "inMailHdr t1 = m_hdr x"
      "printed t1 = printed t @ [Got (map of_char (if b = 0 then ''Hello there!'' else ''Got it!'')) (addr (\<not> i)) 1]"
      using x by (simp add: take_mail_def hello_mail_def ack_mail_def)
    let ?s = "(t1\<lparr>mt_pc := pc'\<rparr>, st1)"
    have rc: "received_mail addr i pc' = ?rcv @ [(b, x)]" "sent_mail addr i pc' = sent_mail addr i (mt_pc t)"
      "steps_left pc' < steps_left (mt_pc t)" "mt_pc t \<noteq> MT_halted" "pc' \<notin> {Sending_hello True, Sending_ack True, Sending_hello False, Sending_ack False}"
      using pc s x by (auto simp: pc'_def mail_defs steps_left_def)
    have "printed t1 = take (length (received_mail addr i pc')) (mail_lines addr i)"
      using m t1(6) pc s by (auto simp: member_def mail_defs pc'_def)
    moreover have "mh_from (outMailHdr t) = 1" using m pc s by (auto simp: member_def)
    ultimately have "member addr i (pc_of sys (\<not> i)) ?s" using st1 rc t1 x by (auto simp: member_def pc'_def)
    then have "pair_inv addr (sys(i := ?s))" using pair_update [OF inv] rc(2) s by simp
    moreover have "member_weight ?s < member_weight (sys i)"
      using st1 rc(3,4) s by (auto simp: member_weight_def device_weight_def)
    ultimately show ?thesis using step r t1(1) by (auto simp: receive_step_def pair_weight_update)
  qed
qed

lemma pair_inv_boot:
  assumes "\<And>i. is_int32 (addr i)" "\<And>i. \<exists>m d r junkPkt junkMail junkBox. boot_node m d r (addr i) 1 10 junkPkt junkBox = Inr (snd (sys i)) \<and> load_ok m \<and>
       length junkBox \<ge> MaxPacketSize \<and> fst (sys i) = MailTest_begin junkPkt junkMail (drop MaxPacketSize junkBox)"
  shows "pair_inv addr sys"
proof -
  have "station (addr i) [] [] False (snd (sys i)) \<and> mt_pc (fst (sys i)) = Send_hello \<and> printed (fst (sys i)) = []" for i
    using assms(2) [of i] station_boot by (auto simp: MailTest_begin_def)
  then show ?thesis using assms(1) by (simp add: pair_inv_def member_def mail_defs split_beta)
qed

lemma pair_inv_device:
  assumes inv: "pair_inv addr sys" and st: "\<And>arr rcv w. station (addr i) arr rcv w (snd (sys i)) \<Longrightarrow> station (addr i) arr rcv w st"
  shows "pair_inv addr (sys(i := (fst (sys i), st)))"
proof (rule pair_update [OF inv])
  show "member addr i (pc_of sys (\<not> i)) (fst (sys i), st)" using pair_members(1) [OF inv, of i] st by (auto simp: member_def split_beta)
qed simp

text \<open>Every step of a program keeps the invariant and makes progress, or the program waits for what its point tells.\<close>

lemma program_step:
  assumes inv: "pair_inv addr sys" and r: "MailTest_step (\<not> halted sys (\<not> i)) junk (addr (\<not> i)) (sys i) = r" and junk: "length junk = MaxPacketSize"
  shows "(\<exists>s wire. r = Inr (Some (s, wire)) \<and> pair_inv addr (put_on_wire wire (\<not> i) (sys(i := s))) \<and>
      pair_weight (put_on_wire wire (\<not> i) (sys(i := s))) < pair_weight sys) \<or>
    r = Inr None \<and>
      (case pc_of sys i of
         Sending_hello ok \<Rightarrow> messageSent (po (snd (sys i))) = 0
       | Sending_ack ok \<Rightarrow> messageSent (po (snd (sys i))) = 0
       | Receive_hello \<Rightarrow> boxes (po (snd (sys i))) ! 0 = []
       | Receive_ack \<Rightarrow> boxes (po (snd (sys i))) ! 1 = []
       | MT_halted \<Rightarrow> True
       | _ \<Rightarrow> False)"
proof -
  have w: "put_on_wire None j sys' = sys'" for j sys' by (simp add: put_on_wire_def)
  let ?up = "\<not> halted sys (\<not> i)"
  show ?thesis
  proof (cases "pc_of sys i")
    case Send_hello
    then show ?thesis using program_send [OF inv _ junk, of i] r by auto
  next
    case Send_ack
    then show ?thesis using program_send [OF inv _ junk, of i] r by auto
  next
    case (Sending_hello ok)
    then show ?thesis using program_wait [OF inv, of i ok ?up junk "addr (\<not> i)"] r w by force
  next
    case (Sending_ack ok)
    then show ?thesis using program_wait [OF inv, of i ok ?up junk "addr (\<not> i)"] r w by force
  next
    case Receive_hello
    then show ?thesis using program_receive [OF inv, of i 0 ?up junk "addr (\<not> i)"] r w by force
  next
    case Receive_ack
    then show ?thesis using program_receive [OF inv, of i 1 ?up junk "addr (\<not> i)"] r w by force
  next
    case MT_halted
    then show ?thesis using r by (simp add: MailTest_step_def)
  qed
qed

lemma pair_inv_step: "pair_step addr sys sys' \<Longrightarrow> pair_inv addr sys \<Longrightarrow> pair_inv addr sys'"
proof (induction rule: pair_step.induct)
  case (program sys i junk s wire)
  from program_step [OF program(3,1,2)] show ?case by auto
next
  case (worker sys i old st)
  then show ?case by (intro pair_inv_device) (auto intro: station_worker)
next
  case (interrupt sys i adv r st)
  then show ?case by (intro pair_inv_device) (auto intro: station_interrupt)
next
  case (other sys i st)
  then show ?case by (intro pair_inv_device) (auto intro: station_other)
qed

lemma pair_reach_inv: "pair_reach addr sys \<Longrightarrow> pair_inv addr sys"
  by (induction rule: pair_reach.induct) (auto intro: pair_inv_boot pair_inv_step)

section \<open>Progress\<close>

text \<open>Interrupts that bring a machine on, and the steps of its clock.\<close>

definition useful :: "Handler \<Rightarrow> node \<Rightarrow> bool" where
  "useful h st \<longleftrightarrow> h = NetworkSendDone \<or>
     h = NetworkReadPoll \<and> socket (network (po st)) \<noteq> [] \<and> ph_length (inHdr (network (po st))) = 0"

lemma station_dev_ok: "station a arr rcv w st \<Longrightarrow> dev_ok (devs st)"
  by (auto simp: station_def dev_ok_po mail_inv_def mail_packet_def list_all_iff)

lemma poll_takes:
  assumes "useful NetworkReadPoll st" "CheckPktAvail st = Inr st'"
  shows "\<exists>pkt. socket (network (po st)) = pkt # socket (network (po st')) \<and> messageAvailable (po st') = messageAvailable (po st) + 1"
proof -
  from assms(2) obtain st1 where s: "Schedule NetworkReadPoll 0 NetworkTime NetworkRecvInt st = Inr st1"
    by (auto simp: CheckPktAvail_def bindR_eq_Inr_iff)
  then have "devs st1 = devs st" by (auto simp: Schedule_def Let_def bindR_eq_Inr_iff split: if_splits)
  then have "po st1 = po st" by (simp add: po_def)
  then show ?thesis using assms s
    by (auto simp: CheckPktAvail_def Let_def useful_def IncomingPacket_def set_net_def split: if_splits list.splits)
qed

lemma useful_fires:
  assumes i: "station a arr rcv w st" and c: "CheckIfDue run_device adv st = Inr (Some p, st')"
  shows "device_weight st' \<le> device_weight st \<and> (useful (pi_handler p) st \<longrightarrow> device_weight st' < device_weight st) \<and>
    (\<not> useful (pi_handler p) st \<longrightarrow> useful h st \<longrightarrow> useful h st')"
proof -
  have wf: "intr_wf st" using i by (simp add: station_def)
  from CheckIfDue_fired [OF wf c] obtain k xs st0 st1 where
    f: "keyed_items (pending st) = (p, k) # xs" "keyed_items (pending st0) = xs" "intr_wf st0" "devs st0 = devs st"
      "run_device (pi_handler p) (pi_arg p) st0 = Inr st1" "pending st' = pending st1" "devs st' = devs st1" by blast
  note e = run_device_effect [OF f(3,5)]
  have po: "po st0 = po st" "po st' = po st1" using f(4,7) by (simp_all add: po_def)
  have t: "to_fire st = add_mset (pi_handler p) (to_fire st0)" "to_fire st' = to_fire st0 + again (pi_handler p)" using f(1,2,6) e by simp_all
  have u: "useful g st0 = useful g st" for g by (simp add: useful_def po)
  show ?thesis
  proof (cases "pi_handler p")
    case TimerHandler
    then show ?thesis using e t po by (simp add: device_weight_def useful_def again_def)
  next
    case NetworkSendDone
    then show ?thesis using e t po by (simp add: device_weight_def useful_def again_def same_mail_def)
  next
    case NetworkReadPoll
    show ?thesis
    proof (cases "useful NetworkReadPoll st")
      case True
      with poll_takes [of st0 st1] e NetworkReadPoll u show ?thesis using t po
        by (auto simp: device_weight_def again_def)
    next
      case False
      then have "same_mail (po st0) (po st1)" using CheckPktAvail_mail [of st0 st1] e NetworkReadPoll po by (auto simp: useful_def)
      then show ?thesis using False NetworkReadPoll t po by (auto simp: device_weight_def again_def same_mail_def useful_def)
    qed
  qed
qed

lemma due_insert_all:
  assumes "sorted (map snd xs)" "later now new"
  shows "length (filter (\<lambda>e. snd e \<le> now) (insert_all new xs)) = length (filter (\<lambda>e. snd e \<le> now) xs)"
proof -
  have "mset (filter (\<lambda>e. snd e \<le> now) (insert_all new xs)) = mset (filter (\<lambda>e. snd e \<le> now) xs)"
    using insert_all_props [OF assms(1), of new] assms(2) by (auto simp: later_def)
  then show ?thesis by (metis size_mset)
qed

lemma device_progress:
  assumes "\<not> halted sys i" "device_weight st \<le> device_weight (snd (sys i))"
  shows "pair_weight (sys(i := (fst (sys i), st))) \<le> pair_weight sys"
    "device_weight st < device_weight (snd (sys i)) \<Longrightarrow> pair_weight (sys(i := (fst (sys i), st))) < pair_weight sys"
proof -
  obtain t st0 where s: "sys i = (t, st0)" by fastforce
  show "pair_weight (sys(i := (fst (sys i), st))) \<le> pair_weight sys"
    "device_weight st < device_weight (snd (sys i)) \<Longrightarrow> pair_weight (sys(i := (fst (sys i), st))) < pair_weight sys"
    using assms s by (simp_all add: pair_weight_at [of _ i] member_weight_def halted_def)
qed

text \<open>
  The clock of a machine that waits runs on until a useful interrupt comes: other ones are put on the list again, but for
  a later time.
\<close>

lemma fire_until:
  "pair_inv addr sys \<Longrightarrow> \<not> halted sys i \<Longrightarrow> (q, k) \<in> set (keyed_items (pending (snd (sys i)))) \<Longrightarrow> useful (pi_handler q) (snd (sys i)) \<Longrightarrow>
     ilevel (snd (sys i)) = IntOff \<Longrightarrow> istatus (snd (sys i)) = SystemMode \<Longrightarrow>
     \<exists>sys'. (pair_step addr)\<^sup>*\<^sup>* sys sys' \<and> pair_weight sys' < pair_weight sys"
proof (induction sys rule: wf_induct_rule [OF wf_measures [where fs = "[\<lambda>sys. nat (k - totalTime (snd (sys i))),
      \<lambda>sys. length (filter (\<lambda>e. snd e \<le> totalTime (snd (sys i))) (keyed_items (pending (snd (sys i)))))]"]])
  case (1 sys)
  let ?st = "snd (sys i)"
  from pair_members(1) [OF 1(2), of i] obtain arr rcv w where st: "station (addr i) arr rcv w ?st" by (auto simp: member_def split_beta)
  have wf: "intr_wf ?st" "sorted (map snd (keyed_items (pending ?st)))" using st by (simp_all add: station_def intr_wf_def)
  from 1(4) obtain p k0 xs where l: "keyed_items (pending ?st) = (p, k0) # xs" by (cases "keyed_items (pending ?st)") auto
  have "istatus ?st \<noteq> IdleMode" using 1(7) by simp
  from machine_devices.next_fires [OF wf(1) station_dev_ok [OF st] 1(6) this l refl] obtain st' new where
    f: "CheckIfDue run_device True ?st = Inr (Some p, st')" "ilevel st' = IntOff" "totalTime st' = max (totalTime ?st) k0"
      "istatus st' = istatus ?st" "later (max (totalTime ?st) k0) new" "keyed_items (pending st') = insert_all new xs" by blast
  note u = useful_fires [OF st f(1)]
  let ?sys = "sys(i := (fst (sys i), st'))"
  have step: "pair_step addr sys ?sys" by (rule pair_step.interrupt [OF 1(3) f(1)])
  show ?case
  proof (cases "useful (pi_handler p) ?st")
    case True
    then show ?thesis using step device_progress(2) [OF 1(3)] u by blast
  next
    case False
    have sx: "sorted (map snd xs)" "k0 \<le> k" using wf(2) l 1(4) by auto
    have "(q, k) \<in> set xs" using 1(4,5) l False by auto
    then have q: "(q, k) \<in> set (keyed_items (pending st'))" using insert_all_sorted_set(2) [OF sx(1), of new] f(6) by simp
    have "(?sys, sys) \<in> measures [\<lambda>sys. nat (k - totalTime (snd (sys i))),
      \<lambda>sys. length (filter (\<lambda>e. snd e \<le> totalTime (snd (sys i))) (keyed_items (pending (snd (sys i)))))]"
    proof (cases "k0 > totalTime ?st")
      case True
      then show ?thesis using f(3) sx(2) by simp
    next
      case later: False
      then have "length (filter (\<lambda>e. snd e \<le> totalTime ?st) (insert_all new xs)) = length (filter (\<lambda>e. snd e \<le> totalTime ?st) xs)"
        using due_insert_all [OF sx(1)] f(5) by (simp add: max_def)
      then show ?thesis using later f(3,6) l by (simp add: max_def)
    qed
    moreover have "pair_inv addr ?sys" by (rule pair_inv_step [OF step 1(2)])
    moreover have "\<not> halted ?sys i" using 1(3) by (simp add: halted_def)
    moreover have "(q, k) \<in> set (keyed_items (pending (snd (?sys i))))" "useful (pi_handler q) (snd (?sys i))"
      "ilevel (snd (?sys i)) = IntOff" "istatus (snd (?sys i)) = SystemMode"
      using u False 1(5,7) q f(2,4) by simp_all
    ultimately have "\<exists>sys'. (pair_step addr)\<^sup>*\<^sup>* ?sys sys' \<and> pair_weight sys' < pair_weight ?sys" by (rule 1(1))
    then obtain sys' where "(pair_step addr)\<^sup>*\<^sup>* ?sys sys'" "pair_weight sys' < pair_weight ?sys" by blast
    moreover have "pair_weight ?sys \<le> pair_weight sys" using device_progress(1) [OF 1(3)] u by blast
    ultimately show ?thesis using converse_rtranclp_into_rtranclp [of "pair_step addr", OF step] by fastforce
  qed
qed

lemma handler_progress:
  assumes inv: "pair_inv addr sys" and i: "\<not> halted sys i" and h: "h \<in># to_fire (snd (sys i))" "useful h (snd (sys i))"
  shows "\<exists>sys'. (pair_step addr)\<^sup>*\<^sup>* sys sys' \<and> pair_weight sys' < pair_weight sys"
proof -
  let ?st = "(snd (sys i))\<lparr>ilevel := IntOff, istatus := SystemMode\<rparr>"
  let ?sys = "sys(i := (fst (sys i), ?st))"
  have step: "pair_step addr sys ?sys" by (rule pair_step.other) (use i in simp_all)
  from h(1) obtain q k where q: "(q, k) \<in> set (keyed_items (pending (snd (sys i))))" "pi_handler q = h"
    by (auto simp: waiting_def)
  have "\<exists>sys'. (pair_step addr)\<^sup>*\<^sup>* ?sys sys' \<and> pair_weight sys' < pair_weight ?sys"
    by (rule fire_until [OF pair_inv_step [OF step inv], of i q k]) (use q h(2) i in \<open>simp_all add: halted_def useful_def po_def\<close>)
  moreover have "pair_weight ?sys \<le> pair_weight sys" by (rule device_progress(1) [OF i]) (simp add: device_weight_def po_def)
  ultimately show ?thesis using converse_rtranclp_into_rtranclp [of "pair_step addr", OF step] by fastforce
qed

lemma mail_progress:
  assumes inv: "pair_inv addr sys" and i: "\<not> halted sys i"
    and c: "messageAvailable (po (snd (sys i))) \<noteq> 0 \<or> socket (network (po (snd (sys i)))) \<noteq> []"
  shows "\<exists>sys'. (pair_step addr)\<^sup>*\<^sup>* sys sys' \<and> pair_weight sys' < pair_weight sys"
proof -
  let ?st = "snd (sys i)"
  from pair_members(1) [OF inv, of i] obtain arr rcv w where st: "station (addr i) arr rcv w ?st" by (auto simp: member_def split_beta)
  from st obtain cur where cur: "in_device cur (po ?st)" by (auto simp: station_def mail_inv_def)
  show ?thesis
  proof (cases "messageAvailable (po ?st) = 0")
    case True
    then have "ph_length (inHdr (network (po ?st))) = 0" using cur by (auto simp: in_device_def)
    moreover have "NetworkReadPoll \<in># to_fire ?st" using st by (simp add: station_def flip: count_greater_zero_iff)
    ultimately show ?thesis using handler_progress [OF inv i, of NetworkReadPoll] c True by (simp add: useful_def)
  next
    case False
    with cur obtain pkt where "cur = [pkt]" using in_device_empty(2) by blast
    with cur obtain b m where d: "PostalDelivery [] ?st = Inr (Some (set_po (delivered b m (po ?st)) ?st))" using PostalDelivery_mail by blast
    have "device_weight (set_po (delivered b m (po ?st)) ?st) < device_weight ?st" using False by (simp add: device_weight_def delivered_def)
    then show ?thesis using pair_step.worker [OF i d, of addr] device_progress(2) [OF i] by (meson order_less_imp_le r_into_rtranclp)
  qed
qed

text \<open>A machine that has not halted can go on, or waits for a mail that the other one has not sent.\<close>

lemma member_progress:
  assumes inv: "pair_inv addr sys" and i: "\<not> halted sys i"
  shows "(\<exists>sys'. (pair_step addr)\<^sup>*\<^sup>* sys sys' \<and> pair_weight sys' < pair_weight sys) \<or>
    pc_of sys i = Receive_hello \<and> pc_of sys (\<not> i) = Send_hello \<or>
    pc_of sys i = Receive_ack \<and> ack_mail addr (\<not> i) \<notin> set (sent_mail addr (\<not> i) (pc_of sys (\<not> i)))"
proof -
  let ?st = "snd (sys i)" and ?junk = "replicate 52 (0 :: byte)"
  let ?arr = "sent_mail addr (\<not> i) (pc_of sys (\<not> i))" and ?rcv = "received_mail addr i (pc_of sys i)"
  obtain w where st: "station (addr i) ?arr ?rcv w ?st" "w = (pc_of sys i \<in> {Sending_hello True, Sending_ack True})"
    "pc_of sys i \<notin> {Sending_hello False, Sending_ack False}"
    using pair_members(1) [OF inv, of i] by (auto simp: member_def split_beta)
  let ?G = "\<exists>sys'. (pair_step addr)\<^sup>*\<^sup>* sys sys' \<and> pair_weight sys' < pair_weight sys"
  have sending: ?G if "pc_of sys i \<in> {Sending_hello ok, Sending_ack ok}" "messageSent (po ?st) = 0" for ok
  proof -
    have "w" using st(2,3) that by (cases ok) auto
    then have "NetworkSendDone \<in># to_fire ?st" using st(1) that(2) by (simp add: station_def flip: count_greater_zero_iff)
    then show ?G using handler_progress [OF inv i, of NetworkSendDone] by (simp add: useful_def)
  qed
  have waiting: "?G \<or> filter (box_of b) ?arr = []" if "boxes (po ?st) ! nat b = []" "b \<in> {0, 1}" "filter (\<lambda>r. fst r = b) ?rcv = []" for b
    using station_box [OF st(1) that(2)] mail_progress [OF inv i] that by auto
  have "length ?junk = 52" by simp
  from program_step [OF inv refl this, of i] show ?thesis
  proof (elim disjE exE conjE)
    fix s wire
    assume r: "MailTest_step (\<not> halted sys (\<not> i)) ?junk (addr (\<not> i)) (sys i) = Inr (Some (s, wire))"
      and "pair_weight (put_on_wire wire (\<not> i) (sys(i := s))) < pair_weight sys"
    moreover have "pair_step addr sys (put_on_wire wire (\<not> i) (sys(i := s)))" by (rule pair_step.program [of sys i ?junk addr s wire]) (simp_all add: r)
    ultimately show ?thesis by blast
  next
    assume wt: "case pc_of sys i of
         Sending_hello ok \<Rightarrow> messageSent (po (snd (sys i))) = 0
       | Sending_ack ok \<Rightarrow> messageSent (po (snd (sys i))) = 0
       | Receive_hello \<Rightarrow> boxes (po (snd (sys i))) ! 0 = []
       | Receive_ack \<Rightarrow> boxes (po (snd (sys i))) ! 1 = []
       | MT_halted \<Rightarrow> True
       | _ \<Rightarrow> False"
    show ?thesis
    proof (cases "pc_of sys i")
      case Receive_hello
      then have "?G \<or> filter (box_of 0) ?arr = []" using wt by (intro waiting) (simp_all add: mail_defs)
      then show ?thesis using Receive_hello by (auto simp: mail_defs split: MT_pc.splits)
    next
      case Receive_ack
      then have "?G \<or> filter (box_of 1) ?arr = []" using wt by (intro waiting) (simp_all add: mail_defs)
      then show ?thesis using Receive_ack by (auto simp: filter_empty_conv)
    qed (use wt i sending in \<open>auto simp: halted_def\<close>)
  qed
qed

lemma pair_progress:
  assumes inv: "pair_inv addr sys" and i: "\<not> halted sys i"
  shows "\<exists>sys'. (pair_step addr)\<^sup>*\<^sup>* sys sys' \<and> pair_weight sys' < pair_weight sys"
proof -
  consider (go) "\<exists>sys'. (pair_step addr)\<^sup>*\<^sup>* sys sys' \<and> pair_weight sys' < pair_weight sys"
    | (hello) "pc_of sys i = Receive_hello" "pc_of sys (\<not> i) = Send_hello"
    | (ack) "pc_of sys i = Receive_ack" "ack_mail addr (\<not> i) \<notin> set (sent_mail addr (\<not> i) (pc_of sys (\<not> i)))"
    using member_progress [OF assms] by blast
  then show ?thesis
  proof cases
    case hello
    then show ?thesis using member_progress [OF inv, of "\<not> i"] by (auto simp: halted_def)
  next
    case ack
    then have "\<not> halted sys (\<not> i)" "pc_of sys (\<not> i) \<noteq> Receive_ack" by (auto simp: halted_def mail_defs)
    from member_progress [OF inv this(1)] this(2) ack(1) show ?thesis by auto
  qed
qed

lemma pair_completes: "pair_inv addr sys \<Longrightarrow> \<exists>sys'. (pair_step addr)\<^sup>*\<^sup>* sys sys' \<and> (\<forall>i. halted sys' i)"
proof (induction "pair_weight sys" arbitrary: sys rule: less_induct)
  case less
  show ?case
  proof (cases "\<forall>i. halted sys i")
    case False
    then obtain sys1 where s: "(pair_step addr)\<^sup>*\<^sup>* sys sys1" "pair_weight sys1 < pair_weight sys" using pair_progress [OF less(2)] by blast
    have "pair_inv addr sys1" using s(1) less(2) by (induction rule: rtranclp_induct) (auto intro: pair_inv_step)
    from less(1) [OF s(2) this] s(1) show ?thesis by (meson rtranclp_trans)
  qed blast
qed

text \<open>
  C25: two machines exchange mail. In every state that two machines can reach that run \<^verbatim>\<open>MailTest\<close> with each other's address on
  a reliable network, whatever the order in which their programs, postal workers and interrupts ran: none of the
  assertions in the program, the post office and the network device fails; each machine has printed the
  first lines, and once it has halted all lines, of the message and the acknowledgement of the other one, and
  nothing else (no send has failed); and both can be brought to halt from there.
\<close>

theorem mail_test_exchange:
  assumes "pair_reach addr sys"
  shows "(\<forall>i. \<exists>rest. mail_lines addr i = printed (fst (sys i)) @ rest \<and> (halted sys i \<longrightarrow> rest = [])) \<and>
    (\<forall>i junk old fault. length junk = MaxPacketSize \<longrightarrow>
       MailTest_step (\<not> halted sys (\<not> i)) junk (addr (\<not> i)) (sys i) \<noteq> Inl fault \<and> PostalDelivery old (snd (sys i)) \<noteq> Inl fault \<and>
       (ilevel (snd (sys i)) = IntOff \<longrightarrow> istatus (snd (sys i)) \<noteq> IdleMode \<longrightarrow> CheckIfDue run_device False (snd (sys i)) \<noteq> Inl fault)) \<and>
    (\<exists>sys'. (pair_step addr)\<^sup>*\<^sup>* sys sys' \<and> (\<forall>i. halted sys' i))"
proof (intro conjI allI impI)
  have inv: "pair_inv addr sys" by (rule pair_reach_inv [OF assms])
  show "\<exists>sys'. (pair_step addr)\<^sup>*\<^sup>* sys sys' \<and> (\<forall>i. halted sys' i)" by (rule pair_completes [OF inv])
  fix i
  obtain w where st: "station (addr i) (sent_mail addr (\<not> i) (pc_of sys (\<not> i))) (received_mail addr i (pc_of sys i)) w (snd (sys i))"
    and pr: "printed (fst (sys i)) = take (length (received_mail addr i (pc_of sys i))) (mail_lines addr i)"
    using pair_members(1) [OF inv, of i] by (auto simp: member_def split_beta)
  show "\<exists>rest. mail_lines addr i = printed (fst (sys i)) @ rest \<and> (halted sys i \<longrightarrow> rest = [])" unfolding pr
    by (rule exI [of _ "drop (length (received_mail addr i (pc_of sys i))) (mail_lines addr i)"]) (simp add: halted_def mail_defs)
  show "MailTest_step (\<not> halted sys (\<not> i)) junk (addr (\<not> i)) (sys i) \<noteq> Inl fault" if "length junk = MaxPacketSize" for junk fault
    using program_step [OF inv refl that, of i] by auto
  from st obtain cur where cur: "in_device cur (po (snd (sys i)))" by (auto simp: station_def mail_inv_def)
  show "PostalDelivery old (snd (sys i)) \<noteq> Inl fault" for old fault
  proof (cases "messageAvailable (po (snd (sys i))) = 0")
    case False
    with cur obtain pkt where "cur = [pkt]" using in_device_empty(2) by blast
    then show ?thesis using PostalDelivery_mail [of pkt "snd (sys i)" old] cur by simp
  qed (simp add: PostalDelivery_def)
  have wf: "intr_wf (snd (sys i))" using st by (simp add: station_def)
  show "CheckIfDue run_device False (snd (sys i)) \<noteq> Inl fault" if "ilevel (snd (sys i)) = IntOff" "istatus (snd (sys i)) \<noteq> IdleMode" for fault
  proof (cases "keyed_items (pending (snd (sys i))) = [] \<or> totalTime (snd (sys i)) < snd (hd (keyed_items (pending (snd (sys i)))))")
    case True
    then show ?thesis using machine_devices.not_due [OF wf that(1)] by auto
  next
    case False
    then obtain p k xs where "keyed_items (pending (snd (sys i))) = (p, k) # xs" "k \<le> totalTime (snd (sys i))"
      by (cases "keyed_items (pending (snd (sys i)))") auto
    then show ?thesis using machine_devices.is_due [OF wf station_dev_ok [OF st] that(1)] that(2) by force
  qed
qed

definition demo_addr :: "bool \<Rightarrow> int" where
  "demo_addr i = (if i then 1 else 0)"

theorem mail_test_exchange_witness:
  "\<exists>sys sys'. pair_reach demo_addr sys \<and> (pair_step demo_addr)\<^sup>*\<^sup>* sys sys' \<and> (\<forall>i. halted sys' i) \<and>
     printed (fst (sys' True)) = [Got (map of_char ''Hello there!'') 0 1, Got (map of_char ''Got it!'') 0 1]"
proof -
  let ?p = "\<lparr>ph_to = 0, ph_from = 0, ph_length = 0\<rparr>" and ?m = "\<lparr>mh_to = 0, mh_from = 0, mh_length = 0\<rparr>"
  have "\<exists>st. boot_node None undefined 7 (demo_addr i) 1 10 ?p (replicate 92 0) = Inr st" for i using demo_node by blast
  then obtain b where b: "boot_node None undefined 7 (demo_addr i) 1 10 ?p (replicate 92 0) = Inr (b i)" for i by metis
  define sys where "sys = (\<lambda>i. (MailTest_begin ?p ?m (drop 52 (replicate 92 0)), b i))"
  have r: "pair_reach demo_addr sys"
  proof (rule pair_reach.boot)
    fix i
    show "is_int32 (demo_addr i)" by (simp add: demo_addr_def is_int32_def)
    show "\<exists>m d r junkPkt junkMail junkBox. boot_node m d r (demo_addr i) 1 10 junkPkt junkBox = Inr (snd (sys i)) \<and> load_ok m \<and>
       length junkBox \<ge> 52 \<and> fst (sys i) = MailTest_begin junkPkt junkMail (drop 52 junkBox)"
      using b [of i] unfolding sys_def by (intro exI [of _ None] exI [of _ undefined] exI [of _ 7] exI [of _ ?p] exI [of _ ?m]
        exI [of _ "replicate 92 0"]) (simp add: load_ok_def)
  qed (simp add: demo_addr_def)
  from mail_test_exchange [OF r] obtain sys' where s: "(pair_step demo_addr)\<^sup>*\<^sup>* sys sys'" "\<forall>i. halted sys' i" by blast
  from s(1) r have "pair_reach demo_addr sys'" by (induction rule: rtranclp_induct) (auto intro: pair_reach.step)
  from mail_test_exchange [OF this] s(2) have "mail_lines demo_addr True = printed (fst (sys' True))" by (metis append_Nil2)
  then show ?thesis using r s by (intro exI [of _ sys] exI [of _ sys']) (simp add: mail_lines_def demo_addr_def)
qed

end
