(* ===== verification/Machine_Loop.thy ===== *)
theory Machine_Loop
  imports Mail_Test Mips_Props
begin

text \<open>
  The main loop of the machine (\<^verbatim>\<open>Machine::Run\<close> of \<^verbatim>\<open>machine/mipssim.cc\<close>): instruction, clock tick, and the debugger of
  \<^verbatim>\<open>machine/machine.cc\<close> when the machine is single-stepped. The processor of \<open>Mips_Sim\<close> runs on the interrupt controller
  with the devices of \<open>Post_Office\<close>, from one exception or preemption to the next: every instruction takes one tick, what is
  due is served in between, and the processor stays in a legal state. The handler of exceptions is the subject of
  \<open>System_Calls\<close>, the switch to another thread that of \<open>Thread_Kernel\<close> and \<open>User_Switch\<close>.
\<close>

section \<open>The debugger\<close>

text \<open>\<open>singleStep\<close> and \<open>runUntilTime\<close> of the machine; the constructor leaves the second one uninitialised (\<open>junk\<close>).\<close>

record Stepping =
  singleStep :: bool
  runUntilTime :: int

definition new_Stepping :: "bool \<Rightarrow> int \<Rightarrow> Stepping" where
  "new_Stepping debug junk = \<lparr>singleStep = debug, runUntilTime = junk\<rparr>"

text \<open>\<^verbatim>\<open>sscanf(buf, "%d", &num)\<close>: white space, a sign, digits; \<open>None\<close> if there is no number.\<close>

definition is_digit :: "char \<Rightarrow> bool" where
  "is_digit c \<longleftrightarrow> 48 \<le> (of_char c :: nat) \<and> (of_char c :: nat) \<le> 57"

definition is_space :: "char \<Rightarrow> bool" where
  "is_space c \<longleftrightarrow> of_char c = (32 :: nat) \<or> (9 \<le> (of_char c :: nat) \<and> (of_char c :: nat) \<le> 13)"

definition digits_value :: "string \<Rightarrow> int" where
  "digits_value ds = foldl (\<lambda>n c. 10 * n + (of_char c - 48)) 0 ds"

definition scan_int :: "string \<Rightarrow> int option" where
  "scan_int buf = (let s = dropWhile is_space buf;
       sign = (if s \<noteq> [] \<and> hd s = CHR ''-'' then - 1 else 1);
       s1 = (if s \<noteq> [] \<and> (hd s = CHR ''-'' \<or> hd s = CHR ''+'') then tl s else s);
       ds = takeWhile is_digit s1 in
     if ds = [] then None else Some (int32 (sign * digits_value ds)))"

text \<open>A command of the debugger; \<open>buf\<close> is the line typed, which has at least its line end.\<close>

definition Debugger :: "string \<Rightarrow> Stepping \<Rightarrow> Stepping res" where
  "Debugger buf d = (case scan_int buf of
     Some num \<Rightarrow> Inr (d\<lparr>runUntilTime := num\<rparr>)
   | None \<Rightarrow> (case buf of
       [] \<Rightarrow> Inl Uninitialised
     | c # _ \<Rightarrow> Inr (if c = CHR ''c'' then d\<lparr>runUntilTime := 0, singleStep := False\<rparr> else d\<lparr>runUntilTime := 0\<rparr>)))"

section \<open>The loop\<close>

text \<open>
  One round. The processor sees the time of the clock. \<open>Exception\<close>: the instruction raises an exception, and control
  passes to its handler, which may take time, block, switch threads or halt. \<open>Preempted\<close>: the clock tick ends with a
  \<^verbatim>\<open>Yield\<close> of the thread. \<open>ls\<close> are the lines still to be typed to the debugger: at the end of the input its buffer
  has not been written.
\<close>

type_synonym run_state = "string list \<times> Stepping \<times> node"

datatype outcome = Next run_state | Exception | Preempted run_state

definition Run_round :: "run_state \<Rightarrow> outcome res" where
  "Run_round = (\<lambda>(ls, d, st). case imachine st of
     None \<Rightarrow> Inl NullDeref
   | Some m \<Rightarrow> (case OneInstruction leave (m\<lparr>totalTicks := totalTime st, machineStatus := istatus st\<rparr>) of
       Inl f \<Rightarrow> if f = HandlerCalled then Inr Exception else Inl f
     | Inr m1 \<Rightarrow>
         bindR (OneTick (Suc (length (keyed_items (pending st)))) run_device (st\<lparr>imachine := Some m1\<rparr>)) (\<lambda>(y, ps, st1).
         if y then Inr (Preempted (ls, d, st1))
         else if singleStep d \<and> runUntilTime d \<le> totalTime st1
         then (case ls of
                 [] \<Rightarrow> Inl Uninitialised
               | buf # rest \<Rightarrow> bindR (Debugger buf d) (\<lambda>d1. Inr (Next (rest, d1, st1))))
         else Inr (Next (ls, d, st1)))))"

text \<open>\<^verbatim>\<open>Machine::Run\<close> never returns: what has become of it after \<open>n\<close> rounds, or at the first exception or preemption.\<close>

fun Run_rounds :: "nat \<Rightarrow> run_state \<Rightarrow> outcome res" where
  "Run_rounds 0 s = Inr (Next s)"
| "Run_rounds (Suc n) s = bindR (Run_round s) (\<lambda>out. case out of Next s1 \<Rightarrow> Run_rounds n s1 | _ \<Rightarrow> Inr out)"

definition Machine_Run :: "nat \<Rightarrow> run_state \<Rightarrow> outcome res" where
  "Machine_Run n = (\<lambda>(ls, d, st). Run_rounds n (ls, d, st\<lparr>istatus := UserMode\<rparr>))"

section \<open>Properties\<close>

definition cpu_node :: "node \<Rightarrow> bool" where
  "cpu_node st \<longleftrightarrow> (\<exists>m. imachine st = Some m \<and> cpu_ok m)"

definition run_inv :: "node \<Rightarrow> bool" where
  "run_inv st \<longleftrightarrow> clock_inv st \<and> istatus st = UserMode \<and> cpu_node st"

lemma cpu_ok_DelayedLoad: "cpu_ok m \<Longrightarrow> DelayedLoad 0 0 m = Inr m1 \<Longrightarrow> cpu_ok m1"
  by (auto simp: DelayedLoad_def cpu_ok_def well_mapped_def Let_def split: if_splits option.splits)

lemma CheckIfDue_cpu:
  assumes wf: "intr_wf st" and c: "cpu_node st" "CheckIfDue run_device adv st = Inr (r, st')"
  shows "cpu_node st' \<and> intr_wf st'"
proof (cases r)
  case None
  then show ?thesis using CheckIfDue_quiet [OF wf] c by (auto simp: cpu_node_def)
next
  case (Some p)
  from c(1) obtain m where m: "imachine st = Some m" "cpu_ok m" by (auto simp: cpu_node_def)
  from CheckIfDue_fired [OF wf, of run_device adv p st'] c(2) Some m(1) obtain st0 st1 m1 where
    f: "intr_wf st0" "run_device (pi_handler p) (pi_arg p) st0 = Inr st1" "pending st' = pending st1" "imachine st' = imachine st1"
      "DelayedLoad 0 0 m = Inr m1" "imachine st0 = Some m1" by auto
  note e = run_device_effect [OF f(1,2)]
  have "intr_wf st'" using conjunct1 [OF e] f(3,4) by (simp add: intr_wf_def)
  then show ?thesis using e f(4-6) cpu_ok_DelayedLoad [OF m(2)] by (simp add: cpu_node_def)
qed

lemma due_loop_cpu:
  "intr_wf st \<Longrightarrow> cpu_node st \<Longrightarrow> due_loop n run_device st = Inr (ps, st') \<Longrightarrow> cpu_node st'"
proof (induction n arbitrary: st ps)
  case (Suc n)
  from Suc.prems(3) obtain r st1 where r: "CheckIfDue run_device False st = Inr (r, st1)" by (auto simp: bindR_eq_Inr_iff)
  note c = CheckIfDue_cpu [OF Suc.prems(1,2) r]
  show ?case
  proof (cases r)
    case None
    then show ?thesis using Suc.prems(3) r c by simp
  next
    case (Some p)
    then obtain ps' where "due_loop n run_device st1 = Inr (ps', st')" using Suc.prems(3) r by (auto simp: bindR_eq_Inr_iff)
    then show ?thesis using Suc.IH c by blast
  qed
qed simp

text \<open>A clock tick of a machine that runs a user program.\<close>

lemma tick_run_inv:
  assumes i: "run_inv st" and n: "length (keyed_items (pending st)) < n"
  shows "\<exists>y ps st'. OneTick n run_device st = Inr (y, ps, st') \<and> run_inv st' \<and> totalTime st' = totalTime st + 1"
proof -
  have c: "clock_inv st" "istatus st = UserMode" "cpu_node st" "intr_wf st" "dev_ok (devs st)"
    using i by (simp_all add: run_inv_def clock_inv_def)
  from machine_devices.OneTick_ok [OF c(4,5) _ n refl] c(2) obtain y ps st' where
    t: "OneTick n run_device st = Inr (y, ps, st')" "totalTime st' = totalTime st + 1" "istatus st' = UserMode" by auto
  have "clock_inv st'" by (rule clock_inv_step [OF node_step.tick [OF _ n t(1)] c(1)]) (simp add: c(2))
  moreover have "cpu_node st'"
  proof -
    let ?st = "ChangeLevel IntOff (st\<lparr>totalTime := totalTime st + 1, userTicks := userTicks st + 1\<rparr>)"
    have w: "intr_wf ?st" "cpu_node ?st" using c by (simp_all add: ChangeLevel_def intr_wf_def cpu_node_def)
    from t(1) c(2) obtain ps' st2 where d: "due_loop n run_device ?st = Inr (ps', st2)" "imachine st' = imachine st2"
      by (auto simp: OneTick_def Let_def bindR_eq_Inr_iff ChangeLevel_def split: if_splits)
    from due_loop_cpu [OF w d(1)] d(2) show ?thesis by (simp add: cpu_node_def)
  qed
  ultimately show ?thesis using t by (simp add: run_inv_def)
qed

text \<open>What can stop the loop for good: an instruction that traps in the simulator, and a debugger without input.\<close>

definition instruction_traps :: "node \<Rightarrow> bool" where
  "instruction_traps st \<longleftrightarrow> (\<exists>m. map_option (\<lambda>m. m\<lparr>totalTicks := totalTime st, machineStatus := istatus st\<rparr>) (imachine st) = Some m \<and>
     (OneInstruction leave m = Inl DivideTrap \<or>
      OneInstruction leave m = Inl AssertionFailed \<and>
        (\<exists>v m1. ReadMem leave (registers m PCReg) 4 m = Inr (Some v, m1) \<and> partial_misaligned (Decode v) m1)))"

definition asks :: "Stepping \<Rightarrow> node \<Rightarrow> bool" where
  "asks d st \<longleftrightarrow> singleStep d \<and> runUntilTime d \<le> totalTime st + 1"

definition no_input :: "string list \<Rightarrow> bool" where
  "no_input ls \<longleftrightarrow> ls = [] \<or> hd ls = []"

lemma Debugger_total: "buf \<noteq> [] \<Longrightarrow> \<exists>d1. Debugger buf d = Inr d1"
  by (cases buf) (auto simp: Debugger_def split: option.splits)

definition leaves :: "run_state \<Rightarrow> bool" where
  "leaves = (\<lambda>(ls, d, st). Run_round (ls, d, st) = Inr Exception \<or>
     (\<exists>st'. Run_round (ls, d, st) = Inr (Preempted (ls, d, st')) \<and> run_inv st' \<and> totalTime st' = totalTime st + 1))"

lemma Run_round_ok:
  assumes i: "run_inv st" and t: "\<not> instruction_traps st" "asks d st \<longrightarrow> \<not> no_input ls"
  shows "leaves (ls, d, st) \<or> (\<exists>ls' d' st'. Run_round (ls, d, st) = Inr (Next (ls', d', st')) \<and> run_inv st' \<and>
    totalTime st' = totalTime st + 1 \<and>
    (if asks d st then \<exists>buf. ls = buf # ls' \<and> Debugger buf d = Inr d' else ls' = ls \<and> d' = d))"
proof -
  from i obtain m where m: "imachine st = Some m" "cpu_ok m" by (auto simp: run_inv_def cpu_node_def)
  let ?m = "m\<lparr>totalTicks := totalTime st, machineStatus := istatus st\<rparr>"
  have "cpu_ok ?m" using m(2) by (simp add: cpu_ok_def well_mapped_def split: option.splits)
  note instr = OneInstruction_ok [OF this sane_leave]
  show ?thesis
  proof (cases "OneInstruction leave ?m = Inl HandlerCalled")
    case True
    then show ?thesis using m(1) by (simp add: leaves_def Run_round_def)
  next
    case False
    with instr t(1) m(1) obtain m1 where m1: "OneInstruction leave ?m = Inr m1" "cpu_ok m1"
      by (auto simp: instruction_traps_def)
    let ?st = "st\<lparr>imachine := Some m1\<rparr>"
    have "load_ok (Some m1)" using m1(2) by (simp add: load_ok_def cpu_ok_def)
    then have "run_inv ?st" using i m1(2) by (simp add: run_inv_def clock_inv_def intr_wf_def cpu_node_def)
    from tick_run_inv [OF this, of "Suc (length (keyed_items (pending st)))"] obtain y ps st' where
      st': "OneTick (Suc (length (keyed_items (pending st)))) run_device ?st = Inr (y, ps, st')" "run_inv st'" "totalTime st' = totalTime st + 1"
      by auto
    consider y | "\<not> y" "asks d st" | "\<not> y" "\<not> asks d st" by blast
    then show ?thesis
    proof cases
      case 2
      then obtain buf rest where b: "ls = buf # rest" "buf \<noteq> []" using t(2) by (cases ls) (auto simp: no_input_def)
      from Debugger_total [OF b(2)] obtain d1 where "Debugger buf d = Inr d1" by blast
      then show ?thesis using 2 b(1) st' m1(1) m(1) by (simp add: Run_round_def asks_def)
    qed (use st' m1(1) m(1) in \<open>auto simp: leaves_def Run_round_def asks_def\<close>)
  qed
qed

text \<open>\<open>stops\<close>: the reasons for which the loop does not go on to the next round.\<close>

definition stops :: "run_state \<Rightarrow> bool" where
  "stops = (\<lambda>(ls, d, st). leaves (ls, d, st) \<or> instruction_traps st \<or> asks d st \<and> no_input ls)"

lemma Run_rounds_ok:
  "run_inv st \<Longrightarrow> \<exists>k \<le> n. \<exists>ls' d' st'. Run_rounds k (ls, d, st) = Inr (Next (ls', d', st')) \<and> run_inv st' \<and>
     totalTime st' = totalTime st + int k \<and> (\<not> singleStep d \<or> totalTime st + int k < runUntilTime d \<longrightarrow> ls' = ls \<and> d' = d) \<and>
     (k = n \<or> stops (ls', d', st'))"
proof (induction n arbitrary: ls d st)
  case (Suc n)
  show ?case
  proof (cases "stops (ls, d, st)")
    case True
    then show ?thesis using Suc.prems by (intro exI [of _ 0]) simp
  next
    case False
    then have "\<not> instruction_traps st" "asks d st \<longrightarrow> \<not> no_input ls" "\<not> leaves (ls, d, st)" by (auto simp: stops_def)
    with Run_round_ok [OF Suc.prems this(1,2)] obtain ls1 d1 st1 where
      r: "Run_round (ls, d, st) = Inr (Next (ls1, d1, st1))" "run_inv st1" "totalTime st1 = totalTime st + 1"
        "\<not> asks d st \<longrightarrow> ls1 = ls \<and> d1 = d" by (auto split: if_splits)
    from Suc.IH [OF r(2), of ls1 d1] obtain k ls' d' st' where
      k: "k \<le> n" "Run_rounds k (ls1, d1, st1) = Inr (Next (ls', d', st'))" "run_inv st'" "totalTime st' = totalTime st1 + int k"
        "\<not> singleStep d1 \<or> totalTime st1 + int k < runUntilTime d1 \<longrightarrow> ls' = ls1 \<and> d' = d1" "k = n \<or> stops (ls', d', st')" by blast
    have "ls' = ls \<and> d' = d" if "\<not> singleStep d \<or> totalTime st + int (Suc k) < runUntilTime d"
      using that k(5) r(3,4) by (auto simp: asks_def)
    then show ?thesis using k r by (intro exI [of _ "Suc k"]) auto
  qed
qed auto

text \<open>
  C40: a user program runs from one exception to the next. On every machine that has been started, with a processor in a legal
  state, \<^verbatim>\<open>Machine::Run\<close> executes any number \<open>n\<close> of instructions, or fewer if before that one raises an exception (and the handler
  is called), a clock tick ends with a \<^verbatim>\<open>Yield\<close> of the thread, an instruction traps in the simulator (a division of
  the smallest number by -1, or LWL, LWR, SWL, SWR on a misaligned address), or the debugger waits for input that does
  not come. Up to there no assertion fails, the time has advanced by one tick for each instruction, every interrupt that
  was due has been served, the processor is in a legal state and in user mode, and the debugger has asked for no input
  if the machine is not single-stepped or has been told to run until a later time.
\<close>

theorem user_program_runs:
  assumes "node_reach st" "imachine st = Some m" "cpu_ok m"
  shows "\<exists>k \<le> n. \<exists>ls' d' st' m'. Machine_Run k (ls, d, st) = Inr (Next (ls', d', st')) \<and>
    totalTime st' = totalTime st + int k \<and> istatus st' = UserMode \<and> imachine st' = Some m' \<and> cpu_ok m' \<and>
    (\<forall>(p, w) \<in> set (keyed_items (pending st')). totalTime st' < w) \<and>
    (\<not> singleStep d \<or> totalTime st + int k < runUntilTime d \<longrightarrow> ls' = ls) \<and>
    (k = n \<or> Run_round (ls', d', st') = Inr Exception \<or> (\<exists>st1. Run_round (ls', d', st') = Inr (Preempted (ls', d', st1))) \<or>
     instruction_traps st' \<or> asks d' st' \<and> no_input ls')"
proof -
  let ?st = "st\<lparr>istatus := UserMode\<rparr>"
  have "clock_inv ?st" by (rule clock_inv_step [OF node_step.mode node_reach_inv [OF assms(1)]]) simp
  then have "run_inv ?st" using assms(2,3) by (simp add: run_inv_def cpu_node_def)
  from Run_rounds_ok [OF this, of n ls d] obtain k ls' d' st' where
    k: "k \<le> n" "Run_rounds k (ls, d, ?st) = Inr (Next (ls', d', st'))" "run_inv st'" "totalTime st' = totalTime st + int k"
      "\<not> singleStep d \<or> totalTime st + int k < runUntilTime d \<longrightarrow> ls' = ls \<and> d' = d" "k = n \<or> stops (ls', d', st')" by auto
  moreover from k(3) obtain m' where "imachine st' = Some m'" "cpu_ok m'" "istatus st' = UserMode"
    "\<forall>(p, w) \<in> set (keyed_items (pending st')). totalTime st' < w"
    by (fastforce simp: run_inv_def clock_inv_def cpu_node_def later_def)
  moreover have "Run_round (ls', d', st') = Inr Exception \<or> (\<exists>st1. Run_round (ls', d', st') = Inr (Preempted (ls', d', st1))) \<or>
     instruction_traps st' \<or> asks d' st' \<and> no_input ls'" if "stops (ls', d', st')"
    using that by (auto simp: stops_def leaves_def)
  ultimately show ?thesis unfolding Machine_Run_def prod.case by blast
qed

text \<open>A machine whose next instruction is the word 0 (\<^verbatim>\<open>SLL r0, r0, 0\<close>) in the page that \<open>demo_machine\<close> maps.\<close>

definition nop_machine :: Machine where
  "nop_machine = demo_machine\<lparr>registers := (registers demo_machine)(PCReg := 400)\<rparr>"

lemma nop_runs: "\<exists>m1. OneInstruction leave (nop_machine\<lparr>totalTicks := t, machineStatus := x\<rparr>) = Inr m1"
proof -
  let ?m = "nop_machine\<lparr>totalTicks := t, machineStatus := x\<rparr>"
  have "well_mapped ?m = well_mapped demo_machine" "lookup_entry ?m = lookup_entry demo_machine"
    by (simp_all add: nop_machine_def well_mapped_def lookup_entry_def fun_eq_iff split: option.splits)
  then have "page_ok ?m 400 4 False demo_entry" using demo_page_ok [of False] by (simp add: page_ok_def)
  from ReadMem_ok [OF this, of leave] obtain m1 where m1: "ReadMem leave 400 4 ?m = Inr (Some 0, m1)" "registers m1 = registers ?m"
    by (auto simp: nop_machine_def demo_machine_def new_Machine_def read_value_def host_load32_def)
  have "Decode 0 = \<lparr>opCode = OP_SLL, rs = 0, rt = 0, rd = 0, extra = 0\<rparr>"
    by (simp add: Decode_def opTable_def specialTable_def Decode_extra_def)
  moreover have "registers ?m PCReg = 400" "registers m1 LoadReg = 0"
    using m1(2) by (simp_all add: nop_machine_def demo_machine_def new_Machine_def)
  ultimately show ?thesis using m1(1)
    by (simp add: OneInstruction_def exec_switch_def exec_SLL_def to_end_def DelayedLoad_def setReg_def)
qed

theorem user_program_runs_witness:
  "\<exists>st. boot_node (Some nop_machine) undefined 7 1 1 10 undefined [] = Inr st \<and>
     ((\<exists>ls' d' st'. Machine_Run 1 ([], new_Stepping False 0, st) = Inr (Next (ls', d', st')) \<and> totalTime st' = totalTime st + 1) \<or>
      (\<exists>st1. Machine_Run 1 ([], new_Stepping False 0, st) = Inr (Preempted ([], new_Stepping False 0, st1))))"
proof -
  have c: "cpu_ok nop_machine" "load_ok (Some nop_machine)"
    by (simp_all add: cpu_ok_def nop_machine_def demo_machine_def new_Machine_def well_mapped_def load_ok_def)
  from boot_node_total [OF c(2)] obtain st where
    b: "boot_node (Some nop_machine) undefined 7 1 1 10 undefined [] = Inr st" "imachine st = Some nop_machine" by blast
  have r: "node_reach st" by (rule node_reach.boot [OF b(1) c(2)])
  let ?d = "new_Stepping False 0" and ?st = "st\<lparr>istatus := UserMode\<rparr>"
  from user_program_runs [OF r b(2) c(1), of 1 "[]" ?d] obtain k ls' d' st' where
    k: "k \<le> 1" "Machine_Run k ([], ?d, st) = Inr (Next (ls', d', st'))" "totalTime st' = totalTime st + int k"
      "k = 1 \<or> Run_round (ls', d', st') = Inr Exception \<or> (\<exists>st1. Run_round (ls', d', st') = Inr (Preempted (ls', d', st1))) \<or>
       instruction_traps st' \<or> asks d' st' \<and> no_input ls'" by blast
  show ?thesis
  proof (cases "k = 1")
    case False
    then have k0: "k = 0" using k(1) by linarith
    then have e: "ls' = []" "d' = ?d" "st' = ?st" using k(2) by (auto simp: Machine_Run_def)
    have "Run_round ([], ?d, ?st) \<noteq> Inr Exception" "\<not> instruction_traps ?st" "\<not> asks ?d ?st"
      using nop_runs [of UserMode "totalTime st"] b(2)
      by (auto simp: Run_round_def instruction_traps_def asks_def new_Stepping_def bindR_eq_Inr_iff split: if_splits)
    then obtain st1 where "Run_round ([], ?d, ?st) = Inr (Preempted ([], ?d, st1))" using k(4) k0 e by auto
    then show ?thesis using b(1) by (auto simp: Machine_Run_def)
  qed (use b(1) k(2,3) in auto)
qed

end
