(* ===== verification/Start_Up.thy ===== *)
theory Start_Up
  imports Machine_Loop
begin

text \<open>
  Start and end of the kernel (\<^verbatim>\<open>threads/main.cc\<close>, \<^verbatim>\<open>threads/system.cc\<close>): the two passes over the command line, the one in
  \<^verbatim>\<open>Initialize\<close> for settings and the one in \<^verbatim>\<open>main\<close> for commands, and the deletion of the global objects by
  \<^verbatim>\<open>Cleanup\<close>. The passes do not know each other's options, so each reads the arguments of the other one as
  options; it is shown when that does no harm.
\<close>

section \<open>Settings\<close>

text \<open>The flags with which a kernel is compiled.\<close>

record Build =
  THREADS :: bool
  USER_PROGRAM :: bool
  FILESYS_NEEDED :: bool
  FILESYS :: bool
  NETWORK :: bool

record Settings =
  debugArgs :: string
  randomSeed :: "int option"
  PRand :: bool
  numServers :: int
  serverID :: int
  debugUserProg :: bool
  format :: bool
  rely :: rat
  netname :: int

definition default_Settings :: Settings where
  "default_Settings = \<lparr>debugArgs = [], randomSeed = None, PRand = False, numServers = 1, serverID = 0, debugUserProg = False,
     format = False, rely = 1, netname = 0\<rparr>"

definition atoi :: "string \<Rightarrow> int" where
  "atoi s = (case scan_int s of Some n \<Rightarrow> n | None \<Rightarrow> 0)"

text \<open>
  The body of the loop in \<^verbatim>\<open>Initialize\<close> for the argument \<open>a\<close>, with the arguments behind it; the result has the number of
  arguments used. \<open>atof\<close> reads a number with a fraction.
\<close>

definition ASSERT_args :: "nat \<Rightarrow> string list \<Rightarrow> 'a res \<Rightarrow> 'a res" where
  "ASSERT_args n rest r = (if length rest < n then Inl AssertionFailed else r)"

definition Initialize_option ::
  "Build \<Rightarrow> (string \<Rightarrow> rat) \<Rightarrow> string \<Rightarrow> string list \<Rightarrow> Settings \<Rightarrow> (Settings \<times> nat) res" where
  "Initialize_option b atof a rest s =
     bindR (if a = ''-d'' then
              if rest = [] then Inr (s\<lparr>debugArgs := ''+''\<rparr>, 1) else Inr (s\<lparr>debugArgs := hd rest\<rparr>, 2)
            else if a = ''-rs'' then ASSERT_args 1 rest (Inr (s\<lparr>randomSeed := Some (atoi (hd rest))\<rparr>, 2))
            else if a = ''-P'' then ASSERT_args 1 rest (Inr (if hd rest = ''RAND'' then s\<lparr>PRand := True\<rparr> else s, 1))
            else if a = ''-ns'' then ASSERT_args 1 rest (Inr (s\<lparr>numServers := atoi (hd rest)\<rparr>, 2))
            else Inr (s, 1)) (\<lambda>(s1, n1).
     let s2 = (if USER_PROGRAM b \<and> a = ''-s'' then s1\<lparr>debugUserProg := True\<rparr> else s1);
         s3 = (if FILESYS_NEEDED b \<and> a = ''-f'' then s2\<lparr>format := True\<rparr> else s2) in
     if NETWORK b \<and> a = ''-l'' then ASSERT_args 1 rest (Inr (s3\<lparr>rely := atof (hd rest)\<rparr>, 2))
     else if NETWORK b \<and> a = ''-m''
       then ASSERT_args 1 rest (Inr (s3\<lparr>netname := atoi (hd rest), serverID := atoi (hd rest)\<rparr>, 2))
     else Inr (s3, n1))"

function Initialize_args :: "Build \<Rightarrow> (string \<Rightarrow> rat) \<Rightarrow> string list \<Rightarrow> Settings \<Rightarrow> Settings res" where
  "Initialize_args b atof [] s = Inr s"
| "Initialize_args b atof (a # rest) s =
     bindR (Initialize_option b atof a rest s) (\<lambda>(s1, argCount). Initialize_args b atof (drop (argCount - 1) rest) s1)"
  by pat_completeness auto
termination by (relation "measure (\<lambda>(b, atof, args, s). length args)") auto

section \<open>Commands\<close>

datatype Command = PrintCopyright | TestSuite | Part2 | StartProcess string | ConsoleTest "(string \<times> string) option" | Halt
  | Copy string string | PrintFile string | RemoveFile string | ListDirectory | PrintFileSystem | PerformanceTest
  | MailTest int | Server | Finish

text \<open>
  The body of the loop in \<^verbatim>\<open>main\<close>: the routines it calls for the argument \<open>a\<close>, in order. Whether the calls return is not
  considered: what really runs is an initial part of the commands.
\<close>

definition main_option :: "Build \<Rightarrow> string \<Rightarrow> string list \<Rightarrow> (Command list \<times> nat) res" where
  "main_option b a rest =
     (let c0 = (if a = ''-z'' then [PrintCopyright] else []);
          c1 = (if THREADS b \<and> a = ''-T'' then [TestSuite] else []);
          c2 = (if THREADS b \<and> a = ''-P2'' then [Part2] else []) in
      bindR (if USER_PROGRAM b \<and> a = ''-x'' then ASSERT_args 1 rest (Inr ([StartProcess (hd rest)], 2))
             else if USER_PROGRAM b \<and> a = ''-c'' then
               if rest = [] then Inr ([ConsoleTest None, Halt], 1)
               else ASSERT_args 2 rest (Inr ([ConsoleTest (Some (rest ! 0, rest ! 1)), Halt], 3))
             else Inr ([], 1)) (\<lambda>(c3, n3).
      bindR (if FILESYS b \<and> a = ''-cp'' then ASSERT_args 2 rest (Inr ([Copy (rest ! 0) (rest ! 1)], 3))
             else if FILESYS b \<and> a = ''-p'' then ASSERT_args 1 rest (Inr ([PrintFile (hd rest)], 2))
             else if FILESYS b \<and> a = ''-r'' then ASSERT_args 1 rest (Inr ([RemoveFile (hd rest)], 2))
             else if FILESYS b \<and> a = ''-l'' then Inr ([ListDirectory], n3)
             else if FILESYS b \<and> a = ''-D'' then Inr ([PrintFileSystem], n3)
             else if FILESYS b \<and> a = ''-t'' then Inr ([PerformanceTest], n3)
             else Inr ([], n3)) (\<lambda>(c4, n4).
      bindR (if NETWORK b \<and> a = ''-o'' then ASSERT_args 1 rest (Inr ([MailTest (atoi (hd rest))], 2)) else Inr ([], n4)) (\<lambda>(c5, n5).
      Inr (c0 @ c1 @ c2 @ c3 @ c4 @ c5 @ (if NETWORK b \<and> a = ''-server'' then [Server] else []), n5)))))"

function main_args :: "Build \<Rightarrow> string list \<Rightarrow> Command list res" where
  "main_args b [] = Inr [Finish]"
| "main_args b (a # rest) =
     bindR (main_option b a rest) (\<lambda>(cs, argCount). bindR (main_args b (drop (argCount - 1) rest)) (\<lambda>cs1. Inr (cs @ cs1)))"
  by pat_completeness auto
termination by (relation "measure (\<lambda>(b, args). length args)") auto

text \<open>\<^verbatim>\<open>main\<close>: the first argument is the name of the program.\<close>

definition main_program :: "Build \<Rightarrow> (string \<Rightarrow> rat) \<Rightarrow> string list \<Rightarrow> (Settings \<times> Command list) res" where
  "main_program b atof argv =
     bindR (Initialize_args b atof (tl argv) default_Settings) (\<lambda>s. bindR (main_args b (tl argv)) (\<lambda>cs. Inr (s, cs)))"

section \<open>Cleanup\<close>

text \<open>
  The global objects and what \<^verbatim>\<open>Cleanup\<close> does with them. A table is given by its entries, an entry of \<^verbatim>\<open>kernelLockTable\<close>
  or \<^verbatim>\<open>kernelCVTable\<close> by whether its object has not been deleted before. Deleting the null pointer has no effect, so that an
  object that was never created counts as one that may be deleted.
\<close>

datatype Object = PostOffice_obj | Machine_obj | FileSystem_obj | SynchDisk_obj | Timer_obj | Scheduler_obj | Interrupt_obj
  | Lock_obj nat | KernelLock_obj nat | LockTable_obj | Condition_obj nat | KernelCV_obj nat | CVTable_obj
  | MemoryMap_obj | BitMapLock_obj | ProcessTable_obj | ProcessLock_obj | OutputLock_obj | SwapFile_obj | SwapMap_obj
  | SwapLock_obj | MailBoxLock_obj

datatype Access = Delete Object | Call Object

fun delete_entries :: "(nat \<Rightarrow> Object) \<Rightarrow> (nat \<Rightarrow> Object) \<Rightarrow> nat \<Rightarrow> bool list \<Rightarrow> Access list" where
  "delete_entries inner outer i [] = []"
| "delete_entries inner outer i (there # es) =
     (if there then [Delete (inner i)] else []) @ [Delete (outer i)] @ delete_entries inner outer (Suc i) es"

definition Cleanup :: "Build \<Rightarrow> bool list \<Rightarrow> bool list \<Rightarrow> Access list" where
  "Cleanup b lockTable cvTable =
     (if NETWORK b then [Delete PostOffice_obj] else []) @
     (if USER_PROGRAM b then [Delete Machine_obj] else []) @
     (if FILESYS_NEEDED b then [Delete FileSystem_obj] else []) @
     (if FILESYS b then [Delete SynchDisk_obj] else []) @
     [Delete Timer_obj, Delete Scheduler_obj, Delete Interrupt_obj] @
     delete_entries Lock_obj KernelLock_obj 0 lockTable @ [Delete LockTable_obj] @
     delete_entries Condition_obj KernelCV_obj 0 cvTable @ [Delete CVTable_obj] @
     [Delete MemoryMap_obj, Delete BitMapLock_obj, Delete ProcessTable_obj, Delete ProcessLock_obj, Delete OutputLock_obj,
      Delete SwapFile_obj, Delete SwapMap_obj, Delete SwapLock_obj, Delete MailBoxLock_obj, Call FileSystem_obj]"

text \<open>The objects that have been deleted; an access to one of them is an error.\<close>

fun accesses :: "Access list \<Rightarrow> Object set \<Rightarrow> Object set res" where
  "accesses [] gone = Inr gone"
| "accesses (Delete x # as) gone = (if x \<in> gone then Inl UseAfterFree else accesses as (insert x gone))"
| "accesses (Call x # as) gone = (if x \<in> gone then Inl UseAfterFree else accesses as gone)"

section \<open>What the options mean\<close>

datatype Flag = Debug string | RandomSwitch string | RandomPages | Servers string | SingleStep | Format | Reliability string
  | MachineId string | Copyright | Suite | Problem2 | Execute string | Console_files string string | Copy_file string string
  | Print_file string | Remove_file string | List_directory | Dump | Performance | Mail_to string | Serve

fun flag_args :: "Flag \<Rightarrow> string list" where
  "flag_args (Debug x) = [''-d'', x]"
| "flag_args (RandomSwitch x) = [''-rs'', x]"
| "flag_args RandomPages = [''-P'', ''RAND'']"
| "flag_args (Servers x) = [''-ns'', x]"
| "flag_args SingleStep = [''-s'']"
| "flag_args Format = [''-f'']"
| "flag_args (Reliability x) = [''-l'', x]"
| "flag_args (MachineId x) = [''-m'', x]"
| "flag_args Copyright = [''-z'']"
| "flag_args Suite = [''-T'']"
| "flag_args Problem2 = [''-P2'']"
| "flag_args (Execute x) = [''-x'', x]"
| "flag_args (Console_files x y) = [''-c'', x, y]"
| "flag_args (Copy_file x y) = [''-cp'', x, y]"
| "flag_args (Print_file x) = [''-p'', x]"
| "flag_args (Remove_file x) = [''-r'', x]"
| "flag_args List_directory = [''-l'']"
| "flag_args Dump = [''-D'']"
| "flag_args Performance = [''-t'']"
| "flag_args (Mail_to x) = [''-o'', x]"
| "flag_args Serve = [''-server'']"

fun flag_setting :: "Build \<Rightarrow> (string \<Rightarrow> rat) \<Rightarrow> Flag \<Rightarrow> Settings \<Rightarrow> Settings" where
  "flag_setting b atof (Debug x) s = s\<lparr>debugArgs := x\<rparr>"
| "flag_setting b atof (RandomSwitch x) s = s\<lparr>randomSeed := Some (atoi x)\<rparr>"
| "flag_setting b atof RandomPages s = s\<lparr>PRand := True\<rparr>"
| "flag_setting b atof (Servers x) s = s\<lparr>numServers := atoi x\<rparr>"
| "flag_setting b atof SingleStep s = (if USER_PROGRAM b then s\<lparr>debugUserProg := True\<rparr> else s)"
| "flag_setting b atof Format s = (if FILESYS_NEEDED b then s\<lparr>format := True\<rparr> else s)"
| "flag_setting b atof (Reliability x) s = (if NETWORK b then s\<lparr>rely := atof x\<rparr> else s)"
| "flag_setting b atof (MachineId x) s = (if NETWORK b then s\<lparr>netname := atoi x, serverID := atoi x\<rparr> else s)"
| "flag_setting b atof _ s = s"

fun flag_commands :: "Build \<Rightarrow> Flag \<Rightarrow> Command list" where
  "flag_commands b Copyright = [PrintCopyright]"
| "flag_commands b Suite = (if THREADS b then [TestSuite] else [])"
| "flag_commands b Problem2 = (if THREADS b then [Part2] else [])"
| "flag_commands b (Execute x) = (if USER_PROGRAM b then [StartProcess x] else [])"
| "flag_commands b (Console_files x y) = (if USER_PROGRAM b then [ConsoleTest (Some (x, y)), Halt] else [])"
| "flag_commands b (Copy_file x y) = (if FILESYS b then [Copy x y] else [])"
| "flag_commands b (Print_file x) = (if FILESYS b then [PrintFile x] else [])"
| "flag_commands b (Remove_file x) = (if FILESYS b then [RemoveFile x] else [])"
| "flag_commands b List_directory = (if FILESYS b then [ListDirectory] else [])"
| "flag_commands b Dump = (if FILESYS b then [PrintFileSystem] else [])"
| "flag_commands b Performance = (if FILESYS b then [PerformanceTest] else [])"
| "flag_commands b (Mail_to x) = (if NETWORK b then [MailTest (atoi x)] else [])"
| "flag_commands b Serve = (if NETWORK b then [Server] else [])"
| "flag_commands b _ = []"

text \<open>
  The arguments of an option must not look like options, and \<^verbatim>\<open>-l\<close> must have one meaning in the kernel: reliability of the
  network or listing of the directory.
\<close>

definition plain_arg :: "string \<Rightarrow> bool" where
  "plain_arg a \<longleftrightarrow> a = [] \<or> hd a \<noteq> CHR ''-''"

definition flag_ok :: "Build \<Rightarrow> Flag \<Rightarrow> bool" where
  "flag_ok b f \<longleftrightarrow> list_all plain_arg (tl (flag_args f)) \<and>
     (case f of Reliability x \<Rightarrow> \<not> FILESYS b | List_directory \<Rightarrow> \<not> NETWORK b | _ \<Rightarrow> True)"

lemma plain_arg_neq: "plain_arg a \<Longrightarrow> a \<noteq> CHR ''-'' # x"
  by (auto simp: plain_arg_def)

lemma plain_options:
  assumes "plain_arg a"
  shows "Initialize_option b atof a rest s = Inr (s, 1)" "main_option b a rest = Inr ([], 1)"
  using plain_arg_neq [OF assms] by (simp_all add: Initialize_option_def main_option_def)

lemma bindR_Inr: "bindR r Inr = r"
  by (cases r) simp_all

lemma plain_passes:
  assumes "list_all plain_arg as"
  shows "Initialize_args b atof (as @ rest) s = Initialize_args b atof rest s" "main_args b (as @ rest) = main_args b rest"
  using assms by (induction as) (simp_all add: plain_options bindR_Inr)

text \<open>The option of a flag itself, which uses some of the arguments behind it; those left over are plain.\<close>

lemmas pass_defs = Initialize_option_def main_option_def ASSERT_args_def Let_def

lemma flag_option:
  assumes "flag_ok b f"
  shows "\<exists>n \<le> length (tl (flag_args f)). Initialize_option b atof (hd (flag_args f)) (tl (flag_args f) @ rest) s = Inr (flag_setting b atof f s, Suc n)"
    "\<exists>n \<le> length (tl (flag_args f)). main_option b (hd (flag_args f)) (tl (flag_args f) @ rest) = Inr (flag_commands b f, Suc n)"
  using assms by (cases f; simp add: flag_ok_def pass_defs; fail)+

lemma flag_args_split: "flag_args f = hd (flag_args f) # tl (flag_args f)"
  by (cases f) simp_all

lemma flag_settings:
  assumes "flag_ok b f"
  shows "Initialize_args b atof (flag_args f @ rest) s = Initialize_args b atof rest (flag_setting b atof f s)"
proof -
  have p: "list_all plain_arg (drop n (tl (flag_args f)))" for n
    using assms by (auto simp: flag_ok_def list_all_iff dest: in_set_dropD)
  from flag_option(1) [OF assms, of atof rest s] obtain n where n: "n \<le> length (tl (flag_args f))"
    "Initialize_option b atof (hd (flag_args f)) (tl (flag_args f) @ rest) s = Inr (flag_setting b atof f s, Suc n)" by blast
  then show ?thesis using plain_passes(1) [OF p, of b atof n rest] by (subst flag_args_split) simp
qed

lemma flag_actions:
  assumes "flag_ok b f"
  shows "main_args b (flag_args f @ rest) = bindR (main_args b rest) (\<lambda>cs. Inr (flag_commands b f @ cs))"
proof -
  have p: "list_all plain_arg (drop n (tl (flag_args f)))" for n
    using assms by (auto simp: flag_ok_def list_all_iff dest: in_set_dropD)
  from flag_option(2) [OF assms, of rest] obtain n where n: "n \<le> length (tl (flag_args f))"
    "main_option b (hd (flag_args f)) (tl (flag_args f) @ rest) = Inr (flag_commands b f, Suc n)" by blast
  then show ?thesis using plain_passes(2) [OF p, of b n rest] by (subst flag_args_split) simp
qed

text \<open>
  The command line is understood: each pass finds its options with their arguments, in their order, and is not misled by
  those of the other pass.
\<close>

theorem command_line_understood:
  assumes "\<forall>f \<in> set flags. flag_ok b f"
  shows "main_program b atof (name # concat (map flag_args flags)) =
    Inr (fold (flag_setting b atof) flags default_Settings, concat (map (flag_commands b) flags) @ [Finish])"
proof -
  have "Initialize_args b atof (concat (map flag_args flags)) s = Inr (fold (flag_setting b atof) flags s)" for s
    using assms by (induction flags arbitrary: s) (simp_all add: flag_settings)
  moreover have "main_args b (concat (map flag_args flags)) = Inr (concat (map (flag_commands b) flags) @ [Finish])"
    using assms by (induction flags) (simp_all add: flag_actions)
  ultimately show ?thesis by (simp add: main_program_def)
qed

text \<open>The file to run is taken for an option by the pass for settings.\<close>

lemma file_name_taken_for_option:
  "main_program \<lparr>THREADS = False, USER_PROGRAM = True, FILESYS_NEEDED = True, FILESYS = False, NETWORK = False\<rparr> atof
     [''nachos'', ''-x'', ''-f''] = Inr (default_Settings\<lparr>format := True\<rparr>, [StartProcess ''-f'', Finish])"
  by (simp add: main_program_def pass_defs)

text \<open>An option without its argument stops the kernel.\<close>

lemma missing_argument:
  assumes "\<forall>f \<in> set flags. flag_ok b f" "a \<in> {''-rs'', ''-P'', ''-ns''}"
  shows "main_program b atof (name # concat (map flag_args flags) @ [a]) = Inl AssertionFailed"
proof -
  have "Initialize_args b atof (concat (map flag_args flags) @ [a]) s = Inl AssertionFailed" for s
    using assms by (induction flags arbitrary: s) (auto simp: flag_settings pass_defs)
  then show ?thesis by (simp add: main_program_def)
qed

lemma deleted_stays: "accesses as gone = Inr gone' \<Longrightarrow> gone \<subseteq> gone'"
proof (induction as gone rule: accesses.induct)
  case (2 x as gone)
  then show ?case by (auto split: if_splits)
qed (auto split: if_splits)

lemma accesses_append: "accesses (as @ bs) gone = bindR (accesses as gone) (accesses bs)"
  by (induction as gone rule: accesses.induct) simp_all

lemma accesses_error: "accesses as gone = Inl f \<Longrightarrow> f = UseAfterFree"
  by (induction as gone rule: accesses.induct) (auto split: if_splits)

text \<open>\<^verbatim>\<open>Cleanup\<close> calls the file system that it has deleted, in every kernel that has one.\<close>

theorem Cleanup_uses_deleted_file_system:
  assumes "FILESYS_NEEDED b"
  shows "accesses (Cleanup b lockTable cvTable) gone = Inl UseAfterFree"
proof -
  define before where "before = (if NETWORK b then [Delete PostOffice_obj] else []) @ (if USER_PROGRAM b then [Delete Machine_obj] else [])"
  obtain between where c: "Cleanup b lockTable cvTable = (before @ [Delete FileSystem_obj]) @ between @ [Call FileSystem_obj]"
    using assms by (auto simp: Cleanup_def before_def)
  have "accesses (between @ [Call FileSystem_obj]) g = Inl UseAfterFree" if "FileSystem_obj \<in> g" for g
  proof (cases "accesses between g")
    case (Inl f)
    then show ?thesis using accesses_error by (auto simp: accesses_append)
  next
    case (Inr g')
    then show ?thesis using deleted_stays [OF Inr] that by (auto simp: accesses_append)
  qed
  moreover have "FileSystem_obj \<in> g" if "accesses (before @ [Delete FileSystem_obj]) gone = Inr g" for g
    using that by (auto simp: accesses_append bindR_eq_Inr_iff split: if_splits)
  ultimately show ?thesis unfolding c accesses_append [of "before @ _"]
    using accesses_error by (cases "accesses (before @ [Delete FileSystem_obj]) gone") auto
qed

end
