(* ===== verification/Console_Device.thy ===== *)
theory Console_Device
  imports Interrupts
begin

text \<open>
  The console: the device (\<^verbatim>\<open>machine/console.cc\<close>), the synchronous console on top of it
  (\<^verbatim>\<open>userprog/synchconsole.cc\<close>) and the test program that echoes its input (\<^verbatim>\<open>ConsoleTest\<close> of
  \<^verbatim>\<open>userprog/progtest.cc\<close>). The keyboard and the display are UNIX files. The device calls
  its handlers from interrupts; both users of it have handlers that do \<^verbatim>\<open>V\<close> on one of two semaphores.
\<close>

section \<open>The device\<close>

text \<open>
  \<open>readFile\<close> is what has been typed and not been read, \<open>readEnds\<close> says that the file has no more after that; \<open>writeFile\<close> is what was
  displayed. The buffer \<open>incoming\<close> is a \<^verbatim>\<open>char\<close> and \<^verbatim>\<open>EOF\<close>, which marks it as empty, the \<^verbatim>\<open>char\<close> -1.
  \<open>inputAvailable\<close> and \<open>outputDone\<close> are the values of the semaphores.
\<close>

record Console =
  incoming :: "8 word"
  putBusy :: bool
  readFile :: "8 word list"
  readEnds :: bool
  writeFile :: "8 word list"
  numConsoleCharsRead :: nat
  numConsoleCharsWritten :: nat

record ConsoleUser =
  console :: Console
  inputAvailable :: nat
  outputDone :: nat

datatype ConsoleHandler = ConsoleReadPoll | ConsoleWriteDone

type_synonym cnode = "(ConsoleHandler, ConsoleUser) Interrupt"

abbreviation (input) EOF_char :: "8 word" where "EOF_char \<equiv> - 1"
abbreviation (input) ConsoleTime :: int where "ConsoleTime \<equiv> 100"

definition con :: "cnode \<Rightarrow> Console" where
  "con st = console (devs st)"

definition set_con :: "Console \<Rightarrow> cnode \<Rightarrow> cnode" where
  "set_con c st = st\<lparr>devs := (devs st)\<lparr>console := c\<rparr>\<rparr>"

definition new_Console :: "Console \<Rightarrow> cnode \<Rightarrow> cnode res" where
  "new_Console c st =
     Schedule ConsoleReadPoll 0 ConsoleTime ConsoleReadInt (set_con (c\<lparr>putBusy := False, incoming := EOF_char\<rparr>) st)"

text \<open>\<^verbatim>\<open>ReadAvail\<close> and \<^verbatim>\<open>WriteDone\<close> of the users: \<^verbatim>\<open>V\<close> on the semaphores.\<close>

definition ReadAvail :: "cnode \<Rightarrow> cnode" where
  "ReadAvail st = st\<lparr>devs := (devs st)\<lparr>inputAvailable := inputAvailable (devs st) + 1\<rparr>\<rparr>"

definition SynchWriteDone :: "cnode \<Rightarrow> cnode" where
  "SynchWriteDone st = st\<lparr>devs := (devs st)\<lparr>outputDone := outputDone (devs st) + 1\<rparr>\<rparr>"

text \<open>
  A file that has ended can be read without waiting, so \<^verbatim>\<open>PollFile\<close> says yes; \<^verbatim>\<open>Read\<close> asserts that it gets its byte.
\<close>

definition CheckCharAvail :: "cnode \<Rightarrow> cnode res" where
  "CheckCharAvail st =
     bindR (Schedule ConsoleReadPoll 0 ConsoleTime ConsoleReadInt st) (\<lambda>st1.
     let c = con st1; poll = readFile c \<noteq> [] \<or> readEnds c in
     if incoming c \<noteq> EOF_char \<or> \<not> poll then Inr st1
     else case readFile c of
       [] \<Rightarrow> Inl AssertionFailed
     | b # bs \<Rightarrow> Inr (ReadAvail (set_con (c\<lparr>incoming := b, readFile := bs, numConsoleCharsRead := numConsoleCharsRead c + 1\<rparr>) st1)))"

definition WriteDone :: "cnode \<Rightarrow> cnode" where
  "WriteDone st = SynchWriteDone (set_con ((con st)\<lparr>putBusy := False,
     numConsoleCharsWritten := numConsoleCharsWritten (con st) + 1\<rparr>) st)"

definition GetChar :: "cnode \<Rightarrow> 8 word \<times> cnode" where
  "GetChar st = (incoming (con st), set_con ((con st)\<lparr>incoming := EOF_char\<rparr>) st)"

definition PutChar :: "8 word \<Rightarrow> cnode \<Rightarrow> cnode res" where
  "PutChar ch st =
     (if \<not> putBusy (con st)
      then Schedule ConsoleWriteDone 0 ConsoleTime ConsoleWriteInt
             (set_con ((con st)\<lparr>writeFile := writeFile (con st) @ [ch], putBusy := True\<rparr>) st)
      else Inl AssertionFailed)"

definition run_console :: "ConsoleHandler \<Rightarrow> int \<Rightarrow> cnode \<Rightarrow> cnode res" where
  "run_console h a st = (case h of ConsoleReadPoll \<Rightarrow> CheckCharAvail st | ConsoleWriteDone \<Rightarrow> Inr (WriteDone st))"

text \<open>\<^verbatim>\<open>P\<close> on the semaphores; \<open>None\<close> is a thread that waits.\<close>

definition P_input :: "cnode \<Rightarrow> cnode option" where
  "P_input st = (if inputAvailable (devs st) = 0 then None
     else Some (st\<lparr>devs := (devs st)\<lparr>inputAvailable := inputAvailable (devs st) - 1\<rparr>\<rparr>))"

definition P_output :: "cnode \<Rightarrow> cnode option" where
  "P_output st = (if outputDone (devs st) = 0 then None
     else Some (st\<lparr>devs := (devs st)\<lparr>outputDone := outputDone (devs st) - 1\<rparr>\<rparr>))"

section \<open>The synchronous console\<close>

text \<open>
  A call in progress: \<^verbatim>\<open>WriteLine\<close> with the buffer, the position and the bytes left to do, and whether it waits in
  \<^verbatim>\<open>outputDone->P()\<close>; \<^verbatim>\<open>ReadLine\<close> with what it has stored, and whether it has passed \<^verbatim>\<open>inputAvailable->P()\<close>. A call
  in progress holds its mutex.
\<close>

record WriteLine_call =
  w_line :: "8 word list"
  w_pos :: nat
  w_size :: int
  w_waits :: bool

record ReadLine_call =
  r_size :: int
  r_line :: "8 word list"
  r_c :: "8 word"
  r_got :: bool

record SynchConsole =
  cnode :: cnode
  writing :: "WriteLine_call option"
  reading :: "ReadLine_call option"

definition new_SynchConsole :: "Console \<Rightarrow> cnode \<Rightarrow> SynchConsole res" where
  "new_SynchConsole c st =
     bindR (new_Console c (st\<lparr>devs := (devs st)\<lparr>inputAvailable := 0, outputDone := 0\<rparr>\<rparr>)) (\<lambda>st1.
       Inr \<lparr>cnode = st1, writing = None, reading = None\<rparr>)"

definition WriteLine_begin :: "8 word list \<Rightarrow> int \<Rightarrow> SynchConsole \<Rightarrow> SynchConsole option" where
  "WriteLine_begin line size1 s = (case writing s of
     None \<Rightarrow> Some (s\<lparr>writing := Some \<lparr>w_line = line, w_pos = 0, w_size = size1, w_waits = False\<rparr>\<rparr>)
   | Some _ \<Rightarrow> None)"

text \<open>One step of the loop \<^verbatim>\<open>while (size --)\<close>, up to the next point where the thread may wait.\<close>

definition WriteLine_step :: "SynchConsole \<Rightarrow> SynchConsole option res" where
  "WriteLine_step s = (case writing s of
     None \<Rightarrow> Inr None
   | Some w \<Rightarrow>
       if w_waits w
       then Inr (map_option (\<lambda>st. s\<lparr>cnode := st, writing := Some (w\<lparr>w_waits := False\<rparr>)\<rparr>) (P_output (cnode s)))
       else if w_size w = 0 then Inr (Some (s\<lparr>writing := None\<rparr>))
       else if w_pos w < length (w_line w)
       then bindR (PutChar (w_line w ! w_pos w) (cnode s)) (\<lambda>st.
              Inr (Some (s\<lparr>cnode := st, writing := Some (w\<lparr>w_pos := w_pos w + 1, w_size := w_size w - 1, w_waits := True\<rparr>)\<rparr>)))
       else Inl OutOfBounds)"

definition ReadLine_begin :: "int \<Rightarrow> SynchConsole \<Rightarrow> SynchConsole option" where
  "ReadLine_begin size1 s = (case reading s of
     None \<Rightarrow> Some (s\<lparr>reading := Some \<lparr>r_size = size1, r_line = [], r_c = 0, r_got = False\<rparr>\<rparr>)
   | Some _ \<Rightarrow> None)"

text \<open>A step of \<^verbatim>\<open>ReadLine\<close>; the first component is the line, when the call returns it.\<close>

definition ReadLine_step :: "SynchConsole \<Rightarrow> (8 word list option \<times> SynchConsole) option" where
  "ReadLine_step s = (case reading s of
     None \<Rightarrow> None
   | Some r \<Rightarrow>
       if r_got r
       then let (c, st) = GetChar (cnode s) in
            Some (None, s\<lparr>cnode := st, reading := Some (r\<lparr>r_c := c, r_line := r_line r @ [c], r_got := False\<rparr>)\<rparr>)
       else if r_c r \<noteq> 10 \<and> int (length (r_line r)) < r_size r
       then map_option (\<lambda>st. (None, s\<lparr>cnode := st, reading := Some (r\<lparr>r_got := True\<rparr>)\<rparr>)) (P_input (cnode s))
       else Some (Some (r_line r), s\<lparr>reading := None\<rparr>))"

section \<open>The echo program\<close>

datatype echo = Echo_read | Echo_get | Echo_put "8 word" | Echo_wait "8 word" | Echo_return

definition ConsoleTest_begin :: "Console \<Rightarrow> cnode \<Rightarrow> (echo \<times> cnode) res" where
  "ConsoleTest_begin c st =
     bindR (new_Console c (st\<lparr>devs := (devs st)\<lparr>inputAvailable := 0, outputDone := 0\<rparr>\<rparr>)) (\<lambda>st1. Inr (Echo_read, st1))"

definition ConsoleTest_step :: "echo \<times> cnode \<Rightarrow> (echo \<times> cnode) option res" where
  "ConsoleTest_step = (\<lambda>(e, st). case e of
     Echo_read \<Rightarrow> Inr (map_option (Pair Echo_get) (P_input st))
   | Echo_get \<Rightarrow> let (ch, st1) = GetChar st in Inr (Some (Echo_put ch, st1))
   | Echo_put ch \<Rightarrow> bindR (PutChar ch st) (\<lambda>st1. Inr (Some (Echo_wait ch, st1)))
   | Echo_wait ch \<Rightarrow> Inr (map_option (Pair (if ch = 113 then Echo_return else Echo_read)) (P_output st))
   | Echo_return \<Rightarrow> Inr None)"

section \<open>The device keeps the contract of the interrupt controller\<close>

definition con_ok :: "ConsoleUser \<Rightarrow> bool" where
  "con_ok d \<longleftrightarrow> \<not> readEnds (console d)"

definition con_again :: "ConsoleHandler \<Rightarrow> ConsoleHandler multiset" where
  "con_again h = (if h = ConsoleReadPoll then {#ConsoleReadPoll#} else {#})"

lemma con_simps [simp]:
  "con (set_con c st) = c" "pending (set_con c st) = pending st" "imachine (set_con c st) = imachine st"
  "con (st\<lparr>pending := l\<rparr>) = con st" "totalTime (set_con c st) = totalTime st" "ilevel (set_con c st) = ilevel st"
  "inputAvailable (devs (set_con c st)) = inputAvailable (devs st)" "outputDone (devs (set_con c st)) = outputDone (devs st)"
  "intr_wf (set_con c st) = intr_wf st"
  by (simp_all add: con_def set_con_def intr_wf_def)

text \<open>What the poll does, the new interrupt apart.\<close>

lemma CheckCharAvail_ok:
  assumes "intr_wf st" "\<not> readEnds (con st)"
  shows "\<exists>st' l. CheckCharAvail st = Inr st' \<and> intr_wf st' \<and> pending st' = l \<and>
    keyed_items l = insert_all [(\<lparr>pi_handler = ConsoleReadPoll, pi_arg = 0, pi_when = totalTime st + 100, pi_type = ConsoleReadInt\<rparr>,
      totalTime st + 100)] (keyed_items (pending st)) \<and> ilevel st' = ilevel st \<and> totalTime st' = totalTime st \<and>
    \<not> readEnds (con st') \<and> writeFile (con st') = writeFile (con st) \<and> putBusy (con st') = putBusy (con st) \<and>
    outputDone (devs st') = outputDone (devs st) \<and>
    (if incoming (con st) = - 1 \<and> readFile (con st) \<noteq> []
     then incoming (con st') = hd (readFile (con st)) \<and> readFile (con st') = tl (readFile (con st)) \<and>
       inputAvailable (devs st') = inputAvailable (devs st) + 1
     else incoming (con st') = incoming (con st) \<and> readFile (con st') = readFile (con st) \<and>
       inputAvailable (devs st') = inputAvailable (devs st))"
proof -
  from Schedule_ok [OF assms(1), of 100 ConsoleReadPoll 0 ConsoleReadInt] obtain l where
    l: "Schedule ConsoleReadPoll 0 100 ConsoleReadInt st = Inr (st\<lparr>pending := l\<rparr>)" "intr_wf (st\<lparr>pending := l\<rparr>)"
      "keyed_items l = insert_all [(\<lparr>pi_handler = ConsoleReadPoll, pi_arg = 0, pi_when = totalTime st + 100, pi_type = ConsoleReadInt\<rparr>,
        totalTime st + 100)] (keyed_items (pending st))" by auto
  show ?thesis
  proof (cases "incoming (con st) = - 1 \<and> readFile (con st) \<noteq> []")
    case True
    then obtain b bs where b: "readFile (con st) = b # bs" by (cases "readFile (con st)") auto
    let ?st = "ReadAvail (set_con ((con st)\<lparr>incoming := b, readFile := bs, numConsoleCharsRead := numConsoleCharsRead (con st) + 1\<rparr>)
      (st\<lparr>pending := l\<rparr>))"
    have "CheckCharAvail st = Inr ?st" using True b l(1) by (simp add: CheckCharAvail_def Let_def)
    then show ?thesis using l(2,3) b True assms(2)
      by (intro exI [of _ ?st] exI [of _ l]) (simp add: ReadAvail_def con_def set_con_def intr_wf_def)
  next
    case False
    then have "CheckCharAvail st = Inr (st\<lparr>pending := l\<rparr>)" using l(1) assms(2) by (auto simp: CheckCharAvail_def Let_def)
    then show ?thesis using l(2,3) False assms(2) by auto
  qed
qed

interpretation console_device: device_handlers run_console con_ok con_again 100
proof
  fix st :: cnode and h a
  assume c: "called st" "con_ok (devs st)"
  show "\<exists>st' new. run_console h a st = Inr st' \<and> intr_wf st' \<and> con_ok (devs st') \<and> ilevel st' = IntOff \<and>
      totalTime st' = totalTime st \<and> later (totalTime st) new \<and> due_by (totalTime st + 100) new \<and> waiting new = con_again h \<and>
      keyed_items (pending st') = insert_all new (keyed_items (pending st))"
  proof (cases h)
    case ConsoleReadPoll
    let ?new = "[(\<lparr>pi_handler = ConsoleReadPoll, pi_arg = 0, pi_when = totalTime st + 100, pi_type = ConsoleReadInt\<rparr>, totalTime st + 100)]"
    from c CheckCharAvail_ok [of st] obtain st' where
      "CheckCharAvail st = Inr st'" "intr_wf st'" "keyed_items (pending st') = insert_all ?new (keyed_items (pending st))"
      "ilevel st' = IntOff" "totalTime st' = totalTime st" "\<not> readEnds (con st')"
      by (auto simp: called_def con_ok_def con_def)
    then show ?thesis using ConsoleReadPoll
      by (intro exI [of _ st'] exI [of _ ?new]) (simp add: run_console_def later_def due_by_def con_again_def con_ok_def con_def)
  next
    case ConsoleWriteDone
    then show ?thesis using c
      by (intro exI [of _ "WriteDone st"] exI [of _ "[]"])
         (simp add: run_console_def WriteDone_def SynchWriteDone_def set_con_def con_def called_def con_ok_def intr_wf_def
           later_def due_by_def con_again_def insert_all_def)
  qed
qed

end
