(* ===== verification/Console_Props.thy ===== *)
theory Console_Props
  imports Console_Device
begin

text \<open>
  Properties of the console (\<open>Console_Device\<close>), over all interleavings of its interrupts with the threads
  that use it: no assertion of the device fails, no character is lost, doubled or reordered, and no thread
  waits for an interrupt that will not come.
\<close>

section \<open>The device and its semaphores\<close>

text \<open>
  \<open>w\<close>: a thread has put a character and not passed \<^verbatim>\<open>P\<close> since; \<open>r\<close>: one has passed \<^verbatim>\<open>P\<close> and not got its character.
  \<open>typed\<close> is all that was typed, \<open>got\<close> all that \<^verbatim>\<open>GetChar\<close> returned.
\<close>

definition buffered :: "Console \<Rightarrow> 8 word list" where
  "buffered c = (if incoming c = EOF_char then [] else [incoming c])"

definition to_come :: "cnode \<Rightarrow> nat" where
  "to_come st = count (waiting (keyed_items (pending st))) ConsoleWriteDone"

definition con_inv :: "bool \<Rightarrow> bool \<Rightarrow> 8 word list \<Rightarrow> 8 word list \<Rightarrow> cnode \<Rightarrow> bool" where
  "con_inv w r typed got st \<longleftrightarrow> intr_wf st \<and> \<not> readEnds (con st) \<and> - 1 \<notin> set typed \<and>
     to_come st + outputDone (devs st) = of_bool w \<and> (putBusy (con st) \<longleftrightarrow> to_come st = 1) \<and>
     inputAvailable (devs st) + of_bool r = length (buffered (con st)) \<and>
     got @ buffered (con st) @ readFile (con st) = typed"

lemma con_inv_poll:
  assumes i: "con_inv w r typed got st" and st': "CheckCharAvail st = Inr st'"
  shows "con_inv w r typed got st' \<and> writeFile (con st') = writeFile (con st)"
proof -
  have so: "sorted (map snd (keyed_items (pending st)))" using i by (simp add: con_inv_def intr_wf_def)
  note C = CheckCharAvail_ok [of st]
  have "intr_wf st" "\<not> readEnds (con st)" using i by (simp_all add: con_inv_def)
  note C = C [OF this]
  have t: "to_come st' = to_come st"
    using C st' waiting_insert_all [OF so] by (auto simp: to_come_def)
  show ?thesis
  proof (cases "incoming (con st) = - 1 \<and> readFile (con st) \<noteq> []")
    case True
    then obtain b bs where b: "readFile (con st) = b # bs" by (cases "readFile (con st)") auto
    moreover from b i have "b \<noteq> - 1" by (auto simp: con_inv_def)
    ultimately show ?thesis using C st' i t True by (auto simp: con_inv_def buffered_def)
  next
    case False
    then show ?thesis using C st' i t by (auto simp: con_inv_def buffered_def)
  qed
qed

text \<open>The state of the device when the interrupt \<open>h\<close> has been taken from the list.\<close>

lemma con_inv_fired:
  assumes i: "con_inv w r typed got st" and k: "keyed_items (pending st) = (p, k) # xs" "keyed_items (pending st0) = xs"
    and st0: "intr_wf st0" "devs st0 = devs st" and run: "run_console (pi_handler p) a st0 = Inr st1"
  shows "con_inv w r typed got st1 \<and> writeFile (con st1) = writeFile (con st)"
proof (cases "pi_handler p")
  case ConsoleReadPoll
  then have "con_inv w r typed got st0" using i k st0 by (simp add: con_inv_def to_come_def con_def)
  from con_inv_poll [OF this] run ConsoleReadPoll st0(2) show ?thesis by (simp add: run_console_def con_def)
next
  case ConsoleWriteDone
  then have t: "to_come st = Suc (to_come st0)" using k by (simp add: to_come_def)
  have st1: "st1 = WriteDone st0" using run ConsoleWriteDone by (simp add: run_console_def)
  then have "to_come st1 = to_come st0" by (simp add: to_come_def WriteDone_def SynchWriteDone_def set_con_def)
  then show ?thesis using i t st0 unfolding st1
    by (cases w) (auto simp: con_inv_def WriteDone_def SynchWriteDone_def set_con_def con_def buffered_def intr_wf_def)
qed

lemma con_inv_cong:
  "con_inv w r typed got st \<Longrightarrow> devs st' = devs st \<Longrightarrow> intr_wf st' \<Longrightarrow> mset (keyed_items (pending st')) = mset (keyed_items (pending st)) \<Longrightarrow>
     con_inv w r typed got st'"
  using waiting_cong [of "keyed_items (pending st')" "keyed_items (pending st)"] by (simp add: con_inv_def to_come_def con_def)

lemma con_inv_interrupt:
  assumes i: "con_inv w r typed got st" and c: "CheckIfDue run_console adv st = Inr (x, st')"
  shows "con_inv w r typed got st' \<and> writeFile (con st') = writeFile (con st)"
proof (cases x)
  case None
  have wf: "intr_wf st" using i by (simp add: con_inv_def)
  have "mset (keyed_items (pending st')) = mset (keyed_items (pending st)) \<and> intr_wf st' \<and> devs st' = devs st"
    using CheckIfDue_quiet [OF wf, of run_console adv st'] c None by simp
  then show ?thesis using con_inv_cong [OF i] by (simp add: con_def)
next
  case (Some p)
  have wf: "intr_wf st" using i by (simp add: con_inv_def)
  from CheckIfDue_fired [OF wf c [unfolded Some]] obtain k xs st0 st1 where
    f: "keyed_items (pending st) = (p, k) # xs" "keyed_items (pending st0) = xs" "intr_wf st0" "devs st0 = devs st"
      "run_console (pi_handler p) (pi_arg p) st0 = Inr st1" "pending st' = pending st1" "devs st' = devs st1" "imachine st' = imachine st1" by blast
  from con_inv_fired [OF i f(1-5)] show ?thesis using f(6-8) con_inv_cong [of w r typed got st1 st'] by (simp add: con_def con_inv_def intr_wf_def)
qed

lemma con_inv_PutChar:
  assumes i: "con_inv False r typed got st"
  shows "\<exists>st'. PutChar c st = Inr st' \<and> con_inv True r typed got st' \<and> writeFile (con st') = writeFile (con st) @ [c]"
proof -
  let ?st = "set_con ((con st)\<lparr>writeFile := writeFile (con st) @ [c], putBusy := True\<rparr>) st"
  have wf: "intr_wf ?st" "sorted (map snd (keyed_items (pending st)))" using i by (simp_all add: con_inv_def intr_wf_def)
  from Schedule_ok [OF wf(1), of 100 ConsoleWriteDone 0 ConsoleWriteInt] obtain l where
    l: "Schedule ConsoleWriteDone 0 100 ConsoleWriteInt ?st = Inr (?st\<lparr>pending := l\<rparr>)" "intr_wf (?st\<lparr>pending := l\<rparr>)"
      "waiting (keyed_items l) = add_mset ConsoleWriteDone (waiting (keyed_items (pending st)))"
    using waiting_insert_all [OF wf(2)] by auto
  have "to_come st = 0" "outputDone (devs st) = 0" "\<not> putBusy (con st)" using i by (auto simp: con_inv_def)
  then show ?thesis using i l
    by (intro exI [of _ "?st\<lparr>pending := l\<rparr>"]) (auto simp: PutChar_def con_inv_def to_come_def buffered_def split: if_splits)
qed

lemma con_inv_P_output: "con_inv True r typed got st \<Longrightarrow> P_output st = Some st' \<Longrightarrow> con_inv False r typed got st' \<and> con st' = con st"
  by (auto simp: P_output_def con_inv_def to_come_def con_def intr_wf_def split: if_splits)

lemma con_inv_P_input: "con_inv w False typed got st \<Longrightarrow> P_input st = Some st' \<Longrightarrow> con_inv w True typed got st' \<and> con st' = con st"
  by (auto simp: P_input_def con_inv_def to_come_def con_def intr_wf_def split: if_splits)

lemma con_inv_GetChar:
  assumes "con_inv w True typed got st" "GetChar st = (c, st')"
  shows "con_inv w False typed (got @ [c]) st' \<and> writeFile (con st') = writeFile (con st)"
  using assms by (auto simp: GetChar_def con_inv_def to_come_def buffered_def split: if_splits)

lemma con_inv_type:
  "con_inv w r typed got st \<Longrightarrow> b \<noteq> - 1 \<Longrightarrow> con_inv w r (typed @ [b]) got (set_con ((con st)\<lparr>readFile := readFile (con st) @ [b]\<rparr>) st)"
  by (auto simp: con_inv_def to_come_def buffered_def)

lemma con_inv_new:
  assumes "new_Console c (st\<lparr>devs := (devs st)\<lparr>inputAvailable := 0, outputDone := 0\<rparr>\<rparr>) = Inr st'" "intr_wf st" "pending st = new_List"
    "\<not> readEnds c" "readFile c = typed" "- 1 \<notin> set typed"
  shows "con_inv False False typed [] st' \<and> writeFile (con st') = writeFile c"
proof -
  let ?st = "set_con (c\<lparr>putBusy := False, incoming := - 1\<rparr>) (st\<lparr>devs := (devs st)\<lparr>inputAvailable := 0, outputDone := 0\<rparr>\<rparr>)"
  have wf: "intr_wf ?st" using assms(2) by (simp add: intr_wf_def)
  from Schedule_ok [OF wf, of 100 ConsoleReadPoll 0 ConsoleReadInt] obtain l where
    l: "Schedule ConsoleReadPoll 0 100 ConsoleReadInt ?st = Inr (?st\<lparr>pending := l\<rparr>)" "intr_wf (?st\<lparr>pending := l\<rparr>)"
      "keyed_items l = insert_all [(\<lparr>pi_handler = ConsoleReadPoll, pi_arg = 0, pi_when = totalTime ?st + 100, pi_type = ConsoleReadInt\<rparr>,
        totalTime ?st + 100)] (keyed_items (pending ?st))" by auto
  have "to_come (?st\<lparr>pending := l\<rparr>) = 0" using l(3) assms(3) by (simp add: to_come_def keyed_items_new waiting_insert_all)
  then show ?thesis using l assms by (auto simp: new_Console_def con_inv_def buffered_def)
qed

section \<open>The synchronous console\<close>

text \<open>
  All that can happen: a key is typed, an interrupt is handled, the clock and the interrupt level change,
  a thread calls \<^verbatim>\<open>WriteLine\<close> (with a buffer of at least the size it says) or \<^verbatim>\<open>ReadLine\<close>, or a call takes a step. The state is the console
  with what was typed, what \<^verbatim>\<open>ReadLine\<close> took from the device, and the lines that were given to \<^verbatim>\<open>WriteLine\<close>.
\<close>

record history =
  h_typed :: "8 word list"
  h_got :: "8 word list"
  h_lines :: "8 word list list"

definition taken :: "SynchConsole \<Rightarrow> 8 word list" where
  "taken s = (case reading s of Some r \<Rightarrow> if r_got r then [fst (GetChar (cnode s))] else [] | None \<Rightarrow> [])"

inductive con_step :: "SynchConsole \<times> history \<Rightarrow> SynchConsole \<times> history \<Rightarrow> bool" where
  typing: "b \<noteq> EOF_char \<Longrightarrow> con_step (s, h) (s\<lparr>cnode := set_con ((con (cnode s))\<lparr>readFile := readFile (con (cnode s)) @ [b]\<rparr>) (cnode s)\<rparr>,
    h\<lparr>h_typed := h_typed h @ [b]\<rparr>)"
| interrupt: "CheckIfDue run_console adv (cnode s) = Inr (x, st') \<Longrightarrow> con_step (s, h) (s\<lparr>cnode := st'\<rparr>, h)"
| clock: "con_step (s, h) (s\<lparr>cnode := (cnode s)\<lparr>totalTime := t, ilevel := l, istatus := m\<rparr>\<rparr>, h)"
| write_begin: "0 \<le> n \<Longrightarrow> nat n \<le> length line \<Longrightarrow> WriteLine_begin line n s = Some s' \<Longrightarrow>
    con_step (s, h) (s', h\<lparr>h_lines := h_lines h @ [take (nat n) line]\<rparr>)"
| write_step: "WriteLine_step s = Inr (Some s') \<Longrightarrow> con_step (s, h) (s', h)"
| read_begin: "ReadLine_begin n s = Some s' \<Longrightarrow> con_step (s, h) (s', h)"
| read_step: "ReadLine_step s = Some (res, s') \<Longrightarrow> con_step (s, h) (s', h\<lparr>h_got := h_got h @ taken s\<rparr>)"

inductive con_reach :: "SynchConsole \<times> history \<Rightarrow> bool" where
  start: "new_SynchConsole c st = Inr s \<Longrightarrow> intr_wf st \<Longrightarrow> pending st = new_List \<Longrightarrow> \<not> readEnds c \<Longrightarrow> readFile c = [] \<Longrightarrow> writeFile c = [] \<Longrightarrow>
    con_reach (s, \<lparr>h_typed = [], h_got = [], h_lines = []\<rparr>)"
| step: "con_reach x \<Longrightarrow> con_step x y \<Longrightarrow> con_reach y"

definition put_waits :: "SynchConsole \<Rightarrow> bool" where
  "put_waits s \<longleftrightarrow> (case writing s of Some w \<Rightarrow> w_waits w | None \<Rightarrow> False)"

definition get_next :: "SynchConsole \<Rightarrow> bool" where
  "get_next s \<longleftrightarrow> (case reading s of Some r \<Rightarrow> r_got r | None \<Rightarrow> False)"

text \<open>What the call in progress has still to put on the display.\<close>

definition rest_of_line :: "SynchConsole \<Rightarrow> 8 word list" where
  "rest_of_line s = (case writing s of Some w \<Rightarrow> take (nat (w_size w)) (drop (w_pos w) (w_line w)) | None \<Rightarrow> [])"

definition line_ok :: "SynchConsole \<Rightarrow> bool" where
  "line_ok s \<longleftrightarrow> (case writing s of Some w \<Rightarrow> 0 \<le> w_size w \<and> w_pos w + nat (w_size w) \<le> length (w_line w) | None \<Rightarrow> True)"

definition synch_inv :: "SynchConsole \<times> history \<Rightarrow> bool" where
  "synch_inv = (\<lambda>(s, h). con_inv (put_waits s) (get_next s) (h_typed h) (h_got h) (cnode s) \<and> line_ok s \<and>
     writeFile (con (cnode s)) @ rest_of_line s = concat (h_lines h))"

lemma synch_inv_write_step:
  assumes i: "synch_inv (s, h)"
  shows "\<exists>r. WriteLine_step s = Inr r \<and> (\<forall>s'. r = Some s' \<longrightarrow> synch_inv (s', h))"
proof (cases "writing s")
  case (Some w)
  note i = i [unfolded synch_inv_def, simplified]
  consider (waits) "w_waits w" | (over) "\<not> w_waits w" "w_size w = 0" | (put) "\<not> w_waits w" "w_size w \<noteq> 0" by blast
  then show ?thesis
  proof cases
    case waits
    then show ?thesis using i Some con_inv_P_output [of "get_next s" "h_typed h" "h_got h" "cnode s"]
      by (auto simp: WriteLine_step_def synch_inv_def put_waits_def get_next_def line_ok_def rest_of_line_def)
  next
    case over
    then show ?thesis using i Some by (auto simp: WriteLine_step_def synch_inv_def put_waits_def get_next_def line_ok_def rest_of_line_def)
  next
    case put
    then have n: "w_pos w < length (w_line w)" "nat (w_size w) = Suc (nat (w_size w - 1))" "0 \<le> w_size w - 1"
      using i Some by (auto simp: line_ok_def)
    then have r: "rest_of_line s = w_line w ! w_pos w # take (nat (w_size w - 1)) (drop (Suc (w_pos w)) (w_line w))"
      using Some by (simp add: rest_of_line_def Cons_nth_drop_Suc [symmetric])
    have "con_inv False (get_next s) (h_typed h) (h_got h) (cnode s)" using i Some put by (simp add: put_waits_def)
    from con_inv_PutChar [OF this] obtain st' where "PutChar (w_line w ! w_pos w) (cnode s) = Inr st'"
      "con_inv True (get_next s) (h_typed h) (h_got h) st'" "writeFile (con st') = writeFile (con (cnode s)) @ [w_line w ! w_pos w]" by blast
    then show ?thesis using i put Some n r
      by (auto simp: WriteLine_step_def synch_inv_def put_waits_def get_next_def line_ok_def rest_of_line_def)
  qed
qed (simp add: WriteLine_step_def)

lemma synch_inv_read_step:
  assumes "synch_inv (s, h)" "ReadLine_step s = Some (res, s')"
  shows "synch_inv (s', h\<lparr>h_got := h_got h @ taken s\<rparr>)"
proof -
  obtain r where r: "reading s = Some r" using assms(2) by (cases "reading s") (auto simp: ReadLine_step_def)
  note i = assms(1) [unfolded synch_inv_def, simplified]
  note defs = ReadLine_step_def synch_inv_def put_waits_def get_next_def line_ok_def rest_of_line_def taken_def
  show ?thesis
  proof (cases "r_got r")
    case True
    obtain c st where g: "GetChar (cnode s) = (c, st)" by (cases "GetChar (cnode s)")
    have "con_inv (put_waits s) True (h_typed h) (h_got h) (cnode s)" using i r True by (simp add: get_next_def)
    from con_inv_GetChar [OF this g] show ?thesis using assms(2) i r True g by (auto simp: defs)
  next
    case False
    then have c: "con_inv (put_waits s) False (h_typed h) (h_got h) (cnode s)" using i r by (simp add: get_next_def)
    show ?thesis
    proof (cases "r_c r \<noteq> 10 \<and> int (length (r_line r)) < r_size r")
      case True
      then obtain st where "P_input (cnode s) = Some st" "s' = s\<lparr>cnode := st, reading := Some (r\<lparr>r_got := True\<rparr>)\<rparr>"
        using assms(2) r False by (auto simp: ReadLine_step_def)
      then show ?thesis using con_inv_P_input [OF c] i r False by (simp add: defs)
    next
      case notP: False
      then show ?thesis using assms(2) i r False c by (auto simp: defs)
    qed
  qed
qed

lemma synch_inv_step: "con_step x y \<Longrightarrow> synch_inv x \<Longrightarrow> synch_inv y"
proof (induction rule: con_step.induct)
  case (typing b s h)
  then show ?case using con_inv_type by (simp add: synch_inv_def put_waits_def get_next_def line_ok_def rest_of_line_def)
next
  case (interrupt adv s x st' h)
  then show ?case using con_inv_interrupt [OF _ interrupt(1)]
    by (auto simp: synch_inv_def put_waits_def get_next_def line_ok_def rest_of_line_def)
next
  case (clock s h m l t)
  let ?st = "(cnode s)\<lparr>totalTime := t, ilevel := l, istatus := m\<rparr>"
  have "con_inv (put_waits s) (get_next s) (h_typed h) (h_got h) ?st"
    by (rule con_inv_cong [of _ _ _ _ "cnode s"]) (use clock in \<open>simp_all add: synch_inv_def con_inv_def intr_wf_def\<close>)
  then show ?case using clock by (simp add: synch_inv_def put_waits_def get_next_def line_ok_def rest_of_line_def con_def)
next
  case (write_begin n line s s' h)
  then show ?case
    by (auto simp: WriteLine_begin_def synch_inv_def put_waits_def get_next_def line_ok_def rest_of_line_def split: option.splits)
next
  case (write_step s s' h)
  then show ?case using synch_inv_write_step [of s h] by auto
next
  case (read_begin n s s' h)
  then show ?case
    by (auto simp: ReadLine_begin_def synch_inv_def put_waits_def get_next_def line_ok_def rest_of_line_def split: option.splits)
next
  case (read_step s res s' h)
  then show ?case using synch_inv_read_step by blast
qed

lemma con_reach_inv: "con_reach x \<Longrightarrow> synch_inv x"
proof (induction rule: con_reach.induct)
  case (start c st s)
  then obtain st' where "new_Console c (st\<lparr>devs := (devs st)\<lparr>inputAvailable := 0, outputDone := 0\<rparr>\<rparr>) = Inr st'"
    "s = \<lparr>cnode = st', writing = None, reading = None\<rparr>" by (auto simp: new_SynchConsole_def bindR_eq_Inr_iff)
  with con_inv_new [OF this(1) start(2-4), of "[]"] start(5,6) show ?case
    by (simp add: synch_inv_def put_waits_def get_next_def line_ok_def rest_of_line_def)
qed (blast intro: synch_inv_step)

text \<open>
  C22: whatever threads call \<^verbatim>\<open>WriteLine\<close> and however interrupts fall, \<^verbatim>\<open>PutChar\<close> never finds the device busy, the display
  shows the lines one after the other, each whole, in the order of the calls, and a writer that waits is about to
  be woken: its semaphore is up or the interrupt that raises it is pending.
\<close>

theorem console_lines_whole:
  assumes "con_reach (s, h)"
  shows "(\<exists>r. WriteLine_step s = Inr r) \<and> writeFile (con (cnode s)) @ rest_of_line s = concat (h_lines h) \<and>
    (writing s = None \<longrightarrow> writeFile (con (cnode s)) = concat (h_lines h)) \<and>
    (put_waits s \<longrightarrow> outputDone (devs (cnode s)) = 1 \<or> to_come (cnode s) = 1)"
proof -
  note i = con_reach_inv [OF assms]
  then show ?thesis using synch_inv_write_step [OF i]
    by (auto simp: synch_inv_def rest_of_line_def con_inv_def)
qed

text \<open>
  what \<^verbatim>\<open>ReadLine\<close> has taken, the character in the buffer of the device and the characters not yet read are,
  in this order, what was typed: no character is lost, doubled or overtaken, if none is the byte 255; and the semaphore never
  counts more characters than the buffer has.
\<close>

theorem console_input_in_order:
  assumes "con_reach (s, h)"
  shows "h_got h @ buffered (con (cnode s)) @ readFile (con (cnode s)) = h_typed h \<and>
    inputAvailable (devs (cnode s)) \<le> length (buffered (con (cnode s)))"
  using con_reach_inv [OF assms] by (auto simp: synch_inv_def con_inv_def)

section \<open>The echo program\<close>

text \<open>
  The program, the interrupts and the keyboard. The steps are those of a keyboard that never ends and types no byte 255
  (which is \<^verbatim>\<open>EOF\<close> as a \<^verbatim>\<open>char\<close>): \<open>byte_255_lost\<close> and \<open>console_input_end\<close> below are about the others.
\<close>

inductive echo_step :: "(echo \<times> cnode) \<times> history \<Rightarrow> (echo \<times> cnode) \<times> history \<Rightarrow> bool" where
  typing: "b \<noteq> EOF_char \<Longrightarrow> echo_step ((e, st), h) ((e, set_con ((con st)\<lparr>readFile := readFile (con st) @ [b]\<rparr>) st), h\<lparr>h_typed := h_typed h @ [b]\<rparr>)"
| interrupt: "CheckIfDue run_console adv st = Inr (x, st') \<Longrightarrow> echo_step ((e, st), h) ((e, st'), h)"
| clock: "echo_step ((e, st), h) ((e, st\<lparr>totalTime := t, ilevel := l, istatus := m\<rparr>), h)"
| program: "ConsoleTest_step (e, st) = Inr (Some (e', st')) \<Longrightarrow>
    echo_step ((e, st), h) ((e', st'), h\<lparr>h_got := h_got h @ (if e = Echo_get then [fst (GetChar st)] else [])\<rparr>)"

inductive echo_reach :: "(echo \<times> cnode) \<times> history \<Rightarrow> bool" where
  start: "ConsoleTest_begin c st = Inr p \<Longrightarrow> intr_wf st \<Longrightarrow> pending st = new_List \<Longrightarrow> \<not> readEnds c \<Longrightarrow> readFile c = [] \<Longrightarrow> writeFile c = [] \<Longrightarrow>
    echo_reach (p, \<lparr>h_typed = [], h_got = [], h_lines = []\<rparr>)"
| step: "echo_reach x \<Longrightarrow> echo_step x y \<Longrightarrow> echo_reach y"

definition echo_inv :: "(echo \<times> cnode) \<times> history \<Rightarrow> bool" where
  "echo_inv = (\<lambda>((e, st), h).
     con_inv (case e of Echo_wait _ \<Rightarrow> True | _ \<Rightarrow> False) (e = Echo_get) (h_typed h) (h_got h) st \<and>
     (case e of
        Echo_put ch \<Rightarrow> h_got h = writeFile (con st) @ [ch] \<and> 113 \<notin> set (writeFile (con st))
      | Echo_wait ch \<Rightarrow> h_got h = writeFile (con st) \<and> h_got h \<noteq> [] \<and> last (h_got h) = ch \<and> 113 \<notin> set (butlast (h_got h))
      | Echo_return \<Rightarrow> h_got h = writeFile (con st) \<and> h_got h \<noteq> [] \<and> last (h_got h) = 113 \<and> 113 \<notin> set (butlast (h_got h))
      | _ \<Rightarrow> h_got h = writeFile (con st) \<and> 113 \<notin> set (h_got h)))"

lemma echo_program:
  assumes "echo_inv ((e, st), h)"
  shows "\<exists>r. ConsoleTest_step (e, st) = Inr r \<and> (\<forall>e' st'. r = Some (e', st') \<longrightarrow>
    echo_inv ((e', st'), h\<lparr>h_got := h_got h @ (if e = Echo_get then [fst (GetChar st)] else [])\<rparr>))"
proof (cases e)
  case Echo_read
  then show ?thesis using assms con_inv_P_input [of False "h_typed h" "h_got h" st]
    by (cases "P_input st") (auto simp: ConsoleTest_step_def echo_inv_def)
next
  case Echo_get
  obtain ch st1 where g: "GetChar st = (ch, st1)" by (cases "GetChar st")
  then show ?thesis using assms Echo_get con_inv_GetChar [OF _ g, of False "h_typed h" "h_got h"]
    by (auto simp: ConsoleTest_step_def echo_inv_def)
next
  case (Echo_put ch)
  then have "con_inv False False (h_typed h) (h_got h) st" using assms unfolding echo_inv_def by auto
  from con_inv_PutChar [OF this, of ch] obtain st1 where "PutChar ch st = Inr st1" "con_inv True False (h_typed h) (h_got h) st1"
    "writeFile (con st1) = writeFile (con st) @ [ch]" by blast
  then show ?thesis using assms Echo_put by (auto simp: ConsoleTest_step_def echo_inv_def)
next
  case (Echo_wait ch)
  then have w: "h_got h \<noteq> []" "last (h_got h) = ch" "113 \<notin> set (butlast (h_got h))" "con_inv True False (h_typed h) (h_got h) st"
    "h_got h = writeFile (con st)" using assms unfolding echo_inv_def by auto
  have "set (h_got h) = insert ch (set (butlast (h_got h)))" using append_butlast_last_id [OF w(1)] w(2)
    by (metis list.simps(15) rotate1.simps(2) set_rotate1)
  then show ?thesis using Echo_wait w con_inv_P_output [OF w(4)]
    by (cases "P_output st") (simp_all add: ConsoleTest_step_def echo_inv_def)
next
  case Echo_return
  then show ?thesis by (simp add: ConsoleTest_step_def)
qed

lemma echo_inv_step: "echo_step x y \<Longrightarrow> echo_inv x \<Longrightarrow> echo_inv y"
proof (induction rule: echo_step.induct)
  case (typing b e st h)
  then show ?case using con_inv_type by (auto simp: echo_inv_def split: echo.splits)
next
  case (interrupt adv st x st' e h)
  then show ?case using con_inv_interrupt [OF _ interrupt(1)] by (auto simp: echo_inv_def split: echo.splits)
next
  case (clock e st h m l t)
  let ?st = "st\<lparr>totalTime := t, ilevel := l, istatus := m\<rparr>"
  have "intr_wf st \<Longrightarrow> intr_wf ?st" by (simp add: intr_wf_def)
  then have "con_inv w r ty g st \<Longrightarrow> con_inv w r ty g ?st" for w r ty g
    using con_inv_cong [of w r ty g st ?st] by (simp add: con_inv_def)
  then show ?case using clock by (auto simp: echo_inv_def con_def split: echo.splits)
next
  case (program e st e' st' h)
  then show ?case using echo_program [of e st h] by auto
qed

lemma echo_reach_inv: "echo_reach x \<Longrightarrow> echo_inv x"
proof (induction rule: echo_reach.induct)
  case (start c st p)
  then obtain st' where "new_Console c (st\<lparr>devs := (devs st)\<lparr>inputAvailable := 0, outputDone := 0\<rparr>\<rparr>) = Inr st'" "p = (Echo_read, st')"
    by (auto simp: ConsoleTest_begin_def bindR_eq_Inr_iff)
  with con_inv_new [OF this(1) start(2-4), of "[]"] start(5,6) show ?case by (simp add: echo_inv_def)
qed (blast intro: echo_inv_step)

text \<open>
  C23: as long as the keyboard delivers neither the byte 255 nor the end of its input, \<^verbatim>\<open>ConsoleTest\<close> displays what is
  typed, in order, never trips the assertion of the device, and when it returns it has displayed exactly the
  input up to and including the first \<^verbatim>\<open>q\<close>. (What happens otherwise is shown below: the byte 255 is lost, and at
  the end of the input an assertion fails.)
\<close>

theorem echo_until_q:
  assumes "echo_reach ((e, st), h)"
  shows "(\<exists>r. ConsoleTest_step (e, st) = Inr r) \<and> (\<exists>rest. h_typed h = writeFile (con st) @ rest) \<and>
    (e = Echo_return \<longrightarrow> (\<exists>pre rest. h_typed h = pre @ [113] @ rest \<and> 113 \<notin> set pre \<and> writeFile (con st) = pre @ [113]))"
proof -
  note i = echo_reach_inv [OF assms]
  have "\<exists>more. h_got h = writeFile (con st) @ more" using i by (auto simp: echo_inv_def split: echo.splits)
  moreover have "h_typed h = h_got h @ buffered (con st) @ readFile (con st)" using i by (simp add: echo_inv_def con_inv_def)
  moreover have "h_got h = butlast (h_got h) @ [113] \<and> 113 \<notin> set (butlast (h_got h)) \<and> writeFile (con st) = h_got h" if "e = Echo_return"
    using i that by (simp add: echo_inv_def) (metis append_butlast_last_id)
  ultimately show ?thesis using echo_program [OF i] by (metis append.assoc)
qed

text \<open>The byte 255 looks like an empty buffer: it is announced, and the next character overwrites it.\<close>

lemma byte_255_lost:
  assumes "intr_wf st" "\<not> readEnds (con st)" "incoming (con st) = EOF_char" "readFile (con st) = [EOF_char, b]"
  shows "\<exists>st1 st2. CheckCharAvail st = Inr st1 \<and> CheckCharAvail st1 = Inr st2 \<and> incoming (con st2) = b \<and> readFile (con st2) = [] \<and>
    inputAvailable (devs st2) = inputAvailable (devs st) + 2"
proof -
  from CheckCharAvail_ok [OF assms(1,2)] assms(3,4) obtain st1 where 1: "CheckCharAvail st = Inr st1" "intr_wf st1" "\<not> readEnds (con st1)"
    "incoming (con st1) = - 1" "readFile (con st1) = [b]" "inputAvailable (devs st1) = inputAvailable (devs st) + 1" by auto
  from CheckCharAvail_ok [OF 1(2,3)] 1(4-6) show ?thesis using 1(1) by auto
qed

text \<open>At the end of a file that stands for the keyboard the poll fails its assertion.\<close>

lemma console_input_end:
  assumes "readEnds (con st)" "readFile (con st) = []" "incoming (con st) = EOF_char" "intr_wf st"
  shows "CheckCharAvail st = Inl AssertionFailed"
proof -
  from Schedule_ok [OF assms(4), of 100 ConsoleReadPoll 0 ConsoleReadInt] obtain l where
    "Schedule ConsoleReadPoll 0 100 ConsoleReadInt st = Inr (st\<lparr>pending := l\<rparr>)" by auto
  then show ?thesis using assms by (simp add: CheckCharAvail_def Let_def)
qed

section \<open>Witnesses\<close>

definition blank :: Console where
  "blank = \<lparr>incoming = 0, putBusy = True, readFile = [], readEnds = False, writeFile = [], numConsoleCharsRead = 0, numConsoleCharsWritten = 0\<rparr>"

definition boot :: cnode where
  "boot = new_Interrupt None \<lparr>console = blank, inputAvailable = 0, outputDone = 0\<rparr>"

lemma console_boot_ok: "intr_wf boot" "pending boot = new_List"
  by (simp_all add: nonnull_inv_new boot_def new_Interrupt_def intr_wf_def keyed_items_new load_ok_def)

lemma demo_new: "\<exists>st. new_Console blank (boot\<lparr>devs := (devs boot)\<lparr>inputAvailable := 0, outputDone := 0\<rparr>\<rparr>) = Inr st"
proof -
  let ?st = "set_con (blank\<lparr>putBusy := False, incoming := - 1\<rparr>) (boot\<lparr>devs := (devs boot)\<lparr>inputAvailable := 0, outputDone := 0\<rparr>\<rparr>)"
  have "intr_wf ?st" using console_boot_ok by (simp add: intr_wf_def)
  from Schedule_ok [OF this, of 100 ConsoleReadPoll 0 ConsoleReadInt] show ?thesis by (auto simp: new_Console_def)
qed

text \<open>The string \<^verbatim>\<open>AB\<close> is written, its first character is on its way, and \<^verbatim>\<open>q\<close> has been typed.\<close>

lemma demo_console: "\<exists>s h. con_reach (s, h) \<and> h_lines h = [[65, 66]] \<and> h_typed h = [113] \<and> put_waits s"
proof -
  obtain st where st: "new_Console blank (boot\<lparr>devs := (devs boot)\<lparr>inputAvailable := 0, outputDone := 0\<rparr>\<rparr>) = Inr st" using demo_new by blast
  let ?s0 = "\<lparr>cnode = st, writing = None, reading = None\<rparr>" and ?h0 = "\<lparr>h_typed = [], h_got = [], h_lines = []\<rparr>"
  have 0: "con_reach (?s0, ?h0)" by (rule con_reach.start [of blank boot]) (use st console_boot_ok in \<open>simp_all add: new_SynchConsole_def blank_def\<close>)
  let ?w = "\<lparr>w_line = [65, 66], w_pos = 0, w_size = 2, w_waits = False\<rparr>"
  have "con_step (?s0, ?h0) (?s0\<lparr>writing := Some ?w\<rparr>, ?h0\<lparr>h_lines := h_lines ?h0 @ [take (nat 2) [65, 66]]\<rparr>)"
    by (rule con_step.write_begin) (simp_all add: WriteLine_begin_def)
  note 1 = con_reach.step [OF 0 this]
  let ?s1 = "?s0\<lparr>writing := Some ?w\<rparr>"
  obtain s2 where s2: "WriteLine_step ?s1 = Inr (Some s2)" "put_waits s2"
    using synch_inv_write_step [OF con_reach_inv [OF 1]] by (auto simp: WriteLine_step_def bindR_eq_Inr_iff put_waits_def)
  note 2 = con_reach.step [OF 1 con_step.write_step [OF s2(1)]]
  note 3 = con_reach.step [OF 2 con_step.typing [of 113]]
  show ?thesis
    by (rule exI, rule exI, rule conjI, rule 3) (use s2(2) in \<open>simp_all add: put_waits_def\<close>)
qed

theorem console_lines_whole_witness:
  "\<exists>s h. con_reach (s, h) \<and> writeFile (con (cnode s)) @ rest_of_line s = [65, 66] \<and>
     (outputDone (devs (cnode s)) = 1 \<or> to_come (cnode s) = 1)"
proof -
  obtain s h where s: "con_reach (s, h)" "h_lines h = [[65, 66]]" "put_waits s" using demo_console by blast
  from console_lines_whole [OF s(1)] s show ?thesis by (intro exI [of _ s] exI [of _ h]) simp
qed

theorem console_input_in_order_witness:
  "\<exists>s h. con_reach (s, h) \<and> h_got h @ buffered (con (cnode s)) @ readFile (con (cnode s)) = [113]"
proof -
  obtain s h where s: "con_reach (s, h)" "h_typed h = [113]" using demo_console by blast
  from console_input_in_order [OF s(1)] s show ?thesis by (intro exI [of _ s] exI [of _ h]) simp
qed

theorem echo_until_q_witness:
  "\<exists>e st h. echo_reach ((e, st), h) \<and> h_typed h = [113] \<and> (\<exists>rest. [113] = writeFile (con st) @ rest)"
proof -
  obtain st where st: "new_Console blank (boot\<lparr>devs := (devs boot)\<lparr>inputAvailable := 0, outputDone := 0\<rparr>\<rparr>) = Inr st" using demo_new by blast
  have "echo_reach ((Echo_read, st), \<lparr>h_typed = [], h_got = [], h_lines = []\<rparr>)"
    by (rule echo_reach.start [of blank boot]) (use st console_boot_ok in \<open>simp_all add: ConsoleTest_begin_def blank_def\<close>)
  from echo_reach.step [OF this echo_step.typing [of 113]]
  have r: "echo_reach ((Echo_read, set_con ((con st)\<lparr>readFile := readFile (con st) @ [113]\<rparr>) st), \<lparr>h_typed = [113], h_got = [], h_lines = []\<rparr>)" by simp
  from echo_until_q [OF r] r show ?thesis by (metis history.select_convs(1))
qed

end
