(* ===== verification/Spec2Isabelle.thy ===== *)
theory Spec2Isabelle
  imports Linked_List Bit_Map Thread_Tests Office_Props Interpreter Coff_Noff Example_Stacks User_Switch File_Tests File_Props Call_Props Start_Up Console_Props
begin

text \<open>
  A verification of the Nachos operating system of this repository
  (\<^verbatim>\<open>nachos-csci402/code\<close>), extended by its authors with locks, condition variables, system
  calls, demand paging and a networked lock server.

  \<^bold>\<open>The program.\<close> Nachos is a kernel written in C++ that runs on a simulated machine.
  \<^verbatim>\<open>threads/\<close> holds the thread package: lists, threads, the scheduler and the synchronisation
  primitives. \<^verbatim>\<open>machine/\<close> simulates the hardware: a MIPS processor with registers, memory and
  address translation, the interrupt controller, and devices such as the disk. \<^verbatim>\<open>userprog/\<close>
  runs user programs on that machine (bit maps for allocation, address spaces, system calls),
  \<^verbatim>\<open>filesys/\<close> stores files on the simulated disk, and \<^verbatim>\<open>network/\<close> has the mail system and the
  server that offers locks, condition variables and monitor variables to remote user programs.

  \<^bold>\<open>Conventions.\<close> A routine that can fail returns \<open>fault + 'a\<close> (\<open>Inl\<close> the fault): a failing
  \<^verbatim>\<open>ASSERT\<close>, a null or dangling pointer, an index outside an array or a read of uninitialised
  memory are values, never totalised away. Memory that C++ leaves uninitialised is an argument.
  A machine \<^verbatim>\<open>int\<close> is a \<open>32 word\<close> where bits matter, and an \<open>int\<close> passed through \<open>int32\<close>
  where only its value does. Code outside the repository is an argument of the definitions that
  call it.

  \<^bold>\<open>The theories\<close>, each with the part of the program it models and what is shown of it.

  \<^item> \<open>Nachos_Prelude\<close>: faults and sequencing, the rounding macros of \<^verbatim>\<open>utility.h\<close>, C integers,
    generic lemmas. \<open>Memory_Image\<close>: objects as the bytes that are written to disks and wires.

  \<^emph>\<open>Threads (\<^verbatim>\<open>threads/\<close>).\<close>
  \<^item> \<open>Linked_List\<close>: \<^verbatim>\<open>list.cc\<close> over an explicit heap of list cells, with its refinement
    to HOL lists and the locale of sorted lists.
  \<^item> \<open>Thread_Kernel\<close>, \<open>Thread_Safety\<close>, \<open>Thread_Props\<close>: \<^verbatim>\<open>thread.cc\<close>, \<^verbatim>\<open>scheduler.cc\<close>,
    \<^verbatim>\<open>synch.cc\<close>, \<^verbatim>\<open>synchlist.cc\<close> as one kernel state and a step relation over all calls a thread may
    make, in which the loop of \<^verbatim>\<open>Broadcast\<close> is interruptible as in the code; every reachable state is
    consistent, no assertion of the kernel can fail, locks are lost only by their owner, and semaphores
    count right as long as their C \<^verbatim>\<open>int\<close> does not overflow.
  \<^item> \<open>Thread_Tests\<close>: \<^verbatim>\<open>ThreadTest\<close> and \<^verbatim>\<open>TestSuite\<close> of \<^verbatim>\<open>threadtest.cc\<close> as programs of that kernel.
  \<^item> \<open>User_Switch\<close>: the part of a context switch that concerns user programs (registers, address spaces, stack
    checks, deletion of finished threads); a thread finds its registers and its memory again.
  \<^item> \<open>Monitor_Threads\<close>, \<open>Passport_Office\<close>, \<open>Office_Props\<close>: the passport office of \<^verbatim>\<open>threadtest.cc\<close>; a lock discipline that
    is checked on the programs of the threads holds in every interleaving of every test but the first and excludes circular
    waiting for locks; three races are exhibited.

  \<^item> \<open>Start_Up\<close>: the command line in \<^verbatim>\<open>main.cc\<close> and \<^verbatim>\<open>system.cc\<close>, and \<^verbatim>\<open>Cleanup\<close>; when the two passes over the options understand each
    other, and the use of the deleted file system at the end.

  \<^emph>\<open>Machine (\<^verbatim>\<open>machine/\<close>).\<close>
  \<^item> \<open>Machine_Memory\<close>, \<open>Mips_Sim\<close>, \<open>Mips_Props\<close>: \<^verbatim>\<open>machine.cc\<close>, \<^verbatim>\<open>translate.cc\<close>, \<^verbatim>\<open>mipssim.cc\<close>:
    translation, memory access and all instructions, with exactness of the arithmetic, delay slots
    and the deviations from the architecture.
  \<^item> \<open>Interrupts\<close>, \<open>Post_Office\<close>, \<open>Net_Props\<close>: \<^verbatim>\<open>interrupt.cc\<close>, \<^verbatim>\<open>timer.cc\<close>, \<^verbatim>\<open>network.cc\<close> and \<^verbatim>\<open>network/post.cc\<close>;
    the locale of the interrupt controller's devices, all due interrupts are served by a tick, mail
    arrives unchanged and in order. \<open>Mail_Test\<close>: \<^verbatim>\<open>MailTest\<close> of \<^verbatim>\<open>nettest.cc\<close> on two machines; the exchange cannot get stuck.
    \<open>Machine_Loop\<close>: \<^verbatim>\<open>Machine::Run\<close> and the debugger; processor, clock and devices together run any number of instructions
    up to the next exception or preemption.
  \<^item> \<open>Console_Device\<close>, \<open>Console_Props\<close>: \<^verbatim>\<open>console.cc\<close>, \<^verbatim>\<open>userprog/synchconsole.cc\<close> and \<^verbatim>\<open>ConsoleTest\<close>; lines are not mixed,
    input is not reordered, the echo program echoes (input without byte 255 and without an end).
  \<^item> \<open>Disk_Device\<close>: \<^verbatim>\<open>disk.cc\<close> and \<^verbatim>\<open>filesys/synchdisk.cc\<close>, timing included, and the locale
    \<open>sector_store\<close>.

  \<^emph>\<open>User programs (\<^verbatim>\<open>userprog/\<close>).\<close>
  \<^item> \<open>Bit_Map\<close>: \<^verbatim>\<open>bitmap.cc\<close> on 32-bit words and the locale \<open>allocator\<close> that its clients use. \<open>Open_Table\<close>: the table
    of open files.
  \<^item> \<open>Virtual_Memory\<close>, \<open>VM_Props\<close>, \<open>VM_Reach\<close>: \<^verbatim>\<open>addrspace.cc\<close> and the page-fault handler of \<^verbatim>\<open>exception.cc\<close> (inverted page
    table, TLB, swap file); a fault is resolved, evicting and reloading pages is invisible to programs, and
    the TLB isolates processes.
  \<^item> \<open>User_Memory\<close>, \<open>File_Calls\<close>, \<open>File_Props\<close>: \<^verbatim>\<open>copyin\<close>, \<^verbatim>\<open>copyout\<close> and the system calls on files; handles never
    dangle or alias, what is written is read back.
  \<^item> \<open>Processes\<close>, \<open>Process_Props\<close>: \<^verbatim>\<open>Exec\<close>, \<^verbatim>\<open>Fork\<close>, \<^verbatim>\<open>Exit\<close>, \<^verbatim>\<open>StartProcess\<close>; stacks are apart, counts are right, the
    machine halts with the last process.
  \<^item> \<open>Client_Stubs\<close>, \<open>System_Calls\<close>, \<open>Call_Props\<close>: the remote calls of \<^verbatim>\<open>exception.cc\<close> and the entry point
    \<^verbatim>\<open>ExceptionHandler\<close>; which routine serves which exception, what registers and counters are afterwards.

  \<^emph>\<open>Files (\<^verbatim>\<open>filesys/\<close>) and network (\<^verbatim>\<open>network/\<close>).\<close>
  \<^item> \<open>Open_File\<close>: \<^verbatim>\<open>filehdr.cc\<close> and \<^verbatim>\<open>openfile.cc\<close>; an open file is a byte array.
  \<^item> \<open>File_Directory\<close>, \<open>File_System\<close>: \<^verbatim>\<open>directory.cc\<close> and \<^verbatim>\<open>filesys.cc\<close>; after any
    history of operations the disk is consistent, and the file system is a map from names to byte arrays.
  \<^item> \<open>File_Tests\<close>: \<^verbatim>\<open>fstest.cc\<close>; a copied file prints as it was, the performance test finds its data.
  \<^item> \<open>Net_Server\<close>, \<open>Server_Props\<close>: the server of \<^verbatim>\<open>nettest.cc\<close>, every request and its replies; a single server handles every
    well-formed request from a legal mailbox as long as nothing is destroyed, and a lock belongs to one client.

  \<^emph>\<open>Tools (\<^verbatim>\<open>bin/\<close>) and introduction (\<^verbatim>\<open>c++example/\<close>).\<close>
  \<^item> \<open>Coff_Noff\<close>: \<^verbatim>\<open>coff2noff.c\<close>; the kernel loads from a converted program what the linker put there.
  \<^item> \<open>Interpreter\<close>: \<^verbatim>\<open>execute.c\<close>, a second simulator of the processor, and the instructions for which it agrees with \<open>Mips_Sim\<close>.
  \<^item> \<open>Example_Stacks\<close>: the stacks and the list of \<^verbatim>\<open>c++example\<close>, with one locale for the abstract class.

  \<^bold>\<open>How the parts fit.\<close> The frames and swap slots of \<open>Virtual_Memory\<close>, the handles of \<open>Open_Table\<close> and the sectors of
  \<open>File_System\<close> come from the bit map through the locale \<open>allocator\<close>; the file system reaches the disk through
  \<open>sector_store\<close>; the pending interrupts of \<open>Interrupts\<close> and the ready list are sorted and plain lists of \<open>Linked_List\<close>; the
  devices of \<open>Post_Office\<close> and \<open>Console_Device\<close> are driven by the interrupt controller; the system calls run on
  \<open>Virtual_Memory\<close> through \<open>User_Memory\<close>, and the remote ones are the clients of \<open>Net_Server\<close>.

  \<^bold>\<open>Loops and fuel.\<close> Loops over data are recursive functions with a termination proof. Where a loop of the code waits for
  something else to happen (a busy processor, an interrupt, a page fault that is handled and retried) the model
  has fuel, and a lemma gives the amount that suffices: \<open>OneTick_fires_due\<close> for the interrupt controller,
  \<open>copyin_reads_user_memory\<close> for the retries of \<^verbatim>\<open>copyin\<close>. Waiting of threads is a step relation over all interleavings. The
  main loop of the server, which never ends, is modelled by one round, that of the machine by any number of rounds.

  \<^bold>\<open>Assumptions.\<close> What the theorems suppose beyond the code, stated with each of them:
  \<^item> Paging routines (page faults, \<^verbatim>\<open>Exec\<close>, \<^verbatim>\<open>Fork\<close>, \<^verbatim>\<open>Exit\<close>) and the copies between user memory and the kernel run without
    time slicing (option \<^verbatim>\<open>-rs\<close>), so that they do not overlap. The runs of \<open>vm_step\<close> contain \<^verbatim>\<open>Fork\<close> and \<^verbatim>\<open>Exit\<close> of one
    of several threads under the conditions without which they damage memory: \<^verbatim>\<open>Fork\<close> with no page of the process in the
    swap file, \<^verbatim>\<open>Exit\<close> with the stack of the thread in memory. Both conditions are shown to be needed.
  \<^item> Bounds where the code has none: semaphore values below \<open>2 ^ 31\<close>, address spaces below \<open>2 ^ 32\<close> bytes, files of at most
    3840 bytes, mailboxes 0 to 9, fewer than 127 locks on a server, lock names that fit a request.
  \<^item> The clock is unbounded (the code counts in a 64-bit integer).

  \<^bold>\<open>Not modelled.\<close>
  \<^item> \<^verbatim>\<open>threads/switch.s\<close> (assembly of the host): the effect of \<^verbatim>\<open>SWITCH\<close> is part of \<open>Thread_Kernel\<close>.
  \<^item> \<^verbatim>\<open>machine/sysdep.cc\<close>: wrappers of UNIX calls. Where the kernel uses them, files, sockets and random numbers are
    arguments or part of the state.
  \<^item> \<^verbatim>\<open>machine/stats.cc\<close>, \<^verbatim>\<open>threads/utility.cc\<close>, \<^verbatim>\<open>Print\<close> and \<^verbatim>\<open>DumpState\<close> routines: output only.
  \<^item> \<^verbatim>\<open>bin/d.c\<close>, \<^verbatim>\<open>disasm.c\<close>, \<^verbatim>\<open>opstrings.c\<close>, \<^verbatim>\<open>out.c\<close>, \<^verbatim>\<open>main.c\<close>, \<^verbatim>\<open>system.c\<close>: printing of programs and calls of the host's
    system on behalf of interpreted programs.
  \<^item> \<^verbatim>\<open>test/\<close>: user programs in C for the simulated machine; they are inputs of the kernel.
\<close>

end
